(* ===== verification/Ovpn_Prelude.thy ===== *)
theory Ovpn_Prelude
  imports Main "HOL-Library.Word" "HOL-Library.Monad_Syntax"
begin

text \<open>
  Shared vocabulary of the development: machine integer types, the assertion
  macro, network byte order, and the list lemmas on slices that every
  component working on raw memory uses.

  Conventions.  A C \<open>int\<close> or \<open>time_t\<close> is an \<open>int\<close>; an unsigned fixed-width
  integer that may wrap is a word.  A function that can abort the process
  (a failing \<open>ASSERT\<close>, \<open>msg (M_FATAL, ...)\<close>, a dereference of NULL) returns an
  option: \<open>None\<close> means that it does not return.
\<close>

unbundle bit_operations_syntax

type_synonym u8 = "8 word"
type_synonym u16 = "16 word"
type_synonym u32 = "32 word"
type_synonym u64 = "64 word"
type_synonym bytes = "u8 list"

named_theorems wf_intros \<open>operations keep the well-formedness invariant of their component\<close>
named_theorems ovpn_defs \<open>definitions of small helpers that proofs always unfold\<close>

subsection \<open>Assertions\<close>

text \<open>\<open>ASSERT(x)\<close> of error.h: the process aborts when the condition fails.\<close>

definition ASSERT :: "bool \<Rightarrow> unit option" where
  "ASSERT b = (if b then Some () else None)"

lemma ASSERT_simps [simp]:
  "ASSERT True = Some ()"
  "ASSERT False = None"
  "(ASSERT b = Some u) = b"
  "(ASSERT b = None) = (\<not> b)"
  by (simp_all add: ASSERT_def)

lemma ASSERT_bind [simp]: "(ASSERT b \<bind> f) = (if b then f () else None)"
  by (simp add: ASSERT_def)

subsection \<open>Sums of type int\<close>

text \<open>A sum of C type \<open>int\<close>; an overflow has no defined result.\<close>

definition int_sum :: "int \<Rightarrow> int \<Rightarrow> int option" where
  "int_sum x y = (if - 2147483648 \<le> x + y \<and> x + y \<le> 2147483647 then Some (x + y) else None)"

lemma int_sum_fits [simp]: "- 2147483648 \<le> x + y \<Longrightarrow> x + y \<le> 2147483647 \<Longrightarrow> int_sum x y = Some (x + y)"
  by (simp add: int_sum_def)

lemma int_sum_Some_iff: "int_sum x y = Some z \<longleftrightarrow> z = x + y \<and> - 2147483648 \<le> z \<and> z \<le> 2147483647"
  by (auto simp: int_sum_def)

subsection \<open>Network byte order\<close>

text \<open>
  \<open>htons\<close> and \<open>htonl\<close> followed by a copy of the integer's memory produce its
  bytes, most significant first; reading them back with \<open>ntohs\<close> and \<open>ntohl\<close> is
  the inverse.  Neither depends on the host's own byte order.
\<close>

definition be16_bytes :: "u16 \<Rightarrow> bytes" where
  "be16_bytes w = [ucast (drop_bit 8 w), ucast w]"

definition be32_bytes :: "u32 \<Rightarrow> bytes" where
  "be32_bytes w =
     [ucast (drop_bit 24 w), ucast (drop_bit 16 w), ucast (drop_bit 8 w), ucast w]"

definition be16_of :: "bytes \<Rightarrow> u16" where
  "be16_of bs = push_bit 8 (ucast (bs ! 0)) OR ucast (bs ! 1)"

definition be32_of :: "bytes \<Rightarrow> u32" where
  "be32_of bs = push_bit 24 (ucast (bs ! 0)) OR push_bit 16 (ucast (bs ! 1))
     OR push_bit 8 (ucast (bs ! 2)) OR ucast (bs ! 3)"

lemma length_be_bytes [simp]:
  "length (be16_bytes w) = 2"
  "length (be32_bytes v) = 4"
  by (simp_all add: be16_bytes_def be32_bytes_def)

lemma be16_of_list: "be16_of [a, b] = push_bit 8 (ucast a) OR ucast b"
  by (simp add: be16_of_def)

lemma be32_of_list:
  "be32_of [a, b, c, d] =
     push_bit 24 (ucast a) OR push_bit 16 (ucast b) OR push_bit 8 (ucast c) OR ucast d"
  by (simp add: be32_of_def)

lemma be16_of_bytes [simp]: "be16_of (be16_bytes w) = w"
  unfolding be16_bytes_def be16_of_list
  by (intro bit_word_eqI) (auto simp: bit_simps)

lemma bit_u8_high [simp]: "8 \<le> n \<Longrightarrow> \<not> bit (w :: u8) n"
  using bit_imp_le_length [of w n] by auto

lemma be32_of_bytes [simp]: "be32_of (be32_bytes w) = w"
proof (rule bit_word_eqI)
  fix n assume "n < LENGTH(32)"
  then have "n < 8 \<or> n = 8 + (n - 8) \<and> n - 8 < 8 \<or> n = 16 + (n - 16) \<and> n - 16 < 8
      \<or> n = 24 + (n - 24) \<and> n - 24 < 8"
    by auto
  then consider "n < 8" | k where "n = 8 + k" "k < 8" | k where "n = 16 + k" "k < 8"
    | k where "n = 24 + k" "k < 8"
    by metis
  then show "bit (be32_of (be32_bytes w)) n = bit w n"
    unfolding be32_bytes_def be32_of_list
    by cases (auto simp: bit_simps)
qed

lemma be32_bytes_of:
  assumes "length bs = 4"
  shows "be32_bytes (be32_of bs) = bs"
proof -
  from assms obtain a b c d where bs: "bs = [a, b, c, d]"
    by (auto simp: numeral_eq_Suc length_Suc_conv)
  show ?thesis
    unfolding bs be32_of_list be32_bytes_def
    by (auto intro!: bit_word_eqI simp: bit_simps)
qed

lemma be32_of_inject:
  assumes "length xs = 4" and "length ys = 4" and "be32_of xs = be32_of ys"
  shows "xs = ys"
  using assms be32_bytes_of by metis

subsection \<open>Slices of memory\<close>

text \<open>\<open>memcpy (p + i, ys, length ys)\<close> into the block \<open>xs\<close>.\<close>

definition patch :: "'a list \<Rightarrow> nat \<Rightarrow> 'a list \<Rightarrow> 'a list" where
  "patch xs i ys = take i xs @ ys @ drop (i + length ys) xs"

text \<open>The \<open>n\<close> elements from index \<open>i\<close>.\<close>

definition segment :: "nat \<Rightarrow> nat \<Rightarrow> 'a list \<Rightarrow> 'a list" where
  "segment i n xs = take n (drop i xs)"

lemma length_patch [simp]:
  "i + length ys \<le> length xs \<Longrightarrow> length (patch xs i ys) = length xs"
  by (simp add: patch_def)

lemma length_segment [simp]: "length (segment i n xs) = min n (length xs - i)"
  by (simp add: segment_def)

lemma segment_0 [simp]: "segment i 0 xs = []"
  by (simp add: segment_def)

lemma patch_Nil [simp]: "patch xs i [] = xs"
  by (simp add: patch_def)

lemma segment_append: "segment i m xs @ segment (i + m) n xs = segment i (m + n) xs"
  by (simp add: segment_def take_add add.commute)

lemma segment_patch_same:
  "i + length ys \<le> length xs \<Longrightarrow> segment i (length ys) (patch xs i ys) = ys"
  by (simp add: segment_def patch_def)

lemma segment_patch_left:
  assumes "j + n \<le> i" and "i + length ys \<le> length xs"
  shows "segment j n (patch xs i ys) = segment j n xs"
proof -
  have "take (j + n) (patch xs i ys) = take (j + n) xs"
    using assms by (simp add: patch_def min_def)
  then show ?thesis by (simp add: segment_def take_drop add.commute)
qed

lemma segment_patch_right:
  assumes "i + length ys \<le> j" and "i + length ys \<le> length xs"
  shows "segment j n (patch xs i ys) = segment j n xs"
proof -
  have "drop j (patch xs i ys) = drop j xs"
    using assms by (simp add: patch_def)
  then show ?thesis by (simp add: segment_def)
qed

lemma segment_nth: "k < n \<Longrightarrow> i + n \<le> length xs \<Longrightarrow> segment i n xs ! k = xs ! (i + k)"
  by (simp add: segment_def)

lemma segment_split:
  "segment i (m + n) xs = segment i m xs @ segment (i + m) n xs"
  by (simp add: segment_append)

lemma segment_all: "segment 0 (length xs) xs = xs"
  by (simp add: segment_def)

lemma segment_segment: "j + m \<le> n \<Longrightarrow> segment j m (segment i n xs) = segment (i + j) m xs"
  by (simp add: segment_def drop_take min_def add.commute)

lemma segment_of_patch:
  assumes "k + length ys \<le> n" and "i + n \<le> length xs"
  shows "segment i n (patch xs (i + k) ys) = patch (segment i n xs) k ys"
proof -
  obtain m where n: "n = k + (length ys + m)"
    using assms(1) by (metis add.assoc le_Suc_ex)
  have "segment i n (patch xs (i + k) ys) = segment i k xs @ ys @ segment (i + k + length ys) m xs"
    unfolding n segment_split using assms n
    by (simp add: segment_patch_left segment_patch_same segment_patch_right)
  also have "\<dots> = patch (segment i n xs) k ys"
    using assms n by (simp add: segment_def patch_def drop_take min_def add.commute add.left_commute)
  finally show ?thesis .
qed

lemma nth_patch:
  "i + length ys \<le> length xs \<Longrightarrow> j < length xs \<Longrightarrow>
     patch xs i ys ! j = (if i \<le> j \<and> j < i + length ys then ys ! (j - i) else xs ! j)"
  by (auto simp: patch_def nth_append min_def)

subsection \<open>Lists and options\<close>

lemma length_take_le: "length (take n xs) \<le> length xs"
  by simp

lemma take_Cons_take: "take n (x # take n xs) = take n (x # xs)"
  by (cases n) (simp_all add: min_def)

lemma take_replicate_take:
  "take n (replicate k v @ take n (v # xs)) = take n (replicate (Suc k) v @ xs)"
proof -
  have "replicate k v @ v # xs = replicate (Suc k) v @ xs"
    by (simp add: replicate_app_Cons_same)
  moreover have "take n (replicate k v @ take n ys) = take n (replicate k v @ ys)" for ys
    by simp
  ultimately show ?thesis by metis
qed

lemma all_less_Suc_iff: "(\<forall>i < Suc n. P i) \<longleftrightarrow> P n \<and> (\<forall>i < n. P i)"
  by (auto simp: less_Suc_eq)

lemma option_bind_Some_iff: "(m \<bind> f) = Some y \<longleftrightarrow> (\<exists>x. m = Some x \<and> f x = Some y)"
  by (cases m) auto

lemma unat_le_bound32: "unat (x :: u32) < 4294967296"
  using unsigned_less [of x, where ?'a = nat] by simp

lemma unat_numeral_u32_max: "unat (4294967295 :: u32) = 4294967295"
  by simp

lemma unat_Suc32: "x < y \<Longrightarrow> unat (x + 1 :: u32) = Suc (unat x)"
  by unat_arith

lemma less_plus_one_u32:
  assumes "(w :: u32) \<noteq> 4294967295"
  shows "w < w + 1"
proof -
  have "unat w \<noteq> 4294967295" using assms by (metis unat_numeral_u32_max word_unat_eq_iff)
  then have "unat w < 4294967295" using unat_le_bound32 [of w] by linarith
  then have "unat (w + 1) = Suc (unat w)" by (simp add: unat_word_ariths)
  then show ?thesis by (simp add: word_less_nat_alt)
qed

subsection \<open>Positions on a circle\<close>

lemma circle_pos_inject:
  assumes "((a::nat) + i) mod m = (a + j) mod m" "i < m" "j < m"
  shows "i = j"
proof -
  have *: "k = l" if "((a::nat) + k) mod m = (a + l) mod m" "k < m" "l < m" "k \<le> l" for k l
  proof -
    have "m dvd (a + l) - (a + k)"
      using that mod_eq_dvd_iff_nat [of "a + k" "a + l" m] by simp
    then have "m dvd l - k" by simp
    then show ?thesis using that by (metis diff_is_0_eq dvd_imp_le less_imp_diff_less
          linorder_not_less neq0_conv le_antisym)
  qed
  show ?thesis using * [of i j] * [of j i] assms by (metis nat_le_linear)
qed

subsection \<open>Host byte order\<close>

text \<open>
  A 16-bit field in memory, read and written in the host's byte order; \<open>le\<close> says whether the
  host is little-endian.
\<close>

definition native16 :: "bool \<Rightarrow> u8 \<Rightarrow> u8 \<Rightarrow> int" where
  "native16 le a b = (if le then uint a + 256 * uint b else 256 * uint a + uint b)"

definition native16_bytes :: "bool \<Rightarrow> u16 \<Rightarrow> bytes" where
  "native16_bytes le w = (if le then [ucast w, ucast (drop_bit 8 w)] else [ucast (drop_bit 8 w), ucast w])"

text \<open>\<open>htons\<close>: the value whose memory holds the bytes most significant first.\<close>

definition htons_value :: "bool \<Rightarrow> u16 \<Rightarrow> int" where
  "htons_value le w = native16 le (ucast (drop_bit 8 w)) (ucast w)"

lemma native16_bytes_value: "native16 le (native16_bytes le w ! 0) (native16_bytes le w ! 1) = uint w"
proof -
  have "uint (ucast w :: u8) = uint w mod 256" by (simp add: unsigned_ucast_eq take_bit_eq_mod)
  moreover have "uint (ucast (drop_bit 8 w) :: u8) = uint w div 256"
  proof -
    have "uint w div 256 < 256" "0 \<le> uint w div 256" using uint_lt2p [of w] by (auto simp: pos_imp_zdiv_nonneg_iff)
    then show ?thesis by (simp add: unsigned_ucast_eq take_bit_eq_mod uint_div drop_bit_eq_div)
  qed
  ultimately show ?thesis by (simp add: native16_def native16_bytes_def)
qed

lemma native16_range: "0 \<le> native16 le a b" "native16 le a b < 65536"
  using uint_lt2p [of a] uint_lt2p [of b] by (auto simp: native16_def)

lemma uint_native16: "uint (word_of_int (native16 le a b) :: u16) = native16 le a b"
  using native16_range [of le a b] by (simp add: uint_word_of_int)

lemma native16_bytes_list: "native16_bytes le w = [native16_bytes le w ! 0, native16_bytes le w ! 1]"
  by (simp add: native16_bytes_def)

end
