(* ===== verification/Ovpn_Integer.thy ===== *)
theory Ovpn_Integer
  imports Ovpn_Prelude
begin

text \<open>
  The integer helpers of src/openvpn/integer.h: minimum, maximum and clamping,
  the arithmetic on a circle that circular buffers and sliding windows use,
  rounding to a power of two, and the array bound check.
\<close>

subsection \<open>The functions\<close>

definition clamp_size_to_int :: "nat \<Rightarrow> int option" where
  "clamp_size_to_int sz = do { ASSERT (sz \<le> 2147483647); Some (int sz) }"

definition max_uint :: "u32 \<Rightarrow> u32 \<Rightarrow> u32" where
  "max_uint x y = (if x > y then x else y)"

definition min_uint :: "u32 \<Rightarrow> u32 \<Rightarrow> u32" where
  "min_uint x y = (if x < y then x else y)"

definition max_int :: "int \<Rightarrow> int \<Rightarrow> int" where
  "max_int x y = (if x > y then x else y)"

definition min_int :: "int \<Rightarrow> int \<Rightarrow> int" where
  "min_int x y = (if x < y then x else y)"

definition constrain_int :: "int \<Rightarrow> int \<Rightarrow> int \<Rightarrow> int" where
  "constrain_int x lo hi =
     (if lo > hi then lo else if x < lo then lo else if x > hi then hi else x)"

definition modulo_subtract :: "int \<Rightarrow> int \<Rightarrow> int \<Rightarrow> int option" where
  "modulo_subtract x y m =
     (let d1 = x - y; d2 = (if x > y then - m else m) + d1 in do {
        ASSERT (0 \<le> x \<and> x < m \<and> 0 \<le> y \<and> y < m);
        Some (if \<bar>d1\<bar> > \<bar>d2\<bar> then d2 else d1) })"

definition modulo_add :: "int \<Rightarrow> int \<Rightarrow> int \<Rightarrow> int option" where
  "modulo_add x y m =
     (let sum = x + y in do {
        ASSERT (0 \<le> x \<and> x < m \<and> - m \<le> y \<and> y \<le> m);
        let sum = (if sum \<ge> m then sum - m else sum);
        let sum = (if sum < 0 then sum + m else sum);
        Some sum })"

text \<open>
  \<open>while (ret < u) { ret <<= 1; ASSERT (ret > 0); }\<close> on a 64-bit \<open>size_t\<close>;
  \<open>None\<close> when the loop does not end normally.
\<close>

partial_function (option) adjust_power_of_2_loop :: "u64 \<Rightarrow> u64 \<Rightarrow> u64 option" where
  "adjust_power_of_2_loop u ret =
     (if ret < u
      then (if push_bit 1 ret > 0 then adjust_power_of_2_loop u (push_bit 1 ret) else None)
      else Some ret)"

definition adjust_power_of_2 :: "u64 \<Rightarrow> u64 option" where
  "adjust_power_of_2 u = adjust_power_of_2_loop u 1"

definition index_verify :: "int \<Rightarrow> int \<Rightarrow> int option" where
  "index_verify i sz = (if i < 0 \<or> i \<ge> sz then None else Some i)"

text \<open>A zero \<open>multiple\<close> is a division by zero.\<close>

definition round_down_size :: "nat \<Rightarrow> nat \<Rightarrow> nat option" where
  "round_down_size num multiple =
     (if multiple = 0 then None else Some (num div multiple * multiple))"

subsection \<open>Circle arithmetic\<close>

lemma min_int_eq [simp]: "min_int x y = min x y"
  by (simp add: min_int_def min_def)

lemma max_int_eq [simp]: "max_int x y = max x y"
  by (simp add: max_int_def max_def)

lemma constrain_int_eq: "lo \<le> hi \<Longrightarrow> constrain_int x lo hi = max lo (min hi x)"
  by (simp add: constrain_int_def)

lemma modulo_add_eq:
  assumes "0 \<le> x" "x < m" "- m \<le> y" "y \<le> m"
  shows "modulo_add x y m = Some ((x + y) mod m)"
proof -
  consider "x + y < 0" | "0 \<le> x + y \<and> x + y < m" | "m \<le> x + y" by linarith
  then show ?thesis
  proof cases
    case 1
    then have "(x + y) mod m = x + y + m"
      using assms by (smt (verit) mod_add_self2 mod_pos_pos_trivial)
    then show ?thesis using 1 assms by (simp add: modulo_add_def)
  next
    case 2
    then show ?thesis using assms by (simp add: modulo_add_def mod_pos_pos_trivial)
  next
    case 3
    then have "(x + y) mod m = x + y - m"
      using assms by (smt (verit) minus_mod_self2 mod_pos_pos_trivial)
    then show ?thesis using 3 assms by (simp add: modulo_add_def)
  qed
qed

lemma modulo_add_None: "\<not> (0 \<le> x \<and> x < m \<and> - m \<le> y \<and> y \<le> m) \<Longrightarrow> modulo_add x y m = None"
  by (simp add: modulo_add_def Let_def del: not_le)

lemma modulo_subtract_Some:
  "modulo_subtract x y m = Some d \<longleftrightarrow>
     0 \<le> x \<and> x < m \<and> 0 \<le> y \<and> y < m \<and>
     d = (let d1 = x - y; d2 = (if x > y then - m else m) + d1
          in if \<bar>d1\<bar> > \<bar>d2\<bar> then d2 else d1)"
  by (auto simp: modulo_subtract_def Let_def)

text \<open>The difference on the circle undoes addition and is at most half the circle.\<close>

lemma modulo_subtract_spec:
  assumes "0 \<le> x" "x < m" "0 \<le> y" "y < m"
  obtains d where "modulo_subtract x y m = Some d" "(y + d) mod m = x" "2 * \<bar>d\<bar> \<le> m"
proof -
  define d where "d = (let d1 = x - y; d2 = (if x > y then - m else m) + d1
                       in if \<bar>d1\<bar> > \<bar>d2\<bar> then d2 else d1)"
  have ds: "d = x - y \<or> d = x - y - m \<or> d = x - y + m"
    by (simp add: d_def Let_def)
  have "modulo_subtract x y m = Some d"
    using assms by (simp add: modulo_subtract_Some d_def)
  moreover have "(y + d) mod m = x"
    using ds assms by (auto simp: mod_pos_pos_trivial)
  moreover have "2 * \<bar>d\<bar> \<le> m"
    using assms by (auto simp: d_def Let_def)
  ultimately show ?thesis by (rule that)
qed

lemma index_verify_Some [simp]: "(index_verify i n = Some j) = (j = i \<and> 0 \<le> i \<and> i < n)"
  by (auto simp: index_verify_def)

lemma index_verify_ok: "0 \<le> i \<Longrightarrow> i < n \<Longrightarrow> index_verify i n = Some i"
  by simp

subsection \<open>Rounding\<close>

lemma unat_push_bit_1_u64:
  assumes "k < 64"
  shows "unat (push_bit k 1 :: u64) = 2 ^ k"
proof -
  have "(2::nat) ^ k < 2 ^ 64"
    using assms by (rule power_strict_increasing) simp
  then show ?thesis
    by (subst unsigned_push_bit_eq) (simp add: push_bit_eq_mult take_bit_eq_mod)
qed

lemma adjust_loop_finds:
  assumes "unat u \<le> 2 ^ 63" and "k \<le> 63" and "k = 0 \<or> 2 ^ (k - 1) < unat u"
  shows "\<exists>j \<le> 63. adjust_power_of_2_loop u (push_bit k 1) = Some (push_bit j 1)
           \<and> unat u \<le> 2 ^ j \<and> (j = 0 \<or> 2 ^ (j - 1) < unat u)"
  using assms(2,3)
proof (induction k rule: inc_induct)
  case base
  have "\<not> push_bit 63 1 < u"
    using assms(1) by (simp add: word_less_nat_alt unat_push_bit_1_u64 del: push_bit_of_1)
  then show ?case
    using assms(1) base by (intro exI [of _ 63]) (simp add: adjust_power_of_2_loop.simps)
next
  case (step k)
  show ?case
  proof (cases "push_bit k 1 < u")
    case True
    then have "2 ^ k < unat u"
      using step.hyps by (simp add: word_less_nat_alt unat_push_bit_1_u64 del: push_bit_of_1)
    moreover have "push_bit 1 (push_bit k 1 :: u64) > 0"
      using step.hyps unat_push_bit_1_u64 [of "Suc k"]
      by (simp add: word_less_nat_alt push_bit_push_bit add.commute del: push_bit_of_1)
    ultimately show ?thesis
      using step.IH True
      by (subst adjust_power_of_2_loop.simps) (simp add: push_bit_push_bit del: push_bit_of_1)
  next
    case False
    then have "unat u \<le> 2 ^ k"
      using step.hyps by (simp add: word_less_nat_alt unat_push_bit_1_u64 not_less del: push_bit_of_1)
    then show ?thesis
      using False step.hyps step.prems
      by (intro exI [of _ k]) (simp add: adjust_power_of_2_loop.simps)
  qed
qed

lemma adjust_power_of_2_Some:
  assumes "unat u \<le> 2 ^ 63"
  obtains j where "adjust_power_of_2 u = Some (push_bit j 1)" "j \<le> 63"
    "unat u \<le> 2 ^ j" "j = 0 \<or> 2 ^ (j - 1) < unat u"
  using adjust_loop_finds [OF assms, of 0] that by (auto simp: adjust_power_of_2_def)

lemma round_down_size_spec:
  assumes "0 < m"
  obtains r where "round_down_size n m = Some r" "r \<le> n" "n < r + m" "m dvd r"
proof
  show "round_down_size n m = Some (n div m * m)"
    using assms by (simp add: round_down_size_def)
  show "n < n div m * m + m"
    using assms div_mult_mod_eq [of n m] mod_less_divisor [of m n] by linarith
qed simp_all

end
