(* ===== verification/Circ_List.thy ===== *)
theory Circ_List
  imports Ovpn_Integer
begin

text \<open>
  The circular list macros of src/openvpn/circ_list.h: a fixed array with a
  moving head, into which new items are pushed at the front, the oldest item
  dropping out when the array is full.  The replay window of packet_id.c is
  the client; the locale \<open>recency_window\<close> is the interface it relies on, and the
  macros are proved to provide it.
\<close>

subsection \<open>State and operations\<close>

record 'a circ_list =
  x_head :: int
  x_size :: int
  x_cap :: int
  x_list :: "'a list"

text \<open>\<open>CIRC_LIST_ALLOC\<close>: zeroed memory (\<open>z\<close> is the item type's zero) and the capacity.\<close>

definition CIRC_LIST_ALLOC :: "'a \<Rightarrow> int \<Rightarrow> 'a circ_list" where
  "CIRC_LIST_ALLOC z sz = \<lparr>x_head = 0, x_size = 0, x_cap = sz, x_list = replicate (nat sz) z\<rparr>"

definition CIRC_LIST_PUSH :: "'a circ_list \<Rightarrow> 'a \<Rightarrow> 'a circ_list option" where
  "CIRC_LIST_PUSH obj item = do {
     h \<leftarrow> modulo_add (x_head obj) (- 1) (x_cap obj);
     Some (obj\<lparr>x_head := h, x_list := (x_list obj)[nat h := item],
               x_size := min_int (x_size obj + 1) (x_cap obj)\<rparr>) }"

definition CIRC_LIST_SIZE :: "'a circ_list \<Rightarrow> int" where
  "CIRC_LIST_SIZE obj = x_size obj"

definition CIRC_LIST_INDEX :: "'a circ_list \<Rightarrow> int \<Rightarrow> int option" where
  "CIRC_LIST_INDEX obj i = do {
     j \<leftarrow> index_verify i (x_size obj);
     modulo_add (x_head obj) j (x_cap obj) }"

text \<open>\<open>CIRC_LIST_ITEM\<close> as a value, and as the target of an assignment.\<close>

definition CIRC_LIST_ITEM :: "'a circ_list \<Rightarrow> int \<Rightarrow> 'a option" where
  "CIRC_LIST_ITEM obj i = do { k \<leftarrow> CIRC_LIST_INDEX obj i; Some (x_list obj ! nat k) }"

definition CIRC_LIST_SET :: "'a circ_list \<Rightarrow> int \<Rightarrow> 'a \<Rightarrow> 'a circ_list option" where
  "CIRC_LIST_SET obj i v = do {
     k \<leftarrow> CIRC_LIST_INDEX obj i;
     Some (obj\<lparr>x_list := (x_list obj)[nat k := v]\<rparr>) }"

definition CIRC_LIST_RESET :: "'a circ_list \<Rightarrow> 'a circ_list" where
  "CIRC_LIST_RESET obj = obj\<lparr>x_head := 0, x_size := 0\<rparr>"

subsection \<open>Abstraction: the items, newest first\<close>

definition circ_wf :: "'a circ_list \<Rightarrow> bool" where
  "circ_wf c \<longleftrightarrow> 0 < x_cap c \<and> 0 \<le> x_head c \<and> x_head c < x_cap c \<and> 0 \<le> x_size c
     \<and> x_size c \<le> x_cap c \<and> length (x_list c) = nat (x_cap c)"

definition circ_pos :: "'a circ_list \<Rightarrow> nat \<Rightarrow> nat" where
  "circ_pos c i = (nat (x_head c) + i) mod nat (x_cap c)"

definition circ_items :: "'a circ_list \<Rightarrow> 'a list" where
  "circ_items c = map (\<lambda>i. x_list c ! circ_pos c i) [0..<nat (x_size c)]"

lemma length_circ_items: "length (circ_items c) = nat (x_size c)"
  by (simp add: circ_items_def)

lemma circ_wf_ALLOC [wf_intros]:
  "0 < sz \<Longrightarrow> circ_wf (CIRC_LIST_ALLOC z sz)"
  by (simp add: circ_wf_def CIRC_LIST_ALLOC_def)

lemma circ_items_ALLOC [simp]: "circ_items (CIRC_LIST_ALLOC z sz) = []"
  by (simp add: circ_items_def CIRC_LIST_ALLOC_def)

lemma CIRC_LIST_INDEX_eq:
  assumes "circ_wf c" "0 \<le> i" "i < x_size c"
  shows "CIRC_LIST_INDEX c i = Some (int (circ_pos c (nat i)))"
proof -
  have "modulo_add (x_head c) i (x_cap c) = Some ((x_head c + i) mod x_cap c)"
    using assms by (intro modulo_add_eq) (auto simp: circ_wf_def)
  moreover have "int (circ_pos c (nat i)) = (x_head c + i) mod x_cap c"
    using assms by (simp add: circ_pos_def circ_wf_def zmod_int)
  ultimately show ?thesis using assms by (simp add: CIRC_LIST_INDEX_def index_verify_ok)
qed

lemma circ_pos_less: "circ_wf c \<Longrightarrow> circ_pos c i < length (x_list c)"
  by (simp add: circ_wf_def circ_pos_def)

lemma circ_item:
  assumes "circ_wf c" "0 \<le> i" "i < x_size c"
  shows "CIRC_LIST_ITEM c i = Some (circ_items c ! nat i)"
  using assms by (simp add: CIRC_LIST_ITEM_def CIRC_LIST_INDEX_eq circ_items_def)

lemma circ_item_out: "\<not> (0 \<le> i \<and> i < x_size c) \<Longrightarrow> CIRC_LIST_ITEM c i = None"
  by (auto simp: CIRC_LIST_ITEM_def CIRC_LIST_INDEX_def index_verify_def)

lemma circ_set:
  assumes "circ_wf c" "0 \<le> i" "i < x_size c"
  shows "\<exists>c'. CIRC_LIST_SET c i v = Some c' \<and> circ_wf c' \<and> x_cap c' = x_cap c
           \<and> circ_items c' = (circ_items c)[nat i := v]"
proof -
  let ?c = "c\<lparr>x_list := (x_list c)[circ_pos c (nat i) := v]\<rparr>"
  have "CIRC_LIST_SET c i v = Some ?c"
    using assms by (simp add: CIRC_LIST_SET_def CIRC_LIST_INDEX_eq)
  moreover have "circ_wf ?c" using assms by (simp add: circ_wf_def)
  moreover have "circ_items ?c = (circ_items c)[nat i := v]"
  proof (rule nth_equalityI)
    fix j assume "j < length (circ_items ?c)"
    then have j: "j < nat (x_size c)" by (simp add: circ_items_def)
    have "circ_pos c (nat i) = circ_pos c j \<longleftrightarrow> nat i = j"
      using circle_pos_inject [of "nat (x_head c)" "nat i" "nat (x_cap c)" j] assms j
      by (auto simp: circ_pos_def circ_wf_def)
    then show "circ_items ?c ! j = (circ_items c)[nat i := v] ! j"
      using j assms circ_pos_less [of c "nat i"]
      by (auto simp: circ_items_def circ_pos_def nth_list_update)
  qed (simp add: circ_items_def)
  ultimately show ?thesis by auto
qed

lemma circ_push:
  assumes "circ_wf c"
  shows "\<exists>c'. CIRC_LIST_PUSH c v = Some c' \<and> circ_wf c' \<and> x_cap c' = x_cap c
           \<and> circ_items c' = take (nat (x_cap c)) (v # circ_items c)"
proof -
  define h where "h = (x_head c - 1) mod x_cap c"
  define c' where "c' = c\<lparr>x_head := h, x_list := (x_list c)[nat h := v],
                          x_size := min (x_size c + 1) (x_cap c)\<rparr>"
  have w: "0 < x_cap c" "0 \<le> x_head c" "x_head c < x_cap c" "0 \<le> x_size c"
    "x_size c \<le> x_cap c" "length (x_list c) = nat (x_cap c)"
    using assms by (auto simp: circ_wf_def)
  have h: "0 \<le> h" "h < x_cap c" using w by (auto simp: h_def)
  have "modulo_add (x_head c) (- 1) (x_cap c) = Some h"
    using modulo_add_eq [of "x_head c" "x_cap c" "- 1"] w by (simp add: h_def)
  then have push: "CIRC_LIST_PUSH c v = Some c'"
    by (simp add: CIRC_LIST_PUSH_def c'_def)
  have wf: "circ_wf c'" using w h by (auto simp: circ_wf_def c'_def)
  have pos0: "circ_pos c' 0 = nat h"
    using h by (simp add: circ_pos_def c'_def nat_less_iff)
  have posS: "circ_pos c' (Suc k) = circ_pos c k" for k
  proof -
    have "(h + (1 + int k)) mod x_cap c = (x_head c + int k) mod x_cap c"
      by (simp add: h_def mod_add_left_eq)
    then have "int (circ_pos c' (Suc k)) = int (circ_pos c k)"
      using w h by (simp add: circ_pos_def c'_def zmod_int algebra_simps)
    then show ?thesis by simp
  qed
  have "circ_items c' = take (nat (x_cap c)) (v # circ_items c)"
  proof (rule nth_equalityI)
    show len: "length (circ_items c') = length (take (nat (x_cap c)) (v # circ_items c))"
      using w by (auto simp: circ_items_def c'_def min_def)
    fix j assume "j < length (circ_items c')"
    then have j: "j < nat (x_cap c)" "j < Suc (nat (x_size c))"
      using w by (auto simp: circ_items_def c'_def min_def split: if_splits)
    have new: "circ_items c' ! j = x_list c' ! circ_pos c' j"
      using j w by (auto simp: circ_items_def c'_def min_def)
    show "circ_items c' ! j = take (nat (x_cap c)) (v # circ_items c) ! j"
    proof (cases j)
      case 0
      then show ?thesis using new pos0 j w h by (simp add: c'_def)
    next
      case (Suc k)
      have "circ_pos c' j \<noteq> circ_pos c' 0"
        using circle_pos_inject [of "nat h" j "nat (x_cap c)" 0] Suc j w(1)
        by (auto simp: circ_pos_def c'_def)
      then have "x_list c' ! circ_pos c' j = x_list c ! circ_pos c k"
        using Suc pos0 posS by (simp add: c'_def)
      then show ?thesis using new Suc j by (simp add: circ_items_def)
    qed
  qed
  then show ?thesis using push wf by (auto simp: c'_def)
qed

lemma circ_reset:
  "circ_wf c \<Longrightarrow> circ_wf (CIRC_LIST_RESET c) \<and> x_cap (CIRC_LIST_RESET c) = x_cap c
     \<and> circ_items (CIRC_LIST_RESET c) = []"
  by (simp add: circ_wf_def CIRC_LIST_RESET_def circ_items_def)

subsection \<open>The interface\<close>

text \<open>
  A bounded memory of the most recent items.  \<open>items\<close> lists them newest first;
  \<open>room\<close> is how many are kept.
\<close>

locale recency_window =
  fixes push :: "'c \<Rightarrow> 'a \<Rightarrow> 'c option"
    and item :: "'c \<Rightarrow> int \<Rightarrow> 'a option"
    and set_item :: "'c \<Rightarrow> int \<Rightarrow> 'a \<Rightarrow> 'c option"
    and reset :: "'c \<Rightarrow> 'c"
    and count :: "'c \<Rightarrow> int"
    and room :: "'c \<Rightarrow> nat"
    and items :: "'c \<Rightarrow> 'a list"
    and inv :: "'c \<Rightarrow> bool"
  assumes push_law: "inv c \<Longrightarrow> \<exists>c'. push c v = Some c' \<and> inv c' \<and> room c' = room c
            \<and> items c' = take (room c) (v # items c)"
    and item_law: "inv c \<Longrightarrow> 0 \<le> i \<Longrightarrow> i < count c \<Longrightarrow> item c i = Some (items c ! nat i)"
    and set_law: "inv c \<Longrightarrow> 0 \<le> i \<Longrightarrow> i < count c \<Longrightarrow>
            \<exists>c'. set_item c i v = Some c' \<and> inv c' \<and> room c' = room c
              \<and> items c' = (items c)[nat i := v]"
    and reset_law: "inv c \<Longrightarrow> inv (reset c) \<and> room (reset c) = room c \<and> items (reset c) = []"
    and count_law: "inv c \<Longrightarrow> count c = int (length (items c))"
    and room_law: "inv c \<Longrightarrow> 0 < room c \<and> length (items c) \<le> room c"
begin

text \<open>Pushing the same value repeatedly, as the replay code does to open a gap.\<close>

fun push_times :: "nat \<Rightarrow> 'a \<Rightarrow> 'c \<Rightarrow> 'c option" where
  "push_times 0 v c = Some c"
| "push_times (Suc n) v c = push c v \<bind> push_times n v"

lemma push_times_law:
  assumes "inv c"
  shows "\<exists>c'. push_times n v c = Some c' \<and> inv c' \<and> room c' = room c
           \<and> items c' = take (room c) (replicate n v @ items c)"
  using assms
proof (induction n arbitrary: c)
  case 0
  then show ?case using room_law [of c] by simp
next
  case (Suc n)
  obtain d where d: "push c v = Some d" "inv d" "room d = room c"
    "items d = take (room c) (v # items c)"
    using push_law [OF Suc.prems] by blast
  obtain e where e: "push_times n v d = Some e" "inv e" "room e = room d"
    "items e = take (room d) (replicate n v @ items d)"
    using Suc.IH [OF d(2)] by blast
  have "take (room c) (replicate n v @ take (room c) (v # items c))
      = take (room c) (replicate (Suc n) v @ items c)"
    by (rule take_replicate_take)
  then show ?case using d e by simp
qed

lemma item_after_set:
  assumes "inv c" "0 \<le> i" "i < count c" "set_item c i v = Some c'" "0 \<le> j" "j < count c"
  shows "item c' j = (if j = i then Some v else item c j)"
proof -
  have c': "inv c'" "items c' = (items c)[nat i := v]"
    using set_law [OF assms(1,2,3), of v] assms(4) by auto
  have "count c' = count c" using c' assms(1) by (simp add: count_law)
  then show ?thesis
    using c' assms count_law [OF assms(1)] by (auto simp: item_law nth_list_update)
qed

end

interpretation circ: recency_window CIRC_LIST_PUSH CIRC_LIST_ITEM CIRC_LIST_SET CIRC_LIST_RESET
    CIRC_LIST_SIZE "\<lambda>c. nat (x_cap c)" circ_items circ_wf
proof unfold_locales
  fix c :: "'a circ_list" and v :: 'a and i :: int
  assume wf: "circ_wf c"
  show "\<exists>c'. CIRC_LIST_PUSH c v = Some c' \<and> circ_wf c' \<and> nat (x_cap c') = nat (x_cap c)
          \<and> circ_items c' = take (nat (x_cap c)) (v # circ_items c)"
    using circ_push [OF wf, of v] by metis
  show "circ_wf (CIRC_LIST_RESET c) \<and> nat (x_cap (CIRC_LIST_RESET c)) = nat (x_cap c)
          \<and> circ_items (CIRC_LIST_RESET c) = []"
    using circ_reset [OF wf] by simp
  show "CIRC_LIST_SIZE c = int (length (circ_items c))"
    using wf by (simp add: CIRC_LIST_SIZE_def circ_items_def circ_wf_def)
  show "0 < nat (x_cap c) \<and> length (circ_items c) \<le> nat (x_cap c)"
    using wf by (auto simp: circ_wf_def length_circ_items)
  assume i: "0 \<le> i" "i < CIRC_LIST_SIZE c"
  show "CIRC_LIST_ITEM c i = Some (circ_items c ! nat i)"
    using circ_item [OF wf] i by (simp add: CIRC_LIST_SIZE_def)
  show "\<exists>c'. CIRC_LIST_SET c i v = Some c' \<and> circ_wf c' \<and> nat (x_cap c') = nat (x_cap c)
          \<and> circ_items c' = (circ_items c)[nat i := v]"
    using circ_set [OF wf, of i v] i by (metis CIRC_LIST_SIZE_def)
qed

end
