(* ===== verification/Buffer.thy ===== *)
theory Buffer
  imports Ovpn_Integer
begin

text \<open>
  The memory buffer of src/openvpn/buffer.h: a block of memory with a window of
  content that grows at both ends and shrinks from the front.  Every packet the
  daemon handles is such a buffer.

  A pointer into the block is its index, \<open>None\<close> being NULL; \<open>b_data = None\<close> is a
  buffer without memory.  Sizes of C type \<open>size_t\<close> are \<open>nat\<close>, sizes of type
  \<open>int\<close> are \<open>int\<close>.  Under the invariant \<open>buf_wf\<close> no index leaves the block, and
  (as every size is below \<open>BUF_SIZE_MAX\<close>) no sum of its fields overflows an \<open>int\<close>; the sums
  of unchecked arguments in \<open>buf_copy_range\<close> can.
\<close>

subsection \<open>State\<close>

record buffer =
  b_capacity :: int
  b_offset :: int
  b_len :: int
  b_data :: "bytes option"

definition BUF_SIZE_MAX :: int where
  "BUF_SIZE_MAX = 1000000"

text \<open>Conversion of an \<open>int\<close> argument to a \<open>size_t\<close> parameter.\<close>

definition size_t_of_int :: "int \<Rightarrow> nat" where
  "size_t_of_int i = nat (i mod 2 ^ 64)"

text \<open>Reads and writes through a pointer into the block.\<close>

definition buf_peek :: "buffer \<Rightarrow> int \<Rightarrow> int \<Rightarrow> bytes" where
  "buf_peek b p n = (case b_data b of None \<Rightarrow> [] | Some d \<Rightarrow> segment (nat p) (nat n) d)"

definition buf_poke :: "buffer \<Rightarrow> int \<Rightarrow> bytes \<Rightarrow> buffer" where
  "buf_poke b p bs = b\<lparr>b_data := map_option (\<lambda>d. patch d (nat p) bs) (b_data b)\<rparr>"

subsection \<open>Inspection\<close>

definition clear_buf :: buffer where
  "clear_buf = \<lparr>b_capacity = 0, b_offset = 0, b_len = 0, b_data = None\<rparr>"

definition buf_defined :: "buffer \<Rightarrow> bool" where
  "buf_defined b \<longleftrightarrow> b_data b \<noteq> None"

definition buf_valid :: "buffer \<Rightarrow> bool" where
  "buf_valid b \<longleftrightarrow> b_data b \<noteq> None \<and> b_len b \<ge> 0"

definition buf_bptr :: "buffer \<Rightarrow> int option" where
  "buf_bptr b = (if buf_valid b then Some (b_offset b) else None)"

definition buf_len :: "buffer \<Rightarrow> int" where
  "buf_len b = (if buf_valid b then b_len b else 0)"

text \<open>\<open>NULL + 0\<close> stays NULL: an invalid buffer has length 0.\<close>

definition buf_bend :: "buffer \<Rightarrow> int option" where
  "buf_bend b = map_option (\<lambda>p. p + buf_len b) (buf_bptr b)"

definition buf_blast :: "buffer \<Rightarrow> int option" where
  "buf_blast b =
     (if buf_len b > 0 then map_option (\<lambda>p. p + buf_len b - 1) (buf_bptr b) else None)"

text \<open>The bytes \<open>BPTR\<close> points at, as many as \<open>BLEN\<close> says.\<close>

definition buf_content :: "buffer \<Rightarrow> bytes" where
  "buf_content b = (if buf_valid b then buf_peek b (b_offset b) (b_len b) else [])"

definition buf_size_valid :: "nat \<Rightarrow> bool" where
  "buf_size_valid sz \<longleftrightarrow> int sz < BUF_SIZE_MAX"

definition buf_size_valid_signed :: "int \<Rightarrow> bool" where
  "buf_size_valid_signed sz \<longleftrightarrow> sz \<ge> - BUF_SIZE_MAX \<and> sz < BUF_SIZE_MAX"

definition buf_safe :: "buffer \<Rightarrow> nat \<Rightarrow> bool" where
  "buf_safe b n \<longleftrightarrow> buf_valid b \<and> buf_size_valid n \<and> b_offset b + b_len b + int n \<le> b_capacity b"

definition buf_safe_bidir :: "buffer \<Rightarrow> int \<Rightarrow> bool" where
  "buf_safe_bidir b n =
     (if buf_valid b \<and> buf_size_valid_signed n
      then (let newlen = b_len b + n in newlen \<ge> 0 \<and> b_offset b + newlen \<le> b_capacity b)
      else False)"

definition buf_forward_capacity :: "buffer \<Rightarrow> int" where
  "buf_forward_capacity b =
     (if buf_valid b
      then (let ret = b_capacity b - (b_offset b + b_len b) in if ret < 0 then 0 else ret)
      else 0)"

definition buf_forward_capacity_total :: "buffer \<Rightarrow> int" where
  "buf_forward_capacity_total b =
     (if buf_valid b
      then (let ret = b_capacity b - b_offset b in if ret < 0 then 0 else ret)
      else 0)"

definition buf_reverse_capacity :: "buffer \<Rightarrow> int" where
  "buf_reverse_capacity b = (if buf_valid b then b_offset b else 0)"

subsection \<open>Initialisation\<close>

text \<open>
  \<open>alloc_buf\<close> returns zeroed memory; \<open>alloc_buf_gc\<close> clears only the first byte of
  what the allocator delivers (\<open>fresh\<close>).  An oversized request is fatal.
\<close>

definition alloc_buf :: "nat \<Rightarrow> buffer option" where
  "alloc_buf sz =
     (if buf_size_valid sz
      then Some \<lparr>b_capacity = int sz, b_offset = 0, b_len = 0, b_data = Some (replicate sz 0)\<rparr>
      else None)"

definition alloc_buf_gc :: "(nat \<Rightarrow> u8) \<Rightarrow> nat \<Rightarrow> buffer option" where
  "alloc_buf_gc fresh sz =
     (if buf_size_valid sz
      then (let dat = map fresh [0..<sz];
                dat = (if sz \<noteq> 0 then dat[0 := 0] else dat)
            in Some \<lparr>b_capacity = int sz, b_offset = 0, b_len = 0, b_data = Some dat\<rparr>)
      else None)"

text \<open>\<open>clone_buf\<close>: new memory, whose bytes outside the content are what \<open>malloc\<close> left there.\<close>

definition clone_buf :: "bytes \<Rightarrow> buffer \<Rightarrow> buffer" where
  "clone_buf fresh b = buf_poke (b\<lparr>b_data := Some fresh\<rparr>) (b_offset b) (buf_content b)"

definition buf_clear :: "buffer \<Rightarrow> buffer" where
  "buf_clear b =
     (let b = (if b_capacity b > 0 then buf_poke b 0 (replicate (nat (b_capacity b)) 0) else b)
      in b\<lparr>b_len := 0, b_offset := 0\<rparr>)"

definition free_buf :: "buffer \<Rightarrow> buffer" where
  "free_buf b = clear_buf"

definition buf_reset :: "buffer \<Rightarrow> buffer" where
  "buf_reset b = b\<lparr>b_capacity := 0, b_offset := 0, b_len := 0, b_data := None\<rparr>"

definition buf_reset_len :: "buffer \<Rightarrow> buffer" where
  "buf_reset_len b = b\<lparr>b_len := 0, b_offset := 0\<rparr>"

definition buf_init :: "buffer \<Rightarrow> int \<Rightarrow> buffer \<times> bool" where
  "buf_init b off =
     (if off < 0 \<or> off > b_capacity b \<or> b_data b = None then (b, False)
      else (b\<lparr>b_len := 0, b_offset := off\<rparr>, True))"

definition buf_set_write :: "buffer \<Rightarrow> bytes option \<Rightarrow> int \<Rightarrow> buffer option" where
  "buf_set_write b dat sz =
     (if \<not> buf_size_valid (size_t_of_int sz) then None
      else (let b = b\<lparr>b_len := 0, b_offset := 0, b_capacity := sz, b_data := dat\<rparr>
            in Some (if sz > 0 then buf_poke b 0 [0] else b)))"

definition buf_set_read :: "buffer \<Rightarrow> bytes option \<Rightarrow> nat \<Rightarrow> buffer option" where
  "buf_set_read b dat sz =
     (if \<not> buf_size_valid sz then None
      else Some (b\<lparr>b_len := int sz, b_capacity := int sz, b_offset := 0, b_data := dat\<rparr>))"

subsection \<open>Moving the window\<close>

definition buf_inc_len :: "buffer \<Rightarrow> int \<Rightarrow> buffer \<times> bool" where
  "buf_inc_len b inc =
     (if \<not> buf_safe_bidir b inc then (b, False) else (b\<lparr>b_len := b_len b + inc\<rparr>, True))"

definition buf_prepend :: "buffer \<Rightarrow> int \<Rightarrow> buffer \<times> int option" where
  "buf_prepend b sz =
     (if \<not> buf_valid b \<or> sz < 0 \<or> sz > b_offset b then (b, None)
      else (let b = b\<lparr>b_offset := b_offset b - sz, b_len := b_len b + sz\<rparr> in (b, buf_bptr b)))"

definition buf_advance :: "buffer \<Rightarrow> int \<Rightarrow> buffer \<times> bool" where
  "buf_advance b sz =
     (if \<not> buf_valid b \<or> sz < 0 \<or> b_len b < sz then (b, False)
      else (b\<lparr>b_offset := b_offset b + sz, b_len := b_len b - sz\<rparr>, True))"

definition buf_write_alloc :: "buffer \<Rightarrow> nat \<Rightarrow> buffer \<times> int option" where
  "buf_write_alloc b sz =
     (if \<not> buf_safe b sz then (b, None)
      else (b\<lparr>b_len := b_len b + int sz\<rparr>, map_option (\<lambda>p. p + b_len b) (buf_bptr b)))"

definition buf_write_alloc_prepend :: "buffer \<Rightarrow> int \<Rightarrow> bool \<Rightarrow> buffer \<times> int option" where
  "buf_write_alloc_prepend b sz prepend =
     (if prepend then buf_prepend b sz else buf_write_alloc b (size_t_of_int sz))"

definition buf_read_alloc :: "buffer \<Rightarrow> int \<Rightarrow> buffer \<times> int option" where
  "buf_read_alloc b sz =
     (if sz < 0 \<or> b_len b < sz then (b, None)
      else (b\<lparr>b_offset := b_offset b + sz, b_len := b_len b - sz\<rparr>, buf_bptr b))"

text \<open>
  \<open>buf_sub\<close>: a buffer over a part of \<open>buf\<close>'s own memory.  The result is the
  parent with its window grown, the sub-buffer, and the index in the parent at
  which the sub-buffer's memory starts; \<open>buf_sub_sync\<close> makes a later state of
  the sub-buffer's memory visible in the parent.
\<close>

definition buf_sub :: "buffer \<Rightarrow> int \<Rightarrow> bool \<Rightarrow> buffer \<times> buffer \<times> int" where
  "buf_sub b sz prepend =
     (case (if prepend then buf_prepend b sz else buf_write_alloc b (size_t_of_int sz)) of
        (b', Some p) \<Rightarrow>
          (b', clear_buf\<lparr>b_capacity := sz, b_data := Some (buf_peek b' p sz)\<rparr>, p)
      | (b', None) \<Rightarrow> (b', clear_buf, 0))"

definition buf_sub_sync :: "buffer \<Rightarrow> int \<Rightarrow> buffer \<Rightarrow> buffer" where
  "buf_sub_sync parent p sub =
     (case b_data sub of None \<Rightarrow> parent | Some d \<Rightarrow> buf_poke parent p d)"

subsection \<open>Reading and writing\<close>

definition buf_write :: "buffer \<Rightarrow> bytes \<Rightarrow> buffer \<times> bool" where
  "buf_write dest src =
     (case buf_write_alloc dest (length src) of
        (dest, None) \<Rightarrow> (dest, False)
      | (dest, Some cp) \<Rightarrow> (buf_poke dest cp src, True))"

definition buf_write_prepend :: "buffer \<Rightarrow> bytes \<Rightarrow> buffer \<times> bool" where
  "buf_write_prepend dest src =
     (case buf_prepend dest (int (length src)) of
        (dest, None) \<Rightarrow> (dest, False)
      | (dest, Some cp) \<Rightarrow> (buf_poke dest cp src, True))"

definition buf_write_u8 :: "buffer \<Rightarrow> u8 \<Rightarrow> buffer \<times> bool" where
  "buf_write_u8 dest w = buf_write dest [w]"

definition buf_write_u16 :: "buffer \<Rightarrow> u16 \<Rightarrow> buffer \<times> bool" where
  "buf_write_u16 dest w = buf_write dest (be16_bytes w)"

definition buf_write_u32 :: "buffer \<Rightarrow> u32 \<Rightarrow> buffer \<times> bool" where
  "buf_write_u32 dest w = buf_write dest (be32_bytes w)"

definition buf_copy :: "buffer \<Rightarrow> buffer \<Rightarrow> buffer \<times> bool" where
  "buf_copy dest src = buf_write dest (buf_content src)"

definition buf_assign :: "buffer \<Rightarrow> buffer \<Rightarrow> buffer \<times> bool" where
  "buf_assign dest src =
     (case buf_init dest (b_offset src) of
        (dest, False) \<Rightarrow> (dest, False)
      | (dest, True) \<Rightarrow> buf_write dest (buf_content src))"

definition buf_copy_n :: "buffer \<Rightarrow> buffer \<Rightarrow> int \<Rightarrow> buffer \<times> buffer \<times> bool" where
  "buf_copy_n dest src n =
     (case buf_read_alloc src n of
        (src, None) \<Rightarrow> (dest, src, False)
      | (src, Some cp) \<Rightarrow>
          (let (dest, ok) = buf_write dest (buf_peek src cp n) in (dest, src, ok)))"

text \<open>
  The conditions of \<open>buf_copy_range\<close> in the order of the code, which tests each one only when the
  ones before it are false; \<open>None\<close> is the overflow of one of the three sums.
\<close>

definition buf_copy_range ::
    "buffer \<Rightarrow> int \<Rightarrow> buffer \<Rightarrow> int \<Rightarrow> int \<Rightarrow> (buffer \<times> bool) option" where
  "buf_copy_range dest dest_index src src_index src_len =
     (if src_index < 0 \<or> src_len < 0 then Some (dest, False)
      else do {
        src_end \<leftarrow> int_sum src_index src_len;
        if src_end > b_len src \<or> dest_index < 0 then Some (dest, False)
        else do {
          dest_start \<leftarrow> int_sum (b_offset dest) dest_index;
          dest_end \<leftarrow> int_sum dest_start src_len;
          if dest_end > b_capacity dest then Some (dest, False)
          else do {
            let dest = buf_poke dest dest_start (buf_peek src (b_offset src + src_index) src_len);
            Some (if dest_index + src_len > b_len dest
                  then dest\<lparr>b_len := dest_index + src_len\<rparr> else dest, True) } } })"

definition buf_copy_excess :: "buffer \<Rightarrow> buffer \<Rightarrow> int \<Rightarrow> buffer \<times> buffer \<times> bool" where
  "buf_copy_excess dest src n =
     (if n < 0 then (dest, src, False)
      else if b_len src > n
      then (let b = src; src = src\<lparr>b_len := n\<rparr> in
            case buf_advance b n of
              (b, False) \<Rightarrow> (dest, src, False)
            | (b, True) \<Rightarrow> (let (dest, ok) = buf_copy dest b in (dest, src, ok)))
      else (dest, src, True))"

definition buf_read :: "buffer \<Rightarrow> int \<Rightarrow> buffer \<times> bytes option" where
  "buf_read src sz =
     (case buf_read_alloc src sz of
        (src, None) \<Rightarrow> (src, None)
      | (src, Some cp) \<Rightarrow> (src, Some (buf_peek src cp sz)))"

definition buf_read_u8 :: "buffer \<Rightarrow> buffer \<times> int" where
  "buf_read_u8 b =
     (if buf_len b < 1 then (b, - 1)
      else (fst (buf_advance b 1), uint (hd (buf_content b))))"

definition buf_read_u16 :: "buffer \<Rightarrow> buffer \<times> int" where
  "buf_read_u16 b =
     (case buf_read b 2 of
        (b, None) \<Rightarrow> (b, - 1)
      | (b, Some bs) \<Rightarrow> (b, uint (be16_of bs)))"

text \<open>The value and the \<open>good\<close> flag.\<close>

definition buf_read_u32 :: "buffer \<Rightarrow> buffer \<times> u32 \<times> bool" where
  "buf_read_u32 b =
     (case buf_read b 4 of
        (b, None) \<Rightarrow> (b, 0, False)
      | (b, Some bs) \<Rightarrow> (b, be32_of bs, True))"

definition buf_equal :: "buffer \<Rightarrow> buffer \<Rightarrow> bool" where
  "buf_equal a b \<longleftrightarrow> buf_len a = buf_len b \<and> buf_content a = buf_content b"

definition buf_string_match :: "buffer \<Rightarrow> bytes \<Rightarrow> bool" where
  "buf_string_match src match =
     (if int (length match) \<noteq> b_len src then False
      else buf_peek src (b_offset src) (int (length match)) = match)"

definition buf_string_match_head :: "buffer \<Rightarrow> bytes \<Rightarrow> int \<Rightarrow> bool" where
  "buf_string_match_head src match sz =
     (if sz < 0 \<or> sz > b_len src then False
      else buf_peek src (b_offset src) sz = take (nat sz) match)"

subsection \<open>The invariant\<close>

definition buf_wf :: "buffer \<Rightarrow> bool" where
  "buf_wf b \<longleftrightarrow>
     map_option (\<lambda>d. int (length d)) (b_data b) = Some (b_capacity b)
     \<and> 0 \<le> b_offset b \<and> 0 \<le> b_len b \<and> b_offset b + b_len b \<le> b_capacity b
     \<and> b_capacity b < BUF_SIZE_MAX"

lemma buf_wfE:
  assumes "buf_wf b"
  obtains d where "b_data b = Some d" "int (length d) = b_capacity b"
    "0 \<le> b_offset b" "0 \<le> b_len b" "b_offset b + b_len b \<le> b_capacity b"
    "b_capacity b < 1000000"
  using assms by (auto simp: buf_wf_def BUF_SIZE_MAX_def split: option.splits)

lemma buf_wf_valid [simp]: "buf_wf b \<Longrightarrow> buf_valid b"
  by (auto simp: buf_valid_def elim: buf_wfE)

lemma buf_len_eq [simp]: "buf_wf b \<Longrightarrow> buf_len b = b_len b"
  by (simp add: buf_len_def)

lemma buf_bptr_eq [simp]: "buf_wf b \<Longrightarrow> buf_bptr b = Some (b_offset b)"
  by (simp add: buf_bptr_def)

lemma buf_content_eq:
  "buf_wf b \<Longrightarrow> b_data b = Some d \<Longrightarrow>
     buf_content b = segment (nat (b_offset b)) (nat (b_len b)) d"
  by (simp add: buf_content_def buf_peek_def)

lemma length_buf_content: "buf_wf b \<Longrightarrow> int (length (buf_content b)) = b_len b"
  by (erule buf_wfE) (simp add: buf_content_def buf_peek_def buf_valid_def)

lemma length_buf_content_nat: "buf_wf b \<Longrightarrow> length (buf_content b) = nat (b_len b)"
  using length_buf_content [of b] by simp

lemma b_len_0_iff: "buf_wf b \<Longrightarrow> (b_len b = 0) = (buf_content b = [])"
  using length_buf_content [of b] by auto

lemma buf_forward_capacity_eq:
  "buf_wf b \<Longrightarrow> buf_forward_capacity b = b_capacity b - (b_offset b + b_len b)"
  by (auto simp: buf_forward_capacity_def Let_def elim: buf_wfE)

lemma buf_safe_iff:
  "buf_wf b \<Longrightarrow> buf_safe b n = (int n \<le> buf_forward_capacity b)"
  by (auto simp: buf_safe_def buf_forward_capacity_eq buf_size_valid_def BUF_SIZE_MAX_def elim!: buf_wfE)

lemma alloc_buf_law:
  assumes "int n < BUF_SIZE_MAX"
  shows "\<exists>b. alloc_buf n = Some b \<and> buf_wf b \<and> buf_content b = [] \<and> b_offset b = 0
           \<and> b_capacity b = int n \<and> buf_forward_capacity b = int n"
  using assms
  by (auto simp: alloc_buf_def buf_size_valid_def buf_wf_def buf_content_def buf_peek_def
      buf_forward_capacity_def buf_valid_def)

lemma alloc_buf_gc_law:
  assumes "int n < BUF_SIZE_MAX"
  shows "\<exists>b. alloc_buf_gc fresh n = Some b \<and> buf_wf b \<and> buf_content b = [] \<and> b_offset b = 0
           \<and> b_capacity b = int n \<and> buf_forward_capacity b = int n"
  using assms
  by (auto simp: alloc_buf_gc_def buf_size_valid_def buf_wf_def buf_content_def buf_peek_def
      buf_forward_capacity_def buf_valid_def Let_def)

lemma buf_write_law:
  assumes wf: "buf_wf b" and room: "int (length bs) \<le> buf_forward_capacity b"
  obtains b' where "buf_write b bs = (b', True)" "buf_wf b'"
    "buf_content b' = buf_content b @ bs" "b_offset b' = b_offset b"
    "b_capacity b' = b_capacity b" "b_len b' = b_len b + int (length bs)"
    "buf_forward_capacity b' = buf_forward_capacity b - int (length bs)"
proof -
  obtain d where d: "b_data b = Some d" "int (length d) = b_capacity b"
    "0 \<le> b_offset b" "0 \<le> b_len b" "b_offset b + b_len b \<le> b_capacity b"
    "b_capacity b < 1000000"
    using wf by (rule buf_wfE)
  define i where "i = nat (b_offset b + b_len b)"
  let ?b = "b\<lparr>b_len := b_len b + int (length bs), b_data := Some (patch d i bs)\<rparr>"
  have fit: "i + length bs \<le> length d"
    using room d wf by (simp add: buf_forward_capacity_eq i_def)
  have w: "buf_write b bs = (?b, True)"
    using wf room d
    by (simp add: buf_write_def buf_write_alloc_def buf_safe_iff buf_poke_def i_def)
  have wf': "buf_wf ?b"
    using d fit by (simp add: buf_wf_def BUF_SIZE_MAX_def i_def)
  have i: "i = nat (b_offset b) + nat (b_len b)" using d by (simp add: i_def nat_add_distrib)
  have "buf_content ?b = segment (nat (b_offset b)) (nat (b_len b) + length bs) (patch d i bs)"
    using buf_content_eq [OF wf', of "patch d i bs"] d by (simp add: nat_add_distrib)
  also have "\<dots> = buf_content b @ bs"
    using fit i d(1) wf
    by (simp add: segment_split segment_patch_left segment_patch_same buf_content_eq)
  finally have c: "buf_content ?b = buf_content b @ bs" .
  show ?thesis
    by (rule that [OF w wf' c])
       (use wf wf' in \<open>simp_all add: buf_forward_capacity_eq\<close>)
qed

lemma buf_write_full:
  "buf_wf b \<Longrightarrow> buf_forward_capacity b < int (length bs) \<Longrightarrow> buf_write b bs = (b, False)"
  by (simp add: buf_write_def buf_write_alloc_def buf_safe_iff)

lemma buf_write_cases:
  assumes "buf_wf b"
  obtains (ok) b' where "int (length bs) \<le> buf_forward_capacity b"
      "buf_write b bs = (b', True)" "buf_wf b'" "buf_content b' = buf_content b @ bs"
  | (full) "buf_forward_capacity b < int (length bs)" "buf_write b bs = (b, False)"
proof (cases "int (length bs) \<le> buf_forward_capacity b")
  case True
  then show ?thesis using buf_write_law [OF assms True] ok by metis
next
  case False
  then show ?thesis using buf_write_full [OF assms, of bs] full by simp
qed

lemma buf_prepend_alloc:
  assumes wf: "buf_wf b" and n: "0 \<le> n" "n \<le> b_offset b"
  shows "buf_prepend b n = (b\<lparr>b_offset := b_offset b - n, b_len := b_len b + n\<rparr>,
           Some (b_offset b - n))"
  using assms by (auto simp: buf_prepend_def Let_def buf_bptr_def buf_valid_def elim!: buf_wfE)

lemma buf_write_prepend_law:
  assumes wf: "buf_wf b" and room: "int (length bs) \<le> b_offset b"
  obtains b' where "buf_write_prepend b bs = (b', True)" "buf_wf b'"
    "buf_content b' = bs @ buf_content b" "b_offset b' = b_offset b - int (length bs)"
    "b_capacity b' = b_capacity b" "b_len b' = b_len b + int (length bs)"
    "buf_forward_capacity b' = buf_forward_capacity b"
proof -
  obtain d where d: "b_data b = Some d" "int (length d) = b_capacity b"
    "0 \<le> b_offset b" "0 \<le> b_len b" "b_offset b + b_len b \<le> b_capacity b"
    "b_capacity b < 1000000"
    using wf by (rule buf_wfE)
  define i where "i = nat (b_offset b - int (length bs))"
  let ?b = "b\<lparr>b_offset := b_offset b - int (length bs), b_len := b_len b + int (length bs),
               b_data := Some (patch d i bs)\<rparr>"
  have i: "nat (b_offset b) = i + length bs" using room by (simp add: i_def)
  have fit: "i + length bs \<le> length d" using d i by linarith
  have w: "buf_write_prepend b bs = (?b, True)"
    using wf room d by (simp add: buf_write_prepend_def buf_prepend_alloc buf_poke_def i_def)
  have wf': "buf_wf ?b"
    using d fit room by (simp add: buf_wf_def BUF_SIZE_MAX_def)
  have "buf_content ?b = segment i (length bs + nat (b_len b)) (patch d i bs)"
    using buf_content_eq [OF wf', of "patch d i bs"] d by (simp add: nat_add_distrib add.commute i_def)
  also have "\<dots> = bs @ buf_content b"
    using fit i d(1) wf
    by (simp add: segment_split segment_patch_right segment_patch_same buf_content_eq)
  finally have c: "buf_content ?b = bs @ buf_content b" .
  show ?thesis
    by (rule that [OF w wf' c])
       (use wf wf' in \<open>simp_all add: buf_forward_capacity_eq\<close>)
qed

lemma buf_write_prepend_full:
  "buf_wf b \<Longrightarrow> b_offset b < int (length bs) \<Longrightarrow> buf_write_prepend b bs = (b, False)"
  by (simp add: buf_write_prepend_def buf_prepend_def)

lemma buf_advance_law:
  assumes wf: "buf_wf b" and n: "0 \<le> n" "n \<le> b_len b"
  obtains b' where "buf_advance b n = (b', True)" "buf_wf b'"
    "buf_content b' = drop (nat n) (buf_content b)" "b_offset b' = b_offset b + n"
    "b_capacity b' = b_capacity b" "b_len b' = b_len b - n" "b_data b' = b_data b"
    "buf_forward_capacity b' = buf_forward_capacity b"
proof -
  let ?b = "b\<lparr>b_offset := b_offset b + n, b_len := b_len b - n\<rparr>"
  obtain d where d: "b_data b = Some d" "0 \<le> b_offset b" using wf by (auto elim: buf_wfE)
  have a: "buf_advance b n = (?b, True)" using assms by (simp add: buf_advance_def)
  have wf': "buf_wf ?b" using wf n by (auto simp: buf_wf_def)
  have "buf_content ?b = drop (nat n) (buf_content b)"
    using buf_content_eq [OF wf', of d] buf_content_eq [OF wf, of d] d n
    by (simp add: segment_def nat_add_distrib nat_diff_distrib drop_take add.commute)
  then show ?thesis
    by (rule that [OF a wf']) (use wf wf' in \<open>simp_all add: buf_forward_capacity_eq\<close>)
qed

lemma buf_advance_short: "n < 0 \<or> b_len b < n \<Longrightarrow> buf_advance b n = (b, False)"
  by (auto simp: buf_advance_def)

lemma buf_read_law:
  assumes wf: "buf_wf b" and n: "0 \<le> n" "n \<le> b_len b"
  obtains b' where "buf_read b n = (b', Some (take (nat n) (buf_content b)))" "buf_wf b'"
    "buf_content b' = drop (nat n) (buf_content b)" "b_offset b' = b_offset b + n"
    "b_capacity b' = b_capacity b" "b_len b' = b_len b - n"
    "buf_forward_capacity b' = buf_forward_capacity b"
proof -
  obtain d where d: "b_data b = Some d" "int (length d) = b_capacity b" "0 \<le> b_offset b"
    using wf by (auto elim: buf_wfE)
  obtain b' where b': "buf_advance b n = (b', True)" "buf_wf b'"
    "buf_content b' = drop (nat n) (buf_content b)" "b_offset b' = b_offset b + n"
    "b_capacity b' = b_capacity b" "b_len b' = b_len b - n" "b_data b' = b_data b"
    "buf_forward_capacity b' = buf_forward_capacity b"
    using assms by (rule buf_advance_law)
  have alloc: "buf_read_alloc b n = (b', Some (b_offset b))"
    using b'(1) wf n by (simp add: buf_read_alloc_def buf_advance_def)
  have "buf_peek b' (b_offset b) n = take (nat n) (buf_content b)"
    using b'(7) d n buf_content_eq [OF wf, of d] by (simp add: buf_peek_def segment_def min_def)
  then have "buf_read b n = (b', Some (take (nat n) (buf_content b)))"
    using alloc by (simp add: buf_read_def)
  then show ?thesis using b' that by simp
qed

lemma buf_read_short: "n < 0 \<or> b_len b < n \<Longrightarrow> buf_read b n = (b, None)"
  by (auto simp: buf_read_def buf_read_alloc_def)

lemma buf_read_u8_law:
  assumes wf: "buf_wf b" and c: "buf_content b = x # xs"
  obtains b' where "buf_read_u8 b = (b', uint x)" "buf_wf b'" "buf_content b' = xs"
    "b_offset b' = b_offset b + 1" "b_capacity b' = b_capacity b"
    "buf_forward_capacity b' = buf_forward_capacity b"
proof -
  have len: "1 \<le> b_len b" using length_buf_content [OF wf] c by simp
  obtain b' where b': "buf_advance b 1 = (b', True)" "buf_wf b'"
    "buf_content b' = drop (nat 1) (buf_content b)" "b_offset b' = b_offset b + 1"
    "b_capacity b' = b_capacity b" "buf_forward_capacity b' = buf_forward_capacity b"
    using buf_advance_law [OF wf, of 1] len by auto
  have "buf_read_u8 b = (b', uint x)"
    using wf len b'(1) c by (simp add: buf_read_u8_def)
  then show ?thesis using that b' c by simp
qed

lemma buf_read_u8_empty: "buf_wf b \<Longrightarrow> buf_content b = [] \<Longrightarrow> buf_read_u8 b = (b, - 1)"
  using b_len_0_iff [of b] by (simp add: buf_read_u8_def)

lemma buf_read_u8_cases:
  assumes "buf_wf b"
  obtains (byte) x xs b' where "buf_content b = x # xs" "buf_read_u8 b = (b', uint x)"
      "buf_wf b'" "buf_content b' = xs"
  | (empty) "buf_content b = []" "buf_read_u8 b = (b, - 1)"
  using assms
  by (cases "buf_content b") (auto intro: buf_read_u8_empty elim: buf_read_u8_law)

lemma buf_inc_len_law:
  assumes wf: "buf_wf b" and n: "- b_len b \<le> n" "n \<le> buf_forward_capacity b"
  shows "buf_inc_len b n = (b\<lparr>b_len := b_len b + n\<rparr>, True) \<and> buf_wf (b\<lparr>b_len := b_len b + n\<rparr>)"
proof
  show "buf_inc_len b n = (b\<lparr>b_len := b_len b + n\<rparr>, True)"
    using assms by (auto simp: buf_inc_len_def buf_safe_bidir_def buf_size_valid_signed_def
        buf_forward_capacity_eq BUF_SIZE_MAX_def elim!: buf_wfE)
  show "buf_wf (b\<lparr>b_len := b_len b + n\<rparr>)"
    using assms by (simp add: buf_wf_def buf_forward_capacity_eq)
qed

lemma buf_content_shrink:
  assumes "buf_wf b" "0 \<le> n" "n \<le> b_len b"
  shows "buf_wf (b\<lparr>b_len := n\<rparr>) \<and> buf_content (b\<lparr>b_len := n\<rparr>) = take (nat n) (buf_content b)"
  using assms
  by (auto simp: buf_wf_def buf_content_def buf_valid_def buf_peek_def segment_def min_def
      split: option.splits)

lemma buf_copy_law:
  assumes "buf_wf dest" "buf_wf src" "b_len src \<le> buf_forward_capacity dest"
  obtains dest' where "buf_copy dest src = (dest', True)" "buf_wf dest'"
    "buf_content dest' = buf_content dest @ buf_content src" "b_offset dest' = b_offset dest"
    "b_capacity dest' = b_capacity dest"
    "buf_forward_capacity dest' = buf_forward_capacity dest - b_len src"
  using buf_write_law [OF assms(1), of "buf_content src"] assms length_buf_content [OF assms(2)]
  by (auto simp: buf_copy_def)

lemma buf_init_law:
  assumes "buf_wf b" "0 \<le> off" "off \<le> b_capacity b"
  obtains b' where "buf_init b off = (b', True)" "buf_wf b'" "buf_content b' = []"
    "b_offset b' = off" "b_capacity b' = b_capacity b"
    "buf_forward_capacity b' = b_capacity b - off"
  using assms
  by (auto simp: buf_init_def buf_wf_def buf_content_def buf_peek_def buf_valid_def
      buf_forward_capacity_def split: option.splits)

subsection \<open>Sub-buffers share the parent's memory\<close>

lemma buf_poke_content:
  assumes wf: "buf_wf b" and p: "p = b_offset b + int k" and fit: "k + length bs \<le> nat (b_len b)"
  shows "buf_wf (buf_poke b p bs) \<and> buf_content (buf_poke b p bs) = patch (buf_content b) k bs"
proof -
  obtain d where d: "b_data b = Some d" "int (length d) = b_capacity b"
    "0 \<le> b_offset b" "0 \<le> b_len b" "b_offset b + b_len b \<le> b_capacity b"
    "b_capacity b < 1000000"
    using wf by (rule buf_wfE)
  define i where "i = nat (b_offset b)"
  have np: "nat p = i + k" using p d by (simp add: i_def)
  have fit': "i + k + length bs \<le> length d" using fit d by (simp add: i_def)
  have poke: "buf_poke b p bs = b\<lparr>b_data := Some (patch d (i + k) bs)\<rparr>"
    by (simp add: buf_poke_def d np)
  have wf': "buf_wf (buf_poke b p bs)"
    using wf fit' d by (simp add: poke buf_wf_def)
  have "buf_content (buf_poke b p bs) = segment i (nat (b_len b)) (patch d (i + k) bs)"
    using buf_content_eq [OF wf'] by (simp add: poke i_def)
  also have "\<dots> = patch (segment i (nat (b_len b)) d) k bs"
    by (rule segment_of_patch) (use fit fit' d in \<open>auto simp: i_def\<close>)
  also have "segment i (nat (b_len b)) d = buf_content b"
    by (simp add: buf_content_eq [OF wf d(1)] i_def)
  finally show ?thesis using wf' by simp
qed

lemma buf_sub_prepend_law:
  assumes wf: "buf_wf b" and n: "0 \<le> n" "n \<le> b_offset b"
  obtains b' sub p where "buf_sub b n True = (b', sub, p)"
    "buf_wf sub" "buf_content sub = []" "b_offset sub = 0" "b_capacity sub = n"
    "buf_forward_capacity sub = n"
    "\<And>sub' d. b_data sub' = Some d \<Longrightarrow> int (length d) = n \<Longrightarrow>
       buf_wf (buf_sub_sync b' p sub') \<and> buf_content (buf_sub_sync b' p sub') = d @ buf_content b
       \<and> b_offset (buf_sub_sync b' p sub') = b_offset b - n
       \<and> buf_forward_capacity (buf_sub_sync b' p sub') = buf_forward_capacity b"
proof -
  let ?b = "b\<lparr>b_offset := b_offset b - n, b_len := b_len b + n\<rparr>"
  let ?sub = "clear_buf\<lparr>b_capacity := n, b_data := Some (buf_peek ?b (b_offset b - n) n)\<rparr>"
  obtain d0 where d0: "b_data b = Some d0" "int (length d0) = b_capacity b"
    "0 \<le> b_offset b" "0 \<le> b_len b" "b_offset b + b_len b \<le> b_capacity b" "b_capacity b < 1000000"
    using wf by (rule buf_wfE)
  have wf1: "buf_wf ?b" using wf n by (auto simp: buf_wf_def)
  have sub: "buf_sub b n True = (?b, ?sub, b_offset b - n)"
    using buf_prepend_alloc [OF wf n] by (simp add: buf_sub_def)
  have wfs: "buf_wf ?sub"
    using d0 n by (simp add: buf_wf_def clear_buf_def buf_peek_def BUF_SIZE_MAX_def)
  have es: "buf_content ?sub = []" by (simp add: buf_content_def buf_peek_def clear_buf_def)
  have drop: "drop (nat n) (buf_content ?b) = buf_content b"
    using buf_content_eq [OF wf1, of d0] buf_content_eq [OF wf d0(1)] d0 n
    by (simp add: segment_def drop_take nat_diff_distrib nat_add_distrib)
  have sync: "buf_wf (buf_sub_sync ?b (b_offset b - n) sub')
      \<and> buf_content (buf_sub_sync ?b (b_offset b - n) sub') = d @ buf_content b
      \<and> b_offset (buf_sub_sync ?b (b_offset b - n) sub') = b_offset b - n
      \<and> buf_forward_capacity (buf_sub_sync ?b (b_offset b - n) sub') = buf_forward_capacity b"
    if d: "b_data sub' = Some d" "int (length d) = n" for sub' d
  proof -
    define c where "c = buf_poke ?b (b_offset b - n) d"
    have c: "buf_wf c \<and> buf_content c = patch (buf_content ?b) 0 d"
      unfolding c_def using buf_poke_content [OF wf1, of "b_offset b - n" 0 d] d(2) n d0 by simp
    have "length d = nat n" using d(2) by simp
    then have "patch (buf_content ?b) 0 d = d @ buf_content b"
      using drop by (simp add: patch_def)
    moreover have "b_offset c = b_offset b - n" "b_capacity c = b_capacity b"
      "b_len c = b_len b + n"
      by (simp_all add: c_def buf_poke_def)
    moreover have "buf_sub_sync ?b (b_offset b - n) sub' = c"
      using d(1) by (simp add: buf_sub_sync_def c_def)
    ultimately show ?thesis using c wf by (simp add: buf_forward_capacity_eq)
  qed
  show ?thesis
  proof (rule that [OF sub wfs es])
    show "buf_forward_capacity ?sub = n"
      unfolding buf_forward_capacity_eq [OF wfs] by (simp add: clear_buf_def)
  qed (use sync in \<open>simp_all add: clear_buf_def\<close>)
qed

subsection \<open>The byte-stream interface\<close>

text \<open>
  What encoders and decoders of packet fields rely on: bytes are appended while
  there is room, and come out again in the order they went in.
\<close>

locale byte_stream =
  fixes put :: "'s \<Rightarrow> bytes \<Rightarrow> 's \<times> bool"
    and get :: "'s \<Rightarrow> nat \<Rightarrow> 's \<times> bytes option"
    and content :: "'s \<Rightarrow> bytes"
    and room :: "'s \<Rightarrow> nat"
    and inv :: "'s \<Rightarrow> bool"
  assumes put_law: "inv s \<Longrightarrow> length bs \<le> room s \<Longrightarrow>
            \<exists>s'. put s bs = (s', True) \<and> inv s' \<and> content s' = content s @ bs
              \<and> room s' = room s - length bs"
    and put_full: "inv s \<Longrightarrow> room s < length bs \<Longrightarrow> put s bs = (s, False)"
    and get_law: "inv s \<Longrightarrow> n \<le> length (content s) \<Longrightarrow>
            \<exists>s'. get s n = (s', Some (take n (content s))) \<and> inv s'
              \<and> content s' = drop n (content s)"
    and get_short: "inv s \<Longrightarrow> length (content s) < n \<Longrightarrow> get s n = (s, None)"
begin

text \<open>Fields written one after the other, stopping at the first that does not fit.\<close>

fun put_all :: "bytes list \<Rightarrow> 's \<Rightarrow> 's \<times> bool" where
  "put_all [] s = (s, True)"
| "put_all (f # fs) s = (case put s f of (s', True) \<Rightarrow> put_all fs s' | (s', False) \<Rightarrow> (s', False))"

fun get_all :: "nat list \<Rightarrow> 's \<Rightarrow> 's \<times> bytes list option" where
  "get_all [] s = (s, Some [])"
| "get_all (n # ns) s = (case get s n of
     (s', None) \<Rightarrow> (s', None)
   | (s', Some f) \<Rightarrow> (case get_all ns s' of (s', r) \<Rightarrow> (s', map_option ((#) f) r)))"

lemma put_all_law:
  assumes "inv s" "length (concat fs) \<le> room s"
  shows "\<exists>s'. put_all fs s = (s', True) \<and> inv s' \<and> content s' = content s @ concat fs
           \<and> room s' = room s - length (concat fs)"
  using assms
proof (induction fs arbitrary: s)
  case Nil
  then show ?case by simp
next
  case (Cons f fs)
  obtain t where t: "put s f = (t, True)" "inv t" "content t = content s @ f"
    "room t = room s - length f"
    using put_law [OF Cons.prems(1), of f] Cons.prems(2) by auto
  then show ?case using Cons.IH [of t] Cons.prems(2) by auto
qed

lemma put_all_ok_iff:
  assumes "inv s"
  shows "snd (put_all fs s) \<longleftrightarrow> length (concat fs) \<le> room s"
  using assms
proof (induction fs arbitrary: s)
  case (Cons f fs)
  show ?case
  proof (cases "length f \<le> room s")
    case True
    then obtain t where "put s f = (t, True)" "inv t" "room t = room s - length f"
      using put_law [OF Cons.prems] by blast
    then show ?thesis using Cons.IH [of t] True by auto
  next
    case False
    then show ?thesis using put_full [OF Cons.prems, of f] by simp
  qed
qed simp

lemma get_all_law:
  assumes "inv s" "content s = concat fs @ rest"
  shows "\<exists>s'. get_all (map length fs) s = (s', Some fs) \<and> inv s' \<and> content s' = rest"
  using assms
proof (induction fs arbitrary: s)
  case (Cons f fs)
  obtain t where t: "get s (length f) = (t, Some f)" "inv t" "content t = concat fs @ rest"
    using get_law [OF Cons.prems(1), of "length f"] Cons.prems(2) by auto
  then show ?case using Cons.IH [of t] by auto
qed simp

lemma fields_roundtrip:
  assumes "inv s" "content s = []" "length (concat fs) \<le> room s" "put_all fs s = (t, True)"
  shows "snd (get_all (map length fs) t) = Some fs"
  using put_all_law [OF assms(1,3)] get_all_law [of t fs "[]"] assms by auto

end

interpretation bs: byte_stream buf_write "\<lambda>b n. buf_read b (int n)" buf_content
    "\<lambda>b. nat (buf_forward_capacity b)" buf_wf
proof unfold_locales
  fix b :: buffer and xs :: bytes and n :: nat
  assume wf: "buf_wf b"
  have nn: "0 \<le> buf_forward_capacity b"
    using wf by (auto simp: buf_forward_capacity_eq elim: buf_wfE)
  { assume "length xs \<le> nat (buf_forward_capacity b)"
    then have le: "int (length xs) \<le> buf_forward_capacity b" using nn by linarith
    obtain b' where "buf_write b xs = (b', True)" "buf_wf b'" "buf_content b' = buf_content b @ xs"
      "buf_forward_capacity b' = buf_forward_capacity b - int (length xs)"
      using buf_write_law [OF wf le] by metis
    then show "\<exists>b'. buf_write b xs = (b', True) \<and> buf_wf b' \<and> buf_content b' = buf_content b @ xs
        \<and> nat (buf_forward_capacity b') = nat (buf_forward_capacity b) - length xs"
      by simp }
  { assume "nat (buf_forward_capacity b) < length xs"
    then show "buf_write b xs = (b, False)" using wf nn by (intro buf_write_full) auto }
  { assume "n \<le> length (buf_content b)"
    then have le: "int n \<le> b_len b" using length_buf_content [OF wf] by simp
    obtain b' where "buf_read b (int n) = (b', Some (take (nat (int n)) (buf_content b)))" "buf_wf b'"
      "buf_content b' = drop (nat (int n)) (buf_content b)"
      using buf_read_law [OF wf _ le] by (metis of_nat_0_le_iff)
    then show "\<exists>b'. buf_read b (int n) = (b', Some (take n (buf_content b))) \<and> buf_wf b'
        \<and> buf_content b' = drop n (buf_content b)"
      by simp }
  { assume "length (buf_content b) < n"
    then show "buf_read b (int n) = (b, None)"
      using length_buf_content [OF wf] by (intro buf_read_short) simp }
qed

subsection \<open>Every operation keeps the invariant\<close>

lemma buf_write_wf [wf_intros]: "buf_wf b \<Longrightarrow> buf_wf (fst (buf_write b bs))"
  by (rule buf_write_cases [of b bs]) auto

lemma buf_write_prepend_wf [wf_intros]: "buf_wf b \<Longrightarrow> buf_wf (fst (buf_write_prepend b bs))"
proof (cases "int (length bs) \<le> b_offset b")
  case True
  assume "buf_wf b"
  then show ?thesis using buf_write_prepend_law [OF _ True] by (metis fst_conv)
next
  case False
  assume "buf_wf b"
  then show ?thesis using False buf_write_prepend_full [of b bs] by simp
qed

lemma buf_advance_wf [wf_intros]: "buf_wf b \<Longrightarrow> buf_wf (fst (buf_advance b n))"
  by (auto simp: buf_advance_def buf_wf_def)

lemma buf_prepend_wf [wf_intros]: "buf_wf b \<Longrightarrow> buf_wf (fst (buf_prepend b n))"
  by (auto simp: buf_prepend_def buf_wf_def Let_def)

lemma buf_write_alloc_wf [wf_intros]: "buf_wf b \<Longrightarrow> buf_wf (fst (buf_write_alloc b n))"
  by (auto simp: buf_write_alloc_def buf_wf_def buf_safe_def)

lemma buf_read_alloc_wf [wf_intros]: "buf_wf b \<Longrightarrow> buf_wf (fst (buf_read_alloc b n))"
  by (auto simp: buf_read_alloc_def buf_wf_def)

lemma buf_read_wf [wf_intros]: "buf_wf b \<Longrightarrow> buf_wf (fst (buf_read b n))"
  using buf_read_alloc_wf [of b n] by (auto simp: buf_read_def split: prod.splits option.splits)

lemma buf_inc_len_wf [wf_intros]: "buf_wf b \<Longrightarrow> buf_wf (fst (buf_inc_len b n))"
  by (auto simp: buf_inc_len_def buf_wf_def buf_safe_bidir_def Let_def split: if_splits)

lemma buf_init_wf [wf_intros]: "buf_wf b \<Longrightarrow> buf_wf (fst (buf_init b off))"
  by (auto simp: buf_init_def buf_wf_def)

lemma buf_reset_len_wf [wf_intros]: "buf_wf b \<Longrightarrow> buf_wf (buf_reset_len b)"
  by (auto simp: buf_reset_len_def buf_wf_def)

lemma buf_clear_wf [wf_intros]: "buf_wf b \<Longrightarrow> buf_wf (buf_clear b)"
  by (auto simp: buf_clear_def buf_wf_def buf_poke_def Let_def)

lemma buf_assign_wf [wf_intros]: "buf_wf dest \<Longrightarrow> buf_wf (fst (buf_assign dest src))"
  using buf_init_wf [of dest "b_offset src"] buf_write_wf
  by (auto simp: buf_assign_def split: prod.splits bool.splits)

lemma buf_read_u8_wf [wf_intros]: "buf_wf b \<Longrightarrow> buf_wf (fst (buf_read_u8 b))"
  by (simp add: buf_read_u8_def buf_advance_wf)

lemma buf_peek_within:
  "buf_wf b \<Longrightarrow> 0 \<le> p \<Longrightarrow> 0 \<le> n \<Longrightarrow> p + n \<le> b_capacity b \<Longrightarrow> length (buf_peek b p n) = nat n"
  by (erule buf_wfE) (simp add: buf_peek_def)

lemma buf_copy_n_wf [wf_intros]:
  assumes "buf_wf dest" "buf_wf src"
  shows "buf_wf (fst (buf_copy_n dest src n))" "buf_wf (fst (snd (buf_copy_n dest src n)))"
  using buf_read_alloc_wf [OF assms(2), of n] buf_write_wf [OF assms(1)] assms(1)
  by (auto simp: buf_copy_n_def Let_def split: prod.splits option.splits) (metis fst_conv)+

subsection \<open>The exact effect of every operation\<close>

text \<open>
  What a client sees of a buffer: it is well formed, \<open>hr\<close> bytes of headroom lie before its content
  \<open>xs\<close>, and the block has \<open>cap\<close> bytes.
\<close>

definition buf_is :: "buffer \<Rightarrow> int \<Rightarrow> bytes \<Rightarrow> int \<Rightarrow> bool" where
  "buf_is b hr xs cap \<longleftrightarrow> buf_wf b \<and> b_offset b = hr \<and> buf_content b = xs \<and> b_capacity b = cap"

lemma buf_is_len: "buf_is b hr xs cap \<Longrightarrow> b_len b = int (length xs)"
  using length_buf_content [of b] by (auto simp: buf_is_def)

lemma buf_is_room: "buf_is b hr xs cap \<Longrightarrow> buf_forward_capacity b = cap - hr - int (length xs)"
  using buf_is_len [of b] by (auto simp: buf_is_def buf_forward_capacity_eq)

lemma buf_is_bounds:
  "buf_is b hr xs cap \<Longrightarrow> 0 \<le> hr \<and> hr + int (length xs) \<le> cap \<and> cap < 1000000"
  using buf_is_len [of b hr xs cap] by (auto simp: buf_is_def elim: buf_wfE)

text \<open>The bytes of the block under the content, and how a longer or shorter content relates to them.\<close>

lemma buf_is_block:
  assumes "buf_is b hr xs cap"
  obtains d where "b_data b = Some d" "int (length d) = cap" "xs = segment (nat hr) (length xs) d"
proof -
  obtain d where d: "b_data b = Some d" "int (length d) = b_capacity b"
    using assms by (auto simp: buf_is_def elim: buf_wfE)
  have "xs = segment (nat hr) (length xs) d"
    using buf_content_eq [OF _ d(1)] assms buf_is_len [OF assms] by (simp add: buf_is_def)
  then show ?thesis using that d assms by (auto simp: buf_is_def)
qed

lemma buf_is_window:
  assumes "b_data b = Some d" "int (length d) = cap" "b_capacity b = cap" "cap < 1000000"
    and "0 \<le> b_offset b" "0 \<le> b_len b" "b_offset b + b_len b \<le> cap"
  shows "buf_is b (b_offset b) (segment (nat (b_offset b)) (nat (b_len b)) d) cap"
proof -
  have "buf_wf b" using assms by (simp add: buf_wf_def BUF_SIZE_MAX_def)
  then show ?thesis using buf_content_eq assms(1,3) by (simp add: buf_is_def)
qed

lemma buf_write_exact:
  assumes "buf_is b hr xs cap"
  shows "if hr + int (length xs) + int (length ys) \<le> cap
    then \<exists>b'. buf_write b ys = (b', True) \<and> buf_is b' hr (xs @ ys) cap else buf_write b ys = (b, False)"
proof (cases "hr + int (length xs) + int (length ys) \<le> cap")
  case True
  then obtain b' where "buf_write b ys = (b', True)" "buf_wf b'" "buf_content b' = xs @ ys" "b_offset b' = hr" "b_capacity b' = b_capacity b"
    using assms buf_is_room [OF assms] by (auto simp: buf_is_def intro: buf_write_law [of b ys])
  then show ?thesis using True assms by (simp add: buf_is_def)
next
  case False
  then show ?thesis using assms buf_is_room [OF assms] buf_write_full [of b ys] by (auto simp: buf_is_def)
qed

lemma buf_write_prepend_exact:
  assumes "buf_is b hr xs cap"
  shows "if int (length ys) \<le> hr
    then \<exists>b'. buf_write_prepend b ys = (b', True) \<and> buf_is b' (hr - int (length ys)) (ys @ xs) cap
    else buf_write_prepend b ys = (b, False)"
proof (cases "int (length ys) \<le> hr")
  case True
  then obtain b' where "buf_write_prepend b ys = (b', True)" "buf_wf b'" "buf_content b' = ys @ xs" "b_offset b' = hr - int (length ys)" "b_capacity b' = b_capacity b"
    using assms by (auto simp: buf_is_def intro: buf_write_prepend_law [of b ys])
  then show ?thesis using True assms by (simp add: buf_is_def)
next
  case False
  then show ?thesis using assms buf_write_prepend_full [of b ys] by (auto simp: buf_is_def)
qed

lemma buf_read_exact:
  assumes "buf_is b hr xs cap"
  shows "if 0 \<le> n \<and> n \<le> int (length xs)
    then \<exists>b'. buf_read b n = (b', Some (take (nat n) xs)) \<and> buf_is b' (hr + n) (drop (nat n) xs) cap
    else buf_read b n = (b, None)"
proof (cases "0 \<le> n \<and> n \<le> int (length xs)")
  case True
  then obtain b' where "buf_read b n = (b', Some (take (nat n) xs))" "buf_wf b'" "buf_content b' = drop (nat n) xs" "b_offset b' = hr + n" "b_capacity b' = b_capacity b"
    using assms buf_is_len [OF assms] by (auto simp: buf_is_def intro: buf_read_law [of b n])
  then show ?thesis using True assms by (simp add: buf_is_def)
next
  case False
  then show ?thesis using assms buf_is_len [OF assms] buf_read_short [of n b] by (auto simp: buf_is_def)
qed

lemma buf_advance_exact:
  assumes "buf_is b hr xs cap"
  shows "if 0 \<le> n \<and> n \<le> int (length xs)
    then \<exists>b'. buf_advance b n = (b', True) \<and> buf_is b' (hr + n) (drop (nat n) xs) cap
    else buf_advance b n = (b, False)"
proof (cases "0 \<le> n \<and> n \<le> int (length xs)")
  case True
  then obtain b' where "buf_advance b n = (b', True)" "buf_wf b'" "buf_content b' = drop (nat n) xs" "b_offset b' = hr + n" "b_capacity b' = b_capacity b"
    using assms buf_is_len [OF assms] by (auto simp: buf_is_def intro: buf_advance_law [of b n])
  then show ?thesis using True assms by (simp add: buf_is_def)
next
  case False
  then show ?thesis using assms buf_is_len [OF assms] buf_advance_short [of n b] by (auto simp: buf_is_def)
qed

lemma buf_read_u8_exact:
  assumes "buf_is b hr xs cap"
  shows "case xs of [] \<Rightarrow> buf_read_u8 b = (b, - 1)
    | x # ys \<Rightarrow> (\<exists>b'. buf_read_u8 b = (b', uint x) \<and> buf_is b' (hr + 1) ys cap)"
proof (cases xs)
  case Nil
  then show ?thesis using assms buf_read_u8_empty [of b] by (simp add: buf_is_def)
next
  case (Cons x ys)
  then have "buf_content b = x # ys" "buf_wf b" using assms by (auto simp: buf_is_def)
  then obtain b' where "buf_read_u8 b = (b', uint x)" "buf_wf b'" "buf_content b' = ys"
      "b_offset b' = b_offset b + 1" "b_capacity b' = b_capacity b"
    by (auto intro: buf_read_u8_law [of b x ys])
  then show ?thesis using Cons assms by (auto simp: buf_is_def)
qed

lemma buf_prepend_exact:
  assumes "buf_is b hr xs cap"
  shows "if 0 \<le> n \<and> n \<le> hr
    then \<exists>b' pre. buf_prepend b n = (b', Some (hr - n)) \<and> int (length pre) = n \<and> buf_is b' (hr - n) (pre @ xs) cap
    else buf_prepend b n = (b, None)"
proof (cases "0 \<le> n \<and> n \<le> hr")
  case True
  let ?b = "b\<lparr>b_offset := b_offset b - n, b_len := b_len b + n\<rparr>"
  obtain d where d: "b_data b = Some d" "int (length d) = cap" "xs = segment (nat hr) (length xs) d"
    using buf_is_block [OF assms] by metis
  note bd = buf_is_bounds [OF assms] and l = buf_is_len [OF assms]
  have w: "buf_is ?b (hr - n) (segment (nat (hr - n)) (nat (b_len b + n)) d) cap"
    using buf_is_window [of ?b d cap] d bd True l assms by (simp add: buf_is_def)
  have "nat (b_len b + n) = nat n + length xs" "nat (hr - n) + nat n = nat hr" using True l bd by auto
  then have "segment (nat (hr - n)) (nat (b_len b + n)) d = segment (nat (hr - n)) (nat n) d @ xs"
    using d(3) by (simp add: segment_split)
  moreover have "nat n \<le> length d - nat (hr - n)" using d(2) True bd by linarith
  then have "int (length (segment (nat (hr - n)) (nat n) d)) = n" using True by simp
  moreover have "buf_prepend b n = (?b, Some (hr - n))"
    using buf_prepend_alloc [of b n] assms True by (simp add: buf_is_def)
  ultimately have "buf_prepend b n = (?b, Some (hr - n)) \<and> int (length (segment (nat (hr - n)) (nat n) d)) = n
      \<and> buf_is ?b (hr - n) (segment (nat (hr - n)) (nat n) d @ xs) cap"
    using w by simp
  then show ?thesis unfolding if_P [OF True] by blast
next
  case False
  then show ?thesis using assms by (auto simp: buf_prepend_def buf_is_def)
qed

lemma buf_inc_len_exact:
  assumes "buf_is b hr xs cap"
  shows "if 0 \<le> int (length xs) + n \<and> hr + int (length xs) + n \<le> cap
    then \<exists>b' ys. buf_inc_len b n = (b', True) \<and> buf_is b' hr ys cap \<and> int (length ys) = int (length xs) + n
      \<and> (\<forall>i < min (length xs) (length ys). ys ! i = xs ! i)
    else buf_inc_len b n = (b, False)"
proof (cases "0 \<le> int (length xs) + n \<and> hr + int (length xs) + n \<le> cap")
  case True
  let ?b = "b\<lparr>b_len := b_len b + n\<rparr>"
  obtain d where d: "b_data b = Some d" "int (length d) = cap" "xs = segment (nat hr) (length xs) d"
    using buf_is_block [OF assms] by metis
  note bd = buf_is_bounds [OF assms] and l = buf_is_len [OF assms]
  define ys where "ys = segment (nat hr) (nat (b_len b + n)) d"
  have w: "buf_is ?b hr ys cap"
    using buf_is_window [of ?b d cap] d bd True l assms by (simp add: buf_is_def ys_def)
  have "nat (b_len b + n) \<le> length d - nat hr" using d(2) True l bd by linarith
  then have len: "int (length ys) = int (length xs) + n" using True l by (simp add: ys_def)
  have "ys ! i = xs ! i" if "i < length xs" "i < length ys" for i
  proof -
    have "nat hr + i < length d" using that(1) bd d(2) by linarith
    then have "ys ! i = d ! (nat hr + i)" using that(2) by (simp add: ys_def segment_def)
    moreover have "xs ! i = d ! (nat hr + i)" by (subst d(3)) (use that(1) \<open>nat hr + i < length d\<close> in \<open>simp add: segment_def\<close>)
    ultimately show ?thesis by simp
  qed
  moreover have "buf_inc_len b n = (?b, True)"
    using buf_inc_len_law [of b n] buf_is_room [OF assms] l True assms by (simp add: buf_is_def)
  ultimately show ?thesis using w len True by auto
next
  case False
  then show ?thesis using buf_is_len [OF assms] assms
    by (auto simp: buf_inc_len_def buf_safe_bidir_def buf_is_def Let_def)
qed

lemma buf_init_exact:
  assumes "buf_is b hr xs cap"
  shows "if 0 \<le> off \<and> off \<le> cap then \<exists>b'. buf_init b off = (b', True) \<and> buf_is b' off [] cap
    else buf_init b off = (b, False)"
proof (cases "0 \<le> off \<and> off \<le> cap")
  case True
  then obtain b' where "buf_init b off = (b', True)" "buf_wf b'" "buf_content b' = []" "b_offset b' = off"
      "b_capacity b' = b_capacity b"
    using assms by (auto simp: buf_is_def intro: buf_init_law [of b off])
  then show ?thesis using True assms by (simp add: buf_is_def)
next
  case False
  then show ?thesis using assms by (auto simp: buf_is_def buf_init_def)
qed

lemma buf_assign_exact:
  assumes "buf_is b hr xs cap" "buf_is c hr2 ys cap2"
  shows "if hr2 + int (length ys) \<le> cap then \<exists>b'. buf_assign b c = (b', True) \<and> buf_is b' hr2 ys cap
    else if hr2 \<le> cap then \<exists>b'. buf_assign b c = (b', False) \<and> buf_is b' hr2 [] cap
    else buf_assign b c = (b, False)"
proof (cases "hr2 \<le> cap")
  case True
  then obtain b1 where b1: "buf_init b hr2 = (b1, True)" "buf_is b1 hr2 [] cap"
    using buf_init_exact [OF assms(1), of hr2] buf_is_bounds [OF assms(2)] by auto
  have "buf_assign b c = buf_write b1 ys" using b1 assms(2) by (simp add: buf_assign_def buf_is_def)
  then show ?thesis using buf_write_exact [OF b1(2), of ys] b1(2) True by auto
next
  case False
  then have "buf_init b hr2 = (b, False)" using buf_init_exact [OF assms(1), of hr2] by simp
  then show ?thesis using False assms(2) by (simp add: buf_assign_def buf_is_def)
qed

lemma buf_copy_n_exact:
  assumes "buf_is b hr xs cap" "buf_is c hr2 ys cap2"
  shows "if 0 \<le> n \<and> n \<le> int (length ys)
    then \<exists>b' c'. buf_copy_n b c n = (b', c', hr + int (length xs) + n \<le> cap)
      \<and> buf_is c' (hr2 + n) (drop (nat n) ys) cap2
      \<and> (if hr + int (length xs) + n \<le> cap then buf_is b' hr (xs @ take (nat n) ys) cap else b' = b)
    else buf_copy_n b c n = (b, c, False)"
proof (cases "0 \<le> n \<and> n \<le> int (length ys)")
  case True
  obtain c' where c': "buf_read c n = (c', Some (take (nat n) ys))" "buf_is c' (hr2 + n) (drop (nat n) ys) cap2"
    using buf_read_exact [OF assms(2), of n] True by auto
  have "buf_copy_n b c n = (let (dest, ok) = buf_write b (take (nat n) ys) in (dest, c', ok))"
    using c'(1) by (auto simp: buf_read_def buf_copy_n_def split: prod.splits option.splits)
  moreover have "nat n \<le> length ys" using True by linarith
  then have "int (length (take (nat n) ys)) = n" using True by simp
  ultimately show ?thesis using buf_write_exact [OF assms(1), of "take (nat n) ys"] c'(2) True
    by (cases "hr + int (length xs) + n \<le> cap") auto
next
  case False
  then show ?thesis using buf_is_len [OF assms(2)]
    by (auto simp: buf_copy_n_def buf_read_alloc_def)
qed

lemma buf_copy_range_exact:
  assumes "buf_is b hr xs cap" "buf_is c hr2 ys cap2"
  shows "if j < 0 \<or> n < 0 then buf_copy_range b i c j n = Some (b, False)
    else if j + n \<ge> 2 ^ 31 then buf_copy_range b i c j n = None
    else if j + n > int (length ys) \<or> i < 0 then buf_copy_range b i c j n = Some (b, False)
    else if hr + i + n \<ge> 2 ^ 31 then buf_copy_range b i c j n = None
    else if hr + i + n > cap then buf_copy_range b i c j n = Some (b, False)
    else \<exists>b' zs. buf_copy_range b i c j n = Some (b', True) \<and> buf_is b' hr zs cap
      \<and> length zs = max (length xs) (nat (i + n)) \<and> segment (nat i) (nat n) zs = segment (nat j) (nat n) ys
      \<and> (\<forall>k < length xs. int k < i \<or> i + n \<le> int k \<longrightarrow> zs ! k = xs ! k)"
proof -
  note bd = buf_is_bounds [OF assms(1)] buf_is_bounds [OF assms(2)]
  note l = buf_is_len [OF assms(1)] buf_is_len [OF assms(2)]
  have off: "b_offset b = hr" "b_offset c = hr2" "b_capacity b = cap" using assms by (auto simp: buf_is_def)
  show ?thesis
  proof (cases "0 \<le> j \<and> 0 \<le> n \<and> j + n \<le> int (length ys) \<and> 0 \<le> i \<and> hr + i + n \<le> cap")
    case False
    then show ?thesis using bd l off by (auto simp: buf_copy_range_def int_sum_def Let_def)
  next
    case True
    obtain d where d: "b_data b = Some d" "int (length d) = cap" "xs = segment (nat hr) (length xs) d"
      using buf_is_block [OF assms(1)] by metis
    obtain e where e: "b_data c = Some e" "int (length e) = cap2" "ys = segment (nat hr2) (length ys) e"
      using buf_is_block [OF assms(2)] by metis
    define bs where "bs = segment (nat j) (nat n) ys"
    define d' where "d' = patch d (nat hr + nat i) bs"
    define m where "m = max (length xs) (nat (i + n))"
    let ?b = "b\<lparr>b_data := Some d', b_len := int m\<rparr>"
    have "nat n \<le> length ys - nat j" using True by linarith
    then have bs: "length bs = nat n" by (simp add: bs_def)
    have "bs = segment (nat hr2 + nat j) (nat n) e"
      unfolding bs_def by (subst e(3), rule segment_segment) (use True in linarith)
    then have "buf_peek c (hr2 + j) n = bs" using e(1) True bd by (simp add: buf_peek_def nat_add_distrib)
    then have run: "buf_copy_range b i c j n = Some (?b, True)"
      using True bd l off d(1)
      by (auto simp: buf_copy_range_def Let_def buf_poke_def d'_def m_def nat_add_distrib max_def)
    have fit: "nat hr + nat i + length bs \<le> length d" using True bd d(2) bs by linarith
    have m: "hr + int m \<le> cap" using True bd by (auto simp: m_def max_def)
    have w: "buf_is ?b hr (segment (nat hr) m d') cap"
      using buf_is_window [of ?b d' cap] fit d(2) bd m off by (simp add: d'_def)
    let ?zs = "segment (nat hr) m d'"
    have "m \<le> length d - nat hr" using m d(2) bd by linarith
    then have len: "length ?zs = m" using fit by (simp add: d'_def)
    have "nat i + length bs \<le> m" using True bs by (simp add: m_def nat_add_distrib)
    then have "segment (nat i) (nat n) ?zs = segment (nat hr + nat i) (length bs) d'"
      using bs by (simp add: segment_segment)
    also have "\<dots> = bs" unfolding d'_def by (rule segment_patch_same [OF fit])
    finally have seg: "segment (nat i) (nat n) ?zs = segment (nat j) (nat n) ys" by (simp add: bs_def)
    have keep: "?zs ! k = xs ! k" if "k < length xs" "int k < i \<or> i + n \<le> int k" for k
    proof -
      have km: "k < m" using that(1) by (simp add: m_def)
      have kd: "nat hr + k < length d" using m d(2) bd km by linarith
      have "?zs ! k = d' ! (nat hr + k)" using km kd fit by (simp add: segment_def d'_def)
      also have "\<dots> = d ! (nat hr + k)"
        unfolding d'_def using nth_patch [OF fit kd] that(2) True bs by auto
      also have "\<dots> = xs ! k" by (subst d(3)) (use that(1) kd in \<open>simp add: segment_def\<close>)
      finally show ?thesis .
    qed
    show ?thesis using True run w len seg keep bd unfolding m_def by auto
  qed
qed

lemma buf_clear_exact: "buf_is b hr xs cap \<Longrightarrow> buf_is (buf_clear b) 0 [] cap"
  using buf_clear_wf [of b] by (auto simp: buf_is_def buf_clear_def buf_poke_def Let_def buf_content_def
      buf_valid_def buf_peek_def split: option.splits)

lemma buf_reset_len_exact: "buf_is b hr xs cap \<Longrightarrow> buf_is (buf_reset_len b) 0 [] cap"
  using buf_reset_len_wf [of b] by (auto simp: buf_is_def buf_reset_len_def buf_content_def
      buf_valid_def buf_peek_def split: option.splits)

text \<open>
  C24: The packet buffer.  For buffers \<open>b\<close> and \<open>c\<close> with headroom, content and capacity as given, and
  any arguments (negative, oversized, past either end), the outcome of every operation: writing at
  the end and at the front, reading, moving the window, copying between buffers, re-initialising.
  Each one succeeds exactly when what it needs lies within the block and then has the stated content
  in the same block, and otherwise leaves the buffers alone (except that a failing \<open>buf_assign\<close> has
  emptied its destination and a \<open>buf_copy_n\<close> without room has consumed its source).
  \<open>buf_copy_range\<close> replaces just the bytes it is to copy; its result is undefined exactly when
  one of its sums overflows an \<open>int\<close>, before the bound it is for is tested.
\<close>

theorem buffer_operations_safe:
  assumes "buf_is b hr xs cap" "buf_is c hr2 ys cap2"
  shows "(if hr + int (length xs) + int (length bs) \<le> cap
      then \<exists>b'. buf_write b bs = (b', True) \<and> buf_is b' hr (xs @ bs) cap else buf_write b bs = (b, False))
    \<and> (if int (length bs) \<le> hr
      then \<exists>b'. buf_write_prepend b bs = (b', True) \<and> buf_is b' (hr - int (length bs)) (bs @ xs) cap
      else buf_write_prepend b bs = (b, False))
    \<and> (if 0 \<le> n \<and> n \<le> int (length xs)
      then \<exists>b'. buf_read b n = (b', Some (take (nat n) xs)) \<and> buf_is b' (hr + n) (drop (nat n) xs) cap
      else buf_read b n = (b, None))
    \<and> (case xs of [] \<Rightarrow> buf_read_u8 b = (b, - 1)
      | x # zs \<Rightarrow> (\<exists>b'. buf_read_u8 b = (b', uint x) \<and> buf_is b' (hr + 1) zs cap))
    \<and> (if 0 \<le> n \<and> n \<le> int (length xs)
      then \<exists>b'. buf_advance b n = (b', True) \<and> buf_is b' (hr + n) (drop (nat n) xs) cap
      else buf_advance b n = (b, False))
    \<and> (if 0 \<le> n \<and> n \<le> hr
      then \<exists>b' pre. buf_prepend b n = (b', Some (hr - n)) \<and> int (length pre) = n \<and> buf_is b' (hr - n) (pre @ xs) cap
      else buf_prepend b n = (b, None))
    \<and> (if 0 \<le> int (length xs) + n \<and> hr + int (length xs) + n \<le> cap
      then \<exists>b' zs. buf_inc_len b n = (b', True) \<and> buf_is b' hr zs cap \<and> int (length zs) = int (length xs) + n
        \<and> (\<forall>i < min (length xs) (length zs). zs ! i = xs ! i)
      else buf_inc_len b n = (b, False))
    \<and> (if 0 \<le> n \<and> n \<le> cap then \<exists>b'. buf_init b n = (b', True) \<and> buf_is b' n [] cap else buf_init b n = (b, False))
    \<and> (if hr2 + int (length ys) \<le> cap then \<exists>b'. buf_assign b c = (b', True) \<and> buf_is b' hr2 ys cap
      else if hr2 \<le> cap then \<exists>b'. buf_assign b c = (b', False) \<and> buf_is b' hr2 [] cap
      else buf_assign b c = (b, False))
    \<and> (if 0 \<le> n \<and> n \<le> int (length ys)
      then \<exists>b' c'. buf_copy_n b c n = (b', c', hr + int (length xs) + n \<le> cap)
        \<and> buf_is c' (hr2 + n) (drop (nat n) ys) cap2
        \<and> (if hr + int (length xs) + n \<le> cap then buf_is b' hr (xs @ take (nat n) ys) cap else b' = b)
      else buf_copy_n b c n = (b, c, False))
    \<and> (if j < 0 \<or> n < 0 then buf_copy_range b i c j n = Some (b, False)
      else if j + n \<ge> 2 ^ 31 then buf_copy_range b i c j n = None
      else if j + n > int (length ys) \<or> i < 0 then buf_copy_range b i c j n = Some (b, False)
      else if hr + i + n \<ge> 2 ^ 31 then buf_copy_range b i c j n = None
      else if hr + i + n > cap then buf_copy_range b i c j n = Some (b, False)
      else \<exists>b' zs. buf_copy_range b i c j n = Some (b', True) \<and> buf_is b' hr zs cap
        \<and> length zs = max (length xs) (nat (i + n)) \<and> segment (nat i) (nat n) zs = segment (nat j) (nat n) ys
        \<and> (\<forall>k < length xs. int k < i \<or> i + n \<le> int k \<longrightarrow> zs ! k = xs ! k))
    \<and> buf_is (buf_clear b) 0 [] cap \<and> buf_is (buf_reset_len b) 0 [] cap"
  using buf_write_exact [OF assms(1)] buf_write_prepend_exact [OF assms(1)] buf_read_exact [OF assms(1)]
    buf_read_u8_exact [OF assms(1)] buf_advance_exact [OF assms(1)] buf_prepend_exact [OF assms(1)]
    buf_inc_len_exact [OF assms(1)] buf_init_exact [OF assms(1)] buf_assign_exact [OF assms]
    buf_copy_n_exact [OF assms] buf_copy_range_exact [OF assms] buf_clear_exact [OF assms(1)]
    buf_reset_len_exact [OF assms(1)]
  by (intro conjI) assumption+

theorem buffer_operations_safe_witness:
  "buf_copy_range \<lparr>b_capacity = 4, b_offset = 2, b_len = 1, b_data = Some [1, 2, 3, 4]\<rparr> 0
     \<lparr>b_capacity = 4, b_offset = 2, b_len = 1, b_data = Some [1, 2, 3, 4]\<rparr> 2147483647 1 = None"
proof -
  have "buf_is \<lparr>b_capacity = 4, b_offset = 2, b_len = 1, b_data = Some [1, 2, 3, 4]\<rparr> 2 [3] 4"
    by (simp add: buf_is_def buf_wf_def BUF_SIZE_MAX_def buf_content_def buf_valid_def buf_peek_def segment_def)
  from buffer_operations_safe [OF this this, where n = 1 and j = 2147483647 and i = 0 and bs = "[]"]
  show ?thesis by simp
qed

subsection \<open>Integers on the wire\<close>

lemma buf_read_u16_law:
  assumes "buf_wf b" "buf_content b = be16_bytes w @ rest"
  obtains b' where "buf_read_u16 b = (b', uint w)" "buf_wf b'" "buf_content b' = rest"
  using bs.get_law [OF assms(1), of 2] assms(2) by (auto simp: buf_read_u16_def)

lemma buf_read_u32_law:
  assumes "buf_wf b" "buf_content b = be32_bytes w @ rest"
  obtains b' where "buf_read_u32 b = (b', w, True)" "buf_wf b'" "buf_content b' = rest"
  using bs.get_law [OF assms(1), of 4] assms(2) by (auto simp: buf_read_u32_def)

text \<open>
  Integer fields.  An octet, a 16-bit and a 32-bit integer written to a buffer with
  room are read back unchanged, in order; without room for the seven octets one
  of the writes reports failure.
\<close>

theorem buffer_integers_roundtrip:
  assumes wf: "buf_wf b" and empty: "buf_content b = []"
  shows "let (b1, ok1) = buf_write_u8 b x; (b2, ok2) = buf_write_u16 b1 y; (b3, ok3) = buf_write_u32 b2 z
         in (ok1 \<and> ok2 \<and> ok3 \<longleftrightarrow> 7 \<le> buf_forward_capacity b) \<and>
            (7 \<le> buf_forward_capacity b \<longrightarrow>
              (let (c1, x') = buf_read_u8 b3; (c2, y') = buf_read_u16 c1; (c3, z', good) = buf_read_u32 c2
               in x' = uint x \<and> y' = uint y \<and> z' = z \<and> good \<and> buf_content c3 = []))"
proof -
  define r where "r = bs.put_all [[x], be16_bytes y, be32_bytes z] b"
  obtain b1 ok1 b2 ok2 b3 ok3 where w: "buf_write_u8 b x = (b1, ok1)" "buf_write_u16 b1 y = (b2, ok2)"
    "buf_write_u32 b2 z = (b3, ok3)"
    by (metis prod.exhaust)
  have wf1: "buf_wf b1" "buf_wf b2"
    using buf_write_wf [OF wf, of "[x]"] buf_write_wf [of b1 "be16_bytes y"] w
    by (auto simp: buf_write_u8_def buf_write_u16_def)
  have fc: "0 \<le> buf_forward_capacity b"
    using wf by (auto simp: buf_forward_capacity_eq elim: buf_wfE)
  show ?thesis
  proof (cases "7 \<le> buf_forward_capacity b")
    case True
    obtain c1 where c1: "buf_write b [x] = (c1, True)" "buf_wf c1" "buf_content c1 = [x]"
      "buf_forward_capacity c1 = buf_forward_capacity b - 1"
      using buf_write_law [OF wf, of "[x]"] True empty by auto
    obtain c2 where c2: "buf_write c1 (be16_bytes y) = (c2, True)" "buf_wf c2"
      "buf_content c2 = [x] @ be16_bytes y" "buf_forward_capacity c2 = buf_forward_capacity b - 3"
      using buf_write_law [OF c1(2), of "be16_bytes y"] True c1 by auto
    obtain c3 where c3: "buf_write c2 (be32_bytes z) = (c3, True)" "buf_wf c3"
      "buf_content c3 = x # be16_bytes y @ be32_bytes z"
      using buf_write_law [OF c2(2), of "be32_bytes z"] True c2 by auto
    have eq: "b1 = c1" "b2 = c2" "b3 = c3" "ok1" "ok2" "ok3"
      using w c1(1) c2(1) c3(1) by (auto simp: buf_write_u8_def buf_write_u16_def buf_write_u32_def)
    obtain d1 where d1: "buf_read_u8 b3 = (d1, uint x)" "buf_wf d1"
      "buf_content d1 = be16_bytes y @ be32_bytes z"
      using buf_read_u8_law [OF c3(2,3)] eq by metis
    obtain d2 where d2: "buf_read_u16 d1 = (d2, uint y)" "buf_wf d2" "buf_content d2 = be32_bytes z @ []"
      using buf_read_u16_law [OF d1(2,3)] by auto
    obtain d3 where d3: "buf_read_u32 d2 = (d3, z, True)" "buf_content d3 = []"
      using buf_read_u32_law [OF d2(2,3)] by metis
    show ?thesis using w eq d1(1) d2(1) d3 True by simp
  next
    case False
    have "\<not> (ok1 \<and> ok2 \<and> ok3)"
    proof
      assume ok: "ok1 \<and> ok2 \<and> ok3"
      then have "bs.put_all [[x], be16_bytes y, be32_bytes z] b = (b3, True)"
        using w by (simp add: buf_write_u8_def buf_write_u16_def buf_write_u32_def)
      then show False using bs.put_all_ok_iff [OF wf, of "[[x], be16_bytes y, be32_bytes z]"] False fc by simp
    qed
    then show ?thesis using w False by simp
  qed
qed

theorem buffer_integers_roundtrip_witness:
  "snd (buf_write_u32 (fst (buf_write_u16 (fst (buf_write_u8 (the (alloc_buf 6)) 1)) 2)) 3) = False"
  using buffer_integers_roundtrip [of "the (alloc_buf 6)" 1 2 3]
  by (simp add: alloc_buf_def buf_size_valid_def BUF_SIZE_MAX_def buf_wf_def buf_content_def buf_valid_def
      buf_peek_def buf_forward_capacity_def Let_def buf_write_u8_def buf_write_u16_def buf_write_u32_def
      buf_write_def buf_write_alloc_def buf_safe_def buf_bptr_def buf_poke_def)

subsection \<open>Sub-buffers\<close>

text \<open>
  Sub-buffers alias their parent.  \<^const>\<open>buf_sub\<close> in front of a buffer's content with
  enough headroom delivers an empty buffer of the asked size over the parent's
  own memory: whatever bytes that sub-buffer ends up with appear in the parent, in
  front of its content, which is untouched.
\<close>

theorem buf_sub_aliases:
  assumes "buf_wf b" "0 \<le> n" "n \<le> b_offset b" "buf_sub b n True = (b', sub, p)"
    and "b_data sub' = Some d" "int (length d) = n"
  shows "buf_wf sub \<and> buf_content sub = [] \<and> buf_forward_capacity sub = n
     \<and> buf_wf (buf_sub_sync b' p sub') \<and> buf_content (buf_sub_sync b' p sub') = d @ buf_content b"
  using buf_sub_prepend_law [OF assms(1-3)] assms(4-6) by (metis fst_conv snd_conv)

theorem buf_sub_aliases_witness:
  "buf_content (buf_sub_sync \<lparr>b_capacity = 4, b_offset = 1, b_len = 2, b_data = Some [1, 2, 3, 4]\<rparr> 1
      \<lparr>b_capacity = 1, b_offset = 0, b_len = 1, b_data = Some [9]\<rparr>) = [9, 3]"
proof -
  let ?b = "\<lparr>b_capacity = 4, b_offset = 2, b_len = 1, b_data = Some [1, 2, 3, 4]\<rparr>"
  have wf: "buf_wf ?b" by (simp add: buf_wf_def BUF_SIZE_MAX_def)
  have sub: "buf_sub ?b 1 True = (\<lparr>b_capacity = 4, b_offset = 1, b_len = 2, b_data = Some [1, 2, 3, 4]\<rparr>,
      \<lparr>b_capacity = 1, b_offset = 0, b_len = 0, b_data = Some [2]\<rparr>, 1)"
    by code_simp
  have "buf_content ?b = [3]" by code_simp
  then show ?thesis
    using buf_sub_aliases [OF wf _ _ sub, of "\<lparr>b_capacity = 1, b_offset = 0, b_len = 1, b_data = Some [9]\<rparr>" "[9]"]
    by simp
qed

end
