(* ===== verification/Packet_Id.thy ===== *)
theory Packet_Id
  imports Circ_List Buffer
begin

text \<open>
  Packet identifiers and replay protection: src/openvpn/packet_id.c and
  packet_id.h, and their user crypto_check_replay of crypto.c.  The sender
  numbers its packets, the receiver keeps a sliding window of the identifiers
  it has seen.

  The window is a circular list of arrival times (\<open>SEQ_UNSEEN\<close>, \<open>SEQ_EXPIRED\<close>
  or the time), its entry \<open>k\<close> standing for the identifier \<open>id - k\<close>.  The
  global \<open>now\<close> is an argument.  The fields \<open>name\<close> and \<open>unit\<close>, which only debug
  messages read, are left out.
\<close>

subsection \<open>Data\<close>

record packet_id_net =
  pin_id :: u32
  pin_time :: int

record packet_id_send =
  ps_id :: u32
  ps_time :: int

record packet_id_rec =
  pr_last_reap :: int
  pr_time :: int
  pr_id :: u32
  pr_seq_backtrack :: int
  pr_time_backtrack :: int
  pr_max_backtrack_stat :: int
  pr_initialized :: bool
  pr_seq_list :: "int circ_list option"

record packet_id =
  pid_send :: packet_id_send
  pid_rec :: packet_id_rec

record packet_id_persist =
  pp_filename :: "string option"
  pp_fd :: int
  pp_time :: int
  pp_id :: u32
  pp_time_last_written :: int
  pp_id_last_written :: u32

definition SEQ_UNSEEN :: int where "SEQ_UNSEEN = 0"
definition SEQ_EXPIRED :: int where "SEQ_EXPIRED = 1"
definition SEQ_REAP_INTERVAL :: int where "SEQ_REAP_INTERVAL = 5"
definition MIN_SEQ_BACKTRACK :: int where "MIN_SEQ_BACKTRACK = 0"
definition MAX_SEQ_BACKTRACK :: int where "MAX_SEQ_BACKTRACK = 65536"
definition MIN_TIME_BACKTRACK :: int where "MIN_TIME_BACKTRACK = 0"
definition MAX_TIME_BACKTRACK :: int where "MAX_TIME_BACKTRACK = 600"
definition PACKET_ID_MAX :: u32 where "PACKET_ID_MAX = 4294967295"
definition PACKET_ID_WRAP_TRIGGER :: u32 where "PACKET_ID_WRAP_TRIGGER = 0xFF000000"

lemmas packet_id_consts = SEQ_UNSEEN_def SEQ_EXPIRED_def SEQ_REAP_INTERVAL_def
  MIN_SEQ_BACKTRACK_def MAX_SEQ_BACKTRACK_def MIN_TIME_BACKTRACK_def MAX_TIME_BACKTRACK_def
  PACKET_ID_MAX_def PACKET_ID_WRAP_TRIGGER_def

subsection \<open>Initialisation\<close>

text \<open>The \<open>CLEAR\<close>ed structure.\<close>

definition packet_id_zero :: packet_id where
  "packet_id_zero = \<lparr>pid_send = \<lparr>ps_id = 0, ps_time = 0\<rparr>,
     pid_rec = \<lparr>pr_last_reap = 0, pr_time = 0, pr_id = 0, pr_seq_backtrack = 0,
       pr_time_backtrack = 0, pr_max_backtrack_stat = 0, pr_initialized = False,
       pr_seq_list = None\<rparr>\<rparr>"

definition packet_id_init :: "int \<Rightarrow> int \<Rightarrow> packet_id option" where
  "packet_id_init seq_backtrack time_backtrack = do {
     let r = pid_rec packet_id_zero;
     r \<leftarrow> (if seq_backtrack \<noteq> 0 then do {
             ASSERT (MIN_SEQ_BACKTRACK \<le> seq_backtrack \<and> seq_backtrack \<le> MAX_SEQ_BACKTRACK);
             ASSERT (MIN_TIME_BACKTRACK \<le> time_backtrack \<and> time_backtrack \<le> MAX_TIME_BACKTRACK);
             Some (r\<lparr>pr_seq_list := Some (CIRC_LIST_ALLOC SEQ_UNSEEN seq_backtrack),
                     pr_seq_backtrack := seq_backtrack, pr_time_backtrack := time_backtrack\<rparr>) }
           else Some r);
     Some (packet_id_zero\<lparr>pid_rec := r\<lparr>pr_initialized := True\<rparr>\<rparr>) }"

definition packet_id_free :: "packet_id option \<Rightarrow> packet_id option" where
  "packet_id_free p = (case p of None \<Rightarrow> None | Some _ \<Rightarrow> Some packet_id_zero)"

definition packet_id_initialized :: "packet_id \<Rightarrow> bool" where
  "packet_id_initialized p = pr_initialized (pid_rec p)"

subsection \<open>The receiver\<close>

text \<open>The \<open>while (p->id < pin->id)\<close> loop.\<close>

function packet_id_fill :: "u32 \<Rightarrow> u32 \<Rightarrow> int circ_list \<Rightarrow> (u32 \<times> int circ_list) option" where
  "packet_id_fill target i l =
     (if i < target
      then do { l \<leftarrow> CIRC_LIST_PUSH l SEQ_UNSEEN; packet_id_fill target (i + 1) l }
      else Some (i, l))"
  by pat_completeness auto
termination
  by (relation "measure (\<lambda>(t, i, l). unat t - unat i)")
     (auto simp: unat_Suc32 word_less_nat_alt [symmetric] intro!: diff_less_mono2 unat_mono)

definition packet_id_add :: "int \<Rightarrow> packet_id_rec \<Rightarrow> packet_id_net \<Rightarrow> packet_id_rec option" where
  "packet_id_add now p pin =
     (case pr_seq_list p of
        Some l \<Rightarrow>
          (let sb = word_of_int (pr_seq_backtrack p) :: u32;
               (p, l) =
                 (if CIRC_LIST_SIZE l = 0
                   \<or> pin_time pin > pr_time p
                   \<or> (pin_id pin \<ge> sb \<and> pin_id pin - sb > pr_id p)
                  then (p\<lparr>pr_time := pin_time pin,
                          pr_id := (if pin_id pin > sb then pin_id pin - sb else 0)\<rparr>,
                        CIRC_LIST_RESET l)
                  else (p, l))
           in do {
             (i, l) \<leftarrow> packet_id_fill (pin_id pin) (pr_id p) l;
             let diff = i - pin_id pin;
             l \<leftarrow> (if diff < word_of_int (CIRC_LIST_SIZE l) \<and> now > SEQ_EXPIRED
                   then CIRC_LIST_SET l (sint diff) now else Some l);
             Some (p\<lparr>pr_id := i, pr_seq_list := Some l\<rparr>) })
      | None \<Rightarrow> Some (p\<lparr>pr_time := pin_time pin, pr_id := pin_id pin\<rparr>))"

text \<open>The expiry loop from index \<open>i\<close> on.\<close>

function packet_id_reap_loop ::
    "int \<Rightarrow> int \<Rightarrow> int \<Rightarrow> bool \<Rightarrow> int circ_list \<Rightarrow> int circ_list option" where
  "packet_id_reap_loop now tb i expire l =
     (if i < CIRC_LIST_SIZE l
      then do {
        t \<leftarrow> CIRC_LIST_ITEM l i;
        if t = SEQ_EXPIRED then Some l
        else
          (let expire = (if \<not> expire \<and> t \<noteq> 0 \<and> t + tb < now then True else expire)
           in if expire
              then do { l' \<leftarrow> CIRC_LIST_SET l i SEQ_EXPIRED; packet_id_reap_loop now tb (i + 1) expire l' }
              else packet_id_reap_loop now tb (i + 1) expire l) }
      else Some l)"
  by pat_completeness auto
termination
  by (relation "measure (\<lambda>(now, tb, i, e, l). nat (CIRC_LIST_SIZE l - i))")
     (auto simp: CIRC_LIST_SET_def CIRC_LIST_SIZE_def option_bind_Some_iff)

definition packet_id_reap :: "int \<Rightarrow> packet_id_rec \<Rightarrow> packet_id_rec option" where
  "packet_id_reap now p = do {
     p \<leftarrow> (if pr_time_backtrack p \<noteq> 0
           then (case pr_seq_list p of
                   None \<Rightarrow> None
                 | Some l \<Rightarrow> do {
                     l \<leftarrow> packet_id_reap_loop now (pr_time_backtrack p) 0 False l;
                     Some (p\<lparr>pr_seq_list := Some l\<rparr>) })
           else Some p);
     Some (p\<lparr>pr_last_reap := now\<rparr>) }"

definition packet_id_reap_test :: "int \<Rightarrow> packet_id_rec \<Rightarrow> packet_id_rec option" where
  "packet_id_reap_test now p =
     (if pr_last_reap p + SEQ_REAP_INTERVAL \<le> now then packet_id_reap now p else Some p)"

text \<open>The verdict, and the state with its backtrack statistics.\<close>

definition packet_id_test :: "packet_id_rec \<Rightarrow> packet_id_net \<Rightarrow> (packet_id_rec \<times> bool) option" where
  "packet_id_test p pin = do {
     ASSERT (pr_initialized p);
     if pin_id pin = 0 then Some (p, False)
     else if pr_seq_backtrack p \<noteq> 0
     then
       (if pin_time pin = pr_time p
        then
          (if pin_id pin > pr_id p then Some (p, True)
           else
             (let diff = pr_id p - pin_id pin;
                  p = (if sint diff > pr_max_backtrack_stat p
                       then p\<lparr>pr_max_backtrack_stat := sint diff\<rparr> else p)
              in case pr_seq_list p of
                   None \<Rightarrow> None
                 | Some l \<Rightarrow>
                     (if diff \<ge> word_of_int (CIRC_LIST_SIZE l) then Some (p, False)
                      else do { v \<leftarrow> CIRC_LIST_ITEM l (sint diff); Some (p, v = 0) })))
        else if pin_time pin < pr_time p then Some (p, False)
        else Some (p, True))
     else
       (if pin_time pin = pr_time p
        then Some (p, pr_id p = 0 \<or> pin_id pin = pr_id p + 1)
        else if pin_time pin < pr_time p then Some (p, False)
        else Some (p, pin_id pin = 1)) }"

declare packet_id_fill.simps [simp del] packet_id_reap_loop.simps [simp del]

subsection \<open>The sender\<close>

definition packet_id_send_update ::
    "int \<Rightarrow> packet_id_send \<Rightarrow> bool \<Rightarrow> packet_id_send \<times> bool" where
  "packet_id_send_update now p long_form =
     (let p = (if ps_time p = 0 then p\<lparr>ps_time := now\<rparr> else p)
      in if ps_id p = PACKET_ID_MAX
         then (if \<not> long_form \<or> now \<le> ps_time p then (p, False)
               else (p\<lparr>ps_time := now, ps_id := 0 + 1\<rparr>, True))
         else (p\<lparr>ps_id := ps_id p + 1\<rparr>, True))"

text \<open>\<open>htontime\<close>: the time is cut to 32 bits.\<close>

definition packet_id_write ::
    "int \<Rightarrow> packet_id_send \<Rightarrow> buffer \<Rightarrow> bool \<Rightarrow> bool \<Rightarrow> packet_id_send \<times> buffer \<times> bool" where
  "packet_id_write now p buf long_form prepend =
     (case packet_id_send_update now p long_form of
        (p, False) \<Rightarrow> (p, buf, False)
      | (p, True) \<Rightarrow>
          (let net_id = be32_bytes (ps_id p);
               net_time = be32_bytes (word_of_int (ps_time p))
           in if prepend
              then (let (buf, ok) = (if long_form then buf_write_prepend buf net_time else (buf, True))
                    in if \<not> ok then (p, buf, False)
                       else (case buf_write_prepend buf net_id of
                               (buf, ok) \<Rightarrow> (p, buf, ok)))
              else (case buf_write buf net_id of
                      (buf, False) \<Rightarrow> (p, buf, False)
                    | (buf, True) \<Rightarrow>
                        (if long_form
                         then (case buf_write buf net_time of (buf, ok) \<Rightarrow> (p, buf, ok))
                         else (p, buf, True)))))"

definition packet_id_read :: "buffer \<Rightarrow> bool \<Rightarrow> packet_id_net \<times> buffer \<times> bool" where
  "packet_id_read buf long_form =
     (let pin = \<lparr>pin_id = 0, pin_time = 0\<rparr>
      in case buf_read buf 4 of
           (buf, None) \<Rightarrow> (pin, buf, False)
         | (buf, Some net_id) \<Rightarrow>
             (let pin = pin\<lparr>pin_id := be32_of net_id\<rparr>
              in if long_form
                 then (case buf_read buf 4 of
                         (buf, None) \<Rightarrow> (pin, buf, False)
                       | (buf, Some net_time) \<Rightarrow>
                           (pin\<lparr>pin_time := uint (be32_of net_time)\<rparr>, buf, True))
                 else (pin, buf, True)))"

definition reset_packet_id_send :: "packet_id_send \<Rightarrow> packet_id_send" where
  "reset_packet_id_send p = p\<lparr>ps_time := 0, ps_id := 0\<rparr>"

definition packet_id_size :: "bool \<Rightarrow> int" where
  "packet_id_size long_form = 4 + (if long_form then 4 else 0)"

definition packet_id_close_to_wrapping :: "packet_id_send \<Rightarrow> bool" where
  "packet_id_close_to_wrapping p \<longleftrightarrow> ps_id p \<ge> PACKET_ID_WRAP_TRIGGER"

text \<open>The difference is assigned to an \<open>unsigned int\<close>.\<close>

definition check_timestamp_delta :: "int \<Rightarrow> int \<Rightarrow> u32 \<Rightarrow> bool" where
  "check_timestamp_delta now remote max_delta =
     (let a = word_of_int (if now \<ge> remote then now - remote else remote - now) :: u32
      in a \<le> max_delta)"

subsection \<open>Persistence\<close>

definition packet_id_persist_init :: "packet_id_persist \<Rightarrow> packet_id_persist" where
  "packet_id_persist_init p = \<lparr>pp_filename = None, pp_fd = - 1, pp_time = 0, pp_id = 0,
     pp_time_last_written = 0, pp_id_last_written = 0\<rparr>"

definition packet_id_persist_enabled :: "packet_id_persist \<Rightarrow> bool" where
  "packet_id_persist_enabled p \<longleftrightarrow> pp_fd p \<ge> 0"

definition packet_id_persist_close :: "packet_id_persist \<Rightarrow> packet_id_persist" where
  "packet_id_persist_close p =
     (if packet_id_persist_enabled p then packet_id_persist_init p else p)"

text \<open>
  The operating system's answers are arguments: the descriptor (negative one on
  failure), whether the lock was obtained, and the image the read delivered if
  it was complete.  Failing to lock is fatal.
\<close>

definition packet_id_persist_load ::
    "int \<Rightarrow> bool \<Rightarrow> (int \<times> u32) option \<Rightarrow> packet_id_persist \<Rightarrow> string \<Rightarrow> packet_id_persist option" where
  "packet_id_persist_load fd locked img p filename =
     (if \<not> packet_id_persist_enabled p
      then (let p = p\<lparr>pp_fd := fd\<rparr> in
            if pp_fd p = - 1 then Some p
            else if \<not> locked then None
            else (let p = p\<lparr>pp_filename := Some filename\<rparr> in
                  case img of
                    Some (t, i) \<Rightarrow> Some (p\<lparr>pp_time := t, pp_time_last_written := t,
                                           pp_id := i, pp_id_last_written := i\<rparr>)
                  | None \<Rightarrow> Some p))
      else Some p)"

text \<open>The second result is the image written to the file.\<close>

definition packet_id_persist_save ::
    "bool \<Rightarrow> bool \<Rightarrow> packet_id_persist \<Rightarrow> packet_id_persist \<times> (int \<times> u32) option" where
  "packet_id_persist_save seek_ok write_ok p =
     (if packet_id_persist_enabled p \<and> pp_time p \<noteq> 0
         \<and> (pp_time p \<noteq> pp_time_last_written p \<or> pp_id p \<noteq> pp_id_last_written p)
      then (if seek_ok
            then (if write_ok
                  then (p\<lparr>pp_time_last_written := pp_time p, pp_id_last_written := pp_id p\<rparr>,
                        Some (pp_time p, pp_id p))
                  else (p, None))
            else (p, None))
      else (p, None))"

definition packet_id_persist_load_obj ::
    "packet_id_persist option \<Rightarrow> packet_id \<Rightarrow> packet_id" where
  "packet_id_persist_load_obj p pid =
     (case p of
        Some p \<Rightarrow>
          (if packet_id_persist_enabled p \<and> pp_time p \<noteq> 0
           then pid\<lparr>pid_rec := (pid_rec pid)\<lparr>pr_time := pp_time p, pr_id := pp_id p\<rparr>\<rparr>
           else pid)
      | None \<Rightarrow> pid)"

definition packet_id_persist_save_obj ::
    "packet_id_persist \<Rightarrow> packet_id \<Rightarrow> packet_id_persist" where
  "packet_id_persist_save_obj p pid =
     (if packet_id_persist_enabled p \<and> pr_time (pid_rec pid) \<noteq> 0
      then p\<lparr>pp_time := pr_time (pid_rec pid), pp_id := pr_id (pid_rec pid)\<rparr>
      else p)"

subsection \<open>crypto.c: the replay check of a received packet\<close>

record crypto_options =
  co_packet_id :: packet_id
  co_pid_persist :: "packet_id_persist option"
  co_long_form :: bool

definition crypto_check_replay ::
    "int \<Rightarrow> crypto_options \<Rightarrow> packet_id_net \<Rightarrow> (crypto_options \<times> bool) option" where
  "crypto_check_replay now opt pin = do {
     r \<leftarrow> packet_id_reap_test now (pid_rec (co_packet_id opt));
     (r, ok) \<leftarrow> packet_id_test r pin;
     if ok
     then do {
       r \<leftarrow> packet_id_add now r pin;
       let opt = opt\<lparr>co_packet_id := (co_packet_id opt)\<lparr>pid_rec := r\<rparr>\<rparr>;
       let opt = (case co_pid_persist opt of
                    Some pp \<Rightarrow>
                      (if co_long_form opt
                       then opt\<lparr>co_pid_persist := Some (packet_id_persist_save_obj pp (co_packet_id opt))\<rparr>
                       else opt)
                  | None \<Rightarrow> opt);
       Some (opt, True) }
     else Some (opt\<lparr>co_packet_id := (co_packet_id opt)\<lparr>pid_rec := r\<rparr>\<rparr>, False) }"

subsection \<open>Invariant and the window as a list\<close>

definition rec_wf :: "packet_id_rec \<Rightarrow> bool" where
  "rec_wf p \<longleftrightarrow> pr_initialized p \<and>
     (if pr_seq_backtrack p = 0 then pr_seq_list p = None \<and> pr_time_backtrack p = 0
      else 0 < pr_seq_backtrack p \<and> pr_seq_backtrack p \<le> 65536 \<and>
           (\<exists>l. pr_seq_list p = Some l \<and> circ_wf l \<and> x_cap l = pr_seq_backtrack p))"

definition rec_window :: "packet_id_rec \<Rightarrow> int list" where
  "rec_window p = (case pr_seq_list p of None \<Rightarrow> [] | Some l \<Rightarrow> circ_items l)"

lemma rec_wfE:
  assumes "rec_wf p" "pr_seq_backtrack p \<noteq> 0"
  obtains l where "pr_seq_list p = Some l" "circ_wf l" "x_cap l = pr_seq_backtrack p"
    "0 < pr_seq_backtrack p" "pr_seq_backtrack p \<le> 65536" "rec_window p = circ_items l"
    "x_size l = int (length (rec_window p))" "length (rec_window p) \<le> nat (pr_seq_backtrack p)"
  using assms circ.count_law circ.room_law
  by (fastforce simp: rec_wf_def rec_window_def CIRC_LIST_SIZE_def)

lemma uint_small_size:
  "0 \<le> n \<Longrightarrow> n \<le> 65536 \<Longrightarrow> uint (word_of_int n :: u32) = n"
  by (simp add: uint_word_of_int take_bit_int_eq_self)

lemma unat_small_size:
  "0 \<le> n \<Longrightarrow> n \<le> 65536 \<Longrightarrow> unat (word_of_int n :: u32) = nat n"
  using uint_small_size [of n] by (simp add: unat_eq_nat_uint)

lemma sint_small:
  assumes "unat (w :: u32) < 65536"
  shows "sint w = int (unat w)"
proof -
  have "int (unat w) < 65536" using assms by linarith
  then have "uint w < 65536" by simp
  then have "signed_take_bit 31 (uint w) = uint w"
    by (intro signed_take_bit_int_eq_self order_trans [OF _ uint_ge_0]) simp_all
  then show ?thesis by (simp add: sint_uint)
qed

lemma unat_diff_less:
  assumes "(i :: u32) \<le> j"
  shows "unat (j - i) = unat j - unat i"
  using assms by (simp add: unat_sub word_le_nat_alt)

text \<open>The fill loop pushes one unseen entry for each skipped identifier.\<close>

lemma packet_id_fill_push:
  "packet_id_fill target i l =
     map_option (Pair (max i target)) (circ.push_times (unat target - unat i) SEQ_UNSEEN l)"
proof (induction target i l rule: packet_id_fill.induct)
  case (1 target i l)
  show ?case
  proof (cases "i < target")
    case True
    then have "unat target - unat i = Suc (unat target - unat (i + 1))" "i + 1 \<le> target" "i \<le> target"
      using unat_Suc32 [OF True] unat_mono [OF True] inc_le True by auto
    then show ?thesis using 1 True
      by (cases "CIRC_LIST_PUSH l SEQ_UNSEEN")
         (simp_all add: max_def add: packet_id_fill.simps [of target i l])
  next
    case False
    then have "unat target - unat i = 0" "max i target = i"
      by (simp_all add: max_def word_le_nat_alt word_less_nat_alt) (metis le_antisym word_unat_eq_iff)
    then show ?thesis using False by (simp add: packet_id_fill.simps [of target i l])
  qed
qed

lemma packet_id_fill_law:
  assumes "circ_wf l"
  shows "\<exists>l'. packet_id_fill target i l = Some (max i target, l') \<and> circ_wf l' \<and> x_cap l' = x_cap l
           \<and> circ_items l' = take (nat (x_cap l)) (replicate (unat target - unat i) 0 @ circ_items l)"
proof -
  obtain l' where l': "circ.push_times (unat target - unat i) SEQ_UNSEEN l = Some l'"
    "circ_wf l'" "nat (x_cap l') = nat (x_cap l)"
    "circ_items l' = take (nat (x_cap l)) (replicate (unat target - unat i) SEQ_UNSEEN @ circ_items l)"
    using circ.push_times_law [OF assms] by blast
  moreover have "x_cap l' = x_cap l" using l'(2,3) assms unfolding circ_wf_def by linarith
  ultimately show ?thesis by (auto simp: packet_id_fill_push SEQ_UNSEEN_def)
qed

subsection \<open>What each receiver operation does to the window\<close>

definition window_resets :: "packet_id_rec \<Rightarrow> packet_id_net \<Rightarrow> bool" where
  "window_resets p pin \<longleftrightarrow> rec_window p = [] \<or> pin_time pin > pr_time p
     \<or> nat (pr_seq_backtrack p) + unat (pr_id p) < unat (pin_id pin)"

definition window_fill :: "packet_id_rec \<Rightarrow> packet_id_net \<Rightarrow> int list" where
  "window_fill p pin =
     take (nat (pr_seq_backtrack p))
       (if window_resets p pin
        then replicate (min (unat (pin_id pin)) (nat (pr_seq_backtrack p))) 0
        else replicate (unat (pin_id pin) - unat (pr_id p)) 0 @ rec_window p)"

lemma packet_id_add_window:
  assumes wf: "rec_wf p" and sb: "pr_seq_backtrack p \<noteq> 0" and now: "1 < now"
  shows "\<exists>p'. packet_id_add now p pin = Some p' \<and> rec_wf p'
     \<and> pr_seq_backtrack p' = pr_seq_backtrack p \<and> pr_time_backtrack p' = pr_time_backtrack p
     \<and> pr_time p' = (if window_resets p pin then pin_time pin else pr_time p)
     \<and> pr_id p' = (if window_resets p pin then pin_id pin else max (pr_id p) (pin_id pin))
     \<and> rec_window p' = (window_fill p pin)[unat (pr_id p') - unat (pin_id pin) := now]"
proof -
  obtain l where l: "pr_seq_list p = Some l" "circ_wf l" "x_cap l = pr_seq_backtrack p"
    "0 < pr_seq_backtrack p" "pr_seq_backtrack p \<le> 65536" "rec_window p = circ_items l"
    "x_size l = int (length (rec_window p))"
    using wf sb by (rule rec_wfE)
  define cap where "cap = nat (pr_seq_backtrack p)"
  define sbw where "sbw = (word_of_int (pr_seq_backtrack p) :: u32)"
  have sbw: "unat sbw = cap" using l by (simp add: sbw_def cap_def unat_small_size)
  define rs where "rs \<longleftrightarrow> CIRC_LIST_SIZE l = 0 \<or> pin_time pin > pr_time p
      \<or> (pin_id pin \<ge> sbw \<and> pin_id pin - sbw > pr_id p)"
  have rs: "rs = window_resets p pin"
    using l(6,7) sbw unat_diff_less [of sbw "pin_id pin"]
    by (auto simp: rs_def window_resets_def CIRC_LIST_SIZE_def cap_def word_le_nat_alt word_less_nat_alt)
  define q where "q = (if rs then p\<lparr>pr_time := pin_time pin,
      pr_id := (if pin_id pin > sbw then pin_id pin - sbw else 0)\<rparr> else p)"
  define m where "m = (if rs then CIRC_LIST_RESET l else l)"
  have m: "circ_wf m" "x_cap m = pr_seq_backtrack p" "circ_items m = (if rs then [] else rec_window p)"
    using circ_reset [OF l(2)] l by (auto simp: m_def)
  obtain f where f: "packet_id_fill (pin_id pin) (pr_id q) m = Some (max (pr_id q) (pin_id pin), f)"
    "circ_wf f" "x_cap f = x_cap m"
    "circ_items f = take cap (replicate (unat (pin_id pin) - unat (pr_id q)) 0 @ circ_items m)"
    using packet_id_fill_law [OF m(1)] m(2) unfolding cap_def by metis
  have top: "unat (pin_id pin) - unat (pr_id q) =
      (if rs then min (unat (pin_id pin)) cap else unat (pin_id pin) - unat (pr_id p))"
    using sbw unat_diff_less [of sbw "pin_id pin"]
    by (auto simp: q_def word_less_nat_alt word_le_nat_alt)
  have win: "circ_items f = window_fill p pin"
    using f(4) m(3) top rs by (simp add: window_fill_def cap_def)
  have le: "pr_id q \<le> pin_id pin" if rs
    using that unat_diff_less [of sbw "pin_id pin"] by (auto simp: q_def word_le_nat_alt word_less_nat_alt)
  define i where "i = max (pr_id q) (pin_id pin)"
  have i: "i = (if rs then pin_id pin else max (pr_id p) (pin_id pin))"
    using le by (auto simp: i_def q_def max_def)
  define diff where "diff = i - pin_id pin"
  have diff: "unat diff = unat i - unat (pin_id pin)"
    unfolding diff_def by (rule unat_diff_less) (simp add: i_def)
  have size: "unat (word_of_int (CIRC_LIST_SIZE f) :: u32) = length (circ_items f)"
    "CIRC_LIST_SIZE f = int (length (circ_items f))" "length (circ_items f) \<le> 65536"
  proof -
    have c: "CIRC_LIST_SIZE f = int (length (circ_items f))" by (rule circ.count_law [OF f(2)])
    moreover have le: "length (circ_items f) \<le> 65536"
      using circ.room_law [OF f(2)] f(3) m(2) l(5) by linarith
    ultimately show "unat (word_of_int (CIRC_LIST_SIZE f) :: u32) = length (circ_items f)"
      "CIRC_LIST_SIZE f = int (length (circ_items f))" "length (circ_items f) \<le> 65536"
      using unat_small_size [of "CIRC_LIST_SIZE f"] by linarith+
  qed
  obtain g where g: "(if diff < word_of_int (CIRC_LIST_SIZE f) \<and> now > SEQ_EXPIRED
      then CIRC_LIST_SET f (sint diff) now else Some f) = Some g"
    "circ_wf g" "x_cap g = x_cap f" "circ_items g = (circ_items f)[unat diff := now]"
  proof (cases "diff < word_of_int (CIRC_LIST_SIZE f)")
    case True
    then have "unat diff < length (circ_items f)" using size by (simp add: word_less_nat_alt)
    then have "int (unat diff) < x_size f" and s: "sint diff = int (unat diff)"
      using size sint_small [of diff] unfolding CIRC_LIST_SIZE_def by linarith+
    then obtain g where "CIRC_LIST_SET f (int (unat diff)) now = Some g" "circ_wf g"
      "x_cap g = x_cap f" "circ_items g = (circ_items f)[nat (int (unat diff)) := now]"
      using circ_set [OF f(2), of "int (unat diff)" now] by auto
    then show ?thesis using that [of g] True now s by (simp add: SEQ_EXPIRED_def)
  next
    case False
    then have "length (circ_items f) \<le> unat diff" using size by (simp add: word_less_nat_alt)
    then show ?thesis using that [of f] False f(2) by (simp add: list_update_beyond)
  qed
  have pm: "(if CIRC_LIST_SIZE l = 0 \<or> pr_time p < pin_time pin
        \<or> sbw \<le> pin_id pin \<and> pr_id p < pin_id pin - sbw
      then (p\<lparr>pr_time := pin_time pin, pr_id := if sbw < pin_id pin then pin_id pin - sbw else 0\<rparr>,
            CIRC_LIST_RESET l)
      else (p, l)) = (q, m)"
    by (simp add: q_def m_def rs_def)
  have "packet_id_add now p pin = Some (q\<lparr>pr_id := i, pr_seq_list := Some g\<rparr>)"
    unfolding packet_id_add_def l(1) option.case Let_def sbw_def [symmetric] pm
    using f(1) g(1) by (auto simp: i_def [symmetric] diff_def [symmetric] split: if_splits)
  moreover have "rec_wf (q\<lparr>pr_id := i, pr_seq_list := Some g\<rparr>)"
    using wf sb l g f m by (auto simp: rec_wf_def q_def)
  moreover have "rec_window (q\<lparr>pr_id := i, pr_seq_list := Some g\<rparr>)
      = (window_fill p pin)[unat i - unat (pin_id pin) := now]"
    using g(4) win diff by (simp add: rec_window_def)
  ultimately show ?thesis using i rs by (auto simp: q_def)
qed

text \<open>Expiry only turns arrival times into \<open>SEQ_EXPIRED\<close>: a seen entry stays seen.\<close>

definition keeps_seen :: "int list \<Rightarrow> int list \<Rightarrow> bool" where
  "keeps_seen xs ys \<longleftrightarrow> length ys = length xs \<and> (\<forall>k < length xs. xs ! k \<noteq> 0 \<longrightarrow> ys ! k \<noteq> 0)"

lemma keeps_seen_refl [simp]: "keeps_seen xs xs"
  by (simp add: keeps_seen_def)

lemma keeps_seen_trans: "keeps_seen xs ys \<Longrightarrow> keeps_seen ys zs \<Longrightarrow> keeps_seen xs zs"
  by (simp add: keeps_seen_def)

lemma keeps_seen_update: "keeps_seen xs (xs[k := 1])"
  by (cases "k < length xs") (auto simp: keeps_seen_def nth_list_update list_update_beyond)

lemma packet_id_reap_loop_law:
  assumes "circ_wf l" "0 \<le> i"
  shows "\<exists>l'. packet_id_reap_loop now tb i e l = Some l' \<and> circ_wf l' \<and> x_cap l' = x_cap l
           \<and> keeps_seen (circ_items l) (circ_items l')"
  using assms
proof (induction now tb i e l rule: packet_id_reap_loop.induct)
  case (1 now tb i e l)
  show ?case
  proof (cases "i < CIRC_LIST_SIZE l")
    case False
    then show ?thesis using 1 by (simp add: packet_id_reap_loop.simps)
  next
    case lt: True
    define t where "t = circ_items l ! nat i"
    have item: "CIRC_LIST_ITEM l i = Some t"
      using circ.item_law [OF "1.prems" lt] by (simp add: t_def)
    define e' where "e' \<longleftrightarrow> (if \<not> e \<and> t \<noteq> 0 \<and> t + tb < now then True else e)"
    obtain l' where l': "CIRC_LIST_SET l i SEQ_EXPIRED = Some l'" "circ_wf l'" "x_cap l' = x_cap l"
      "circ_items l' = (circ_items l)[nat i := SEQ_EXPIRED]"
      using circ_set [OF "1.prems"] lt by (auto simp: CIRC_LIST_SIZE_def)
    have step: "packet_id_reap_loop now tb i e l =
        (if t = SEQ_EXPIRED then Some l
         else if e' then packet_id_reap_loop now tb (i + 1) e' l'
         else packet_id_reap_loop now tb (i + 1) e' l)"
      using lt item l'(1) by (simp add: packet_id_reap_loop.simps [of now tb i e l] Let_def e'_def)
    have mono: "keeps_seen (circ_items l) (circ_items l')"
      by (simp add: l'(4) SEQ_EXPIRED_def keeps_seen_update)
    consider "t = SEQ_EXPIRED" | "t \<noteq> SEQ_EXPIRED" "e'" | "t \<noteq> SEQ_EXPIRED" "\<not> e'" by blast
    then show ?thesis
    proof cases
      case 1
      then show ?thesis using step "1.prems" by simp
    next
      case 2
      then show ?thesis
        using step "1.IH"(1) [OF lt item _ e'_def _ l'(1)] l'(2,3) "1.prems" mono keeps_seen_trans
        by fastforce
    next
      case 3
      then show ?thesis
        using step "1.IH"(2) [OF lt item _ e'_def] "1.prems" by simp
    qed
  qed
qed

lemma packet_id_reap_test_window:
  assumes wf: "rec_wf p"
  shows "\<exists>p'. packet_id_reap_test now p = Some p' \<and> rec_wf p'
     \<and> pr_seq_backtrack p' = pr_seq_backtrack p \<and> pr_time_backtrack p' = pr_time_backtrack p
     \<and> pr_time p' = pr_time p \<and> pr_id p' = pr_id p
     \<and> keeps_seen (rec_window p) (rec_window p')
     \<and> (pr_time_backtrack p = 0 \<longrightarrow> rec_window p' = rec_window p)"
proof (cases "pr_last_reap p + SEQ_REAP_INTERVAL \<le> now \<and> pr_time_backtrack p \<noteq> 0")
  case False
  then show ?thesis
    using wf by (auto simp: packet_id_reap_test_def packet_id_reap_def rec_wf_def rec_window_def)
next
  case True
  then have sb: "pr_seq_backtrack p \<noteq> 0" using wf by (auto simp: rec_wf_def)
  obtain l where l: "pr_seq_list p = Some l" "circ_wf l" "x_cap l = pr_seq_backtrack p"
    "rec_window p = circ_items l"
    using rec_wfE [OF wf sb] by metis
  obtain l' where l': "packet_id_reap_loop now (pr_time_backtrack p) 0 False l = Some l'"
    "circ_wf l'" "x_cap l' = x_cap l" "keeps_seen (circ_items l) (circ_items l')"
    using packet_id_reap_loop_law [OF l(2), of 0 now "pr_time_backtrack p" False] by auto
  have "packet_id_reap_test now p = Some (p\<lparr>pr_seq_list := Some l', pr_last_reap := now\<rparr>)"
    using True l l' by (simp add: packet_id_reap_test_def packet_id_reap_def)
  then show ?thesis using wf True sb l l' by (auto simp: rec_wf_def rec_window_def)
qed

text \<open>The verdict in terms of the window.\<close>

definition window_accepts :: "packet_id_rec \<Rightarrow> packet_id_net \<Rightarrow> bool" where
  "window_accepts p pin \<longleftrightarrow> pin_id pin \<noteq> 0 \<and>
     (if pr_seq_backtrack p \<noteq> 0
      then pin_time pin > pr_time p \<or>
           (pin_time pin = pr_time p \<and>
             (pin_id pin > pr_id p \<or>
              (let k = unat (pr_id p) - unat (pin_id pin)
               in k < length (rec_window p) \<and> rec_window p ! k = 0)))
      else (pin_time pin = pr_time p \<and> (pr_id p = 0 \<or> pin_id pin = pr_id p + 1))
           \<or> (pin_time pin > pr_time p \<and> pin_id pin = 1))"

lemma packet_id_test_window:
  assumes wf: "rec_wf p"
  shows "\<exists>s. packet_id_test p pin = Some (p\<lparr>pr_max_backtrack_stat := s\<rparr>, window_accepts p pin)"
proof (cases "pr_seq_backtrack p \<noteq> 0 \<and> pin_time pin = pr_time p \<and> \<not> pin_id pin > pr_id p \<and> pin_id pin \<noteq> 0")
  case False
  have "\<exists>ok. packet_id_test p pin = Some (p\<lparr>pr_max_backtrack_stat := pr_max_backtrack_stat p\<rparr>, ok)
      \<and> ok = window_accepts p pin"
    using False wf by (auto simp: packet_id_test_def window_accepts_def rec_wf_def)
  then show ?thesis by metis
next
  case True
  obtain l where l: "pr_seq_list p = Some l" "circ_wf l" "x_cap l = pr_seq_backtrack p"
    "0 < pr_seq_backtrack p" "pr_seq_backtrack p \<le> 65536" "rec_window p = circ_items l"
    "x_size l = int (length (rec_window p))" "length (rec_window p) \<le> nat (pr_seq_backtrack p)"
    using rec_wfE [OF wf] True by metis
  define diff where "diff = pr_id p - pin_id pin"
  have diff: "unat diff = unat (pr_id p) - unat (pin_id pin)"
    unfolding diff_def using True by (intro unat_diff_less) (simp add: not_less)
  have "unat (word_of_int (CIRC_LIST_SIZE l) :: u32) = length (rec_window p)"
    using l by (simp add: CIRC_LIST_SIZE_def unat_small_size del: of_int_of_nat_eq)
  then have ge: "word_of_int (CIRC_LIST_SIZE l) \<le> diff \<longleftrightarrow> length (rec_window p) \<le> unat diff"
    by (simp add: word_le_nat_alt)
  have item: "CIRC_LIST_ITEM l (sint diff) = Some (rec_window p ! unat diff)"
    if "unat diff < length (rec_window p)"
  proof -
    have "sint diff = int (unat diff)" using that l by (intro sint_small) linarith
    moreover have "int (unat diff) < x_size l" using that l(7) by linarith
    ultimately show ?thesis using circ_item [OF l(2), of "int (unat diff)"] l(6) by simp
  qed
  define q where "q = (if sint diff > pr_max_backtrack_stat p
                       then p\<lparr>pr_max_backtrack_stat := sint diff\<rparr> else p)"
  have q: "q = p\<lparr>pr_max_backtrack_stat := pr_max_backtrack_stat q\<rparr>" "pr_seq_list q = Some l"
    using l(1) by (simp_all add: q_def)
  have "packet_id_test p pin =
      (if word_of_int (CIRC_LIST_SIZE l) \<le> diff then Some (q, False)
       else do { v \<leftarrow> CIRC_LIST_ITEM l (sint diff); Some (q, v = 0) })"
    using True wf q(2)
    by (simp add: packet_id_test_def rec_wf_def Let_def diff_def [symmetric] q_def [symmetric])
  moreover have "window_accepts p pin \<longleftrightarrow> unat diff < length (rec_window p) \<and> rec_window p ! unat diff = 0"
    using True diff by (simp add: window_accepts_def Let_def)
  ultimately have "packet_id_test p pin = Some (q, window_accepts p pin)"
    using item ge by auto
  then show ?thesis using q(1) by metis
qed

text \<open>The window entry of an identifier, if it is inside the window.\<close>

definition rec_entry :: "packet_id_rec \<Rightarrow> u32 \<Rightarrow> int option" where
  "rec_entry p j =
     (let k = unat (pr_id p) - unat j
      in if k < length (rec_window p) then Some (rec_window p ! k) else None)"

lemma unat_max: "unat (max (a :: u32) b) = max (unat a) (unat b)"
  by (simp add: max_def word_le_nat_alt)

lemma replicate_append_entry:
  assumes "k < length (take n (replicate m z @ xs))"
  shows "take n (replicate m z @ xs) ! k = (if k < m then z else xs ! (k - m))"
  using assms by (auto simp: nth_append)

lemma packet_id_add_entry:
  assumes wf: "rec_wf p" and sb: "pr_seq_backtrack p \<noteq> 0" and now: "1 < now"
    and add: "packet_id_add now p pin = Some p'" and j: "j \<le> pr_id p'"
  shows "rec_entry p' j = None
     \<or> rec_entry p' j =
         (if j = pin_id pin then Some now
          else if window_resets p pin \<or> pr_id p < j then Some 0
          else rec_entry p j)"
proof (cases "rec_entry p' j")
  case (Some v)
  obtain q where "packet_id_add now p pin = Some q"
    "pr_id q = (if window_resets p pin then pin_id pin else max (pr_id p) (pin_id pin))"
    "rec_window q = (window_fill p pin)[unat (pr_id q) - unat (pin_id pin) := now]"
    using packet_id_add_window [OF wf sb now, of pin] by blast
  then have id': "pr_id p' = (if window_resets p pin then pin_id pin else max (pr_id p) (pin_id pin))"
    and win: "rec_window p' = (window_fill p pin)[unat (pr_id p') - unat (pin_id pin) := now]"
    using add by auto
  define k where "k = unat (pr_id p') - unat j"
  have k: "k < length (window_fill p pin)" and v: "v = rec_window p' ! k"
    using Some by (auto simp: rec_entry_def k_def win Let_def split: if_splits)
  have le: "unat j \<le> unat (pr_id p')" "unat (pin_id pin) \<le> unat (pr_id p')"
    using j id' by (auto simp: word_le_nat_alt unat_max)
  show ?thesis
  proof (cases "j = pin_id pin")
    case True
    then show ?thesis using Some v k by (simp add: win k_def)
  next
    case False
    then have "unat j \<noteq> unat (pin_id pin)" by (simp add: word_unat_eq_iff)
    then have "k \<noteq> unat (pr_id p') - unat (pin_id pin)" using le by (simp add: k_def)
    then have v': "v = window_fill p pin ! k" by (simp add: v win)
    consider (reset) "window_resets p pin" | (above) "\<not> window_resets p pin" "pr_id p < j"
      | (below) "\<not> window_resets p pin" "j \<le> pr_id p"
      by fastforce
    then show ?thesis
    proof cases
      case reset
      then show ?thesis using Some False v' k by (simp add: window_fill_def)
    next
      case above
      define m where "m = unat (pin_id pin) - unat (pr_id p)"
      have m: "k < m" using above id' le by (auto simp: k_def m_def unat_max word_less_nat_alt)
      have "k < length (take (nat (pr_seq_backtrack p)) (replicate m 0 @ rec_window p))"
        using k above by (simp add: window_fill_def m_def)
      from replicate_append_entry [OF this] m
      have "v = 0" using v' above by (simp add: window_fill_def m_def)
      then show ?thesis using Some False above by simp
    next
      case below
      define m where "m = unat (pin_id pin) - unat (pr_id p)"
      have m: "\<not> k < m" "k - m = unat (pr_id p) - unat j"
        using below id' by (auto simp: k_def m_def unat_max word_le_nat_alt)
      have "k < length (take (nat (pr_seq_backtrack p)) (replicate m 0 @ rec_window p))"
        using k below by (simp add: window_fill_def m_def)
      from replicate_append_entry [OF this] m
      have "v = rec_window p ! (k - m)" using v' below by (simp add: window_fill_def m_def)
      moreover have "k < m + length (rec_window p)"
        using k length_take_le [of "nat (pr_seq_backtrack p)" "replicate m 0 @ rec_window p"] below
        by (simp add: window_fill_def m_def del: take_append)
      then have "k - m < length (rec_window p)" using m(1) by linarith
      ultimately have "v = rec_window p ! (k - m)" "k - m < length (rec_window p)" by auto
      then show ?thesis using Some False below m(2) leD [OF below(2)] by (simp add: rec_entry_def)
    qed
  qed
qed simp

subsection \<open>No packet is accepted twice\<close>

text \<open>
  \<open>seen_inv p S\<close>: the receiver remembers the accepted packets \<open>S\<close> well enough to
  reject each of them.
\<close>

definition seen_inv :: "packet_id_rec \<Rightarrow> packet_id_net set \<Rightarrow> bool" where
  "seen_inv p S \<longleftrightarrow> rec_wf p \<and>
     (\<forall>a \<in> S. pin_id a \<noteq> 0 \<and>
        (pin_time a < pr_time p \<or>
         (pin_time a = pr_time p \<and> pin_id a \<le> pr_id p \<and>
           (pr_seq_backtrack p \<noteq> 0 \<longrightarrow> rec_window p \<noteq> [] \<and> rec_entry p (pin_id a) \<noteq> Some 0))))"

lemma seen_inv_empty: "rec_wf p \<Longrightarrow> seen_inv p {}"
  by (simp add: seen_inv_def)

lemma rec_window_stat [simp]: "rec_window (p\<lparr>pr_max_backtrack_stat := s\<rparr>) = rec_window p"
  by (simp add: rec_window_def)

lemma rec_entry_stat [simp]: "rec_entry (p\<lparr>pr_max_backtrack_stat := s\<rparr>) j = rec_entry p j"
  by (simp add: rec_entry_def Let_def cong: if_cong)

lemma rec_wf_stat [simp]: "rec_wf (p\<lparr>pr_max_backtrack_stat := s\<rparr>) = rec_wf p"
  by (simp add: rec_wf_def)

lemma seen_inv_stat [simp]: "seen_inv (p\<lparr>pr_max_backtrack_stat := s\<rparr>) S = seen_inv p S"
  by (simp add: seen_inv_def)

lemma window_accepts_stat [simp]:
  "window_accepts (p\<lparr>pr_max_backtrack_stat := s\<rparr>) pin = window_accepts p pin"
  by (simp add: window_accepts_def)

lemma keeps_seen_entry:
  assumes "keeps_seen (rec_window p) (rec_window q)" "pr_id q = pr_id p" "rec_entry p j \<noteq> Some 0"
  shows "rec_entry q j \<noteq> Some 0"
  using assms by (auto simp: keeps_seen_def rec_entry_def Let_def split: if_splits)

lemma seen_inv_reap:
  assumes "seen_inv p S" "packet_id_reap_test now p = Some q"
  shows "seen_inv q S"
proof -
  have wf: "rec_wf p" using assms(1) by (simp add: seen_inv_def)
  have q: "rec_wf q" "pr_seq_backtrack q = pr_seq_backtrack p" "pr_time q = pr_time p"
    "pr_id q = pr_id p" "keeps_seen (rec_window p) (rec_window q)"
    using packet_id_reap_test_window [OF wf, of now] assms(2) by auto
  have "rec_window q \<noteq> []" if "rec_window p \<noteq> []"
    using q(5) that by (auto simp: keeps_seen_def)
  then show ?thesis
    using assms(1) q keeps_seen_entry [OF q(5,4)] unfolding seen_inv_def by fastforce
qed

lemma window_accepts_entry:
  "pr_seq_backtrack p \<noteq> 0 \<Longrightarrow> window_accepts p pin \<longleftrightarrow> pin_id pin \<noteq> 0 \<and>
     (pin_time pin > pr_time p \<or> (pin_time pin = pr_time p \<and>
       (pin_id pin > pr_id p \<or> rec_entry p (pin_id pin) = Some 0)))"
  by (auto simp: window_accepts_def rec_entry_def Let_def split: if_splits)

lemma seen_inv_rejects:
  assumes "seen_inv p S" "window_accepts p pin"
  shows "pin \<notin> S"
proof
  assume "pin \<in> S"
  then have s: "pin_id pin \<noteq> 0" "pin_time pin < pr_time p \<or> (pin_time pin = pr_time p
      \<and> pin_id pin \<le> pr_id p \<and> (pr_seq_backtrack p \<noteq> 0 \<longrightarrow> rec_entry p (pin_id pin) \<noteq> Some 0))"
    using assms(1) by (auto simp: seen_inv_def)
  show False
  proof (cases "pr_seq_backtrack p = 0")
    case True
    then have "pin_time pin = pr_time p" "pin_id pin \<le> pr_id p" "pin_id pin = pr_id p + 1"
      using assms(2) s by (auto simp: window_accepts_def)
    then show ?thesis using s(1) by unat_arith
  next
    case False
    then show ?thesis using assms(2) s by (auto simp: window_accepts_entry)
  qed
qed

lemma seen_inv_add:
  assumes inv: "seen_inv p S" and acc: "window_accepts p pin" and now: "1 < now"
  shows "\<exists>q. packet_id_add now p pin = Some q \<and> seen_inv q (insert pin S)"
proof (cases "pr_seq_backtrack p = 0")
  case True
  have wf: "rec_wf p" using inv by (simp add: seen_inv_def)
  have list: "pr_seq_list p = None" using True wf by (simp add: rec_wf_def)
  let ?q = "p\<lparr>pr_time := pin_time pin, pr_id := pin_id pin\<rparr>"
  have "packet_id_add now p pin = Some ?q" by (simp add: packet_id_add_def list)
  moreover have "seen_inv ?q (insert pin S)"
    unfolding seen_inv_def
  proof (intro conjI ballI)
    show "rec_wf ?q" using wf by (simp add: rec_wf_def)
    fix a assume a: "a \<in> insert pin S"
    have acc': "pin_id pin \<noteq> 0" "pin_time pin > pr_time p \<or>
        pin_time pin = pr_time p \<and> (pr_id p = 0 \<or> pin_id pin = pr_id p + 1)"
      using acc True by (auto simp: window_accepts_def)
    show "pin_id a \<noteq> 0" using a inv acc' by (auto simp: seen_inv_def)
    show "pin_time a < pr_time ?q \<or> (pin_time a = pr_time ?q \<and> pin_id a \<le> pr_id ?q \<and>
        (pr_seq_backtrack ?q \<noteq> 0 \<longrightarrow> rec_window ?q \<noteq> [] \<and> rec_entry ?q (pin_id a) \<noteq> Some 0))"
    proof (cases "a = pin")
      case False
      then have "pin_time a < pr_time p \<or> (pin_time a = pr_time p \<and> pin_id a \<le> pr_id p)"
        using a inv by (auto simp: seen_inv_def)
      moreover have "pin_id a \<le> pin_id pin" if "pin_id a \<le> pr_id p" "pin_id pin = pr_id p + 1"
        using that acc'(1) by unat_arith
      moreover have "pin_id a \<noteq> 0" using False a inv by (auto simp: seen_inv_def)
      ultimately show ?thesis using acc'(2) True by auto
    qed (use True in simp)
  qed
  ultimately show ?thesis by blast
next
  case sb: False
  have wf: "rec_wf p" using inv by (simp add: seen_inv_def)
  obtain q where q: "packet_id_add now p pin = Some q" "rec_wf q"
    "pr_seq_backtrack q = pr_seq_backtrack p"
    "pr_time q = (if window_resets p pin then pin_time pin else pr_time p)"
    "pr_id q = (if window_resets p pin then pin_id pin else max (pr_id p) (pin_id pin))"
    "rec_window q = (window_fill p pin)[unat (pr_id q) - unat (pin_id pin) := now]"
    using packet_id_add_window [OF wf sb now, of pin] by blast
  have acc': "pin_id pin \<noteq> 0" "pin_time pin > pr_time p \<or> pin_time pin = pr_time p \<and>
      (pin_id pin > pr_id p \<or> rec_entry p (pin_id pin) = Some 0)"
    using acc sb by (auto simp: window_accepts_entry)
  have pos: "0 < nat (pr_seq_backtrack p)" using rec_wfE [OF wf sb] by (metis zero_less_nat_eq)
  have "0 < unat (pin_id pin)" using acc'(1) by (simp add: unat_gt_0)
  have "window_fill p pin \<noteq> []"
  proof (cases "window_resets p pin")
    case True
    then show ?thesis using pos \<open>0 < unat (pin_id pin)\<close> by (simp add: window_fill_def)
  next
    case False
    then have "rec_window p \<noteq> []" by (simp add: window_resets_def)
    then show ?thesis using False pos
      by (simp add: window_fill_def del: zero_less_nat_eq) linarith
  qed
  then have ne: "rec_window q \<noteq> []" by (simp add: q(6))
  have fwd: "window_resets p pin \<or> pin_time pin = pr_time p"
    using acc'(2) by (auto simp: window_resets_def)
  have "seen_inv q (insert pin S)"
    unfolding seen_inv_def
  proof (intro conjI ballI)
    show "rec_wf q" by (rule q(2))
    fix a assume a: "a \<in> insert pin S"
    show "pin_id a \<noteq> 0" using a inv acc' by (auto simp: seen_inv_def)
    show "pin_time a < pr_time q \<or> (pin_time a = pr_time q \<and> pin_id a \<le> pr_id q \<and>
        (pr_seq_backtrack q \<noteq> 0 \<longrightarrow> rec_window q \<noteq> [] \<and> rec_entry q (pin_id a) \<noteq> Some 0))"
    proof (cases "a = pin")
      case True
      have "pin_id pin \<le> pr_id q" by (simp add: q(5))
      moreover from this have "rec_entry q (pin_id pin) \<noteq> Some 0"
        using packet_id_add_entry [OF wf sb now q(1)] now by fastforce
      moreover have "pin_time pin = pr_time q" using fwd q(4) by auto
      ultimately show ?thesis using True ne by simp
    next
      case False
      then have old: "pin_time a < pr_time p \<or> (pin_time a = pr_time p \<and> pin_id a \<le> pr_id p
          \<and> rec_window p \<noteq> [] \<and> rec_entry p (pin_id a) \<noteq> Some 0)"
        using a inv sb by (auto simp: seen_inv_def)
      have le: "pr_time p \<le> pr_time q" using acc'(2) q(4) by auto
      show ?thesis
      proof (cases "pin_time a < pr_time q")
        case eq: False
        then have old': "pin_time a = pr_time p" "pin_id a \<le> pr_id p" "rec_window p \<noteq> []"
          "rec_entry p (pin_id a) \<noteq> Some 0" and same: "pr_time q = pr_time p"
          using old le by auto
        have idle: "pr_id p \<le> pr_id q"
          using old'(3) same acc'(2) q(4,5)
          by (auto simp: window_resets_def word_le_nat_alt word_less_nat_alt unat_max split: if_splits)
        moreover have "rec_entry q (pin_id a) \<noteq> Some 0"
        proof (cases "window_resets p pin")
          case True
          then have jump: "nat (pr_seq_backtrack p) + unat (pr_id p) < unat (pin_id pin)"
            using old'(3) same q(4) by (auto simp: window_resets_def)
          then have "length (rec_window q) \<le> nat (pr_seq_backtrack p)"
            by (simp add: q(6) window_fill_def)
          moreover have "nat (pr_seq_backtrack p) \<le> unat (pr_id q) - unat (pin_id a)"
            using True jump old'(2) by (simp add: q(5) word_le_nat_alt)
          ultimately show ?thesis by (simp add: rec_entry_def)
        next
          case nr: False
          have "pin_id a \<le> pr_id q" using old'(2) idle by simp
          from packet_id_add_entry [OF wf sb now q(1) this] show ?thesis
            using nr now old'(2,4) by (auto split: if_splits)
        qed
        ultimately show ?thesis using old' same ne by auto
      qed simp
    qed
  qed
  then show ?thesis using q(1) by blast
qed

text \<open>The packets accepted along a run of receive events, each with its arrival time.\<close>

fun replay_run :: "crypto_options \<Rightarrow> (int \<times> packet_id_net) list \<Rightarrow>
    (crypto_options \<times> packet_id_net list) option" where
  "replay_run opt [] = Some (opt, [])"
| "replay_run opt ((now, pin) # evs) = do {
     (opt, ok) \<leftarrow> crypto_check_replay now opt pin;
     (opt, acc) \<leftarrow> replay_run opt evs;
     Some (opt, if ok then pin # acc else acc) }"

lemma crypto_check_replay_step:
  assumes inv: "seen_inv (pid_rec (co_packet_id opt)) S" and now: "1 < now"
  obtains opt' p where "packet_id_reap_test now (pid_rec (co_packet_id opt)) = Some p"
    "crypto_check_replay now opt pin = Some (opt', window_accepts p pin)" "seen_inv p S"
    "window_accepts p pin \<Longrightarrow> pin \<notin> S \<and> seen_inv (pid_rec (co_packet_id opt')) (insert pin S)
       \<and> (\<exists>s. packet_id_add now (p\<lparr>pr_max_backtrack_stat := s\<rparr>) pin = Some (pid_rec (co_packet_id opt')))"
    "\<not> window_accepts p pin \<Longrightarrow> seen_inv (pid_rec (co_packet_id opt')) S
       \<and> (\<exists>s. pid_rec (co_packet_id opt') = p\<lparr>pr_max_backtrack_stat := s\<rparr>)"
proof -
  have "rec_wf (pid_rec (co_packet_id opt))" using inv by (simp add: seen_inv_def)
  from packet_id_reap_test_window [OF this, of now]
  obtain p where p: "packet_id_reap_test now (pid_rec (co_packet_id opt)) = Some p" by blast
  have invp: "seen_inv p S" using seen_inv_reap [OF inv p] .
  obtain s where t: "packet_id_test p pin = Some (p\<lparr>pr_max_backtrack_stat := s\<rparr>, window_accepts p pin)"
    using packet_id_test_window [of p pin] invp by (auto simp: seen_inv_def)
  show ?thesis
  proof (cases "window_accepts p pin")
    case True
    obtain q where q: "packet_id_add now (p\<lparr>pr_max_backtrack_stat := s\<rparr>) pin = Some q"
      "seen_inv q (insert pin S)"
      using seen_inv_add [of "p\<lparr>pr_max_backtrack_stat := s\<rparr>" S pin now] invp True now by auto
    obtain o2 where o2: "crypto_check_replay now opt pin = Some (o2, True)"
      "pid_rec (co_packet_id o2) = q"
      using p t q True by (fastforce simp: crypto_check_replay_def Let_def split: option.splits)
    show ?thesis
      by (rule that [OF p, of o2]) (use o2 True invp q seen_inv_rejects [OF invp True] in auto)
  next
    case False
    have "crypto_check_replay now opt pin = Some (opt\<lparr>co_packet_id := (co_packet_id opt)
        \<lparr>pid_rec := p\<lparr>pr_max_backtrack_stat := s\<rparr>\<rparr>\<rparr>, False)"
      using p t False by (simp add: crypto_check_replay_def)
    then show ?thesis using that [OF p, of "opt\<lparr>co_packet_id := (co_packet_id opt)
        \<lparr>pid_rec := p\<lparr>pr_max_backtrack_stat := s\<rparr>\<rparr>\<rparr>"] False invp by auto
  qed
qed

lemma replay_run_distinct:
  assumes "seen_inv (pid_rec (co_packet_id opt)) S" "\<forall>(now, pin) \<in> set evs. 1 < now"
  shows "\<exists>opt' acc. replay_run opt evs = Some (opt', acc) \<and> distinct acc \<and> set acc \<inter> S = {}"
  using assms
proof (induction evs arbitrary: opt S)
  case Nil
  then show ?case by simp
next
  case (Cons e evs)
  obtain now pin where e: "e = (now, pin)" by (cases e)
  have now: "1 < now" and rest: "\<forall>(now, pin) \<in> set evs. 1 < now" using Cons.prems(2) e by auto
  obtain opt' p where s: "crypto_check_replay now opt pin = Some (opt', window_accepts p pin)"
    "window_accepts p pin \<Longrightarrow> pin \<notin> S \<and> seen_inv (pid_rec (co_packet_id opt')) (insert pin S)"
    "\<not> window_accepts p pin \<Longrightarrow> seen_inv (pid_rec (co_packet_id opt')) S"
    using crypto_check_replay_step [OF Cons.prems(1) now, of pin] by metis
  show ?case
  proof (cases "window_accepts p pin")
    case True
    obtain o2 acc where "replay_run opt' evs = Some (o2, acc)" "distinct acc"
      "set acc \<inter> insert pin S = {}"
      using Cons.IH [OF _ rest, of opt' "insert pin S"] s(2) True by blast
    then show ?thesis using s(1,2) True e by auto
  next
    case False
    then show ?thesis using Cons.IH [OF _ rest, of opt' S] s e by fastforce
  qed
qed

subsection \<open>The exact window\<close>

text \<open>
  What the window is meant to be, over the set \<open>S\<close> of packets accepted so far, the
  newest time \<open>T\<close> and the highest identifier \<open>I\<close> of that time: accept what is newer,
  and what is less than \<open>sb\<close> behind the highest identifier and not in \<open>S\<close>.
\<close>

type_synonym window_spec = "int \<times> u32 \<times> packet_id_net set"

definition spec_accepts :: "int \<Rightarrow> window_spec \<Rightarrow> packet_id_net \<Rightarrow> bool" where
  "spec_accepts sb st pin \<longleftrightarrow> (case st of (T, I, S) \<Rightarrow> pin_id pin \<noteq> 0 \<and>
     (pin_time pin > T \<or> (pin_time pin = T \<and>
       (pin_id pin > I \<or> (int (unat I - unat (pin_id pin)) < sb \<and> pin \<notin> S)))))"

definition spec_next :: "window_spec \<Rightarrow> packet_id_net \<Rightarrow> window_spec" where
  "spec_next st pin = (case st of (T, I, S) \<Rightarrow>
     (max T (pin_time pin), if pin_time pin > T then pin_id pin else max I (pin_id pin),
      insert pin S))"

fun spec_run :: "int \<Rightarrow> window_spec \<Rightarrow> packet_id_net list \<Rightarrow> packet_id_net list" where
  "spec_run sb st [] = []"
| "spec_run sb st (pin # pins) =
     (if spec_accepts sb st pin then pin # spec_run sb (spec_next st pin) pins
      else spec_run sb st pins)"

definition exact_inv :: "packet_id_rec \<Rightarrow> window_spec \<Rightarrow> bool" where
  "exact_inv p st \<longleftrightarrow> (case st of (T, I, S) \<Rightarrow>
     rec_wf p \<and> pr_time_backtrack p = 0 \<and> pr_seq_backtrack p \<noteq> 0 \<and> pr_time p = T \<and> pr_id p = I
     \<and> length (rec_window p) = min (unat I) (nat (pr_seq_backtrack p))
     \<and> (\<forall>a v. pin_time a = T \<and> pin_id a \<le> I \<and> pin_id a \<noteq> 0 \<and> rec_entry p (pin_id a) = Some v
           \<longrightarrow> (v \<noteq> 0) = (a \<in> S))
     \<and> (\<forall>a \<in> S. pin_id a \<noteq> 0 \<and> (pin_time a < T \<or> pin_time a = T \<and> pin_id a \<le> I)))"

lemma exact_inv_stat [simp]:
  "exact_inv (p\<lparr>pr_max_backtrack_stat := s\<rparr>) st = exact_inv p st"
  by (cases st) (simp add: exact_inv_def)

lemma exact_inv_accepts:
  assumes "exact_inv p st"
  shows "window_accepts p pin = spec_accepts (pr_seq_backtrack p) st pin"
proof -
  obtain T I S where st: "st = (T, I, S)" by (metis prod_cases3)
  have inv: "pr_seq_backtrack p \<noteq> 0" "pr_time p = T" "pr_id p = I"
    "length (rec_window p) = min (unat I) (nat (pr_seq_backtrack p))"
    "\<And>v. pin_time pin = T \<Longrightarrow> pin_id pin \<le> I \<Longrightarrow> pin_id pin \<noteq> 0 \<Longrightarrow> rec_entry p (pin_id pin) = Some v
       \<Longrightarrow> (v \<noteq> 0) = (pin \<in> S)"
    using assms by (auto simp: exact_inv_def st)
  have "rec_entry p (pin_id pin) = Some 0 \<longleftrightarrow>
      int (unat I - unat (pin_id pin)) < pr_seq_backtrack p \<and> pin \<notin> S"
    if "pin_time pin = T" "pin_id pin \<le> I" "pin_id pin \<noteq> 0"
  proof -
    have "0 < unat (pin_id pin)" "unat (pin_id pin) \<le> unat I"
      using that by (simp_all add: unat_gt_0 word_le_nat_alt)
    then have "unat I - unat (pin_id pin) < length (rec_window p)
        \<longleftrightarrow> int (unat I - unat (pin_id pin)) < pr_seq_backtrack p"
      unfolding inv(4) by linarith
    then show ?thesis using inv(5) [OF that] by (auto simp: rec_entry_def Let_def inv(3) split: if_splits)
  qed
  then show ?thesis
    using inv(1-3) by (cases "pin_id pin \<le> I") (auto simp: window_accepts_entry spec_accepts_def st not_less not_le)
qed

lemma exact_inv_add:
  assumes inv: "exact_inv p st" and acc: "window_accepts p pin" and now: "1 < now"
    and add: "packet_id_add now p pin = Some q"
  shows "exact_inv q (spec_next st pin)"
proof -
  obtain T I S where st: "st = (T, I, S)" by (metis prod_cases3)
  have wf: "rec_wf p" and sb: "pr_seq_backtrack p \<noteq> 0" and tb: "pr_time_backtrack p = 0"
    and TI: "pr_time p = T" "pr_id p = I"
    and len: "length (rec_window p) = min (unat I) (nat (pr_seq_backtrack p))"
    and entry: "\<And>a v. pin_time a = T \<Longrightarrow> pin_id a \<le> I \<Longrightarrow> pin_id a \<noteq> 0 \<Longrightarrow>
       rec_entry p (pin_id a) = Some v \<Longrightarrow> (v \<noteq> 0) = (a \<in> S)"
    and old: "\<And>a. a \<in> S \<Longrightarrow> pin_id a \<noteq> 0 \<and> (pin_time a < T \<or> pin_time a = T \<and> pin_id a \<le> I)"
    using inv by (auto simp: exact_inv_def st)
  have q: "rec_wf q" "pr_seq_backtrack q = pr_seq_backtrack p" "pr_time_backtrack q = 0"
    "pr_time q = (if window_resets p pin then pin_time pin else T)"
    "pr_id q = (if window_resets p pin then pin_id pin else max I (pin_id pin))"
    "rec_window q = (window_fill p pin)[unat (pr_id q) - unat (pin_id pin) := now]"
    using packet_id_add_window [OF wf sb now, of pin] add TI tb by auto
  have acc': "pin_id pin \<noteq> 0" "T \<le> pin_time pin"
    using acc sb TI by (auto simp: window_accepts_entry)
  have pos: "0 < pr_seq_backtrack p" using rec_wfE [OF wf sb] by metis
  have empty: "rec_window p = [] \<longleftrightarrow> I = 0"
  proof -
    have "rec_window p = [] \<longleftrightarrow> min (unat I) (nat (pr_seq_backtrack p)) = 0"
      by (simp add: len [symmetric])
    also have "\<dots> \<longleftrightarrow> unat I = 0" using pos by linarith
    finally show ?thesis by (simp add: unsigned_eq_0_iff)
  qed
  have T': "pr_time q = max T (pin_time pin)"
    using q(4) acc'(2) TI by (auto simp: window_resets_def)
  have I': "pr_id q = (if pin_time pin > T then pin_id pin else max I (pin_id pin))"
    using q(5) TI acc'(2) empty
    by (auto simp: window_resets_def max_def word_le_nat_alt word_unat_eq_iff)
  have le: "unat (pin_id pin) \<le> unat (pr_id q)" by (simp add: I' unat_max)
  have len': "length (rec_window q) = min (unat (pr_id q)) (nat (pr_seq_backtrack q))"
  proof (cases "window_resets p pin")
    case True
    then show ?thesis by (simp add: q(2,5,6) window_fill_def min.commute)
  next
    case False
    then have "length (rec_window q) = min (nat (pr_seq_backtrack p))
        (unat (pin_id pin) - unat I + length (rec_window p))"
      by (simp add: q(6) window_fill_def TI(2) del: take_append)
    moreover have "unat (pr_id q) = max (unat I) (unat (pin_id pin))"
      using False by (simp add: q(5) unat_max)
    ultimately show ?thesis unfolding len q(2) by linarith
  qed
  have ent': "(v \<noteq> 0) = (a \<in> insert pin S)"
    if a: "pin_time a = pr_time q" "pin_id a \<le> pr_id q" "pin_id a \<noteq> 0" "rec_entry q (pin_id a) = Some v"
    for a v
  proof -
    have fwd: "window_resets p pin \<or> pin_time pin = T"
      using acc'(2) TI by (auto simp: window_resets_def)
    have v: "v = (if pin_id a = pin_id pin then now
        else if window_resets p pin \<or> I < pin_id a then 0 else the (rec_entry p (pin_id a)))"
      "\<not> (pin_id a = pin_id pin \<or> window_resets p pin \<or> I < pin_id a) \<Longrightarrow> rec_entry p (pin_id a) = Some v"
      using packet_id_add_entry [OF wf sb now add a(2)] a(4) TI
      by (auto split: if_splits) (metis option.sel)
    show ?thesis
    proof (cases "pin_id a = pin_id pin")
      case True
      have "pin_time a = pin_time pin" using a(1) T' acc'(2) by simp
      then have "a = pin" using True by (simp add: packet_id_net.equality)
      then show ?thesis using v(1) True now by simp
    next
      case False
      then have ne: "a \<noteq> pin" by auto
      consider (new) "window_resets p pin \<or> I < pin_id a" | (kept) "\<not> window_resets p pin" "pin_id a \<le> I"
        by fastforce
      then show ?thesis
      proof cases
        case new
        have "a \<notin> S"
        proof
          assume "a \<in> S"
          then have o: "pin_time a = T" "pin_id a \<le> I"
            using old [of a] a(1) T' acc'(2) by auto
          then have reset: "window_resets p pin" "pin_time pin = T" using new a(1) T' acc'(2) by auto
          have "I \<noteq> 0" using o(2) a(3) by auto
          then have jump: "nat (pr_seq_backtrack p) + unat I < unat (pin_id pin)"
            using reset empty TI by (auto simp: window_resets_def)
          have "pr_id q = pin_id pin" using q(5) reset(1) by simp
          then have "nat (pr_seq_backtrack p) \<le> unat (pr_id q) - unat (pin_id a)"
            using jump o(2) by (simp add: word_le_nat_alt)
          then show False
            using a(4) len' q(2) by (auto simp: rec_entry_def Let_def split: if_splits)
        qed
        then show ?thesis using v(1) False new ne by auto
      next
        case kept
        then have "pin_time a = T" using a(1) q(4) by simp
        moreover have "rec_entry p (pin_id a) = Some v" using v(2) False kept by auto
        ultimately show ?thesis using entry [of a v] kept a(3) ne by auto
      qed
    qed
  qed
  have old': "pin_id a \<noteq> 0 \<and> (pin_time a < pr_time q \<or> pin_time a = pr_time q \<and> pin_id a \<le> pr_id q)"
    if "a \<in> insert pin S" for a
    using that old [of a] acc' T' I' by (auto simp: max_def)
  show ?thesis
    using q(1-3) sb T' I' len' ent' old' by (simp add: exact_inv_def spec_next_def st)
qed

lemma replay_run_exact:
  assumes "exact_inv (pid_rec (co_packet_id opt)) st" "seen_inv (pid_rec (co_packet_id opt)) S"
    "\<forall>(now, pin) \<in> set evs. 1 < now"
  shows "\<exists>opt'. replay_run opt evs =
           Some (opt', spec_run (pr_seq_backtrack (pid_rec (co_packet_id opt))) st (map snd evs))"
  using assms
proof (induction evs arbitrary: opt st S)
  case Nil
  then show ?case by simp
next
  case (Cons e evs)
  obtain now pin where e: "e = (now, pin)" by (cases e)
  have now: "1 < now" and rest: "\<forall>(now, pin) \<in> set evs. 1 < now" using Cons.prems(3) e by auto
  let ?r = "pid_rec (co_packet_id opt)"
  obtain opt' p where s: "packet_id_reap_test now ?r = Some p"
    "crypto_check_replay now opt pin = Some (opt', window_accepts p pin)"
    "window_accepts p pin \<Longrightarrow> pin \<notin> S \<and> seen_inv (pid_rec (co_packet_id opt')) (insert pin S)
      \<and> (\<exists>s. packet_id_add now (p\<lparr>pr_max_backtrack_stat := s\<rparr>) pin = Some (pid_rec (co_packet_id opt')))"
    "\<not> window_accepts p pin \<Longrightarrow> seen_inv (pid_rec (co_packet_id opt')) S
      \<and> (\<exists>s. pid_rec (co_packet_id opt') = p\<lparr>pr_max_backtrack_stat := s\<rparr>)"
    using crypto_check_replay_step [OF Cons.prems(2) now, of pin] by metis
  have wf: "rec_wf ?r" and tb: "pr_time_backtrack ?r = 0"
    using Cons.prems(1) by (cases st; simp add: exact_inv_def)+
  have p: "rec_wf p" "pr_seq_backtrack p = pr_seq_backtrack ?r" "pr_time_backtrack p = 0"
    "pr_time p = pr_time ?r" "pr_id p = pr_id ?r" "rec_window p = rec_window ?r"
    using packet_id_reap_test_window [OF wf, of now] s(1) tb by auto
  then have re: "rec_entry p = rec_entry ?r" by (simp add: rec_entry_def fun_eq_iff cong: if_cong)
  have ex: "exact_inv p st"
    using Cons.prems(1) p by (cases st) (simp add: exact_inv_def re)
  have acc: "window_accepts p pin = spec_accepts (pr_seq_backtrack ?r) st pin"
    using exact_inv_accepts [OF ex] p(2) by simp
  show ?case
  proof (cases "window_accepts p pin")
    case True
    then obtain m where m: "packet_id_add now (p\<lparr>pr_max_backtrack_stat := m\<rparr>) pin
        = Some (pid_rec (co_packet_id opt'))"
      and inv: "seen_inv (pid_rec (co_packet_id opt')) (insert pin S)"
      using s(3) by blast
    have "exact_inv (pid_rec (co_packet_id opt')) (spec_next st pin)"
      using exact_inv_add [OF _ _ now m, of st] ex True by simp
    moreover have "pr_seq_backtrack (pid_rec (co_packet_id opt')) = pr_seq_backtrack ?r"
      using packet_id_add_window [of "p\<lparr>pr_max_backtrack_stat := m\<rparr>" now pin] p m now ex
      by (cases st) (auto simp: exact_inv_def)
    ultimately show ?thesis using Cons.IH [OF _ inv rest] s(2) e True acc by fastforce
  next
    case False
    then obtain m where m: "pid_rec (co_packet_id opt') = p\<lparr>pr_max_backtrack_stat := m\<rparr>"
      and inv: "seen_inv (pid_rec (co_packet_id opt')) S" using s(4) by blast
    have "\<exists>o2. replay_run opt' evs = Some (o2, spec_run (pr_seq_backtrack ?r) st (map snd evs))"
      using Cons.IH [OF _ inv rest, of st] ex m p(2) by simp
    then show ?thesis using s(2) e False acc by auto
  qed
qed

subsection \<open>Properties of the receiver\<close>

lemma rec_wf_init:
  assumes "packet_id_init sb tb = Some pid"
  shows "rec_wf (pid_rec pid) \<and> (sb \<noteq> 0 \<longrightarrow> rec_window (pid_rec pid) = [] \<and> pr_seq_backtrack (pid_rec pid) = sb
           \<and> pr_time_backtrack (pid_rec pid) = tb)
         \<and> pr_time (pid_rec pid) = 0 \<and> pr_id (pid_rec pid) = 0 \<and> ps_id (pid_send pid) = 0
         \<and> pr_seq_backtrack (pid_rec pid) = sb"
  using assms
  by (auto simp: packet_id_init_def packet_id_zero_def rec_wf_def rec_window_def packet_id_consts Let_def
      intro: circ_wf_ALLOC split: if_splits) (simp_all add: CIRC_LIST_ALLOC_def circ_wf_def)

lemma rec_wf_load_obj:
  "rec_wf (pid_rec pid) \<Longrightarrow> rec_wf (pid_rec (packet_id_persist_load_obj pp pid))"
  by (auto simp: packet_id_persist_load_obj_def rec_wf_def split: option.splits)

text \<open>
  C4: No replay.  Starting from any successful initialisation, with or without a
  loaded persistence record, the receiver processes every sequence of incoming
  packets (arrival times after \<open>SEQ_EXPIRED\<close>) without aborting, and accepts each
  packet identifier at most once, in UDP mode (a replay window) and in TCP mode
  (none), whatever the order, the duplicates, the gaps, the expiry passes.
\<close>

theorem no_replay:
  assumes "packet_id_init sb tb = Some pid"
    and "co_packet_id opt = packet_id_persist_load_obj pp pid"
    and "\<forall>(now, pin) \<in> set evs. 1 < now"
  shows "\<exists>opt' acc. replay_run opt evs = Some (opt', acc) \<and> distinct acc"
proof -
  have "rec_wf (pid_rec (co_packet_id opt))"
    using rec_wf_init [OF assms(1)] assms(2) by (simp add: rec_wf_load_obj)
  from replay_run_distinct [OF seen_inv_empty [OF this] assms(3)] show ?thesis by blast
qed

definition demo_pid :: "int \<Rightarrow> int \<Rightarrow> packet_id" where
  "demo_pid sb tb = the (packet_id_init sb tb)"

definition demo_opt :: "int \<Rightarrow> int \<Rightarrow> crypto_options" where
  "demo_opt sb tb = \<lparr>co_packet_id = demo_pid sb tb, co_pid_persist = None, co_long_form = True\<rparr>"

lemma packet_id_init_demo:
  "0 \<le> sb \<Longrightarrow> sb \<le> 65536 \<Longrightarrow> 0 \<le> tb \<Longrightarrow> tb \<le> 600 \<Longrightarrow> packet_id_init sb tb = Some (demo_pid sb tb)"
  by (simp add: demo_pid_def packet_id_init_def packet_id_consts Let_def)

theorem no_replay_witness:
  "\<exists>opt' acc. replay_run (demo_opt 4 15) [(100, \<lparr>pin_id = 1, pin_time = 7\<rparr>),
      (101, \<lparr>pin_id = 3, pin_time = 7\<rparr>), (101, \<lparr>pin_id = 1, pin_time = 7\<rparr>)] = Some (opt', acc)
      \<and> distinct acc"
  by (rule no_replay [of 4 15 "demo_pid 4 15" _ None])
     (simp_all add: packet_id_init_demo demo_opt_def packet_id_persist_load_obj_def)

text \<open>
  C22: Exact window.  With a window of \<open>sb\<close> identifiers and no expiry, the receiver
  accepts exactly what the abstract window (newest time, highest identifier, set of
  accepted packets) accepts: every packet that is newer than all before, and every
  unseen one less than \<open>sb\<close> behind the highest.
\<close>

theorem replay_window_exact:
  assumes "packet_id_init sb 0 = Some pid" "sb \<noteq> 0" "co_packet_id opt = pid"
    and "\<forall>(now, pin) \<in> set evs. 1 < now"
  shows "\<exists>opt'. replay_run opt evs = Some (opt', spec_run sb (0, 0, {}) (map snd evs))"
proof -
  have i: "rec_wf (pid_rec pid)" "rec_window (pid_rec pid) = []" "pr_seq_backtrack (pid_rec pid) = sb"
    "pr_time_backtrack (pid_rec pid) = 0" "pr_time (pid_rec pid) = 0" "pr_id (pid_rec pid) = 0"
    using rec_wf_init [OF assms(1)] assms(2) by auto
  have "exact_inv (pid_rec (co_packet_id opt)) (0, 0, {})"
    using i assms(2,3) by (simp add: exact_inv_def rec_entry_def)
  from replay_run_exact [OF this seen_inv_empty assms(4)] show ?thesis
    using i assms(3) by simp
qed

theorem replay_window_exact_witness:
  "\<exists>opt'. replay_run (demo_opt 2 0) [(100, \<lparr>pin_id = 1, pin_time = 7\<rparr>), (101, \<lparr>pin_id = 3, pin_time = 7\<rparr>),
      (101, \<lparr>pin_id = 2, pin_time = 7\<rparr>), (102, \<lparr>pin_id = 3, pin_time = 7\<rparr>)]
     = Some (opt', [\<lparr>pin_id = 1, pin_time = 7\<rparr>, \<lparr>pin_id = 3, pin_time = 7\<rparr>, \<lparr>pin_id = 2, pin_time = 7\<rparr>])"
proof -
  let ?evs = "[(100, \<lparr>pin_id = 1, pin_time = 7\<rparr>), (101, \<lparr>pin_id = 3, pin_time = 7\<rparr>),
      (101, \<lparr>pin_id = 2, pin_time = 7\<rparr>), (102, \<lparr>pin_id = 3, pin_time = 7\<rparr>)] :: (int \<times> packet_id_net) list"
  have "\<exists>opt'. replay_run (demo_opt 2 0) ?evs = Some (opt', spec_run 2 (0, 0, {}) (map snd ?evs))"
    by (rule replay_window_exact [of 2 "demo_pid 2 0"]) (simp_all add: packet_id_init_demo demo_opt_def)
  then show ?thesis by (simp add: spec_accepts_def spec_next_def)
qed

subsection \<open>The sender\<close>

definition send_before :: "packet_id_send \<Rightarrow> packet_id_send \<Rightarrow> bool" where
  "send_before p q \<longleftrightarrow> ps_time p < ps_time q \<or> (ps_time p = ps_time q \<and> ps_id p < ps_id q)"

text \<open>The states after each successful update along a sequence of send times.\<close>

fun send_run :: "bool \<Rightarrow> packet_id_send \<Rightarrow> int list \<Rightarrow> packet_id_send list" where
  "send_run lf p [] = []"
| "send_run lf p (now # nows) =
     (let (q, ok) = packet_id_send_update now p lf
      in if ok then q # send_run lf q nows else send_run lf q nows)"

lemma send_before_trans: "send_before p q \<Longrightarrow> send_before q r \<Longrightarrow> send_before p r"
  by (auto simp: send_before_def)

lemma packet_id_send_update_before:
  assumes "0 \<le> ps_time p" "0 \<le> now" "packet_id_send_update now p lf = (q, ok)"
  shows "0 \<le> ps_time q \<and> (send_before p q \<or> \<not> ok \<and> q = p) \<and> (ok \<longrightarrow> ps_id q \<noteq> 0)"
proof -
  have "w < w + 1 \<and> w + 1 \<noteq> 0" if "w \<noteq> 4294967295" for w :: u32
    using less_plus_one_u32 [of w] that by auto
  then show ?thesis
    using assms by (auto simp: packet_id_send_update_def PACKET_ID_MAX_def send_before_def Let_def
        split: if_splits)
qed

lemma send_run_before:
  assumes "0 \<le> ps_time p" "\<forall>now \<in> set nows. 0 \<le> now"
  shows "sorted_wrt send_before (send_run lf p nows) \<and> (\<forall>q \<in> set (send_run lf p nows). send_before p q)"
  using assms
proof (induction nows arbitrary: p)
  case (Cons now nows)
  obtain q ok where q: "packet_id_send_update now p lf = (q, ok)" by (cases "packet_id_send_update now p lf")
  have s: "0 \<le> ps_time q" "send_before p q \<or> \<not> ok \<and> q = p"
    using packet_id_send_update_before [OF _ _ q] Cons.prems by auto
  have r: "sorted_wrt send_before (send_run lf q nows)" "\<forall>r \<in> set (send_run lf q nows). send_before q r"
    using Cons.IH [OF s(1)] Cons.prems(2) by auto
  then show ?case using q s(2) send_before_trans by auto
qed simp

text \<open>The identifier as bytes: the number, and in the long form the low 32 bits of the time.\<close>

definition pid_bytes :: "bool \<Rightarrow> packet_id_send \<Rightarrow> bytes" where
  "pid_bytes long ps = be32_bytes (ps_id ps) @ (if long then be32_bytes (word_of_int (ps_time ps)) else [])"

lemma length_pid_bytes: "length (pid_bytes long ps) = (if long then 8 else 4)"
  by (simp add: pid_bytes_def)

lemma packet_id_write_law:
  assumes "buf_wf b" "packet_id_send_update now p long = (ps, True)" "int (length (pid_bytes long ps)) \<le> buf_forward_capacity b"
  shows "\<exists>b'. packet_id_write now p b long False = (ps, b', True) \<and> buf_wf b' \<and> buf_content b' = buf_content b @ pid_bytes long ps
    \<and> b_offset b' = b_offset b \<and> b_capacity b' = b_capacity b \<and> buf_forward_capacity b' = buf_forward_capacity b - int (length (pid_bytes long ps))"
proof -
  obtain b1 where b1: "buf_write b (be32_bytes (ps_id ps)) = (b1, True)" "buf_wf b1" "buf_content b1 = buf_content b @ be32_bytes (ps_id ps)"
    "b_offset b1 = b_offset b" "b_capacity b1 = b_capacity b" "buf_forward_capacity b1 = buf_forward_capacity b - 4"
    using buf_write_law [OF assms(1), of "be32_bytes (ps_id ps)"] assms(3) by (auto simp: pid_bytes_def split: if_splits)
  show ?thesis
  proof (cases long)
    case True
    obtain b2 where b2: "buf_write b1 (be32_bytes (word_of_int (ps_time ps))) = (b2, True)" "buf_wf b2"
      "buf_content b2 = buf_content b1 @ be32_bytes (word_of_int (ps_time ps))"
      "b_offset b2 = b_offset b1" "b_capacity b2 = b_capacity b1" "buf_forward_capacity b2 = buf_forward_capacity b1 - 4"
      using buf_write_law [OF b1(2), of "be32_bytes (word_of_int (ps_time ps))"] b1(6) assms(3) True by (auto simp: pid_bytes_def)
    then show ?thesis using b1 assms(2) True by (simp add: packet_id_write_def pid_bytes_def)
  next
    case False
    then show ?thesis using b1 assms(2) by (simp add: packet_id_write_def pid_bytes_def)
  qed
qed

lemma packet_id_write_prepend_law:
  assumes "buf_wf b" "packet_id_send_update now p long = (ps, True)" "int (length (pid_bytes long ps)) \<le> b_offset b"
  shows "\<exists>b'. packet_id_write now p b long True = (ps, b', True) \<and> buf_wf b' \<and> buf_content b' = pid_bytes long ps @ buf_content b
    \<and> b_offset b' = b_offset b - int (length (pid_bytes long ps)) \<and> b_len b' = b_len b + int (length (pid_bytes long ps))"
proof -
  have "\<exists>b1. (if long then buf_write_prepend b (be32_bytes (word_of_int (ps_time ps))) else (b, True)) = (b1, True) \<and> buf_wf b1
    \<and> buf_content b1 = (if long then be32_bytes (word_of_int (ps_time ps)) else []) @ buf_content b
    \<and> b_offset b1 = b_offset b - (if long then 4 else 0) \<and> b_len b1 = b_len b + (if long then 4 else 0)"
  proof (cases long)
    case True
    then have "int (length (be32_bytes (word_of_int (ps_time ps)))) \<le> b_offset b" using assms(3) by (simp add: pid_bytes_def)
    from buf_write_prepend_law [OF assms(1) this] show ?thesis using True by auto
  qed (use assms(1) in simp)
  then obtain b1 where b1: "(if long then buf_write_prepend b (be32_bytes (word_of_int (ps_time ps))) else (b, True)) = (b1, True)" "buf_wf b1"
    "buf_content b1 = (if long then be32_bytes (word_of_int (ps_time ps)) else []) @ buf_content b"
    "b_offset b1 = b_offset b - (if long then 4 else 0)" "b_len b1 = b_len b + (if long then 4 else 0)"
    by blast
  obtain b2 where b2: "buf_write_prepend b1 (be32_bytes (ps_id ps)) = (b2, True)" "buf_wf b2" "buf_content b2 = be32_bytes (ps_id ps) @ buf_content b1"
    "b_offset b2 = b_offset b1 - 4" "b_len b2 = b_len b1 + 4"
    using buf_write_prepend_law [OF b1(2), of "be32_bytes (ps_id ps)"] b1(4) assms(3) by (auto simp: pid_bytes_def split: if_splits)
  show ?thesis using b1 b2 assms(2) by (simp add: packet_id_write_def pid_bytes_def)
qed

text \<open>An empty buffer with room for an identifier at the end or in front.\<close>

definition pid_room :: "bool \<Rightarrow> bool \<Rightarrow> buffer \<Rightarrow> bool" where
  "pid_room lf prepend b \<longleftrightarrow> buf_wf b \<and> buf_content b = []
     \<and> packet_id_size lf \<le> (if prepend then b_offset b else buf_forward_capacity b)"

lemma packet_id_write_alone:
  assumes "pid_room lf prepend b" "packet_id_send_update now p lf = (q, True)"
  obtains b' where "packet_id_write now p b lf prepend = (q, b', True)" "buf_wf b'" "buf_content b' = pid_bytes lf q"
proof -
  have b: "buf_wf b" "buf_content b = []" and room: "int (length (pid_bytes lf q)) \<le> (if prepend then b_offset b else buf_forward_capacity b)"
    using assms(1) by (auto simp: pid_room_def length_pid_bytes packet_id_size_def)
  show ?thesis
    using that packet_id_write_law [OF b(1) assms(2)] packet_id_write_prepend_law [OF b(1) assms(2)] room b(2)
    by (cases prepend) auto
qed

text \<open>
  The bytes a sender puts in front of, or behind, its packets, each written to an empty buffer \<open>b\<close>;
  a packet that gets no identifier is not sent.
\<close>

fun wire_run :: "bool \<Rightarrow> bool \<Rightarrow> buffer \<Rightarrow> packet_id_send \<Rightarrow> int list \<Rightarrow> bytes list" where
  "wire_run lf prepend b p [] = []"
| "wire_run lf prepend b p (now # nows) =
     (let (q, b', ok) = packet_id_write now p b lf prepend
      in if ok then buf_content b' # wire_run lf prepend b q nows else wire_run lf prepend b q nows)"

lemma wire_run_send:
  assumes "pid_room lf prepend b"
  shows "wire_run lf prepend b p nows = map (pid_bytes lf) (send_run lf p nows)"
proof (induction nows arbitrary: p)
  case (Cons now nows)
  obtain q ok where q: "packet_id_send_update now p lf = (q, ok)" by (cases "packet_id_send_update now p lf")
  show ?case
  proof (cases ok)
    case True
    obtain b' where "packet_id_write now p b lf prepend = (q, b', True)" "buf_content b' = pid_bytes lf q"
      using packet_id_write_alone [OF assms, of now p q] q True by metis
    then show ?thesis using Cons.IH q True by simp
  next
    case False
    then have "packet_id_write now p b lf prepend = (q, b, False)" using q by (simp add: packet_id_write_def)
    then show ?thesis using Cons.IH q False by simp
  qed
qed simp

lemma pid_bytes_inject:
  assumes "pid_bytes lf q = pid_bytes lf r" "0 \<le> ps_time q" "ps_time q < 2 ^ 32" "0 \<le> ps_time r" "ps_time r < 2 ^ 32"
  shows "ps_id q = ps_id r \<and> (lf \<longrightarrow> ps_time q = ps_time r)"
proof -
  have "be32_bytes (ps_id q) = be32_bytes (ps_id r)
      \<and> (lf \<longrightarrow> be32_bytes (word_of_int (ps_time q)) = be32_bytes (word_of_int (ps_time r)))"
    using assms(1) by (auto simp: pid_bytes_def)
  then have "ps_id q = ps_id r" "lf \<longrightarrow> (word_of_int (ps_time q) :: u32) = word_of_int (ps_time r)"
    by (metis be32_of_bytes)+
  moreover have "ps_time q = ps_time r" if "(word_of_int (ps_time q) :: u32) = word_of_int (ps_time r)"
  proof -
    from that have "uint (word_of_int (ps_time q) :: u32) = uint (word_of_int (ps_time r) :: u32)" by simp
    then show ?thesis using assms(2-5) by (simp add: uint_word_of_int)
  qed
  ultimately show ?thesis by blast
qed

lemma send_run_times:
  assumes "0 \<le> ps_time p" "ps_time p < T" "\<forall>now \<in> set nows. 0 \<le> now \<and> now < T" "q \<in> set (send_run lf p nows)"
  shows "0 \<le> ps_time q \<and> ps_time q < T"
  using assms
proof (induction nows arbitrary: p)
  case (Cons now nows)
  obtain r ok where r: "packet_id_send_update now p lf = (r, ok)" by (cases "packet_id_send_update now p lf")
  have t: "0 \<le> ps_time r" "ps_time r < T"
    using r Cons.prems(1-3) by (auto simp: packet_id_send_update_def Let_def split: if_splits)
  show ?case using Cons.IH [OF t] Cons.prems(3,4) r t by (auto split: if_splits)
qed simp

text \<open>In the short form the numbers are consecutive, and there is none after the last one.\<close>

lemma send_run_short:
  "map (\<lambda>q. unat (ps_id q)) (send_run False p nows)
     = [unat (ps_id p) + 1 ..< min (unat (ps_id p) + 1 + length nows) (2 ^ 32)]"
proof (induction nows arbitrary: p)
  case (Cons now nows)
  show ?case
  proof (cases "ps_id p = PACKET_ID_MAX")
    case True
    define r where "r = (if ps_time p = 0 then p\<lparr>ps_time := now\<rparr> else p)"
    have r: "packet_id_send_update now p False = (r, False)" "ps_id r = ps_id p"
      using True by (auto simp: packet_id_send_update_def Let_def r_def)
    have "unat (ps_id p) = 4294967295" using True by (simp add: PACKET_ID_MAX_def)
    then show ?thesis using Cons.IH [of r] r by simp
  next
    case False
    define r where "r = (if ps_time p = 0 then p\<lparr>ps_time := now\<rparr> else p)\<lparr>ps_id := ps_id p + 1\<rparr>"
    have r: "packet_id_send_update now p False = (r, True)" "ps_id r = ps_id p + 1"
      using False by (auto simp: packet_id_send_update_def Let_def r_def)
    have "ps_id p < ps_id p + 1" using less_plus_one_u32 False by (simp add: PACKET_ID_MAX_def)
    then have u: "unat (ps_id r) = Suc (unat (ps_id p))" "unat (ps_id r) < 4294967296"
      unfolding r(2) by (rule unat_Suc32, use unat_le_bound32 in blast)
    then have "[unat (ps_id p) + 1 ..< min (unat (ps_id p) + 1 + length (now # nows)) (2 ^ 32)]
        = unat (ps_id r) # [unat (ps_id r) + 1 ..< min (unat (ps_id r) + 1 + length nows) (2 ^ 32)]"
      by (subst upt_conv_Cons) auto
    then show ?thesis using Cons.IH [of r] r by simp
  qed
qed simp

text \<open>
  C25: Nonce uniqueness.  Let a sender write its identifiers, at whatever (32-bit) times, to the packets.
  The states it sends from are strictly increasing in the lexicographic order of time and number,
  and no two packets carry the same bytes.  In the short form, where only the number is on the wire,
  the numbers are exactly the consecutive ones after the first state's, up to the largest: when they
  are used up nothing is sent any more, however much time passes.
\<close>

theorem send_ids_unique:
  assumes "pid_room lf prepend b" "0 \<le> ps_time p" "ps_time p < 2 ^ 32" "\<forall>now \<in> set nows. 0 \<le> now \<and> now < 2 ^ 32"
  shows "sorted_wrt send_before (send_run lf p nows)
    \<and> wire_run lf prepend b p nows = map (pid_bytes lf) (send_run lf p nows)
    \<and> distinct (wire_run lf prepend b p nows)
    \<and> (\<not> lf \<longrightarrow> map (\<lambda>bs. unat (be32_of bs)) (wire_run lf prepend b p nows)
         = [unat (ps_id p) + 1 ..< min (unat (ps_id p) + 1 + length nows) (2 ^ 32)])"
proof (intro conjI impI)
  have irr: "\<not> send_before q q" for q by (simp add: send_before_def)
  have dist: "sorted_wrt send_before qs \<Longrightarrow> distinct qs" for qs
    by (induction qs) (use irr in auto)
  show sorted: "sorted_wrt send_before (send_run lf p nows)"
    using send_run_before [OF assms(2), of nows lf] assms(4) by blast
  show wire: "wire_run lf prepend b p nows = map (pid_bytes lf) (send_run lf p nows)"
    by (rule wire_run_send [OF assms(1)])
  have short: "map (\<lambda>q. unat (ps_id q)) (send_run lf p nows)
      = [unat (ps_id p) + 1 ..< min (unat (ps_id p) + 1 + length nows) (2 ^ 32)]" if "\<not> lf"
    using send_run_short [of p nows] that by simp
  show "map (\<lambda>bs. unat (be32_of bs)) (wire_run lf prepend b p nows)
         = [unat (ps_id p) + 1 ..< min (unat (ps_id p) + 1 + length nows) (2 ^ 32)]" if "\<not> lf"
    unfolding short [OF that, symmetric] wire using that by (simp add: pid_bytes_def)
  have "inj_on (pid_bytes lf) (set (send_run lf p nows))"
  proof (rule inj_onI)
    fix q r assume q: "q \<in> set (send_run lf p nows)" and r: "r \<in> set (send_run lf p nows)"
      and "pid_bytes lf q = pid_bytes lf r"
    then have eq: "ps_id q = ps_id r" "lf \<longrightarrow> ps_time q = ps_time r"
      using pid_bytes_inject send_run_times [OF assms(2-4)] by blast+
    show "q = r"
    proof (cases lf)
      case False
      have "distinct (map (\<lambda>q. unat (ps_id q)) (send_run lf p nows))" unfolding short [OF False] by simp
      then have "inj_on (\<lambda>q. unat (ps_id q)) (set (send_run lf p nows))" by (simp add: distinct_map)
      then show ?thesis using q r eq(1) by (metis inj_onD)
    qed (use eq in simp)
  qed
  then show "distinct (wire_run lf prepend b p nows)"
    unfolding wire using dist [OF sorted] by (simp add: distinct_map)
qed

theorem send_ids_unique_witness:
  "map (\<lambda>bs. unat (be32_of bs))
     (wire_run False True \<lparr>b_capacity = 16, b_offset = 8, b_len = 0, b_data = Some (replicate 16 0)\<rparr>
       \<lparr>ps_id = 4294967293, ps_time = 0\<rparr> [9, 9, 9, 10]) = [4294967294, 4294967295]"
proof -
  have "pid_room False True \<lparr>b_capacity = 16, b_offset = 8, b_len = 0, b_data = Some (replicate 16 0)\<rparr>"
    by (simp add: pid_room_def buf_wf_def BUF_SIZE_MAX_def buf_content_def buf_valid_def buf_peek_def packet_id_size_def)
  then have "map (\<lambda>bs. unat (be32_of bs))
     (wire_run False True \<lparr>b_capacity = 16, b_offset = 8, b_len = 0, b_data = Some (replicate 16 0)\<rparr>
       \<lparr>ps_id = 4294967293, ps_time = 0\<rparr> [9, 9, 9, 10])
     = [unat (ps_id \<lparr>ps_id = 4294967293, ps_time = 0\<rparr>) + 1
        ..< min (unat (ps_id \<lparr>ps_id = 4294967293, ps_time = 0\<rparr>) + 1 + length [9, 9, 9, 10 :: int]) (2 ^ 32)]"
    by (rule send_ids_unique [THEN conjunct2, THEN conjunct2, THEN conjunct2, THEN mp]) simp_all
  also have "\<dots> = [4294967294, 4294967295]" by (simp add: upt_rec)
  finally show ?thesis .
qed

text \<open>
  Wire round trip.  What \<^const>\<open>packet_id_write\<close> puts on a buffer with room for it,
  in front or at the end, \<^const>\<open>packet_id_read\<close> takes off again: the number, and in
  the long form the low 32 bits of the time.
\<close>

theorem packet_id_write_read:
  assumes wf: "buf_wf b" and empty: "buf_content b = []"
    and room: "if prepend then packet_id_size lf \<le> b_offset b else packet_id_size lf \<le> buf_forward_capacity b"
    and ok: "packet_id_send_update now p lf = (q, True)"
  shows "\<exists>b' b''. packet_id_write now p b lf prepend = (q, b', True) \<and> buf_wf b'
     \<and> packet_id_read b' lf
         = (\<lparr>pin_id = ps_id q, pin_time = (if lf then ps_time q mod 2 ^ 32 else 0)\<rparr>, b'', True)
     \<and> buf_content b'' = []"
proof -
  let ?i = "be32_bytes (ps_id q)" and ?t = "be32_bytes (word_of_int (ps_time q) :: u32)"
  have "pid_room lf prepend b" using wf empty room by (simp add: pid_room_def split: if_splits)
  then obtain b' where w: "packet_id_write now p b lf prepend = (q, b', True)" "buf_wf b'"
    "buf_content b' = pid_bytes lf q"
    using packet_id_write_alone ok by metis
  obtain b1 where r1: "buf_read b' 4 = (b1, Some ?i)" "buf_wf b1"
    "buf_content b1 = (if lf then ?t else [])"
    using bs.get_law [OF w(2), of 4] w(3) by (auto simp: pid_bytes_def)
  have "\<exists>b2. buf_read b1 4 = (b2, Some ?t) \<and> buf_content b2 = []" if lf
    using bs.get_law [OF r1(2), of 4] r1(3) that by auto
  then have "\<exists>b2. packet_id_read b' lf
      = (\<lparr>pin_id = ps_id q, pin_time = (if lf then ps_time q mod 2 ^ 32 else 0)\<rparr>, b2, True)
      \<and> buf_content b2 = []"
    using r1 by (cases lf) (auto simp: packet_id_read_def uint_word_of_int)
  then show ?thesis using w by blast
qed

theorem packet_id_write_read_witness:
  "\<exists>b' b''. packet_id_write 77 \<lparr>ps_id = 4, ps_time = 70\<rparr>
       \<lparr>b_capacity = 16, b_offset = 8, b_len = 0, b_data = Some (replicate 16 0)\<rparr> True True
      = (\<lparr>ps_id = 5, ps_time = 70\<rparr>, b', True) \<and> buf_wf b'
     \<and> packet_id_read b' True = (\<lparr>pin_id = 5, pin_time = 70\<rparr>, b'', True) \<and> buf_content b'' = []"
  using packet_id_write_read [of "\<lparr>b_capacity = 16, b_offset = 8, b_len = 0, b_data = Some (replicate 16 0)\<rparr>"
      True True 77 "\<lparr>ps_id = 4, ps_time = 70\<rparr>" "\<lparr>ps_id = 5, ps_time = 70\<rparr>"]
  by (simp add: buf_wf_def BUF_SIZE_MAX_def buf_content_def buf_valid_def buf_peek_def packet_id_size_def
      packet_id_send_update_def PACKET_ID_MAX_def)

subsection \<open>Sender and receiver together\<close>

text \<open>What the receiver reads of a packet sent in state \<open>q\<close>, for times below \<open>2 ^ 32\<close>.\<close>

definition pin_of :: "bool \<Rightarrow> packet_id_send \<Rightarrow> packet_id_net" where
  "pin_of lf q = \<lparr>pin_id = ps_id q, pin_time = (if lf then ps_time q else 0)\<rparr>"

definition tracks :: "bool \<Rightarrow> packet_id_send \<Rightarrow> packet_id_rec \<Rightarrow> bool" where
  "tracks lf q p \<longleftrightarrow> rec_wf p \<and> pr_id p = ps_id q \<and> pr_time p = pin_time (pin_of lf q)
     \<and> 0 \<le> ps_time q \<and> (ps_time q = 0 \<longrightarrow> ps_id q = 0)"

lemma tracks_stat [simp]: "tracks lf q (p\<lparr>pr_max_backtrack_stat := s\<rparr>) = tracks lf q p"
  by (simp add: tracks_def)

lemma tracks_accepts:
  assumes "tracks lf q p" "0 < now" "packet_id_send_update now q lf = (r, True)"
  shows "window_accepts p (pin_of lf r) \<and> 0 \<le> ps_time r \<and> ps_time r \<noteq> 0
           \<and> (pin_time (pin_of lf r) = pr_time p \<and> pr_id p \<le> ps_id r \<or> pin_time (pin_of lf r) > pr_time p)"
proof -
  have "w < w + 1 \<and> w + 1 \<noteq> 0" if "w \<noteq> 4294967295" for w :: u32
    using less_plus_one_u32 [of w] that by auto
  then show ?thesis
    using assms
    by (auto simp: tracks_def packet_id_send_update_def PACKET_ID_MAX_def window_accepts_def pin_of_def
        Let_def less_imp_le split: if_splits)
qed

lemma tracks_add:
  assumes "tracks lf q p" "0 < now" "packet_id_send_update now q lf = (r, True)" "1 < at"
  shows "\<exists>p'. packet_id_add at p (pin_of lf r) = Some p' \<and> tracks lf r p'"
proof -
  let ?pin = "pin_of lf r"
  have a: "ps_time r \<noteq> 0" "0 \<le> ps_time r"
    "pin_time ?pin = pr_time p \<and> pr_id p \<le> ps_id r \<or> pin_time ?pin > pr_time p"
    using tracks_accepts [OF assms(1-3)] by auto
  have wf: "rec_wf p" using assms(1) by (simp add: tracks_def)
  have id: "pin_id ?pin = ps_id r" by (simp add: pin_of_def)
  show ?thesis
  proof (cases "pr_seq_backtrack p = 0")
    case True
    then have "pr_seq_list p = None" using wf by (simp add: rec_wf_def)
    then show ?thesis using wf a id True by (simp add: packet_id_add_def tracks_def rec_wf_def)
  next
    case False
    obtain p' where p': "packet_id_add at p ?pin = Some p'" "rec_wf p'"
      "pr_time p' = (if window_resets p ?pin then pin_time ?pin else pr_time p)"
      "pr_id p' = (if window_resets p ?pin then pin_id ?pin else max (pr_id p) (pin_id ?pin))"
      using packet_id_add_window [OF wf False assms(4), of ?pin] by blast
    then show ?thesis
      using a id by (auto simp: tracks_def window_resets_def max_def)
  qed
qed

lemma tracks_reap:
  assumes "tracks lf q p"
  obtains p' where "packet_id_reap_test at p = Some p'" "tracks lf q p'"
proof -
  have "rec_wf p" using assms by (simp add: tracks_def)
  from packet_id_reap_test_window [OF this, of at] obtain p' where
    p': "packet_id_reap_test at p = Some p'" "rec_wf p'" "pr_time p' = pr_time p" "pr_id p' = pr_id p"
    by blast
  then show ?thesis using assms by (intro that [of p']) (simp_all add: tracks_def)
qed

lemma tracks_check:
  assumes t: "tracks lf q (pid_rec (co_packet_id opt))" and u: "0 < now"
    "packet_id_send_update now q lf = (r, True)" and arr: "1 < arr"
  shows "\<exists>opt'. crypto_check_replay arr opt (pin_of lf r) = Some (opt', True)
           \<and> tracks lf r (pid_rec (co_packet_id opt'))"
proof -
  obtain p where p: "packet_id_reap_test arr (pid_rec (co_packet_id opt)) = Some p" "tracks lf q p"
    using tracks_reap [OF t] by metis
  have acc: "window_accepts p (pin_of lf r)" using tracks_accepts [OF p(2) u] by blast
  have "rec_wf p" using p(2) by (simp add: tracks_def)
  then obtain s where test: "packet_id_test p (pin_of lf r) = Some (p\<lparr>pr_max_backtrack_stat := s\<rparr>, True)"
    using packet_id_test_window [of p "pin_of lf r"] acc by auto
  obtain p' where add: "packet_id_add arr (p\<lparr>pr_max_backtrack_stat := s\<rparr>) (pin_of lf r) = Some p'"
    "tracks lf r p'"
    using tracks_add [OF _ u arr] p(2) by (metis tracks_stat)
  show ?thesis
    using p(1) test add by (fastforce simp: crypto_check_replay_def Let_def split: option.splits)
qed

lemma send_replay_in_order:
  assumes "tracks lf q (pid_rec (co_packet_id opt))" "\<forall>now \<in> set nows. 0 < now"
    "length arr = length (send_run lf q nows)" "\<forall>t \<in> set arr. 1 < t"
  shows "\<exists>opt'. replay_run opt (zip arr (map (pin_of lf) (send_run lf q nows)))
           = Some (opt', map (pin_of lf) (send_run lf q nows))"
  using assms
proof (induction nows arbitrary: q opt arr)
  case Nil
  then show ?case by simp
next
  case (Cons now nows)
  obtain r ok where u: "packet_id_send_update now q lf = (r, ok)" by (cases "packet_id_send_update now q lf")
  have now: "0 < now" and rest: "\<forall>now \<in> set nows. 0 < now" using Cons.prems(2) by auto
  show ?case
  proof (cases ok)
    case True
    then obtain a arr' where arr: "arr = a # arr'" using Cons.prems(3) u by (cases arr) auto
    obtain opt' where o: "crypto_check_replay a opt (pin_of lf r) = Some (opt', True)"
      "tracks lf r (pid_rec (co_packet_id opt'))"
      using tracks_check [OF Cons.prems(1) now, of r a] u True Cons.prems(4) arr by auto
    have "length arr' = length (send_run lf r nows)" using Cons.prems(3) u True arr by simp
    then show ?thesis using Cons.IH [OF o(2) rest] o(1) u True arr Cons.prems(4) by fastforce
  next
    case False
    then have "r = q"
      using packet_id_send_update_before [of q now lf r ok] u now Cons.prems(1) by (auto simp: tracks_def
          packet_id_send_update_def PACKET_ID_MAX_def Let_def split: if_splits)
    then show ?thesis using Cons.IH [OF Cons.prems(1) rest] u False Cons.prems(3,4) by simp
  qed
qed

text \<open>
  In-order acceptance.  A fresh receiver accepts every packet of a fresh sender when
  they arrive in the order sent, in UDP and in TCP mode, in the short and the long form,
  over a roll-over of the number as well.
\<close>

theorem in_order_accepted:
  assumes "packet_id_init sb tb = Some pid" "co_packet_id opt = pid"
    and "\<forall>now \<in> set nows. 0 < now"
    and "length arr = length (send_run lf \<lparr>ps_id = 0, ps_time = 0\<rparr> nows)" "\<forall>t \<in> set arr. 1 < t"
  shows "\<exists>opt'. replay_run opt (zip arr (map (pin_of lf) (send_run lf \<lparr>ps_id = 0, ps_time = 0\<rparr> nows)))
           = Some (opt', map (pin_of lf) (send_run lf \<lparr>ps_id = 0, ps_time = 0\<rparr> nows))"
proof (rule send_replay_in_order [OF _ assms(3-5)])
  show "tracks lf \<lparr>ps_id = 0, ps_time = 0\<rparr> (pid_rec (co_packet_id opt))"
    using rec_wf_init [OF assms(1)] assms(2) by (simp add: tracks_def pin_of_def)
qed

theorem in_order_accepted_witness:
  "\<exists>opt'. replay_run (demo_opt 0 0) (zip [20, 21, 23] (map (pin_of True) (send_run True \<lparr>ps_id = 0, ps_time = 0\<rparr> [9, 9, 9])))
      = Some (opt', map (pin_of True) (send_run True \<lparr>ps_id = 0, ps_time = 0\<rparr> [9, 9, 9]))"
  by (rule in_order_accepted [of 0 0 "demo_pid 0 0"])
     (simp_all add: packet_id_init_demo demo_opt_def packet_id_send_update_def PACKET_ID_MAX_def)

subsection \<open>Restarts\<close>









end
