(* ===== verification/Buffer_Text.thy ===== *)
theory Buffer_Text
  imports Buffer
begin

text \<open>
  The text side of src/openvpn/buffer.c: appending formatted text to a buffer,
  termination and trimming, line parsing, hexadecimal output, and the
  classification and sanitising of strings by character class.

  A C string is the list of its characters before the terminating NUL.  A
  \<open>printf\<close> format is represented by the text it produces.
\<close>

subsection \<open>C strings in memory\<close>

definition c_string :: "bytes \<Rightarrow> bytes" where
  "c_string d = takeWhile (\<lambda>c. c \<noteq> 0) d"

definition strlen :: "bytes \<Rightarrow> nat" where
  "strlen d = length (c_string d)"

lemma c_string_no_nul [simp]: "0 \<notin> set s \<Longrightarrow> c_string (s @ 0 # rest) = s"
  by (induction s) (auto simp: c_string_def)

lemma c_string_id [simp]: "0 \<notin> set s \<Longrightarrow> c_string s = s"
  by (induction s) (auto simp: c_string_def)

lemma strlen_no_nul [simp]: "0 \<notin> set s \<Longrightarrow> strlen (s @ 0 # rest) = length s"
  by (simp add: strlen_def)

text \<open>The byte a pointer points at.\<close>

definition buf_at :: "buffer \<Rightarrow> int \<Rightarrow> u8" where
  "buf_at b p = hd (buf_peek b p 1)"

definition buf_strlen :: "buffer \<Rightarrow> int \<Rightarrow> int" where
  "buf_strlen b p = (case b_data b of None \<Rightarrow> 0 | Some d \<Rightarrow> int (strlen (drop (nat p) d)))"

text \<open>\<open>strncpynt\<close>: the bytes it writes, padded with NULs to \<open>maxlen\<close>.\<close>

definition strncpynt :: "bytes \<Rightarrow> nat \<Rightarrow> bytes" where
  "strncpynt s maxlen =
     (if maxlen > 0
      then take (maxlen - 1) (s @ replicate (maxlen - 1 - length s) 0) @ [0]
      else [])"

subsection \<open>Character classes\<close>

definition CC_ANY :: u32 where "CC_ANY = push_bit 0 1"
definition CC_NULL :: u32 where "CC_NULL = push_bit 1 1"
definition CC_ALNUM :: u32 where "CC_ALNUM = push_bit 2 1"
definition CC_ALPHA :: u32 where "CC_ALPHA = push_bit 3 1"
definition CC_ASCII :: u32 where "CC_ASCII = push_bit 4 1"
definition CC_CNTRL :: u32 where "CC_CNTRL = push_bit 5 1"
definition CC_DIGIT :: u32 where "CC_DIGIT = push_bit 6 1"
definition CC_PRINT :: u32 where "CC_PRINT = push_bit 7 1"
definition CC_PUNCT :: u32 where "CC_PUNCT = push_bit 8 1"
definition CC_SPACE :: u32 where "CC_SPACE = push_bit 9 1"
definition CC_XDIGIT :: u32 where "CC_XDIGIT = push_bit 10 1"
definition CC_BLANK :: u32 where "CC_BLANK = push_bit 11 1"
definition CC_NEWLINE :: u32 where "CC_NEWLINE = push_bit 12 1"
definition CC_CR :: u32 where "CC_CR = push_bit 13 1"
definition CC_BACKSLASH :: u32 where "CC_BACKSLASH = push_bit 14 1"
definition CC_UNDERBAR :: u32 where "CC_UNDERBAR = push_bit 15 1"
definition CC_DASH :: u32 where "CC_DASH = push_bit 16 1"
definition CC_DOT :: u32 where "CC_DOT = push_bit 17 1"
definition CC_COMMA :: u32 where "CC_COMMA = push_bit 18 1"
definition CC_COLON :: u32 where "CC_COLON = push_bit 19 1"
definition CC_SLASH :: u32 where "CC_SLASH = push_bit 20 1"
definition CC_SINGLE_QUOTE :: u32 where "CC_SINGLE_QUOTE = push_bit 21 1"
definition CC_DOUBLE_QUOTE :: u32 where "CC_DOUBLE_QUOTE = push_bit 22 1"
definition CC_REVERSE_QUOTE :: u32 where "CC_REVERSE_QUOTE = push_bit 23 1"
definition CC_AT :: u32 where "CC_AT = push_bit 24 1"
definition CC_EQUAL :: u32 where "CC_EQUAL = push_bit 25 1"
definition CC_LESS_THAN :: u32 where "CC_LESS_THAN = push_bit 26 1"
definition CC_GREATER_THAN :: u32 where "CC_GREATER_THAN = push_bit 27 1"
definition CC_PIPE :: u32 where "CC_PIPE = push_bit 28 1"
definition CC_QUESTION_MARK :: u32 where "CC_QUESTION_MARK = push_bit 29 1"
definition CC_ASTERISK :: u32 where "CC_ASTERISK = push_bit 30 1"
definition CC_NAME :: u32 where "CC_NAME = (CC_ALNUM OR CC_UNDERBAR)"
definition CC_CRLF :: u32 where "CC_CRLF = (CC_CR OR CC_NEWLINE)"

lemmas cc_defs = CC_ANY_def CC_NULL_def CC_ALNUM_def CC_ALPHA_def CC_ASCII_def CC_CNTRL_def
  CC_DIGIT_def CC_PRINT_def CC_PUNCT_def CC_SPACE_def CC_XDIGIT_def CC_BLANK_def CC_NEWLINE_def
  CC_CR_def CC_BACKSLASH_def CC_UNDERBAR_def CC_DASH_def CC_DOT_def CC_COMMA_def CC_COLON_def
  CC_SLASH_def CC_SINGLE_QUOTE_def CC_DOUBLE_QUOTE_def CC_REVERSE_QUOTE_def CC_AT_def
  CC_EQUAL_def CC_LESS_THAN_def CC_GREATER_THAN_def CC_PIPE_def CC_QUESTION_MARK_def
  CC_ASTERISK_def CC_NAME_def CC_CRLF_def

text \<open>The classification functions of ctype.h in the C locale.\<close>

definition isdigit :: "u8 \<Rightarrow> bool" where
  "isdigit c \<longleftrightarrow> 48 \<le> c \<and> c \<le> 57"

definition isalpha :: "u8 \<Rightarrow> bool" where
  "isalpha c \<longleftrightarrow> 65 \<le> c \<and> c \<le> 90 \<or> 97 \<le> c \<and> c \<le> 122"

definition isalnum :: "u8 \<Rightarrow> bool" where
  "isalnum c \<longleftrightarrow> isalpha c \<or> isdigit c"

definition isascii :: "u8 \<Rightarrow> bool" where
  "isascii c \<longleftrightarrow> c < 128"

definition iscntrl :: "u8 \<Rightarrow> bool" where
  "iscntrl c \<longleftrightarrow> c < 32 \<or> c = 127"

definition ispunct :: "u8 \<Rightarrow> bool" where
  "ispunct c \<longleftrightarrow> 33 \<le> c \<and> c \<le> 126 \<and> \<not> isalnum c"

definition isspace :: "u8 \<Rightarrow> bool" where
  "isspace c \<longleftrightarrow> c = 32 \<or> 9 \<le> c \<and> c \<le> 13"

definition isxdigit :: "u8 \<Rightarrow> bool" where
  "isxdigit c \<longleftrightarrow> isdigit c \<or> 65 \<le> c \<and> c \<le> 70 \<or> 97 \<le> c \<and> c \<le> 102"

definition char_class :: "u8 \<Rightarrow> u32 \<Rightarrow> bool" where
  "char_class c flags =
     (if flags = 0 then False
      else if flags AND CC_ANY \<noteq> 0 then True
      else if flags AND CC_NULL \<noteq> 0 \<and> c = 0 then True
      else if flags AND CC_ALNUM \<noteq> 0 \<and> isalnum c then True
      else if flags AND CC_ALPHA \<noteq> 0 \<and> isalpha c then True
      else if flags AND CC_ASCII \<noteq> 0 \<and> isascii c then True
      else if flags AND CC_CNTRL \<noteq> 0 \<and> iscntrl c then True
      else if flags AND CC_DIGIT \<noteq> 0 \<and> isdigit c then True
      else if flags AND CC_PRINT \<noteq> 0 \<and> (c \<ge> 32 \<and> c \<noteq> 127) then True
      else if flags AND CC_PUNCT \<noteq> 0 \<and> ispunct c then True
      else if flags AND CC_SPACE \<noteq> 0 \<and> isspace c then True
      else if flags AND CC_XDIGIT \<noteq> 0 \<and> isxdigit c then True
      else if flags AND CC_BLANK \<noteq> 0 \<and> (c = 32 \<or> c = 9) then True
      else if flags AND CC_NEWLINE \<noteq> 0 \<and> c = 10 then True
      else if flags AND CC_CR \<noteq> 0 \<and> c = 13 then True
      else if flags AND CC_BACKSLASH \<noteq> 0 \<and> c = 92 then True
      else if flags AND CC_UNDERBAR \<noteq> 0 \<and> c = 95 then True
      else if flags AND CC_DASH \<noteq> 0 \<and> c = 45 then True
      else if flags AND CC_DOT \<noteq> 0 \<and> c = 46 then True
      else if flags AND CC_COMMA \<noteq> 0 \<and> c = 44 then True
      else if flags AND CC_COLON \<noteq> 0 \<and> c = 58 then True
      else if flags AND CC_SLASH \<noteq> 0 \<and> c = 47 then True
      else if flags AND CC_SINGLE_QUOTE \<noteq> 0 \<and> c = 39 then True
      else if flags AND CC_DOUBLE_QUOTE \<noteq> 0 \<and> c = 34 then True
      else if flags AND CC_REVERSE_QUOTE \<noteq> 0 \<and> c = 96 then True
      else if flags AND CC_AT \<noteq> 0 \<and> c = 64 then True
      else if flags AND CC_EQUAL \<noteq> 0 \<and> c = 61 then True
      else if flags AND CC_LESS_THAN \<noteq> 0 \<and> c = 60 then True
      else if flags AND CC_GREATER_THAN \<noteq> 0 \<and> c = 62 then True
      else if flags AND CC_PIPE \<noteq> 0 \<and> c = 124 then True
      else if flags AND CC_QUESTION_MARK \<noteq> 0 \<and> c = 63 then True
      else if flags AND CC_ASTERISK \<noteq> 0 \<and> c = 42 then True
      else False)"

definition char_inc_exc :: "u8 \<Rightarrow> u32 \<Rightarrow> u32 \<Rightarrow> bool" where
  "char_inc_exc c inclusive exclusive \<longleftrightarrow> char_class c inclusive \<and> \<not> char_class c exclusive"

text \<open>The loops run to the terminating NUL; a NULL pointer fails the assertion.\<close>

fun string_class_loop :: "bytes \<Rightarrow> u32 \<Rightarrow> u32 \<Rightarrow> bool" where
  "string_class_loop [] inclusive exclusive = True"
| "string_class_loop (c # cs) inclusive exclusive =
     (if \<not> char_inc_exc c inclusive exclusive then False
      else string_class_loop cs inclusive exclusive)"

definition string_class :: "bytes option \<Rightarrow> u32 \<Rightarrow> u32 \<Rightarrow> bool option" where
  "string_class str inclusive exclusive =
     (case str of None \<Rightarrow> None | Some s \<Rightarrow> Some (string_class_loop s inclusive exclusive))"

text \<open>
  \<open>string_mod\<close> rewrites the string in place; the write position never passes the
  read position, so the rest of the input is unaffected.
\<close>

fun string_mod_loop :: "bytes \<Rightarrow> u32 \<Rightarrow> u32 \<Rightarrow> u8 \<Rightarrow> bytes \<times> bool" where
  "string_mod_loop [] inclusive exclusive replace = ([], True)"
| "string_mod_loop (c # cs) inclusive exclusive replace =
     (let (out, ret) = string_mod_loop cs inclusive exclusive replace;
          ok = char_inc_exc c inclusive exclusive;
          c = (if ok then c else replace)
      in (if c \<noteq> 0 then c # out else out, ok \<and> ret))"

definition string_mod :: "bytes option \<Rightarrow> u32 \<Rightarrow> u32 \<Rightarrow> u8 \<Rightarrow> (bytes \<times> bool) option" where
  "string_mod str inclusive exclusive replace =
     (case str of None \<Rightarrow> None | Some s \<Rightarrow> Some (string_mod_loop s inclusive exclusive replace))"

definition string_mod_const :: "bytes option \<Rightarrow> u32 \<Rightarrow> u32 \<Rightarrow> u8 \<Rightarrow> bytes option" where
  "string_mod_const str inclusive exclusive replace =
     (case str of None \<Rightarrow> None | Some s \<Rightarrow> Some (fst (string_mod_loop s inclusive exclusive replace)))"

definition string_check_buf :: "buffer \<Rightarrow> u32 \<Rightarrow> u32 \<Rightarrow> bool" where
  "string_check_buf b inclusive exclusive =
     list_all (\<lambda>c. char_inc_exc c inclusive exclusive) (buf_content b)"

fun string_replace_leading_loop :: "bytes \<Rightarrow> u8 \<Rightarrow> u8 \<Rightarrow> bytes" where
  "string_replace_leading_loop [] match replace = []"
| "string_replace_leading_loop (c # cs) match replace =
     (if c = match then replace # string_replace_leading_loop cs match replace else c # cs)"

definition string_replace_leading :: "bytes \<Rightarrow> u8 \<Rightarrow> u8 \<Rightarrow> bytes option" where
  "string_replace_leading str match replace = do {
     ASSERT (match \<noteq> 0);
     Some (c_string (string_replace_leading_loop str match replace)) }"

subsection \<open>Plain strings\<close>

fun skip_leading_whitespace :: "bytes \<Rightarrow> bytes" where
  "skip_leading_whitespace [] = []"
| "skip_leading_whitespace (c # cs) =
     (if \<not> (c = 32 \<or> c = 9) then c # cs else skip_leading_whitespace cs)"

text \<open>On the character array, which has \<open>capacity\<close> elements.\<close>

definition string_null_terminate :: "bytes \<Rightarrow> int \<Rightarrow> int \<Rightarrow> bytes option" where
  "string_null_terminate str n capacity = do {
     ASSERT (n \<ge> 0 \<and> n \<le> capacity \<and> capacity > 0);
     Some (if n < capacity then str[nat n := 0]
           else if n = capacity then str[nat (n - 1) := 0] else str) }"

function rm_trailing_chars :: "bytes \<Rightarrow> bytes \<Rightarrow> bytes" where
  "rm_trailing_chars str what_to_delete =
     (if str \<noteq> [] \<and> last str \<in> set what_to_delete
      then rm_trailing_chars (butlast str) what_to_delete
      else str)"
  by pat_completeness auto
termination by (relation "measure (\<lambda>(s, _). length s)") auto

declare rm_trailing_chars.simps [simp del]

definition chomp :: "bytes \<Rightarrow> bytes" where
  "chomp str = rm_trailing_chars str [13, 10]"

definition string_alloc :: "bytes option \<Rightarrow> bytes option" where
  "string_alloc str = (case str of Some s \<Rightarrow> Some s | None \<Rightarrow> None)"

definition string_clear :: "bytes option \<Rightarrow> bytes option" where
  "string_clear str = map_option (\<lambda>s. replicate (length s) 0) str"

fun string_array_len_loop :: "bytes option list \<Rightarrow> int \<Rightarrow> int" where
  "string_array_len_loop (Some s # rest) i = string_array_len_loop rest (i + 1)"
| "string_array_len_loop _ i = i"

definition string_array_len :: "bytes option list option \<Rightarrow> int" where
  "string_array_len array = (case array of Some a \<Rightarrow> string_array_len_loop a 0 | None \<Rightarrow> 0)"

definition np :: "bytes option \<Rightarrow> bytes" where
  "np str = (case str of Some s \<Rightarrow> s | None \<Rightarrow> [91, 78, 85, 76, 76, 93])"

fun has_digit :: "bytes \<Rightarrow> bool" where
  "has_digit [] = False"
| "has_digit (c # cs) = (if isdigit c then True else has_digit cs)"

definition strprefix :: "bytes \<Rightarrow> bytes \<Rightarrow> bool" where
  "strprefix str prefix \<longleftrightarrow> take (length prefix) str = prefix"

definition string_alloc_buf :: "bytes option \<Rightarrow> buffer option" where
  "string_alloc_buf str = do {
     s \<leftarrow> str;
     b \<leftarrow> buf_set_read clear_buf (Some (s @ [0])) (length s + 1);
     Some (if b_len b > 0 then b\<lparr>b_len := b_len b - 1\<rparr> else b) }"

subsection \<open>Text in buffers\<close>

text \<open>\<open>vsnprintf\<close> writes the text cut to \<open>cap - 1\<close> characters and a NUL, and returns its full length.\<close>

definition buf_printf :: "buffer \<Rightarrow> bytes \<Rightarrow> buffer \<times> bool" where
  "buf_printf b txt =
     (if buf_defined b
      then (let cap = buf_forward_capacity b
            in if cap > 0
               then (let ptr = the (buf_bend b);
                         b = buf_poke b ptr (take (nat (cap - 1)) txt @ [0]);
                         b = buf_poke b (b_capacity b - 1) [0];
                         b = b\<lparr>b_len := b_len b + buf_strlen b ptr\<rparr>
                     in (b, int (length txt) < cap))
               else (b, False))
      else (b, False))"

definition buf_puts :: "buffer \<Rightarrow> bytes \<Rightarrow> buffer \<times> bool" where
  "buf_puts b str =
     (let cap = buf_forward_capacity b
      in if cap > 0
         then (let ptr = the (buf_bend b);
                   b = buf_poke b ptr (strncpynt str (nat cap));
                   b = buf_poke b (b_capacity b - 1) [0];
                   b = b\<lparr>b_len := b_len b + buf_strlen b ptr\<rparr>
               in (b, True))
         else (b, False))"

definition buf_catrunc :: "buffer \<Rightarrow> bytes \<Rightarrow> buffer" where
  "buf_catrunc b str =
     (if buf_forward_capacity b \<le> 1
      then (let n = length str + 1
            in if n < size_t_of_int (buf_forward_capacity_total b)
               then buf_poke b (b_capacity b - int n) (str @ [0])
               else b)
      else b)"

definition convert_to_one_line :: "buffer \<Rightarrow> buffer" where
  "convert_to_one_line b =
     (case buf_bptr b of
        None \<Rightarrow> b
      | Some cp \<Rightarrow> buf_poke b cp (map (\<lambda>c. if c = 10 then 124 else c) (buf_peek b cp (buf_len b))))"

definition buf_rmtail :: "buffer \<Rightarrow> u8 \<Rightarrow> buffer" where
  "buf_rmtail b remove =
     (case buf_blast b of
        Some cp \<Rightarrow>
          (if buf_at b cp = remove
           then (let b = buf_poke b cp [0] in b\<lparr>b_len := b_len b - 1\<rparr>) else b)
      | None \<Rightarrow> b)"

definition buf_null_terminate :: "buffer \<Rightarrow> buffer" where
  "buf_null_terminate b =
     (case buf_blast b of
        Some p \<Rightarrow>
          (if buf_at b p = 0 then b
           else (let b = (if \<not> buf_safe b 1 then fst (buf_inc_len b (- 1)) else b)
                 in fst (buf_write_u8 b 0)))
      | None \<Rightarrow> (let b = (if \<not> buf_safe b 1 then fst (buf_inc_len b (- 1)) else b)
                 in fst (buf_write_u8 b 0)))"

function buf_chomp_loop :: "buffer \<Rightarrow> buffer" where
  "buf_chomp_loop b =
     (case buf_blast b of
        None \<Rightarrow> b
      | Some p \<Rightarrow>
          (if char_class (buf_at b p) (CC_CRLF OR CC_NULL)
           then (if \<not> snd (buf_inc_len b (- 1)) then b
                 else buf_chomp_loop (fst (buf_inc_len b (- 1))))
           else b))"
  by pat_completeness auto
termination
  by (relation "measure (\<lambda>b. nat (b_len b))")
     (auto simp: buf_inc_len_def buf_safe_bidir_def buf_valid_def Let_def split: if_splits)

declare buf_chomp_loop.simps [simp del]

definition buf_chomp :: "buffer \<Rightarrow> buffer" where
  "buf_chomp b = buf_null_terminate (buf_chomp_loop b)"

text \<open>The comparison with \<open>src->len\<close> converts it to \<open>size_t\<close>.\<close>

definition buf_string_match_head_str :: "buffer \<Rightarrow> bytes \<Rightarrow> bool" where
  "buf_string_match_head_str src match =
     (if length match > size_t_of_int (b_len src) then False
      else buf_peek src (b_offset src) (int (length match)) = match)"

definition buf_string_compare_advance :: "buffer \<Rightarrow> bytes \<Rightarrow> buffer \<times> bool" where
  "buf_string_compare_advance src match =
     (if buf_string_match_head_str src match
      then (fst (buf_advance src (int (length match))), True)
      else (src, False))"

function buf_substring_len_loop :: "buffer \<Rightarrow> int \<Rightarrow> int \<Rightarrow> int" where
  "buf_substring_len_loop tmp delim i =
     (case buf_read_u8 tmp of
        (tmp', c) \<Rightarrow>
          (if c \<ge> 0
           then (if c = delim then i + 1 else buf_substring_len_loop tmp' delim (i + 1))
           else - 1))"
  by pat_completeness auto
termination
  by (relation "measure (\<lambda>(b, _, _). nat (b_len b))")
     (auto simp: buf_read_u8_def buf_advance_def buf_len_def split: if_splits)

declare buf_substring_len_loop.simps [simp del]

definition buf_substring_len :: "buffer \<Rightarrow> int \<Rightarrow> int" where
  "buf_substring_len b delim = buf_substring_len_loop b delim 0"

text \<open>The parsing loop: the buffer, the output array, the write index and the end-of-input flag.\<close>

function buf_parse_loop ::
    "int \<Rightarrow> int \<Rightarrow> buffer \<Rightarrow> bytes \<Rightarrow> int \<Rightarrow> bool \<Rightarrow> buffer \<times> bytes \<times> bool" where
  "buf_parse_loop delim sz b line n eol =
     (case buf_read_u8 b of
        (b, c) \<Rightarrow>
          (let eol = (if c < 0 then True else eol);
               c = (if c \<le> 0 \<or> c = delim then 0 else c)
           in if n \<ge> sz then (b, line, eol)
              else (let line = line[nat n := word_of_int c]
                    in if c \<noteq> 0 then buf_parse_loop delim sz b line (n + 1) eol
                       else (b, line, eol))))"
  by pat_completeness auto
termination
  by (relation "measure (\<lambda>(_, sz, _, _, n, _). nat (sz - n))") auto

declare buf_parse_loop.simps [simp del]

definition buf_parse :: "buffer \<Rightarrow> int \<Rightarrow> bytes \<Rightarrow> int \<Rightarrow> (buffer \<times> bytes \<times> bool) option" where
  "buf_parse b delim line sz = do {
     ASSERT (sz > 0);
     let (b, line, eol) = buf_parse_loop delim sz b line 0 False;
     let line = line[nat (sz - 1) := 0];
     Some (b, line, \<not> (eol \<and> strlen line = 0)) }"

subsection \<open>Hexadecimal output\<close>

definition FHE_SPACE_BREAK_MASK :: u32 where "FHE_SPACE_BREAK_MASK = 0xFF"
definition FHE_CAPS :: u32 where "FHE_CAPS = 0x100"

definition hex_digit :: "bool \<Rightarrow> u8 \<Rightarrow> u8" where
  "hex_digit caps d = (if d < 10 then 48 + d else if caps then 55 + d else 87 + d)"

text \<open>\<open>%02x\<close> and \<open>%02X\<close>.\<close>

definition hex_byte :: "bool \<Rightarrow> u8 \<Rightarrow> bytes" where
  "hex_byte caps w = [hex_digit caps (drop_bit 4 w), hex_digit caps (w AND 15)]"

fun format_hex_loop :: "nat \<Rightarrow> bytes option \<Rightarrow> bool \<Rightarrow> bytes \<Rightarrow> nat \<Rightarrow> buffer \<Rightarrow> buffer option" where
  "format_hex_loop blk sep caps [] i out = Some out"
| "format_hex_loop blk sep caps (w # ws) i out = do {
     out \<leftarrow> (case sep of
               Some s \<Rightarrow> (if i \<noteq> 0
                          then (if blk = 0 then None
                                else if i mod blk = 0 then Some (fst (buf_printf out s)) else Some out)
                          else Some out)
             | None \<Rightarrow> Some out);
     let out = fst (buf_printf out (hex_byte caps w));
     format_hex_loop blk sep caps ws (i + 1) out }"

definition format_hex_ex ::
    "(nat \<Rightarrow> u8) \<Rightarrow> bytes \<Rightarrow> int \<Rightarrow> u32 \<Rightarrow> bytes option \<Rightarrow> bytes option" where
  "format_hex_ex fresh dat maxoutput flags sep = do {
     let blk = unat (flags AND FHE_SPACE_BREAK_MASK);
     let sep_len = (case sep of Some s \<Rightarrow> length s | None \<Rightarrow> 0);
     out_len \<leftarrow> (if maxoutput > 0 then Some (nat maxoutput)
                 else if blk = 0 then None
                 else Some (length dat * 2 + length dat div blk * sep_len + 2));
     out \<leftarrow> alloc_buf_gc fresh out_len;
     out \<leftarrow> format_hex_loop blk sep (flags AND FHE_CAPS \<noteq> 0) dat 0 out;
     let out = buf_catrunc out [91, 109, 111, 114, 101, 46, 46, 46, 93];
     map_option c_string (b_data out) }"

subsection \<open>Appending text\<close>

lemma patch_single: "k < length xs \<Longrightarrow> patch xs k [v] = xs[k := v]"
  by (simp add: patch_def upd_conv_take_nth_drop)

lemma buf_poke_capacity: "b_capacity (buf_poke b p bs) = b_capacity b"
  by (simp add: buf_poke_def)

text \<open>The byte after the content is a NUL, so that the content reads as a C string.\<close>

definition nul_after :: "buffer \<Rightarrow> bool" where
  "nul_after b \<longleftrightarrow> buf_peek b (b_offset b + b_len b) 1 = [0]"

lemma alloc_buf_gc_nul:
  assumes "alloc_buf_gc fresh n = Some b" "0 < n"
  shows "nul_after b"
proof -
  have "map fresh [0..<n] = fresh 0 # map fresh [1..<n]"
    using assms(2) by (simp add: upt_conv_Cons)
  then show ?thesis
    using assms by (auto simp: alloc_buf_gc_def nul_after_def buf_peek_def segment_def Let_def
        split: if_splits)
qed

lemma buf_poke_text:
  assumes wf: "buf_wf b" and w: "int (length (t @ 0 # z)) \<le> buf_forward_capacity b" and t: "0 \<notin> set t"
  defines "b2 \<equiv> buf_poke (buf_poke b (b_offset b + b_len b) (t @ 0 # z)) (b_capacity b - 1) [0]"
  defines "b3 \<equiv> b2\<lparr>b_len := b_len b2 + buf_strlen b2 (b_offset b + b_len b)\<rparr>"
  shows "buf_wf b3 \<and> buf_content b3 = buf_content b @ t \<and> b_offset b3 = b_offset b
     \<and> b_capacity b3 = b_capacity b \<and> buf_forward_capacity b3 = buf_forward_capacity b - int (length t)
     \<and> nul_after b3"
proof -
  obtain d where d: "b_data b = Some d" "int (length d) = b_capacity b"
    "0 \<le> b_offset b" "0 \<le> b_len b" "b_offset b + b_len b \<le> b_capacity b"
    "b_capacity b < 1000000"
    using wf by (rule buf_wfE)
  define i where "i = nat (b_offset b) + nat (b_len b)"
  have i: "nat (b_offset b + b_len b) = i" using d by (simp add: i_def nat_add_distrib)
  have fit: "i + length (t @ 0 # z) \<le> length d"
    using w d wf by (simp add: buf_forward_capacity_eq i_def)
  define k where "k = length d - 1"
  have k: "nat (b_capacity b - 1) = k" "k < length d" "i + length t \<le> k"
    using d fit by (auto simp: k_def)
  define e where "e = (patch d i (t @ 0 # z))[k := 0]"
  have len: "length e = length d" using fit by (simp add: e_def)
  have b2: "b2 = b\<lparr>b_data := Some e\<rparr>"
    using d i k fit by (simp add: b2_def buf_poke_def e_def patch_single)
  have skip: "length t \<le> k - i" using k(3) by linarith
  have "drop i (patch d i (t @ 0 # z)) = t @ 0 # z @ drop (i + length (t @ 0 # z)) d"
    using fit by (simp add: patch_def)
  then have "drop i e = (t @ 0 # z @ drop (i + length (t @ 0 # z)) d)[k - i := 0]"
    using k by (simp add: e_def drop_update_swap)
  also have "\<dots> = t @ (0 # z @ drop (i + length (t @ 0 # z)) d)[k - i - length t := 0]"
    using skip by (simp add: list_update_append)
  also have "\<exists>r. \<dots> = t @ 0 # r" by (cases "k - i - length t") auto
  finally obtain r where r: "drop i e = t @ 0 # r" by blast
  have "take i e = take i d"
    using k fit by (simp add: e_def patch_def)
  then have pre: "segment (nat (b_offset b)) (nat (b_len b)) e = segment (nat (b_offset b)) (nat (b_len b)) d"
    by (simp add: segment_def i_def take_drop add.commute)
  have post: "segment i (length t) e = t" by (simp add: segment_def r)
  have "buf_strlen b2 (b_offset b + b_len b) = int (length t)"
    using i t r by (simp add: buf_strlen_def b2)
  then have b3: "b3 = b\<lparr>b_data := Some e, b_len := b_len b + int (length t)\<rparr>"
    by (simp add: b3_def b2)
  have wf3: "buf_wf b3"
    using d len fit i_def by (simp add: b3 buf_wf_def BUF_SIZE_MAX_def)
  have "buf_content b3 = segment (nat (b_offset b)) (nat (b_len b) + length t) e"
    using buf_content_eq [OF wf3, of e] d by (simp add: b3 nat_add_distrib)
  also have "\<dots> = buf_content b @ t"
    using buf_content_eq [OF wf d(1)] pre post by (simp add: segment_split i_def)
  finally have c: "buf_content b3 = buf_content b @ t" .
  have "nat (b_offset b + (b_len b + int (length t))) = i + length t"
    using d by (simp add: i_def nat_add_distrib)
  moreover have "drop (i + length t) e = 0 # r"
    using r by (metis add.commute append_eq_conv_conj drop_drop)
  ultimately have "nul_after b3" by (simp add: nul_after_def b3 buf_peek_def segment_def)
  then show ?thesis using wf wf3 c by (simp add: buf_forward_capacity_eq) (simp add: b3)
qed

lemma buf_printf_law:
  assumes wf: "buf_wf b" and fc: "0 < buf_forward_capacity b" and nul: "0 \<notin> set txt"
  obtains b' where "buf_printf b txt = (b', int (length txt) < buf_forward_capacity b)" "buf_wf b'"
    "buf_content b' = buf_content b @ take (nat (buf_forward_capacity b - 1)) txt"
    "b_offset b' = b_offset b" "b_capacity b' = b_capacity b"
    "buf_forward_capacity b' = buf_forward_capacity b
       - int (length (take (nat (buf_forward_capacity b - 1)) txt))" "nul_after b'"
proof -
  let ?t = "take (nat (buf_forward_capacity b - 1)) txt"
  have "int (length (?t @ 0 # [])) \<le> buf_forward_capacity b" "0 \<notin> set ?t"
    using fc nul by (auto dest: in_set_takeD)
  note law = buf_poke_text [OF wf this]
  have dat: "b_data b \<noteq> None" using wf by (auto elim: buf_wfE)
  show ?thesis
    by (rule that [OF _ law [THEN conjunct1]])
       (use law fc wf dat in \<open>simp_all add: buf_printf_def buf_defined_def buf_bend_def Let_def
          buf_poke_capacity\<close>)
qed

lemma buf_printf_fits:
  assumes "buf_wf b" "int (length txt) < buf_forward_capacity b" "0 \<notin> set txt"
  obtains b' where "buf_printf b txt = (b', True)" "buf_wf b'" "buf_content b' = buf_content b @ txt"
    "b_offset b' = b_offset b" "b_capacity b' = b_capacity b"
    "buf_forward_capacity b' = buf_forward_capacity b - int (length txt)" "nul_after b'"
  using buf_printf_law [OF assms(1) _ assms(3)] assms(2) by force

lemma buf_puts_law:
  assumes wf: "buf_wf b" and fc: "0 < buf_forward_capacity b" and nul: "0 \<notin> set txt"
  obtains b' where "buf_puts b txt = (b', True)" "buf_wf b'"
    "buf_content b' = buf_content b @ take (nat (buf_forward_capacity b - 1)) txt"
proof -
  let ?cap = "nat (buf_forward_capacity b)"
  let ?t = "take (?cap - 1) txt" and ?z = "replicate (?cap - 1 - length txt) (0 :: u8)"
  have "strncpynt txt ?cap = ?t @ ?z @ [0]"
    using fc by (simp add: strncpynt_def)
  also have "?z @ [0] = 0 # ?z" by (simp add: replicate_append_same)
  finally have w: "strncpynt txt ?cap = ?t @ 0 # ?z" .
  have "int (length (?t @ 0 # ?z)) \<le> buf_forward_capacity b" "0 \<notin> set ?t"
    using fc nul by (auto dest: in_set_takeD)
  note law = buf_poke_text [OF wf this]
  show ?thesis
    by (rule that [OF _ law [THEN conjunct1]])
       (use law fc wf w in \<open>simp_all add: buf_puts_def buf_bend_def Let_def buf_poke_capacity
          nat_diff_distrib\<close>)
qed

text \<open>
  Formatted text.  \<open>buf_printf\<close> on a buffer with free space appends the text cut to the
  space less one octet for the terminator, keeps what was there, stays inside the
  block, and reports whether the text fitted.
\<close>

theorem buf_printf_appends:
  assumes "buf_wf b" "0 < buf_forward_capacity b" "0 \<notin> set txt"
  shows "case buf_printf b txt of (b', ok) \<Rightarrow> buf_wf b'
     \<and> buf_content b' = buf_content b @ take (nat (buf_forward_capacity b - 1)) txt
     \<and> ok = (int (length txt) < buf_forward_capacity b)"
  by (rule buf_printf_law [OF assms]) simp

theorem buf_printf_appends_witness:
  "buf_content (fst (buf_printf (the (alloc_buf 4)) [104, 101, 108, 108, 111])) = [104, 101, 108]"
proof -
  have "buf_wf (the (alloc_buf 4))" "buf_forward_capacity (the (alloc_buf 4)) = 4"
    "buf_content (the (alloc_buf 4)) = []"
    using alloc_buf_law [of 4] by (auto simp: BUF_SIZE_MAX_def)
  then show ?thesis
    using buf_printf_appends [of "the (alloc_buf 4)" "[104, 101, 108, 108, 111]"]
    by (simp add: split_beta)
qed

subsection \<open>Trimming\<close>

lemma buf_at_last:
  assumes wf: "buf_wf b" and ne: "buf_content b \<noteq> []"
  shows "buf_blast b = Some (b_offset b + b_len b - 1) \<and> buf_at b (b_offset b + b_len b - 1) = last (buf_content b)"
proof -
  obtain d where d: "b_data b = Some d" "int (length d) = b_capacity b"
    "0 \<le> b_offset b" "0 \<le> b_len b" "b_offset b + b_len b \<le> b_capacity b"
    using wf by (auto elim: buf_wfE)
  have pos: "0 < b_len b" using b_len_0_iff [OF wf] ne d(4) by auto
  define i n where "i = nat (b_offset b)" and "n = nat (b_len b)"
  have idx: "nat (b_offset b + b_len b - 1) = i + (n - 1)" "i + n \<le> length d" "0 < n"
    using d pos by (auto simp: i_def n_def)
  have "last (buf_content b) = d ! (i + (n - 1))"
    using buf_content_eq [OF wf d(1)] idx ne
    by (simp add: last_conv_nth i_def [symmetric] n_def [symmetric] segment_nth)
  moreover have "buf_at b (b_offset b + b_len b - 1) = d ! (i + (n - 1))"
    using idx d(1) by (simp add: buf_at_def buf_peek_def segment_def hd_drop_conv_nth take_Suc_conv_app_nth)
  ultimately show ?thesis using wf pos by (simp add: buf_blast_def)
qed

lemma buf_blast_empty: "buf_wf b \<Longrightarrow> buf_content b = [] \<Longrightarrow> buf_blast b = None"
  using b_len_0_iff [of b] by (simp add: buf_blast_def)

lemma buf_drop_last:
  assumes wf: "buf_wf b" and ne: "buf_content b \<noteq> []"
  obtains b' where "buf_inc_len b (- 1) = (b', True)" "buf_wf b'" "buf_content b' = butlast (buf_content b)"
    "buf_forward_capacity b' = buf_forward_capacity b + 1" "b_offset b' = b_offset b"
    "b_capacity b' = b_capacity b"
proof -
  have "0 \<le> b_len b" using wf by (auto elim: buf_wfE)
  then have pos: "1 \<le> b_len b" using b_len_0_iff [OF wf] ne by linarith
  have fc: "0 \<le> buf_forward_capacity b" using wf by (auto simp: buf_forward_capacity_eq elim: buf_wfE)
  let ?b = "b\<lparr>b_len := b_len b - 1\<rparr>"
  have i: "buf_inc_len b (- 1) = (?b, True)" "buf_wf ?b"
    using buf_inc_len_law [OF wf, of "- 1"] pos fc by auto
  have c: "buf_content ?b = butlast (buf_content b)"
    using buf_content_shrink [OF wf, of "b_len b - 1"] pos length_buf_content_nat [OF wf]
    by (simp add: butlast_conv_take nat_diff_distrib)
  show ?thesis
    by (rule that [OF i c]) (use wf i(2) in \<open>simp_all add: buf_forward_capacity_eq\<close>)
qed

definition rtrim :: "(u8 \<Rightarrow> bool) \<Rightarrow> bytes \<Rightarrow> bytes" where
  "rtrim P xs = rev (dropWhile P (rev xs))"

lemma rtrim_Nil [simp]: "rtrim P [] = []"
  by (simp add: rtrim_def)

lemma rtrim_step: "xs \<noteq> [] \<Longrightarrow> rtrim P xs = (if P (last xs) then rtrim P (butlast xs) else xs)"
  by (cases xs rule: rev_cases) (auto simp: rtrim_def)

abbreviation "crlf_nul \<equiv> (\<lambda>c. char_class c (CC_CRLF OR CC_NULL))"

lemma crlf_nul_iff: "crlf_nul c \<longleftrightarrow> c = 13 \<or> c = 10 \<or> c = 0"
  by (auto simp: char_class_def cc_defs)

lemma buf_chomp_loop_law:
  assumes "buf_wf b"
  shows "buf_wf (buf_chomp_loop b) \<and> buf_content (buf_chomp_loop b) = rtrim crlf_nul (buf_content b)
    \<and> buf_forward_capacity (buf_chomp_loop b) = buf_forward_capacity b
        + int (length (buf_content b) - length (rtrim crlf_nul (buf_content b)))"
  using assms
proof (induction "length (buf_content b)" arbitrary: b)
  case 0
  then show ?case by (subst (1 2 3) buf_chomp_loop.simps) (simp add: buf_blast_empty)
next
  case (Suc n)
  have ne: "buf_content b \<noteq> []" using Suc.hyps(2) by auto
  note l = buf_at_last [OF Suc.prems ne]
  show ?case
  proof (cases "crlf_nul (last (buf_content b))")
    case False
    then have "buf_chomp_loop b = b" using l by (subst buf_chomp_loop.simps) simp
    then show ?thesis using False Suc.prems by (simp add: rtrim_step [OF ne])
  next
    case True
    obtain b' where b': "buf_inc_len b (- 1) = (b', True)" "buf_wf b'"
      "buf_content b' = butlast (buf_content b)" "buf_forward_capacity b' = buf_forward_capacity b + 1"
      using buf_drop_last [OF Suc.prems ne] by metis
    have step: "buf_chomp_loop b = buf_chomp_loop b'"
      using l True b'(1) by (subst buf_chomp_loop.simps) simp
    have len: "length (buf_content b') = n" using Suc.hyps(2) b'(3) by simp
    have le: "length (rtrim crlf_nul (butlast (buf_content b))) \<le> n"
      using len b'(3) length_dropWhile_le [of crlf_nul "rev (butlast (buf_content b))"]
      by (simp add: rtrim_def)
    show ?thesis
      using Suc.hyps(1) [OF len [symmetric] b'(2)] step b'(3,4) True le Suc.hyps(2) [symmetric] len
      by (simp add: rtrim_step [OF ne] Suc_diff_le)
  qed
qed

lemma buf_null_terminate_law:
  assumes wf: "buf_wf b"
  shows "buf_wf (buf_null_terminate b) \<and> buf_content (buf_null_terminate b) =
    (let c = buf_content b in
     if c \<noteq> [] \<and> last c = 0 then c
     else if 0 < buf_forward_capacity b then c @ [0]
     else if c = [] then [] else butlast c @ [0])"
proof -
  let ?b1 = "if \<not> buf_safe b 1 then fst (buf_inc_len b (- 1)) else b"
  have fc: "0 \<le> buf_forward_capacity b" using wf by (auto simp: buf_forward_capacity_eq elim: buf_wfE)
  have safe: "buf_safe b 1 \<longleftrightarrow> 0 < buf_forward_capacity b" using buf_safe_iff [OF wf, of 1] by auto
  have w: "buf_wf (fst (buf_write_u8 ?b1 0)) \<and> buf_content (fst (buf_write_u8 ?b1 0)) =
      (if 0 < buf_forward_capacity b then buf_content b @ [0]
       else if buf_content b = [] then [] else butlast (buf_content b) @ [0])"
  proof (cases "0 < buf_forward_capacity b")
    case True
    then show ?thesis
      using safe buf_write_law [OF wf, of "[0]"] by (fastforce simp: buf_write_u8_def)
  next
    case False
    show ?thesis
    proof (cases "buf_content b = []")
      case True
      then have "buf_inc_len b (- 1) = (b, False)"
        using b_len_0_iff [OF wf] by (simp add: buf_inc_len_def buf_safe_bidir_def)
      then show ?thesis
        using True False wf safe buf_write_full [OF wf, of "[0]"] fc by (simp add: buf_write_u8_def)
    next
      case ne: False
      obtain b' where b': "buf_inc_len b (- 1) = (b', True)" "buf_wf b'"
        "buf_content b' = butlast (buf_content b)" "buf_forward_capacity b' = buf_forward_capacity b + 1"
        using buf_drop_last [OF wf ne] by metis
      have "int (length [0 :: u8]) \<le> buf_forward_capacity b'" using b'(4) fc by simp
      from buf_write_law [OF b'(2) this] show ?thesis
        using False ne safe b' by (fastforce simp: buf_write_u8_def)
    qed
  qed
  show ?thesis
  proof (cases "buf_content b = []")
    case True
    then show ?thesis using w wf by (simp add: buf_null_terminate_def buf_blast_empty Let_def)
  next
    case False
    then show ?thesis using w wf buf_at_last [OF wf False] by (simp add: buf_null_terminate_def Let_def)
  qed
qed

text \<open>
  Chomping.  \<open>buf_chomp\<close> removes the trailing CR, LF and NUL characters and
  terminates the rest with one NUL; only when nothing was removed and the block is
  full does the terminator replace the last character.
\<close>

theorem buf_chomp_spec:
  assumes wf: "buf_wf b"
  shows "buf_wf (buf_chomp b) \<and> buf_content (buf_chomp b) =
     (let r = rtrim (\<lambda>c. c = 13 \<or> c = 10 \<or> c = 0) (buf_content b)
      in if r = buf_content b \<and> buf_forward_capacity b = 0
         then (if r = [] then [] else butlast r @ [0]) else r @ [0])"
proof -
  define r where "r = rtrim crlf_nul (buf_content b)"
  have r': "r = rtrim (\<lambda>c. c = 13 \<or> c = 10 \<or> c = 0) (buf_content b)"
    by (simp add: r_def crlf_nul_iff)
  note l = buf_chomp_loop_law [OF wf, folded r_def]
  have fc: "0 \<le> buf_forward_capacity b" using wf by (auto simp: buf_forward_capacity_eq elim: buf_wfE)
  have last: "r \<noteq> [] \<Longrightarrow> last r \<noteq> 0"
    using hd_dropWhile [of crlf_nul "rev (buf_content b)"]
    by (auto simp: r_def rtrim_def last_rev crlf_nul_iff)
  have len: "length r \<le> length (buf_content b)"
    using length_dropWhile_le [of crlf_nul "rev (buf_content b)"] by (simp add: r_def rtrim_def)
  have "\<exists>t. buf_content b = r @ t"
    using takeWhile_dropWhile_id [of crlf_nul "rev (buf_content b)"]
    by (metis r_def rtrim_def rev_append rev_rev_ident)
  then have same: "length r = length (buf_content b) \<Longrightarrow> r = buf_content b" by auto
  then have "0 < buf_forward_capacity (buf_chomp_loop b) \<longleftrightarrow> \<not> (r = buf_content b \<and> buf_forward_capacity b = 0)"
  proof (cases "r = buf_content b")
    case False
    then have "length r < length (buf_content b)" using same len le_neq_implies_less by blast
    then show ?thesis using l fc False by simp
  qed (use l fc in auto)
  then show ?thesis
    using buf_null_terminate_law [of "buf_chomp_loop b"] l last
    by (auto simp: buf_chomp_def r' [symmetric] Let_def)
qed

theorem buf_chomp_spec_witness:
  "buf_content (buf_chomp \<lparr>b_capacity = 4, b_offset = 0, b_len = 4, b_data = Some [97, 98, 13, 10]\<rparr>) = [97, 98, 0]"
proof -
  let ?b = "\<lparr>b_capacity = 4, b_offset = 0, b_len = 4, b_data = Some [97, 98, 13, 10]\<rparr>"
  have wf: "buf_wf ?b" by (simp add: buf_wf_def BUF_SIZE_MAX_def)
  have "buf_content ?b = [97, 98, 13, 10]" by code_simp
  then show ?thesis using buf_chomp_spec [OF wf] by (simp add: rtrim_def)
qed

subsection \<open>Sanitising\<close>

lemma string_mod_loop_class:
  "string_mod_loop s inc exc r = (out, ret) \<Longrightarrow>
     ret = string_class_loop s inc exc \<and> length out \<le> length s \<and>
     (\<forall>c \<in> set out. char_inc_exc c inc exc \<or> c = r) \<and> 0 \<notin> set out"
  by (induction s arbitrary: out ret) (auto simp: Let_def split: prod.splits if_splits)

lemma string_mod_loop_same:
  "string_class_loop s inc exc \<Longrightarrow> 0 \<notin> set s \<Longrightarrow> string_mod_loop s inc exc r = (s, True)"
  by (induction s) (auto split: if_splits)

lemma string_class_loop_all:
  "string_class_loop s inc exc = (\<forall>c \<in> set s. char_inc_exc c inc exc)"
  by (induction s) auto

text \<open>
  Sanitising.  \<open>string_mod\<close> never lengthens a string; its result holds only characters of
  the allowed classes and the replacement; it returns true exactly on strings that
  \<open>string_class\<close> accepts, which it leaves unchanged; and when the replacement is NUL
  (meaning: delete) or itself allowed, \<open>string_class\<close> accepts what it produced.
\<close>

theorem string_mod_sanitises:
  assumes "0 \<notin> set s"
  shows "case string_mod (Some s) inc exc r of None \<Rightarrow> False
     | Some (out, ret) \<Rightarrow>
         length out \<le> length s \<and> (\<forall>c \<in> set out. char_inc_exc c inc exc \<or> c = r)
         \<and> string_class (Some s) inc exc = Some ret \<and> (ret \<longrightarrow> out = s)
         \<and> (r = 0 \<or> char_inc_exc r inc exc \<longrightarrow> string_class (Some out) inc exc = Some True)"
proof -
  obtain out ret where m: "string_mod_loop s inc exc r = (out, ret)" by fastforce
  have "ret \<longrightarrow> out = s"
    using string_mod_loop_class [OF m] string_mod_loop_same [of s inc exc r] assms m by auto
  then show ?thesis
    using string_mod_loop_class [OF m] m
    by (auto simp: string_mod_def string_class_def string_class_loop_all)
qed

theorem string_mod_sanitises_witness:
  "string_mod (Some [97, 59, 98]) CC_ALNUM 0 95 = Some ([97, 95, 98], False)
   \<and> string_class (Some [97, 59, 98]) CC_ALNUM 0 = Some False"
proof -
  have m: "string_mod (Some [97, 59, 98]) CC_ALNUM 0 95 = Some ([97, 95, 98], False)" by code_simp
  then show ?thesis using string_mod_sanitises [of "[97, 59, 98]" CC_ALNUM 0 95] by simp
qed

subsection \<open>Parsing lines\<close>

lemma buf_parse_loop_line:
  assumes "buf_wf b" "buf_content b = s @ rest" "\<forall>c \<in> set s. c \<noteq> 0 \<and> uint c \<noteq> delim"
    "rest = [] \<or> hd rest = 0 \<or> uint (hd rest) = delim" "0 \<le> n" "n + int (length s) < sz"
    "sz \<le> int (length line)"
  shows "\<exists>b'. buf_parse_loop delim sz b line n eol =
           (b', take (nat n) line @ s @ 0 # drop (nat n + length s + 1) line, eol \<or> rest = [])
         \<and> buf_wf b' \<and> buf_content b' = tl rest"
  using assms
proof (induction s arbitrary: b n line eol)
  case Nil
  have upd: "line[nat n := 0] = take (nat n) line @ 0 # drop (Suc (nat n)) line"
    using Nil by (simp add: upd_conv_take_nth_drop)
  show ?case
  proof (cases rest)
    case Nil': Nil
    then have "buf_read_u8 b = (b, - 1)" using Nil.prems by (simp add: buf_read_u8_empty)
    then show ?thesis
      using Nil.prems Nil' upd by (subst (1) buf_parse_loop.simps) (auto simp: Let_def)
  next
    case (Cons x xs)
    obtain b' where b': "buf_read_u8 b = (b', uint x)" "buf_wf b'" "buf_content b' = xs"
      using buf_read_u8_law [of b x xs] Nil.prems Cons by auto
    moreover have "uint x = 0 \<or> uint x = delim"
      using Nil.prems(4) Cons by auto
    ultimately show ?thesis
      using Nil.prems Cons upd by (subst (1) buf_parse_loop.simps) (auto simp: Let_def not_le)
  qed
next
  case (Cons x s)
  obtain b' where b': "buf_read_u8 b = (b', uint x)" "buf_wf b'" "buf_content b' = s @ rest"
    using buf_read_u8_law [of b x "s @ rest"] Cons.prems by auto
  let ?l = "line[nat n := x]"
  have "uint x > 0" "uint x \<noteq> delim"
    using Cons.prems(3) by (auto simp: less_le unsigned_eq_0_iff)
  then have step: "buf_parse_loop delim sz b line n eol = buf_parse_loop delim sz b' ?l (n + 1) eol"
    using b'(1) Cons.prems by (subst buf_parse_loop.simps) (auto simp: Let_def)
  have n: "nat (n + 1) = Suc (nat n)" "nat n < length line" using Cons.prems by auto
  have "\<exists>b''. buf_parse_loop delim sz b' ?l (n + 1) eol =
      (b'', take (nat (n + 1)) ?l @ s @ 0 # drop (nat (n + 1) + length s + 1) ?l, eol \<or> rest = [])
      \<and> buf_wf b'' \<and> buf_content b'' = tl rest"
    by (rule Cons.IH) (use Cons.prems b' in auto)
  moreover have "take (nat (n + 1)) ?l @ s @ 0 # drop (nat (n + 1) + length s + 1) ?l
      = take (nat n) line @ (x # s) @ 0 # drop (nat n + length (x # s) + 1) line"
    using n by (simp add: take_Suc_conv_app_nth)
  ultimately show ?case using step by simp
qed

text \<open>
  Line parsing.  On input that starts with a line shorter than the output array and
  ends it with the delimiter, a NUL or the end of the buffer, \<open>buf_parse\<close> stores exactly
  that line, terminated, and leaves the buffer at the next line; it reports the end
  only for an empty rest.
\<close>

theorem buf_parse_line:
  assumes "buf_wf b" "buf_content b = s @ rest" "\<forall>c \<in> set s. c \<noteq> 0 \<and> uint c \<noteq> delim"
    "rest = [] \<or> hd rest = 0 \<or> uint (hd rest) = delim" "int (length s) < sz"
    "sz = int (length line)"
  shows "\<exists>b' line'. buf_parse b delim line sz = Some (b', line', \<not> (rest = [] \<and> s = []))
     \<and> c_string line' = s \<and> buf_wf b' \<and> buf_content b' = tl rest"
proof -
  obtain b' where b': "buf_parse_loop delim sz b line 0 False = (b', s @ 0 # drop (length s + 1) line, rest = [])"
    "buf_wf b'" "buf_content b' = tl rest"
    using buf_parse_loop_line [OF assms(1-4), of 0 sz line False] assms(5,6) by auto
  let ?l = "s @ 0 # drop (length s + 1) line"
  have nul: "0 \<notin> set s" using assms(3) by auto
  have "\<exists>t. ?l[nat (sz - 1) := 0] = s @ 0 # t"
  proof -
    have "length s \<le> nat (sz - 1)" using assms(5) by linarith
    then have "?l[nat (sz - 1) := 0] = s @ (0 # drop (length s + 1) line)[nat (sz - 1) - length s := 0]"
      by (simp add: list_update_append)
    then show ?thesis by (cases "nat (sz - 1) - length s") auto
  qed
  then obtain t where t: "?l[nat (sz - 1) := 0] = s @ 0 # t" by blast
  have "strlen (s @ 0 # t) = length s" using nul by simp
  then have "buf_parse b delim line sz = Some (b', s @ 0 # t, \<not> (rest = [] \<and> s = []))"
    using b'(1) t assms(5,6) by (auto simp: buf_parse_def)
  then show ?thesis using b' nul by auto
qed

theorem buf_parse_line_witness:
  "\<exists>b' line'. buf_parse \<lparr>b_capacity = 5, b_offset = 0, b_len = 5, b_data = Some [97, 98, 44, 99, 100]\<rparr> 44
       (replicate 8 0) 8 = Some (b', line', True) \<and> c_string line' = [97, 98] \<and> buf_wf b'
       \<and> buf_content b' = [99, 100]"
proof -
  let ?b = "\<lparr>b_capacity = 5, b_offset = 0, b_len = 5, b_data = Some [97, 98, 44, 99, 100]\<rparr>"
  have wf: "buf_wf ?b" by (simp add: buf_wf_def BUF_SIZE_MAX_def)
  have c: "buf_content ?b = [97, 98] @ [44, 99, 100]" by code_simp
  have "\<exists>b' line'. buf_parse ?b 44 (replicate 8 0) 8
      = Some (b', line', \<not> ([44, 99, 100 :: u8] = [] \<and> [97, 98 :: u8] = []))
     \<and> c_string line' = [97, 98] \<and> buf_wf b' \<and> buf_content b' = tl [44, 99, 100]"
    by (rule buf_parse_line [OF wf c]) simp_all
  then show ?thesis by simp
qed

subsection \<open>Hexadecimal round trip\<close>

definition unhex_digit :: "u8 \<Rightarrow> u8" where
  "unhex_digit c = (if c < 58 then c - 48 else if c < 97 then c - 55 else c - 87)"

fun unhex :: "bytes \<Rightarrow> bytes" where
  "unhex (h # l # rest) = (push_bit 4 (unhex_digit h) OR unhex_digit l) # unhex rest"
| "unhex _ = []"

lemma unhex_hex_digit: "d < 16 \<Longrightarrow> unhex_digit (hex_digit caps d) = d"
proof -
  assume "d < 16"
  then have "unat d < 16" by (simp add: word_less_nat_alt)
  then have "unat d \<in> set [0..<16]" by simp
  then have "d \<in> set (map of_nat [0..<16])"
    by (auto intro!: image_eqI [of _ _ "unat d"])
  moreover have "list_all (\<lambda>d. unhex_digit (hex_digit True d) = d) (map of_nat [0..<16])"
    and "list_all (\<lambda>d. unhex_digit (hex_digit False d) = d) (map of_nat [0..<16])"
    by code_simp+
  ultimately show ?thesis unfolding list_all_iff by (cases caps; auto simp del: set_map)
qed

lemma nibbles:
  "drop_bit 4 (w :: u8) < 16" "w AND 15 < (16 :: u8)" "push_bit 4 (drop_bit 4 w) OR (w AND 15) = w"
proof -
  have 15: "(15 :: u8) = mask 4" by (simp add: mask_eq_exp_minus_1)
  show "w AND 15 < (16 :: u8)"
    unfolding 15 using and_mask_less' [of 4 w] by simp
  have "drop_bit 4 w = drop_bit 4 w AND mask 4"
  proof (rule bit_word_eqI)
    fix n show "bit (drop_bit 4 w) n = bit (drop_bit 4 w AND mask 4) n"
      by (cases "n < 4") (auto simp: bit_simps)
  qed
  then show "drop_bit 4 w < 16" using and_mask_less' [of 4 "drop_bit 4 w"] by simp
  show "push_bit 4 (drop_bit 4 w) OR (w AND 15) = w"
    unfolding 15 by (intro bit_word_eqI) (auto simp: bit_simps)
qed

lemma unhex_concat: "unhex (concat (map (hex_byte caps) ws)) = ws"
  by (induction ws) (simp_all add: hex_byte_def unhex_hex_digit nibbles)

text \<open>The text the loop prints from index \<open>i\<close> on.\<close>

fun hex_text :: "nat \<Rightarrow> bytes option \<Rightarrow> bool \<Rightarrow> bytes \<Rightarrow> nat \<Rightarrow> bytes" where
  "hex_text blk sep caps [] i = []"
| "hex_text blk sep caps (w # ws) i =
     (if i \<noteq> 0 \<and> i mod blk = 0 then (case sep of Some s \<Rightarrow> s | None \<Rightarrow> []) else [])
     @ hex_byte caps w @ hex_text blk sep caps ws (i + 1)"

lemma hex_byte_no_nul: "0 \<notin> set (hex_byte caps w)"
proof -
  have "hex_digit caps d \<noteq> 0" if "d < 16" for d :: u8
    using unhex_hex_digit [OF that, of caps] that by (auto simp: unhex_digit_def)
  then show ?thesis by (simp add: hex_byte_def nibbles)
qed

lemma length_hex_byte [simp]: "length (hex_byte caps w) = 2"
  by (simp add: hex_byte_def)

lemma hex_text_no_nul:
  assumes "0 \<notin> set (case sep of Some s \<Rightarrow> s | None \<Rightarrow> [])"
  shows "0 \<notin> set (hex_text blk sep caps ws i)"
proof (induction ws arbitrary: i)
  case Nil
  show ?case by simp
next
  case (Cons w ws)
  note no_nul = Cons [of "i + 1"] hex_byte_no_nul [of caps w] assms
  show ?case
  proof (cases "i \<noteq> 0 \<and> i mod blk = 0")
    case True
    then show ?thesis unfolding hex_text.simps set_append Un_iff if_P [OF True] using no_nul by blast
  next
    case False
    then show ?thesis unfolding hex_text.simps set_append Un_iff if_not_P [OF False] using no_nul
      by (metis append_Nil empty_iff empty_set)
  qed
qed

lemma length_hex_text_Suc:
  assumes "0 < blk"
  shows "length (hex_text blk sep caps ws (Suc m)) + m div blk * length (case sep of Some s \<Rightarrow> s | None \<Rightarrow> [])
    = 2 * length ws + (m + length ws) div blk * length (case sep of Some s \<Rightarrow> s | None \<Rightarrow> [])"
proof (induction ws arbitrary: m)
  case (Cons w ws)
  show ?case using Cons [of "Suc m"] by (auto simp: div_Suc algebra_simps)
qed simp

lemma length_hex_text:
  assumes "0 < blk"
  shows "length (hex_text blk sep caps ws 0)
    \<le> 2 * length ws + length ws div blk * length (case sep of Some s \<Rightarrow> s | None \<Rightarrow> [])"
proof (cases ws)
  case (Cons w ws')
  have "length ws' div blk \<le> length ws div blk" by (simp add: Cons div_le_mono)
  then have "length ws' div blk * n \<le> length ws div blk * n" for n by simp
  then show ?thesis
    using length_hex_text_Suc [OF assms, of sep caps ws' 0] by (simp add: Cons)
qed simp

lemma format_hex_loop_law:
  assumes "buf_wf out" "nul_after out" "0 < blk" "0 \<notin> set (case sep of Some s \<Rightarrow> s | None \<Rightarrow> [])"
    "int (length (hex_text blk sep caps ws i)) < buf_forward_capacity out"
  shows "\<exists>out'. format_hex_loop blk sep caps ws i out = Some out' \<and> buf_wf out' \<and> nul_after out'
    \<and> buf_content out' = buf_content out @ hex_text blk sep caps ws i \<and> b_offset out' = b_offset out
    \<and> buf_forward_capacity out' = buf_forward_capacity out - int (length (hex_text blk sep caps ws i))"
  using assms
proof (induction ws arbitrary: i out)
  case (Cons w ws)
  let ?sp = "if i \<noteq> 0 \<and> i mod blk = 0 then (case sep of Some s \<Rightarrow> s | None \<Rightarrow> []) else []"
  obtain o1 where o1: "(case sep of
               Some s \<Rightarrow> (if i \<noteq> 0
                          then (if blk = 0 then None
                                else if i mod blk = 0 then Some (fst (buf_printf out s)) else Some out)
                          else Some out)
             | None \<Rightarrow> Some out) = Some o1" "buf_wf o1" "buf_content o1 = buf_content out @ ?sp"
    "b_offset o1 = b_offset out" "buf_forward_capacity o1 = buf_forward_capacity out - int (length ?sp)"
  proof (cases "i \<noteq> 0 \<and> i mod blk = 0 \<and> sep \<noteq> None")
    case True
    then obtain s where s: "sep = Some s" by auto
    have "int (length s) < buf_forward_capacity out" using Cons.prems(5) True s by simp
    from buf_printf_fits [OF Cons.prems(1) this] Cons.prems(4) s
    obtain b' where "buf_printf out s = (b', True)" "buf_wf b'" "buf_content b' = buf_content out @ s"
      "b_offset b' = b_offset out" "buf_forward_capacity b' = buf_forward_capacity out - int (length s)"
      by auto
    then show ?thesis using that True s Cons.prems(3) by simp
  next
    case False
    then show ?thesis using that [of out] Cons.prems by (auto split: option.splits)
  qed
  have "int (length (hex_byte caps w)) < buf_forward_capacity o1"
    using Cons.prems(5) o1(5) by simp
  from buf_printf_fits [OF o1(2) this hex_byte_no_nul]
  obtain o2 where o2: "buf_printf o1 (hex_byte caps w) = (o2, True)" "buf_wf o2" "nul_after o2"
    "buf_content o2 = buf_content o1 @ hex_byte caps w" "b_offset o2 = b_offset o1"
    "buf_forward_capacity o2 = buf_forward_capacity o1 - 2"
    by auto
  have "int (length (hex_text blk sep caps ws (i + 1))) < buf_forward_capacity o2"
    using Cons.prems(5) o1(5) o2(6) by simp
  from Cons.IH [OF o2(2,3) Cons.prems(3,4) this] show ?case
    using o1 o2 by auto
qed simp

lemma c_string_content:
  assumes "buf_wf b" "nul_after b" "b_offset b = 0" "0 \<notin> set (buf_content b)" "b_data b = Some d"
  shows "c_string d = buf_content b"
proof -
  have n: "0 \<le> b_len b" using assms(1) by (auto elim: buf_wfE)
  have c: "buf_content b = take (nat (b_len b)) d"
    using buf_content_eq [OF assms(1,5)] assms(3) by (simp add: segment_def)
  have "take 1 (drop (nat (b_len b)) d) = [0]"
    using assms(2,3,5) by (simp add: nul_after_def buf_peek_def segment_def)
  then obtain r where "drop (nat (b_len b)) d = 0 # r"
    by (cases "drop (nat (b_len b)) d") auto
  then have "d = buf_content b @ 0 # r" using c by (metis append_take_drop_id)
  then show ?thesis using assms(4) by (metis c_string_no_nul)
qed

text \<open>
  Hexadecimal output.  Asked to size the output itself, \<open>format_hex_ex\<close> allocates enough for
  every octet and separator: the result is the complete text, never the \<open>[more...]\<close>
  truncation, and without a separator its digits decode to the input.
\<close>

theorem format_hex_complete:
  assumes "maxoutput \<le> 0" "blk = unat (flags AND FHE_SPACE_BREAK_MASK)" "0 < blk"
    and "0 \<notin> set (case sep of Some s \<Rightarrow> s | None \<Rightarrow> [])"
    and "2 * length ws + length ws div blk * length (case sep of Some s \<Rightarrow> s | None \<Rightarrow> []) + 2 < 1000000"
  shows "format_hex_ex fresh ws maxoutput flags sep = Some (hex_text blk sep (flags AND FHE_CAPS \<noteq> 0) ws 0)
     \<and> (sep = None \<longrightarrow> map_option unhex (format_hex_ex fresh ws maxoutput flags sep) = Some ws)"
proof -
  let ?sl = "length (case sep of Some s \<Rightarrow> s | None \<Rightarrow> [])"
  let ?n = "length ws * 2 + length ws div blk * ?sl + 2" and ?caps = "flags AND FHE_CAPS \<noteq> 0"
  let ?t = "hex_text blk sep ?caps ws 0"
  have sl: "(case sep of None \<Rightarrow> 0 | Some s \<Rightarrow> length s) = ?sl" by (cases sep) auto
  obtain b where b: "alloc_buf_gc fresh ?n = Some b" "buf_wf b" "buf_content b = []" "b_offset b = 0"
    "b_capacity b = int ?n" "buf_forward_capacity b = int ?n"
  proof -
    have "int ?n < BUF_SIZE_MAX" using assms(5) unfolding BUF_SIZE_MAX_def by linarith
    from alloc_buf_gc_law [OF this, of fresh] show ?thesis using that by metis
  qed
  have "nul_after b"
    using alloc_buf_gc_nul [OF b(1)] by simp
  moreover have fit: "int (length ?t) + 2 \<le> buf_forward_capacity b"
    using length_hex_text [OF assms(3), of sep ?caps ws] b(6) by linarith
  ultimately obtain out where out: "format_hex_loop blk sep ?caps ws 0 b = Some out" "buf_wf out"
    "nul_after out" "buf_content out = ?t" "b_offset out = 0"
    "buf_forward_capacity out = buf_forward_capacity b - int (length ?t)"
    using format_hex_loop_law [OF b(2) _ assms(3,4), of ?caps ws 0] b(3,4) by auto
  have trunc: "buf_catrunc out s = out" for s
    using out(6) fit by (simp add: buf_catrunc_def)
  obtain d where d: "b_data out = Some d" using out(2) by (auto elim: buf_wfE)
  have "c_string d = ?t"
    using c_string_content [OF out(2,3,5) _ d] out(4) hex_text_no_nul [OF assms(4)] by simp
  then have "format_hex_ex fresh ws maxoutput flags sep = Some ?t"
    using assms(1,3) b(1) out(1) trunc d sl assms(2)
    by (simp add: format_hex_ex_def Let_def)
  moreover have "sep = None \<Longrightarrow> hex_text blk sep caps us i = concat (map (hex_byte caps) us)" for caps us i
    by (induction us arbitrary: i) auto
  ultimately show ?thesis by (auto simp: unhex_concat)
qed

theorem format_hex_complete_witness:
  "format_hex_ex (\<lambda>_. 7) [0xAB, 0x01] 0 (1 OR FHE_CAPS) (Some [58]) = Some [65, 66, 58, 48, 49]"
proof -
  have b: "1 = unat ((1 OR FHE_CAPS) AND FHE_SPACE_BREAK_MASK)" by code_simp
  have c: "((1 OR FHE_CAPS) AND FHE_CAPS \<noteq> 0) = True" by code_simp
  have t: "hex_text 1 (Some [58]) True [0xAB, 0x01] 0 = [65, 66, 58, 48, 49]" by code_simp
  show ?thesis
    using format_hex_complete [OF _ b, of 0 "Some [58]" "[0xAB, 0x01]" "\<lambda>_. 7"] c t by simp
qed

end
