(* ===== verification/Buffer_List.thy ===== *)
theory Buffer_List
  imports Buffer_Text
begin

text \<open>
  Two containers of src/openvpn/buffer.c: the list of buffers that management
  output and control messages queue in, and the arena that owns dynamically
  allocated memory.

  The linked list of \<open>buffer_entry\<close> nodes is the list of its buffers from \<open>head\<close>
  on; \<open>head\<close> and \<open>tail\<close> are NULL exactly when it is empty.
\<close>

subsection \<open>Queues in general\<close>

text \<open>
  The interface of a first-in first-out queue: what was pushed comes out in
  the order it went in.
\<close>

locale fifo_queue =
  fixes push :: "'q \<Rightarrow> 'a \<Rightarrow> 'q option"
    and peek :: "'q \<Rightarrow> 'a option"
    and pop :: "'q \<Rightarrow> 'q"
    and items :: "'q \<Rightarrow> 'a list"
    and inv :: "'q \<Rightarrow> bool"
    and ok :: "'a \<Rightarrow> bool"
  assumes push_law: "inv q \<Longrightarrow> ok x \<Longrightarrow> \<exists>q'. push q x = Some q' \<and> inv q' \<and> items q' = items q @ [x]"
    and peek_law: "inv q \<Longrightarrow> peek q = (case items q of [] \<Rightarrow> None | x # _ \<Rightarrow> Some x)"
    and pop_law: "inv q \<Longrightarrow> inv (pop q) \<and> items (pop q) = tl (items q)"
begin

fun push_all :: "'a list \<Rightarrow> 'q \<Rightarrow> 'q option" where
  "push_all [] q = Some q"
| "push_all (x # xs) q = push q x \<bind> push_all xs"

fun drain :: "nat \<Rightarrow> 'q \<Rightarrow> 'a list" where
  "drain 0 q = []"
| "drain (Suc n) q = (case peek q of None \<Rightarrow> [] | Some x \<Rightarrow> x # drain n (pop q))"

lemma push_all_law:
  assumes "inv q" "\<forall>x \<in> set xs. ok x"
  shows "\<exists>q'. push_all xs q = Some q' \<and> inv q' \<and> items q' = items q @ xs"
  using assms
proof (induction xs arbitrary: q)
  case (Cons x xs)
  obtain r where r: "push q x = Some r" "inv r" "items r = items q @ [x]"
    using push_law [OF Cons.prems(1), of x] Cons.prems(2) by auto
  from Cons.IH [OF r(2)] Cons.prems(2) r show ?case by auto
qed simp

lemma drain_law: "inv q \<Longrightarrow> drain n q = take n (items q)"
proof (induction n arbitrary: q)
  case (Suc n)
  show ?case
  proof (cases "items q")
    case (Cons x xs)
    then show ?thesis using Suc pop_law [OF Suc.prems] peek_law [OF Suc.prems] by simp
  qed (use peek_law [OF Suc.prems] in simp)
qed simp

lemma push_drain:
  assumes "inv q" "items q = []" "\<forall>x \<in> set xs. ok x"
  shows "\<exists>q'. push_all xs q = Some q' \<and> drain (length xs) q' = xs"
  using push_all_law [OF assms(1,3)] drain_law assms(2) by fastforce

end

subsection \<open>The list of buffers\<close>

record buffer_list =
  bl_entries :: "buffer list"
  bl_size :: int

definition buffer_list_new :: buffer_list where
  "buffer_list_new = \<lparr>bl_entries = [], bl_size = 0\<rparr>"

definition buffer_list_defined :: "buffer_list option \<Rightarrow> bool" where
  "buffer_list_defined ol \<longleftrightarrow> (case ol of None \<Rightarrow> False | Some l \<Rightarrow> bl_entries l \<noteq> [])"

definition buffer_list_reset :: "buffer_list \<Rightarrow> buffer_list" where
  "buffer_list_reset ol = ol\<lparr>bl_entries := [], bl_size := 0\<rparr>"

definition buffer_list_push_data :: "buffer_list \<Rightarrow> bytes option \<Rightarrow> buffer_list option" where
  "buffer_list_push_data ol dat =
     (case dat of
        None \<Rightarrow> Some ol
      | Some bs \<Rightarrow> do {
          b \<leftarrow> alloc_buf (length bs);
          let b = (buf_poke b 0 bs)\<lparr>b_len := int (length bs)\<rparr>;
          Some (ol\<lparr>bl_size := bl_size ol + 1, bl_entries := bl_entries ol @ [b]\<rparr>) })"

text \<open>The terminating NUL is stored but does not count as part of the length.\<close>

definition buffer_list_push :: "buffer_list \<Rightarrow> bytes option \<Rightarrow> buffer_list option" where
  "buffer_list_push ol str =
     (case str of
        None \<Rightarrow> Some ol
      | Some s \<Rightarrow> do {
          ol \<leftarrow> buffer_list_push_data ol (Some (s @ [0]));
          Some (ol\<lparr>bl_entries := butlast (bl_entries ol)
                     @ [(last (bl_entries ol))\<lparr>b_len := int (length s)\<rparr>]\<rparr>) })"

definition buffer_list_peek :: "buffer_list option \<Rightarrow> buffer option" where
  "buffer_list_peek ol =
     (case ol of
        None \<Rightarrow> None
      | Some l \<Rightarrow> (case bl_entries l of [] \<Rightarrow> None | b # _ \<Rightarrow> Some b))"

definition buffer_list_pop :: "buffer_list \<Rightarrow> buffer_list" where
  "buffer_list_pop ol =
     (case bl_entries ol of
        [] \<Rightarrow> ol
      | b # rest \<Rightarrow> ol\<lparr>bl_entries := rest, bl_size := bl_size ol - 1\<rparr>)"

definition buffer_list_advance :: "buffer_list \<Rightarrow> int \<Rightarrow> buffer_list option" where
  "buffer_list_advance ol n =
     (case bl_entries ol of
        [] \<Rightarrow> Some ol
      | b # rest \<Rightarrow>
          (case buf_advance b n of
             (b, ok) \<Rightarrow> do {
               ASSERT ok;
               let ol = ol\<lparr>bl_entries := b # rest\<rparr>;
               Some (if buf_len b = 0 then buffer_list_pop ol else ol) }))"

text \<open>The counting loop: how many entries fit, their total size with separators, and the rest.\<close>

fun aggregate_count :: "nat \<Rightarrow> nat \<Rightarrow> buffer list \<Rightarrow> nat \<Rightarrow> nat \<Rightarrow> nat \<times> nat \<times> buffer list" where
  "aggregate_count max_len sep_len [] sz count = (sz, count, [])"
| "aggregate_count max_len sep_len (b # tl_rest) sz count =
     (let extra_len = nat (buf_len b) + sep_len
      in if sz + extra_len > max_len then (sz, count, b # tl_rest)
         else aggregate_count max_len sep_len tl_rest (sz + extra_len) (count + 1))"

fun aggregate_copy :: "bytes \<Rightarrow> buffer list \<Rightarrow> buffer \<Rightarrow> buffer" where
  "aggregate_copy sep [] f = f"
| "aggregate_copy sep (e # es) f =
     aggregate_copy sep es (fst (buf_write (fst (buf_copy f e)) sep))"

definition buffer_list_aggregate_separator ::
    "buffer_list \<Rightarrow> nat \<Rightarrow> bytes \<Rightarrow> buffer_list option" where
  "buffer_list_aggregate_separator bl max_len sep =
     (let (sz, count, tl_rest) = aggregate_count max_len (length sep) (bl_entries bl) 0 0
      in if count \<ge> 2
         then do {
           f \<leftarrow> alloc_buf (sz + 1);
           let f = aggregate_copy sep (take count (bl_entries bl)) f;
           Some (bl\<lparr>bl_entries := f # tl_rest, bl_size := bl_size bl - (int count - 1)\<rparr>) }
         else Some bl)"

definition buffer_list_aggregate :: "buffer_list \<Rightarrow> nat \<Rightarrow> buffer_list option" where
  "buffer_list_aggregate bl max_len = buffer_list_aggregate_separator bl max_len []"

subsection \<open>Its invariant and contents\<close>

definition bl_wf :: "buffer_list \<Rightarrow> bool" where
  "bl_wf l \<longleftrightarrow> bl_size l = int (length (bl_entries l)) \<and> (\<forall>b \<in> set (bl_entries l). buf_wf b)"

definition bl_items :: "buffer_list \<Rightarrow> bytes list" where
  "bl_items l = map buf_content (bl_entries l)"

lemma pushed_buffer:
  assumes "alloc_buf (length bs) = Some b" "n \<le> length bs"
  shows "buf_wf ((buf_poke b 0 bs)\<lparr>b_len := int n\<rparr>)
     \<and> buf_content ((buf_poke b 0 bs)\<lparr>b_len := int n\<rparr>) = take n bs"
  using assms
  by (auto simp: alloc_buf_def buf_size_valid_def buf_wf_def buf_poke_def patch_def buf_content_def
      buf_valid_def buf_peek_def segment_def split: if_splits)

lemma buffer_list_push_data_law:
  assumes "bl_wf l" "int (length bs) < BUF_SIZE_MAX"
  shows "\<exists>l'. buffer_list_push_data l (Some bs) = Some l' \<and> bl_wf l' \<and> bl_items l' = bl_items l @ [bs]"
proof -
  obtain b where b: "alloc_buf (length bs) = Some b" using alloc_buf_law [OF assms(2)] by blast
  show ?thesis
    using assms(1) b pushed_buffer [OF b order_refl]
    by (auto simp: buffer_list_push_data_def bl_wf_def bl_items_def Let_def)
qed

lemma buffer_list_push_law:
  assumes "bl_wf l" "int (length s) + 1 < BUF_SIZE_MAX"
  shows "\<exists>l'. buffer_list_push l (Some s) = Some l' \<and> bl_wf l' \<and> bl_items l' = bl_items l @ [s]"
proof -
  obtain b where b: "alloc_buf (length (s @ [0])) = Some b"
    using alloc_buf_law [of "length (s @ [0])"] assms(2) by auto
  show ?thesis
    using assms(1) b pushed_buffer [OF b, of "length s"]
    by (auto simp: buffer_list_push_def buffer_list_push_data_def bl_wf_def bl_items_def Let_def)
qed

lemma buffer_list_pop_law:
  "bl_wf l \<Longrightarrow> bl_wf (buffer_list_pop l) \<and> bl_items (buffer_list_pop l) = tl (bl_items l)"
  by (auto simp: buffer_list_pop_def bl_wf_def bl_items_def split: list.splits)

interpretation bl: fifo_queue "\<lambda>l s. buffer_list_push l (Some s)"
    "\<lambda>l. map_option buf_content (buffer_list_peek (Some l))" buffer_list_pop bl_items bl_wf
    "\<lambda>s. int (length s) + 1 < BUF_SIZE_MAX"
proof unfold_locales
  fix q :: buffer_list and x :: bytes
  assume wf: "bl_wf q"
  show "int (length x) + 1 < BUF_SIZE_MAX \<Longrightarrow>
      \<exists>q'. buffer_list_push q (Some x) = Some q' \<and> bl_wf q' \<and> bl_items q' = bl_items q @ [x]"
    by (rule buffer_list_push_law [OF wf])
  show "map_option buf_content (buffer_list_peek (Some q)) = (case bl_items q of [] \<Rightarrow> None | x # _ \<Rightarrow> Some x)"
    by (simp add: buffer_list_peek_def bl_items_def split: list.splits)
  show "bl_wf (buffer_list_pop q) \<and> bl_items (buffer_list_pop q) = tl (bl_items q)"
    by (rule buffer_list_pop_law [OF wf])
qed

lemma bl_wf_new [wf_intros]: "bl_wf buffer_list_new"
  by (simp add: bl_wf_def buffer_list_new_def)

lemma aggregate_count_law:
  assumes "aggregate_count mx sl bs sz c = (sz', c', tl_rest)" "\<forall>b \<in> set bs. buf_wf b"
  shows "\<exists>pre. bs = pre @ tl_rest \<and> c' = c + length pre
     \<and> sz' = sz + (\<Sum>b\<leftarrow>pre. length (buf_content b) + sl) \<and> (sz \<le> mx \<longrightarrow> sz' \<le> mx)"
  using assms
proof (induction bs arbitrary: sz c)
  case (Cons b bs)
  have len: "nat (buf_len b) = length (buf_content b)"
    using Cons.prems(2) length_buf_content_nat [of b] by simp
  show ?case
  proof (cases "sz + (nat (buf_len b) + sl) > mx")
    case True
    then show ?thesis using Cons.prems by (auto simp: Let_def)
  next
    case False
    then have "aggregate_count mx sl bs (sz + (nat (buf_len b) + sl)) (c + 1) = (sz', c', tl_rest)"
      using Cons.prems(1) by (simp add: Let_def)
    from Cons.IH [OF this] Cons.prems(2) obtain pre where
      "bs = pre @ tl_rest" "c' = c + 1 + length pre"
      "sz' = sz + (nat (buf_len b) + sl) + (\<Sum>b\<leftarrow>pre. length (buf_content b) + sl)"
      "sz + (nat (buf_len b) + sl) \<le> mx \<longrightarrow> sz' \<le> mx"
      by auto
    then show ?thesis using len False by (intro exI [of _ "b # pre"]) auto
  qed
qed simp

lemma aggregate_copy_law:
  assumes "buf_wf f" "\<forall>b \<in> set es. buf_wf b"
    "int (\<Sum>b\<leftarrow>es. length (buf_content b) + length sep) \<le> buf_forward_capacity f"
  shows "buf_wf (aggregate_copy sep es f)
     \<and> buf_content (aggregate_copy sep es f) = buf_content f @ concat (map (\<lambda>b. buf_content b @ sep) es)"
  using assms
proof (induction es arbitrary: f)
  case (Cons e es)
  have e: "buf_wf e" "b_len e = int (length (buf_content e))"
    using Cons.prems(2) length_buf_content [of e] by auto
  have nn: "0 \<le> int (\<Sum>b\<leftarrow>es. length (buf_content b) + length sep)" by simp
  have "b_len e \<le> buf_forward_capacity f" using Cons.prems(3) e(2) nn by simp
  from buf_copy_law [OF Cons.prems(1) e(1) this] obtain f1 where
    f1: "buf_copy f e = (f1, True)" "buf_wf f1" "buf_content f1 = buf_content f @ buf_content e"
    "buf_forward_capacity f1 = buf_forward_capacity f - b_len e" by metis
  have "int (length sep) \<le> buf_forward_capacity f1" using Cons.prems(3) e(2) f1(4) nn by simp
  from buf_write_law [OF f1(2) this] obtain f2 where
    f2: "buf_write f1 sep = (f2, True)" "buf_wf f2" "buf_content f2 = buf_content f1 @ sep"
    "buf_forward_capacity f2 = buf_forward_capacity f1 - int (length sep)" by metis
  have "int (\<Sum>b\<leftarrow>es. length (buf_content b) + length sep) \<le> buf_forward_capacity f2"
    using Cons.prems(3) e(2) f1(4) f2(4) by simp
  from Cons.IH [OF f2(2) _ this] Cons.prems(2) show ?case using f1 f2 by simp
qed simp

text \<open>
  Message queue.  Strings pushed on an empty \<open>buffer_list\<close> come off its head in the
  same order, each without its terminator.
\<close>

theorem buffer_list_fifo:
  assumes "\<forall>s \<in> set ss. length s + 1 < 1000000"
  shows "\<exists>l. bl.push_all ss buffer_list_new = Some l \<and> bl.drain (length ss) l = ss"
  by (rule bl.push_drain)
     (use assms bl_wf_new in \<open>auto simp: bl_items_def buffer_list_new_def BUF_SIZE_MAX_def\<close>)

theorem buffer_list_fifo_witness:
  "\<exists>l. bl.push_all [[1, 2], [3]] buffer_list_new = Some l \<and> bl.drain (length [[1, 2], [3 :: u8]]) l = [[1, 2], [3]]"
  by (rule buffer_list_fifo) simp

text \<open>
  Aggregation.  Merging the entries at the head of a queue keeps its well-formedness and
  entry count, stays within the size asked for, and loses no byte: with an empty
  separator the concatenation of all entries is unchanged.
\<close>

theorem buffer_list_aggregate_concat:
  assumes "bl_wf l" "mx < 999999"
  shows "\<exists>l'. buffer_list_aggregate l mx = Some l' \<and> bl_wf l' \<and> concat (bl_items l') = concat (bl_items l)
     \<and> (bl_entries l' \<noteq> bl_entries l \<longrightarrow> length (hd (bl_items l')) \<le> mx)"
proof -
  obtain sz c tl_rest where agg: "aggregate_count mx 0 (bl_entries l) 0 0 = (sz, c, tl_rest)"
    by (metis prod_cases3)
  from aggregate_count_law [OF agg] assms(1) obtain pre where
    pre: "bl_entries l = pre @ tl_rest" "c = length pre" "sz = (\<Sum>b\<leftarrow>pre. length (buf_content b))" "sz \<le> mx"
    by (auto simp: bl_wf_def)
  show ?thesis
  proof (cases "c \<ge> 2")
    case False
    then show ?thesis using assms(1) agg by (simp add: buffer_list_aggregate_def buffer_list_aggregate_separator_def)
  next
    case True
    obtain f where f: "alloc_buf (sz + 1) = Some f" "buf_wf f" "buf_content f = []"
      "buf_forward_capacity f = int (sz + 1)"
      using alloc_buf_law [of "sz + 1"] pre(4) assms(2) by (auto simp: BUF_SIZE_MAX_def)
    define g where "g = aggregate_copy [] pre f"
    have g: "buf_wf g" "buf_content g = concat (map buf_content pre)"
      using aggregate_copy_law [OF f(2), of pre "[]"] assms(1) pre f(3,4)
      by (auto simp: g_def bl_wf_def)
    have "buffer_list_aggregate l mx =
        Some (l\<lparr>bl_entries := g # tl_rest, bl_size := bl_size l - (int c - 1)\<rparr>)"
      using agg True f(1) pre
      by (simp add: buffer_list_aggregate_def buffer_list_aggregate_separator_def g_def)
    moreover have "length (buf_content g) \<le> mx" using g(2) pre(3,4) by (simp add: length_concat comp_def)
    ultimately show ?thesis using assms(1) g pre by (auto simp: bl_wf_def bl_items_def)
  qed
qed

theorem buffer_list_aggregate_concat_witness:
  "\<exists>l'. buffer_list_aggregate (the (buffer_list_push (the (buffer_list_push buffer_list_new (Some [1]))) (Some [2]))) 5 = Some l'
     \<and> bl_wf l'"
proof -
  obtain l where l: "buffer_list_push buffer_list_new (Some [1]) = Some l" "bl_wf l"
    using buffer_list_push_law [OF bl_wf_new, of "[1]"] by (auto simp: BUF_SIZE_MAX_def)
  obtain m where "buffer_list_push l (Some [2]) = Some m" "bl_wf m"
    using buffer_list_push_law [OF l(2), of "[2]"] by (auto simp: BUF_SIZE_MAX_def)
  then show ?thesis using buffer_list_aggregate_concat [of m 5] l by auto
qed

subsection \<open>The allocation arena\<close>

text \<open>
  A block of memory is its address.  The arena lists the blocks it owns, and the
  objects with a release function of their own, newest first.
\<close>

record gc_arena =
  gc_list :: "nat list"
  gc_list_special :: "((nat \<Rightarrow> nat) \<times> nat) list"

definition gc_init :: "gc_arena \<Rightarrow> gc_arena" where
  "gc_init a = a\<lparr>gc_list := [], gc_list_special := []\<rparr>"

text \<open>\<open>p\<close> is what \<open>malloc\<close> returned, NULL being fatal; without an arena the caller owns the block.\<close>

definition gc_malloc :: "nat option \<Rightarrow> gc_arena option \<Rightarrow> (nat \<times> gc_arena option) option" where
  "gc_malloc p a = do {
     p \<leftarrow> p;
     Some (p, map_option (\<lambda>a. a\<lparr>gc_list := p # gc_list a\<rparr>) a) }"

definition gc_addspecial :: "nat \<Rightarrow> (nat \<Rightarrow> nat) \<Rightarrow> gc_arena \<Rightarrow> gc_arena" where
  "gc_addspecial addr free_function a =
     a\<lparr>gc_list_special := (free_function, addr) # gc_list_special a\<rparr>"

fun replace_special :: "nat \<Rightarrow> nat \<Rightarrow> ((nat \<Rightarrow> nat) \<times> nat) list \<Rightarrow> ((nat \<Rightarrow> nat) \<times> nat) list option" where
  "replace_special ptr ret [] = None"
| "replace_special ptr ret ((f, addr) # es) =
     (if addr = ptr then Some ((f, ret) # es) else map_option ((#) (f, addr)) (replace_special ptr ret es))"

text \<open>\<open>ret\<close> is what \<open>realloc\<close> returned; \<open>free_fn\<close> stands for the C library's \<open>free\<close>.\<close>

definition gc_realloc :: "(nat \<Rightarrow> nat) \<Rightarrow> nat option \<Rightarrow> nat option \<Rightarrow> gc_arena option
    \<Rightarrow> (nat \<times> gc_arena option) option" where
  "gc_realloc free_fn ret ptr a = do {
     ret \<leftarrow> ret;
     case a of
       None \<Rightarrow> Some (ret, None)
     | Some a \<Rightarrow>
         (case ptr of
            Some p \<Rightarrow>
              (if p \<noteq> ret
               then do { l \<leftarrow> replace_special p ret (gc_list_special a);
                         Some (ret, Some (a\<lparr>gc_list_special := l\<rparr>)) }
               else Some (ret, Some a))
          | None \<Rightarrow> Some (ret, Some (gc_addspecial ret free_fn a))) }"

text \<open>The second result is what was released, in order.\<close>

definition x_gc_free :: "gc_arena \<Rightarrow> gc_arena \<times> nat list" where
  "x_gc_free a = (a\<lparr>gc_list := []\<rparr>, gc_list a)"

definition x_gc_freespecial :: "gc_arena \<Rightarrow> gc_arena \<times> nat list" where
  "x_gc_freespecial a = (a\<lparr>gc_list_special := []\<rparr>, map (\<lambda>(f, addr). f addr) (gc_list_special a))"

definition gc_free :: "gc_arena \<Rightarrow> gc_arena \<times> nat list" where
  "gc_free a =
     (let (a, fr) = (if gc_list a \<noteq> [] then x_gc_free a else (a, []));
          (a, frs) = (if gc_list_special a \<noteq> [] then x_gc_freespecial a else (a, []))
      in (a, fr @ frs))"

definition gc_transfer :: "gc_arena \<Rightarrow> gc_arena \<Rightarrow> gc_arena \<times> gc_arena" where
  "gc_transfer dest src =
     (if gc_list src \<noteq> []
      then (dest\<lparr>gc_list := gc_list src @ gc_list dest\<rparr>, src\<lparr>gc_list := []\<rparr>)
      else (dest, src))"

definition free_buf_gc :: "nat \<Rightarrow> gc_arena option \<Rightarrow> gc_arena option" where
  "free_buf_gc dat a = map_option (\<lambda>a. a\<lparr>gc_list := remove1 dat (gc_list a)\<rparr>) a"

text \<open>
  Arena transfer.  Moving one arena into another neither loses nor duplicates an owned
  block: freeing both releases exactly the blocks of the two.  But the objects
  with a release function stay behind: the source is not an empty arena
  afterwards when it had any.
\<close>

theorem gc_transfer_conserves:
  "(let (d, s) = gc_transfer dest src in
     gc_list d = gc_list src @ gc_list dest \<and> gc_list s = [] \<and>
     snd (gc_free d) @ snd (gc_free s) =
       gc_list src @ gc_list dest @ map (\<lambda>(f, x). f x) (gc_list_special dest @ gc_list_special src)
     \<and> gc_list_special s = gc_list_special src)"
  by (cases "gc_list src = []"; cases "gc_list dest = []")
     (auto simp: gc_transfer_def gc_free_def x_gc_free_def x_gc_freespecial_def Let_def)

end
