(* ===== verification/Reliable.thy ===== *)
theory Reliable
  imports Packet_Id
begin

text \<open>
  The reliability layer of the control channel: src/openvpn/reliable.c,
  reliable.h and session_id.h.  Acknowledgment records with their most recently
  used list, the window predicates on wrapping packet identifiers, and the array
  of send or receive buffers with its retransmission state.

  A pointer to a buffer of the array is its index.  A time is an \<open>int\<close>; the
  global \<open>now\<close> is an argument.
\<close>

subsection \<open>Session identifiers\<close>

record session_id =
  sid_id :: bytes

definition SID_SIZE :: nat where "SID_SIZE = 8"

definition session_id_zero :: session_id where
  "session_id_zero = \<lparr>sid_id = replicate SID_SIZE 0\<rparr>"

definition session_id_equal :: "session_id \<Rightarrow> session_id \<Rightarrow> bool" where
  "session_id_equal s t \<longleftrightarrow> sid_id s = sid_id t"

definition session_id_defined :: "session_id \<Rightarrow> bool" where
  "session_id_defined s \<longleftrightarrow> sid_id s \<noteq> sid_id session_id_zero"

definition session_id_read :: "session_id \<Rightarrow> buffer \<Rightarrow> session_id \<times> buffer \<times> bool" where
  "session_id_read sid b =
     (case buf_read b (int SID_SIZE) of
        (b, Some bs) \<Rightarrow> (sid\<lparr>sid_id := bs\<rparr>, b, True)
      | (b, None) \<Rightarrow> (sid, b, False))"

definition session_id_write :: "session_id \<Rightarrow> buffer \<Rightarrow> buffer \<times> bool" where
  "session_id_write sid b = buf_write b (sid_id sid)"

definition session_id_write_prepend :: "session_id \<Rightarrow> buffer \<Rightarrow> buffer \<times> bool" where
  "session_id_write_prepend sid b = buf_write_prepend b (sid_id sid)"

definition sid_wf :: "session_id \<Rightarrow> bool" where
  "sid_wf s \<longleftrightarrow> length (sid_id s) = SID_SIZE"

subsection \<open>Windows of packet identifiers\<close>

definition subtract_pid :: "u32 \<Rightarrow> u32 \<Rightarrow> u32" where
  "subtract_pid test base = test - base"

definition reliable_pid_in_range1 :: "u32 \<Rightarrow> u32 \<Rightarrow> u32 \<Rightarrow> bool" where
  "reliable_pid_in_range1 test base extent \<longleftrightarrow> subtract_pid test base < extent"

definition reliable_pid_in_range2 :: "u32 \<Rightarrow> u32 \<Rightarrow> u32 \<Rightarrow> bool" where
  "reliable_pid_in_range2 test base extent =
     (if base + extent \<ge> base
      then (if test < base + extent then True else False)
      else (if test + 0x80000000 < (base + 0x80000000) + extent then True else False))"

definition reliable_pid_min :: "u32 \<Rightarrow> u32 \<Rightarrow> bool" where
  "reliable_pid_min p1 p2 \<longleftrightarrow> \<not> reliable_pid_in_range1 p1 p2 0x80000000"

subsection \<open>Acknowledgment records\<close>

definition RELIABLE_ACK_SIZE :: int where "RELIABLE_ACK_SIZE = 8"
definition RELIABLE_CAPACITY :: int where "RELIABLE_CAPACITY = 12"
definition N_ACK_RETRANSMIT :: nat where "N_ACK_RETRANSMIT = 3"
definition BIG_TIMEOUT :: int where "BIG_TIMEOUT = 60 * 60 * 24 * 7"

record reliable_ack =
  ra_len :: int
  ra_packet_id :: "u32 list"

definition ra_ids :: "reliable_ack \<Rightarrow> u32 list" where
  "ra_ids a = take (nat (ra_len a)) (ra_packet_id a)"

definition ACK_SIZE :: "int \<Rightarrow> int" where
  "ACK_SIZE n = 1 + (if n \<noteq> 0 then 8 else 0) + 4 * n"

definition reliable_ack_empty :: "reliable_ack \<Rightarrow> bool" where
  "reliable_ack_empty a \<longleftrightarrow> ra_len a = 0"

definition reliable_ack_outstanding :: "reliable_ack \<Rightarrow> int" where
  "reliable_ack_outstanding a = ra_len a"

definition reliable_ack_packet_id_present :: "reliable_ack \<Rightarrow> u32 \<Rightarrow> bool" where
  "reliable_ack_packet_id_present a pid = list_ex (\<lambda>x. x = pid) (ra_ids a)"

definition reliable_ack_read_packet_id :: "buffer \<Rightarrow> buffer \<times> u32 option" where
  "reliable_ack_read_packet_id b =
     (case buf_read b 4 of
        (b, Some net_pid) \<Rightarrow> (b, Some (be32_of net_pid))
      | (b, None) \<Rightarrow> (b, None))"

definition reliable_ack_acknowledge_packet_id ::
    "reliable_ack \<Rightarrow> u32 \<Rightarrow> reliable_ack \<times> bool" where
  "reliable_ack_acknowledge_packet_id a pid =
     (if \<not> reliable_ack_packet_id_present a pid \<and> ra_len a < RELIABLE_ACK_SIZE
      then (a\<lparr>ra_packet_id := (ra_packet_id a)[nat (ra_len a) := pid], ra_len := ra_len a + 1\<rparr>, True)
      else (a, False))"

text \<open>The loop over the \<open>count\<close> identifiers of a received record.\<close>

fun reliable_ack_parse_loop :: "nat \<Rightarrow> buffer \<Rightarrow> reliable_ack \<Rightarrow> buffer \<times> reliable_ack \<times> bool" where
  "reliable_ack_parse_loop 0 b a = (b, a, True)"
| "reliable_ack_parse_loop (Suc n) b a =
     (case buf_read b 4 of
        (b, None) \<Rightarrow> (b, a, False)
      | (b, Some net_pid) \<Rightarrow>
          (if ra_len a \<ge> RELIABLE_ACK_SIZE then (b, a, False)
           else reliable_ack_parse_loop n b
                  (a\<lparr>ra_packet_id := (ra_packet_id a)[nat (ra_len a) := be32_of net_pid],
                     ra_len := ra_len a + 1\<rparr>)))"

definition reliable_ack_parse ::
    "buffer \<Rightarrow> reliable_ack \<Rightarrow> session_id \<Rightarrow> buffer \<times> reliable_ack \<times> session_id \<times> bool" where
  "reliable_ack_parse b a sid =
     (let a = a\<lparr>ra_len := 0\<rparr>
      in case buf_read b 1 of
           (b, None) \<Rightarrow> (b, a, sid, False)
         | (b, Some cnt) \<Rightarrow>
             (case reliable_ack_parse_loop (unat (hd cnt)) b a of
                (b, a, False) \<Rightarrow> (b, a, sid, False)
              | (b, a, True) \<Rightarrow>
                  (if hd cnt \<noteq> 0
                   then (case session_id_read sid b of
                           (sid, b, False) \<Rightarrow> (b, a, sid, False)
                         | (sid, b, True) \<Rightarrow> (b, a, sid, True))
                   else (b, a, sid, True))))"

text \<open>\<open>sid0\<close> is what the uninitialised local \<open>session_id_remote\<close> holds.\<close>

definition reliable_ack_read ::
    "session_id \<Rightarrow> buffer \<Rightarrow> reliable_ack \<Rightarrow> session_id \<Rightarrow> buffer \<times> reliable_ack \<times> bool" where
  "reliable_ack_read sid0 b a sid =
     (case reliable_ack_parse b a sid0 of
        (b, a, remote, False) \<Rightarrow> (b, a, False)
      | (b, a, remote, True) \<Rightarrow>
          (if ra_len a \<ge> 1 \<and> (\<not> session_id_defined remote \<or> \<not> session_id_equal remote sid)
           then (b, a, False) else (b, a, True)))"

text \<open>The inner loop of \<open>copy_acks_to_mru\<close>: shift right from the front until \<open>id\<close> falls out.\<close>

fun mru_shift :: "nat \<Rightarrow> u32 \<Rightarrow> u32 \<Rightarrow> u32 list \<Rightarrow> u32 list \<times> u32 \<times> bool" where
  "mru_shift 0 ident move xs = (xs, move, False)"
| "mru_shift (Suc n) ident move [] = ([], move, False)"
| "mru_shift (Suc n) ident move (x # xs) =
     (if x = ident then (move # xs, x, True)
      else (let (ys, m, found) = mru_shift n ident x xs in (move # ys, m, found)))"

definition mru_insert :: "u32 \<Rightarrow> reliable_ack \<Rightarrow> reliable_ack" where
  "mru_insert ident mru =
     (let mru = (if ra_len mru = 0
                 then mru\<lparr>ra_len := 1, ra_packet_id := (ra_packet_id mru)[0 := ident]\<rparr> else mru);
          (ids, move, idfound) = mru_shift (nat (ra_len mru)) ident ident (ra_packet_id mru);
          mru = mru\<lparr>ra_packet_id := ids\<rparr>
      in if \<not> idfound \<and> ra_len mru < RELIABLE_ACK_SIZE
         then mru\<lparr>ra_packet_id := (ra_packet_id mru)[nat (ra_len mru) := move], ra_len := ra_len mru + 1\<rparr>
         else mru)"

fun copy_acks_loop :: "nat \<Rightarrow> reliable_ack \<Rightarrow> reliable_ack \<Rightarrow> reliable_ack" where
  "copy_acks_loop 0 a mru = mru"
| "copy_acks_loop (Suc i) a mru = copy_acks_loop i a (mru_insert (ra_packet_id a ! i) mru)"

definition copy_acks_to_mru :: "reliable_ack \<Rightarrow> reliable_ack \<Rightarrow> int \<Rightarrow> reliable_ack option" where
  "copy_acks_to_mru a mru n = do {
     ASSERT (ra_len a \<ge> n);
     Some (copy_acks_loop (nat n) a mru) }"

text \<open>\<open>ASSERT (buf_write (...))\<close> for each identifier.\<close>

fun write_pids :: "u32 list \<Rightarrow> buffer \<Rightarrow> buffer option" where
  "write_pids [] sub = Some sub"
| "write_pids (pid # pids) sub =
     (case buf_write sub (be32_bytes pid) of
        (sub, ok) \<Rightarrow> do { ASSERT ok; write_pids pids sub })"

text \<open>\<open>n\<close> and \<open>total_acks\<close> are octets in the code.\<close>

definition reliable_ack_write ::
    "reliable_ack \<Rightarrow> reliable_ack \<Rightarrow> buffer \<Rightarrow> session_id \<Rightarrow> int \<Rightarrow> bool
      \<Rightarrow> (reliable_ack \<times> reliable_ack \<times> buffer \<times> bool) option" where
  "reliable_ack_write a mru b sid mx prepend = do {
     let n = (word_of_int (ra_len a) :: u8);
     let n = (if uint n > mx then word_of_int mx else n);
     mru \<leftarrow> copy_acks_to_mru a mru (uint n);
     let total_acks = (word_of_int (min_int mx (ra_len mru)) :: u8);
     let (b, sub, p) = buf_sub b (ACK_SIZE (uint total_acks)) prepend;
     if \<not> buf_defined sub then Some (a, mru, b, False)
     else do {
       let (sub, ok) = buf_write_u8 sub total_acks;
       ASSERT ok;
       sub \<leftarrow> write_pids (take (unat total_acks) (ra_packet_id mru)) sub;
       sub \<leftarrow> (if total_acks \<noteq> 0
               then do {
                 ASSERT (session_id_defined sid);
                 let (sub, ok) = session_id_write sid sub;
                 ASSERT ok;
                 Some sub }
               else Some sub);
       let a = (if n \<noteq> 0
                then a\<lparr>ra_packet_id := patch (ra_packet_id a) 0 (drop (unat n) (ra_ids a)),
                       ra_len := max (ra_len a - uint n) 0\<rparr>
                else a);
       Some (a, mru, buf_sub_sync b p sub, True) } }"

subsection \<open>The buffer array\<close>

record reliable_entry =
  re_active :: bool
  re_timeout :: int
  re_next_try :: int
  re_packet_id :: u32
  re_n_acks :: nat
  re_opcode :: int
  re_buf :: buffer

record reliable =
  rl_size :: int
  rl_initial_timeout :: int
  rl_packet_id :: u32
  rl_offset :: int
  rl_hold :: bool
  rl_array :: "reliable_entry list"

text \<open>The entries the loops visit: index below \<open>rel->size\<close>.\<close>

definition rl_entries :: "reliable \<Rightarrow> reliable_entry list" where
  "rl_entries rel = take (nat (rl_size rel)) (rl_array rel)"

definition rl_update :: "reliable \<Rightarrow> nat \<Rightarrow> (reliable_entry \<Rightarrow> reliable_entry) \<Rightarrow> reliable" where
  "rl_update rel i f = rel\<lparr>rl_array := (rl_array rel)[i := f (rl_array rel ! i)]\<rparr>"

definition entry_zero :: reliable_entry where
  "entry_zero = \<lparr>re_active = False, re_timeout = 0, re_next_try = 0, re_packet_id = 0, re_n_acks = 0,
     re_opcode = 0, re_buf = clear_buf\<rparr>"

fun reliable_init_loop :: "nat \<Rightarrow> nat \<Rightarrow> int \<Rightarrow> reliable_entry list \<Rightarrow> reliable_entry list option" where
  "reliable_init_loop 0 buf_size offset es = Some es"
| "reliable_init_loop (Suc n) buf_size offset [] = None"
| "reliable_init_loop (Suc n) buf_size offset (e # es) = do {
     b \<leftarrow> alloc_buf buf_size;
     let (b, ok) = buf_init b offset;
     ASSERT ok;
     es \<leftarrow> reliable_init_loop n buf_size offset es;
     Some (e\<lparr>re_buf := b\<rparr> # es) }"

definition reliable_init :: "int \<Rightarrow> int \<Rightarrow> int \<Rightarrow> bool \<Rightarrow> reliable option" where
  "reliable_init buf_size offset array_size hold = do {
     ASSERT (array_size > 0 \<and> array_size \<le> RELIABLE_CAPACITY);
     es \<leftarrow> reliable_init_loop (nat array_size) (size_t_of_int buf_size) offset
             (replicate (nat RELIABLE_CAPACITY) entry_zero);
     Some \<lparr>rl_size = array_size, rl_initial_timeout = 0, rl_packet_id = 0, rl_offset = offset,
           rl_hold = hold, rl_array = es\<rparr> }"

definition reliable_set_timeout :: "reliable \<Rightarrow> int \<Rightarrow> reliable" where
  "reliable_set_timeout rel timeout = rel\<lparr>rl_initial_timeout := timeout\<rparr>"

definition reliable_empty :: "reliable \<Rightarrow> bool" where
  "reliable_empty rel = list_all (\<lambda>e. \<not> re_active e) (rl_entries rel)"

definition reliable_can_get :: "reliable \<Rightarrow> bool" where
  "reliable_can_get rel = list_ex (\<lambda>e. \<not> re_active e) (rl_entries rel)"

text \<open>The body of the inner loop of \<open>reliable_send_purge\<close>.\<close>

definition purge_entry :: "u32 \<Rightarrow> reliable_entry \<Rightarrow> reliable_entry" where
  "purge_entry pid e =
     (if re_active e \<and> re_packet_id e = pid then e\<lparr>re_active := False\<rparr>
      else if re_active e \<and> re_packet_id e < pid then e\<lparr>re_n_acks := re_n_acks e + 1\<rparr>
      else e)"

fun purge_all :: "u32 list \<Rightarrow> reliable_entry list \<Rightarrow> reliable_entry list" where
  "purge_all [] es = es"
| "purge_all (pid # pids) es = purge_all pids (map (purge_entry pid) es)"

definition reliable_send_purge :: "reliable \<Rightarrow> reliable_ack \<Rightarrow> reliable" where
  "reliable_send_purge rel a =
     rel\<lparr>rl_array := purge_all (ra_ids a) (rl_entries rel) @ drop (nat (rl_size rel)) (rl_array rel)\<rparr>"

definition reliable_not_replay :: "reliable \<Rightarrow> u32 \<Rightarrow> bool" where
  "reliable_not_replay rel ident =
     (if reliable_pid_min ident (rl_packet_id rel) then False
      else if list_ex (\<lambda>e. re_active e \<and> re_packet_id e = ident) (rl_entries rel) then False
      else True)"

definition reliable_wont_break_sequentiality :: "reliable \<Rightarrow> u32 \<Rightarrow> bool" where
  "reliable_wont_break_sequentiality rel ident =
     reliable_pid_in_range2 ident (rl_packet_id rel) (word_of_int (rl_size rel))"

fun find_index :: "('a \<Rightarrow> bool) \<Rightarrow> 'a list \<Rightarrow> nat option" where
  "find_index P [] = None"
| "find_index P (x # xs) = (if P x then Some 0 else map_option Suc (find_index P xs))"

definition reliable_get_buf :: "reliable \<Rightarrow> (reliable \<times> nat option) option" where
  "reliable_get_buf rel =
     (case find_index (\<lambda>e. \<not> re_active e) (rl_entries rel) of
        Some i \<Rightarrow>
          (let (b, ok) = buf_init (re_buf (rl_array rel ! i)) (rl_offset rel) in do {
             ASSERT ok;
             Some (rl_update rel i (\<lambda>e. e\<lparr>re_buf := b\<rparr>), Some i) })
      | None \<Rightarrow> Some (rel, None))"

text \<open>The loop that finds the smallest active identifier.\<close>

fun min_active :: "reliable_entry list \<Rightarrow> u32 option \<Rightarrow> u32 option" where
  "min_active [] m = m"
| "min_active (e # es) m =
     (if re_active e
      then (if m = None \<or> reliable_pid_min (re_packet_id e) (the m)
            then min_active es (Some (re_packet_id e)) else min_active es m)
      else min_active es m)"

definition reliable_get_num_output_sequenced_available :: "reliable \<Rightarrow> int" where
  "reliable_get_num_output_sequenced_available rel =
     (case min_active (rl_entries rel) None of
        None \<Rightarrow> rl_size rel
      | Some min_id \<Rightarrow>
          sint (word_of_int (rl_size rel) - subtract_pid (rl_packet_id rel) min_id))"

definition reliable_get_buf_output_sequenced :: "reliable \<Rightarrow> (reliable \<times> nat option) option" where
  "reliable_get_buf_output_sequenced rel =
     (case min_active (rl_entries rel) None of
        None \<Rightarrow> reliable_get_buf rel
      | Some min_id \<Rightarrow>
          (if reliable_pid_in_range1 (rl_packet_id rel) min_id (word_of_int (rl_size rel))
           then reliable_get_buf rel else Some (rel, None)))"

definition reliable_get_entry_sequenced :: "reliable \<Rightarrow> nat option" where
  "reliable_get_entry_sequenced rel =
     find_index (\<lambda>e. re_active e \<and> re_packet_id e = rl_packet_id rel) (rl_entries rel)"

definition reliable_can_send :: "int \<Rightarrow> reliable \<Rightarrow> bool" where
  "reliable_can_send now rel \<longleftrightarrow>
     length (filter (\<lambda>e. re_active e \<and> (now \<ge> re_next_try e \<or> re_n_acks e \<ge> N_ACK_RETRANSMIT))
               (rl_entries rel)) > 0
     \<and> \<not> rl_hold rel"

text \<open>The search for the entry to send: the index and identifier of the best so far.\<close>

fun send_best :: "int \<Rightarrow> reliable_entry list \<Rightarrow> nat \<Rightarrow> (nat \<times> u32) option \<Rightarrow> (nat \<times> u32) option" where
  "send_best now [] i best = best"
| "send_best now (e # es) i best =
     (if re_active e \<and> (re_n_acks e \<ge> N_ACK_RETRANSMIT \<or> now \<ge> re_next_try e)
      then (if best = None \<or> reliable_pid_min (re_packet_id e) (snd (the best))
            then send_best now es (i + 1) (Some (i, re_packet_id e))
            else send_best now es (i + 1) best)
      else send_best now es (i + 1) best)"

definition reliable_send :: "int \<Rightarrow> reliable \<Rightarrow> reliable \<times> (nat \<times> int) option" where
  "reliable_send now rel =
     (case send_best now (rl_entries rel) 0 None of
        Some (i, _) \<Rightarrow>
          (rl_update rel i (\<lambda>e. e\<lparr>re_next_try := now + re_timeout e, re_timeout := re_timeout e * 2,
                                  re_n_acks := 0\<rparr>),
           Some (i, re_opcode (rl_array rel ! i)))
      | None \<Rightarrow> (rel, None))"

definition reliable_schedule_now :: "int \<Rightarrow> reliable \<Rightarrow> reliable" where
  "reliable_schedule_now now rel =
     rel\<lparr>rl_hold := False,
         rl_array := map (\<lambda>e. if re_active e
                             then e\<lparr>re_next_try := now, re_timeout := rl_initial_timeout rel\<rparr> else e)
                       (rl_entries rel) @ drop (nat (rl_size rel)) (rl_array rel)\<rparr>"

fun send_timeout_loop :: "int \<Rightarrow> reliable_entry list \<Rightarrow> int \<Rightarrow> int" where
  "send_timeout_loop now [] ret = ret"
| "send_timeout_loop now (e # es) ret =
     (if re_active e
      then (if re_next_try e \<le> now then 0
            else send_timeout_loop now es (min_int ret (re_next_try e - now)))
      else send_timeout_loop now es ret)"

definition reliable_send_timeout :: "int \<Rightarrow> reliable \<Rightarrow> int" where
  "reliable_send_timeout now rel = send_timeout_loop now (rl_entries rel) BIG_TIMEOUT"

definition reliable_mark_active_incoming :: "reliable \<Rightarrow> nat \<Rightarrow> u32 \<Rightarrow> int \<Rightarrow> reliable option" where
  "reliable_mark_active_incoming rel i pid opcode =
     (if int i < rl_size rel
      then do {
        ASSERT (\<not> reliable_pid_min pid (rl_packet_id rel));
        Some (rl_update rel i (\<lambda>e. e\<lparr>re_active := True, re_packet_id := pid, re_opcode := opcode,
                re_next_try := 0, re_timeout := 0, re_n_acks := 0\<rparr>)) }
      else None)"

definition reliable_mark_active_outgoing :: "reliable \<Rightarrow> nat \<Rightarrow> int \<Rightarrow> reliable option" where
  "reliable_mark_active_outgoing rel i opcode =
     (if int i < rl_size rel
      then (let pid = rl_packet_id rel;
                rel = rel\<lparr>rl_packet_id := rl_packet_id rel + 1\<rparr>;
                (b, ok) = buf_write_prepend (re_buf (rl_array rel ! i)) (be32_bytes pid)
            in do {
              ASSERT ok;
              Some (rl_update rel i (\<lambda>e. e\<lparr>re_buf := b, re_packet_id := pid, re_active := True,
                      re_opcode := opcode, re_next_try := 0, re_timeout := rl_initial_timeout rel\<rparr>)) })
      else None)"

definition reliable_mark_deleted :: "reliable \<Rightarrow> nat \<Rightarrow> reliable option" where
  "reliable_mark_deleted rel i =
     (if int i < rl_size rel
      then Some ((rl_update rel i (\<lambda>e. e\<lparr>re_active := False\<rparr>))
                   \<lparr>rl_packet_id := re_packet_id (rl_array rel ! i) + 1\<rparr>)
      else None)"

subsection \<open>Comparisons under wrap-around\<close>

lemma unat_subtract_pid:
  "unat (subtract_pid t b) = (if unat b \<le> unat t then unat t - unat b else unat t + 4294967296 - unat b)"
  by (simp add: subtract_pid_def unat_sub_if')

lemma receive_window:
  assumes "base \<le> 0x80000000" "extent \<le> 0x40000000"
  shows "(reliable_pid_in_range2 t base extent \<and> \<not> reliable_pid_min t base)
     \<longleftrightarrow> subtract_pid t base < extent"
proof -
  have u: "unat base \<le> 2147483648" "unat extent \<le> 1073741824" "unat t < 4294967296"
    using assms unat_le_bound32 [of t] by (simp_all add: word_le_nat_alt)
  have sum: "unat (base + extent) = unat base + unat extent"
    using u by (simp add: unat_plus_if')
  show ?thesis
    using u unfolding reliable_pid_in_range2_def reliable_pid_min_def reliable_pid_in_range1_def
      word_less_nat_alt word_le_nat_alt sum unat_subtract_pid
    by auto
qed

text \<open>
  C26: The receive window.  While the next expected identifier is at most \<open>2 ^ 31\<close>, the two
  tests on an incoming identifier, not older and not breaking sequentiality,
  together accept exactly the identifiers less than the window size ahead of it.
\<close>

theorem receive_window_exact:
  assumes "base \<le> 0x80000000" "extent \<le> 0x40000000"
  shows "(reliable_pid_in_range2 t base extent \<and> \<not> reliable_pid_min t base)
     \<longleftrightarrow> subtract_pid t base < extent"
  by (rule receive_window [OF assms])

theorem receive_window_exact_witness:
  "(reliable_pid_in_range2 7 5 8 \<and> \<not> reliable_pid_min 7 5) \<longleftrightarrow> subtract_pid 7 5 < (8 :: u32)"
  by (rule receive_window_exact) simp_all

text \<open>
  C39: The sequentiality test is wrong for high identifiers.  Let the next expected identifier \<open>base\<close> be
  at least \<open>2 ^ 31\<close>, with a window that does not run over the end of the numbers.  Besides the window
  itself the two tests then accept exactly the identifiers below \<open>base - 2 ^ 31\<close>, all of which are
  beyond the wrap and outside the window: the test compares without wrap-around although it promises
  to allow for it.
\<close>

theorem sequentiality_test_ignores_wrap:
  assumes "0x80000000 \<le> base" "unat base + unat extent < 2 ^ 32"
  shows "((reliable_pid_in_range2 t base extent \<and> \<not> reliable_pid_min t base)
      \<longleftrightarrow> subtract_pid t base < extent \<or> t < base - 0x80000000)
    \<and> \<not> (subtract_pid t base \<le> extent \<and> t < base - 0x80000000)"
proof -
  have u: "2147483648 \<le> unat base" "unat t < 4294967296" "unat base < 4294967296"
    using assms(1) unat_le_bound32 [of t] unat_le_bound32 [of base] by (simp_all add: word_le_nat_alt)
  have sum: "unat (base + extent) = unat base + unat extent" and diff: "unat (base - 0x80000000) = unat base - 2147483648"
    using u assms(2) by (simp_all add: unat_plus_if' unat_sub_if')
  show ?thesis
    using u assms(2) unfolding reliable_pid_in_range2_def reliable_pid_min_def reliable_pid_in_range1_def
      word_less_nat_alt word_le_nat_alt sum diff unat_subtract_pid
    by auto
qed

theorem sequentiality_test_ignores_wrap_witness:
  "reliable_pid_in_range2 5 0xF0000000 8 \<and> \<not> reliable_pid_min 5 0xF0000000
   \<and> \<not> subtract_pid 5 0xF0000000 \<le> 8"
  using sequentiality_test_ignores_wrap [of "0xF0000000" 8 5] by simp

subsection \<open>The list of recent acknowledgments\<close>

definition ra_wf :: "reliable_ack \<Rightarrow> bool" where
  "ra_wf a \<longleftrightarrow> length (ra_packet_id a) = 8 \<and> 0 \<le> ra_len a \<and> ra_len a \<le> 8 \<and> distinct (ra_ids a)"

lemma length_ra_ids: "ra_wf a \<Longrightarrow> length (ra_ids a) = nat (ra_len a)"
  unfolding ra_wf_def ra_ids_def length_take by linarith

lemma take_list_update_append:
  "n < length xs \<Longrightarrow> take (Suc n) (xs[n := v]) = take n xs @ [v]"
  by (simp add: take_Suc_conv_app_nth)

lemma reliable_ack_acknowledge_wf:
  assumes wf: "ra_wf a"
  shows "ra_wf (fst (reliable_ack_acknowledge_packet_id a pid))
    \<and> ra_ids (fst (reliable_ack_acknowledge_packet_id a pid)) =
        (if pid \<in> set (ra_ids a) \<or> ra_len a = 8 then ra_ids a else ra_ids a @ [pid])"
proof -
  have pres: "reliable_ack_packet_id_present a pid \<longleftrightarrow> pid \<in> set (ra_ids a)"
    by (auto simp: reliable_ack_packet_id_present_def list_ex_iff)
  show ?thesis
  proof (cases "pid \<in> set (ra_ids a) \<or> ra_len a = 8")
    case True
    then show ?thesis using wf pres
      by (auto simp: reliable_ack_acknowledge_packet_id_def RELIABLE_ACK_SIZE_def)
  next
    case False
    then have len: "ra_len a < 8" "nat (ra_len a) < length (ra_packet_id a)"
      using wf by (auto simp: ra_wf_def)
    have "nat (ra_len a + 1) = Suc (nat (ra_len a))" using wf by (auto simp: ra_wf_def nat_add_distrib)
    then have "take (nat (ra_len a + 1)) ((ra_packet_id a)[nat (ra_len a) := pid]) = ra_ids a @ [pid]"
      using len by (simp add: ra_ids_def take_list_update_append)
    then show ?thesis using wf pres False len
      by (auto simp: reliable_ack_acknowledge_packet_id_def RELIABLE_ACK_SIZE_def ra_wf_def
          ra_ids_def [of "a\<lparr>ra_packet_id := _, ra_len := _\<rparr>"])
  qed
qed

lemma mru_shift_eq:
  assumes "n \<le> length xs"
  shows "mru_shift n ident move xs =
    (if ident \<in> set (take n xs) then (move # remove1 ident (take n xs) @ drop n xs, ident, True)
     else (butlast (move # take n xs) @ drop n xs, last (move # take n xs), False))"
  using assms
proof (induction n ident move xs rule: mru_shift.induct)
  case (3 n ident move x xs)
  show ?case using 3 by (cases "x = ident") (auto simp: Let_def)
qed auto

lemma mru_insert_law:
  assumes wf: "ra_wf m"
  shows "ra_wf (mru_insert ident m) \<and> ra_ids (mru_insert ident m) = take 8 (ident # remove1 ident (ra_ids m))"
proof -
  define m1 where "m1 = (if ra_len m = 0
      then m\<lparr>ra_len := 1, ra_packet_id := (ra_packet_id m)[0 := ident]\<rparr> else m)"
  have m1: "length (ra_packet_id m1) = 8" "0 < ra_len m1" "ra_len m1 \<le> 8" "distinct (ra_ids m1)"
    "ident # remove1 ident (ra_ids m1) = ident # remove1 ident (ra_ids m)"
    using wf by (auto simp: m1_def ra_wf_def ra_ids_def neq_Nil_conv take_Suc_conv_app_nth
        numeral_eq_Suc length_Suc_conv)
  define n where "n = nat (ra_len m1)"
  have n: "n \<le> 8" "0 < n" "ra_ids m1 = take n (ra_packet_id m1)" using m1 by (auto simp: n_def ra_ids_def)
  let ?xs = "ra_packet_id m1"
  show ?thesis
  proof (cases "ident \<in> set (ra_ids m1)")
    case True
    have sh: "mru_shift n ident ident ?xs = (ident # remove1 ident (take n ?xs) @ drop n ?xs, ident, True)"
      using mru_shift_eq [of n ?xs ident ident] True n m1(1) by simp
    have ins: "mru_insert ident m = m1\<lparr>ra_packet_id := ident # remove1 ident (take n ?xs) @ drop n ?xs\<rparr>"
      using sh by (simp add: mru_insert_def m1_def [symmetric] n_def [symmetric] Let_def)
    have len: "length (ident # remove1 ident (take n ?xs)) = n"
      using True n m1(1) by (simp add: length_remove1)
    then have ids: "ra_ids (mru_insert ident m) = ident # remove1 ident (ra_ids m1)"
      using n m1 by (simp add: ins ra_ids_def n_def [symmetric] take_Cons')
    have l8: "take 8 (ident # remove1 ident (ra_ids m1)) = ident # remove1 ident (ra_ids m1)"
      using len n by simp
    have "distinct (ident # remove1 ident (ra_ids m1))" using m1(4) by (simp add: set_remove1_eq)
    moreover have "length (ra_packet_id (mru_insert ident m)) = 8" using len n m1(1) by (simp add: ins)
    moreover have "ra_len (mru_insert ident m) = ra_len m1" by (simp add: ins)
    ultimately have "ra_wf (mru_insert ident m)"
      unfolding ra_wf_def ids using m1(2,3) by simp
    then show ?thesis using ids l8 m1(5) by simp
  next
    case False
    have sh: "mru_shift n ident ident ?xs
        = (butlast (ident # take n ?xs) @ drop n ?xs, last (ident # take n ?xs), False)"
      using mru_shift_eq [of n ?xs ident ident] False n m1(1) by simp
    define m2 where "m2 = m1\<lparr>ra_packet_id := butlast (ident # take n ?xs) @ drop n ?xs\<rparr>"
    have ins: "mru_insert ident m = (if ra_len m1 < 8
        then m2\<lparr>ra_packet_id := (ra_packet_id m2)[n := last (ident # take n ?xs)], ra_len := ra_len m1 + 1\<rparr>
        else m2)"
      using sh False by (simp add: mru_insert_def m1_def [symmetric] n_def [symmetric] Let_def m2_def
          RELIABLE_ACK_SIZE_def)
    have lb: "length (butlast (ident # take n ?xs)) = n" using n m1(1) by (auto simp: length_butlast)
    have rm: "remove1 ident (ra_ids m1) = ra_ids m1" using False by (rule remove1_idem)
    show ?thesis
    proof (cases "ra_len m1 < 8")
      case True
      have n1: "nat (ra_len m1 + 1) = Suc n" "n < 8" using True n_def m1 by auto
      have "ra_ids (mru_insert ident m) = take (Suc n) ((butlast (ident # take n ?xs) @ drop n ?xs)[n := last (ident # take n ?xs)])"
        using True n1 by (simp add: ins ra_ids_def m2_def)
      also have "\<dots> = take n (butlast (ident # take n ?xs) @ drop n ?xs) @ [last (ident # take n ?xs)]"
        by (rule take_list_update_append) (use lb m1(1) n1 in simp)
      also have "\<dots> = butlast (ident # take n ?xs) @ [last (ident # take n ?xs)]" using lb by simp
      also have "\<dots> = ident # ra_ids m1" using n(3) by (metis append_butlast_last_id list.distinct(1))
      finally have ids: "ra_ids (mru_insert ident m) = ident # ra_ids m1" .
      have "ra_wf (mru_insert ident m)"
        unfolding ra_wf_def ids using m1 False True lb n by (simp add: ins m2_def)
      moreover have "take 8 (ident # ra_ids m1) = ident # ra_ids m1" using n n1 m1(1) by simp
      ultimately show ?thesis using ids rm m1(5) by simp
    next
      case full: False
      then have n8: "n = 8" "ra_len m1 = 8" using n m1 by (auto simp: n_def)
      have ids: "ra_ids (mru_insert ident m) = butlast (ident # ra_ids m1)"
        using full lb n8 n(3) by (simp add: ins ra_ids_def m2_def)
      also have "\<dots> = take 8 (ident # ra_ids m1)"
        using n8 n(3) m1(1) by (simp add: butlast_conv_take)
      finally have ids': "ra_ids (mru_insert ident m) = take 8 (ident # ra_ids m1)" .
      have "distinct (take 8 (ident # ra_ids m1))"
        using m1(4) False by (intro distinct_take) simp
      then have "ra_wf (mru_insert ident m)"
        unfolding ra_wf_def ids' using m1 full lb n8 by (simp add: ins m2_def)
      then show ?thesis using ids' rm m1(5) by simp
    qed
  qed
qed

text \<open>The recent acknowledgments after those of \<open>xs\<close> were sent: \<open>xs\<close> first, then the older ones, eight in all.\<close>

definition mru_after :: "u32 list \<Rightarrow> u32 list \<Rightarrow> u32 list" where
  "mru_after xs ms = take 8 (xs @ filter (\<lambda>y. y \<notin> set xs) ms)"

lemma take_remove1_take: "take k (remove1 x (take (Suc k) ys)) = take k (remove1 x ys)"
proof (induction ys arbitrary: k)
  case (Cons y ys)
  then show ?case by (cases k) auto
qed simp

lemma mru_after_Cons:
  assumes "distinct ms" "x \<notin> set xs"
  shows "take 8 (x # remove1 x (mru_after xs ms)) = mru_after (x # xs) ms"
proof -
  define L where "L = xs @ filter (\<lambda>y. y \<notin> set xs) ms"
  have "take 8 (x # remove1 x (take 8 L)) = x # take 7 (remove1 x (take (Suc 7) L))" by simp
  also have "\<dots> = x # take 7 (remove1 x L)" by (simp only: take_remove1_take)
  finally have l: "take 8 (x # remove1 x (take 8 L)) = take 8 (x # remove1 x L)" by simp
  have "remove1 x (filter (\<lambda>y. y \<notin> set xs) ms) = filter (\<lambda>y. y \<notin> set xs) (remove1 x ms)"
    using assms(2) by (simp add: filter_remove1)
  also have "\<dots> = filter (\<lambda>y. y \<notin> set (x # xs)) ms"
    using assms(1) by (auto simp: distinct_remove1_removeAll removeAll_filter_not_eq intro: filter_cong)
  finally have "remove1 x L = xs @ filter (\<lambda>y. y \<notin> set (x # xs)) ms"
    using assms(2) by (simp add: L_def remove1_append)
  then show ?thesis using l by (simp add: mru_after_def flip: L_def)
qed

lemma copy_acks_loop_law:
  assumes "ra_wf m" "ra_ids m = mru_after (drop i (take n (ra_ids a))) ms" "distinct ms"
    "i \<le> n" "n \<le> length (ra_ids a)" "distinct (ra_ids a)"
  shows "ra_wf (copy_acks_loop i a m) \<and> ra_ids (copy_acks_loop i a m) = mru_after (take n (ra_ids a)) ms"
  using assms(1,2,4)
proof (induction i arbitrary: m)
  case 0
  then show ?case by simp
next
  case (Suc i)
  define x where "x = ra_packet_id a ! i"
  define D where "D = drop (Suc i) (take n (ra_ids a))"
  have i: "i < length (take n (ra_ids a))" using Suc.prems(3) assms(5) by simp
  have x: "x = take n (ra_ids a) ! i" using i by (simp add: x_def ra_ids_def)
  then have D: "drop i (take n (ra_ids a)) = x # D" using Cons_nth_drop_Suc [OF i] by (simp add: D_def)
  have "x \<notin> set D"
    using distinct_drop [of "take n (ra_ids a)" i] distinct_take [OF assms(6), of n] by (simp add: D)
  then have "ra_wf (mru_insert x m)" "ra_ids (mru_insert x m) = mru_after (drop i (take n (ra_ids a))) ms"
    using mru_insert_law [OF Suc.prems(1), of x] mru_after_Cons [OF assms(3)] Suc.prems(2)
    by (simp_all add: D D_def)
  then show ?case using Suc.IH [of "mru_insert x m"] Suc.prems(3) by (simp add: x_def)
qed

lemma copy_acks_to_mru_law:
  assumes "ra_wf a" "ra_wf mru" "0 \<le> n" "n \<le> ra_len a"
  shows "\<exists>m. copy_acks_to_mru a mru n = Some m \<and> ra_wf m
    \<and> ra_ids m = mru_after (take (nat n) (ra_ids a)) (ra_ids mru)"
proof -
  have "length (ra_ids mru) \<le> 8" using length_ra_ids [OF assms(2)] assms(2) unfolding ra_wf_def by linarith
  then have "ra_ids mru = mru_after (drop (nat n) (take (nat n) (ra_ids a))) (ra_ids mru)"
    by (simp add: mru_after_def)
  moreover have "nat n \<le> length (ra_ids a)" using assms(4) length_ra_ids [OF assms(1)] by simp
  ultimately show ?thesis
    using copy_acks_loop_law [OF assms(2), of "nat n" "nat n" a "ra_ids mru"] assms
    by (auto simp: copy_acks_to_mru_def ra_wf_def)
qed

subsection \<open>Writing and parsing a record\<close>

lemma write_pids_law:
  assumes "buf_wf b" "4 * int (length pids) \<le> buf_forward_capacity b"
  shows "\<exists>b'. write_pids pids b = Some b' \<and> buf_wf b' \<and> b_offset b' = b_offset b
    \<and> buf_content b' = buf_content b @ concat (map be32_bytes pids)
    \<and> b_capacity b' = b_capacity b \<and> buf_forward_capacity b' = buf_forward_capacity b - 4 * int (length pids)"
  using assms
proof (induction pids arbitrary: b)
  case (Cons p ps)
  have "int (length (be32_bytes p)) \<le> buf_forward_capacity b" using Cons.prems(2) by simp
  from buf_write_law [OF Cons.prems(1) this] obtain c where
    c: "buf_write b (be32_bytes p) = (c, True)" "buf_wf c" "buf_content c = buf_content b @ be32_bytes p"
    "b_offset c = b_offset b" "b_capacity c = b_capacity b"
    "buf_forward_capacity c = buf_forward_capacity b - 4" by auto
  then show ?case using Cons.IH [OF c(2)] Cons.prems(2) by auto
qed simp

lemma buf_full_data:
  assumes "buf_wf b" "b_offset b = 0" "buf_forward_capacity b = 0"
  shows "b_data b = Some (buf_content b)"
proof -
  obtain d where d: "b_data b = Some d" "int (length d) = b_capacity b" using assms(1) by (auto elim: buf_wfE)
  have "nat (b_len b) = length d" using assms d by (simp add: buf_forward_capacity_eq)
  then show ?thesis using buf_content_eq [OF assms(1) d(1)] assms(2) d(1) by (simp add: segment_all)
qed

lemma reliable_ack_parse_loop_law:
  assumes "buf_wf b" "buf_content b = concat (map be32_bytes pids) @ rest"
    "length (ra_packet_id a) = 8" "0 \<le> ra_len a" "nat (ra_len a) + length pids \<le> 8"
  shows "\<exists>b' a'. reliable_ack_parse_loop (length pids) b a = (b', a', True) \<and> buf_wf b' \<and> buf_content b' = rest
    \<and> ra_ids a' = ra_ids a @ pids \<and> ra_len a' = ra_len a + int (length pids) \<and> length (ra_packet_id a') = 8"
  using assms
proof (induction pids arbitrary: b a)
  case (Cons p ps)
  obtain c where c: "buf_read b 4 = (c, Some (be32_bytes p))" "buf_wf c"
    "buf_content c = concat (map be32_bytes ps) @ rest"
    using bs.get_law [OF Cons.prems(1), of 4] Cons.prems(2) by auto
  let ?a = "a\<lparr>ra_packet_id := (ra_packet_id a)[nat (ra_len a) := p], ra_len := ra_len a + 1\<rparr>"
  have lt: "nat (ra_len a) < length (ra_packet_id a)" using Cons.prems(3,5) by simp
  have sn: "nat (ra_len a + 1) = Suc (nat (ra_len a))" using Cons.prems(4) by (simp add: nat_add_distrib)
  then have ids: "ra_ids ?a = ra_ids a @ [p]"
    using take_list_update_append [OF lt, of p] by (simp add: ra_ids_def)
  obtain b' a' where r: "reliable_ack_parse_loop (length ps) c ?a = (b', a', True)" "buf_wf b'"
    "buf_content b' = rest" "ra_ids a' = ra_ids ?a @ ps" "ra_len a' = ra_len ?a + int (length ps)"
    "length (ra_packet_id a') = 8"
    using Cons.IH [OF c(2,3), of ?a] Cons.prems(3-5) sn by auto
  have "\<not> ra_len a \<ge> RELIABLE_ACK_SIZE" using Cons.prems(4,5) by (simp add: RELIABLE_ACK_SIZE_def)
  then show ?case using c(1) r ids by simp
qed simp

text \<open>
  C27: Acknowledgment round trip.  Writing a record of at most \<open>mx\<close> acknowledgments in front of a packet
  with enough headroom takes the first \<open>mx\<close> pending identifiers, and fills up, to \<open>mx\<close> if there are
  as many, with the most recently acknowledged ones that are not among them, the latest
  first.  It removes exactly the former from the pending list and makes them the latest of the recent
  ones; the peer parses back exactly the identifiers written, in order, the session identifier
  and the untouched packet.
\<close>

theorem ack_write_parse:
  assumes a: "ra_wf a" and mru: "ra_wf mru" and sid: "sid_wf sid" "session_id_defined sid"
    and mx: "0 \<le> mx" "mx \<le> 8" and b: "buf_wf b" "41 \<le> b_offset b" and r: "ra_wf r"
  shows "\<exists>a' mru' b' pids. reliable_ack_write a mru b sid mx True = Some (a', mru', b', True)
     \<and> buf_wf b' \<and> ra_wf a' \<and> ra_wf mru'
     \<and> ra_ids a' = drop (nat mx) (ra_ids a)
     \<and> ra_ids mru' = mru_after (take (nat mx) (ra_ids a)) (ra_ids mru)
     \<and> pids = take (nat mx) (mru_after (take (nat mx) (ra_ids a)) (ra_ids mru))
     \<and> (\<exists>b'' r' sid'. reliable_ack_parse b' r sid0 = (b'', r', sid', True) \<and> ra_ids r' = pids
          \<and> (pids \<noteq> [] \<longrightarrow> sid_id sid' = sid_id sid) \<and> buf_content b'' = buf_content b)"
proof -
  define n where "n = min (ra_len a) mx"
  have n: "0 \<le> n" "n \<le> ra_len a" "n \<le> 8" using a mx by (auto simp: n_def ra_wf_def)
  have n8: "(if uint (word_of_int (ra_len a) :: u8) > mx then word_of_int mx else word_of_int (ra_len a)) = (word_of_int n :: u8)"
    using a mx by (auto simp: n_def ra_wf_def uint_word_of_int take_bit_int_eq_self min_def)
  have un: "uint (word_of_int n :: u8) = n" using n by (simp add: uint_word_of_int take_bit_int_eq_self)
  obtain m where m: "copy_acks_to_mru a mru n = Some m" "ra_wf m"
    "ra_ids m = mru_after (take (nat n) (ra_ids a)) (ra_ids mru)"
    using copy_acks_to_mru_law [OF a mru n(1,2)] by blast
  define t where "t = min mx (ra_len m)"
  have t: "0 \<le> t" "t \<le> 8" "t \<le> ra_len m" "n \<le> t"
  proof -
    show "0 \<le> t" "t \<le> 8" "t \<le> ra_len m" using m(2) mx by (auto simp: t_def ra_wf_def)
    have "nat n \<le> nat (ra_len m)"
      using length_ra_ids [OF m(2)] length_ra_ids [OF a] n m(3) by (simp add: mru_after_def)
    then have "n \<le> ra_len m" using n(1) m(2) unfolding ra_wf_def by linarith
    then show "n \<le> t" by (simp add: n_def t_def)
  qed
  have ut: "uint (word_of_int t :: u8) = t" "unat (word_of_int t :: u8) = nat t"
    using t by (simp_all add: uint_word_of_int take_bit_int_eq_self unat_eq_nat_uint)
  define pids where "pids = take (nat t) (ra_packet_id m)"
  have lp: "length pids = nat t" using t m(2) unfolding pids_def ra_wf_def length_take by linarith
  have pids: "pids = take (nat t) (ra_ids m)" using t by (simp add: pids_def ra_ids_def min_def)
  have size: "0 \<le> ACK_SIZE t" "ACK_SIZE t \<le> b_offset b" using t b(2) by (auto simp: ACK_SIZE_def)
  obtain b1 sub p where sub: "buf_sub b (ACK_SIZE t) True = (b1, sub, p)" "buf_wf sub" "buf_content sub = []"
    "b_offset sub = 0" "b_capacity sub = ACK_SIZE t" "buf_forward_capacity sub = ACK_SIZE t"
    and sync: "\<And>sub' d. b_data sub' = Some d \<Longrightarrow> int (length d) = ACK_SIZE t \<Longrightarrow>
       buf_wf (buf_sub_sync b1 p sub') \<and> buf_content (buf_sub_sync b1 p sub') = d @ buf_content b"
    using buf_sub_prepend_law [OF b(1) size] by metis
  obtain s1 where s1: "buf_write_u8 sub (word_of_int t) = (s1, True)" "buf_wf s1" "buf_content s1 = [word_of_int t]"
    "b_offset s1 = 0" "b_capacity s1 = ACK_SIZE t" "buf_forward_capacity s1 = ACK_SIZE t - 1"
    using buf_write_law [OF sub(2), of "[word_of_int t]"] sub(3-6) t by (auto simp: buf_write_u8_def ACK_SIZE_def)
  have "4 * int (length pids) \<le> buf_forward_capacity s1" using s1(6) lp t by (auto simp: ACK_SIZE_def)
  from write_pids_law [OF s1(2) this] obtain s2 where s2: "write_pids pids s1 = Some s2" "buf_wf s2" "b_offset s2 = 0"
    "buf_content s2 = word_of_int t # concat (map be32_bytes pids)" "b_capacity s2 = ACK_SIZE t"
    "buf_forward_capacity s2 = (if t = 0 then 0 else 8)"
    using s1 lp t by (auto simp: ACK_SIZE_def)
  have t0: "(word_of_int t :: u8) = 0 \<longleftrightarrow> t = 0" using ut(1) by (metis uint_0_iff)
  have slen: "length (sid_id sid) = 8" using sid(1) by (simp add: sid_wf_def SID_SIZE_def)
  define rest where "rest = (if t = 0 then [] else sid_id sid)"
  obtain s3 where s3: "(if word_of_int t \<noteq> (0 :: u8)
               then do {
                 ASSERT (session_id_defined sid);
                 let (sub, ok) = session_id_write sid s2;
                 ASSERT ok;
                 Some sub }
               else Some s2) = Some s3" "buf_wf s3" "b_offset s3 = 0" "b_capacity s3 = ACK_SIZE t"
    "buf_content s3 = (word_of_int t # concat (map be32_bytes pids)) @ rest" "buf_forward_capacity s3 = 0"
  proof (cases "t = 0")
    case True
    then show ?thesis using that [of s2] s2 t0 by (simp add: rest_def)
  next
    case False
    have "int (length (sid_id sid)) \<le> buf_forward_capacity s2" using s2(6) False slen by simp
    from buf_write_law [OF s2(2) this] obtain s3 where "buf_write s2 (sid_id sid) = (s3, True)" "buf_wf s3"
      "buf_content s3 = buf_content s2 @ sid_id sid" "b_offset s3 = 0" "b_capacity s3 = ACK_SIZE t"
      "buf_forward_capacity s3 = 0"
      using s2 False slen by auto
    then show ?thesis using that [of s3] s2(4) t0 False sid(2) by (simp add: session_id_write_def rest_def)
  qed
  define a' where "a' = (if word_of_int n \<noteq> (0 :: u8)
      then a\<lparr>ra_packet_id := patch (ra_packet_id a) 0 (drop (nat n) (ra_ids a)), ra_len := max (ra_len a - n) 0\<rparr>
      else a)"
  have unat_n: "unat (word_of_int n :: u8) = nat n" using un by (simp add: unat_eq_nat_uint)
  have dist: "min_int mx (ra_len m) = t" by (simp add: t_def)
  have w: "reliable_ack_write a mru b sid mx True = Some (a', m, buf_sub_sync b1 p s3, True)"
    unfolding reliable_ack_write_def Let_def n8 un m(1) Option.bind.bind_lunit dist ut unat_n sub(1) prod.case
    using buf_wf_valid [OF sub(2)] s1(1) s2(1) s3(1)
    by (cases "(word_of_int t :: u8) = 0")
       (auto simp: buf_defined_def buf_valid_def pids_def a'_def Let_def split: prod.splits if_splits)
  have dat: "b_data s3 = Some (buf_content s3)" by (rule buf_full_data [OF s3(2,3,6)])
  have "int (length (buf_content s3)) = ACK_SIZE t"
    using length_buf_content [OF s3(2)] s3(2,3,4,6) by (simp add: buf_forward_capacity_eq)
  from sync [OF dat this] have b': "buf_wf (buf_sub_sync b1 p s3)"
    "buf_content (buf_sub_sync b1 p s3) = word_of_int t # concat (map be32_bytes pids) @ rest @ buf_content b"
    using s3(5) by simp_all
  have n0: "(word_of_int n :: u8) = 0 \<longleftrightarrow> n = 0" using un by (metis uint_0_iff)
  have len_a: "length (ra_ids a) = nat (ra_len a)" by (rule length_ra_ids [OF a])
  have ids_a': "ra_ids a' = drop (nat n) (ra_ids a) \<and> ra_wf a'"
  proof (cases "n = 0")
    case True
    then show ?thesis using n0 a by (simp add: a'_def)
  next
    case False
    have l: "length (drop (nat n) (ra_ids a)) = nat (ra_len a - n)" using len_a n by (simp add: nat_diff_distrib)
    have "ra_ids a' = drop (nat n) (ra_ids a)"
      using False n0 n(2) l by (simp add: a'_def ra_ids_def [of "a\<lparr>ra_packet_id := _, ra_len := _\<rparr>"] patch_def max_def)
    moreover have "nat (ra_len a - n) \<le> 8" using a n unfolding ra_wf_def by linarith
    then have "length (ra_packet_id a') = 8"
      using False n0 a l by (simp add: a'_def ra_wf_def patch_def)
    moreover have "ra_len a' = ra_len a - n" using False n0 n by (simp add: a'_def max_def)
    ultimately show ?thesis using a n by (simp add: ra_wf_def distinct_drop)
  qed
  have nm: "drop (nat n) (ra_ids a) = drop (nat mx) (ra_ids a)" "take (nat n) (ra_ids a) = take (nat mx) (ra_ids a)"
    using len_a by (auto simp: n_def min_def)
  have sent: "pids = take (nat mx) (mru_after (take (nat mx) (ra_ids a)) (ra_ids mru))"
    unfolding pids m(3) [symmetric] nm(2) [symmetric] using length_ra_ids [OF m(2)] mx
    by (auto simp: t_def min_def)
  obtain c where c: "buf_read (buf_sub_sync b1 p s3) 1 = (c, Some [word_of_int t])" "buf_wf c"
    "buf_content c = concat (map be32_bytes pids) @ rest @ buf_content b"
    using bs.get_law [OF b'(1), of 1] b'(2) by auto
  obtain d r' where d: "reliable_ack_parse_loop (length pids) c (r\<lparr>ra_len := 0\<rparr>) = (d, r', True)" "buf_wf d"
    "buf_content d = rest @ buf_content b" "ra_ids r' = pids"
  proof -
    have "nat t \<le> 8" using t(2) by linarith
    then show ?thesis
      using that reliable_ack_parse_loop_law [OF c(2,3), of "r\<lparr>ra_len := 0\<rparr>"] r lp
      by (auto simp: ra_wf_def ra_ids_def)
  qed
  have "\<exists>b'' r' sid'. reliable_ack_parse (buf_sub_sync b1 p s3) r sid0 = (b'', r', sid', True) \<and> ra_ids r' = pids
          \<and> (pids \<noteq> [] \<longrightarrow> sid_id sid' = sid_id sid) \<and> buf_content b'' = buf_content b"
  proof (cases "t = 0")
    case True
    then show ?thesis using c(1) d lp t0 by (simp add: reliable_ack_parse_def Let_def rest_def)
  next
    case False
    obtain e where "buf_read d 8 = (e, Some (sid_id sid))" "buf_content e = buf_content b"
      using bs.get_law [OF d(2), of 8] d(3) False slen by (auto simp: rest_def)
    then show ?thesis using c(1) d lp t0 ut(2) False
      by (simp add: reliable_ack_parse_def Let_def session_id_read_def SID_SIZE_def)
  qed
  then show ?thesis using w b'(1) ids_a' m(2,3) nm sent by metis
qed

theorem ack_write_parse_witness:
  "\<exists>a' mru' b'. reliable_ack_write \<lparr>ra_len = 1, ra_packet_id = [9, 0, 0, 0, 0, 0, 0, 0]\<rparr>
       \<lparr>ra_len = 2, ra_packet_id = [9, 8, 0, 0, 0, 0, 0, 0]\<rparr>
       \<lparr>b_capacity = 64, b_offset = 50, b_len = 1, b_data = Some (replicate 64 7)\<rparr>
       \<lparr>sid_id = replicate 8 5\<rparr> 4 True = Some (a', mru', b', True) \<and> ra_ids a' = [] \<and> ra_ids mru' = [9, 8]
     \<and> (\<exists>b'' r' sid'. reliable_ack_parse b' \<lparr>ra_len = 0, ra_packet_id = replicate 8 0\<rparr> session_id_zero
          = (b'', r', sid', True) \<and> ra_ids r' = [9, 8])"
proof -
  let ?a = "\<lparr>ra_len = 1, ra_packet_id = [9, 0, 0, 0, 0, 0, 0, 0]\<rparr>"
  let ?b = "\<lparr>b_capacity = 64, b_offset = 50, b_len = 1, b_data = Some (replicate 64 (7 :: u8))\<rparr>"
  let ?m = "\<lparr>ra_len = 2, ra_packet_id = [9, 8, 0, 0, 0, 0, 0, 0]\<rparr>"
  let ?r = "\<lparr>ra_len = 0, ra_packet_id = replicate 8 0\<rparr>"
  let ?s = "\<lparr>sid_id = replicate 8 5\<rparr>"
  have w: "ra_wf ?a" "ra_wf ?m" "ra_wf \<lparr>ra_len = 0, ra_packet_id = replicate 8 0\<rparr>" "buf_wf ?b"
    and ids: "ra_ids ?a = [9]" "ra_ids ?m = [9, 8]"
    by (simp_all add: ra_wf_def ra_ids_def buf_wf_def BUF_SIZE_MAX_def)
  have sid: "sid_wf ?s" "session_id_defined ?s" by code_simp+
  have nums: "(0 :: int) \<le> 4" "(4 :: int) \<le> 8" "41 \<le> b_offset ?b" by simp_all
  have mru: "mru_after (take (nat 4) [9]) [9, 8] = [9, 8]" by (simp add: mru_after_def)
  obtain a' mru' b' pids b'' r' sid' where r: "reliable_ack_write ?a ?m ?b ?s 4 True = Some (a', mru', b', True)"
    "ra_ids a' = drop (nat 4) [9]" "ra_ids mru' = [9, 8]" "pids = take (nat 4) [9, 8]"
    "reliable_ack_parse b' ?r session_id_zero = (b'', r', sid', True)" "ra_ids r' = pids"
    using ack_write_parse [OF w(1,2) sid nums(1,2) w(4) nums(3) w(3), of session_id_zero] unfolding ids mru by blast
  have "ra_ids a' = []" "pids = [9, 8]" using r(2,4) by simp_all
  then show ?thesis using r(1,3,5,6) by blast
qed

end
