(* ===== verification/Reliable_Protocol.thy ===== *)
theory Reliable_Protocol
  imports Reliable
begin

text \<open>
  The reliability layer at work: the control channel of one direction, from the
  queueing of a packet in ssl.c (write_outgoing_tls_ciphertext) through its
  repeated transmission over a network that loses, duplicates and reorders, to
  the receiving code of tls_pre_decrypt and the in-order delivery to the TLS
  object.  A step relation composes the operations of the sender, the receiver
  and the network; its invariant gives in-order, exactly-once delivery.
\<close>

subsection \<open>The callers in ssl.c\<close>

text \<open>
  Queue one packet: the body of the splitting loop, with \<open>buf_copy_n\<close> of the payload
  \<open>p\<close>.  The code ignores the result of the copy, which is the second result here.
\<close>

definition tls_queue_packet :: "reliable \<Rightarrow> bytes \<Rightarrow> int \<Rightarrow> (reliable \<times> bool) option" where
  "tls_queue_packet rel p opcode = do {
     (rel, i) \<leftarrow> reliable_get_buf_output_sequenced rel;
     i \<leftarrow> i;
     let (b, ok) = buf_write (re_buf (rl_array rel ! i)) p;
     rel \<leftarrow> reliable_mark_active_outgoing (rl_update rel i (\<lambda>e. e\<lparr>re_buf := b\<rparr>)) i opcode;
     Some (rel, ok) }"

text \<open>
  Receive a control packet after its acknowledgment record has been taken off.
  The last result is false on the \<open>goto error\<close> path.
\<close>

definition tls_control_receive ::
    "reliable \<Rightarrow> reliable_ack \<Rightarrow> buffer \<Rightarrow> int \<Rightarrow> (reliable \<times> reliable_ack \<times> bool) option" where
  "tls_control_receive rel a b op =
     (if reliable_can_get rel
      then (case reliable_ack_read_packet_id b of
              (b, None) \<Rightarrow> Some (rel, a, True)
            | (b, Some ident) \<Rightarrow>
                (if reliable_wont_break_sequentiality rel ident
                 then do {
                   (rel, ok) \<leftarrow>
                     (if reliable_not_replay rel ident
                      then do {
                        (rel, i) \<leftarrow> reliable_get_buf rel;
                        i \<leftarrow> i;
                        (case buf_copy (re_buf (rl_array rel ! i)) b of
                           (inb, False) \<Rightarrow> Some (rl_update rel i (\<lambda>e. e\<lparr>re_buf := inb\<rparr>), False)
                         | (inb, True) \<Rightarrow> do {
                             rel \<leftarrow> reliable_mark_active_incoming
                                     (rl_update rel i (\<lambda>e. e\<lparr>re_buf := inb\<rparr>)) i ident op;
                             Some (rel, True) }) }
                      else Some (rel, True));
                   Some (rel, if ok then fst (reliable_ack_acknowledge_packet_id a ident) else a, ok) }
                 else Some (rel, a, True)))
      else Some (rel, a, True))"

subsection \<open>Entries of the array\<close>

definition rel_ok :: "reliable \<Rightarrow> bool" where
  "rel_ok rel \<longleftrightarrow> 0 < rl_size rel \<and> rl_size rel \<le> 12 \<and> length (rl_array rel) = 12
     \<and> (\<forall>e \<in> set (rl_entries rel). buf_wf (re_buf e))"

text \<open>The active entry at index \<open>i\<close>, below \<open>rel->size\<close>.\<close>

definition holds :: "reliable \<Rightarrow> nat \<Rightarrow> reliable_entry \<Rightarrow> bool" where
  "holds rel i e \<longleftrightarrow> i < nat (rl_size rel) \<and> i < length (rl_array rel) \<and> e = rl_array rel ! i \<and> re_active e"

lemma rl_entries_nth: "rel_ok rel \<Longrightarrow> i < nat (rl_size rel) \<Longrightarrow> rl_entries rel ! i = rl_array rel ! i"
  by (simp add: rl_entries_def)

lemma length_rl_entries: "rel_ok rel \<Longrightarrow> length (rl_entries rel) = nat (rl_size rel)"
  unfolding rl_entries_def rel_ok_def length_take by linarith

lemma rel_ok_buf: "rel_ok rel \<Longrightarrow> i < nat (rl_size rel) \<Longrightarrow> buf_wf (re_buf (rl_array rel ! i))"
  using length_rl_entries [of rel] rl_entries_nth [of rel i] by (metis nth_mem rel_ok_def)

lemma in_rl_entries:
  "rel_ok rel \<Longrightarrow> e \<in> set (rl_entries rel) \<longleftrightarrow> (\<exists>i < nat (rl_size rel). e = rl_array rel ! i)"
  using length_rl_entries [of rel] rl_entries_nth [of rel] by (auto simp: in_set_conv_nth)

lemma holds_iff:
  "rel_ok rel \<Longrightarrow> holds rel i e \<longleftrightarrow> i < nat (rl_size rel) \<and> e = rl_array rel ! i \<and> re_active e"
  by (auto simp: holds_def rel_ok_def)

lemma find_index_Some:
  "find_index P xs = Some i \<Longrightarrow> i < length xs \<and> P (xs ! i)"
  by (induction xs arbitrary: i) (auto split: if_splits)

lemma find_index_None: "find_index P xs = None \<longleftrightarrow> (\<forall>x \<in> set xs. \<not> P x)"
  by (induction xs) auto

lemma rl_update_simps [simp]:
  "rl_size (rl_update rel i f) = rl_size rel"
  "rl_packet_id (rl_update rel i f) = rl_packet_id rel"
  "rl_offset (rl_update rel i f) = rl_offset rel"
  "rl_initial_timeout (rl_update rel i f) = rl_initial_timeout rel"
  "length (rl_array (rl_update rel i f)) = length (rl_array rel)"
  by (simp_all add: rl_update_def)

lemma rl_update_nth:
  "j < length (rl_array rel) \<Longrightarrow>
     rl_array (rl_update rel i f) ! j = (if j = i then f (rl_array rel ! i) else rl_array rel ! j)"
  by (simp add: rl_update_def nth_list_update)

lemma rel_ok_update:
  assumes "rel_ok rel" "i < nat (rl_size rel)" "buf_wf (re_buf (f (rl_array rel ! i)))"
  shows "rel_ok (rl_update rel i f)"
proof -
  have len: "length (rl_array rel) = 12" "nat (rl_size rel) \<le> 12" using assms(1) by (auto simp: rel_ok_def)
  have "buf_wf (re_buf e)" if mem: "e \<in> set (rl_entries (rl_update rel i f))" for e
  proof -
    have n: "length (rl_entries (rl_update rel i f)) = nat (rl_size rel)"
      using len by (simp add: rl_entries_def)
    obtain j where "j < nat (rl_size rel)" "e = rl_entries (rl_update rel i f) ! j"
      using mem unfolding in_set_conv_nth n by blast
    then have j: "j < nat (rl_size rel)" "e = rl_array (rl_update rel i f) ! j"
      by (simp_all add: rl_entries_def)
    then show ?thesis
      using assms(3) rel_ok_buf [OF assms(1), of j] rl_update_nth [of j rel i f] len by auto
  qed
  then show ?thesis using assms(1) by (simp add: rel_ok_def)
qed

lemma holds_update:
  assumes "rel_ok rel" "i < nat (rl_size rel)"
  shows "holds (rl_update rel i f) j e \<longleftrightarrow>
     (if j = i then e = f (rl_array rel ! i) \<and> re_active e else holds rel j e)"
  using assms by (auto simp: holds_def rl_update_nth rel_ok_def)

lemma reliable_get_buf_law:
  assumes ok: "rel_ok rel" and g: "reliable_get_buf rel = Some (rel', Some i)"
  shows "rel_ok rel' \<and> i < nat (rl_size rel) \<and> \<not> re_active (rl_array rel ! i)
     \<and> rl_size rel' = rl_size rel \<and> rl_packet_id rel' = rl_packet_id rel \<and> rl_offset rel' = rl_offset rel
     \<and> buf_content (re_buf (rl_array rel' ! i)) = [] \<and> (\<forall>j e. holds rel' j e = holds rel j e)
     \<and> \<not> re_active (rl_array rel' ! i) \<and> rl_initial_timeout rel' = rl_initial_timeout rel"
proof -
  have fi: "find_index (\<lambda>e. \<not> re_active e) (rl_entries rel) = Some i"
    using g by (auto simp: reliable_get_buf_def option_bind_Some_iff Let_def split: option.splits prod.splits if_splits)
  then have i: "i < nat (rl_size rel)" "\<not> re_active (rl_array rel ! i)"
    using find_index_Some [OF fi] length_rl_entries [OF ok] rl_entries_nth [OF ok] by auto
  have il: "i < length (rl_array rel)" using i ok by (auto simp: rel_ok_def)
  obtain b where b: "buf_init (re_buf (rl_array rel ! i)) (rl_offset rel) = (b, True)"
    "rel' = rl_update rel i (\<lambda>e. e\<lparr>re_buf := b\<rparr>)"
    using g fi by (auto simp: reliable_get_buf_def option_bind_Some_iff Let_def split: prod.splits if_splits)
  have wfb: "buf_wf b" using buf_init_wf [OF rel_ok_buf [OF ok i(1)], of "rl_offset rel"] b(1) by simp
  have cb: "buf_content b = []"
    using b(1) by (auto simp: buf_init_def buf_content_def buf_peek_def split: if_splits option.splits)
  have "holds rel' j e = holds rel j e" for j e
    using holds_update [OF ok i(1), of "\<lambda>e. e\<lparr>re_buf := b\<rparr>" j e] i b(2) ok by (auto simp: holds_iff)
  then show ?thesis
    using rel_ok_update [OF ok i(1), of "\<lambda>e. e\<lparr>re_buf := b\<rparr>"] wfb cb b(2) i il by (simp add: rl_update_nth)
qed

lemma reliable_get_output_is_get:
  "reliable_get_buf_output_sequenced rel = Some (rel', Some i) \<Longrightarrow> reliable_get_buf rel = Some (rel', Some i)"
  by (auto simp: reliable_get_buf_output_sequenced_def split: option.splits if_splits)

text \<open>The identifiers and contents of the active entries.\<close>

definition act :: "reliable \<Rightarrow> (u32 \<times> bytes) set" where
  "act rel = {(re_packet_id e, buf_content (re_buf e)) | i e. holds rel i e}"

definition uniq_ids :: "reliable \<Rightarrow> bool" where
  "uniq_ids rel \<longleftrightarrow> (\<forall>i j d e. holds rel i d \<and> holds rel j e \<and> re_packet_id d = re_packet_id e \<longrightarrow> i = j)"

lemma actI: "holds rel i e \<Longrightarrow> (re_packet_id e, buf_content (re_buf e)) \<in> act rel"
  by (auto simp: act_def)

lemma act_cong: "(\<And>i e. holds r i e = holds q i e) \<Longrightarrow> act r = act q"
  by (simp add: act_def)

lemma reliable_mark_active_outgoing_law:
  assumes ok: "rel_ok rel" and m: "reliable_mark_active_outgoing rel i op = Some rel'"
    and idle: "\<not> re_active (rl_array rel ! i)"
  shows "rel_ok rel' \<and> rl_packet_id rel' = rl_packet_id rel + 1 \<and> rl_size rel' = rl_size rel
     \<and> act rel' = insert (rl_packet_id rel, be32_bytes (rl_packet_id rel) @ buf_content (re_buf (rl_array rel ! i))) (act rel)"
proof -
  let ?pid = "rl_packet_id rel" and ?rel = "rel\<lparr>rl_packet_id := rl_packet_id rel + 1\<rparr>"
  have i: "i < nat (rl_size rel)" using m by (simp add: reliable_mark_active_outgoing_def split: if_splits)
  obtain b where b: "buf_write_prepend (re_buf (rl_array rel ! i)) (be32_bytes ?pid) = (b, True)"
    and rel': "rel' = rl_update ?rel i (\<lambda>e. e\<lparr>re_buf := b, re_packet_id := ?pid, re_active := True,
        re_opcode := op, re_next_try := 0, re_timeout := rl_initial_timeout rel\<rparr>)"
    using m i by (auto simp: reliable_mark_active_outgoing_def Let_def split: prod.splits if_splits)
  have wf: "buf_wf (re_buf (rl_array rel ! i))" by (rule rel_ok_buf [OF ok i])
  have "int (length (be32_bytes ?pid)) \<le> b_offset (re_buf (rl_array rel ! i))"
    by (rule ccontr) (use buf_write_prepend_full [OF wf, of "be32_bytes ?pid"] b in auto)
  from buf_write_prepend_law [OF wf this] b
  have b': "buf_wf b" "buf_content b = be32_bytes ?pid @ buf_content (re_buf (rl_array rel ! i))" by auto
  have ok1: "rel_ok ?rel" using ok by (simp add: rel_ok_def rl_entries_def)
  have h: "holds rel' j e = (if j = i then e = rl_array rel' ! i else holds rel j e)" for j e
    using holds_update [OF ok1, of i _ j e] i rel' ok by (auto simp: holds_def rl_update_def rel_ok_def)
  have il: "i < length (rl_array rel)" using i ok by (auto simp: rel_ok_def)
  have e: "re_packet_id (rl_array rel' ! i) = ?pid" "re_buf (rl_array rel' ! i) = b"
    using il by (simp_all add: rel' rl_update_nth)
  have "act rel' = insert (?pid, buf_content b) (act rel)"
  proof (intro set_eqI iffI)
    fix x assume "x \<in> act rel'"
    then obtain j d where "x = (re_packet_id d, buf_content (re_buf d))" "holds rel' j d" by (auto simp: act_def)
    then show "x \<in> insert (?pid, buf_content b) (act rel)"
      using h e actI by (cases "j = i") auto
  next
    fix x assume "x \<in> insert (?pid, buf_content b) (act rel)"
    then consider "x = (?pid, buf_content b)" | j d where "x = (re_packet_id d, buf_content (re_buf d))" "holds rel j d"
      by (auto simp: act_def)
    then show "x \<in> act rel'"
    proof cases
      case 1
      have "holds rel' i (rl_array rel' ! i)" using h by simp
      from actI [OF this] show ?thesis using 1 e by simp
    next
      case 2
      then have "j \<noteq> i" using idle by (auto simp: holds_def)
      then have "holds rel' j d" using 2 h by simp
      from actI [OF this] show ?thesis using 2 by simp
    qed
  qed
  then show ?thesis using b' rel_ok_update [OF ok1] i rel' by simp
qed

lemma tls_queue_packet_law:
  assumes ok: "rel_ok rel" and q: "tls_queue_packet rel p op = Some (rel', True)"
  shows "rel_ok rel' \<and> rl_packet_id rel' = rl_packet_id rel + 1 \<and> rl_size rel' = rl_size rel
     \<and> act rel' = insert (rl_packet_id rel, be32_bytes (rl_packet_id rel) @ p) (act rel)"
proof -
  obtain r1 i b where g: "reliable_get_buf rel = Some (r1, Some i)"
    and w: "buf_write (re_buf (rl_array r1 ! i)) p = (b, True)"
    and m: "reliable_mark_active_outgoing (rl_update r1 i (\<lambda>e. e\<lparr>re_buf := b\<rparr>)) i op = Some rel'"
  proof -
    obtain r1 i where r1: "reliable_get_buf_output_sequenced rel = Some (r1, Some i)"
      using q by (auto simp: tls_queue_packet_def option_bind_Some_iff)
    obtain b k where w: "buf_write (re_buf (rl_array r1 ! i)) p = (b, k)" by fastforce
    then show ?thesis
      using that [OF reliable_get_output_is_get [OF r1]] q r1
      by (auto simp: tls_queue_packet_def option_bind_Some_iff)
  qed
  note l = reliable_get_buf_law [OF ok g]
  have i: "i < nat (rl_size r1)" using l by simp
  have wf: "buf_wf (re_buf (rl_array r1 ! i))" using rel_ok_buf [of r1 i] l i by blast
  have "int (length p) \<le> buf_forward_capacity (re_buf (rl_array r1 ! i))"
    by (rule ccontr) (use buf_write_full [OF wf, of p] w in auto)
  from buf_write_law [OF wf this] w l have b: "buf_wf b" "buf_content b = p" by auto
  let ?r2 = "rl_update r1 i (\<lambda>e. e\<lparr>re_buf := b\<rparr>)"
  have ok2: "rel_ok ?r2" using rel_ok_update [of r1 i] l i b by simp
  have il: "i < length (rl_array r1)" using i l by (auto simp: rel_ok_def)
  have ent: "re_buf (rl_array ?r2 ! i) = b" "\<not> re_active (rl_array ?r2 ! i)"
    using l il by (simp_all add: rl_update_nth)
  have "holds ?r2 j e = holds rel j e" for j e
  proof -
    have idle: "\<not> holds r1 i d" for d using l by (simp add: holds_def)
    show ?thesis
    proof (cases "j = i")
      case True
      have "\<not> holds rel i e" using idle l by metis
      then show ?thesis using holds_update [of r1 i "\<lambda>e. e\<lparr>re_buf := b\<rparr>" i e] l i True by auto
    next
      case False
      then show ?thesis using holds_update [of r1 i "\<lambda>e. e\<lparr>re_buf := b\<rparr>" j e] l i by simp
    qed
  qed
  then have "act ?r2 = act rel" by (rule act_cong)
  then show ?thesis
    using reliable_mark_active_outgoing_law [OF ok2 m ent(2)] ent(1) b l by simp
qed

lemma send_best_active:
  "send_best now es k best = Some (i, pid) \<Longrightarrow> best = Some (i, pid) \<or> (k \<le> i \<and> i < k + length es
     \<and> re_active (es ! (i - k)) \<and> re_packet_id (es ! (i - k)) = pid)"
proof (induction es arbitrary: k best)
  case (Cons e es)
  have step: "(k \<le> i \<and> i < k + length (e # es) \<and> re_active ((e # es) ! (i - k))
      \<and> re_packet_id ((e # es) ! (i - k)) = pid)"
    if "Suc k \<le> i \<and> i < Suc k + length es \<and> re_active (es ! (i - Suc k))
      \<and> re_packet_id (es ! (i - Suc k)) = pid"
    using that by (auto simp: nth_Cons split: nat.splits) (metis Suc_diff_Suc diff_Suc_1 less_eq_Suc_le)+
  show ?case
    using Cons.prems Cons.IH [of "Suc k" "Some (k, re_packet_id e)"] Cons.IH [of "Suc k" best] step
    by (auto split: if_splits)
qed simp

lemma holds_same_update:
  assumes "rel_ok rel" "i < nat (rl_size rel)"
    "\<And>e. re_packet_id (f e) = re_packet_id e \<and> re_buf (f e) = re_buf e \<and> re_active (f e) = re_active e"
  shows "act (rl_update rel i f) = act rel" "rel_ok (rl_update rel i f)"
proof -
  have hu: "holds (rl_update rel i f) j e \<longleftrightarrow> (if j = i then e = f (rl_array rel ! i) \<and> re_active e else holds rel j e)"
    for j e by (rule holds_update [OF assms(1,2)])
  show "act (rl_update rel i f) = act rel"
  proof (intro set_eqI iffI)
    fix x assume "x \<in> act (rl_update rel i f)"
    then obtain j e where x: "x = (re_packet_id e, buf_content (re_buf e))" "holds (rl_update rel i f) j e"
      by (auto simp: act_def)
    show "x \<in> act rel"
    proof (cases "j = i")
      case True
      then have "holds rel i (rl_array rel ! i)" "x = (re_packet_id (rl_array rel ! i), buf_content (re_buf (rl_array rel ! i)))"
        using x hu assms holds_iff [OF assms(1)] by auto
      then show ?thesis using actI by metis
    qed (use x hu actI in auto)
  next
    fix x assume "x \<in> act rel"
    then obtain j e where x: "x = (re_packet_id e, buf_content (re_buf e))" "holds rel j e"
      by (auto simp: act_def)
    show "x \<in> act (rl_update rel i f)"
    proof (cases "j = i")
      case True
      then have "holds (rl_update rel i f) i (f e)"
        using hu [of i "f e"] x(2) assms(3) [of e] holds_iff [OF assms(1), of i e] by auto
      from actI [OF this] show ?thesis using x(1) assms(3) by simp
    next
      case False
      then have "holds (rl_update rel i f) j e" using x hu by simp
      from actI [OF this] show ?thesis using x(1) by simp
    qed
  qed
  show "rel_ok (rl_update rel i f)"
    using rel_ok_update [OF assms(1,2)] rel_ok_buf [OF assms(1,2)] assms(3) by simp
qed

lemma reliable_send_law:
  assumes ok: "rel_ok rel" and s: "reliable_send now rel = (rel', Some (i, op))"
  shows "rel_ok rel' \<and> act rel' = act rel \<and> rl_packet_id rel' = rl_packet_id rel \<and> rl_size rel' = rl_size rel
     \<and> (re_packet_id (rl_array rel' ! i), buf_content (re_buf (rl_array rel' ! i))) \<in> act rel"
proof -
  obtain pid where sb: "send_best now (rl_entries rel) 0 None = Some (i, pid)"
    and rel': "rel' = rl_update rel i (\<lambda>e. e\<lparr>re_next_try := now + re_timeout e, re_timeout := re_timeout e * 2,
                                  re_n_acks := 0\<rparr>)"
    using s by (auto simp: reliable_send_def split: option.splits prod.splits)
  have i: "i < nat (rl_size rel)" "re_active (rl_array rel ! i)"
    using send_best_active [OF sb] length_rl_entries [OF ok] rl_entries_nth [OF ok] by auto
  have il: "i < length (rl_array rel)" using i ok by (auto simp: rel_ok_def)
  have "holds rel i (rl_array rel ! i)" using i holds_iff [OF ok] by simp
  from actI [OF this] show ?thesis
    using holds_same_update [OF ok i(1), of "\<lambda>e. e\<lparr>re_next_try := now + re_timeout e, re_timeout := re_timeout e * 2,
        re_n_acks := 0\<rparr>"] il by (simp add: rel' rl_update_nth)
qed

text \<open>Operations that change every visited entry.\<close>

lemma entries_map:
  assumes ok: "rel_ok rel" and g: "\<And>e. re_buf (g e) = re_buf e \<and> re_packet_id (g e) = re_packet_id e"
    and arr: "rl_array rel' = map g (rl_entries rel) @ drop (nat (rl_size rel)) (rl_array rel)"
    and same: "rl_size rel' = rl_size rel"
  shows "rel_ok rel' \<and> act rel' = {(re_packet_id e, buf_content (re_buf e)) | i e. holds rel i e \<and> re_active (g e)}
      \<union> {(re_packet_id e, buf_content (re_buf e)) | i e. i < nat (rl_size rel) \<and> e = rl_array rel ! i \<and> \<not> re_active e \<and> re_active (g e)}"
proof -
  have len: "length (rl_entries rel) = nat (rl_size rel)" "length (rl_array rel) = 12" "nat (rl_size rel) \<le> 12"
    using length_rl_entries [OF ok] ok by (auto simp: rel_ok_def)
  have nth: "rl_array rel' ! i = g (rl_array rel ! i)" if "i < nat (rl_size rel)" for i
    using that len rl_entries_nth [OF ok that] by (simp add: arr nth_append)
  have ent: "rl_entries rel' = map g (rl_entries rel)" using len same by (simp add: arr rl_entries_def [of rel'])
  have ok': "rel_ok rel'" using ok len same g by (auto simp: rel_ok_def ent arr)
  have h: "holds rel' i e \<longleftrightarrow> i < nat (rl_size rel) \<and> e = g (rl_array rel ! i) \<and> re_active e" for i e
    using holds_iff [OF ok'] same nth by auto
  have "act rel' = {(re_packet_id (g e), buf_content (re_buf (g e))) | i e. i < nat (rl_size rel) \<and> e = rl_array rel ! i \<and> re_active (g e)}"
    unfolding act_def h by blast
  also have "\<dots> = {(re_packet_id e, buf_content (re_buf e)) | i e. i < nat (rl_size rel) \<and> e = rl_array rel ! i \<and> re_active (g e)}"
    using g by simp
  finally show ?thesis using ok' holds_iff [OF ok] by blast
qed

lemma reliable_schedule_now_law:
  assumes "rel_ok rel"
  shows "rel_ok (reliable_schedule_now now rel) \<and> act (reliable_schedule_now now rel) = act rel
     \<and> rl_packet_id (reliable_schedule_now now rel) = rl_packet_id rel
     \<and> rl_size (reliable_schedule_now now rel) = rl_size rel"
  using entries_map [OF assms, of "\<lambda>e. if re_active e
      then e\<lparr>re_next_try := now, re_timeout := rl_initial_timeout rel\<rparr> else e" "reliable_schedule_now now rel"]
  by (auto simp: reliable_schedule_now_def act_def holds_def split: if_splits)

lemma purge_all_map: "purge_all pids es = map (\<lambda>e. fold purge_entry pids e) es"
  by (induction pids arbitrary: es) auto

lemma fold_purge_entry:
  "re_buf (fold purge_entry pids e) = re_buf e \<and> re_packet_id (fold purge_entry pids e) = re_packet_id e
   \<and> re_active (fold purge_entry pids e) = (re_active e \<and> re_packet_id e \<notin> set pids)"
  by (induction pids arbitrary: e) (auto simp: purge_entry_def)

lemma reliable_send_purge_law:
  assumes "rel_ok rel"
  shows "rel_ok (reliable_send_purge rel a) \<and> act (reliable_send_purge rel a) = {x \<in> act rel. fst x \<notin> set (ra_ids a)}
     \<and> rl_packet_id (reliable_send_purge rel a) = rl_packet_id rel
     \<and> rl_size (reliable_send_purge rel a) = rl_size rel"
  using entries_map [OF assms, of "fold purge_entry (ra_ids a)" "reliable_send_purge rel a"] fold_purge_entry [of "ra_ids a"]
  by (auto simp: reliable_send_purge_def purge_all_map act_def holds_def)

subsection \<open>The receiver\<close>

lemma holds_uniq_update:
  assumes ok: "rel_ok rel" and i: "i < nat (rl_size rel)" and idle: "\<not> re_active (rl_array rel ! i)"
    and f: "re_active (f (rl_array rel ! i))" and wf: "buf_wf (re_buf (f (rl_array rel ! i)))"
  shows "act (rl_update rel i f) = insert (re_packet_id (f (rl_array rel ! i)), buf_content (re_buf (f (rl_array rel ! i)))) (act rel)"
    "uniq_ids rel \<Longrightarrow> re_packet_id (f (rl_array rel ! i)) \<notin> fst ` act rel \<Longrightarrow> uniq_ids (rl_update rel i f)"
proof -
  let ?r = "rl_update rel i f" and ?e = "f (rl_array rel ! i)"
  have h: "holds ?r j e \<longleftrightarrow> (if j = i then e = ?e else holds rel j e)" for j e
    using holds_update [OF ok i, of f j e] f by auto
  have hi: "holds ?r i ?e" using h by simp
  have keep: "holds ?r j e" if "holds rel j e" for j e
  proof -
    have "j \<noteq> i" using that idle by (auto simp: holds_def)
    then show ?thesis using that h by simp
  qed
  show "act ?r = insert (re_packet_id ?e, buf_content (re_buf ?e)) (act rel)"
  proof (intro set_eqI iffI)
    fix x assume "x \<in> act ?r"
    then obtain j d where "x = (re_packet_id d, buf_content (re_buf d))" "holds ?r j d" by (auto simp: act_def)
    then show "x \<in> insert (re_packet_id ?e, buf_content (re_buf ?e)) (act rel)"
      using h actI by (cases "j = i") auto
  next
    fix x assume "x \<in> insert (re_packet_id ?e, buf_content (re_buf ?e)) (act rel)"
    then consider "x = (re_packet_id ?e, buf_content (re_buf ?e))"
      | j d where "x = (re_packet_id d, buf_content (re_buf d))" "holds rel j d" by (auto simp: act_def)
    then show "x \<in> act ?r" by cases (use actI [OF hi] actI [OF keep] in auto)
  qed
  show "uniq_ids ?r" if u: "uniq_ids rel" and new: "re_packet_id ?e \<notin> fst ` act rel"
  proof -
    have "re_packet_id d \<noteq> re_packet_id ?e" if "holds rel j d" for j d
      using new actI [OF that] by force
    then show ?thesis using u unfolding uniq_ids_def h by (metis (full_types))
  qed
qed

lemma mark_active_incoming_law:
  assumes ok: "rel_ok rel" and idle: "\<not> re_active (rl_array rel ! i)"
    and m: "reliable_mark_active_incoming rel i pid op = Some rel'"
  shows "rel_ok rel' \<and> rl_packet_id rel' = rl_packet_id rel \<and> rl_size rel' = rl_size rel
     \<and> act rel' = insert (pid, buf_content (re_buf (rl_array rel ! i))) (act rel)
     \<and> (uniq_ids rel \<longrightarrow> pid \<notin> fst ` act rel \<longrightarrow> uniq_ids rel')"
proof -
  let ?f = "\<lambda>e. e\<lparr>re_active := True, re_packet_id := pid, re_opcode := op,
                re_next_try := 0, re_timeout := 0, re_n_acks := 0\<rparr>"
  have i: "i < nat (rl_size rel)" and rel': "rel' = rl_update rel i ?f"
    using m by (auto simp: reliable_mark_active_incoming_def split: if_splits)
  have wf: "buf_wf (re_buf (?f (rl_array rel ! i)))" using rel_ok_buf [OF ok i] by simp
  show ?thesis
    using holds_uniq_update [OF ok i idle, of ?f] wf rel_ok_update [OF ok i, of ?f] by (simp add: rel')
qed

lemma not_replay_absent:
  assumes "rel_ok rel" "reliable_not_replay rel ident"
  shows "ident \<notin> fst ` act rel" "\<not> reliable_pid_min ident (rl_packet_id rel)"
proof -
  have none: "\<not> (re_active e \<and> re_packet_id e = ident)" if "e \<in> set (rl_entries rel)" for e
    using assms(2) that by (auto simp: reliable_not_replay_def list_ex_iff split: if_splits)
  show "ident \<notin> fst ` act rel"
  proof
    assume "ident \<in> fst ` act rel"
    then obtain i e where "holds rel i e" "re_packet_id e = ident" by (auto simp: act_def)
    then show False using none [of e] assms(1) holds_iff in_rl_entries by blast
  qed
  show "\<not> reliable_pid_min ident (rl_packet_id rel)"
    using assms(2) by (auto simp: reliable_not_replay_def split: if_splits)
qed

lemma replay_reason:
  assumes "rel_ok rel" "\<not> reliable_not_replay rel ident"
  shows "reliable_pid_min ident (rl_packet_id rel) \<or> ident \<in> fst ` act rel"
proof (cases "reliable_pid_min ident (rl_packet_id rel)")
  case False
  then obtain e where "e \<in> set (rl_entries rel)" "re_active e" "re_packet_id e = ident"
    using assms(2) by (auto simp: reliable_not_replay_def list_ex_iff split: if_splits)
  then obtain i where "holds rel i e" using assms(1) by (auto simp: in_rl_entries holds_iff)
  from actI [OF this] show ?thesis using \<open>re_packet_id e = ident\<close> by force
qed simp

lemma tls_control_receive_law:
  assumes ok: "rel_ok rel" and uniq: "uniq_ids rel" and b: "buf_wf b" "buf_content b = be32_bytes ident @ p"
    and r: "tls_control_receive rel a b op = Some (rel', a', res)"
  shows "rel_ok rel' \<and> uniq_ids rel' \<and> rl_packet_id rel' = rl_packet_id rel \<and> rl_size rel' = rl_size rel
     \<and> (act rel' = act rel \<and> a' = a
        \<or> reliable_wont_break_sequentiality rel ident \<and> a' = fst (reliable_ack_acknowledge_packet_id a ident) \<and>
          (act rel' = act rel \<and> \<not> reliable_not_replay rel ident
           \<or> act rel' = insert (ident, p) (act rel) \<and> reliable_not_replay rel ident))"
proof -
  obtain b1 where b1: "reliable_ack_read_packet_id b = (b1, Some ident)" "buf_wf b1" "buf_content b1 = p"
    using bs.get_law [OF b(1), of 4] b(2) by (auto simp: reliable_ack_read_packet_id_def)
  show ?thesis
  proof (cases "reliable_can_get rel \<and> reliable_wont_break_sequentiality rel ident \<and> reliable_not_replay rel ident")
    case False
    then show ?thesis using r b1(1) ok uniq
      by (auto simp: tls_control_receive_def split: if_splits)
  next
    case True
    obtain r1 i where g: "reliable_get_buf rel = Some (r1, Some i)"
      using r True b1(1) by (auto simp: tls_control_receive_def option_bind_Some_iff)
    note l = reliable_get_buf_law [OF ok g]
    obtain inb k where c: "buf_copy (re_buf (rl_array r1 ! i)) b1 = (inb, k)" by fastforce
    have i: "i < nat (rl_size r1)" "i < length (rl_array r1)" using l by (auto simp: rel_ok_def)
    have wf1: "buf_wf (re_buf (rl_array r1 ! i))" using rel_ok_buf [of r1 i] l i by blast
    have wfi: "buf_wf inb" using buf_write_wf [OF wf1, of "buf_content b1"] c by (simp add: buf_copy_def)
    let ?r2 = "rl_update r1 i (\<lambda>e. e\<lparr>re_buf := inb\<rparr>)"
    have ok2: "rel_ok ?r2" using rel_ok_update [of r1 i] l i wfi by simp
    have h2: "holds ?r2 j e \<longleftrightarrow> holds rel j e" for j e
    proof (cases "j = i")
      case True
      have "\<not> holds r1 i d" for d using l by (simp add: holds_def)
      then have "\<not> holds rel i e" using l by metis
      then show ?thesis using holds_update [of r1 i "\<lambda>e. e\<lparr>re_buf := inb\<rparr>" i e] l i True by auto
    next
      case False
      then show ?thesis using holds_update [of r1 i "\<lambda>e. e\<lparr>re_buf := inb\<rparr>" j e] l i by simp
    qed
    have act2: "act ?r2 = act rel" by (rule act_cong) (rule h2)
    have uniq2: "uniq_ids ?r2" using uniq by (simp add: uniq_ids_def h2)
    have idle2: "\<not> re_active (rl_array ?r2 ! i)" "re_buf (rl_array ?r2 ! i) = inb"
      using l i by (simp_all add: rl_update_nth)
    show ?thesis
    proof (cases k)
      case False
      then have "rel' = ?r2" "a' = a"
        using r True b1(1) g c by (auto simp: tls_control_receive_def)
      then show ?thesis using ok2 uniq2 act2 l by simp
    next
      case k: True
      have "b_len b1 \<le> buf_forward_capacity (re_buf (rl_array r1 ! i))"
      proof (rule ccontr)
        assume "\<not> ?thesis"
        then have "buf_forward_capacity (re_buf (rl_array r1 ! i)) < int (length (buf_content b1))"
          using length_buf_content [OF b1(2)] by simp
        from buf_write_full [OF wf1 this] show False using c k by (simp add: buf_copy_def)
      qed
      from buf_copy_law [OF wf1 b1(2) this] c k have ci: "buf_content inb = p"
        using l b1(3) by auto
      obtain r3 where m: "reliable_mark_active_incoming ?r2 i ident op = Some r3" "rel' = r3"
        "a' = fst (reliable_ack_acknowledge_packet_id a ident)"
        using r True b1(1) g c k by (auto simp: tls_control_receive_def option_bind_Some_iff)
      show ?thesis
        using mark_active_incoming_law [OF ok2 idle2(1) m(1)] m(2,3) act2 uniq2 ci idle2(2) l True
          not_replay_absent(1) [OF ok, of ident]
        by simp
    qed
  qed
qed

lemma deliver_law:
  assumes ok: "rel_ok rel" and uniq: "uniq_ids rel"
    and g: "reliable_get_entry_sequenced rel = Some i" and m: "reliable_mark_deleted rel i = Some rel'"
  shows "(rl_packet_id rel, buf_content (re_buf (rl_array rel ! i))) \<in> act rel \<and> rel_ok rel' \<and> uniq_ids rel'
     \<and> act rel' = {x \<in> act rel. fst x \<noteq> rl_packet_id rel} \<and> rl_packet_id rel' = rl_packet_id rel + 1
     \<and> rl_size rel' = rl_size rel"
proof -
  have i: "i < nat (rl_size rel)" "re_active (rl_array rel ! i)" "re_packet_id (rl_array rel ! i) = rl_packet_id rel"
    using find_index_Some [OF g [unfolded reliable_get_entry_sequenced_def]]
      length_rl_entries [OF ok] rl_entries_nth [OF ok] by auto
  have hi: "holds rel i (rl_array rel ! i)" using i holds_iff [OF ok] by simp
  let ?r = "rl_update rel i (\<lambda>e. e\<lparr>re_active := False\<rparr>)"
  have rel': "rel' = ?r\<lparr>rl_packet_id := rl_packet_id rel + 1\<rparr>"
    using m i by (simp add: reliable_mark_deleted_def split: if_splits)
  have okr: "rel_ok ?r" using rel_ok_update [OF ok i(1)] rel_ok_buf [OF ok i(1)] by simp
  have h: "holds rel' j e \<longleftrightarrow> j \<noteq> i \<and> holds rel j e" for j e
  proof -
    have "holds rel' j e = holds ?r j e" by (simp add: rel' holds_def)
    then show ?thesis using holds_update [OF ok i(1), of "\<lambda>e. e\<lparr>re_active := False\<rparr>" j e] by auto
  qed
  have other: "re_packet_id e = rl_packet_id rel \<longleftrightarrow> j = i" if "holds rel j e" for j e
    using uniq that hi i(3) by (auto simp: uniq_ids_def holds_def)
  have "act rel' = {x \<in> act rel. fst x \<noteq> rl_packet_id rel}"
    unfolding act_def h using other by fastforce
  moreover have "uniq_ids rel'" using uniq unfolding uniq_ids_def h by blast
  moreover have "rel_ok rel'" using okr by (simp add: rel' rel_ok_def rl_entries_def)
  ultimately show ?thesis using actI [OF hi] i(3) by (simp add: rel')
qed

subsection \<open>The system\<close>

text \<open>
  \<open>sy_sent\<close> is the history of queued payloads, \<open>sy_net\<close> every packet ever transmitted
  (any of them may arrive any number of times, or never), \<open>sy_acked\<close> every
  identifier the receiver ever acknowledged, \<open>sy_delivered\<close> what the TLS object got.
\<close>

record system =
  sy_snd :: reliable
  sy_rcv :: reliable
  sy_ack :: reliable_ack
  sy_sent :: "bytes list"
  sy_net :: "bytes set"
  sy_acked :: "u32 set"
  sy_delivered :: "bytes list"

inductive sys_step :: "system \<Rightarrow> system \<Rightarrow> bool" where
  queue: "tls_queue_packet (sy_snd s) p op = Some (snd', True) \<Longrightarrow>
     sys_step s (s\<lparr>sy_snd := snd', sy_sent := sy_sent s @ [p]\<rparr>)"
| transmit: "reliable_send now (sy_snd s) = (snd', Some (i, op)) \<Longrightarrow>
     sys_step s (s\<lparr>sy_snd := snd', sy_net := insert (buf_content (re_buf (rl_array snd' ! i))) (sy_net s)\<rparr>)"
| receive: "buf_wf b \<Longrightarrow> buf_content b \<in> sy_net s \<Longrightarrow>
     tls_control_receive (sy_rcv s) (sy_ack s) b op = Some (rcv', ack', ok) \<Longrightarrow>
     sys_step s (s\<lparr>sy_rcv := rcv', sy_ack := ack', sy_acked := sy_acked s \<union> set (ra_ids ack')\<rparr>)"
| send_acks: "ra_wf ack' \<Longrightarrow> set (ra_ids ack') \<subseteq> set (ra_ids (sy_ack s)) \<Longrightarrow> sys_step s (s\<lparr>sy_ack := ack'\<rparr>)"
| purge: "set (ra_ids a) \<subseteq> sy_acked s \<Longrightarrow>
     sys_step s (s\<lparr>sy_snd := reliable_send_purge (sy_snd s) a\<rparr>)"
| schedule: "sys_step s (s\<lparr>sy_snd := reliable_schedule_now now (sy_snd s)\<rparr>)"
| deliver: "reliable_get_entry_sequenced (sy_rcv s) = Some i \<Longrightarrow>
     reliable_mark_deleted (sy_rcv s) i = Some rcv' \<Longrightarrow>
     sys_step s (s\<lparr>sy_rcv := rcv', sy_delivered := sy_delivered s @ [buf_content (re_buf (rl_array (sy_rcv s) ! i))]\<rparr>)"

text \<open>Both ends freshly initialised, nothing sent.\<close>

definition sys_init :: "system \<Rightarrow> bool" where
  "sys_init s \<longleftrightarrow>
     (\<exists>bs off ss rs h1 h2 t.
        map_option (\<lambda>r. reliable_set_timeout r t) (reliable_init bs off ss h1) = Some (sy_snd s)
        \<and> reliable_init bs off rs h2 = Some (sy_rcv s))
     \<and> ra_wf (sy_ack s) \<and> ra_ids (sy_ack s) = [] \<and> sy_sent s = [] \<and> sy_net s = {} \<and> sy_acked s = {}
     \<and> sy_delivered s = []"

inductive sys_reach :: "system \<Rightarrow> bool" where
  init: "sys_init s \<Longrightarrow> sys_reach s"
| step: "sys_reach s \<Longrightarrow> sys_step s t \<Longrightarrow> sys_reach t"

inductive_cases sys_stepE: "sys_step s t"

subsection \<open>The invariant\<close>

definition link_inv :: "reliable \<Rightarrow> reliable \<Rightarrow> reliable_ack \<Rightarrow> bytes list \<Rightarrow> bytes set \<Rightarrow> u32 set \<Rightarrow> nat \<Rightarrow> bool" where
  "link_inv snd_rel rcv ack sent net acked D \<longleftrightarrow>
     rel_ok snd_rel \<and> rel_ok rcv \<and> uniq_ids rcv \<and> ra_wf ack
     \<and> rl_packet_id snd_rel = of_nat (length sent) \<and> rl_packet_id rcv = of_nat D
     \<and> D \<le> length sent
     \<and> (\<forall>x \<in> act snd_rel. \<exists>k < length sent. x = (of_nat k, be32_bytes (of_nat k) @ sent ! k))
     \<and> (\<forall>x \<in> act rcv. \<exists>k < length sent. D \<le> k \<and> k < D + nat (rl_size rcv) \<and> x = (of_nat k, sent ! k))
     \<and> (\<forall>x \<in> net. \<exists>k < length sent. x = be32_bytes (of_nat k) @ sent ! k)
     \<and> (\<forall>x \<in> acked \<union> set (ra_ids ack). \<exists>k < length sent. x = of_nat k \<and> (k < D \<or> x \<in> fst ` act rcv))
     \<and> (\<forall>k < length sent. k < D \<or> of_nat k \<in> fst ` act rcv \<or> of_nat k \<in> fst ` act snd_rel)"

definition sys_inv :: "system \<Rightarrow> bool" where
  "sys_inv s \<longleftrightarrow> link_inv (sy_snd s) (sy_rcv s) (sy_ack s) (sy_sent s) (sy_net s) (sy_acked s) (length (sy_delivered s))
     \<and> sy_delivered s = take (length (sy_delivered s)) (sy_sent s)"

lemma link_invI:
  assumes "N = length sent" "rel_ok snd_rel" "rel_ok rcv" "uniq_ids rcv" "ra_wf ack"
    "rl_packet_id snd_rel = of_nat N" "rl_packet_id rcv = of_nat D" "D \<le> N"
    "\<forall>x \<in> act snd_rel. \<exists>k < N. x = (of_nat k, be32_bytes (of_nat k) @ sent ! k)"
    "\<forall>x \<in> act rcv. \<exists>k < N. D \<le> k \<and> k < D + nat (rl_size rcv) \<and> x = (of_nat k, sent ! k)"
    "\<forall>x \<in> net. \<exists>k < N. x = be32_bytes (of_nat k) @ sent ! k"
    "\<forall>x \<in> acked \<union> set (ra_ids ack). \<exists>k < N. x = of_nat k \<and> (k < D \<or> x \<in> fst ` act rcv)"
    "\<forall>k < N. k < D \<or> of_nat k \<in> fst ` act rcv \<or> of_nat k \<in> fst ` act snd_rel"
  shows "link_inv snd_rel rcv ack sent net acked D"
  using assms unfolding link_inv_def assms(1) by (intro conjI)

lemma reliable_init_loop_wf:
  "reliable_init_loop n bs off es = Some es' \<Longrightarrow> \<forall>e \<in> set es. \<not> re_active e \<Longrightarrow>
     length es' = length es \<and> (\<forall>e \<in> set (take n es'). buf_wf (re_buf e)) \<and> (\<forall>e \<in> set es'. \<not> re_active e)"
proof (induction n arbitrary: es es')
  case (Suc n)
  obtain e es1 where es: "es = e # es1" using Suc.prems(1) by (cases es) auto
  obtain b where b: "alloc_buf bs = Some b"
    using Suc.prems(1) by (auto simp: es option_bind_Some_iff)
  obtain c k where c: "buf_init b off = (c, k)" by fastforce
  obtain t where t: "reliable_init_loop n bs off es1 = Some t" "es' = e\<lparr>re_buf := c\<rparr> # t" "k"
    using Suc.prems(1) b c by (auto simp: es option_bind_Some_iff split: if_splits)
  have "buf_wf b" using b alloc_buf_law [of bs] by (auto simp: alloc_buf_def buf_size_valid_def split: if_splits)
  then have "buf_wf c" using buf_init_wf [of b off] c by simp
  then show ?case
    using Suc.IH [OF t(1)] t Suc.prems(2) by (auto simp: es)
qed auto

lemma reliable_init_law:
  assumes "reliable_init bs off n h = Some rel"
  shows "rel_ok rel \<and> act rel = {} \<and> rl_packet_id rel = 0"
proof -
  obtain es where es: "reliable_init_loop (nat n) (size_t_of_int bs) off (replicate (nat RELIABLE_CAPACITY) entry_zero) = Some es"
    and n: "0 < n" "n \<le> 12"
    and rel: "rel = \<lparr>rl_size = n, rl_initial_timeout = 0, rl_packet_id = 0, rl_offset = off, rl_hold = h, rl_array = es\<rparr>"
    using assms by (auto simp: reliable_init_def option_bind_Some_iff RELIABLE_CAPACITY_def split: if_splits)
  have "length es = 12 \<and> (\<forall>e \<in> set (take (nat n) es). buf_wf (re_buf e)) \<and> (\<forall>e \<in> set es. \<not> re_active e)"
    using reliable_init_loop_wf [OF es] by (simp add: RELIABLE_CAPACITY_def entry_zero_def)
  then show ?thesis
    using n by (auto simp: rel rel_ok_def rl_entries_def act_def holds_def)
qed

lemma sys_inv_init:
  assumes "sys_init s"
  shows "sys_inv s"
proof -
  obtain bs off ss rs h1 h2 t r where i: "reliable_init bs off ss h1 = Some r" "reliable_set_timeout r t = sy_snd s"
    "reliable_init bs off rs h2 = Some (sy_rcv s)"
    using assms by (auto simp: sys_init_def)
  have "rel_ok (sy_snd s) \<and> act (sy_snd s) = {} \<and> rl_packet_id (sy_snd s) = 0"
    using reliable_init_law [OF i(1)]
    by (simp flip: i(2) add: reliable_set_timeout_def rel_ok_def rl_entries_def act_def holds_def)
  moreover note r = reliable_init_law [OF i(3)]
  moreover have "uniq_ids (sy_rcv s)"
    using r by (auto simp: uniq_ids_def act_def)
  ultimately show ?thesis using assms by (simp add: sys_inv_def link_inv_def sys_init_def)
qed

lemma unat_of_nat_u32: "k < 4294967296 \<Longrightarrow> unat (of_nat k :: u32) = k"
  by (simp add: unat_of_nat take_bit_nat_eq_self)

lemma of_nat_u32_eq: "j < 4294967296 \<Longrightarrow> k < 4294967296 \<Longrightarrow> (of_nat j :: u32) = of_nat k \<longleftrightarrow> j = k"
  using unat_of_nat_u32 by metis

lemma window_accepts_nat:
  assumes "k < 2147483648" "D \<le> 2147483648" "0 < sz" "sz \<le> 12"
    "reliable_pid_in_range2 (of_nat k) (of_nat D) (word_of_int sz)"
    "\<not> reliable_pid_min (of_nat k) (of_nat D)"
  shows "D \<le> k \<and> k < D + nat sz"
proof -
  have b: "(of_nat D :: u32) \<le> 0x80000000" using assms(2) unat_of_nat_u32 [of D] by (simp add: word_le_nat_alt)
  have n: "unat (word_of_int sz :: u32) = nat sz" using assms(3,4) by (intro unat_small_size) auto
  then have e: "(word_of_int sz :: u32) \<le> 0x40000000" using assms(4) by (simp add: word_le_nat_alt)
  have "subtract_pid (of_nat k) (of_nat D) < (word_of_int sz :: u32)"
    using receive_window [OF b e, of "of_nat k"] assms(5,6) by blast
  then have "unat (subtract_pid (of_nat k) (of_nat D)) < nat sz" by (simp add: word_less_nat_alt n)
  then show ?thesis
    using assms(1-4) unat_of_nat_u32 [of k] unat_of_nat_u32 [of D] by (simp add: unat_subtract_pid split: if_splits)
qed

lemma pid_min_nat:
  assumes "k < 2147483648" "D \<le> 2147483648" "reliable_pid_min (of_nat k) (of_nat D)"
  shows "k < D"
  using assms unat_of_nat_u32 [of k] unat_of_nat_u32 [of D]
  by (auto simp: reliable_pid_min_def reliable_pid_in_range1_def word_less_nat_alt unat_subtract_pid split: if_splits)

text \<open>The invariant taken apart, for the proofs of the steps.\<close>

lemma sys_inv_parts:
  assumes "sys_inv s" "N = length (sy_sent s)" "D = length (sy_delivered s)"
  shows "N = length (sy_sent s)" "D = length (sy_delivered s)"
    "rel_ok (sy_snd s)" "rel_ok (sy_rcv s)" "uniq_ids (sy_rcv s)" "ra_wf (sy_ack s)"
    "rl_packet_id (sy_snd s) = of_nat N" "rl_packet_id (sy_rcv s) = of_nat D" "D \<le> N"
    "sy_delivered s = take D (sy_sent s)"
    "\<forall>x \<in> act (sy_snd s). \<exists>k < N. x = (of_nat k, be32_bytes (of_nat k) @ sy_sent s ! k)"
    "\<forall>x \<in> act (sy_rcv s). \<exists>k < N. D \<le> k \<and> k < D + nat (rl_size (sy_rcv s)) \<and> x = (of_nat k, sy_sent s ! k)"
    "\<forall>x \<in> sy_net s. \<exists>k < N. x = be32_bytes (of_nat k) @ sy_sent s ! k"
    "\<forall>x \<in> sy_acked s \<union> set (ra_ids (sy_ack s)). \<exists>k < N. x = of_nat k \<and> (k < D \<or> x \<in> fst ` act (sy_rcv s))"
    "\<forall>k < N. k < D \<or> of_nat k \<in> fst ` act (sy_rcv s) \<or> of_nat k \<in> fst ` act (sy_snd s)"
  using assms(1) unfolding sys_inv_def link_inv_def assms(2,3)
  by - (rule refl | (elim conjE, assumption))+

lemma sys_invI:
  assumes "sys_inv s"
    "link_inv (sy_snd t) (sy_rcv t) (sy_ack t) (sy_sent t) (sy_net t) (sy_acked t) (length (sy_delivered s))"
    "sy_delivered t = sy_delivered s"
    "take (length (sy_delivered s)) (sy_sent t) = take (length (sy_delivered s)) (sy_sent s)"
  shows "sys_inv t"
  using assms unfolding sys_inv_def by metis

lemma ball_ex_mono:
  assumes "\<forall>x \<in> A. \<exists>k < N. P k x" "N \<le> M" "\<And>k x. k < N \<Longrightarrow> P k x \<Longrightarrow> Q k x"
  shows "\<forall>x \<in> A. \<exists>k < (M :: nat). Q k x"
  using assms by (meson order_less_le_trans)

lemma sys_inv_queue:
  assumes inv: "sys_inv s" and q: "tls_queue_packet (sy_snd s) p op = Some (snd', True)"
  shows "sys_inv (s\<lparr>sy_snd := snd', sy_sent := sy_sent s @ [p]\<rparr>)"
proof -
  define N D where ND: "N = length (sy_sent s)" "D = length (sy_delivered s)"
  note i = sys_inv_parts [OF inv ND]
  note l = tls_queue_packet_law [OF i(3) q]
  let ?sent = "sy_sent s @ [p]"
  have old: "?sent ! k = sy_sent s ! k" if "k < N" for k using that i(1) by (simp add: nth_append)
  have new: "?sent ! N = p" using i(1) by simp
  have "\<forall>x \<in> act snd'. \<exists>k < Suc N. x = (of_nat k, be32_bytes (of_nat k) @ ?sent ! k)"
  proof
    fix x assume "x \<in> act snd'"
    then consider "x = (of_nat N, be32_bytes (of_nat N) @ p)" | "x \<in> act (sy_snd s)" using l i(7) by auto
    then show "\<exists>k < Suc N. x = (of_nat k, be32_bytes (of_nat k) @ ?sent ! k)"
    proof cases
      case 1 then show ?thesis using new by (intro exI [of _ N]) simp
    next
      case 2 then show ?thesis using i(11) old less_SucI by metis
    qed
  qed
  moreover have "\<forall>x \<in> act (sy_rcv s). \<exists>k < Suc N. D \<le> k \<and> k < D + nat (rl_size (sy_rcv s)) \<and> x = (of_nat k, ?sent ! k)"
    by (rule ball_ex_mono [OF i(12)]) (simp_all add: old)
  moreover have "\<forall>x \<in> sy_net s. \<exists>k < Suc N. x = be32_bytes (of_nat k) @ ?sent ! k"
    by (rule ball_ex_mono [OF i(13)]) (simp_all add: old)
  moreover have "\<forall>x \<in> sy_acked s \<union> set (ra_ids (sy_ack s)). \<exists>k < Suc N. x = of_nat k \<and> (k < D \<or> x \<in> fst ` act (sy_rcv s))"
    by (rule ball_ex_mono [OF i(14)]) simp_all
  moreover have "\<forall>k < Suc N. k < D \<or> of_nat k \<in> fst ` act (sy_rcv s) \<or> of_nat k \<in> fst ` act snd'"
    using i(15) l i(7) by (auto simp: less_Suc_eq)
  moreover have "rl_packet_id snd' = of_nat (Suc N)" "rel_ok snd'" using l i(7) by simp_all
  moreover have "Suc N = length ?sent" "D \<le> Suc N" using i(1,9) by simp_all
  moreover note i(4-6,8)
  ultimately have "link_inv snd' (sy_rcv s) (sy_ack s) ?sent (sy_net s) (sy_acked s) D"
    by - (rule link_invI [of "Suc N"]; assumption)
  then show ?thesis using i(1,2,9) by (intro sys_invI [OF inv]) simp_all
qed

lemma sys_inv_change_snd:
  assumes "sys_inv s" "rel_ok snd'" "rl_packet_id snd' = rl_packet_id (sy_snd s)" "act snd' \<subseteq> act (sy_snd s)"
    "\<And>x. x \<in> act (sy_snd s) \<Longrightarrow> x \<in> act snd' \<or> fst x \<in> sy_acked s"
    "net' \<subseteq> sy_net s \<union> snd ` act (sy_snd s)" "length (sy_sent s) \<le> 2147483648"
  shows "sys_inv (s\<lparr>sy_snd := snd', sy_net := net'\<rparr>)"
proof -
  define N D where ND: "N = length (sy_sent s)" "D = length (sy_delivered s)"
  note i = sys_inv_parts [OF assms(1) ND]
  have "\<forall>x \<in> net'. \<exists>k < N. x = be32_bytes (of_nat k) @ sy_sent s ! k"
  proof
    fix x assume "x \<in> net'"
    then consider "x \<in> sy_net s" | y where "y \<in> act (sy_snd s)" "x = snd y" using assms(6) by blast
    then show "\<exists>k < N. x = be32_bytes (of_nat k) @ sy_sent s ! k"
    proof cases
      case 1 then show ?thesis using i(13) by blast
    next
      case 2 then show ?thesis using bspec [OF i(11) 2(1)] by auto
    qed
  qed
  moreover have "\<forall>k < N. k < D \<or> of_nat k \<in> fst ` act (sy_rcv s) \<or> of_nat k \<in> fst ` act snd'"
  proof (intro allI impI)
    fix k assume k: "k < N"
    show "k < D \<or> of_nat k \<in> fst ` act (sy_rcv s) \<or> of_nat k \<in> fst ` act snd'"
    proof (cases "of_nat k \<in> fst ` act (sy_snd s) \<and> of_nat k \<notin> fst ` act snd'")
      case True
      then have "(of_nat k :: u32) \<in> sy_acked s" using assms(5) by force
      then obtain j where j: "j < N" "(of_nat k :: u32) = of_nat j" "j < D \<or> of_nat k \<in> fst ` act (sy_rcv s)"
        using i(14) UnI1 by metis
      then have "j = k" using of_nat_u32_eq [of k j] k i(1) assms(7) by simp
      then show ?thesis using j by blast
    qed (use i(15) k in blast)
  qed
  moreover have "\<forall>x \<in> act snd'. \<exists>k < N. x = (of_nat k, be32_bytes (of_nat k) @ sy_sent s ! k)"
    by (intro ballI, rule bspec [OF i(11)], erule subsetD [OF assms(4)])
  ultimately have "link_inv snd' (sy_rcv s) (sy_ack s) (sy_sent s) net' (sy_acked s) D"
    using i(1,4-6,8,9,12,14) assms(2) trans [OF assms(3) i(7)] by - (rule link_invI [of N]; assumption)
  then show ?thesis using i(2) by (intro sys_invI [OF assms(1)]) simp_all
qed

lemma sys_inv_receive:
  assumes inv: "sys_inv s" and b: "buf_wf b" "buf_content b \<in> sy_net s"
    and r: "tls_control_receive (sy_rcv s) (sy_ack s) b op = Some (rcv', ack', ok)"
    and bound: "length (sy_sent s) \<le> 2147483648"
  shows "sys_inv (s\<lparr>sy_rcv := rcv', sy_ack := ack', sy_acked := sy_acked s \<union> set (ra_ids ack')\<rparr>)"
proof -
  define N D where ND: "N = length (sy_sent s)" "D = length (sy_delivered s)"
  note i = sys_inv_parts [OF inv ND]
  obtain k where k: "k < N" "buf_content b = be32_bytes (of_nat k) @ sy_sent s ! k" using i(13) b(2) by blast
  let ?id = "of_nat k :: u32"
  have kb: "k < 2147483648" "D \<le> 2147483648" using k i(1,9) bound by auto
  have sz: "0 < rl_size (sy_rcv s)" "rl_size (sy_rcv s) \<le> 12" using i(4) by (auto simp: rel_ok_def)
  note l = tls_control_receive_law [OF i(4,5) b(1) k(2) r]
  note aw = reliable_ack_acknowledge_wf [OF i(6), of ?id]
  have old: "act (sy_rcv s) \<subseteq> act rcv'" using l by auto
  have wf: "ra_wf ack'" using l aw i(6) by auto
  have ackset: "set (ra_ids ack') \<subseteq> set (ra_ids (sy_ack s)) \<union> (if ack' = sy_ack s then {} else {?id})"
  proof (cases "ack' = sy_ack s")
    case False
    then have "ack' = fst (reliable_ack_acknowledge_packet_id (sy_ack s) ?id)" using l by blast
    then show ?thesis using aw False by (auto split: if_splits)
  qed simp
  have held: "k < D \<or> ?id \<in> fst ` act rcv'" if "ack' \<noteq> sy_ack s"
  proof -
    have w: "act rcv' = act (sy_rcv s) \<and> \<not> reliable_not_replay (sy_rcv s) ?id
        \<or> act rcv' = insert (?id, sy_sent s ! k) (act (sy_rcv s))" using l that by auto
    then show ?thesis
      using replay_reason [OF i(4), of ?id] pid_min_nat [OF kb] i(8) by auto
  qed
  have rcv: "\<forall>x \<in> act rcv'. \<exists>j < N. D \<le> j \<and> j < D + nat (rl_size rcv') \<and> x = (of_nat j, sy_sent s ! j)"
  proof
    fix x assume x: "x \<in> act rcv'"
    show "\<exists>j < N. D \<le> j \<and> j < D + nat (rl_size rcv') \<and> x = (of_nat j, sy_sent s ! j)"
    proof (cases "x \<in> act (sy_rcv s)")
      case True then show ?thesis using i(12) l by auto
    next
      case False
      then have "x = (?id, sy_sent s ! k)" "reliable_wont_break_sequentiality (sy_rcv s) ?id"
        "reliable_not_replay (sy_rcv s) ?id" using l x by auto
      then show ?thesis
        using window_accepts_nat [OF kb sz] not_replay_absent(2) [OF i(4), of ?id] i(8) k(1) l
        by (auto simp: reliable_wont_break_sequentiality_def)
    qed
  qed
  have acks: "\<forall>x \<in> sy_acked s \<union> set (ra_ids ack'). \<exists>j < N. x = of_nat j \<and> (j < D \<or> x \<in> fst ` act rcv')"
  proof
    fix x assume "x \<in> sy_acked s \<union> set (ra_ids ack')"
    then consider "x \<in> sy_acked s \<union> set (ra_ids (sy_ack s))" | "x = ?id" "ack' \<noteq> sy_ack s"
      using ackset by (auto split: if_splits)
    then show "\<exists>j < N. x = of_nat j \<and> (j < D \<or> x \<in> fst ` act rcv')"
    proof cases
      case 1
      then obtain j where "j < N" "x = of_nat j" "j < D \<or> x \<in> fst ` act (sy_rcv s)" using i(14) by blast
      then show ?thesis using image_mono [OF old, of fst] by blast
    next
      case 2 then show ?thesis using held k(1) by blast
    qed
  qed
  have lossless: "\<forall>j < N. j < D \<or> of_nat j \<in> fst ` act rcv' \<or> of_nat j \<in> fst ` act (sy_snd s)"
    using i(15) image_mono [OF old, of fst] by blast
  have "sy_acked s \<union> set (ra_ids ack') \<union> set (ra_ids ack') = sy_acked s \<union> set (ra_ids ack')" by auto
  then have "\<forall>x \<in> sy_acked s \<union> set (ra_ids ack') \<union> set (ra_ids ack'). \<exists>j < N. x = of_nat j \<and> (j < D \<or> x \<in> fst ` act rcv')"
    using acks by simp
  moreover have "rel_ok rcv'" "uniq_ids rcv'" "rl_packet_id rcv' = of_nat D" using l i(8) by simp_all
  ultimately have "link_inv (sy_snd s) rcv' ack' (sy_sent s) (sy_net s) (sy_acked s \<union> set (ra_ids ack')) D"
    using i(1,3,7,9,11,13) wf rcv lossless by - (rule link_invI [of N]; assumption)
  then show ?thesis using i(2) by (intro sys_invI [OF inv]) simp_all
qed

lemma sys_inv_deliver:
  assumes inv: "sys_inv s" and g: "reliable_get_entry_sequenced (sy_rcv s) = Some i0"
    and m: "reliable_mark_deleted (sy_rcv s) i0 = Some rcv'" and bound: "length (sy_sent s) \<le> 2147483648"
  shows "sys_inv (s\<lparr>sy_rcv := rcv', sy_delivered := sy_delivered s @ [buf_content (re_buf (rl_array (sy_rcv s) ! i0))]\<rparr>)"
proof -
  define N D where ND: "N = length (sy_sent s)" "D = length (sy_delivered s)"
  note i = sys_inv_parts [OF inv ND]
  note l = deliver_law [OF i(4,5) g m]
  let ?c = "buf_content (re_buf (rl_array (sy_rcv s) ! i0))"
  have small: "(of_nat j :: u32) = of_nat k \<longleftrightarrow> j = k" if "j \<le> N" "k \<le> N" for j k
    using that of_nat_u32_eq [of j k] i(1) bound by simp
  obtain k where k: "k < N" "of_nat D = (of_nat k :: u32)" "?c = sy_sent s ! k"
    using l i(8,12) by fastforce
  then have kD: "k = D" using small [of D k] i(9) by simp
  have DN: "D < N" using k kD by simp
  have del: "sy_delivered s @ [?c] = take (Suc D) (sy_sent s)"
    using i(1,10) k(3) kD DN by (simp add: take_Suc_conv_app_nth)
  have gone: "of_nat j \<in> fst ` act rcv'" if "of_nat j \<in> fst ` act (sy_rcv s)" "j \<noteq> D" "j < N" for j
    using that l small [of j D] i(8,9) by force
  have rcv: "\<forall>x \<in> act rcv'. \<exists>j < N. Suc D \<le> j \<and> j < Suc D + nat (rl_size rcv') \<and> x = (of_nat j, sy_sent s ! j)"
  proof
    fix x assume "x \<in> act rcv'"
    then have x: "x \<in> act (sy_rcv s)" "fst x \<noteq> of_nat D" using l i(8) by auto
    then obtain j where j: "j < N" "D \<le> j" "j < D + nat (rl_size (sy_rcv s))" "x = (of_nat j, sy_sent s ! j)"
      using i(12) by blast
    then have "j \<noteq> D" using x(2) by auto
    then show "\<exists>j < N. Suc D \<le> j \<and> j < Suc D + nat (rl_size rcv') \<and> x = (of_nat j, sy_sent s ! j)"
      using j l by (intro exI [of _ j]) auto
  qed
  have acks: "\<forall>x \<in> sy_acked s \<union> set (ra_ids (sy_ack s)). \<exists>j < N. x = of_nat j \<and> (j < Suc D \<or> x \<in> fst ` act rcv')"
  proof
    fix x assume "x \<in> sy_acked s \<union> set (ra_ids (sy_ack s))"
    then obtain j where j: "j < N" "x = of_nat j" "j < D \<or> x \<in> fst ` act (sy_rcv s)" using i(14) by blast
    then show "\<exists>j < N. x = of_nat j \<and> (j < Suc D \<or> x \<in> fst ` act rcv')"
      using gone [of j] by (cases "j = D") auto
  qed
  have lossless: "\<forall>j < N. j < Suc D \<or> of_nat j \<in> fst ` act rcv' \<or> of_nat j \<in> fst ` act (sy_snd s)"
    using i(15) gone less_Suc_eq by metis
  have "rl_packet_id rcv' = of_nat (Suc D)" "rel_ok rcv'" "uniq_ids rcv'" using l i(8) by simp_all
  then have "link_inv (sy_snd s) rcv' (sy_ack s) (sy_sent s) (sy_net s) (sy_acked s) (Suc D)"
    using i(1,3,6,7,11,13) rcv acks lossless Suc_leI [OF DN] by - (rule link_invI [of N]; assumption)
  moreover have "Suc D \<le> length (sy_sent s)" using DN i(1) by simp
  ultimately show ?thesis using del by (simp add: sys_inv_def min_absorb2)
qed

text \<open>Every step keeps the invariant, while fewer than 2^31 packets have been sent.\<close>

lemma sys_inv_step:
  assumes inv: "sys_inv s" and st: "sys_step s t" and bound: "length (sy_sent s) \<le> 2147483648"
  shows "sys_inv t"
  using st
proof cases
  case (queue p op snd')
  then show ?thesis using sys_inv_queue [OF inv] by simp
next
  case (transmit now snd' i op)
  note ND = sys_inv_parts [OF inv refl refl]
  note l = reliable_send_law [OF ND(3) transmit(2)]
  have "insert (buf_content (re_buf (rl_array snd' ! i))) (sy_net s) \<subseteq> sy_net s \<union> snd ` act (sy_snd s)"
    using l by force
  then show ?thesis
    unfolding transmit(1) using l bound by (intro sys_inv_change_snd [OF inv]) auto
next
  case (receive b rcv' ack' op ok)
  then show ?thesis using sys_inv_receive [OF inv _ _ _ bound] by blast
next
  case (send_acks ack')
  note i = sys_inv_parts [OF inv refl refl]
  have "\<forall>x \<in> sy_acked s \<union> set (ra_ids ack'). \<exists>k < length (sy_sent s). x = of_nat k
      \<and> (k < length (sy_delivered s) \<or> x \<in> fst ` act (sy_rcv s))"
    using i(14) send_acks(3) by blast
  then have "link_inv (sy_snd s) (sy_rcv s) ack' (sy_sent s) (sy_net s) (sy_acked s) (length (sy_delivered s))"
    using i(3-5,7-9,11-13,15) send_acks(2) refl [of "length (sy_sent s)"]
    by - (rule link_invI [of "length (sy_sent s)"]; assumption)
  then show ?thesis unfolding send_acks(1) by (intro sys_invI [OF inv]) simp_all
next
  case (purge a)
  note i = sys_inv_parts [OF inv refl refl]
  have "sys_inv (s\<lparr>sy_snd := reliable_send_purge (sy_snd s) a, sy_net := sy_net s\<rparr>)"
    using reliable_send_purge_law [OF i(3), of a] purge(2) bound
    by (intro sys_inv_change_snd [OF inv]) auto
  then show ?thesis by (simp add: purge(1))
next
  case (schedule now)
  note i = sys_inv_parts [OF inv refl refl]
  have "sys_inv (s\<lparr>sy_snd := reliable_schedule_now now (sy_snd s), sy_net := sy_net s\<rparr>)"
    using reliable_schedule_now_law [OF i(3), of now] bound
    by (intro sys_inv_change_snd [OF inv]) auto
  then show ?thesis by (simp add: schedule(1))
next
  case (deliver i rcv')
  then show ?thesis using sys_inv_deliver [OF inv _ _ bound] by simp
qed

lemma sys_step_sent: "sys_step s t \<Longrightarrow> length (sy_sent s) \<le> length (sy_sent t)"
  by (erule sys_stepE) simp_all

lemma sys_reach_inv: "sys_reach s \<Longrightarrow> length (sy_sent s) \<le> 2147483648 \<Longrightarrow> sys_inv s"
proof (induction rule: sys_reach.induct)
  case (init s)
  then show ?case by (simp add: sys_inv_init)
next
  case (step s t)
  have "length (sy_sent s) \<le> 2147483648" using sys_step_sent [OF step.hyps(2)] step.prems by simp
  then show ?case using sys_inv_step [OF step.IH step.hyps(2)] by simp
qed

subsection \<open>What the control channel guarantees\<close>

lemma reliable_empty_act:
  assumes "rel_ok rel" "reliable_empty rel"
  shows "act rel = {}"
proof -
  have "\<not> holds rel i e" for i e
  proof
    assume h: "holds rel i e"
    then have "e \<in> set (rl_entries rel)" using holds_iff [OF assms(1)] in_rl_entries [OF assms(1)] by blast
    then show False using assms(2) h by (simp add: reliable_empty_def list_all_iff holds_def)
  qed
  then show ?thesis by (simp add: act_def)
qed

text \<open>Active entries of the receiver are held at distinct indices, so a full array needs as many identifiers.\<close>

lemma full_array_ids:
  assumes ok: "rel_ok rel" and uniq: "uniq_ids rel" and full: "\<not> reliable_can_get rel"
  shows "card (fst ` act rel) = nat (rl_size rel)"
proof -
  let ?id = "\<lambda>i. re_packet_id (rl_array rel ! i)"
  have all: "re_active (rl_array rel ! i)" if "i < nat (rl_size rel)" for i
  proof -
    have "rl_array rel ! i \<in> set (rl_entries rel)" using that in_rl_entries [OF ok] by blast
    then show ?thesis using full by (auto simp: reliable_can_get_def list_ex_iff)
  qed
  then have h: "holds rel i (rl_array rel ! i)" if "i < nat (rl_size rel)" for i
    using that holds_iff [OF ok] by simp
  have "fst ` act rel = ?id ` {..< nat (rl_size rel)}"
  proof (intro set_eqI iffI)
    fix x assume "x \<in> fst ` act rel"
    then show "x \<in> ?id ` {..< nat (rl_size rel)}" using holds_iff [OF ok] by (auto simp: act_def)
  next
    fix x assume "x \<in> ?id ` {..< nat (rl_size rel)}"
    then obtain i where "i < nat (rl_size rel)" "x = ?id i" by auto
    then show "x \<in> fst ` act rel" using actI [OF h [of i]] by force
  qed
  moreover have "inj_on ?id {..< nat (rl_size rel)}"
    unfolding inj_on_def lessThan_iff using uniq h unfolding uniq_ids_def by blast
  ultimately show ?thesis by (simp add: card_image)
qed

lemma next_packet_accepted:
  assumes inv: "sys_inv s" and bound: "length (sy_sent s) \<le> 2147483648"
    and more: "length (sy_delivered s) < length (sy_sent s)"
    and missing: "reliable_get_entry_sequenced (sy_rcv s) = None"
  shows "reliable_can_get (sy_rcv s)"
    "reliable_wont_break_sequentiality (sy_rcv s) (of_nat (length (sy_delivered s)))"
    "reliable_not_replay (sy_rcv s) (of_nat (length (sy_delivered s)))"
proof -
  define N D where ND: "N = length (sy_sent s)" "D = length (sy_delivered s)"
  note i = sys_inv_parts [OF inv ND]
  let ?n = "nat (rl_size (sy_rcv s))"
  have n: "0 < ?n" "?n \<le> 12" using i(4) by (auto simp: rel_ok_def)
  have absent: "of_nat D \<notin> fst ` act (sy_rcv s)"
  proof
    assume "of_nat D \<in> fst ` act (sy_rcv s)"
    then obtain j e where e: "holds (sy_rcv s) j e" "re_packet_id e = of_nat D" by (auto simp: act_def)
    then have "e \<in> set (rl_entries (sy_rcv s))" using holds_iff in_rl_entries i(4) by blast
    then show False
      using missing e i(8) by (auto simp: reliable_get_entry_sequenced_def find_index_None holds_def)
  qed
  have ids: "fst ` act (sy_rcv s) \<subseteq> (\<lambda>k. of_nat k :: u32) ` {Suc D ..< D + ?n}"
  proof
    fix x assume x: "x \<in> fst ` act (sy_rcv s)"
    then obtain k where k: "D \<le> k" "k < D + ?n" "x = of_nat k" using i(12) by force
    moreover have "k \<noteq> D" using absent x k(3) by auto
    ultimately show "x \<in> (\<lambda>k. of_nat k :: u32) ` {Suc D ..< D + ?n}" by (intro image_eqI [of _ _ k]) auto
  qed
  have "card (fst ` act (sy_rcv s)) \<le> card ((\<lambda>k. of_nat k :: u32) ` {Suc D ..< D + ?n})"
    by (rule card_mono [OF _ ids]) simp
  also have "\<dots> \<le> card {Suc D ..< D + ?n}" by (rule card_image_le) simp
  also have "\<dots> < ?n" using n by simp
  finally show "reliable_can_get (sy_rcv s)" using full_array_ids [OF i(4,5)] by fastforce
  have Db: "D < 2147483648" using more bound ND by simp
  have b: "(of_nat D :: u32) \<le> 0x80000000" using Db unat_of_nat_u32 [of D] by (simp add: word_le_nat_alt)
  have sz: "unat (word_of_int (rl_size (sy_rcv s)) :: u32) = ?n" using i(4) by (intro unat_small_size) (auto simp: rel_ok_def)
  then have e: "(word_of_int (rl_size (sy_rcv s)) :: u32) \<le> 0x40000000" using n by (simp add: word_le_nat_alt)
  have "subtract_pid (of_nat D) (of_nat D) < (word_of_int (rl_size (sy_rcv s)) :: u32)"
    using sz n by (simp add: word_less_nat_alt unat_subtract_pid)
  then have w: "reliable_pid_in_range2 (of_nat D) (of_nat D) (word_of_int (rl_size (sy_rcv s)))
      \<and> \<not> reliable_pid_min (of_nat D) (of_nat D)"
    using receive_window [OF b e, of "of_nat D"] by simp
  then show "reliable_wont_break_sequentiality (sy_rcv s) (of_nat (length (sy_delivered s)))"
    using i(8) ND by (simp add: reliable_wont_break_sequentiality_def)
  show "reliable_not_replay (sy_rcv s) (of_nat (length (sy_delivered s)))"
    using replay_reason [OF i(4), of "of_nat D"] w absent i(8) ND by auto
qed

text \<open>A complete run, for the witnesses: one packet queued, sent, received twice and delivered.\<close>

definition run_init :: system where
  "run_init = \<lparr>sy_snd = reliable_set_timeout (the (reliable_init 40 16 2 False)) 2,
     sy_rcv = the (reliable_init 40 16 2 True),
     sy_ack = \<lparr>ra_len = 0, ra_packet_id = replicate 8 0\<rparr>,
     sy_sent = [], sy_net = {}, sy_acked = {}, sy_delivered = []\<rparr>"

definition run_queued :: system where
  "run_queued = run_init\<lparr>sy_snd := fst (the (tls_queue_packet (sy_snd run_init) [7, 8, 9] 4)), sy_sent := [[7, 8, 9]]\<rparr>"

definition run_wire :: bytes where "run_wire = [0, 0, 0, 0, 7, 8, 9]"

definition run_sent :: system where
  "run_sent = run_queued\<lparr>sy_snd := fst (reliable_send 100 (sy_snd run_queued)), sy_net := {run_wire}\<rparr>"

definition run_received :: system where
  "run_received = (let (r, a, ok) = the (tls_control_receive (sy_rcv run_sent) (sy_ack run_sent)
       \<lparr>b_capacity = 7, b_offset = 0, b_len = 7, b_data = Some run_wire\<rparr> 4)
     in run_sent\<lparr>sy_rcv := r, sy_ack := a, sy_acked := {0}\<rparr>)"

definition run_delivered :: system where
  "run_delivered = run_received\<lparr>sy_rcv := the (reliable_mark_deleted (sy_rcv run_received) 0), sy_delivered := [[7, 8, 9]]\<rparr>"

lemma run_init_ok: "sys_init run_init"
proof -
  have "(\<exists>r. reliable_init 40 16 2 False = Some r) \<and> (\<exists>r. reliable_init 40 16 2 True = Some r)"
    unfolding not_None_eq [symmetric] by code_simp
  then obtain r1 r2 where r: "reliable_init 40 16 2 False = Some r1" "reliable_init 40 16 2 True = Some r2" by blast
  show ?thesis unfolding sys_init_def
    by (intro conjI exI [of _ 40] exI [of _ 16] exI [of _ 2] exI [of _ False] exI [of _ True])
      (simp_all add: run_init_def r ra_wf_def ra_ids_def)
qed

lemma run_steps:
  "sys_step run_init run_queued" "sys_step run_queued run_sent"
  "sys_step run_sent run_received" "sys_step run_received run_delivered"
proof -
  have q: "tls_queue_packet (sy_snd run_init) [7, 8, 9] 4 = Some (sy_snd run_queued, True)" by code_simp
  have "run_queued = run_init\<lparr>sy_snd := sy_snd run_queued, sy_sent := sy_sent run_init @ [[7, 8, 9]]\<rparr>"
    by (simp add: run_queued_def run_init_def)
  then show "sys_step run_init run_queued" using sys_step.queue [OF q] by simp
  have t: "reliable_send 100 (sy_snd run_queued) = (sy_snd run_sent, Some (0, 4))" by code_simp
  have "run_sent = run_queued\<lparr>sy_snd := sy_snd run_sent,
      sy_net := insert (buf_content (re_buf (rl_array (sy_snd run_sent) ! 0))) (sy_net run_queued)\<rparr>"
  proof -
    have "buf_content (re_buf (rl_array (sy_snd run_sent) ! 0)) = run_wire" by code_simp
    then show ?thesis by (simp add: run_sent_def run_queued_def run_init_def)
  qed
  then show "sys_step run_queued run_sent" using sys_step.transmit [OF t] by simp
  let ?b = "\<lparr>b_capacity = 7, b_offset = 0, b_len = 7, b_data = Some run_wire\<rparr>"
  have b: "buf_wf ?b" "buf_content ?b = run_wire" by code_simp+
  have net: "buf_content ?b \<in> sy_net run_sent" unfolding b(2) by (simp add: run_sent_def)
  have rc: "tls_control_receive (sy_rcv run_sent) (sy_ack run_sent) ?b 4 = Some (sy_rcv run_received, sy_ack run_received, True)"
    by code_simp
  have "set (ra_ids (sy_ack run_received)) = {0}" by code_simp
  then have "run_received = run_sent\<lparr>sy_rcv := sy_rcv run_received, sy_ack := sy_ack run_received,
      sy_acked := sy_acked run_sent \<union> set (ra_ids (sy_ack run_received))\<rparr>"
    by (simp add: run_received_def run_sent_def run_queued_def run_init_def split: prod.splits)
  then show "sys_step run_sent run_received" using sys_step.receive [OF b(1) net rc] by simp
  have g: "reliable_get_entry_sequenced (sy_rcv run_received) = Some 0" by code_simp
  have d: "reliable_mark_deleted (sy_rcv run_received) 0 = Some (sy_rcv run_delivered)" by code_simp
  have "run_delivered = run_received\<lparr>sy_rcv := sy_rcv run_delivered,
      sy_delivered := sy_delivered run_received @ [buf_content (re_buf (rl_array (sy_rcv run_received) ! 0))]\<rparr>"
  proof -
    have "buf_content (re_buf (rl_array (sy_rcv run_received) ! 0)) = [7, 8, 9]" "sy_delivered run_received = []"
      by code_simp+
    then show ?thesis by (simp add: run_delivered_def)
  qed
  then show "sys_step run_received run_delivered" using sys_step.deliver [OF g d] by simp
qed

lemma run_reach: "sys_reach run_received" "sys_reach run_delivered"
  using sys_reach.init [OF run_init_ok] run_steps sys_reach.step by blast+

lemma run_histories:
  "sy_sent run_received = [[7, 8, 9]]" "sy_delivered run_received = []"
  "sy_sent run_delivered = [[7, 8, 9]]" "sy_delivered run_delivered = [[7, 8, 9]]"
  "reliable_empty (sy_rcv run_delivered)"
  by code_simp+

text \<open>
  C18: In-order, exactly-once delivery on the control channel.  Over a network that may lose,
  repeat and reorder packets, with retransmissions and acknowledgments at any time, what the
  receiver has delivered is at every moment a prefix of what the sender has queued, and
  every queued packet not yet delivered is still held, unmodified, by the receiver or by the
  sender; once both arrays are empty, everything queued has been delivered.
\<close>

theorem control_channel_in_order:
  assumes "sys_reach s" "length (sy_sent s) \<le> 2147483648"
  shows "sy_delivered s = take (length (sy_delivered s)) (sy_sent s)
    \<and> length (sy_delivered s) \<le> length (sy_sent s)
    \<and> (\<forall>k. length (sy_delivered s) \<le> k \<longrightarrow> k < length (sy_sent s) \<longrightarrow>
         (of_nat k, sy_sent s ! k) \<in> act (sy_rcv s)
         \<or> (of_nat k, be32_bytes (of_nat k) @ sy_sent s ! k) \<in> act (sy_snd s))
    \<and> (reliable_empty (sy_snd s) \<longrightarrow> reliable_empty (sy_rcv s) \<longrightarrow> sy_delivered s = sy_sent s)"
proof -
  note i = sys_inv_parts [OF sys_reach_inv [OF assms] refl refl]
  have held: "(of_nat k, sy_sent s ! k) \<in> act (sy_rcv s)
      \<or> (of_nat k, be32_bytes (of_nat k) @ sy_sent s ! k) \<in> act (sy_snd s)"
    if k: "length (sy_delivered s) \<le> k" "k < length (sy_sent s)" for k
  proof -
    have inj: "j = k" if "(of_nat k :: u32) = of_nat j" "j < length (sy_sent s)" for j
      using that k(2) assms(2) of_nat_u32_eq [of k j] by simp
    consider x where "x \<in> act (sy_rcv s)" "fst x = of_nat k" | x where "x \<in> act (sy_snd s)" "fst x = of_nat k"
      using i(15) k by fastforce
    then show ?thesis
    proof cases
      case 1
      then obtain j where "j < length (sy_sent s)" "x = (of_nat j, sy_sent s ! j)" using bspec [OF i(12) 1(1)] by blast
      then show ?thesis using inj [of j] 1 by simp
    next
      case 2
      then obtain j where "j < length (sy_sent s)" "x = (of_nat j, be32_bytes (of_nat j) @ sy_sent s ! j)"
        using bspec [OF i(11) 2(1)] by blast
      then show ?thesis using inj [of j] 2 by simp
    qed
  qed
  moreover have "sy_delivered s = sy_sent s" if e: "reliable_empty (sy_snd s)" "reliable_empty (sy_rcv s)"
  proof -
    have "\<not> length (sy_delivered s) < length (sy_sent s)"
      using held [of "length (sy_delivered s)"] reliable_empty_act i(3,4) e by auto
    then show ?thesis using i(9,10) by (metis le_antisym not_less take_all_iff)
  qed
  ultimately show ?thesis using i(9,10) by blast
qed

theorem control_channel_in_order_witness:
  "sys_reach run_delivered \<and> length (sy_sent run_delivered) \<le> 2147483648
   \<and> sy_delivered run_delivered = take (length (sy_delivered run_delivered)) (sy_sent run_delivered)"
  using control_channel_in_order [OF run_reach(2)] run_reach(2) run_histories by simp

text \<open>
  C23: The receive window never deadlocks.  While a queued packet is undelivered, either the next
  one is ready to be delivered, or the receiver has a free entry and passes the next one
  through both of its tests, whatever out-of-order packets it already holds.
\<close>

theorem receiver_never_stuck:
  assumes "sys_reach s" "length (sy_sent s) \<le> 2147483648" "length (sy_delivered s) < length (sy_sent s)"
  shows "reliable_get_entry_sequenced (sy_rcv s) \<noteq> None
    \<or> (reliable_can_get (sy_rcv s)
        \<and> reliable_wont_break_sequentiality (sy_rcv s) (of_nat (length (sy_delivered s)))
        \<and> reliable_not_replay (sy_rcv s) (of_nat (length (sy_delivered s))))"
  using next_packet_accepted [OF sys_reach_inv [OF assms(1,2)] assms(2,3)] by blast

theorem receiver_never_stuck_witness:
  "sys_reach run_received \<and> length (sy_delivered run_received) < length (sy_sent run_received)
   \<and> ((\<exists>i. reliable_get_entry_sequenced (sy_rcv run_received) = Some i) \<or> reliable_can_get (sy_rcv run_received))"
  using receiver_never_stuck [OF run_reach(1)] run_reach(1) run_histories by auto

end
