(* ===== verification/Timing.thy ===== *)
theory Timing
  imports Ovpn_Integer
begin

text \<open>
  Time: the filtered clock and the rate limiter of otime.c, the struct timeval
  arithmetic of otime.h, and the periodic timers of interval.h and interval.c.

  The globals \<open>now\<close>, \<open>now_adj\<close> and \<open>now_usec\<close> form a record for the functions
  that write them, and \<open>now\<close> is an argument of those that only read it.  A
  \<open>time_t\<close> is an unbounded integer; the casts to \<open>int\<close> are the identity in range.
\<close>

subsection \<open>Time values\<close>

record timeval =
  tv_sec :: int
  tv_usec :: int

definition tv_clear :: timeval where
  "tv_clear = \<lparr>tv_sec = 0, tv_usec = 0\<rparr>"

definition tv_defined :: "timeval \<Rightarrow> bool" where
  "tv_defined tv \<longleftrightarrow> tv_sec tv > 0 \<and> tv_usec tv > 0"

definition tv_subtract :: "timeval \<Rightarrow> timeval \<Rightarrow> int \<Rightarrow> int" where
  "tv_subtract tv1 tv2 max_seconds =
     (let max_usec = max_seconds * 1000000; sec_diff = tv_sec tv1 - tv_sec tv2 in
      if sec_diff > max_seconds + 10 then max_usec
      else if sec_diff < - (max_seconds + 10) then - max_usec
      else constrain_int (sec_diff * 1000000 + (tv_usec tv1 - tv_usec tv2)) (- max_usec) max_usec)"

definition tv_add :: "timeval \<Rightarrow> timeval \<Rightarrow> timeval" where
  "tv_add dest src =
     (let sec = tv_sec dest + tv_sec src; usec = tv_usec dest + tv_usec src;
          sec = sec + drop_bit 20 usec; usec = usec AND 0x000FFFFF in
      if usec \<ge> 1000000 then \<lparr>tv_sec = sec + 1, tv_usec = usec - 1000000\<rparr>
      else \<lparr>tv_sec = sec, tv_usec = usec\<rparr>)"

definition tv_lt :: "timeval \<Rightarrow> timeval \<Rightarrow> bool" where
  "tv_lt t1 t2 =
     (if tv_sec t1 < tv_sec t2 then True
      else if tv_sec t1 > tv_sec t2 then False else tv_usec t1 < tv_usec t2)"

definition tv_le :: "timeval \<Rightarrow> timeval \<Rightarrow> bool" where
  "tv_le t1 t2 =
     (if tv_sec t1 < tv_sec t2 then True
      else if tv_sec t1 > tv_sec t2 then False else tv_usec t1 \<le> tv_usec t2)"

definition tv_ge :: "timeval \<Rightarrow> timeval \<Rightarrow> bool" where
  "tv_ge t1 t2 =
     (if tv_sec t1 > tv_sec t2 then True
      else if tv_sec t1 < tv_sec t2 then False else tv_usec t1 \<ge> tv_usec t2)"

definition tv_gt :: "timeval \<Rightarrow> timeval \<Rightarrow> bool" where
  "tv_gt t1 t2 =
     (if tv_sec t1 > tv_sec t2 then True
      else if tv_sec t1 < tv_sec t2 then False else tv_usec t1 > tv_usec t2)"

definition tv_eq :: "timeval \<Rightarrow> timeval \<Rightarrow> bool" where
  "tv_eq t1 t2 \<longleftrightarrow> tv_sec t1 = tv_sec t2 \<and> tv_usec t1 = tv_usec t2"

text \<open>The borrow loop of \<open>tv_delta\<close>.\<close>

function tv_borrow :: "int \<Rightarrow> int \<Rightarrow> int \<times> int" where
  "tv_borrow sec usec = (if usec < 0 then tv_borrow (sec - 1) (usec + 1000000) else (sec, usec))"
  by pat_completeness auto
termination by (relation "measure (\<lambda>(s, u). nat (- u))") auto

definition tv_delta :: "timeval \<Rightarrow> timeval \<Rightarrow> timeval" where
  "tv_delta t1 t2 =
     (let (sec, usec) = tv_borrow (tv_sec t2 - tv_sec t1) (tv_usec t2 - tv_usec t1) in
      if sec < 0 then \<lparr>tv_sec = 0, tv_usec = 0\<rparr> else \<lparr>tv_sec = sec, tv_usec = usec\<rparr>)"

definition TV_WITHIN_SIGMA_MAX_SEC :: int where "TV_WITHIN_SIGMA_MAX_SEC = 600"

definition tv_within_sigma :: "timeval \<Rightarrow> timeval \<Rightarrow> int \<Rightarrow> bool" where
  "tv_within_sigma t1 t2 sigma =
     (let delta = tv_subtract t1 t2 TV_WITHIN_SIGMA_MAX_SEC in - sigma \<le> delta \<and> delta \<le> sigma)"

definition interval_earliest_wakeup :: "int \<Rightarrow> int \<Rightarrow> int \<Rightarrow> int" where
  "interval_earliest_wakeup wakeup at current =
     (if at > current
      then (let delta = at - current; wakeup = (if delta < wakeup then delta else wakeup)
            in if wakeup < 0 then 0 else wakeup)
      else wakeup)"

subsection \<open>The clock\<close>

record clock =
  ck_now :: int
  ck_now_usec :: int
  ck_now_adj :: int

definition update_now :: "int \<Rightarrow> clock \<Rightarrow> clock" where
  "update_now system_time c =
     (let real_time = system_time + ck_now_adj c in
      if real_time > ck_now c
      then (let overshoot = real_time - ck_now c - 1 in
            if overshoot > 86400 \<and> ck_now_adj c \<ge> overshoot
            then c\<lparr>ck_now_adj := ck_now_adj c - overshoot, ck_now := real_time - overshoot\<rparr>
            else c\<lparr>ck_now := real_time\<rparr>)
      else if real_time < ck_now c - 10
      then c\<lparr>ck_now_adj := ck_now_adj c + (ck_now c - real_time)\<rparr>
      else c)"

definition update_now_usec :: "timeval \<Rightarrow> clock \<Rightarrow> clock" where
  "update_now_usec tv c =
     (let last = ck_now c; c = update_now (tv_sec tv) c in
      if ck_now c > last \<or> (ck_now c = last \<and> tv_usec tv > ck_now_usec c)
      then c\<lparr>ck_now_usec := tv_usec tv\<rparr> else c)"

text \<open>\<open>sys\<close> is what \<open>gettimeofday\<close> delivers; its failure leaves everything alone.\<close>

definition openvpn_gettimeofday :: "timeval option \<Rightarrow> clock \<Rightarrow> clock \<times> timeval option" where
  "openvpn_gettimeofday sys c =
     (case sys of
        None \<Rightarrow> (c, None)
      | Some tv \<Rightarrow> (let c = update_now_usec tv c in (c, Some \<lparr>tv_sec = ck_now c, tv_usec = ck_now_usec c\<rparr>)))"

definition update_time :: "int \<Rightarrow> clock \<Rightarrow> clock" where
  "update_time sys c = (update_now sys c)\<lparr>ck_now_usec := 0\<rparr>"

definition openvpn_time :: "int \<Rightarrow> clock \<Rightarrow> clock \<times> int" where
  "openvpn_time sys c = (let c = update_time sys c in (c, ck_now c))"

subsection \<open>The rate limiter\<close>

record frequency_limit =
  fq_max :: int
  fq_per :: int
  fq_n :: int
  fq_reset :: int

definition frequency_limit_init :: "int \<Rightarrow> int \<Rightarrow> frequency_limit option" where
  "frequency_limit_init mx per = do {
     ASSERT (mx \<ge> 0 \<and> per \<ge> 0);
     Some \<lparr>fq_max = mx, fq_per = per, fq_n = 0, fq_reset = 0\<rparr> }"

text \<open>\<open>++f->n\<close> counts every event, refused ones too, in an \<open>int\<close>: \<open>None\<close> is its overflow.\<close>

definition frequency_limit_event_allowed ::
    "int \<Rightarrow> frequency_limit \<Rightarrow> (frequency_limit \<times> bool) option" where
  "frequency_limit_event_allowed now f =
     (if fq_per f \<noteq> 0
      then do {
        let f = (if now \<ge> fq_reset f + fq_per f then f\<lparr>fq_reset := now, fq_n := 0\<rparr> else f);
        n \<leftarrow> int_sum (fq_n f) 1;
        let f = f\<lparr>fq_n := n\<rparr>;
        Some (f, n \<le> fq_max f) }
      else Some (f, True))"

subsection \<open>Periodic events\<close>

record event_timeout =
  et_defined :: bool
  et_n :: int
  et_last :: int

definition event_timeout_clear :: event_timeout where
  "event_timeout_clear = \<lparr>et_defined = False, et_n = 0, et_last = 0\<rparr>"

definition event_timeout_init :: "int \<Rightarrow> int \<Rightarrow> event_timeout" where
  "event_timeout_init n lst = \<lparr>et_defined = True, et_n = (if n \<ge> 0 then n else 0), et_last = lst\<rparr>"

definition event_timeout_reset :: "int \<Rightarrow> event_timeout \<Rightarrow> event_timeout" where
  "event_timeout_reset now et = (if et_defined et then et\<lparr>et_last := now\<rparr> else et)"

definition event_timeout_modify_wakeup :: "event_timeout \<Rightarrow> int \<Rightarrow> event_timeout" where
  "event_timeout_modify_wakeup et n =
     (if et_defined et then et\<lparr>et_n := (if n \<ge> 0 then n else 0)\<rparr> else et)"

definition event_timeout_remaining :: "int \<Rightarrow> event_timeout \<Rightarrow> int" where
  "event_timeout_remaining now et = (et_last et + et_n et) - now"

text \<open>A NULL \<open>tv\<close> is \<open>None\<close>.\<close>

definition event_timeout_trigger ::
    "int \<Rightarrow> event_timeout \<Rightarrow> timeval option \<Rightarrow> int \<Rightarrow> event_timeout \<times> timeval option \<times> bool" where
  "event_timeout_trigger now et tv et_const_retry =
     (if \<not> et_defined et then (et, tv, False)
      else
        (let wakeup = event_timeout_remaining now et;
             (et, wakeup, ret) =
               (if wakeup \<le> 0
                then (if et_const_retry < 0 then (et\<lparr>et_last := now\<rparr>, et_n et, True)
                      else (et, et_const_retry, False))
                else (et, wakeup, False));
             tv = map_option (\<lambda>tv. if wakeup < tv_sec tv then \<lparr>tv_sec = wakeup, tv_usec = 0\<rparr> else tv) tv
         in (et, tv, ret)))"

record interval =
  iv_refresh :: int
  iv_horizon :: int
  iv_future_trigger :: int
  iv_last_action :: int
  iv_last_test_true :: int

definition interval_init :: "int \<Rightarrow> int \<Rightarrow> interval" where
  "interval_init horizon refresh =
     \<lparr>iv_refresh = refresh, iv_horizon = horizon, iv_future_trigger = 0, iv_last_action = 0, iv_last_test_true = 0\<rparr>"

definition interval_test :: "int \<Rightarrow> interval \<Rightarrow> interval \<times> bool" where
  "interval_test now iv =
     (let trigger = iv_future_trigger iv \<noteq> 0 \<and> now \<ge> iv_future_trigger iv;
          iv = (if trigger then iv\<lparr>iv_future_trigger := 0\<rparr> else iv) in
      if iv_last_action iv + iv_horizon iv > now \<or> iv_last_test_true iv + iv_refresh iv \<le> now \<or> trigger
      then (iv\<lparr>iv_last_test_true := now\<rparr>, True) else (iv, False))"

definition interval_schedule_wakeup :: "int \<Rightarrow> interval \<Rightarrow> int \<Rightarrow> int" where
  "interval_schedule_wakeup now iv wakeup =
     interval_earliest_wakeup
       (interval_earliest_wakeup wakeup (iv_last_test_true iv + iv_refresh iv) now)
       (iv_future_trigger iv) now"

definition interval_future_trigger :: "int \<Rightarrow> interval \<Rightarrow> int \<Rightarrow> interval" where
  "interval_future_trigger now iv wakeup =
     (if wakeup \<noteq> 0 then iv\<lparr>iv_future_trigger := now + wakeup\<rparr> else iv)"

definition interval_action :: "int \<Rightarrow> interval \<Rightarrow> interval" where
  "interval_action now iv = iv\<lparr>iv_last_action := now\<rparr>"

subsection \<open>Order and arithmetic of time values\<close>

text \<open>Time values are ordered lexicographically; the five comparisons of otime.h are this order.\<close>

instantiation timeval_ext :: (linorder) linorder
begin

definition less_eq_timeval_ext :: "'a timeval_scheme \<Rightarrow> 'a timeval_scheme \<Rightarrow> bool" where
  "s \<le> t \<longleftrightarrow> tv_sec s < tv_sec t \<or> (tv_sec s = tv_sec t \<and> (tv_usec s < tv_usec t
     \<or> (tv_usec s = tv_usec t \<and> timeval.more s \<le> timeval.more t)))"

definition less_timeval_ext :: "'a timeval_scheme \<Rightarrow> 'a timeval_scheme \<Rightarrow> bool" where
  "(s :: 'a timeval_scheme) < t \<longleftrightarrow> s \<le> t \<and> \<not> t \<le> s"

instance
  by standard (auto simp: less_eq_timeval_ext_def less_timeval_ext_def)

end

lemma timeval_le: "(s :: timeval) \<le> t \<longleftrightarrow> tv_sec s < tv_sec t \<or> (tv_sec s = tv_sec t \<and> tv_usec s \<le> tv_usec t)"
  by (auto simp: less_eq_timeval_ext_def)

lemma timeval_compare:
  "tv_le s t \<longleftrightarrow> s \<le> t" "tv_lt s t \<longleftrightarrow> s < t" "tv_ge s t \<longleftrightarrow> t \<le> s" "tv_gt s t \<longleftrightarrow> t < s" "tv_eq s t \<longleftrightarrow> s = t"
  by (auto simp: tv_le_def tv_lt_def tv_ge_def tv_gt_def tv_eq_def timeval_le less_timeval_ext_def)

text \<open>The instant a time value stands for, in microseconds.\<close>

definition tv_total :: "timeval \<Rightarrow> int" where
  "tv_total t = tv_sec t * 1000000 + tv_usec t"

definition tv_wf :: "timeval \<Rightarrow> bool" where
  "tv_wf t \<longleftrightarrow> 0 \<le> tv_usec t \<and> tv_usec t < 1000000"

lemma timeval_le_total: "tv_wf s \<Longrightarrow> tv_wf t \<Longrightarrow> s \<le> t \<longleftrightarrow> tv_total s \<le> tv_total t"
  by (auto simp: tv_wf_def tv_total_def timeval_le)

lemma tv_subtract_bound: "0 \<le> m \<Longrightarrow> \<bar>tv_subtract s t m\<bar> \<le> m * 1000000"
  by (auto simp: tv_subtract_def Let_def constrain_int_def)

lemma tv_subtract_exact:
  assumes "tv_wf s" "tv_wf t" "\<bar>tv_total s - tv_total t\<bar> \<le> m * 1000000"
  shows "tv_subtract s t m = tv_total s - tv_total t"
proof -
  have "\<bar>tv_sec s - tv_sec t\<bar> \<le> m + 1" using assms by (auto simp: tv_wf_def tv_total_def)
  then show ?thesis using assms
    by (auto simp: tv_subtract_def Let_def constrain_int_def tv_total_def)
qed

lemma tv_borrow_law: "tv_borrow s u = (s', u') \<Longrightarrow> s' * 1000000 + u' = s * 1000000 + u \<and> 0 \<le> u' \<and> (u < 1000000 \<longrightarrow> u' < 1000000)"
proof (induction s u arbitrary: s' u' rule: tv_borrow.induct)
  case (1 sec usec)
  then show ?case by (cases "usec < 0") (auto simp: tv_borrow.simps [of sec usec])
qed

lemma tv_delta_law:
  assumes "tv_wf s" "tv_wf t"
  shows "tv_wf (tv_delta s t) \<and> tv_total (tv_delta s t) = max 0 (tv_total t - tv_total s)"
proof -
  obtain a b where ab: "tv_borrow (tv_sec t - tv_sec s) (tv_usec t - tv_usec s) = (a, b)" by fastforce
  have "tv_usec t - tv_usec s < 1000000" using assms by (simp add: tv_wf_def)
  then show ?thesis using tv_borrow_law [OF ab] ab
    by (auto simp: tv_delta_def tv_wf_def tv_total_def)
qed

subsection \<open>Properties\<close>

text \<open>
  Addition of time values (used to compute when the traffic shaper may send again) is exact
  only while the microseconds sum to less than 2^20: the carry is taken with a shift by 20 bits
  although a second has 1000000 microseconds, so every carried second loses 48576 microseconds.
  The result is normalised.
\<close>

theorem tv_add_carry:
  assumes "0 \<le> tv_usec d + tv_usec s"
  shows "tv_total (tv_add d s) = tv_total d + tv_total s - 48576 * ((tv_usec d + tv_usec s) div 1048576)
    \<and> tv_wf (tv_add d s)"
proof -
  let ?u = "tv_usec d + tv_usec s"
  have m: "?u AND 0x000FFFFF = ?u mod 1048576"
    using and_exp_eq_0_iff_not_bit [of ?u] take_bit_eq_mask [of 20 ?u] by (simp add: take_bit_eq_mod mask_eq_exp_minus_1)
  have d: "drop_bit 20 ?u = ?u div 1048576" by (simp add: drop_bit_eq_div)
  define q r where qr: "q = ?u div 1048576" "r = ?u mod 1048576"
  have "tv_usec d + tv_usec s = q * 1048576 + r" "0 \<le> r" "r < 1048576" unfolding qr by simp_all
  then show ?thesis
    unfolding tv_add_def Let_def m d tv_total_def tv_wf_def qr [symmetric] by simp
qed

theorem tv_add_carry_witness:
  "tv_total (tv_add \<lparr>tv_sec = 0, tv_usec = 600000\<rparr> \<lparr>tv_sec = 0, tv_usec = 600000\<rparr>) = 1200000 - 48576"
  using tv_add_carry [of "\<lparr>tv_sec = 0, tv_usec = 600000\<rparr>" "\<lparr>tv_sec = 0, tv_usec = 600000\<rparr>"]
  by (simp add: tv_total_def)

lemma update_now_step:
  "ck_now c \<le> ck_now (update_now t c)
   \<and> 0 \<le> ck_now (update_now t c) - (t + ck_now_adj (update_now t c))
   \<and> ck_now (update_now t c) - (t + ck_now_adj (update_now t c)) \<le> 10
   \<and> (0 \<le> ck_now_adj c \<longrightarrow> 0 \<le> ck_now_adj (update_now t c))"
  by (auto simp: update_now_def Let_def)

text \<open>
  The filtered clock.  However the system clock jumps, \<open>now\<close> never runs backwards; after every
  update it is at most ten seconds ahead of, and never behind, the system time plus the current
  adjustment, and the adjustment never becomes negative.
\<close>

theorem clock_monotone:
  assumes "ts \<noteq> []"
  shows "ck_now c \<le> ck_now (fold update_now ts c)
    \<and> 0 \<le> ck_now (fold update_now ts c) - (last ts + ck_now_adj (fold update_now ts c))
    \<and> ck_now (fold update_now ts c) - (last ts + ck_now_adj (fold update_now ts c)) \<le> 10
    \<and> (0 \<le> ck_now_adj c \<longrightarrow> 0 \<le> ck_now_adj (fold update_now ts c))"
  using assms
proof (induction ts rule: rev_induct)
  case (snoc t ts)
  then show ?case
    using update_now_step [of "fold update_now ts c" t] by (cases "ts = []") auto
qed simp

theorem clock_monotone_witness:
  "5000 \<le> ck_now (fold update_now [1000, 100000, 2000] \<lparr>ck_now = 5000, ck_now_usec = 0, ck_now_adj = 0\<rparr>)"
  using clock_monotone [of "[1000, 100000, 2000]" "\<lparr>ck_now = 5000, ck_now_usec = 0, ck_now_adj = 0\<rparr>"] by simp

text \<open>A sequence of events offered to the limiter, each with its verdict.\<close>

fun limiter_run :: "int list \<Rightarrow> frequency_limit \<Rightarrow> (int \<times> bool) list option" where
  "limiter_run [] f = Some []"
| "limiter_run (t # ts) f = do {
     (f, ok) \<leftarrow> frequency_limit_event_allowed t f;
     evs \<leftarrow> limiter_run ts f;
     Some ((t, ok) # evs) }"

text \<open>How many events of a run were let through from the time \<open>a\<close> on and before the time \<open>b\<close>.\<close>

definition allowed_in :: "int \<Rightarrow> int \<Rightarrow> (int \<times> bool) list \<Rightarrow> nat" where
  "allowed_in a b evs = length (filter (\<lambda>(t, ok). ok \<and> a \<le> t \<and> t < b) evs)"

lemma allowed_in_Nil [simp]: "allowed_in a b [] = 0"
  by (simp add: allowed_in_def)

lemma allowed_in_Cons [simp]:
  "allowed_in a b ((t, ok) # evs) = (if ok \<and> a \<le> t \<and> t < b then 1 else 0) + allowed_in a b evs"
  by (simp add: allowed_in_def)

text \<open>One event: the verdict and the new counter, with the overflow excluded by a bound on the counter.\<close>

lemma limiter_event:
  assumes "fq_per f \<noteq> 0" "0 \<le> fq_n f" "fq_n f < 2147483647"
  shows "frequency_limit_event_allowed t f =
    (let f = (if t \<ge> fq_reset f + fq_per f then f\<lparr>fq_reset := t, fq_n := 0\<rparr> else f)
     in Some (f\<lparr>fq_n := fq_n f + 1\<rparr>, fq_n f + 1 \<le> fq_max f))"
  using assms by (simp add: frequency_limit_event_allowed_def Let_def)

lemma limiter_run_total:
  assumes "0 \<le> fq_n f" "fq_n f + int (length ts) < 2147483648"
  shows "\<exists>evs. limiter_run ts f = Some evs \<and> map fst evs = ts"
  using assms
proof (induction ts arbitrary: f)
  case (Cons t ts)
  show ?case
  proof (cases "fq_per f = 0")
    case True
    then show ?thesis using Cons.IH [of f] Cons.prems by (auto simp: frequency_limit_event_allowed_def)
  next
    case False
    define g where "g = (if t \<ge> fq_reset f + fq_per f then f\<lparr>fq_reset := t, fq_n := 0\<rparr> else f)"
    have "frequency_limit_event_allowed t f = Some (g\<lparr>fq_n := fq_n g + 1\<rparr>, fq_n g + 1 \<le> fq_max g)"
      using limiter_event [OF False, of t] Cons.prems by (simp add: g_def Let_def)
    moreover have "fq_n g + 1 + int (length ts) < 2147483648" "0 \<le> fq_n g"
      using Cons.prems by (auto simp: g_def)
    ultimately show ?thesis using Cons.IH [of "g\<lparr>fq_n := fq_n g + 1\<rparr>"] by auto
  qed
qed simp

lemma limiter_run_ConsE:
  assumes "limiter_run (t # ts) f = Some evs" "fq_per f \<noteq> 0"
  obtains g ok rest where "frequency_limit_event_allowed t f = Some (g, ok)" "limiter_run ts g = Some rest"
    "evs = (t, ok) # rest" "ok \<longleftrightarrow> fq_n g \<le> fq_max f" "fq_per g = fq_per f" "fq_max g = fq_max f"
    "if fq_reset f + fq_per f \<le> t then fq_n g = 1 \<and> fq_reset g = t
     else fq_n g = fq_n f + 1 \<and> fq_reset g = fq_reset f"
  using assms
  by (auto simp: frequency_limit_event_allowed_def option_bind_Some_iff int_sum_Some_iff Let_def split: if_splits)

lemma allowed_in_late: "\<forall>t \<in> set (map fst evs). b \<le> t \<Longrightarrow> allowed_in a b evs = 0"
  by (induction evs) auto

lemma limiter_run_times: "limiter_run ts f = Some evs \<Longrightarrow> map fst evs = ts"
  by (induction ts arbitrary: f evs) (auto simp: option_bind_Some_iff)

lemma allowed_same_period:
  assumes "sorted ts" "0 < fq_per f" "0 \<le> fq_n f" "b \<le> fq_reset f + fq_per f" "limiter_run ts f = Some evs"
  shows "int (allowed_in a b evs) \<le> max 0 (fq_max f - fq_n f)"
  using assms
proof (induction ts arbitrary: f evs)
  case (Cons t ts)
  show ?case
  proof (cases "t < b")
    case True
    from Cons.prems obtain g ok rest where g: "limiter_run ts g = Some rest" "evs = (t, ok) # rest"
      "ok \<longleftrightarrow> fq_n g \<le> fq_max f" "fq_per g = fq_per f" "fq_max g = fq_max f"
      "fq_n g = fq_n f + 1" "fq_reset g = fq_reset f"
      using True by (elim limiter_run_ConsE) auto
    show ?thesis using Cons.IH [of g rest] Cons.prems g by auto
  next
    case False
    then have "\<forall>x \<in> set (map fst evs). b \<le> x"
      using Cons.prems(1) limiter_run_times [OF Cons.prems(5)] by auto
    then have "allowed_in a b evs = 0" by (rule allowed_in_late)
    then show ?thesis by simp
  qed
qed simp

lemma allowed_from:
  assumes "sorted ts" "0 < fq_per f" "0 \<le> fq_n f" "0 \<le> fq_max f" "\<forall>t \<in> set ts. a \<le> t"
    and "limiter_run ts f = Some evs"
  shows "int (allowed_in a (a + fq_per f) evs) \<le> max 0 (fq_max f - fq_n f) + fq_max f"
  using assms
proof (induction ts arbitrary: f evs)
  case (Cons t ts)
  from Cons.prems obtain g ok rest where g: "limiter_run ts g = Some rest" "evs = (t, ok) # rest"
    "ok \<longleftrightarrow> fq_n g \<le> fq_max f" "fq_per g = fq_per f" "fq_max g = fq_max f"
    "if fq_reset f + fq_per f \<le> t then fq_n g = 1 \<and> fq_reset g = t
     else fq_n g = fq_n f + 1 \<and> fq_reset g = fq_reset f"
    by (elim limiter_run_ConsE) auto
  show ?case
  proof (cases "fq_reset f + fq_per f \<le> t")
    case True
    then have "int (allowed_in a (a + fq_per f) rest) \<le> max 0 (fq_max g - fq_n g)"
      using allowed_same_period [of ts g "a + fq_per f" rest a] Cons.prems g by simp
    then show ?thesis using g Cons.prems True by auto
  next
    case False
    then show ?thesis using Cons.IH [of g rest] g Cons.prems by auto
  qed
qed simp

lemma allowed_two_periods:
  assumes "sorted ts" "0 < fq_per f" "0 \<le> fq_n f" "0 \<le> fq_max f" "limiter_run ts f = Some evs"
  shows "int (allowed_in a (a + fq_per f) evs) \<le> 2 * fq_max f"
  using assms
proof (induction ts arbitrary: f evs)
  case (Cons t ts)
  show ?case
  proof (cases "a \<le> t")
    case True
    then have "\<forall>x \<in> set (t # ts). a \<le> x" using Cons.prems(1) by auto
    then show ?thesis using allowed_from [of "t # ts" f a evs] Cons.prems by auto
  next
    case False
    from Cons.prems obtain g ok rest where g: "limiter_run ts g = Some rest" "evs = (t, ok) # rest"
      "fq_per g = fq_per f" "fq_max g = fq_max f"
      "if fq_reset f + fq_per f \<le> t then fq_n g = 1 \<and> fq_reset g = t
       else fq_n g = fq_n f + 1 \<and> fq_reset g = fq_reset f"
      by (elim limiter_run_ConsE) auto
    have "0 \<le> fq_n g" using g(5) Cons.prems(3) by (auto split: if_splits)
    then show ?thesis using Cons.IH [of g rest] g Cons.prems False by auto
  qed
qed simp

lemma limiter_first:
  assumes "limiter_run ts f = Some evs" "fq_max f = m" "0 \<le> fq_n f"
  shows "\<forall>k < length ts. fq_n f + int k < m \<longrightarrow> snd (evs ! k)"
  using assms
proof (induction ts arbitrary: f evs)
  case (Cons t ts)
  show ?case
  proof (cases "fq_per f = 0")
    case True
    then obtain rest where r: "limiter_run ts f = Some rest" "evs = (t, True) # rest"
      using Cons.prems(1) by (auto simp: frequency_limit_event_allowed_def option_bind_Some_iff)
    have "snd (rest ! k)" if "k < length ts" "fq_n f + int (Suc k) < m" for k
      using Cons.IH [OF r(1) Cons.prems(2,3)] that by auto
    then show ?thesis unfolding r(2) by (auto simp: nth_Cons split: nat.splits)
  next
    case False
    from Cons.prems obtain g ok rest where g: "limiter_run ts g = Some rest" "evs = (t, ok) # rest"
      "ok \<longleftrightarrow> fq_n g \<le> fq_max f" "fq_max g = fq_max f"
      "if fq_reset f + fq_per f \<le> t then fq_n g = 1 \<and> fq_reset g = t
       else fq_n g = fq_n f + 1 \<and> fq_reset g = fq_reset f"
      using False by (elim limiter_run_ConsE) auto
    have n: "0 \<le> fq_n g" "fq_n g \<le> fq_n f + 1" using g(5) Cons.prems(3) by (auto split: if_splits)
    have "snd (rest ! k)" if "k < length ts" "fq_n f + int (Suc k) < m" for k
      using Cons.IH [OF g(1)] g(4) Cons.prems(2) n that by auto
    then show ?thesis using g n Cons.prems(2) by (auto simp: nth_Cons split: nat.splits)
  qed
qed simp

text \<open>
  C40: The connection rate limiter.  A limiter for \<open>m\<close> events per \<open>p\<close> seconds that is offered fewer
  than \<open>2^31\<close> events (it counts them all, refused ones too, in an \<open>int\<close>) gives a verdict on every one
  of them, and lets at most \<open>2 m\<close> events through in any window of \<open>p\<close> seconds, whenever the window
  starts and however the events arrive (the count is reset at most once inside a window); the first
  \<open>m\<close> of a fresh limiter are let through, and with a zero period it never refuses.
\<close>

theorem rate_limit_bound:
  assumes "frequency_limit_init m p = Some f" "sorted ts" "length ts < 2 ^ 31"
  shows "\<exists>evs. limiter_run ts f = Some evs \<and> map fst evs = ts
    \<and> (0 < p \<longrightarrow> (\<forall>a. int (allowed_in a (a + p) evs) \<le> 2 * m))
    \<and> (\<forall>k < length ts. int k < m \<longrightarrow> snd (evs ! k))
    \<and> (p = 0 \<longrightarrow> (\<forall>(t, ok) \<in> set evs. ok))"
proof -
  have f: "f = \<lparr>fq_max = m, fq_per = p, fq_n = 0, fq_reset = 0\<rparr>" "0 \<le> m" "0 \<le> p"
    using assms(1) by (auto simp: frequency_limit_init_def split: if_splits)
  obtain evs where evs: "limiter_run ts f = Some evs" "map fst evs = ts"
    using limiter_run_total [of f ts] assms(3) f by auto
  have zero: "\<forall>(t, ok) \<in> set evs. ok" if "p = 0"
    using evs(1) unfolding f(1) that
    by (induction ts arbitrary: evs) (auto simp: frequency_limit_event_allowed_def option_bind_Some_iff)
  have first: "\<forall>k < length ts. int k < m \<longrightarrow> snd (evs ! k)"
    using limiter_first [OF evs(1), of m] f by simp
  show ?thesis using allowed_two_periods [OF assms(2), of f evs] f evs zero first by auto
qed

theorem rate_limit_bound_witness:
  "\<exists>evs. limiter_run [8, 9, 10, 17, 18] \<lparr>fq_max = 1, fq_per = 10, fq_n = 0, fq_reset = 0\<rparr> = Some evs
    \<and> int (allowed_in 8 18 evs) \<le> 2"
proof -
  have "frequency_limit_init 1 10 = Some \<lparr>fq_max = 1, fq_per = 10, fq_n = 0, fq_reset = 0\<rparr>"
    by (simp add: frequency_limit_init_def)
  from rate_limit_bound [OF this, of "[8, 9, 10, 17, 18]"] obtain evs where
    "limiter_run [8, 9, 10, 17, 18] \<lparr>fq_max = 1, fq_per = 10, fq_n = 0, fq_reset = 0\<rparr> = Some evs"
    "\<forall>a. int (allowed_in a (a + 10) evs) \<le> 2 * 1" by auto
  then show ?thesis using spec [of "\<lambda>a. int (allowed_in a (a + 10) evs) \<le> 2 * 1" 8] by auto
qed

text \<open>
  Periodic timers.  An armed timer fires exactly when its period has elapsed (and no back-off was
  asked for); after firing it fires again no earlier than one full period later; when it does not fire
  it is unchanged; and the wait returned never exceeds the given one nor the time to the next event.
\<close>

theorem timer_period:
  assumes "et_defined et" "0 \<le> et_n et" "event_timeout_trigger now et (Some tv) retry = (et', tv', fired)"
  shows "(fired \<longleftrightarrow> et_last et + et_n et \<le> now \<and> retry < 0)
    \<and> (if fired then et' = et\<lparr>et_last := now\<rparr> else et' = et)
    \<and> (fired \<longrightarrow> (\<forall>later tv2. snd (snd (event_timeout_trigger later et' tv2 (- 1))) = (now + et_n et \<le> later)))
    \<and> (\<exists>w. tv' = Some w \<and> w \<le> tv \<and>
         (0 \<le> tv_usec tv \<longrightarrow>
           tv_sec w \<le> (if now < et_last et + et_n et then et_last et + et_n et - now else if fired then et_n et else retry)))"
  using assms
  by (auto simp: event_timeout_trigger_def event_timeout_remaining_def Let_def timeval_le split: if_splits)

theorem timer_period_witness:
  "snd (snd (event_timeout_trigger 20 \<lparr>et_defined = True, et_n = 5, et_last = 10\<rparr> (Some \<lparr>tv_sec = 60, tv_usec = 0\<rparr>) (- 1)))"
proof -
  obtain et' tv' fired where e: "event_timeout_trigger 20 \<lparr>et_defined = True, et_n = 5, et_last = 10\<rparr>
      (Some \<lparr>tv_sec = 60, tv_usec = 0\<rparr>) (- 1) = (et', tv', fired)" by (metis prod_cases3)
  from timer_period [OF _ _ e] show ?thesis by (simp add: e)
qed

end
