(* ===== verification/Frame.thy ===== *)
theory Frame
  imports Buffer
begin

text \<open>
  Packet geometry (\<open>struct frame\<close> of src/openvpn/mtu.h): the sizes of the buffers of a connection
  and the limits computed from them.
\<close>

subsection \<open>State\<close>

record frame =
  fm_payload_size :: int
  fm_headroom :: int
  fm_tailroom :: int
  fm_mss_fix :: u16
  fm_max_fragment_size :: int
  fm_tun_mtu :: int
  fm_tun_max_mtu :: int
  fm_extra_tun :: int

definition BUF_SIZE :: "frame \<Rightarrow> int" where
  "BUF_SIZE f = fm_headroom f + fm_payload_size f + fm_tailroom f"

definition alloc_buf_sock_tun :: "frame \<Rightarrow> buffer option" where
  "alloc_buf_sock_tun frm = do {
     b \<leftarrow> alloc_buf (size_t_of_int (BUF_SIZE frm));
     let (b, ok) = buf_init b (fm_headroom frm);
     ASSERT ok;
     let b = b\<lparr>b_len := fm_payload_size frm\<rparr>;
     ASSERT (buf_safe b 0);
     Some b }"

lemma alloc_buf_sock_tun_law:
  assumes "alloc_buf_sock_tun f = Some b" "0 \<le> fm_headroom f" "0 \<le> fm_payload_size f" "0 \<le> fm_tailroom f" "BUF_SIZE f < 2 ^ 64"
  shows "buf_wf b \<and> b_offset b = fm_headroom f \<and> b_len b = fm_payload_size f \<and> b_capacity b = BUF_SIZE f"
proof -
  have sz: "int (size_t_of_int (BUF_SIZE f)) = BUF_SIZE f" using assms(2-5) by (simp add: size_t_of_int_def BUF_SIZE_def)
  obtain b0 where b0: "alloc_buf (size_t_of_int (BUF_SIZE f)) = Some b0"
    using assms(1) by (cases "alloc_buf (size_t_of_int (BUF_SIZE f))") (simp_all add: alloc_buf_sock_tun_def)
  then have "BUF_SIZE f < BUF_SIZE_MAX" using sz by (auto simp: alloc_buf_def buf_size_valid_def split: if_splits)
  then have wf0: "buf_wf b0" "b_capacity b0 = BUF_SIZE f" using alloc_buf_law [of "size_t_of_int (BUF_SIZE f)"] b0 sz by auto
  have le: "fm_headroom f \<le> b_capacity b0" using assms(3,4) wf0(2) by (simp add: BUF_SIZE_def)
  obtain b1 where b1: "buf_init b0 (fm_headroom f) = (b1, True)" "buf_wf b1" "b_offset b1 = fm_headroom f" "b_capacity b1 = b_capacity b0"
    using buf_init_law [OF wf0(1) assms(2) le] by metis
  have "b = b1\<lparr>b_len := fm_payload_size f\<rparr>"
    using assms(1) b0 b1(1) by (auto simp: alloc_buf_sock_tun_def Let_def split: if_splits)
  then show ?thesis using b1 wf0(2) assms(2-4) by (auto simp: buf_wf_def BUF_SIZE_def)
qed

end
