(* ===== verification/Fragment.thy ===== *)
theory Fragment
  imports Frame Timing
begin

text \<open>
  Fragmentation of data channel packets (fragment.c, fragment.h): a datagram larger
  than the link allows is cut into up to 32 fragments, each with a 32-bit header;
  the receiver reassembles up to 25 datagrams at once, whatever the order in which
  their fragments arrive.

  The message texts of \<open>FRAG_ERR\<close> are not modelled; its \<open>goto error\<close> empties the buffer.
\<close>

subsection \<open>State\<close>

definition N_FRAG_BUF :: int where "N_FRAG_BUF = 25"
definition FRAG_TTL_SEC :: int where "FRAG_TTL_SEC = 10"
definition FRAG_WAKEUP_INTERVAL :: int where "FRAG_WAKEUP_INTERVAL = 5"
definition N_SEQ_ID :: int where "N_SEQ_ID = 256"
definition MAX_FRAGS :: int where "MAX_FRAGS = 32"
definition FRAG_MAP_MASK :: u32 where "FRAG_MAP_MASK = 0xFFFFFFFF"

definition FRAG_TYPE_MASK :: u32 where "FRAG_TYPE_MASK = 0x00000003"
definition FRAG_TYPE_SHIFT :: nat where "FRAG_TYPE_SHIFT = 0"
definition FRAG_WHOLE :: int where "FRAG_WHOLE = 0"
definition FRAG_YES_NOTLAST :: int where "FRAG_YES_NOTLAST = 1"
definition FRAG_YES_LAST :: int where "FRAG_YES_LAST = 2"
definition FRAG_TEST :: int where "FRAG_TEST = 3"
definition FRAG_SEQ_ID_MASK :: u32 where "FRAG_SEQ_ID_MASK = 0x000000ff"
definition FRAG_SEQ_ID_SHIFT :: nat where "FRAG_SEQ_ID_SHIFT = 2"
definition FRAG_ID_MASK :: u32 where "FRAG_ID_MASK = 0x0000001f"
definition FRAG_ID_SHIFT :: nat where "FRAG_ID_SHIFT = 10"
definition FRAG_SIZE_MASK :: u32 where "FRAG_SIZE_MASK = 0x00003fff"
definition FRAG_SIZE_SHIFT :: nat where "FRAG_SIZE_SHIFT = 15"
definition FRAG_SIZE_ROUND_SHIFT :: nat where "FRAG_SIZE_ROUND_SHIFT = 2"
definition FRAG_SIZE_ROUND_MASK :: int where "FRAG_SIZE_ROUND_MASK = 3"

record fragment =
  fr_defined :: bool
  fr_max_frag_size :: int
  fr_map :: u32
  fr_timestamp :: int
  fr_buf :: buffer

record fragment_list =
  fl_seq_id :: int
  fl_index :: int
  fl_fragments :: "fragment list"

record fragment_master =
  fg_wakeup :: event_timeout
  fg_received_os_mtu_hint :: bool
  fg_outgoing_seq_id :: int
  fg_outgoing_frag_size :: int
  fg_outgoing_frag_id :: int
  fg_outgoing :: buffer
  fg_outgoing_return :: buffer
  fg_incoming :: fragment_list

subsection \<open>Set-up\<close>

definition fragment_zero :: fragment where
  "fragment_zero = \<lparr>fr_defined = False, fr_max_frag_size = 0, fr_map = 0, fr_timestamp = 0, fr_buf = clear_buf\<rparr>"

fun alloc_frag_bufs :: "frame \<Rightarrow> fragment list \<Rightarrow> fragment list option" where
  "alloc_frag_bufs frm [] = Some []"
| "alloc_frag_bufs frm (fr # frs) = do {
     b \<leftarrow> alloc_buf (size_t_of_int (BUF_SIZE frm));
     frs \<leftarrow> alloc_frag_bufs frm frs;
     Some (fr\<lparr>fr_buf := b\<rparr> # frs) }"

definition fragment_list_buf_init :: "fragment_list \<Rightarrow> frame \<Rightarrow> fragment_list option" where
  "fragment_list_buf_init l frm = do {
     frs \<leftarrow> alloc_frag_bufs frm (fl_fragments l);
     Some (l\<lparr>fl_fragments := frs\<rparr>) }"

definition fragment_list_buf_free :: "fragment_list \<Rightarrow> fragment_list" where
  "fragment_list_buf_free l =
     l\<lparr>fl_fragments := map (\<lambda>fr. fr\<lparr>fr_buf := free_buf (fr_buf fr)\<rparr>) (fl_fragments l)\<rparr>"

text \<open>\<open>rnd\<close> is what \<open>get_random\<close> returns.\<close>

definition fragment_init :: "int \<Rightarrow> int \<Rightarrow> fragment_master" where
  "fragment_init rnd now =
     \<lparr>fg_wakeup = event_timeout_init FRAG_WAKEUP_INTERVAL now, fg_received_os_mtu_hint = False,
      fg_outgoing_seq_id = rnd AND (N_SEQ_ID - 1), fg_outgoing_frag_size = 0, fg_outgoing_frag_id = 0,
      fg_outgoing = clear_buf, fg_outgoing_return = clear_buf,
      fg_incoming = \<lparr>fl_seq_id = 0, fl_index = 0, fl_fragments = replicate (nat N_FRAG_BUF) fragment_zero\<rparr>\<rparr>"

definition fragment_free :: "fragment_master \<Rightarrow> fragment_master" where
  "fragment_free f =
     f\<lparr>fg_incoming := fragment_list_buf_free (fg_incoming f),
       fg_outgoing := free_buf (fg_outgoing f), fg_outgoing_return := free_buf (fg_outgoing_return f)\<rparr>"

definition fragment_frame_init :: "fragment_master \<Rightarrow> frame \<Rightarrow> fragment_master option" where
  "fragment_frame_init f frm = do {
     inc \<leftarrow> fragment_list_buf_init (fg_incoming f) frm;
     out \<leftarrow> alloc_buf (size_t_of_int (BUF_SIZE frm));
     ret \<leftarrow> alloc_buf (size_t_of_int (BUF_SIZE frm));
     Some (f\<lparr>fg_incoming := inc, fg_outgoing := out, fg_outgoing_return := ret\<rparr>) }"

subsection \<open>The receive window\<close>

definition frag_update :: "fragment_list \<Rightarrow> int \<Rightarrow> (fragment \<Rightarrow> fragment) \<Rightarrow> fragment_list" where
  "frag_update l i g = l\<lparr>fl_fragments := (fl_fragments l)[nat i := g (fl_fragments l ! nat i)]\<rparr>"

text \<open>The loop \<open>while (diff > 0)\<close>.\<close>

fun fragment_advance :: "nat \<Rightarrow> fragment_list \<Rightarrow> fragment_list option" where
  "fragment_advance 0 l = Some l"
| "fragment_advance (Suc d) l = do {
     i \<leftarrow> modulo_add (fl_index l) 1 N_FRAG_BUF;
     let l = frag_update (l\<lparr>fl_index := i\<rparr>) i (\<lambda>fr. fr\<lparr>fr_defined := False\<rparr>);
     s \<leftarrow> modulo_add (fl_seq_id l) 1 N_SEQ_ID;
     fragment_advance d (l\<lparr>fl_seq_id := s\<rparr>) }"

text \<open>The second result is the index of the buffer the code returns a pointer to.\<close>

definition fragment_list_get_buf :: "fragment_list \<Rightarrow> int \<Rightarrow> (fragment_list \<times> int) option" where
  "fragment_list_get_buf l seq_id = do {
     diff \<leftarrow> modulo_subtract seq_id (fl_seq_id l) N_SEQ_ID;
     let (l, diff) =
       (if \<bar>diff\<bar> \<ge> N_FRAG_BUF
        then (l\<lparr>fl_fragments := map (\<lambda>fr. fr\<lparr>fr_defined := False\<rparr>) (fl_fragments l),
                fl_index := 0, fl_seq_id := seq_id\<rparr>, 0)
        else (l, diff));
     l \<leftarrow> fragment_advance (nat diff) l;
     i \<leftarrow> modulo_add (fl_index l) (min diff 0) N_FRAG_BUF;
     Some (l, i) }"

subsection \<open>Incoming packets\<close>

definition frag_error :: "buffer \<Rightarrow> buffer" where
  "frag_error b = b\<lparr>b_len := 0\<rparr>"

text \<open>The branch for \<open>FRAG_YES_NOTLAST\<close> and \<open>FRAG_YES_LAST\<close>, after the header has been read.\<close>

definition fragment_incoming_part ::
    "fragment_master \<Rightarrow> buffer \<Rightarrow> frame \<Rightarrow> int \<Rightarrow> u32 \<Rightarrow> int \<Rightarrow> (fragment_master \<times> buffer) option" where
  "fragment_incoming_part f buf frm now flags frag_type = do {
     let seq_id = uint (drop_bit FRAG_SEQ_ID_SHIFT flags AND FRAG_SEQ_ID_MASK);
     let n = uint (drop_bit FRAG_ID_SHIFT flags AND FRAG_ID_MASK);
     let sz = (if frag_type = FRAG_YES_LAST
               then uint (push_bit FRAG_SIZE_ROUND_SHIFT (drop_bit FRAG_SIZE_SHIFT flags AND FRAG_SIZE_MASK))
               else b_len buf);
     (l, i) \<leftarrow> fragment_list_get_buf (fg_incoming f) seq_id;
     let f = f\<lparr>fg_incoming := l\<rparr>;
     if sz AND FRAG_SIZE_ROUND_MASK \<noteq> 0 then Some (f, frag_error buf)
     else do {
       let fr = fl_fragments l ! nat i;
       fr \<leftarrow> (if \<not> fr_defined fr \<or> fr_max_frag_size fr \<noteq> sz
              then do {
                let (b, ok) = buf_init (fr_buf fr) (fm_headroom frm);
                ASSERT ok;
                Some (fr\<lparr>fr_defined := True, fr_max_frag_size := sz, fr_map := 0, fr_buf := b\<rparr>) }
              else Some fr);
       (b, ok) \<leftarrow> buf_copy_range (fr_buf fr) (n * sz) buf 0 (b_len buf);
       (if \<not> ok then Some (f\<lparr>fg_incoming := frag_update l i (\<lambda>_. fr)\<rparr>, frag_error buf)
        else do {
            let fr = fr\<lparr>fr_buf := b,
                        fr_map := fr_map fr OR push_bit (nat n) (if frag_type = FRAG_YES_LAST then FRAG_MAP_MASK else 1),
                        fr_timestamp := now\<rparr>;
            if fr_map fr AND FRAG_MAP_MASK = FRAG_MAP_MASK
            then Some (f\<lparr>fg_incoming := frag_update l i (\<lambda>_. fr\<lparr>fr_defined := False\<rparr>)\<rparr>, fr_buf fr)
            else Some (f\<lparr>fg_incoming := frag_update l i (\<lambda>_. fr)\<rparr>, buf\<lparr>b_len := 0\<rparr>) }) } }"

definition fragment_incoming ::
    "fragment_master \<Rightarrow> buffer \<Rightarrow> frame \<Rightarrow> int \<Rightarrow> (fragment_master \<times> buffer) option" where
  "fragment_incoming f buf frm now =
     (if b_len buf > 0
      then (case buf_read buf 4 of
              (buf, None) \<Rightarrow> Some (f, frag_error buf)
            | (buf, Some bs) \<Rightarrow>
                (let flags = be32_of bs;
                     frag_type = uint (drop_bit FRAG_TYPE_SHIFT flags AND FRAG_TYPE_MASK) in
                 if frag_type = FRAG_WHOLE
                 then (if flags AND (FRAG_SEQ_ID_MASK OR FRAG_ID_MASK) \<noteq> 0
                       then Some (f, frag_error buf) else Some (f, buf))
                 else if frag_type = FRAG_YES_NOTLAST \<or> frag_type = FRAG_YES_LAST
                 then fragment_incoming_part f buf frm now flags frag_type
                 else Some (f, frag_error buf)))
      else Some (f, buf))"

subsection \<open>Outgoing packets\<close>

definition fragment_flags :: "int \<Rightarrow> int \<Rightarrow> int \<Rightarrow> int \<Rightarrow> u32" where
  "fragment_flags type seq_id frag_id frag_size =
     (let flags = push_bit FRAG_TYPE_SHIFT (word_of_int type AND FRAG_TYPE_MASK)
                  OR push_bit FRAG_SEQ_ID_SHIFT (word_of_int seq_id AND FRAG_SEQ_ID_MASK)
                  OR push_bit FRAG_ID_SHIFT (word_of_int frag_id AND FRAG_ID_MASK) in
      if type = FRAG_WHOLE \<or> type = FRAG_YES_NOTLAST then flags
      else flags OR push_bit FRAG_SIZE_SHIFT
             (drop_bit FRAG_SIZE_ROUND_SHIFT (word_of_int frag_size) AND FRAG_SIZE_MASK))"

definition fragment_prepend_flags :: "buffer \<Rightarrow> int \<Rightarrow> int \<Rightarrow> int \<Rightarrow> int \<Rightarrow> buffer option" where
  "fragment_prepend_flags buf type seq_id frag_id frag_size = do {
     let (buf, ok) = buf_write_prepend buf (be32_bytes (fragment_flags type seq_id frag_id frag_size));
     ASSERT ok;
     Some buf }"

text \<open>A zero aligned size is a division by zero.  All arguments are positive: C and HOL division agree.\<close>

definition optimal_fragment_size :: "int \<Rightarrow> int \<Rightarrow> int option" where
  "optimal_fragment_size len max_frag_size =
     (let mfs_aligned = max_frag_size AND NOT FRAG_SIZE_ROUND_MASK in
      if mfs_aligned = 0 then None
      else
        (let d = len div mfs_aligned; m = len mod mfs_aligned in
         if d > 0 \<and> m > 0 \<and> m < mfs_aligned * 3 div 4
         then Some (min_int mfs_aligned
                 ((max_frag_size - ((max_frag_size - m) div (d + 1)) + FRAG_SIZE_ROUND_MASK) AND NOT FRAG_SIZE_ROUND_MASK))
         else Some mfs_aligned))"

definition fragment_outgoing_defined :: "fragment_master \<Rightarrow> bool" where
  "fragment_outgoing_defined f \<longleftrightarrow> b_len (fg_outgoing f) > 0"

text \<open>
  \<open>*buf = f->outgoing_return\<close> shares the memory: what is written through \<open>buf\<close> also lands
  in the block of \<open>outgoing_return\<close>, whose window does not change.
\<close>

definition fragment_ready_to_send ::
    "fragment_master \<Rightarrow> buffer \<Rightarrow> frame \<Rightarrow> (fragment_master \<times> buffer \<times> bool) option" where
  "fragment_ready_to_send f buf frm =
     (if fragment_outgoing_defined f
      then do {
        let (sz, last) = (if b_len (fg_outgoing f) \<le> fg_outgoing_frag_size f
                          then (b_len (fg_outgoing f), True) else (fg_outgoing_frag_size f, False));
        let (buf, ok) = buf_init (fg_outgoing_return f) (fm_headroom frm);
        ASSERT ok;
        let (buf, out, ok) = buf_copy_n buf (fg_outgoing f) sz;
        ASSERT ok;
        buf \<leftarrow> fragment_prepend_flags buf (if last then FRAG_YES_LAST else FRAG_YES_NOTLAST)
                 (fg_outgoing_seq_id f) (fg_outgoing_frag_id f) (fg_outgoing_frag_size f);
        let f = f\<lparr>fg_outgoing := out, fg_outgoing_frag_id := fg_outgoing_frag_id f + 1,
                  fg_outgoing_return := (fg_outgoing_return f)\<lparr>b_data := b_data buf\<rparr>\<rparr>;
        ASSERT (\<not> last \<or> b_len (fg_outgoing f) = 0);
        Some (f, buf, True) }
      else Some (f, buf, False))"

definition fragment_outgoing :: "fragment_master \<Rightarrow> buffer \<Rightarrow> frame \<Rightarrow> (fragment_master \<times> buffer) option" where
  "fragment_outgoing f buf frm =
     (if b_len buf > 0
      then (if b_len buf > fm_max_fragment_size frm
            then do {
              sz \<leftarrow> optimal_fragment_size (b_len buf) (fm_max_fragment_size frm);
              let f = f\<lparr>fg_outgoing_frag_size := sz\<rparr>;
              if b_len buf > fg_outgoing_frag_size f * MAX_FRAGS then Some (f, frag_error buf)
              else do {
                let (out, ok) = buf_init (fg_outgoing f) (fm_headroom frm);
                ASSERT ok;
                let (out, ok) = buf_copy out buf;
                ASSERT ok;
                s \<leftarrow> modulo_add (fg_outgoing_seq_id f) 1 N_SEQ_ID;
                let f = f\<lparr>fg_outgoing := out, fg_outgoing_seq_id := s, fg_outgoing_frag_id := 0\<rparr>;
                (f, buf, ok) \<leftarrow> fragment_ready_to_send f (buf\<lparr>b_len := 0\<rparr>) frm;
                ASSERT ok;
                Some (f, buf) } }
            else do {
              buf \<leftarrow> fragment_prepend_flags buf FRAG_WHOLE 0 0 0;
              Some (f, buf) })
      else Some (f, buf))"

subsection \<open>Expiry\<close>

definition fragment_ttl_reap :: "int \<Rightarrow> fragment_master \<Rightarrow> fragment_master" where
  "fragment_ttl_reap now f =
     f\<lparr>fg_incoming := (fg_incoming f)\<lparr>fl_fragments :=
         map (\<lambda>fr. if fr_defined fr \<and> fr_timestamp fr + FRAG_TTL_SEC \<le> now then fr\<lparr>fr_defined := False\<rparr> else fr)
           (fl_fragments (fg_incoming f))\<rparr>\<rparr>"

definition fragment_wakeup :: "int \<Rightarrow> fragment_master \<Rightarrow> fragment_master" where
  "fragment_wakeup now f = fragment_ttl_reap now f"

subsection \<open>The circle of reassembly buffers\<close>

lemma modulo_subtract_unique:
  assumes "0 \<le> y" "y < 256" "x = (y + t) mod 256" "\<bar>t\<bar> < 128"
  shows "modulo_subtract x y 256 = Some t"
proof -
  have x: "0 \<le> x" "x < 256" using assms(3) by simp_all
  obtain d where d: "modulo_subtract x y 256 = Some d" "(y + d) mod 256 = x" "2 * \<bar>d\<bar> \<le> 256"
    using modulo_subtract_spec [OF x assms(1,2)] .
  have "256 dvd (y + t) - (y + d)" using d(2) assms(3) by (metis mod_eq_dvd_iff)
  then have "256 dvd (t - d)" by simp
  then obtain q where "t - d = 256 * q" by blast
  then have "\<bar>256 * q\<bar> < 256" using d(3) assms(4) by linarith
  then have "q = 0" by simp
  then have "d = t" using \<open>t - d = 256 * q\<close> by simp
  then show ?thesis using d(1) by simp
qed

text \<open>
  The buffers with the window at \<open>c\<close> datagrams past the base sequence number: datagram \<open>j\<close> of the
  window lives at index \<open>(off + j) mod 25\<close>.
\<close>

definition slot :: "nat \<Rightarrow> nat \<Rightarrow> fragment_list \<Rightarrow> fragment" where
  "slot off j l = fl_fragments l ! ((off + j) mod 25)"

definition window_at :: "int \<Rightarrow> nat \<Rightarrow> nat \<Rightarrow> fragment_list \<Rightarrow> bool" where
  "window_at base off c l \<longleftrightarrow>
     fl_seq_id l = (base + int c - 1) mod 256 \<and> fl_index l = (int off + int c - 1) mod 25
     \<and> length (fl_fragments l) = 25"

lemma slot_inject:
  assumes "j < 25" "k < 25" "(off + j) mod 25 = (off + k) mod (25 :: nat)"
  shows "j = k"
  using circle_pos_inject [OF assms(3)] assms(1,2) by simp

lemma slot_update:
  assumes "length (fl_fragments l) = 25" "j < 25" "k < 25"
  shows "slot off k (frag_update l (int ((off + j) mod 25)) g) = (if k = j then g (slot off j l) else slot off k l)"
proof -
  have "(off + j) mod 25 < length (fl_fragments l)" using assms(1) by simp
  then show ?thesis
    using slot_inject [OF assms(2,3), of off] by (auto simp: slot_def frag_update_def nth_list_update)
qed

lemma frag_update_simps [simp]:
  "fl_seq_id (frag_update l i g) = fl_seq_id l" "fl_index (frag_update l i g) = fl_index l"
  "length (fl_fragments (frag_update l i g)) = length (fl_fragments l)"
  by (simp_all add: frag_update_def)

lemma window_at_update [simp]: "window_at base off c (frag_update l i g) = window_at base off c l"
  by (simp add: window_at_def)

lemma fragment_advance_law:
  assumes "window_at base off c l" "c + d \<le> 25"
  shows "\<exists>l'. fragment_advance d l = Some l' \<and> window_at base off (c + d) l'
     \<and> (\<forall>j < 25. slot off j l' = (if c \<le> j \<and> j < c + d then (slot off j l)\<lparr>fr_defined := False\<rparr> else slot off j l))"
  using assms
proof (induction d arbitrary: c l)
  case 0
  then show ?case by (intro exI [of _ l]) auto
next
  case (Suc d)
  let ?i = "(int off + int c) mod 25"
  let ?l = "(frag_update (l\<lparr>fl_index := ?i\<rparr>) ?i (\<lambda>fr. fr\<lparr>fr_defined := False\<rparr>))\<lparr>fl_seq_id := (base + int c) mod 256\<rparr>"
  have i: "modulo_add (fl_index l) 1 N_FRAG_BUF = Some ?i"
    using Suc.prems(1) by (simp add: window_at_def modulo_add_eq N_FRAG_BUF_def mod_simps)
  have s: "modulo_add (fl_seq_id l) 1 N_SEQ_ID = Some ((base + int c) mod 256)"
    using Suc.prems(1) by (simp add: window_at_def modulo_add_eq N_SEQ_ID_def mod_simps)
  have step: "fragment_advance (Suc d) l = fragment_advance d ?l" using i s by simp
  have w: "window_at base off (Suc c) ?l"
    using Suc.prems(1) by (simp add: window_at_def)
  have ii: "?i = int ((off + c) mod 25)" by (simp add: zmod_int)
  have sl: "slot off j ?l = (if j = c then (slot off c l)\<lparr>fr_defined := False\<rparr> else slot off j l)" if "j < 25" for j
  proof -
    have "slot off j ?l = slot off j (frag_update (l\<lparr>fl_index := ?i\<rparr>) (int ((off + c) mod 25)) (\<lambda>fr. fr\<lparr>fr_defined := False\<rparr>))"
      unfolding ii by (simp add: slot_def)
    then show ?thesis
      using slot_update [of "l\<lparr>fl_index := ?i\<rparr>" c j off] Suc.prems that
      by (simp add: window_at_def slot_def)
  qed
  obtain l' where l': "fragment_advance d ?l = Some l'" "window_at base off (Suc c + d) l'"
    "\<forall>j < 25. slot off j l' = (if Suc c \<le> j \<and> j < Suc c + d then (slot off j ?l)\<lparr>fr_defined := False\<rparr> else slot off j ?l)"
    using Suc.IH [OF w] Suc.prems(2) by auto
  have "slot off j l' = (if c \<le> j \<and> j < c + Suc d then (slot off j l)\<lparr>fr_defined := False\<rparr> else slot off j l)"
    if "j < 25" for j
    using l'(3) that sl [OF that] by (auto simp: not_le le_less_Suc_eq)
  then show ?case using l' step by auto
qed

text \<open>Asking for the buffer of datagram \<open>j\<close>: the window moves up to it when it is new.\<close>

lemma fragment_list_get_buf_law:
  assumes w: "window_at base off c l" and c: "c \<le> 25" and j: "j < 25" and fin: "\<forall>fr \<in> set (fl_fragments l). P (fr_buf fr)"
  obtains l' off' where
    "fragment_list_get_buf l ((base + int j) mod 256) = Some (l', int ((off' + j) mod 25))"
    "window_at base off' (max c (Suc j)) l'" "\<forall>fr \<in> set (fl_fragments l'). P (fr_buf fr)"
    "\<forall>k < c. slot off' k l' = slot off k l"
    "\<forall>k < max c (Suc j). c \<le> k \<longrightarrow> \<not> fr_defined (slot off' k l')"
proof -
  define t where "t = int j - int c + 1"
  have len: "length (fl_fragments l) = 25" using w by (simp add: window_at_def)
  have seq: "0 \<le> fl_seq_id l" "fl_seq_id l < 256" using w by (simp_all add: window_at_def)
  have "(base + int j) mod 256 = (fl_seq_id l + t) mod 256" using w by (simp add: window_at_def t_def mod_simps)
  then have diff: "modulo_subtract ((base + int j) mod 256) (fl_seq_id l) N_SEQ_ID = Some t"
    using modulo_subtract_unique [OF seq] c j by (simp add: N_SEQ_ID_def t_def)
  show ?thesis
  proof (cases "N_FRAG_BUF \<le> \<bar>t\<bar>")
    case True
    then have c0: "c = 0" "j = 24" using c j by (auto simp: N_FRAG_BUF_def t_def)
    let ?l = "l\<lparr>fl_fragments := map (\<lambda>fr. fr\<lparr>fr_defined := False\<rparr>) (fl_fragments l),
        fl_index := 0, fl_seq_id := (base + int j) mod 256\<rparr>"
    show ?thesis
    proof (rule that [of ?l 1])
      show "fragment_list_get_buf l ((base + int j) mod 256) = Some (?l, int ((1 + j) mod 25))"
        using diff True c0 by (simp add: fragment_list_get_buf_def modulo_add_eq N_FRAG_BUF_def)
      show "window_at base 1 (max c (Suc j)) ?l" using len c0 by (simp add: window_at_def add.commute)
      show "\<forall>fr \<in> set (fl_fragments ?l). P (fr_buf fr)" using fin by simp
      show "\<forall>k < max c (Suc j). c \<le> k \<longrightarrow> \<not> fr_defined (slot 1 k ?l)" using len by (simp add: slot_def)
    qed (use c0 in simp)
  next
    case False
    define d where "d = nat t"
    have cd: "c + d \<le> 25" using False c j by (simp add: d_def t_def)
    obtain l' where l': "fragment_advance d l = Some l'" "window_at base off (c + d) l'"
      "\<forall>k < 25. slot off k l' = (if c \<le> k \<and> k < c + d then (slot off k l)\<lparr>fr_defined := False\<rparr> else slot off k l)"
      using fragment_advance_law [OF w cd] by blast
    have mx: "c + d = max c (Suc j)" by (simp add: d_def t_def)
    have idx: "modulo_add (fl_index l') (min t 0) N_FRAG_BUF = Some (int ((off + j) mod 25))"
    proof -
      have fi: "fl_index l' = (int off + int (c + d) - 1) mod 25" using l'(2) by (simp add: window_at_def)
      have e: "int off + int (c + d) - 1 + min t 0 = int (off + j)" by (simp add: d_def t_def)
      have "modulo_add (fl_index l') (min t 0) N_FRAG_BUF = Some ((fl_index l' + min t 0) mod 25)"
        using False fi by (subst modulo_add_eq) (auto simp: N_FRAG_BUF_def)
      also have "(fl_index l' + min t 0) mod 25 = int (off + j) mod 25" unfolding fi mod_add_left_eq e ..
      finally show ?thesis by (simp add: zmod_int)
    qed
    show ?thesis
    proof (rule that [of l' off])
      show "fragment_list_get_buf l ((base + int j) mod 256) = Some (l', int ((off + j) mod 25))"
        using diff False l'(1) idx by (simp add: fragment_list_get_buf_def d_def)
      show "window_at base off (max c (Suc j)) l'" using l'(2) mx by simp
      show "\<forall>k < c. slot off k l' = slot off k l" using l'(3) c by simp
      show "\<forall>k < max c (Suc j). c \<le> k \<longrightarrow> \<not> fr_defined (slot off k l')" using l'(3) mx cd by auto
      show "\<forall>fr \<in> set (fl_fragments l'). P (fr_buf fr)"
      proof
        fix fr assume "fr \<in> set (fl_fragments l')"
        moreover have "length (fl_fragments l') = 25" using l'(2) by (simp add: window_at_def)
        ultimately obtain i where i: "i < 25" "fr = fl_fragments l' ! i" by (auto simp: in_set_conv_nth)
        obtain k where k: "k < 25" "(off + k) mod 25 = i"
        proof -
          have "(off + (i + 25 - off mod 25) mod 25) mod 25 = i"
          proof -
            have "(off + (i + 25 - off mod 25) mod 25) mod 25 = (off mod 25 + (i + 25 - off mod 25)) mod 25"
              by (simp only: mod_add_left_eq mod_add_right_eq)
            also have "\<dots> = i" using i(1) by (simp add: le_add_diff_inverse)
            finally show ?thesis .
          qed
          then show ?thesis using that [of "(i + 25 - off mod 25) mod 25"] by simp
        qed
        have "fr_buf fr = fr_buf (slot off k l)" using l'(3) k i by (auto simp: slot_def split: if_splits)
        moreover have "slot off k l \<in> set (fl_fragments l)" using len by (simp add: slot_def)
        ultimately show "P (fr_buf fr)" using fin by simp
      qed
    qed
  qed
qed

subsection \<open>The fragment header\<close>

lemma frag_masks:
  "FRAG_TYPE_MASK = mask 2" "FRAG_SEQ_ID_MASK = mask 8" "FRAG_ID_MASK = mask 5" "FRAG_SIZE_MASK = mask 14"
  by (simp_all add: FRAG_TYPE_MASK_def FRAG_SEQ_ID_MASK_def FRAG_ID_MASK_def FRAG_SIZE_MASK_def mask_eq_exp_minus_1)

lemmas frag_consts = frag_masks FRAG_TYPE_SHIFT_def FRAG_SEQ_ID_SHIFT_def FRAG_ID_SHIFT_def FRAG_SIZE_SHIFT_def
  FRAG_SIZE_ROUND_SHIFT_def FRAG_WHOLE_def FRAG_YES_NOTLAST_def FRAG_YES_LAST_def

lemma uint_word_of_int_mask:
  assumes "0 \<le> x" "x < 2 ^ n" "n \<le> 32"
  shows "uint (word_of_int x AND mask n :: u32) = x"
proof -
  have "x < 2 ^ 32" using assms by (meson less_le_trans one_le_numeral power_increasing)
  then have "uint (word_of_int x :: u32) = x" using assms(1) by (simp add: uint_word_of_int take_bit_int_eq_self)
  then show ?thesis using assms(1,2) by (simp add: take_bit_eq_mask [symmetric] unsigned_take_bit_eq take_bit_int_eq_self min_def)
qed

lemma fragment_flags_fields:
  fixes ty s n sz :: int
  defines "F \<equiv> fragment_flags ty s n sz"
  assumes ty: "0 \<le> ty" "ty < 4" and s: "0 \<le> s" "s < 256" and n: "0 \<le> n" "n < 32"
  shows "uint (drop_bit FRAG_TYPE_SHIFT F AND FRAG_TYPE_MASK) = ty"
    "uint (drop_bit FRAG_SEQ_ID_SHIFT F AND FRAG_SEQ_ID_MASK) = s"
    "uint (drop_bit FRAG_ID_SHIFT F AND FRAG_ID_MASK) = n"
    "ty = FRAG_YES_LAST \<Longrightarrow> 0 \<le> sz \<Longrightarrow> sz < 65536 \<Longrightarrow> 4 dvd sz \<Longrightarrow>
       uint (push_bit FRAG_SIZE_ROUND_SHIFT (drop_bit FRAG_SIZE_SHIFT F AND FRAG_SIZE_MASK)) = sz"
proof -
  have "drop_bit 0 F AND mask 2 = word_of_int ty AND mask 2"
    unfolding F_def fragment_flags_def Let_def frag_consts
    by (auto intro!: bit_word_eqI simp: bit_simps)
  then show "uint (drop_bit FRAG_TYPE_SHIFT F AND FRAG_TYPE_MASK) = ty"
    using uint_word_of_int_mask [of ty 2] ty by (simp add: frag_consts)
  have "drop_bit 2 F AND mask 8 = word_of_int s AND mask 8"
    unfolding F_def fragment_flags_def Let_def frag_consts
    by (auto intro!: bit_word_eqI simp: bit_simps)
  then show "uint (drop_bit FRAG_SEQ_ID_SHIFT F AND FRAG_SEQ_ID_MASK) = s"
    using uint_word_of_int_mask [of s 8] s by (simp add: frag_consts)
  have "drop_bit 10 F AND mask 5 = word_of_int n AND mask 5"
    unfolding F_def fragment_flags_def Let_def frag_consts
    by (auto intro!: bit_word_eqI simp: bit_simps)
  then show "uint (drop_bit FRAG_ID_SHIFT F AND FRAG_ID_MASK) = n"
    using uint_word_of_int_mask [of n 5] n by (simp add: frag_consts)
  assume l: "ty = FRAG_YES_LAST" and sz: "0 \<le> sz" "sz < 65536" "4 dvd sz"
  have rng: "2 \<le> i \<and> i < 16" if "bit sz i" for i
  proof (rule ccontr)
    assume "\<not> ?thesis"
    moreover have "take_bit 2 sz = 0" "take_bit 16 sz = sz" using sz by (simp_all add: take_bit_eq_0_iff take_bit_int_eq_self)
    ultimately show False using that bit_take_bit_iff [of 2 sz i] bit_take_bit_iff [of 16 sz i] by auto
  qed
  have "push_bit 2 (drop_bit 15 F AND mask 14) = (word_of_int sz :: u32)"
  proof (rule bit_word_eqI)
    fix i assume i: "i < LENGTH(32)"
    show "bit (push_bit 2 (drop_bit 15 F AND mask 14)) i = bit (word_of_int sz :: u32) i"
    proof (cases "2 \<le> i \<and> i < 16")
      case True
      then obtain m where m: "i = m + 2" by (metis add.commute le_Suc_ex)
      then have "m < 14" using True by simp
      then show ?thesis unfolding F_def fragment_flags_def Let_def frag_consts l m
        by (simp add: bit_simps)
    next
      case False
      then have "\<not> bit sz i" using rng by blast
      then show ?thesis using False by (auto simp: bit_simps)
    qed
  qed
  moreover have "uint (word_of_int sz :: u32) = sz" using sz by (simp add: uint_word_of_int take_bit_int_eq_self)
  ultimately show "uint (push_bit FRAG_SIZE_ROUND_SHIFT (drop_bit FRAG_SIZE_SHIFT F AND FRAG_SIZE_MASK)) = sz"
    by (simp add: frag_consts)
qed

lemma round_mask: "x AND FRAG_SIZE_ROUND_MASK = x mod 4"
  using take_bit_eq_mask [of 2 x] by (simp add: FRAG_SIZE_ROUND_MASK_def take_bit_eq_mod mask_eq_exp_minus_1)

lemma round_down_mask: "x AND NOT FRAG_SIZE_ROUND_MASK = x - x mod 4"
proof -
  have "x AND NOT (mask 2) = push_bit 2 (drop_bit 2 x)"
  proof (rule bit_eqI)
    fix n
    show "bit (x AND NOT (mask 2)) n = bit (push_bit 2 (drop_bit 2 x)) n"
    proof (cases "n < 2")
      case False
      then have "n = (n - 2) + 2" by simp
      then obtain m where "n = m + 2" by blast
      then show ?thesis by (simp add: bit_simps)
    qed (simp add: bit_simps)
  qed
  then have "(x AND NOT FRAG_SIZE_ROUND_MASK) + take_bit 2 x = x"
    using bits_ident [of 2 x] by (simp add: FRAG_SIZE_ROUND_MASK_def mask_eq_exp_minus_1)
  then show ?thesis by (simp add: take_bit_eq_mod)
qed

subsection \<open>A datagram and its fragments\<close>

definition frag_count :: "bytes \<Rightarrow> int \<Rightarrow> nat" where
  "frag_count p sz = (length p + nat sz - 1) div nat sz"

definition frag_chunk :: "bytes \<Rightarrow> int \<Rightarrow> nat \<Rightarrow> bytes" where
  "frag_chunk p sz k = segment (k * nat sz) (nat sz) p"

definition frag_packet :: "int \<Rightarrow> int \<Rightarrow> bytes \<Rightarrow> nat \<Rightarrow> bytes" where
  "frag_packet s sz p k =
     be32_bytes (fragment_flags (if Suc k = frag_count p sz then FRAG_YES_LAST else FRAG_YES_NOTLAST) s (int k) sz)
     @ frag_chunk p sz k"

definition datagram_ok :: "int \<Rightarrow> int \<Rightarrow> bytes \<times> int \<Rightarrow> bool" where
  "datagram_ok hr cap = (\<lambda>(p, sz). 0 < sz \<and> sz < 65536 \<and> 4 dvd sz \<and> p \<noteq> [] \<and> frag_count p sz \<le> 32
     \<and> 0 \<le> hr \<and> hr + int (length p) \<le> cap)"

lemma less_frag_count: "0 < sz \<Longrightarrow> k < frag_count p sz \<longleftrightarrow> k * nat sz < length p"
  unfolding frag_count_def Suc_le_eq [symmetric]
  by (subst less_eq_div_iff_mult_less_eq) auto

lemma frag_chunk_length:
  "0 < sz \<Longrightarrow> k < frag_count p sz \<Longrightarrow>
     length (frag_chunk p sz k) = (if Suc k = frag_count p sz then length p - k * nat sz else nat sz)"
proof -
  assume sz: "0 < sz" and k: "k < frag_count p sz"
  have "Suc k < frag_count p sz \<longleftrightarrow> Suc k * nat sz < length p" using less_frag_count [OF sz, of "Suc k" p] .
  moreover have "k * nat sz < length p" using less_frag_count [OF sz] k by simp
  ultimately show ?thesis using k by (auto simp: frag_chunk_def min_def)
qed

lemma frag_chunk_end:
  assumes "0 < sz" "k < frag_count p sz"
  shows "k * nat sz + length (frag_chunk p sz k) \<le> length p" "0 < length (frag_chunk p sz k)"
    "Suc k = frag_count p sz \<Longrightarrow> k * nat sz + length (frag_chunk p sz k) = length p"
  using assms less_frag_count [OF assms(1), of k p] frag_chunk_length [OF assms] by (auto simp: frag_chunk_def)

lemma frag_chunk_nth:
  assumes "0 < sz" "i < length p" "i div nat sz = k"
  shows "k * nat sz \<le> i" "i - k * nat sz < length (frag_chunk p sz k)" "frag_chunk p sz k ! (i - k * nat sz) = p ! i"
    "k < frag_count p sz"
proof -
  have d: "i = k * nat sz + i mod nat sz" "i mod nat sz < nat sz" using assms by auto
  show "k * nat sz \<le> i" using d(1) by linarith
  obtain r where r: "i = k * nat sz + r" "r < nat sz" using d by blast
  show "i - k * nat sz < length (frag_chunk p sz k)" "frag_chunk p sz k ! (i - k * nat sz) = p ! i"
    using r assms(2) by (auto simp: frag_chunk_def segment_def)
  show "k < frag_count p sz" using less_frag_count [OF assms(1), of k p] d assms(2) by linarith
qed

lemma in_frag_chunk:
  assumes "0 < sz" "k < frag_count p sz" "i < length p"
  shows "k * nat sz \<le> i \<and> i < k * nat sz + length (frag_chunk p sz k) \<longleftrightarrow> i div nat sz = k"
proof
  assume i: "k * nat sz \<le> i \<and> i < k * nat sz + length (frag_chunk p sz k)"
  have "length (frag_chunk p sz k) \<le> nat sz" by (simp add: frag_chunk_def)
  then have "i < Suc k * nat sz" using i by simp
  then show "i div nat sz = k" using i assms(1) by (intro div_nat_eqI) (auto simp: mult.commute)
next
  assume "i div nat sz = k"
  then show "k * nat sz \<le> i \<and> i < k * nat sz + length (frag_chunk p sz k)"
    using frag_chunk_nth [OF assms(1,3)] by (metis add.commute less_diff_conv2)
qed

text \<open>What a reassembly buffer holds once the fragments \<open>S\<close> of the datagram have arrived.\<close>

definition slot_body :: "int \<Rightarrow> bytes \<times> int \<Rightarrow> nat set \<Rightarrow> fragment \<Rightarrow> bool" where
  "slot_body hr = (\<lambda>(p, sz) S fr.
     fr_defined fr \<and> fr_max_frag_size fr = sz \<and> b_offset (fr_buf fr) = hr
     \<and> b_len (fr_buf fr) \<le> int (length p)
     \<and> (\<forall>k \<in> S. int (k * nat sz + length (frag_chunk p sz k)) \<le> b_len (fr_buf fr))
     \<and> (\<forall>i < length p. i div nat sz \<in> S \<longrightarrow> the (b_data (fr_buf fr)) ! (nat hr + i) = p ! i)
     \<and> (\<forall>b < 32. bit (fr_map fr) b \<longleftrightarrow> b \<in> S \<or> (frag_count p sz - 1 \<in> S \<and> frag_count p sz - 1 \<le> b)))"

definition slot_inv :: "int \<Rightarrow> bytes \<times> int \<Rightarrow> nat set \<Rightarrow> fragment \<Rightarrow> bool" where
  "slot_inv hr D S fr \<longleftrightarrow> S \<subseteq> {..< frag_count (fst D) (snd D)}
     \<and> (if S = {} then \<not> fr_defined fr else slot_body hr D S fr)"

text \<open>The code's start of a new datagram in a buffer.\<close>

definition slot_start :: "int \<Rightarrow> int \<Rightarrow> fragment \<Rightarrow> fragment" where
  "slot_start hr sz fr =
     (if \<not> fr_defined fr \<or> fr_max_frag_size fr \<noteq> sz
      then fr\<lparr>fr_defined := True, fr_max_frag_size := sz, fr_map := 0, fr_buf := fst (buf_init (fr_buf fr) hr)\<rparr>
      else fr)"

lemma map_full_iff:
  assumes ok: "datagram_ok hr cap (p, sz)" and S: "S \<subseteq> {..< frag_count p sz}"
    and m: "\<forall>b < 32. bit (w :: u32) b \<longleftrightarrow> b \<in> S \<or> (frag_count p sz - 1 \<in> S \<and> frag_count p sz - 1 \<le> b)"
  shows "w AND FRAG_MAP_MASK = FRAG_MAP_MASK \<longleftrightarrow> S = {..< frag_count p sz}"
proof -
  let ?m = "frag_count p sz"
  have pos: "0 < ?m" "?m \<le> 32" using ok less_frag_count [of sz 0 p] by (auto simp: datagram_ok_def)
  have "FRAG_MAP_MASK = (- 1 :: u32)" by (simp add: FRAG_MAP_MASK_def)
  then have "w AND FRAG_MAP_MASK = FRAG_MAP_MASK \<longleftrightarrow> (\<forall>b < 32. bit w b)"
    by (auto simp: bit_eq_iff bit_simps)
  also have "\<dots> \<longleftrightarrow> S = {..< ?m}"
  proof
    assume a: "\<forall>b < 32. bit w b"
    have "b \<in> S" if "b < ?m" for b
    proof -
      have "bit w b" using a that pos by simp
      then show ?thesis using m that pos by (cases "b = ?m - 1") auto
    qed
    then show "S = {..< ?m}" using S by auto
  next
    assume "S = {..< ?m}"
    then show "\<forall>b < 32. bit w b" using m pos by auto
  qed
  finally show ?thesis .
qed

lemma buf_copy_range_law:
  assumes "buf_wf dest" "buf_wf src" "0 \<le> di" "b_offset dest + di + b_len src \<le> b_capacity dest"
  shows "buf_copy_range dest di src 0 (b_len src) =
    Some (dest\<lparr>b_data := Some (patch (the (b_data dest)) (nat (b_offset dest + di)) (buf_content src)),
          b_len := max (b_len dest) (di + b_len src)\<rparr>, True)"
proof -
  obtain d where d: "b_data dest = Some d" "0 \<le> b_offset dest" "b_capacity dest < 1000000"
    using assms(1) by (auto elim: buf_wfE)
  obtain e where e: "b_data src = Some e" "0 \<le> b_len src" "b_len src < 1000000"
    using assms(2) by (auto elim: buf_wfE)
  have "buf_peek src (b_offset src) (b_len src) = buf_content src" using assms(2) by (simp add: buf_content_def)
  then show ?thesis using assms(3,4) d e by (auto simp: buf_copy_range_def Let_def buf_poke_def max_def)
qed

lemma slot_start_law:
  assumes ok: "datagram_ok hr cap (p, sz)" and inv: "slot_inv hr (p, sz) S fr"
    and b: "buf_wf (fr_buf fr)" "cap \<le> b_capacity (fr_buf fr)"
  shows "slot_body hr (p, sz) S (slot_start hr sz fr)" "buf_wf (fr_buf (slot_start hr sz fr))"
    "b_capacity (fr_buf (slot_start hr sz fr)) = b_capacity (fr_buf fr)"
    "snd (buf_init (fr_buf fr) hr)"
proof -
  have hr: "0 \<le> hr" "hr \<le> b_capacity (fr_buf fr)" using ok b(2) by (auto simp: datagram_ok_def)
  obtain b' where b': "buf_init (fr_buf fr) hr = (b', True)" "buf_wf b'" "buf_content b' = []" "b_offset b' = hr"
    "b_capacity b' = b_capacity (fr_buf fr)"
    using buf_init_law [OF b(1) hr] by metis
  have "b_len b' = 0" using b_len_0_iff [OF b'(2)] b'(3) by simp
  then show "slot_body hr (p, sz) S (slot_start hr sz fr)" "buf_wf (fr_buf (slot_start hr sz fr))"
    "b_capacity (fr_buf (slot_start hr sz fr)) = b_capacity (fr_buf fr)" "snd (buf_init (fr_buf fr) hr)"
    using b' b inv by (auto simp: slot_start_def slot_inv_def slot_body_def split: if_splits)
qed

lemma slot_store:
  assumes ok: "datagram_ok hr cap (p, sz)" and S: "S \<subseteq> {..< frag_count p sz}" and body: "slot_body hr (p, sz) S fr"
    and b: "buf_wf (fr_buf fr)" "cap \<le> b_capacity (fr_buf fr)"
    and k: "k < frag_count p sz" and src: "buf_wf src" "buf_content src = frag_chunk p sz k"
    and w: "w = (if Suc k = frag_count p sz then FRAG_MAP_MASK else 1)"
  obtains b' where "buf_copy_range (fr_buf fr) (int k * sz) src 0 (b_len src) = Some (b', True)"
    "buf_wf b'" "b_capacity b' = b_capacity (fr_buf fr)"
    "slot_body hr (p, sz) (insert k S) (fr\<lparr>fr_buf := b', fr_map := fr_map fr OR push_bit k w, fr_timestamp := t\<rparr>)"
    "insert k S = {..< frag_count p sz} \<Longrightarrow> buf_content b' = p"
proof -
  let ?n = "nat sz" and ?c = "frag_chunk p sz k" and ?m = "frag_count p sz"
  let ?fb = "fr_buf fr"
  have sz: "0 < sz" "0 \<le> hr" "hr + int (length p) \<le> cap" "?m \<le> 32" using ok by (auto simp: datagram_ok_def)
  obtain d where d: "b_data ?fb = Some d" "int (length d) = b_capacity ?fb" using b(1) by (auto elim: buf_wfE)
  have fb: "b_offset ?fb = hr" "b_len ?fb \<le> int (length p)" "0 \<le> b_len ?fb"
    using body b(1) by (auto simp: slot_body_def elim: buf_wfE)
  note ce = frag_chunk_end [OF sz(1) k]
  have sl: "b_len src = int (length ?c)" using length_buf_content [OF src(1)] src(2) by simp
  have fit: "nat hr + k * ?n + length ?c \<le> length d" using ce(1) sz d(2) b(2) by linarith
  have ksz: "int k * sz = int (k * ?n)" using sz(1) by simp
  let ?d = "patch d (nat hr + k * ?n) ?c"
  let ?b = "?fb\<lparr>b_data := Some ?d, b_len := max (b_len ?fb) (int (k * ?n + length ?c))\<rparr>"
  have idx: "nat (hr + int k * sz) = nat hr + k * ?n" 
  proof -
    have "hr + int k * sz = int (nat hr + k * ?n)" using ksz sz(2) by simp
    then show ?thesis by (simp only: nat_int)
  qed
  have "b_offset ?fb + int k * sz + b_len src \<le> b_capacity ?fb"
    unfolding fb(1) ksz sl using fit d(2) sz(2) by linarith
  then have cr: "buf_copy_range ?fb (int k * sz) src 0 (b_len src) = Some (?b, True)"
    using buf_copy_range_law [OF b(1) src(1), of "int k * sz"] sz(1) by (simp add: d fb(1) idx src(2) sl)
  have bl: "b_len ?b \<le> int (length p)" using fb(2) ce(1) by (simp del: of_nat_add of_nat_mult)
  have ends: "int (x * ?n + length (frag_chunk p sz x)) \<le> b_len ?b" if x: "x \<in> insert k S" for x
  proof (cases "x = k")
    case False
    then have "int (x * ?n + length (frag_chunk p sz x)) \<le> b_len ?fb" using x body unfolding slot_body_def prod.case by blast
    then show ?thesis by (simp del: of_nat_add of_nat_mult)
  qed (simp del: of_nat_add of_nat_mult)
  have wf: "buf_wf ?b"
    using b d fit bl fb sz(3) by (auto simp: buf_wf_def)
  have data: "?d ! (nat hr + i) = p ! i" if i: "i < length p" "i div ?n \<in> insert k S" for i
  proof (cases "i div ?n = k")
    case True
    note fc = frag_chunk_nth [OF sz(1) i(1) True]
    have "?d ! (nat hr + i) = ?c ! (nat hr + i - (nat hr + k * ?n))"
      using fc fit by (subst nth_patch) auto
    then show ?thesis using fc by simp
  next
    case False
    then have "\<not> (k * ?n \<le> i \<and> i < k * ?n + length ?c)" using in_frag_chunk [OF sz(1) k i(1)] by simp
    moreover have "nat hr + i < length d" using i(1) sz b(2) d(2) by linarith
    ultimately have "?d ! (nat hr + i) = d ! (nat hr + i)" using fit by (subst nth_patch) auto
    then show ?thesis using body i False d by (auto simp: slot_body_def)
  qed
  have bits: "bit (fr_map fr OR push_bit k w) x \<longleftrightarrow> x \<in> insert k S \<or> (?m - 1 \<in> insert k S \<and> ?m - 1 \<le> x)" if x: "x < 32" for x
  proof -
    have old: "bit (fr_map fr) x \<longleftrightarrow> x \<in> S \<or> (?m - 1 \<in> S \<and> ?m - 1 \<le> x)" using body x by (simp add: slot_body_def)
    show ?thesis
    proof (cases "Suc k = ?m")
      case True
      have "w = - 1" using w True by (simp add: FRAG_MAP_MASK_def)
      then show ?thesis using old x True k by (auto simp: bit_simps)
    next
      case False
      then have "bit (push_bit k w) x = (x = k)" "?m - 1 \<noteq> k" using w x k by (auto simp: bit_simps)
      then show ?thesis using old by (auto simp: bit_or_iff)
    qed
  qed
  have body': "slot_body hr (p, sz) (insert k S) (fr\<lparr>fr_buf := ?b, fr_map := fr_map fr OR push_bit k w, fr_timestamp := t\<rparr>)"
    using body fb(1) bl data bits by (auto simp: slot_body_def)
  show ?thesis
  proof (rule that [OF cr wf _ body'])
    assume full: "insert k S = {..< ?m}"
    have last: "?m - 1 \<in> insert k S" "Suc (?m - 1) = ?m" using full k by auto
    have "int ((?m - 1) * ?n + length (frag_chunk p sz (?m - 1))) \<le> b_len ?b"
      using ends last(1) .
    moreover have "(?m - 1) * ?n + length (frag_chunk p sz (?m - 1)) = length p"
      using frag_chunk_end(3) [OF sz(1), of "?m - 1" p] last by auto
    ultimately have "int (length p) \<le> b_len ?b" by metis
    with bl have len: "b_len ?b = int (length p)" by (rule antisym)
    have "buf_content ?b = segment (nat hr) (length p) ?d"
      using buf_content_eq [OF wf, of ?d] len fb(1) by simp
    also have "\<dots> = p"
    proof (rule nth_equalityI)
      have ld: "length ?d = length d" using fit by simp
      have "nat hr + length p \<le> length d" using sz b(2) d(2) by linarith
      then show l: "length (segment (nat hr) (length p) ?d) = length p" using ld by simp
      fix i assume "i < length (segment (nat hr) (length p) ?d)"
      then have i: "i < length p" using l by simp
      have "i div ?n \<in> insert k S" using frag_chunk_nth(4) [OF sz(1) i refl] full by simp
      then show "segment (nat hr) (length p) ?d ! i = p ! i"
        using data [OF i] i ld \<open>nat hr + length p \<le> length d\<close> by (simp add: segment_nth)
    qed
    finally show "buf_content ?b = p" .
  qed simp
qed

subsection \<open>Reassembly refines collecting sets of fragments\<close>

text \<open>
  Datagram \<open>j\<close> of the window has payload and fragment size \<open>D j\<close>; \<open>S j\<close> is the set of its
  fragments received since the last time it was complete.  \<open>c\<close> is the window position.
\<close>

definition reasm_inv ::
    "int \<Rightarrow> int \<Rightarrow> int \<Rightarrow> (nat \<Rightarrow> bytes \<times> int) \<Rightarrow> (nat \<Rightarrow> nat set) \<Rightarrow> (nat \<Rightarrow> int) \<Rightarrow> nat \<Rightarrow> fragment_list \<Rightarrow> bool" where
  "reasm_inv hr cap base D S L c l \<longleftrightarrow> c \<le> 25
     \<and> (\<exists>off. window_at base off c l \<and> (\<forall>j < c. slot_inv hr (D j) (S j) (slot off j l)
           \<and> (S j \<noteq> {} \<longrightarrow> fr_timestamp (slot off j l) = L j)))
     \<and> (\<forall>fr \<in> set (fl_fragments l). buf_wf (fr_buf fr) \<and> cap \<le> b_capacity (fr_buf fr))
     \<and> (\<forall>j. c \<le> j \<longrightarrow> S j = {})"

text \<open>The abstract receiver.\<close>

definition collect :: "(nat \<Rightarrow> bytes \<times> int) \<Rightarrow> nat \<Rightarrow> nat \<Rightarrow> (nat \<Rightarrow> nat set) \<Rightarrow> (nat \<Rightarrow> nat set) \<times> bytes" where
  "collect D j k S =
     (if insert k (S j) = {..< frag_count (fst (D j)) (snd (D j))} then (S(j := {}), fst (D j))
      else (S(j := insert k (S j)), []))"

lemma frag_update_bufs:
  assumes "\<forall>fr \<in> set (fl_fragments l). P (fr_buf fr)" "P (fr_buf (g (fl_fragments l ! nat i)))"
  shows "\<forall>fr \<in> set (fl_fragments (frag_update l i g)). P (fr_buf fr)"
  using assms set_update_subset_insert by (fastforce simp: frag_update_def)

lemma read_header:
  assumes b: "buf_wf b" "buf_content b = be32_bytes w @ xs"
  obtains b1 where "buf_read b 4 = (b1, Some (be32_bytes w))" "buf_wf b1" "buf_content b1 = xs" "0 < b_len b"
proof -
  have "int (length (be32_bytes w @ xs)) = b_len b" using length_buf_content [OF b(1)] b(2) by simp
  then have "4 \<le> b_len b" by simp
  then show ?thesis using buf_read_law [OF b(1), of 4] that b(2) by (metis append_eq_conv_conj be32_of_bytes
        dual_order.trans length_be_bytes(2) nat_numeral order_less_le_trans zero_le_numeral zero_less_numeral)
qed

lemma fragment_incoming_part_eq:
  assumes "uint (drop_bit FRAG_SEQ_ID_SHIFT flags AND FRAG_SEQ_ID_MASK) = s" "uint (drop_bit FRAG_ID_SHIFT flags AND FRAG_ID_MASK) = n"
    "(if ty = FRAG_YES_LAST then uint (push_bit FRAG_SIZE_ROUND_SHIFT (drop_bit FRAG_SIZE_SHIFT flags AND FRAG_SIZE_MASK))
      else b_len buf) = sz"
    "sz AND FRAG_SIZE_ROUND_MASK = 0"
    "fragment_list_get_buf (fg_incoming f) s = Some (l, i)"
    "snd (buf_init (fr_buf (fl_fragments l ! nat i)) (fm_headroom frm))"
    "buf_copy_range (fr_buf (slot_start (fm_headroom frm) sz (fl_fragments l ! nat i))) (n * sz) buf 0 (b_len buf) = Some (b', True)"
    "f3 = (let fr = slot_start (fm_headroom frm) sz (fl_fragments l ! nat i);
               fr = fr\<lparr>fr_buf := b', fr_map := fr_map fr OR push_bit (nat n) (if ty = FRAG_YES_LAST then FRAG_MAP_MASK else 1), fr_timestamp := now\<rparr>
           in if fr_map fr AND FRAG_MAP_MASK = FRAG_MAP_MASK then fr\<lparr>fr_defined := False\<rparr> else fr)"
    "mp = fr_map (slot_start (fm_headroom frm) sz (fl_fragments l ! nat i)) OR push_bit (nat n) (if ty = FRAG_YES_LAST then FRAG_MAP_MASK else 1)"
    "out = (if mp AND FRAG_MAP_MASK = FRAG_MAP_MASK then b' else buf\<lparr>b_len := 0\<rparr>)"
  shows "fragment_incoming_part f buf frm now flags ty = Some (f\<lparr>fg_incoming := frag_update l i (\<lambda>_. f3)\<rparr>, out)"
proof (cases "\<not> fr_defined (fl_fragments l ! nat i) \<or> fr_max_frag_size (fl_fragments l ! nat i) \<noteq> sz")
  case True
  obtain bi where bi: "buf_init (fr_buf (fl_fragments l ! nat i)) (fm_headroom frm) = (bi, True)"
    using assms(6) by (metis prod.collapse)
  have st: "slot_start (fm_headroom frm) sz (fl_fragments l ! nat i) =
      (fl_fragments l ! nat i)\<lparr>fr_defined := True, fr_max_frag_size := sz, fr_map := 0, fr_buf := bi\<rparr>"
    using True bi by (simp add: slot_start_def)
  show ?thesis
    unfolding fragment_incoming_part_def assms(1-3) Let_def assms(8-10) st
    using assms(4,5,7) st bi True by simp
next
  case False
  then have st: "slot_start (fm_headroom frm) sz (fl_fragments l ! nat i) = fl_fragments l ! nat i"
    by (simp add: slot_start_def)
  show ?thesis
    unfolding fragment_incoming_part_def assms(1-3) Let_def assms(8-10) st
    using assms(4,5,7) st False by simp
qed

lemma fragment_incoming_step:
  assumes inv: "reasm_inv hr cap base D S L c (fg_incoming f)" and hr: "fm_headroom frm = hr"
    and ok: "datagram_ok hr cap (D j)" and j: "j < 25" and k: "k < frag_count (fst (D j)) (snd (D j))"
    and b: "buf_wf b" "buf_content b = frag_packet ((base + int j) mod 256) (snd (D j)) (fst (D j)) k"
  obtains f' b' c' where "fragment_incoming f b frm now = Some (f', b')" "buf_wf b'"
    "buf_content b' = snd (collect D j k S)"
    "reasm_inv hr cap base D (fst (collect D j k S)) (L(j := now)) c' (fg_incoming f')"
proof -
  obtain p sz where D: "D j = (p, sz)" by fastforce
  let ?m = "frag_count p sz" and ?s = "(base + int j) mod 256"
  let ?ty = "if Suc k = ?m then FRAG_YES_LAST else FRAG_YES_NOTLAST"
  let ?F = "fragment_flags ?ty ?s (int k) sz"
  have sz: "0 < sz" "sz < 65536" "4 dvd sz" "?m \<le> 32" using ok by (auto simp: datagram_ok_def D)
  obtain b1 where b1: "buf_read b 4 = (b1, Some (be32_bytes ?F))" "buf_wf b1" "buf_content b1 = frag_chunk p sz k" "0 < b_len b"
    using read_header [OF b(1), of ?F "frag_chunk p sz k"] b(2) by (auto simp: frag_packet_def D)
  have ty: "0 \<le> ?ty" "?ty < 4" by (auto simp: FRAG_YES_LAST_def FRAG_YES_NOTLAST_def)
  have kk: "0 \<le> int k" "int k < 32" using k sz(4) by (auto simp: D)
  note fl = fragment_flags_fields [OF ty, of ?s "int k" sz, OF _ _ kk]
  have szv: "(if ?ty = FRAG_YES_LAST
      then uint (push_bit FRAG_SIZE_ROUND_SHIFT (drop_bit FRAG_SIZE_SHIFT ?F AND FRAG_SIZE_MASK)) else b_len b1) = sz"
  proof (cases "Suc k = ?m")
    case True
    then show ?thesis using fl(4) sz by simp
  next
    case False
    have "b_len b1 = int (length (frag_chunk p sz k))" using length_buf_content [OF b1(2)] b1(3) by simp
    then show ?thesis using False frag_chunk_length [OF sz(1), of k p] k sz(1)
      by (simp add: D FRAG_YES_LAST_def FRAG_YES_NOTLAST_def)
  qed
  obtain off where c: "c \<le> 25" and w: "window_at base off c (fg_incoming f)"
    and sl: "\<forall>j < c. slot_inv hr (D j) (S j) (slot off j (fg_incoming f))"
      "\<forall>j < c. S j \<noteq> {} \<longrightarrow> fr_timestamp (slot off j (fg_incoming f)) = L j"
    and bufs: "\<forall>fr \<in> set (fl_fragments (fg_incoming f)). buf_wf (fr_buf fr) \<and> cap \<le> b_capacity (fr_buf fr)"
    and none: "\<forall>j. c \<le> j \<longrightarrow> S j = {}"
    using inv by (auto simp: reasm_inv_def)
  obtain l off' where g: "fragment_list_get_buf (fg_incoming f) ?s = Some (l, int ((off' + j) mod 25))"
    and w': "window_at base off' (max c (Suc j)) l"
    and bufs': "\<forall>fr \<in> set (fl_fragments l). buf_wf (fr_buf fr) \<and> cap \<le> b_capacity (fr_buf fr)"
    and old: "\<forall>k < c. slot off' k l = slot off k (fg_incoming f)"
    and new: "\<forall>k < max c (Suc j). c \<le> k \<longrightarrow> \<not> fr_defined (slot off' k l)"
    using fragment_list_get_buf_law [OF w c j bufs] by blast
  have sl': "slot_inv hr (D x) (S x) (slot off' x l)" if "x < max c (Suc j)" for x
    using that sl(1) old new none by (cases "x < c") (auto simp: slot_inv_def)
  have tl': "S x \<noteq> {} \<longrightarrow> fr_timestamp (slot off' x l) = L x" if "x < max c (Suc j)" for x
    using that sl(2) old none by (cases "x < c") auto
  let ?i = "int ((off' + j) mod 25)"
  let ?fr = "slot off' j l" let ?f1 = "slot_start hr sz ?fr"
  have len: "length (fl_fragments l) = 25" using w' by (simp add: window_at_def)
  have fri: "fl_fragments l ! nat ?i = ?fr" by (simp add: slot_def)
  have mem: "?fr \<in> set (fl_fragments l)" using len by (simp add: slot_def)
  have inv1: "slot_inv hr (p, sz) (S j) ?fr" using sl' [of j] D by simp
  have bfr: "buf_wf (fr_buf ?fr)" "cap \<le> b_capacity (fr_buf ?fr)" using bufs' mem by auto
  note st = slot_start_law [OF ok [unfolded D] inv1 bfr]
  have kS: "k < ?m" "S j \<subseteq> {..< ?m}" using k inv1 by (auto simp: D slot_inv_def)
  have capf: "cap \<le> b_capacity (fr_buf ?f1)" using st(3) bfr by simp
  obtain b' where b': "buf_copy_range (fr_buf ?f1) (int k * sz) b1 0 (b_len b1) = Some (b', True)" "buf_wf b'"
    "b_capacity b' = b_capacity (fr_buf ?f1)"
    "slot_body hr (p, sz) (insert k (S j)) (?f1\<lparr>fr_buf := b',
        fr_map := fr_map ?f1 OR push_bit k (if Suc k = ?m then FRAG_MAP_MASK else 1), fr_timestamp := now\<rparr>)"
    "insert k (S j) = {..< ?m} \<Longrightarrow> buf_content b' = p"
    using slot_store [OF ok [unfolded D] kS(2) st(1,2) capf kS(1) b1(2,3) refl, where t = now] by metis
  let ?f2 = "?f1\<lparr>fr_buf := b', fr_map := fr_map ?f1 OR push_bit k (if Suc k = ?m then FRAG_MAP_MASK else 1), fr_timestamp := now\<rparr>"
  have full: "fr_map ?f2 AND FRAG_MAP_MASK = FRAG_MAP_MASK \<longleftrightarrow> insert k (S j) = {..< ?m}"
    using map_full_iff [OF ok [unfolded D], of "insert k (S j)" "fr_map ?f2"] kS b'(4) by (simp add: slot_body_def)
  have type: "(?ty = FRAG_YES_LAST) = (Suc k = ?m)" by (simp add: FRAG_YES_LAST_def FRAG_YES_NOTLAST_def)
  define fin where "fin \<longleftrightarrow> insert k (S j) = {..< ?m}"
  define f3 where "f3 = (if fin then ?f2\<lparr>fr_defined := False\<rparr> else ?f2)"
  define out where "out = (if fin then b' else b1\<lparr>b_len := 0\<rparr>)"
  have part: "fragment_incoming_part f b1 frm now ?F ?ty = Some (f\<lparr>fg_incoming := frag_update l ?i (\<lambda>_. f3)\<rparr>, out)"
  proof (rule fragment_incoming_part_eq [where s = ?s and n = "int k" and sz = sz and b' = b' and l = l and i = ?i])
    show "fragment_list_get_buf (fg_incoming f) ?s = Some (l, ?i)" by (rule g)
    show "snd (buf_init (fr_buf (fl_fragments l ! nat ?i)) (fm_headroom frm))" using st(4) fri hr by simp
    show "buf_copy_range (fr_buf (slot_start (fm_headroom frm) sz (fl_fragments l ! nat ?i))) (int k * sz) b1 0 (b_len b1) = Some (b', True)"
      using b'(1) fri hr by simp
    show "f3 = (let fr = slot_start (fm_headroom frm) sz (fl_fragments l ! nat ?i);
        fr = fr\<lparr>fr_buf := b', fr_map := fr_map fr OR push_bit (nat (int k)) (if ?ty = FRAG_YES_LAST then FRAG_MAP_MASK else 1), fr_timestamp := now\<rparr>
        in if fr_map fr AND FRAG_MAP_MASK = FRAG_MAP_MASK then fr\<lparr>fr_defined := False\<rparr> else fr)"
      using full by (simp only: f3_def fin_def Let_def hr nat_int type slot_def)
    show "out = (if fr_map ?f2 AND FRAG_MAP_MASK = FRAG_MAP_MASK then b' else b1\<lparr>b_len := 0\<rparr>)"
      using full by (simp only: out_def fin_def)
    show "fr_map ?f2 = fr_map (slot_start (fm_headroom frm) sz (fl_fragments l ! nat ?i)) OR
        push_bit (nat (int k)) (if ?ty = FRAG_YES_LAST then FRAG_MAP_MASK else 1)"
      using fri hr type by simp
  qed (use fl(2,3) szv sz(3) in \<open>simp_all add: round_mask\<close>)
  have inc: "fragment_incoming f b frm now = Some (f\<lparr>fg_incoming := frag_update l ?i (\<lambda>_. f3)\<rparr>, out)"
  proof -
    define ty where "ty = ?ty"
    have nz: "ty \<noteq> FRAG_WHOLE" "ty = FRAG_YES_NOTLAST \<or> ty = FRAG_YES_LAST"
      by (auto simp: ty_def FRAG_WHOLE_def FRAG_YES_LAST_def FRAG_YES_NOTLAST_def)
    define F where "F = fragment_flags ty ?s (int k) sz"
    note b1' = b1(1) [folded ty_def, folded F_def] and part' = part [folded ty_def, folded F_def]
      
    have X: "uint (drop_bit FRAG_TYPE_SHIFT F AND FRAG_TYPE_MASK) = ty" unfolding F_def ty_def by (rule fl(1)) simp_all
    have "fragment_incoming f b frm now = fragment_incoming_part f b1 frm now F ty"
      unfolding fragment_incoming_def b1' prod.case option.case Let_def be32_of_bytes X
      using b1(4) nz by (simp only: if_True if_False simp_thms)
    then show ?thesis using part' by simp
  qed
  show ?thesis
  proof (rule that [OF inc])
    show "buf_wf out" using b'(2) b1(2) buf_content_shrink [OF b1(2), of 0] by (auto simp: out_def elim: buf_wfE)
    show "buf_content out = snd (collect D j k S)"
      using b'(5) buf_content_shrink [OF b1(2), of 0] b1(2) by (auto simp: out_def collect_def D fin_def elim: buf_wfE)
    let ?l = "frag_update l ?i (\<lambda>_. f3)" and ?S = "fst (collect D j k S)"
    have A: "slot_inv hr (D x) (?S x) (slot off' x ?l)" if x: "x < max c (Suc j)" for x
    proof (cases "x = j")
      case True
      then show ?thesis using slot_update [OF len j j, of off' "\<lambda>_. f3"] b'(4) kS
        by (auto simp: collect_def D fin_def f3_def slot_inv_def)
    next
      case False
      moreover have "?S x = S x" using False by (simp add: collect_def)
      ultimately show ?thesis using slot_update [OF len j, of x off' "\<lambda>_. f3"] sl' [OF x] x c j by simp
    qed
    have T: "?S x \<noteq> {} \<longrightarrow> fr_timestamp (slot off' x ?l) = (L(j := now)) x" if x: "x < max c (Suc j)" for x
    proof (cases "x = j")
      case True
      then show ?thesis using slot_update [OF len j j, of off' "\<lambda>_. f3"] by (simp add: f3_def)
    next
      case False
      moreover have "?S x = S x" using False by (simp add: collect_def)
      ultimately show ?thesis using slot_update [OF len j, of x off' "\<lambda>_. f3"] tl' [OF x] x c j by simp
    qed
    have B: "\<forall>fr \<in> set (fl_fragments ?l). buf_wf (fr_buf fr) \<and> cap \<le> b_capacity (fr_buf fr)"
    proof (rule frag_update_bufs [where P = "\<lambda>b. buf_wf b \<and> cap \<le> b_capacity b", OF bufs'])
      have "fr_buf f3 = b'" by (simp add: f3_def)
      then show "buf_wf (fr_buf f3) \<and> cap \<le> b_capacity (fr_buf f3)" using b'(2,3) capf by simp
    qed
    have C: "\<forall>x. max c (Suc j) \<le> x \<longrightarrow> ?S x = {}" using none by (auto simp: collect_def)
    have "window_at base off' (max c (Suc j)) ?l" "max c (Suc j) \<le> 25" using w' c j by simp_all
    then have "reasm_inv hr cap base D ?S (L(j := now)) (max c (Suc j)) ?l"
      unfolding reasm_inv_def using A T B C by blast
    then show "reasm_inv hr cap base D ?S (L(j := now)) (max c (Suc j)) (fg_incoming (f\<lparr>fg_incoming := ?l\<rparr>))" by simp
  qed
qed

text \<open>A receiver set up for 25 reassemblies, whatever it did before.\<close>

definition receiver_wf :: "int \<Rightarrow> fragment_list \<Rightarrow> bool" where
  "receiver_wf cap l \<longleftrightarrow> length (fl_fragments l) = 25 \<and> 0 \<le> fl_index l \<and> fl_index l < 25
     \<and> 0 \<le> fl_seq_id l \<and> fl_seq_id l < 256
     \<and> (\<forall>fr \<in> set (fl_fragments l). buf_wf (fr_buf fr) \<and> cap \<le> b_capacity (fr_buf fr))"

fun incoming_run :: "frame \<Rightarrow> (int \<times> buffer) list \<Rightarrow> fragment_master \<Rightarrow> (fragment_master \<times> bytes list) option" where
  "incoming_run frm [] f = Some (f, [])"
| "incoming_run frm ((t, b) # evs) f = do {
     (f, b) \<leftarrow> fragment_incoming f b frm t;
     (f, outs) \<leftarrow> incoming_run frm evs f;
     Some (f, buf_content b # outs) }"

fun collect_run :: "(nat \<Rightarrow> bytes \<times> int) \<Rightarrow> (nat \<times> nat) list \<Rightarrow> (nat \<Rightarrow> nat set) \<Rightarrow> bytes list" where
  "collect_run D [] S = []"
| "collect_run D ((j, k) # evs) S = (let (S, out) = collect D j k S in out # collect_run D evs S)"

lemma receiver_wf_inv:
  assumes "receiver_wf cap l"
  shows "reasm_inv hr cap (fl_seq_id l + 1) D (\<lambda>_. {}) L 0 l"
proof -
  have "window_at (fl_seq_id l + 1) (nat (fl_index l + 1)) 0 l"
    using assms by (simp add: window_at_def receiver_wf_def)
  then show ?thesis using assms by (auto simp: reasm_inv_def receiver_wf_def)
qed

lemma inv_receiver_wf: "reasm_inv hr cap base D S L c l \<Longrightarrow> receiver_wf cap l"
  by (auto simp: reasm_inv_def window_at_def receiver_wf_def)

definition arrives :: "int \<Rightarrow> int \<Rightarrow> int \<Rightarrow> (nat \<Rightarrow> bytes \<times> int) \<Rightarrow> (int \<times> buffer) \<times> (nat \<times> nat) \<Rightarrow> bool" where
  "arrives hr cap base D = (\<lambda>((t, b), (j, k)). j < 25 \<and> datagram_ok hr cap (D j)
     \<and> k < frag_count (fst (D j)) (snd (D j)) \<and> buf_wf b
     \<and> buf_content b = frag_packet ((base + int j) mod 256) (snd (D j)) (fst (D j)) k)"

lemma incoming_run_collects:
  assumes "reasm_inv hr cap base D S L c (fg_incoming f)" "fm_headroom frm = hr"
    "\<forall>e \<in> set evs. arrives hr cap base D e"
  shows "\<exists>f'. incoming_run frm (map fst evs) f = Some (f', collect_run D (map snd evs) S) \<and> receiver_wf cap (fg_incoming f')"
  using assms
proof (induction evs arbitrary: S L c f)
  case Nil
  then show ?case using inv_receiver_wf by auto
next
  case (Cons e evs)
  obtain t b j k where e: "e = ((t, b), (j, k))" by (metis prod.collapse)
  have a: "j < 25" "datagram_ok hr cap (D j)" "k < frag_count (fst (D j)) (snd (D j))" "buf_wf b"
    "buf_content b = frag_packet ((base + int j) mod 256) (snd (D j)) (fst (D j)) k"
    using Cons.prems(3) by (auto simp: arrives_def e)
  obtain f' b' c' where i: "fragment_incoming f b frm t = Some (f', b')"
    "buf_content b' = snd (collect D j k S)" "reasm_inv hr cap base D (fst (collect D j k S)) (L(j := t)) c' (fg_incoming f')"
    using fragment_incoming_step [OF Cons.prems(1,2) a(2,1,3,4,5)] by metis
  obtain g where "incoming_run frm (map fst evs) f' = Some (g, collect_run D (map snd evs) (fst (collect D j k S)))"
    "receiver_wf cap (fg_incoming g)"
    using Cons.IH [OF i(3) Cons.prems(2)] Cons.prems(3) by auto
  then show ?case using i by (auto simp: e split: prod.splits)
qed

text \<open>
  The life of a receiver: datagrams arrive and the housekeeping timer fires.  The reference receiver
  remembers for each datagram \<open>j\<close> the set \<open>S j\<close> of the fragments seen and the time \<open>L j\<close> of the last
  one; the timer makes it forget the datagrams of which nothing came for \<open>FRAG_TTL_SEC\<close> seconds.
\<close>

datatype receiver_event = Arrival int buffer | Wakeup int

fun receiver_life :: "frame \<Rightarrow> receiver_event list \<Rightarrow> fragment_master \<Rightarrow> (fragment_master \<times> bytes list) option" where
  "receiver_life frm [] f = Some (f, [])"
| "receiver_life frm (Arrival t b # evs) f = do {
     (f, b) \<leftarrow> fragment_incoming f b frm t;
     (f, outs) \<leftarrow> receiver_life frm evs f;
     Some (f, buf_content b # outs) }"
| "receiver_life frm (Wakeup t # evs) f = receiver_life frm evs (fragment_wakeup t f)"

datatype reference_event = Piece int nat nat | Expire int

fun collect_life :: "(nat \<Rightarrow> bytes \<times> int) \<Rightarrow> reference_event list \<Rightarrow> (nat \<Rightarrow> nat set) \<Rightarrow> (nat \<Rightarrow> int) \<Rightarrow> bytes list" where
  "collect_life D [] S L = []"
| "collect_life D (Piece t j k # evs) S L =
     (let (S, out) = collect D j k S in out # collect_life D evs S (L(j := t)))"
| "collect_life D (Expire t # evs) S L =
     collect_life D evs (\<lambda>j. if L j + FRAG_TTL_SEC \<le> t then {} else S j) L"

fun same_event :: "int \<Rightarrow> int \<Rightarrow> int \<Rightarrow> (nat \<Rightarrow> bytes \<times> int) \<Rightarrow> receiver_event \<Rightarrow> reference_event \<Rightarrow> bool" where
  "same_event hr cap base D (Arrival t b) (Piece u j k) \<longleftrightarrow> t = u \<and> arrives hr cap base D ((t, b), (j, k))"
| "same_event hr cap base D (Wakeup t) (Expire u) \<longleftrightarrow> t = u"
| "same_event hr cap base D _ _ \<longleftrightarrow> False"

lemma wakeup_inv:
  assumes "reasm_inv hr cap base D S L c (fg_incoming f)"
  shows "reasm_inv hr cap base D (\<lambda>j. if L j + FRAG_TTL_SEC \<le> t then {} else S j) L c (fg_incoming (fragment_wakeup t f))"
proof -
  obtain off where c: "c \<le> 25" and w: "window_at base off c (fg_incoming f)"
    and sl: "\<forall>j < c. slot_inv hr (D j) (S j) (slot off j (fg_incoming f))
      \<and> (S j \<noteq> {} \<longrightarrow> fr_timestamp (slot off j (fg_incoming f)) = L j)"
    and bufs: "\<forall>fr \<in> set (fl_fragments (fg_incoming f)). buf_wf (fr_buf fr) \<and> cap \<le> b_capacity (fr_buf fr)"
    and none: "\<forall>j. c \<le> j \<longrightarrow> S j = {}"
    using assms by (auto simp: reasm_inv_def)
  let ?g = "\<lambda>fr. if fr_defined fr \<and> fr_timestamp fr + FRAG_TTL_SEC \<le> t then fr\<lparr>fr_defined := False\<rparr> else fr"
  have fl: "fl_fragments (fg_incoming (fragment_wakeup t f)) = map ?g (fl_fragments (fg_incoming f))"
    by (simp add: fragment_wakeup_def fragment_ttl_reap_def)
  have len: "length (fl_fragments (fg_incoming f)) = 25" using w by (simp add: window_at_def)
  have sg: "slot off j (fg_incoming (fragment_wakeup t f)) = ?g (slot off j (fg_incoming f))" for j
    unfolding slot_def fl using len by (simp add: nth_map)
  have w': "window_at base off c (fg_incoming (fragment_wakeup t f))"
    using w by (simp add: window_at_def fragment_wakeup_def fragment_ttl_reap_def)
  have "slot_inv hr (D j) (if L j + FRAG_TTL_SEC \<le> t then {} else S j) (slot off j (fg_incoming (fragment_wakeup t f)))
      \<and> ((if L j + FRAG_TTL_SEC \<le> t then {} else S j) \<noteq> {} \<longrightarrow> fr_timestamp (slot off j (fg_incoming (fragment_wakeup t f))) = L j)"
    if "j < c" for j
  proof (cases "S j = {}")
    case True
    then show ?thesis using sl that unfolding sg by (auto simp: slot_inv_def)
  next
    case False
    then have "slot_body hr (D j) (S j) (slot off j (fg_incoming f))" "fr_timestamp (slot off j (fg_incoming f)) = L j"
      "S j \<subseteq> {..< frag_count (fst (D j)) (snd (D j))}"
      using sl that by (auto simp: slot_inv_def)
    then show ?thesis unfolding sg using False by (auto simp: slot_inv_def slot_body_def split: prod.splits)
  qed
  moreover have "\<forall>fr \<in> set (fl_fragments (fg_incoming (fragment_wakeup t f))). buf_wf (fr_buf fr) \<and> cap \<le> b_capacity (fr_buf fr)"
    using bufs by (auto simp: fl)
  ultimately show ?thesis
    unfolding reasm_inv_def using c none
    by (intro conjI exI [of _ off] w' allI impI) simp_all
qed

lemma receiver_life_collects:
  assumes "list_all2 (same_event hr cap base D) evs revs"
    "reasm_inv hr cap base D S L c (fg_incoming f)" "fm_headroom frm = hr"
  shows "\<exists>f'. receiver_life frm evs f = Some (f', collect_life D revs S L) \<and> receiver_wf cap (fg_incoming f')"
  using assms
proof (induction evs revs arbitrary: S L c f rule: list_all2_induct)
  case Nil
  then show ?case using inv_receiver_wf by auto
next
  case (Cons e evs r revs)
  show ?case
  proof (cases e)
    case (Arrival t b)
    then obtain j k where r: "r = Piece t j k" "arrives hr cap base D ((t, b), (j, k))"
      using Cons.hyps(1) by (cases r) auto
    have a: "j < 25" "datagram_ok hr cap (D j)" "k < frag_count (fst (D j)) (snd (D j))" "buf_wf b"
      "buf_content b = frag_packet ((base + int j) mod 256) (snd (D j)) (fst (D j)) k"
      using r(2) by (auto simp: arrives_def)
    obtain f' b' c' where i: "fragment_incoming f b frm t = Some (f', b')"
      "buf_content b' = snd (collect D j k S)"
      "reasm_inv hr cap base D (fst (collect D j k S)) (L(j := t)) c' (fg_incoming f')"
      using fragment_incoming_step [OF Cons.prems a(2,1,3,4,5)] by metis
    show ?thesis using Cons.IH [OF i(3) Cons.prems(2)] i(1,2)
      by (auto simp: Arrival r(1) fun_upd_def split: prod.splits)
  next
    case (Wakeup t)
    then have "r = Expire t" using Cons.hyps(1) by (cases r) auto
    then show ?thesis using Cons.IH [OF wakeup_inv [OF Cons.prems(1)] Cons.prems(2)] by (simp add: Wakeup)
  qed
qed

subsection \<open>The sender\<close>

definition sender_wf :: "int \<Rightarrow> int \<Rightarrow> fragment_master \<Rightarrow> bool" where
  "sender_wf hr cap f \<longleftrightarrow> 4 \<le> hr \<and> buf_wf (fg_outgoing f) \<and> buf_wf (fg_outgoing_return f)
     \<and> cap \<le> b_capacity (fg_outgoing f) \<and> cap \<le> b_capacity (fg_outgoing_return f)
     \<and> 0 \<le> fg_outgoing_seq_id f \<and> fg_outgoing_seq_id f < 256"

lemma buf_copy_n_law:
  assumes "buf_wf dest" "buf_wf src" "0 \<le> n" "n \<le> b_len src" "n \<le> buf_forward_capacity dest"
  obtains dest' src' where "buf_copy_n dest src n = (dest', src', True)" "buf_wf dest'" "buf_wf src'"
    "buf_content dest' = buf_content dest @ take (nat n) (buf_content src)"
    "buf_content src' = drop (nat n) (buf_content src)" "b_offset dest' = b_offset dest"
    "b_capacity dest' = b_capacity dest" "b_capacity src' = b_capacity src"
proof -
  obtain src' where r: "buf_read src n = (src', Some (take (nat n) (buf_content src)))" "buf_wf src'"
    "buf_content src' = drop (nat n) (buf_content src)" "b_capacity src' = b_capacity src"
    using buf_read_law [OF assms(2-4)] by metis
  obtain cp where cp: "buf_read_alloc src n = (src', Some cp)" "buf_peek src' cp n = take (nat n) (buf_content src)"
    using r(1) by (auto simp: buf_read_def split: prod.splits option.splits)
  have len: "int (length (take (nat n) (buf_content src))) \<le> buf_forward_capacity dest"
    using length_buf_content [OF assms(2)] assms(3-5) by auto
  obtain dest' where w: "buf_write dest (take (nat n) (buf_content src)) = (dest', True)" "buf_wf dest'"
    "buf_content dest' = buf_content dest @ take (nat n) (buf_content src)" "b_offset dest' = b_offset dest"
    "b_capacity dest' = b_capacity dest"
    using buf_write_law [OF assms(1) len] by metis
  have "buf_copy_n dest src n = (dest', src', True)" using cp w(1) by (simp add: buf_copy_n_def)
  then show ?thesis using that w r by blast
qed

lemma fragment_prepend_law:
  assumes "buf_wf b" "4 \<le> b_offset b"
  obtains b' where "fragment_prepend_flags b ty s n sz = Some b'" "buf_wf b'"
    "buf_content b' = be32_bytes (fragment_flags ty s n sz) @ buf_content b" "b_capacity b' = b_capacity b"
proof -
  define h where "h = be32_bytes (fragment_flags ty s n sz)"
  have "int (length h) \<le> b_offset b" using assms(2) by (simp add: h_def)
  from buf_write_prepend_law [OF assms(1) this] obtain b' where "buf_write_prepend b h = (b', True)" "buf_wf b'"
    "buf_content b' = h @ buf_content b" "b_capacity b' = b_capacity b" .
  then show ?thesis using that [of b'] by (simp add: fragment_prepend_flags_def flip: h_def)
qed

lemma ready_to_send_law:
  assumes wf: "sender_wf hr cap f" and hr: "fm_headroom frm = hr" and ok: "datagram_ok hr cap (p, sz)"
    and k: "k < frag_count p sz" and id: "fg_outgoing_frag_id f = int k" and size: "fg_outgoing_frag_size f = sz"
    and out: "buf_content (fg_outgoing f) = drop (k * nat sz) p"
  obtains f' b where "fragment_ready_to_send f buf frm = Some (f', b, True)" "buf_wf b"
    "buf_content b = frag_packet (fg_outgoing_seq_id f) sz p k" "sender_wf hr cap f'"
    "fg_outgoing_frag_id f' = int (Suc k)" "fg_outgoing_frag_size f' = sz" "fg_outgoing_seq_id f' = fg_outgoing_seq_id f"
    "buf_content (fg_outgoing f') = drop (Suc k * nat sz) p" "fg_incoming f' = fg_incoming f"
proof -
  have w: "buf_wf (fg_outgoing f)" "buf_wf (fg_outgoing_return f)" "cap \<le> b_capacity (fg_outgoing_return f)" "4 \<le> hr"
    using wf by (auto simp: sender_wf_def)
  have d: "0 < sz" "hr + int (length p) \<le> cap" using ok by (auto simp: datagram_ok_def)
  have kl: "k * nat sz < length p" using less_frag_count [OF d(1)] k by simp
  have ol: "b_len (fg_outgoing f) = int (length p - k * nat sz)" using length_buf_content [OF w(1)] out by simp
  define last where "last \<longleftrightarrow> Suc k = frag_count p sz"
  have last: "b_len (fg_outgoing f) \<le> sz \<longleftrightarrow> last"
  proof -
    have "length p - k * nat sz \<le> nat sz \<longleftrightarrow> last"
      using kl less_frag_count [OF d(1), of "Suc k" p] k by (auto simp: last_def)
    then show ?thesis unfolding ol using d(1) by linarith
  qed
  define n where "n = (if last then b_len (fg_outgoing f) else sz)"
  have n: "0 \<le> n" "n \<le> b_len (fg_outgoing f)" "n \<le> int (length p)" using last ol d(1) by (auto simp: n_def)
  obtain b0 where b0: "buf_init (fg_outgoing_return f) hr = (b0, True)" "buf_wf b0" "buf_content b0 = []" "b_offset b0 = hr"
    "b_capacity b0 = b_capacity (fg_outgoing_return f)" "buf_forward_capacity b0 = b_capacity (fg_outgoing_return f) - hr"
    using buf_init_law [OF w(2), of hr] w(3,4) d(2) by auto
  obtain b1 out' where b1: "buf_copy_n b0 (fg_outgoing f) n = (b1, out', True)" "buf_wf b1" "buf_wf out'"
    "buf_content b1 = take (nat n) (drop (k * nat sz) p)" "buf_content out' = drop (nat n) (drop (k * nat sz) p)"
    "b_offset b1 = hr" "b_capacity b1 = b_capacity b0" "b_capacity out' = b_capacity (fg_outgoing f)"
    using buf_copy_n_law [OF b0(2) w(1) n(1,2)] b0 w(3) d(2) n(3) out by auto
  let ?ty = "if last then FRAG_YES_LAST else FRAG_YES_NOTLAST"
  obtain b2 where b2: "fragment_prepend_flags b1 ?ty (fg_outgoing_seq_id f) (int k) sz = Some b2" "buf_wf b2"
    "buf_content b2 = be32_bytes (fragment_flags ?ty (fg_outgoing_seq_id f) (int k) sz) @ buf_content b1" "b_capacity b2 = b_capacity b1"
    using fragment_prepend_law [OF b1(2)] b1(6) w(4) by metis
  have nn: "nat n = (if last then length p - k * nat sz else nat sz)" using ol by (simp add: n_def)
  have chunk: "buf_content b1 = frag_chunk p sz k"
  proof (cases last)
    case True
    then have "length p - k * nat sz \<le> nat sz" using last ol d(1) by linarith
    then show ?thesis using b1(4) nn True by (simp add: frag_chunk_def segment_def)
  qed (use b1(4) nn in \<open>simp add: frag_chunk_def segment_def\<close>)
  have rest: "buf_content out' = drop (Suc k * nat sz) p"
  proof (cases last)
    case True
    then have "length p \<le> Suc k * nat sz" using last ol d(1) by simp
    then show ?thesis using b1(5) nn True by simp
  qed (use b1(5) nn in \<open>simp add: add.commute\<close>)
  have empty: "last \<longrightarrow> b_len out' = 0" using b_len_0_iff [OF b1(3)] b1(5) nn by auto
  let ?f = "f\<lparr>fg_outgoing := out', fg_outgoing_frag_id := int k + 1,
      fg_outgoing_return := (fg_outgoing_return f)\<lparr>b_data := b_data b2\<rparr>\<rparr>"
  have "fragment_outgoing_defined f"
    unfolding fragment_outgoing_defined_def ol of_nat_0_less_iff using kl by (rule zero_less_diff [THEN iffD2])
  then have r: "fragment_ready_to_send f buf frm = Some (?f, b2, True)"
    using b0(1) b1(1) b2(1) last size id empty hr
    by (cases last) (simp_all add: fragment_ready_to_send_def n_def)
  have "buf_wf ((fg_outgoing_return f)\<lparr>b_data := b_data b2\<rparr>)"
    using w(2) b2(2,4) b1(7) b0(5) by (auto simp: buf_wf_def)
  then have "sender_wf hr cap ?f" using wf b1(3,8) by (simp add: sender_wf_def)
  then show ?thesis
    using r b2(2,3) chunk rest size by (intro that [of ?f b2]) (simp_all add: frag_packet_def last_def)
qed

text \<open>What the callers do with the pending fragments: fetch them one by one until there is none.\<close>

fun drain :: "nat \<Rightarrow> fragment_master \<Rightarrow> frame \<Rightarrow> (fragment_master \<times> buffer list) option" where
  "drain 0 f frm = Some (f, [])"
| "drain (Suc n) f frm = do {
     (f, b, more) \<leftarrow> fragment_ready_to_send f clear_buf frm;
     if more then do { (f, bs) \<leftarrow> drain n f frm; Some (f, b # bs) } else Some (f, []) }"

lemma frag_drain_law:
  assumes "sender_wf hr cap f" "fm_headroom frm = hr" "datagram_ok hr cap (p, sz)" "k \<le> frag_count p sz"
    "fg_outgoing_frag_id f = int k" "fg_outgoing_frag_size f = sz" "buf_content (fg_outgoing f) = drop (k * nat sz) p"
    "frag_count p sz - k \<le> n"
  shows "\<exists>f' bs. drain n f frm = Some (f', bs) \<and> (\<forall>b \<in> set bs. buf_wf b)
     \<and> map buf_content bs = map (frag_packet (fg_outgoing_seq_id f) sz p) [k ..< frag_count p sz]
     \<and> sender_wf hr cap f' \<and> \<not> fragment_outgoing_defined f'"
  using assms
proof (induction n arbitrary: k f)
  case 0
  then have "k = frag_count p sz" "buf_content (fg_outgoing f) = []"
    using less_frag_count [of sz k p] by (auto simp: datagram_ok_def)
  then show ?case using 0 b_len_0_iff [of "fg_outgoing f"]
    by (auto simp: fragment_outgoing_defined_def sender_wf_def)
next
  case (Suc n)
  show ?case
  proof (cases "k < frag_count p sz")
    case True
    obtain f' b where r: "fragment_ready_to_send f clear_buf frm = Some (f', b, True)" "buf_wf b"
      "buf_content b = frag_packet (fg_outgoing_seq_id f) sz p k" "sender_wf hr cap f'"
      "fg_outgoing_frag_id f' = int (Suc k)" "fg_outgoing_frag_size f' = sz" "fg_outgoing_seq_id f' = fg_outgoing_seq_id f"
      "buf_content (fg_outgoing f') = drop (Suc k * nat sz) p"
      using ready_to_send_law [OF Suc.prems(1-3) True Suc.prems(5-7)] by metis
    obtain g bs where g: "drain n f' frm = Some (g, bs)" "\<forall>b \<in> set bs. buf_wf b"
      "map buf_content bs = map (frag_packet (fg_outgoing_seq_id f) sz p) [Suc k ..< frag_count p sz]"
      "sender_wf hr cap g" "\<not> fragment_outgoing_defined g"
    proof -
      have "Suc k \<le> frag_count p sz" "frag_count p sz - Suc k \<le> n" using True Suc.prems(8) by linarith+
      from Suc.IH [OF r(4) Suc.prems(2,3) this(1) r(5,6,8) this(2)] show ?thesis using that r(7) by auto
    qed
    have "[k ..< frag_count p sz] = k # [Suc k ..< frag_count p sz]" using True by (simp add: upt_conv_Cons)
    then show ?thesis using g r by simp
  next
    case False
    then have "k = frag_count p sz" "buf_content (fg_outgoing f) = []"
      using Suc.prems less_frag_count [of sz k p] by (auto simp: datagram_ok_def)
    then have "\<not> fragment_outgoing_defined f" using Suc.prems(1) b_len_0_iff [of "fg_outgoing f"]
      by (auto simp: fragment_outgoing_defined_def sender_wf_def)
    then show ?thesis using False \<open>k = _\<close> Suc.prems(1) by (simp add: fragment_ready_to_send_def)
  qed
qed

lemma int_div_eqI:
  assumes "0 < (b :: int)" "q * b \<le> a" "a < (q + 1) * b"
  shows "a div b = q"
proof -
  have "(a - q * b) div b = 0" using assms by (intro div_pos_pos_trivial) (auto simp: distrib_right)
  then show ?thesis using div_mult_self1 [of b "a - q * b" q] assms(1) by simp
qed

lemma optimal_size_law:
  assumes "4 \<le> mx" "0 < len"
  obtains sz where "optimal_fragment_size len mx = Some sz" "0 < sz" "sz \<le> mx - mx mod 4" "4 dvd sz"
    "(len - 1) div sz = (len - 1) div (mx - mx mod 4)"
proof -
  define a where "a = mx - mx mod 4"
  have a: "0 < a" "a \<le> mx" "4 dvd a" using assms(1) by (simp_all add: a_def)
  define d m where "d = len div a" "m = len mod a"
  have dm: "len = d * a + m" "0 \<le> m" "m < a" "0 \<le> d" using a assms(2) by (simp_all add: d_m_def pos_imp_zdiv_nonneg_iff)
  show ?thesis
  proof (cases "d > 0 \<and> m > 0 \<and> m < a * 3 div 4")
    case True
    define x where "x = mx - (mx - m) div (d + 1) + 3"
    define r where "r = x - x mod 4"
    define sz where "sz = min a r"
    have q: "(d + 1) * ((mx - m) div (d + 1)) \<le> mx - m"
      by (metis add_nonneg_nonneg dm(4) mult_div_mod_eq pos_mod_sign zero_less_one add.commute zless_add1_eq le_add_same_cancel1 less_le)
    have xr: "x - 3 \<le> r" by (simp add: r_def)
    have "(d + 1) * (x - 3) = (d + 1) * mx - (d + 1) * ((mx - m) div (d + 1))" by (simp add: x_def right_diff_distrib)
    then have "d * mx + m \<le> (d + 1) * (x - 3)" using q by (simp add: distrib_right)
    moreover have "(d + 1) * (x - 3) \<le> (d + 1) * r" using xr dm(4) by (intro mult_left_mono) auto
    moreover have "d * a \<le> d * mx" using a(2) dm(4) by (simp add: mult_left_mono)
    ultimately have lr: "len \<le> (d + 1) * r" using dm(1) by linarith
    moreover have "len \<le> (d + 1) * a" using dm by (simp add: distrib_right)
    ultimately have up: "len \<le> (d + 1) * sz" by (simp add: sz_def min_def)
    have pos: "0 < sz" using up assms(2) dm(4) by (smt (verit) mult_nonneg_nonpos)
    have "d * sz \<le> d * a" using dm(4) by (intro mult_left_mono) (simp_all add: sz_def)
    then have low: "d * sz < len" using dm(1) True by linarith
    have "(len - 1) div sz = d" using low up pos by (intro int_div_eqI) auto
    moreover have "(len - 1) div a = d" using dm True by (intro int_div_eqI) (auto simp: distrib_right)
    moreover have "4 dvd sz" using a(3) by (auto simp: sz_def min_def r_def)
    moreover have "optimal_fragment_size len mx = Some sz"
    proof -
      let ?y = "mx - (mx - m) div (d + 1) + FRAG_SIZE_ROUND_MASK"
      have "sz = min a (?y - ?y mod 4)" by (simp add: sz_def r_def x_def FRAG_SIZE_ROUND_MASK_def)
      then show ?thesis
        using True a(1) by (simp add: optimal_fragment_size_def round_down_mask flip: a_def d_m_def)
    qed
    ultimately show ?thesis using that [of sz] pos by (simp add: sz_def a_def)
  next
    case False
    then have "optimal_fragment_size len mx = Some a"
      using a(1) by (auto simp: optimal_fragment_size_def round_down_mask simp flip: a_def d_m_def)
    then show ?thesis using that [of a] a by (simp add: a_def)
  qed
qed

lemma collect_single:
  assumes "S j = A" "A \<union> set (butlast ks) \<noteq> {..< frag_count (fst (D j)) (snd (D j))}"
    "A \<union> set ks = {..< frag_count (fst (D j)) (snd (D j))}" "ks \<noteq> []"
    "A \<noteq> {..< frag_count (fst (D j)) (snd (D j))}"
  shows "collect_run D (map (Pair j) ks) S = replicate (length ks - 1) [] @ [fst (D j)]"
  using assms
proof (induction ks arbitrary: S A)
  case (Cons k ks)
  let ?M = "{..< frag_count (fst (D j)) (snd (D j))}"
  show ?case
  proof (cases "ks = []")
    case True
    then show ?thesis using Cons.prems by (simp add: collect_def)
  next
    case False
    have sub: "insert k A \<union> set (butlast ks) \<noteq> ?M" "insert k A \<union> set ks = ?M"
      using Cons.prems False by auto
    have "insert k A \<noteq> ?M"
    proof
      assume e: "insert k A = ?M"
      have "set (butlast ks) \<subseteq> ?M" using sub(2) in_set_butlastD by fastforce
      then show False using sub(1) e by auto
    qed
    then have "collect_run D (map (Pair j) ks) (S(j := insert k A)) = replicate (length ks - 1) [] @ [fst (D j)]"
      using sub False by (intro Cons.IH [of _ "insert k A"]) simp_all
    moreover have "collect D j k S = (S(j := insert k A), [])"
      using Cons.prems(1) \<open>insert k A \<noteq> ?M\<close> by (simp add: collect_def)
    ultimately show ?thesis using False by (cases ks) simp_all
  qed
qed simp

text \<open>
  C21: Reassembly is correct for any interleaving.  Let up to 25 datagrams with consecutive sequence
  numbers just above the receiver's be cut into fragments, and let the fragments arrive in any order,
  interleaved and repeated, at any times, while the housekeeping timer fires whenever it likes.  The
  receiver never fails; it behaves like a receiver that collects, for each datagram, the set of
  fragments seen, forgets that set when the timer fires \<open>FRAG_TTL_SEC\<close> (ten) seconds or more after the
  last of them, hands out nothing until the set is complete and then hands out exactly that datagram.
\<close>

theorem fragment_reassembly:
  assumes "receiver_wf cap (fg_incoming f)" "fm_headroom frm = hr"
    "list_all2 (same_event hr cap (fl_seq_id (fg_incoming f) + 1) D) evs revs"
  shows "\<exists>f'. receiver_life frm evs f = Some (f', collect_life D revs (\<lambda>_. {}) (\<lambda>_. 0))
    \<and> receiver_wf cap (fg_incoming f')"
  using receiver_life_collects [OF assms(3) receiver_wf_inv [OF assms(1)] assms(2)] .

lemma fragment_roundtrip_aux:
  assumes wf: "sender_wf hr cap f" and hr: "fm_headroom frm = hr" and b: "buf_wf b" "buf_content b = p"
    and mx: "4 \<le> fm_max_fragment_size frm" "fm_max_fragment_size frm < 65536" "fm_max_fragment_size frm < int (length p)"
    and fit: "hr + int (length p) \<le> cap" and few: "frag_count p (fm_max_fragment_size frm - fm_max_fragment_size frm mod 4) \<le> 32"
  obtains sz f1 b1 f2 bs where "fragment_outgoing f b frm = Some (f1, b1)" "drain 32 f1 frm = Some (f2, bs)"
    "\<not> fragment_outgoing_defined f2" "datagram_ok hr cap (p, sz)" "\<forall>x \<in> set (b1 # bs). buf_wf x"
    "map buf_content (b1 # bs) = map (frag_packet ((fg_outgoing_seq_id f + 1) mod 256) sz p) [0 ..< frag_count p sz]"
    "frag_count p sz = frag_count p (fm_max_fragment_size frm - fm_max_fragment_size frm mod 4)"
proof -
  let ?mx = "fm_max_fragment_size frm" let ?a = "?mx - ?mx mod 4"
  have bl: "b_len b = int (length p)" using length_buf_content [OF b(1)] b(2) by simp
  have pp: "0 < int (length p)" using mx by linarith
  obtain sz where sz: "optimal_fragment_size (int (length p)) ?mx = Some sz" "0 < sz" "sz \<le> ?a" "4 dvd sz"
    "(int (length p) - 1) div sz = (int (length p) - 1) div ?a"
    using optimal_size_law [OF mx(1) pp] .
  have cnt: "int (frag_count p s) = (int (length p) - 1) div s + 1" if "0 < s" for s
  proof -
    have "int (length p + nat s - 1) = (int (length p) - 1) + 1 * s" using that pp by simp
    then show ?thesis using that by (simp add: frag_count_def zdiv_int del: of_nat_diff) (metis add.commute div_mult_self1 less_irrefl mult_1)
  qed
  have a: "0 < ?a" using sz by linarith
  have same: "frag_count p sz = frag_count p ?a" using cnt [OF sz(2)] cnt [OF a] sz(5) by simp
  then have c32: "frag_count p sz \<le> 32" using few by simp
  have d: "datagram_ok hr cap (p, sz)" using sz c32 mx wf fit pp by (auto simp: datagram_ok_def sender_wf_def)
  have le: "int (length p) \<le> sz * 32"
  proof -
    have "length p \<le> 32 * nat sz" using less_frag_count [OF sz(2), of 32 p] c32 by auto
    then show ?thesis using sz(2) by linarith
  qed
  have w: "buf_wf (fg_outgoing f)" "cap \<le> b_capacity (fg_outgoing f)" "4 \<le> hr" using wf by (auto simp: sender_wf_def)
  obtain o1 where o1: "buf_init (fg_outgoing f) hr = (o1, True)" "buf_wf o1" "buf_content o1 = []"
    "b_capacity o1 = b_capacity (fg_outgoing f)" "buf_forward_capacity o1 = b_capacity (fg_outgoing f) - hr"
    using buf_init_law [OF w(1), of hr] w fit by auto
  obtain o2 where o2: "buf_copy o1 b = (o2, True)" "buf_wf o2" "buf_content o2 = p" "b_capacity o2 = b_capacity o1"
    using buf_copy_law [OF o1(2) b(1)] o1 b(2) bl w fit by auto
  have s: "modulo_add (fg_outgoing_seq_id f) 1 N_SEQ_ID = Some ((fg_outgoing_seq_id f + 1) mod 256)"
    using wf by (subst modulo_add_eq) (auto simp: sender_wf_def N_SEQ_ID_def)
  let ?s = "(fg_outgoing_seq_id f + 1) mod 256"
  let ?f = "f\<lparr>fg_outgoing_frag_size := sz, fg_outgoing := o2, fg_outgoing_seq_id := ?s, fg_outgoing_frag_id := 0\<rparr>"
  have wf1: "sender_wf hr cap ?f" using wf o2 o1 by (simp add: sender_wf_def)
  have m0: "0 < frag_count p sz" using less_frag_count [OF sz(2), of 0 p] pp by simp
  obtain f1 b1 where r: "fragment_ready_to_send ?f (b\<lparr>b_len := 0\<rparr>) frm = Some (f1, b1, True)" "buf_wf b1"
    "buf_content b1 = frag_packet ?s sz p 0" "sender_wf hr cap f1" "fg_outgoing_frag_id f1 = int (Suc 0)"
    "fg_outgoing_frag_size f1 = sz" "fg_outgoing_seq_id f1 = ?s" "buf_content (fg_outgoing f1) = drop (Suc 0 * nat sz) p"
  proof (rule ready_to_send_law [OF wf1 hr d m0, of "b\<lparr>b_len := 0\<rparr>"])
    show "buf_content (fg_outgoing ?f) = drop (0 * nat sz) p" using o2(3) by simp
  qed (use that in simp_all)
  have out: "fragment_outgoing f b frm = Some (f1, b1)"
    using bl pp mx(3) sz(1) le o1(1) o2(1) s r(1) hr by (simp add: fragment_outgoing_def MAX_FRAGS_def)
  obtain f2 bs where dr: "drain 32 f1 frm = Some (f2, bs)" "\<forall>b \<in> set bs. buf_wf b"
    "map buf_content bs = map (frag_packet ?s sz p) [Suc 0 ..< frag_count p sz]" "\<not> fragment_outgoing_defined f2"
  proof -
    have "Suc 0 \<le> frag_count p sz" "frag_count p sz - Suc 0 \<le> 32" using m0 c32 by simp_all
    from frag_drain_law [OF r(4) hr d this(1) r(5,6,8) this(2)] show ?thesis using that unfolding r(7) by blast
  qed
  have "[0 ..< frag_count p sz] = 0 # [Suc 0 ..< frag_count p sz]" using m0 by (simp add: upt_conv_Cons)
  then show ?thesis using that [OF out dr(1,4) d _ _ same] r(2,3) dr(2,3) by simp
qed

text \<open>
  C20: Fragmentation round trip.  A datagram too large for the link, and not needing more than 32 fragments,
  is cut into fragments that the sender emits one after the other; delivered in any order and
  with any repetitions to a receiver whose window it is ahead of, they produce nothing until
  the last missing one arrives and then exactly the datagram.
\<close>

theorem fragment_roundtrip:
  assumes "sender_wf hr cap f" "receiver_wf cap (fg_incoming g)" "fm_headroom frm = hr" "buf_wf b"
    "4 \<le> fm_max_fragment_size frm" "fm_max_fragment_size frm < 65536" "fm_max_fragment_size frm < b_len b"
    "hr + b_len b \<le> cap"
    "frag_count (buf_content b) (fm_max_fragment_size frm - fm_max_fragment_size frm mod 4) \<le> 32"
    "(fg_outgoing_seq_id f + 1) mod 256 = (fl_seq_id (fg_incoming g) + 1 + int j) mod 256" "j < 25"
  shows "\<exists>f1 b1 f2 bs. fragment_outgoing f b frm = Some (f1, b1) \<and> drain 32 f1 frm = Some (f2, bs)
    \<and> \<not> fragment_outgoing_defined f2
    \<and> length (b1 # bs) = frag_count (buf_content b) (fm_max_fragment_size frm - fm_max_fragment_size frm mod 4)
    \<and> (\<forall>arrivals. set (map snd (butlast arrivals)) \<noteq> {..< length (b1 # bs)} \<longrightarrow>
          set (map snd arrivals) = {..< length (b1 # bs)} \<longrightarrow>
          (\<exists>g'. incoming_run frm (map (\<lambda>(t, i). (t, (b1 # bs) ! i)) arrivals) g
             = Some (g', replicate (length arrivals - 1) [] @ [buf_content b])))"
proof -
  define p where "p = buf_content b"
  have pl: "b_len b = int (length p)" using length_buf_content [OF assms(4)] by (simp add: p_def)
  obtain sz f1 b1 f2 bs where o: "fragment_outgoing f b frm = Some (f1, b1)" "drain 32 f1 frm = Some (f2, bs)"
    "\<not> fragment_outgoing_defined f2" "datagram_ok hr cap (p, sz)" "\<forall>x \<in> set (b1 # bs). buf_wf x"
    "map buf_content (b1 # bs) = map (frag_packet ((fg_outgoing_seq_id f + 1) mod 256) sz p) [0 ..< frag_count p sz]"
    "frag_count p sz = frag_count p (fm_max_fragment_size frm - fm_max_fragment_size frm mod 4)"
    by (rule fragment_roundtrip_aux [OF assms(1,3,4) p_def [symmetric]])
      (use assms pl in \<open>simp_all add: p_def\<close>)
  let ?D = "\<lambda>_ :: nat. (p, sz)"
  have n: "length (b1 # bs) = frag_count p sz" using arg_cong [OF o(6), of length] by simp
  have "\<exists>g'. incoming_run frm (map (\<lambda>(t, i). (t, (b1 # bs) ! i)) arrivals) g
      = Some (g', replicate (length arrivals - 1) [] @ [buf_content b])"
    if a: "set (map snd (butlast arrivals)) \<noteq> {..< length (b1 # bs)}" "set (map snd arrivals) = {..< length (b1 # bs)}" for arrivals
  proof -
    define evs where "evs = map (\<lambda>(t, i). ((t, (b1 # bs) ! i), (j, i))) arrivals"
    have one: "arrives hr cap (fl_seq_id (fg_incoming g) + 1) ?D ((t, (b1 # bs) ! i), (j, i))" if "i < length (b1 # bs)" for t :: int and i
    proof -
      have "(b1 # bs) ! i \<in> set (b1 # bs)" using that by (rule nth_mem)
      then have "buf_wf ((b1 # bs) ! i)" using o(5) by blast
      moreover have "buf_content ((b1 # bs) ! i) = frag_packet ((fg_outgoing_seq_id f + 1) mod 256) sz p i"
        using arg_cong [OF o(6), of "\<lambda>xs. xs ! i"] that n by (simp only: nth_map length_map length_upt nth_upt add_0 diff_zero)
      ultimately show ?thesis using that n o(4) assms(10,11) by (simp add: arrives_def)
    qed
    have ar: "\<forall>e \<in> set evs. arrives hr cap (fl_seq_id (fg_incoming g) + 1) ?D e"
    proof
      fix e assume "e \<in> set evs"
      then obtain t i where ti: "(t, i) \<in> set arrivals" "e = ((t, (b1 # bs) ! i), (j, i))" by (auto simp: evs_def)
      have "i \<in> set (map snd arrivals)" using image_eqI [of i snd "(t, i)" "set arrivals"] ti(1) by simp
      then have "i < length (b1 # bs)" unfolding a(2) by simp
      then show "arrives hr cap (fl_seq_id (fg_incoming g) + 1) ?D e" unfolding ti(2) by (rule one)
    qed
    have m1: "map fst evs = map (\<lambda>(t, i). (t, (b1 # bs) ! i)) arrivals" by (auto simp: evs_def)
    have m2: "map snd evs = map (Pair j) (map snd arrivals)" by (auto simp: evs_def)
    have "0 < frag_count p sz" using n by simp
    then have "collect_run ?D (map (Pair j) (map snd arrivals)) (\<lambda>_. {}) = replicate (length (map snd arrivals) - 1) [] @ [fst (?D j)]"
      using a n by (intro collect_single [of _ _ "{}"]) (auto simp: map_butlast [symmetric])
    then show ?thesis
      using incoming_run_collects [OF receiver_wf_inv [OF assms(2), of hr ?D] assms(3) ar] m1 m2 by (auto simp: p_def)
  qed
  moreover have "length (b1 # bs) = frag_count (buf_content b) (fm_max_fragment_size frm - fm_max_fragment_size frm mod 4)"
    using n o(7) by (simp add: p_def)
  ultimately show ?thesis using o(1-3) by blast
qed

definition demo_frame :: frame where
  "demo_frame = \<lparr>fm_payload_size = 30, fm_headroom = 4, fm_tailroom = 6, fm_mss_fix = 0, fm_max_fragment_size = 4,
     fm_tun_mtu = 30, fm_tun_max_mtu = 30, fm_extra_tun = 0\<rparr>"

definition demo_master :: fragment_master where
  "demo_master = the (fragment_frame_init (fragment_init 7 0) demo_frame)"

definition demo_datagram :: buffer where
  "demo_datagram = \<lparr>b_capacity = 9, b_offset = 0, b_len = 9, b_data = Some [1, 2, 3, 4, 5, 6, 7, 8, 9]\<rparr>"

lemma demo_wf:
  "sender_wf 4 40 demo_master" "receiver_wf 40 (fg_incoming (demo_master\<lparr>fg_incoming := (fg_incoming demo_master)\<lparr>fl_seq_id := 3\<rparr>\<rparr>))"
  "buf_wf demo_datagram" "buf_content demo_datagram = [1, 2, 3, 4, 5, 6, 7, 8, 9]"
  "fm_headroom demo_frame = 4" "fm_max_fragment_size demo_frame = 4" "b_len demo_datagram = 9"
  "(fg_outgoing_seq_id demo_master + 1) mod 256 = 8"
  by code_simp+

theorem fragment_roundtrip_witness:
  "\<exists>f1 b1 f2 bs g'. fragment_outgoing demo_master demo_datagram demo_frame = Some (f1, b1)
    \<and> drain 32 f1 demo_frame = Some (f2, bs)
    \<and> incoming_run demo_frame (map (\<lambda>(t, i). (t, (b1 # bs) ! i)) [(5, 2), (6, 0), (7, 2), (9, 1)])
        (demo_master\<lparr>fg_incoming := (fg_incoming demo_master)\<lparr>fl_seq_id := 3\<rparr>\<rparr>)
        = Some (g', [[], [], [], [1, 2, 3, 4, 5, 6, 7, 8, 9]])"
proof -
  have c: "frag_count [1, 2, 3, 4, 5, 6, 7, 8, 9] 4 = 3" by (simp add: frag_count_def)
  have s: "set (map snd (butlast [(5, 2), (6, 0), (7, 2), (9 :: int, 1 :: nat)])) \<noteq> {..< 3}"
    "set (map snd [(5, 2), (6, 0), (7, 2), (9 :: int, 1 :: nat)]) = {..< 3}"
    by (auto simp: numeral_3_eq_3 lessThan_Suc)
  obtain f1 b1 f2 bs where r: "fragment_outgoing demo_master demo_datagram demo_frame = Some (f1, b1)"
    "drain 32 f1 demo_frame = Some (f2, bs)" "length (b1 # bs) = 3"
    "\<forall>arrivals. set (map snd (butlast arrivals)) \<noteq> {..< length (b1 # bs)} \<longrightarrow>
          set (map snd arrivals) = {..< length (b1 # bs)} \<longrightarrow>
          (\<exists>g'. incoming_run demo_frame (map (\<lambda>(t, i). (t, (b1 # bs) ! i)) arrivals)
             (demo_master\<lparr>fg_incoming := (fg_incoming demo_master)\<lparr>fl_seq_id := 3\<rparr>\<rparr>)
             = Some (g', replicate (length arrivals - 1) [] @ [[1, 2, 3, 4, 5, 6, 7, 8, 9]]))"
    using fragment_roundtrip [OF demo_wf(1,2,5,3), of 4] demo_wf c by auto
  from r(4) [rule_format, of "[(5, 2), (6, 0), (7, 2), (9, 1)]"] s r(3)
  show ?thesis using r(1,2) by (auto simp: numeral_3_eq_3)
qed

text \<open>
  Two fragments of one datagram with the timer in between: after nine seconds it leaves the first
  fragment alone, after ten it discards it.
\<close>

theorem fragment_reassembly_witness:
  "(\<exists>f'. receiver_life demo_frame
     [Arrival 0 \<lparr>b_capacity = 8, b_offset = 0, b_len = 8, b_data = Some (frag_packet 2 4 [1, 2, 3, 4, 5] 0)\<rparr>,
      Wakeup 9,
      Arrival 9 \<lparr>b_capacity = 5, b_offset = 0, b_len = 5, b_data = Some (frag_packet 2 4 [1, 2, 3, 4, 5] 1)\<rparr>]
     demo_master = Some (f', [[], [1, 2, 3, 4, 5]]))
   \<and> (\<exists>f'. receiver_life demo_frame
     [Arrival 0 \<lparr>b_capacity = 8, b_offset = 0, b_len = 8, b_data = Some (frag_packet 2 4 [1, 2, 3, 4, 5] 0)\<rparr>,
      Wakeup 10,
      Arrival 10 \<lparr>b_capacity = 5, b_offset = 0, b_len = 5, b_data = Some (frag_packet 2 4 [1, 2, 3, 4, 5] 1)\<rparr>]
     demo_master = Some (f', [[], []]))"
proof -
  let ?D = "\<lambda>_ :: nat. ([1, 2, 3, 4, 5] :: bytes, 4 :: int)"
  let ?a = "\<lparr>b_capacity = 8, b_offset = 0, b_len = 8, b_data = Some (frag_packet 2 4 [1, 2, 3, 4, 5] 0)\<rparr>"
  let ?b = "\<lparr>b_capacity = 5, b_offset = 0, b_len = 5, b_data = Some (frag_packet 2 4 [1, 2, 3, 4, 5] 1)\<rparr>"
  have wf: "receiver_wf 40 (fg_incoming demo_master)" and base: "fl_seq_id (fg_incoming demo_master) = 0" by code_simp+
  have "arrives 4 40 1 ?D ((0, ?a), (1, 0))" "arrives 4 40 1 ?D ((9, ?b), (1, 1))" "arrives 4 40 1 ?D ((10, ?b), (1, 1))"
    by code_simp+
  then have ev: "list_all2 (same_event 4 40 (fl_seq_id (fg_incoming demo_master) + 1) ?D)
      [Arrival 0 ?a, Wakeup 9, Arrival 9 ?b] [Piece 0 1 0, Expire 9, Piece 9 1 1]"
    "list_all2 (same_event 4 40 (fl_seq_id (fg_incoming demo_master) + 1) ?D)
      [Arrival 0 ?a, Wakeup 10, Arrival 10 ?b] [Piece 0 1 0, Expire 10, Piece 10 1 1]"
    by (simp_all add: base)
  have cnt: "frag_count [1, 2, 3, 4, 5] 4 = 2" by (simp add: frag_count_def)
  have sets: "insert (Suc 0) {0} = {..< 2}" "{0} \<noteq> {..< (2 :: nat)}" "{Suc 0} \<noteq> {..< 2}"
    by (auto simp: numeral_2_eq_2 lessThan_Suc)
  have out: "collect_life ?D [Piece 0 1 0, Expire 9, Piece 9 1 1] (\<lambda>_. {}) (\<lambda>_. 0) = [[], [1, 2, 3, 4, 5]]"
    "collect_life ?D [Piece 0 1 0, Expire 10, Piece 10 1 1] (\<lambda>_. {}) (\<lambda>_. 0) = [[], []]"
    using cnt sets by (simp_all add: collect_def FRAG_TTL_SEC_def)
  show ?thesis
    using fragment_reassembly [OF wf demo_wf(5) ev(1)] fragment_reassembly [OF wf demo_wf(5) ev(2)]
    unfolding out by blast
qed

text \<open>
  The fragment size the sender chooses is a positive multiple of four that does not exceed the limit,
  and evening out the last fragment never costs an extra fragment.
\<close>

theorem optimal_fragment_size_spec:
  assumes "4 \<le> mx" "0 < len"
  shows "\<exists>sz. optimal_fragment_size len mx = Some sz \<and> 0 < sz \<and> sz \<le> mx \<and> sz mod 4 = 0
    \<and> (len + sz - 1) div sz = (len + (mx - mx mod 4) - 1) div (mx - mx mod 4)"
proof -
  obtain sz where sz: "optimal_fragment_size len mx = Some sz" "0 < sz" "sz \<le> mx - mx mod 4" "4 dvd sz"
    "(len - 1) div sz = (len - 1) div (mx - mx mod 4)"
    using optimal_size_law [OF assms] .
  have up: "(len + s - 1) div s = (len - 1) div s + 1" if "0 < s" for s
    using that div_add_self2 [of s "len - 1"] by (simp add: algebra_simps)
  have f: "sz \<le> mx" using sz(3) by (smt (verit) pos_mod_sign)
  have e: "(len + sz - 1) div sz = (len + (mx - mx mod 4) - 1) div (mx - mx mod 4)"
    using up [OF sz(2)] up [of "mx - mx mod 4"] sz(2,3,5) by linarith
  have m: "sz mod 4 = 0" using sz(4) by (rule dvd_imp_mod_0)
  show ?thesis by (rule exI [of _ sz], intro conjI) (rule sz(1) sz(2) f m e)+
qed

theorem optimal_fragment_size_spec_witness:
  "\<exists>sz. optimal_fragment_size 1500 1000 = Some sz \<and> sz \<le> 1000"
  using optimal_fragment_size_spec [of 1000 1500] by auto

text \<open>
  The consistency test on unfragmented packets is incomplete: the masks for the sequence number and the
  fragment number are applied without shifting the fields down, so only the low eight bits of the
  header are tested, and a header of type FRAG_WHOLE with fragment number 31 is accepted.
\<close>

theorem whole_header_check_incomplete:
  "let b = \<lparr>b_capacity = 5, b_offset = 0, b_len = 5, b_data = Some (be32_bytes 0x7C00 @ [42])\<rparr> in
   uint (drop_bit FRAG_ID_SHIFT (0x7C00 :: u32) AND FRAG_ID_MASK) = 31
   \<and> map_option (\<lambda>(f, b). buf_content b) (fragment_incoming (fragment_init 0 0) b
        \<lparr>fm_payload_size = 1, fm_headroom = 4, fm_tailroom = 0, fm_mss_fix = 0, fm_max_fragment_size = 4,
         fm_tun_mtu = 1, fm_tun_max_mtu = 1, fm_extra_tun = 0\<rparr> 0) = Some [42]"
  by code_simp

end
