(* ===== verification/Schedule.thy ===== *)
theory Schedule
  imports Timing "HOL-Library.Tree" "HOL-Library.Stream" "HOL-Library.Product_Lexorder"
begin

text \<open>
  The event scheduler of schedule.c and schedule.h: a treap over entries that the callers own,
  linked by parent and child pointers, ordered by wakeup time and balanced by random priorities.

  The store \<open>sc_entries\<close> holds every entry of the callers; a pointer is its index in
  the store, \<open>None\<close> is NULL.  \<open>random()\<close> is the stream of its results.
  The debug functions and \<open>SCHEDULE_TEST\<close> are not part of the build.
\<close>

subsection \<open>State\<close>

record schedule_entry =
  se_tv :: timeval
  se_pri :: u32
  se_parent :: "nat option"
  se_lt :: "nat option"
  se_gt :: "nat option"

record schedule =
  sc_earliest_wakeup :: "nat option"
  sc_root :: "nat option"
  sc_entries :: "nat \<Rightarrow> schedule_entry"
  sc_random :: "u32 stream"

text \<open>Assignments through a pointer.\<close>

definition set_entry :: "nat \<Rightarrow> (schedule_entry \<Rightarrow> schedule_entry) \<Rightarrow> schedule \<Rightarrow> schedule" where
  "set_entry e f s = s\<lparr>sc_entries := (sc_entries s)(e := f (sc_entries s e))\<rparr>"

definition set_parent :: "nat option \<Rightarrow> nat option \<Rightarrow> schedule \<Rightarrow> schedule" where
  "set_parent p q s = (case p of None \<Rightarrow> s | Some e \<Rightarrow> set_entry e (se_parent_update (\<lambda>_. q)) s)"

definition schedule_set_pri :: "nat \<Rightarrow> schedule \<Rightarrow> schedule" where
  "schedule_set_pri e s =
     (let r = shd (sc_random s); s = s\<lparr>sc_random := stl (sc_random s)\<rparr>
      in set_entry e (se_pri_update (\<lambda>_. if r < 1 then 1 else r)) s)"

definition schedule_entry_compare :: "schedule_entry \<Rightarrow> schedule_entry \<Rightarrow> int" where
  "schedule_entry_compare e1 e2 =
     (if tv_sec (se_tv e1) < tv_sec (se_tv e2) then -1
      else if tv_sec (se_tv e1) > tv_sec (se_tv e2) then 1
      else if tv_usec (se_tv e1) < tv_usec (se_tv e2) then -1
      else if tv_usec (se_tv e1) > tv_usec (se_tv e2) then 1
      else if se_pri e1 < se_pri e2 then -1
      else if se_pri e1 > se_pri e2 then 1
      else 0)"

subsection \<open>Operations on the links\<close>

definition schedule_detach_parent :: "schedule \<Rightarrow> nat \<Rightarrow> schedule option" where
  "schedule_detach_parent s e =
     (case se_parent (sc_entries s e) of
        Some p \<Rightarrow> do {
          s \<leftarrow> (if se_lt (sc_entries s p) = Some e then Some (set_entry p (se_lt_update (\<lambda>_. None)) s)
               else if se_gt (sc_entries s p) = Some e then Some (set_entry p (se_gt_update (\<lambda>_. None)) s)
               else None);
          Some (set_parent (Some e) None s) }
      | None \<Rightarrow> Some (if sc_root s = Some e then s\<lparr>sc_root := None\<rparr> else s))"

definition schedule_rotate_up :: "schedule \<Rightarrow> nat \<Rightarrow> schedule option" where
  "schedule_rotate_up s e =
     (case se_parent (sc_entries s e) of
        None \<Rightarrow> Some s
      | Some p \<Rightarrow> do {
          let lt = se_lt (sc_entries s e);
          let gt = se_gt (sc_entries s e);
          let gp = se_parent (sc_entries s p);
          s \<leftarrow> (case gp of
                 Some g \<Rightarrow>
                   (if se_gt (sc_entries s g) = Some p then Some (set_entry g (se_gt_update (\<lambda>_. Some e)) s)
                    else if se_lt (sc_entries s g) = Some p then Some (set_entry g (se_lt_update (\<lambda>_. Some e)) s)
                    else None)
               | None \<Rightarrow> Some (s\<lparr>sc_root := Some e\<rparr>));
          let s = set_parent (Some e) gp s;
          let s = set_parent (Some p) (Some e) s;
          (if se_gt (sc_entries s p) = Some e
           then (let s = set_entry e (se_lt_update (\<lambda>_. Some p)) s;
                     s = set_entry p (se_gt_update (\<lambda>_. lt)) s
                 in Some (set_parent lt (Some p) s))
           else if se_lt (sc_entries s p) = Some e
           then (let s = set_entry e (se_gt_update (\<lambda>_. Some p)) s;
                     s = set_entry p (se_lt_update (\<lambda>_. gt)) s
                 in Some (set_parent gt (Some p) s))
           else None) })"

partial_function (option) remove_node_loop :: "schedule \<Rightarrow> nat \<Rightarrow> schedule option" where
  "remove_node_loop s e =
     (case (se_lt (sc_entries s e), se_gt (sc_entries s e)) of
        (None, None) \<Rightarrow> Some s
      | (Some l, Some g) \<Rightarrow> do {
          s \<leftarrow> schedule_rotate_up s (if se_pri (sc_entries s l) < se_pri (sc_entries s g) then l else g);
          remove_node_loop s e }
      | (Some l, None) \<Rightarrow> do { s \<leftarrow> schedule_rotate_up s l; remove_node_loop s e }
      | (None, Some g) \<Rightarrow> do { s \<leftarrow> schedule_rotate_up s g; remove_node_loop s e })"

definition schedule_remove_node :: "schedule \<Rightarrow> nat \<Rightarrow> schedule option" where
  "schedule_remove_node s e = do {
     s \<leftarrow> remove_node_loop s e;
     s \<leftarrow> schedule_detach_parent s e;
     Some (set_entry e (se_pri_update (\<lambda>_. 0)) s) }"

text \<open>The search of \<open>schedule_insert\<close> from node \<open>c\<close>; a collision of keys draws a new priority.\<close>

partial_function (option) insert_loop :: "schedule \<Rightarrow> nat \<Rightarrow> nat \<Rightarrow> schedule option" where
  "insert_loop s e c =
     (let comp = schedule_entry_compare (sc_entries s e) (sc_entries s c) in
      if comp = -1
      then (case se_lt (sc_entries s c) of
              Some c \<Rightarrow> insert_loop s e c
            | None \<Rightarrow> Some (set_parent (Some e) (Some c) (set_entry c (se_lt_update (\<lambda>_. Some e)) s)))
      else if comp = 1
      then (case se_gt (sc_entries s c) of
              Some c \<Rightarrow> insert_loop s e c
            | None \<Rightarrow> Some (set_parent (Some e) (Some c) (set_entry c (se_gt_update (\<lambda>_. Some e)) s)))
      else (case sc_root s of None \<Rightarrow> None | Some c \<Rightarrow> insert_loop (schedule_set_pri e s) e c))"

definition schedule_insert :: "schedule \<Rightarrow> nat \<Rightarrow> schedule option" where
  "schedule_insert s e = do { c \<leftarrow> sc_root s; insert_loop s e c }"

definition IN_TREE :: "schedule_entry \<Rightarrow> bool" where
  "IN_TREE e \<longleftrightarrow> se_pri e \<noteq> 0"

text \<open>The loop that moves a new node up.\<close>

partial_function (option) rotate_loop :: "schedule \<Rightarrow> nat \<Rightarrow> schedule option" where
  "rotate_loop s e =
     (case se_parent (sc_entries s e) of
        None \<Rightarrow> Some s
      | Some p \<Rightarrow>
          (if se_pri (sc_entries s p) > se_pri (sc_entries s e)
           then do { s \<leftarrow> schedule_rotate_up s e; rotate_loop s e }
           else Some s))"

definition schedule_add_modify :: "schedule \<Rightarrow> nat \<Rightarrow> schedule option" where
  "schedule_add_modify s e = do {
     s \<leftarrow> (if IN_TREE (sc_entries s e) then schedule_remove_node s e else Some s);
     let s = schedule_set_pri e s;
     s \<leftarrow> (if sc_root s \<noteq> None then schedule_insert s e else Some (s\<lparr>sc_root := Some e\<rparr>));
     rotate_loop s e }"

partial_function (option) schedule_find_least :: "schedule \<Rightarrow> nat \<Rightarrow> nat option" where
  "schedule_find_least s e = (case se_lt (sc_entries s e) of None \<Rightarrow> Some e | Some l \<Rightarrow> schedule_find_least s l)"

subsection \<open>The public functions\<close>

definition schedule_init :: "(nat \<Rightarrow> schedule_entry) \<Rightarrow> u32 stream \<Rightarrow> schedule" where
  "schedule_init entries rnd = \<lparr>sc_earliest_wakeup = None, sc_root = None, sc_entries = entries, sc_random = rnd\<rparr>"

definition schedule_remove_entry :: "schedule \<Rightarrow> nat \<Rightarrow> schedule option" where
  "schedule_remove_entry s e = schedule_remove_node (s\<lparr>sc_earliest_wakeup := None\<rparr>) e"

definition schedule_add_entry :: "schedule \<Rightarrow> nat \<Rightarrow> timeval \<Rightarrow> int \<Rightarrow> schedule option" where
  "schedule_add_entry s e tv sigma =
     (if \<not> IN_TREE (sc_entries s e) \<or> sigma = 0 \<or> \<not> tv_within_sigma tv (se_tv (sc_entries s e)) sigma
      then do {
        let s = set_entry e (se_tv_update (\<lambda>_. tv)) s;
        s \<leftarrow> schedule_add_modify s e;
        Some (s\<lparr>sc_earliest_wakeup := None\<rparr>) }
      else Some s)"

definition schedule_get_earliest_wakeup :: "schedule \<Rightarrow> (schedule \<times> (nat \<times> timeval) option) option" where
  "schedule_get_earliest_wakeup s = do {
     s \<leftarrow> (case sc_earliest_wakeup s of
            Some _ \<Rightarrow> Some s
          | None \<Rightarrow> (case sc_root s of
                      None \<Rightarrow> Some s
                    | Some r \<Rightarrow> do { l \<leftarrow> schedule_find_least s r; Some (s\<lparr>sc_earliest_wakeup := Some l\<rparr>) }));
     Some (s, map_option (\<lambda>e. (e, se_tv (sc_entries s e))) (sc_earliest_wakeup s)) }"

subsection \<open>The tree in the store\<close>

text \<open>
  \<open>tree_at h par p t\<close>: from the pointer \<open>p\<close> the store holds the tree \<open>t\<close> of indices, its root
  pointing back to \<open>par\<close>.  A path from the root to a subtree is a list of frames, the
  innermost first: \<open>LeftOf a r\<close> when the subtree is the left child of \<open>a\<close>, whose right subtree is \<open>r\<close>.
\<close>

fun tree_at :: "(nat \<Rightarrow> schedule_entry) \<Rightarrow> nat option \<Rightarrow> nat option \<Rightarrow> nat tree \<Rightarrow> bool" where
  "tree_at h par p Leaf = (p = None)"
| "tree_at h par p (Node l a r) = (p = Some a \<and> se_parent (h a) = par
     \<and> tree_at h (Some a) (se_lt (h a)) l \<and> tree_at h (Some a) (se_gt (h a)) r)"

datatype path_step = LeftOf nat "nat tree" | RightOf "nat tree" nat

fun top_node :: "path_step list \<Rightarrow> nat option" where
  "top_node [] = None"
| "top_node (LeftOf a r # fs) = Some a"
| "top_node (RightOf l a # fs) = Some a"

fun path_at :: "(nat \<Rightarrow> schedule_entry) \<Rightarrow> nat option \<Rightarrow> path_step list \<Rightarrow> nat option \<Rightarrow> bool" where
  "path_at h root [] p = (root = p)"
| "path_at h root (LeftOf a r # fs) p = (se_lt (h a) = p \<and> se_parent (h a) = top_node fs
     \<and> tree_at h (Some a) (se_gt (h a)) r \<and> path_at h root fs (Some a))"
| "path_at h root (RightOf l a # fs) p = (se_gt (h a) = p \<and> se_parent (h a) = top_node fs
     \<and> tree_at h (Some a) (se_lt (h a)) l \<and> path_at h root fs (Some a))"

fun plug :: "path_step list \<Rightarrow> nat tree \<Rightarrow> nat tree" where
  "plug [] t = t"
| "plug (LeftOf a r # fs) t = plug fs (Node t a r)"
| "plug (RightOf l a # fs) t = plug fs (Node l a t)"

fun before :: "path_step list \<Rightarrow> nat list" where
  "before [] = []"
| "before (LeftOf a r # fs) = before fs"
| "before (RightOf l a # fs) = before fs @ inorder l @ [a]"

fun after :: "path_step list \<Rightarrow> nat list" where
  "after [] = []"
| "after (LeftOf a r # fs) = a # inorder r @ after fs"
| "after (RightOf l a # fs) = after fs"

text \<open>A subtree in its place: at its pointer, below its path.\<close>

definition focus :: "schedule \<Rightarrow> path_step list \<Rightarrow> nat tree \<Rightarrow> bool" where
  "focus s fs t \<longleftrightarrow> distinct (before fs @ inorder t @ after fs)
     \<and> (\<exists>p. tree_at (sc_entries s) (top_node fs) p t \<and> path_at (sc_entries s) (sc_root s) fs p)"

lemma inorder_plug: "inorder (plug fs t) = before fs @ inorder t @ after fs"
  by (induction fs t rule: plug.induct) simp_all

lemma tree_at_frame: "(\<And>a. a \<in> set (inorder t) \<Longrightarrow> h' a = h a) \<Longrightarrow> tree_at h' par p t = tree_at h par p t"
  by (induction t arbitrary: par p) auto

lemma path_at_frame:
  "(\<And>a. a \<in> set (before fs) \<union> set (after fs) \<Longrightarrow> h' a = h a) \<Longrightarrow> path_at h' root fs p = path_at h root fs p"
proof (induction fs arbitrary: p)
  case (Cons f fs)
  have path: "path_at h' root fs q = path_at h root fs q" for q using Cons by (cases f) auto
  show ?case
  proof (cases f)
    case (LeftOf a r)
    then have "tree_at h' q q' r = tree_at h q q' r" for q q' using Cons.prems by (intro tree_at_frame) auto
    then show ?thesis using LeftOf Cons.prems path by simp
  next
    case (RightOf l a)
    then have "tree_at h' q q' l = tree_at h q q' l" for q q' using Cons.prems by (intro tree_at_frame) auto
    then show ?thesis using RightOf Cons.prems path by simp
  qed
qed simp

text \<open>Moving the focus.\<close>

lemma focus_left: "focus s fs (Node l a r) \<longleftrightarrow> focus s (LeftOf a r # fs) l"
  by (auto simp: focus_def)

lemma focus_right: "focus s fs (Node l a r) \<longleftrightarrow> focus s (RightOf l a # fs) r"
  by (auto simp: focus_def)

lemma focus_plug: "focus s fs t \<longleftrightarrow> focus s [] (plug fs t)"
  by (induction fs t rule: plug.induct) (simp_all add: focus_left [symmetric] focus_right [symmetric])

lemma plug_split:
  assumes "a \<in> set_tree t"
  shows "\<exists>fs l r. t = plug fs (Node l a r)"
proof -
  have "\<exists>gs l r. plug fs t = plug gs (Node l a r)" for fs
    using assms
  proof (induction t arbitrary: fs)
    case (Node l b r)
    then consider "a = b" | "a \<in> set_tree l" | "a \<in> set_tree r" by auto
    then show ?case
    proof cases
      case 2 then show ?thesis using Node.IH(1) [of "LeftOf b r # fs"] by simp
    next
      case 3 then show ?thesis using Node.IH(2) [of "RightOf l b # fs"] by simp
    qed blast
  qed simp
  from this [of "[]"] show ?thesis by simp
qed


subsection \<open>Rotation\<close>

lemma set_entry_simps [simp]:
  "sc_entries (set_entry e f s) = (sc_entries s)(e := f (sc_entries s e))" "sc_root (set_entry e f s) = sc_root s"
  "sc_earliest_wakeup (set_entry e f s) = sc_earliest_wakeup s" "sc_random (set_entry e f s) = sc_random s"
  by (simp_all add: set_entry_def)

lemma set_parent_simps [simp]:
  "sc_root (set_parent p q s) = sc_root s" "sc_earliest_wakeup (set_parent p q s) = sc_earliest_wakeup s"
  "sc_random (set_parent p q s) = sc_random s" "set_parent (Some e) q s = set_entry e (se_parent_update (\<lambda>_. q)) s"
  "sc_entries (set_parent p q s) a = (if p = Some a then (sc_entries s a)\<lparr>se_parent := q\<rparr> else sc_entries s a)"
  by (simp_all add: set_parent_def split: option.split)

text \<open>What the operations on links do not change.\<close>

definition same_keys :: "schedule \<Rightarrow> schedule \<Rightarrow> bool" where
  "same_keys s s' \<longleftrightarrow> (\<forall>a. se_tv (sc_entries s' a) = se_tv (sc_entries s a) \<and> se_pri (sc_entries s' a) = se_pri (sc_entries s a))
     \<and> sc_earliest_wakeup s' = sc_earliest_wakeup s \<and> sc_random s' = sc_random s"

text \<open>The entries outside the tree are left alone.\<close>

definition same_outside :: "nat set \<Rightarrow> schedule \<Rightarrow> schedule \<Rightarrow> bool" where
  "same_outside A s s' \<longleftrightarrow> (\<forall>a. a \<notin> A \<longrightarrow> sc_entries s' a = sc_entries s a)"

lemma same_keys_refl [simp]: "same_keys s s" by (simp add: same_keys_def)
lemma same_keys_trans: "same_keys s t \<Longrightarrow> same_keys t u \<Longrightarrow> same_keys s u" by (simp add: same_keys_def)
lemma same_outside_refl [simp]: "same_outside A s s" by (simp add: same_outside_def)
lemma same_outside_trans: "same_outside A s t \<Longrightarrow> same_outside A t u \<Longrightarrow> same_outside A s u" by (simp add: same_outside_def)

lemma tree_at_root: "tree_at h par (Some c) t \<Longrightarrow> \<exists>l r. t = Node l c r"
  by (cases t) auto

lemma tree_at_None: "tree_at h par None t \<Longrightarrow> t = Leaf"
  by (cases t) auto

text \<open>The pointer to a subtree is its root, and changing the parent of the root moves the subtree.\<close>

lemma tree_at_reparent:
  assumes "tree_at h par p t" "distinct (inorder t)" "\<And>a. a \<in> set (inorder t) \<Longrightarrow> p \<noteq> Some a \<Longrightarrow> h' a = h a"
    "\<And>a. p = Some a \<Longrightarrow> h' a = (h a)\<lparr>se_parent := q\<rparr>"
  shows "tree_at h' q p t"
proof (cases t)
  case (Node l a r)
  have "h' b = h b" if "b \<in> set (inorder l) \<union> set (inorder r)" for b
  proof -
    have "p \<noteq> Some b" using assms(1,2) Node that by auto
    then show ?thesis using assms(3) [of b] Node that by auto
  qed
  then have "tree_at h' (Some a) x l = tree_at h (Some a) x l" "tree_at h' (Some a) x r = tree_at h (Some a) x r" for x
    by (auto intro!: tree_at_frame)
  then show ?thesis using assms(1,4) Node by simp
qed (use assms in simp)

text \<open>The link above: \<open>schedule_rotate_up\<close> makes the grandparent or the root point to the new child.\<close>

definition relink :: "nat option \<Rightarrow> nat \<Rightarrow> nat \<Rightarrow> schedule \<Rightarrow> schedule option" where
  "relink gp p e s = (case gp of
      Some g \<Rightarrow> (if se_gt (sc_entries s g) = Some p then Some (set_entry g (se_gt_update (\<lambda>_. Some e)) s)
                 else if se_lt (sc_entries s g) = Some p then Some (set_entry g (se_lt_update (\<lambda>_. Some e)) s)
                 else None)
    | None \<Rightarrow> Some (s\<lparr>sc_root := Some e\<rparr>))"

lemma relink_law:
  assumes path: "path_at (sc_entries s) (sc_root s) fs (Some p)" and d: "distinct (before fs @ p # after fs)"
  obtains s1 where "relink (top_node fs) p e s = Some s1" "same_keys s s1"
    "path_at (sc_entries s1) (sc_root s1) fs (Some e)"
    "\<And>a. top_node fs \<noteq> Some a \<Longrightarrow> sc_entries s1 a = sc_entries s a"
    "\<And>a. se_parent (sc_entries s1 a) = se_parent (sc_entries s a)"
proof (cases fs)
  case Nil
  show ?thesis by (rule that [of "s\<lparr>sc_root := Some e\<rparr>"]) (simp_all add: Nil relink_def same_keys_def)
next
  case (Cons f gs)
  show ?thesis
  proof (cases f)
    case (LeftOf g r)
    let ?s = "set_entry g (se_lt_update (\<lambda>_. Some e)) s"
    have "se_gt (sc_entries s g) \<noteq> Some p"
    proof
      assume "se_gt (sc_entries s g) = Some p"
      then obtain l' r' where "r = Node l' p r'" using path tree_at_root unfolding Cons LeftOf path_at.simps by metis
      then show False using d Cons LeftOf by simp
    qed
    then have "relink (top_node fs) p e s = Some ?s" using path by (simp add: Cons LeftOf relink_def)
    moreover have "tree_at (sc_entries ?s) q x r = tree_at (sc_entries s) q x r" for q x
      using d by (intro tree_at_frame) (auto simp: Cons LeftOf)
    moreover have "path_at (sc_entries ?s) (sc_root s) gs (Some g) = path_at (sc_entries s) (sc_root s) gs (Some g)"
      using d by (intro path_at_frame) (auto simp: Cons LeftOf)
    ultimately show ?thesis using path by (intro that [of ?s]) (auto simp: Cons LeftOf same_keys_def)
  next
    case (RightOf l g)
    let ?s = "set_entry g (se_gt_update (\<lambda>_. Some e)) s"
    have "relink (top_node fs) p e s = Some ?s" using path by (simp add: Cons RightOf relink_def)
    moreover have "tree_at (sc_entries ?s) q x l = tree_at (sc_entries s) q x l" for q x
      using d by (intro tree_at_frame) (auto simp: Cons RightOf)
    moreover have "path_at (sc_entries ?s) (sc_root s) gs (Some g) = path_at (sc_entries s) (sc_root s) gs (Some g)"
      using d by (intro path_at_frame) (auto simp: Cons RightOf)
    ultimately show ?thesis using path by (intro that [of ?s]) (auto simp: Cons RightOf same_keys_def)
  qed
qed


lemma rotate_up_relink:
  "schedule_rotate_up s e = (case se_parent (sc_entries s e) of
     None \<Rightarrow> Some s
   | Some p \<Rightarrow> do {
       let lt = se_lt (sc_entries s e);
       let gt = se_gt (sc_entries s e);
       let gp = se_parent (sc_entries s p);
       s \<leftarrow> relink gp p e s;
       let s = set_parent (Some p) (Some e) (set_parent (Some e) gp s);
       (if se_gt (sc_entries s p) = Some e
        then Some (set_parent lt (Some p) (set_entry p (se_gt_update (\<lambda>_. lt)) (set_entry e (se_lt_update (\<lambda>_. Some p)) s)))
        else if se_lt (sc_entries s p) = Some e
        then Some (set_parent gt (Some p) (set_entry p (se_lt_update (\<lambda>_. gt)) (set_entry e (se_gt_update (\<lambda>_. Some p)) s)))
        else None) })"
  by (simp add: schedule_rotate_up_def relink_def Let_def split: option.split)

lemma child_of:
  assumes "tree_at h par p t" "c \<notin> set_tree t" shows "p \<noteq> Some c"
  using assms by (cases t) auto

lemma focus_entries:
  assumes "focus s fs t" "a \<in> set_tree t" shows "top_node fs \<noteq> Some a"
proof -
  have "top_node fs = Some a \<Longrightarrow> a \<in> set (before fs) \<union> set (after fs)" by (cases fs rule: top_node.cases) auto
  then show ?thesis using assms by (auto simp: focus_def)
qed

lemma top_node_in: "top_node fs = Some a \<Longrightarrow> a \<in> set (before fs) \<union> set (after fs)"
  by (cases fs rule: top_node.cases) auto

text \<open>
  The part of a rotation common to both sides: the subtree \<open>m\<close> at the pointer \<open>q\<close> changes its
  parent from \<open>c\<close> to \<open>a\<close>, the subtrees \<open>u\<close> and \<open>v\<close> stay, and \<open>c\<close> takes the place of \<open>a\<close>.
\<close>

lemma moved_law:
  assumes d: "distinct (before fs @ inorder u @ inorder v @ inorder m @ a # c # after fs)"
    and keep: "\<And>x. top_node fs \<noteq> Some x \<Longrightarrow> h1 x = h x"
    and m: "tree_at h (Some c) q m" and path: "path_at h1 root fs (Some c)"
    and h': "\<And>x. x \<noteq> c \<Longrightarrow> x \<noteq> a \<Longrightarrow> h' x = (if q = Some x then (h1 x)\<lparr>se_parent := Some a\<rparr> else h1 x)"
  shows "tree_at h' p p' u = tree_at h p p' u" "tree_at h' p p' v = tree_at h p p' v" "tree_at h' (Some a) q m"
    "path_at h' root fs (Some c)"
    "x \<notin> set (before fs) \<union> set_tree u \<union> set_tree v \<union> set_tree m \<union> {a, c} \<union> set (after fs) \<Longrightarrow> h' x = h x"
proof -
  have q: "q \<noteq> Some x" if "x \<notin> set_tree m" for x by (rule child_of [OF m that])
  have top: "top_node fs \<noteq> Some x" if "x \<notin> set (before fs) \<union> set (after fs)" for x using top_node_in that by blast
  have uv: "h' x = h x" if "x \<in> set_tree u \<union> set_tree v" for x
  proof -
    have "x \<noteq> c" "x \<noteq> a" "x \<notin> set_tree m" "x \<notin> set (before fs) \<union> set (after fs)" using d that by auto
    then show ?thesis using h' q keep top by simp
  qed
  then show "tree_at h' p p' u = tree_at h p p' u" "tree_at h' p p' v = tree_at h p p' v" by (auto intro!: tree_at_frame)
  have mm: "h' x = (if q = Some x then (h x)\<lparr>se_parent := Some a\<rparr> else h x)" if "x \<in> set_tree m" for x
  proof -
    have "x \<noteq> c" "x \<noteq> a" "x \<notin> set (before fs) \<union> set (after fs)" using d that by auto
    then show ?thesis using h' keep top by simp
  qed
  show "tree_at h' (Some a) q m"
  proof (rule tree_at_reparent [OF m])
    show "distinct (inorder m)" using d by simp
    fix x assume "q = Some x"
    moreover have "x \<in> set_tree m" using q [of x] \<open>q = Some x\<close> by blast
    ultimately show "h' x = (h x)\<lparr>se_parent := Some a\<rparr>" using mm by simp
  qed (use mm in auto)
  have "h' x = h1 x" if "x \<in> set (before fs) \<union> set (after fs)" for x
  proof -
    have "x \<noteq> c" "x \<noteq> a" "x \<notin> set_tree m" using d that by auto
    then show ?thesis using h' q by simp
  qed
  then have "path_at h' root fs (Some c) = path_at h1 root fs (Some c)" by (intro path_at_frame)
  then show "path_at h' root fs (Some c)" using path by simp
  assume x: "x \<notin> set (before fs) \<union> set_tree u \<union> set_tree v \<union> set_tree m \<union> {a, c} \<union> set (after fs)"
  have "q \<noteq> Some x" "top_node fs \<noteq> Some x" by (rule q, use x in simp) (rule top, use x in simp)
  then show "h' x = h x" using h' [of x] keep [of x] x by simp
qed

lemma set_tree_plug: "set_tree (plug fs t) = set (before fs) \<union> set_tree t \<union> set (after fs)"
proof -
  have "set (inorder (plug fs t)) = set (before fs) \<union> set_tree t \<union> set (after fs)" by (simp add: inorder_plug Un_assoc)
  then show ?thesis by simp
qed

lemma rotate_left_law:
  assumes f: "focus s (LeftOf a ra # fs) (Node l c r)"
  obtains s' where "schedule_rotate_up s c = Some s'" "focus s' fs (Node l c (Node r a ra))" "same_keys s s'"
    "same_outside (set_tree (plug fs (Node l c (Node r a ra)))) s s'"
proof -
  let ?h = "sc_entries s"
  have d: "distinct (before fs @ (inorder l @ c # inorder r @ a # inorder ra) @ after fs)" using f by (simp add: focus_def)
  have c: "se_parent (?h c) = Some a" "se_lt (?h a) = Some c" "tree_at ?h (Some c) (se_lt (?h c)) l" "tree_at ?h (Some c) (se_gt (?h c)) r"
    and a: "se_parent (?h a) = top_node fs" "tree_at ?h (Some a) (se_gt (?h a)) ra" "path_at ?h (sc_root s) fs (Some a)"
    using f by (auto simp: focus_def)
  obtain s1 where s1: "relink (top_node fs) a c s = Some s1" "same_keys s s1" "path_at (sc_entries s1) (sc_root s1) fs (Some c)"
    "\<And>x. top_node fs \<noteq> Some x \<Longrightarrow> sc_entries s1 x = ?h x"
    by (rule relink_law [OF a(3), of c]) (use d in auto)
  have ca: "sc_entries s1 c = ?h c" "sc_entries s1 a = ?h a" "c \<noteq> a" using s1(4) top_node_in [of fs] d by force+
  have gt: "se_gt (?h a) \<noteq> Some c" by (rule child_of [OF a(2)]) (use d in auto)
  define s' where "s' = set_parent (se_gt (?h c)) (Some a) (set_entry a (se_lt_update (\<lambda>_. se_gt (?h c))) (set_entry c (se_gt_update (\<lambda>_. Some a))
      (set_parent (Some a) (Some c) (set_parent (Some c) (top_node fs) s1))))"
  have run: "schedule_rotate_up s c = Some s'"
    using ca gt c(1,2) a(1) s1(1) by (simp add: rotate_up_relink s'_def Let_def)
  have gc: "se_gt (?h c) \<noteq> Some c" "se_gt (?h c) \<noteq> Some a" by (rule child_of [OF c(4)]; use d in auto)+
  have h': "sc_entries s' c = (?h c)\<lparr>se_parent := top_node fs, se_gt := Some a\<rparr>"
      "sc_entries s' a = (?h a)\<lparr>se_parent := Some c, se_lt := se_gt (?h c)\<rparr>"
      "\<And>x. x \<noteq> c \<Longrightarrow> x \<noteq> a \<Longrightarrow> sc_entries s' x = (if se_gt (?h c) = Some x then (sc_entries s1 x)\<lparr>se_parent := Some a\<rparr> else sc_entries s1 x)"
    using ca gc by (auto simp: s'_def)
  have d': "distinct (before fs @ inorder l @ inorder ra @ inorder r @ a # c # after fs)" using d by auto
  note moved = moved_law [OF d' s1(4) c(4) s1(3) h'(3)]
  have "tree_at (sc_entries s') (top_node fs) (Some c) (Node l c (Node r a ra))"
    using c a h' moved(1-3) by simp
  moreover have "sc_root s' = sc_root s1" by (simp add: s'_def)
  ultimately have "focus s' fs (Node l c (Node r a ra))" using d moved(4) by (auto simp: focus_def)
  moreover have "same_keys s s'" using s1(2) by (auto simp: same_keys_def s'_def)
  moreover have "same_outside (set_tree (plug fs (Node l c (Node r a ra)))) s s'"
    using moved(5) by (auto simp: same_outside_def set_tree_plug)
  ultimately show ?thesis using that run by blast
qed

lemma rotate_right_law:
  assumes f: "focus s (RightOf la a # fs) (Node l c r)"
  obtains s' where "schedule_rotate_up s c = Some s'" "focus s' fs (Node (Node la a l) c r)" "same_keys s s'"
    "same_outside (set_tree (plug fs (Node (Node la a l) c r))) s s'"
proof -
  let ?h = "sc_entries s"
  have d: "distinct (before fs @ (inorder la @ a # inorder l @ c # inorder r) @ after fs)" using f by (simp add: focus_def)
  have c: "se_parent (?h c) = Some a" "se_gt (?h a) = Some c" "tree_at ?h (Some c) (se_gt (?h c)) r" "tree_at ?h (Some c) (se_lt (?h c)) l"
    and a: "se_parent (?h a) = top_node fs" "tree_at ?h (Some a) (se_lt (?h a)) la" "path_at ?h (sc_root s) fs (Some a)"
    using f by (auto simp: focus_def)
  obtain s1 where s1: "relink (top_node fs) a c s = Some s1" "same_keys s s1" "path_at (sc_entries s1) (sc_root s1) fs (Some c)"
    "\<And>x. top_node fs \<noteq> Some x \<Longrightarrow> sc_entries s1 x = ?h x"
    by (rule relink_law [OF a(3), of c]) (use d in auto)
  have ca: "sc_entries s1 c = ?h c" "sc_entries s1 a = ?h a" "c \<noteq> a" using s1(4) top_node_in [of fs] d by force+
  define s' where "s' = set_parent (se_lt (?h c)) (Some a) (set_entry a (se_gt_update (\<lambda>_. se_lt (?h c))) (set_entry c (se_lt_update (\<lambda>_. Some a))
      (set_parent (Some a) (Some c) (set_parent (Some c) (top_node fs) s1))))"
  have run: "schedule_rotate_up s c = Some s'"
    using ca c(1,2) a(1) s1(1) by (simp add: rotate_up_relink s'_def Let_def)
  have lc: "se_lt (?h c) \<noteq> Some c" "se_lt (?h c) \<noteq> Some a" by (rule child_of [OF c(4)]; use d in auto)+
  have h': "sc_entries s' c = (?h c)\<lparr>se_parent := top_node fs, se_lt := Some a\<rparr>"
      "sc_entries s' a = (?h a)\<lparr>se_parent := Some c, se_gt := se_lt (?h c)\<rparr>"
      "\<And>x. x \<noteq> c \<Longrightarrow> x \<noteq> a \<Longrightarrow> sc_entries s' x = (if se_lt (?h c) = Some x then (sc_entries s1 x)\<lparr>se_parent := Some a\<rparr> else sc_entries s1 x)"
    using ca lc by (auto simp: s'_def)
  have d': "distinct (before fs @ inorder la @ inorder r @ inorder l @ a # c # after fs)" using d by auto
  note moved = moved_law [OF d' s1(4) c(4) s1(3) h'(3)]
  have "tree_at (sc_entries s') (top_node fs) (Some c) (Node (Node la a l) c r)"
    using c a h' moved(1-3) by simp
  moreover have "sc_root s' = sc_root s1" by (simp add: s'_def)
  ultimately have "focus s' fs (Node (Node la a l) c r)" using d moved(4) by (auto simp: focus_def)
  moreover have "same_keys s s'" using s1(2) by (auto simp: same_keys_def s'_def)
  moreover have "same_outside (set_tree (plug fs (Node (Node la a l) c r))) s s'"
    using moved(5) by (auto simp: same_outside_def set_tree_plug)
  ultimately show ?thesis using that run by blast
qed


subsection \<open>The order of priorities\<close>

text \<open>
  The heap order of the tree, except that the nodes in \<open>E\<close> may stand above and the nodes in \<open>F\<close>
  below any other node.
\<close>

fun heap_but :: "(nat \<Rightarrow> u32) \<Rightarrow> nat set \<Rightarrow> nat set \<Rightarrow> nat tree \<Rightarrow> bool" where
  "heap_but P E F Leaf = True"
| "heap_but P E F (Node l a r) = ((a \<notin> E \<longrightarrow> (\<forall>x \<in> set_tree l \<union> set_tree r - F. P a \<le> P x)) \<and> heap_but P E F l \<and> heap_but P E F r)"

lemma heap_plug_part: "heap_but P E F (plug fs t) \<Longrightarrow> heap_but P E F t"
  by (induction fs t rule: plug.induct) auto

lemma heap_plug_mono:
  "heap_but P E F (plug fs t) \<Longrightarrow> heap_but P E F t' \<Longrightarrow> set_tree t' \<subseteq> set_tree t \<union> F \<Longrightarrow> heap_but P E F (plug fs t')"
proof (induction fs t arbitrary: t' rule: plug.induct)
  case (2 a r fs t)
  have "heap_but P E F (Node t a r)" using 2(2) unfolding plug.simps by (rule heap_plug_part)
  then have "heap_but P E F (Node t' a r)" using 2(3,4) by auto
  then have "heap_but P E F (plug fs (Node t' a r))" by (rule 2(1) [OF 2(2) [unfolded plug.simps]]) (use 2(4) in auto)
  then show ?case by simp
next
  case (3 l a fs t)
  have "heap_but P E F (Node l a t)" using 3(2) unfolding plug.simps by (rule heap_plug_part)
  then have "heap_but P E F (Node l a t')" using 3(3,4) by auto
  then have "heap_but P E F (plug fs (Node l a t'))" by (rule 3(1) [OF 3(2) [unfolded plug.simps]]) (use 3(4) in auto)
  then show ?case by simp
qed simp

lemma heap_but_mono: "heap_but P E F t \<Longrightarrow> E \<subseteq> E' \<Longrightarrow> F \<subseteq> F' \<Longrightarrow> heap_but P E' F' t"
  by (induction t) auto

lemma heap_but_absent: "set_tree t \<inter> (E \<union> F) = {} \<Longrightarrow> heap_but P E F t \<Longrightarrow> heap_but P {} {} t"
  by (induction t) auto

lemma heap_but_lower:
  "heap_but P {} {e} (plug fs t) \<Longrightarrow> distinct (inorder (plug fs t)) \<Longrightarrow> heap_but P {} {} t \<Longrightarrow> e \<in> set_tree t
    \<Longrightarrow> a \<in> set_tree t \<Longrightarrow> a \<noteq> e \<Longrightarrow> P a \<le> P e \<Longrightarrow> heap_but P {} {} (plug fs t)"
proof (induction fs t rule: plug.induct)
  case (2 b r fs t)
  have b: "heap_but P {} {e} (Node t b r)" using 2(2) unfolding plug.simps by (rule heap_plug_part)
  have "e \<notin> set_tree r" using 2(3,5) by (auto simp: inorder_plug)
  then have "heap_but P {} {} r" using b by (auto intro: heap_but_absent [of r "{}" "{e}"])
  moreover have "P b \<le> P a" using b 2(6,7) by auto
  then have "P b \<le> P e" using 2(8) by (rule order_trans)
  ultimately have "heap_but P {} {} (Node t b r)" using b 2(4) by auto
  then have "heap_but P {} {} (plug fs (Node t b r))"
    by (rule 2(1) [OF 2(2,3) [unfolded plug.simps]]) (use 2(5-8) in auto)
  then show ?case by simp
next
  case (3 l b fs t)
  have b: "heap_but P {} {e} (Node l b t)" using 3(2) unfolding plug.simps by (rule heap_plug_part)
  have "e \<notin> set_tree l" using 3(3,5) by (auto simp: inorder_plug)
  then have "heap_but P {} {} l" using b by (auto intro: heap_but_absent [of l "{}" "{e}"])
  moreover have "P b \<le> P a" using b 3(6,7) by auto
  then have "P b \<le> P e" using 3(8) by (rule order_trans)
  ultimately have "heap_but P {} {} (Node l b t)" using b 3(4) by auto
  then have "heap_but P {} {} (plug fs (Node l b t))"
    by (rule 3(1) [OF 3(2,3) [unfolded plug.simps]]) (use 3(5-8) in auto)
  then show ?case by simp
qed simp

definition root_ptr :: "nat tree \<Rightarrow> nat option" where
  "root_ptr t = (case t of Leaf \<Rightarrow> None | Node l a r \<Rightarrow> Some a)"

lemma tree_at_root_ptr: "tree_at h par p t \<Longrightarrow> p = root_ptr t"
  by (cases t) (auto simp: root_ptr_def)

lemma focus_links:
  assumes "focus s fs (Node l a r)"
  shows "se_lt (sc_entries s a) = root_ptr l" "se_gt (sc_entries s a) = root_ptr r" "se_parent (sc_entries s a) = top_node fs"
  using assms by (auto simp: focus_def dest: tree_at_root_ptr)

lemma focus_root: "focus s fs t \<Longrightarrow> sc_root s = root_ptr (plug fs t)"
  by (subst (asm) focus_plug) (auto simp: focus_def dest: tree_at_root_ptr)

definition pri :: "schedule \<Rightarrow> nat \<Rightarrow> u32" where
  "pri s a = se_pri (sc_entries s a)"

lemma same_keys_pri: "same_keys s s' \<Longrightarrow> pri s' = pri s"
  by (simp add: same_keys_def pri_def fun_eq_iff)

subsection \<open>Removal\<close>

definition removing :: "nat \<Rightarrow> schedule \<Rightarrow> path_step list \<Rightarrow> nat tree \<Rightarrow> nat tree \<Rightarrow> bool" where
  "removing e s fs l r \<longleftrightarrow> focus s fs (Node l e r) \<and> heap_but (pri s) {e} {e} (plug fs (Node l e r))"

lemma remove_step_left:
  assumes rem: "removing e s fs (Node ll c lr) r" and least: "\<And>g. root_ptr r = Some g \<Longrightarrow> pri s c \<le> pri s g"
  shows "\<exists>s'. schedule_rotate_up s c = Some s' \<and> removing e s' (RightOf ll c # fs) lr r \<and> same_keys s s'
    \<and> same_outside (set_tree (plug fs (Node (Node ll c lr) e r))) s s'"
proof -
  let ?t = "Node (Node ll c lr) e r"
  have f: "focus s (LeftOf e r # fs) (Node ll c lr)" and h: "heap_but (pri s) {e} {e} (plug fs ?t)"
    using rem by (auto simp: removing_def focus_left)
  have d: "distinct (inorder ?t)" using rem by (auto simp: removing_def focus_def)
  obtain s' where s': "schedule_rotate_up s c = Some s'" "focus s' fs (Node ll c (Node lr e r))" "same_keys s s'"
    "same_outside (set_tree (plug fs (Node ll c (Node lr e r)))) s s'"
    by (rule rotate_left_law [OF f])
  have ht: "heap_but (pri s) {e} {e} ?t" using h by (rule heap_plug_part)
  have "pri s c \<le> pri s x" if "x \<in> set_tree r" for x
  proof (cases r)
    case (Node rl g rr)
    then have "pri s c \<le> pri s g" "g \<noteq> e" "x \<noteq> e" using least d that by (auto simp: root_ptr_def)
    moreover have "x = g \<or> pri s g \<le> pri s x" using ht that Node calculation(2,3) by auto
    ultimately show ?thesis by auto
  qed (use that in simp)
  then have "heap_but (pri s) {e} {e} (Node ll c (Node lr e r))" using ht by auto
  then have "heap_but (pri s') {e} {e} (plug fs (Node ll c (Node lr e r)))"
    unfolding same_keys_pri [OF s'(3)] by (rule heap_plug_mono [OF h]) auto
  then have "removing e s' (RightOf ll c # fs) lr r" using s'(2) by (simp add: removing_def focus_right)
  moreover have "set_tree (plug fs (Node ll c (Node lr e r))) = set_tree (plug fs ?t)" by (auto simp: set_tree_plug)
  ultimately show ?thesis using s' by simp
qed

lemma remove_step_right:
  assumes rem: "removing e s fs l (Node rl c rr)" and least: "\<And>g. root_ptr l = Some g \<Longrightarrow> pri s c \<le> pri s g"
  shows "\<exists>s'. schedule_rotate_up s c = Some s' \<and> removing e s' (LeftOf c rr # fs) l rl \<and> same_keys s s'
    \<and> same_outside (set_tree (plug fs (Node l e (Node rl c rr)))) s s'"
proof -
  let ?t = "Node l e (Node rl c rr)"
  have f: "focus s (RightOf l e # fs) (Node rl c rr)" and h: "heap_but (pri s) {e} {e} (plug fs ?t)"
    using rem by (auto simp: removing_def focus_right)
  have d: "distinct (inorder ?t)" using rem by (auto simp: removing_def focus_def)
  obtain s' where s': "schedule_rotate_up s c = Some s'" "focus s' fs (Node (Node l e rl) c rr)" "same_keys s s'"
    "same_outside (set_tree (plug fs (Node (Node l e rl) c rr))) s s'"
    by (rule rotate_right_law [OF f])
  have ht: "heap_but (pri s) {e} {e} ?t" using h by (rule heap_plug_part)
  have "pri s c \<le> pri s x" if "x \<in> set_tree l" for x
  proof (cases l)
    case (Node ll g lr)
    then have "pri s c \<le> pri s g" "g \<noteq> e" "x \<noteq> e" using least d that by (auto simp: root_ptr_def)
    moreover have "x = g \<or> pri s g \<le> pri s x" using ht that Node calculation(2,3) by auto
    ultimately show ?thesis by auto
  qed (use that in simp)
  then have "heap_but (pri s) {e} {e} (Node (Node l e rl) c rr)" using ht by auto
  then have "heap_but (pri s') {e} {e} (plug fs (Node (Node l e rl) c rr))"
    unfolding same_keys_pri [OF s'(3)] by (rule heap_plug_mono [OF h]) auto
  then have "removing e s' (LeftOf c rr # fs) l rl" using s'(2) by (simp add: removing_def focus_left)
  moreover have "set_tree (plug fs (Node (Node l e rl) c rr)) = set_tree (plug fs ?t)" by (auto simp: set_tree_plug)
  ultimately show ?thesis using s' by simp
qed


lemma remove_loop_law:
  "removing e s fs l r \<Longrightarrow> \<exists>s' gs. remove_node_loop s e = Some s' \<and> removing e s' gs Leaf Leaf
     \<and> inorder (plug gs (Node Leaf e Leaf)) = inorder (plug fs (Node l e r)) \<and> same_keys s s'
     \<and> same_outside (set_tree (plug fs (Node l e r))) s s'"
proof (induction "size l + size r" arbitrary: s fs l r rule: less_induct)
  case less
  note links = focus_links [of s fs l e r]
  have f: "focus s fs (Node l e r)" using less.prems by (simp add: removing_def)
  have step: ?case
    if n: "size l' + size r' < size l + size r" and rm: "removing e s1 gs l' r'" and run: "remove_node_loop s e = remove_node_loop s1 e"
      and k: "same_keys s s1" and o: "same_outside (set_tree (plug fs (Node l e r))) s s1"
      and i: "inorder (plug gs (Node l' e r')) = inorder (plug fs (Node l e r))" for s1 gs l' r'
  proof -
    obtain s' hs where s': "remove_node_loop s1 e = Some s'" "removing e s' hs Leaf Leaf" "same_keys s1 s'"
        "inorder (plug hs (Node Leaf e Leaf)) = inorder (plug gs (Node l' e r'))"
        "same_outside (set_tree (plug gs (Node l' e r'))) s1 s'"
      using less.hyps [OF n rm] by blast
    have "set_tree (plug gs (Node l' e r')) = set_tree (plug fs (Node l e r))" using arg_cong [OF i, of set] by simp
    then show ?thesis using s' run i same_keys_trans [OF k s'(3)] same_outside_trans [OF o] by auto
  qed
  have left: ?case if t: "l = Node ll c lr" and le: "\<And>g. root_ptr r = Some g \<Longrightarrow> pri s c \<le> pri s g"
      and run: "remove_node_loop s e = schedule_rotate_up s c \<bind> (\<lambda>s. remove_node_loop s e)" for ll c lr
  proof -
    obtain s1 where "schedule_rotate_up s c = Some s1" "removing e s1 (RightOf ll c # fs) lr r" "same_keys s s1"
        "same_outside (set_tree (plug fs (Node (Node ll c lr) e r))) s s1"
      using remove_step_left [OF less.prems [unfolded t] le] by blast
    then show ?thesis using t run by (intro step [of lr r s1 "RightOf ll c # fs"]) (auto simp: inorder_plug)
  qed
  have right: ?case if t: "r = Node rl c rr" and le: "\<And>g. root_ptr l = Some g \<Longrightarrow> pri s c \<le> pri s g"
      and run: "remove_node_loop s e = schedule_rotate_up s c \<bind> (\<lambda>s. remove_node_loop s e)" for rl c rr
  proof -
    obtain s1 where "schedule_rotate_up s c = Some s1" "removing e s1 (LeftOf c rr # fs) l rl" "same_keys s s1"
        "same_outside (set_tree (plug fs (Node l e (Node rl c rr)))) s s1"
      using remove_step_right [OF less.prems [unfolded t] le] by blast
    then show ?thesis using t run by (intro step [of l rl s1 "LeftOf c rr # fs"]) (auto simp: inorder_plug)
  qed
  show ?case
  proof (cases l)
    case Leaf
    show ?thesis
    proof (cases r)
      case Leaf
      have "remove_node_loop s e = Some s"
        using links [OF f] \<open>l = Leaf\<close> Leaf by (subst remove_node_loop.simps) (simp add: root_ptr_def)
      then show ?thesis using less.prems \<open>l = Leaf\<close> Leaf by auto
    next
      case (Node rl c rr)
      then show ?thesis using links [OF f] \<open>l = Leaf\<close>
        by (intro right) (auto simp: root_ptr_def remove_node_loop.simps [of s e])
    qed
  next
    case (Node ll c lr)
    show ?thesis
    proof (cases r)
      case Leaf
      then show ?thesis using links [OF f] Node
        by (intro left) (auto simp: root_ptr_def remove_node_loop.simps [of s e])
    next
      case (Node rl g rr)
      show ?thesis
      proof (cases "pri s c < pri s g")
        case True
        then show ?thesis using links [OF f] Node \<open>l = Node ll c lr\<close>
          by (intro left) (auto simp: root_ptr_def pri_def remove_node_loop.simps [of s e])
      next
        case False
        then show ?thesis using links [OF f] Node \<open>l = Node ll c lr\<close>
          by (intro right) (auto simp: root_ptr_def pri_def remove_node_loop.simps [of s e])
      qed
    qed
  qed
qed

lemma detach_law:
  assumes f: "focus s fs (Node Leaf e Leaf)"
  obtains s' where "schedule_detach_parent s e = Some s'" "focus s' fs Leaf" "same_keys s s'"
    "same_outside (set_tree (plug fs (Node Leaf e Leaf))) s s'"
    "sc_entries s' e = (sc_entries s e)\<lparr>se_parent := None, se_lt := None, se_gt := None\<rparr>"
proof -
  let ?h = "sc_entries s"
  have d: "distinct (before fs @ e # after fs)" and e: "se_lt (?h e) = None" "se_gt (?h e) = None" "se_parent (?h e) = top_node fs"
    using f focus_links [OF f] by (auto simp: focus_def root_ptr_def)
  have ee: "(?h e)\<lparr>se_parent := None, se_lt := None, se_gt := None\<rparr> = (?h e)\<lparr>se_parent := None\<rparr>"
    using e by (cases "?h e") simp
  show ?thesis
  proof (cases fs)
    case Nil
    have "sc_root s = Some e" using focus_root [OF f] Nil by (simp add: root_ptr_def)
    moreover have "?h e = (?h e)\<lparr>se_parent := None\<rparr>" using e Nil by (cases "?h e") simp
    ultimately show ?thesis using e Nil ee
      by (intro that [of "s\<lparr>sc_root := None\<rparr>"]) (auto simp: schedule_detach_parent_def focus_def same_keys_def same_outside_def)
  next
    case (Cons g gs)
    show ?thesis
    proof (cases g)
      case (LeftOf p r)
      let ?s = "set_parent (Some e) None (set_entry p (se_lt_update (\<lambda>_. None)) s)"
      have pe: "p \<noteq> e" using d Cons LeftOf by auto
      have fr: "sc_entries ?s x = ?h x" if "x \<noteq> p" "x \<noteq> e" for x using that by simp
      have "tree_at (sc_entries ?s) (Some p) (se_gt (?h p)) r"
        using f d Cons LeftOf by (subst tree_at_frame [where h = ?h]) (auto simp: focus_def intro!: fr)
      moreover have "path_at (sc_entries ?s) (sc_root s) gs (Some p)"
        using f d Cons LeftOf by (subst path_at_frame [where h = ?h]) (auto simp: focus_def intro!: fr)
      moreover have "schedule_detach_parent s e = Some ?s"
        using f e Cons LeftOf by (auto simp: schedule_detach_parent_def focus_def)
      ultimately show ?thesis using f e Cons LeftOf pe d ee
        by (intro that [of ?s]) (auto simp: focus_def same_keys_def same_outside_def set_tree_plug)
    next
      case (RightOf l p)
      let ?s = "set_parent (Some e) None (set_entry p (se_gt_update (\<lambda>_. None)) s)"
      have pe: "p \<noteq> e" using d Cons RightOf by auto
      have fr: "sc_entries ?s x = ?h x" if "x \<noteq> p" "x \<noteq> e" for x using that by simp
      have l: "tree_at ?h (Some p) (se_lt (?h p)) l" using f Cons RightOf by (auto simp: focus_def)
      have "tree_at (sc_entries ?s) (Some p) (se_lt (?h p)) l"
        using l d Cons RightOf by (subst tree_at_frame [where h = ?h]) (auto intro!: fr)
      moreover have "path_at (sc_entries ?s) (sc_root s) gs (Some p)"
        using f d Cons RightOf by (subst path_at_frame [where h = ?h]) (auto simp: focus_def intro!: fr)
      moreover have "se_lt (?h p) \<noteq> Some e" by (rule child_of [OF l]) (use d Cons RightOf in auto)
      moreover have "schedule_detach_parent s e = Some ?s"
        using f e Cons RightOf calculation(3) by (auto simp: schedule_detach_parent_def focus_def)
      ultimately show ?thesis using f e Cons RightOf pe d ee
        by (intro that [of ?s]) (auto simp: focus_def same_keys_def same_outside_def set_tree_plug)
    qed
  qed
qed


lemma focus_frame:
  assumes "focus s fs t" "sc_root s' = sc_root s" "\<And>a. a \<in> set_tree (plug fs t) \<Longrightarrow> sc_entries s' a = sc_entries s a"
  shows "focus s' fs t"
proof -
  have "tree_at (sc_entries s') q p t = tree_at (sc_entries s) q p t" for q p
    using assms(3) by (intro tree_at_frame) (simp add: set_tree_plug)
  moreover have "path_at (sc_entries s') (sc_root s) fs p = path_at (sc_entries s) (sc_root s) fs p" for p
    using assms(3) by (intro path_at_frame) (auto simp: set_tree_plug)
  ultimately show ?thesis using assms(1,2) by (simp add: focus_def)
qed

lemma heap_but_cong: "(\<And>a. a \<in> set_tree t \<Longrightarrow> P a = Q a) \<Longrightarrow> heap_but P E F t = heap_but Q E F t"
  by (induction t) auto

text \<open>The treap in the store, and an entry that is not part of it.\<close>

definition treap :: "schedule \<Rightarrow> nat tree \<Rightarrow> bool" where
  "treap s t \<longleftrightarrow> focus s [] t \<and> heap_but (pri s) {} {} t"

definition unlinked :: "schedule_entry \<Rightarrow> bool" where
  "unlinked en \<longleftrightarrow> se_parent en = None \<and> se_lt en = None \<and> se_gt en = None"

text \<open>An operation on entry \<open>e\<close>: the keys of the other entries and the entries outside \<open>A\<close> stay.\<close>

definition touches :: "nat \<Rightarrow> nat set \<Rightarrow> schedule \<Rightarrow> schedule \<Rightarrow> bool" where
  "touches e A s s' \<longleftrightarrow> (\<forall>a. a \<noteq> e \<longrightarrow> se_tv (sc_entries s' a) = se_tv (sc_entries s a) \<and> se_pri (sc_entries s' a) = se_pri (sc_entries s a))
     \<and> se_tv (sc_entries s' e) = se_tv (sc_entries s e) \<and> sc_earliest_wakeup s' = sc_earliest_wakeup s
     \<and> same_outside (insert e A) s s' \<and> (\<exists>n. sc_random s' = sdrop n (sc_random s))"

lemma touchesI: "same_keys s s' \<Longrightarrow> same_outside A s s' \<Longrightarrow> A \<subseteq> insert e B \<Longrightarrow> touches e B s s'"
  unfolding touches_def same_keys_def same_outside_def by (auto intro!: exI [of _ 0])

lemma touches_trans: "touches e A s t \<Longrightarrow> touches e A t u \<Longrightarrow> touches e A s u"
  unfolding touches_def same_outside_def by (auto simp: sdrop_add)

lemma touches_pri: "touches e A s (set_entry e (se_pri_update (\<lambda>_. p)) s)"
  unfolding touches_def same_outside_def by (auto intro!: exI [of _ 0])

lemma touches_mono: "touches e A s s' \<Longrightarrow> A \<subseteq> insert e B \<Longrightarrow> touches e B s s'"
  unfolding touches_def same_outside_def by blast

lemma remove_node_law:
  assumes t: "treap s t" and e: "e \<in> set_tree t"
  obtains s' t' where "schedule_remove_node s e = Some s'" "treap s' t'" "inorder t' = filter (\<lambda>x. x \<noteq> e) (inorder t)"
    "unlinked (sc_entries s' e)" "se_pri (sc_entries s' e) = 0" "touches e (set_tree t) s s'" "sc_random s' = sc_random s"
proof -
  obtain fs l r where p: "t = plug fs (Node l e r)" using plug_split [OF e] by blast
  have "removing e s fs l r"
    using t heap_but_mono [of "pri s" "{}" "{}" t "{e}" "{e}"] by (simp add: removing_def treap_def p focus_plug [of s fs])
  then obtain s1 gs where s1: "remove_node_loop s e = Some s1" "removing e s1 gs Leaf Leaf" "same_keys s s1"
    "inorder (plug gs (Node Leaf e Leaf)) = inorder t" "same_outside (set_tree t) s s1"
    using remove_loop_law p by blast
  have f1: "focus s1 gs (Node Leaf e Leaf)" using s1(2) by (simp add: removing_def)
  obtain s2 where s2: "schedule_detach_parent s1 e = Some s2" "focus s2 gs Leaf" "same_keys s1 s2"
    "same_outside (set_tree (plug gs (Node Leaf e Leaf))) s1 s2"
    "sc_entries s2 e = (sc_entries s1 e)\<lparr>se_parent := None, se_lt := None, se_gt := None\<rparr>"
    by (rule detach_law [OF f1])
  let ?s = "set_entry e (se_pri_update (\<lambda>_. 0)) s2" let ?t = "plug gs Leaf"
  have d: "distinct (before gs @ e # after gs)" using f1 by (simp add: focus_def)
  then have et: "e \<notin> set_tree ?t" by (auto simp: set_tree_plug)
  have "focus ?s gs Leaf" by (rule focus_frame [OF s2(2)]) (use et in auto)
  moreover have "heap_but (pri ?s) {} {} ?t"
  proof -
    have "heap_but (pri s1) {e} {e} (plug gs (Node Leaf e Leaf))" using s1(2) by (simp add: removing_def)
    then have "heap_but (pri s1) {e} {e} ?t" by (rule heap_plug_mono) auto
    then have "heap_but (pri s1) {} {} ?t" using et by (intro heap_but_absent [of _ "{e}" "{e}"]) auto
    then show ?thesis using et same_keys_pri [OF s2(3)]
      by (subst heap_but_cong [where Q = "pri s1"]) (auto simp: pri_def fun_eq_iff)
  qed
  ultimately have "treap ?s ?t" by (simp add: treap_def focus_plug [of _ gs])
  moreover have "inorder ?t = filter (\<lambda>x. x \<noteq> e) (inorder t)"
  proof -
    have "filter (\<lambda>x. x \<noteq> e) (before gs) = before gs" "filter (\<lambda>x. x \<noteq> e) (after gs) = after gs" using d by (auto simp: filter_id_conv)
    then show ?thesis unfolding s1(4) [symmetric] by (simp add: inorder_plug)
  qed
  moreover have "touches e (set_tree t) s ?s"
  proof -
    have "set_tree (plug gs (Node Leaf e Leaf)) = set_tree t" using arg_cong [OF s1(4), of set] by simp
    then have "same_outside (set_tree t) s s2" using s1(5) s2(4) same_outside_trans by simp
    then have "touches e (set_tree t) s s2" by (rule touchesI [OF same_keys_trans [OF s1(3) s2(3)]]) auto
    then show ?thesis by (rule touches_trans) (rule touches_pri)
  qed
  moreover have "sc_random ?s = sc_random s" using s1(3) s2(3) by (simp add: same_keys_def)
  moreover have "schedule_remove_node s e = Some ?s" using s1(1) s2(1) by (simp add: schedule_remove_node_def)
  ultimately show ?thesis using s2(5) by (intro that [of ?s ?t]) (simp_all add: unlinked_def)
qed

subsection \<open>Insertion\<close>

definition key :: "schedule \<Rightarrow> nat \<Rightarrow> timeval \<times> u32" where
  "key s a = (se_tv (sc_entries s a), se_pri (sc_entries s a))"

abbreviation in_order :: "schedule \<Rightarrow> nat list \<Rightarrow> bool" where
  "in_order s \<equiv> sorted_wrt (\<lambda>a b. key s a < key s b)"

lemma timeval_less: "(s :: timeval) < t \<longleftrightarrow> tv_sec s < tv_sec t \<or> tv_sec s = tv_sec t \<and> tv_usec s < tv_usec t"
  unfolding less_le_not_le timeval_le by auto

lemma key_less:
  "key s a < key s b \<longleftrightarrow> se_tv (sc_entries s a) < se_tv (sc_entries s b)
     \<or> se_tv (sc_entries s a) = se_tv (sc_entries s b) \<and> se_pri (sc_entries s a) < se_pri (sc_entries s b)"
  by (auto simp: key_def)

lemma compare_key:
  "schedule_entry_compare (sc_entries s a) (sc_entries s b) = (if key s a < key s b then -1 else if key s b < key s a then 1 else 0)"
proof -
  have eq: "x = y \<longleftrightarrow> tv_sec x = tv_sec y \<and> tv_usec x = tv_usec y" for x y :: timeval by (cases x; cases y) simp
  show ?thesis
    unfolding schedule_entry_compare_def key_less timeval_less eq
    by (cases "tv_sec (se_tv (sc_entries s a))" "tv_sec (se_tv (sc_entries s b))" rule: linorder_cases;
        cases "tv_usec (se_tv (sc_entries s a))" "tv_usec (se_tv (sc_entries s b))" rule: linorder_cases) simp_all
qed

lemma same_keys_key: "same_keys s s' \<Longrightarrow> key s' = key s"
  by (simp add: same_keys_def key_def fun_eq_iff)

lemma attach_left:
  assumes f: "focus s fs (Node Leaf c r)" and e: "e \<notin> set_tree (plug fs (Node Leaf c r))" "se_lt (sc_entries s e) = None" "se_gt (sc_entries s e) = None"
  defines "s' \<equiv> set_parent (Some e) (Some c) (set_entry c (se_lt_update (\<lambda>_. Some e)) s)"
  shows "focus s' (LeftOf c r # fs) (Node Leaf e Leaf)" "same_keys s s'" "same_outside (insert e (set_tree (plug fs (Node Leaf c r)))) s s'"
proof -
  have ec: "e \<noteq> c" and d: "distinct (before fs @ c # inorder r @ after fs)" using e f by (auto simp: set_tree_plug focus_def)
  have fr: "sc_entries s' x = sc_entries s x" if "x \<in> set_tree (plug fs r)" for x
  proof -
    have "x \<noteq> e" "x \<noteq> c" using e d that by (auto simp: set_tree_plug)
    then show ?thesis by (simp add: s'_def)
  qed
  have "tree_at (sc_entries s') q p r = tree_at (sc_entries s) q p r" for q p
    by (intro tree_at_frame fr) (simp add: set_tree_plug)
  moreover have "path_at (sc_entries s') (sc_root s) fs p = path_at (sc_entries s) (sc_root s) fs p" for p
    by (intro path_at_frame fr) (auto simp: set_tree_plug)
  ultimately show "focus s' (LeftOf c r # fs) (Node Leaf e Leaf)"
    using f e ec by (auto simp: focus_def s'_def set_tree_plug)
  show "same_keys s s'" by (simp add: same_keys_def s'_def)
  show "same_outside (insert e (set_tree (plug fs (Node Leaf c r)))) s s'" by (auto simp: same_outside_def s'_def set_tree_plug)
qed

lemma attach_right:
  assumes f: "focus s fs (Node l c Leaf)" and e: "e \<notin> set_tree (plug fs (Node l c Leaf))" "se_lt (sc_entries s e) = None" "se_gt (sc_entries s e) = None"
  defines "s' \<equiv> set_parent (Some e) (Some c) (set_entry c (se_gt_update (\<lambda>_. Some e)) s)"
  shows "focus s' (RightOf l c # fs) (Node Leaf e Leaf)" "same_keys s s'" "same_outside (insert e (set_tree (plug fs (Node l c Leaf)))) s s'"
proof -
  have ec: "e \<noteq> c" and d: "distinct (before fs @ c # inorder l @ after fs)" using e f by (auto simp: set_tree_plug focus_def)
  have fr: "sc_entries s' x = sc_entries s x" if "x \<in> set_tree (plug fs l)" for x
  proof -
    have "x \<noteq> e" "x \<noteq> c" using e d that by (auto simp: set_tree_plug)
    then show ?thesis by (simp add: s'_def)
  qed
  have "tree_at (sc_entries s') q p l = tree_at (sc_entries s) q p l" for q p
    by (intro tree_at_frame fr) (simp add: set_tree_plug)
  moreover have "path_at (sc_entries s') (sc_root s) fs p = path_at (sc_entries s) (sc_root s) fs p" for p
    by (intro path_at_frame fr) (auto simp: set_tree_plug)
  ultimately show "focus s' (RightOf l c # fs) (Node Leaf e Leaf)"
    using f e ec by (auto simp: focus_def s'_def set_tree_plug)
  show "same_keys s s'" by (simp add: same_keys_def s'_def)
  show "same_outside (insert e (set_tree (plug fs (Node l c Leaf)))) s s'" by (auto simp: same_outside_def s'_def set_tree_plug)
qed


definition attached :: "nat \<Rightarrow> nat tree \<Rightarrow> schedule \<Rightarrow> schedule \<Rightarrow> bool" where
  "attached e t s s' \<longleftrightarrow> (\<exists>gs. focus s' gs (Node Leaf e Leaf) \<and> plug gs Leaf = t \<and> same_keys s s'
     \<and> same_outside (insert e (set_tree t)) s s'
     \<and> (\<forall>a \<in> set (before gs). key s a < key s e) \<and> (\<forall>a \<in> set (after gs). key s e < key s a))"

lemma insert_loop_law:
  assumes e: "e \<notin> set_tree (plug fs t)" "se_lt (sc_entries s e) = None" "se_gt (sc_entries s e) = None"
    and f: "focus s fs t" "root_ptr t = Some c" "in_order s (inorder t)"
    and k: "\<forall>a \<in> set (before fs). key s a < key s e" "\<forall>a \<in> set (after fs). key s e < key s a"
  shows "if key s e \<in> key s ` set_tree t
    then insert_loop s e c = (case sc_root s of None \<Rightarrow> None | Some c \<Rightarrow> insert_loop (schedule_set_pri e s) e c)
    else \<exists>s'. insert_loop s e c = Some s' \<and> attached e (plug fs t) s s'"
  using assms
proof (induction t arbitrary: fs c)
  case (Node l b r)
  have b: "b = c" using Node.prems(5) by (simp add: root_ptr_def)
  note links = focus_links [OF Node.prems(4)]
  have ord: "in_order s (inorder l)" "in_order s (inorder r)" "\<forall>a \<in> set_tree l. key s a < key s c" "\<forall>a \<in> set_tree r. key s c < key s a"
    using Node.prems(6) b by (auto simp: sorted_wrt_append)
  consider (lt) "key s e < key s c" | (gt) "key s c < key s e" | (eq) "key s e = key s c" by (rule linorder_cases [of "key s e" "key s c"]) auto
  then show ?case
  proof cases
    case lt
    have mem: "key s e \<in> key s ` set_tree (Node l b r) \<longleftrightarrow> key s e \<in> key s ` set_tree l"
      using lt ord(4) b by (auto simp: image_iff dest: order.strict_trans)
    show ?thesis
    proof (cases l)
      case Leaf
      have "insert_loop s e c = Some (set_parent (Some e) (Some c) (set_entry c (se_lt_update (\<lambda>_. Some e)) s))"
        using lt links(1) Leaf b by (subst insert_loop.simps) (simp add: compare_key root_ptr_def)
      moreover have "\<forall>a \<in> set (after (LeftOf c r # fs)). key s e < key s a"
        using lt ord(4) Node.prems(8) by (auto dest: order.strict_trans)
      ultimately show ?thesis
        using attach_left [of s fs c r e] Node.prems(1-4,7) Leaf b mem
        by (auto simp: attached_def intro!: exI [of _ "LeftOf c r # fs"])
    next
      case (Node ll d lr)
      have "insert_loop s e c = insert_loop s e d"
        using lt links(1) Node b by (subst insert_loop.simps) (simp add: compare_key root_ptr_def)
      moreover have "\<forall>a \<in> set (after (LeftOf c r # fs)). key s e < key s a"
        using lt ord(4) Node.prems(8) by (auto dest: order.strict_trans)
      ultimately show ?thesis
        using Node.IH(1) [of "LeftOf c r # fs" d] Node.prems(1-4,7) ord(1) Node b
        unfolding mem focus_left by (simp add: root_ptr_def cong: if_cong)
    qed
  next
    case gt
    have mem: "key s e \<in> key s ` set_tree (Node l b r) \<longleftrightarrow> key s e \<in> key s ` set_tree r"
      using gt ord(3) b by (auto simp: image_iff dest: order.strict_trans)
    show ?thesis
    proof (cases r)
      case Leaf
      have "insert_loop s e c = Some (set_parent (Some e) (Some c) (set_entry c (se_gt_update (\<lambda>_. Some e)) s))"
        using gt less_not_sym [OF gt] links(2) Leaf b by (subst insert_loop.simps) (simp add: compare_key root_ptr_def)
      moreover have "\<forall>a \<in> set (before (RightOf l c # fs)). key s a < key s e"
        using gt ord(3) Node.prems(7) by (auto dest: order.strict_trans)
      ultimately show ?thesis
        using attach_right [of s fs l c e] Node.prems(1-4,8) Leaf b mem
        by (auto simp: attached_def intro!: exI [of _ "RightOf l c # fs"])
    next
      case (Node rl d rr)
      have "insert_loop s e c = insert_loop s e d"
        using gt less_not_sym [OF gt] links(2) Node b by (subst insert_loop.simps) (simp add: compare_key root_ptr_def)
      moreover have "\<forall>a \<in> set (before (RightOf l c # fs)). key s a < key s e"
        using gt ord(3) Node.prems(7) by (auto dest: order.strict_trans)
      ultimately show ?thesis
        using Node.IH(2) [of "RightOf l c # fs" d] Node.prems(1-4,8) ord(2) Node b
        unfolding mem focus_right by (simp add: root_ptr_def cong: if_cong)
    qed
  next
    case eq
    then have "insert_loop s e c = (case sc_root s of None \<Rightarrow> None | Some c \<Rightarrow> insert_loop (schedule_set_pri e s) e c)"
      by (subst insert_loop.simps) (simp add: compare_key)
    then show ?thesis using eq b by simp
  qed
qed (simp add: root_ptr_def)


text \<open>The priority that \<open>schedule_set_pri\<close> takes from a draw.\<close>

definition drawn :: "u32 \<Rightarrow> u32" where
  "drawn r = (if r < 1 then 1 else r)"

lemma set_pri_simps [simp]:
  "sc_root (schedule_set_pri e s) = sc_root s" "sc_earliest_wakeup (schedule_set_pri e s) = sc_earliest_wakeup s"
  "sc_random (schedule_set_pri e s) = stl (sc_random s)"
  "sc_entries (schedule_set_pri e s) a = (if a = e then (sc_entries s e)\<lparr>se_pri := drawn (shd (sc_random s))\<rparr> else sc_entries s a)"
  by (simp_all add: schedule_set_pri_def Let_def drawn_def set_entry_def)

lemma drawn_nonzero [simp]: "drawn r \<noteq> 0"
  by (cases "r = 0") (auto simp: drawn_def)

lemma touches_set_pri: "touches e A s (schedule_set_pri e s)"
  unfolding touches_def same_outside_def by (auto intro!: exI [of _ 1])

definition joined :: "nat \<Rightarrow> nat tree \<Rightarrow> schedule \<Rightarrow> bool" where
  "joined e t s \<longleftrightarrow> (\<exists>gs. focus s gs (Node Leaf e Leaf) \<and> plug gs Leaf = t \<and> in_order s (before gs @ e # after gs))
     \<and> se_pri (sc_entries s e) \<noteq> 0"

lemma attached_joined:
  assumes "attached e t s s'" "in_order s (inorder t)" "se_pri (sc_entries s e) \<noteq> 0"
  shows "joined e t s'"
proof -
  obtain gs where gs: "focus s' gs (Node Leaf e Leaf)" "plug gs Leaf = t" "same_keys s s'"
      "\<forall>a \<in> set (before gs). key s a < key s e" "\<forall>a \<in> set (after gs). key s e < key s a"
    using assms(1) by (auto simp: attached_def)
  have "inorder t = before gs @ after gs" using gs(2) inorder_plug [of gs Leaf] by simp
  then have "in_order s' (before gs @ e # after gs)"
    using assms(2) gs(4,5) same_keys_key [OF gs(3)] by (auto simp: sorted_wrt_append)
  then show ?thesis using gs assms(3) by (auto simp: joined_def same_keys_def)
qed

text \<open>One draw: it ends the insertion, or the insertion starts again with the next draw.\<close>

lemma insert_once:
  assumes t: "focus s [] t" "t \<noteq> Leaf" "in_order s (inorder t)" and e: "e \<notin> set_tree t" "unlinked (sc_entries s e)"
  defines "s0 \<equiv> schedule_set_pri e s"
  shows "if (se_tv (sc_entries s e), drawn (shd (sc_random s))) \<in> key s ` set_tree t
    then schedule_insert s0 e = schedule_insert (schedule_set_pri e s0) e
    else \<exists>s'. schedule_insert s0 e = Some s' \<and> joined e t s' \<and> touches e (set_tree t) s s'"
    "focus s0 [] t" "in_order s0 (inorder t)" "key s0 ` set_tree t = key s ` set_tree t"
proof -
  obtain c where c: "root_ptr t = Some c" using t(2) by (cases t) (auto simp: root_ptr_def)
  have keys: "key s0 a = key s a" if "a \<in> set_tree t" for a using that e(1) by (auto simp: key_def s0_def)
  then show im: "key s0 ` set_tree t = key s ` set_tree t" by simp
  show f: "focus s0 [] t" by (rule focus_frame [OF t(1)]) (use e(1) in \<open>auto simp: s0_def\<close>)
  show o: "in_order s0 (inorder t)" using t(3) keys by (auto elim!: sorted_wrt_mono_rel [rotated])
  have e0: "e \<notin> set_tree (plug [] t)" "se_lt (sc_entries s0 e) = None" "se_gt (sc_entries s0 e) = None"
    using e by (simp_all add: unlinked_def s0_def)
  have root: "sc_root s0 = Some c" using focus_root [OF t(1)] c by (simp add: s0_def)
  have ke: "key s0 e = (se_tv (sc_entries s e), drawn (shd (sc_random s)))" by (simp add: key_def s0_def)
  note law = insert_loop_law [OF e0 f c o, simplified, unfolded im ke root option.case]
  show "if (se_tv (sc_entries s e), drawn (shd (sc_random s))) \<in> key s ` set_tree t
    then schedule_insert s0 e = schedule_insert (schedule_set_pri e s0) e
    else \<exists>s'. schedule_insert s0 e = Some s' \<and> joined e t s' \<and> touches e (set_tree t) s s'"
  proof (cases "(se_tv (sc_entries s e), drawn (shd (sc_random s))) \<in> key s ` set_tree t")
    case True
    then show ?thesis using law root by (simp add: schedule_insert_def)
  next
    case False
    then obtain s' where s': "insert_loop s0 e c = Some s'" "attached e t s0 s'" using law by auto
    have "joined e t s'" by (rule attached_joined [OF s'(2) o]) (simp add: s0_def)
    moreover have "touches e (set_tree t) s0 s'" using s'(2) by (intro touchesI [where A = "insert e (set_tree t)"]) (auto simp: attached_def)
    then have "touches e (set_tree t) s s'" unfolding s0_def by (rule touches_trans [OF touches_set_pri])
    ultimately show ?thesis using s'(1) False root by (simp add: schedule_insert_def)
  qed
qed

text \<open>
  When some later draw gives a priority that no entry of the tree with the same time has, the
  insertion ends.
\<close>

lemma insert_law:
  assumes t: "t \<noteq> Leaf" "e \<notin> set_tree t"
  shows "focus s [] t \<Longrightarrow> in_order s (inorder t) \<Longrightarrow> unlinked (sc_entries s e)
    \<Longrightarrow> (se_tv (sc_entries s e), drawn (sc_random s !! n)) \<notin> key s ` set_tree t
    \<Longrightarrow> \<exists>s'. schedule_insert (schedule_set_pri e s) e = Some s' \<and> joined e t s' \<and> touches e (set_tree t) s s'"
proof (induction n arbitrary: s)
  case 0
  then show ?case using insert_once(1) [OF 0(1) t(1) 0(2) t(2) 0(3)] by simp
next
  case (Suc n)
  note once = insert_once [OF Suc.prems(1) t(1) Suc.prems(2) t(2) Suc.prems(3)]
  let ?s = "schedule_set_pri e s"
  show ?case
  proof (cases "(se_tv (sc_entries s e), drawn (shd (sc_random s))) \<in> key s ` set_tree t")
    case True
    have "unlinked (sc_entries ?s e)" using Suc.prems(3) by (simp add: unlinked_def)
    moreover have "(se_tv (sc_entries ?s e), drawn (sc_random ?s !! n)) \<notin> key ?s ` set_tree t"
      using Suc.prems(4) once(4) by simp
    ultimately obtain s' where s': "schedule_insert (schedule_set_pri e ?s) e = Some s'" "joined e t s'" "touches e (set_tree t) ?s s'"
      using Suc.IH [OF once(2,3)] by blast
    moreover have "schedule_insert ?s e = schedule_insert (schedule_set_pri e ?s) e" using once(1) True by simp
    ultimately show ?thesis using touches_trans [OF touches_set_pri s'(3)] by auto
  next
    case False
    then show ?thesis using once(1) by simp
  qed
qed

text \<open>Moving the new node up.\<close>

definition raising :: "nat \<Rightarrow> schedule \<Rightarrow> path_step list \<Rightarrow> nat tree \<Rightarrow> nat tree \<Rightarrow> bool" where
  "raising e s fs l r \<longleftrightarrow> focus s fs (Node l e r) \<and> heap_but (pri s) {} {e} (plug fs (Node l e r))"

lemma raise_step:
  assumes r: "raising e s (f # fs) l r" and p: "top_node (f # fs) = Some p" "pri s e < pri s p"
  shows "\<exists>s' l' r'. schedule_rotate_up s e = Some s' \<and> raising e s' fs l' r' \<and> same_keys s s'
    \<and> inorder (plug fs (Node l' e r')) = inorder (plug (f # fs) (Node l e r))
    \<and> same_outside (set_tree (plug (f # fs) (Node l e r))) s s'"
proof (cases f)
  case (LeftOf a ra)
  have a: "a = p" using p LeftOf by simp
  have f: "focus s (LeftOf a ra # fs) (Node l e r)" and h: "heap_but (pri s) {} {e} (plug fs (Node (Node l e r) a ra))"
    using r LeftOf by (auto simp: raising_def)
  let ?t = "Node l e (Node r a ra)"
  obtain s' where s': "schedule_rotate_up s e = Some s'" "focus s' fs ?t" "same_keys s s'" "same_outside (set_tree (plug fs ?t)) s s'"
    by (rule rotate_left_law [OF f])
  have ht: "heap_but (pri s) {} {e} (Node (Node l e r) a ra)" using h by (rule heap_plug_part)
  have "\<forall>x \<in> set_tree ra - {e}. pri s a \<le> pri s x" using ht by auto
  then have "\<forall>x \<in> set_tree ra - {e}. pri s e \<le> pri s x" using p(2) a by (meson less_imp_le order_trans)
  then have "heap_but (pri s) {} {e} ?t" using ht p(2) a by auto
  then have "heap_but (pri s) {} {e} (plug fs ?t)" by (rule heap_plug_mono [OF h]) auto
  then have "raising e s' fs l (Node r a ra)" using s'(2) same_keys_pri [OF s'(3)] by (simp add: raising_def)
  moreover have "inorder (plug fs ?t) = inorder (plug (f # fs) (Node l e r))" by (simp add: inorder_plug LeftOf)
  moreover from arg_cong [OF this, of set] have "set_tree (plug fs ?t) = set_tree (plug (f # fs) (Node l e r))" by simp
  ultimately show ?thesis using s' by metis
next
  case (RightOf la a)
  have a: "a = p" using p RightOf by simp
  have f: "focus s (RightOf la a # fs) (Node l e r)" and h: "heap_but (pri s) {} {e} (plug fs (Node la a (Node l e r)))"
    using r RightOf by (auto simp: raising_def)
  let ?t = "Node (Node la a l) e r"
  obtain s' where s': "schedule_rotate_up s e = Some s'" "focus s' fs ?t" "same_keys s s'" "same_outside (set_tree (plug fs ?t)) s s'"
    by (rule rotate_right_law [OF f])
  have ht: "heap_but (pri s) {} {e} (Node la a (Node l e r))" using h by (rule heap_plug_part)
  have "\<forall>x \<in> set_tree la - {e}. pri s a \<le> pri s x" using ht by auto
  then have "\<forall>x \<in> set_tree la - {e}. pri s e \<le> pri s x" using p(2) a by (meson less_imp_le order_trans)
  then have "heap_but (pri s) {} {e} ?t" using ht p(2) a by auto
  then have "heap_but (pri s) {} {e} (plug fs ?t)" by (rule heap_plug_mono [OF h]) auto
  then have "raising e s' fs (Node la a l) r" using s'(2) same_keys_pri [OF s'(3)] by (simp add: raising_def)
  moreover have "inorder (plug fs ?t) = inorder (plug (f # fs) (Node l e r))" by (simp add: inorder_plug RightOf)
  moreover from arg_cong [OF this, of set] have "set_tree (plug fs ?t) = set_tree (plug (f # fs) (Node l e r))" by simp
  ultimately show ?thesis using s' by metis
qed


lemma raise_stop:
  assumes r: "raising e s (g # gs) l r" and p: "top_node (g # gs) = Some p" and stop: "\<not> pri s e < pri s p"
  shows "heap_but (pri s) {} {} (plug (g # gs) (Node l e r))"
proof -
  have f: "focus s (g # gs) (Node l e r)" and h: "heap_but (pri s) {} {e} (plug (g # gs) (Node l e r))"
    using r by (auto simp: raising_def)
  have d: "distinct (inorder (plug (g # gs) (Node l e r)))" using f by (simp only: focus_def inorder_plug)
  obtain t where t: "plug (g # gs) (Node l e r) = plug gs t" "e \<in> set_tree t" "p \<in> set_tree t" "p \<noteq> e" "heap_but (pri s) {} {} t"
  proof (cases g)
    case (LeftOf a ra)
    have hp: "heap_but (pri s) {} {e} (Node (Node l e r) a ra)" using h unfolding LeftOf plug.simps by (rule heap_plug_part)
    have "set_tree l \<inter> {e} = {}" "set_tree r \<inter> {e} = {}" "set_tree ra \<inter> {e} = {}" "a \<noteq> e"
      using d LeftOf by (auto simp: inorder_plug)
    moreover have "pri s a \<le> pri s e" using stop p LeftOf by simp
    ultimately have "heap_but (pri s) {} {} (Node (Node l e r) a ra)"
      using hp heap_but_absent [of l "{}" "{e}" "pri s"] heap_but_absent [of r "{}" "{e}" "pri s"] heap_but_absent [of ra "{}" "{e}" "pri s"]
      by auto
    then show ?thesis using that [of "Node (Node l e r) a ra"] LeftOf p \<open>a \<noteq> e\<close> by simp
  next
    case (RightOf la a)
    have hp: "heap_but (pri s) {} {e} (Node la a (Node l e r))" using h unfolding RightOf plug.simps by (rule heap_plug_part)
    have "set_tree l \<inter> {e} = {}" "set_tree r \<inter> {e} = {}" "set_tree la \<inter> {e} = {}" "a \<noteq> e"
      using d RightOf by (auto simp: inorder_plug)
    moreover have "pri s a \<le> pri s e" using stop p RightOf by simp
    ultimately have "heap_but (pri s) {} {} (Node la a (Node l e r))"
      using hp heap_but_absent [of l "{}" "{e}" "pri s"] heap_but_absent [of r "{}" "{e}" "pri s"] heap_but_absent [of la "{}" "{e}" "pri s"]
      by auto
    then show ?thesis using that [of "Node la a (Node l e r)"] RightOf p \<open>a \<noteq> e\<close> by simp
  qed
  have "heap_but (pri s) {} {} (plug gs t)"
    by (rule heap_but_lower [OF h [unfolded t(1)] d [unfolded t(1)] t(5,2,3,4)]) (use stop in simp)
  then show ?thesis using t(1) by simp
qed

lemma raise_law:
  "raising e s fs l r \<Longrightarrow> \<exists>s' t. rotate_loop s e = Some s' \<and> treap s' t \<and> same_keys s s'
     \<and> inorder t = inorder (plug fs (Node l e r)) \<and> same_outside (set_tree (plug fs (Node l e r))) s s'"
proof (induction "length fs" arbitrary: s fs l r)
  case 0
  then have fs: "fs = []" and f: "focus s [] (Node l e r)" and h: "heap_but (pri s) {} {e} (Node l e r)" by (auto simp: raising_def)
  have "rotate_loop s e = Some s" using focus_links(3) [OF f] by (subst rotate_loop.simps) simp
  moreover have "heap_but (pri s) {} {} (Node l e r)"
  proof -
    have "set_tree l \<inter> {e} = {}" "set_tree r \<inter> {e} = {}" using f by (auto simp: focus_def)
    then show ?thesis using h heap_but_absent [of l "{}" "{e}" "pri s"] heap_but_absent [of r "{}" "{e}" "pri s"] by auto
  qed
  ultimately show ?case using fs f by (intro exI [of _ s] exI [of _ "Node l e r"]) (simp add: treap_def)
next
  case (Suc n)
  then obtain g gs where fs: "fs = g # gs" "n = length gs" by (cases fs) auto
  have f: "focus s fs (Node l e r)" and h: "heap_but (pri s) {} {e} (plug fs (Node l e r))"
    using Suc.prems by (auto simp: raising_def)
  obtain p where p: "top_node fs = Some p" using fs by (cases g) auto
  have link: "se_parent (sc_entries s e) = Some p" using focus_links(3) [OF f] p by simp
  show ?case
  proof (cases "pri s e < pri s p")
    case True
    obtain s1 l' r' where s1: "schedule_rotate_up s e = Some s1" "raising e s1 gs l' r'" "same_keys s s1"
      "inorder (plug gs (Node l' e r')) = inorder (plug fs (Node l e r))" "same_outside (set_tree (plug fs (Node l e r))) s s1"
      using raise_step [OF Suc.prems [unfolded fs(1)] p [unfolded fs(1)] True] fs(1) by blast
    have set: "set_tree (plug gs (Node l' e r')) = set_tree (plug fs (Node l e r))" using arg_cong [OF s1(4), of set] by simp
    obtain s' t where s': "rotate_loop s1 e = Some s'" "treap s' t" "same_keys s1 s'"
      "inorder t = inorder (plug gs (Node l' e r'))" "same_outside (set_tree (plug gs (Node l' e r'))) s1 s'"
      using Suc.hyps(1) [OF fs(2) s1(2)] by blast
    have "rotate_loop s e = Some s'"
      using True link s1(1) s'(1) by (subst rotate_loop.simps) (simp add: pri_def)
    moreover have "same_outside (set_tree (plug fs (Node l e r))) s s'"
      using same_outside_trans [OF s1(5)] s'(5) set by simp
    ultimately show ?thesis using s' s1(4) same_keys_trans [OF s1(3) s'(3)] by auto
  next
    case False
    have "rotate_loop s e = Some s" using False link by (subst rotate_loop.simps) (simp add: pri_def)
    moreover have "heap_but (pri s) {} {} (plug fs (Node l e r))"
      using raise_stop [OF Suc.prems [unfolded fs(1)] p [unfolded fs(1)] False] fs(1) by simp
    ultimately show ?thesis using f focus_plug [of s fs "Node l e r"]
      by (intro exI [of _ s] exI [of _ "plug fs (Node l e r)"]) (simp add: treap_def)
  qed
qed


subsection \<open>The invariant\<close>

definition sched_at :: "schedule \<Rightarrow> nat tree \<Rightarrow> bool" where
  "sched_at s t \<longleftrightarrow> treap s t \<and> in_order s (inorder t) \<and> (\<forall>a \<in> set_tree t. se_pri (sc_entries s a) \<noteq> 0)
     \<and> (\<forall>a. a \<notin> set_tree t \<longrightarrow> se_pri (sc_entries s a) = 0 \<and> unlinked (sc_entries s a))"

definition cache_ok :: "schedule \<Rightarrow> nat tree \<Rightarrow> bool" where
  "cache_ok s t \<longleftrightarrow> (\<forall>e. sc_earliest_wakeup s = Some e \<longrightarrow> t \<noteq> Leaf \<and> e = hd (inorder t))"

text \<open>The draws of \<open>random()\<close> never settle on at most \<open>k\<close> priorities.\<close>

definition random_ok :: "nat \<Rightarrow> u32 stream \<Rightarrow> bool" where
  "random_ok k r \<longleftrightarrow> (\<forall>n. k < card (drawn ` sset (sdrop n r)))"

lemma random_ok_sdrop: "random_ok k r \<Longrightarrow> random_ok k (sdrop n r)"
  by (simp add: random_ok_def sdrop_add)

lemma fresh_draw:
  assumes "random_ok k r" "card (set_tree t) \<le> k"
  shows "\<exists>n. (tv, drawn (r !! n)) \<notin> key s ` set_tree t"
proof (rule ccontr)
  assume c: "\<nexists>n. (tv, drawn (r !! n)) \<notin> key s ` set_tree t"
  have "drawn ` sset r \<subseteq> (snd \<circ> key s) ` set_tree t"
  proof
    fix p assume "p \<in> drawn ` sset r"
    then obtain n where "p = drawn (r !! n)" by (auto simp: sset_range)
    then have "(tv, p) \<in> key s ` set_tree t" using c by blast
    from imageI [OF this, of snd] show "p \<in> (snd \<circ> key s) ` set_tree t" by (simp add: image_comp)
  qed
  then have "card (drawn ` sset r) \<le> card ((snd \<circ> key s) ` set_tree t)" by (intro card_mono) auto
  also have "\<dots> \<le> card (set_tree t)" by (rule card_image_le) simp
  finally show False using assms(1) [unfolded random_ok_def, rule_format, of 0] assms(2) by simp
qed

lemma in_order_cong: "(\<And>a. a \<in> set as \<Longrightarrow> key s' a = key s a) \<Longrightarrow> in_order s as \<Longrightarrow> in_order s' as"
  by (auto elim!: sorted_wrt_mono_rel [rotated])

lemma touches_key: "touches e A s s' \<Longrightarrow> a \<noteq> e \<Longrightarrow> key s' a = key s a"
  by (simp add: touches_def key_def)

lemma touches_outside: "touches e A s s' \<Longrightarrow> a \<notin> A \<Longrightarrow> a \<noteq> e \<Longrightarrow> sc_entries s' a = sc_entries s a"
  by (simp add: touches_def same_outside_def)

text \<open>The part of \<open>schedule_add_modify\<close> after the removal.\<close>

definition add_fresh :: "schedule \<Rightarrow> nat \<Rightarrow> schedule option" where
  "add_fresh s e = do {
     let s = schedule_set_pri e s;
     s \<leftarrow> (if sc_root s \<noteq> None then schedule_insert s e else Some (s\<lparr>sc_root := Some e\<rparr>));
     rotate_loop s e }"

lemma add_fresh_joins:
  assumes t: "treap s t" "in_order s (inorder t)" and e: "e \<notin> set_tree t" "unlinked (sc_entries s e)"
    and r: "random_ok k (sc_random s)" "card (set_tree t) \<le> k"
  obtains s' where "add_fresh s e = rotate_loop s' e" "joined e t s'" "touches e (set_tree t) s s'"
proof (cases t)
  case Leaf
  let ?s = "(schedule_set_pri e s)\<lparr>sc_root := Some e\<rparr>"
  have "sc_root s = None" using t(1) focus_root [of s "[]" t] Leaf by (simp add: treap_def root_ptr_def)
  then have "add_fresh s e = rotate_loop ?s e" by (simp add: add_fresh_def Let_def)
  moreover have "joined e t ?s" using e(2) Leaf
    by (auto simp: joined_def focus_def unlinked_def intro!: exI [of _ "[]"])
  moreover have "touches e (set_tree t) s ?s" using touches_set_pri [of e "set_tree t" s] by (simp add: touches_def same_outside_def)
  ultimately show ?thesis by (rule that)
next
  case (Node l c r)
  obtain n where n: "(se_tv (sc_entries s e), drawn (sc_random s !! n)) \<notin> key s ` set_tree t"
    using fresh_draw [OF assms(5,6)] by blast
  obtain s' where s': "schedule_insert (schedule_set_pri e s) e = Some s'" "joined e t s'" "touches e (set_tree t) s s'"
    using insert_law [OF _ e(1) _ t(2) e(2) n] t(1) Node by (auto simp: treap_def)
  have "sc_root s \<noteq> None" using t(1) focus_root [of s "[]" t] Node by (simp add: treap_def root_ptr_def)
  then have "add_fresh s e = rotate_loop s' e" using s'(1) by (simp add: add_fresh_def Let_def)
  then show ?thesis using s' by (intro that)
qed

lemma add_fresh_law:
  assumes t: "sched_at s t" and e: "e \<notin> set_tree t" and r: "random_ok k (sc_random s)" "card (set_tree t) \<le> k"
  obtains s' t' where "add_fresh s e = Some s'" "sched_at s' t'" "set_tree t' = insert e (set_tree t)" "touches e (set_tree t) s s'"
proof -
  have tr: "treap s t" "in_order s (inorder t)" "unlinked (sc_entries s e)" using t e by (auto simp: sched_at_def)
  obtain s1 where s1: "add_fresh s e = rotate_loop s1 e" "joined e t s1" "touches e (set_tree t) s s1"
    by (rule add_fresh_joins [OF tr(1,2) e tr(3) r])
  obtain gs where gs: "focus s1 gs (Node Leaf e Leaf)" "plug gs Leaf = t" "in_order s1 (before gs @ e # after gs)" "se_pri (sc_entries s1 e) \<noteq> 0"
    using s1(2) by (auto simp: joined_def)
  have "heap_but (pri s1) {} {e} (plug gs Leaf)"
  proof -
    have "heap_but (pri s1) {} {} t"
      using tr(1) e touches_key [OF s1(3)] unfolding treap_def key_def
      by (subst heap_but_cong [where Q = "pri s"]) (auto simp: pri_def, metis)
    then show ?thesis using gs(2) by (auto intro: heap_but_mono)
  qed
  then have "heap_but (pri s1) {} {e} (plug gs (Node Leaf e Leaf))" by (rule heap_plug_mono) auto
  then have "raising e s1 gs Leaf Leaf" using gs(1) by (simp add: raising_def)
  then obtain s' t' where s': "rotate_loop s1 e = Some s'" "treap s' t'" "same_keys s1 s'"
    "inorder t' = inorder (plug gs (Node Leaf e Leaf))" "same_outside (set_tree (plug gs (Node Leaf e Leaf))) s1 s'"
    using raise_law by blast
  have set: "set_tree (plug gs (Node Leaf e Leaf)) = insert e (set_tree t)" using gs(2) by (auto simp: set_tree_plug)
  have set': "set_tree t' = insert e (set_tree t)" using arg_cong [OF s'(4), of set] set by simp
  have "touches e (set_tree t) s1 s'" using s'(3,5) unfolding set by (rule touchesI) auto
  then have tt: "touches e (set_tree t) s s'" by (rule touches_trans [OF s1(3)])
  have "in_order s' (inorder t')" using gs(3) same_keys_key [OF s'(3)] unfolding s'(4) by (simp add: inorder_plug)
  moreover have "se_pri (sc_entries s' a) \<noteq> 0" if "a \<in> set_tree t'" for a
  proof (cases "a = e")
    case True then show ?thesis using gs(4) s'(3) by (simp add: same_keys_def)
  next
    case False
    then have "key s' a = key s a" by (rule touches_key [OF tt])
    then show ?thesis using t that set' False by (auto simp: sched_at_def key_def)
  qed
  moreover have "sc_entries s' a = sc_entries s a" if "a \<notin> set_tree t'" for a
    using touches_outside [OF tt] that set' by auto
  ultimately have "sched_at s' t'" using t s'(2) set' by (auto simp: sched_at_def)
  then show ?thesis using that s1(1) s'(1) set' tt by simp
qed


lemma remove_sched:
  assumes t: "treap s t" "in_order s (filter (\<lambda>x. x \<noteq> e) (inorder t))" "e \<in> set_tree t"
    and p: "\<forall>a \<in> set_tree t. se_pri (sc_entries s a) \<noteq> 0"
      "\<forall>a. a \<notin> set_tree t \<longrightarrow> se_pri (sc_entries s a) = 0 \<and> unlinked (sc_entries s a)"
  obtains s' t' where "schedule_remove_node s e = Some s'" "sched_at s' t'" "set_tree t' = set_tree t - {e}"
    "touches e (set_tree t) s s'" "sc_random s' = sc_random s" "se_pri (sc_entries s' e) = 0"
proof -
  obtain s' t' where s': "schedule_remove_node s e = Some s'" "treap s' t'" "inorder t' = filter (\<lambda>x. x \<noteq> e) (inorder t)"
    "unlinked (sc_entries s' e)" "se_pri (sc_entries s' e) = 0" "touches e (set_tree t) s s'" "sc_random s' = sc_random s"
    by (rule remove_node_law [OF t(1,3)])
  have set: "set_tree t' = set_tree t - {e}" using arg_cong [OF s'(3), of set] by auto
  have "in_order s' (inorder t')" unfolding s'(3) by (rule in_order_cong [OF _ t(2)]) (auto intro: touches_key [OF s'(6)])
  moreover have "se_pri (sc_entries s' a) \<noteq> 0" if "a \<in> set_tree t'" for a
    using that set p(1) touches_key [OF s'(6), of a] by (simp add: key_def)
  moreover have "se_pri (sc_entries s' a) = 0 \<and> unlinked (sc_entries s' a)" if "a \<notin> set_tree t'" for a
  proof (cases "a = e")
    case False
    then have "sc_entries s' a = sc_entries s a" using touches_outside [OF s'(6)] that set by auto
    then show ?thesis using p(2) that set False by auto
  qed (use s' in simp)
  ultimately have "sched_at s' t'" using s'(2) by (auto simp: sched_at_def)
  then show ?thesis using that s' set by blast
qed

definition sched_ok :: "nat set \<Rightarrow> schedule \<Rightarrow> bool" where
  "sched_ok A s \<longleftrightarrow> finite A \<and> random_ok (card A) (sc_random s) \<and> (\<exists>t. sched_at s t \<and> cache_ok s t \<and> set_tree t \<subseteq> A)"

text \<open>The abstract state: the wakeup times of the scheduled entries.\<close>

definition scheduled :: "schedule \<Rightarrow> nat \<Rightarrow> timeval option" where
  "scheduled s e = (if se_pri (sc_entries s e) = 0 then None else Some (se_tv (sc_entries s e)))"

definition reschedule :: "('e \<Rightarrow> timeval option) \<Rightarrow> 'e \<Rightarrow> timeval \<Rightarrow> int \<Rightarrow> ('e \<Rightarrow> timeval option)" where
  "reschedule m e tv sigma =
     (case m e of
        Some t \<Rightarrow> (if sigma \<noteq> 0 \<and> tv_within_sigma tv t sigma then m else m(e \<mapsto> tv))
      | None \<Rightarrow> m(e \<mapsto> tv))"

definition first_event :: "('e \<Rightarrow> timeval option) \<Rightarrow> ('e \<times> timeval) option \<Rightarrow> bool" where
  "first_event m r \<longleftrightarrow> (case r of None \<Rightarrow> m = Map.empty | Some (e, tv) \<Rightarrow> m e = Some tv \<and> (\<forall>e' t. m e' = Some t \<longrightarrow> tv \<le> t))"

text \<open>The state in which an entry is removed: its time may have changed, so that it can be out of order.\<close>

lemma sched_at_retime:
  fixes e :: nat and tv :: timeval
  assumes "sched_at s t"
  defines "s' \<equiv> set_entry e (se_tv_update (\<lambda>_. tv)) s"
  shows "treap s' t" "in_order s' (filter (\<lambda>x. x \<noteq> e) (inorder t))" "e \<notin> set_tree t \<Longrightarrow> sched_at s' t"
    "\<forall>a \<in> set_tree t. se_pri (sc_entries s' a) \<noteq> 0"
    "\<forall>a. a \<notin> set_tree t \<longrightarrow> se_pri (sc_entries s' a) = 0 \<and> unlinked (sc_entries s' a)"
proof -
  have tree: "tree_at (sc_entries s') q p u = tree_at (sc_entries s) q p u" for q p u
    by (induction u arbitrary: q p) (simp_all add: s'_def)
  have pr: "pri s' = pri s" "sc_root s' = sc_root s" by (simp_all add: pri_def fun_eq_iff s'_def)
  show tr: "treap s' t" using assms(1) by (simp add: sched_at_def treap_def focus_def tree pr)
  have k: "key s' a = key s a" if "a \<noteq> e" for a using that by (simp add: key_def s'_def)
  have o: "in_order s (inorder t)" using assms(1) by (simp add: sched_at_def)
  have "in_order s (filter (\<lambda>x. x \<noteq> e) (inorder t))" by (rule sorted_wrt_filter [OF o])
  then show "in_order s' (filter (\<lambda>x. x \<noteq> e) (inorder t))" by (rule in_order_cong [rotated]) (auto intro: k)
  show p: "\<forall>a \<in> set_tree t. se_pri (sc_entries s' a) \<noteq> 0"
    "\<forall>a. a \<notin> set_tree t \<longrightarrow> se_pri (sc_entries s' a) = 0 \<and> unlinked (sc_entries s' a)"
    using assms(1) by (auto simp: sched_at_def s'_def unlinked_def)
  show "sched_at s' t" if "e \<notin> set_tree t"
  proof -
    have "key s' a = key s a" if "a \<in> set (inorder t)" for a using that \<open>e \<notin> set_tree t\<close> by (intro k) auto
    then have "in_order s' (inorder t)" by (rule in_order_cong [OF _ o])
    then show ?thesis using tr p by (simp add: sched_at_def)
  qed
qed

lemma add_modify_law:
  fixes e :: nat and tv :: timeval
  assumes ok: "sched_at s t" "random_ok (card A) (sc_random s)" "finite A" "set_tree t \<subseteq> A"
  defines "s0 \<equiv> set_entry e (se_tv_update (\<lambda>_. tv)) s"
  obtains s' t' where "schedule_add_modify s0 e = Some s'" "sched_at s' t'" "set_tree t' = insert e (set_tree t)"
    "touches e (set_tree t) s0 s'"
proof -
  note retime = sched_at_retime [OF ok(1), of e tv, folded s0_def]
  have fresh: "schedule_add_modify s0 e = (if IN_TREE (sc_entries s0 e) then schedule_remove_node s0 e \<bind> (\<lambda>s. add_fresh s e) else add_fresh s0 e)"
    by (simp add: schedule_add_modify_def add_fresh_def)
  have inn: "IN_TREE (sc_entries s0 e) \<longleftrightarrow> e \<in> set_tree t" using retime(4,5) by (auto simp: IN_TREE_def)
  have card: "card (set_tree u) \<le> card A" if "set_tree u \<subseteq> set_tree t" for u
    using that ok(3,4) by (intro card_mono) auto
  have rnd: "sc_random s0 = sc_random s" by (simp add: s0_def)
  show ?thesis
  proof (cases "e \<in> set_tree t")
    case True
    obtain s1 t1 where s1: "schedule_remove_node s0 e = Some s1" "sched_at s1 t1" "set_tree t1 = set_tree t - {e}"
      "touches e (set_tree t) s0 s1" "sc_random s1 = sc_random s0"
      by (rule remove_sched [OF retime(1,2) True retime(4,5)])
    have "e \<notin> set_tree t1" "random_ok (card A) (sc_random s1)" "card (set_tree t1) \<le> card A"
      using s1(3,5) ok(2) rnd card [of t1] by auto
    then obtain s' t' where s': "add_fresh s1 e = Some s'" "sched_at s' t'" "set_tree t' = insert e (set_tree t1)" "touches e (set_tree t1) s1 s'"
      by (rule add_fresh_law [OF s1(2)])
    have "touches e (set_tree t) s1 s'" by (rule touches_mono [OF s'(4)]) (use s1(3) in auto)
    then have "touches e (set_tree t) s0 s'" by (rule touches_trans [OF s1(4)])
    then show ?thesis using that [OF _ s'(2)] fresh inn True s1(1,3) s'(1,3) by auto
  next
    case False
    obtain s' t' where "add_fresh s0 e = Some s'" "sched_at s' t'" "set_tree t' = insert e (set_tree t)" "touches e (set_tree t) s0 s'"
      by (rule add_fresh_law [OF retime(3) [OF False] False]) (use ok(2) rnd card [of t] in auto)
    then show ?thesis using that fresh inn False by auto
  qed
qed


text \<open>The leftmost node is the first in the order.\<close>

lemma find_least_law: "focus s fs (Node l c r) \<Longrightarrow> schedule_find_least s c = Some (hd (inorder (Node l c r)))"
proof (induction l arbitrary: fs c r)
  case Leaf
  then show ?case using focus_links(1) [OF Leaf] by (subst schedule_find_least.simps) (simp add: root_ptr_def)
next
  case (Node ll d lr)
  have "schedule_find_least s c = schedule_find_least s d"
    using focus_links(1) [OF Node.prems] by (subst schedule_find_least.simps) (simp add: root_ptr_def)
  also have "\<dots> = Some (hd (inorder (Node ll d lr)))"
    using Node.prems by (intro Node.IH(1) [of "LeftOf c r # fs"]) (simp add: focus_left [symmetric])
  finally show ?case by (cases "inorder ll") simp_all
qed

subsection \<open>The interface of an event queue\<close>

datatype 'e queue_cmd = AddEntry 'e timeval int | RemoveEntry 'e | EarliestWakeup

text \<open>A run collects the answers to \<open>EarliestWakeup\<close>; the specification of the answers.\<close>

fun run_queue ::
    "('s \<Rightarrow> 'e \<Rightarrow> timeval \<Rightarrow> int \<Rightarrow> 's option) \<Rightarrow> ('s \<Rightarrow> 'e \<Rightarrow> 's option) \<Rightarrow> ('s \<Rightarrow> ('s \<times> ('e \<times> timeval) option) option)
     \<Rightarrow> 'e queue_cmd list \<Rightarrow> 's \<Rightarrow> ('s \<times> ('e \<times> timeval) option list) option" where
  "run_queue ad rm ew [] s = Some (s, [])"
| "run_queue ad rm ew (AddEntry e tv sigma # cs) s = do { s \<leftarrow> ad s e tv sigma; run_queue ad rm ew cs s }"
| "run_queue ad rm ew (RemoveEntry e # cs) s = do { s \<leftarrow> rm s e; run_queue ad rm ew cs s }"
| "run_queue ad rm ew (EarliestWakeup # cs) s = do { (s, r) \<leftarrow> ew s; (s, rs) \<leftarrow> run_queue ad rm ew cs s; Some (s, r # rs) }"

fun queue_spec :: "'e queue_cmd list \<Rightarrow> ('e \<Rightarrow> timeval option) \<Rightarrow> ('e \<times> timeval) option list \<Rightarrow> bool" where
  "queue_spec [] m rs = (rs = [])"
| "queue_spec (AddEntry e tv sigma # cs) m rs = queue_spec cs (reschedule m e tv sigma) rs"
| "queue_spec (RemoveEntry e # cs) m rs = queue_spec cs (m(e := None)) rs"
| "queue_spec (EarliestWakeup # cs) m rs = (case rs of [] \<Rightarrow> False | r # rs \<Rightarrow> first_event m r \<and> queue_spec cs m rs)"

fun cmd_entry :: "'e queue_cmd \<Rightarrow> 'e set" where
  "cmd_entry (AddEntry e tv sigma) = {e}"
| "cmd_entry (RemoveEntry e) = {e}"
| "cmd_entry EarliestWakeup = {}"

locale event_queue =
  fixes inv :: "'s \<Rightarrow> bool" and A :: "'e set" and events :: "'s \<Rightarrow> 'e \<Rightarrow> timeval option"
    and ad :: "'s \<Rightarrow> 'e \<Rightarrow> timeval \<Rightarrow> int \<Rightarrow> 's option" and rm :: "'s \<Rightarrow> 'e \<Rightarrow> 's option"
    and ew :: "'s \<Rightarrow> ('s \<times> ('e \<times> timeval) option) option"
  assumes ad_law: "inv s \<Longrightarrow> e \<in> A \<Longrightarrow> \<exists>s'. ad s e tv sigma = Some s' \<and> inv s' \<and> events s' = reschedule (events s) e tv sigma"
    and rm_law: "inv s \<Longrightarrow> e \<in> A \<Longrightarrow> \<exists>s'. rm s e = Some s' \<and> inv s' \<and> events s' = (events s)(e := None)"
    and ew_law: "inv s \<Longrightarrow> \<exists>s' r. ew s = Some (s', r) \<and> inv s' \<and> events s' = events s \<and> first_event (events s) r"
begin

lemma run_queue_spec:
  "inv s \<Longrightarrow> \<forall>c \<in> set cs. cmd_entry c \<subseteq> A \<Longrightarrow> \<exists>s' rs. run_queue ad rm ew cs s = Some (s', rs) \<and> inv s' \<and> queue_spec cs (events s) rs"
proof (induction cs arbitrary: s)
  case (Cons c cs)
  show ?case
  proof (cases c)
    case (AddEntry e tv sigma)
    then obtain s1 where "ad s e tv sigma = Some s1" "inv s1" "events s1 = reschedule (events s) e tv sigma"
      using ad_law [OF Cons.prems(1), of e tv sigma] Cons.prems(2) by auto
    then show ?thesis using Cons.IH [of s1] Cons.prems(2) AddEntry by auto
  next
    case (RemoveEntry e)
    then obtain s1 where "rm s e = Some s1" "inv s1" "events s1 = (events s)(e := None)"
      using rm_law [OF Cons.prems(1), of e] Cons.prems(2) by auto
    then show ?thesis using Cons.IH [of s1] Cons.prems(2) RemoveEntry by (auto simp del: fun_upd_apply)
  next
    case EarliestWakeup
    obtain s1 r where s1: "ew s = Some (s1, r)" "inv s1" "events s1 = events s" "first_event (events s) r"
      using ew_law [OF Cons.prems(1)] by blast
    obtain s' rs where "run_queue ad rm ew cs s1 = Some (s', rs)" "inv s'" "queue_spec cs (events s1) rs"
      using Cons.IH [OF s1(2)] Cons.prems(2) by auto
    then show ?thesis using s1 EarliestWakeup by (intro exI [of _ s'] exI [of _ "r # rs"]) simp
  qed
qed simp

end

lemma scheduled_eq: "sched_at s t \<Longrightarrow> scheduled s e = (if e \<in> set_tree t then Some (se_tv (sc_entries s e)) else None)"
  by (auto simp: sched_at_def scheduled_def)

lemma touches_scheduled:
  "touches e (set_tree t) s s' \<Longrightarrow> a \<noteq> e \<Longrightarrow> scheduled s' a = scheduled s a"
  by (simp add: touches_def scheduled_def)

lemma add_entry_law:
  assumes ok: "sched_ok A s" and e: "e \<in> A"
  shows "\<exists>s'. schedule_add_entry s e tv sigma = Some s' \<and> sched_ok A s' \<and> scheduled s' = reschedule (scheduled s) e tv sigma"
proof (cases "\<not> IN_TREE (sc_entries s e) \<or> sigma = 0 \<or> \<not> tv_within_sigma tv (se_tv (sc_entries s e)) sigma")
  case False
  then show ?thesis using ok by (auto simp: schedule_add_entry_def reschedule_def scheduled_def IN_TREE_def)
next
  case True
  obtain t where t: "finite A" "random_ok (card A) (sc_random s)" "sched_at s t" "set_tree t \<subseteq> A"
    using ok by (auto simp: sched_ok_def)
  let ?s = "set_entry e (se_tv_update (\<lambda>_. tv)) s"
  obtain s' t' where s': "schedule_add_modify ?s e = Some s'" "sched_at s' t'" "set_tree t' = insert e (set_tree t)" "touches e (set_tree t) ?s s'"
    by (rule add_modify_law [OF t(3,2,1,4)])
  let ?s' = "s'\<lparr>sc_earliest_wakeup := None\<rparr>"
  have "sched_at ?s' t'" using s'(2) by (simp add: sched_at_def treap_def focus_def pri_def [abs_def] key_def)
  moreover have "random_ok (card A) (sc_random ?s')" using s'(4) t(2) by (auto simp: touches_def random_ok_sdrop)
  moreover have "cache_ok ?s' t'" "set_tree t' \<subseteq> A" using t(4) e s'(3) by (auto simp: cache_ok_def)
  ultimately have "sched_ok A ?s'" using t(1) unfolding sched_ok_def by blast
  moreover have "scheduled ?s' a = reschedule (scheduled s) e tv sigma a" for a
  proof (cases "a = e")
    case True
    have "se_tv (sc_entries s' e) = tv" using s'(4) by (simp add: touches_def)
    moreover have "se_pri (sc_entries s' e) \<noteq> 0" using s'(2,3) by (simp add: sched_at_def)
    ultimately show ?thesis using True \<open>\<not> IN_TREE _ \<or> _\<close> by (auto simp: reschedule_def scheduled_def IN_TREE_def)
  next
    case False
    then have "scheduled ?s' a = scheduled s a" using s'(4) by (simp add: touches_def scheduled_def)
    then show ?thesis using False by (simp add: reschedule_def split: option.split)
  qed
  moreover have "schedule_add_entry s e tv sigma = Some ?s'" using True s'(1) by (simp add: schedule_add_entry_def Let_def)
  ultimately show ?thesis by blast
qed

lemma remove_node_absent:
  assumes "se_pri (sc_entries s e) = 0" "unlinked (sc_entries s e)" "sc_root s \<noteq> Some e"
  shows "schedule_remove_node s e = Some s"
proof -
  have "remove_node_loop s e = Some s" using assms(2) by (subst remove_node_loop.simps) (simp add: unlinked_def)
  moreover have "schedule_detach_parent s e = Some s" using assms(2,3) by (simp add: schedule_detach_parent_def unlinked_def)
  moreover have "set_entry e (se_pri_update (\<lambda>_. 0)) s = s" using assms(1) by (cases s; cases "sc_entries s e") (auto simp: set_entry_def)
  ultimately show ?thesis by (simp add: schedule_remove_node_def)
qed

lemma remove_entry_law:
  assumes ok: "sched_ok A s"
  shows "\<exists>s'. schedule_remove_entry s e = Some s' \<and> sched_ok A s' \<and> scheduled s' = (scheduled s)(e := None)"
proof -
  let ?s = "s\<lparr>sc_earliest_wakeup := None\<rparr>"
  obtain t where t: "finite A" "random_ok (card A) (sc_random s)" "sched_at s t" "set_tree t \<subseteq> A"
    using ok by (auto simp: sched_ok_def)
  have t0: "sched_at ?s t" using t(3) by (simp add: sched_at_def treap_def focus_def pri_def [abs_def] key_def)
  show ?thesis
  proof (cases "e \<in> set_tree t")
    case True
    have "in_order ?s (filter (\<lambda>x. x \<noteq> e) (inorder t))" using t0 by (intro sorted_wrt_filter) (simp add: sched_at_def)
    then obtain s' t' where s': "schedule_remove_node ?s e = Some s'" "sched_at s' t'" "set_tree t' = set_tree t - {e}"
        "touches e (set_tree t) ?s s'" "sc_random s' = sc_random ?s" "se_pri (sc_entries s' e) = 0"
      using remove_sched [of ?s t e] t0 True unfolding sched_at_def by blast
    have "cache_ok s' t'" using s'(4) by (simp add: cache_ok_def touches_def)
    then have "sched_ok A s'" using s'(2,3,5) t(1,2,4) by (auto simp: sched_ok_def)
    moreover have "scheduled s' a = ((scheduled s)(e := None)) a" for a
      using s'(4,6) by (simp add: touches_def scheduled_def)
    ultimately show ?thesis using s'(1) by (auto simp: schedule_remove_entry_def)
  next
    case False
    have "sc_root s \<noteq> Some e"
      using focus_root [of s "[]" t] t(3) False by (cases t) (auto simp: sched_at_def treap_def root_ptr_def)
    then have "schedule_remove_entry s e = Some ?s"
      using t(3) False by (simp add: schedule_remove_entry_def remove_node_absent sched_at_def)
    moreover have "sched_ok A ?s" using t t0 by (auto simp: sched_ok_def cache_ok_def)
    moreover have "scheduled ?s = (scheduled s)(e := None)"
      using t(3) False by (auto simp: fun_eq_iff scheduled_def sched_at_def)
    ultimately show ?thesis by blast
  qed
qed

lemma first_event_hd:
  assumes t: "sched_at s t" "t \<noteq> Leaf"
  shows "first_event (scheduled s) (Some (hd (inorder t), se_tv (sc_entries s (hd (inorder t)))))"
proof -
  obtain e es where i: "inorder t = e # es" using t(2) by (cases "inorder t") (auto simp: inorder.simps elim: tree.exhaust)
  have "in_order s (e # es)" using t(1) i by (simp add: sched_at_def)
  then have "se_tv (sc_entries s e) \<le> se_tv (sc_entries s a)" if "a \<in> set_tree t" for a
    using that i set_inorder [of t] by (cases "a = e") (auto simp: key_less intro: less_imp_le)
  then show ?thesis using i set_inorder [of t] by (auto simp: first_event_def scheduled_eq [OF t(1)])
qed

lemma earliest_law:
  assumes ok: "sched_ok A s"
  shows "\<exists>s' r. schedule_get_earliest_wakeup s = Some (s', r) \<and> sched_ok A s' \<and> scheduled s' = scheduled s \<and> first_event (scheduled s) r"
proof -
  obtain t where t: "sched_at s t" "cache_ok s t" "finite A" "random_ok (card A) (sc_random s)" "set_tree t \<subseteq> A"
    using ok by (auto simp: sched_ok_def)
  show ?thesis
  proof (cases "sc_earliest_wakeup s")
    case (Some e)
    then show ?thesis using ok first_event_hd [OF t(1)] t(2)
      by (auto simp: schedule_get_earliest_wakeup_def cache_ok_def)
  next
    case None
    have f: "focus s [] t" using t(1) by (simp add: sched_at_def treap_def)
    show ?thesis
    proof (cases t)
      case Leaf
      then have "sc_root s = None" using focus_root [OF f] by (simp add: root_ptr_def)
      moreover have "first_event (scheduled s) None" using scheduled_eq [OF t(1)] Leaf by (auto simp: first_event_def)
      ultimately show ?thesis using None ok by (simp add: schedule_get_earliest_wakeup_def)
    next
      case (Node l c r)
      let ?e = "hd (inorder t)" let ?s = "s\<lparr>sc_earliest_wakeup := Some ?e\<rparr>"
      have "sc_root s = Some c" using focus_root [OF f] Node by (simp add: root_ptr_def)
      then have run: "schedule_get_earliest_wakeup s = Some (?s, Some (?e, se_tv (sc_entries s ?e)))"
        using None find_least_law [of s "[]" l c r] f Node by (simp add: schedule_get_earliest_wakeup_def)
      have "sched_at ?s t" using t(1) by (simp add: sched_at_def treap_def focus_def pri_def [abs_def] key_def)
      moreover have "cache_ok ?s t" using Node by (simp add: cache_ok_def del: inorder.simps)
      ultimately have "sched_ok A ?s" using t(3-5) unfolding sched_ok_def by auto
      moreover have "scheduled ?s = scheduled s" by (simp add: scheduled_def fun_eq_iff)
      ultimately show ?thesis using run first_event_hd [OF t(1)] Node by (auto simp del: inorder.simps)
    qed
  qed
qed

interpretation sq: event_queue "sched_ok A" A scheduled schedule_add_entry schedule_remove_entry schedule_get_earliest_wakeup for A
  by unfold_locales (simp_all add: add_entry_law remove_entry_law earliest_law)


subsection \<open>Properties\<close>

lemma schedule_init_ok:
  assumes "\<forall>e. se_pri (entries e) = 0 \<and> unlinked (entries e)" "finite A" "random_ok (card A) rnd"
  shows "sched_ok A (schedule_init entries rnd)" "scheduled (schedule_init entries rnd) = Map.empty"
proof -
  have "sched_at (schedule_init entries rnd) Leaf"
    using assms(1) by (simp add: sched_at_def treap_def focus_def schedule_init_def)
  then show "sched_ok A (schedule_init entries rnd)" using assms(2,3) by (auto simp: sched_ok_def cache_ok_def schedule_init_def)
  show "scheduled (schedule_init entries rnd) = Map.empty" using assms(1) by (simp add: scheduled_def schedule_init_def fun_eq_iff)
qed

text \<open>A run with two entries and draws that repeat.\<close>

definition demo_random :: "u32 stream" where
  "demo_random = cycle [7, 3, 7, 9]"

definition demo_entries :: "nat \<Rightarrow> schedule_entry" where
  "demo_entries e = \<lparr>se_tv = \<lparr>tv_sec = 0, tv_usec = 0\<rparr>, se_pri = 0, se_parent = None, se_lt = None, se_gt = None\<rparr>"

definition demo_cmds :: "nat queue_cmd list" where
  "demo_cmds = [AddEntry 0 \<lparr>tv_sec = 5, tv_usec = 0\<rparr> 0, AddEntry 1 \<lparr>tv_sec = 3, tv_usec = 0\<rparr> 0, EarliestWakeup, RemoveEntry 1, EarliestWakeup]"

lemma demo_hyps:
  "\<forall>e. se_pri (demo_entries e) = 0 \<and> unlinked (demo_entries e)" "\<forall>c \<in> set demo_cmds. cmd_entry c \<subseteq> {0, 1}"
  "random_ok (card {0 :: nat, 1}) demo_random"
proof -
  have "drawn ` {7, 3, 7, 9} = {7, 3, 9}" by (auto simp: drawn_def)
  then show "random_ok (card {0 :: nat, 1}) demo_random"
    by (simp add: random_ok_def demo_random_def sdrop_cycle sset_cycle)
qed (simp_all add: demo_entries_def demo_cmds_def unlinked_def)

text \<open>
  C12: The scheduler is an event queue. Every sequence of \<open>schedule_add_entry\<close>, \<open>schedule_remove_entry\<close>
  and \<open>schedule_get_earliest_wakeup\<close> on entries that start outside the tree runs to its end, with no
  endless search and no failed assertion, when the draws of \<open>random()\<close> keep taking more values than there
  are entries. Every \<open>schedule_get_earliest_wakeup\<close> answers a scheduled entry with the least wakeup
  time, and no entry exactly when none is scheduled; an addition reschedules an entry unless its
  time is within sigma of the scheduled one.
\<close>

theorem scheduler_is_event_queue:
  assumes "\<forall>e. se_pri (entries e) = 0 \<and> unlinked (entries e)" "finite A" "random_ok (card A) rnd"
    "\<forall>c \<in> set cs. cmd_entry c \<subseteq> A"
  shows "\<exists>s' rs. run_queue schedule_add_entry schedule_remove_entry schedule_get_earliest_wakeup cs (schedule_init entries rnd) = Some (s', rs)
    \<and> queue_spec cs Map.empty rs"
  using sq.run_queue_spec [OF schedule_init_ok(1) [OF assms(1-3)] assms(4)] schedule_init_ok(2) [OF assms(1-3)] by auto

theorem scheduler_is_event_queue_witness:
  "\<exists>s'. run_queue schedule_add_entry schedule_remove_entry schedule_get_earliest_wakeup demo_cmds (schedule_init demo_entries demo_random)
    = Some (s', [Some (1, \<lparr>tv_sec = 3, tv_usec = 0\<rparr>), Some (0, \<lparr>tv_sec = 5, tv_usec = 0\<rparr>)])"
proof -
  obtain s' rs where run: "run_queue schedule_add_entry schedule_remove_entry schedule_get_earliest_wakeup demo_cmds (schedule_init demo_entries demo_random) = Some (s', rs)"
    and spec: "queue_spec demo_cmds Map.empty rs"
    using scheduler_is_event_queue [OF demo_hyps(1) _ demo_hyps(3,2)] by auto
  obtain r1 r2 where rs: "rs = [r1, r2]"
    and r1: "first_event [1 \<mapsto> \<lparr>tv_sec = 3, tv_usec = 0\<rparr>, 0 \<mapsto> \<lparr>tv_sec = 5, tv_usec = 0\<rparr>] r1"
    and r2: "first_event [0 \<mapsto> \<lparr>tv_sec = 5, tv_usec = 0\<rparr>] r2"
    using spec by (auto simp: demo_cmds_def reschedule_def fun_upd_twist split: list.splits)
  have "r1 = Some (1, \<lparr>tv_sec = 3, tv_usec = 0\<rparr>)" "r2 = Some (0, \<lparr>tv_sec = 5, tv_usec = 0\<rparr>)"
    using r1 r2 by (auto simp: first_event_def timeval_le split: option.splits if_splits)
  then show ?thesis using run rs by auto
qed

text \<open>
  C29: The scheduler's tree keeps its shape. After every such run the entries with a priority form one
  tree: every parent and child pointer agrees, no entry occurs twice, the wakeup times (with
  the priorities) are in order from left to right, no parent has a greater priority than a node below
  it, and every other entry is unlinked.
\<close>

theorem scheduler_keeps_treap:
  assumes "\<forall>e. se_pri (entries e) = 0 \<and> unlinked (entries e)" "finite A" "random_ok (card A) rnd"
    "\<forall>c \<in> set cs. cmd_entry c \<subseteq> A"
    "run_queue schedule_add_entry schedule_remove_entry schedule_get_earliest_wakeup cs (schedule_init entries rnd) = Some (s, rs)"
  shows "\<exists>t. tree_at (sc_entries s) None (sc_root s) t \<and> distinct (inorder t) \<and> in_order s (inorder t)
    \<and> heap_but (pri s) {} {} t \<and> set_tree t = dom (scheduled s) \<and> (\<forall>e. e \<notin> set_tree t \<longrightarrow> unlinked (sc_entries s e))"
proof -
  have "sched_ok A s"
    using sq.run_queue_spec [OF schedule_init_ok(1) [OF assms(1-3)] assms(4)] assms(5) by auto
  then obtain t where t: "sched_at s t" by (auto simp: sched_ok_def)
  have "set_tree t = dom (scheduled s)" using scheduled_eq [OF t] by (auto split: if_splits)
  then show ?thesis using t by (intro exI [of _ t]) (auto simp: sched_at_def treap_def focus_def)
qed

theorem scheduler_keeps_treap_witness:
  "\<exists>s rs t. run_queue schedule_add_entry schedule_remove_entry schedule_get_earliest_wakeup demo_cmds (schedule_init demo_entries demo_random) = Some (s, rs)
    \<and> tree_at (sc_entries s) None (sc_root s) t \<and> in_order s (inorder t)"
proof -
  obtain s' rs where run: "run_queue schedule_add_entry schedule_remove_entry schedule_get_earliest_wakeup demo_cmds (schedule_init demo_entries demo_random) = Some (s', rs)"
    using sq.run_queue_spec [OF schedule_init_ok(1) [OF demo_hyps(1) _ demo_hyps(3)] demo_hyps(2)] by auto
  from scheduler_keeps_treap [OF demo_hyps(1) _ demo_hyps(3,2) run] run show ?thesis by auto
qed

end
