(* ===== verification/Base64.thy ===== *)
theory Base64
  imports Ovpn_Prelude
begin

text \<open>
  Base64 of base64.c. Strings are the bytes before their NUL; the decoder's output is the list of the
  bytes it wrote at \<open>data\<close>. \<open>malloc\<close> succeeds.
\<close>

subsection \<open>Encoding\<close>

definition base64_chars :: bytes where
  "base64_chars = map of_nat ([65..<91] @ [97..<123] @ [48..<58] @ [43, 47])"

abbreviation base64_pad :: u8 where "base64_pad \<equiv> 61"

definition q_at :: "bytes \<Rightarrow> int \<Rightarrow> int" where
  "q_at q i = uint (q ! nat i)"

function base64_encode_loop :: "bytes \<Rightarrow> int \<Rightarrow> int \<Rightarrow> bytes" where
  "base64_encode_loop q sz i =
     (if i < sz
      then (let c = q_at q i; i = i + 1;
                c = c * 256; c = (if i < sz then c + q_at q i else c); i = i + 1;
                c = c * 256; c = (if i < sz then c + q_at q i else c); i = i + 1;
                p0 = base64_chars ! nat (drop_bit 18 (c AND 0x00fc0000));
                p1 = base64_chars ! nat (drop_bit 12 (c AND 0x0003f000));
                p2 = base64_chars ! nat (drop_bit 6 (c AND 0x00000fc0));
                p3 = base64_chars ! nat (c AND 0x0000003f);
                p3 = (if i > sz then base64_pad else p3);
                p2 = (if i > sz + 1 then base64_pad else p2)
            in [p0, p1, p2, p3] @ base64_encode_loop q sz i)
      else [])"
  by pat_completeness auto
termination by (relation "measure (\<lambda>(q, sz, i). nat (sz - i))") (auto simp: Let_def)

declare base64_encode_loop.simps [simp del]

definition openvpn_base64_encode :: "bytes \<Rightarrow> int \<Rightarrow> int \<times> bytes option" where
  "openvpn_base64_encode data sz =
     (if sz < 0 then (-1, None)
      else (let s = base64_encode_loop data sz 0 in (int (length s), Some s)))"

subsection \<open>Decoding\<close>

definition base64_pos :: "u8 \<Rightarrow> int" where
  "base64_pos c = (if c \<in> set base64_chars then int (length (takeWhile (\<lambda>x. x \<noteq> c) base64_chars)) else -1)"

definition DECODE_ERROR :: u32 where "DECODE_ERROR = 0xffffffff"

text \<open>The loop over the four characters: the value and the number of padding characters, \<open>None\<close> for an error.\<close>

fun token_decode_loop :: "bytes \<Rightarrow> u32 \<Rightarrow> nat \<Rightarrow> (u32 \<times> nat) option" where
  "token_decode_loop [] val marker = Some (val, marker)"
| "token_decode_loop (t # ts) val marker =
     (if t = base64_pad then token_decode_loop ts (val * 64) (marker + 1)
      else if marker > 0 then None
      else token_decode_loop ts (val * 64 + word_of_int (base64_pos t)) marker)"

definition token_decode :: "bytes \<Rightarrow> u32" where
  "token_decode token =
     (if length token < 4 then DECODE_ERROR
      else (case token_decode_loop (take 4 token) 0 0 of
              None \<Rightarrow> DECODE_ERROR
            | Some (val, marker) \<Rightarrow> (if marker > 2 then DECODE_ERROR else push_bit 24 (of_nat marker) OR val)))"

text \<open>
  Writing bytes at the end of the output \<open>q\<close>, each after the check \<open>e && q >= e\<close> for the end of the
  buffer, which makes the decoder return -1.
\<close>

fun put_bytes :: "int \<Rightarrow> bytes \<Rightarrow> bytes \<Rightarrow> bytes \<times> bool" where
  "put_bytes sz q [] = (q, True)"
| "put_bytes sz q (b # bs) = (if sz \<ge> 0 \<and> int (length q) \<ge> sz then (q, False) else put_bytes sz (q @ [b]) bs)"

definition group_bytes :: "u32 \<Rightarrow> bytes" where
  "group_bytes val =
     (let marker = drop_bit 24 val AND 0xff in
      [ucast (drop_bit 16 val AND 0xff)] @ (if marker < 2 then [ucast (drop_bit 8 val AND 0xff)] else [])
      @ (if marker < 1 then [ucast (val AND 0xff)] else []))"

function base64_decode_loop :: "bytes \<Rightarrow> int \<Rightarrow> bytes \<Rightarrow> int \<times> bytes" where
  "base64_decode_loop p sz q =
     (if p \<noteq> [] \<and> (hd p = base64_pad \<or> hd p \<in> set base64_chars)
      then (let val = token_decode p in
            if val = DECODE_ERROR then (-1, q)
            else (case put_bytes sz q (group_bytes val) of
                    (q, False) \<Rightarrow> (-1, q)
                  | (q, True) \<Rightarrow> base64_decode_loop (drop 4 p) sz q))
      else (int (length q), q))"
  by pat_completeness auto
termination by (relation "measure (\<lambda>(p, sz, q). length p)") auto

declare base64_decode_loop.simps [simp del]

text \<open>The result and the bytes written.\<close>

definition openvpn_base64_decode :: "bytes \<Rightarrow> int \<Rightarrow> int \<times> bytes" where
  "openvpn_base64_decode str sz = base64_decode_loop str sz []"

subsection \<open>One group of characters\<close>

lemma length_chars [simp]: "length base64_chars = 64"
  by (simp add: base64_chars_def)

lemma chars_distinct: "distinct base64_chars" "base64_pad \<notin> set base64_chars"
  by (simp_all add: base64_chars_def upt_conv_Cons)

lemma pos_chars:
  assumes "i < 64" shows "base64_pos (base64_chars ! i) = int i" "base64_chars ! i \<noteq> base64_pad"
proof -
  have mem: "base64_chars ! i \<in> set base64_chars" using assms by (intro nth_mem) simp
  have "takeWhile (\<lambda>x. x \<noteq> base64_chars ! i) base64_chars = take i base64_chars"
    using assms chars_distinct(1) by (intro takeWhile_eq_take_P_nth) (auto simp: nth_eq_iff_index_eq)
  then show "base64_pos (base64_chars ! i) = int i" using assms mem by (simp add: base64_pos_def)
  show "base64_chars ! i \<noteq> base64_pad" using mem chars_distinct(2) by metis
qed

lemma sextets:
  assumes "0 \<le> c" "c < 16777216"
  shows "drop_bit 18 (c AND 0x00fc0000) = c div 262144" "drop_bit 12 (c AND 0x0003f000) = c div 4096 mod 64"
    "drop_bit 6 (c AND 0x00000fc0) = c div 64 mod 64" "c AND 0x0000003f = (c mod 64 :: int)"
proof -
  have m: "x AND 63 = x mod 64" for x :: int
    using take_bit_eq_mask [of 6 x] by (simp add: mask_eq_exp_minus_1 take_bit_eq_mod)
  then show "c AND 0x0000003f = c mod 64" by simp
  have k: "drop_bit 18 (0x00fc0000 :: int) = 63" "drop_bit 12 (0x0003f000 :: int) = 63" "drop_bit 6 (0x00000fc0 :: int) = 63"
    by (simp_all add: drop_bit_eq_div)
  show "drop_bit 18 (c AND 0x00fc0000) = c div 262144" "drop_bit 12 (c AND 0x0003f000) = c div 4096 mod 64"
    "drop_bit 6 (c AND 0x00000fc0) = c div 64 mod 64"
    unfolding drop_bit_and k m using assms by (simp_all add: drop_bit_eq_div)
qed


text \<open>The value of three bytes, and its four characters.\<close>

definition triple :: "u8 \<Rightarrow> u8 \<Rightarrow> u8 \<Rightarrow> int" where
  "triple a b c = (uint a * 256 + uint b) * 256 + uint c"

lemma uint_u8: "0 \<le> uint (a :: u8)" "uint (a :: u8) < 256"
  using uint_lt2p [of a] by simp_all

lemma triple_bounds: "0 \<le> triple a b c" "triple a b c < 16777216"
  using uint_u8 [of a] uint_u8 [of b] uint_u8 [of c] by (simp_all add: triple_def)

definition quad :: "int \<Rightarrow> bytes" where
  "quad c = [base64_chars ! nat (c div 262144), base64_chars ! nat (c div 4096 mod 64),
     base64_chars ! nat (c div 64 mod 64), base64_chars ! nat (c mod 64)]"

lemma sextet_bounds:
  assumes "0 \<le> c" "c < 16777216"
  shows "nat (c div 262144) < 64" "nat (c div 4096 mod 64) < 64" "nat (c div 64 mod 64) < 64" "nat (c mod 64) < 64"
  using assms by (auto simp: nat_less_iff div_less_iff_less_mult)

text \<open>Decoding a group of one, two or three bytes.\<close>

lemma group_value: "((c div 262144 * 64 + c div 4096 mod 64) * 64 + c div 64 mod 64) * 64 + c mod 64 = (c :: int)"
proof -
  have "c div 4096 = c div 262144 * 64 + c div 4096 mod 64" using mult_div_mod_eq [of 64 "c div 4096"] by (simp add: zdiv_zmult2_eq [symmetric])
  moreover have "c div 64 = c div 4096 * 64 + c div 64 mod 64" using mult_div_mod_eq [of 64 "c div 64"] by (simp add: zdiv_zmult2_eq [symmetric])
  moreover have "c = c div 64 * 64 + c mod 64" using mult_div_mod_eq [of 64 c] by simp
  ultimately show ?thesis by simp
qed

definition group_quad :: "int \<Rightarrow> nat \<Rightarrow> bytes" where
  "group_quad c pad = take (4 - pad) (quad c) @ replicate pad base64_pad"

lemma token_char: "i < 64 \<Longrightarrow> token_decode_loop (base64_chars ! i # ts) val 0 = token_decode_loop ts (val * 64 + of_nat i) 0"
  using pos_chars [of i] by simp

lemma token_pad: "token_decode_loop (base64_pad # ts) val m = token_decode_loop ts (val * 64) (m + 1)"
  by simp

lemma token_decode_quad:
  assumes c: "0 \<le> c" "c < 16777216" and pad: "pad = 0 \<or> pad = 1 \<and> c mod 64 = 0 \<or> pad = 2 \<and> c mod 4096 = 0"
  shows "token_decode (group_quad c pad @ rest) = push_bit 24 (of_nat pad) OR word_of_int c"
proof -
  define i j k l where "i = c div 262144" and "j = c div 4096 mod 64" and "k = c div 64 mod 64" and "l = c mod 64"
  note b = sextet_bounds [OF c, folded i_def j_def k_def l_def]
  have nn: "0 \<le> i" "0 \<le> j" "0 \<le> k" "0 \<le> l" using c(1) by (simp_all add: i_def j_def k_def l_def)
  have v: "word_of_int (((i * 64 + j) * 64 + k) * 64 + l) = (word_of_int c :: u32)"
    unfolding i_def j_def k_def l_def group_value ..
  have n: "of_nat (nat x) = (word_of_int x :: u32)" if "0 \<le> x" for x using that by simp
  have quad: "quad c = [base64_chars ! nat i, base64_chars ! nat j, base64_chars ! nat k, base64_chars ! nat l]"
    by (simp add: quad_def i_def j_def k_def l_def)
  consider "pad = 0" | "pad = 1" "l = 0" | "pad = 2" "k = 0" "l = 0"
  proof -
    have "c mod 4096 = 0 \<Longrightarrow> l = 0 \<and> k = 0"
      unfolding k_def l_def by (auto simp: mod_eq_0_iff_dvd elim!: dvdE)
    then show ?thesis using pad that l_def by auto
  qed
  then show ?thesis
  proof cases
    case 1
    have "token_decode_loop (quad c) 0 0 = Some (word_of_int (((i * 64 + j) * 64 + k) * 64 + l), 0)"
      unfolding quad using b n [OF nn(1)] n [OF nn(2)] n [OF nn(3)] n [OF nn(4)] by (simp add: token_char del: of_nat_nat token_decode_loop.simps(2))
    then show ?thesis unfolding v using 1 quad by (simp add: token_decode_def group_quad_def)
  next
    case 2
    have "token_decode_loop (take 3 (quad c) @ [base64_pad]) 0 0 = Some (word_of_int (((i * 64 + j) * 64 + k) * 64 + l), 1)"
      unfolding quad using b n [OF nn(1)] n [OF nn(2)] n [OF nn(3)] 2(2) by (simp add: token_char token_pad numeral_3_eq_3 del: of_nat_nat token_decode_loop.simps(2))
    then show ?thesis unfolding v using 2 quad by (simp add: token_decode_def group_quad_def numeral_3_eq_3)
  next
    case 3
    have "token_decode_loop (take 2 (quad c) @ [base64_pad, base64_pad]) 0 0 = Some (word_of_int (((i * 64 + j) * 64 + k) * 64 + l), 2)"
      unfolding quad using b n [OF nn(1)] n [OF nn(2)] 3(2,3) by (simp add: token_char token_pad numeral_2_eq_2 del: of_nat_nat token_decode_loop.simps(2))
    then show ?thesis unfolding v using 3 quad by (simp add: token_decode_def group_quad_def numeral_2_eq_2)
  qed
qed


lemma triple_word: "word_of_int (triple a b d) = (push_bit 16 (ucast a) OR push_bit 8 (ucast b) OR ucast d :: u32)"
proof -
  have "word_of_int (triple a b d) = (push_bit 16 (ucast a) + (push_bit 8 (ucast b) + ucast d) :: u32)"
    by (simp add: triple_def push_bit_eq_mult word_of_int_uint algebra_simps flip: ucast_eq)
  also have "push_bit 8 (ucast b) + ucast d = (push_bit 8 (ucast b) OR ucast d :: u32)"
    by (rule disjunctive_add_eq_or) (auto intro!: bit_word_eqI simp: bit_simps)
  also have "push_bit 16 (ucast a) + (push_bit 8 (ucast b) OR ucast d) = (push_bit 16 (ucast a) OR (push_bit 8 (ucast b) OR ucast d) :: u32)"
    by (rule disjunctive_add_eq_or) (auto intro!: bit_word_eqI simp: bit_simps)
  finally show ?thesis .
qed

lemma value_bytes:
  fixes a b d :: u8
  assumes "pad \<le> 2"
  defines "val \<equiv> (push_bit 24 (of_nat pad) OR word_of_int (triple a b d) :: u32)"
  shows "val \<noteq> DECODE_ERROR" "group_bytes val = take (3 - pad) [a, b, d]"
proof -
  have m: "x AND 0xff = take_bit 8 x" for x :: u32 by (simp add: take_bit_eq_mask mask_eq_exp_minus_1)
  have p: "\<not> bit (of_nat pad :: u32) n" if "2 \<le> n" for n
  proof -
    have "pad = 0 \<or> pad = 1 \<or> pad = 2" using assms(1) by auto
    then show ?thesis using that by (auto simp: bit_simps)
  qed
  have mark: "drop_bit 24 val AND 0xff = of_nat pad"
    unfolding m val_def triple_word
  proof (intro bit_word_eqI)
    fix n assume "n < LENGTH(32)"
    have "n < 8" if "bit (of_nat pad :: u32) n" using p [of n] that by (cases "2 \<le> n") auto
    then show "bit (take_bit 8 (drop_bit 24 (push_bit 24 (of_nat pad) OR (push_bit 16 (ucast a) OR push_bit 8 (ucast b) OR ucast d)) :: u32)) n = bit (of_nat pad :: u32) n"
      using \<open>n < LENGTH(32)\<close> by (auto simp: bit_simps)
  qed
  then show "val \<noteq> DECODE_ERROR" using assms(1) by (auto simp: DECODE_ERROR_def m le_Suc_eq numeral_2_eq_2 take_bit_eq_mod)
  have "ucast (drop_bit 16 val AND 0xff) = a" "ucast (drop_bit 8 val AND 0xff) = b" "ucast (val AND 0xff) = d"
    unfolding m val_def triple_word by (auto intro!: bit_word_eqI simp: bit_simps)
  moreover have "pad = 0 \<or> pad = 1 \<or> pad = 2" using assms(1) by auto
  ultimately show "group_bytes val = take (3 - pad) [a, b, d]"
    unfolding group_bytes_def mark by (auto simp: numeral_2_eq_2)
qed

subsection \<open>Encoding and decoding\<close>

text \<open>The characters of a byte string, group by group.\<close>

fun base64_text :: "bytes \<Rightarrow> bytes" where
  "base64_text [] = []"
| "base64_text [a] = group_quad (triple a 0 0) 2"
| "base64_text [a, b] = group_quad (triple a b 0) 1"
| "base64_text (a # b # c # q) = group_quad (triple a b c) 0 @ base64_text q"

lemma group_quad_chars:
  assumes "0 \<le> c" "c < 16777216"
  shows "group_quad c 0 = [base64_chars ! nat (drop_bit 18 (c AND 0x00fc0000)), base64_chars ! nat (drop_bit 12 (c AND 0x0003f000)),
      base64_chars ! nat (drop_bit 6 (c AND 0x00000fc0)), base64_chars ! nat (c AND 0x0000003f)]"
    "group_quad c 1 = [base64_chars ! nat (drop_bit 18 (c AND 0x00fc0000)), base64_chars ! nat (drop_bit 12 (c AND 0x0003f000)),
      base64_chars ! nat (drop_bit 6 (c AND 0x00000fc0)), base64_pad]"
    "group_quad c 2 = [base64_chars ! nat (drop_bit 18 (c AND 0x00fc0000)), base64_chars ! nat (drop_bit 12 (c AND 0x0003f000)),
      base64_pad, base64_pad]"
  unfolding sextets [OF assms] by (simp_all add: group_quad_def quad_def numeral_2_eq_2 numeral_3_eq_3)

lemma encode_text:
  "base64_encode_loop (ps @ q) (int (length (ps @ q))) (int (length ps)) = base64_text q"
proof (induction q arbitrary: ps rule: base64_text.induct)
  case 1
  then show ?case by (subst base64_encode_loop.simps) simp
next
  case (2 a)
  show ?case
    using triple_bounds [of a 0 0]
    by (subst base64_encode_loop.simps, subst base64_encode_loop.simps)
      (simp add: Let_def q_at_def nth_append group_quad_chars(3) triple_def del: drop_bit_and)
next
  case (3 a b)
  show ?case
    using triple_bounds [of a b 0]
    by (subst base64_encode_loop.simps, subst base64_encode_loop.simps)
      (simp add: Let_def q_at_def nth_append group_quad_chars(2) [unfolded One_nat_def] triple_def nat_add_distrib)
next
  case (4 a b c q)
  have "base64_encode_loop (ps @ a # b # c # q) (int (length (ps @ a # b # c # q))) (int (length ps) + 1 + 1 + 1) = base64_text q"
    using 4 [of "ps @ [a, b, c]"] by (simp add: algebra_simps)
  then show ?case
    using triple_bounds [of a b c]
    by (subst base64_encode_loop.simps)
      (simp add: Let_def q_at_def nth_append group_quad_chars(1) triple_def nat_add_distrib)
qed


lemma length_group_quad: "length (group_quad c pad) = max 4 pad"
  by (simp add: group_quad_def quad_def)

lemma put_bytes_room: "sz < 0 \<or> int (length q + length bs) \<le> sz \<Longrightarrow> put_bytes sz q bs = (q @ bs, True)"
  by (induction bs arbitrary: q) auto

lemma put_bytes_bound: "0 \<le> sz \<Longrightarrow> int (length q) \<le> sz \<Longrightarrow> int (length (fst (put_bytes sz q bs))) \<le> sz"
  by (induction bs arbitrary: q) auto

lemma decode_group:
  assumes pad: "pad = 0 \<or> pad = 1 \<and> d = 0 \<or> pad = 2 \<and> b = 0 \<and> d = 0"
    and room: "sz < 0 \<or> int (length q) + int (3 - pad) \<le> sz"
  shows "base64_decode_loop (group_quad (triple a b d) pad @ rest) sz q = base64_decode_loop rest sz (q @ take (3 - pad) [a, b, d])"
proof -
  let ?c = "triple a b d" let ?p = "group_quad ?c pad @ rest"
  note c = triple_bounds [of a b d]
  have "pad = 0 \<or> pad = 1 \<and> ?c mod 64 = 0 \<or> pad = 2 \<and> ?c mod 4096 = 0"
    using pad by (auto simp: triple_def mod_add_eq mod_eq_0_iff_dvd)
  then have v: "token_decode ?p = push_bit 24 (of_nat pad) OR word_of_int ?c" by (rule token_decode_quad [OF c])
  have "pad \<le> 2" using pad by auto
  note val = value_bytes [OF this, of a b d, folded v]
  have h: "?p \<noteq> []" "hd ?p \<in> set base64_chars"
    using sextet_bounds(1) [OF c] pad by (auto simp: group_quad_def quad_def numeral_2_eq_2 numeral_3_eq_3 intro!: nth_mem)
  have "put_bytes sz q (take (3 - pad) [a, b, d]) = (q @ take (3 - pad) [a, b, d], True)"
    using room pad by (intro put_bytes_room) auto
  moreover have "drop 4 (group_quad ?c pad) = []" using pad by (intro drop_all) (auto simp: length_group_quad)
  ultimately show ?thesis
    using h(1,2) val(1) by (subst base64_decode_loop.simps) (simp add: Let_def val(2) length_group_quad)
qed

lemma decode_text:
  "sz < 0 \<or> int (length q + length bs) \<le> sz \<Longrightarrow> base64_decode_loop (base64_text bs) sz q = (int (length q + length bs), q @ bs)"
proof (induction bs arbitrary: q rule: base64_text.induct)
  case 1
  then show ?case by (subst base64_decode_loop.simps) simp
next
  case (2 a)
  have "base64_decode_loop [] sz (q @ [a]) = (int (length q + 1), q @ [a])" by (subst base64_decode_loop.simps) simp
  then show ?case using decode_group [of 2 0 0 sz q a "[]"] 2 by (simp add: add.commute)
next
  case (3 a b)
  have "base64_decode_loop [] sz (q @ [a, b]) = (int (length q + 2), q @ [a, b])" by (subst base64_decode_loop.simps) simp
  then show ?case using decode_group [of 1 0 b sz q a "[]"] 3 by (simp add: numeral_2_eq_2 algebra_simps)
next
  case (4 a b c bs)
  then show ?case using decode_group [of 0 c b sz q a "base64_text bs"] by (cases "sz < 0") (simp_all add: numeral_3_eq_3 algebra_simps)
qed

lemma length_text: "length (base64_text bs) = 4 * ((length bs + 2) div 3)"
  by (induction bs rule: base64_text.induct) (simp_all add: group_quad_def quad_def, presburger)

lemma encode_is_text: "openvpn_base64_encode bs (int (length bs)) = (int (length (base64_text bs)), Some (base64_text bs))"
  using encode_text [of "[]" bs] by (simp add: openvpn_base64_encode_def Let_def)

subsection \<open>Properties\<close>

text \<open>
  C30: Base64 round trip. Encoding a byte string gives four characters per started group of three
  bytes, which with the NUL fit the \<open>size * 4 / 3 + 4\<close> bytes allocated; and decoding the text into a buffer
  that has room (or with a negative size, that is without a limit) gives back exactly the bytes.
\<close>

theorem base64_roundtrip:
  assumes "sz < 0 \<or> int (length bs) \<le> sz"
  shows "\<exists>s. openvpn_base64_encode bs (int (length bs)) = (int (length s), Some s)
    \<and> length s = 4 * ((length bs + 2) div 3) \<and> length s + 1 \<le> length bs * 4 div 3 + 4
    \<and> openvpn_base64_decode s sz = (int (length bs), bs)"
proof -
  have "4 * ((length bs + 2) div 3) + 1 \<le> length bs * 4 div 3 + 4" by presburger
  then show ?thesis
    using decode_text [of sz "[]" bs] assms by (simp add: encode_is_text length_text openvpn_base64_decode_def)
qed

theorem base64_roundtrip_witness:
  "\<exists>s. openvpn_base64_encode [1, 2, 3, 255] 4 = (8, Some s) \<and> openvpn_base64_decode s 4 = (4, [1, 2, 3, 255])"
  using base64_roundtrip [of 4 "[1, 2, 3, 255]"] by auto

lemma decode_bounds:
  "0 \<le> sz \<Longrightarrow> int (length q) \<le> sz \<Longrightarrow> base64_decode_loop p sz q = (n, out) \<Longrightarrow> int (length out) \<le> sz \<and> (n = -1 \<or> n = int (length out))"
proof (induction "length p" arbitrary: p q rule: less_induct)
  case less
  obtain q' ok where put: "put_bytes sz q (group_bytes (token_decode p)) = (q', ok)" by (rule prod.exhaust)
  have q': "int (length q') \<le> sz" using put_bytes_bound [OF less.prems(1,2), of "group_bytes (token_decode p)"] put by simp
  show ?case
  proof (cases "p \<noteq> [] \<and> (hd p = base64_pad \<or> hd p \<in> set base64_chars) \<and> token_decode p \<noteq> DECODE_ERROR \<and> ok")
    case True
    then have "base64_decode_loop (drop 4 p) sz q' = (n, out)"
      using less.prems(3) put by (subst (asm) base64_decode_loop.simps) (simp add: Let_def)
    then show ?thesis using less.hyps [of "drop 4 p" q'] True q' less.prems(1) by simp
  next
    case False
    then show ?thesis
      using less.prems put q' by (auto simp: base64_decode_loop.simps [of p sz q] Let_def split: if_splits)
  qed
qed

text \<open>
  C34: The decoder never writes more bytes than the size it is given, on any input, well-formed or
  not; it returns -1 or the number of bytes it wrote.
\<close>

theorem base64_decode_bounded:
  assumes "0 \<le> sz"
  shows "int (length (snd (openvpn_base64_decode s sz))) \<le> sz
    \<and> fst (openvpn_base64_decode s sz) \<in> {-1, int (length (snd (openvpn_base64_decode s sz)))}"
  using decode_bounds [OF assms, of "[]" s] assms by (cases "openvpn_base64_decode s sz") (auto simp: openvpn_base64_decode_def)

theorem base64_decode_bounded_witness:
  "int (length (snd (openvpn_base64_decode [81, 85, 74, 68] 2))) \<le> 2"
  using base64_decode_bounded [of 2 "[81, 85, 74, 68]"] by simp

text \<open>
  The decoder accepts invalid characters inside a group: \<open>token_decode\<close> adds the -1 of an unknown
  character to the value, so that \<open>A*AA\<close> decodes to one byte instead of an error.
\<close>

theorem base64_invalid_character: "openvpn_base64_decode [65, 42, 65, 65] 8 = (1, [255])"
proof -
  have p: "base64_pos 65 = 0" "base64_pos 42 = -1" "65 \<in> set base64_chars"
    by (simp_all add: base64_pos_def base64_chars_def upt_conv_Cons)
  have "token_decode [65, 42, 65, 65] = 0xfffff000" by (simp add: token_decode_def p)
  then show ?thesis
    by (simp add: openvpn_base64_decode_def base64_decode_loop.simps [of "[65, 42, 65, 65]"] base64_decode_loop.simps [of "[]"]
        p DECODE_ERROR_def group_bytes_def Let_def)
qed

end
