(* ===== verification/Mss.thy ===== *)
theory Mss
  imports Buffer
begin

text \<open>
  Lowering the TCP maximum segment size of passing SYN packets (mss.c), with the incremental
  update of the internet checksum (\<open>ADJUST_CHECKSUM\<close> of proto.h).

  A 16-bit field of a header is read and written in the host's byte order; \<open>le\<close> says whether the host
  is little-endian. The work on the options is on the bytes of the buffer: every access is
  within its length. \<open>verify_align_4\<close> is empty in this build.
\<close>

subsection \<open>The checksum\<close>

definition ADJUST_CHECKSUM :: "int \<Rightarrow> u16 \<Rightarrow> u16" where
  "ADJUST_CHECKSUM acc cksum =
     (let a = acc + uint cksum in
      if a < 0
      then (let a = - a; a = drop_bit 16 a + (a AND 0xffff); a = a + drop_bit 16 a in word_of_int (NOT a))
      else (let a = drop_bit 16 a + (a AND 0xffff); a = a + drop_bit 16 a in word_of_int a))"

subsection \<open>Headers\<close>

definition OPENVPN_TCPH_GET_DOFF :: "u8 \<Rightarrow> int" where
  "OPENVPN_TCPH_GET_DOFF d = drop_bit 2 (uint d AND 0xF0)"

definition OPENVPN_IPH_GET_LEN :: "u8 \<Rightarrow> int" where
  "OPENVPN_IPH_GET_LEN v = push_bit 2 (uint v AND 0x0F)"

definition tcp_header_size :: int where "tcp_header_size = 20"
definition ip_header_size :: int where "ip_header_size = 20"
definition ipv6_header_size :: int where "ipv6_header_size = 40"

subsection \<open>The TCP options\<close>

text \<open>The assignments to \<open>opt[2]\<close>, \<open>opt[3]\<close> and \<open>tc->check\<close> (bytes 16 and 17 of the header).\<close>

definition mss_lower :: "bool \<Rightarrow> u16 \<Rightarrow> bytes \<Rightarrow> nat \<Rightarrow> bytes" where
  "mss_lower le maxmss d opt =
     (let mssval = push_bit 8 (ucast (d ! (opt + 2))) + ucast (d ! (opt + 3)) in
      if mssval > maxmss
      then (let accumulate = htons_value le mssval;
                d = d[opt + 2 := ucast (drop_bit 8 maxmss AND 0xff)];
                d = d[opt + 3 := ucast (maxmss AND 0xff)];
                accumulate = accumulate - htons_value le maxmss;
                check = ADJUST_CHECKSUM accumulate (word_of_int (native16 le (d ! 16) (d ! 17)))
            in patch d 16 (native16_bytes le check))
      else d)"

lemma uint_pos_iff: "0 < uint x \<longleftrightarrow> uint x \<noteq> 0"
  using uint_ge_0 [of x] by linarith

function mss_option_loop :: "bool \<Rightarrow> u16 \<Rightarrow> bytes \<Rightarrow> int \<Rightarrow> nat \<Rightarrow> bytes" where
  "mss_option_loop le maxmss d olen opt =
     (if olen > 1
      then (if d ! opt = 0 then d
            else if d ! opt = 1 then mss_option_loop le maxmss d (olen - 1) (opt + 1)
            else (let optlen = uint (d ! (opt + 1)) in
              if optlen \<le> 0 \<or> optlen > olen then d
              else if d ! opt = 2 \<and> optlen = 4
              then mss_option_loop le maxmss (mss_lower le maxmss d opt) (olen - optlen) (opt + nat optlen)
              else mss_option_loop le maxmss d (olen - optlen) (opt + nat optlen)))
      else d)"
  by pat_completeness auto
termination by (relation "measure (\<lambda>(le, maxmss, d, olen, opt). nat olen)") (auto simp: uint_pos_iff)

declare mss_option_loop.simps [simp del]

definition mss_fixup_dowork :: "bool \<Rightarrow> bytes \<Rightarrow> u16 \<Rightarrow> bytes" where
  "mss_fixup_dowork le d maxmss =
     (if int (length d) < tcp_header_size then d
      else (let hlen = OPENVPN_TCPH_GET_DOFF (d ! 12) in
        if hlen \<le> tcp_header_size \<or> hlen > int (length d) then d
        else mss_option_loop le maxmss d (hlen - tcp_header_size) 20))"

subsection \<open>The IP packets\<close>

text \<open>\<open>newbuf\<close> shares the memory of \<open>buf\<close>: the work on it is written back through its offset.\<close>

definition mss_fixup_tcp :: "bool \<Rightarrow> buffer \<Rightarrow> buffer \<Rightarrow> u16 \<Rightarrow> buffer" where
  "mss_fixup_tcp le buf newbuf maxmss =
     (let tc = buf_content newbuf in
      if tc ! 13 AND 2 \<noteq> 0 then buf_poke buf (b_offset newbuf) (mss_fixup_dowork le tc maxmss) else buf)"

definition mss_fixup_ipv4 :: "bool \<Rightarrow> buffer \<Rightarrow> u16 \<Rightarrow> buffer" where
  "mss_fixup_ipv4 le buf maxmss =
     (if buf_len buf < ip_header_size then buf
      else (let pip = buf_content buf; hlen = OPENVPN_IPH_GET_LEN (pip ! 0) in
        if pip ! 9 = 6 \<and> uint (be16_of (segment 2 2 pip)) = buf_len buf
          \<and> be16_of (segment 6 2 pip) AND 0x1fff = 0 \<and> hlen \<le> buf_len buf \<and> buf_len buf - hlen \<ge> tcp_header_size
        then (let (newbuf, ok) = buf_advance buf hlen in if ok then mss_fixup_tcp le buf newbuf maxmss else buf)
        else buf))"

definition mss_fixup_ipv6 :: "bool \<Rightarrow> buffer \<Rightarrow> u16 \<Rightarrow> buffer" where
  "mss_fixup_ipv6 le buf maxmss =
     (if buf_len buf < ipv6_header_size then buf
      else (let pip6 = buf_content buf in
        if buf_len buf \<noteq> uint (be16_of (segment 4 2 pip6)) + 40 then buf
        else if pip6 ! 6 \<noteq> 6 then buf
        else (let (newbuf, ok) = buf_advance buf 40 in
          if ok \<and> buf_len newbuf \<ge> tcp_header_size then mss_fixup_tcp le buf newbuf (maxmss - 20) else buf)))"

subsection \<open>The checksum stays right\<close>

lemma and_mask16: "a AND 0xffff = (a :: int) mod 65536"
  using take_bit_eq_mask [of 16 a] by (simp add: mask_eq_exp_minus_1 take_bit_eq_mod)

lemma fold_mod: "(drop_bit 16 a + (a AND 0xffff)) mod 65535 = (a :: int) mod 65535"
proof -
  have "a = (a div 65536 + a mod 65536) + a div 65536 * 65535" using div_mult_mod_eq [of a 65536] by linarith
  then have "a mod 65535 = (a div 65536 + a mod 65536) mod 65535" by (metis mod_mult_self1)
  then show ?thesis by (simp add: drop_bit_eq_div and_mask16)
qed

text \<open>Folding twice leaves sixteen bits with the same remainder.\<close>

lemma fold_twice:
  fixes a :: int
  assumes a: "0 \<le> a" "a < 2 ^ 31"
  defines "b \<equiv> drop_bit 16 a + (a AND 0xffff)"
  shows "(b + drop_bit 16 b) mod 65536 mod 65535 = a mod 65535" "0 \<le> b + drop_bit 16 b"
proof -
  have b: "b = a div 65536 + a mod 65536" by (simp add: b_def drop_bit_eq_div and_mask16)
  have bb: "0 \<le> b" "b < 98304" using a by (auto simp: b)
  have "(b + b div 65536) mod 65536 mod 65535 = b mod 65535"
  proof (cases "b < 65536")
    case True
    then show ?thesis using bb by simp
  next
    case False
    then have "b div 65536 = 1" using bb by (intro int_div_pos_eq [of _ _ _ "b - 65536"]) auto
    moreover have "(b + 1) mod 65536 = b - 65535" using bb False by (intro int_mod_pos_eq [of _ _ 1]) auto
    moreover have "b mod 65535 = (b - 65535) mod 65535" by simp
    ultimately show ?thesis by simp
  qed
  then show "(b + drop_bit 16 b) mod 65536 mod 65535 = a mod 65535"
    using fold_mod [of a] by (simp add: drop_bit_eq_div b_def)
  show "0 \<le> b + drop_bit 16 b" using bb by (simp add: drop_bit_eq_div)
qed

lemma not_mod16: "(NOT c) mod 65536 = 65535 - c mod (65536 :: int)"
proof (rule int_mod_pos_eq [of _ _ "- (c div 65536) - 1"])
  show "NOT c = 65536 * (- (c div 65536) - 1) + (65535 - c mod 65536)"
    by (simp add: not_int_def) (use div_mult_mod_eq [of c 65536] in linarith)
qed (use pos_mod_bound [of 65536 c] pos_mod_sign [of 65536 c] in linarith)+

lemma complement_mod: "(65535 - r) mod 65535 = (- (r mod 65535)) mod (65535 :: int)"
proof -
  have "(65535 - r) mod 65535 = (- r) mod 65535" using mod_add_self1 [of 65535 "- r"] by simp
  then show ?thesis by (simp add: mod_minus_eq)
qed

lemma adjust_checksum_law:
  assumes "\<bar>acc + uint cksum\<bar> < 2 ^ 31"
  shows "uint (ADJUST_CHECKSUM acc cksum) mod 65535 = (acc + uint cksum) mod 65535"
proof (cases "acc + uint cksum < 0")
  case True
  let ?a = "- (acc + uint cksum)"
  let ?b = "drop_bit 16 ?a + (?a AND 0xffff)" let ?c = "?b + drop_bit 16 ?b"
  have f: "?c mod 65536 mod 65535 = ?a mod 65535" using True assms by (intro fold_twice) auto
  have "uint (ADJUST_CHECKSUM acc cksum) = (NOT ?c) mod 65536"
    using True by (simp add: ADJUST_CHECKSUM_def Let_def uint_word_of_int del: minus_add_distrib)
  also have "\<dots> = 65535 - ?c mod 65536" by (rule not_mod16)
  also have "\<dots> mod 65535 = (- (?c mod 65536 mod 65535)) mod 65535" by (rule complement_mod)
  also have "\<dots> = (- ?a) mod 65535" unfolding f by (rule mod_minus_eq)
  finally show ?thesis by (simp add: add.commute)
next
  case False
  let ?a = "acc + uint cksum"
  have "?a \<ge> 0" "?a < 2 ^ 31" using False assms by auto
  note fold = fold_twice(1) [OF this]
  have "ADJUST_CHECKSUM acc cksum = word_of_int (drop_bit 16 ?a + (?a AND 0xffff) + drop_bit 16 (drop_bit 16 ?a + (?a AND 0xffff)))"
    using False by (simp only: ADJUST_CHECKSUM_def Let_def if_False)
  then have "uint (ADJUST_CHECKSUM acc cksum) = (drop_bit 16 ?a + (?a AND 0xffff) + drop_bit 16 (drop_bit 16 ?a + (?a AND 0xffff))) mod 65536"
    by (simp only: uint_word_of_int) simp
  then show ?thesis using fold by simp
qed


text \<open>
  The sum of the 16-bit words of a segment in host order, a last odd byte padded with zero: the
  internet checksum is right when this sum, with the pseudo header, is 0 modulo 65535.
\<close>

fun tcp_sum :: "bool \<Rightarrow> bytes \<Rightarrow> int" where
  "tcp_sum le [] = 0"
| "tcp_sum le [a] = native16 le a 0"
| "tcp_sum le (a # b # d) = native16 le a b + tcp_sum le d"

lemma tcp_sum_word:
  "Suc (2 * k) < length d \<Longrightarrow> tcp_sum le (d[2 * k := x, Suc (2 * k) := y])
     = tcp_sum le d - native16 le (d ! (2 * k)) (d ! Suc (2 * k)) + native16 le x y"
proof (induction k arbitrary: d)
  case 0
  then obtain a b r where "d = a # b # r" by (cases d; cases "tl d") auto
  then show ?case by simp
next
  case (Suc k)
  then obtain a b r where d: "d = a # b # r" by (cases d; cases "tl d") auto
  then show ?case using Suc by simp
qed

lemma mss_value: "htons_value le (push_bit 8 (ucast a) + ucast b) = native16 le a b"
proof -
  have w: "push_bit 8 (ucast a) + ucast b = (push_bit 8 (ucast a) OR ucast b :: u16)"
    by (rule disjunctive_add_eq_or) (auto intro!: bit_word_eqI simp: bit_simps)
  have "ucast (drop_bit 8 (push_bit 8 (ucast a) OR ucast b :: u16)) = a" "ucast (push_bit 8 (ucast a) OR ucast b :: u16) = b"
    by (auto intro!: bit_word_eqI simp: bit_simps)
  then show ?thesis by (simp add: htons_value_def w)
qed

lemma mss_bytes: "htons_value le w = native16 le (ucast (drop_bit 8 w AND 0xff)) (ucast (w AND 0xff))"
proof -
  have m: "x AND 0xff = take_bit 8 x" for x :: u16 by (simp add: take_bit_eq_mask mask_eq_exp_minus_1)
  have "(ucast (drop_bit 8 w) :: u8) = ucast (drop_bit 8 w AND 0xff)" "(ucast w :: u8) = ucast (w AND 0xff)"
    unfolding m by (auto intro!: bit_word_eqI simp: bit_simps)
  then show ?thesis by (simp add: htons_value_def)
qed

lemma patch_word: "Suc i < length d \<Longrightarrow> patch d i [x, y] = d[i := x, Suc i := y]"
proof -
  assume i: "Suc i < length d"
  have d: "d = take i d @ d ! i # d ! Suc i # drop (Suc (Suc i)) d" using i by (simp add: Cons_nth_drop_Suc)
  have l: "length (take i d) = i" using i by simp
  have "patch (take i d @ a # b # r) i [x, y] = (take i d @ a # b # r)[i := x, Suc i := y]" for a b r
    using l by (simp add: patch_def list_update_append)
  from this [of "d ! i" "d ! Suc i" "drop (Suc (Suc i)) d"] show ?thesis unfolding d [symmetric] .
qed

definition mss_of :: "bytes \<Rightarrow> nat \<Rightarrow> u16" where
  "mss_of d opt = push_bit 8 (ucast (d ! (opt + 2))) + ucast (d ! (opt + 3))"


text \<open>Lowering the option at \<open>opt\<close>: the bytes that change, and the sum when \<open>opt\<close> is even.\<close>

lemma mss_lower_bytes:
  assumes "20 \<le> opt" "opt + 3 < length d"
  shows "length (mss_lower le maxmss d opt) = length d"
    "\<And>i. i \<notin> {16, 17, opt + 2, opt + 3} \<Longrightarrow> mss_lower le maxmss d opt ! i = d ! i"
    "mss_of d opt > maxmss \<Longrightarrow> mss_lower le maxmss d opt ! (opt + 2) = ucast (drop_bit 8 maxmss AND 0xff)"
    "mss_of d opt > maxmss \<Longrightarrow> mss_lower le maxmss d opt ! (opt + 3) = ucast (maxmss AND 0xff)"
proof -
  have "native16_bytes le w = [x, y] \<Longrightarrow> patch d' 16 (native16_bytes le w) = d'[16 := x, Suc 16 := y]"
    if "length d' = length d" for w d' x y using that assms by (simp add: patch_word)
  then have p: "patch d' 16 (native16_bytes le w) = d'[16 := native16_bytes le w ! 0, Suc 16 := native16_bytes le w ! 1]"
    if "length d' = length d" for w d' using native16_bytes_list that by blast
  show "length (mss_lower le maxmss d opt) = length d" by (simp add: mss_lower_def Let_def p)
  show "mss_lower le maxmss d opt ! i = d ! i" if "i \<notin> {16, 17, opt + 2, opt + 3}" for i
    using that by (simp add: mss_lower_def Let_def p)
  have n: "opt + 2 \<noteq> 16" "opt + 2 \<noteq> 17" "opt + 3 \<noteq> 16" "opt + 3 \<noteq> 17" "opt + 2 < length d" using assms by auto
  show "mss_lower le maxmss d opt ! (opt + 2) = ucast (drop_bit 8 maxmss AND 0xff)"
    "mss_lower le maxmss d opt ! (opt + 3) = ucast (maxmss AND 0xff)" if "mss_of d opt > maxmss"
    using that n assms(2) by (simp_all add: mss_lower_def mss_of_def Let_def p nth_list_update)
qed

lemma mss_lower_value:
  assumes "20 \<le> opt" "opt + 3 < length d"
  shows "mss_of (mss_lower le maxmss d opt) opt = min (mss_of d opt) maxmss"
proof -
  have w: "push_bit 8 (ucast (ucast (drop_bit 8 m AND 0xff) :: u8)) + ucast (ucast (m AND 0xff) :: u8) = m" for m :: u16
  proof -
    have k: "x AND 0xff = take_bit 8 x" for x :: u16 by (simp add: take_bit_eq_mask mask_eq_exp_minus_1)
    have "push_bit 8 (ucast (ucast (drop_bit 8 m AND 0xff) :: u8)) + ucast (ucast (m AND 0xff) :: u8)
        = (push_bit 8 (ucast (ucast (drop_bit 8 m AND 0xff) :: u8)) OR ucast (ucast (m AND 0xff) :: u8) :: u16)"
      by (rule disjunctive_add_eq_or) (auto intro!: bit_word_eqI simp: bit_simps)
    also have "\<dots> = m" unfolding k by (auto intro!: bit_word_eqI simp: bit_simps)
    finally show ?thesis .
  qed
  show ?thesis
  proof (cases "mss_of d opt > maxmss")
    case True
    have "mss_of (mss_lower le maxmss d opt) opt = maxmss"
      unfolding mss_of_def mss_lower_bytes(3,4) [OF assms True] by (rule w)
    then show ?thesis using True by (simp add: min_def not_le [symmetric])
  next
    case False
    then show ?thesis by (auto simp: mss_lower_def mss_of_def Let_def min_def)
  qed
qed

text \<open>What a byte contributes to the sum depends on the parity of its offset.\<close>

definition byte_weight :: "bool \<Rightarrow> nat \<Rightarrow> int" where
  "byte_weight le i = (if even i = le then 1 else 256)"

lemma native16_weight: "native16 le a b = byte_weight le 0 * uint a + byte_weight le 1 * uint b"
  by (simp add: native16_def byte_weight_def)

lemma tcp_sum_update:
  "i < length d \<Longrightarrow> tcp_sum le (d[i := x]) = tcp_sum le d + byte_weight le i * (uint x - uint (d ! i))"
proof (induction le d arbitrary: i rule: tcp_sum.induct)
  case (3 le a b d)
  consider "i = 0" | "i = 1" | j where "i = Suc (Suc j)" by (metis One_nat_def not0_implies_Suc)
  then show ?case
  proof cases
    case 3
    then have "byte_weight le i = byte_weight le j" by (simp add: byte_weight_def)
    then show ?thesis using "3.IH" [of j] "3.prems" 3 by simp
  qed (auto simp: native16_def byte_weight_def algebra_simps)
qed (auto simp: native16_def byte_weight_def)

text \<open>
  What lowering the value of the option at \<open>opt\<close> does to the sum: nothing when \<open>opt\<close> is even; otherwise
  the weights of the two bytes are not those of the update of the checksum.
\<close>

definition odd_error :: "bool \<Rightarrow> u16 \<Rightarrow> u16 \<Rightarrow> int" where
  "odd_error le new old = (if le then 255 else - 255)
     * ((uint new div 256 - uint new mod 256) - (uint old div 256 - uint old mod 256))"

lemma mss_of_bytes: "uint (mss_of d opt) = 256 * uint (d ! (opt + 2)) + uint (d ! (opt + 3))"
  using mss_value [of False "d ! (opt + 2)" "d ! (opt + 3)"] native16_bytes_value [of False "mss_of d opt"]
  by (simp add: mss_of_def htons_value_def native16_bytes_def native16_def)

lemma max_bytes: "uint w = 256 * uint (ucast (drop_bit 8 w AND 0xff) :: u8) + uint (ucast (w AND 0xff) :: u8)" for w :: u16
  using mss_bytes [of False w] native16_bytes_value [of False w]
  by (simp add: htons_value_def native16_bytes_def native16_def)

lemma bytes_div_mod: "uint w = 256 * uint (a :: u8) + uint (b :: u8) \<Longrightarrow> uint w div 256 = uint a \<and> uint w mod 256 = uint b"
  using uint_lt2p [of b] by simp

lemma mss_lower_sum_error:
  assumes "20 \<le> opt" "opt + 3 < length d" "mss_of d opt > maxmss"
  shows "tcp_sum le (mss_lower le maxmss d opt) mod 65535
    = (tcp_sum le d + (if even opt then 0 else odd_error le maxmss (mss_of d opt))) mod 65535"
proof -
  define hi lo where "hi = (ucast (drop_bit 8 maxmss AND 0xff) :: u8)" and "lo = (ucast (maxmss AND 0xff) :: u8)"
  define d1 where "d1 = d[opt + 2 := hi, opt + 3 := lo]"
  define acc where "acc = native16 le (d ! (opt + 2)) (d ! (opt + 3)) - native16 le hi lo"
  define old where "old = native16 le (d ! 16) (d ! 17)"
  define check where "check = ADJUST_CHECKSUM acc (word_of_int old)"
  define x y where "x = native16_bytes le check ! 0" and "y = native16_bytes le check ! 1"
  have d16: "d1 ! 16 = d ! 16" "d1 ! 17 = d ! 17" "17 < length d1" using assms by (auto simp: d1_def)
  have "mss_lower le maxmss d opt = patch d1 16 (native16_bytes le check)"
    using assms(3) mss_value [of le "d ! (opt + 2)" "d ! (opt + 3)"] mss_bytes [of le maxmss] d16(1,2)
    unfolding mss_lower_def mss_of_def Let_def by (simp add: d1_def hi_def lo_def acc_def old_def check_def)
  also have "\<dots> = d1[2 * 8 := x, Suc (2 * 8) := y]"
    using patch_word [of 16 d1 x y] native16_bytes_list [of le check] d16(3) by (simp add: x_def y_def)
  finally have low: "mss_lower le maxmss d opt = d1[2 * 8 := x, Suc (2 * 8) := y]" .
  have "tcp_sum le (mss_lower le maxmss d opt) = tcp_sum le d1 - old + uint check"
    unfolding low using tcp_sum_word [of 8 d1 le x y] d16 native16_bytes_value [of le check] by (simp add: old_def x_def y_def)
  moreover have "tcp_sum le d1 = tcp_sum le d + byte_weight le opt * (uint hi - uint (d ! (opt + 2)))
      + byte_weight le (opt + 1) * (uint lo - uint (d ! (opt + 3)))"
    using assms(2) by (simp add: d1_def tcp_sum_update byte_weight_def)
  moreover have "byte_weight le opt * (uint hi - uint (d ! (opt + 2))) + byte_weight le (opt + 1) * (uint lo - uint (d ! (opt + 3)))
      = (if even opt then 0 else odd_error le maxmss (mss_of d opt)) - acc"
    using bytes_div_mod [OF mss_of_bytes, of d opt] bytes_div_mod [OF max_bytes, of maxmss]
    by (auto simp: acc_def native16_weight byte_weight_def odd_error_def hi_def lo_def algebra_simps)
  ultimately have sum: "tcp_sum le (mss_lower le maxmss d opt)
      = tcp_sum le d + (if even opt then 0 else odd_error le maxmss (mss_of d opt)) - (acc + old) + uint check" by linarith
  have u: "uint (word_of_int old :: u16) = old" unfolding old_def by (rule uint_native16)
  have "\<bar>acc + old\<bar> < 2147483648"
    using native16_range [of le "d ! (opt + 2)" "d ! (opt + 3)"] native16_range [of le hi lo] native16_range [of le "d ! 16" "d ! 17"]
    unfolding acc_def old_def by arith
  then have "uint check mod 65535 = (acc + old) mod 65535"
    using adjust_checksum_law [of acc "word_of_int old"] u by (simp add: check_def)
  then have "(s - (acc + old) + uint check) mod 65535 = (s - (acc + old) + (acc + old)) mod 65535" for s
    by (rule mod_add_cong [OF refl])
  then show ?thesis unfolding sum by (simp del: diff_add_cancel)
qed

lemma mss_lower_sum:
  assumes "20 \<le> opt" "opt + 3 < length d" "even opt"
  shows "tcp_sum le (mss_lower le maxmss d opt) mod 65535 = tcp_sum le d mod 65535"
proof (cases "mss_of d opt > maxmss")
  case True
  then show ?thesis using mss_lower_sum_error [OF assms(1,2) True] assms(3) by simp
qed (simp add: mss_lower_def mss_of_def Let_def)

text \<open>The MSS options that the loop visits.\<close>

function mss_options :: "bytes \<Rightarrow> int \<Rightarrow> nat \<Rightarrow> nat list" where
  "mss_options d olen opt =
     (if olen > 1
      then (if d ! opt = 0 then []
            else if d ! opt = 1 then mss_options d (olen - 1) (opt + 1)
            else if uint (d ! (opt + 1)) \<le> 0 \<or> uint (d ! (opt + 1)) > olen then []
            else (if d ! opt = 2 \<and> uint (d ! (opt + 1)) = 4 then [opt] else [])
              @ mss_options d (olen - uint (d ! (opt + 1))) (opt + nat (uint (d ! (opt + 1)))))
      else [])"
  by pat_completeness auto
termination by (relation "measure (\<lambda>(d, olen, opt). nat olen)") (auto simp: uint_pos_iff)

declare mss_options.simps [simp del]

text \<open>One step of the walk: nothing more, or the length of the option and whether it is an MSS option.\<close>

definition option_step :: "u8 \<Rightarrow> u8 \<Rightarrow> int \<Rightarrow> (nat \<times> bool) option" where
  "option_step a b olen =
     (if olen > 1 \<and> a \<noteq> 0
      then (if a = 1 then Some (1, False)
            else if uint b \<le> 0 \<or> uint b > olen then None
            else Some (nat (uint b), a = 2 \<and> uint b = 4))
      else None)"

lemma option_step_bounds:
  "option_step a b olen = Some (n, m) \<Longrightarrow> 0 < n \<and> int n \<le> olen \<and> (m \<longrightarrow> n = 4) \<and> 1 < olen"
proof -
  assume st: "option_step a b olen = Some (n, m)"
  have u: "int (nat (uint b)) = uint b" "0 \<le> uint b" by simp_all
  show ?thesis using st u unfolding option_step_def by (auto split: if_splits simp: uint_pos_iff simp del: nat_uint_eq)
qed

lemma options_step:
  "mss_options d olen opt = (case option_step (d ! opt) (d ! (opt + 1)) olen of
     None \<Rightarrow> [] | Some (n, m) \<Rightarrow> (if m then [opt] else []) @ mss_options d (olen - int n) (opt + n))"
  by (subst mss_options.simps) (simp add: option_step_def)

lemma loop_step:
  "mss_option_loop le maxmss d olen opt = (case option_step (d ! opt) (d ! (opt + 1)) olen of
     None \<Rightarrow> d | Some (n, m) \<Rightarrow> mss_option_loop le maxmss (if m then mss_lower le maxmss d opt else d) (olen - int n) (opt + n))"
proof (cases "olen > 1 \<and> d ! opt \<noteq> 0 \<and> d ! opt \<noteq> 1 \<and> 0 < uint (d ! (opt + 1)) \<and> uint (d ! (opt + 1)) \<le> olen")
  case True
  then have "option_step (d ! opt) (d ! (opt + 1)) olen = Some (nat (uint (d ! (opt + 1))), d ! opt = 2 \<and> uint (d ! (opt + 1)) = 4)"
    by (simp add: option_step_def del: nat_uint_eq)
  then show ?thesis using True unfolding mss_option_loop.simps [of le maxmss d olen opt] Let_def by (simp del: nat_uint_eq)
next
  case False
  then show ?thesis unfolding mss_option_loop.simps [of le maxmss d olen opt] option_step_def Let_def by auto
qed

lemma options_range: "p \<in> set (mss_options d olen opt) \<Longrightarrow> opt \<le> p \<and> int p + 4 \<le> int opt + olen"
proof (induction "nat olen" arbitrary: olen opt rule: less_induct)
  case less
  then obtain n m where st: "option_step (d ! opt) (d ! (opt + 1)) olen = Some (n, m)"
    unfolding options_step [of d olen opt] by (cases "option_step (d ! opt) (d ! (opt + 1)) olen") auto
  note b = option_step_bounds [OF st]
  have "p \<in> set ((if m then [opt] else []) @ mss_options d (olen - int n) (opt + n))"
    using less.prems st unfolding options_step [of d olen opt] by simp
  then consider "m" "p = opt" | "p \<in> set (mss_options d (olen - int n) (opt + n))" by (auto split: if_splits)
  then show ?case using b less.hyps [of "olen - int n" "opt + n"] by cases auto
qed

lemma options_same:
  "(\<And>i. opt \<le> i \<Longrightarrow> int i < int opt + olen \<Longrightarrow> d' ! i = d ! i) \<Longrightarrow> mss_options d' olen opt = mss_options d olen opt"
proof (induction "nat olen" arbitrary: olen opt rule: less_induct)
  case less
  have e: "option_step (d' ! opt) (d' ! (opt + 1)) olen = option_step (d ! opt) (d ! (opt + 1)) olen"
    using less.prems [of opt] less.prems [of "opt + 1"] by (auto simp: option_step_def)
  show ?case
  proof (cases "option_step (d ! opt) (d ! (opt + 1)) olen")
    case None
    then show ?thesis using e by (simp add: options_step [of d'] options_step [of d])
  next
    case (Some nm)
    obtain n m where st: "option_step (d ! opt) (d ! (opt + 1)) olen = Some (n, m)" using Some by (cases nm) auto
    note b = option_step_bounds [OF st]
    have "mss_options d' (olen - int n) (opt + n) = mss_options d (olen - int n) (opt + n)"
      using b by (intro less.hyps) (auto intro!: less.prems)
    then show ?thesis using e st by (simp add: options_step [of d' olen] options_step [of d olen])
  qed
qed

definition mss_result :: "bool \<Rightarrow> u16 \<Rightarrow> bytes \<Rightarrow> int \<Rightarrow> nat \<Rightarrow> bytes \<Rightarrow> bool" where
  "mss_result le maxmss d olen opt d' \<longleftrightarrow> length d' = length d
     \<and> (\<forall>i. i \<noteq> 16 \<and> i \<noteq> 17 \<and> (\<forall>p \<in> set (mss_options d olen opt). i \<noteq> p + 2 \<and> i \<noteq> p + 3) \<longrightarrow> d' ! i = d ! i)
     \<and> (\<forall>p \<in> set (mss_options d olen opt). mss_of d' p = min (mss_of d p) maxmss)
     \<and> ((\<forall>p \<in> set (mss_options d olen opt). even p) \<longrightarrow> tcp_sum le d' mod 65535 = tcp_sum le d mod 65535)"

lemma mss_result_refl: "mss_options d olen opt = [] \<Longrightarrow> mss_result le maxmss d olen opt d"
  by (simp add: mss_result_def)

lemma mss_loop_law: "20 \<le> opt \<Longrightarrow> int opt + olen \<le> int (length d) \<Longrightarrow> mss_result le maxmss d olen opt (mss_option_loop le maxmss d olen opt)"
proof (induction "nat olen" arbitrary: d olen opt rule: less_induct)
  case less
  consider (stop) "mss_option_loop le maxmss d olen opt = d" "mss_options d olen opt = []"
    | (skip) n where "0 < n" "int n \<le> olen" "mss_option_loop le maxmss d olen opt = mss_option_loop le maxmss d (olen - int n) (opt + n)"
        "mss_options d olen opt = mss_options d (olen - int n) (opt + n)"
    | (mss) "4 \<le> olen" "mss_option_loop le maxmss d olen opt = mss_option_loop le maxmss (mss_lower le maxmss d opt) (olen - 4) (opt + 4)"
        "mss_options d olen opt = opt # mss_options d (olen - 4) (opt + 4)"
  proof (cases "option_step (d ! opt) (d ! (opt + 1)) olen")
    case None
    then show ?thesis by (intro stop) (simp_all add: options_step [of d] loop_step [of le maxmss d])
  next
    case (Some nm)
    obtain n m where st: "option_step (d ! opt) (d ! (opt + 1)) olen = Some (n, m)" using Some by (cases nm) auto
    note b = option_step_bounds [OF st]
    show ?thesis
    proof (cases m)
      case True
      then show ?thesis using st b by (intro mss) (auto simp: options_step [of d olen] loop_step [of le maxmss d olen])
    next
      case False
      then show ?thesis using st b by (intro skip [of n]) (auto simp: options_step [of d olen] loop_step [of le maxmss d olen])
    qed
  qed
  then show ?case
  proof cases
    case stop
    then show ?thesis by (simp add: mss_result_refl)
  next
    case skip
    then show ?thesis using less.hyps [of "olen - int n" "opt + n" d] less.prems by (simp add: mss_result_def)
  next
    case mss
    let ?d = "mss_lower le maxmss d opt" let ?d' = "mss_option_loop le maxmss ?d (olen - 4) (opt + 4)"
    have opt: "20 \<le> opt" "opt + 3 < length d" using less.prems mss(1) by auto
    note low = mss_lower_bytes(1,2) [OF opt, where le = le and maxmss = maxmss]
    have os: "mss_options ?d (olen - 4) (opt + 4) = mss_options d (olen - 4) (opt + 4)"
      by (rule options_same) (use opt(1) in \<open>auto intro!: low(2)\<close>)
    have IH: "mss_result le maxmss ?d (olen - 4) (opt + 4) ?d'"
      using less.hyps [of "olen - 4" "opt + 4" ?d] less.prems mss(1) low(1) by simp
    have rng: "opt + 4 \<le> p" if "p \<in> set (mss_options d (olen - 4) (opt + 4))" for p using options_range [OF that] by simp
    have of_d: "mss_of ?d p = mss_of d p" if "p \<in> set (mss_options d (olen - 4) (opt + 4))" for p
      using rng [OF that] opt(1) by (simp add: mss_of_def low(2))
    have keep: "?d' ! i = ?d ! i" if "i \<noteq> 16" "i \<noteq> 17" "i < opt + 4" for i
      using IH that rng unfolding mss_result_def os by fastforce
    have "mss_of ?d' opt = min (mss_of d opt) maxmss"
      using mss_lower_value [OF opt, of le maxmss] keep [of "opt + 2"] keep [of "opt + 3"] opt(1) by (simp add: mss_of_def)
    moreover have "?d' ! i = d ! i" if "i \<noteq> 16" "i \<noteq> 17" "i \<noteq> opt + 2" "i \<noteq> opt + 3"
      "\<forall>p \<in> set (mss_options d (olen - 4) (opt + 4)). i \<noteq> p + 2 \<and> i \<noteq> p + 3" for i
      using IH low(2) that unfolding mss_result_def os by simp
    moreover have "length ?d' = length d" using IH low(1) by (simp add: mss_result_def)
    moreover have "tcp_sum le ?d' mod 65535 = tcp_sum le d mod 65535"
      if "even opt" "\<forall>p \<in> set (mss_options d (olen - 4) (opt + 4)). even p"
      using IH that mss_lower_sum [OF opt that(1), of le maxmss] unfolding mss_result_def os by simp
    ultimately show ?thesis
      using IH of_d unfolding mss(2) mss_result_def os mss(3) by auto
  qed
qed


text \<open>The loop when there is no option to visit, or just one.\<close>

lemma loop_none: "mss_options d olen opt = [] \<Longrightarrow> mss_option_loop le maxmss d olen opt = d"
proof (induction "nat olen" arbitrary: olen opt rule: less_induct)
  case less
  show ?case
  proof (cases "option_step (d ! opt) (d ! (opt + 1)) olen")
    case (Some nm)
    obtain n m where st: "option_step (d ! opt) (d ! (opt + 1)) olen = Some (n, m)" using Some by (cases nm) auto
    have "\<not> m" "mss_options d (olen - int n) (opt + n) = []"
      using less.prems st by (auto simp: options_step [of d olen opt] split: if_splits)
    then show ?thesis using less.hyps [of "olen - int n" "opt + n"] option_step_bounds [OF st] st
      by (simp add: loop_step [of le maxmss d olen opt])
  qed (simp add: loop_step)
qed

lemma loop_one:
  "20 \<le> opt \<Longrightarrow> int opt + olen \<le> int (length d) \<Longrightarrow> mss_options d olen opt = [p] \<Longrightarrow>
     mss_option_loop le maxmss d olen opt = mss_lower le maxmss d p"
proof (induction "nat olen" arbitrary: olen opt rule: less_induct)
  case less
  obtain n m where st: "option_step (d ! opt) (d ! (opt + 1)) olen = Some (n, m)"
    using less.prems(3) by (cases "option_step (d ! opt) (d ! (opt + 1)) olen") (auto simp: options_step [of d olen opt])
  note b = option_step_bounds [OF st]
  show ?case
  proof (cases m)
    case True
    then have p: "p = opt" "mss_options d (olen - int n) (opt + n) = []" "n = 4"
      using less.prems(3) st b by (auto simp: options_step [of d olen opt])
    have len: "opt + 3 < length d" using less.prems(2) b p(3) by linarith
    have "mss_options (mss_lower le maxmss d opt) (olen - int n) (opt + n) = mss_options d (olen - int n) (opt + n)"
      by (rule options_same) (use less.prems(1) p(3) in \<open>auto intro!: mss_lower_bytes(2) [OF less.prems(1) len]\<close>)
    then have "mss_option_loop le maxmss (mss_lower le maxmss d opt) (olen - int n) (opt + n) = mss_lower le maxmss d opt"
      using p(2) by (intro loop_none) simp
    then show ?thesis using st True p(1) by (simp add: loop_step [of le maxmss d olen opt])
  next
    case False
    then show ?thesis using less.hyps [of "olen - int n" "opt + n"] less.prems st b
      by (simp add: options_step [of d olen opt] loop_step [of le maxmss d olen opt])
  qed
qed

subsection \<open>Properties\<close>

text \<open>The MSS options of a TCP header, none when its length field is invalid.\<close>

definition tcp_mss_options :: "bytes \<Rightarrow> nat list" where
  "tcp_mss_options d =
     (if int (length d) < 20 \<or> OPENVPN_TCPH_GET_DOFF (d ! 12) \<le> 20 \<or> OPENVPN_TCPH_GET_DOFF (d ! 12) > int (length d) then []
      else mss_options d (OPENVPN_TCPH_GET_DOFF (d ! 12) - 20) 20)"

lemma dowork_law:
  "length (mss_fixup_dowork le d maxmss) = length d
   \<and> (\<forall>p \<in> set (tcp_mss_options d). mss_of (mss_fixup_dowork le d maxmss) p = min (mss_of d p) maxmss)
   \<and> (\<forall>i. i \<noteq> 16 \<and> i \<noteq> 17 \<and> (\<forall>p \<in> set (tcp_mss_options d). i \<noteq> p + 2 \<and> i \<noteq> p + 3) \<longrightarrow> mss_fixup_dowork le d maxmss ! i = d ! i)
   \<and> ((\<forall>p \<in> set (tcp_mss_options d). even p) \<longrightarrow> tcp_sum le (mss_fixup_dowork le d maxmss) mod 65535 = tcp_sum le d mod 65535)"
proof (cases "int (length d) < 20 \<or> OPENVPN_TCPH_GET_DOFF (d ! 12) \<le> 20 \<or> OPENVPN_TCPH_GET_DOFF (d ! 12) > int (length d)")
  case True
  then show ?thesis by (auto simp: mss_fixup_dowork_def tcp_mss_options_def tcp_header_size_def Let_def)
next
  case False
  let ?n = "OPENVPN_TCPH_GET_DOFF (d ! 12) - 20"
  have "mss_result le maxmss d ?n 20 (mss_option_loop le maxmss d ?n 20)" using False by (intro mss_loop_law) auto
  then show ?thesis using False by (simp add: mss_result_def mss_fixup_dowork_def tcp_mss_options_def tcp_header_size_def Let_def)
qed

text \<open>The work on a SYN packet is on the TCP segment inside the IP packet, and stays within the buffer.\<close>

lemma mss_fixup_tcp_law:
  assumes wf: "buf_wf b" and n: "0 \<le> n" "n \<le> b_len b" and adv: "buf_advance b n = (nb, True)"
  shows "buf_wf (mss_fixup_tcp le b nb m)" "b_offset (mss_fixup_tcp le b nb m) = b_offset b" "b_len (mss_fixup_tcp le b nb m) = b_len b"
    "buf_content (mss_fixup_tcp le b nb m) = take (nat n) (buf_content b) @
       (if buf_content nb ! 13 AND 2 \<noteq> 0 then mss_fixup_dowork le (drop (nat n) (buf_content b)) m else drop (nat n) (buf_content b))"
proof -
  obtain nb' where nb': "buf_advance b n = (nb', True)" "buf_content nb' = drop (nat n) (buf_content b)" "b_offset nb' = b_offset b + n"
    by (rule buf_advance_law [OF wf n])
  then have nb: "buf_content nb = drop (nat n) (buf_content b)" "b_offset nb = b_offset b + n" using adv by auto
  let ?tc = "mss_fixup_dowork le (drop (nat n) (buf_content b)) m"
  have len: "length (buf_content b) = nat (b_len b)" by (rule length_buf_content_nat [OF wf])
  have "length ?tc = nat (b_len b) - nat n" using dowork_law [of le "drop (nat n) (buf_content b)" m] len by simp
  then have poke: "buf_wf (buf_poke b (b_offset nb) ?tc) \<and> buf_content (buf_poke b (b_offset nb) ?tc) = patch (buf_content b) (nat n) ?tc"
    using n nb(2) by (intro buf_poke_content [OF wf]) auto
  have p: "patch (buf_content b) (nat n) ?tc = take (nat n) (buf_content b) @ ?tc"
    using \<open>length ?tc = _\<close> len n by (simp add: patch_def)
  show "buf_wf (mss_fixup_tcp le b nb m)" using wf poke nb(1) by (simp add: mss_fixup_tcp_def Let_def)
  show "b_offset (mss_fixup_tcp le b nb m) = b_offset b" "b_len (mss_fixup_tcp le b nb m) = b_len b"
    by (simp_all add: mss_fixup_tcp_def Let_def buf_poke_def)
  show "buf_content (mss_fixup_tcp le b nb m) = take (nat n) (buf_content b) @
       (if buf_content nb ! 13 AND 2 \<noteq> 0 then ?tc else drop (nat n) (buf_content b))"
    using poke p nb(1) by (simp add: mss_fixup_tcp_def Let_def)
qed

text \<open>
  C31: MSS fixing. For every TCP segment, on hosts of either byte order, the work on the options keeps
  the length, lowers every MSS option to at most the given value and no further, and changes no byte other than
  the values of these options and the checksum. When the options are at even offsets the
  one's complement sum of the segment is unchanged modulo 65535, so that a right checksum stays right.
\<close>

theorem mss_fixup_clamps:
  "length (mss_fixup_dowork le d maxmss) = length d
   \<and> (\<forall>p \<in> set (tcp_mss_options d). mss_of (mss_fixup_dowork le d maxmss) p = min (mss_of d p) maxmss)
   \<and> (\<forall>i. i \<noteq> 16 \<and> i \<noteq> 17 \<and> (\<forall>p \<in> set (tcp_mss_options d). i \<noteq> p + 2 \<and> i \<noteq> p + 3) \<longrightarrow> mss_fixup_dowork le d maxmss ! i = d ! i)
   \<and> ((\<forall>p \<in> set (tcp_mss_options d). even p) \<longrightarrow> tcp_sum le (mss_fixup_dowork le d maxmss) mod 65535 = tcp_sum le d mod 65535)"
  by (rule dowork_law)

text \<open>A SYN segment whose MSS option of 1460 is at offset \<open>20 + k\<close>, after \<open>k\<close> NOPs.\<close>

definition demo_segment :: "nat \<Rightarrow> bytes" where
  "demo_segment k = [0, 80, 4, 0, 0, 0, 0, 1, 0, 0, 0, 0, 0x70, 2, 255, 255, 18, 52, 0, 0] @ replicate k 1 @ [2, 4, 5, 180] @ replicate (4 - k) 1"

theorem mss_fixup_clamps_witness:
  "mss_of (mss_fixup_dowork True (demo_segment 0) 1000) 20 = 1000
   \<and> tcp_sum True (mss_fixup_dowork True (demo_segment 0) 1000) mod 65535 = tcp_sum True (demo_segment 0) mod 65535"
proof -
  have o: "tcp_mss_options (demo_segment 0) = [20]" by code_simp
  have "mss_of (demo_segment 0) 20 = 1460" by code_simp
  then show ?thesis using mss_fixup_clamps [where le = True and d = "demo_segment 0" and maxmss = 1000] o by simp
qed

text \<open>
  C38: With the MSS option at an odd offset, which TCP allows, the checksum becomes wrong: the two bytes of
  the value belong to two 16-bit words, but the update treats them as one.  For every segment whose only
  MSS option is at an odd offset and is lowered, the sum of the segment changes modulo 65535 by 255
  times the difference of the changes of the two bytes (with the sign given by the byte order of the
  host), so that a right checksum stays right exactly when 257 divides that difference.
\<close>

theorem mss_odd_option_breaks_checksum:
  assumes "tcp_mss_options d = [p]" "odd p" "mss_of d p > maxmss"
  shows "tcp_sum le (mss_fixup_dowork le d maxmss) mod 65535
      = (tcp_sum le d + odd_error le maxmss (mss_of d p)) mod 65535
    \<and> (tcp_sum le (mss_fixup_dowork le d maxmss) mod 65535 = tcp_sum le d mod 65535 \<longleftrightarrow>
        257 dvd (uint maxmss div 256 - uint maxmss mod 256) - (uint (mss_of d p) div 256 - uint (mss_of d p) mod 256))"
proof -
  let ?n = "OPENVPN_TCPH_GET_DOFF (d ! 12) - 20"
  let ?k = "(uint maxmss div 256 - uint maxmss mod 256) - (uint (mss_of d p) div 256 - uint (mss_of d p) mod 256)"
  have g: "\<not> int (length d) < 20" "20 < OPENVPN_TCPH_GET_DOFF (d ! 12)" "OPENVPN_TCPH_GET_DOFF (d ! 12) \<le> int (length d)"
    and o: "mss_options d ?n 20 = [p]"
    using assms(1) by (auto simp: tcp_mss_options_def split: if_splits)
  have "20 \<le> p" "int p + 4 \<le> int (length d)" using options_range [of p d ?n 20] o g by auto
  then have p: "20 \<le> p" "p + 3 < length d" by simp_all
  have "mss_fixup_dowork le d maxmss = mss_lower le maxmss d p"
    using loop_one [of 20 ?n d p le maxmss] o g by (simp add: mss_fixup_dowork_def tcp_header_size_def Let_def)
  then have sum: "tcp_sum le (mss_fixup_dowork le d maxmss) mod 65535
      = (tcp_sum le d + odd_error le maxmss (mss_of d p)) mod 65535"
    using mss_lower_sum_error [OF p assms(3), of le] assms(2) by simp
  have "(tcp_sum le d + odd_error le maxmss (mss_of d p)) mod 65535 = tcp_sum le d mod 65535
      \<longleftrightarrow> 255 * 257 dvd odd_error le maxmss (mss_of d p)"
    by (simp add: mod_eq_dvd_iff)
  also have "\<dots> \<longleftrightarrow> 255 * 257 dvd 255 * ?k"
    by (cases le) (simp_all only: odd_error_def if_True if_False mult_minus_left dvd_minus_iff)
  also have "\<dots> \<longleftrightarrow> 257 dvd ?k" by (subst dvd_times_left_cancel_iff) simp_all
  finally show ?thesis using sum by simp
qed

theorem mss_odd_option_breaks_checksum_witness:
  "tcp_sum True (mss_fixup_dowork True (demo_segment 1) 1000) mod 65535 \<noteq> tcp_sum True (demo_segment 1) mod 65535"
proof -
  have "tcp_mss_options (demo_segment 1) = [21]" "mss_of (demo_segment 1) 21 = 1460" by code_simp+
  then show ?thesis
    using mss_odd_option_breaks_checksum [of "demo_segment 1" 21 1000 True] by simp
qed

end
