(* ===== verification/Hash_Table.thy ===== *)
theory Hash_Table
  imports Ovpn_Integer "HOL-Library.Multiset"
begin

text \<open>
  The hash table of list.c and list.h: buckets of linked elements, moved to the head of
  their bucket when found, with an iterator that marks elements for removal; and the hash
  function used for addresses.

  A bucket's list is a list of elements; a pointer to an element is the index of its bucket and
  its position there.  The marked elements of the iterator have the key NULL, here
  \<open>None\<close>; comparing a key with NULL crashes the process.  \<open>hash_free\<close> only releases memory.
\<close>

subsection \<open>State\<close>

record ('k, 'v) hash_element =
  he_value :: 'v
  he_key :: "'k option"
  he_hash_value :: u32

record ('k, 'v) hash =
  h_n_buckets :: int
  h_n_elements :: int
  h_mask :: int
  h_iv :: u32
  h_hash_function :: "'k \<Rightarrow> u32 \<Rightarrow> u32"
  h_compare_function :: "'k \<Rightarrow> 'k \<Rightarrow> bool"
  h_buckets :: "('k, 'v) hash_element list list"

definition hash_value :: "('k, 'v) hash \<Rightarrow> 'k \<Rightarrow> u32" where
  "hash_value h key = h_hash_function h key (h_iv h)"

text \<open>\<open>hash_bucket\<close> and the expression \<open>hv & hash->mask\<close> of the other functions: an index.\<close>

definition hash_bucket :: "('k, 'v) hash \<Rightarrow> u32 \<Rightarrow> nat" where
  "hash_bucket h hv = unat (hv AND word_of_int (h_mask h))"

definition hash_n_elements :: "('k, 'v) hash \<Rightarrow> int" where
  "hash_n_elements h = h_n_elements h"

definition hash_n_buckets :: "('k, 'v) hash \<Rightarrow> int" where
  "hash_n_buckets h = h_n_buckets h"

definition hash_init :: "int \<Rightarrow> u32 \<Rightarrow> ('k \<Rightarrow> u32 \<Rightarrow> u32) \<Rightarrow> ('k \<Rightarrow> 'k \<Rightarrow> bool) \<Rightarrow> ('k, 'v) hash option" where
  "hash_init n_buckets iv hash_function compare_function = do {
     ASSERT (n_buckets > 0);
     n \<leftarrow> adjust_power_of_2 (word_of_int n_buckets);
     let n = sint (ucast n :: u32);
     Some \<lparr>h_n_buckets = n, h_n_elements = 0, h_mask = n - 1, h_iv = iv,
           h_hash_function = hash_function, h_compare_function = compare_function,
           h_buckets = replicate (nat n) []\<rparr> }"

subsection \<open>Lookup, insertion, removal\<close>

text \<open>
  The search loops of \<open>hash_lookup_fast\<close> and \<open>hash_remove_fast\<close>: the position of the element
  found, \<open>None\<close> for a crash.
\<close>

fun bucket_find :: "('k \<Rightarrow> 'k \<Rightarrow> bool) \<Rightarrow> 'k \<Rightarrow> u32 \<Rightarrow> ('k, 'v) hash_element list \<Rightarrow> nat option option" where
  "bucket_find cmp key hv [] = Some None"
| "bucket_find cmp key hv (he # hes) =
     (if hv = he_hash_value he
      then (case he_key he of
              None \<Rightarrow> None
            | Some k \<Rightarrow> (if cmp key k then Some (Some 0)
                        else map_option (map_option Suc) (bucket_find cmp key hv hes)))
      else map_option (map_option Suc) (bucket_find cmp key hv hes))"

text \<open>The element found is returned; it is then the head of its bucket.\<close>

definition hash_lookup_fast ::
    "('k, 'v) hash \<Rightarrow> nat \<Rightarrow> 'k \<Rightarrow> u32 \<Rightarrow> (('k, 'v) hash \<times> ('k, 'v) hash_element option) option" where
  "hash_lookup_fast h bucket key hv = do {
     let hes = h_buckets h ! bucket;
     pos \<leftarrow> bucket_find (h_compare_function h) key hv hes;
     (case pos of
        None \<Rightarrow> Some (h, None)
      | Some i \<Rightarrow> Some (h\<lparr>h_buckets := (h_buckets h)[bucket := hes ! i # take i hes @ drop (Suc i) hes]\<rparr>,
                       Some (hes ! i))) }"

definition hash_add_fast :: "('k, 'v) hash \<Rightarrow> nat \<Rightarrow> 'k \<Rightarrow> u32 \<Rightarrow> 'v \<Rightarrow> ('k, 'v) hash" where
  "hash_add_fast h bucket key hv v =
     h\<lparr>h_buckets := (h_buckets h)[bucket := \<lparr>he_value = v, he_key = Some key, he_hash_value = hv\<rparr> # h_buckets h ! bucket],
       h_n_elements := h_n_elements h + 1\<rparr>"

definition hash_remove_fast :: "('k, 'v) hash \<Rightarrow> nat \<Rightarrow> 'k \<Rightarrow> u32 \<Rightarrow> (('k, 'v) hash \<times> bool) option" where
  "hash_remove_fast h bucket key hv = do {
     let hes = h_buckets h ! bucket;
     pos \<leftarrow> bucket_find (h_compare_function h) key hv hes;
     (case pos of
        None \<Rightarrow> Some (h, False)
      | Some i \<Rightarrow> Some (h\<lparr>h_buckets := (h_buckets h)[bucket := take i hes @ drop (Suc i) hes],
                          h_n_elements := h_n_elements h - 1\<rparr>, True)) }"

definition hash_lookup :: "('k, 'v) hash \<Rightarrow> 'k \<Rightarrow> (('k, 'v) hash \<times> 'v option) option" where
  "hash_lookup h key = do {
     let hv = hash_value h key;
     (h, he) \<leftarrow> hash_lookup_fast h (hash_bucket h hv) key hv;
     Some (h, map_option he_value he) }"

definition hash_add :: "('k, 'v) hash \<Rightarrow> 'k \<Rightarrow> 'v \<Rightarrow> bool \<Rightarrow> (('k, 'v) hash \<times> bool) option" where
  "hash_add h key v replace = do {
     let hv = hash_value h key;
     let bucket = hash_bucket h hv;
     (h, he) \<leftarrow> hash_lookup_fast h bucket key hv;
     (case he of
        Some he \<Rightarrow>
          (if replace
           then Some (h\<lparr>h_buckets := (h_buckets h)[bucket := he\<lparr>he_value := v\<rparr> # tl (h_buckets h ! bucket)]\<rparr>, True)
           else Some (h, False))
      | None \<Rightarrow> Some (hash_add_fast h bucket key hv v, True)) }"

definition hash_remove :: "('k, 'v) hash \<Rightarrow> 'k \<Rightarrow> (('k, 'v) hash \<times> bool) option" where
  "hash_remove h key = do {
     let hv = hash_value h key;
     hash_remove_fast h (hash_bucket h hv) key hv }"

subsection \<open>Iteration\<close>

text \<open>\<open>it_elem\<close> and \<open>it_last\<close> are positions in the current bucket.\<close>

record hash_iterator =
  it_bucket_index :: int
  it_bucket :: "nat option"
  it_elem :: "nat option"
  it_last :: "nat option"
  it_bucket_marked :: bool
  it_bucket_index_start :: int
  it_bucket_index_end :: int

definition hash_remove_marked :: "('k, 'v) hash \<Rightarrow> nat \<Rightarrow> ('k, 'v) hash" where
  "hash_remove_marked h b =
     (let hes = h_buckets h ! b; left = filter (\<lambda>he. he_key he \<noteq> None) hes in
      h\<lparr>h_buckets := (h_buckets h)[b := left],
        h_n_elements := h_n_elements h - (int (length hes) - int (length left))\<rparr>)"

definition hash_iterator_init_range :: "('k, 'v) hash \<Rightarrow> int \<Rightarrow> int \<Rightarrow> hash_iterator option" where
  "hash_iterator_init_range h start_bucket end_bucket = do {
     let end_bucket = (if end_bucket > h_n_buckets h then h_n_buckets h else end_bucket);
     ASSERT (start_bucket \<ge> 0 \<and> start_bucket \<le> end_bucket);
     Some \<lparr>it_bucket_index = start_bucket - 1, it_bucket = None, it_elem = None, it_last = None,
           it_bucket_marked = False, it_bucket_index_start = start_bucket, it_bucket_index_end = end_bucket\<rparr> }"

definition hash_iterator_init :: "('k, 'v) hash \<Rightarrow> hash_iterator option" where
  "hash_iterator_init h = hash_iterator_init_range h 0 (h_n_buckets h)"

definition hash_iterator_lock :: "hash_iterator \<Rightarrow> nat \<Rightarrow> hash_iterator" where
  "hash_iterator_lock hi b = hi\<lparr>it_bucket := Some b, it_last := None, it_bucket_marked := False\<rparr>"

definition hash_iterator_unlock :: "('k, 'v) hash \<Rightarrow> hash_iterator \<Rightarrow> ('k, 'v) hash \<times> hash_iterator" where
  "hash_iterator_unlock h hi =
     (case it_bucket hi of
        None \<Rightarrow> (h, hi)
      | Some b \<Rightarrow>
          (let (h, hi) = (if it_bucket_marked hi then (hash_remove_marked h b, hi\<lparr>it_bucket_marked := False\<rparr>) else (h, hi))
           in (h, hi\<lparr>it_bucket := None, it_last := None\<rparr>)))"

text \<open>Advance over position \<open>i\<close> of a bucket with \<open>n\<close> elements.\<close>

definition hash_iterator_advance :: "hash_iterator \<Rightarrow> nat \<Rightarrow> nat \<Rightarrow> hash_iterator" where
  "hash_iterator_advance hi i n = hi\<lparr>it_last := Some i, it_elem := (if Suc i < n then Some (Suc i) else None)\<rparr>"

definition hash_iterator_free :: "('k, 'v) hash \<Rightarrow> hash_iterator \<Rightarrow> ('k, 'v) hash \<times> hash_iterator" where
  "hash_iterator_free h hi = hash_iterator_unlock h hi"

text \<open>The loop over the buckets; the first argument bounds the buckets left.\<close>

fun hash_iterator_scan :: "nat \<Rightarrow> ('k, 'v) hash \<Rightarrow> hash_iterator \<Rightarrow> ('k, 'v) hash \<times> hash_iterator \<times> (nat \<times> nat) option" where
  "hash_iterator_scan 0 h hi = (h, hi\<lparr>it_bucket_index := it_bucket_index hi + 1\<rparr>, None)"
| "hash_iterator_scan (Suc n) h hi =
     (let hi = hi\<lparr>it_bucket_index := it_bucket_index hi + 1\<rparr>;
          (h, hi) = hash_iterator_unlock h hi;
          b = nat (it_bucket_index hi) in
      (case h_buckets h ! b of
         [] \<Rightarrow> hash_iterator_scan n h hi
       | he # hes \<Rightarrow> (h, hash_iterator_advance (hash_iterator_lock hi b) 0 (length (he # hes)), Some (b, 0))))"

definition hash_iterator_next :: "('k, 'v) hash \<Rightarrow> hash_iterator \<Rightarrow> ('k, 'v) hash \<times> hash_iterator \<times> (nat \<times> nat) option" where
  "hash_iterator_next h hi =
     (case it_elem hi of
        Some i \<Rightarrow>
          (let b = the (it_bucket hi)
           in (h, hash_iterator_advance hi i (length (h_buckets h ! b)), Some (b, i)))
      | None \<Rightarrow> hash_iterator_scan (nat (it_bucket_index_end hi - it_bucket_index hi - 1)) h hi)"

definition hash_iterator_delete_element :: "('k, 'v) hash \<Rightarrow> hash_iterator \<Rightarrow> (('k, 'v) hash \<times> hash_iterator) option" where
  "hash_iterator_delete_element h hi = do {
     i \<leftarrow> it_last hi;
     b \<leftarrow> it_bucket hi;
     Some (h\<lparr>h_buckets := (h_buckets h)[b := (h_buckets h ! b)[i := (h_buckets h ! b ! i)\<lparr>he_key := None\<rparr>]]\<rparr>,
           hi\<lparr>it_bucket_marked := True\<rparr>) }"

partial_function (option) remove_by_value_loop ::
    "'v \<Rightarrow> ('k, 'v) hash \<Rightarrow> hash_iterator \<Rightarrow> (('k, 'v) hash \<times> hash_iterator) option" where
  "remove_by_value_loop v h hi =
     (case hash_iterator_next h hi of
        (h, hi, None) \<Rightarrow> Some (h, hi)
      | (h, hi, Some (b, i)) \<Rightarrow>
          (if he_value (h_buckets h ! b ! i) = v
           then do {
             (h, hi) \<leftarrow> hash_iterator_delete_element h hi;
             remove_by_value_loop v h hi }
           else remove_by_value_loop v h hi))"

definition hash_remove_by_value :: "('k, 'v) hash \<Rightarrow> 'v \<Rightarrow> ('k, 'v) hash option" where
  "hash_remove_by_value h v = do {
     hi \<leftarrow> hash_iterator_init h;
     (h, hi) \<leftarrow> remove_by_value_loop v h hi;
     Some (fst (hash_iterator_free h hi)) }"

subsection \<open>The hash function\<close>

definition mix :: "u32 \<Rightarrow> u32 \<Rightarrow> u32 \<Rightarrow> u32 \<times> u32 \<times> u32" where
  "mix a b c =
     (let a = a - b; a = a - c; a = a XOR drop_bit 13 c;
          b = b - c; b = b - a; b = b XOR push_bit 8 a;
          c = c - a; c = c - b; c = c XOR drop_bit 13 b;
          a = a - b; a = a - c; a = a XOR drop_bit 12 c;
          b = b - c; b = b - a; b = b XOR push_bit 16 a;
          c = c - a; c = c - b; c = c XOR drop_bit 5 b;
          a = a - b; a = a - c; a = a XOR drop_bit 3 c;
          b = b - c; b = b - a; b = b XOR push_bit 10 a;
          c = c - a; c = c - b; c = c XOR drop_bit 15 b
      in (a, b, c))"

text \<open>The word \<open>k[0] + (k[1] << 8) + (k[2] << 16) + (k[3] << 24)\<close>.\<close>

definition key_word :: "bytes \<Rightarrow> u32" where
  "key_word k = ucast (k ! 0) + push_bit 8 (ucast (k ! 1)) + push_bit 16 (ucast (k ! 2)) + push_bit 24 (ucast (k ! 3))"

function hash_blocks :: "bytes \<Rightarrow> u32 \<Rightarrow> u32 \<Rightarrow> u32 \<Rightarrow> bytes \<times> u32 \<times> u32 \<times> u32" where
  "hash_blocks k a b c =
     (if length k \<ge> 12
      then (let (a, b, c) = mix (a + key_word k) (b + key_word (drop 4 k)) (c + key_word (drop 8 k))
            in hash_blocks (drop 12 k) a b c)
      else (k, a, b, c))"
  by pat_completeness auto
termination by (relation "measure (\<lambda>(k, _). length k)") auto

declare hash_blocks.simps [simp del]

text \<open>
  The switch with its fall-through: the byte at index \<open>i\<close> of the tail is added, shifted, when
  the tail is long enough.
\<close>

definition tail_byte :: "bytes \<Rightarrow> nat \<Rightarrow> nat \<Rightarrow> u32" where
  "tail_byte k i s = (if i < length k then push_bit s (ucast (k ! i)) else 0)"

definition hash_func :: "bytes \<Rightarrow> u32 \<Rightarrow> u32" where
  "hash_func k initval =
     (let (k', a, b, c) = hash_blocks k 0x9e3779b9 0x9e3779b9 initval;
          c = c + of_nat (length k);
          c = c + tail_byte k' 10 24 + tail_byte k' 9 16 + tail_byte k' 8 8;
          b = b + tail_byte k' 7 24 + tail_byte k' 6 16 + tail_byte k' 5 8 + tail_byte k' 4 0;
          a = a + tail_byte k' 3 24 + tail_byte k' 2 16 + tail_byte k' 1 8 + tail_byte k' 0 0;
          (a, b, c) = mix a b c
      in c)"

subsection \<open>The interface of a table\<close>

text \<open>Commands of a client and their answers, run on a table given by its operations and on a map.\<close>

datatype ('k, 'v) table_cmd = Lookup 'k | Add 'k 'v bool | Remove 'k

datatype 'v table_answer = Found "'v option" | Done bool

fun run_table ::
    "('s \<Rightarrow> 'k \<Rightarrow> ('s \<times> 'v option) option) \<Rightarrow> ('s \<Rightarrow> 'k \<Rightarrow> 'v \<Rightarrow> bool \<Rightarrow> ('s \<times> bool) option)
     \<Rightarrow> ('s \<Rightarrow> 'k \<Rightarrow> ('s \<times> bool) option) \<Rightarrow> ('k, 'v) table_cmd list \<Rightarrow> 's \<Rightarrow> ('s \<times> 'v table_answer list) option" where
  "run_table lk ad rm [] s = Some (s, [])"
| "run_table lk ad rm (c # cs) s = do {
     (s, a) \<leftarrow> (case c of
        Lookup k \<Rightarrow> map_option (\<lambda>(s, v). (s, Found v)) (lk s k)
      | Add k v r \<Rightarrow> map_option (\<lambda>(s, b). (s, Done b)) (ad s k v r)
      | Remove k \<Rightarrow> map_option (\<lambda>(s, b). (s, Done b)) (rm s k));
     (s, as) \<leftarrow> run_table lk ad rm cs s;
     Some (s, a # as) }"

definition map_set :: "('k \<Rightarrow> 'k \<Rightarrow> bool) \<Rightarrow> 'k \<Rightarrow> 'v option \<Rightarrow> ('k \<Rightarrow> 'v option) \<Rightarrow> ('k \<Rightarrow> 'v option)" where
  "map_set eqv k v m = (\<lambda>k'. if eqv k k' then v else m k')"

fun run_map :: "('k \<Rightarrow> 'k \<Rightarrow> bool) \<Rightarrow> ('k, 'v) table_cmd list \<Rightarrow> ('k \<Rightarrow> 'v option) \<Rightarrow> 'v table_answer list" where
  "run_map eqv [] m = []"
| "run_map eqv (Lookup k # cs) m = Found (m k) # run_map eqv cs m"
| "run_map eqv (Add k v r # cs) m =
     (if m k = None \<or> r then Done True # run_map eqv cs (map_set eqv k (Some v) m)
      else Done False # run_map eqv cs m)"
| "run_map eqv (Remove k # cs) m = Done (m k \<noteq> None) # run_map eqv cs (map_set eqv k None m)"

locale assoc_table =
  fixes wf :: "'s \<Rightarrow> bool" and same :: "'s \<Rightarrow> 'k \<Rightarrow> 'k \<Rightarrow> bool" and entry :: "'s \<Rightarrow> 'k \<Rightarrow> 'v option"
    and lk :: "'s \<Rightarrow> 'k \<Rightarrow> ('s \<times> 'v option) option"
    and ad :: "'s \<Rightarrow> 'k \<Rightarrow> 'v \<Rightarrow> bool \<Rightarrow> ('s \<times> bool) option"
    and rm :: "'s \<Rightarrow> 'k \<Rightarrow> ('s \<times> bool) option"
  assumes lk_law: "wf s \<Longrightarrow> \<exists>s'. lk s k = Some (s', entry s k) \<and> wf s' \<and> same s' = same s \<and> entry s' = entry s"
    and ad_law: "wf s \<Longrightarrow> \<exists>s'. ad s k v r = Some (s', entry s k = None \<or> r) \<and> wf s' \<and> same s' = same s
       \<and> entry s' = (if entry s k = None \<or> r then map_set (same s) k (Some v) (entry s) else entry s)"
    and rm_law: "wf s \<Longrightarrow> \<exists>s'. rm s k = Some (s', entry s k \<noteq> None) \<and> wf s' \<and> same s' = same s
       \<and> entry s' = map_set (same s) k None (entry s)"
begin

lemma run_refines_map:
  "wf s \<Longrightarrow> \<exists>s'. run_table lk ad rm cs s = Some (s', run_map (same s) cs (entry s)) \<and> wf s'"
proof (induction cs arbitrary: s)
  case (Cons c cs)
  show ?case
  proof (cases c)
    case (Lookup k)
    obtain s' where s': "lk s k = Some (s', entry s k)" "wf s'" "same s' = same s" "entry s' = entry s"
      using lk_law [OF Cons.prems] by blast
    then show ?thesis using Cons.IH [OF s'(2)] Lookup by auto
  next
    case (Add k v r)
    obtain s' where s': "ad s k v r = Some (s', entry s k = None \<or> r)" "wf s'" "same s' = same s"
      "entry s' = (if entry s k = None \<or> r then map_set (same s) k (Some v) (entry s) else entry s)"
      using ad_law [OF Cons.prems] by blast
    then show ?thesis using Cons.IH [OF s'(2)] Add by (cases "entry s k = None \<or> r") auto
  next
    case (Remove k)
    obtain s' where s': "rm s k = Some (s', entry s k \<noteq> None)" "wf s'" "same s' = same s"
      "entry s' = map_set (same s) k None (entry s)"
      using rm_law [OF Cons.prems] by blast
    then show ?thesis using Cons.IH [OF s'(2)] Remove by auto
  qed
qed simp

end

subsection \<open>The invariant and the contents\<close>

definition matches :: "('k, 'v) hash \<Rightarrow> 'k \<Rightarrow> ('k, 'v) hash_element \<Rightarrow> bool" where
  "matches h key he \<longleftrightarrow> (\<exists>k. he_key he = Some k \<and> h_compare_function h key k)"

definition key_bucket :: "('k, 'v) hash \<Rightarrow> 'k \<Rightarrow> nat" where
  "key_bucket h key = hash_bucket h (hash_value h key)"

definition hits :: "('k, 'v) hash \<Rightarrow> 'k \<Rightarrow> ('k, 'v) hash_element list" where
  "hits h key = filter (matches h key) (h_buckets h ! key_bucket h key)"

definition hash_entry :: "('k, 'v) hash \<Rightarrow> 'k \<Rightarrow> 'v option" where
  "hash_entry h key = (case hits h key of [] \<Rightarrow> None | he # _ \<Rightarrow> Some (he_value he))"

definition fits_bucket :: "('k, 'v) hash \<Rightarrow> nat \<Rightarrow> ('k, 'v) hash_element \<Rightarrow> bool" where
  "fits_bucket h b he \<longleftrightarrow> (\<exists>k. he_key he = Some k \<and> he_hash_value he = hash_value h k \<and> key_bucket h k = b)"

definition equality_ok :: "('k, 'v) hash \<Rightarrow> bool" where
  "equality_ok h \<longleftrightarrow> (\<forall>a. h_compare_function h a a) \<and> (\<forall>a b. h_compare_function h a b \<longrightarrow> h_compare_function h b a)
     \<and> (\<forall>a b c. h_compare_function h a b \<longrightarrow> h_compare_function h b c \<longrightarrow> h_compare_function h a c)
     \<and> (\<forall>a b. h_compare_function h a b \<longrightarrow> hash_value h a = hash_value h b)"

definition hash_wf :: "('k, 'v) hash \<Rightarrow> bool" where
  "hash_wf h \<longleftrightarrow> (\<exists>n \<le> 30. h_n_buckets h = 2 ^ n) \<and> h_mask h = h_n_buckets h - 1
     \<and> length (h_buckets h) = nat (h_n_buckets h)
     \<and> h_n_elements h = int (sum_list (map length (h_buckets h)))
     \<and> (\<forall>b < length (h_buckets h). \<forall>he \<in> set (h_buckets h ! b). fits_bucket h b he)
     \<and> (\<forall>k. length (hits h k) \<le> 1) \<and> equality_ok h"

lemma comparison_laws:
  assumes "hash_wf h"
  shows cmp_refl: "h_compare_function h a a"
    and cmp_sym: "h_compare_function h a b \<longleftrightarrow> h_compare_function h b a"
    and cmp_hash: "h_compare_function h a b \<Longrightarrow> hash_value h a = hash_value h b"
    and cmp_trans_iff: "h_compare_function h a b \<Longrightarrow> h_compare_function h a c \<longleftrightarrow> h_compare_function h b c"
    and hits_one: "length (hits h a) \<le> 1"
  using assms unfolding hash_wf_def equality_ok_def by blast+

lemma bucket_fits: "hash_wf h \<Longrightarrow> b < length (h_buckets h) \<Longrightarrow> he \<in> set (h_buckets h ! b) \<Longrightarrow> fits_bucket h b he"
  unfolding hash_wf_def by blast

lemma key_bucket_bound: "hash_wf h \<Longrightarrow> key_bucket h k < length (h_buckets h)"
proof -
  assume wf: "hash_wf h"
  then obtain n where n: "n \<le> 30" "h_n_buckets h = 2 ^ n" by (auto simp: hash_wf_def)
  have "(word_of_int (h_mask h) :: u32) = mask n" using wf n by (simp add: hash_wf_def mask_eq_exp_minus_1)
  then have "unat (hash_value h k AND word_of_int (h_mask h)) < 2 ^ n"
    using n by (simp add: take_bit_eq_mask [symmetric] unsigned_take_bit_eq)
  then show ?thesis using wf n by (simp add: key_bucket_def hash_bucket_def hash_wf_def nat_power_eq)
qed

lemma bucket_find_law:
  assumes "\<forall>he \<in> set hes. \<exists>k. he_key he = Some k \<and> (h_compare_function h key k \<longrightarrow> he_hash_value he = hv)"
  obtains (none) "bucket_find (h_compare_function h) key hv hes = Some None" "filter (matches h key) hes = []"
  | (some) i where "bucket_find (h_compare_function h) key hv hes = Some (Some i)" "i < length hes" "matches h key (hes ! i)"
proof -
  have "(bucket_find (h_compare_function h) key hv hes = Some None \<and> filter (matches h key) hes = [])
      \<or> (\<exists>i. bucket_find (h_compare_function h) key hv hes = Some (Some i) \<and> i < length hes \<and> matches h key (hes ! i))"
    using assms
  proof (induction hes)
    case (Cons he hes)
    obtain k where k: "he_key he = Some k" "h_compare_function h key k \<longrightarrow> he_hash_value he = hv"
      using Cons.prems by auto
    have m: "matches h key he \<longleftrightarrow> h_compare_function h key k" using k by (simp add: matches_def)
    show ?case
    proof (cases "h_compare_function h key k")
      case True
      then show ?thesis using k m by (intro disjI2 exI [of _ 0]) simp
    next
      case False
      have "(bucket_find (h_compare_function h) key hv hes = Some None \<and> filter (matches h key) hes = [])
          \<or> (\<exists>i. bucket_find (h_compare_function h) key hv hes = Some (Some i) \<and> i < length hes \<and> matches h key (hes ! i))"
        using Cons by simp
      then show ?thesis
      proof
        assume "bucket_find (h_compare_function h) key hv hes = Some None \<and> filter (matches h key) hes = []"
        then show ?thesis using False k m by (intro disjI1) auto
      next
        assume "\<exists>i. bucket_find (h_compare_function h) key hv hes = Some (Some i) \<and> i < length hes \<and> matches h key (hes ! i)"
        then obtain i where "bucket_find (h_compare_function h) key hv hes = Some (Some i)" "i < length hes" "matches h key (hes ! i)"
          by blast
        then show ?thesis using False k by (intro disjI2 exI [of _ "Suc i"]) auto
      qed
    qed
  qed simp
  then show ?thesis using none some by blast
qed

text \<open>With at most one hit, the order of a bucket does not matter.\<close>

lemma filter_perm:
  assumes "mset xs = mset ys" "length (filter P xs) \<le> 1"
  shows "filter P ys = filter P xs"
proof -
  have m: "mset (filter P ys) = mset (filter P xs)" using assms(1) by simp
  then have "length (filter P ys) = length (filter P xs)" by (metis size_mset)
  then show ?thesis using m assms(2)
    by (cases "filter P xs"; cases "filter P ys") auto
qed

lemma mset_move_front: "i < length xs \<Longrightarrow> mset (xs ! i # take i xs @ drop (Suc i) xs) = mset xs"
  using arg_cong [OF id_take_nth_drop [of i xs], of mset] by simp

lemma same_functions [simp]:
  "matches (h\<lparr>h_buckets := bs, h_n_elements := n\<rparr>) = matches h" "matches (h\<lparr>h_buckets := bs\<rparr>) = matches h"
  "hash_value (h\<lparr>h_buckets := bs, h_n_elements := n\<rparr>) = hash_value h" "hash_value (h\<lparr>h_buckets := bs\<rparr>) = hash_value h"
  "key_bucket (h\<lparr>h_buckets := bs, h_n_elements := n\<rparr>) = key_bucket h" "key_bucket (h\<lparr>h_buckets := bs\<rparr>) = key_bucket h"
  "fits_bucket (h\<lparr>h_buckets := bs, h_n_elements := n\<rparr>) = fits_bucket h" "fits_bucket (h\<lparr>h_buckets := bs\<rparr>) = fits_bucket h"
  "equality_ok (h\<lparr>h_buckets := bs, h_n_elements := n\<rparr>) = equality_ok h"
  by (simp_all add: fun_eq_iff matches_def hash_value_def key_bucket_def hash_bucket_def fits_bucket_def equality_ok_def)

text \<open>Replacing the list of one bucket.\<close>

definition set_bucket :: "('k, 'v) hash \<Rightarrow> nat \<Rightarrow> ('k, 'v) hash_element list \<Rightarrow> ('k, 'v) hash" where
  "set_bucket h b es = h\<lparr>h_buckets := (h_buckets h)[b := es],
     h_n_elements := h_n_elements h + int (length es) - int (length (h_buckets h ! b))\<rparr>"

lemma hits_set_bucket:
  "b < length (h_buckets h) \<Longrightarrow> hits (set_bucket h b es) k = (if key_bucket h k = b then filter (matches h k) es else hits h k)"
  by (simp add: hits_def set_bucket_def)

lemma sum_list_update_int:
  "i < length xs \<Longrightarrow> int (sum_list (xs[i := (y :: nat)])) = int (sum_list xs) + int y - int (xs ! i)"
  using sum_list_update [of i xs y] elem_le_sum_list [of i xs] by simp

lemma set_bucket_wf:
  assumes wf: "hash_wf h" and b: "b < length (h_buckets h)" and fit: "\<forall>he \<in> set es. fits_bucket h b he"
    and one: "\<And>k. key_bucket h k = b \<Longrightarrow> length (filter (matches h k) es) \<le> 1"
  shows "hash_wf (set_bucket h b es)"
proof -
  have "\<forall>k. length (hits (set_bucket h b es) k) \<le> 1"
    using wf one hits_set_bucket [OF b, of es] by (simp add: hash_wf_def)
  moreover have "\<forall>c < length (h_buckets h). \<forall>he \<in> set ((h_buckets h)[b := es] ! c). fits_bucket h c he"
    using wf fit b by (auto simp: hash_wf_def nth_list_update)
  moreover have "int (sum_list (map length ((h_buckets h)[b := es]))) = int (sum_list (map length (h_buckets h))) + int (length es) - int (length (h_buckets h ! b))"
    using sum_list_update_int [of b "map length (h_buckets h)" "length es"] b by (simp add: map_update)
  ultimately show ?thesis using wf by (simp add: hash_wf_def set_bucket_def)
qed

lemma set_bucket_same_length:
  "length es = length (h_buckets h ! b) \<Longrightarrow> set_bucket h b es = h\<lparr>h_buckets := (h_buckets h)[b := es]\<rparr>"
  by (simp add: set_bucket_def)

text \<open>The search of a key in its bucket.\<close>

lemma key_search:
  assumes wf: "hash_wf h"
  obtains (none) "bucket_find (h_compare_function h) key (hash_value h key) (h_buckets h ! key_bucket h key) = Some None"
      "hits h key = []" "hash_entry h key = None"
  | (some) i where "bucket_find (h_compare_function h) key (hash_value h key) (h_buckets h ! key_bucket h key) = Some (Some i)"
      "i < length (h_buckets h ! key_bucket h key)" "hits h key = [h_buckets h ! key_bucket h key ! i]"
      "hash_entry h key = Some (he_value (h_buckets h ! key_bucket h key ! i))"
      "matches h key (h_buckets h ! key_bucket h key ! i)"
proof -
  let ?hes = "h_buckets h ! key_bucket h key"
  have "\<forall>he \<in> set ?hes. \<exists>k. he_key he = Some k \<and> (h_compare_function h key k \<longrightarrow> he_hash_value he = hash_value h key)"
  proof
    fix he assume "he \<in> set ?hes"
    then have "fits_bucket h (key_bucket h key) he" by (rule bucket_fits [OF wf key_bucket_bound [OF wf]])
    then show "\<exists>k. he_key he = Some k \<and> (h_compare_function h key k \<longrightarrow> he_hash_value he = hash_value h key)"
      unfolding fits_bucket_def using cmp_hash [OF wf] by metis
  qed
  then show ?thesis
  proof (cases rule: bucket_find_law)
    case none
    then have "hits h key = []" by (simp add: hits_def)
    then show ?thesis using that(1) none by (simp add: hash_entry_def)
  next
    case (some i)
    have "?hes ! i \<in> set (hits h key)" using some by (simp add: hits_def)
    moreover have "length (hits h key) \<le> 1" by (rule hits_one [OF wf])
    ultimately have "hits h key = [?hes ! i]" by (cases "hits h key") auto
    then show ?thesis using that(2) [OF some(1,2) _ _ some(3)] by (simp add: hash_entry_def)
  qed
qed

text \<open>Moving the element found to the head of its bucket changes nothing else.\<close>

lemma move_front_law:
  assumes wf: "hash_wf h" and i: "i < length (h_buckets h ! b)" and b: "b < length (h_buckets h)"
  defines "es \<equiv> h_buckets h ! b ! i # take i (h_buckets h ! b) @ drop (Suc i) (h_buckets h ! b)"
  shows "hash_wf (set_bucket h b es)" "hits (set_bucket h b es) = hits h"
    "set_bucket h b es = h\<lparr>h_buckets := (h_buckets h)[b := es]\<rparr>"
proof -
  have m: "mset es = mset (h_buckets h ! b)" using mset_move_front [OF i] by (simp add: es_def)
  then have set: "set es = set (h_buckets h ! b)" by (rule mset_eq_setD)
  have len: "length es = length (h_buckets h ! b)" using m by (rule mset_eq_length)
  have f: "filter (matches h k) es = hits h k" if "key_bucket h k = b" for k
  proof -
    have "length (hits h k) \<le> 1" using wf by (simp add: hash_wf_def)
    then show ?thesis using filter_perm [of "h_buckets h ! b" es "matches h k"] m that by (simp add: hits_def)
  qed
  show "hits (set_bucket h b es) = hits h" using hits_set_bucket [OF b, of es] f by (simp add: fun_eq_iff)
  show "hash_wf (set_bucket h b es)"
  proof (rule set_bucket_wf [OF wf b])
    show "\<forall>he \<in> set es. fits_bucket h b he" using wf b set by (simp add: hash_wf_def)
    show "length (filter (matches h k) es) \<le> 1" if "key_bucket h k = b" for k
      using f [OF that] wf by (simp add: hash_wf_def)
  qed
  show "set_bucket h b es = h\<lparr>h_buckets := (h_buckets h)[b := es]\<rparr>" using len by (rule set_bucket_same_length)
qed

lemma lookup_fast_law:
  assumes wf: "hash_wf h"
  obtains h' he where "hash_lookup_fast h (key_bucket h key) key (hash_value h key) = Some (h', he)"
    "hash_wf h'" "hits h' = hits h" "h_compare_function h' = h_compare_function h" "key_bucket h' = key_bucket h"
    "hash_value h' = hash_value h" "length (h_buckets h') = length (h_buckets h)"
    "hash_entry h key = map_option he_value he" "hits h key = (case he of None \<Rightarrow> [] | Some x \<Rightarrow> [x])"
    "\<And>x. he = Some x \<Longrightarrow> matches h key x \<and> (\<exists>r. h_buckets h' ! key_bucket h key = x # r)"
  using wf
proof (cases rule: key_search [where key = key])
  case none
  show ?thesis by (rule that [of h None]) (use none wf in \<open>simp_all add: hash_lookup_fast_def\<close>)
next
  case (some i)
  let ?b = "key_bucket h key"
  let ?es = "h_buckets h ! ?b ! i # take i (h_buckets h ! ?b) @ drop (Suc i) (h_buckets h ! ?b)"
  note b = key_bucket_bound [OF wf, of key]
  note mv = move_front_law [OF wf some(2) b]
  show ?thesis
    by (rule that [of "set_bucket h ?b ?es" "Some (h_buckets h ! ?b ! i)"])
      (use some mv b in \<open>simp_all add: hash_lookup_fast_def Let_def\<close>)
qed

lemma hash_entry_hits: "hits h k = hits g k \<Longrightarrow> hash_entry h k = hash_entry g k"
  by (simp add: hash_entry_def)

lemma same_key_bucket: "hash_wf h \<Longrightarrow> h_compare_function h k k' \<Longrightarrow> key_bucket h k' = key_bucket h k"
  using cmp_hash [of h k k'] by (simp add: key_bucket_def)

lemma matches_same:
  assumes "hash_wf h" "he_key he = Some k"
  shows "matches h k' he \<longleftrightarrow> h_compare_function h k k'"
  using cmp_sym [OF assms(1), of k k'] assms(2) by (simp add: matches_def)

lemmas compare_trans_iff = cmp_trans_iff

lemma matches_cong: "hash_wf h \<Longrightarrow> h_compare_function h k k' \<Longrightarrow> matches h k' = matches h k"
  using cmp_trans_iff [of h k k'] by (simp add: matches_def fun_eq_iff)

lemma set_bucket_functions [simp]:
  "h_compare_function (set_bucket h b es) = h_compare_function h" "key_bucket (set_bucket h b es) = key_bucket h"
  "length (h_buckets (set_bucket h b es)) = length (h_buckets h)" "matches (set_bucket h b es) = matches h"
  by (simp_all add: set_bucket_def)

lemma hash_lookup_law:
  assumes "hash_wf h"
  shows "\<exists>h'. hash_lookup h k = Some (h', hash_entry h k) \<and> hash_wf h'
    \<and> h_compare_function h' = h_compare_function h \<and> hash_entry h' = hash_entry h"
proof -
  obtain h' he where l: "hash_lookup_fast h (key_bucket h k) k (hash_value h k) = Some (h', he)"
    "hash_wf h'" "hits h' = hits h" "h_compare_function h' = h_compare_function h" "hash_entry h k = map_option he_value he"
    by (rule lookup_fast_law [OF assms])
  then have "hash_entry h' = hash_entry h" by (simp add: hash_entry_def fun_eq_iff)
  then show ?thesis using l by (simp add: hash_lookup_def key_bucket_def)
qed

text \<open>Putting one element for \<open>k\<close> in front of the elements of its bucket that do not match.\<close>

lemma put_front_law:
  assumes wf: "hash_wf h" and he: "he_key he = Some k0" "h_compare_function h k k0" "he_hash_value he = hash_value h k0"
    and es: "set es \<subseteq> set (h_buckets h ! key_bucket h k)" "filter (matches h k) es = []"
      "\<And>k'. \<not> h_compare_function h k k' \<Longrightarrow> key_bucket h k' = key_bucket h k \<Longrightarrow> filter (matches h k') es = hits h k'"
  shows "hash_wf (set_bucket h (key_bucket h k) (he # es))"
    "hash_entry (set_bucket h (key_bucket h k) (he # es)) = map_set (h_compare_function h) k (Some (he_value he)) (hash_entry h)"
proof -
  let ?b = "key_bucket h k" let ?h = "set_bucket h ?b (he # es)"
  note b = key_bucket_bound [OF wf, of k]
  have m: "matches h k' he \<longleftrightarrow> h_compare_function h k k'" for k'
    using matches_same [OF wf he(1)] compare_trans_iff [OF wf he(2)] by blast
  have same: "filter (matches h k') (he # es) = [he]" if "h_compare_function h k k'" for k'
  proof -
    have "matches h k' = matches h k" by (rule matches_cong [OF wf that])
    then show ?thesis using es(2) m [of k] cmp_refl [OF wf, of k] by simp
  qed
  have other: "filter (matches h k') (he # es) = hits h k'" if "\<not> h_compare_function h k k'" "key_bucket h k' = ?b" for k'
    using es(3) [OF that] m that by simp
  have hits: "hits ?h k' = (if h_compare_function h k k' then [he] else hits h k')" for k'
    using hits_set_bucket [OF b, of "he # es" k'] same [of k'] other [of k'] same_key_bucket [OF wf, of k k'] by auto
  show "hash_entry ?h = map_set (h_compare_function h) k (Some (he_value he)) (hash_entry h)"
    using hits by (auto simp: fun_eq_iff hash_entry_def map_set_def)
  show "hash_wf ?h"
  proof (rule set_bucket_wf [OF wf b])
    have "key_bucket h k0 = ?b" using same_key_bucket [OF wf he(2)] .
    then have "fits_bucket h ?b he" using he by (auto simp: fits_bucket_def)
    then show "\<forall>x \<in> set (he # es). fits_bucket h ?b x" using es(1) bucket_fits [OF wf b] by auto
    fix k' assume "key_bucket h k' = ?b"
    moreover have "length (hits h k') \<le> 1" by (rule hits_one [OF wf])
    ultimately show "length (filter (matches h k') (he # es)) \<le> 1"
      using same [of k'] other [of k'] by (cases "h_compare_function h k k'") simp_all
  qed
qed

lemma hash_add_law:
  assumes "hash_wf h"
  shows "\<exists>h'. hash_add h k v r = Some (h', hash_entry h k = None \<or> r) \<and> hash_wf h'
    \<and> h_compare_function h' = h_compare_function h
    \<and> hash_entry h' = (if hash_entry h k = None \<or> r then map_set (h_compare_function h) k (Some v) (hash_entry h) else hash_entry h)"
proof -
  let ?b = "key_bucket h k"
  obtain h1 he where l: "hash_lookup_fast h ?b k (hash_value h k) = Some (h1, he)"
    "hash_wf h1" "hits h1 = hits h" "h_compare_function h1 = h_compare_function h" "key_bucket h1 = key_bucket h"
    "hash_value h1 = hash_value h" "hash_entry h k = map_option he_value he" "hits h k = (case he of None \<Rightarrow> [] | Some x \<Rightarrow> [x])"
    "\<And>x. he = Some x \<Longrightarrow> matches h k x \<and> (\<exists>r. h_buckets h1 ! ?b = x # r)"
    by (rule lookup_fast_law [OF assms]) blast
  have e1: "hash_entry h1 = hash_entry h" using l(3) by (simp add: hash_entry_def fun_eq_iff)
  note b1 = key_bucket_bound [OF l(2), of k]
  show ?thesis
  proof (cases he)
    case None
    let ?e = "\<lparr>he_value = v, he_key = Some k, he_hash_value = hash_value h k\<rparr>"
    let ?h = "set_bucket h1 ?b (?e # h_buckets h1 ! ?b)"
    have "hash_add h k v r = Some (?h, True)"
      using l(1) None by (simp add: hash_add_def key_bucket_def hash_add_fast_def set_bucket_def Let_def)
    moreover have "hash_wf ?h \<and> hash_entry ?h = map_set (h_compare_function h1) k (Some v) (hash_entry h1)"
    proof -
      have hb: "filter (matches h1 k) (h_buckets h1 ! key_bucket h1 k) = []"
        using fun_cong [OF l(3), of k] l(8) None by (simp add: hits_def)
      have ho: "filter (matches h1 k') (h_buckets h1 ! key_bucket h1 k) = hits h1 k'" if "key_bucket h1 k' = key_bucket h1 k" for k'
        using that by (simp add: hits_def)
      show ?thesis
        using put_front_law [OF l(2), of ?e k k "h_buckets h1 ! ?b"] hb ho cmp_refl [OF l(2), of k] l(5,6) by simp
    qed
    ultimately show ?thesis using l(4,7) None e1 by simp
  next
    case (Some x)
    obtain rest where x: "matches h k x" "h_buckets h1 ! ?b = x # rest" using l(9) Some by blast
    show ?thesis
    proof (cases r)
      case False
      then have "hash_add h k v r = Some (h1, False)" using l(1) Some by (simp add: hash_add_def key_bucket_def)
      then show ?thesis using l(2,4,7) e1 False Some by simp
    next
      case True
      let ?e = "x\<lparr>he_value := v\<rparr>" let ?h = "set_bucket h1 ?b (?e # rest)"
      have "hash_add h k v r = Some (?h, True)"
        using l(1) Some True x(2) set_bucket_same_length [of "?e # rest" h1 ?b]
        by (simp add: hash_add_def key_bucket_def Let_def)
      moreover have "hash_wf ?h \<and> hash_entry ?h = map_set (h_compare_function h1) k (Some v) (hash_entry h1)"
      proof -
        have "fits_bucket h1 ?b x" using bucket_fits [OF l(2) b1, of x] l(5) x(2) by simp
        then obtain k0 where k0: "he_key x = Some k0" "he_hash_value x = hash_value h1 k0" by (auto simp: fits_bucket_def)
        have m1: "matches h1 = matches h" using l(4) by (simp add: matches_def fun_eq_iff)
        have "h_compare_function h1 k k0" using x(1) k0 l(4) by (simp add: matches_def)
        moreover have "filter (matches h1 k) rest = []"
          using fun_cong [OF l(3), of k] l(5,8) Some x m1 by (simp add: hits_def [of h1])
        moreover have "filter (matches h1 k') rest = hits h1 k'" if "\<not> h_compare_function h1 k k'" "key_bucket h1 k' = key_bucket h1 k" for k'
        proof -
          have "\<not> matches h1 k' x"
            using matches_same [OF l(2) k0(1)] compare_trans_iff [OF l(2) \<open>h_compare_function h1 k k0\<close>] that by blast
          then show ?thesis using that l(5) x(2) by (simp add: hits_def)
        qed
        ultimately show ?thesis
          using put_front_law [OF l(2), of ?e k0 k rest] k0 l(5) x(2) by auto
      qed
      ultimately show ?thesis using l(4,7) Some True e1 by simp
    qed
  qed
qed

lemma hash_remove_law:
  assumes wf: "hash_wf h"
  shows "\<exists>h'. hash_remove h k = Some (h', hash_entry h k \<noteq> None) \<and> hash_wf h'
    \<and> h_compare_function h' = h_compare_function h
    \<and> hash_entry h' = map_set (h_compare_function h) k None (hash_entry h)"
  using wf
proof (cases rule: key_search [where key = k])
  case none
  have "hash_entry h k' = None" if "h_compare_function h k k'" for k'
  proof -
    have "matches h k' = matches h k" by (rule matches_cong [OF wf that])
    then show ?thesis using none(2) same_key_bucket [OF wf that] by (simp add: hash_entry_def hits_def)
  qed
  then have "map_set (h_compare_function h) k None (hash_entry h) = hash_entry h" by (auto simp: map_set_def fun_eq_iff)
  then show ?thesis using none wf by (simp add: hash_remove_def hash_remove_fast_def key_bucket_def)
next
  case (some i)
  let ?b = "key_bucket h k" let ?hes = "h_buckets h ! ?b"
  let ?es = "take i ?hes @ drop (Suc i) ?hes"
  note b = key_bucket_bound [OF wf, of k]
  let ?h = "set_bucket h ?b ?es"
  have m: "mset ?hes = mset (?hes ! i # ?es)" using mset_move_front [OF some(2)] by simp
  have f: "filter (matches h k') ?es = (if h_compare_function h k k' then [] else hits h k')" if "key_bucket h k' = ?b" for k'
  proof -
    have one: "length (hits h k') \<le> 1" by (rule hits_one [OF wf])
    then have "filter (matches h k') (?hes ! i # ?es) = hits h k'"
      using filter_perm [OF m, of "matches h k'"] that by (simp add: hits_def)
    moreover have "matches h k' (?hes ! i) \<longleftrightarrow> h_compare_function h k k'"
    proof -
      obtain k0 where "he_key (?hes ! i) = Some k0" "h_compare_function h k k0" using some(5) by (auto simp: matches_def)
      then show ?thesis using matches_same [OF wf] compare_trans_iff [OF wf] by blast
    qed
    ultimately have c: "hits h k' = (if h_compare_function h k k' then [?hes ! i] else []) @ filter (matches h k') ?es"
      by (cases "h_compare_function h k k'") (simp_all del: filter_append)
    then show ?thesis using one by (cases "h_compare_function h k k'"; cases "filter (matches h k') ?es") (simp_all del: filter_append)
  qed
  have "hash_wf ?h"
  proof (rule set_bucket_wf [OF wf b])
    show "\<forall>he \<in> set ?es. fits_bucket h ?b he"
      using bucket_fits [OF wf b] by (auto dest: in_set_takeD in_set_dropD)
    show "length (filter (matches h k') ?es) \<le> 1" if "key_bucket h k' = ?b" for k'
    proof -
      have "length (hits h k') \<le> 1" by (rule hits_one [OF wf])
      then show ?thesis using f [OF that] by simp
    qed
  qed
  moreover have "hash_entry ?h = map_set (h_compare_function h) k None (hash_entry h)"
    using hits_set_bucket [OF b, of ?es] f same_key_bucket [OF wf, of k]
    by (auto simp: fun_eq_iff hash_entry_def map_set_def)
  moreover have "hash_remove h k = Some (?h, True)"
    using some(1,2) by (simp add: hash_remove_def hash_remove_fast_def key_bucket_def set_bucket_def Let_def)
  ultimately show ?thesis using some(4) by auto
qed

interpretation ht: assoc_table hash_wf h_compare_function hash_entry hash_lookup hash_add hash_remove
  by unfold_locales (fact hash_lookup_law hash_add_law hash_remove_law)+

lemma hash_init_Some: "0 < n \<Longrightarrow> n \<le> 2 ^ 30 \<Longrightarrow> \<exists>h. hash_init n iv hf cmp = Some h"
proof -
  assume n: "0 < n" "n \<le> 2 ^ 30"
  then have "unat (word_of_int n :: u64) \<le> 2 ^ 63" by (simp add: unat_eq_nat_uint uint_word_of_int)
  then obtain m where "adjust_power_of_2 (word_of_int n) = Some m" by (rule adjust_power_of_2_Some)
  then show ?thesis using n by (simp add: hash_init_def Let_def)
qed

lemma hash_init_law:
  fixes h :: "('k, 'v) hash"
  assumes i: "hash_init n iv hf cmp = Some h" and n: "n \<le> 2 ^ 30"
    and eq: "equivp cmp" "\<And>a b. cmp a b \<Longrightarrow> hf a iv = hf b iv"
  shows "hash_wf h" "h_compare_function h = cmp" "hash_entry h = (\<lambda>_. None)"
proof -
  obtain m where m: "adjust_power_of_2 (word_of_int n) = Some m" "n > 0"
    using i by (auto simp: hash_init_def option_bind_Some_iff split: if_splits)
  have u: "unat (word_of_int n :: u64) = nat n"
    using m(2) n by (simp add: unat_eq_nat_uint uint_word_of_int)
  have "unat (word_of_int n :: u64) \<le> 2 ^ 63" unfolding u using n by simp
  then obtain j where j: "m = push_bit j 1" "j = 0 \<or> 2 ^ (j - 1) < nat n"
    using adjust_power_of_2_Some [of "word_of_int n"] m(1) u by (metis option.inject)
  have j30: "j \<le> 30"
  proof (rule ccontr)
    assume "\<not> j \<le> 30"
    then have "(2 :: nat) ^ 30 \<le> 2 ^ (j - 1)" by (intro power_increasing) auto
    moreover have "nat n \<le> 2 ^ 30" using n by simp
    ultimately show False using j(2) \<open>\<not> j \<le> 30\<close> by linarith
  qed
  have w: "ucast (push_bit j 1 :: u64) = (push_bit j 1 :: u32)"
    using j30 by (intro bit_word_eqI) (auto simp: bit_simps)
  have "sint (push_bit j 1 :: u32) = 2 ^ j"
  proof -
    have "uint (push_bit j 1 :: u32) = 2 ^ j"
    proof -
      have "(2 :: int) ^ j < 2 ^ 32" using j30 by (intro power_strict_increasing) auto
      then show ?thesis by (subst unsigned_push_bit_eq) (use j30 in \<open>simp add: push_bit_eq_mult take_bit_int_eq_self\<close>)
    qed
    moreover have "(2 :: int) ^ j < 2 ^ 31" using j30 by (intro power_strict_increasing) auto
    moreover have "- 2147483648 \<le> (2 :: int) ^ j" using zero_le_power [of "2 :: int" j] by linarith
    ultimately show ?thesis by (subst sint_uint) (simp add: signed_take_bit_int_eq_self)
  qed
  then have nb: "h = \<lparr>h_n_buckets = 2 ^ j, h_n_elements = 0, h_mask = 2 ^ j - 1, h_iv = iv, h_hash_function = hf,
      h_compare_function = cmp, h_buckets = replicate (2 ^ j) []\<rparr>"
    using i m j(1) w by (simp add: hash_init_def nat_power_eq Let_def)
  have empty: "hits h k = []" for k
  proof -
    have "key_bucket h k < 2 ^ j"
    proof -
      have "(word_of_int (2 ^ j - 1) :: u32) = mask j" by (simp add: mask_eq_exp_minus_1)
      then show ?thesis using j30 by (simp add: nb key_bucket_def hash_bucket_def take_bit_eq_mask [symmetric] unsigned_take_bit_eq)
    qed
    moreover have "h_buckets h = replicate (2 ^ j) []" by (simp add: nb)
    ultimately show ?thesis by (simp add: hits_def)
  qed
  show "h_compare_function h = cmp" by (simp add: nb)
  show "hash_entry h = (\<lambda>_. None)" by (simp add: empty hash_entry_def fun_eq_iff)
  have f: "h_compare_function h = cmp" "h_hash_function h = hf" "h_iv h = iv" "h_n_buckets h = 2 ^ j"
    "h_mask h = 2 ^ j - 1" "h_n_elements h = 0" "h_buckets h = replicate (2 ^ j) []"
    by (simp_all add: nb)
  have "equality_ok h" unfolding equality_ok_def hash_value_def f
    using eq(2) equivp_reflp [OF eq(1)] equivp_symp [OF eq(1)] equivp_transp [OF eq(1)] by blast
  then show "hash_wf h"
    using j30 unfolding hash_wf_def f by (simp add: empty nat_power_eq sum_list_replicate)
qed

subsection \<open>Iteration with removal\<close>

text \<open>
  The loops of the program that walk over a table and delete elements have one shape: a step
  looks at the value of an element, changes its own state, and says whether the element goes.
\<close>

partial_function (option) purge_loop ::
    "('s \<Rightarrow> 'v \<Rightarrow> ('s \<times> bool) option) \<Rightarrow> 's \<Rightarrow> ('k, 'v) hash \<Rightarrow> hash_iterator \<Rightarrow> ('s \<times> ('k, 'v) hash \<times> hash_iterator) option" where
  "purge_loop step s h hi =
     (case hash_iterator_next h hi of
        (h, hi, None) \<Rightarrow> Some (s, h, hi)
      | (h, hi, Some (b, i)) \<Rightarrow> do {
          (s, del) \<leftarrow> step s (he_value (h_buckets h ! b ! i));
          (if del
           then do {
             (h, hi) \<leftarrow> hash_iterator_delete_element h hi;
             purge_loop step s h hi }
           else purge_loop step s h hi) })"

text \<open>
  The table after the iterator has passed and left the buckets from \<open>st\<close> to \<open>n\<close>; the elements
  that go are those whose value satisfies \<open>P\<close>.
\<close>

definition keep :: "('v \<Rightarrow> bool) \<Rightarrow> ('k, 'v) hash_element list \<Rightarrow> ('k, 'v) hash_element list" where
  "keep P = filter (\<lambda>he. \<not> P (he_value he))"

fun purged :: "('v \<Rightarrow> bool) \<Rightarrow> nat \<Rightarrow> ('k, 'v) hash \<Rightarrow> nat \<Rightarrow> ('k, 'v) hash" where
  "purged P st h 0 = h"
| "purged P st h (Suc n) =
     (if st \<le> n then set_bucket (purged P st h n) n (keep P (h_buckets h ! n)) else purged P st h n)"

definition mark :: "('v \<Rightarrow> bool) \<Rightarrow> ('k, 'v) hash_element \<Rightarrow> ('k, 'v) hash_element" where
  "mark P he = (if P (he_value he) then he\<lparr>he_key := None\<rparr> else he)"

definition marked :: "('v \<Rightarrow> bool) \<Rightarrow> nat \<Rightarrow> ('k, 'v) hash_element list \<Rightarrow> ('k, 'v) hash_element list" where
  "marked P i hes = map (mark P) (take i hes) @ drop i hes"

definition with_bucket :: "('k, 'v) hash \<Rightarrow> nat \<Rightarrow> ('k, 'v) hash_element list \<Rightarrow> ('k, 'v) hash" where
  "with_bucket h b es = h\<lparr>h_buckets := (h_buckets h)[b := es]\<rparr>"

lemma purged_functions [simp]:
  "length (h_buckets (purged P st h n)) = length (h_buckets h)" "h_compare_function (purged P st h n) = h_compare_function h"
  "key_bucket (purged P st h n) = key_bucket h" "matches (purged P st h n) = matches h" "h_n_buckets (purged P st h n) = h_n_buckets h"
  by (induction n) (simp_all add: set_bucket_def)

lemma purged_later: "n \<le> b \<Longrightarrow> h_buckets (purged P st h n) ! b = h_buckets h ! b"
  by (induction n) (simp_all add: set_bucket_def)

lemma purged_start: "n \<le> st \<Longrightarrow> purged P st h n = h"
  by (induction n) simp_all

lemma marked_Suc:
  assumes "i < length hes"
  shows "marked P (Suc i) hes = (marked P i hes)[i := mark P (marked P i hes ! i)]" "marked P i hes ! i = hes ! i"
  using assms by (auto simp: marked_def take_Suc_conv_app_nth nth_append list_update_append Cons_nth_drop_Suc [symmetric])

lemma keep_marked:
  assumes "\<forall>he \<in> set hes. he_key he \<noteq> None"
  shows "filter (\<lambda>he. he_key he \<noteq> None) (marked P (length hes) hes) = keep P hes"
  using assms by (induction hes) (auto simp: marked_def mark_def keep_def)

lemma keep_all: "\<forall>he \<in> set hes. \<not> P (he_value he) \<Longrightarrow> keep P hes = hes \<and> marked P (length hes) hes = hes"
  by (induction hes) (auto simp: keep_def marked_def mark_def)

text \<open>Leaving a bucket whose elements have all been visited.\<close>

lemma unlock_after:
  assumes keys: "\<forall>he \<in> set (h_buckets h ! b). he_key he \<noteq> None" and b: "b < length (h_buckets h)" "st \<le> b"
    and hi: "it_bucket hi = Some b" "it_bucket_marked hi = (\<exists>he \<in> set (h_buckets h ! b). P (he_value he))"
  defines "g \<equiv> with_bucket (purged P st h b) b (marked P (length (h_buckets h ! b)) (h_buckets h ! b))"
  shows "fst (hash_iterator_unlock g hi) = purged P st h (Suc b)
    \<and> it_bucket (snd (hash_iterator_unlock g hi)) = None
    \<and> it_bucket_index (snd (hash_iterator_unlock g hi)) = it_bucket_index hi
    \<and> it_bucket_index_end (snd (hash_iterator_unlock g hi)) = it_bucket_index_end hi"
proof (cases "it_bucket_marked hi")
  case True
  then show ?thesis
    using hi(1) b keep_marked [OF keys, of P] unfolding g_def
    by (simp add: hash_iterator_unlock_def hash_remove_marked_def with_bucket_def Let_def set_bucket_def purged_later marked_def)
next
  case False
  then have "keep P (h_buckets h ! b) = h_buckets h ! b \<and> marked P (length (h_buckets h ! b)) (h_buckets h ! b) = h_buckets h ! b"
    using hi(2) by (intro keep_all) auto
  then show ?thesis using False hi(1) b(2) unfolding g_def
    by (simp add: hash_iterator_unlock_def with_bucket_def set_bucket_def purged_later)
qed

text \<open>
  The two states of the loop over the buckets from \<open>st\<close> to \<open>e\<close>: between buckets, when leaving
  the iterator's bucket gives the table purged up to bucket \<open>n\<close>; and at element \<open>i\<close> of bucket
  \<open>b\<close>, with those before it marked.
\<close>

definition at_boundary :: "('v \<Rightarrow> bool) \<Rightarrow> nat \<Rightarrow> nat \<Rightarrow> ('k, 'v) hash \<Rightarrow> nat \<Rightarrow> ('k, 'v) hash \<Rightarrow> hash_iterator \<Rightarrow> bool" where
  "at_boundary P st e h n g hi \<longleftrightarrow> st \<le> n \<and> n \<le> e \<and> e \<le> length (h_buckets h) \<and> it_elem hi = None \<and> it_bucket_index hi = int n - 1
     \<and> it_bucket_index_end hi = int e
     \<and> (\<exists>hi'. hash_iterator_unlock g hi = (purged P st h n, hi') \<and> it_bucket hi' = None \<and> it_elem hi' = None
          \<and> it_bucket_index hi' = it_bucket_index hi \<and> it_bucket_index_end hi' = it_bucket_index_end hi)"

definition visiting :: "('v \<Rightarrow> bool) \<Rightarrow> nat \<Rightarrow> nat \<Rightarrow> ('k, 'v) hash \<Rightarrow> nat \<Rightarrow> nat \<Rightarrow> ('k, 'v) hash \<Rightarrow> hash_iterator \<Rightarrow> bool" where
  "visiting P st e h b i g hi \<longleftrightarrow> st \<le> b \<and> b < e \<and> e \<le> length (h_buckets h) \<and> i < length (h_buckets h ! b)
     \<and> g = with_bucket (purged P st h b) b (marked P i (h_buckets h ! b))
     \<and> it_bucket hi = Some b \<and> it_last hi = Some i
     \<and> it_elem hi = (if Suc i < length (h_buckets h ! b) then Some (Suc i) else None)
     \<and> it_bucket_marked hi = (\<exists>he \<in> set (take i (h_buckets h ! b)). P (he_value he))
     \<and> it_bucket_index hi = int b \<and> it_bucket_index_end hi = int e"

text \<open>The values the loop still has to visit.\<close>

definition values_from :: "('k, 'v) hash \<Rightarrow> nat \<Rightarrow> nat \<Rightarrow> 'v list" where
  "values_from h n e = concat (map (\<lambda>b. map he_value (h_buckets h ! b)) [n..<e])"

definition purge_done ::
    "('v \<Rightarrow> bool) \<Rightarrow> nat \<Rightarrow> nat \<Rightarrow> ('k, 'v) hash \<Rightarrow> ('s \<Rightarrow> 'v list \<Rightarrow> bool) \<Rightarrow> ('s \<times> ('k, 'v) hash \<times> hash_iterator) option \<Rightarrow> bool" where
  "purge_done P st e h Inv r \<longleftrightarrow> (\<exists>s g hi. r = Some (s, g, hi) \<and> fst (hash_iterator_unlock g hi) = purged P st h e \<and> Inv s [])"

text \<open>The body of the loop after \<open>hash_iterator_next\<close> returned an element.\<close>

definition visit_rest ::
    "('s \<Rightarrow> 'v \<Rightarrow> ('s \<times> bool) option) \<Rightarrow> 's \<Rightarrow> ('k, 'v) hash \<Rightarrow> hash_iterator \<Rightarrow> nat \<Rightarrow> nat \<Rightarrow> ('s \<times> ('k, 'v) hash \<times> hash_iterator) option" where
  "visit_rest step s g hi b i = do {
     (s, del) \<leftarrow> step s (he_value (h_buckets g ! b ! i));
     (if del then do { (g, hi) \<leftarrow> hash_iterator_delete_element g hi; purge_loop step s g hi }
      else purge_loop step s g hi) }"

lemma loop_unfold:
  "purge_loop step s g hi =
     (case hash_iterator_next g hi of (g, hi, None) \<Rightarrow> Some (s, g, hi) | (g, hi, Some (b, i)) \<Rightarrow> visit_rest step s g hi b i)"
  by (subst purge_loop.simps) (simp add: visit_rest_def split: prod.split option.split)

lemma purged_Suc_empty: "n < length (h_buckets h) \<Longrightarrow> h_buckets h ! n = [] \<Longrightarrow> purged P st h (Suc n) = purged P st h n"
  using purged_later [of n n P st h] list_update_id [of "h_buckets (purged P st h n)" n] by (simp add: set_bucket_def keep_def)

lemma unlock_none: "it_bucket hi = None \<Longrightarrow> hash_iterator_unlock g hi = (g, hi)"
  by (simp add: hash_iterator_unlock_def)

lemma with_bucket_start: "with_bucket (purged P st h b) b (marked P 0 (h_buckets h ! b)) = purged P st h b"
  using purged_later [of b b P st h] list_update_id [of "h_buckets (purged P st h b)" b] by (simp add: with_bucket_def marked_def)

lemma values_from_Nil: "n < e \<Longrightarrow> h_buckets h ! n = [] \<Longrightarrow> values_from h n e = values_from h (Suc n) e"
  by (simp add: values_from_def upt_conv_Cons)

lemma values_from_Cons: "n < e \<Longrightarrow> values_from h n e = map he_value (h_buckets h ! n) @ values_from h (Suc n) e"
  by (simp add: values_from_def upt_conv_Cons)

lemma scan_law:
  assumes "at_boundary P st e h n g hi"
  shows "(\<exists>g' hi'. hash_iterator_scan (e - n) g hi = (g', hi', None) \<and> fst (hash_iterator_unlock g' hi') = purged P st h e
        \<and> values_from h n e = [])
    \<or> (\<exists>b \<ge> n. \<exists>g' hi'. hash_iterator_scan (e - n) g hi = (g', hi', Some (b, 0)) \<and> visiting P st e h b 0 g' hi'
        \<and> values_from h n e = values_from h b e)"
  using assms
proof (induction "e - n" arbitrary: n g hi)
  case 0
  then obtain hi' where u: "hash_iterator_unlock g hi = (purged P st h n, hi')" by (auto simp: at_boundary_def)
  have "fst (hash_iterator_unlock g (hi\<lparr>it_bucket_index := it_bucket_index hi + 1\<rparr>)) = fst (hash_iterator_unlock g hi)"
    by (simp add: hash_iterator_unlock_def Let_def split: option.split)
  moreover have "n = e" using 0 by (simp add: at_boundary_def)
  ultimately show ?case using u by (simp add: values_from_def)
next
  case (Suc k)
  obtain hi' where u: "hash_iterator_unlock g hi = (purged P st h n, hi')" "it_bucket hi' = None" "it_elem hi' = None"
      "it_bucket_index hi' = int n - 1" "it_bucket_index_end hi' = int e"
    and hi: "it_bucket_index hi = int n - 1" and r: "st \<le> n" "e \<le> length (h_buckets h)"
    using Suc.prems by (auto simp: at_boundary_def)
  have n: "n < e" "n < length (h_buckets h)" using Suc.hyps(2) r by simp_all
  have u1: "hash_iterator_unlock g (hi\<lparr>it_bucket_index := it_bucket_index hi + 1\<rparr>) = (purged P st h n, hi'\<lparr>it_bucket_index := int n\<rparr>)"
    using u(1) hi by (auto simp: hash_iterator_unlock_def Let_def split: option.splits if_splits)
  let ?hi = "hi'\<lparr>it_bucket_index := int n\<rparr>"
  show ?case
  proof (cases "h_buckets h ! n")
    case Nil
    have "at_boundary P st e h (Suc n) (purged P st h n) ?hi"
      using u n r Nil by (simp add: at_boundary_def unlock_none purged_Suc_empty del: purged.simps)
    moreover have k: "k = e - Suc n" using Suc.hyps(2) by simp
    ultimately have IH: "(\<exists>g' hi'. hash_iterator_scan k (purged P st h n) ?hi = (g', hi', None)
          \<and> fst (hash_iterator_unlock g' hi') = purged P st h e \<and> values_from h (Suc n) e = [])
      \<or> (\<exists>b \<ge> Suc n. \<exists>g' hi'. hash_iterator_scan k (purged P st h n) ?hi = (g', hi', Some (b, 0))
          \<and> visiting P st e h b 0 g' hi' \<and> values_from h (Suc n) e = values_from h b e)"
      using Suc.hyps(1) [OF k, of "purged P st h n" ?hi] by simp
    have "hash_iterator_scan (Suc k) g hi = hash_iterator_scan k (purged P st h n) ?hi"
      using u1 hi Nil by (simp add: purged_later)
    then show ?thesis using IH Suc_leD unfolding Suc.hyps(2) [symmetric] values_from_Nil [OF n(1) Nil] by auto
  next
    case (Cons he hes)
    have "hash_iterator_scan (Suc k) g hi = (purged P st h n, hash_iterator_advance (hash_iterator_lock ?hi n) 0 (length (h_buckets h ! n)), Some (n, 0))"
      using u1 hi Cons by (simp add: purged_later)
    moreover have "visiting P st e h n 0 (purged P st h n) (hash_iterator_advance (hash_iterator_lock ?hi n) 0 (length (h_buckets h ! n)))"
      using n r Cons u with_bucket_start [of P st h n] by (simp add: visiting_def hash_iterator_advance_def hash_iterator_lock_def)
    ultimately show ?thesis unfolding Suc.hyps(2) [symmetric] by blast
  qed
qed

lemma visit_step:
  assumes vis: "visiting P st e h b i g hi" and step: "step s (he_value (h_buckets h ! b ! i)) = Some (s', P (he_value (h_buckets h ! b ! i)))"
  defines "hi' \<equiv> (if P (he_value (h_buckets h ! b ! i)) then hi\<lparr>it_bucket_marked := True\<rparr> else hi)"
  shows "visit_rest step s g hi b i = purge_loop step s' (with_bucket (purged P st h b) b (marked P (Suc i) (h_buckets h ! b))) hi'"
    "it_bucket_marked hi' = (\<exists>he \<in> set (take (Suc i) (h_buckets h ! b)). P (he_value he))"
proof -
  let ?hes = "h_buckets h ! b"
  have i: "i < length ?hes" and b: "b < length (h_buckets h)" using vis by (auto simp: visiting_def)
  have g: "h_buckets g ! b = marked P i ?hes" "g = with_bucket (purged P st h b) b (marked P i ?hes)"
    using vis b by (simp_all add: visiting_def with_bucket_def)
  have del: "h_buckets g ! b ! i = ?hes ! i" using g(1) marked_Suc(2) [OF i] by simp
  show "visit_rest step s g hi b i = purge_loop step s' (with_bucket (purged P st h b) b (marked P (Suc i) ?hes)) hi'"
  proof (cases "P (he_value (?hes ! i))")
    case True
    have "hash_iterator_delete_element g hi = Some (with_bucket (purged P st h b) b (marked P (Suc i) ?hes), hi')"
      using vis True marked_Suc [OF i, of P] g b
      by (simp add: visiting_def hash_iterator_delete_element_def hi'_def mark_def) (simp add: with_bucket_def)
    then show ?thesis using True del step by (simp add: visit_rest_def)
  next
    case False
    then have "marked P (Suc i) ?hes = marked P i ?hes"
      using marked_Suc [OF i, of P] list_update_id [of "marked P i ?hes" i] by (simp add: mark_def)
    then show ?thesis using False del g(2) step by (simp add: visit_rest_def hi'_def)
  qed
  show "it_bucket_marked hi' = (\<exists>he \<in> set (take (Suc i) ?hes). P (he_value he))"
    using vis i by (auto simp: visiting_def hi'_def take_Suc_conv_app_nth)
qed

lemma visit_next:
  assumes vis: "visiting P st e h b i g hi" and step: "step s (he_value (h_buckets h ! b ! i)) = Some (s', P (he_value (h_buckets h ! b ! i)))"
    and i: "Suc i < length (h_buckets h ! b)"
  shows "\<exists>g' hi'. visit_rest step s g hi b i = visit_rest step s' g' hi' b (Suc i) \<and> visiting P st e h b (Suc i) g' hi'"
proof -
  let ?hes = "h_buckets h ! b" let ?g = "with_bucket (purged P st h b) b (marked P (Suc i) ?hes)"
  let ?hi = "if P (he_value (?hes ! i)) then hi\<lparr>it_bucket_marked := True\<rparr> else hi"
  let ?hi' = "hash_iterator_advance ?hi (Suc i) (length ?hes)"
  have len: "length (marked P (Suc i) ?hes) = length ?hes" using i by (simp add: marked_def)
  have b: "b < length (h_buckets h)" and e: "it_elem ?hi = Some (Suc i)" "it_bucket ?hi = Some b"
    using vis i by (auto simp: visiting_def)
  have "hash_iterator_next ?g ?hi = (?g, ?hi', Some (b, Suc i))"
    using e b len by (simp add: hash_iterator_next_def Let_def with_bucket_def del: if_split)
  then have "visit_rest step s g hi b i = visit_rest step s' ?g ?hi' b (Suc i)"
    using visit_step(1) [of P st e h b i g hi step, OF vis step] by (subst (asm) loop_unfold) simp
  moreover have "visiting P st e h b (Suc i) ?g ?hi'"
    using vis i visit_step(2) [of P st e h b i g hi step, OF vis step] by (auto simp: visiting_def hash_iterator_advance_def)
  ultimately show ?thesis by blast
qed

lemma visit_leave:
  assumes vis: "visiting P st e h b i g hi" and step: "step s (he_value (h_buckets h ! b ! i)) = Some (s', P (he_value (h_buckets h ! b ! i)))"
    and i: "\<not> Suc i < length (h_buckets h ! b)" and keys: "\<forall>he \<in> set (h_buckets h ! b). he_key he \<noteq> None"
  shows "\<exists>g' hi'. visit_rest step s g hi b i = purge_loop step s' g' hi' \<and> at_boundary P st e h (Suc b) g' hi'"
proof -
  let ?hes = "h_buckets h ! b" let ?g = "with_bucket (purged P st h b) b (marked P (length ?hes) ?hes)"
  let ?hi = "if P (he_value (?hes ! i)) then hi\<lparr>it_bucket_marked := True\<rparr> else hi"
  have len: "Suc i = length ?hes" using vis i by (simp add: visiting_def)
  have b: "b < length (h_buckets h)" "st \<le> b" "b < e" "e \<le> length (h_buckets h)" and hi: "it_bucket ?hi = Some b" "it_elem ?hi = None"
    "it_bucket_index ?hi = int b" "it_bucket_index_end ?hi = int e"
    using vis i by (auto simp: visiting_def)
  have m: "it_bucket_marked ?hi = (\<exists>he \<in> set ?hes. P (he_value he))"
    using visit_step(2) [of P st e h b i g hi step, OF vis step] len by simp
  note u = unlock_after [OF keys b(1,2) hi(1) m]
  have "it_elem (snd (hash_iterator_unlock ?g ?hi)) = None"
    using hi by (auto simp: hash_iterator_unlock_def Let_def split: option.split)
  then have "at_boundary P st e h (Suc b) ?g ?hi"
    using u b hi unfolding at_boundary_def by (cases "hash_iterator_unlock ?g ?hi") simp
  then show ?thesis using visit_step(1) [of P st e h b i g hi step, OF vis step] len by metis
qed

text \<open>The contract of a step: while the values left to visit are \<open>v # vs\<close>, it decides by \<open>P\<close>.\<close>

definition step_ok :: "('s \<Rightarrow> 'v \<Rightarrow> ('s \<times> bool) option) \<Rightarrow> ('v \<Rightarrow> bool) \<Rightarrow> ('s \<Rightarrow> 'v list \<Rightarrow> bool) \<Rightarrow> bool" where
  "step_ok step P Inv \<longleftrightarrow> (\<forall>s v vs. Inv s (v # vs) \<longrightarrow> (\<exists>s'. step s v = Some (s', P v) \<and> Inv s' vs))"

lemma visit_done:
  assumes keys: "\<forall>b < length (h_buckets h). \<forall>he \<in> set (h_buckets h ! b). he_key he \<noteq> None" and step: "step_ok step P Inv"
    and rest: "\<And>s g hi. at_boundary P st e h (Suc b) g hi \<Longrightarrow> Inv s (values_from h (Suc b) e) \<Longrightarrow> purge_done P st e h Inv (purge_loop step s g hi)"
  shows "visiting P st e h b i g hi \<Longrightarrow> Inv s (map he_value (drop i (h_buckets h ! b)) @ values_from h (Suc b) e)
    \<Longrightarrow> purge_done P st e h Inv (visit_rest step s g hi b i)"
proof (induction "length (h_buckets h ! b) - i" arbitrary: i g hi s rule: less_induct)
  case less
  have i: "i < length (h_buckets h ! b)" using less.prems(1) by (simp add: visiting_def)
  then have "drop i (h_buckets h ! b) = h_buckets h ! b ! i # drop (Suc i) (h_buckets h ! b)" by (simp add: Cons_nth_drop_Suc)
  then obtain s' where s': "step s (he_value (h_buckets h ! b ! i)) = Some (s', P (he_value (h_buckets h ! b ! i)))"
    "Inv s' (map he_value (drop (Suc i) (h_buckets h ! b)) @ values_from h (Suc b) e)"
  proof -
    have "Inv s (he_value (h_buckets h ! b ! i) # map he_value (drop (Suc i) (h_buckets h ! b)) @ values_from h (Suc b) e)"
      using less.prems(2) \<open>drop i (h_buckets h ! b) = _\<close> by simp
    then show thesis using that step unfolding step_ok_def by blast
  qed
  show ?case
  proof (cases "Suc i < length (h_buckets h ! b)")
    case True
    then obtain g' hi' where "visit_rest step s g hi b i = visit_rest step s' g' hi' b (Suc i)" "visiting P st e h b (Suc i) g' hi'"
      using visit_next [of P st e h b i g hi step, OF less.prems(1) s'(1)] by blast
    then show ?thesis using less.hyps [of "Suc i"] True s'(2) by simp
  next
    case False
    have "\<forall>he \<in> set (h_buckets h ! b). he_key he \<noteq> None" 
    proof -
      have "b < length (h_buckets h)" using less.prems(1) by (simp add: visiting_def)
      then show ?thesis using keys by blast
    qed
    then obtain g' hi' where "visit_rest step s g hi b i = purge_loop step s' g' hi'" "at_boundary P st e h (Suc b) g' hi'"
      using visit_leave [of P st e h b i g hi step, OF less.prems(1) s'(1) False] by blast
    then show ?thesis using rest s'(2) False by simp
  qed
qed

lemma loop_done:
  assumes keys: "\<forall>b < length (h_buckets h). \<forall>he \<in> set (h_buckets h ! b). he_key he \<noteq> None" and step: "step_ok step P Inv"
  shows "at_boundary P st e h n g hi \<Longrightarrow> Inv s (values_from h n e) \<Longrightarrow> purge_done P st e h Inv (purge_loop step s g hi)"
proof (induction "e - n" arbitrary: n g hi s rule: less_induct)
  case less
  have nx: "hash_iterator_next g hi = hash_iterator_scan (e - n) g hi"
    using less.prems(1) by (simp add: at_boundary_def hash_iterator_next_def nat_diff_distrib')
  from scan_law [OF less.prems(1)] show ?case
  proof
    assume "\<exists>g' hi'. hash_iterator_scan (e - n) g hi = (g', hi', None) \<and> fst (hash_iterator_unlock g' hi') = purged P st h e
      \<and> values_from h n e = []"
    then show ?thesis using nx less.prems(2) by (subst loop_unfold) (auto simp: purge_done_def)
  next
    assume "\<exists>b \<ge> n. \<exists>g' hi'. hash_iterator_scan (e - n) g hi = (g', hi', Some (b, 0)) \<and> visiting P st e h b 0 g' hi'
      \<and> values_from h n e = values_from h b e"
    then obtain b g' hi' where b: "b \<ge> n" "hash_iterator_scan (e - n) g hi = (g', hi', Some (b, 0))" "visiting P st e h b 0 g' hi'"
      "values_from h n e = values_from h b e"
      by blast
    have lt: "b < e" using b(3) by (simp add: visiting_def)
    have "e - Suc b < e - n" using b(1) lt by simp
    then have "purge_done P st e h Inv (purge_loop step s g hi)"
      if "at_boundary P st e h (Suc b) g hi" "Inv s (values_from h (Suc b) e)" for s g hi
      using less.hyps that by blast
    moreover have "Inv s (map he_value (drop 0 (h_buckets h ! b)) @ values_from h (Suc b) e)"
      using less.prems(2) b(4) values_from_Cons [OF lt, of h] by simp
    ultimately have "purge_done P st e h Inv (visit_rest step s g' hi' b 0)"
      by (rule visit_done [OF keys step _ b(3)])
    then show ?thesis using nx b(2) by (subst loop_unfold) simp
  qed
qed

lemma purged_hits:
  "n \<le> length (h_buckets h) \<Longrightarrow>
   hits (purged P st h n) k = (if st \<le> key_bucket h k \<and> key_bucket h k < n then keep P (hits h k) else hits h k)"
  by (induction n)
    (auto simp: hits_set_bucket less_Suc_eq hits_def [of h] keep_def filter_filter conj_commute)

lemma purged_wf: "hash_wf h \<Longrightarrow> n \<le> length (h_buckets h) \<Longrightarrow> hash_wf (purged P st h n)"
proof (induction n)
  case (Suc n)
  then have wf: "hash_wf (purged P st h n)" and n: "n < length (h_buckets h)" by auto
  have fit: "fits_bucket (purged P st h n) n he" if "he \<in> set (h_buckets h ! n)" for he
    using bucket_fits [OF wf, of n he] that n by (simp add: purged_later)
  have "hash_wf (set_bucket (purged P st h n) n (keep P (h_buckets h ! n)))"
  proof (rule set_bucket_wf [OF wf])
    show "n < length (h_buckets (purged P st h n))" using n by simp
    show "\<forall>he \<in> set (keep P (h_buckets h ! n)). fits_bucket (purged P st h n) n he" using fit by (simp add: keep_def)
    fix k assume k: "key_bucket (purged P st h n) k = n"
    have "length (filter (matches h k) (keep P (h_buckets h ! n))) \<le> length (hits h k)"
      using k length_filter_le [of "\<lambda>he. \<not> P (he_value he)" "hits h k"]
      by (simp add: keep_def hits_def filter_filter conj_commute)
    then show "length (filter (matches (purged P st h n) k) (keep P (h_buckets h ! n))) \<le> 1"
      using hits_one [OF Suc.prems(1), of k] by simp
  qed
  then show ?case using wf by simp
qed simp

text \<open>The contents after the loop: the entries that go are those in the range with \<open>P\<close>.\<close>

lemma purged_entry:
  assumes "hash_wf h" "e \<le> length (h_buckets h)"
  shows "hash_entry (purged P st h e) k =
    (case hash_entry h k of None \<Rightarrow> None
     | Some v \<Rightarrow> if st \<le> key_bucket h k \<and> key_bucket h k < e \<and> P v then None else Some v)"
  using purged_hits [OF assms(2), of P st k] hits_one [OF assms(1), of k]
  by (cases "hits h k") (auto simp: hash_entry_def keep_def)

lemma wf_keys: "hash_wf h \<Longrightarrow> \<forall>b < length (h_buckets h). \<forall>he \<in> set (h_buckets h ! b). he_key he \<noteq> None"
  using bucket_fits unfolding fits_bucket_def by fastforce

lemma purge_range_law:
  assumes wf: "hash_wf h" and range: "st \<le> e" "e \<le> length (h_buckets h)" and step: "step_ok step P Inv"
    and start: "Inv s (values_from h st e)"
  shows "\<exists>hi s' g hi'. hash_iterator_init_range h (int st) (int e) = Some hi \<and> purge_loop step s h hi = Some (s', g, hi')
    \<and> fst (hash_iterator_free g hi') = purged P st h e \<and> Inv s' []"
proof -
  have "h_n_buckets h = int (length (h_buckets h))" using wf by (auto simp: hash_wf_def)
  then obtain hi where hi: "hash_iterator_init_range h (int st) (int e) = Some hi" and b: "at_boundary P st e h st h hi"
    using range by (simp add: hash_iterator_init_range_def at_boundary_def unlock_none purged_start)
  have "purge_done P st e h Inv (purge_loop step s h hi)" by (rule loop_done [OF wf_keys [OF wf] step b start])
  then show ?thesis using hi by (auto simp: purge_done_def hash_iterator_free_def)
qed

text \<open>Removal by value is the loop that looks at nothing but the value.\<close>

lemma remove_by_value_loop_purges:
  "purge_loop (\<lambda>s x. Some (s, x = v)) s h hi = Some (s', g, hi') \<Longrightarrow> remove_by_value_loop v h hi = Some (g, hi')"
proof -
  let ?step = "\<lambda>s x. Some (s, x = v)"
  have "st = ?step \<longrightarrow> remove_by_value_loop v h hi = Some (snd y)" if "purge_loop st s h hi = Some y" for st s h hi y
  proof (rule purge_loop.raw_induct [where P = "\<lambda>st s h hi y. st = ?step \<longrightarrow> remove_by_value_loop v h hi = Some (snd y)", OF _ that])
    fix f st s h hi y
    assume IH: "\<And>st s h hi y. f st s h hi = Some y \<Longrightarrow> st = ?step \<longrightarrow> remove_by_value_loop v h hi = Some (snd y)"
      and body: "(case hash_iterator_next h hi of
        (h, hi, None) \<Rightarrow> Some (s, h, hi)
      | (h, hi, Some (b, i)) \<Rightarrow> do {
          (s, del) \<leftarrow> st s (he_value (h_buckets h ! b ! i));
          (if del then do { (h, hi) \<leftarrow> hash_iterator_delete_element h hi; f st s h hi } else f st s h hi) }) = Some y"
    show "st = ?step \<longrightarrow> remove_by_value_loop v h hi = Some (snd y)"
    proof
      assume st: "st = ?step"
      have IH': "remove_by_value_loop v h hi = Some (snd y)" if "f ?step s h hi = Some y" for s h hi y
        using IH [OF that] by simp
      obtain h1 hi1 p where nx: "hash_iterator_next h hi = (h1, hi1, p)" by (metis prod_cases3)
      show "remove_by_value_loop v h hi = Some (snd y)"
      proof (cases p)
        case None
        then show ?thesis using body nx by (subst remove_by_value_loop.simps) auto
      next
        case (Some bi)
        obtain b i where bi: "bi = (b, i)" by fastforce
        show ?thesis
        proof (cases "he_value (h_buckets h1 ! b ! i) = v")
          case True
          then obtain h2 hi2 where "hash_iterator_delete_element h1 hi1 = Some (h2, hi2)" "f ?step s h2 hi2 = Some y"
            using body nx Some bi st by (auto simp: option_bind_Some_iff)
          then show ?thesis using IH' nx Some bi True by (subst remove_by_value_loop.simps) simp
        next
          case False
          then have "f ?step s h1 hi1 = Some y" using body nx Some bi st by simp
          then show ?thesis using IH' nx Some bi False by (subst remove_by_value_loop.simps) simp
        qed
      qed
    qed
  qed
  then show "purge_loop ?step s h hi = Some (s', g, hi') \<Longrightarrow> remove_by_value_loop v h hi = Some (g, hi')" by fastforce
qed

lemma remove_by_value_purges:
  assumes wf: "hash_wf h"
  shows "hash_remove_by_value h v = Some (purged (\<lambda>x. x = v) 0 h (length (h_buckets h)))"
proof -
  have nb: "h_n_buckets h = int (length (h_buckets h))" using wf by (auto simp: hash_wf_def)
  have "step_ok (\<lambda>s x. Some (s, x = v)) (\<lambda>x. x = v) (\<lambda>(s :: unit) vs. True)" by (simp add: step_ok_def)
  then obtain hi s' g hi' where "hash_iterator_init_range h 0 (int (length (h_buckets h))) = Some hi"
    "purge_loop (\<lambda>s x. Some (s, x = v)) () h hi = Some (s', g, hi')"
    "fst (hash_iterator_free g hi') = purged (\<lambda>x. x = v) 0 h (length (h_buckets h))"
    using purge_range_law [OF wf, of 0 "length (h_buckets h)" "\<lambda>s x. Some (s, x = v)" "\<lambda>x. x = v" "\<lambda>s vs. True" "()"] by auto
  then show ?thesis using remove_by_value_loop_purges by (fastforce simp: hash_remove_by_value_def hash_iterator_init_def nb)
qed

text \<open>A third of the mixing step, for its three shifts, and its inverse.\<close>

definition mix_round :: "nat \<Rightarrow> nat \<Rightarrow> nat \<Rightarrow> u32 \<Rightarrow> u32 \<Rightarrow> u32 \<Rightarrow> u32 \<times> u32 \<times> u32" where
  "mix_round r s t a b c =
     (let a = a - b; a = a - c; a = a XOR drop_bit r c;
          b = b - c; b = b - a; b = b XOR push_bit s a;
          c = c - a; c = c - b; c = c XOR drop_bit t b
      in (a, b, c))"

definition unmix_round :: "nat \<Rightarrow> nat \<Rightarrow> nat \<Rightarrow> u32 \<Rightarrow> u32 \<Rightarrow> u32 \<Rightarrow> u32 \<times> u32 \<times> u32" where
  "unmix_round r s t a b c =
     (let c = (c XOR drop_bit t b) + b + a; b = (b XOR push_bit s a) + a + c; a = (a XOR drop_bit r c) + c + b in (a, b, c))"

definition unmix :: "u32 \<Rightarrow> u32 \<Rightarrow> u32 \<Rightarrow> u32 \<times> u32 \<times> u32" where
  "unmix a b c =
     (case unmix_round 3 10 15 a b c of (a, b, c) \<Rightarrow> case unmix_round 12 16 5 a b c of (a, b, c) \<Rightarrow> unmix_round 13 8 13 a b c)"

lemma case_Let: "(case Let t g of (x, y) \<Rightarrow> F x y) = (let z = t in case g z of (x, y) \<Rightarrow> F x y)"
  by simp

lemma mix_rounds:
  "mix a b c = (case mix_round 13 8 13 a b c of (a, b, c) \<Rightarrow> case mix_round 12 16 5 a b c of (a, b, c) \<Rightarrow> mix_round 3 10 15 a b c)"
  by (simp only: mix_def mix_round_def case_Let prod.case)

lemma xor_cancel: "(x XOR d) XOR d = (x :: u32)"
  by (simp add: xor.assoc)

lemma unmix_mix_round: "(case mix_round r s t a b c of (a, b, c) \<Rightarrow> unmix_round r s t a b c) = (a, b, c)"
  by (simp add: mix_round_def unmix_round_def Let_def xor_cancel)

lemma mix_unmix_round: "(case unmix_round r s t a b c of (a, b, c) \<Rightarrow> mix_round r s t a b c) = (a, b, c)"
  by (simp add: mix_round_def unmix_round_def Let_def xor_cancel)

lemma unmix_mix: "(case mix a b c of (a, b, c) \<Rightarrow> unmix a b c) = (a, b, c)"
proof -
  obtain a1 b1 c1 where 1: "mix_round 13 8 13 a b c = (a1, b1, c1)" by (rule prod_cases3)
  obtain a2 b2 c2 where 2: "mix_round 12 16 5 a1 b1 c1 = (a2, b2, c2)" by (rule prod_cases3)
  obtain a3 b3 c3 where 3: "mix_round 3 10 15 a2 b2 c2 = (a3, b3, c3)" by (rule prod_cases3)
  show ?thesis
    using unmix_mix_round [of 13 8 13 a b c] unmix_mix_round [of 12 16 5 a1 b1 c1] unmix_mix_round [of 3 10 15 a2 b2 c2] 1 2 3
    by (simp add: mix_rounds unmix_def)
qed

lemma mix_unmix: "(case unmix a b c of (a, b, c) \<Rightarrow> mix a b c) = (a, b, c)"
proof -
  obtain a1 b1 c1 where 1: "unmix_round 3 10 15 a b c = (a1, b1, c1)" by (rule prod_cases3)
  obtain a2 b2 c2 where 2: "unmix_round 12 16 5 a1 b1 c1 = (a2, b2, c2)" by (rule prod_cases3)
  obtain a3 b3 c3 where 3: "unmix_round 13 8 13 a2 b2 c2 = (a3, b3, c3)" by (rule prod_cases3)
  show ?thesis
    using mix_unmix_round [of 3 10 15 a b c] mix_unmix_round [of 12 16 5 a1 b1 c1] mix_unmix_round [of 13 8 13 a2 b2 c2] 1 2 3
    by (simp add: mix_rounds unmix_def)
qed

subsection \<open>Properties\<close>

text \<open>
  C32: The hash table is a map. A table made by \<open>hash_init\<close> for a number of buckets between 1 and
  \<open>2 ^ 30\<close>, with a comparison that is an equivalence and a hash function that respects it, answers
  every sequence of lookups, additions and removals as a map modulo the comparison does, and never
  crashes: additions without replacement refuse a present key, removals report presence.
\<close>

theorem hash_table_is_map:
  fixes cs :: "('k, 'v) table_cmd list" and hf :: "'k \<Rightarrow> u32 \<Rightarrow> u32"
  assumes "0 < n" "n \<le> 2 ^ 30" "equivp cmp" "\<And>a b. cmp a b \<Longrightarrow> hf a iv = hf b iv"
  shows "\<exists>h h'. hash_init n iv hf cmp = Some h
    \<and> run_table hash_lookup hash_add hash_remove cs h = Some (h', run_map cmp cs (\<lambda>_. None))"
proof -
  obtain h :: "('k, 'v) hash" where h: "hash_init n iv hf cmp = Some h" using hash_init_Some [OF assms(1,2)] by blast
  note law = hash_init_law [OF h assms(2-4)]
  show ?thesis using h ht.run_refines_map [OF law(1), where cs = cs] law(2,3) by auto
qed

theorem hash_table_is_map_witness:
  "\<exists>h h'. hash_init 5 0 (\<lambda>k _. of_nat (k mod 2)) (=) = Some h
    \<and> run_table hash_lookup hash_add hash_remove
        [Add (1 :: nat) (10 :: nat) False, Add 3 30 False, Add 1 11 False, Lookup 1, Add 3 31 True, Lookup 3, Remove 1, Lookup 1, Remove 1] h
      = Some (h', [Done True, Done True, Done False, Found (Some 10), Done True, Found (Some 31), Done True, Found None, Done False])"
  using hash_table_is_map [of 5 "(=)" "\<lambda>k _. of_nat (k mod 2)" 0
      "[Add (1 :: nat) (10 :: nat) False, Add 3 30 False, Add 1 11 False, Lookup 1, Add 3 31 True, Lookup 3, Remove 1, Lookup 1, Remove 1]"]
  by (simp add: map_set_def identity_equivp del: run_table.simps)

text \<open>
  C33: Removal by value: the iteration with its marking of elements terminates without a crash on
  every well-formed table, leaves a well-formed table, removes exactly the entries holding
  the value, and keeps every other entry.
\<close>

theorem remove_by_value_spec:
  assumes "hash_wf h"
  shows "\<exists>h'. hash_remove_by_value h v = Some h' \<and> hash_wf h'
    \<and> hash_entry h' = (\<lambda>k. if hash_entry h k = Some v then None else hash_entry h k)"
proof -
  let ?h = "purged (\<lambda>x. x = v) 0 h (length (h_buckets h))"
  have "hash_entry ?h k = (if hash_entry h k = Some v then None else hash_entry h k)" for k
    using purged_entry [OF assms order_refl, of "\<lambda>x. x = v" 0 k] key_bucket_bound [OF assms, of k] by (simp split: option.split)
  then show ?thesis
    using remove_by_value_purges [OF assms, of v] purged_wf [OF assms order_refl, of "\<lambda>x. x = v" 0] by (simp add: fun_eq_iff)
qed

theorem remove_by_value_spec_witness:
  "\<exists>h h' :: (nat, nat) hash. hash_remove_by_value h 10 = Some h'
    \<and> hash_entry h 1 = Some 10 \<and> hash_entry h 3 = Some 30 \<and> hash_entry h' 1 = None \<and> hash_entry h' 3 = Some 30"
proof -
  obtain h0 :: "(nat, nat) hash" where h0: "hash_init 2 0 (\<lambda>k _. of_nat (k mod 2)) (=) = Some h0"
    using hash_init_Some [of 2] by force
  have w: "hash_wf h0" "h_compare_function h0 = (=)" "hash_entry h0 = (\<lambda>_. None)"
    using hash_init_law [OF h0] by (simp_all add: identity_equivp)
  obtain h1 :: "(nat, nat) hash" where h1: "hash_wf h1" "h_compare_function h1 = (=)" "hash_entry h1 = map_set (=) 1 (Some 10) (\<lambda>_. None)"
    using hash_add_law [OF w(1), of 1 "10 :: nat" False] w by auto
  obtain h2 :: "(nat, nat) hash" where h2: "hash_wf h2" "hash_entry h2 = map_set (=) 3 (Some 30) (map_set (=) 1 (Some 10) (\<lambda>_. None))"
    using hash_add_law [OF h1(1), of 3 "30 :: nat" False] h1 by (auto simp: map_set_def)
  obtain h3 where h3: "hash_remove_by_value h2 10 = Some h3"
    "hash_entry h3 = (\<lambda>k. if hash_entry h2 k = Some 10 then None else hash_entry h2 k)"
    using remove_by_value_spec [OF h2(1), of 10] by blast
  then have "hash_entry h2 1 = Some 10 \<and> hash_entry h2 3 = Some 30 \<and> hash_entry h3 1 = None \<and> hash_entry h3 3 = Some 30"
    using h2(2) by (simp add: map_set_def)
  then show ?thesis using h3(1) by blast
qed

text \<open>
  The mixing step of the hash function is a bijection of the three words: it loses no
  information, as its comment says, and \<open>unmix\<close> inverts it.
\<close>

theorem mix_bijective: "bij (\<lambda>(a, b, c). mix a b c)"
proof (rule o_bij)
  show "(\<lambda>(a, b, c). unmix a b c) \<circ> (\<lambda>(a, b, c). mix a b c) = id"
    using unmix_mix by (auto simp: fun_eq_iff)
  show "(\<lambda>(a, b, c). mix a b c) \<circ> (\<lambda>(a, b, c). unmix a b c) = id"
    using mix_unmix by (auto simp: fun_eq_iff)
qed

end
