(* ===== verification/Mroute.thy ===== *)
theory Mroute
  imports Buffer Hash_Table
begin

text \<open>
  The addresses of the server's routing tables: mroute.c and mroute.h, with
  \<open>netbits_to_netmask\<close> of route.h.

  The union of \<open>struct mroute_addr\<close> is its 20 bytes \<open>raw_addr\<close>; the members of the other views
  are at the offsets the source asserts: an IPv4 address at 0 with its port at 4, an IPv6
  address at 0 with its port at 16, an Ethernet address at 0 with its VLAN id (in the host's
  byte order, \<open>le\<close>) at 6.  An address or a port of a packet or a socket address is the list of
  its bytes in network order.  A \<open>NULL\<close> result pointer is \<open>None\<close>.  The unused byte of the struct
  is left out; \<open>mroute_addr_print\<close> only serves log messages and the management interface.
\<close>

subsection \<open>Addresses\<close>

record mroute_addr =
  mr_len :: u8
  mr_type :: u8
  mr_netbits :: u8
  mr_raw :: bytes

definition MR_MAX_ADDR_LEN :: nat where "MR_MAX_ADDR_LEN = 20"
definition MR_ADDR_NONE :: u8 where "MR_ADDR_NONE = 0"
definition MR_ADDR_ETHER :: u8 where "MR_ADDR_ETHER = 1"
definition MR_ADDR_IPV4 :: u8 where "MR_ADDR_IPV4 = 2"
definition MR_ADDR_IPV6 :: u8 where "MR_ADDR_IPV6 = 3"
definition MR_ADDR_MASK :: u8 where "MR_ADDR_MASK = 3"
definition MR_WITH_PORT :: u8 where "MR_WITH_PORT = 4"
definition MR_WITH_NETBITS :: u8 where "MR_WITH_NETBITS = 8"

lemmas mr_consts = MR_MAX_ADDR_LEN_def MR_ADDR_NONE_def MR_ADDR_ETHER_def MR_ADDR_IPV4_def MR_ADDR_IPV6_def
  MR_ADDR_MASK_def MR_WITH_PORT_def MR_WITH_NETBITS_def

definition mroute_addr_init :: mroute_addr where
  "mroute_addr_init = \<lparr>mr_len = 0, mr_type = 0, mr_netbits = 0, mr_raw = replicate MR_MAX_ADDR_LEN 0\<rparr>"

definition mroute_addr_reset :: "mroute_addr \<Rightarrow> mroute_addr" where
  "mroute_addr_reset ma = ma\<lparr>mr_len := 0, mr_type := MR_ADDR_NONE\<rparr>"

definition is_mac_mcast_addr :: "bytes \<Rightarrow> bool" where
  "is_mac_mcast_addr mac \<longleftrightarrow> mac ! 0 AND 1 \<noteq> 0"

definition is_mac_mcast_maddr :: "mroute_addr \<Rightarrow> bool" where
  "is_mac_mcast_maddr addr \<longleftrightarrow> mr_type addr AND MR_ADDR_MASK = MR_ADDR_ETHER \<and> is_mac_mcast_addr (mr_raw addr)"

definition mroute_learnable_address :: "mroute_addr \<Rightarrow> bool" where
  "mroute_learnable_address addr =
     (let bs = take (unat (mr_len addr)) (mr_raw addr);
          all_zeros = list_all (\<lambda>b. b = 0) bs;
          all_ones = list_all (\<lambda>b. b = 0xFF) bs in
      if all_zeros \<and> \<not> (mr_type addr AND MR_WITH_NETBITS \<noteq> 0 \<and> mr_netbits addr < 8) then False
      else if all_ones then False
      else if is_mac_mcast_maddr addr then False
      else True)"

subsection \<open>Addresses of packets\<close>

definition mroute_get_in_addr_t :: "mroute_addr option \<Rightarrow> bytes \<Rightarrow> u8 \<Rightarrow> mroute_addr option" where
  "mroute_get_in_addr_t ma src flags =
     map_option (\<lambda>ma. ma\<lparr>mr_type := MR_ADDR_IPV4 OR flags, mr_netbits := 0, mr_len := 4, mr_raw := patch (mr_raw ma) 0 src\<rparr>) ma"

definition mroute_get_in6_addr :: "mroute_addr option \<Rightarrow> bytes \<Rightarrow> u8 \<Rightarrow> mroute_addr option" where
  "mroute_get_in6_addr ma src flags =
     map_option (\<lambda>ma. ma\<lparr>mr_type := MR_ADDR_IPV6 OR flags, mr_netbits := 0, mr_len := 16, mr_raw := patch (mr_raw ma) 0 src\<rparr>) ma"

definition mroute_is_mcast :: "bytes \<Rightarrow> bool" where
  "mroute_is_mcast addr \<longleftrightarrow> be32_of addr AND push_bit 24 240 = push_bit 24 224"

definition mroute_is_mcast_ipv6 :: "bytes \<Rightarrow> bool" where
  "mroute_is_mcast_ipv6 addr \<longleftrightarrow> addr ! 0 = 0xff"

definition MROUTE_EXTRACT_SUCCEEDED :: u32 where "MROUTE_EXTRACT_SUCCEEDED = 1"
definition MROUTE_EXTRACT_BCAST :: u32 where "MROUTE_EXTRACT_BCAST = 2"
definition MROUTE_EXTRACT_MCAST :: u32 where "MROUTE_EXTRACT_MCAST = 4"
definition MROUTE_EXTRACT_IGMP :: u32 where "MROUTE_EXTRACT_IGMP = 8"

lemmas mr_extract_consts = MROUTE_EXTRACT_SUCCEEDED_def MROUTE_EXTRACT_BCAST_def MROUTE_EXTRACT_MCAST_def MROUTE_EXTRACT_IGMP_def

definition OPENVPN_IPH_GET_VER :: "u8 \<Rightarrow> u8" where
  "OPENVPN_IPH_GET_VER v = drop_bit 4 v AND 0x0F"

definition mroute_extract_addr_ip ::
    "mroute_addr option \<Rightarrow> mroute_addr option \<Rightarrow> buffer \<Rightarrow> mroute_addr option \<times> mroute_addr option \<times> u32" where
  "mroute_extract_addr_ip src dest buf =
     (if buf_len buf \<ge> 1
      then (let ip = buf_content buf; ver = OPENVPN_IPH_GET_VER (ip ! 0) in
        if ver = 4
        then (if buf_len buf \<ge> 20
          then (let saddr = segment 12 4 ip; daddr = segment 16 4 ip; protocol = ip ! 9 in
            (mroute_get_in_addr_t src saddr 0, mroute_get_in_addr_t dest daddr 0,
             (if mroute_is_mcast daddr then MROUTE_EXTRACT_MCAST else 0)
               OR (if protocol = 2 then MROUTE_EXTRACT_IGMP else 0) OR MROUTE_EXTRACT_SUCCEEDED))
          else (src, dest, 0))
        else if ver = 6
        then (if buf_len buf \<ge> 40
          then (let saddr = segment 8 16 ip; daddr = segment 24 16 ip in
            (mroute_get_in6_addr src saddr 0, mroute_get_in6_addr dest daddr 0,
             (if mroute_is_mcast_ipv6 daddr then MROUTE_EXTRACT_MCAST else 0) OR MROUTE_EXTRACT_SUCCEEDED))
          else (src, dest, 0))
        else (src, dest, 0))
      else (src, dest, 0))"

definition mroute_copy_ether_to_addr :: "bool \<Rightarrow> mroute_addr \<Rightarrow> bytes \<Rightarrow> u16 \<Rightarrow> mroute_addr" where
  "mroute_copy_ether_to_addr le maddr ether_addr vid =
     (let maddr = maddr\<lparr>mr_type := MR_ADDR_ETHER, mr_netbits := 0, mr_len := 6, mr_raw := patch (mr_raw maddr) 0 ether_addr\<rparr>
      in maddr\<lparr>mr_len := mr_len maddr + 2, mr_raw := patch (mr_raw maddr) 6 (native16_bytes le vid)\<rparr>)"

definition mroute_extract_addr_ether ::
    "bool \<Rightarrow> mroute_addr option \<Rightarrow> mroute_addr option \<Rightarrow> u16 \<Rightarrow> buffer \<Rightarrow> mroute_addr option \<times> mroute_addr option \<times> u32" where
  "mroute_extract_addr_ether le src dest vid buf =
     (if buf_len buf \<ge> 14
      then (let eth = buf_content buf; edest = segment 0 6 eth; esource = segment 6 6 eth in
        (map_option (\<lambda>a. mroute_copy_ether_to_addr le a esource vid) src,
         map_option (\<lambda>a. mroute_copy_ether_to_addr le a edest vid) dest,
         (if dest \<noteq> None \<and> is_mac_mcast_addr edest then MROUTE_EXTRACT_BCAST else 0) OR MROUTE_EXTRACT_SUCCEEDED))
      else (src, dest, 0))"

datatype dev_type = DEV_TYPE_UNDEF | DEV_TYPE_NULL | DEV_TYPE_TUN | DEV_TYPE_TAP

definition mroute_extract_addr_from_packet ::
    "bool \<Rightarrow> mroute_addr option \<Rightarrow> mroute_addr option \<Rightarrow> u16 \<Rightarrow> buffer \<Rightarrow> dev_type
     \<Rightarrow> mroute_addr option \<times> mroute_addr option \<times> u32" where
  "mroute_extract_addr_from_packet le src dest vid buf tunnel_type =
     (if tunnel_type = DEV_TYPE_TUN then mroute_extract_addr_ip src dest buf
      else if tunnel_type = DEV_TYPE_TAP then mroute_extract_addr_ether le src dest vid buf
      else (src, dest, 0))"

text \<open>The address part of \<open>struct openvpn_sockaddr\<close>: the address and the port, in network order.\<close>

datatype openvpn_sockaddr = AF_INET bytes bytes | AF_INET6 bytes bytes | AF_OTHER

definition mroute_extract_openvpn_sockaddr :: "mroute_addr \<Rightarrow> openvpn_sockaddr \<Rightarrow> bool \<Rightarrow> mroute_addr \<times> bool" where
  "mroute_extract_openvpn_sockaddr addr osaddr use_port =
     (case osaddr of
        AF_INET s_addr sin_port \<Rightarrow>
          (if use_port
           then (addr\<lparr>mr_type := MR_ADDR_IPV4 OR MR_WITH_PORT, mr_netbits := 0, mr_len := 6,
                      mr_raw := patch (patch (mr_raw addr) 0 s_addr) 4 sin_port\<rparr>, True)
           else (addr\<lparr>mr_type := MR_ADDR_IPV4, mr_netbits := 0, mr_len := 4, mr_raw := patch (mr_raw addr) 0 s_addr\<rparr>, True))
      | AF_INET6 sin6_addr sin6_port \<Rightarrow>
          (if use_port
           then (addr\<lparr>mr_type := MR_ADDR_IPV6 OR MR_WITH_PORT, mr_netbits := 0, mr_len := 18,
                      mr_raw := patch (patch (mr_raw addr) 0 sin6_addr) 16 sin6_port\<rparr>, True)
           else (addr\<lparr>mr_type := MR_ADDR_IPV6, mr_netbits := 0, mr_len := 16, mr_raw := patch (mr_raw addr) 0 sin6_addr\<rparr>, True))
      | AF_OTHER \<Rightarrow> (addr, False))"

definition mroute_extract_in_addr_t :: "mroute_addr \<Rightarrow> u32 \<Rightarrow> mroute_addr" where
  "mroute_extract_in_addr_t dest src =
     dest\<lparr>mr_type := MR_ADDR_IPV4, mr_netbits := 0, mr_len := 4, mr_raw := patch (mr_raw dest) 0 (be32_bytes src)\<rparr>"

definition in_addr_t_from_mroute_addr :: "mroute_addr \<Rightarrow> u32" where
  "in_addr_t_from_mroute_addr addr =
     (if mr_type addr AND MR_ADDR_MASK = MR_ADDR_IPV4 \<and> mr_netbits addr = 0 \<and> mr_len addr = 4
      then be32_of (segment 0 4 (mr_raw addr)) else 0)"

subsection \<open>The network part of an address\<close>

definition netbits_to_netmask :: "int \<Rightarrow> u32" where
  "netbits_to_netmask netbits =
     (if netbits > 0 \<and> netbits \<le> 32 then push_bit (nat (32 - netbits)) 0xffffffff else 0)"

text \<open>The loop over the bytes of an IPv6 address: \<open>n\<close> is \<open>byte + 1\<close>.\<close>

fun mask_host_loop :: "nat \<Rightarrow> int \<Rightarrow> bytes \<Rightarrow> bytes \<times> int" where
  "mask_host_loop 0 bits_to_clear raw = (raw, bits_to_clear)"
| "mask_host_loop (Suc n) bits_to_clear raw =
     (if bits_to_clear > 0
      then (if bits_to_clear \<ge> 8 then mask_host_loop n (bits_to_clear - 8) (raw[n := 0])
            else mask_host_loop n 0 (raw[n := raw ! n AND ucast (push_bit (nat bits_to_clear) (0xffffffff :: u32))]))
      else (raw, bits_to_clear))"

definition mroute_addr_mask_host_bits :: "mroute_addr \<Rightarrow> mroute_addr option" where
  "mroute_addr_mask_host_bits ma =
     (if mr_type ma AND MR_ADDR_MASK = MR_ADDR_IPV4
      then (let addr = be32_of (segment 0 4 (mr_raw ma)) AND netbits_to_netmask (uint (mr_netbits ma))
            in Some (ma\<lparr>mr_raw := patch (mr_raw ma) 0 (be32_bytes addr)\<rparr>))
      else if mr_type ma AND MR_ADDR_MASK = MR_ADDR_IPV6
      then (let (raw, bits_to_clear) = mask_host_loop 16 (128 - uint (mr_netbits ma)) (mr_raw ma)
            in do { ASSERT (bits_to_clear = 0); Some (ma\<lparr>mr_raw := raw\<rparr>) })
      else None)"

subsection \<open>Comparison and hashing\<close>

definition mroute_addr_equal :: "mroute_addr \<Rightarrow> mroute_addr \<Rightarrow> bool" where
  "mroute_addr_equal a1 a2 =
     (if mr_type a1 \<noteq> mr_type a2 then False
      else if mr_netbits a1 \<noteq> mr_netbits a2 then False
      else if mr_len a1 \<noteq> mr_len a2 then False
      else take (unat (mr_len a1)) (mr_raw a1) = take (unat (mr_len a1)) (mr_raw a2))"

definition mroute_addr_compare_function :: "mroute_addr \<Rightarrow> mroute_addr \<Rightarrow> bool" where
  "mroute_addr_compare_function key1 key2 = mroute_addr_equal key1 key2"

text \<open>The memory of the struct from its member \<open>type\<close> on.\<close>

definition mroute_addr_hash_ptr :: "mroute_addr \<Rightarrow> bytes" where
  "mroute_addr_hash_ptr a = mr_type a # mr_netbits a # mr_raw a"

definition mroute_addr_hash_len :: "mroute_addr \<Rightarrow> u32" where
  "mroute_addr_hash_len a = ucast (mr_len a) + 2"

definition mroute_addr_hash_function :: "mroute_addr \<Rightarrow> u32 \<Rightarrow> u32" where
  "mroute_addr_hash_function key iv =
     hash_func (take (unat (mroute_addr_hash_len key)) (mroute_addr_hash_ptr key)) iv"

subsection \<open>The prefix lengths in use\<close>

definition MR_HELPER_NET_LEN :: nat where "MR_HELPER_NET_LEN = 129"

record mroute_helper =
  rh_cache_generation :: u32
  rh_ageable_ttl_secs :: int
  rh_n_net_len :: nat
  rh_net_len :: bytes
  rh_net_len_refcount :: "int list"

definition mroute_helper_init :: "int \<Rightarrow> mroute_helper" where
  "mroute_helper_init ageable_ttl_secs =
     \<lparr>rh_cache_generation = 0, rh_ageable_ttl_secs = ageable_ttl_secs, rh_n_net_len = 0,
      rh_net_len = replicate MR_HELPER_NET_LEN 0, rh_net_len_refcount = replicate MR_HELPER_NET_LEN 0\<rparr>"

text \<open>The loop of \<open>mroute_helper_regenerate\<close>; its first argument is \<open>i + 1\<close>.\<close>

fun regenerate_loop :: "nat \<Rightarrow> int list \<Rightarrow> bytes \<Rightarrow> nat \<Rightarrow> bytes \<times> nat" where
  "regenerate_loop 0 refcount net_len j = (net_len, j)"
| "regenerate_loop (Suc i) refcount net_len j =
     (if refcount ! i > 0 then regenerate_loop i refcount (net_len[j := of_nat i]) (j + 1)
      else regenerate_loop i refcount net_len j)"

definition mroute_helper_regenerate :: "mroute_helper \<Rightarrow> mroute_helper" where
  "mroute_helper_regenerate mh =
     (let (net_len, j) = regenerate_loop MR_HELPER_NET_LEN (rh_net_len_refcount mh) (rh_net_len mh) 0
      in mh\<lparr>rh_net_len := net_len, rh_n_net_len := j\<rparr>)"

definition mroute_helper_add_iroute46 :: "mroute_helper \<Rightarrow> int \<Rightarrow> mroute_helper option" where
  "mroute_helper_add_iroute46 mh netbits =
     (if netbits \<ge> 0
      then do {
        ASSERT (netbits < int MR_HELPER_NET_LEN);
        let n = nat netbits;
        let mh = mh\<lparr>rh_cache_generation := rh_cache_generation mh + 1,
                    rh_net_len_refcount := (rh_net_len_refcount mh)[n := rh_net_len_refcount mh ! n + 1]\<rparr>;
        Some (if rh_net_len_refcount mh ! n = 1 then mroute_helper_regenerate mh else mh) }
      else Some mh)"

definition mroute_helper_del_iroute46 :: "mroute_helper \<Rightarrow> int \<Rightarrow> mroute_helper option" where
  "mroute_helper_del_iroute46 mh netbits =
     (if netbits \<ge> 0
      then do {
        ASSERT (netbits < int MR_HELPER_NET_LEN);
        let n = nat netbits;
        let mh = mh\<lparr>rh_cache_generation := rh_cache_generation mh + 1,
                    rh_net_len_refcount := (rh_net_len_refcount mh)[n := rh_net_len_refcount mh ! n - 1]\<rparr>;
        ASSERT (rh_net_len_refcount mh ! n \<ge> 0);
        Some (if rh_net_len_refcount mh ! n = 0 then mroute_helper_regenerate mh else mh) }
      else Some mh)"

subsection \<open>Bits of an address\<close>

text \<open>Bit \<open>i\<close> of a block of memory, most significant bit of the first byte first.\<close>

definition addr_bit :: "bytes \<Rightarrow> nat \<Rightarrow> bool" where
  "addr_bit bs i = bit (bs ! (i div 8)) (7 - i mod 8)"

lemma unat_le_iff_uint: "unat x \<le> i \<longleftrightarrow> uint x \<le> int i"
  by (simp only: uint_nat of_nat_le_iff)

lemma div8_eq: "(i :: nat) div 8 = n \<longleftrightarrow> 8 * n \<le> i \<and> i < 8 * Suc n"
proof
  assume "i div 8 = n"
  then have "i = 8 * n + i mod 8" by (metis mult_div_mod_eq)
  moreover have "i mod 8 < 8" by simp
  ultimately show "8 * n \<le> i \<and> i < 8 * Suc n" by auto
next
  assume "8 * n \<le> i \<and> i < 8 * Suc n"
  then show "i div 8 = n" by (intro div_nat_eqI) (simp_all add: mult.commute)
qed

lemma addr_bit_update:
  assumes "n < length bs"
  shows "addr_bit (bs[n := w]) i = (if i div 8 = n then bit w (7 - i mod 8) else addr_bit bs i)"
  using assms by (simp add: addr_bit_def)

lemma byte_bit_cases:
  assumes "(i :: nat) < 8 * n"
  obtains q r where "i = 8 * q + r" "r < 8" "q < n" "i div 8 = q" "i mod 8 = r"
proof
  show "i = 8 * (i div 8) + i mod 8" "i mod 8 < 8" by simp_all
  show "i div 8 < n" using assms by linarith
qed simp_all

lemma addr_bit_be32_bytes:
  assumes "i < 32"
  shows "addr_bit (be32_bytes w) i = bit w (31 - i)"
proof -
  obtain q r where i: "i = 8 * q + r" "r < 8" "q < 4" "i div 8 = q" "i mod 8 = r"
    using byte_bit_cases [of i 4] assms by auto
  then have "q = 0 \<or> q = 1 \<or> q = 2 \<or> q = 3" by linarith
  moreover have "7 - r < 8" "24 + (7 - r) = 31 - r" "16 + (7 - r) = 23 - r" "8 + (7 - r) = 15 - r" using i(2) by linarith+
  ultimately show ?thesis unfolding addr_bit_def i(4,5)
    by (elim disjE) (simp_all add: i(1,2) be32_bytes_def bit_simps)
qed

lemma be32_of_bit:
  assumes "length bs = 4" "i < 32"
  shows "bit (be32_of bs) (31 - i) = addr_bit bs i"
  using addr_bit_be32_bytes [OF assms(2), of "be32_of bs"] be32_bytes_of [OF assms(1)] by simp

lemma netmask_bit:
  "i < 32 \<Longrightarrow> bit (netbits_to_netmask n) (31 - i) \<longleftrightarrow> int i < n \<and> n \<le> 32"
proof -
  have ones: "(0xffffffff :: u32) = - 1" by simp
  show "i < 32 \<Longrightarrow> bit (netbits_to_netmask n) (31 - i) \<longleftrightarrow> int i < n \<and> n \<le> 32"
    unfolding netbits_to_netmask_def ones by (auto simp: bit_simps)
qed

lemma addr_bit_patch4:
  assumes "length raw = 20" "length bs = 4"
  shows "addr_bit (patch raw 0 bs) i = (if i < 32 then addr_bit bs i else addr_bit raw i)"
proof (cases "i < 32")
  case True
  then have "i div 8 < 4" by linarith
  then show ?thesis using True assms by (simp add: addr_bit_def patch_def nth_append)
next
  case False
  then have "\<not> i div 8 < 4" by linarith
  then show ?thesis using False assms
    by (cases "i div 8 < 20") (simp_all add: addr_bit_def patch_def nth_append)
qed

lemma mask_host_loop_law:
  "0 \<le> b \<Longrightarrow> b \<le> 8 * int n \<Longrightarrow> n \<le> length raw \<Longrightarrow>
   \<exists>raw'. mask_host_loop n b raw = (raw', 0) \<and> length raw' = length raw
     \<and> (\<forall>i. addr_bit raw' i \<longleftrightarrow> addr_bit raw i \<and> \<not> (8 * int n - b \<le> int i \<and> i < 8 * n))"
proof (induction n arbitrary: b raw)
  case (Suc n)
  consider "b = 0" | "8 \<le> b" | "0 < b" "b < 8" using Suc.prems by linarith
  then show ?case
  proof cases
    case 1
    then show ?thesis by auto
  next
    case 2
    obtain raw' where r: "mask_host_loop n (b - 8) (raw[n := 0]) = (raw', 0)" "length raw' = length raw"
      "\<And>i. addr_bit raw' i \<longleftrightarrow> addr_bit (raw[n := 0]) i \<and> \<not> (8 * int n - (b - 8) \<le> int i \<and> i < 8 * n)"
      using Suc.IH [of "b - 8" "raw[n := 0]"] Suc.prems 2 by auto
    have "addr_bit raw' i \<longleftrightarrow> addr_bit raw i \<and> \<not> (8 * int (Suc n) - b \<le> int i \<and> i < 8 * Suc n)" for i
    proof -
      have "i div 8 = n \<longleftrightarrow> 8 * n \<le> i \<and> i < 8 * Suc n" by (rule div8_eq)
      then show ?thesis using r(3) [of i] addr_bit_update [of n raw 0 i] Suc.prems 2 by auto
    qed
    then show ?thesis using r(1,2) 2 Suc.prems by auto
  next
    case 3
    let ?w = "raw ! n AND ucast (push_bit (nat b) (0xffffffff :: u32))"
    obtain raw' where r: "mask_host_loop n 0 (raw[n := ?w]) = (raw', 0)" "length raw' = length raw"
      "\<And>i. addr_bit raw' i \<longleftrightarrow> addr_bit (raw[n := ?w]) i \<and> \<not> (8 * int n - 0 \<le> int i \<and> i < 8 * n)"
      using Suc.IH [of 0 "raw[n := ?w]"] Suc.prems by auto
    have "addr_bit raw' i \<longleftrightarrow> addr_bit raw i \<and> \<not> (8 * int (Suc n) - b \<le> int i \<and> i < 8 * Suc n)" for i
    proof (cases "i div 8 = n")
      case True
      obtain k where k: "i = 8 * n + k" "k < 8" using True by (metis mod_less_divisor mult_div_mod_eq zero_less_numeral)
      have ones: "(0xffffffff :: u32) = - 1" by simp
      have "bit ?w (7 - k) \<longleftrightarrow> bit (raw ! n) (7 - k) \<and> nat b \<le> 7 - k"
        unfolding ones using k(2) by (auto simp: bit_simps)
      moreover have "nat b \<le> 7 - k \<longleftrightarrow> int k < 8 - b" using k(2) 3 by linarith
      ultimately have "addr_bit raw' i \<longleftrightarrow> bit (raw ! n) (7 - k) \<and> int k < 8 - b"
        using r(3) [of i] addr_bit_update [of n raw ?w i] Suc.prems True k by simp
      moreover have "addr_bit raw i \<longleftrightarrow> bit (raw ! n) (7 - k)" using k by (simp add: addr_bit_def)
      ultimately show ?thesis using k by auto
    next
      case False
      have "\<not> (8 * n \<le> i \<and> i < 8 * Suc n)" using False by (simp only: div8_eq) simp
      then show ?thesis using r(3) [of i] addr_bit_update [of n raw ?w i] Suc.prems False 3 by auto
    qed
    then show ?thesis using r(1,2) 3 by auto
  qed
qed simp

text \<open>The size in bits of an address of the family: what the prefix length may not exceed.\<close>

definition family_bits :: "mroute_addr \<Rightarrow> nat" where
  "family_bits ma = (if mr_type ma AND MR_ADDR_MASK = MR_ADDR_IPV4 then 32
                     else if mr_type ma AND MR_ADDR_MASK = MR_ADDR_IPV6 then 128 else 0)"

text \<open>
  Masking an address: for an IPv4 or IPv6 address with a prefix length that fits,
  \<^const>\<open>mroute_addr_mask_host_bits\<close> succeeds, clears exactly the bits after the prefix, and
  changes nothing else, neither in the address nor in the rest of the struct.
\<close>

theorem mask_host_bits_keeps_prefix:
  assumes "length (mr_raw ma) = MR_MAX_ADDR_LEN" "family_bits ma \<noteq> 0" "uint (mr_netbits ma) \<le> int (family_bits ma)"
  shows "\<exists>raw. mroute_addr_mask_host_bits ma = Some (ma\<lparr>mr_raw := raw\<rparr>) \<and> length raw = MR_MAX_ADDR_LEN
    \<and> (\<forall>i. addr_bit raw i = (addr_bit (mr_raw ma) i \<and> \<not> (unat (mr_netbits ma) \<le> i \<and> i < family_bits ma)))"
proof (cases "mr_type ma AND MR_ADDR_MASK = MR_ADDR_IPV4")
  case True
  let ?n = "uint (mr_netbits ma)" and ?a = "be32_of (segment 0 4 (mr_raw ma))"
  let ?raw = "patch (mr_raw ma) 0 (be32_bytes (?a AND netbits_to_netmask ?n))"
  have len: "length (mr_raw ma) = 20" using assms(1) by (simp add: mr_consts)
  have fb: "family_bits ma = 32" using True by (simp add: family_bits_def)
  have "addr_bit ?raw i \<longleftrightarrow> addr_bit (mr_raw ma) i \<and> \<not> (unat (mr_netbits ma) \<le> i \<and> i < 32)" for i
  proof (cases "i < 32")
    case lt: True
    have s: "addr_bit (segment 0 4 (mr_raw ma)) i = addr_bit (mr_raw ma) i"
      using lt len by (simp add: addr_bit_def segment_nth)
    have "int i < ?n \<longleftrightarrow> \<not> unat (mr_netbits ma) \<le> i" by (simp add: unat_le_iff_uint not_le)
    then show ?thesis
      using lt len assms(3) fb be32_of_bit [of "segment 0 4 (mr_raw ma)" i] addr_bit_be32_bytes [OF lt]
        netmask_bit [OF lt, of ?n] s
      by (simp add: addr_bit_patch4 bit_simps)
  next
    case False
    then show ?thesis using len by (simp add: addr_bit_patch4)
  qed
  then show ?thesis using True len fb
    by (intro exI [of _ ?raw]) (simp add: mroute_addr_mask_host_bits_def mr_consts Let_def)
next
  case False
  then have v6: "mr_type ma AND MR_ADDR_MASK = MR_ADDR_IPV6" "family_bits ma = 128"
    using assms(2) by (auto simp: family_bits_def split: if_splits)
  have len: "length (mr_raw ma) = 20" using assms(1) by (simp add: mr_consts)
  let ?n = "uint (mr_netbits ma)"
  obtain raw' where r: "mask_host_loop 16 (128 - ?n) (mr_raw ma) = (raw', 0)" "length raw' = 20"
    "\<And>i. addr_bit raw' i \<longleftrightarrow> addr_bit (mr_raw ma) i \<and> \<not> (8 * int 16 - (128 - ?n) \<le> int i \<and> i < 8 * 16)"
    using mask_host_loop_law [of "128 - ?n" 16 "mr_raw ma"] assms(3) v6 len uint_ge_0 [of "mr_netbits ma"] by auto
  have "?n \<le> int i \<longleftrightarrow> unat (mr_netbits ma) \<le> i" for i by (simp add: unat_le_iff_uint)
  then show ?thesis using False v6 r by (auto simp: mroute_addr_mask_host_bits_def mr_consts)
qed

theorem mask_host_bits_keeps_prefix_witness:
  "\<exists>raw. mroute_addr_mask_host_bits \<lparr>mr_len = 4, mr_type = 10, mr_netbits = 12, mr_raw = [10, 0xff, 7, 1] @ replicate 16 0\<rparr>
      = Some \<lparr>mr_len = 4, mr_type = 10, mr_netbits = 12, mr_raw = raw\<rparr>
    \<and> addr_bit raw 11 \<and> \<not> addr_bit raw 12"
proof -
  let ?ma = "\<lparr>mr_len = 4, mr_type = 10, mr_netbits = 12, mr_raw = [10, 0xff, 7, 1] @ replicate 16 0\<rparr>"
  have "family_bits ?ma = 32" by (simp add: family_bits_def mr_consts)
  then obtain raw where r: "mroute_addr_mask_host_bits ?ma = Some (?ma\<lparr>mr_raw := raw\<rparr>)"
    "\<forall>i. addr_bit raw i = (addr_bit (mr_raw ?ma) i \<and> \<not> (unat (mr_netbits ?ma) \<le> i \<and> i < 32))"
    using mask_host_bits_keeps_prefix [of ?ma] by (auto simp: mr_consts)
  have "addr_bit raw 11 \<and> \<not> addr_bit raw 12"
    using spec [OF r(2), of 11] spec [OF r(2), of 12] by (simp add: addr_bit_def)
  then show ?thesis using r(1) by auto
qed

subsection \<open>Types of the extracted addresses\<close>

text \<open>The length of an address is the one of its family, and a host address has no prefix length.\<close>

definition mroute_wf :: "mroute_addr \<Rightarrow> bool" where
  "mroute_wf a \<longleftrightarrow> length (mr_raw a) = MR_MAX_ADDR_LEN \<and>
     (let t = mr_type a AND MR_ADDR_MASK; port = mr_type a AND MR_WITH_PORT \<noteq> 0 in
       t = MR_ADDR_ETHER \<and> mr_len a = 8 \<and> mr_netbits a = 0
       \<or> t = MR_ADDR_IPV4 \<and> mr_len a = (if port then 6 else 4)
       \<or> t = MR_ADDR_IPV6 \<and> mr_len a = (if port then 18 else 16))
     \<and> (mr_type a AND MR_WITH_NETBITS = 0 \<longrightarrow> mr_netbits a = 0)"

text \<open>The bytes that take part in comparisons.\<close>

definition addr_bytes :: "mroute_addr \<Rightarrow> bytes" where
  "addr_bytes a = take (unat (mr_len a)) (mr_raw a)"

lemma get_in_addr_t_typed:
  assumes "length (mr_raw a) = MR_MAX_ADDR_LEN" "length bs = 4" "mroute_get_in_addr_t (Some a) bs 0 = Some a'"
  shows "mroute_wf a'" "mr_type a' = MR_ADDR_IPV4" "addr_bytes a' = bs"
  using assms by (auto simp: mroute_get_in_addr_t_def mroute_wf_def mr_consts addr_bytes_def patch_def)

lemma get_in6_addr_typed:
  assumes "length (mr_raw a) = MR_MAX_ADDR_LEN" "length bs = 16" "mroute_get_in6_addr (Some a) bs 0 = Some a'"
  shows "mroute_wf a'" "mr_type a' = MR_ADDR_IPV6" "addr_bytes a' = bs"
  using assms by (auto simp: mroute_get_in6_addr_def mroute_wf_def mr_consts addr_bytes_def patch_def)

lemma copy_ether_typed:
  assumes "length (mr_raw a) = MR_MAX_ADDR_LEN" "length bs = 6"
  shows "mroute_wf (mroute_copy_ether_to_addr le a bs vid)" "mr_type (mroute_copy_ether_to_addr le a bs vid) = MR_ADDR_ETHER"
    "addr_bytes (mroute_copy_ether_to_addr le a bs vid) = bs @ native16_bytes le vid"
  using assms by (auto simp: mroute_copy_ether_to_addr_def mroute_wf_def mr_consts addr_bytes_def patch_def native16_bytes_def)

text \<open>The fields of a packet that its addresses are, by the version nibble and the device type.\<close>

definition packet_addrs :: "bool \<Rightarrow> dev_type \<Rightarrow> u16 \<Rightarrow> bytes \<Rightarrow> (u8 \<times> bytes \<times> bytes) option" where
  "packet_addrs le dev vid p =
     (if dev = DEV_TYPE_TUN \<and> length p \<ge> 20 \<and> drop_bit 4 (p ! 0) = 4
      then Some (MR_ADDR_IPV4, take 4 (drop 12 p), take 4 (drop 16 p))
      else if dev = DEV_TYPE_TUN \<and> length p \<ge> 40 \<and> drop_bit 4 (p ! 0) = 6
      then Some (MR_ADDR_IPV6, take 16 (drop 8 p), take 16 (drop 24 p))
      else if dev = DEV_TYPE_TAP \<and> length p \<ge> 14
      then Some (MR_ADDR_ETHER, take 6 (drop 6 p) @ native16_bytes le vid, take 6 p @ native16_bytes le vid)
      else None)"

lemma iph_ver: "OPENVPN_IPH_GET_VER v = drop_bit 4 v"
proof -
  have m: "(0x0F :: u8) = mask 4" by (simp add: mask_eq_exp_minus_1)
  show ?thesis unfolding OPENVPN_IPH_GET_VER_def m
    by (rule bit_word_eqI) (auto simp: bit_simps dest: bit_imp_le_length)
qed

lemma buf_len_content: "buf_wf b \<Longrightarrow> buf_len b = int (length (buf_content b))"
  by (simp add: length_buf_content)

lemma succeeded_bit: "bit (ret OR MROUTE_EXTRACT_SUCCEEDED) 0"
  by (simp add: mr_extract_consts bit_simps)

text \<open>
  C11: Typing of extracted addresses: for every packet, \<^const>\<open>mroute_extract_addr_from_packet\<close>
  fills both addresses exactly when the packet is long enough for its headers; the filled
  addresses are well-typed host addresses of the packet's family whose bytes are the source
  and destination fields of the packet, whatever the structs held before.
\<close>

theorem extracted_addresses_typed:
  assumes "buf_wf buf" "length (mr_raw s) = MR_MAX_ADDR_LEN" "length (mr_raw d) = MR_MAX_ADDR_LEN"
  shows "case packet_addrs le dev vid (buf_content buf) of
      None \<Rightarrow> mroute_extract_addr_from_packet le (Some s) (Some d) vid buf dev = (Some s, Some d, 0)
    | Some (t, sb, db) \<Rightarrow> \<exists>s' d' ret. mroute_extract_addr_from_packet le (Some s) (Some d) vid buf dev = (Some s', Some d', ret)
        \<and> bit ret 0 \<and> mroute_wf s' \<and> mroute_wf d' \<and> mr_type s' = t \<and> mr_type d' = t
        \<and> addr_bytes s' = sb \<and> addr_bytes d' = db"
proof -
  let ?p = "buf_content buf"
  have len: "buf_len buf = int (length ?p)" by (rule buf_len_content [OF assms(1)])
  note defs = mroute_extract_addr_from_packet_def mroute_extract_addr_ip_def mroute_extract_addr_ether_def len iph_ver Let_def segment_def
  consider (v4) "dev = DEV_TYPE_TUN" "20 \<le> length ?p" "drop_bit 4 (?p ! 0) = 4"
    | (v6) "dev = DEV_TYPE_TUN" "40 \<le> length ?p" "drop_bit 4 (?p ! 0) = 6"
    | (ether) "dev = DEV_TYPE_TAP" "14 \<le> length ?p"
    | (none) "packet_addrs le dev vid ?p = None" unfolding packet_addrs_def by argo
  then show ?thesis
  proof cases
    case v4
    let ?sb = "take 4 (drop 12 ?p)" and ?db = "take 4 (drop 16 ?p)"
    obtain s' d' where g: "mroute_get_in_addr_t (Some s) ?sb 0 = Some s'" "mroute_get_in_addr_t (Some d) ?db 0 = Some d'"
      by (simp add: mroute_get_in_addr_t_def)
    obtain ret where "mroute_extract_addr_from_packet le (Some s) (Some d) vid buf dev
        = (mroute_get_in_addr_t (Some s) ?sb 0, mroute_get_in_addr_t (Some d) ?db 0, ret OR MROUTE_EXTRACT_SUCCEEDED)"
      using v4 by (simp add: defs or.assoc [symmetric])
    then show ?thesis
      using v4 get_in_addr_t_typed [OF assms(2) _ g(1)] get_in_addr_t_typed [OF assms(3) _ g(2)] g
      by (simp add: packet_addrs_def succeeded_bit)
  next
    case v6
    let ?sb = "take 16 (drop 8 ?p)" and ?db = "take 16 (drop 24 ?p)"
    obtain s' d' where g: "mroute_get_in6_addr (Some s) ?sb 0 = Some s'" "mroute_get_in6_addr (Some d) ?db 0 = Some d'"
      by (simp add: mroute_get_in6_addr_def)
    obtain ret where "mroute_extract_addr_from_packet le (Some s) (Some d) vid buf dev
        = (mroute_get_in6_addr (Some s) ?sb 0, mroute_get_in6_addr (Some d) ?db 0, ret OR MROUTE_EXTRACT_SUCCEEDED)"
      using v6 by (simp add: defs)
    then show ?thesis
      using v6 get_in6_addr_typed [OF assms(2) _ g(1)] get_in6_addr_typed [OF assms(3) _ g(2)] g
      by (simp add: packet_addrs_def succeeded_bit)
  next
    case ether
    obtain ret where "mroute_extract_addr_from_packet le (Some s) (Some d) vid buf dev
        = (Some (mroute_copy_ether_to_addr le s (take 6 (drop 6 ?p)) vid), Some (mroute_copy_ether_to_addr le d (take 6 ?p) vid),
           ret OR MROUTE_EXTRACT_SUCCEEDED)"
      using ether by (simp add: defs)
    then show ?thesis
      using ether copy_ether_typed [OF assms(2), of "take 6 (drop 6 ?p)" le vid] copy_ether_typed [OF assms(3), of "take 6 ?p" le vid]
      by (simp add: packet_addrs_def succeeded_bit)
  next
    case none
    then have "mroute_extract_addr_from_packet le (Some s) (Some d) vid buf dev = (Some s, Some d, 0)"
    proof -
      have "\<not> (dev = DEV_TYPE_TUN \<and> length ?p \<ge> 20 \<and> drop_bit 4 (?p ! 0) = 4)"
        "\<not> (dev = DEV_TYPE_TUN \<and> length ?p \<ge> 40 \<and> drop_bit 4 (?p ! 0) = 6)" "\<not> (dev = DEV_TYPE_TAP \<and> length ?p \<ge> 14)"
        using none unfolding packet_addrs_def by (metis option.distinct(1))+
      then show ?thesis by (cases dev) (auto simp: defs)
    qed
    then show ?thesis using none by simp
  qed
qed

theorem extracted_addresses_typed_witness:
  "\<exists>s' d' ret. mroute_extract_addr_from_packet True (Some mroute_addr_init) (Some mroute_addr_init) 0
      \<lparr>b_capacity = 20, b_offset = 0, b_len = 20,
        b_data = Some ([0x45, 0, 0, 20, 0, 0, 0, 0, 64, 2, 0, 0] @ [10, 8, 0, 2] @ [224, 0, 0, 1])\<rparr> DEV_TYPE_TUN = (Some s', Some d', ret)
    \<and> bit ret 0 \<and> mroute_wf s' \<and> mroute_wf d' \<and> addr_bytes s' = [10, 8, 0, 2] \<and> addr_bytes d' = [224, 0, 0, 1]"
proof -
  let ?b = "\<lparr>b_capacity = 20, b_offset = 0, b_len = 20,
        b_data = Some ([0x45, 0, 0, 20, 0, 0, 0, 0, 64, 2, 0, 0] @ [10, 8, 0, 2] @ [224, 0, 0, 1])\<rparr> :: buffer"
  have wf: "buf_wf ?b" by (simp add: buf_wf_def BUF_SIZE_MAX_def)
  have c: "buf_content ?b = [0x45, 0, 0, 20, 0, 0, 0, 0, 64, 2, 0, 0] @ [10, 8, 0, 2] @ [224, 0, 0, 1]"
    by (simp add: buf_content_def buf_valid_def buf_peek_def segment_def)
  have p: "packet_addrs True DEV_TYPE_TUN 0 (buf_content ?b) = Some (MR_ADDR_IPV4, [10, 8, 0, 2], [224, 0, 0, 1])"
    unfolding c by (simp add: packet_addrs_def)
  have len: "length (mr_raw mroute_addr_init) = MR_MAX_ADDR_LEN" by (simp add: mroute_addr_init_def)
  show ?thesis using extracted_addresses_typed [OF wf len len, where le = True and dev = DEV_TYPE_TUN and vid = 0] unfolding p by auto
qed

subsection \<open>Equality and hash\<close>

text \<open>What a hash table needs of the comparison and the hash function of its keys.\<close>

lemma mroute_addr_equal_iff:
  "mroute_addr_equal a b \<longleftrightarrow>
     mr_type a = mr_type b \<and> mr_netbits a = mr_netbits b \<and> mr_len a = mr_len b \<and> addr_bytes a = addr_bytes b"
  by (auto simp: mroute_addr_equal_def addr_bytes_def)

lemma mroute_addr_equivp: "equivp mroute_addr_compare_function"
  by (rule equivpI) (auto simp: reflp_def symp_def transp_def mroute_addr_compare_function_def mroute_addr_equal_iff)

lemma mroute_addr_hash_bytes:
  "take (unat (mroute_addr_hash_len a)) (mroute_addr_hash_ptr a) = mr_type a # mr_netbits a # addr_bytes a"
proof -
  have "unat (mroute_addr_hash_len a) = unat (mr_len a) + 2"
  proof -
    have "unat (mr_len a) < 256" using unsigned_less [of "mr_len a", where ?'a = nat] by simp
    then have "unat (ucast (mr_len a) :: u32) = unat (mr_len a)" by (simp add: unsigned_ucast_eq take_bit_eq_mod)
    then show ?thesis using \<open>unat (mr_len a) < 256\<close>
      by (simp add: mroute_addr_hash_len_def unat_word_ariths)
  qed
  then show ?thesis by (simp add: mroute_addr_hash_ptr_def addr_bytes_def numeral_2_eq_2)
qed

lemma mroute_addr_equal_hash:
  "mroute_addr_compare_function a b \<Longrightarrow> mroute_addr_hash_function a iv = mroute_addr_hash_function b iv"
  by (simp add: mroute_addr_hash_function_def mroute_addr_hash_bytes mroute_addr_compare_function_def mroute_addr_equal_iff)

lemma in_addr_t_roundtrip: "length (mr_raw a) = MR_MAX_ADDR_LEN \<Longrightarrow> in_addr_t_from_mroute_addr (mroute_extract_in_addr_t a w) = w"
  by (simp add: in_addr_t_from_mroute_addr_def mroute_extract_in_addr_t_def mr_consts segment_patch_same [of 0 "be32_bytes w", simplified])

subsection \<open>The prefix lengths in use, in descending order\<close>

lemma regenerate_loop_law:
  "j + i \<le> length nl \<Longrightarrow> regenerate_loop i rc nl j = (nl', j') \<Longrightarrow>
   length nl' = length nl \<and> j' \<le> j + i \<and> take j' nl' = take j nl @ map of_nat (filter (\<lambda>k. rc ! k > 0) (rev [0..<i]))"
proof (induction i arbitrary: nl j)
  case (Suc i)
  show ?case
  proof (cases "rc ! i > 0")
    case True
    have "regenerate_loop i rc (nl[j := of_nat i]) (j + 1) = (nl', j')" using Suc.prems True by simp
    then have "length nl' = length nl \<and> j' \<le> j + 1 + i
        \<and> take j' nl' = take (j + 1) (nl[j := of_nat i]) @ map of_nat (filter (\<lambda>k. rc ! k > 0) (rev [0..<i]))"
      using Suc.IH [of "j + 1" "nl[j := of_nat i]"] Suc.prems(1) by simp
    moreover have "take (j + 1) (nl[j := of_nat i]) = take j nl @ [of_nat i]"
      using Suc.prems(1) by (simp add: take_Suc_conv_app_nth)
    ultimately show ?thesis using True by simp
  next
    case False
    then show ?thesis using Suc.IH [of j nl] Suc.prems by simp
  qed
qed simp

text \<open>The lengths of the iroutes in use, as a multiset; what the helper's arrays say of it.\<close>

definition helper_abs :: "mroute_helper \<Rightarrow> nat multiset \<Rightarrow> bool" where
  "helper_abs mh M \<longleftrightarrow> length (rh_net_len_refcount mh) = MR_HELPER_NET_LEN \<and> length (rh_net_len mh) = MR_HELPER_NET_LEN
     \<and> rh_n_net_len mh \<le> MR_HELPER_NET_LEN \<and> set_mset M \<subseteq> {..<MR_HELPER_NET_LEN}
     \<and> (\<forall>n < MR_HELPER_NET_LEN. rh_net_len_refcount mh ! n = int (count M n))
     \<and> take (rh_n_net_len mh) (rh_net_len mh) = map of_nat (filter (\<lambda>k. k \<in># M) (rev [0..<MR_HELPER_NET_LEN]))"

lemma regenerate_abs:
  assumes "length (rh_net_len_refcount mh) = MR_HELPER_NET_LEN" "length (rh_net_len mh) = MR_HELPER_NET_LEN"
    "set_mset M \<subseteq> {..<MR_HELPER_NET_LEN}" "\<forall>n < MR_HELPER_NET_LEN. rh_net_len_refcount mh ! n = int (count M n)"
  shows "helper_abs (mroute_helper_regenerate mh) M"
proof -
  obtain nl' j' where r: "regenerate_loop MR_HELPER_NET_LEN (rh_net_len_refcount mh) (rh_net_len mh) 0 = (nl', j')"
    by fastforce
  have "length nl' = MR_HELPER_NET_LEN" "j' \<le> MR_HELPER_NET_LEN"
    "take j' nl' = map of_nat (filter (\<lambda>k. rh_net_len_refcount mh ! k > 0) (rev [0..<MR_HELPER_NET_LEN]))"
    using regenerate_loop_law [OF _ r] assms(2) by simp_all
  moreover have "filter (\<lambda>k. rh_net_len_refcount mh ! k > 0) (rev [0..<MR_HELPER_NET_LEN]) = filter (\<lambda>k. k \<in># M) (rev [0..<MR_HELPER_NET_LEN])"
    using assms(4) by (intro filter_cong) auto
  ultimately show ?thesis using assms r by (simp add: helper_abs_def mroute_helper_regenerate_def)
qed

text \<open>Regenerating only when a length appears or disappears is enough.\<close>

lemma add_iroute_abs:
  assumes "helper_abs mh M" "0 \<le> n" "n < int MR_HELPER_NET_LEN"
  shows "\<exists>mh'. mroute_helper_add_iroute46 mh n = Some mh' \<and> helper_abs mh' (add_mset (nat n) M)
    \<and> rh_cache_generation mh' = rh_cache_generation mh + 1 \<and> rh_ageable_ttl_secs mh' = rh_ageable_ttl_secs mh"
proof -
  let ?n = "nat n"
  let ?mh = "mh\<lparr>rh_cache_generation := rh_cache_generation mh + 1,
      rh_net_len_refcount := (rh_net_len_refcount mh)[?n := rh_net_len_refcount mh ! ?n + 1]\<rparr>"
  have n: "?n < MR_HELPER_NET_LEN" using assms by linarith
  have rc: "rh_net_len_refcount ?mh ! k = int (count (add_mset ?n M) k)" if "k < MR_HELPER_NET_LEN" for k
    using assms(1) n that by (simp add: helper_abs_def nth_list_update)
  show ?thesis
  proof (cases "?n \<in># M")
    case True
    then have "rh_net_len_refcount ?mh ! ?n \<noteq> 1" using rc [OF n] by simp
    moreover have "helper_abs ?mh (add_mset ?n M)"
    proof -
      have "filter (\<lambda>k. k \<in># add_mset ?n M) ks = filter (\<lambda>k. k \<in># M) ks" for ks
        using True by (intro filter_cong) auto
      then show ?thesis using assms(1) n rc by (simp add: helper_abs_def)
    qed
    ultimately show ?thesis using assms(2,3) by (intro exI [of _ ?mh]) (simp add: mroute_helper_add_iroute46_def Let_def)
  next
    case False
    then have "rh_net_len_refcount ?mh ! ?n = 1" using rc [OF n] by (simp add: not_in_iff)
    moreover have "helper_abs (mroute_helper_regenerate ?mh) (add_mset ?n M)"
      using assms(1) n rc by (intro regenerate_abs) (auto simp: helper_abs_def)
    moreover have "rh_cache_generation (mroute_helper_regenerate ?mh) = rh_cache_generation mh + 1"
      "rh_ageable_ttl_secs (mroute_helper_regenerate ?mh) = rh_ageable_ttl_secs mh"
      by (simp_all add: mroute_helper_regenerate_def split: prod.split)
    ultimately show ?thesis using assms(2,3)
      by (intro exI [of _ "mroute_helper_regenerate ?mh"]) (simp add: mroute_helper_add_iroute46_def Let_def)
  qed
qed

lemma del_iroute_abs:
  assumes "helper_abs mh M" "0 \<le> n" "n < int MR_HELPER_NET_LEN"
  shows "if nat n \<in># M
    then \<exists>mh'. mroute_helper_del_iroute46 mh n = Some mh' \<and> helper_abs mh' (M - {#nat n#})
      \<and> rh_cache_generation mh' = rh_cache_generation mh + 1 \<and> rh_ageable_ttl_secs mh' = rh_ageable_ttl_secs mh
    else mroute_helper_del_iroute46 mh n = None"
proof -
  let ?n = "nat n"
  let ?mh = "mh\<lparr>rh_cache_generation := rh_cache_generation mh + 1,
      rh_net_len_refcount := (rh_net_len_refcount mh)[?n := rh_net_len_refcount mh ! ?n - 1]\<rparr>"
  have n: "?n < MR_HELPER_NET_LEN" using assms by linarith
  have old: "rh_net_len_refcount mh ! ?n = int (count M ?n)" "length (rh_net_len_refcount mh) = MR_HELPER_NET_LEN"
    using assms(1) n by (simp_all add: helper_abs_def)
  then have at: "rh_net_len_refcount ?mh ! ?n = int (count M ?n) - 1" using n by simp
  show ?thesis
  proof (cases "?n \<in># M")
    case False
    then show ?thesis using assms(2,3) at by (simp add: mroute_helper_del_iroute46_def not_in_iff Let_def)
  next
    case True
    then have ge: "rh_net_len_refcount ?mh ! ?n \<ge> 0" using at by (simp add: count_greater_eq_one_iff)
    have rc: "rh_net_len_refcount ?mh ! k = int (count (M - {#?n#}) k)" if "k < MR_HELPER_NET_LEN" for k
      using assms(1) n that True by (auto simp: helper_abs_def nth_list_update of_nat_diff count_greater_eq_one_iff)
    have sub: "set_mset (M - {#?n#}) \<subseteq> {..<MR_HELPER_NET_LEN}" using assms(1) by (auto simp: helper_abs_def dest: in_diffD)
    show ?thesis
    proof (cases "?n \<in># M - {#?n#}")
      case more: True
      then have "rh_net_len_refcount ?mh ! ?n \<noteq> 0" using rc [OF n] more unfolding count_greater_zero_iff [symmetric] by linarith
      moreover have "helper_abs ?mh (M - {#?n#})"
      proof -
        have "k \<in># M - {#?n#} \<longleftrightarrow> k \<in># M" for k using more by (cases "k = ?n") (auto dest: in_diffD simp flip: count_greater_zero_iff)
        then have "filter (\<lambda>k. k \<in># M - {#?n#}) ks = filter (\<lambda>k. k \<in># M) ks" for ks by simp
        then show ?thesis using assms(1) n rc sub by (simp add: helper_abs_def)
      qed
      ultimately show ?thesis using assms(2,3) True ge
        by (simp add: mroute_helper_del_iroute46_def Let_def)
    next
      case last: False
      then have "rh_net_len_refcount ?mh ! ?n = 0" using rc [OF n] by (simp add: not_in_iff)
      moreover have "helper_abs (mroute_helper_regenerate ?mh) (M - {#?n#})"
        using assms(1) n rc sub by (intro regenerate_abs) (auto simp: helper_abs_def)
      moreover have "rh_cache_generation (mroute_helper_regenerate ?mh) = rh_cache_generation mh + 1"
        "rh_ageable_ttl_secs (mroute_helper_regenerate ?mh) = rh_ageable_ttl_secs mh"
        by (simp_all add: mroute_helper_regenerate_def split: prod.split)
      ultimately show ?thesis using assms(2,3) True
        by (simp add: mroute_helper_del_iroute46_def Let_def)
    qed
  qed
qed

text \<open>Runs of the operations, and of the multiset; \<open>None\<close> when the process aborts.\<close>

datatype iroute_cmd = Add_Iroute int | Del_Iroute int

fun run_helper :: "iroute_cmd list \<Rightarrow> mroute_helper \<Rightarrow> mroute_helper option" where
  "run_helper [] mh = Some mh"
| "run_helper (Add_Iroute n # cs) mh = do { mh \<leftarrow> mroute_helper_add_iroute46 mh n; run_helper cs mh }"
| "run_helper (Del_Iroute n # cs) mh = do { mh \<leftarrow> mroute_helper_del_iroute46 mh n; run_helper cs mh }"

fun run_lengths :: "iroute_cmd list \<Rightarrow> nat multiset \<Rightarrow> nat multiset option" where
  "run_lengths [] M = Some M"
| "run_lengths (Add_Iroute n # cs) M =
     (if n < 0 then run_lengths cs M else if n < 129 then run_lengths cs (add_mset (nat n) M) else None)"
| "run_lengths (Del_Iroute n # cs) M =
     (if n < 0 then run_lengths cs M else if n < 129 \<and> nat n \<in># M then run_lengths cs (M - {#nat n#}) else None)"

fun counted :: "iroute_cmd \<Rightarrow> bool" where
  "counted (Add_Iroute n) = (0 \<le> n)"
| "counted (Del_Iroute n) = (0 \<le> n)"

lemma run_helper_abs:
  "helper_abs mh M \<Longrightarrow> (case run_lengths cs M of None \<Rightarrow> run_helper cs mh = None
    | Some M' \<Rightarrow> \<exists>mh'. run_helper cs mh = Some mh' \<and> helper_abs mh' M'
        \<and> rh_cache_generation mh' = rh_cache_generation mh + of_nat (length (filter counted cs)))"
proof (induction cs arbitrary: mh M)
  case (Cons c cs)
  show ?case
  proof (cases c)
    case (Add_Iroute n)
    consider "n < 0" | "0 \<le> n" "n < 129" | "129 \<le> n" by linarith
    then show ?thesis
    proof cases
      case 1
      then show ?thesis using Cons.IH [OF Cons.prems] Add_Iroute
        by (simp add: mroute_helper_add_iroute46_def split: option.split_asm option.split)
    next
      case 2
      obtain mh' where "mroute_helper_add_iroute46 mh n = Some mh'" "helper_abs mh' (add_mset (nat n) M)"
        "rh_cache_generation mh' = rh_cache_generation mh + 1"
        using add_iroute_abs [OF Cons.prems, of n] 2 by (auto simp: MR_HELPER_NET_LEN_def)
      then show ?thesis using Cons.IH [of mh' "add_mset (nat n) M"] 2 Add_Iroute by (simp add: add.assoc split: option.split_asm option.split)
    next
      case 3
      then show ?thesis using Add_Iroute by (simp add: mroute_helper_add_iroute46_def MR_HELPER_NET_LEN_def)
    qed
  next
    case (Del_Iroute n)
    consider "n < 0" | "0 \<le> n" "n < 129" "nat n \<in># M" | "0 \<le> n" "n < 129" "nat n \<notin># M" | "129 \<le> n" by linarith
    then show ?thesis
    proof cases
      case 1
      then show ?thesis using Cons.IH [OF Cons.prems] Del_Iroute
        by (simp add: mroute_helper_del_iroute46_def split: option.split_asm option.split)
    next
      case 2
      obtain mh' where "mroute_helper_del_iroute46 mh n = Some mh'" "helper_abs mh' (M - {#nat n#})"
        "rh_cache_generation mh' = rh_cache_generation mh + 1"
        using del_iroute_abs [OF Cons.prems, of n] 2 by (auto simp: MR_HELPER_NET_LEN_def)
      then show ?thesis using Cons.IH [of mh' "M - {#nat n#}"] 2 Del_Iroute by (simp add: add.assoc split: option.split_asm option.split)
    next
      case 3
      then show ?thesis using del_iroute_abs [OF Cons.prems, of n] Del_Iroute by (simp add: MR_HELPER_NET_LEN_def)
    next
      case 4
      then show ?thesis using Del_Iroute by (simp add: mroute_helper_del_iroute46_def MR_HELPER_NET_LEN_def)
    qed
  qed
qed simp

lemma helper_init_abs: "helper_abs (mroute_helper_init ttl) {#}"
  by (simp add: helper_abs_def mroute_helper_init_def)

lemma helper_net_len:
  assumes "helper_abs mh M"
  shows "map unat (take (rh_n_net_len mh) (rh_net_len mh)) = filter (\<lambda>k. k \<in># M) (rev [0..<MR_HELPER_NET_LEN])"
proof -
  let ?ks = "filter (\<lambda>k. k \<in># M) (rev [0..<MR_HELPER_NET_LEN])"
  have "map unat (map of_nat ?ks :: u8 list) = ?ks"
  proof -
    have "unat (of_nat k :: u8) = k" if "k \<in> set ?ks" for k
    proof -
      have "k < 2 ^ LENGTH(8)" using that by (simp add: MR_HELPER_NET_LEN_def)
      then show ?thesis by (simp add: unat_of_nat)
    qed
    then show ?thesis by (auto intro!: map_idI)
  qed
  then show ?thesis using assms by (simp add: helper_abs_def)
qed

lemma helper_lengths:
  assumes "helper_abs mh M"
  shows "sorted_wrt (>) (map unat (take (rh_n_net_len mh) (rh_net_len mh)))"
    and "set (map unat (take (rh_n_net_len mh) (rh_net_len mh))) = set_mset M"
proof -
  note e = helper_net_len [OF assms]
  show "sorted_wrt (>) (map unat (take (rh_n_net_len mh) (rh_net_len mh)))"
    unfolding e by (intro sorted_wrt_filter) (simp add: sorted_wrt_rev)
  show "set (map unat (take (rh_n_net_len mh) (rh_net_len mh))) = set_mset M"
    unfolding e using assms by (auto simp: helper_abs_def)
qed

text \<open>
  C10: The helper of the routing table refines a multiset of prefix lengths: a run of
  \<^const>\<open>mroute_helper_add_iroute46\<close> and \<^const>\<open>mroute_helper_del_iroute46\<close> aborts exactly when a
  length is above 128 or a length not in use is deleted; otherwise the array of lengths holds
  each length in use once, longest first, and the cache generation has moved by one per call.
\<close>

theorem helper_refines_multiset:
  "case run_lengths cs {#} of
     None \<Rightarrow> run_helper cs (mroute_helper_init ttl) = None
   | Some M \<Rightarrow> \<exists>mh. run_helper cs (mroute_helper_init ttl) = Some mh
       \<and> sorted_wrt (>) (map unat (take (rh_n_net_len mh) (rh_net_len mh)))
       \<and> set (map unat (take (rh_n_net_len mh) (rh_net_len mh))) = set_mset M
       \<and> rh_cache_generation mh = of_nat (length (filter counted cs))"
  using run_helper_abs [OF helper_init_abs [of ttl], of cs] helper_lengths
  by (fastforce split: option.split simp: mroute_helper_init_def)

end
