(* ===== verification/Multi_Route.thy ===== *)
theory Multi_Route
  imports Mroute
begin

text \<open>
  The server's table of virtual addresses: \<open>multi_learn_addr\<close>,
  \<open>multi_get_instance_by_virtual_addr\<close> and what maintains their table, from multi.c and
  multi.h, on top of the hash table, the addresses and the prefix-length helper.

  \<open>struct multi_context\<close> and \<open>struct multi_instance\<close> have many members; the records hold those
  this part reads or writes.  Routes and instances are heap objects: a pointer is a number, an
  object that is freed is \<open>None\<close>, and reading it crashes (\<open>None\<close>).  The keys of the table are
  pointers to the address inside the route, here that address.  What the learn-address plugin
  and script answer is an argument (\<open>script\<close>); their other effects, the log, the management
  interface and the kernel routes of the data channel offload are outside the model.
\<close>

subsection \<open>State\<close>

record iroute =
  ir_network :: u32
  ir_netbits :: int

record iroute_ipv6 =
  ir6_network :: bytes
  ir6_netbits :: u32

record multi_instance =
  mi_halt :: bool
  mi_refcount :: int
  mi_route_count :: int
  mi_max_routes_per_client :: int
  mi_did_iroutes :: bool
  mi_tunnel_type :: dev_type
  mi_iroutes :: "iroute list"
  mi_iroutes_ipv6 :: "iroute_ipv6 list"

definition MULTI_ROUTE_CACHE :: u32 where "MULTI_ROUTE_CACHE = 1"
definition MULTI_ROUTE_AGEABLE :: u32 where "MULTI_ROUTE_AGEABLE = 2"

record multi_route =
  rt_addr :: mroute_addr
  rt_instance :: nat
  rt_flags :: u32
  rt_cache_generation :: u32
  rt_last_reference :: int

record multi_context =
  mc_vhash :: "(mroute_addr, nat) hash"
  mc_routes :: "nat \<Rightarrow> multi_route option"
  mc_next_route :: nat
  mc_instances :: "nat \<Rightarrow> multi_instance option"
  mc_route_helper :: mroute_helper
  mc_local :: mroute_addr

subsection \<open>Reference counts, quotas, routes\<close>

definition set_instance :: "nat \<Rightarrow> multi_instance option \<Rightarrow> multi_context \<Rightarrow> multi_context" where
  "set_instance i mi m = m\<lparr>mc_instances := (mc_instances m)(i := mi)\<rparr>"

definition set_route :: "nat \<Rightarrow> multi_route option \<Rightarrow> multi_context \<Rightarrow> multi_context" where
  "set_route p r m = m\<lparr>mc_routes := (mc_routes m)(p := r)\<rparr>"

definition multi_instance_inc_refcount :: "multi_context \<Rightarrow> nat \<Rightarrow> multi_context option" where
  "multi_instance_inc_refcount m i = do {
     mi \<leftarrow> mc_instances m i;
     Some (set_instance i (Some (mi\<lparr>mi_refcount := mi_refcount mi + 1\<rparr>)) m) }"

definition multi_instance_dec_refcount :: "multi_context \<Rightarrow> nat \<Rightarrow> multi_context option" where
  "multi_instance_dec_refcount m i = do {
     mi \<leftarrow> mc_instances m i;
     let mi = mi\<lparr>mi_refcount := mi_refcount mi - 1\<rparr>;
     Some (set_instance i (if mi_refcount mi \<le> 0 then None else Some mi) m) }"

definition route_quota_inc :: "multi_context \<Rightarrow> nat \<Rightarrow> multi_context option" where
  "route_quota_inc m i = do {
     mi \<leftarrow> mc_instances m i;
     Some (set_instance i (Some (mi\<lparr>mi_route_count := mi_route_count mi + 1\<rparr>)) m) }"

definition route_quota_dec :: "multi_context \<Rightarrow> nat \<Rightarrow> multi_context option" where
  "route_quota_dec m i = do {
     mi \<leftarrow> mc_instances m i;
     Some (set_instance i (Some (mi\<lparr>mi_route_count := mi_route_count mi - 1\<rparr>)) m) }"

definition route_quota_test :: "multi_instance \<Rightarrow> bool" where
  "route_quota_test mi = (if mi_route_count mi \<ge> mi_max_routes_per_client mi then False else True)"

definition multi_route_del :: "multi_context \<Rightarrow> nat \<Rightarrow> multi_context option" where
  "multi_route_del m route = do {
     r \<leftarrow> mc_routes m route;
     m \<leftarrow> route_quota_dec m (rt_instance r);
     m \<leftarrow> multi_instance_dec_refcount m (rt_instance r);
     Some (set_route route None m) }"

definition multi_route_defined :: "int \<Rightarrow> multi_context \<Rightarrow> multi_route \<Rightarrow> bool option" where
  "multi_route_defined now m r = do {
     mi \<leftarrow> mc_instances m (rt_instance r);
     Some (if mi_halt mi then False
           else if rt_flags r AND MULTI_ROUTE_CACHE \<noteq> 0 \<and> rt_cache_generation r \<noteq> rh_cache_generation (mc_route_helper m) then False
           else if rt_flags r AND MULTI_ROUTE_AGEABLE \<noteq> 0 \<and> rt_last_reference r + rh_ageable_ttl_secs (mc_route_helper m) < now then False
           else True) }"

subsection \<open>Learning\<close>

text \<open>\<open>oldroute != NULL && multi_route_defined (m, oldroute)\<close> and the owner it gives.\<close>

definition defined_owner :: "int \<Rightarrow> multi_context \<Rightarrow> nat option \<Rightarrow> nat option option" where
  "defined_owner now m route =
     (case route of
        None \<Rightarrow> Some None
      | Some p \<Rightarrow> do {
          r \<leftarrow> mc_routes m p;
          d \<leftarrow> multi_route_defined now m r;
          Some (if d then Some (rt_instance r) else None) })"

text \<open>The assignments through \<open>he\<close>, which the lookup left at the head of its bucket.\<close>

definition replace_element :: "('k, 'v) hash \<Rightarrow> nat \<Rightarrow> 'k \<Rightarrow> 'v \<Rightarrow> ('k, 'v) hash" where
  "replace_element h bucket k v =
     h\<lparr>h_buckets := (h_buckets h)[bucket := (hd (h_buckets h ! bucket))\<lparr>he_key := Some k, he_value := v\<rparr> # tl (h_buckets h ! bucket)]\<rparr>"

definition multi_learn_addr ::
    "bool \<Rightarrow> int \<Rightarrow> multi_context \<Rightarrow> nat \<Rightarrow> mroute_addr \<Rightarrow> u32 \<Rightarrow> (multi_context \<times> nat option) option" where
  "multi_learn_addr script now m mi addr flags = do {
     let hv = hash_value (mc_vhash m) addr;
     let bucket = hash_bucket (mc_vhash m) hv;
     (h, he) \<leftarrow> hash_lookup_fast (mc_vhash m) bucket addr hv;
     let m = m\<lparr>mc_vhash := h\<rparr>;
     let oldroute = map_option he_value he;
     owner \<leftarrow> defined_owner now m oldroute;
     if (owner = None \<or> owner \<noteq> Some mi) \<and> mroute_learnable_address addr \<and> \<not> mroute_addr_equal addr (mc_local m)
     then do {
       let newroute = mc_next_route m;
       let r = \<lparr>rt_addr = addr, rt_instance = mi, rt_flags = flags,
                rt_cache_generation = (if flags AND MULTI_ROUTE_CACHE \<noteq> 0 then rh_cache_generation (mc_route_helper m) else 0),
                rt_last_reference = now\<rparr>;
       mio \<leftarrow> mc_instances m mi;
       if route_quota_test mio \<and> script
       then do {
         let m = set_route newroute (Some r) m\<lparr>mc_next_route := newroute + 1\<rparr>;
         m \<leftarrow> multi_instance_inc_refcount m mi;
         m \<leftarrow> route_quota_inc m mi;
         (case oldroute of
            Some old \<Rightarrow> do {
              m \<leftarrow> multi_route_del m old;
              Some (m\<lparr>mc_vhash := replace_element (mc_vhash m) bucket addr newroute\<rparr>, Some mi) }
          | None \<Rightarrow> Some (m\<lparr>mc_vhash := hash_add_fast (mc_vhash m) bucket addr hv newroute\<rparr>, Some mi)) }
       else Some (m, owner) }
     else Some (m, owner) }"

subsection \<open>Lookup\<close>

text \<open>The loop over the prefix lengths in use.\<close>

fun cidr_loop :: "bool \<Rightarrow> int \<Rightarrow> multi_context \<Rightarrow> mroute_addr \<Rightarrow> bytes \<Rightarrow> (multi_context \<times> nat option) option" where
  "cidr_loop script now m addr [] = Some (m, None)"
| "cidr_loop script now m addr (n # ns) = do {
     tryaddr \<leftarrow> mroute_addr_mask_host_bits (addr\<lparr>mr_type := mr_type addr OR MR_WITH_NETBITS, mr_netbits := n\<rparr>);
     (h, route) \<leftarrow> hash_lookup (mc_vhash m) tryaddr;
     let m = m\<lparr>mc_vhash := h\<rparr>;
     owner \<leftarrow> defined_owner now m route;
     (case owner of
        Some mi \<Rightarrow> do {
          (m, _) \<leftarrow> multi_learn_addr script now m mi addr (MULTI_ROUTE_CACHE OR MULTI_ROUTE_AGEABLE);
          Some (m, Some mi) }
      | None \<Rightarrow> cidr_loop script now m addr ns) }"

definition multi_get_instance_by_virtual_addr ::
    "bool \<Rightarrow> int \<Rightarrow> multi_context \<Rightarrow> mroute_addr \<Rightarrow> bool \<Rightarrow> (multi_context \<times> nat option) option" where
  "multi_get_instance_by_virtual_addr script now m addr cidr_routing =
     (if mroute_addr_equal addr (mc_local m) then Some (m, None)
      else do {
        (h, route) \<leftarrow> hash_lookup (mc_vhash m) addr;
        let m = m\<lparr>mc_vhash := h\<rparr>;
        owner \<leftarrow> defined_owner now m route;
        (m, ret) \<leftarrow> (case owner of
            Some mi \<Rightarrow> do {
              p \<leftarrow> route;
              r \<leftarrow> mc_routes m p;
              Some (set_route p (Some (r\<lparr>rt_last_reference := now\<rparr>)) m, Some mi) }
          | None \<Rightarrow>
              (if cidr_routing
               then cidr_loop script now m addr (take (rh_n_net_len (mc_route_helper m)) (rh_net_len (mc_route_helper m)))
               else Some (m, None)));
        (case ret of
           None \<Rightarrow> Some (m, ret)
         | Some i \<Rightarrow> do { mi \<leftarrow> mc_instances m i; ASSERT (\<not> mi_halt mi); Some (m, ret) }) })"

subsection \<open>Addresses and networks of a client\<close>

definition multi_learn_in_addr_t ::
    "bool \<Rightarrow> int \<Rightarrow> multi_context \<Rightarrow> nat \<Rightarrow> u32 \<Rightarrow> int \<Rightarrow> bool \<Rightarrow> (multi_context \<times> nat option) option" where
  "multi_learn_in_addr_t script now m mi a netbits primary = do {
     let (addr, ok) = mroute_extract_openvpn_sockaddr mroute_addr_init (AF_INET (be32_bytes a) [0, 0]) False;
     ASSERT ok;
     let addr = (if netbits \<ge> 0
                 then addr\<lparr>mr_type := mr_type addr OR MR_WITH_NETBITS, mr_netbits := word_of_int netbits\<rparr> else addr);
     (m, owner) \<leftarrow> multi_learn_addr script now m mi addr 0;
     ASSERT (primary \<or> netbits \<ge> 0);
     Some (m, owner) }"

definition multi_learn_in6_addr ::
    "bool \<Rightarrow> int \<Rightarrow> multi_context \<Rightarrow> nat \<Rightarrow> bytes \<Rightarrow> int \<Rightarrow> bool \<Rightarrow> (multi_context \<times> nat option) option" where
  "multi_learn_in6_addr script now m mi a6 netbits primary = do {
     let addr = mroute_addr_init\<lparr>mr_len := 16, mr_type := MR_ADDR_IPV6, mr_netbits := 0, mr_raw := patch (mr_raw mroute_addr_init) 0 a6\<rparr>;
     addr \<leftarrow> (if netbits \<ge> 0
              then mroute_addr_mask_host_bits (addr\<lparr>mr_type := mr_type addr OR MR_WITH_NETBITS, mr_netbits := word_of_int netbits\<rparr>)
              else Some addr);
     (m, owner) \<leftarrow> multi_learn_addr script now m mi addr 0;
     ASSERT (primary \<or> netbits \<ge> 0);
     Some (m, owner) }"

text \<open>The loops of \<open>multi_add_iroutes\<close> and \<open>multi_del_iroutes\<close>; one answer of the script per route.\<close>

fun add_iroutes_loop :: "(nat \<Rightarrow> bool) \<Rightarrow> int \<Rightarrow> multi_context \<Rightarrow> nat \<Rightarrow> iroute list \<Rightarrow> multi_context option" where
  "add_iroutes_loop script now m mi [] = Some m"
| "add_iroutes_loop script now m mi (ir # irs) = do {
     rh \<leftarrow> mroute_helper_add_iroute46 (mc_route_helper m) (ir_netbits ir);
     (m, _) \<leftarrow> multi_learn_in_addr_t (script (length irs)) now (m\<lparr>mc_route_helper := rh\<rparr>) mi (ir_network ir) (ir_netbits ir) False;
     add_iroutes_loop script now m mi irs }"

fun add_iroutes6_loop :: "(nat \<Rightarrow> bool) \<Rightarrow> int \<Rightarrow> multi_context \<Rightarrow> nat \<Rightarrow> iroute_ipv6 list \<Rightarrow> multi_context option" where
  "add_iroutes6_loop script now m mi [] = Some m"
| "add_iroutes6_loop script now m mi (ir # irs) = do {
     rh \<leftarrow> mroute_helper_add_iroute46 (mc_route_helper m) (sint (ir6_netbits ir));
     (m, _) \<leftarrow> multi_learn_in6_addr (script (length irs)) now (m\<lparr>mc_route_helper := rh\<rparr>) mi (ir6_network ir) (sint (ir6_netbits ir)) False;
     add_iroutes6_loop script now m mi irs }"

definition multi_add_iroutes ::
    "(nat \<Rightarrow> bool) \<Rightarrow> (nat \<Rightarrow> bool) \<Rightarrow> int \<Rightarrow> multi_context \<Rightarrow> nat \<Rightarrow> multi_context option" where
  "multi_add_iroutes script script6 now m mi = do {
     mio \<leftarrow> mc_instances m mi;
     (if mi_tunnel_type mio = DEV_TYPE_TUN
      then do {
        let m = set_instance mi (Some (mio\<lparr>mi_did_iroutes := True\<rparr>)) m;
        m \<leftarrow> add_iroutes_loop script now m mi (mi_iroutes mio);
        add_iroutes6_loop script6 now m mi (mi_iroutes_ipv6 mio) }
      else Some m) }"

fun del_iroutes_loop :: "mroute_helper \<Rightarrow> int list \<Rightarrow> mroute_helper option" where
  "del_iroutes_loop rh [] = Some rh"
| "del_iroutes_loop rh (n # ns) = do { rh \<leftarrow> mroute_helper_del_iroute46 rh n; del_iroutes_loop rh ns }"

definition multi_del_iroutes :: "multi_context \<Rightarrow> nat \<Rightarrow> multi_context option" where
  "multi_del_iroutes m mi = do {
     mio \<leftarrow> mc_instances m mi;
     (if mi_tunnel_type mio = DEV_TYPE_TUN
      then do {
        rh \<leftarrow> del_iroutes_loop (mc_route_helper m) (map ir_netbits (mi_iroutes mio));
        rh \<leftarrow> del_iroutes_loop rh (map (\<lambda>ir. sint (ir6_netbits ir)) (mi_iroutes_ipv6 mio));
        Some (m\<lparr>mc_route_helper := rh\<rparr>) }
      else Some m) }"

subsection \<open>The table and the heap\<close>

lemma hash_entry_cong: "hash_wf h \<Longrightarrow> h_compare_function h k k' \<Longrightarrow> hash_entry h k' = hash_entry h k"
  by (simp add: hash_entry_def hits_def matches_cong same_key_bucket)

lemma replace_element_law:
  assumes "hash_wf h" "hash_lookup_fast h (key_bucket h k) k (hash_value h k) = Some (h', Some x)"
  shows "hash_wf (replace_element h' (key_bucket h k) k v)"
    "h_compare_function (replace_element h' (key_bucket h k) k v) = h_compare_function h"
    "hash_entry (replace_element h' (key_bucket h k) k v) = map_set (h_compare_function h) k (Some v) (hash_entry h)"
proof -
  let ?b = "key_bucket h k"
  obtain h1 he where l: "hash_lookup_fast h ?b k (hash_value h k) = Some (h1, he)"
    "hash_wf h1" "hits h1 = hits h" "h_compare_function h1 = h_compare_function h" "key_bucket h1 = key_bucket h"
    "hash_value h1 = hash_value h" "hits h k = (case he of None \<Rightarrow> [] | Some x \<Rightarrow> [x])"
    "\<And>x. he = Some x \<Longrightarrow> matches h k x \<and> (\<exists>r. h_buckets h1 ! ?b = x # r)"
    by (rule lookup_fast_law [OF assms(1)]) blast
  have h1: "h1 = h'" "he = Some x" using l(1) assms(2) by simp_all
  obtain rest where x: "matches h k x" "h_buckets h1 ! ?b = x # rest" using l(8) h1 by blast
  note b1 = key_bucket_bound [OF l(2), of k]
  have "fits_bucket h1 ?b x" using bucket_fits [OF l(2) b1, of x] l(5) x(2) by simp
  then obtain k0 where k0: "he_key x = Some k0" "he_hash_value x = hash_value h1 k0" by (auto simp: fits_bucket_def)
  have m1: "matches h1 = matches h" using l(4) by (simp add: matches_def fun_eq_iff)
  have kk: "h_compare_function h1 k k0" using x(1) k0 l(4) by (simp add: matches_def)
  have none: "filter (matches h1 k) rest = []"
  proof -
    have "filter (matches h1 k) (h_buckets h1 ! key_bucket h1 k) = [x]"
      using fun_cong [OF l(3), of k] l(7) h1(2) unfolding hits_def [of h1, symmetric] by simp
    then show ?thesis using l(5) x m1 by simp
  qed
  have other: "filter (matches h1 k') rest = hits h1 k'" if "\<not> h_compare_function h1 k k'" "key_bucket h1 k' = key_bucket h1 k" for k'
  proof -
    have "\<not> matches h1 k' x" using matches_same [OF l(2) k0(1)] compare_trans_iff [OF l(2) kk] that by blast
    then show ?thesis using that l(5) x(2) by (simp add: hits_def)
  qed
  let ?e = "x\<lparr>he_key := Some k, he_value := v\<rparr>"
  have hv: "he_hash_value ?e = hash_value h1 k" using cmp_hash [OF l(2) kk] k0 by simp
  have eq: "replace_element h1 ?b k v = set_bucket h1 ?b (?e # rest)"
    using x(2) by (simp add: replace_element_def set_bucket_def)
  have "hash_wf (set_bucket h1 ?b (?e # rest))
      \<and> hash_entry (set_bucket h1 ?b (?e # rest)) = map_set (h_compare_function h1) k (Some v) (hash_entry h1)"
    using put_front_law [OF l(2), of ?e k k rest] hv none other l(5) x(2) cmp_refl [OF l(2)] by auto
  moreover have "hash_entry h1 = hash_entry h" using l(3) by (simp add: hash_entry_def fun_eq_iff)
  ultimately show "hash_wf (replace_element h' ?b k v)"
    "hash_entry (replace_element h' ?b k v) = map_set (h_compare_function h) k (Some v) (hash_entry h)"
    "h_compare_function (replace_element h' ?b k v) = h_compare_function h"
    using eq h1 l(4) by simp_all
qed

lemma hash_add_fast_law:
  assumes "hash_wf h" "hash_lookup_fast h (key_bucket h k) k (hash_value h k) = Some (h', None)"
  shows "hash_wf (hash_add_fast h' (key_bucket h k) k (hash_value h k) v)"
    "h_compare_function (hash_add_fast h' (key_bucket h k) k (hash_value h k) v) = h_compare_function h"
    "hash_entry (hash_add_fast h' (key_bucket h k) k (hash_value h k) v) = map_set (h_compare_function h) k (Some v) (hash_entry h)"
proof -
  have e: "hash_entry h k = None" by (rule lookup_fast_law [OF assms(1), of k]) (use assms(2) in auto)
  have "hash_add h k v False = Some (hash_add_fast h' (key_bucket h k) k (hash_value h k) v, True)"
    using assms(2) by (simp add: hash_add_def key_bucket_def Let_def)
  then show "hash_wf (hash_add_fast h' (key_bucket h k) k (hash_value h k) v)"
    "h_compare_function (hash_add_fast h' (key_bucket h k) k (hash_value h k) v) = h_compare_function h"
    "hash_entry (hash_add_fast h' (key_bucket h k) k (hash_value h k) v) = map_set (h_compare_function h) k (Some v) (hash_entry h)"
    using hash_add_law [OF assms(1), of k v False] e by auto
qed

subsection \<open>The heap of routes and instances\<close>

abbreviation same_addr :: "mroute_addr \<Rightarrow> mroute_addr \<Rightarrow> bool" where
  "same_addr \<equiv> mroute_addr_compare_function"

lemma same_addr_laws:
  "same_addr a a" "same_addr a b \<longleftrightarrow> same_addr b a" "same_addr a b \<Longrightarrow> same_addr a c \<longleftrightarrow> same_addr b c"
  by (auto simp: mroute_addr_compare_function_def mroute_addr_equal_iff)

text \<open>The routes of an instance.\<close>

definition routes_of :: "multi_context \<Rightarrow> nat \<Rightarrow> nat set" where
  "routes_of m i = {p. \<exists>r. mc_routes m p = Some r \<and> rt_instance r = i}"

text \<open>
  Every route points to an instance that is allocated; the counters of an instance are the
  numbers of its references; the instance itself is one reference until it halts.
\<close>

definition heap_ok :: "multi_context \<Rightarrow> bool" where
  "heap_ok m \<longleftrightarrow> finite (dom (mc_routes m)) \<and> finite (dom (mc_instances m))
     \<and> (\<forall>p r. mc_routes m p = Some r \<longrightarrow> mc_instances m (rt_instance r) \<noteq> None)
     \<and> (\<forall>i mi. mc_instances m i = Some mi \<longrightarrow> mi_route_count mi = int (card (routes_of m i))
          \<and> mi_refcount mi = int (card (routes_of m i)) + (if mi_halt mi then 0 else 1) \<and> 0 < mi_refcount mi)"

text \<open>Table and heap hold the same routes.\<close>

definition table_ok :: "multi_context \<Rightarrow> bool" where
  "table_ok m \<longleftrightarrow> hash_wf (mc_vhash m) \<and> h_compare_function (mc_vhash m) = same_addr
     \<and> (\<forall>k p. hash_entry (mc_vhash m) k = Some p \<longrightarrow> (\<exists>r. mc_routes m p = Some r \<and> same_addr (rt_addr r) k))
     \<and> (\<forall>p r. mc_routes m p = Some r \<longrightarrow> hash_entry (mc_vhash m) (rt_addr r) = Some p \<and> p < mc_next_route m)"

text \<open>What a client is, as long as it lives: its counters aside.\<close>

definition profile :: "multi_context \<Rightarrow> nat \<Rightarrow> multi_instance option" where
  "profile m i = (case mc_instances m i of
     None \<Rightarrow> None
   | Some mi \<Rightarrow> if mi_halt mi then None else Some (mi\<lparr>mi_refcount := 0, mi_route_count := 0\<rparr>))"

definition live :: "multi_context \<Rightarrow> nat \<Rightarrow> bool" where
  "live m i \<longleftrightarrow> profile m i \<noteq> None"

definition route_at :: "multi_context \<Rightarrow> mroute_addr \<Rightarrow> multi_route option" where
  "route_at m k = (case hash_entry (mc_vhash m) k of None \<Rightarrow> None | Some p \<Rightarrow> mc_routes m p)"

lemma heap_ok_cong: "mc_routes m' = mc_routes m \<Longrightarrow> mc_instances m' = mc_instances m \<Longrightarrow> heap_ok m' = heap_ok m"
  by (simp only: heap_ok_def routes_of_def)

lemma heap_ok_instance: "heap_ok m \<Longrightarrow> mc_routes m p = Some r \<Longrightarrow> \<exists>mi. mc_instances m (rt_instance r) = Some mi"
  unfolding heap_ok_def by blast

lemma heap_ok_counts:
  assumes "heap_ok m" "mc_instances m i = Some mi"
  shows "mi_route_count mi = int (card (routes_of m i))"
    "mi_refcount mi = int (card (routes_of m i)) + (if mi_halt mi then 0 else 1)" "0 < mi_refcount mi"
  using assms unfolding heap_ok_def by blast+

lemma finite_routes_of: "heap_ok m \<Longrightarrow> finite (routes_of m i)"
  by (rule finite_subset [of _ "dom (mc_routes m)"]) (auto simp: routes_of_def heap_ok_def)

lemma liveE:
  assumes "live m i"
  obtains mi where "mc_instances m i = Some mi" "\<not> mi_halt mi"
  using assms by (auto simp: live_def profile_def split: option.splits if_splits)

text \<open>Allocating a route for an instance.\<close>

lemma add_route_law:
  assumes ok: "heap_ok m" and fresh: "mc_routes m p = None" and i: "mc_instances m (rt_instance r) = Some mi"
  shows "\<exists>m'. do { m \<leftarrow> multi_instance_inc_refcount (set_route p (Some r) m) (rt_instance r); route_quota_inc m (rt_instance r) } = Some m'
    \<and> heap_ok m' \<and> mc_routes m' = (mc_routes m)(p := Some r) \<and> profile m' = profile m
    \<and> mc_vhash m' = mc_vhash m \<and> mc_next_route m' = mc_next_route m \<and> mc_route_helper m' = mc_route_helper m \<and> mc_local m' = mc_local m"
proof -
  let ?i = "rt_instance r"
  let ?mi = "mi\<lparr>mi_refcount := mi_refcount mi + 1, mi_route_count := mi_route_count mi + 1\<rparr>"
  let ?m = "set_instance ?i (Some ?mi) (set_route p (Some r) m)"
  have run: "do { m \<leftarrow> multi_instance_inc_refcount (set_route p (Some r) m) ?i; route_quota_inc m ?i } = Some ?m"
    using i by (simp add: multi_instance_inc_refcount_def route_quota_inc_def set_instance_def set_route_def Let_def)
  have own: "routes_of ?m ?i = insert p (routes_of m ?i)" and other: "\<And>j. j \<noteq> ?i \<Longrightarrow> routes_of ?m j = routes_of m j"
    using fresh by (auto simp: routes_of_def set_instance_def set_route_def)
  have "p \<notin> routes_of m ?i" using fresh by (simp add: routes_of_def)
  then have c: "card (routes_of ?m ?i) = card (routes_of m ?i) + 1" using own finite_routes_of [OF ok] by simp
  have "heap_ok ?m"
    unfolding heap_ok_def
  proof (intro conjI allI impI)
    show "finite (dom (mc_routes ?m))" "finite (dom (mc_instances ?m))"
      using ok by (simp_all add: heap_ok_def set_instance_def set_route_def)
    fix q s assume "mc_routes ?m q = Some s"
    then show "mc_instances ?m (rt_instance s) \<noteq> None"
      using ok i by (auto simp: heap_ok_def set_instance_def set_route_def split: if_splits)
  next
    fix j mj assume j: "mc_instances ?m j = Some mj"
    have "mi_route_count mj = int (card (routes_of ?m j))
      \<and> mi_refcount mj = int (card (routes_of ?m j)) + (if mi_halt mj then 0 else 1) \<and> 0 < mi_refcount mj"
    proof (cases "j = ?i")
      case True
      then have "mj = ?mi" using j by (simp add: set_instance_def)
      then show ?thesis using True c heap_ok_counts [OF ok i] by simp
    next
      case False
      then have "mc_instances m j = Some mj" using j by (simp add: set_instance_def set_route_def)
      then show ?thesis using heap_ok_counts [OF ok] other [OF False] by simp
    qed
    then show "mi_route_count mj = int (card (routes_of ?m j))"
      "mi_refcount mj = int (card (routes_of ?m j)) + (if mi_halt mj then 0 else 1)" "0 < mi_refcount mj" by blast+
  qed
  then show ?thesis using run i
    by (intro exI [of _ ?m]) (simp add: set_instance_def set_route_def profile_def fun_eq_iff)
qed

text \<open>Deleting a route; an instance that lives is never freed by it.\<close>

lemma route_del_law:
  assumes ok: "heap_ok m" and p: "mc_routes m p = Some r"
  shows "\<exists>m'. multi_route_del m p = Some m' \<and> heap_ok m' \<and> mc_routes m' = (mc_routes m)(p := None) \<and> profile m' = profile m
    \<and> mc_vhash m' = mc_vhash m \<and> mc_next_route m' = mc_next_route m \<and> mc_route_helper m' = mc_route_helper m \<and> mc_local m' = mc_local m"
proof -
  let ?i = "rt_instance r"
  obtain mi where i: "mc_instances m ?i = Some mi" using heap_ok_instance [OF ok p] by blast
  let ?mi = "mi\<lparr>mi_route_count := mi_route_count mi - 1, mi_refcount := mi_refcount mi - 1\<rparr>"
  let ?m = "set_route p None (set_instance ?i (if mi_refcount ?mi \<le> 0 then None else Some ?mi) m)"
  have run: "multi_route_del m p = Some ?m"
    using i p by (simp add: multi_route_del_def multi_instance_dec_refcount_def route_quota_dec_def set_instance_def set_route_def Let_def)
  have own: "routes_of ?m ?i = routes_of m ?i - {p}" and other: "\<And>j. j \<noteq> ?i \<Longrightarrow> routes_of ?m j = routes_of m j"
    using p by (auto simp: routes_of_def set_instance_def set_route_def)
  have pin: "p \<in> routes_of m ?i" using p by (simp add: routes_of_def)
  then have pos: "0 < card (routes_of m ?i)" using finite_routes_of [OF ok, of ?i] card_gt_0_iff by blast
  have "card (routes_of ?m ?i) = card (routes_of m ?i) - 1" unfolding own by (rule card_Diff_singleton [OF pin])
  then have c: "int (card (routes_of ?m ?i)) = int (card (routes_of m ?i)) - 1" "0 < card (routes_of m ?i)"
    using pos by linarith+
  have counts: "mi_route_count mi = int (card (routes_of m ?i))"
    "mi_refcount mi = int (card (routes_of m ?i)) + (if mi_halt mi then 0 else 1)"
    using heap_ok_counts [OF ok i] by simp_all
  have "heap_ok ?m"
    unfolding heap_ok_def
  proof (intro conjI allI impI)
    show "finite (dom (mc_routes ?m))" "finite (dom (mc_instances ?m))"
      using ok by (simp_all add: heap_ok_def set_instance_def set_route_def)
    fix q s assume q: "mc_routes ?m q = Some s"
    then have old: "mc_routes m q = Some s" "q \<noteq> p" by (simp_all add: set_instance_def set_route_def split: if_splits)
    show "mc_instances ?m (rt_instance s) \<noteq> None"
    proof (cases "rt_instance s = ?i")
      case True
      then have "q \<in> routes_of ?m ?i" using q by (auto simp: routes_of_def)
      then have "0 < card (routes_of ?m ?i)" using own finite_routes_of [OF ok, of ?i] by (auto simp: card_gt_0_iff)
      then show ?thesis using True counts c by (simp add: set_instance_def set_route_def split: if_splits)
    next
      case False
      then show ?thesis using ok old by (auto simp: heap_ok_def set_instance_def set_route_def)
    qed
  next
    fix j mj assume j: "mc_instances ?m j = Some mj"
    have "mi_route_count mj = int (card (routes_of ?m j))
      \<and> mi_refcount mj = int (card (routes_of ?m j)) + (if mi_halt mj then 0 else 1) \<and> 0 < mi_refcount mj"
    proof (cases "j = ?i")
      case True
      then have "mj = ?mi" "0 < mi_refcount ?mi" using j by (simp_all add: set_instance_def set_route_def split: if_splits)
      then show ?thesis using True c counts by simp
    next
      case False
      then have "mc_instances m j = Some mj" using j by (simp add: set_instance_def set_route_def)
      then show ?thesis using heap_ok_counts [OF ok] other [OF False] by simp
    qed
    then show "mi_route_count mj = int (card (routes_of ?m j))"
      "mi_refcount mj = int (card (routes_of ?m j)) + (if mi_halt mj then 0 else 1)" "0 < mi_refcount mj" by blast+
  qed
  moreover have "profile ?m = profile m"
    using i counts c(2) by (auto simp: profile_def set_instance_def set_route_def fun_eq_iff)
  ultimately show ?thesis using run by (intro exI [of _ ?m]) (simp add: set_instance_def set_route_def)
qed

subsection \<open>Routes that count\<close>

definition route_live :: "int \<Rightarrow> multi_context \<Rightarrow> multi_route \<Rightarrow> bool" where
  "route_live now m r \<longleftrightarrow> live m (rt_instance r)
     \<and> \<not> (rt_flags r AND MULTI_ROUTE_CACHE \<noteq> 0 \<and> rt_cache_generation r \<noteq> rh_cache_generation (mc_route_helper m))
     \<and> \<not> (rt_flags r AND MULTI_ROUTE_AGEABLE \<noteq> 0 \<and> rt_last_reference r + rh_ageable_ttl_secs (mc_route_helper m) < now)"

definition owner_at :: "int \<Rightarrow> multi_context \<Rightarrow> mroute_addr \<Rightarrow> nat option" where
  "owner_at now m k = (case route_at m k of
     None \<Rightarrow> None | Some r \<Rightarrow> if route_live now m r then Some (rt_instance r) else None)"

lemma route_defined_law:
  assumes "heap_ok m" "mc_routes m p = Some r"
  shows "multi_route_defined now m r = Some (route_live now m r)"
proof -
  obtain mi where "mc_instances m (rt_instance r) = Some mi" using heap_ok_instance [OF assms] by blast
  then show ?thesis by (auto simp: multi_route_defined_def route_live_def live_def profile_def)
qed

lemma table_ok_entry:
  assumes "table_ok m" "hash_entry (mc_vhash m) k = Some p"
  obtains r where "mc_routes m p = Some r" "same_addr (rt_addr r) k" "route_at m k = Some r"
proof -
  obtain r where r: "mc_routes m p = Some r" "same_addr (rt_addr r) k" using assms unfolding table_ok_def by blast
  then show thesis using that [OF r] assms(2) by (simp add: route_at_def)
qed

lemma table_ok_route:
  assumes "table_ok m" "mc_routes m p = Some r"
  shows "hash_entry (mc_vhash m) (rt_addr r) = Some p" "p < mc_next_route m" "route_at m (rt_addr r) = Some r"
  using assms by (auto simp: table_ok_def route_at_def)

lemma defined_owner_law:
  assumes "heap_ok m" "table_ok m"
  shows "defined_owner now m (hash_entry (mc_vhash m) k) = Some (owner_at now m k)"
proof (cases "hash_entry (mc_vhash m) k")
  case None
  then show ?thesis by (simp add: defined_owner_def owner_at_def route_at_def)
next
  case (Some p)
  obtain r where "mc_routes m p = Some r" "route_at m k = Some r" by (rule table_ok_entry [OF assms(2) Some])
  then show ?thesis using route_defined_law [OF assms(1)] Some by (simp add: defined_owner_def owner_at_def)
qed

text \<open>A lookup reorders the table and nothing else.\<close>

lemma vhash_frame:
  assumes "heap_ok m" "table_ok m" "hash_wf h" "h_compare_function h = h_compare_function (mc_vhash m)" "hash_entry h = hash_entry (mc_vhash m)"
  shows "heap_ok (m\<lparr>mc_vhash := h\<rparr>)" "table_ok (m\<lparr>mc_vhash := h\<rparr>)" "profile (m\<lparr>mc_vhash := h\<rparr>) = profile m"
    "route_at (m\<lparr>mc_vhash := h\<rparr>) = route_at m" "owner_at now (m\<lparr>mc_vhash := h\<rparr>) = owner_at now m"
proof -
  show p: "profile (m\<lparr>mc_vhash := h\<rparr>) = profile m" by (simp add: profile_def fun_eq_iff)
  show r: "route_at (m\<lparr>mc_vhash := h\<rparr>) = route_at m" using assms(5) by (simp add: route_at_def fun_eq_iff split: option.split)
  show "heap_ok (m\<lparr>mc_vhash := h\<rparr>)" using assms(1) heap_ok_cong [of "m\<lparr>mc_vhash := h\<rparr>" m] by simp
  show "table_ok (m\<lparr>mc_vhash := h\<rparr>)" using assms by (simp add: table_ok_def)
  show "owner_at now (m\<lparr>mc_vhash := h\<rparr>) = owner_at now m"
    using p r by (simp add: owner_at_def route_live_def live_def fun_eq_iff split: option.split)
qed

text \<open>Entering a new route for an address, in place of the route there, if any.\<close>

lemma put_route_law:
  assumes t: "table_ok m" and h: "hash_wf h" "h_compare_function h = same_addr"
      "hash_entry h = map_set same_addr (rt_addr r) (Some (mc_next_route m)) (hash_entry (mc_vhash m))"
    and m': "mc_vhash m' = h" "mc_next_route m' = Suc (mc_next_route m)"
      "mc_routes m' = (case hash_entry (mc_vhash m) (rt_addr r) of
         None \<Rightarrow> (mc_routes m)(mc_next_route m := Some r)
       | Some old \<Rightarrow> ((mc_routes m)(mc_next_route m := Some r))(old := None))"
  shows "table_ok m'" "route_at m' = map_set same_addr (rt_addr r) (Some r) (route_at m)"
proof -
  let ?a = "rt_addr r" let ?new = "mc_next_route m"
  have cong: "hash_entry (mc_vhash m) k' = hash_entry (mc_vhash m) k" if "same_addr k k'" for k k'
    using t hash_entry_cong [of "mc_vhash m" k k'] that by (simp add: table_ok_def)
  have new: "mc_routes m' ?new = Some r"
    using m'(3) t by (auto simp: table_ok_def split: option.splits)
  have keep: "mc_routes m' p = mc_routes m p" if e: "hash_entry (mc_vhash m) k = Some p" and ne: "\<not> same_addr ?a k" for k p
  proof -
    obtain s where s: "mc_routes m p = Some s" "same_addr (rt_addr s) k" by (rule table_ok_entry [OF t e])
    have "p \<noteq> ?new" using table_ok_route(2) [OF t s(1)] by simp
    moreover have "hash_entry (mc_vhash m) ?a \<noteq> Some p"
    proof
      assume "hash_entry (mc_vhash m) ?a = Some p"
      then have "same_addr (rt_addr s) ?a" using table_ok_entry [OF t] s(1) by (metis option.inject)
      then show False using s(2) ne same_addr_laws by blast
    qed
    ultimately show ?thesis using m'(3) by (auto split: option.splits)
  qed
  show "table_ok m'"
    unfolding table_ok_def m'(1)
  proof (intro conjI allI impI)
    show "hash_wf h" "h_compare_function h = same_addr" by fact+
    fix k p assume k: "hash_entry h k = Some p"
    show "\<exists>s. mc_routes m' p = Some s \<and> same_addr (rt_addr s) k"
    proof (cases "same_addr ?a k")
      case True
      then show ?thesis using k new h(3) by (auto simp: map_set_def)
    next
      case False
      then have e: "hash_entry (mc_vhash m) k = Some p" using k h(3) by (simp add: map_set_def)
      then show ?thesis using keep [OF e False] table_ok_entry [OF t e] by metis
    qed
  next
    fix p s assume s: "mc_routes m' p = Some s"
    have "hash_entry h (rt_addr s) = Some p \<and> p < mc_next_route m'"
    proof (cases "p = ?new")
      case True
      then show ?thesis using s new h(3) m'(2) same_addr_laws(1) by (auto simp: map_set_def)
    next
      case False
      then have old: "mc_routes m p = Some s" "hash_entry (mc_vhash m) ?a \<noteq> Some p"
        using s m'(3) by (auto split: option.splits if_splits)
      have "\<not> same_addr ?a (rt_addr s)" using cong table_ok_route(1) [OF t old(1)] old(2) by metis
      then show ?thesis using table_ok_route [OF t old(1)] h(3) m'(2) by (simp add: map_set_def)
    qed
    then show "hash_entry h (rt_addr s) = Some p" "p < mc_next_route m'" by blast+
  qed
  show "route_at m' = map_set same_addr ?a (Some r) (route_at m)"
  proof
    fix k
    show "route_at m' k = map_set same_addr ?a (Some r) (route_at m) k"
    proof (cases "same_addr ?a k")
      case True
      then show ?thesis using new h(3) m'(1) by (simp add: route_at_def map_set_def)
    next
      case False
      then show ?thesis using keep [of k] h(3) m'(1) by (auto simp: route_at_def map_set_def split: option.split)
    qed
  qed
qed

text \<open>
  When \<^const>\<open>multi_learn_addr\<close> enters a route: the address is not owned already, it may be learned,
  the quota of the client is not used up and the script accepts.
\<close>

definition learns :: "bool \<Rightarrow> int \<Rightarrow> multi_context \<Rightarrow> nat \<Rightarrow> mroute_addr \<Rightarrow> bool" where
  "learns script now m mi addr \<longleftrightarrow> owner_at now m addr \<noteq> Some mi \<and> mroute_learnable_address addr
     \<and> \<not> mroute_addr_equal addr (mc_local m) \<and> (\<exists>mio. mc_instances m mi = Some mio \<and> route_quota_test mio) \<and> script"

definition new_route :: "int \<Rightarrow> multi_context \<Rightarrow> nat \<Rightarrow> mroute_addr \<Rightarrow> u32 \<Rightarrow> multi_route" where
  "new_route now m mi addr flags =
     \<lparr>rt_addr = addr, rt_instance = mi, rt_flags = flags,
      rt_cache_generation = (if flags AND MULTI_ROUTE_CACHE \<noteq> 0 then rh_cache_generation (mc_route_helper m) else 0),
      rt_last_reference = now\<rparr>"

text \<open>What the handlers leave alone.\<close>

definition same_frame :: "multi_context \<Rightarrow> multi_context \<Rightarrow> bool" where
  "same_frame m m' \<longleftrightarrow> profile m' = profile m \<and> mc_route_helper m' = mc_route_helper m \<and> mc_local m' = mc_local m"

lemma learn_addr_law:
  assumes ok: "heap_ok m" "table_ok m" "live m mi"
  shows "\<exists>m'. multi_learn_addr script now m mi addr flags
      = Some (m', if learns script now m mi addr then Some mi else owner_at now m addr)
    \<and> heap_ok m' \<and> table_ok m' \<and> same_frame m m'
    \<and> route_at m' = (if learns script now m mi addr
        then map_set same_addr addr (Some (new_route now m mi addr flags)) (route_at m) else route_at m)"
proof -
  let ?h = "mc_vhash m"
  have wf: "hash_wf ?h" and cmp: "h_compare_function ?h = same_addr" using ok(2) by (simp_all add: table_ok_def)
  obtain h' he where l: "hash_lookup_fast ?h (key_bucket ?h addr) addr (hash_value ?h addr) = Some (h', he)"
    "hash_wf h'" "hits h' = hits ?h" "h_compare_function h' = h_compare_function ?h" "hash_entry ?h addr = map_option he_value he"
    by (rule lookup_fast_law [OF wf, of addr]) blast
  have e': "hash_entry h' = hash_entry ?h" using l(3) by (simp add: hash_entry_def fun_eq_iff)
  let ?m1 = "m\<lparr>mc_vhash := h'\<rparr>"
  note f1 = vhash_frame [OF ok(1,2) l(2,4) e']
  have owner: "defined_owner now ?m1 (map_option he_value he) = Some (owner_at now m addr)"
    using defined_owner_law [OF f1(1,2), of now addr] l(5) e' f1(5) by simp
  obtain mio where mio: "mc_instances m mi = Some mio" using liveE [OF ok(3)] by blast
  let ?r = "new_route now m mi addr flags" and ?new = "mc_next_route m"
  note start = multi_learn_addr_def l(1) [unfolded key_bucket_def] key_bucket_def owner mio Let_def
  show ?thesis
  proof (cases "learns script now m mi addr")
    case False
    have "multi_learn_addr script now m mi addr flags = Some (?m1, owner_at now m addr)"
      using False mio by (auto simp: start learns_def)
    then show ?thesis using False f1 by (intro exI [of _ ?m1]) (simp add: same_frame_def)
  next
    case True
    then have c: "owner_at now m addr \<noteq> Some mi" "mroute_learnable_address addr" "\<not> mroute_addr_equal addr (mc_local m)"
      "route_quota_test mio" "script" using mio by (auto simp: learns_def)
    let ?m2 = "?m1\<lparr>mc_next_route := ?new + 1\<rparr>"
    have fresh: "mc_routes m ?new = None" using table_ok_route(2) [OF ok(2), of ?new] by (cases "mc_routes m ?new") auto
    have "heap_ok ?m2" using ok(1) heap_ok_cong [of ?m2 m] by simp
    moreover have "profile ?m2 = profile m" "rt_instance ?r = mi" by (simp_all add: profile_def fun_eq_iff new_route_def)
    ultimately obtain m3 where m3: "do { m \<leftarrow> multi_instance_inc_refcount (set_route ?new (Some ?r) ?m2) mi; route_quota_inc m mi } = Some m3"
      "heap_ok m3" "mc_routes m3 = (mc_routes m)(?new := Some ?r)" "profile m3 = profile m"
      "mc_vhash m3 = h'" "mc_next_route m3 = ?new + 1" "mc_route_helper m3 = mc_route_helper m" "mc_local m3 = mc_local m"
      using add_route_law [of ?m2 ?new ?r mio] fresh mio by auto
    have run: "multi_learn_addr script now m mi addr flags = (case map_option he_value he of
        Some old \<Rightarrow> do { m \<leftarrow> multi_route_del m3 old;
          Some (m\<lparr>mc_vhash := replace_element (mc_vhash m) (key_bucket ?h addr) addr ?new\<rparr>, Some mi) }
      | None \<Rightarrow> Some (m3\<lparr>mc_vhash := hash_add_fast (mc_vhash m3) (key_bucket ?h addr) addr (hash_value ?h addr) ?new\<rparr>, Some mi))"
    proof -
      obtain a where a: "multi_instance_inc_refcount (set_route ?new (Some ?r) ?m2) mi = Some a" "route_quota_inc a mi = Some m3"
        using m3(1) by (auto simp: option_bind_Some_iff)
      have e: "(set_route ?new (Some s) ?m1)\<lparr>mc_next_route := Suc ?new\<rparr> = set_route ?new (Some s) ?m2" for s
        by (simp add: set_route_def)
      show ?thesis using c a unfolding new_route_def
        by (cases "flags AND MULTI_ROUTE_CACHE = 0") (simp_all add: start e cong: option.case_cong)
    qed
    show ?thesis
    proof (cases he)
      case None
      let ?m' = "m3\<lparr>mc_vhash := hash_add_fast h' (key_bucket ?h addr) addr (hash_value ?h addr) ?new\<rparr>"
      have e0: "hash_entry ?h addr = None" using l(5) None by simp
      note a = hash_add_fast_law [OF wf l(1) [unfolded None], of ?new]
      have "table_ok ?m'" "route_at ?m' = map_set same_addr addr (Some ?r) (route_at m)"
        using put_route_law [OF ok(2) a(1), of ?r ?m'] a(2,3) cmp m3 e0 by (simp_all add: new_route_def)
      moreover have "heap_ok ?m'" using m3(2) heap_ok_cong [of ?m' m3] by simp
      moreover have "profile ?m' = profile m" using m3(4) by (simp add: profile_def fun_eq_iff)
      ultimately show ?thesis using run None True m3 by (intro exI [of _ ?m']) (simp add: same_frame_def)
    next
      case (Some x)
      let ?old = "he_value x"
      have e0: "hash_entry ?h addr = Some ?old" using l(5) Some by simp
      obtain s where s: "mc_routes m ?old = Some s" by (rule table_ok_entry [OF ok(2) e0])
      moreover have "?old \<noteq> ?new" using s fresh by auto
      ultimately have "mc_routes m3 ?old = Some s" using m3(3) by simp
      then obtain m4 where m4: "multi_route_del m3 ?old = Some m4" "heap_ok m4" "mc_routes m4 = (mc_routes m3)(?old := None)"
        "profile m4 = profile m3" "mc_vhash m4 = mc_vhash m3" "mc_next_route m4 = mc_next_route m3"
        "mc_route_helper m4 = mc_route_helper m3" "mc_local m4 = mc_local m3"
        using route_del_law [OF m3(2)] by blast
      let ?m' = "m4\<lparr>mc_vhash := replace_element h' (key_bucket ?h addr) addr ?new\<rparr>"
      note a = replace_element_law [OF wf l(1) [unfolded Some], of ?new]
      have "table_ok ?m'" "route_at ?m' = map_set same_addr addr (Some ?r) (route_at m)"
        using put_route_law [OF ok(2) a(1), of ?r ?m'] a(2,3) cmp m3 m4 e0 by (simp_all add: new_route_def)
      moreover have "heap_ok ?m'" using m4(2) heap_ok_cong [of ?m' m4] by simp
      moreover have "profile ?m' = profile m" using m3(4) m4(4) by (simp add: profile_def fun_eq_iff)
      ultimately show ?thesis using run Some True m3 m4 by (intro exI [of _ ?m']) (simp add: same_frame_def)
    qed
  qed
qed

subsection \<open>Prefixes of an address\<close>

definition ip_host :: "mroute_addr \<Rightarrow> bool" where
  "ip_host a \<longleftrightarrow> length (mr_raw a) = MR_MAX_ADDR_LEN \<and> mr_netbits a = 0
     \<and> (mr_type a = MR_ADDR_IPV4 \<and> mr_len a = 4 \<or> mr_type a = MR_ADDR_IPV6 \<and> mr_len a = 16)"

text \<open>The key under which a network route for the first \<open>n\<close> bits of an address is stored.\<close>

definition prefix_key :: "nat \<Rightarrow> mroute_addr \<Rightarrow> mroute_addr option" where
  "prefix_key n a = mroute_addr_mask_host_bits (a\<lparr>mr_type := mr_type a OR MR_WITH_NETBITS, mr_netbits := of_nat n\<rparr>)"

lemma mask_host_loop_take:
  "n \<le> 16 \<Longrightarrow> 16 \<le> length raw \<Longrightarrow>
   map_prod (take 16) id (mask_host_loop n b raw) = mask_host_loop n b (take 16 raw)"
proof (induction n arbitrary: b raw)
  case (Suc n)
  have t: "take 16 (raw[n := w]) = (take 16 raw)[n := w]" for w by (rule take_update_swap)
  show ?case using Suc.IH [of "raw[n := 0]" "b - 8"] Suc.IH [of "raw[n := raw ! n AND ucast (push_bit (nat b) (0xffffffff :: u32))]" 0]
      Suc.prems
    by (simp add: t)
qed simp

lemma prefix_key_cong:
  assumes "ip_host a" "ip_host b" "same_addr a b" "n \<le> 128"
  obtains ka kb where "prefix_key n a = Some ka" "prefix_key n b = Some kb" "same_addr ka kb"
    "mr_type ka AND MR_WITH_NETBITS \<noteq> 0" "unat (mr_netbits ka) = n"
proof -
  have n: "unat (of_nat n :: u8) = n" using assms(4) by (simp add: unat_of_nat)
  then have un: "uint (of_nat n :: u8) = int n" by (metis uint_nat)
  have e: "mr_type a = mr_type b" "mr_len a = mr_len b" "addr_bytes a = addr_bytes b"
    using assms(3) by (simp_all add: mroute_addr_compare_function_def mroute_addr_equal_iff)
  have len: "length (mr_raw a) = 20" "length (mr_raw b) = 20" using assms(1,2) by (simp_all add: ip_host_def mr_consts)
  show thesis
  proof (cases "mr_type a = MR_ADDR_IPV4")
    case True
    have s: "segment 0 4 (mr_raw a) = segment 0 4 (mr_raw b)"
      using e True assms(1,2) by (auto simp: ip_host_def mr_consts addr_bytes_def segment_def)
    let ?k = "\<lambda>c. c\<lparr>mr_type := 10, mr_netbits := of_nat n,
      mr_raw := patch (mr_raw c) 0 (be32_bytes (be32_of (segment 0 4 (mr_raw c)) AND netbits_to_netmask (int n)))\<rparr>"
    have k: "prefix_key n a = Some (?k a)" "prefix_key n b = Some (?k b)"
      using True e un by (simp_all add: prefix_key_def mroute_addr_mask_host_bits_def mr_consts Let_def)
    show thesis
      by (rule that [OF k]) (use assms(1,2) e True s n len in \<open>auto simp: mroute_addr_compare_function_def mroute_addr_equal_iff ip_host_def mr_consts addr_bytes_def patch_def\<close>)
  next
    case False
    then have v6: "mr_type a = MR_ADDR_IPV6" "mr_len a = 16" "mr_type b = MR_ADDR_IPV6" "mr_len b = 16"
      using assms(1,2) e by (auto simp: ip_host_def mr_consts)
    have t: "take 16 (mr_raw a) = take 16 (mr_raw b)" using e v6 by (simp add: addr_bytes_def)
    obtain ra where ra: "mask_host_loop 16 (128 - int n) (mr_raw a) = (ra, 0)" "length ra = 20"
      using mask_host_loop_law [of "128 - int n" 16 "mr_raw a"] assms(4) len by auto
    obtain rb where rb: "mask_host_loop 16 (128 - int n) (mr_raw b) = (rb, 0)" "length rb = 20"
      using mask_host_loop_law [of "128 - int n" 16 "mr_raw b"] assms(4) len by auto
    have "(take 16 ra, 0 :: int) = (take 16 rb, 0)"
      using mask_host_loop_take [of 16 "mr_raw a" "128 - int n"] mask_host_loop_take [of 16 "mr_raw b" "128 - int n"] ra rb t len by simp
    then have tt: "take 16 ra = take 16 rb" by blast
    have k: "prefix_key n a = Some (a\<lparr>mr_type := 11, mr_netbits := of_nat n, mr_raw := ra\<rparr>)"
      "prefix_key n b = Some (b\<lparr>mr_type := 11, mr_netbits := of_nat n, mr_raw := rb\<rparr>)"
      using v6 un ra rb by (simp_all add: prefix_key_def mroute_addr_mask_host_bits_def mr_consts)
    show thesis
      by (rule that [OF k]) (use v6 tt n in \<open>auto simp: mroute_addr_compare_function_def mroute_addr_equal_iff mr_consts addr_bytes_def\<close>)
  qed
qed

lemma ip_host_plain: "ip_host a \<Longrightarrow> mr_type a AND MR_WITH_NETBITS = 0"
  by (auto simp: ip_host_def mr_consts)

subsection \<open>The routing table without its cache\<close>

text \<open>A route without its time stamp, and the owner of an address that is not a cached one.\<close>

definition core_at :: "multi_context \<Rightarrow> mroute_addr \<Rightarrow> multi_route option" where
  "core_at m k = map_option (\<lambda>r. r\<lparr>rt_last_reference := 0\<rparr>) (route_at m k)"

definition static_at :: "multi_context \<Rightarrow> mroute_addr \<Rightarrow> nat option" where
  "static_at m k = (case core_at m k of
     None \<Rightarrow> None
   | Some r \<Rightarrow> if rt_flags r = 0 \<and> live m (rt_instance r) then Some (rt_instance r) else None)"

text \<open>Longest prefix match: the owner of the first network among the given lengths.\<close>

fun prefix_match :: "multi_context \<Rightarrow> mroute_addr \<Rightarrow> nat list \<Rightarrow> nat option" where
  "prefix_match m addr [] = None"
| "prefix_match m addr (n # ns) =
     (case Option.bind (prefix_key n addr) (static_at m) of Some i \<Rightarrow> Some i | None \<Rightarrow> prefix_match m addr ns)"

definition all_lengths :: "nat list" where "all_lengths = rev [0..<129]"

definition reference_route :: "multi_context \<Rightarrow> mroute_addr \<Rightarrow> nat option" where
  "reference_route m addr =
     (if mroute_addr_equal addr (mc_local m) then None
      else case static_at m addr of Some i \<Rightarrow> Some i | None \<Rightarrow> prefix_match m addr all_lengths)"

text \<open>
  The invariant of a route: a route for a network has its length among those in use; a cached
  route is for an address, and while it is valid it agrees with the longest prefix match. The
  last part is lost when \<open>check_stale_routes\<close> removes the network a cached route came from, so it
  is asked for only where \<open>S\<close> holds, that is, on a server without \<open>--stale-routes-check\<close>.
\<close>

definition route_ok :: "bool \<Rightarrow> nat multiset \<Rightarrow> multi_context \<Rightarrow> multi_route \<Rightarrow> bool" where
  "route_ok S M m r \<longleftrightarrow>
     (rt_flags r = 0 \<and> (mr_type (rt_addr r) AND MR_WITH_NETBITS \<noteq> 0 \<longrightarrow> live m (rt_instance r) \<longrightarrow> unat (mr_netbits (rt_addr r)) \<in># M))
     \<or> (rt_flags r = 3 \<and> ip_host (rt_addr r)
        \<and> (S \<longrightarrow> rt_cache_generation r = rh_cache_generation (mc_route_helper m) \<longrightarrow> live m (rt_instance r)
             \<longrightarrow> prefix_match m (rt_addr r) all_lengths = Some (rt_instance r)))"

definition route_inv :: "bool \<Rightarrow> nat multiset \<Rightarrow> multi_context \<Rightarrow> bool" where
  "route_inv S M m \<longleftrightarrow> heap_ok m \<and> table_ok m \<and> helper_abs (mc_route_helper m) M
     \<and> (\<forall>k r. core_at m k = Some r \<longrightarrow> route_ok S M m r)"

lemma hash_entry_same: "table_ok m \<Longrightarrow> same_addr k k' \<Longrightarrow> hash_entry (mc_vhash m) k' = hash_entry (mc_vhash m) k"
  using hash_entry_cong [of "mc_vhash m" k k'] by (simp add: table_ok_def)

lemma static_at_same: "table_ok m \<Longrightarrow> same_addr k k' \<Longrightarrow> static_at m k' = static_at m k"
  by (simp add: static_at_def core_at_def route_at_def hash_entry_same)

lemma prefix_match_same:
  assumes "table_ok m" "ip_host a" "ip_host b" "same_addr a b" "\<forall>n \<in> set ns. n \<le> 128"
  shows "prefix_match m a ns = prefix_match m b ns"
  using assms(5)
proof (induction ns)
  case (Cons n ns)
  obtain ka kb where "prefix_key n a = Some ka" "prefix_key n b = Some kb" "same_addr ka kb"
    by (rule prefix_key_cong [OF assms(2-4), of n]) (use Cons.prems in auto)
  then show ?case using Cons static_at_same [OF assms(1)] by (simp cong: option.case_cong)
qed simp

lemma core_at_addr:
  assumes "table_ok m" "core_at m k = Some r"
  shows "same_addr (rt_addr r) k"
  using assms(2) table_ok_entry [OF assms(1)] by (auto simp: core_at_def route_at_def split: option.splits) (metis option.inject)

text \<open>Under the key of a network there is never a cached route.\<close>

lemma owner_at_network:
  assumes inv: "route_inv S M m" and k: "mr_type k AND MR_WITH_NETBITS \<noteq> 0"
  shows "owner_at now m k = static_at m k"
proof (cases "route_at m k")
  case None
  then show ?thesis by (simp add: owner_at_def static_at_def core_at_def)
next
  case (Some r)
  then have c: "core_at m k = Some (r\<lparr>rt_last_reference := 0\<rparr>)" by (simp add: core_at_def)
  then have ok: "route_ok S M m (r\<lparr>rt_last_reference := 0\<rparr>)" and t: "table_ok m" using inv by (auto simp: route_inv_def)
  have "mr_type (rt_addr r) = mr_type k"
    using core_at_addr [OF t c] by (simp add: mroute_addr_compare_function_def mroute_addr_equal_iff)
  then have "\<not> ip_host (rt_addr r)" using k ip_host_plain by metis
  then have "rt_flags r = 0" using ok by (simp add: route_ok_def)
  then show ?thesis using Some c by (simp add: owner_at_def static_at_def route_live_def)
qed

lemma owner_at_host:
  assumes inv: "route_inv S M m" and a: "ip_host a"
  shows "owner_at now m a = None \<Longrightarrow> static_at m a = None"
    and "S \<Longrightarrow> owner_at now m a = Some i \<Longrightarrow> (case static_at m a of Some i \<Rightarrow> Some i | None \<Rightarrow> prefix_match m a all_lengths) = Some i"
proof -
  have t: "table_ok m" using inv by (simp add: route_inv_def)
  show "owner_at now m a = None \<Longrightarrow> static_at m a = None"
    by (auto simp: owner_at_def static_at_def core_at_def route_live_def split: option.splits if_splits)
  assume S: "S" and "owner_at now m a = Some i"
  then obtain r where r: "route_at m a = Some r" "route_live now m r" "rt_instance r = i"
    by (auto simp: owner_at_def split: option.splits if_splits)
  then have c: "core_at m a = Some (r\<lparr>rt_last_reference := 0\<rparr>)" by (simp add: core_at_def)
  then have ok: "route_ok S M m (r\<lparr>rt_last_reference := 0\<rparr>)" using inv by (auto simp: route_inv_def)
  have same: "same_addr (rt_addr r) a" using core_at_addr [OF t c] by simp
  from ok consider "rt_flags r = 0" | "rt_flags r = 3" "ip_host (rt_addr r)"
      "rt_cache_generation r = rh_cache_generation (mc_route_helper m) \<longrightarrow> live m i \<longrightarrow> prefix_match m (rt_addr r) all_lengths = Some i"
    using r(3) S by (auto simp: route_ok_def)
  then show "(case static_at m a of Some i \<Rightarrow> Some i | None \<Rightarrow> prefix_match m a all_lengths) = Some i"
  proof cases
    case 1
    then show ?thesis using c r by (simp add: static_at_def route_live_def)
  next
    case 2
    have "(3 :: u32) AND MULTI_ROUTE_CACHE \<noteq> 0" by (simp add: MULTI_ROUTE_CACHE_def)
    then have "prefix_match m (rt_addr r) all_lengths = Some i" using 2 r by (auto simp: route_live_def)
    then have "prefix_match m a all_lengths = Some i"
      using prefix_match_same [OF t 2(2) a same, of all_lengths] by (simp add: all_lengths_def)
    then show ?thesis using c 2 by (simp add: static_at_def)
  qed
qed

text \<open>
  What a lookup returns: the owner of a valid route for the address itself, a cached one or not, else
  the longest prefix match.  Without ageing this is the reference.
\<close>

definition lookup_result :: "int \<Rightarrow> multi_context \<Rightarrow> mroute_addr \<Rightarrow> nat option" where
  "lookup_result now m addr =
     (if mroute_addr_equal addr (mc_local m) then None
      else case owner_at now m addr of Some i \<Rightarrow> Some i | None \<Rightarrow> prefix_match m addr all_lengths)"

lemma lookup_result_reference: "route_inv True M m \<Longrightarrow> ip_host addr \<Longrightarrow> lookup_result now m addr = reference_route m addr"
  using owner_at_host [of True M m addr now]
  by (cases "owner_at now m addr") (simp_all add: lookup_result_def reference_route_def)

lemma lookup_result_cached:
  assumes inv: "route_inv S M m" and a: "ip_host addr" and new: "lookup_result now m addr \<noteq> reference_route m addr"
  obtains r where "\<not> S" "route_at m addr = Some r" "rt_flags r = 3" "route_live now m r" "lookup_result now m addr = Some (rt_instance r)"
proof -
  have "\<not> S" using lookup_result_reference [of M m addr now] inv a new by (cases S) simp_all
  have loc: "\<not> mroute_addr_equal addr (mc_local m)" using new by (auto simp: lookup_result_def reference_route_def)
  have "owner_at now m addr \<noteq> None"
    using owner_at_host(1) [OF inv a, of now] new loc by (cases "owner_at now m addr") (simp_all add: lookup_result_def reference_route_def)
  then obtain r where r: "route_at m addr = Some r" "route_live now m r" by (auto simp: owner_at_def split: option.splits if_splits)
  then have c: "core_at m addr = Some (r\<lparr>rt_last_reference := 0\<rparr>)" by (simp add: core_at_def)
  have res: "lookup_result now m addr = Some (rt_instance r)" using r loc by (simp add: lookup_result_def owner_at_def)
  have "rt_flags r \<noteq> 0"
    using new res loc c r(2) by (auto simp: reference_route_def static_at_def route_live_def)
  moreover have "route_ok S M m (r\<lparr>rt_last_reference := 0\<rparr>)" using inv c by (auto simp: route_inv_def)
  ultimately have "rt_flags r = 3" by (auto simp: route_ok_def)
  then show thesis using that \<open>\<not> S\<close> r res by blast
qed

lemma route_inv_weaken: "route_inv S M m \<Longrightarrow> route_inv False M m"
  by (force simp: route_inv_def route_ok_def)

text \<open>Lengths that are not in use do not matter.\<close>

lemma prefix_match_in_use:
  assumes inv: "route_inv S M m" and a: "ip_host a" and ns: "\<forall>n \<in> set ns. n \<le> 128"
  shows "prefix_match m a (filter (\<lambda>n. n \<in># M) ns) = prefix_match m a ns"
  using ns
proof (induction ns)
  case (Cons n ns)
  have t: "table_ok m" using inv by (simp add: route_inv_def)
  obtain k where k: "prefix_key n a = Some k" "mr_type k AND MR_WITH_NETBITS \<noteq> 0" "unat (mr_netbits k) = n"
    by (rule prefix_key_cong [OF a a, of n]) (use Cons.prems same_addr_laws in auto)
  have "static_at m k = None" if n: "n \<notin># M"
  proof (rule ccontr)
    assume "static_at m k \<noteq> None"
    then obtain r where r: "core_at m k = Some r" "rt_flags r = 0" "live m (rt_instance r)"
      by (auto simp: static_at_def split: option.splits if_splits)
    have "mr_type (rt_addr r) = mr_type k" "mr_netbits (rt_addr r) = mr_netbits k"
      using core_at_addr [OF t r(1)] by (simp_all add: mroute_addr_compare_function_def mroute_addr_equal_iff)
    moreover have "route_ok S M m r" using inv r(1) by (auto simp: route_inv_def)
    ultimately have "unat (mr_netbits k) \<in># M" using k(2) r by (simp add: route_ok_def)
    then show False using n k(3) by simp
  qed
  then show ?case using Cons k(1) by (cases "n \<in># M") (simp_all cong: option.case_cong)
qed simp

lemma prefix_match_cong: "static_at m' = static_at m \<Longrightarrow> prefix_match m' a ns = prefix_match m a ns"
  by (induction ns) (simp_all cong: option.case_cong)

lemma static_at_cong: "core_at m' k = core_at m k \<Longrightarrow> (\<And>i. live m' i = live m i) \<Longrightarrow> static_at m' k = static_at m k"
  by (simp add: static_at_def split: option.split)

lemma static_at_live: "static_at m k = Some i \<Longrightarrow> live m i"
  by (auto simp: static_at_def split: option.splits if_splits)

lemma prefix_match_live: "prefix_match m a ns = Some i \<Longrightarrow> live m i"
  by (induction ns) (auto split: option.splits dest: static_at_live simp: bind_eq_Some_conv)

lemma same_frame_live: "same_frame m m' \<Longrightarrow> live m' i = live m i"
  by (simp add: same_frame_def live_def)

lemma route_inv_frame:
  assumes "route_inv S M m" "heap_ok m'" "table_ok m'" "same_frame m m'" "static_at m' = static_at m"
    and "\<And>k r. core_at m' k = Some r \<Longrightarrow> core_at m k = Some r \<or> route_ok S M m r"
  shows "route_inv S M m'"
proof -
  have "route_ok S M m' r \<longleftrightarrow> route_ok S M m r" for r
    using assms(4) prefix_match_cong [OF assms(5)] same_frame_live [OF assms(4)]
    by (simp add: route_ok_def same_frame_def)
  then show ?thesis using assms by (fastforce simp: route_inv_def same_frame_def)
qed

text \<open>Lookups only add cached routes of the current generation, and do not touch the networks.\<close>

definition cache_grows :: "multi_context \<Rightarrow> multi_context \<Rightarrow> bool" where
  "cache_grows m m' \<longleftrightarrow> (\<forall>k r. core_at m' k = Some r \<longrightarrow> core_at m k = Some r
     \<or> rt_flags r = 3 \<and> rt_cache_generation r = rh_cache_generation (mc_route_helper m))
     \<and> (\<forall>k. mr_type k AND MR_WITH_NETBITS \<noteq> 0 \<longrightarrow> route_at m' k = route_at m k)"

lemma cache_grows_trans:
  "same_frame m m' \<Longrightarrow> cache_grows m m' \<Longrightarrow> cache_grows m' m'' \<Longrightarrow> cache_grows m m''"
  unfolding cache_grows_def same_frame_def by metis

text \<open>Entering the cached route for an address.\<close>

lemma learn_cached_law:
  assumes inv: "route_inv S M m" and a: "ip_host addr" and none: "static_at m addr = None"
    and pm: "prefix_match m addr all_lengths = Some i"
  shows "\<exists>m' o'. multi_learn_addr script now m i addr (MULTI_ROUTE_CACHE OR MULTI_ROUTE_AGEABLE) = Some (m', o')
    \<and> route_inv S M m' \<and> same_frame m m' \<and> static_at m' = static_at m \<and> cache_grows m m'"
proof -
  let ?fl = "MULTI_ROUTE_CACHE OR MULTI_ROUTE_AGEABLE"
  have fl: "?fl = 3" by (simp add: MULTI_ROUTE_CACHE_def MULTI_ROUTE_AGEABLE_def)
  have ok: "heap_ok m" "table_ok m" using inv by (simp_all add: route_inv_def)
  obtain m' where m': "multi_learn_addr script now m i addr ?fl = Some (m', if learns script now m i addr then Some i else owner_at now m addr)"
    "heap_ok m'" "table_ok m'" "same_frame m m'"
    "route_at m' = (if learns script now m i addr then map_set same_addr addr (Some (new_route now m i addr ?fl)) (route_at m) else route_at m)"
    using learn_addr_law [OF ok prefix_match_live [OF pm], of script now addr ?fl] by blast
  let ?r = "(new_route now m i addr 3)\<lparr>rt_last_reference := 0\<rparr>"
  have core: "core_at m' k = (if learns script now m i addr \<and> same_addr addr k then Some ?r else core_at m k)" for k
    using m'(5) by (simp add: core_at_def map_set_def fl)
  have static: "static_at m' = static_at m"
  proof
    fix k
    show "static_at m' k = static_at m k"
    proof (cases "learns script now m i addr \<and> same_addr addr k")
      case True
      then have "static_at m k = None" using static_at_same [OF ok(2), of addr k] none by simp
      moreover have "static_at m' k = None" using core True by (simp add: static_at_def new_route_def)
      ultimately show ?thesis by simp
    next
      case False
      then show ?thesis using core [of k] same_frame_live [OF m'(4)] by (auto simp: static_at_def split: option.split)
    qed
  qed
  have "route_ok S M m ?r" using a pm by (simp add: route_ok_def new_route_def)
  then have "route_inv S M m'"
    using core by (intro route_inv_frame [OF inv m'(2-4) static]) (auto split: if_splits)
  moreover have "cache_grows m m'"
    unfolding cache_grows_def
  proof (intro conjI allI impI)
    show "core_at m k = Some r \<or> rt_flags r = 3 \<and> rt_cache_generation r = rh_cache_generation (mc_route_helper m)"
      if "core_at m' k = Some r" for k r
      using that core by (auto simp: new_route_def MULTI_ROUTE_CACHE_def split: if_splits)
    show "route_at m' k = route_at m k" if "mr_type k AND MR_WITH_NETBITS \<noteq> 0" for k
    proof -
      have "\<not> same_addr addr k" using that ip_host_plain [OF a] by (auto simp: mroute_addr_compare_function_def mroute_addr_equal_iff)
      then show ?thesis using m'(5) by (simp add: map_set_def)
    qed
  qed
  ultimately show ?thesis using m'(1,4) static by blast
qed

lemma lookup_frame:
  assumes inv: "route_inv S M m"
  obtains h where "hash_lookup (mc_vhash m) k = Some (h, hash_entry (mc_vhash m) k)" "route_inv S M (m\<lparr>mc_vhash := h\<rparr>)"
    "same_frame m (m\<lparr>mc_vhash := h\<rparr>)" "static_at (m\<lparr>mc_vhash := h\<rparr>) = static_at m" "cache_grows m (m\<lparr>mc_vhash := h\<rparr>)"
    "owner_at now (m\<lparr>mc_vhash := h\<rparr>) = owner_at now m" "hash_entry h = hash_entry (mc_vhash m)"
    "defined_owner now (m\<lparr>mc_vhash := h\<rparr>) (hash_entry (mc_vhash m) k) = Some (owner_at now m k)"
proof -
  have ok: "heap_ok m" "table_ok m" "hash_wf (mc_vhash m)" using inv by (simp_all add: route_inv_def table_ok_def)
  obtain h where h: "hash_lookup (mc_vhash m) k = Some (h, hash_entry (mc_vhash m) k)" "hash_wf h"
    "h_compare_function h = h_compare_function (mc_vhash m)" "hash_entry h = hash_entry (mc_vhash m)"
    using hash_lookup_law [OF ok(3), of k] by blast
  let ?m = "m\<lparr>mc_vhash := h\<rparr>"
  note f = vhash_frame [OF ok(1,2) h(2-4)]
  have sf: "same_frame m ?m" using f by (simp add: same_frame_def)
  have core: "core_at ?m = core_at m" using f(4) by (simp add: core_at_def fun_eq_iff)
  have static: "static_at ?m = static_at m"
    using core same_frame_live [OF sf] by (intro ext static_at_cong) simp_all
  have "route_inv S M ?m" by (rule route_inv_frame [OF inv f(1,2) sf static]) (simp add: core)
  moreover have "defined_owner now ?m (hash_entry (mc_vhash m) k) = Some (owner_at now m k)"
    using defined_owner_law [OF f(1,2), of now k] f(5) h(4) by simp
  moreover have "cache_grows m ?m" using f(4) by (simp add: cache_grows_def core)
  ultimately show thesis using that h(1,4) sf static f(5) by blast
qed

lemma cidr_loop_law:
  assumes "route_inv S M m" "ip_host addr" "static_at m addr = None"
    "\<forall>n \<in> set ns. unat n \<le> 128" "\<And>i. prefix_match m addr (map unat ns) = Some i \<Longrightarrow> prefix_match m addr all_lengths = Some i"
  shows "\<exists>m'. cidr_loop script now m addr ns = Some (m', prefix_match m addr (map unat ns))
    \<and> route_inv S M m' \<and> same_frame m m' \<and> static_at m' = static_at m \<and> cache_grows m m'"
  using assms
proof (induction ns arbitrary: m)
  case (Cons n ns)
  obtain k where k: "prefix_key (unat n) addr = Some k" "mr_type k AND MR_WITH_NETBITS \<noteq> 0"
    by (rule prefix_key_cong [OF Cons.prems(2,2), of "unat n"]) (use Cons.prems same_addr_laws in auto)
  then have mask: "mroute_addr_mask_host_bits (addr\<lparr>mr_type := mr_type addr OR MR_WITH_NETBITS, mr_netbits := n\<rparr>) = Some k"
    by (simp add: prefix_key_def)
  obtain h where h: "hash_lookup (mc_vhash m) k = Some (h, hash_entry (mc_vhash m) k)" "route_inv S M (m\<lparr>mc_vhash := h\<rparr>)"
    "same_frame m (m\<lparr>mc_vhash := h\<rparr>)" "static_at (m\<lparr>mc_vhash := h\<rparr>) = static_at m"
    "defined_owner now (m\<lparr>mc_vhash := h\<rparr>) (hash_entry (mc_vhash m) k) = Some (owner_at now m k)"
    and grow: "cache_grows m (m\<lparr>mc_vhash := h\<rparr>)"
    by (rule lookup_frame [OF Cons.prems(1), of k now])
  let ?m = "m\<lparr>mc_vhash := h\<rparr>"
  have o: "owner_at now m k = static_at m k" by (rule owner_at_network [OF Cons.prems(1) k(2)])
  have pm: "prefix_match ?m a ls = prefix_match m a ls" for a ls by (rule prefix_match_cong [OF h(4)])
  show ?case
  proof (cases "static_at m k")
    case None
    then have e: "prefix_match m addr (map unat (n # ns)) = prefix_match m addr (map unat ns)" using k(1) by simp
    obtain m' where m': "cidr_loop script now ?m addr ns = Some (m', prefix_match ?m addr (map unat ns))"
      "route_inv S M m'" "same_frame ?m m'" "static_at m' = static_at ?m" "cache_grows ?m m'"
      using Cons.IH [OF h(2) Cons.prems(2)] Cons.prems(3-5) e h(4) pm by auto
    have "cidr_loop script now m addr (n # ns) = Some (m', prefix_match m addr (map unat ns))"
      using mask h(1,5) o None m'(1) pm by simp
    moreover have "cache_grows m m'" by (rule cache_grows_trans [OF h(3) grow m'(5)])
    ultimately show ?thesis using e m' h(3,4) by (simp add: same_frame_def)
  next
    case (Some i)
    then have e: "prefix_match m addr (map unat (n # ns)) = Some i" using k(1) by simp
    then have "prefix_match ?m addr all_lengths = Some i" using Cons.prems(5) pm by simp
    then obtain m' o' where m': "multi_learn_addr script now ?m i addr (MULTI_ROUTE_CACHE OR MULTI_ROUTE_AGEABLE) = Some (m', o')"
      "route_inv S M m'" "same_frame ?m m'" "static_at m' = static_at ?m" "cache_grows ?m m'"
      using learn_cached_law [OF h(2) Cons.prems(2)] Cons.prems(3) h(4) by fastforce
    have "cidr_loop script now m addr (n # ns) = Some (m', Some i)"
      using mask h(1,5) o Some m'(1) by simp
    moreover have "cache_grows m m'" by (rule cache_grows_trans [OF h(3) grow m'(5)])
    ultimately show ?thesis unfolding e using m' h(3,4) by (simp add: same_frame_def)
  qed
qed (auto simp: same_frame_def cache_grows_def)

text \<open>Marking a route as used.\<close>

lemma touch_law:
  fixes now :: int
  assumes inv: "route_inv S M m" and p: "mc_routes m p = Some r" and plain: "mr_type (rt_addr r) AND MR_WITH_NETBITS = 0"
  defines "m' \<equiv> set_route p (Some (r\<lparr>rt_last_reference := now\<rparr>)) m"
  shows "route_inv S M m'" "same_frame m m'" "static_at m' = static_at m" "cache_grows m m'"
proof -
  have ok: "heap_ok m" "table_ok m" using inv by (simp_all add: route_inv_def)
  have sf: "same_frame m m'" by (simp add: m'_def same_frame_def set_route_def profile_def fun_eq_iff)
  have refs: "routes_of m' = routes_of m" using p by (auto simp: m'_def routes_of_def set_route_def fun_eq_iff)
  have "heap_ok m'"
    unfolding heap_ok_def refs
  proof (intro conjI)
    show "finite (dom (mc_routes m'))" "finite (dom (mc_instances m'))"
      using ok(1) by (simp_all add: heap_ok_def m'_def set_route_def)
    show "\<forall>q s. mc_routes m' q = Some s \<longrightarrow> mc_instances m' (rt_instance s) \<noteq> None"
      using heap_ok_instance [OF ok(1)] p by (force simp: m'_def set_route_def split: if_splits)
    show "\<forall>i mi. mc_instances m' i = Some mi \<longrightarrow> mi_route_count mi = int (card (routes_of m i))
          \<and> mi_refcount mi = int (card (routes_of m i)) + (if mi_halt mi then 0 else 1) \<and> 0 < mi_refcount mi"
      using heap_ok_counts [OF ok(1)] by (simp add: m'_def set_route_def)
  qed
  moreover have "table_ok m'"
    unfolding table_ok_def
  proof (intro conjI allI impI)
    show "hash_wf (mc_vhash m')" "h_compare_function (mc_vhash m') = same_addr" using ok(2) by (simp_all add: m'_def set_route_def table_ok_def)
    fix k q assume "hash_entry (mc_vhash m') k = Some q"
    then have "hash_entry (mc_vhash m) k = Some q" by (simp add: m'_def set_route_def)
    then obtain s where "mc_routes m q = Some s" "same_addr (rt_addr s) k" by (rule table_ok_entry [OF ok(2)])
    then show "\<exists>s. mc_routes m' q = Some s \<and> same_addr (rt_addr s) k" using p by (auto simp: m'_def set_route_def)
  next
    fix q s assume "mc_routes m' q = Some s"
    then show "hash_entry (mc_vhash m') (rt_addr s) = Some q" "q < mc_next_route m'"
      using table_ok_route [OF ok(2)] p by (auto simp: m'_def set_route_def split: if_splits)
  qed
  moreover have core: "core_at m' k = core_at m k" for k
    using p by (auto simp: core_at_def route_at_def m'_def set_route_def split: option.split)
  moreover have static: "static_at m' = static_at m"
    using core same_frame_live [OF sf] by (intro ext static_at_cong) simp_all
  moreover have "route_at m' k = route_at m k" if k: "mr_type k AND MR_WITH_NETBITS \<noteq> 0" for k
  proof (cases "hash_entry (mc_vhash m) k")
    case (Some q)
    have "q \<noteq> p"
    proof
      assume "q = p"
      then have "same_addr (rt_addr r) k" using table_ok_entry [OF ok(2) Some] p by (metis option.inject)
      then show False using plain k by (auto simp: mroute_addr_compare_function_def mroute_addr_equal_iff)
    qed
    then show ?thesis using Some by (simp add: route_at_def m'_def set_route_def)
  qed (simp add: route_at_def m'_def set_route_def)
  then have "cache_grows m m'" using core by (simp add: cache_grows_def)
  ultimately show "route_inv S M m'" "same_frame m m'" "static_at m' = static_at m" "cache_grows m m'"
    using route_inv_frame [OF inv _ _ sf] sf by auto
qed

lemma lookup_law:
  assumes inv: "route_inv S M m" and a: "ip_host addr"
  shows "\<exists>m'. multi_get_instance_by_virtual_addr script now m addr True = Some (m', lookup_result now m addr)
    \<and> route_inv S M m' \<and> same_frame m m' \<and> static_at m' = static_at m \<and> cache_grows m m'"
proof (cases "mroute_addr_equal addr (mc_local m)")
  case True
  then show ?thesis using inv by (auto simp: multi_get_instance_by_virtual_addr_def lookup_result_def same_frame_def cache_grows_def)
next
  case False
  obtain h where h: "hash_lookup (mc_vhash m) addr = Some (h, hash_entry (mc_vhash m) addr)" "route_inv S M (m\<lparr>mc_vhash := h\<rparr>)"
    "same_frame m (m\<lparr>mc_vhash := h\<rparr>)" "static_at (m\<lparr>mc_vhash := h\<rparr>) = static_at m" "cache_grows m (m\<lparr>mc_vhash := h\<rparr>)"
    "owner_at now (m\<lparr>mc_vhash := h\<rparr>) = owner_at now m"
    "defined_owner now (m\<lparr>mc_vhash := h\<rparr>) (hash_entry (mc_vhash m) addr) = Some (owner_at now m addr)"
    by (rule lookup_frame [OF inv, of addr now])
  let ?m = "m\<lparr>mc_vhash := h\<rparr>"
  have pm: "prefix_match ?m b ls = prefix_match m b ls" for b ls by (rule prefix_match_cong [OF h(4)])
  have ends: "(case ret of None \<Rightarrow> Some (m', ret)
      | Some i \<Rightarrow> do { mi \<leftarrow> mc_instances m' i; ASSERT (\<not> mi_halt mi); Some (m', ret) }) = Some (m', ret)"
    if lv: "\<And>i. ret = Some i \<Longrightarrow> live m' i" for ret :: "nat option" and m'
  proof (cases ret)
    case (Some i)
    then obtain mi where "mc_instances m' i = Some mi" "\<not> mi_halt mi" using liveE [OF lv [OF Some]] by blast
    then show ?thesis using Some by simp
  qed simp
  show ?thesis
  proof (cases "owner_at now m addr")
    case (Some i)
    then have ref: "lookup_result now m addr = Some i" using False by (simp add: lookup_result_def)
    obtain p where p: "hash_entry (mc_vhash m) addr = Some p"
      using Some by (auto simp: owner_at_def route_at_def split: option.splits)
    have "table_ok m" using inv by (simp add: route_inv_def)
    then obtain r where r: "mc_routes m p = Some r" "same_addr (rt_addr r) addr" using table_ok_entry [OF _ p] by metis
    have plain: "mr_type (rt_addr r) AND MR_WITH_NETBITS = 0"
      using r(2) ip_host_plain [OF a] by (simp add: mroute_addr_compare_function_def mroute_addr_equal_iff)
    let ?m' = "set_route p (Some (r\<lparr>rt_last_reference := now\<rparr>)) ?m"
    have t: "route_inv S M ?m'" "same_frame ?m ?m'" "static_at ?m' = static_at ?m" "cache_grows ?m ?m'"
      using touch_law [OF h(2), of p r now] r(1) plain by simp_all
    have "live m i" using Some by (auto simp: owner_at_def route_live_def split: option.splits if_splits)
    then have "live ?m' i" using same_frame_live [OF t(2)] same_frame_live [OF h(3)] by simp
    then have "multi_get_instance_by_virtual_addr script now m addr True = Some (?m', Some i)"
      using False h(1,7) Some p r(1) ends [of "Some i" ?m'] by (simp add: multi_get_instance_by_virtual_addr_def)
    moreover have "cache_grows m ?m'" by (rule cache_grows_trans [OF h(3,5) t(4)])
    ultimately show ?thesis unfolding ref using t h(3,4) by (simp add: same_frame_def)
  next
    case None
    then have none: "static_at m addr = None" by (rule owner_at_host(1) [OF inv a])
    have ref: "lookup_result now m addr = prefix_match m addr all_lengths" using False None by (simp add: lookup_result_def)
    let ?ns = "take (rh_n_net_len (mc_route_helper m)) (rh_net_len (mc_route_helper m))"
    have "helper_abs (mc_route_helper m) M" using inv by (simp add: route_inv_def)
    then have ns: "map unat ?ns = filter (\<lambda>n. n \<in># M) all_lengths"
      using helper_net_len by (simp add: all_lengths_def MR_HELPER_NET_LEN_def)
    have lens: "prefix_match m addr (map unat ?ns) = prefix_match m addr all_lengths"
      unfolding ns by (rule prefix_match_in_use [OF inv a]) (simp add: all_lengths_def)
    have "\<forall>n \<in> set ?ns. unat n \<le> 128"
    proof
      fix n assume "n \<in> set ?ns"
      then have "unat n \<in> set (map unat ?ns)" by simp
      then show "unat n \<le> 128" unfolding ns by (simp add: all_lengths_def)
    qed
    then obtain m' where m': "cidr_loop script now ?m addr ?ns = Some (m', prefix_match m addr all_lengths)"
      "route_inv S M m'" "same_frame ?m m'" "static_at m' = static_at ?m" "cache_grows ?m m'"
      using cidr_loop_law [OF h(2) a, of ?ns script now] none h(4) pm lens by auto
    have "live m' i" if "prefix_match m addr all_lengths = Some i" for i
      using prefix_match_live [OF that] same_frame_live [OF m'(3)] same_frame_live [OF h(3)] by simp
    then have "multi_get_instance_by_virtual_addr script now m addr True = Some (m', prefix_match m addr all_lengths)"
      using False h(1,7) None m'(1) ends [of "prefix_match m addr all_lengths" m']
      by (simp add: multi_get_instance_by_virtual_addr_def)
    moreover have "cache_grows m m'" by (rule cache_grows_trans [OF h(3,5) m'(5)])
    ultimately show ?thesis unfolding ref using m' h(3,4) by (simp add: same_frame_def)
  qed
qed

text \<open>Without the search over the prefix lengths, as for the Ethernet addresses of a bridged server.\<close>

lemma lookup_exact_law:
  assumes inv: "route_inv S M m" and a: "mr_type addr AND MR_WITH_NETBITS = 0"
  shows "\<exists>m'. multi_get_instance_by_virtual_addr script now m addr False
      = Some (m', if mroute_addr_equal addr (mc_local m) then None else owner_at now m addr)
    \<and> route_inv S M m' \<and> same_frame m m' \<and> static_at m' = static_at m \<and> cache_grows m m'"
proof (cases "mroute_addr_equal addr (mc_local m)")
  case True
  then show ?thesis using inv by (auto simp: multi_get_instance_by_virtual_addr_def same_frame_def cache_grows_def)
next
  case False
  obtain h where h: "hash_lookup (mc_vhash m) addr = Some (h, hash_entry (mc_vhash m) addr)" "route_inv S M (m\<lparr>mc_vhash := h\<rparr>)"
    "same_frame m (m\<lparr>mc_vhash := h\<rparr>)" "static_at (m\<lparr>mc_vhash := h\<rparr>) = static_at m" "cache_grows m (m\<lparr>mc_vhash := h\<rparr>)"
    "owner_at now (m\<lparr>mc_vhash := h\<rparr>) = owner_at now m"
    "defined_owner now (m\<lparr>mc_vhash := h\<rparr>) (hash_entry (mc_vhash m) addr) = Some (owner_at now m addr)"
    by (rule lookup_frame [OF inv, of addr now])
  let ?m = "m\<lparr>mc_vhash := h\<rparr>"
  show ?thesis
  proof (cases "owner_at now m addr")
    case None
    then have "multi_get_instance_by_virtual_addr script now m addr False = Some (?m, None)"
      using False h(1,7) by (simp add: multi_get_instance_by_virtual_addr_def)
    then show ?thesis using False None h(2-5) by auto
  next
    case (Some i)
    obtain p where p: "hash_entry (mc_vhash m) addr = Some p"
      using Some by (auto simp: owner_at_def route_at_def split: option.splits)
    have "table_ok m" using inv by (simp add: route_inv_def)
    then obtain r where r: "mc_routes m p = Some r" "same_addr (rt_addr r) addr" using table_ok_entry [OF _ p] by metis
    have plain: "mr_type (rt_addr r) AND MR_WITH_NETBITS = 0"
      using r(2) a by (simp add: mroute_addr_compare_function_def mroute_addr_equal_iff)
    let ?m' = "set_route p (Some (r\<lparr>rt_last_reference := now\<rparr>)) ?m"
    have t: "route_inv S M ?m'" "same_frame ?m ?m'" "static_at ?m' = static_at ?m" "cache_grows ?m ?m'"
      using touch_law [OF h(2), of p r now] r(1) plain by simp_all
    have "live m i" using Some by (auto simp: owner_at_def route_live_def split: option.splits if_splits)
    then have "live ?m' i" using same_frame_live [OF t(2)] same_frame_live [OF h(3)] by simp
    then obtain mi where "mc_instances ?m' i = Some mi" "\<not> mi_halt mi" using liveE by blast
    then have "multi_get_instance_by_virtual_addr script now m addr False = Some (?m', Some i)"
      using False h(1,7) Some p r(1) by (simp add: multi_get_instance_by_virtual_addr_def)
    moreover have "cache_grows m ?m'" by (rule cache_grows_trans [OF h(3,5) t(4)])
    ultimately show ?thesis using False Some t h(3,4) by (simp add: same_frame_def)
  qed
qed

end
