(* ===== verification/Multi_Clients.thy ===== *)
theory Multi_Clients
  imports Multi_Route
begin

text \<open>
  The server's routing table over the life of its clients: learning host addresses and client
  networks, closing clients, reaping and ageing routes, and the invariant that all of them keep.
  The definitions of the handlers are in Multi_Route; here are the loops that remove routes.
\<close>

subsection \<open>Learning addresses and networks\<close>

text \<open>No cached route is valid.\<close>

definition all_stale :: "multi_context \<Rightarrow> bool" where
  "all_stale m \<longleftrightarrow> (\<forall>k r. core_at m k = Some r \<longrightarrow> rt_flags r = 3
     \<longrightarrow> rt_cache_generation r \<noteq> rh_cache_generation (mc_route_helper m))"

lemma prefix_match_networks:
  assumes "\<And>k. mr_type k AND MR_WITH_NETBITS \<noteq> 0 \<Longrightarrow> static_at m' k = static_at m k" "ip_host a" "\<forall>n \<in> set ns. n \<le> 128"
  shows "prefix_match m' a ns = prefix_match m a ns"
  using assms(3)
proof (induction ns)
  case (Cons n ns)
  obtain k where "prefix_key n a = Some k" "mr_type k AND MR_WITH_NETBITS \<noteq> 0"
    by (rule prefix_key_cong [OF assms(2,2), of n]) (use Cons.prems same_addr_laws in auto)
  then show ?case using Cons assms(1) by (simp cong: option.case_cong)
qed simp

definition static_route :: "nat \<Rightarrow> mroute_addr \<Rightarrow> multi_route" where
  "static_route i addr = \<lparr>rt_addr = addr, rt_instance = i, rt_flags = 0, rt_cache_generation = 0, rt_last_reference = 0\<rparr>"

lemma learn_static_law:
  assumes inv: "route_inv S M m" and i: "live m i"
    and ok: "mr_type addr AND MR_WITH_NETBITS = 0 \<or> all_stale m \<and> unat (mr_netbits addr) \<in># M"
  shows "\<exists>m' o'. multi_learn_addr script now m i addr 0 = Some (m', o') \<and> route_inv S M m' \<and> same_frame m m'
    \<and> (\<forall>k. core_at m' k = (if learns script now m i addr \<and> same_addr addr k then Some (static_route i addr) else core_at m k))"
proof -
  have h: "heap_ok m" "table_ok m" using inv by (simp_all add: route_inv_def)
  obtain m' o' where m': "multi_learn_addr script now m i addr 0 = Some (m', o')" "heap_ok m'" "table_ok m'" "same_frame m m'"
    "route_at m' = (if learns script now m i addr then map_set same_addr addr (Some (new_route now m i addr 0)) (route_at m) else route_at m)"
    using learn_addr_law [OF h i, of script now addr 0] by blast
  have core: "core_at m' k = (if learns script now m i addr \<and> same_addr addr k then Some (static_route i addr) else core_at m k)" for k
    using m'(5) by (simp add: core_at_def map_set_def new_route_def static_route_def)
  have "route_ok S M m' r" if c: "core_at m' k = Some r" for k r
  proof (cases "r = static_route i addr")
    case True
    then show ?thesis using ok by (auto simp: route_ok_def static_route_def)
  next
    case False
    then have old: "core_at m k = Some r" using c core by (auto split: if_splits)
    then have r: "route_ok S M m r" using inv by (auto simp: route_inv_def)
    from ok show ?thesis
    proof
      assume plain: "mr_type addr AND MR_WITH_NETBITS = 0"
      have "static_at m' k = static_at m k" if "mr_type k AND MR_WITH_NETBITS \<noteq> 0" for k
      proof -
        have "\<not> same_addr addr k" using that plain by (auto simp: mroute_addr_compare_function_def mroute_addr_equal_iff)
        then show ?thesis using core same_frame_live [OF m'(4)] by (intro static_at_cong) simp_all
      qed
      then have "prefix_match m' (rt_addr r) all_lengths = prefix_match m (rt_addr r) all_lengths" if "ip_host (rt_addr r)"
        by (rule prefix_match_networks [OF _ that]) (simp_all add: all_lengths_def)
      then show ?thesis using r m'(4) same_frame_live [OF m'(4)] by (auto simp: route_ok_def same_frame_def)
    next
      assume "all_stale m \<and> unat (mr_netbits addr) \<in># M"
      then show ?thesis using r old m'(4) same_frame_live [OF m'(4)] by (auto simp: route_ok_def same_frame_def all_stale_def)
    qed
  qed
  then have "route_inv S M m'" using inv m' by (auto simp: route_inv_def same_frame_def)
  then show ?thesis using m'(1,4) core by blast
qed

subsection \<open>Clients and their networks\<close>

definition iroute_lengths :: "multi_instance \<Rightarrow> int list" where
  "iroute_lengths mi = map ir_netbits (mi_iroutes mi) @ map (\<lambda>ir. sint (ir6_netbits ir)) (mi_iroutes_ipv6 mi)"

text \<open>What the parser of the options leaves: prefix lengths that fit the address family.\<close>

definition client_ok :: "multi_instance \<Rightarrow> bool" where
  "client_ok mi \<longleftrightarrow> (\<forall>ir \<in> set (mi_iroutes mi). 0 \<le> ir_netbits ir \<and> ir_netbits ir \<le> 32)
     \<and> (\<forall>ir \<in> set (mi_iroutes_ipv6 mi). 0 \<le> sint (ir6_netbits ir) \<and> sint (ir6_netbits ir) \<le> 128 \<and> length (ir6_network ir) = 16)"

text \<open>The prefix lengths a client has announced to the helper.\<close>

definition announced :: "multi_instance option \<Rightarrow> nat multiset" where
  "announced p = (case p of None \<Rightarrow> {#}
     | Some mi \<Rightarrow> if mi_did_iroutes mi \<and> mi_tunnel_type mi = DEV_TYPE_TUN then mset (map nat (iroute_lengths mi)) else {#})"

definition in_use :: "multi_context \<Rightarrow> nat multiset" where
  "in_use m = (\<Sum>i \<in> dom (profile m). announced (profile m i))"

text \<open>The networks in the table belong to clients that announced them.\<close>

definition owned :: "multi_context \<Rightarrow> bool" where
  "owned m \<longleftrightarrow> (\<forall>k r. core_at m k = Some r \<longrightarrow> rt_flags r = 0 \<longrightarrow> mr_type (rt_addr r) AND MR_WITH_NETBITS \<noteq> 0
     \<longrightarrow> live m (rt_instance r) \<longrightarrow> unat (mr_netbits (rt_addr r)) \<in># announced (profile m (rt_instance r)))"

definition clients_ok :: "multi_context \<Rightarrow> bool" where
  "clients_ok m \<longleftrightarrow> (\<forall>i mi. profile m i = Some mi \<longrightarrow> client_ok mi)"

text \<open>After \<open>n\<close> changes the generation is \<open>n\<close>, and no cached route is of a later one.\<close>

definition generation_ok :: "nat \<Rightarrow> multi_context \<Rightarrow> bool" where
  "generation_ok n m \<longleftrightarrow> n < 2 ^ 32 \<and> rh_cache_generation (mc_route_helper m) = of_nat n
     \<and> (\<forall>k r. core_at m k = Some r \<longrightarrow> rt_flags r = 3 \<longrightarrow> unat (rt_cache_generation r) \<le> n)"

definition routing_inv :: "bool \<Rightarrow> nat \<Rightarrow> multi_context \<Rightarrow> bool" where
  "routing_inv S n m \<longleftrightarrow> route_inv S (in_use m) m \<and> owned m \<and> clients_ok m \<and> generation_ok n m"

lemma finite_profile: "heap_ok m \<Longrightarrow> finite (dom (profile m))"
  by (rule finite_subset [of _ "dom (mc_instances m)"]) (auto simp: profile_def heap_ok_def split: option.splits)

lemma in_use_member:
  assumes "heap_ok m" "profile m i \<noteq> None" "k \<in># announced (profile m i)"
  shows "k \<in># in_use m"
proof -
  have "in_use m = announced (profile m i) + (\<Sum>j \<in> dom (profile m) - {i}. announced (profile m j))"
    unfolding in_use_def using finite_profile [OF assms(1)] assms(2) by (intro sum.remove) auto
  then show ?thesis using assms(3) by simp
qed

lemma in_use_update:
  assumes fin: "finite (dom (profile m))" and p: "profile m' = (profile m)(i := q)"
  shows "in_use m' = in_use m - announced (profile m i) + announced q"
proof -
  let ?R = "\<Sum>j \<in> dom (profile m) - {i}. announced (profile m j)"
  have zero: "announced (profile m i) = {#}" if "i \<notin> dom (profile m)" using that by (simp add: announced_def domIff)
  have old: "in_use m = announced (profile m i) + ?R"
  proof (cases "i \<in> dom (profile m)")
    case True
    then show ?thesis unfolding in_use_def by (rule sum.remove [OF fin])
  next
    case False
    then show ?thesis using zero by (simp add: in_use_def)
  qed
  have "?R = (\<Sum>j \<in> dom (profile m') - {i}. announced (profile m' j))"
    using p by (intro sum.cong) auto
  moreover have "in_use m' = announced q + (\<Sum>j \<in> dom (profile m') - {i}. announced (profile m' j))"
  proof (cases q)
    case None
    then have "dom (profile m') - {i} = dom (profile m')" using p by auto
    then show ?thesis using None by (simp add: in_use_def announced_def)
  next
    case (Some x)
    then have "i \<in> dom (profile m')" "announced (profile m' i) = announced q" using p by auto
    moreover have "finite (dom (profile m'))" using fin p by (auto intro: finite_subset [of _ "insert i (dom (profile m))"])
    ultimately show ?thesis unfolding in_use_def using sum.remove [of "dom (profile m')" i "\<lambda>j. announced (profile m' j)"] by simp
  qed
  ultimately show ?thesis using old by simp
qed

subsection \<open>The invariant of the running table\<close>

lemma in_use_cong: "profile m' = profile m \<Longrightarrow> in_use m' = in_use m"
  by (simp add: in_use_def)

lemma cache_grows_inv:
  assumes inv: "routing_inv S n m" and m': "route_inv S (in_use m) m'" "same_frame m m'" "cache_grows m m'"
  shows "routing_inv S n m'"
proof -
  have f: "profile m' = profile m" "mc_route_helper m' = mc_route_helper m" using m'(2) by (simp_all add: same_frame_def)
  have "owned m'"
    unfolding owned_def
  proof (intro allI impI)
    fix k r assume "core_at m' k = Some r" "rt_flags r = 0" "mr_type (rt_addr r) AND MR_WITH_NETBITS \<noteq> 0" "live m' (rt_instance r)"
    moreover from this have "core_at m k = Some r" using m'(3) by (fastforce simp: cache_grows_def)
    ultimately show "unat (mr_netbits (rt_addr r)) \<in># announced (profile m' (rt_instance r))"
      using inv f same_frame_live [OF m'(2)] by (simp add: routing_inv_def owned_def)
  qed
  moreover have "generation_ok n m'"
  proof -
    have g: "n < 2 ^ 32" "rh_cache_generation (mc_route_helper m) = of_nat n"
      "\<And>k r. core_at m k = Some r \<Longrightarrow> rt_flags r = 3 \<Longrightarrow> unat (rt_cache_generation r) \<le> n"
      using inv by (auto simp: routing_inv_def generation_ok_def)
    have "unat (of_nat n :: u32) = n" using g(1) by (simp add: unat_of_nat)
    then show ?thesis using g f(2) m'(3) unfolding generation_ok_def cache_grows_def by (metis order_refl)
  qed
  ultimately show ?thesis
    using m'(1) f(1) in_use_cong [OF f(1)] inv by (simp add: routing_inv_def clients_ok_def)
qed

lemma lookup_step:
  assumes inv: "routing_inv S n m" and a: "ip_host addr"
  shows "\<exists>m'. multi_get_instance_by_virtual_addr script now m addr True = Some (m', lookup_result now m addr) \<and> routing_inv S n m'
    \<and> static_at m' = static_at m \<and> same_frame m m'
    \<and> (\<forall>k. mr_type k AND MR_WITH_NETBITS \<noteq> 0 \<longrightarrow> route_at m' k = route_at m k)"
proof -
  have r: "route_inv S (in_use m) m" using inv by (simp add: routing_inv_def)
  obtain m' where m': "multi_get_instance_by_virtual_addr script now m addr True = Some (m', lookup_result now m addr)"
    "route_inv S (in_use m) m'" "same_frame m m'" "static_at m' = static_at m" "cache_grows m m'"
    using lookup_law [OF r a] by blast
  then show ?thesis using cache_grows_inv [OF inv m'(2,3,5)] by (auto simp: cache_grows_def)
qed

lemma lookup_exact_step:
  assumes inv: "routing_inv S n m" and a: "mr_type addr AND MR_WITH_NETBITS = 0"
  shows "\<exists>m' ret. multi_get_instance_by_virtual_addr script now m addr False = Some (m', ret) \<and> routing_inv S n m'"
proof -
  have r: "route_inv S (in_use m) m" using inv by (simp add: routing_inv_def)
  show ?thesis using lookup_exact_law [OF r a, of script now] cache_grows_inv [OF inv] by blast
qed

lemma learn_plain_step:
  assumes inv: "routing_inv S n m" and i: "live m i" and a: "mr_type addr AND MR_WITH_NETBITS = 0"
  shows "\<exists>m' o'. multi_learn_addr script now m i addr 0 = Some (m', o') \<and> routing_inv S n m' \<and> profile m' = profile m
    \<and> (\<forall>k. core_at m' k = (if learns script now m i addr \<and> same_addr addr k then Some (static_route i addr) else core_at m k))"
proof -
  have r: "route_inv S (in_use m) m" using inv by (simp add: routing_inv_def)
  obtain m' o' where m': "multi_learn_addr script now m i addr 0 = Some (m', o')" "route_inv S (in_use m) m'" "same_frame m m'"
    "\<And>k. core_at m' k = (if learns script now m i addr \<and> same_addr addr k then Some (static_route i addr) else core_at m k)"
    using learn_static_law [OF r i, of addr script now] a by blast
  have f: "profile m' = profile m" "mc_route_helper m' = mc_route_helper m" using m'(3) by (simp_all add: same_frame_def)
  have old: "core_at m k = Some r" if "core_at m' k = Some r" "rt_flags r = 3 \<or> mr_type (rt_addr r) AND MR_WITH_NETBITS \<noteq> 0" for k r
    using that m'(4) [of k] a by (auto simp: static_route_def split: if_splits)
  have "owned m'"
    using old inv f same_frame_live [OF m'(3)] unfolding routing_inv_def owned_def by metis
  moreover have "generation_ok n m'" using old inv f(2) unfolding routing_inv_def generation_ok_def by metis
  ultimately have "routing_inv S n m'"
    using m'(2) f(1) in_use_cong [OF f(1)] inv by (simp add: routing_inv_def clients_ok_def)
  then show ?thesis using m' f by blast
qed

text \<open>One network: the helper first, which makes every cached route stale, then the route.\<close>

lemma network_step:
  assumes inv: "route_inv S M m" and i: "live m i" and g: "generation_ok n m" "Suc n < 2 ^ 32"
    and k: "0 \<le> k" "k < 129" and a: "mr_type addr AND MR_WITH_NETBITS \<noteq> 0" "unat (mr_netbits addr) = nat k"
  shows "\<exists>rh m' o'. mroute_helper_add_iroute46 (mc_route_helper m) k = Some rh
    \<and> multi_learn_addr script now (m\<lparr>mc_route_helper := rh\<rparr>) i addr 0 = Some (m', o')
    \<and> route_inv S (add_mset (nat k) M) m' \<and> generation_ok (Suc n) m' \<and> profile m' = profile m \<and> mc_local m' = mc_local m
    \<and> (\<forall>c r. core_at m' c = Some r \<longrightarrow> core_at m c = Some r \<or> r = static_route i addr)
    \<and> (\<forall>c. core_at m' c = (if learns script now (m\<lparr>mc_route_helper := rh\<rparr>) i addr \<and> same_addr addr c
         then Some (static_route i addr) else core_at m c))"
proof -
  have h: "heap_ok m" "table_ok m" "helper_abs (mc_route_helper m) M" using inv by (simp_all add: route_inv_def)
  obtain rh where rh: "mroute_helper_add_iroute46 (mc_route_helper m) k = Some rh" "helper_abs rh (add_mset (nat k) M)"
    "rh_cache_generation rh = rh_cache_generation (mc_route_helper m) + 1"
    using add_iroute_abs [OF h(3) k(1)] k(2) by (auto simp: MR_HELPER_NET_LEN_def)
  let ?m = "m\<lparr>mc_route_helper := rh\<rparr>"
  have core: "core_at ?m = core_at m" and prof: "profile ?m = profile m"
    by (simp_all add: core_at_def route_at_def profile_def fun_eq_iff split: option.split)
  have gen: "rh_cache_generation rh = of_nat (Suc n)" "unat (of_nat (Suc n) :: u32) = Suc n"
    using rh(3) g by (simp_all add: generation_ok_def unat_of_nat del: of_nat_Suc) simp
  have stale: "all_stale ?m"
    unfolding all_stale_def
  proof (intro allI impI)
    fix c r assume "core_at ?m c = Some r" "rt_flags r = 3"
    then have "unat (rt_cache_generation r) \<le> n" using g(1) core by (auto simp: generation_ok_def)
    then show "rt_cache_generation r \<noteq> rh_cache_generation (mc_route_helper ?m)" using gen by auto
  qed
  have "route_ok S (add_mset (nat k) M) ?m r" if "core_at ?m c = Some r" for c r
  proof -
    have "route_ok S M m r" using inv that core by (auto simp: route_inv_def)
    moreover have "rt_flags r = 3 \<Longrightarrow> rt_cache_generation r \<noteq> rh_cache_generation rh"
      using stale that by (auto simp: all_stale_def)
    ultimately show ?thesis using prof by (auto simp: route_ok_def live_def)
  qed
  then have inv': "route_inv S (add_mset (nat k) M) ?m"
    using h rh(2) heap_ok_cong [of ?m m] by (auto simp: route_inv_def table_ok_def)
  obtain m' o' where m': "multi_learn_addr script now ?m i addr 0 = Some (m', o')" "route_inv S (add_mset (nat k) M) m'" "same_frame ?m m'"
    "\<And>c. core_at m' c = (if learns script now ?m i addr \<and> same_addr addr c then Some (static_route i addr) else core_at ?m c)"
    using learn_static_law [OF inv', of i addr script now] i prof stale a(2) by (auto simp: live_def)
  have new: "core_at m c = Some r \<or> r = static_route i addr" if "core_at m' c = Some r" for c r
    using that m'(4) [of c] core by (auto split: if_splits)
  have "generation_ok (Suc n) m'"
    unfolding generation_ok_def
  proof (intro conjI allI impI)
    show "Suc n < 2 ^ 32" by fact
    show "rh_cache_generation (mc_route_helper m') = of_nat (Suc n)" using m'(3) gen by (simp add: same_frame_def)
    fix c r assume "core_at m' c = Some r" "rt_flags r = 3"
    then have "core_at m c = Some r" using new [of c r] by (auto simp: static_route_def)
    then show "unat (rt_cache_generation r) \<le> Suc n" using g(1) \<open>rt_flags r = 3\<close> by (fastforce simp: generation_ok_def)
  qed
  then show ?thesis using rh(1) m'(1,2,3) m'(4) [unfolded core] prof new by (auto simp: same_frame_def)
qed

text \<open>What a run over a client's networks has done to the table.\<close>

definition networks_added :: "nat \<Rightarrow> int list \<Rightarrow> multi_context \<Rightarrow> multi_context \<Rightarrow> bool" where
  "networks_added i ks m m' \<longleftrightarrow> profile m' = profile m \<and> mc_local m' = mc_local m
     \<and> (\<forall>c r. core_at m' c = Some r \<longrightarrow> core_at m c = Some r
          \<or> rt_flags r = 0 \<and> rt_instance r = i \<and> unat (mr_netbits (rt_addr r)) \<in> nat ` set ks)"

lemma networks_added_trans:
  "networks_added i ks m m' \<Longrightarrow> networks_added i ks' m' m'' \<Longrightarrow> set ks \<union> set ks' \<subseteq> set ls \<Longrightarrow> networks_added i ls m m''"
  unfolding networks_added_def by (fastforce simp: subset_iff)

lemma networks_addedI:
  assumes "profile m' = profile m" "mc_local m' = mc_local m"
    "\<forall>c r. core_at m' c = Some r \<longrightarrow> core_at m c = Some r \<or> r = static_route i b" "unat (mr_netbits b) = nat k"
  shows "networks_added i [k] m m'"
  unfolding networks_added_def
proof (intro conjI allI impI)
  fix c r assume "core_at m' c = Some r"
  then have "core_at m c = Some r \<or> r = static_route i b" using assms(3) by blast
  then show "core_at m c = Some r \<or> rt_flags r = 0 \<and> rt_instance r = i \<and> unat (mr_netbits (rt_addr r)) \<in> nat ` set [k]"
    using assms(4) by (auto simp: static_route_def)
qed fact+

lemma learn_in_addr_step:
  assumes "route_inv S M m" "live m i" "generation_ok n m" "Suc n < 2 ^ 32" "0 \<le> k" "k \<le> 32"
  shows "\<exists>rh m' o'. mroute_helper_add_iroute46 (mc_route_helper m) k = Some rh
    \<and> multi_learn_in_addr_t script now (m\<lparr>mc_route_helper := rh\<rparr>) i a k False = Some (m', o')
    \<and> route_inv S (add_mset (nat k) M) m' \<and> generation_ok (Suc n) m' \<and> networks_added i [k] m m'"
proof -
  let ?a = "\<lparr>mr_len = 4, mr_type = 10, mr_netbits = word_of_int k, mr_raw = patch (replicate MR_MAX_ADDR_LEN 0) 0 (be32_bytes a)\<rparr>"
  have nb: "unat (mr_netbits ?a) = nat k" using assms(5,6) by (simp add: unat_eq_nat_uint uint_word_of_int)
  obtain rh m' o' where s: "mroute_helper_add_iroute46 (mc_route_helper m) k = Some rh"
    "multi_learn_addr script now (m\<lparr>mc_route_helper := rh\<rparr>) i ?a 0 = Some (m', o')"
    "route_inv S (add_mset (nat k) M) m'" "generation_ok (Suc n) m'" "profile m' = profile m" "mc_local m' = mc_local m"
    "\<forall>c r. core_at m' c = Some r \<longrightarrow> core_at m c = Some r \<or> r = static_route i ?a"
    using network_step [OF assms(1-5), of ?a script now] assms(6) nb by (auto simp: MR_WITH_NETBITS_def)
  have "multi_learn_in_addr_t script now (m\<lparr>mc_route_helper := rh\<rparr>) i a k False = Some (m', o')"
    using s(2) assms(5) by (simp add: multi_learn_in_addr_t_def mroute_extract_openvpn_sockaddr_def mroute_addr_init_def mr_consts)
  moreover have "networks_added i [k] m m'"
    using s(5-7) nb by (rule networks_addedI)
  ultimately show ?thesis using s by blast
qed

lemma learn_in6_addr_step:
  assumes "route_inv S M m" "live m i" "generation_ok n m" "Suc n < 2 ^ 32" "0 \<le> k" "k \<le> 128" "length a = 16"
  shows "\<exists>rh m' o'. mroute_helper_add_iroute46 (mc_route_helper m) k = Some rh
    \<and> multi_learn_in6_addr script now (m\<lparr>mc_route_helper := rh\<rparr>) i a k False = Some (m', o')
    \<and> route_inv S (add_mset (nat k) M) m' \<and> generation_ok (Suc n) m' \<and> networks_added i [k] m m'"
proof -
  let ?h = "\<lparr>mr_len = 16, mr_type = MR_ADDR_IPV6, mr_netbits = 0, mr_raw = patch (replicate MR_MAX_ADDR_LEN 0) 0 a\<rparr>"
  have host: "ip_host ?h" using assms(7) by (simp add: ip_host_def mr_consts)
  have w: "(of_nat (nat k) :: u8) = word_of_int k" using of_int_of_nat_eq [of "nat k", where 'a = u8] assms(5) by simp
  obtain b where b: "prefix_key (nat k) ?h = Some b" "mr_type b AND MR_WITH_NETBITS \<noteq> 0" "unat (mr_netbits b) = nat k"
    by (rule prefix_key_cong [OF host host, of "nat k"]) (use assms(6) same_addr_laws in auto)
  obtain rh m' o' where s: "mroute_helper_add_iroute46 (mc_route_helper m) k = Some rh"
    "multi_learn_addr script now (m\<lparr>mc_route_helper := rh\<rparr>) i b 0 = Some (m', o')"
    "route_inv S (add_mset (nat k) M) m'" "generation_ok (Suc n) m'" "profile m' = profile m" "mc_local m' = mc_local m"
    "\<forall>c r. core_at m' c = Some r \<longrightarrow> core_at m c = Some r \<or> r = static_route i b"
    using network_step [OF assms(1-5), of b script now] assms(6) b by auto
  have "multi_learn_in6_addr script now (m\<lparr>mc_route_helper := rh\<rparr>) i a k False = Some (m', o')"
    using s(2) b(1) assms(5) by (simp add: multi_learn_in6_addr_def mroute_addr_init_def prefix_key_def w Let_def)
  moreover have "networks_added i [k] m m'"
    using s(5-7) b(3) by (rule networks_addedI)
  ultimately show ?thesis using s by blast
qed

lemma add_iroutes_loop_law:
  "route_inv S M m \<Longrightarrow> live m i \<Longrightarrow> generation_ok n m \<Longrightarrow> n + length irs < 2 ^ 32 \<Longrightarrow>
   \<forall>ir \<in> set irs. 0 \<le> ir_netbits ir \<and> ir_netbits ir \<le> 32 \<Longrightarrow>
   \<exists>m'. add_iroutes_loop script now m i irs = Some m' \<and> route_inv S (M + mset (map nat (map ir_netbits irs))) m'
     \<and> generation_ok (n + length irs) m' \<and> networks_added i (map ir_netbits irs) m m'"
proof (induction irs arbitrary: M m n)
  case Nil
  then show ?case by (auto simp: networks_added_def)
next
  case (Cons ir irs)
  obtain rh m1 o1 where s: "mroute_helper_add_iroute46 (mc_route_helper m) (ir_netbits ir) = Some rh"
    "multi_learn_in_addr_t (script (length irs)) now (m\<lparr>mc_route_helper := rh\<rparr>) i (ir_network ir) (ir_netbits ir) False = Some (m1, o1)"
    "route_inv S (add_mset (nat (ir_netbits ir)) M) m1" "generation_ok (Suc n) m1" "networks_added i [ir_netbits ir] m m1"
    using learn_in_addr_step [OF Cons.prems(1-3), of "ir_netbits ir" "script (length irs)" now "ir_network ir"] Cons.prems(4,5) by auto
  have "live m1 i" using s(5) Cons.prems(2) by (simp add: networks_added_def live_def)
  then obtain m' where m': "add_iroutes_loop script now m1 i irs = Some m'"
    "route_inv S (add_mset (nat (ir_netbits ir)) M + mset (map nat (map ir_netbits irs))) m'"
    "generation_ok (Suc n + length irs) m'" "networks_added i (map ir_netbits irs) m1 m'"
    using Cons.IH [OF s(3) _ s(4)] Cons.prems(4,5) by auto
  have "networks_added i (map ir_netbits (ir # irs)) m m'" by (rule networks_added_trans [OF s(5) m'(4)]) auto
  then show ?case using s(1,2) m' by (simp add: add.commute)
qed

lemma add_iroutes6_loop_law:
  "route_inv S M m \<Longrightarrow> live m i \<Longrightarrow> generation_ok n m \<Longrightarrow> n + length irs < 2 ^ 32 \<Longrightarrow>
   \<forall>ir \<in> set irs. 0 \<le> sint (ir6_netbits ir) \<and> sint (ir6_netbits ir) \<le> 128 \<and> length (ir6_network ir) = 16 \<Longrightarrow>
   \<exists>m'. add_iroutes6_loop script now m i irs = Some m' \<and> route_inv S (M + mset (map nat (map (\<lambda>ir. sint (ir6_netbits ir)) irs))) m'
     \<and> generation_ok (n + length irs) m' \<and> networks_added i (map (\<lambda>ir. sint (ir6_netbits ir)) irs) m m'"
proof (induction irs arbitrary: M m n)
  case Nil
  then show ?case by (auto simp: networks_added_def)
next
  case (Cons ir irs)
  let ?k = "sint (ir6_netbits ir)"
  obtain rh m1 o1 where s: "mroute_helper_add_iroute46 (mc_route_helper m) ?k = Some rh"
    "multi_learn_in6_addr (script (length irs)) now (m\<lparr>mc_route_helper := rh\<rparr>) i (ir6_network ir) ?k False = Some (m1, o1)"
    "route_inv S (add_mset (nat ?k) M) m1" "generation_ok (Suc n) m1" "networks_added i [?k] m m1"
    using learn_in6_addr_step [OF Cons.prems(1-3), of ?k "ir6_network ir" "script (length irs)" now] Cons.prems(4,5) by auto
  have "live m1 i" using s(5) Cons.prems(2) by (simp add: networks_added_def live_def)
  then obtain m' where m': "add_iroutes6_loop script now m1 i irs = Some m'"
    "route_inv S (add_mset (nat ?k) M + mset (map nat (map (\<lambda>ir. sint (ir6_netbits ir)) irs))) m'"
    "generation_ok (Suc n + length irs) m'" "networks_added i (map (\<lambda>ir. sint (ir6_netbits ir)) irs) m1 m'"
    using Cons.IH [OF s(3) _ s(4)] Cons.prems(4,5) by auto
  have "networks_added i (map (\<lambda>ir. sint (ir6_netbits ir)) (ir # irs)) m m'" by (rule networks_added_trans [OF s(5) m'(4)]) auto
  then show ?case using s(1,2) m' by (simp add: add.commute)
qed

text \<open>The number of changes of the helper that a client's networks make.\<close>

definition changes :: "multi_instance \<Rightarrow> nat" where
  "changes mi = (if mi_tunnel_type mi = DEV_TYPE_TUN then length (iroute_lengths mi) else 0)"

text \<open>Before the loops, the client is marked as one that has announced its networks.\<close>

lemma start_iroutes_law:
  assumes inv: "routing_inv S n m" and mio: "mc_instances m i = Some mio" "\<not> mi_halt mio"
  defines "m' \<equiv> set_instance i (Some (mio\<lparr>mi_did_iroutes := True\<rparr>)) m"
  shows "route_inv S (in_use m) m'" "generation_ok n m'" "core_at m' = core_at m" "live m' j = live m j"
    "profile m' = (profile m)(i \<mapsto> (the (profile m i))\<lparr>mi_did_iroutes := True\<rparr>)"
proof -
  have r: "route_inv S (in_use m) m" and h: "heap_ok m" using inv by (simp_all add: routing_inv_def route_inv_def)
  show prof: "profile m' = (profile m)(i \<mapsto> (the (profile m i))\<lparr>mi_did_iroutes := True\<rparr>)"
    using mio by (simp add: profile_def set_instance_def fun_eq_iff m'_def)
  have p: "profile m i \<noteq> None" using mio by (simp add: profile_def)
  have lv: "live m' j = live m j" for j using prof p by (simp add: live_def)
  then show "live m' j = live m j" .
  show core: "core_at m' = core_at m" by (simp add: core_at_def route_at_def set_instance_def fun_eq_iff m'_def split: option.split)
  have refs: "routes_of m' = routes_of m" by (simp add: routes_of_def set_instance_def fun_eq_iff m'_def)
  have "heap_ok m'"
    unfolding heap_ok_def refs
  proof (intro conjI)
    show "finite (dom (mc_routes m'))" "finite (dom (mc_instances m'))" using h by (simp_all add: heap_ok_def set_instance_def m'_def)
    show "\<forall>p r. mc_routes m' p = Some r \<longrightarrow> mc_instances m' (rt_instance r) \<noteq> None"
      using heap_ok_instance [OF h] by (simp add: set_instance_def m'_def)
    show "\<forall>i mi. mc_instances m' i = Some mi \<longrightarrow> mi_route_count mi = int (card (routes_of m i))
        \<and> mi_refcount mi = int (card (routes_of m i)) + (if mi_halt mi then 0 else 1) \<and> 0 < mi_refcount mi"
      using heap_ok_counts [OF h] heap_ok_counts [OF h mio(1)] by (simp add: set_instance_def m'_def)
  qed
  moreover have "table_ok m'" using r by (simp add: route_inv_def table_ok_def set_instance_def m'_def)
  moreover have "prefix_match m' a ns = prefix_match m a ns" for a ns
    using core lv by (intro prefix_match_cong ext static_at_cong) simp_all
  ultimately show "route_inv S (in_use m) m'"
    using r core lv by (simp add: route_inv_def route_ok_def) (simp add: set_instance_def m'_def)
  show "generation_ok n m'" using inv core by (simp add: routing_inv_def generation_ok_def set_instance_def m'_def)
qed

lemma add_iroutes_step:
  assumes inv: "routing_inv S n m" and p: "profile m i = Some mi" and fresh: "\<not> mi_did_iroutes mi" and bound: "n + changes mi < 2 ^ 32"
  shows "\<exists>m'. multi_add_iroutes script script6 now m i = Some m' \<and> routing_inv S (n + changes mi) m'"
proof -
  obtain mio where mio: "mc_instances m i = Some mio" "\<not> mi_halt mio" "mi = mio\<lparr>mi_refcount := 0, mi_route_count := 0\<rparr>"
    using p by (auto simp: profile_def split: option.splits if_splits)
  have tt: "mi_tunnel_type mio = mi_tunnel_type mi" "mi_iroutes mio = mi_iroutes mi" "mi_iroutes_ipv6 mio = mi_iroutes_ipv6 mi"
    using mio(3) by simp_all
  show ?thesis
  proof (cases "mi_tunnel_type mi = DEV_TYPE_TUN")
    case False
    then show ?thesis using mio(1) inv tt by (simp add: multi_add_iroutes_def changes_def)
  next
    case True
    let ?m = "set_instance i (Some (mio\<lparr>mi_did_iroutes := True\<rparr>)) m" and ?q = "mi\<lparr>mi_did_iroutes := True\<rparr>"
    have r: "route_inv S (in_use m) m" and h: "heap_ok m" using inv by (simp_all add: routing_inv_def route_inv_def)
    note start = start_iroutes_law [OF inv mio(1,2)]
    have prof: "profile ?m = (profile m)(i \<mapsto> ?q)" using start(5) p by simp
    have lv: "live ?m j = live m j" for j by (rule start(4))
    note inv0 = start(1) and gen0 = start(2) and core = start(3)
    have cl: "client_ok mi" using inv p by (auto simp: routing_inv_def clients_ok_def)
    have len: "length (mi_iroutes mi) + length (mi_iroutes_ipv6 mi) = changes mi" using True by (simp add: changes_def iroute_lengths_def)
    have li: "live ?m i" using lv p by (simp add: live_def)
    obtain m1 where m1: "add_iroutes_loop script now ?m i (mi_iroutes mi) = Some m1"
      "route_inv S (in_use m + mset (map nat (map ir_netbits (mi_iroutes mi)))) m1"
      "generation_ok (n + length (mi_iroutes mi)) m1" "networks_added i (map ir_netbits (mi_iroutes mi)) ?m m1"
      using add_iroutes_loop_law [OF inv0 li gen0, of "mi_iroutes mi" script now] bound len cl by (auto simp: client_ok_def)
    have l1: "live m1 i" using m1(4) li by (simp add: networks_added_def live_def)
    let ?ks = "map (\<lambda>ir. sint (ir6_netbits ir)) (mi_iroutes_ipv6 mi)"
    obtain m2 where m2: "add_iroutes6_loop script6 now m1 i (mi_iroutes_ipv6 mi) = Some m2"
      "route_inv S (in_use m + mset (map nat (map ir_netbits (mi_iroutes mi))) + mset (map nat ?ks)) m2"
      "generation_ok (n + changes mi) m2" "networks_added i ?ks m1 m2"
      using add_iroutes6_loop_law [OF m1(2) l1 m1(3), of "mi_iroutes_ipv6 mi" script6 now] bound len cl by (auto simp: client_ok_def add.assoc)
    have added: "networks_added i (iroute_lengths mi) ?m m2"
      by (rule networks_added_trans [OF m1(4) m2(4)]) (auto simp: iroute_lengths_def)
    then have prof2: "profile m2 = (profile m)(i \<mapsto> ?q)" using prof by (simp add: networks_added_def)
    have ann: "announced (Some ?q) = mset (map nat (iroute_lengths mi))" using True by (simp add: announced_def iroute_lengths_def)
    have "in_use m2 = in_use m + mset (map nat (iroute_lengths mi))"
      using in_use_update [OF finite_profile [OF h] prof2] ann p fresh by (simp add: announced_def)
    then have "route_inv S (in_use m2) m2" using m2(2) by (simp add: iroute_lengths_def add.assoc)
    moreover have "owned m2"
      unfolding owned_def
    proof (intro allI impI)
      fix c r assume r: "core_at m2 c = Some r" "rt_flags r = 0" "mr_type (rt_addr r) AND MR_WITH_NETBITS \<noteq> 0" "live m2 (rt_instance r)"
      show "unat (mr_netbits (rt_addr r)) \<in># announced (profile m2 (rt_instance r))"
      proof (cases "core_at m c = Some r")
        case True
        have "live m (rt_instance r)" using r(4) prof2 p by (auto simp: live_def split: if_splits)
        then have "unat (mr_netbits (rt_addr r)) \<in># announced (profile m (rt_instance r))"
          using inv True r by (auto simp: routing_inv_def owned_def)
        moreover from this have "rt_instance r \<noteq> i" using p fresh by (auto simp: announced_def)
        ultimately show ?thesis using prof2 by simp
      next
        case False
        then have "rt_instance r = i" "unat (mr_netbits (rt_addr r)) \<in> nat ` set (iroute_lengths mi)"
          using added r(1) core by (auto simp: networks_added_def)
        then show ?thesis using prof2 ann by simp
      qed
    qed
    moreover have "clients_ok m2"
      using inv prof2 cl by (auto simp: routing_inv_def clients_ok_def client_ok_def)
    ultimately have "routing_inv S (n + changes mi) m2" using m2(3) by (simp add: routing_inv_def)
    moreover have "multi_add_iroutes script script6 now m i = Some m2"
      using mio(1) tt True m1(1) m2(1) by (simp add: multi_add_iroutes_def)
    ultimately show ?thesis by blast
  qed
qed

subsection \<open>Clients come and go\<close>

text \<open>
  The steps of \<open>multi_create_instance\<close> and \<open>multi_close_instance\<close> on this state: a new client has
  one reference; a closing client halts, takes its networks from the helper, and drops that
  reference.  Its routes stay in the table until they are reaped.
\<close>

definition new_client :: "multi_instance \<Rightarrow> bool" where
  "new_client mi \<longleftrightarrow> \<not> mi_halt mi \<and> mi_refcount mi = 1 \<and> mi_route_count mi = 0 \<and> \<not> mi_did_iroutes mi \<and> client_ok mi"

definition close_client :: "multi_context \<Rightarrow> nat \<Rightarrow> multi_context option" where
  "close_client m i = do {
     mi \<leftarrow> mc_instances m i;
     ASSERT (\<not> mi_halt mi);
     let m = set_instance i (Some (mi\<lparr>mi_halt := True\<rparr>)) m;
     m \<leftarrow> (if mi_did_iroutes mi
           then do {
             m \<leftarrow> multi_del_iroutes m i;
             mi \<leftarrow> mc_instances m i;
             Some (set_instance i (Some (mi\<lparr>mi_did_iroutes := False\<rparr>)) m) }
           else Some m);
     multi_instance_dec_refcount m i }"

lemma del_iroutes_loop_law:
  "helper_abs rh M \<Longrightarrow> mset (map nat ns) \<subseteq># M \<Longrightarrow> \<forall>n \<in> set ns. 0 \<le> n \<and> n < 129 \<Longrightarrow>
   \<exists>rh'. del_iroutes_loop rh ns = Some rh' \<and> helper_abs rh' (M - mset (map nat ns))
     \<and> rh_cache_generation rh' = rh_cache_generation rh + of_nat (length ns)"
proof (induction ns arbitrary: rh M)
  case (Cons n ns)
  have "nat n \<in># M" using Cons.prems(2) by (auto dest: mset_subset_eqD)
  then obtain rh1 where r: "mroute_helper_del_iroute46 rh n = Some rh1" "helper_abs rh1 (M - {#nat n#})"
    "rh_cache_generation rh1 = rh_cache_generation rh + 1"
    using del_iroute_abs [OF Cons.prems(1), of n] Cons.prems(3) by (auto simp: MR_HELPER_NET_LEN_def)
  have "mset (map nat ns) \<subseteq># M - {#nat n#}" using Cons.prems(2) by (simp add: insert_subset_eq_iff)
  then obtain rh' where "del_iroutes_loop rh1 ns = Some rh'" "helper_abs rh' (M - {#nat n#} - mset (map nat ns))"
    "rh_cache_generation rh' = rh_cache_generation rh1 + of_nat (length ns)"
    using Cons.IH [OF r(2)] Cons.prems(3) by auto
  then show ?case using r by (simp add: add.assoc)
qed simp

text \<open>Any state in which one client less is alive and its lengths are gone.\<close>

lemma close_frame:
  assumes inv: "routing_inv S n m" and p: "profile m i = Some mi"
    and h: "heap_ok m'" "table_ok m'" and core: "core_at m' = core_at m" and prof: "profile m' = (profile m)(i := None)"
    and rh: "helper_abs (mc_route_helper m') (in_use m - announced (profile m i))"
      "rh_cache_generation (mc_route_helper m') = of_nat (n + d)" "n + d < 2 ^ 32"
      "d = 0 \<longrightarrow> announced (profile m i) = {#}"
  shows "routing_inv S (n + d) m'"
proof -
  have hp: "heap_ok m" using inv by (simp add: routing_inv_def route_inv_def)
  have use: "in_use m' = in_use m - announced (profile m i)"
    using in_use_update [OF finite_profile [OF hp] prof] by (simp add: announced_def)
  have lv: "live m' j \<longleftrightarrow> live m j \<and> j \<noteq> i" for j using prof by (simp add: live_def)
  have own: "unat (mr_netbits (rt_addr r)) \<in># announced (profile m (rt_instance r))"
    if "core_at m k = Some r" "rt_flags r = 0" "mr_type (rt_addr r) AND MR_WITH_NETBITS \<noteq> 0" "live m (rt_instance r)" for k r
    using inv that by (auto simp: routing_inv_def owned_def)
  have own': "unat (mr_netbits (rt_addr r)) \<in># announced (profile m' (rt_instance r))"
    if "core_at m k = Some r" "rt_flags r = 0" "mr_type (rt_addr r) AND MR_WITH_NETBITS \<noteq> 0" "live m' (rt_instance r)" for k r
    using own that lv prof by auto
  have ok: "route_ok S (in_use m') m' r" if c: "core_at m k = Some r" for k r
  proof -
    have r: "route_ok S (in_use m) m r" using inv c by (auto simp: routing_inv_def route_inv_def)
    then consider "rt_flags r = 0" | "rt_flags r = 3" "ip_host (rt_addr r)"
      "S \<longrightarrow> rt_cache_generation r = rh_cache_generation (mc_route_helper m) \<longrightarrow> live m (rt_instance r)
         \<longrightarrow> prefix_match m (rt_addr r) all_lengths = Some (rt_instance r)"
      by (auto simp: route_ok_def)
    then show ?thesis
    proof cases
      case 1
      have "unat (mr_netbits (rt_addr r)) \<in># in_use m'" if "mr_type (rt_addr r) AND MR_WITH_NETBITS \<noteq> 0" "live m' (rt_instance r)"
        using in_use_member [OF h(1) _ own' [OF c 1 that]] that(2) by (simp add: live_def)
      then show ?thesis using 1 by (simp add: route_ok_def)
    next
      case 2
      have "unat (rt_cache_generation r) \<le> n" using inv c 2 by (auto simp: routing_inv_def generation_ok_def)
      moreover have "unat (of_nat (n + d) :: u32) = n + d" using rh(3) by (simp add: unat_of_nat del: of_nat_add)
      ultimately have d: "rt_cache_generation r = rh_cache_generation (mc_route_helper m') \<Longrightarrow> d = 0" using rh(2) by auto
      have "prefix_match m' (rt_addr r) all_lengths = prefix_match m (rt_addr r) all_lengths" if d0: "d = 0"
      proof (rule prefix_match_networks [OF _ 2(2)])
        fix k' :: mroute_addr assume nb: "mr_type k' AND MR_WITH_NETBITS \<noteq> 0"
        show "static_at m' k' = static_at m k'"
        proof (cases "core_at m k'")
          case None
          then show ?thesis using core by (simp add: static_at_def)
        next
          case (Some s)
          have t: "table_ok m" using inv by (simp add: routing_inv_def route_inv_def)
          have "mr_type (rt_addr s) = mr_type k'"
            using core_at_addr [OF t Some] by (simp add: mroute_addr_compare_function_def mroute_addr_equal_iff)
          then have "rt_flags s = 0 \<Longrightarrow> live m (rt_instance s) \<Longrightarrow> rt_instance s \<noteq> i"
            using own [OF Some] nb rh(4) d0 by auto
          then show ?thesis using core Some lv by (auto simp: static_at_def)
        qed
      qed (simp add: all_lengths_def)
      moreover have "rh_cache_generation (mc_route_helper m') = rh_cache_generation (mc_route_helper m)" if "d = 0"
        using rh(2) that inv by (simp add: routing_inv_def generation_ok_def)
      ultimately have "prefix_match m' (rt_addr r) all_lengths = Some (rt_instance r)"
        if "S" "rt_cache_generation r = rh_cache_generation (mc_route_helper m')" "live m' (rt_instance r)"
        using 2(3) d [OF that(2)] lv that by simp
      then show ?thesis using 2(1,2) by (simp add: route_ok_def)
    qed
  qed
  have "route_inv S (in_use m') m'" using h rh(1) use ok core by (auto simp: route_inv_def)
  moreover have "owned m'" using own' core by (simp add: owned_def)
  moreover have "clients_ok m'" using inv prof by (auto simp: routing_inv_def clients_ok_def split: if_splits)
  moreover have "generation_ok (n + d) m'"
    using inv core rh(2,3) by (fastforce simp: routing_inv_def generation_ok_def)
  ultimately show ?thesis by (simp add: routing_inv_def)
qed

lemma close_step:
  assumes inv: "routing_inv S n m" and p: "profile m i = Some mi" and bound: "n + changes mi < 2 ^ 32"
  shows "\<exists>m'. close_client m i = Some m' \<and> profile m' = (profile m)(i := None) \<and> (\<exists>d. routing_inv S (n + d) m' \<and> d \<le> changes mi)"
proof -
  obtain mio where mio: "mc_instances m i = Some mio" "\<not> mi_halt mio" "mi = mio\<lparr>mi_refcount := 0, mi_route_count := 0\<rparr>"
    using p by (auto simp: profile_def split: option.splits if_splits)
  have tt: "mi_tunnel_type mio = mi_tunnel_type mi" "mi_iroutes mio = mi_iroutes mi" "mi_iroutes_ipv6 mio = mi_iroutes_ipv6 mi"
    "mi_did_iroutes mio = mi_did_iroutes mi"
    using mio(3) by simp_all
  have ok: "heap_ok m" "table_ok m" "helper_abs (mc_route_helper m) (in_use m)" using inv by (simp_all add: routing_inv_def route_inv_def)
  have gen: "rh_cache_generation (mc_route_helper m) = of_nat n" "n < 2 ^ 32" using inv by (simp_all add: routing_inv_def generation_ok_def)
  have cl: "client_ok mi" using inv p by (auto simp: routing_inv_def clients_ok_def)
  have sub: "announced (profile m i) \<subseteq># in_use m"
  proof -
    have "in_use m = announced (profile m i) + (\<Sum>j \<in> dom (profile m) - {i}. announced (profile m j))"
      unfolding in_use_def using finite_profile [OF ok(1)] p by (intro sum.remove) auto
    then show ?thesis by simp
  qed
  let ?d = "if mi_did_iroutes mi then changes mi else 0"
  let ?mh = "mio\<lparr>mi_halt := True, mi_did_iroutes := False, mi_refcount := mi_refcount mio - 1\<rparr>"
  obtain rh where rh: "helper_abs rh (in_use m - announced (profile m i))" "rh_cache_generation rh = of_nat (n + ?d)"
    and run: "close_client m i = Some ((set_instance i (if mi_refcount mio - 1 \<le> 0 then None else Some ?mh) m)\<lparr>mc_route_helper := rh\<rparr>)"
  proof (cases "mi_did_iroutes mi \<and> mi_tunnel_type mi = DEV_TYPE_TUN")
    case True
    let ?as = "map ir_netbits (mi_iroutes mi)" and ?bs = "map (\<lambda>ir. sint (ir6_netbits ir)) (mi_iroutes_ipv6 mi)"
    have ann: "announced (profile m i) = mset (map nat ?as) + mset (map nat ?bs)"
      using True p by (simp add: announced_def iroute_lengths_def)
    obtain r1 where r1: "del_iroutes_loop (mc_route_helper m) ?as = Some r1" "helper_abs r1 (in_use m - mset (map nat ?as))"
      "rh_cache_generation r1 = rh_cache_generation (mc_route_helper m) + of_nat (length ?as)"
      using del_iroutes_loop_law [OF ok(3), of ?as] sub ann cl
      by (force simp: client_ok_def intro: subset_mset.order_trans [OF mset_subset_eq_add_left])
    have "mset (map nat ?bs) \<subseteq># in_use m - mset (map nat ?as)"
      using sub unfolding ann subseteq_mset_def by (metis add_le_imp_le_diff add.commute count_diff count_union)
    then obtain r2 where r2: "del_iroutes_loop r1 ?bs = Some r2" "helper_abs r2 (in_use m - mset (map nat ?as) - mset (map nat ?bs))"
      "rh_cache_generation r2 = rh_cache_generation r1 + of_nat (length ?bs)"
      using del_iroutes_loop_law [OF r1(2), of ?bs] cl by (force simp: client_ok_def)
    have ch: "changes mi = length ?as + length ?bs" using True by (simp add: changes_def iroute_lengths_def)
    show thesis
    proof (rule that)
      show "helper_abs r2 (in_use m - announced (profile m i))" using r2(2) ann by (simp add: diff_diff_add)
      show "rh_cache_generation r2 = of_nat (n + ?d)" using r2(3) r1(3) gen(1) True ch by simp
      show "close_client m i = Some ((set_instance i (if mi_refcount mio - 1 \<le> 0 then None else Some ?mh) m)\<lparr>mc_route_helper := r2\<rparr>)"
        using mio tt True r1(1) r2(1)
        by (simp add: close_client_def multi_del_iroutes_def multi_instance_dec_refcount_def set_instance_def Let_def)
    qed
  next
    case False
    then have ann: "announced (profile m i) = {#}" using p by (auto simp: announced_def)
    have d: "?d = 0" using False by (auto simp: changes_def)
    have same: "\<not> mi_did_iroutes mio \<Longrightarrow> mio\<lparr>mi_halt := True, mi_did_iroutes := False, mi_refcount := x\<rparr> = mio\<lparr>mi_halt := True, mi_refcount := x\<rparr>" for x
      by (cases mio) simp
    show thesis
    proof (rule that)
      show "helper_abs (mc_route_helper m) (in_use m - announced (profile m i))" using ok(3) ann by simp
      show "rh_cache_generation (mc_route_helper m) = of_nat (n + ?d)" using gen(1) d by simp
      show "close_client m i = Some ((set_instance i (if mi_refcount mio - 1 \<le> 0 then None else Some ?mh) m)\<lparr>mc_route_helper := mc_route_helper m\<rparr>)"
        using mio tt False
        by (cases "mi_did_iroutes mio")
          (simp_all add: same close_client_def multi_del_iroutes_def multi_instance_dec_refcount_def set_instance_def Let_def)
    qed
  qed
  let ?m' = "(set_instance i (if mi_refcount mio - 1 \<le> 0 then None else Some ?mh) m)\<lparr>mc_route_helper := rh\<rparr>"
  have core: "core_at ?m' = core_at m" by (simp add: core_at_def route_at_def set_instance_def fun_eq_iff split: option.split)
  have prof: "profile ?m' = (profile m)(i := None)" by (simp add: profile_def set_instance_def fun_eq_iff)
  have refs: "routes_of ?m' = routes_of m" by (simp add: routes_of_def set_instance_def fun_eq_iff)
  note counts = heap_ok_counts [OF ok(1) mio(1)]
  have "heap_ok ?m'"
    unfolding heap_ok_def refs
  proof (intro conjI allI impI)
    show "finite (dom (mc_routes ?m'))" "finite (dom (mc_instances ?m'))" using ok(1) by (simp_all add: heap_ok_def set_instance_def)
    fix q r assume "mc_routes ?m' q = Some r"
    then have r: "mc_routes m q = Some r" by (simp add: set_instance_def)
    show "mc_instances ?m' (rt_instance r) \<noteq> None"
    proof (cases "rt_instance r = i")
      case True
      then have "q \<in> routes_of m i" using r by (auto simp: routes_of_def)
      then have "0 < card (routes_of m i)" using finite_routes_of [OF ok(1), of i] card_gt_0_iff by blast
      then show ?thesis using True counts mio(2) by (simp add: set_instance_def)
    next
      case False
      then show ?thesis using heap_ok_instance [OF ok(1) r] by (simp add: set_instance_def)
    qed
  next
    fix j mj assume j: "mc_instances ?m' j = Some mj"
    have "mi_route_count mj = int (card (routes_of m j))
      \<and> mi_refcount mj = int (card (routes_of m j)) + (if mi_halt mj then 0 else 1) \<and> 0 < mi_refcount mj"
    proof (cases "j = i")
      case True
      then have "mj = ?mh" "0 < mi_refcount ?mh" using j by (simp_all add: set_instance_def split: if_splits)
      then show ?thesis using True counts mio(2) by simp
    next
      case False
      then have "mc_instances m j = Some mj" using j by (simp add: set_instance_def)
      then show ?thesis using heap_ok_counts [OF ok(1)] by simp
    qed
    then show "mi_route_count mj = int (card (routes_of m j))"
      "mi_refcount mj = int (card (routes_of m j)) + (if mi_halt mj then 0 else 1)" "0 < mi_refcount mj" by blast+
  qed
  moreover have "table_ok ?m'" using ok(2) by (simp add: table_ok_def set_instance_def)
  moreover have "?d = 0 \<longrightarrow> announced (profile m i) = {#}"
    using p by (auto simp: announced_def changes_def)
  moreover have "n + ?d < 2 ^ 32" using bound gen(2) by simp
  ultimately have "routing_inv S (n + ?d) ?m'"
    using close_frame [OF inv p _ _ core prof, of ?d] rh by simp
  then show ?thesis using run prof by (intro exI [of _ ?m'] conjI exI [of _ ?d]) simp_all
qed

subsection \<open>Reaping\<close>

text \<open>The bodies of the loops of \<open>multi_reap_range\<close> and \<open>check_stale_routes\<close>; see \<^const>\<open>purge_loop\<close>.\<close>

definition reap_step :: "int \<Rightarrow> multi_context \<Rightarrow> nat \<Rightarrow> (multi_context \<times> bool) option" where
  "reap_step now m p = do {
     r \<leftarrow> mc_routes m p;
     d \<leftarrow> multi_route_defined now m r;
     (if \<not> d then do { m \<leftarrow> multi_route_del m p; Some (m, True) } else Some (m, False)) }"

definition stale_step :: "int \<Rightarrow> int \<Rightarrow> multi_context \<Rightarrow> nat \<Rightarrow> (multi_context \<times> bool) option" where
  "stale_step now ageing_time m p = do {
     r \<leftarrow> mc_routes m p;
     d \<leftarrow> multi_route_defined now m r;
     (if d \<and> now - rt_last_reference r \<ge> ageing_time
      then do { m \<leftarrow> multi_route_del m p; Some (m, True) } else Some (m, False)) }"

definition multi_reap_range :: "int \<Rightarrow> multi_context \<Rightarrow> int \<Rightarrow> int \<Rightarrow> multi_context option" where
  "multi_reap_range now m start_bucket end_bucket = do {
     let (start_bucket, end_bucket) = (if start_bucket < 0 then (0, hash_n_buckets (mc_vhash m)) else (start_bucket, end_bucket));
     hi \<leftarrow> hash_iterator_init_range (mc_vhash m) start_bucket end_bucket;
     (m, h, hi) \<leftarrow> purge_loop (reap_step now) m (mc_vhash m) hi;
     Some (m\<lparr>mc_vhash := fst (hash_iterator_free h hi)\<rparr>) }"

definition multi_reap_all :: "int \<Rightarrow> multi_context \<Rightarrow> multi_context option" where
  "multi_reap_all now m = multi_reap_range now m (- 1) 0"

definition check_stale_routes :: "int \<Rightarrow> int \<Rightarrow> multi_context \<Rightarrow> multi_context option" where
  "check_stale_routes now ageing_time m = do {
     hi \<leftarrow> hash_iterator_init_range (mc_vhash m) 0 (hash_n_buckets (mc_vhash m));
     (m, h, hi) \<leftarrow> purge_loop (stale_step now ageing_time) m (mc_vhash m) hi;
     Some (m\<lparr>mc_vhash := fst (hash_iterator_free h hi)\<rparr>) }"

record multi_reap =
  mr_bucket_base :: int
  mr_buckets_per_pass :: int
  mr_last_call :: int

definition multi_reap_new :: "int \<Rightarrow> int \<Rightarrow> multi_reap" where
  "multi_reap_new now buckets_per_pass = \<lparr>mr_bucket_base = 0, mr_buckets_per_pass = buckets_per_pass, mr_last_call = now\<rparr>"

definition multi_reap_process_dowork :: "int \<Rightarrow> multi_context \<Rightarrow> multi_reap \<Rightarrow> (multi_context \<times> multi_reap) option" where
  "multi_reap_process_dowork now m mr = do {
     let mr = (if mr_bucket_base mr \<ge> hash_n_buckets (mc_vhash m) then mr\<lparr>mr_bucket_base := 0\<rparr> else mr);
     m \<leftarrow> multi_reap_range now m (mr_bucket_base mr) (mr_bucket_base mr + mr_buckets_per_pass mr);
     Some (m, mr\<lparr>mr_bucket_base := mr_bucket_base mr + mr_buckets_per_pass mr, mr_last_call := now\<rparr>) }"

definition multi_reap_process :: "int \<Rightarrow> multi_context \<Rightarrow> multi_reap \<Rightarrow> (multi_context \<times> multi_reap) option" where
  "multi_reap_process now m mr = (if mr_last_call mr \<noteq> now then multi_reap_process_dowork now m mr else Some (m, mr))"

definition reap_buckets_per_pass :: "int \<Rightarrow> int" where
  "reap_buckets_per_pass n_buckets = constrain_int (n_buckets div 256) 16 1024"

text \<open>Every pointer occurs once in the table.\<close>

lemma distinct_map_filter:
  "(\<And>x. x \<in> set xs \<Longrightarrow> length (filter (\<lambda>y. f y = f x) xs) \<le> 1) \<Longrightarrow> distinct (map f xs)"
proof (induction xs)
  case (Cons x xs)
  have "filter (\<lambda>y. f y = f x) xs = []" using Cons.prems [of x] by simp
  then have "f x \<notin> f ` set xs" by (auto simp: filter_empty_conv)
  moreover have "distinct (map f xs)"
  proof (rule Cons.IH)
    fix z assume "z \<in> set xs"
    then have "length (filter (\<lambda>y. f y = f z) (x # xs)) \<le> 1" using Cons.prems by simp
    then show "length (filter (\<lambda>y. f y = f z) xs) \<le> 1" by (simp split: if_splits)
  qed
  ultimately show ?case by simp
qed simp

lemma element_route:
  assumes t: "table_ok m" and b: "b < length (h_buckets (mc_vhash m))" and x: "x \<in> set (h_buckets (mc_vhash m) ! b)"
  obtains r where "mc_routes m (he_value x) = Some r" "matches (mc_vhash m) (rt_addr r) x" "key_bucket (mc_vhash m) (rt_addr r) = b"
proof -
  let ?h = "mc_vhash m"
  have wf: "hash_wf ?h" and cmp: "h_compare_function ?h = same_addr" using t by (simp_all add: table_ok_def)
  obtain k where k: "he_key x = Some k" "key_bucket ?h k = b" using bucket_fits [OF wf b x] by (auto simp: fits_bucket_def)
  have m: "matches ?h k x" using k(1) cmp_refl [OF wf] by (simp add: matches_def)
  then have "x \<in> set (hits ?h k)" using x k(2) by (simp add: hits_def)
  then have "hits ?h k = [x]" using hits_one [OF wf, of k] by (cases "hits ?h k") auto
  then have "hash_entry ?h k = Some (he_value x)" by (simp add: hash_entry_def)
  then obtain r where r: "mc_routes m (he_value x) = Some r" "same_addr (rt_addr r) k" by (rule table_ok_entry [OF t])
  show thesis
  proof (rule that [OF r(1)])
    show "matches ?h (rt_addr r) x" using k(1) r(2) cmp by (simp add: matches_def)
    show "key_bucket ?h (rt_addr r) = b" using same_key_bucket [OF wf, of k "rt_addr r"] r(2) k(2) cmp same_addr_laws(2) by simp
  qed
qed

lemma values_bucket:
  "p \<in> set (values_from h st e) \<longleftrightarrow> (\<exists>b. st \<le> b \<and> b < e \<and> p \<in> he_value ` set (h_buckets h ! b))"
  by (auto simp: values_from_def)

lemma values_route:
  assumes "table_ok m" "e \<le> length (h_buckets (mc_vhash m))" "p \<in> set (values_from (mc_vhash m) st e)"
  obtains r where "mc_routes m p = Some r" "st \<le> key_bucket (mc_vhash m) (rt_addr r)" "key_bucket (mc_vhash m) (rt_addr r) < e"
proof -
  obtain b x where b: "st \<le> b" "b < e" "x \<in> set (h_buckets (mc_vhash m) ! b)" "p = he_value x"
    using assms(3) by (auto simp: values_bucket)
  have "b < length (h_buckets (mc_vhash m))" using b(2) assms(2) by simp
  then obtain r where "mc_routes m (he_value x) = Some r" "key_bucket (mc_vhash m) (rt_addr r) = b"
    using element_route [OF assms(1) _ b(3)] by metis
  then show thesis using that b by simp
qed

lemma values_distinct:
  assumes t: "table_ok m" and e: "e \<le> length (h_buckets (mc_vhash m))"
  shows "st \<le> e \<Longrightarrow> distinct (values_from (mc_vhash m) st e)"
proof (induction "e - st" arbitrary: st)
  case 0
  then show ?case by (simp add: values_from_def)
next
  case (Suc d)
  let ?h = "mc_vhash m"
  have st: "st < e" using Suc.hyps(2) by simp
  then have b: "st < length (h_buckets ?h)" using e by simp
  have wf: "hash_wf ?h" using t by (simp add: table_ok_def)
  have "distinct (map he_value (h_buckets ?h ! st))"
  proof (rule distinct_map_filter)
    fix x assume x: "x \<in> set (h_buckets ?h ! st)"
    obtain r where r: "mc_routes m (he_value x) = Some r" "key_bucket ?h (rt_addr r) = st" using element_route [OF t b x] by metis
    have "matches ?h (rt_addr r) y" if "y \<in> set (h_buckets ?h ! st)" "he_value y = he_value x" for y
      using element_route [OF t b that(1)] that(2) r(1) by (metis option.inject)
    then have eq: "filter (\<lambda>y. he_value y = he_value x) (h_buckets ?h ! st) = filter (\<lambda>y. he_value y = he_value x) (hits ?h (rt_addr r))"
      using r(2) by (auto simp: hits_def filter_filter intro: filter_cong)
    show "length (filter (\<lambda>y. he_value y = he_value x) (h_buckets ?h ! st)) \<le> 1"
      unfolding eq by (rule order_trans [OF length_filter_le hits_one [OF wf]])
  qed
  moreover have "distinct (values_from ?h (Suc st) e)" using Suc st by simp
  moreover have "p \<notin> set (values_from ?h (Suc st) e)" if p: "p \<in> set (map he_value (h_buckets ?h ! st))" for p
  proof
    assume "p \<in> set (values_from ?h (Suc st) e)"
    then obtain r where r: "mc_routes m p = Some r" "Suc st \<le> key_bucket ?h (rt_addr r)" by (rule values_route [OF t e])
    obtain x where "x \<in> set (h_buckets ?h ! st)" "p = he_value x" using p by auto
    then have "key_bucket ?h (rt_addr r) = st" using element_route [OF t b] r(1) by (metis option.inject)
    then show False using r(2) by simp
  qed
  ultimately show ?case by (auto simp: values_from_Cons [OF st])
qed

lemma entry_in_values:
  assumes t: "table_ok m" and e: "e \<le> length (h_buckets (mc_vhash m))" and p: "hash_entry (mc_vhash m) k = Some p"
  shows "p \<in> set (values_from (mc_vhash m) st e) \<longleftrightarrow> st \<le> key_bucket (mc_vhash m) k \<and> key_bucket (mc_vhash m) k < e"
proof
  let ?h = "mc_vhash m"
  have wf: "hash_wf ?h" and cmp: "h_compare_function ?h = same_addr" using t by (simp_all add: table_ok_def)
  { assume "p \<in> set (values_from ?h st e)"
    then obtain r where r: "mc_routes m p = Some r" "st \<le> key_bucket ?h (rt_addr r)" "key_bucket ?h (rt_addr r) < e"
      by (rule values_route [OF t e])
    moreover have "same_addr (rt_addr r) k" using table_ok_entry [OF t p] r(1) by (metis option.inject)
    ultimately show "st \<le> key_bucket ?h k \<and> key_bucket ?h k < e" using same_key_bucket [OF wf] cmp by metis }
  { assume b: "st \<le> key_bucket ?h k \<and> key_bucket ?h k < e"
    obtain x rest where x: "hits ?h k = x # rest" "he_value x = p" using p by (auto simp: hash_entry_def split: list.splits)
    then have "x \<in> set (hits ?h k)" by simp
    then have "x \<in> set (h_buckets ?h ! key_bucket ?h k)" by (simp add: hits_def)
    then show "p \<in> set (values_from ?h st e)" using b x(2) by (auto simp: values_bucket) }
qed

lemma route_live_frame: "same_frame m m' \<Longrightarrow> route_live now m' r = route_live now m r"
  by (simp add: route_live_def same_frame_def live_def)

lemma same_frame_trans: "same_frame m m' \<Longrightarrow> same_frame m' m'' \<Longrightarrow> same_frame m m''"
  by (simp add: same_frame_def)

text \<open>A loop over the table that deletes the routes with \<open>D\<close>.\<close>

lemma purge_routes_law:
  assumes h: "heap_ok m" and t: "table_ok m" and range: "st \<le> e" "e \<le> length (h_buckets (mc_vhash m))"
    and step: "\<And>m' p r. heap_ok m' \<Longrightarrow> same_frame m m' \<Longrightarrow> mc_routes m' p = Some r \<Longrightarrow>
      step m' p = (if D r then do { m'' \<leftarrow> multi_route_del m' p; Some (m'', True) } else Some (m', False))"
  shows "\<exists>hi m1 g hi'. hash_iterator_init_range (mc_vhash m) (int st) (int e) = Some hi \<and> purge_loop step m (mc_vhash m) hi = Some (m1, g, hi')
    \<and> heap_ok (m1\<lparr>mc_vhash := fst (hash_iterator_free g hi')\<rparr>) \<and> table_ok (m1\<lparr>mc_vhash := fst (hash_iterator_free g hi')\<rparr>)
    \<and> same_frame m (m1\<lparr>mc_vhash := fst (hash_iterator_free g hi')\<rparr>)
    \<and> (\<forall>k. route_at (m1\<lparr>mc_vhash := fst (hash_iterator_free g hi')\<rparr>) k = (case route_at m k of None \<Rightarrow> None
         | Some r \<Rightarrow> if st \<le> key_bucket (mc_vhash m) k \<and> key_bucket (mc_vhash m) k < e \<and> D r then None else Some r))"
proof -
  let ?h = "mc_vhash m" and ?vs = "values_from (mc_vhash m) st e"
  let ?P = "\<lambda>p. case mc_routes m p of None \<Rightarrow> False | Some r \<Rightarrow> D r"
  let ?Inv = "\<lambda>m' vs. heap_ok m' \<and> same_frame m m' \<and> mc_next_route m' = mc_next_route m
     \<and> (\<exists>ds. ?vs = ds @ vs \<and> mc_routes m' = (\<lambda>p. if p \<in> set ds \<and> ?P p then None else mc_routes m p))"
  have wf: "hash_wf ?h" and cmp: "h_compare_function ?h = same_addr" using t by (simp_all add: table_ok_def)
  have dist: "distinct ?vs" by (rule values_distinct [OF t range(2,1)])
  have ok: "step_ok step ?P ?Inv"
    unfolding step_ok_def
  proof (intro allI impI)
    fix m' v vs assume I: "?Inv m' (v # vs)"
    then obtain ds where ds: "?vs = ds @ v # vs" "mc_routes m' = (\<lambda>p. if p \<in> set ds \<and> ?P p then None else mc_routes m p)" by blast
    have "v \<in> set ?vs" using ds(1) by simp
    then obtain r where r: "mc_routes m v = Some r" by (rule values_route [OF t range(2)])
    have "v \<notin> set ds" using dist ds(1) by simp
    then have r': "mc_routes m' v = Some r" using ds(2) r by simp
    note st = step [OF conjunct1 [OF I] conjunct1 [OF conjunct2 [OF I]] r']
    show "\<exists>s'. step m' v = Some (s', ?P v) \<and> ?Inv s' vs"
    proof (cases "D r")
      case False
      have "mc_routes m' = (\<lambda>p. if p \<in> set (ds @ [v]) \<and> ?P p then None else mc_routes m p)"
        using ds(2) False r by (auto simp: fun_eq_iff)
      then have "?Inv m' vs" using I ds(1) by (intro conjI exI [of _ "ds @ [v]"]) simp_all
      then show ?thesis using st False r by simp
    next
      case True
      obtain m2 where m2: "multi_route_del m' v = Some m2" "heap_ok m2" "mc_routes m2 = (mc_routes m')(v := None)" "profile m2 = profile m'"
        "mc_next_route m2 = mc_next_route m'" "mc_route_helper m2 = mc_route_helper m'" "mc_local m2 = mc_local m'"
        using route_del_law [OF conjunct1 [OF I] r'] by blast
      have "mc_routes m2 = (\<lambda>p. if p \<in> set (ds @ [v]) \<and> ?P p then None else mc_routes m p)"
        using ds(2) m2(3) True r by (auto simp: fun_eq_iff)
      then have "?Inv m2 vs" using I ds(1) m2 by (intro conjI exI [of _ "ds @ [v]"]) (simp_all add: same_frame_def)
      then show ?thesis using st True r m2(1) by simp
    qed
  qed
  have "?Inv m ?vs" using h by (auto simp: same_frame_def)
  then obtain hi m1 g hi' where run: "hash_iterator_init_range ?h (int st) (int e) = Some hi" "purge_loop step m ?h hi = Some (m1, g, hi')"
    "fst (hash_iterator_free g hi') = purged ?P st ?h e" and I: "?Inv m1 []"
    using purge_range_law [OF wf range ok] by blast
  let ?m' = "m1\<lparr>mc_vhash := purged ?P st ?h e\<rparr>"
  have routes: "mc_routes m1 = (\<lambda>p. if p \<in> set ?vs \<and> ?P p then None else mc_routes m p)" using I by auto
  have entry: "hash_entry (purged ?P st ?h e) k = (case hash_entry ?h k of None \<Rightarrow> None
     | Some v \<Rightarrow> if st \<le> key_bucket ?h k \<and> key_bucket ?h k < e \<and> ?P v then None else Some v)" for k
    by (rule purged_entry [OF wf range(2)])
  have keep: "hash_entry (purged ?P st ?h e) k = Some p \<longleftrightarrow> hash_entry ?h k = Some p \<and> mc_routes m1 p \<noteq> None" for k p
  proof (cases "hash_entry ?h k")
    case (Some q)
    obtain r where "mc_routes m q = Some r" by (rule table_ok_entry [OF t Some])
    then show ?thesis using entry [of k] Some routes entry_in_values [OF t range(2) Some, of st] by auto
  qed (simp add: entry)
  have "table_ok ?m'"
    unfolding table_ok_def
  proof (intro conjI allI impI)
    show "hash_wf (mc_vhash ?m')" using purged_wf [OF wf range(2)] by simp
    show "h_compare_function (mc_vhash ?m') = same_addr" using cmp by simp
    fix k p assume "hash_entry (mc_vhash ?m') k = Some p"
    then have k: "hash_entry ?h k = Some p" "mc_routes m1 p \<noteq> None" using keep by simp_all
    obtain r where r: "mc_routes m p = Some r" "same_addr (rt_addr r) k" by (rule table_ok_entry [OF t k(1)])
    then have "mc_routes m1 p = Some r" using k(2) routes by (auto split: if_splits)
    then show "\<exists>r. mc_routes ?m' p = Some r \<and> same_addr (rt_addr r) k" using r(2) by simp
  next
    fix p r assume "mc_routes ?m' p = Some r"
    then have m1: "mc_routes m1 p = Some r" by simp
    then have r: "mc_routes m p = Some r" using routes by (auto split: if_splits)
    show "hash_entry (mc_vhash ?m') (rt_addr r) = Some p" using keep table_ok_route(1) [OF t r] m1 by simp
    show "p < mc_next_route ?m'" using table_ok_route(2) [OF t r] I by simp
  qed
  moreover have "heap_ok ?m'" using I heap_ok_cong [of ?m' m1] by simp
  moreover have "same_frame m ?m'" using I by (simp add: same_frame_def profile_def fun_eq_iff)
  moreover have "route_at ?m' k = (case route_at m k of None \<Rightarrow> None
     | Some r \<Rightarrow> if st \<le> key_bucket ?h k \<and> key_bucket ?h k < e \<and> D r then None else Some r)" for k
  proof (cases "hash_entry ?h k")
    case None
    then show ?thesis using entry [of k] by (simp add: route_at_def)
  next
    case (Some q)
    obtain r where "mc_routes m q = Some r" by (rule table_ok_entry [OF t Some])
    then show ?thesis using entry [of k] Some routes entry_in_values [OF t range(2) Some, of st] by (auto simp: route_at_def)
  qed
  ultimately show ?thesis using run by (intro exI [of _ hi] exI [of _ m1] exI [of _ g] exI [of _ hi']) simp
qed

lemma drop_routes_inv:
  assumes inv: "routing_inv S n m" and h: "heap_ok m'" "table_ok m'" and sf: "same_frame m m'"
    and core: "\<And>k r. core_at m' k = Some r \<Longrightarrow> core_at m k = Some r" and static: "static_at m' = static_at m"
  shows "routing_inv S n m'"
proof -
  have f: "profile m' = profile m" "mc_route_helper m' = mc_route_helper m" using sf by (simp_all add: same_frame_def)
  have "route_inv S (in_use m) m" using inv by (simp add: routing_inv_def)
  then have "route_inv S (in_use m) m'" using core by (intro route_inv_frame [OF _ h sf static]) auto
  moreover have "owned m'"
    using inv core f same_frame_live [OF sf] unfolding routing_inv_def owned_def by metis
  moreover have "generation_ok n m'" using inv core f(2) unfolding routing_inv_def generation_ok_def by metis
  ultimately show ?thesis using inv f in_use_cong [OF f(1)] by (simp add: routing_inv_def clients_ok_def)
qed

text \<open>
  On a server with ageing any routes may go: a cached route then answers no longer what the networks say.
\<close>

lemma routing_inv_weaken: "routing_inv S n m \<Longrightarrow> routing_inv False n m"
  by (auto simp: routing_inv_def route_inv_weaken)

lemma drop_routes_ageing:
  assumes inv: "routing_inv S n m" and h: "heap_ok m'" "table_ok m'" and sf: "same_frame m m'"
    and core: "\<And>k r. core_at m' k = Some r \<Longrightarrow> core_at m k = Some r"
  shows "routing_inv False n m'"
proof -
  have f: "profile m' = profile m" "mc_route_helper m' = mc_route_helper m" using sf by (simp_all add: same_frame_def)
  have ok: "route_ok False (in_use m) m' r" if "core_at m' k = Some r" for k r
  proof -
    have "route_ok S (in_use m) m r" using inv core [OF that] by (auto simp: routing_inv_def route_inv_def)
    then show ?thesis using same_frame_live [OF sf] by (auto simp: route_ok_def)
  qed
  moreover have "helper_abs (mc_route_helper m') (in_use m)" using inv f by (simp add: routing_inv_def route_inv_def)
  ultimately have "route_inv False (in_use m) m'" using h by (auto simp: route_inv_def)
  moreover have "owned m'"
    using inv core f same_frame_live [OF sf] unfolding routing_inv_def owned_def by metis
  moreover have "generation_ok n m'" using inv core f(2) unfolding routing_inv_def generation_ok_def by metis
  ultimately show ?thesis using inv f in_use_cong [OF f(1)] by (simp add: routing_inv_def clients_ok_def)
qed

lemma reap_step_eq:
  assumes "heap_ok m'" "same_frame m m'" "mc_routes m' p = Some r"
  shows "reap_step now m' p = (if \<not> route_live now m r then do { m'' \<leftarrow> multi_route_del m' p; Some (m'', True) } else Some (m', False))"
  using route_defined_law [OF assms(1,3), of now] assms(3) route_live_frame [OF assms(2)] by (simp add: reap_step_def)

lemma stale_step_eq:
  assumes "heap_ok m'" "same_frame m m'" "mc_routes m' p = Some r"
  shows "stale_step now age m' p = (if route_live now m r \<and> now - rt_last_reference r \<ge> age
    then do { m'' \<leftarrow> multi_route_del m' p; Some (m'', True) } else Some (m', False))"
  using route_defined_law [OF assms(1,3), of now] assms(3) route_live_frame [OF assms(2)] by (simp add: stale_step_def)

lemma buckets_count: "table_ok m \<Longrightarrow> h_n_buckets (mc_vhash m) = int (length (h_buckets (mc_vhash m)))"
  by (auto simp: table_ok_def hash_wf_def)

lemma reap_range_law:
  assumes inv: "routing_inv S n m" and range: "start < 0 \<or> start \<le> end_bucket \<and> start \<le> hash_n_buckets (mc_vhash m)"
  shows "\<exists>m'. multi_reap_range now m start end_bucket = Some m' \<and> routing_inv S n m' \<and> same_frame m m' \<and> static_at m' = static_at m
    \<and> (\<forall>k. route_at m' k = (case route_at m k of None \<Rightarrow> None
         | Some r \<Rightarrow> if (start < 0 \<or> start \<le> int (key_bucket (mc_vhash m) k) \<and> int (key_bucket (mc_vhash m) k) < end_bucket)
             \<and> \<not> route_live now m r then None else Some r))"
proof -
  let ?h = "mc_vhash m" and ?N = "length (h_buckets (mc_vhash m))"
  have ok: "heap_ok m" "table_ok m" using inv by (simp_all add: routing_inv_def route_inv_def)
  have nb: "h_n_buckets ?h = int ?N" by (rule buckets_count [OF ok(2)])
  define st where "st = (if start < 0 then 0 else nat start)"
  define e where "e = (if start < 0 then ?N else nat (min end_bucket (int ?N)))"
  have r: "st \<le> e" "e \<le> ?N" using range nb by (auto simp: st_def e_def hash_n_buckets_def)
  obtain hi m1 g hi' where run: "hash_iterator_init_range ?h (int st) (int e) = Some hi"
    "purge_loop (reap_step now) m ?h hi = Some (m1, g, hi')"
    and m': "heap_ok (m1\<lparr>mc_vhash := fst (hash_iterator_free g hi')\<rparr>)" "table_ok (m1\<lparr>mc_vhash := fst (hash_iterator_free g hi')\<rparr>)"
      "same_frame m (m1\<lparr>mc_vhash := fst (hash_iterator_free g hi')\<rparr>)"
      "\<forall>k. route_at (m1\<lparr>mc_vhash := fst (hash_iterator_free g hi')\<rparr>) k = (case route_at m k of None \<Rightarrow> None
         | Some r \<Rightarrow> if st \<le> key_bucket ?h k \<and> key_bucket ?h k < e \<and> \<not> route_live now m r then None else Some r)"
    using purge_routes_law [OF ok r, of "reap_step now" "\<lambda>r. \<not> route_live now m r"] reap_step_eq by blast
  let ?m = "m1\<lparr>mc_vhash := fst (hash_iterator_free g hi')\<rparr>"
  have init: "hash_iterator_init_range ?h (if start < 0 then 0 else start) (if start < 0 then hash_n_buckets ?h else end_bucket) = Some hi"
    using run(1) range nb unfolding hash_iterator_init_range_def st_def e_def hash_n_buckets_def
    by (auto simp: min_def split: if_splits)
  have "multi_reap_range now m start end_bucket = Some ?m"
    using init run(2) by (auto simp: multi_reap_range_def)
  moreover have core: "core_at ?m k = core_at m k \<or> core_at ?m k = None \<and> static_at m k = None" for k
  proof (cases "route_at m k")
    case None
    then show ?thesis using m'(4) by (simp add: core_at_def)
  next
    case (Some s)
    then have "\<not> route_live now m s \<Longrightarrow> static_at m k = None" by (auto simp: static_at_def core_at_def route_live_def)
    then show ?thesis using m'(4) Some by (auto simp: core_at_def)
  qed
  moreover have static: "static_at ?m = static_at m"
  proof
    fix k
    show "static_at ?m k = static_at m k"
      using core [of k]
    proof
      assume "core_at ?m k = core_at m k"
      then show ?thesis by (rule static_at_cong) (rule same_frame_live [OF m'(3)])
    qed (simp add: static_at_def [of ?m])
  qed
  moreover have "routing_inv S n ?m"
    using core by (intro drop_routes_inv [OF inv m'(1-3) _ static]) (metis option.distinct(1))
  moreover have rng: "st \<le> key_bucket ?h k \<and> key_bucket ?h k < e
      \<longleftrightarrow> start < 0 \<or> start \<le> int (key_bucket ?h k) \<and> int (key_bucket ?h k) < end_bucket" for k
  proof -
    have "key_bucket ?h k < ?N" using ok(2) key_bucket_bound by (auto simp: table_ok_def)
    then show ?thesis using range nb by (auto simp: st_def e_def)
  qed
  moreover have "route_at ?m k = (case route_at m k of None \<Rightarrow> None
         | Some r \<Rightarrow> if (start < 0 \<or> start \<le> int (key_bucket ?h k) \<and> int (key_bucket ?h k) < end_bucket)
             \<and> \<not> route_live now m r then None else Some r)" for k
    unfolding rng [of k, symmetric] using m'(4) by (simp add: conj_assoc split: option.split)
  ultimately show ?thesis using m'(3) by blast
qed

lemma stale_routes_law:
  assumes inv: "routing_inv S n m"
  shows "\<exists>m'. check_stale_routes now age m = Some m' \<and> routing_inv False n m' \<and> same_frame m m'
    \<and> (\<forall>k. route_at m' k = (case route_at m k of None \<Rightarrow> None
         | Some r \<Rightarrow> if route_live now m r \<and> now - rt_last_reference r \<ge> age then None else Some r))"
proof -
  let ?h = "mc_vhash m" and ?N = "length (h_buckets (mc_vhash m))"
  have ok: "heap_ok m" "table_ok m" using inv by (simp_all add: routing_inv_def route_inv_def)
  have nb: "hash_n_buckets ?h = int ?N" using buckets_count [OF ok(2)] by (simp add: hash_n_buckets_def)
  obtain hi m1 g hi' where run: "hash_iterator_init_range ?h (int 0) (int ?N) = Some hi"
    "purge_loop (stale_step now age) m ?h hi = Some (m1, g, hi')"
    and m': "heap_ok (m1\<lparr>mc_vhash := fst (hash_iterator_free g hi')\<rparr>)" "table_ok (m1\<lparr>mc_vhash := fst (hash_iterator_free g hi')\<rparr>)"
      "same_frame m (m1\<lparr>mc_vhash := fst (hash_iterator_free g hi')\<rparr>)"
      "\<forall>k. route_at (m1\<lparr>mc_vhash := fst (hash_iterator_free g hi')\<rparr>) k = (case route_at m k of None \<Rightarrow> None
         | Some r \<Rightarrow> if 0 \<le> key_bucket ?h k \<and> key_bucket ?h k < ?N \<and> (route_live now m r \<and> now - rt_last_reference r \<ge> age) then None else Some r)"
    using purge_routes_law [OF ok, of 0 ?N "stale_step now age" "\<lambda>r. route_live now m r \<and> now - rt_last_reference r \<ge> age"] stale_step_eq by blast
  have "key_bucket ?h k < ?N" for k using ok(2) key_bucket_bound by (auto simp: table_ok_def)
  then have law: "route_at (m1\<lparr>mc_vhash := fst (hash_iterator_free g hi')\<rparr>) k = (case route_at m k of None \<Rightarrow> None
         | Some r \<Rightarrow> if route_live now m r \<and> now - rt_last_reference r \<ge> age then None else Some r)" for k
    using m'(4) by (simp split: option.split)
  have "check_stale_routes now age m = Some (m1\<lparr>mc_vhash := fst (hash_iterator_free g hi')\<rparr>)"
    using run nb by (simp add: check_stale_routes_def)
  moreover have "routing_inv False n (m1\<lparr>mc_vhash := fst (hash_iterator_free g hi')\<rparr>)"
    using law by (intro drop_routes_ageing [OF inv m'(1-3)]) (auto simp: core_at_def split: option.splits if_splits)
  ultimately show ?thesis using law m'(3) by blast
qed

subsection \<open>Every run\<close>

text \<open>A new client; its pointer is not in use.\<close>

lemma connect_step:
  assumes inv: "routing_inv S n m" and free: "mc_instances m i = None" and new: "new_client mi"
  shows "routing_inv S n (set_instance i (Some mi) m)" "profile (set_instance i (Some mi) m) i = Some (mi\<lparr>mi_refcount := 0, mi_route_count := 0\<rparr>)"
    "core_at (set_instance i (Some mi) m) = core_at m"
proof -
  let ?m = "set_instance i (Some mi) m" and ?q = "mi\<lparr>mi_refcount := 0, mi_route_count := 0\<rparr>"
  have ok: "heap_ok m" "table_ok m" using inv by (simp_all add: routing_inv_def route_inv_def)
  have prof: "profile ?m = (profile m)(i \<mapsto> ?q)" using new by (simp add: profile_def set_instance_def new_client_def fun_eq_iff)
  then show "profile ?m i = Some ?q" by simp
  have core: "core_at ?m = core_at m" by (simp add: core_at_def route_at_def set_instance_def fun_eq_iff split: option.split)
  then show "core_at ?m = core_at m" .
  have inst: "rt_instance r \<noteq> i" if "core_at m k = Some r" for k r
    using that free by (auto simp: core_at_def route_at_def split: option.splits dest: heap_ok_instance [OF ok(1)])
  have none: "routes_of m i = {}"
    using free heap_ok_instance [OF ok(1)] by (fastforce simp: routes_of_def)
  have refs: "routes_of ?m = routes_of m" by (simp add: routes_of_def set_instance_def fun_eq_iff)
  have lv: "live ?m j = live m j" if "j \<noteq> i" for j using prof that by (simp add: live_def)
  have h: "heap_ok ?m"
    unfolding heap_ok_def refs
  proof (intro conjI)
    show "finite (dom (mc_routes ?m))" "finite (dom (mc_instances ?m))" using ok(1) by (simp_all add: heap_ok_def set_instance_def)
    show "\<forall>p r. mc_routes ?m p = Some r \<longrightarrow> mc_instances ?m (rt_instance r) \<noteq> None"
      using heap_ok_instance [OF ok(1)] by (simp add: set_instance_def)
    show "\<forall>j mj. mc_instances ?m j = Some mj \<longrightarrow> mi_route_count mj = int (card (routes_of m j))
          \<and> mi_refcount mj = int (card (routes_of m j)) + (if mi_halt mj then 0 else 1) \<and> 0 < mi_refcount mj"
      using heap_ok_counts [OF ok(1)] none new by (auto simp: set_instance_def new_client_def)
  qed
  have t: "table_ok ?m" using ok(2) by (simp add: table_ok_def set_instance_def)
  have static: "static_at ?m = static_at m"
  proof
    fix k
    show "static_at ?m k = static_at m k"
      using core inst [of k] lv by (auto simp: static_at_def split: option.split)
  qed
  have use: "in_use ?m = in_use m"
    using in_use_update [OF finite_profile [OF ok(1)] prof] new free by (simp add: announced_def new_client_def profile_def)
  have "route_ok S (in_use m) ?m r" if "core_at m k = Some r" for k r
  proof -
    have "route_ok S (in_use m) m r" using inv that by (auto simp: routing_inv_def route_inv_def)
    then show ?thesis using lv [OF inst [OF that]] prefix_match_cong [OF static] by (simp add: route_ok_def) (simp add: set_instance_def)
  qed
  then have "route_inv S (in_use ?m) ?m"
    using inv h t use core by (auto simp: routing_inv_def route_inv_def set_instance_def)
  moreover have "owned ?m" using inv core inst lv prof by (auto simp: routing_inv_def owned_def)
  moreover have "clients_ok ?m" using inv prof new by (auto simp: routing_inv_def clients_ok_def new_client_def client_ok_def)
  moreover have "generation_ok n ?m" using inv core by (simp add: routing_inv_def generation_ok_def set_instance_def)
  ultimately show "routing_inv S n ?m" by (simp add: routing_inv_def)
qed

text \<open>The part of \<open>multi_init\<close> that sets up the table, with the helper's time to live of 60 seconds.\<close>

definition routing_init :: "(mroute_addr, nat) hash \<Rightarrow> mroute_addr \<Rightarrow> multi_context" where
  "routing_init h local_addr =
     \<lparr>mc_vhash = h, mc_routes = (\<lambda>_. None), mc_next_route = 0, mc_instances = (\<lambda>_. None),
      mc_route_helper = mroute_helper_init 60, mc_local = local_addr\<rparr>"

abbreviation generation :: "multi_context \<Rightarrow> nat" where
  "generation m \<equiv> unat (rh_cache_generation (mc_route_helper m))"

text \<open>
  The states the routing of a server gets to, with \<open>ageing\<close> for a server that runs
  \<^const>\<open>check_stale_routes\<close> (\<open>--stale-routes-check\<close>).  Clients come and go, learn host addresses
  of any type and announce their networks; addresses are looked up, with the search over the prefix
  lengths or without it (a bridged server); the table is reaped in parts or as a whole.  Left out is
  \<open>multi_close_instance\<close> with \<open>shutdown\<close>, which \<open>multi_uninit\<close> calls before it frees the table. The
  bounds on the generation exclude the wrap-around of its 32-bit counter, which would make old cached
  routes valid again.
\<close>

inductive routing_reach :: "bool \<Rightarrow> multi_context \<Rightarrow> bool" for ageing :: bool where
  reach_init: "hash_init buckets iv mroute_addr_hash_function mroute_addr_compare_function = Some h \<Longrightarrow> buckets \<le> 2 ^ 30
    \<Longrightarrow> routing_reach ageing (routing_init h local_addr)"
| reach_connect: "routing_reach ageing m \<Longrightarrow> mc_instances m i = None \<Longrightarrow> new_client mi
    \<Longrightarrow> routing_reach ageing (set_instance i (Some mi) m)"
| reach_learn: "routing_reach ageing m \<Longrightarrow> live m i \<Longrightarrow> mr_type addr AND MR_WITH_NETBITS = 0
    \<Longrightarrow> multi_learn_addr script now m i addr 0 = Some (m', owner) \<Longrightarrow> routing_reach ageing m'"
| reach_iroutes: "routing_reach ageing m \<Longrightarrow> profile m i = Some mi \<Longrightarrow> \<not> mi_did_iroutes mi \<Longrightarrow> generation m + changes mi < 2 ^ 32
    \<Longrightarrow> multi_add_iroutes script4 script6 now m i = Some m' \<Longrightarrow> routing_reach ageing m'"
| reach_lookup: "routing_reach ageing m \<Longrightarrow> ip_host addr
    \<Longrightarrow> multi_get_instance_by_virtual_addr script now m addr True = Some (m', ret) \<Longrightarrow> routing_reach ageing m'"
| reach_exact: "routing_reach ageing m \<Longrightarrow> mr_type addr AND MR_WITH_NETBITS = 0
    \<Longrightarrow> multi_get_instance_by_virtual_addr script now m addr False = Some (m', ret) \<Longrightarrow> routing_reach ageing m'"
| reach_close: "routing_reach ageing m \<Longrightarrow> profile m i = Some mi \<Longrightarrow> generation m + changes mi < 2 ^ 32
    \<Longrightarrow> close_client m i = Some m' \<Longrightarrow> routing_reach ageing m'"
| reach_reap: "routing_reach ageing m \<Longrightarrow> start < 0 \<or> start \<le> end_bucket \<and> start \<le> hash_n_buckets (mc_vhash m)
    \<Longrightarrow> multi_reap_range now m start end_bucket = Some m' \<Longrightarrow> routing_reach ageing m'"
| reach_stale: "routing_reach ageing m \<Longrightarrow> ageing \<Longrightarrow> check_stale_routes now age m = Some m' \<Longrightarrow> routing_reach ageing m'"

lemma reach_mono: "routing_reach ageing m \<Longrightarrow> routing_reach True m"
proof (induction rule: routing_reach.induct)
  case (reach_stale m now age m')
  then show ?case by (blast intro: routing_reach.reach_stale)
qed (auto intro: routing_reach.intros)

lemma generation_index: "routing_inv S n m \<Longrightarrow> generation m = n"
  by (simp add: routing_inv_def generation_ok_def unat_of_nat)

lemma reach_inv: "routing_reach ageing m \<Longrightarrow> routing_inv (\<not> ageing) (generation m) m"
proof (induction rule: routing_reach.induct)
  case (reach_init buckets iv h local_addr)
  have "hash_wf h" "h_compare_function h = same_addr" "hash_entry h = (\<lambda>_. None)"
    using hash_init_law [OF reach_init(1,2) mroute_addr_equivp] mroute_addr_equal_hash by auto
  moreover have p: "profile (routing_init h local_addr) = (\<lambda>_. None)" "core_at (routing_init h local_addr) = (\<lambda>_. None)"
    using calculation(3) by (simp_all add: profile_def core_at_def route_at_def routing_init_def fun_eq_iff)
  ultimately have "heap_ok (routing_init h local_addr)" "table_ok (routing_init h local_addr)"
    by (simp_all add: heap_ok_def table_ok_def routing_init_def)
  then have "route_inv (\<not> ageing) {#} (routing_init h local_addr)"
    using p helper_init_abs [of 60] by (simp add: route_inv_def) (simp add: routing_init_def)
  moreover have "generation (routing_init h local_addr) = 0" by (simp add: routing_init_def mroute_helper_init_def)
  ultimately show ?case
    using p by (simp add: routing_inv_def owned_def clients_ok_def generation_ok_def in_use_def) (simp add: routing_init_def mroute_helper_init_def)
next
  case (reach_connect m i mi)
  have "generation (set_instance i (Some mi) m) = generation m" by (simp add: set_instance_def)
  then show ?case using connect_step(1) [OF reach_connect.IH reach_connect.hyps(2,3)] by simp
next
  case (reach_learn m i addr script now m' owner)
  then have "routing_inv (\<not> ageing) (generation m) m'" using learn_plain_step [OF reach_learn.IH reach_learn.hyps(2,3), of script now] by auto
  then show ?case using generation_index by metis
next
  case (reach_iroutes m i mi script4 script6 now m')
  then have "routing_inv (\<not> ageing) (generation m + changes mi) m'"
    using add_iroutes_step [OF reach_iroutes.IH reach_iroutes.hyps(2-4), of script4 script6 now] by auto
  then show ?case using generation_index by metis
next
  case (reach_lookup m addr script now m' ret)
  then have "routing_inv (\<not> ageing) (generation m) m'" using lookup_step [OF reach_lookup.IH reach_lookup.hyps(2), of script now] by auto
  then show ?case using generation_index by metis
next
  case (reach_exact m addr script now m' ret)
  then have "routing_inv (\<not> ageing) (generation m) m'" using lookup_exact_step [OF reach_exact.IH reach_exact.hyps(2), of script now] by auto
  then show ?case using generation_index by metis
next
  case (reach_close m i mi m')
  then obtain d where "routing_inv (\<not> ageing) (generation m + d) m'" using close_step [OF reach_close.IH reach_close.hyps(2,3)] by auto
  then show ?case using generation_index by metis
next
  case (reach_reap m start end_bucket now m')
  then have "routing_inv (\<not> ageing) (generation m) m'" using reap_range_law [OF reach_reap.IH reach_reap.hyps(2), of now] by auto
  then show ?case using generation_index by metis
next
  case (reach_stale m now age m')
  then have "routing_inv False (generation m) m'" using stale_routes_law [OF reach_stale.IH, of now age] by auto
  then show ?case using generation_index \<open>ageing\<close> by (metis (full_types))
qed

text \<open>A bare table with one new client.\<close>

lemma routing_start:
  assumes h: "hash_init 256 0 mroute_addr_hash_function mroute_addr_compare_function = Some h" and new: "new_client mi"
    and m: "m = set_instance 0 (Some mi) (routing_init h local_addr)"
  shows "routing_reach ageing m" "profile m 0 = Some (mi\<lparr>mi_refcount := 0, mi_route_count := 0\<rparr>)" "core_at m = (\<lambda>_. None)" "generation m = 0"
proof -
  have reach0: "routing_reach ageing (routing_init h local_addr)" by (rule reach_init [OF h]) simp
  have free: "mc_instances (routing_init h local_addr) 0 = None" by (simp add: routing_init_def)
  show "routing_reach ageing m" unfolding m by (rule reach_connect [OF reach0 free new])
  note c0 = connect_step [OF reach_inv [OF reach0] free new]
  show "profile m 0 = Some (mi\<lparr>mi_refcount := 0, mi_route_count := 0\<rparr>)" unfolding m by (rule c0(2))
  have "hash_entry h = (\<lambda>_. None)"
    using hash_init_law [OF h _ mroute_addr_equivp] mroute_addr_equal_hash by auto
  then show "core_at m = (\<lambda>_. None)" unfolding m c0(3) by (simp add: core_at_def route_at_def routing_init_def fun_eq_iff)
  show "generation m = 0" by (simp add: m set_instance_def routing_init_def mroute_helper_init_def)
qed

end
