(* ===== verification/Multi_Lookup.thy ===== *)
theory Multi_Lookup
  imports Multi_Clients
begin

text \<open>
  What the routing of the server guarantees: the properties of the reachable states of
  \<^const>\<open>routing_reach\<close>, with a concrete state that witnesses them.
\<close>

definition demo_client :: multi_instance where
  "demo_client = \<lparr>mi_halt = False, mi_refcount = 1, mi_route_count = 0, mi_max_routes_per_client = 256, mi_did_iroutes = False,
     mi_tunnel_type = DEV_TYPE_TUN, mi_iroutes = [\<lparr>ir_network = 0x0A000000, ir_netbits = 8\<rparr>], mi_iroutes_ipv6 = []\<rparr>"

definition demo_addr :: "u32 \<Rightarrow> mroute_addr" where
  "demo_addr a = mroute_extract_in_addr_t mroute_addr_init a"

definition demo_net :: mroute_addr where
  "demo_net = \<lparr>mr_len = 4, mr_type = 10, mr_netbits = 8, mr_raw = [10, 0, 0, 0] @ replicate 16 0\<rparr>"

lemma demo_bytes: "be32_bytes 0x0A000000 = [10, 0, 0, 0]" "be32_bytes 0x0A010203 = [10, 1, 2, 3]"
    "be32_of [10, 1, 2, 3] = 0x0A010203" "netbits_to_netmask 8 = 0xFF000000"
  by (simp_all add: be32_bytes_def be32_of_def netbits_to_netmask_def)

lemma demo_net_learnable: "mroute_learnable_address demo_net"
  by (simp add: mroute_learnable_address_def demo_net_def is_mac_mcast_maddr_def MR_ADDR_MASK_def MR_ADDR_ETHER_def)

lemma demo_addr_raw: "demo_addr 0x0A010203 = \<lparr>mr_len = 4, mr_type = 2, mr_netbits = 0, mr_raw = [10, 1, 2, 3] @ replicate 16 0\<rparr>"
  by (simp add: demo_addr_def mroute_extract_in_addr_t_def mroute_addr_init_def MR_ADDR_IPV4_def MR_MAX_ADDR_LEN_def demo_bytes patch_def)

lemma demo_prefix: "prefix_key 8 (demo_addr 0x0A010203) = Some demo_net"
  by (simp add: demo_addr_raw prefix_key_def mroute_addr_mask_host_bits_def mr_consts demo_bytes segment_def patch_def demo_net_def)

text \<open>A reachable state: one client with the network 10.0.0.0/8.\<close>

lemma demo_state:
  obtains m where "routing_reach ageing m" "live m 0" "mc_local m = mroute_addr_init" "generation m = 1"
    "core_at m = (\<lambda>k. if same_addr demo_net k then Some (static_route 0 demo_net) else None)"
proof -
  obtain h :: "(mroute_addr, nat) hash" where h: "hash_init 256 0 mroute_addr_hash_function mroute_addr_compare_function = Some h"
    using hash_init_Some [of 256] by force
  let ?m0 = "set_instance 0 (Some demo_client) (routing_init h mroute_addr_init)"
  have "new_client demo_client" by (simp add: new_client_def demo_client_def client_ok_def)
  note start = routing_start [OF h this, of ?m0 mroute_addr_init, OF refl]
  note reach1 = start(1) [of ageing] and core0 = start(3) and g0 = start(4)
  have none: "hash_entry h = (\<lambda>_. None)"
    using hash_init_law [OF h _ mroute_addr_equivp] mroute_addr_equal_hash by auto
  let ?m1 = "set_instance 0 (Some (demo_client\<lparr>mi_did_iroutes := True\<rparr>)) ?m0"
  have same: "?m1 = set_instance 0 (Some (demo_client\<lparr>mi_did_iroutes := True\<rparr>)) (routing_init h mroute_addr_init)"
    by (simp add: set_instance_def)
  have m1: "route_inv (\<not> ageing) {#} ?m1" "generation_ok 0 ?m1" "core_at ?m1 = (\<lambda>_. None)" "live ?m1 0"
  proof -
    have u: "in_use ?m0 = {#}" unfolding in_use_def
      by (intro sum.neutral ballI) (simp add: announced_def profile_def set_instance_def routing_init_def demo_client_def)
    have i0: "mc_instances ?m0 0 = Some demo_client" "\<not> mi_halt demo_client" by (simp_all add: set_instance_def demo_client_def)
    have "routing_inv (\<not> ageing) 0 ?m0" using reach_inv [OF reach1] g0 by simp
    note st = start_iroutes_law [OF this i0]
    show "route_inv (\<not> ageing) {#} ?m1" "generation_ok 0 ?m1" "core_at ?m1 = (\<lambda>_. None)" using st(1-3) u core0 by simp_all
    show "live ?m1 0" by (simp add: live_def profile_def set_instance_def demo_client_def)
  qed
  have nb: "mr_type demo_net AND MR_WITH_NETBITS \<noteq> 0" "unat (mr_netbits demo_net) = nat 8" by (simp_all add: demo_net_def mr_consts)
  obtain rh m' o' where s: "mroute_helper_add_iroute46 (mc_route_helper ?m1) 8 = Some rh"
    "multi_learn_addr True 1000 (?m1\<lparr>mc_route_helper := rh\<rparr>) 0 demo_net 0 = Some (m', o')"
    "generation_ok (Suc 0) m'" "profile m' = profile ?m1" "mc_local m' = mc_local ?m1"
    "\<forall>c. core_at m' c = (if learns True 1000 (?m1\<lparr>mc_route_helper := rh\<rparr>) 0 demo_net \<and> same_addr demo_net c
         then Some (static_route 0 demo_net) else core_at ?m1 c)"
    using network_step [OF m1(1,4,2) _ _ _ nb, of True 1000] by auto
  have "route_at (?m1\<lparr>mc_route_helper := rh\<rparr>) demo_net = None"
    using none by (simp add: route_at_def set_instance_def routing_init_def)
  then have free': "owner_at 1000 (?m1\<lparr>mc_route_helper := rh\<rparr>) demo_net = None" by (simp add: owner_at_def)
  have "\<not> mroute_addr_equal demo_net (mc_local (?m1\<lparr>mc_route_helper := rh\<rparr>))"
    by (simp add: set_instance_def routing_init_def mroute_addr_init_def mroute_addr_equal_def demo_net_def)
  moreover have "mc_instances (?m1\<lparr>mc_route_helper := rh\<rparr>) 0 = Some (demo_client\<lparr>mi_did_iroutes := True\<rparr>)"
    by (simp add: set_instance_def)
  moreover have "route_quota_test (demo_client\<lparr>mi_did_iroutes := True\<rparr>)" by (simp add: route_quota_test_def demo_client_def)
  ultimately have l: "learns True 1000 (?m1\<lparr>mc_route_helper := rh\<rparr>) 0 demo_net"
    unfolding learns_def free' using demo_net_learnable by blast
  have net: "demo_net = \<lparr>mr_len = 4, mr_type = 10, mr_netbits = word_of_int 8, mr_raw = patch (replicate MR_MAX_ADDR_LEN 0) 0 (be32_bytes 0x0A000000)\<rparr>"
    by (simp add: demo_net_def MR_MAX_ADDR_LEN_def patch_def demo_bytes)
  have "multi_learn_in_addr_t True 1000 (?m1\<lparr>mc_route_helper := rh\<rparr>) 0 0x0A000000 8 False = Some (m', o')"
    using s(2) unfolding net by (simp add: multi_learn_in_addr_t_def mroute_extract_openvpn_sockaddr_def mroute_addr_init_def mr_consts)
  then have run: "multi_add_iroutes (\<lambda>_. True) (\<lambda>_. True) 1000 ?m0 0 = Some m'"
    using s(1) by (simp add: multi_add_iroutes_def demo_client_def set_instance_def)
  show thesis
  proof (rule that)
    show "routing_reach ageing m'"
      by (rule reach_iroutes [OF reach1 start(2) _ _ run])
        (use g0 in \<open>simp_all add: demo_client_def changes_def iroute_lengths_def\<close>)
    show "live m' 0" using m1(4) s(4) by (simp add: live_def)
    show "mc_local m' = mroute_addr_init" using s(5) by (simp add: set_instance_def routing_init_def)
    show "generation m' = 1" using s(3) by (simp add: generation_ok_def)
    show "core_at m' = (\<lambda>k. if same_addr demo_net k then Some (static_route 0 demo_net) else None)"
      using s(6) l m1(3) by (simp add: fun_eq_iff)
  qed
qed

text \<open>On a server without ageing a lookup gives the reference and leaves it as it is.\<close>

lemma reference_frame: "static_at m' = static_at m \<Longrightarrow> same_frame m m' \<Longrightarrow> reference_route m' a = reference_route m a"
  using prefix_match_cong [of m' m] by (simp add: reference_route_def same_frame_def cong: option.case_cong)

lemma strict_lookup:
  assumes "routing_reach False m" "ip_host addr"
  shows "\<exists>m'. multi_get_instance_by_virtual_addr script now m addr True = Some (m', reference_route m addr)"
proof -
  have inv: "routing_inv True (generation m) m" using reach_inv [OF assms(1)] by simp
  then have "route_inv True (in_use m) m" by (simp add: routing_inv_def)
  then have "lookup_result now m addr = reference_route m addr" by (rule lookup_result_reference [OF _ assms(2)])
  then show ?thesis using lookup_step [OF inv assms(2), of script now] by auto
qed

text \<open>
  C5: The virtual routing table answers by longest prefix match: in every reachable state a
  lookup of an IP address with \<^const>\<open>multi_get_instance_by_virtual_addr\<close> returns, and on a server
  without \<open>--stale-routes-check\<close> it returns, whether it is answered from a cached host route or by
  the search over the prefix lengths in use, the client that \<^const>\<open>reference_route\<close> gives: the owner
  of the address itself, else the owner of the longest of all 129 possible prefixes. On a server
  that ages its routes the only other answer is that of a cached host route for this very address
  that is still valid (the network it came from may have been removed meanwhile, as
  \<open>cached_route_outlives_network\<close> shows). A valid route for the address itself always decides. No
  lookup changes the reference, whatever the quota and the learn-address script say.
\<close>

theorem lookup_is_longest_prefix_match:
  assumes "routing_reach ageing m" "ip_host addr"
  shows "\<exists>m' ret. multi_get_instance_by_virtual_addr script now m addr True = Some (m', ret)
    \<and> (ret = reference_route m addr
       \<or> ageing \<and> (\<exists>r. route_at m addr = Some r \<and> rt_flags r = 3 \<and> route_live now m r \<and> ret = Some (rt_instance r)))
    \<and> (\<forall>r. route_at m addr = Some r \<and> route_live now m r \<and> \<not> mroute_addr_equal addr (mc_local m) \<longrightarrow> ret = Some (rt_instance r))
    \<and> routing_reach ageing m' \<and> (\<forall>a. reference_route m' a = reference_route m a)"
proof -
  have inv: "routing_inv (\<not> ageing) (generation m) m" by (rule reach_inv [OF assms(1)])
  then have r: "route_inv (\<not> ageing) (in_use m) m" by (simp add: routing_inv_def)
  obtain m' where m': "multi_get_instance_by_virtual_addr script now m addr True = Some (m', lookup_result now m addr)"
    "static_at m' = static_at m" "same_frame m m'"
    using lookup_step [OF inv assms(2), of script now] by auto
  have "lookup_result now m addr = reference_route m addr
      \<or> ageing \<and> (\<exists>r. route_at m addr = Some r \<and> rt_flags r = 3 \<and> route_live now m r \<and> lookup_result now m addr = Some (rt_instance r))"
    using lookup_result_cached [OF r assms(2), of now] by metis
  moreover have "\<forall>r. route_at m addr = Some r \<and> route_live now m r \<and> \<not> mroute_addr_equal addr (mc_local m)
      \<longrightarrow> lookup_result now m addr = Some (rt_instance r)"
    by (simp add: lookup_result_def owner_at_def)
  moreover have "routing_reach ageing m'" by (rule reach_lookup [OF assms m'(1)])
  moreover have "\<forall>a. reference_route m' a = reference_route m a" using reference_frame [OF m'(2,3)] by blast
  ultimately show ?thesis using m'(1) by blast
qed

lemma demo_host: "ip_host (demo_addr a)"
  by (simp add: ip_host_def demo_addr_def mroute_extract_in_addr_t_def mroute_addr_init_def mr_consts)

lemma demo_reference:
  assumes "core_at m = (\<lambda>k. if same_addr demo_net k then Some (static_route 0 demo_net) else None)" "live m 0"
    "mc_local m = mroute_addr_init"
  shows "reference_route m (demo_addr 0x0A010203) = Some 0"
proof -
  let ?a = "demo_addr 0x0A010203"
  have static: "static_at m k = (if same_addr demo_net k then Some 0 else None)" for k
    using assms(1,2) by (simp add: static_at_def static_route_def)
  have key8: "Option.bind (prefix_key 8 ?a) (static_at m) = Some 0"
    by (simp add: demo_prefix static same_addr_laws)
  have other: "Option.bind (prefix_key n ?a) (static_at m) = None" if n: "n \<le> 128" "n \<noteq> 8" for n
  proof -
    obtain k where k: "prefix_key n ?a = Some k" "unat (mr_netbits k) = n"
      by (rule prefix_key_cong [OF demo_host [of "0x0A010203"] demo_host [of "0x0A010203"], where n = n]) (use n same_addr_laws in auto)
    then have "\<not> same_addr demo_net k" using n(2) by (auto simp: mroute_addr_compare_function_def mroute_addr_equal_iff demo_net_def)
    then show ?thesis using k(1) static by simp
  qed
  have "prefix_match m ?a ns = (if 8 \<in> set ns then Some 0 else None)" if "\<forall>n \<in> set ns. n \<le> 128" for ns
    using that
  proof (induction ns)
    case (Cons n ns)
    then show ?case using key8 other [of n] by (cases "n = 8") simp_all
  qed simp
  then have "prefix_match m ?a all_lengths = Some 0" by (simp add: all_lengths_def)
  moreover have "static_at m ?a = None"
    unfolding static by (simp add: demo_addr_raw demo_net_def mroute_addr_compare_function_def mroute_addr_equal_def)
  moreover have "\<not> mroute_addr_equal ?a (mc_local m)" using assms(3) by (simp add: demo_addr_raw mroute_addr_init_def mroute_addr_equal_def)
  ultimately show ?thesis by (simp add: reference_route_def)
qed

theorem lookup_is_longest_prefix_match_witness:
  "\<exists>m m'. routing_reach False m \<and> multi_get_instance_by_virtual_addr True 1000 m (demo_addr 0x0A010203) True = Some (m', Some 0)"
proof (rule demo_state [of False])
  fix m assume m: "routing_reach False m" "live m 0" "mc_local m = mroute_addr_init"
    "core_at m = (\<lambda>k. if same_addr demo_net k then Some (static_route 0 demo_net) else None)"
  show ?thesis
    using lookup_is_longest_prefix_match [OF m(1) demo_host [of "0x0A010203"], where script = True and now = 1000] demo_reference [OF m(4,2,3)] m(1) by metis
qed

subsection \<open>Memory\<close>

text \<open>
  C6: No dangling routes: in every reachable state, also of a server that ages its routes, each
  entry of the table leads to an allocated route and client, and each route to its entry; the
  counters of a client are the number of its routes plus one while it has not been closed. And no
  operation ever reaches a freed object (it would abort): learning an address for a live client,
  announcing the networks of a client, looking up an address in either way, closing a client,
  reaping a range of buckets or all of them, and removing stale routes return, in such a state again.
\<close>

theorem no_dangling_routes:
  assumes "routing_reach ageing m"
  shows "(\<forall>k p. hash_entry (mc_vhash m) k = Some p \<longrightarrow> (\<exists>r mi. mc_routes m p = Some r \<and> mc_instances m (rt_instance r) = Some mi))
    \<and> (\<forall>p r. mc_routes m p = Some r \<longrightarrow> hash_entry (mc_vhash m) (rt_addr r) = Some p)
    \<and> (\<forall>i mi. mc_instances m i = Some mi \<longrightarrow> mi_route_count mi = int (card (routes_of m i))
         \<and> mi_refcount mi = int (card (routes_of m i)) + (if mi_halt mi then 0 else 1) \<and> 0 < mi_refcount mi)
    \<and> (\<forall>script now i addr. live m i \<and> mr_type addr AND MR_WITH_NETBITS = 0
         \<longrightarrow> (\<exists>m' owner. multi_learn_addr script now m i addr 0 = Some (m', owner) \<and> routing_reach ageing m'))
    \<and> (\<forall>script4 script6 now i mi. profile m i = Some mi \<and> \<not> mi_did_iroutes mi \<and> generation m + changes mi < 2 ^ 32
         \<longrightarrow> (\<exists>m'. multi_add_iroutes script4 script6 now m i = Some m' \<and> routing_reach ageing m'))
    \<and> (\<forall>script now addr. ip_host addr
         \<longrightarrow> (\<exists>m' ret. multi_get_instance_by_virtual_addr script now m addr True = Some (m', ret) \<and> routing_reach ageing m'))
    \<and> (\<forall>script now addr. mr_type addr AND MR_WITH_NETBITS = 0
         \<longrightarrow> (\<exists>m' ret. multi_get_instance_by_virtual_addr script now m addr False = Some (m', ret) \<and> routing_reach ageing m'))
    \<and> (\<forall>i mi. profile m i = Some mi \<and> generation m + changes mi < 2 ^ 32 \<longrightarrow> (\<exists>m'. close_client m i = Some m' \<and> routing_reach ageing m'))
    \<and> (\<forall>now first last. 0 \<le> first \<and> first \<le> last \<and> first \<le> hash_n_buckets (mc_vhash m)
         \<longrightarrow> (\<exists>m'. multi_reap_range now m first last = Some m' \<and> routing_reach ageing m'))
    \<and> (\<forall>now. \<exists>m'. multi_reap_all now m = Some m' \<and> routing_reach ageing m')
    \<and> (\<forall>now age. \<exists>m'. check_stale_routes now age m = Some m' \<and> routing_reach True m')"
proof -
  note reach = assms
  have inv: "routing_inv (\<not> ageing) (generation m) m" by (rule reach_inv [OF reach])
  then have ok: "heap_ok m" "table_ok m" by (simp_all add: routing_inv_def route_inv_def)
  have "\<exists>r mi. mc_routes m p = Some r \<and> mc_instances m (rt_instance r) = Some mi" if "hash_entry (mc_vhash m) k = Some p" for k p
    using table_ok_entry [OF ok(2) that] heap_ok_instance [OF ok(1)] by metis
  moreover have "hash_entry (mc_vhash m) (rt_addr r) = Some p" if "mc_routes m p = Some r" for p r
    using ok(2) that unfolding table_ok_def by blast
  moreover have "\<exists>m' owner. multi_learn_addr script now m i addr 0 = Some (m', owner) \<and> routing_reach ageing m'"
    if "live m i" "mr_type addr AND MR_WITH_NETBITS = 0" for script now i addr
    using learn_plain_step [OF inv that] reach_learn [OF reach that] by blast
  moreover have "\<exists>m'. multi_add_iroutes script4 script6 now m i = Some m' \<and> routing_reach ageing m'"
    if "profile m i = Some mi" "\<not> mi_did_iroutes mi" "generation m + changes mi < 2 ^ 32" for script4 script6 now i mi
    using add_iroutes_step [OF inv that] reach_iroutes [OF reach that] by blast
  moreover have "\<exists>m' ret. multi_get_instance_by_virtual_addr script now m addr True = Some (m', ret) \<and> routing_reach ageing m'"
    if "ip_host addr" for script now addr
    using lookup_step [OF inv that] reach_lookup [OF reach that] by blast
  moreover have "\<exists>m' ret. multi_get_instance_by_virtual_addr script now m addr False = Some (m', ret) \<and> routing_reach ageing m'"
    if "mr_type addr AND MR_WITH_NETBITS = 0" for script now addr
    using lookup_exact_step [OF inv that] reach_exact [OF reach that] by blast
  moreover have "\<exists>m'. close_client m i = Some m' \<and> routing_reach ageing m'" if "profile m i = Some mi" "generation m + changes mi < 2 ^ 32" for i mi
    using close_step [OF inv that] reach_close [OF reach that] by blast
  moreover have range: "\<exists>m'. multi_reap_range now m first last = Some m' \<and> routing_reach ageing m'"
    if "first < 0 \<or> first \<le> last \<and> first \<le> hash_n_buckets (mc_vhash m)" for now first last
    using reap_range_law [OF inv that] reach_reap [OF reach that] by blast
  moreover have "\<exists>m'. multi_reap_all now m = Some m' \<and> routing_reach ageing m'" for now
    using range [of "- 1" 0 now] by (simp add: multi_reap_all_def)
  moreover have "\<exists>m'. check_stale_routes now age m = Some m' \<and> routing_reach True m'" for now age
    using stale_routes_law [OF inv, of now age] reach_stale [OF reach_mono [OF reach] TrueI] by blast
  ultimately show ?thesis using heap_ok_counts [OF ok(1)] by simp
qed

theorem no_dangling_routes_witness:
  "\<exists>m p r mi m'. routing_reach False m \<and> hash_entry (mc_vhash m) demo_net = Some p \<and> mc_routes m p = Some r
    \<and> mc_instances m (rt_instance r) = Some mi \<and> 0 < mi_refcount mi
    \<and> check_stale_routes 1060 60 m = Some m' \<and> routing_reach True m'"
proof (rule demo_state [of False])
  fix m assume m: "routing_reach False m" "core_at m = (\<lambda>k. if same_addr demo_net k then Some (static_route 0 demo_net) else None)"
  have "core_at m demo_net \<noteq> None" using m(2) by (simp add: same_addr_laws)
  then obtain p where p: "hash_entry (mc_vhash m) demo_net = Some p"
    by (auto simp: core_at_def route_at_def split: option.splits)
  note safe = no_dangling_routes [OF m(1)]
  have "\<exists>m'. check_stale_routes 1060 60 m = Some m' \<and> routing_reach True m'" using safe by simp
  then obtain m' where "check_stale_routes 1060 60 m = Some m'" "routing_reach True m'" by blast
  moreover obtain r mi where "mc_routes m p = Some r" "mc_instances m (rt_instance r) = Some mi" "0 < mi_refcount mi" using p safe by metis
  ultimately show ?thesis using p m(1) by blast
qed



subsection \<open>Networks of clients\<close>

text \<open>The key under which a network of a client is entered by \<open>multi_learn_in_addr_t\<close>.\<close>

definition iroute_key :: "u32 \<Rightarrow> nat \<Rightarrow> mroute_addr" where
  "iroute_key a n = (fst (mroute_extract_openvpn_sockaddr mroute_addr_init (AF_INET (be32_bytes a) [0, 0]) False))
     \<lparr>mr_type := MR_ADDR_IPV4 OR MR_WITH_NETBITS, mr_netbits := of_nat n\<rparr>"

lemma iroute_key_fields:
  "iroute_key a n = \<lparr>mr_len = 4, mr_type = 10, mr_netbits = of_nat n, mr_raw = patch (replicate 20 0) 0 (be32_bytes a)\<rparr>"
  by (simp add: iroute_key_def mroute_extract_openvpn_sockaddr_def mroute_addr_init_def mr_consts)

text \<open>With a bit set after the prefix this is never the key that a lookup asks for.\<close>

lemma iroute_key_not_asked:
  assumes "n \<le> 32" "a AND netbits_to_netmask (int n) \<noteq> a" "ip_host addr" "prefix_key k addr = Some key" "k \<le> 128"
  shows "\<not> same_addr (iroute_key a n) key"
proof
  assume "same_addr (iroute_key a n) key"
  then have eq: "mr_type key = 10" "mr_netbits key = of_nat n" "mr_len key = 4" "take 4 (mr_raw key) = be32_bytes a"
    unfolding iroute_key_fields by (auto simp: mroute_addr_compare_function_def mroute_addr_equal_iff addr_bytes_def patch_def)
  have k: "unat (of_nat k :: u8) = k" using assms(5) by (simp add: unat_of_nat)
  then have uk: "uint (of_nat k :: u8) = int k" by (metis uint_nat)
  have v4: "mr_type addr = MR_ADDR_IPV4"
    using assms(3,4) eq(1) by (auto simp: ip_host_def prefix_key_def mroute_addr_mask_host_bits_def mr_consts Let_def split: prod.splits option.splits if_splits)
  let ?m = "be32_of (segment 0 4 (mr_raw addr)) AND netbits_to_netmask (int k)"
  have pk: "key = addr\<lparr>mr_type := 10, mr_netbits := of_nat k, mr_raw := patch (mr_raw addr) 0 (be32_bytes ?m)\<rparr>"
    using assms(4) v4 uk by (simp add: prefix_key_def mroute_addr_mask_host_bits_def mr_consts Let_def)
  have "unat (of_nat n :: u8) = n" using assms(1) by (simp add: unat_of_nat)
  moreover have "mr_netbits key = of_nat k" by (simp add: pk)
  ultimately have "k = n" using k eq(2) by metis
  moreover have "be32_bytes ?m = be32_bytes a" using eq(4) pk by (simp add: patch_def)
  then have "?m = a" by (metis be32_of_bytes)
  ultimately show False using assms(2) by (metis word_bw_assocs(1) word_bw_same(1))
qed

text \<open>A table that differs only under that key gives the same reference.\<close>

lemma reference_iroute:
  assumes bits: "n \<le> 32" "a AND netbits_to_netmask (int n) \<noteq> a" and addr: "ip_host addr"
    and core: "\<And>c. \<not> same_addr (iroute_key a n) c \<Longrightarrow> core_at m' c = core_at m c"
    and same: "\<And>j. live m' j = live m j" "mc_local m' = mc_local m"
  shows "reference_route m' addr = reference_route m addr"
proof -
  have static: "static_at m' c = static_at m c" if "\<not> same_addr (iroute_key a n) c" for c
    by (rule static_at_cong) (use that core same(1) in auto)
  have "prefix_match m' addr ns = prefix_match m addr ns" if "\<forall>k \<in> set ns. k \<le> 128" for ns
    using that
  proof (induction ns)
    case (Cons k ns)
    obtain key where key: "prefix_key k addr = Some key"
      by (rule prefix_key_cong [OF addr addr, of k]) (use Cons.prems same_addr_laws in auto)
    then have "static_at m' key = static_at m key"
      using static iroute_key_not_asked [OF bits addr key] Cons.prems by simp
    then show ?case using key Cons by (simp cong: option.case_cong)
  qed simp
  then have "prefix_match m' addr all_lengths = prefix_match m addr all_lengths" by (simp add: all_lengths_def)
  moreover have "\<not> same_addr (iroute_key a n) addr"
    using ip_host_plain [OF addr] unfolding iroute_key_fields
    by (auto simp: mroute_addr_compare_function_def mroute_addr_equal_iff mr_consts)
  ultimately show ?thesis using static same(2) by (simp add: reference_route_def cong: option.case_cong)
qed

text \<open>The owner under the key of a network depends only on the routes and on who lives.\<close>

lemma owner_at_network_frame:
  assumes inv: "route_inv S M m" and k: "mr_type k AND MR_WITH_NETBITS \<noteq> 0"
    and frame: "route_at m' k = route_at m k" "\<And>j. live m' j = live m j"
  shows "owner_at now m' k = owner_at now m k"
proof (cases "route_at m k")
  case (Some r)
  then have c: "core_at m k = Some (r\<lparr>rt_last_reference := 0\<rparr>)" by (simp add: core_at_def)
  then have t: "table_ok m" and ok: "route_ok S M m (r\<lparr>rt_last_reference := 0\<rparr>)" using inv by (auto simp: route_inv_def)
  have "mr_type (rt_addr r) = mr_type k"
    using core_at_addr [OF t c] by (simp add: mroute_addr_compare_function_def mroute_addr_equal_iff)
  then have "rt_flags r = 0" using ok k ip_host_plain [of "rt_addr r"] by (auto simp: route_ok_def)
  then show ?thesis using Some frame by (simp add: owner_at_def route_live_def)
qed (use frame in \<open>simp add: owner_at_def\<close>)

text \<open>
  C8: A network given with host bits: when a client announces its only network with
  \<^const>\<open>multi_add_iroutes\<close>, and a bit of the network is set after the prefix, the route is entered as it
  was written (provided an address can be learned at all: nobody owns that key, the quota and the
  learn-address script allow it). But lookups ask for masked addresses, so the answer for every IP
  address is the one that it was before the network came: the route is in the table, and no packet is
  ever routed by it. The state is one of a server without \<open>--stale-routes-check\<close>.
\<close>

theorem iroute_host_bits_unreachable:
  assumes "routing_reach False m" "profile m i = Some mi" "\<not> mi_did_iroutes mi" "mi_tunnel_type mi = DEV_TYPE_TUN"
    and "mi_iroutes mi = [\<lparr>ir_network = a, ir_netbits = int n\<rparr>]" "mi_iroutes_ipv6 mi = []" "generation m + 1 < 2 ^ 32"
    and "n \<le> 32" "a AND netbits_to_netmask (int n) \<noteq> a" "learns (script4 0) now m i (iroute_key a n)"
  shows "\<exists>m'. multi_add_iroutes script4 script6 now m i = Some m' \<and> routing_reach False m'
    \<and> core_at m' (iroute_key a n) = Some (static_route i (iroute_key a n)) \<and> live m' i
    \<and> (\<forall>script later addr. ip_host addr
        \<longrightarrow> (\<exists>m''. multi_get_instance_by_virtual_addr script later m' addr True = Some (m'', reference_route m addr)))"
proof -
  have inv: "routing_inv True (generation m) m" using reach_inv [OF assms(1)] by simp
  then have rinv: "route_inv True (in_use m) m" by (simp add: routing_inv_def)
  obtain mio where mio: "mc_instances m i = Some mio" "\<not> mi_halt mio" "mi = mio\<lparr>mi_refcount := 0, mi_route_count := 0\<rparr>"
    using assms(2) by (auto simp: profile_def split: option.splits if_splits)
  have ch: "changes mi = 1" using assms(4-6) by (simp add: changes_def iroute_lengths_def)
  let ?m1 = "set_instance i (Some (mio\<lparr>mi_did_iroutes := True\<rparr>)) m"
  note st = start_iroutes_law [OF inv mio(1,2)]
  have li: "live m i" using assms(2) by (simp add: live_def)
  let ?key = "iroute_key a n"
  have nb: "mr_type ?key AND MR_WITH_NETBITS \<noteq> 0" "unat (mr_netbits ?key) = nat (int n)"
    using assms(8) by (simp_all add: iroute_key_fields mr_consts unat_of_nat)
  obtain rh m' o' where s: "mroute_helper_add_iroute46 (mc_route_helper ?m1) (int n) = Some rh"
    "multi_learn_addr (script4 0) now (?m1\<lparr>mc_route_helper := rh\<rparr>) i ?key 0 = Some (m', o')"
    "profile m' = profile ?m1" "mc_local m' = mc_local ?m1"
    "\<forall>c. core_at m' c = (if learns (script4 0) now (?m1\<lparr>mc_route_helper := rh\<rparr>) i ?key \<and> same_addr ?key c
         then Some (static_route i ?key) else core_at ?m1 c)"
    using network_step [OF st(1) _ st(2) _ _ _ nb, of i "script4 0" now] st(4) li assms(7,8) by auto
  have run: "multi_add_iroutes script4 script6 now m i = Some m'"
  proof -
    have "mi_tunnel_type mio = DEV_TYPE_TUN" "mi_iroutes mio = [\<lparr>ir_network = a, ir_netbits = int n\<rparr>]" "mi_iroutes_ipv6 mio = []"
      using assms(4-6) mio(3) by simp_all
    moreover have "multi_learn_in_addr_t (script4 0) now (?m1\<lparr>mc_route_helper := rh\<rparr>) i a (int n) False = Some (m', o')"
      using s(2) by (simp add: multi_learn_in_addr_t_def iroute_key_fields mroute_extract_openvpn_sockaddr_def mroute_addr_init_def mr_consts)
    ultimately show ?thesis using mio(1) s(1) by (simp add: multi_add_iroutes_def)
  qed
  have reach: "routing_reach False m'"
    by (rule reach_iroutes [OF assms(1-3) _ run]) (use ch assms(7) in simp)
  have lv: "live m' j = live m j" for j using s(3) st(4) by (simp add: live_def)
  have "owner_at now (?m1\<lparr>mc_route_helper := rh\<rparr>) ?key = owner_at now m ?key"
    by (rule owner_at_network_frame [OF rinv nb(1)])
      (use st(4) in \<open>simp_all add: route_at_def set_instance_def live_def profile_def split: option.split\<close>)
  then have learns: "learns (script4 0) now (?m1\<lparr>mc_route_helper := rh\<rparr>) i ?key"
    using assms(10) mio(1) by (auto simp: learns_def set_instance_def route_quota_test_def)
  have "core_at m' c = core_at m c" if "\<not> same_addr ?key c" for c using s(5) st(3) that by simp
  moreover have "mc_local m' = mc_local m" using s(4) by (simp add: set_instance_def)
  ultimately have "reference_route m' addr = reference_route m addr" if "ip_host addr" for addr
    by (intro reference_iroute [OF assms(8,9) that] lv)
  then have "\<exists>m''. multi_get_instance_by_virtual_addr script later m' addr True = Some (m'', reference_route m addr)"
    if "ip_host addr" for script later addr
    using strict_lookup [OF reach that] that by metis
  moreover have "core_at m' ?key = Some (static_route i ?key)" using s(5) learns same_addr_laws(1) by simp
  ultimately show ?thesis using run reach lv li by blast
qed

definition host_bits_client :: multi_instance where
  "host_bits_client = demo_client\<lparr>mi_iroutes := [\<lparr>ir_network = 0x0A010203, ir_netbits = 8\<rparr>]\<rparr>"

theorem iroute_host_bits_unreachable_witness:
  "\<exists>m m' m''. routing_reach False m \<and> multi_add_iroutes (\<lambda>_. True) (\<lambda>_. True) 1000 m 0 = Some m' \<and> live m' 0
    \<and> core_at m' (iroute_key 0x0A010203 8) = Some (static_route 0 (iroute_key 0x0A010203 8))
    \<and> multi_get_instance_by_virtual_addr True 1001 m' (demo_addr 0x0A010203) True = Some (m'', None)"
proof -
  obtain h :: "(mroute_addr, nat) hash" where h: "hash_init 256 0 mroute_addr_hash_function mroute_addr_compare_function = Some h"
    using hash_init_Some [of 256] by force
  let ?m = "set_instance 0 (Some host_bits_client) (routing_init h mroute_addr_init)"
  have "new_client host_bits_client" by (simp add: new_client_def host_bits_client_def demo_client_def client_ok_def)
  note st = routing_start [OF h this, of ?m mroute_addr_init, OF refl]
  have empty: "core_at ?m = (\<lambda>_. None)" by (rule st(3))
  then have none: "route_at ?m k = None" "static_at ?m k = None" for k
    by (simp_all add: core_at_def static_at_def fun_eq_iff)
  have "prefix_match ?m addr ns = None" for addr ns by (induction ns) (simp_all add: none split: option.split Option.bind_split)
  then have ref: "reference_route ?m addr = None" for addr by (simp add: reference_route_def none)
  have key: "iroute_key 0x0A010203 8 = \<lparr>mr_len = 4, mr_type = 10, mr_netbits = 8, mr_raw = [10, 1, 2, 3] @ replicate 16 0\<rparr>"
    by (simp add: iroute_key_fields demo_bytes patch_def)
  have "mroute_learnable_address (iroute_key 0x0A010203 8)"
    unfolding key by (simp add: mroute_learnable_address_def is_mac_mcast_maddr_def MR_ADDR_MASK_def MR_ADDR_ETHER_def)
  moreover have "\<not> mroute_addr_equal (iroute_key 0x0A010203 8) (mc_local ?m)"
    unfolding key by (simp add: set_instance_def routing_init_def mroute_addr_init_def mroute_addr_equal_def)
  moreover have "mc_instances ?m 0 = Some host_bits_client" by (simp add: set_instance_def)
  moreover have "route_quota_test host_bits_client" by (simp add: route_quota_test_def host_bits_client_def demo_client_def)
  ultimately have learns: "learns True 1000 ?m 0 (iroute_key 0x0A010203 8)"
    by (simp add: learns_def owner_at_def none)
  have bits: "(0x0A010203 :: u32) AND netbits_to_netmask (int 8) \<noteq> 0x0A010203" using demo_bytes(4) by simp
  obtain m' where m': "multi_add_iroutes (\<lambda>_. True) (\<lambda>_. True) 1000 ?m 0 = Some m'" "live m' 0"
    "core_at m' (iroute_key 0x0A010203 8) = Some (static_route 0 (iroute_key 0x0A010203 8))"
    "\<And>script later addr. ip_host addr \<Longrightarrow> \<exists>m''. multi_get_instance_by_virtual_addr script later m' addr True = Some (m'', reference_route ?m addr)"
    using iroute_host_bits_unreachable [OF st(1) [of False] st(2) _ _ _ _ _ _ bits, of "\<lambda>_. True" 1000 "\<lambda>_. True"] learns st(4)
    by (auto simp: host_bits_client_def demo_client_def)
  then show ?thesis using st(1) [of False] m'(4) [OF demo_host [of "0x0A010203"], of True 1001] unfolding ref by blast
qed

text \<open>
  What ageing does to the cache: when the network of a client is removed by \<^const>\<open>check_stale_routes\<close>
  while an address of it is in the cache and was asked for recently, that one address keeps its
  answer.
\<close>

lemma cached_route_outlives_network:
  assumes "routing_reach ageing m" "ip_host addr" "\<not> mroute_addr_equal addr (mc_local m)"
    and "route_at m addr = Some r" "route_live now m r" "now - rt_last_reference r < age"
  shows "\<exists>m' m''. check_stale_routes now age m = Some m' \<and> routing_reach True m'
    \<and> multi_get_instance_by_virtual_addr script now m' addr True = Some (m'', Some (rt_instance r))"
proof -
  obtain m' where m': "check_stale_routes now age m = Some m'" "routing_inv False (generation m) m'" "same_frame m m'"
    "\<And>k. route_at m' k = (case route_at m k of None \<Rightarrow> None
       | Some r \<Rightarrow> if route_live now m r \<and> now - rt_last_reference r \<ge> age then None else Some r)"
    using stale_routes_law [OF reach_inv [OF assms(1)], of now age] by blast
  have "route_at m' addr = Some r" using m'(4) [of addr] assms(4,6) by simp
  then have "owner_at now m' addr = Some (rt_instance r)"
    using assms(5) route_live_frame [OF m'(3)] by (simp add: owner_at_def)
  moreover have "mc_local m' = mc_local m" using m'(3) by (simp add: same_frame_def)
  ultimately have "lookup_result now m' addr = Some (rt_instance r)" using assms(3) by (simp add: lookup_result_def)
  moreover have "routing_reach True m'" using reach_stale [OF reach_mono [OF assms(1)] TrueI m'(1)] .
  ultimately show ?thesis using m'(1) lookup_step [OF m'(2) assms(2), of script now] by auto
qed

text \<open>
  C9: Networks in use age out: the time of the last reference of a network route is set when it is
  entered and never again, since packets find it through cached routes or leave it as it is;
  \<^const>\<open>check_stale_routes\<close> removes it after the ageing time, whatever was looked up in between.
\<close>

theorem used_network_ages_out:
  assumes "routing_reach ageing m" "route_at m net = Some r" "mr_type net AND MR_WITH_NETBITS \<noteq> 0" "live m (rt_instance r)" "rt_flags r = 0"
    and "ip_host addr" "multi_get_instance_by_virtual_addr script now m addr True = Some (m1, owner)" "age \<le> later - rt_last_reference r"
  shows "route_at m1 net = Some r \<and> (\<exists>m2. check_stale_routes later age m1 = Some m2 \<and> live m2 (rt_instance r) \<and> route_at m2 net = None)"
proof -
  have inv: "routing_inv (\<not> ageing) (generation m) m1" "same_frame m m1" "route_at m1 net = Some r"
    using lookup_step [OF reach_inv [OF assms(1)] assms(6), of script now] assms(2,3,7) by auto
  obtain m2 where m2: "check_stale_routes later age m1 = Some m2" "same_frame m1 m2"
    "\<And>k. route_at m2 k = (case route_at m1 k of None \<Rightarrow> None
       | Some r \<Rightarrow> if route_live later m1 r \<and> later - rt_last_reference r \<ge> age then None else Some r)"
    using stale_routes_law [OF inv(1), of later age] by blast
  have "live m1 (rt_instance r)" using assms(4) same_frame_live [OF inv(2)] by simp
  then have "route_live later m1 r" using assms(5) by (simp add: route_live_def)
  then have "route_at m2 net = None" using m2(3) [of net] inv(3) assms(8) by simp
  moreover have "live m2 (rt_instance r)" using assms(4) same_frame_live [OF inv(2)] same_frame_live [OF m2(2)] by simp
  ultimately show ?thesis using inv(3) m2(1) by blast
qed

theorem used_network_ages_out_witness:
  "\<exists>m m1 m2 later r. routing_reach False m \<and> multi_get_instance_by_virtual_addr True 1000 m (demo_addr 0x0A010203) True = Some (m1, Some 0)
    \<and> route_at m1 demo_net = Some r \<and> check_stale_routes later 60 m1 = Some m2 \<and> live m2 0 \<and> route_at m2 demo_net = None"
proof (rule demo_state [of False])
  fix m assume m: "routing_reach False m" "live m 0" "mc_local m = mroute_addr_init"
    "core_at m = (\<lambda>k. if same_addr demo_net k then Some (static_route 0 demo_net) else None)"
  have "core_at m demo_net = Some (static_route 0 demo_net)" using m(4) by (simp add: same_addr_laws)
  then obtain r where r: "route_at m demo_net = Some r" "static_route 0 demo_net = r\<lparr>rt_last_reference := 0\<rparr>"
    by (auto simp: core_at_def split: option.splits)
  then have r': "rt_instance r = 0" "rt_flags r = 0" by (cases r; simp add: static_route_def)+
  obtain m1 where m1: "multi_get_instance_by_virtual_addr True 1000 m (demo_addr 0x0A010203) True = Some (m1, Some 0)"
    using strict_lookup [OF m(1) demo_host [of "0x0A010203"], of True 1000] demo_reference [OF m(4,2,3)] by auto
  have nb: "mr_type demo_net AND MR_WITH_NETBITS \<noteq> 0" by (simp add: demo_net_def MR_WITH_NETBITS_def)
  show ?thesis
    using used_network_ages_out [OF m(1) r(1) nb _ r'(2) demo_host m1, of 60 "rt_last_reference r + 60"] m(1,2) m1 r'(1) by auto
qed

end
