(* ===== verification/Stream_Socket.thy ===== *)
theory Stream_Socket
  imports Frame
begin

text \<open>
  Packets over a byte stream: the stream buffer of src/openvpn/socket.c, which cuts the bytes
  received from a TCP socket back into packets, and the length prefix of the sender.

  The buffers of \<open>struct stream_buf\<close> other than \<open>residual\<close> are windows over one block of memory;
  \<open>sb_share\<close> makes a write through one of them visible in the others. What \<open>recv\<close> delivers is an
  argument: \<open>None\<close> for an error, at most the bytes asked for.
\<close>

subsection \<open>State\<close>

datatype port_share_state = PS_DISABLED | PS_ENABLED | PS_FOREIGN

record stream_buf =
  sb_buf_init :: buffer
  sb_residual :: buffer
  sb_maxlen :: int
  sb_residual_fully_formed :: bool
  sb_buf :: buffer
  sb_next :: buffer
  sb_len :: int
  sb_error :: bool
  sb_port_share_state :: port_share_state

record link_socket =
  ls_sd_defined :: bool
  ls_stream_reset :: bool
  ls_stream_buf :: stream_buf

definition set_data :: "bytes option \<Rightarrow> buffer \<Rightarrow> buffer" where
  "set_data d b = (if buf_defined b then b\<lparr>b_data := d\<rparr> else b)"

definition sb_share :: "buffer \<Rightarrow> stream_buf \<Rightarrow> stream_buf" where
  "sb_share b sb = sb\<lparr>sb_buf_init := set_data (b_data b) (sb_buf_init sb), sb_buf := set_data (b_data b) (sb_buf sb),
     sb_next := set_data (b_data b) (sb_next sb)\<rparr>"

subsection \<open>The first bytes of a connection\<close>

definition P_OPCODE_SHIFT :: nat where "P_OPCODE_SHIFT = 3"
definition P_CONTROL_HARD_RESET_CLIENT_V2 :: int where "P_CONTROL_HARD_RESET_CLIENT_V2 = 7"
definition P_CONTROL_HARD_RESET_CLIENT_V3 :: int where "P_CONTROL_HARD_RESET_CLIENT_V3 = 10"

definition is_openvpn_protocol :: "buffer \<Rightarrow> bool" where
  "is_openvpn_protocol buf =
     (let p = buf_content buf; len = buf_len buf; plen = uint (be16_of p) in
      if len \<ge> 3
      then (if uint (p ! 2) = push_bit P_OPCODE_SHIFT P_CONTROL_HARD_RESET_CLIENT_V3
            then plen \<ge> 336 \<and> plen < 1024 + 255
            else plen \<ge> 14 \<and> plen \<le> 255 \<and> uint (p ! 2) = push_bit P_OPCODE_SHIFT P_CONTROL_HARD_RESET_CLIENT_V2)
      else if len \<ge> 2 then plen \<ge> 14 \<and> plen \<le> 255
      else True)"

subsection \<open>The stream buffer\<close>

definition stream_buf_reset :: "stream_buf \<Rightarrow> stream_buf" where
  "stream_buf_reset sb = sb\<lparr>sb_residual_fully_formed := False, sb_buf := sb_buf_init sb,
     sb_next := buf_reset (sb_next sb), sb_len := - 1\<rparr>"

definition stream_buf_init :: "buffer \<Rightarrow> bool \<Rightarrow> bool \<Rightarrow> stream_buf option" where
  "stream_buf_init buf sf_port_share tcp_server = do {
     residual \<leftarrow> alloc_buf (size_t_of_int (b_len buf));
     Some (stream_buf_reset
       \<lparr>sb_buf_init = buf\<lparr>b_len := 0\<rparr>, sb_residual = residual, sb_maxlen = b_len buf, sb_residual_fully_formed = False,
        sb_buf = clear_buf, sb_next = clear_buf, sb_len = 0, sb_error = False,
        sb_port_share_state = (if sf_port_share \<and> tcp_server then PS_ENABLED else PS_DISABLED)\<rparr>) }"

text \<open>The part of \<open>socket_frame_init\<close> for connections over a stream.\<close>

definition socket_frame_init :: "frame \<Rightarrow> bool \<Rightarrow> bool \<Rightarrow> link_socket \<Rightarrow> link_socket option" where
  "socket_frame_init frm sf_port_share tcp_server sock = do {
     stream_buf_data \<leftarrow> alloc_buf_sock_tun frm;
     sb \<leftarrow> stream_buf_init stream_buf_data sf_port_share tcp_server;
     Some (sock\<lparr>ls_stream_buf := sb\<rparr>) }"

definition stream_buf_set_next :: "stream_buf \<Rightarrow> stream_buf option" where
  "stream_buf_set_next sb = do {
     let next = (sb_buf sb)\<lparr>b_offset := b_offset (sb_buf sb) + b_len (sb_buf sb),
                            b_len := (if sb_len sb \<ge> 0 then sb_len sb else sb_maxlen sb) - b_len (sb_buf sb)\<rparr>;
     ASSERT (b_len next > 0);
     ASSERT (buf_safe (sb_buf sb) (size_t_of_int (b_len next)));
     Some (sb\<lparr>sb_next := next\<rparr>) }"

definition stream_buf_get_final :: "stream_buf \<Rightarrow> buffer option" where
  "stream_buf_get_final sb = do { ASSERT (buf_defined (sb_buf sb)); Some (sb_buf sb) }"

definition stream_buf_get_next :: "stream_buf \<Rightarrow> buffer option" where
  "stream_buf_get_next sb = do { ASSERT (buf_defined (sb_next sb)); Some (sb_next sb) }"

text \<open>The part of \<open>stream_buf_added\<close> that reads the length; \<open>True\<close> when it returns early.\<close>

definition stream_read_length :: "stream_buf \<Rightarrow> (stream_buf \<times> bool) option" where
  "stream_read_length sb =
     (if sb_len sb < 0 \<and> b_len (sb_buf sb) \<ge> 2
      then if sb_port_share_state sb = PS_ENABLED \<and> \<not> is_openvpn_protocol (sb_buf sb)
           then Some (sb\<lparr>sb_port_share_state := PS_FOREIGN, sb_error := True\<rparr>, True)
           else do {
             let sb = (if sb_port_share_state sb = PS_ENABLED then sb\<lparr>sb_port_share_state := PS_DISABLED\<rparr> else sb);
             let (b, net_size) = buf_read (sb_buf sb) 2;
             net_size \<leftarrow> net_size;
             let sb = sb\<lparr>sb_buf := b, sb_len := uint (be16_of net_size)\<rparr>;
             (if sb_len sb < 1 \<or> sb_len sb > sb_maxlen sb
              then Some ((stream_buf_reset sb)\<lparr>sb_error := True\<rparr>, True)
              else Some (sb, False)) }
      else Some (sb, False))"

definition stream_buf_added :: "stream_buf \<Rightarrow> int \<Rightarrow> (stream_buf \<times> bool) option" where
  "stream_buf_added sb length_added = do {
     let sb = (if length_added > 0 then sb\<lparr>sb_buf := (sb_buf sb)\<lparr>b_len := b_len (sb_buf sb) + length_added\<rparr>\<rparr> else sb);
     (sb, failed) \<leftarrow> stream_read_length sb;
     (if failed then Some (sb, False)
      else if sb_len sb > 0 \<and> b_len (sb_buf sb) \<ge> sb_len sb
      then do {
        let (residual, ok) = buf_init (sb_residual sb) 0;
        ASSERT ok;
        let sb = sb\<lparr>sb_residual := residual\<rparr>;
        (if b_len (sb_buf sb) > sb_len sb
         then do {
           let (residual, buf, ok) = buf_copy_excess (sb_residual sb) (sb_buf sb) (sb_len sb);
           ASSERT ok;
           Some (sb\<lparr>sb_residual := residual, sb_buf := buf\<rparr>, True) }
         else Some (sb, True)) }
      else do { sb \<leftarrow> stream_buf_set_next sb; Some (sb, False) }) }"

definition stream_buf_read_setup_dowork :: "link_socket \<Rightarrow> (link_socket \<times> bool) option" where
  "stream_buf_read_setup_dowork sock = do {
     let sb = ls_stream_buf sock;
     sb \<leftarrow> (if b_len (sb_residual sb) \<noteq> 0 \<and> \<not> sb_residual_fully_formed sb
            then do {
              let (buf, ok) = buf_copy (sb_buf sb) (sb_residual sb);
              ASSERT ok;
              let sb = sb_share buf (sb\<lparr>sb_buf := buf\<rparr>);
              let (residual, ok) = buf_init (sb_residual sb) 0;
              ASSERT ok;
              (sb, formed) \<leftarrow> stream_buf_added (sb\<lparr>sb_residual := residual\<rparr>) 0;
              Some (sb\<lparr>sb_residual_fully_formed := formed\<rparr>) }
            else Some sb);
     sb \<leftarrow> (if \<not> sb_residual_fully_formed sb then stream_buf_set_next sb else Some sb);
     Some (sock\<lparr>ls_stream_buf := sb\<rparr>, \<not> sb_residual_fully_formed sb) }"

subsection \<open>Reading and writing packets\<close>

text \<open>The bytes that \<open>recv\<close> writes through \<open>frag\<close>.\<close>

definition stream_recv :: "stream_buf \<Rightarrow> buffer \<Rightarrow> bytes \<Rightarrow> stream_buf" where
  "stream_recv sb frag bs = sb_share (buf_poke frag (b_offset frag) bs) sb"

definition link_socket_read_tcp :: "link_socket \<Rightarrow> bytes option \<Rightarrow> buffer \<Rightarrow> (link_socket \<times> buffer \<times> int) option" where
  "link_socket_read_tcp sock got buf =
     (let formed = sb_residual_fully_formed (ls_stream_buf sock) in
      if \<not> formed \<and> \<not> ls_sd_defined sock
      then Some (sock\<lparr>ls_stream_reset := True\<rparr>, buf\<lparr>b_len := 0\<rparr>, 0)
      else do {
        frag \<leftarrow> (if formed then Some clear_buf else stream_buf_get_next (ls_stream_buf sock));
        let len = (if formed then 0 else case got of None \<Rightarrow> - 1 | Some bs \<Rightarrow> int (length bs));
        let sock = (if \<not> formed \<and> len = 0 then sock\<lparr>ls_stream_reset := True\<rparr> else sock);
        (if \<not> formed \<and> len \<le> 0 then Some (sock, buf\<lparr>b_len := len\<rparr>, len)
         else do {
           (sb, complete) \<leftarrow> (if formed then Some (ls_stream_buf sock, True)
                              else stream_buf_added (stream_recv (ls_stream_buf sock) frag (the got)) len);
           (if complete
            then do {
              buf \<leftarrow> stream_buf_get_final sb;
              Some (sock\<lparr>ls_stream_buf := stream_buf_reset sb\<rparr>, buf, b_len buf) }
            else Some (sock\<lparr>ls_stream_buf := sb\<rparr>, buf\<lparr>b_len := 0\<rparr>, 0)) }) })"

text \<open>The packet with its length, as it is handed to \<open>send\<close>.\<close>

definition link_socket_write_tcp :: "link_socket \<Rightarrow> buffer \<Rightarrow> buffer option" where
  "link_socket_write_tcp sock buf = do {
     let len = (word_of_int (buf_len buf) :: u16);
     ASSERT (uint len \<le> sb_maxlen (ls_stream_buf sock));
     let (buf, ok) = buf_write_prepend buf (be16_bytes len);
     ASSERT ok;
     Some buf }"

definition socket_connection_reset_stream :: "link_socket \<Rightarrow> bool" where
  "socket_connection_reset_stream sock \<longleftrightarrow> ls_stream_reset sock \<or> sb_error (ls_stream_buf sock)"

subsection \<open>The invariant\<close>

text \<open>What never changes: the windows lie in one block with room for a packet and its length.\<close>

definition stream_static :: "stream_buf \<Rightarrow> bool" where
  "stream_static sb \<longleftrightarrow> buf_wf (sb_buf_init sb) \<and> b_len (sb_buf_init sb) = 0 \<and> buf_wf (sb_buf sb)
     \<and> b_data (sb_buf_init sb) = b_data (sb_buf sb) \<and> b_capacity (sb_buf_init sb) = b_capacity (sb_buf sb)
     \<and> 2 \<le> sb_maxlen sb \<and> b_offset (sb_buf_init sb) + sb_maxlen sb + 2 \<le> b_capacity (sb_buf_init sb)
     \<and> buf_wf (sb_residual sb) \<and> b_offset (sb_residual sb) = 0 \<and> b_capacity (sb_residual sb) = sb_maxlen sb
     \<and> sb_port_share_state sb = PS_DISABLED \<and> \<not> sb_error sb"

definition header_phase :: "stream_buf \<Rightarrow> bool" where
  "header_phase sb \<longleftrightarrow> sb_len sb = - 1 \<and> b_offset (sb_buf sb) = b_offset (sb_buf_init sb)"

definition body_phase :: "stream_buf \<Rightarrow> bool" where
  "body_phase sb \<longleftrightarrow> 1 \<le> sb_len sb \<and> sb_len sb \<le> sb_maxlen sb \<and> sb_len sb < 65536
     \<and> b_offset (sb_buf sb) = b_offset (sb_buf_init sb) + 2"

text \<open>Between two rounds: nothing read that could be delivered, or a packet left over that is complete.\<close>

definition stream_ok :: "stream_buf \<Rightarrow> bool" where
  "stream_ok sb \<longleftrightarrow> stream_static sb
     \<and> (if sb_residual_fully_formed sb then body_phase sb \<and> b_len (sb_buf sb) = sb_len sb
        else header_phase sb \<and> b_len (sb_buf sb) < 2 \<and> (b_len (sb_buf sb) = 0 \<or> b_len (sb_residual sb) = 0)
          \<or> body_phase sb \<and> b_len (sb_buf sb) < sb_len sb \<and> b_len (sb_residual sb) = 0)"

text \<open>The bytes received and not yet delivered.\<close>

definition stream_pending :: "stream_buf \<Rightarrow> bytes" where
  "stream_pending sb = (if sb_len sb \<ge> 0 then be16_bytes (word_of_int (sb_len sb)) else [])
     @ buf_content (sb_buf sb) @ buf_content (sb_residual sb)"

text \<open>The next read is set up.\<close>

definition read_ready :: "stream_buf \<Rightarrow> bool" where
  "read_ready sb \<longleftrightarrow> stream_ok sb \<and> \<not> sb_residual_fully_formed sb \<and> b_len (sb_residual sb) = 0
     \<and> sb_next sb = (sb_buf sb)\<lparr>b_offset := b_offset (sb_buf sb) + b_len (sb_buf sb),
                            b_len := (if sb_len sb \<ge> 0 then sb_len sb else sb_maxlen sb) - b_len (sb_buf sb)\<rparr>"

text \<open>Cutting a packet from the head of a stream; \<open>Inl\<close> for a length that is not acceptable.\<close>

definition cut_packet :: "int \<Rightarrow> bytes \<Rightarrow> unit + (bytes \<times> bytes) option" where
  "cut_packet maxlen bs =
     (if length bs < 2 then Inr None
      else let n = unat (be16_of bs) in
        if n < 1 \<or> maxlen < int n then Inl ()
        else if n \<le> length bs - 2 then Inr (Some (take n (drop 2 bs), drop (n + 2) bs))
        else Inr None)"

lemma be16_of_take: "2 \<le> length bs \<Longrightarrow> be16_of (take 2 bs) = be16_of bs"
  by (simp add: be16_of_def)

lemma be16_bytes_of: "2 \<le> length bs \<Longrightarrow> be16_bytes (be16_of bs) = take 2 bs"
  by (cases bs; cases "tl bs") (auto simp: be16_bytes_def be16_of_def intro!: bit_word_eqI
    simp: bit_simps)

lemma cut_packet_frame:
  assumes "cut_packet m bs = Inr (Some (p, rest))"
  shows "bs = be16_bytes (of_nat (length p)) @ p @ rest"
proof -
  let ?n = "unat (be16_of bs)"
  have c: "2 \<le> length bs" "p = take ?n (drop 2 bs)" "rest = drop ?n (drop 2 bs)" "length p = ?n"
    using assms by (auto simp: cut_packet_def Let_def drop_drop split: if_splits)
  have "bs = take 2 bs @ take ?n (drop 2 bs) @ drop ?n (drop 2 bs)" by (simp only: append_take_drop_id)
  then show ?thesis using c be16_bytes_of [OF c(1)] by simp
qed

text \<open>Bytes have been added to the buffer: what may be there, before the length is looked at.\<close>

definition stream_raw :: "stream_buf \<Rightarrow> bool" where
  "stream_raw sb \<longleftrightarrow> stream_static sb \<and> \<not> sb_residual_fully_formed sb \<and> b_len (sb_residual sb) = 0
     \<and> (header_phase sb \<and> b_len (sb_buf sb) \<le> sb_maxlen sb \<or> body_phase sb \<and> b_len (sb_buf sb) \<le> sb_len sb)"

lemma set_next_law:
  assumes "stream_ok sb" "\<not> sb_residual_fully_formed sb" "b_len (sb_residual sb) = 0"
  shows "\<exists>sb'. stream_buf_set_next sb = Some sb' \<and> read_ready sb' \<and> stream_pending sb' = stream_pending sb
    \<and> sb_maxlen sb' = sb_maxlen sb"
proof -
  let ?b = "sb_buf sb" and ?n = "(if sb_len sb \<ge> 0 then sb_len sb else sb_maxlen sb) - b_len (sb_buf sb)"
  have st: "stream_static sb" using assms(1) by (simp add: stream_ok_def)
  have wf: "buf_wf ?b" and cap: "b_capacity ?b < 1000000" "0 \<le> b_offset (sb_buf_init sb)"
    using st by (auto simp: stream_static_def elim: buf_wfE)
  have n: "0 < ?n" "b_offset ?b + b_len ?b + ?n \<le> b_capacity ?b"
    using assms st by (auto simp: stream_ok_def header_phase_def body_phase_def stream_static_def)
  have "?n < 1000000" using n cap wf by (auto elim!: buf_wfE)
  then have sz: "int (size_t_of_int ?n) = ?n" using n(1) by (simp add: size_t_of_int_def)
  then have "buf_safe ?b (size_t_of_int ?n)" using wf n(2) by (simp add: buf_safe_iff buf_forward_capacity_eq)
  then have run: "stream_buf_set_next sb = Some (sb\<lparr>sb_next := ?b\<lparr>b_offset := b_offset ?b + b_len ?b, b_len := ?n\<rparr>\<rparr>)"
    using n(1) by (simp add: stream_buf_set_next_def Let_def)
  show ?thesis
    unfolding run using assms
    by (simp add: read_ready_def stream_ok_def stream_static_def header_phase_def body_phase_def stream_pending_def)
qed

text \<open>The packet at the head of the buffer is complete; what follows it goes to \<open>residual\<close>.\<close>

definition packet_ready :: "stream_buf \<Rightarrow> bytes \<Rightarrow> bytes \<Rightarrow> stream_buf \<Rightarrow> bool" where
  "packet_ready sb p rest sb' \<longleftrightarrow> stream_static sb' \<and> body_phase sb' \<and> sb_len sb' = int (length p)
     \<and> sb_residual_fully_formed sb' = sb_residual_fully_formed sb \<and> buf_content (sb_buf sb') = p
     \<and> b_len (sb_buf sb') = sb_len sb' \<and> buf_content (sb_residual sb') = rest \<and> sb_maxlen sb' = sb_maxlen sb"

lemma read_length_known: "0 \<le> sb_len sb \<Longrightarrow> stream_read_length sb = Some (sb, False)"
  by (simp add: stream_read_length_def)

lemma added_complete:
  assumes st: "stream_static sb" and ph: "body_phase sb" and n: "sb_len sb \<le> b_len (sb_buf sb)"
    and fit: "b_len (sb_buf sb) - sb_len sb \<le> sb_maxlen sb"
  shows "\<exists>sb'. stream_buf_added sb 0 = Some (sb', True)
    \<and> packet_ready sb (take (nat (sb_len sb)) (buf_content (sb_buf sb))) (drop (nat (sb_len sb)) (buf_content (sb_buf sb))) sb'"
proof -
  let ?b = "sb_buf sb" and ?n = "sb_len sb"
  have wf: "buf_wf ?b" "buf_wf (sb_residual sb)" "0 \<le> sb_maxlen sb" "b_capacity (sb_residual sb) = sb_maxlen sb"
    using st by (simp_all add: stream_static_def)
  have n1: "1 \<le> ?n" using ph by (simp add: body_phase_def)
  obtain res where res: "buf_init (sb_residual sb) 0 = (res, True)" "buf_wf res" "buf_content res = []" "b_offset res = 0"
    "b_capacity res = sb_maxlen sb" "buf_forward_capacity res = sb_maxlen sb"
    using buf_init_law [OF wf(2), of 0] wf(3,4) by auto
  have lenc: "length (buf_content ?b) = nat (b_len ?b)" by (rule length_buf_content_nat [OF wf(1)])
  show ?thesis
  proof (cases "b_len ?b > ?n")
    case False
    then have eq: "b_len ?b = ?n" using n by simp
    have "stream_buf_added sb 0 = Some (sb\<lparr>sb_residual := res\<rparr>, True)"
      using n1 eq res(1) by (simp add: stream_buf_added_def read_length_known Let_def)
    moreover have "packet_ready sb (take (nat ?n) (buf_content ?b)) (drop (nat ?n) (buf_content ?b)) (sb\<lparr>sb_residual := res\<rparr>)"
      using st ph res eq lenc n1 by (simp add: packet_ready_def stream_static_def body_phase_def)
    ultimately show ?thesis by blast
  next
    case True
    obtain b where b: "buf_advance ?b ?n = (b, True)" "buf_wf b" "buf_content b = drop (nat ?n) (buf_content ?b)" "b_len b = b_len ?b - ?n"
      using buf_advance_law [OF wf(1), of ?n] n1 n by auto
    obtain res' where res': "buf_copy res b = (res', True)" "buf_wf res'" "buf_content res' = buf_content res @ buf_content b"
      "b_offset res' = b_offset res" "b_capacity res' = b_capacity res"
      using buf_copy_law [OF res(2) b(2)] b(4) fit res(6) by auto
    have ex: "buf_copy_excess res ?b ?n = (res', ?b\<lparr>b_len := ?n\<rparr>, True)"
      using True n1 b(1) res'(1) by (simp add: buf_copy_excess_def)
    have shrink: "buf_wf (?b\<lparr>b_len := ?n\<rparr>)" "buf_content (?b\<lparr>b_len := ?n\<rparr>) = take (nat ?n) (buf_content ?b)"
      using buf_content_shrink [OF wf(1), of ?n] n1 n by simp_all
    have "stream_buf_added sb 0 = Some (sb\<lparr>sb_residual := res', sb_buf := ?b\<lparr>b_len := ?n\<rparr>\<rparr>, True)"
      using n1 True res(1) ex by (simp add: stream_buf_added_def read_length_known Let_def)
    moreover have "packet_ready sb (take (nat ?n) (buf_content ?b)) (drop (nat ?n) (buf_content ?b))
        (sb\<lparr>sb_residual := res', sb_buf := ?b\<lparr>b_len := ?n\<rparr>\<rparr>)"
      using st ph res res' b shrink lenc n1 n by (simp add: packet_ready_def stream_static_def body_phase_def)
    ultimately show ?thesis by blast
  qed
qed

lemma added_incomplete:
  assumes "stream_ok sb" "\<not> sb_residual_fully_formed sb" "b_len (sb_residual sb) = 0"
    and "stream_read_length sb = Some (sb, False)"
  shows "\<exists>sb'. stream_buf_added sb 0 = Some (sb', False) \<and> read_ready sb' \<and> stream_pending sb' = stream_pending sb
    \<and> sb_maxlen sb' = sb_maxlen sb"
proof -
  obtain sb' where "stream_buf_set_next sb = Some sb'" "read_ready sb'" "stream_pending sb' = stream_pending sb" "sb_maxlen sb' = sb_maxlen sb"
    using set_next_law [OF assms(1-3)] by blast
  moreover have "\<not> (sb_len sb > 0 \<and> b_len (sb_buf sb) \<ge> sb_len sb)"
    using assms(1,2) by (auto simp: stream_ok_def header_phase_def)
  ultimately show ?thesis using assms(4) by (auto simp: stream_buf_added_def Let_def)
qed

lemma added_again:
  assumes "stream_read_length sb = Some (sb1, False)" "0 \<le> sb_len sb1"
  shows "stream_buf_added sb 0 = stream_buf_added sb1 0"
  using assms by (simp add: stream_buf_added_def read_length_known Let_def)

text \<open>
  Bytes have been added: \<open>stream_buf_added\<close> cuts a packet from the bytes held, or waits for more,
  or flags the error.
\<close>

lemma added_law:
  assumes raw: "stream_raw sb"
  shows "case cut_packet (sb_maxlen sb) (stream_pending sb) of
      Inl _ \<Rightarrow> \<exists>sb'. stream_buf_added sb 0 = Some (sb', False) \<and> sb_error sb'
    | Inr None \<Rightarrow> \<exists>sb'. stream_buf_added sb 0 = Some (sb', False) \<and> read_ready sb' \<and> stream_pending sb' = stream_pending sb
         \<and> sb_maxlen sb' = sb_maxlen sb
    | Inr (Some (p, rest)) \<Rightarrow> \<exists>sb'. stream_buf_added sb 0 = Some (sb', True) \<and> packet_ready sb p rest sb'"
proof -
  let ?b = "sb_buf sb"
  have st: "stream_static sb" and nf: "\<not> sb_residual_fully_formed sb" and r0: "b_len (sb_residual sb) = 0"
    using raw by (simp_all add: stream_raw_def)
  have wf: "buf_wf ?b" "buf_wf (sb_residual sb)" using st by (simp_all add: stream_static_def)
  have r: "buf_content (sb_residual sb) = []" using b_len_0_iff [OF wf(2)] r0 by simp
  have lenc: "length (buf_content ?b) = nat (b_len ?b)" by (rule length_buf_content_nat [OF wf(1)])
  have b0: "0 \<le> b_len ?b" using wf(1) by (auto elim: buf_wfE)
  from raw consider (header) "header_phase sb" "b_len ?b \<le> sb_maxlen sb" | (body) "body_phase sb" "b_len ?b \<le> sb_len sb"
    by (auto simp: stream_raw_def)
  then show ?thesis
  proof cases
    case body
    define n where "n = nat (sb_len sb)"
    have n: "sb_len sb = int n" "1 \<le> n" "n < 65536" "int n \<le> sb_maxlen sb" using body(1) by (auto simp: body_phase_def n_def)
    have un: "unat (word_of_int (sb_len sb) :: u16) = n" unfolding n(1) using n(3) by (simp add: unat_of_nat)
    have pend: "stream_pending sb = be16_bytes (word_of_int (sb_len sb)) @ buf_content ?b" using n r by (simp add: stream_pending_def)
    have l2: "2 \<le> length (stream_pending sb)" by (simp add: pend)
    have hd: "be16_of (stream_pending sb) = word_of_int (sb_len sb)"
      using be16_of_take [OF l2] by (simp add: pend)
    have cut: "cut_packet (sb_maxlen sb) (stream_pending sb)
        = (if n \<le> length (buf_content ?b) then Inr (Some (take n (buf_content ?b), drop n (buf_content ?b))) else Inr None)"
      unfolding cut_packet_def hd un Let_def using n l2 by (simp add: pend)
    show ?thesis
    proof (cases "sb_len sb \<le> b_len ?b")
      case True
      have le: "n \<le> length (buf_content ?b)" using True n(1) lenc by simp
      have "b_len ?b - sb_len sb \<le> sb_maxlen sb" using body(2) st by (simp add: stream_static_def)
      from added_complete [OF st body(1) True this] show ?thesis unfolding cut using le by (simp add: n_def)
    next
      case False
      have ok: "stream_ok sb" using False nf r0 st body by (simp add: stream_ok_def)
      have lt: "\<not> n \<le> length (buf_content ?b)" using False n(1) lenc b0 by simp
      have "stream_read_length sb = Some (sb, False)" using n(1) by (simp add: read_length_known)
      from added_incomplete [OF ok nf r0 this] show ?thesis unfolding cut using lt by simp
    qed
  next
    case header
    have pend: "stream_pending sb = buf_content ?b" using header r by (simp add: stream_pending_def header_phase_def)
    show ?thesis
    proof (cases "b_len ?b < 2")
      case True
      have "stream_ok sb" using True nf r0 st header by (simp add: stream_ok_def)
      moreover have "stream_read_length sb = Some (sb, False)" using True by (simp add: stream_read_length_def)
      moreover have "length (buf_content ?b) < 2" using True b0 lenc by linarith
      then have "cut_packet (sb_maxlen sb) (stream_pending sb) = Inr None" by (simp add: cut_packet_def pend)
      ultimately show ?thesis using added_incomplete [of sb] nf r0 by simp
    next
      case False
      obtain b where b: "buf_read ?b 2 = (b, Some (take (nat 2) (buf_content ?b)))" "buf_wf b" "buf_content b = drop (nat 2) (buf_content ?b)"
        "b_offset b = b_offset ?b + 2" "b_capacity b = b_capacity ?b" "b_len b = b_len ?b - 2"
        using buf_read_law [OF wf(1), of 2] False by auto
      have data: "b_data b = b_data ?b" using b(1) False by (auto simp: buf_read_def buf_read_alloc_def buf_bptr_def split: if_splits)
      have l2: "2 \<le> length (buf_content ?b)" using False lenc by simp
      define n where "n = unat (be16_of (buf_content ?b))"
      let ?sb = "sb\<lparr>sb_buf := b, sb_len := uint (be16_of (buf_content ?b))\<rparr>"
      have un: "uint (be16_of (buf_content ?b)) = int n" by (simp add: n_def)
      have n16: "n < 65536" using unsigned_less [of "be16_of (buf_content ?b)", where ?'a = nat] by (simp add: n_def)
      have rl: "stream_read_length sb = (if n < 1 \<or> sb_maxlen sb < int n then Some ((stream_buf_reset ?sb)\<lparr>sb_error := True\<rparr>, True) else Some (?sb, False))"
        using header(1) st False b(1) l2
        by (simp add: stream_read_length_def header_phase_def stream_static_def be16_of_take Let_def un)
      show ?thesis
      proof (cases "n < 1 \<or> sb_maxlen sb < int n")
        case True
        then show ?thesis using rl pend l2 by (simp add: cut_packet_def stream_buf_added_def Let_def flip: n_def)
      next
        case ok: False
        have st': "stream_static ?sb" using st b data by (simp add: stream_static_def)
        have ph: "body_phase ?sb" using ok header(1) b(4) n16 by (simp add: body_phase_def header_phase_def un)
        have again: "stream_buf_added sb 0 = stream_buf_added ?sb 0" using added_again [of sb ?sb] rl ok by simp
        have cut: "cut_packet (sb_maxlen sb) (stream_pending sb)
            = (if n \<le> length (buf_content ?b) - 2 then Inr (Some (take n (buf_content b), drop n (buf_content b))) else Inr None)"
          using ok l2 b(3) by (auto simp: cut_packet_def pend Let_def drop_drop simp flip: n_def)
        show ?thesis
        proof (cases "int n \<le> b_len b")
          case True
          have "b_len b - int n \<le> sb_maxlen sb" using header(2) b(6) by simp
          then obtain sb' where "stream_buf_added ?sb 0 = Some (sb', True)" "packet_ready ?sb (take n (buf_content b)) (drop n (buf_content b)) sb'"
            using added_complete [OF st' ph] True by (auto simp: un)
          moreover have "n \<le> length (buf_content ?b) - 2" using True lenc b(6) by simp
          ultimately show ?thesis unfolding cut again by (auto simp: packet_ready_def)
        next
          case False
          have "stream_ok ?sb" using False nf r0 st' ph by (simp add: stream_ok_def un)
          moreover have "stream_pending ?sb = stream_pending sb"
            using l2 b(3) r header(1) by (simp add: stream_pending_def header_phase_def be16_bytes_of)
          moreover have "stream_read_length ?sb = Some (?sb, False)" by (simp add: read_length_known)
          moreover have "\<not> n \<le> length (buf_content ?b) - 2" using False lenc b(6) l2 by linarith
          ultimately show ?thesis using added_incomplete [of ?sb] nf r0 unfolding cut again by simp
        qed
      qed
    qed
  qed
qed

subsection \<open>A round of the event loop\<close>

text \<open>\<open>read_ready\<close> and \<open>recv\<close>: the bytes come after those already there.\<close>

lemma write_extends:
  assumes "buf_wf b" "int (length bs) \<le> buf_forward_capacity b"
  shows "(set_data (b_data (buf_poke (b\<lparr>b_offset := p, b_len := n\<rparr>) (b_offset b + b_len b) bs)) b)\<lparr>b_len := b_len b + int (length bs)\<rparr>
    = fst (buf_write b bs)"
  using assms by (auto simp: buf_write_def buf_write_alloc_def buf_safe_iff buf_poke_def set_data_def buf_defined_def elim!: buf_wfE)

lemma recv_raw:
  assumes rd: "read_ready sb" and bs: "bs \<noteq> []" "int (length bs) \<le> b_len (sb_next sb)"
  shows "\<exists>sb'. stream_buf_added (stream_recv sb (sb_next sb) bs) (int (length bs)) = stream_buf_added sb' 0 \<and> stream_raw sb'
    \<and> stream_pending sb' = stream_pending sb @ bs \<and> sb_maxlen sb' = sb_maxlen sb"
proof -
  let ?b = "sb_buf sb" and ?sb = "stream_recv sb (sb_next sb) bs"
  let ?sb' = "?sb\<lparr>sb_buf := (sb_buf ?sb)\<lparr>b_len := b_len (sb_buf ?sb) + int (length bs)\<rparr>\<rparr>"
  have ok: "stream_ok sb" "\<not> sb_residual_fully_formed sb" "b_len (sb_residual sb) = 0" using rd by (simp_all add: read_ready_def)
  have st: "stream_static sb" using ok(1) by (simp add: stream_ok_def)
  have wf: "buf_wf ?b" "buf_wf (sb_buf_init sb)" "buf_wf (sb_residual sb)" using st by (simp_all add: stream_static_def)
  have nx: "sb_next sb = ?b\<lparr>b_offset := b_offset ?b + b_len ?b, b_len := (if sb_len sb \<ge> 0 then sb_len sb else sb_maxlen sb) - b_len ?b\<rparr>"
    using rd by (simp add: read_ready_def)
  have room: "int (length bs) \<le> buf_forward_capacity ?b"
    using bs(2) st ok by (auto simp: nx buf_forward_capacity_eq stream_static_def stream_ok_def header_phase_def body_phase_def)
  have fit: "b_len ?b + int (length bs) \<le> (if sb_len sb \<ge> 0 then sb_len sb else sb_maxlen sb)" using bs(2) by (simp add: nx)
  obtain b where b: "buf_write ?b bs = (b, True)" "buf_wf b" "buf_content b = buf_content ?b @ bs" "b_offset b = b_offset ?b"
    "b_capacity b = b_capacity ?b" "b_len b = b_len ?b + int (length bs)"
    using buf_write_law [OF wf(1) room] by metis
  define k where "k = (if sb_len sb \<ge> 0 then sb_len sb else sb_maxlen sb) - b_len ?b"
  have len0: "b_len (sb_buf ?sb) = b_len ?b" by (simp add: stream_recv_def sb_share_def set_data_def)
  have "sb_buf ?sb = set_data (b_data (buf_poke (?b\<lparr>b_offset := b_offset ?b + b_len ?b, b_len := k\<rparr>) (b_offset ?b + b_len ?b) bs)) ?b"
    by (simp add: stream_recv_def sb_share_def nx k_def)
  then have buf: "sb_buf ?sb' = b"
    using write_extends [OF wf(1) room, where p = "b_offset ?b + b_len ?b" and n = k] b(1) len0 by simp
  have d: "b_data (sb_buf_init ?sb') = b_data b"
    using wf by (auto simp: stream_recv_def sb_share_def set_data_def buf_defined_def simp flip: buf elim!: buf_wfE)
  have cap: "int (length (the (b_data b))) = b_capacity ?b" "b_data b \<noteq> None" using b(2,5) by (auto elim: buf_wfE)
  have init: "sb_buf_init ?sb' = (sb_buf_init sb)\<lparr>b_data := b_data b\<rparr>"
    using wf(2) d by (auto simp: stream_recv_def sb_share_def set_data_def buf_defined_def elim!: buf_wfE)
  have same: "sb_residual ?sb' = sb_residual sb" "sb_maxlen ?sb' = sb_maxlen sb" "sb_len ?sb' = sb_len sb"
    "sb_residual_fully_formed ?sb' = sb_residual_fully_formed sb" "sb_port_share_state ?sb' = sb_port_share_state sb" "sb_error ?sb' = sb_error sb"
    by (simp_all add: stream_recv_def sb_share_def)
  have "buf_wf ((sb_buf_init sb)\<lparr>b_data := b_data b\<rparr>)"
    using wf(2) cap st by (auto simp: buf_wf_def stream_static_def)
  then have st': "stream_static ?sb'"
    using st b unfolding stream_static_def buf init same by (simp add: stream_static_def)
  have raw: "stream_raw ?sb'"
    using st' ok fit b(4,6) unfolding stream_raw_def header_phase_def body_phase_def buf init same
    by (auto simp: stream_ok_def header_phase_def body_phase_def)
  have "stream_pending ?sb' = stream_pending sb @ bs"
    unfolding stream_pending_def buf same using b(3) b_len_0_iff [OF wf(3)] ok(3) by simp
  moreover have "stream_buf_added ?sb (int (length bs)) = stream_buf_added ?sb' 0"
    using bs(1) by (simp add: stream_buf_added_def)
  ultimately show ?thesis using raw same(2) by blast
qed

lemma ready_cut:
  assumes "stream_ok sb" "\<not> sb_residual_fully_formed sb" "b_len (sb_residual sb) = 0"
  shows "cut_packet (sb_maxlen sb) (stream_pending sb) = Inr None"
proof -
  let ?b = "sb_buf sb"
  have wf: "buf_wf ?b" "buf_wf (sb_residual sb)" using assms(1) by (simp_all add: stream_ok_def stream_static_def)
  have r: "buf_content (sb_residual sb) = []" using b_len_0_iff [OF wf(2)] assms(3) by simp
  have lenc: "int (length (buf_content ?b)) = b_len ?b" by (rule length_buf_content [OF wf(1)])
  from assms(1,2) consider (header) "header_phase sb" "b_len ?b < 2" | (body) "body_phase sb" "b_len ?b < sb_len sb"
    by (auto simp: stream_ok_def)
  then show ?thesis
  proof cases
    case header
    then show ?thesis using lenc r by (simp add: stream_pending_def header_phase_def cut_packet_def)
  next
    case body
    define n where "n = nat (sb_len sb)"
    have n: "sb_len sb = int n" "1 \<le> n" "n < 65536" "int n \<le> sb_maxlen sb" using body(1) by (auto simp: body_phase_def n_def)
    have un: "unat (word_of_int (sb_len sb) :: u16) = n" unfolding n(1) using n(3) by (simp add: unat_of_nat)
    have pend: "stream_pending sb = be16_bytes (word_of_int (sb_len sb)) @ buf_content ?b" using n(1) r by (simp add: stream_pending_def)
    have l2: "2 \<le> length (stream_pending sb)" by (simp add: pend)
    have hd: "be16_of (stream_pending sb) = word_of_int (sb_len sb)" using be16_of_take [OF l2] by (simp add: pend)
    have "\<not> n \<le> length (stream_pending sb) - 2" using body(2) lenc n(1) by (simp add: pend)
    then show ?thesis unfolding cut_packet_def hd un Let_def using n l2 by simp
  qed
qed

text \<open>Delivering a packet leaves the rest in \<open>residual\<close>.\<close>

lemma stream_deliver_law:
  assumes "packet_ready sb p rest sb'"
  shows "stream_buf_get_final sb' = Some (sb_buf sb') \<and> stream_ok (stream_buf_reset sb') \<and> \<not> sb_residual_fully_formed (stream_buf_reset sb')
    \<and> stream_pending (stream_buf_reset sb') = rest \<and> sb_maxlen (stream_buf_reset sb') = sb_maxlen sb \<and> 0 < b_len (sb_buf sb')"
proof -
  have st: "stream_static sb'" "body_phase sb'" "buf_content (sb_residual sb') = rest" "sb_maxlen sb' = sb_maxlen sb" "b_len (sb_buf sb') = sb_len sb'"
    using assms by (simp_all add: packet_ready_def)
  have wf: "buf_wf (sb_buf sb')" "buf_wf (sb_buf_init sb')" "b_len (sb_buf_init sb') = 0" using st(1) by (simp_all add: stream_static_def)
  have "buf_content (sb_buf_init sb') = []" using b_len_0_iff [OF wf(2)] wf(3) by simp
  moreover have "buf_defined (sb_buf sb')" using wf(1) by (auto simp: buf_defined_def elim: buf_wfE)
  ultimately show ?thesis
    using st wf
    by (simp add: stream_buf_get_final_def stream_buf_reset_def stream_ok_def stream_static_def header_phase_def stream_pending_def body_phase_def)
qed

lemma formed_ready:
  assumes "stream_ok sb" "sb_residual_fully_formed sb"
  shows "packet_ready sb (buf_content (sb_buf sb)) (buf_content (sb_residual sb)) sb
    \<and> stream_pending sb = be16_bytes (of_nat (length (buf_content (sb_buf sb)))) @ buf_content (sb_buf sb) @ buf_content (sb_residual sb)"
proof -
  have "sb_len sb = int (length (buf_content (sb_buf sb)))"
    using assms length_buf_content [of "sb_buf sb"] by (simp add: stream_ok_def stream_static_def)
  then show ?thesis using assms by (auto simp: packet_ready_def stream_ok_def stream_pending_def body_phase_def)
qed

text \<open>Before the read: what was left over is moved to the buffer.\<close>

lemma setup_copy_raw:
  assumes ok: "stream_ok sb" "\<not> sb_residual_fully_formed sb" "b_len (sb_residual sb) \<noteq> 0"
  shows "\<exists>buf res. buf_copy (sb_buf sb) (sb_residual sb) = (buf, True)
    \<and> buf_init (sb_residual (sb_share buf (sb\<lparr>sb_buf := buf\<rparr>))) 0 = (res, True)
    \<and> stream_raw (sb_share buf (sb\<lparr>sb_buf := buf\<rparr>)\<lparr>sb_residual := res\<rparr>)
    \<and> stream_pending (sb_share buf (sb\<lparr>sb_buf := buf\<rparr>)\<lparr>sb_residual := res\<rparr>) = stream_pending sb"
proof -
  let ?b = "sb_buf sb" and ?r = "sb_residual sb"
  have st: "stream_static sb" and hd: "header_phase sb" "b_len ?b = 0" using ok by (auto simp: stream_ok_def)
  have wf: "buf_wf ?b" "buf_wf (sb_buf_init sb)" "buf_wf ?r" using st by (simp_all add: stream_static_def)
  have rl: "b_len ?r \<le> sb_maxlen sb" using st by (auto simp: stream_static_def elim!: buf_wfE)
  have room: "b_len ?r \<le> buf_forward_capacity ?b"
    using rl st hd by (simp add: buf_forward_capacity_eq stream_static_def header_phase_def)
  obtain b where b: "buf_copy ?b ?r = (b, True)" "buf_wf b" "buf_content b = buf_content ?b @ buf_content ?r" "b_offset b = b_offset ?b" "b_capacity b = b_capacity ?b"
    using buf_copy_law [OF wf(1,3) room] by metis
  have "buf_content ?b = []" using b_len_0_iff [OF wf(1)] hd(2) by simp
  then have bc: "buf_content b = buf_content ?r" using b(3) by simp
  have blen: "b_len b = b_len ?r" using length_buf_content [OF b(2)] length_buf_content [OF wf(3)] bc by simp
  obtain res where res: "buf_init ?r 0 = (res, True)" "buf_wf res" "buf_content res = []" "b_offset res = 0" "b_capacity res = b_capacity ?r"
    using buf_init_law [OF wf(3), of 0] wf(3) by (metis buf_wfE order_refl of_nat_0_le_iff)
  have res0: "b_len res = 0" using b_len_0_iff [OF res(2)] res(3) by simp
  let ?sb = "sb_share b (sb\<lparr>sb_buf := b\<rparr>)\<lparr>sb_residual := res\<rparr>"
  have buf: "sb_buf ?sb = b" using b(2) by (auto simp: sb_share_def set_data_def)
  have init: "sb_buf_init ?sb = (sb_buf_init sb)\<lparr>b_data := b_data b\<rparr>"
    using wf(2) by (auto simp: sb_share_def set_data_def buf_defined_def elim!: buf_wfE)
  have same: "sb_residual ?sb = res" "sb_maxlen ?sb = sb_maxlen sb" "sb_len ?sb = sb_len sb"
    "sb_residual_fully_formed ?sb = sb_residual_fully_formed sb" "sb_port_share_state ?sb = sb_port_share_state sb" "sb_error ?sb = sb_error sb"
    by (simp_all add: sb_share_def)
  have "buf_wf ((sb_buf_init sb)\<lparr>b_data := b_data b\<rparr>)"
    using wf(2) b(2,5) st by (auto simp: buf_wf_def stream_static_def)
  then have "stream_static ?sb"
    using st b res unfolding stream_static_def buf init same by (simp add: stream_static_def)
  then have "stream_raw ?sb"
    using hd(1) ok(2) blen rl b(4) res0 unfolding stream_raw_def header_phase_def buf init same by simp
  moreover have "stream_pending ?sb = stream_pending sb"
    unfolding stream_pending_def buf same using bc res(3) \<open>buf_content ?b = []\<close> by simp
  moreover have "sb_residual (sb_share b (sb\<lparr>sb_buf := b\<rparr>)) = ?r" by (simp add: sb_share_def)
  ultimately show ?thesis using b(1) res(1) by (intro exI [of _ b] exI [of _ res]) simp
qed

lemma setup_law:
  assumes ok: "stream_ok (ls_stream_buf sock)" and cut: "cut_packet (sb_maxlen (ls_stream_buf sock)) (stream_pending (ls_stream_buf sock)) \<noteq> Inl ()"
  shows "\<exists>sb want. stream_buf_read_setup_dowork sock = Some (sock\<lparr>ls_stream_buf := sb\<rparr>, want)
    \<and> stream_pending sb = stream_pending (ls_stream_buf sock) \<and> sb_maxlen sb = sb_maxlen (ls_stream_buf sock)
    \<and> (if want then read_ready sb else stream_ok sb \<and> sb_residual_fully_formed sb)"
proof -
  let ?sb = "ls_stream_buf sock"
  show ?thesis
  proof (cases "sb_residual_fully_formed ?sb")
    case True
    then have "stream_buf_read_setup_dowork sock = Some (sock\<lparr>ls_stream_buf := ?sb\<rparr>, False)"
      by (simp add: stream_buf_read_setup_dowork_def Let_def)
    then show ?thesis using True ok by (intro exI [of _ ?sb] exI [of _ False]) simp
  next
    case nf: False
    show ?thesis
    proof (cases "b_len (sb_residual ?sb) = 0")
      case True
      obtain sb where sb: "stream_buf_set_next ?sb = Some sb" "read_ready sb" "stream_pending sb = stream_pending ?sb" "sb_maxlen sb = sb_maxlen ?sb"
        using set_next_law [OF ok nf True] by blast
      then have "stream_buf_read_setup_dowork sock = Some (sock\<lparr>ls_stream_buf := sb\<rparr>, True)"
        using True nf by (simp add: stream_buf_read_setup_dowork_def Let_def read_ready_def)
      then show ?thesis using sb by (intro exI [of _ sb] exI [of _ True]) simp
    next
      case False
      obtain b res where c: "buf_copy (sb_buf ?sb) (sb_residual ?sb) = (b, True)"
        "buf_init (sb_residual (sb_share b (?sb\<lparr>sb_buf := b\<rparr>))) 0 = (res, True)"
        "stream_raw (sb_share b (?sb\<lparr>sb_buf := b\<rparr>)\<lparr>sb_residual := res\<rparr>)"
        "stream_pending (sb_share b (?sb\<lparr>sb_buf := b\<rparr>)\<lparr>sb_residual := res\<rparr>) = stream_pending ?sb"
        using setup_copy_raw [OF ok nf False] by blast
      let ?r = "sb_share b (?sb\<lparr>sb_buf := b\<rparr>)\<lparr>sb_residual := res\<rparr>"
      have ml: "sb_maxlen ?r = sb_maxlen ?sb" by (simp add: sb_share_def)
      have run: "stream_buf_read_setup_dowork sock = do {
          (sb, formed) \<leftarrow> stream_buf_added ?r 0;
          sb \<leftarrow> (if \<not> formed then stream_buf_set_next (sb\<lparr>sb_residual_fully_formed := formed\<rparr>) else Some (sb\<lparr>sb_residual_fully_formed := formed\<rparr>));
          Some (sock\<lparr>ls_stream_buf := sb\<rparr>, \<not> sb_residual_fully_formed sb) }"
        using nf False c(1,2) by (simp add: stream_buf_read_setup_dowork_def Let_def split: option.split)
          (cases "stream_buf_added ?r 0"; simp split: prod.splits)
      have ok': "stream_ok (sb\<lparr>sb_residual_fully_formed := True\<rparr>)" "stream_pending (sb\<lparr>sb_residual_fully_formed := True\<rparr>) = be16_bytes (of_nat (length p)) @ p @ rest"
        if "packet_ready ?r p rest sb" for p rest sb
        using that by (auto simp: packet_ready_def stream_ok_def stream_static_def body_phase_def stream_pending_def)
      show ?thesis
      proof (cases "cut_packet (sb_maxlen ?sb) (stream_pending ?sb)")
        case (Inl u)
        then show ?thesis using cut by simp
      next
        case (Inr r)
        show ?thesis
        proof (cases r)
          case None
          obtain sb where sb: "stream_buf_added ?r 0 = Some (sb, False)" "read_ready sb" "stream_pending sb = stream_pending ?sb" "sb_maxlen sb = sb_maxlen ?sb"
            using added_law [OF c(3)] unfolding ml c(4) Inr None by auto
          have e: "sb\<lparr>sb_residual_fully_formed := False\<rparr> = sb" using sb(2) by (cases sb) (simp add: read_ready_def)
          obtain sb' where "stream_buf_set_next sb = Some sb'" "read_ready sb'" "stream_pending sb' = stream_pending sb" "sb_maxlen sb' = sb_maxlen sb"
            using set_next_law [of sb] sb(2) by (auto simp: read_ready_def)
          then show ?thesis using sb(2-4) unfolding run sb(1)
            by (intro exI [of _ sb'] exI [of _ True]) (simp add: e read_ready_def)
        next
          case (Some pr)
          obtain p rest where pr: "pr = (p, rest)" by (cases pr)
          obtain sb where sb: "stream_buf_added ?r 0 = Some (sb, True)" "packet_ready ?r p rest sb"
            using added_law [OF c(3)] unfolding ml c(4) Inr Some pr by auto
          have "be16_bytes (of_nat (length p)) @ p @ rest = stream_pending ?sb"
            using cut_packet_frame [OF Inr [unfolded Some pr]] by (rule sym)
          then show ?thesis using sb ok' [OF sb(2)] ml unfolding run
            by (intro exI [of _ "sb\<lparr>sb_residual_fully_formed := True\<rparr>"] exI [of _ False]) (simp add: packet_ready_def)
        qed
      qed
    qed
  qed
qed

text \<open>One round: set up, wait until the socket is readable, read. The kernel delivers at most \<open>k\<close> bytes.\<close>

definition tcp_round :: "nat \<Rightarrow> link_socket \<times> bytes \<Rightarrow> (link_socket \<times> bytes \<times> bytes list) option" where
  "tcp_round k sw = do {
     (sock, want) \<leftarrow> stream_buf_read_setup_dowork (fst sw);
     (if want \<and> snd sw = [] then Some (sock, [], [])
      else do {
        let got = (if want then take (min k (nat (b_len (sb_next (ls_stream_buf sock))))) (snd sw) else []);
        (sock, buf, ret) \<leftarrow> link_socket_read_tcp sock (Some got) clear_buf;
        Some (sock, drop (length got) (snd sw), if ret > 0 then [buf_content buf] else []) }) }"

fun tcp_rounds :: "nat list \<Rightarrow> link_socket \<times> bytes \<Rightarrow> (link_socket \<times> bytes \<times> bytes list) option" where
  "tcp_rounds [] sw = Some (fst sw, snd sw, [])"
| "tcp_rounds (k # ks) sw = do {
     (sock, wire, out) \<leftarrow> tcp_round k sw;
     (sock, wire, outs) \<leftarrow> tcp_rounds ks (sock, wire);
     Some (sock, wire, out @ outs) }"

definition tcp_frame :: "bytes \<Rightarrow> bytes" where
  "tcp_frame p = be16_bytes (of_nat (length p)) @ p"

definition tcp_packet_ok :: "link_socket \<Rightarrow> bytes \<Rightarrow> bool" where
  "tcp_packet_ok sock p \<longleftrightarrow> p \<noteq> [] \<and> length p < 2 ^ 16 \<and> int (length p) \<le> sb_maxlen (ls_stream_buf sock)"

definition socket_ok :: "link_socket \<Rightarrow> bool" where
  "socket_ok sock \<longleftrightarrow> ls_sd_defined sock \<and> \<not> ls_stream_reset sock \<and> stream_ok (ls_stream_buf sock)"

lemma cut_frames:
  assumes "x @ y = concat (map tcp_frame ps)" "\<forall>p \<in> set ps. p \<noteq> [] \<and> length p < 2 ^ 16 \<and> int (length p) \<le> m"
  shows "cut_packet m x = Inr None \<and> (y = [] \<longrightarrow> ps = [])
    \<or> (\<exists>p ps' rest. ps = p # ps' \<and> cut_packet m x = Inr (Some (p, rest)) \<and> rest @ y = concat (map tcp_frame ps'))"
proof (cases ps)
  case Nil
  then show ?thesis using assms(1) by (simp add: cut_packet_def)
next
  case (Cons p ps')
  let ?h = "be16_bytes (of_nat (length p))"
  have p: "p \<noteq> []" "length p < 65536" "int (length p) \<le> m" using assms(2) Cons by simp_all
  have xy: "x @ y = ?h @ p @ concat (map tcp_frame ps')" using assms(1) Cons by (simp add: tcp_frame_def)
  show ?thesis
  proof (cases "length x < length p + 2")
    case True
    have "y \<noteq> []" using xy True by (auto dest: arg_cong [of _ _ length])
    moreover have "cut_packet m x = Inr None"
    proof (cases "length x < 2")
      case False
      then have "take 2 x = ?h" using arg_cong [OF xy, of "take 2"] by simp
      then have hd: "be16_of x = of_nat (length p)" using be16_of_take [of x] False by (metis be16_of_bytes not_less)
      have "unat (of_nat (length p) :: u16) = length p" using p(2) by (simp add: unat_of_nat)
      then show ?thesis unfolding cut_packet_def hd Let_def using False True p by simp
    qed (simp add: cut_packet_def)
    ultimately show ?thesis by blast
  next
    case False
    have t: "take 2 x = ?h" using arg_cong [OF xy, of "take 2"] False by simp
    then have hd: "be16_of x = of_nat (length p)" using be16_of_take [of x] False by (metis be16_of_bytes add_leE not_less)
    have un: "unat (of_nat (length p) :: u16) = length p" using p(2) by (simp add: unat_of_nat)
    have d: "drop 2 x @ y = p @ concat (map tcp_frame ps')" using arg_cong [OF xy, of "drop 2"] False by simp
    have "take (length p) (drop 2 x) = p" using arg_cong [OF d, of "take (length p)"] False by simp
    moreover have "drop (length p + 2) x @ y = concat (map tcp_frame ps')"
      using arg_cong [OF d, of "drop (length p)"] False by (simp add: drop_drop add.commute)
    ultimately have "cut_packet m x = Inr (Some (p, drop (length p + 2) x))"
      unfolding cut_packet_def hd un Let_def using False p by simp
    then show ?thesis using Cons \<open>drop (length p + 2) x @ y = _\<close> by blast
  qed
qed

text \<open>
  The invariant of the reader: what is held and what is still in the network are the packets not
  yet delivered. Every round delivers a packet or takes bytes from the network.
\<close>

definition reader_inv :: "link_socket \<Rightarrow> bytes \<Rightarrow> bytes list \<Rightarrow> bool" where
  "reader_inv sock wire ps \<longleftrightarrow> socket_ok sock \<and> stream_pending (ls_stream_buf sock) @ wire = concat (map tcp_frame ps)
     \<and> (\<forall>p \<in> set ps. tcp_packet_ok sock p)"

lemma round_law:
  assumes inv: "reader_inv sock wire ps" and k: "0 < k"
  shows "\<exists>sock' wire' out ps'. tcp_round k (sock, wire) = Some (sock', wire', out) \<and> ps = out @ ps'
    \<and> reader_inv sock' wire' ps' \<and> (ps = [] \<or> length wire' + length ps' < length wire + length ps)
    \<and> sb_maxlen (ls_stream_buf sock') = sb_maxlen (ls_stream_buf sock)"
proof -
  let ?sb = "ls_stream_buf sock" and ?m = "sb_maxlen (ls_stream_buf sock)"
  have ok: "ls_sd_defined sock" "\<not> ls_stream_reset sock" "stream_ok ?sb" and pw: "stream_pending ?sb @ wire = concat (map tcp_frame ps)"
    and ps: "\<forall>p \<in> set ps. p \<noteq> [] \<and> length p < 2 ^ 16 \<and> int (length p) \<le> ?m"
    using inv by (simp_all add: reader_inv_def socket_ok_def tcp_packet_ok_def)
  have "cut_packet ?m (stream_pending ?sb) \<noteq> Inl ()" using cut_frames [OF pw ps] by auto
  then obtain sb want where su: "stream_buf_read_setup_dowork sock = Some (sock\<lparr>ls_stream_buf := sb\<rparr>, want)"
    "stream_pending sb = stream_pending ?sb" "sb_maxlen sb = ?m" "if want then read_ready sb else stream_ok sb \<and> sb_residual_fully_formed sb"
    using setup_law [OF ok(3)] by blast
  show ?thesis
  proof (cases want)
    case False
    then have f: "stream_ok sb" "sb_residual_fully_formed sb" using su(4) by simp_all
    let ?p = "buf_content (sb_buf sb)" and ?rest = "buf_content (sb_residual sb)"
    have fr: "packet_ready sb ?p ?rest sb" "stream_pending sb = be16_bytes (of_nat (length ?p)) @ ?p @ ?rest"
      using formed_ready [OF f] by simp_all
    have dl: "stream_buf_get_final sb = Some (sb_buf sb)" "stream_ok (stream_buf_reset sb)" "stream_pending (stream_buf_reset sb) = ?rest"
      "sb_maxlen (stream_buf_reset sb) = ?m" "0 < b_len (sb_buf sb)"
      using stream_deliver_law [OF fr(1)] su(3) by simp_all
    have run: "tcp_round k (sock, wire) = Some (sock\<lparr>ls_stream_buf := stream_buf_reset sb\<rparr>, wire, [?p])"
      using su(1) False f(2) dl(1,5) by (simp add: tcp_round_def link_socket_read_tcp_def Let_def)
    have pok: "length ?p < 65536" "int (length ?p) \<le> ?m" "?p \<noteq> []" "2 \<le> length (stream_pending sb)"
      using fr su(3) dl(5) b_len_0_iff [of "sb_buf sb"] f by (auto simp: packet_ready_def body_phase_def stream_static_def)
    have "cut_packet ?m (stream_pending sb) = Inr (Some (?p, ?rest))"
    proof -
      have hd: "be16_of (stream_pending sb) = of_nat (length ?p)" using be16_of_take [OF pok(4)] fr(2) by simp
      have un: "unat (of_nat (length ?p) :: u16) = length ?p" using pok(1) by (simp add: unat_of_nat)
      show ?thesis unfolding cut_packet_def hd un Let_def using pok fr(2) by simp
    qed
    then obtain ps' where ps': "ps = ?p # ps'" "?rest @ wire = concat (map tcp_frame ps')" using cut_frames [OF pw ps] su(2) by auto
    then show ?thesis
      using run dl ok inv by (intro exI [of _ "sock\<lparr>ls_stream_buf := stream_buf_reset sb\<rparr>"] exI [of _ wire] exI [of _ "[?p]"] exI [of _ ps'])
        (simp add: reader_inv_def socket_ok_def tcp_packet_ok_def)
  next
    case True
    then have rd: "read_ready sb" using su(4) by simp
    then have rok: "stream_ok sb" "\<not> sb_residual_fully_formed sb" "b_len (sb_residual sb) = 0" by (simp_all add: read_ready_def)
    have nopkt: "cut_packet ?m (stream_pending ?sb) = Inr None" using ready_cut [OF rok] su(2,3) by simp
    show ?thesis
    proof (cases "wire = []")
      case w: True
      have "ps = []" using cut_frames [OF pw ps] nopkt w by auto
      moreover have "tcp_round k (sock, wire) = Some (sock\<lparr>ls_stream_buf := sb\<rparr>, [], [])"
        using su(1) True w by (simp add: tcp_round_def)
      ultimately show ?thesis using w su(2,3) pw rok(1) ok
        by (intro exI [of _ "sock\<lparr>ls_stream_buf := sb\<rparr>"] exI [of _ "[]"]) (simp add: reader_inv_def socket_ok_def)
    next
      case w: False
      let ?n = "b_len (sb_next sb)"
      define got where "got = take (min k (nat ?n)) wire"
      have n: "0 < ?n" using rd rok by (auto simp: read_ready_def stream_ok_def header_phase_def body_phase_def stream_static_def)
      have got: "got \<noteq> []" "int (length got) \<le> ?n" "got @ drop (length got) wire = wire"
        using n k w by (auto simp: got_def min_def)
      have def: "buf_defined (sb_next sb)"
        using rd rok(1) by (auto simp: read_ready_def stream_ok_def stream_static_def buf_defined_def elim!: buf_wfE)
      obtain r where r: "stream_buf_added (stream_recv sb (sb_next sb) got) (int (length got)) = stream_buf_added r 0" "stream_raw r"
        "stream_pending r = stream_pending sb @ got" "sb_maxlen r = sb_maxlen sb"
        using recv_raw [OF rd got(1,2)] by blast
      have pw': "stream_pending r @ drop (length got) wire = concat (map tcp_frame ps)"
        using pw got(3) r(3) su(2) by simp
      have step: "tcp_round k (sock, wire) = do {
          (sb, complete) \<leftarrow> stream_buf_added r 0;
          (sock, buf, ret) \<leftarrow> (if complete then do { buf \<leftarrow> stream_buf_get_final sb; Some (sock\<lparr>ls_stream_buf := stream_buf_reset sb\<rparr>, buf, b_len buf) }
             else Some (sock\<lparr>ls_stream_buf := sb\<rparr>, clear_buf\<lparr>b_len := 0\<rparr>, 0));
          Some (sock, drop (length got) wire, if ret > 0 then [buf_content buf] else []) }"
        using su(1) True w rok(2) ok(1) def got(1) r(1)
        by (simp add: tcp_round_def link_socket_read_tcp_def stream_buf_get_next_def Let_def flip: got_def)
          (cases "stream_buf_added r 0"; simp split: prod.splits)
      have len: "length (drop (length got) wire) < length wire" using got(1) w by simp
      consider (wait) "cut_packet ?m (stream_pending r) = Inr None"
        | (packet) p ps' rest where "ps = p # ps'" "cut_packet ?m (stream_pending r) = Inr (Some (p, rest))"
            "rest @ drop (length got) wire = concat (map tcp_frame ps')"
        using cut_frames [OF pw' ps] by blast
      then show ?thesis
      proof cases
        case wait
        then obtain sb' where sb': "stream_buf_added r 0 = Some (sb', False)" "read_ready sb'" "stream_pending sb' = stream_pending r" "sb_maxlen sb' = ?m"
          using added_law [OF r(2)] r(4) su(3) by auto
        then show ?thesis using step pw' ok inv len
          by (intro exI [of _ "sock\<lparr>ls_stream_buf := sb'\<rparr>"] exI [of _ "drop (length got) wire"] exI [of _ "[]"] exI [of _ ps])
            (simp add: reader_inv_def socket_ok_def tcp_packet_ok_def read_ready_def)
      next
        case packet
        then obtain sb' where sb': "stream_buf_added r 0 = Some (sb', True)" "packet_ready r p rest sb'"
          using added_law [OF r(2)] r(4) su(3) by auto
        have dl: "stream_buf_get_final sb' = Some (sb_buf sb')" "stream_ok (stream_buf_reset sb')" "stream_pending (stream_buf_reset sb') = rest"
          "sb_maxlen (stream_buf_reset sb') = ?m" "0 < b_len (sb_buf sb')" "buf_content (sb_buf sb') = p"
          using stream_deliver_law [OF sb'(2)] sb'(2) r(4) su(3) by (simp_all add: packet_ready_def)
        then show ?thesis using step sb'(1) packet(1,3) ok inv len
          by (intro exI [of _ "sock\<lparr>ls_stream_buf := stream_buf_reset sb'\<rparr>"] exI [of _ "drop (length got) wire"] exI [of _ "[p]"] exI [of _ ps'])
            (simp add: reader_inv_def socket_ok_def tcp_packet_ok_def)
      qed
    qed
  qed
qed

lemma rounds_law:
  assumes "reader_inv sock wire ps" "\<forall>k \<in> set ks. 0 < k"
  shows "\<exists>sock' wire' out ps'. tcp_rounds ks (sock, wire) = Some (sock', wire', out) \<and> ps = out @ ps'
    \<and> reader_inv sock' wire' ps' \<and> (length wire + length ps \<le> length ks \<longrightarrow> ps' = [])"
  using assms
proof (induction ks arbitrary: sock wire ps)
  case (Cons k ks)
  obtain s1 w1 o1 p1 where 1: "tcp_round k (sock, wire) = Some (s1, w1, o1)" "ps = o1 @ p1" "reader_inv s1 w1 p1"
    "ps = [] \<or> length w1 + length p1 < length wire + length ps"
    using round_law [OF Cons.prems(1), of k] Cons.prems(2) by (meson list.set_intros(1))
  obtain s2 w2 o2 p2 where 2: "tcp_rounds ks (s1, w1) = Some (s2, w2, o2)" "p1 = o2 @ p2" "reader_inv s2 w2 p2"
    "length w1 + length p1 \<le> length ks \<longrightarrow> p2 = []"
    using Cons.IH [OF 1(3)] Cons.prems(2) by auto
  then show ?case using 1 by (intro exI [of _ s2] exI [of _ w2] exI [of _ "o1 @ o2"] exI [of _ p2]) auto
qed auto

subsection \<open>Sender and receiver\<close>

lemma write_tcp_law:
  assumes "buf_wf b" "b_len b < 2 ^ 16" "link_socket_write_tcp sock b = Some b'"
  shows "buf_content b' = tcp_frame (buf_content b)"
proof (cases "2 \<le> b_offset b")
  case True
  have l: "(word_of_int (buf_len b) :: u16) = of_nat (length (buf_content b))"
    using length_buf_content [OF assms(1), symmetric] assms(1) by simp
  obtain c where c: "buf_write_prepend b (be16_bytes (word_of_int (buf_len b))) = (c, True)"
    "buf_content c = be16_bytes (word_of_int (buf_len b)) @ buf_content b"
    using buf_write_prepend_law [OF assms(1), of "be16_bytes (word_of_int (buf_len b))"] True by auto
  then have "b' = c" using assms(3) by (auto simp: link_socket_write_tcp_def Let_def split: if_splits)
  then show ?thesis using c(2) l by (simp add: tcp_frame_def)
next
  case False
  then have "buf_write_prepend b (be16_bytes (word_of_int (buf_len b))) = (b, False)"
    using buf_write_prepend_full [OF assms(1)] by simp
  then show ?thesis using assms(3) by (simp add: link_socket_write_tcp_def Let_def split: if_splits)
qed

lemma socket_frame_init_law:
  assumes "socket_frame_init f False server sock0 = Some sock" "0 \<le> fm_headroom f" "2 \<le> fm_payload_size f" "2 \<le> fm_tailroom f"
    "BUF_SIZE f < 2 ^ 64" "ls_sd_defined sock0" "\<not> ls_stream_reset sock0"
  shows "socket_ok sock \<and> stream_pending (ls_stream_buf sock) = [] \<and> sb_maxlen (ls_stream_buf sock) = fm_payload_size f"
proof -
  obtain b where b: "alloc_buf_sock_tun f = Some b"
    using assms(1) by (cases "alloc_buf_sock_tun f") (simp_all add: socket_frame_init_def)
  have bl: "buf_wf b" "b_offset b = fm_headroom f" "b_len b = fm_payload_size f" "b_capacity b = BUF_SIZE f"
    using alloc_buf_sock_tun_law [OF b] assms(2-5) by simp_all
  have "b_len b < 1000000" using bl(1) by (auto elim: buf_wfE)
  then have sz: "int (size_t_of_int (b_len b)) = b_len b" "int (size_t_of_int (b_len b)) < BUF_SIZE_MAX"
    using bl(3) assms(3) by (simp_all add: size_t_of_int_def BUF_SIZE_MAX_def)
  obtain r where r: "alloc_buf (size_t_of_int (b_len b)) = Some r" "buf_wf r" "buf_content r = []" "b_offset r = 0" "b_capacity r = b_len b"
    using alloc_buf_law [OF sz(2)] sz(1) by auto
  have b0: "buf_wf (b\<lparr>b_len := 0\<rparr>)" "buf_content (b\<lparr>b_len := 0\<rparr>) = []"
    using buf_content_shrink [OF bl(1), of 0] bl(3) assms(3) by simp_all
  have sock: "sock = sock0\<lparr>ls_stream_buf := stream_buf_reset
       \<lparr>sb_buf_init = b\<lparr>b_len := 0\<rparr>, sb_residual = r, sb_maxlen = b_len b, sb_residual_fully_formed = False,
        sb_buf = clear_buf, sb_next = clear_buf, sb_len = 0, sb_error = False, sb_port_share_state = PS_DISABLED\<rparr>\<rparr>"
    using assms(1) b r(1) by (auto simp: socket_frame_init_def stream_buf_init_def)
  show ?thesis
    using b0 bl r assms(2-7) unfolding sock
    by (simp add: socket_ok_def stream_ok_def stream_static_def header_phase_def stream_pending_def stream_buf_reset_def BUF_SIZE_def)
qed

text \<open>
  C19: Packets over TCP: the packets written with \<^const>\<open>link_socket_write_tcp\<close> are what the
  other side reads with \<^const>\<open>link_socket_read_tcp\<close>, in order and unchanged, however the stream is cut
  into pieces on the way, in particular when a piece holds many packets or a part of the length;
  nothing aborts and no error is flagged, and as soon as enough rounds have been made every
  packet has been delivered.
\<close>

theorem tcp_stream_roundtrip:
  assumes "socket_frame_init f False server sock0 = Some sock" "0 \<le> fm_headroom f" "2 \<le> fm_payload_size f" "2 \<le> fm_tailroom f"
    "BUF_SIZE f < 2 ^ 64" "ls_sd_defined sock0" "\<not> ls_stream_reset sock0"
    and "\<forall>b \<in> set bufs. buf_wf b \<and> 0 < b_len b \<and> b_len b < 2 ^ 16 \<and> b_len b \<le> fm_payload_size f"
    and "map (link_socket_write_tcp sender) bufs = map Some sent"
    and "\<forall>k \<in> set ks. 0 < k"
  shows "\<exists>sock' wire n. tcp_rounds ks (sock, concat (map buf_content sent)) = Some (sock', wire, take n (map buf_content bufs))
    \<and> \<not> socket_connection_reset_stream sock'
    \<and> (length (concat (map buf_content sent)) + length bufs \<le> length ks \<longrightarrow> n = length bufs)"
proof -
  have sk: "socket_ok sock" "stream_pending (ls_stream_buf sock) = []" "sb_maxlen (ls_stream_buf sock) = fm_payload_size f"
    using socket_frame_init_law [OF assms(1-7)] by simp_all
  have "map buf_content sent = map tcp_frame (map buf_content bufs)"
    using assms(8,9)
  proof (induction bufs arbitrary: sent)
    case (Cons b bufs)
    then obtain b' sent' where s: "sent = b' # sent'" "link_socket_write_tcp sender b = Some b'" "map (link_socket_write_tcp sender) bufs = map Some sent'"
      by (cases sent) auto
    then show ?case using Cons.IH [OF _ s(3)] Cons.prems(1) write_tcp_law [OF _ _ s(2)] by simp
  qed simp
  then have wire: "concat (map buf_content sent) = concat (map tcp_frame (map buf_content bufs))" by simp
  have "tcp_packet_ok sock p" if "p \<in> set (map buf_content bufs)" for p
  proof -
    obtain b where b: "b \<in> set bufs" "p = buf_content b" using \<open>p \<in> _\<close> by auto
    then have l: "buf_wf b" "int (length p) = b_len b" using assms(8) length_buf_content by auto
    moreover have "0 < b_len b" "b_len b < 2 ^ 16" "b_len b \<le> fm_payload_size f" using assms(8) b(1) by auto
    moreover have "p \<noteq> []" using calculation by auto
    ultimately show ?thesis using sk(3) by (simp add: tcp_packet_ok_def)
  qed
  then have "reader_inv sock (concat (map buf_content sent)) (map buf_content bufs)"
    using sk(1,2) wire by (simp add: reader_inv_def)
  from rounds_law [OF this assms(10)] obtain sock' wire' out ps' where
    r: "tcp_rounds ks (sock, concat (map buf_content sent)) = Some (sock', wire', out)" "map buf_content bufs = out @ ps'"
      "reader_inv sock' wire' ps'" "length (concat (map buf_content sent)) + length (map buf_content bufs) \<le> length ks \<longrightarrow> ps' = []"
    by blast
  have "out = take (length out) (map buf_content bufs)" using r(2) by simp
  moreover have "\<not> socket_connection_reset_stream sock'"
    using r(3) by (simp add: reader_inv_def socket_ok_def socket_connection_reset_stream_def stream_ok_def stream_static_def)
  moreover have "length (concat (map buf_content sent)) + length bufs \<le> length ks \<longrightarrow> length out = length bufs"
    using r(2,4) by (metis append_Nil2 length_map)
  ultimately show ?thesis using r(1) by metis
qed

theorem tcp_stream_roundtrip_witness:
  "\<exists>sock sock' sent wire. socket_frame_init \<lparr>fm_payload_size = 100, fm_headroom = 8, fm_tailroom = 8, fm_mss_fix = 0,
       fm_max_fragment_size = 0, fm_tun_mtu = 0, fm_tun_max_mtu = 0, fm_extra_tun = 0\<rparr> False False
       \<lparr>ls_sd_defined = True, ls_stream_reset = False, ls_stream_buf = undefined\<rparr> = Some sock
    \<and> tcp_rounds (replicate 20 1) (sock, concat (map buf_content sent)) = Some (sock', wire, [[7, 8, 9], [5]])"
proof -
  let ?f = "\<lparr>fm_payload_size = 100, fm_headroom = 8, fm_tailroom = 8, fm_mss_fix = 0,
       fm_max_fragment_size = 0, fm_tun_mtu = 0, fm_tun_max_mtu = 0, fm_extra_tun = 0\<rparr> :: frame"
  let ?s = "\<lparr>ls_sd_defined = True, ls_stream_reset = False, ls_stream_buf = undefined\<rparr>"
  let ?b1 = "\<lparr>b_capacity = 5, b_offset = 2, b_len = 3, b_data = Some [0, 0, 7, 8, 9]\<rparr>"
    and ?b2 = "\<lparr>b_capacity = 3, b_offset = 2, b_len = 1, b_data = Some [0, 0, 5]\<rparr>"
  let ?c1 = "\<lparr>b_capacity = 5, b_offset = 0, b_len = 5, b_data = Some [0, 3, 7, 8, 9]\<rparr>"
    and ?c2 = "\<lparr>b_capacity = 3, b_offset = 0, b_len = 3, b_data = Some [0, 1, 5]\<rparr>"
  have "socket_frame_init ?f False False ?s \<noteq> None"
    by (simp add: socket_frame_init_def alloc_buf_sock_tun_def stream_buf_init_def BUF_SIZE_def alloc_buf_def buf_size_valid_def
      size_t_of_int_def BUF_SIZE_MAX_def buf_init_def buf_safe_def buf_valid_def Let_def)
  then obtain sock where sock: "socket_frame_init ?f False False ?s = Some sock" by blast
  have ml: "sb_maxlen (ls_stream_buf sock) = 100" using socket_frame_init_law [OF sock] by (simp add: BUF_SIZE_def)
  have w: "map (link_socket_write_tcp sock) [?b1, ?b2] = map Some [?c1, ?c2]"
    using ml by (simp add: link_socket_write_tcp_def buf_len_def buf_valid_def buf_write_prepend_def buf_prepend_def buf_bptr_def buf_poke_def
      be16_bytes_def patch_def Let_def)
  have c: "map buf_content [?b1, ?b2] = [[7, 8, 9], [5]]"
    by (simp add: buf_content_def buf_valid_def buf_peek_def segment_def eval_nat_numeral)
  obtain sock' wire n where "tcp_rounds (replicate 20 1) (sock, concat (map buf_content [?c1, ?c2])) = Some (sock', wire, take n (map buf_content [?b1, ?b2]))"
    "length (concat (map buf_content [?c1, ?c2])) + length [?b1, ?b2] \<le> length (replicate 20 (1 :: nat)) \<longrightarrow> n = length [?b1, ?b2]"
    using tcp_stream_roundtrip [OF sock _ _ _ _ _ _ _ w, of "replicate 20 1"] by (auto simp: BUF_SIZE_def buf_wf_def BUF_SIZE_MAX_def)
  moreover have "length (concat (map buf_content [?c1, ?c2])) = 8"
    by (simp add: buf_content_def buf_valid_def buf_peek_def segment_def)
  ultimately have "tcp_rounds (replicate 20 1) (sock, concat (map buf_content [?c1, ?c2])) = Some (sock', wire, [[7, 8, 9], [5]])"
    by (simp add: c del: list.map)
  then show ?thesis using sock by blast
qed

end
