(* ===== verification/Crypto.thy ===== *)
theory Crypto
  imports Frame Packet_Id
begin

text \<open>
  Data channel packets (src/openvpn/crypto.c): encryption, authentication and replay protection of
  the packets of the tunnel, for AEAD ciphers and for CBC, OFB/CFB or no cipher with an HMAC.

  The primitives belong to the cryptographic library. A cipher context is a record of the functions
  the code calls on it, a keyed hash a function from messages to digests. Outside the theorems that
  name what they rely on, nothing is assumed of them. An output that does not fit the memory of its
  buffer is \<open>None\<close>, like a failed assertion. Random numbers are arguments.
\<close>

subsection \<open>State\<close>

datatype cipher_mode = OPENVPN_MODE_CBC | OPENVPN_MODE_OFB_CFB | OPENVPN_MODE_AEAD | OPENVPN_MODE_OTHER

text \<open>
  After a reset with an IV and the additional data \<open>ad\<close>, \<open>update\<close> and \<open>final\<close> give the two parts of
  the output for an input; failure is \<open>None\<close>.
\<close>

record cipher_ctx =
  cipher_ctx_mode :: cipher_mode
  cipher_ctx_iv_length :: int
  cipher_ctx_block_size :: int
  cipher_ctx_reset :: "bytes \<Rightarrow> bool"
  cipher_ctx_update :: "bytes \<Rightarrow> bytes \<Rightarrow> bytes \<Rightarrow> bytes option"
  cipher_ctx_final :: "bytes \<Rightarrow> bytes \<Rightarrow> bytes \<Rightarrow> bytes option"
  cipher_ctx_get_tag :: "bytes \<Rightarrow> bytes \<Rightarrow> bytes \<Rightarrow> bytes option"
  cipher_ctx_final_check_tag :: "bytes \<Rightarrow> bytes \<Rightarrow> bytes \<Rightarrow> bytes \<Rightarrow> bytes option"

record hmac_ctx =
  hmac_ctx_size :: nat
  hmac_ctx_digest :: "bytes \<Rightarrow> bytes"

record key_ctx =
  kc_cipher :: "cipher_ctx option"
  kc_hmac :: "hmac_ctx option"
  kc_implicit_iv :: bytes

text \<open>\<open>struct crypto_options\<close> of crypto.h: the keys beside what the replay check uses.\<close>

record crypto_state =
  cs_encrypt :: key_ctx
  cs_decrypt :: key_ctx
  cs_options :: crypto_options
  cs_ignore_packet_id :: bool

definition OPENVPN_AEAD_TAG_LENGTH :: nat where "OPENVPN_AEAD_TAG_LENGTH = 16"
definition OPENVPN_MAX_IV_LENGTH :: int where "OPENVPN_MAX_IV_LENGTH = 16"
definition OPENVPN_AEAD_MIN_IV_LEN :: int where "OPENVPN_AEAD_MIN_IV_LEN = 4 + 8"
definition OPENVPN_MAX_CIPHER_BLOCK_SIZE :: int where "OPENVPN_MAX_CIPHER_BLOCK_SIZE = 32"
definition OPENVPN_MAX_HMAC_SIZE :: int where "OPENVPN_MAX_HMAC_SIZE = 64"

definition set_send :: "packet_id_send \<Rightarrow> crypto_state \<Rightarrow> crypto_state" where
  "set_send ps opt = opt\<lparr>cs_options := (cs_options opt)\<lparr>co_packet_id := (co_packet_id (cs_options opt))\<lparr>pid_send := ps\<rparr>\<rparr>\<rparr>"

definition cs_pid :: "crypto_state \<Rightarrow> packet_id" where
  "cs_pid opt = co_packet_id (cs_options opt)"

definition cipher_ctx_mode_aead :: "cipher_ctx option \<Rightarrow> bool" where
  "cipher_ctx_mode_aead c = (case c of None \<Rightarrow> False | Some c \<Rightarrow> cipher_ctx_mode c = OPENVPN_MODE_AEAD)"

text \<open>The library writes its output at the end of the content, then \<open>buf_inc_len\<close>.\<close>

definition cipher_output :: "buffer \<Rightarrow> bytes \<Rightarrow> buffer option" where
  "cipher_output work out = do {
     ASSERT (b_offset work + b_len work + int (length out) \<le> b_capacity work);
     let (work, ok) = buf_inc_len (buf_poke work (b_offset work + b_len work) out) (int (length out));
     ASSERT ok;
     Some work }"

text \<open>The first \<open>n\<close> bytes of the local array \<open>iv\<close>, as a buffer.\<close>

definition iv_buffer_init :: "int \<Rightarrow> buffer option" where
  "iv_buffer_init n = buf_set_write clear_buf (Some (replicate (nat n) 0)) n"

subsection \<open>Sending\<close>

definition openvpn_encrypt_aead ::
    "int \<Rightarrow> buffer \<Rightarrow> buffer \<Rightarrow> crypto_state \<Rightarrow> (crypto_state \<times> buffer) option" where
  "openvpn_encrypt_aead now buf work opt = do {
     let ctx = cs_encrypt opt;
     cipher \<leftarrow> kc_cipher ctx;
     ASSERT (packet_id_initialized (cs_pid opt));
     let iv_len = cipher_ctx_iv_length cipher;
     ASSERT (iv_len \<ge> OPENVPN_AEAD_MIN_IV_LEN \<and> iv_len \<le> OPENVPN_MAX_IV_LENGTH);
     iv_buffer \<leftarrow> iv_buffer_init iv_len;
     let (ps, iv_buffer, ok) = packet_id_write now (pid_send (cs_pid opt)) iv_buffer False False;
     let opt = set_send ps opt;
     (if \<not> ok then Some (opt, buf\<lparr>b_len := 0\<rparr>)
      else do {
        let (iv_buffer, ok) = buf_write iv_buffer (kc_implicit_iv ctx);
        ASSERT ok;
        ASSERT (b_len iv_buffer = iv_len);
        let iv = buf_peek iv_buffer 0 iv_len;
        let (work, ok) = buf_write work (take (nat iv_len - length (kc_implicit_iv ctx)) iv);
        ASSERT ok;
        ASSERT (cipher_ctx_reset cipher iv);
        let (work, mac_out) = buf_write_alloc work OPENVPN_AEAD_TAG_LENGTH;
        mac_out \<leftarrow> mac_out;
        (if \<not> buf_safe work (size_t_of_int (b_len buf + cipher_ctx_block_size cipher))
         then Some (opt, buf\<lparr>b_len := 0\<rparr>)
         else do {
           let ad = take (length (buf_content work) - OPENVPN_AEAD_TAG_LENGTH) (buf_content work);
           out \<leftarrow> cipher_ctx_update cipher iv ad (buf_content buf);
           work \<leftarrow> cipher_output work out;
           out \<leftarrow> cipher_ctx_final cipher iv ad (buf_content buf);
           work \<leftarrow> cipher_output work out;
           tag \<leftarrow> cipher_ctx_get_tag cipher iv ad (buf_content buf);
           Some (opt, buf_poke work mac_out tag) }) }) }"

text \<open>
  The IV of the older modes, with the packet id in the plaintext (CBC) or in the IV (OFB and CFB);
  the last component is false when the identifiers are used up.
\<close>

definition encrypt_v1_iv ::
    "int \<Rightarrow> bytes \<Rightarrow> cipher_ctx \<Rightarrow> buffer \<Rightarrow> crypto_state \<Rightarrow> (bytes \<times> crypto_state \<times> buffer \<times> bool) option" where
  "encrypt_v1_iv now prng cipher buf opt =
     (case cipher_ctx_mode cipher of
        OPENVPN_MODE_CBC \<Rightarrow>
          (if packet_id_initialized (cs_pid opt)
           then (let (ps, buf, ok) = packet_id_write now (pid_send (cs_pid opt)) buf (co_long_form (cs_options opt)) True
                 in Some (prng, set_send ps opt, buf, ok))
           else Some (prng, opt, buf, True))
      | OPENVPN_MODE_OFB_CFB \<Rightarrow> do {
          ASSERT (packet_id_initialized (cs_pid opt));
          b \<leftarrow> iv_buffer_init (cipher_ctx_iv_length cipher);
          let (ps, b, ok) = packet_id_write now (pid_send (cs_pid opt)) b True False;
          ASSERT ok;
          Some (buf_peek b 0 (cipher_ctx_iv_length cipher), set_send ps opt, buf, True) }
      | _ \<Rightarrow> None)"

definition openvpn_encrypt_v1 ::
    "int \<Rightarrow> bytes \<Rightarrow> buffer \<Rightarrow> buffer \<Rightarrow> crypto_state \<Rightarrow> (crypto_state \<times> buffer) option" where
  "openvpn_encrypt_v1 now prng buf work opt =
     (if b_len buf > 0
      then do {
        let ctx = cs_encrypt opt;
        (opt, buf, work, mac, ok) \<leftarrow> (case kc_cipher ctx of
           Some cipher \<Rightarrow> do {
             (work, mac) \<leftarrow> (case kc_hmac ctx of
                None \<Rightarrow> Some (work, None)
              | Some hmac \<Rightarrow> do {
                  let (work, mac_out) = buf_write_alloc work (hmac_ctx_size hmac);
                  mac_out \<leftarrow> mac_out;
                  Some (work, Some (mac_out, b_offset work + b_len work)) });
             (iv, opt, buf, ok) \<leftarrow> encrypt_v1_iv now prng cipher buf opt;
             (if \<not> ok then Some (opt, buf, work, mac, False)
              else do {
                let (work, ok) = buf_write work iv;
                ASSERT ok;
                ASSERT (cipher_ctx_reset cipher iv);
                (if \<not> buf_safe work (size_t_of_int (b_len buf + cipher_ctx_block_size cipher))
                 then Some (opt, buf, work, mac, False)
                 else do {
                   out \<leftarrow> cipher_ctx_update cipher iv [] (buf_content buf);
                   work \<leftarrow> cipher_output work out;
                   out \<leftarrow> cipher_ctx_final cipher iv [] (buf_content buf);
                   work \<leftarrow> cipher_output work out;
                   ASSERT (cipher_ctx_mode cipher \<noteq> OPENVPN_MODE_CBC \<or> int (length out) = cipher_ctx_iv_length cipher);
                   Some (opt, buf, work, mac, True) }) }) }
         | None \<Rightarrow> do {
             let (opt, buf, ok) =
               (if packet_id_initialized (cs_pid opt)
                then (let (ps, buf, ok) = packet_id_write now (pid_send (cs_pid opt)) buf (co_long_form (cs_options opt)) True
                      in (set_send ps opt, buf, ok))
                else (opt, buf, True));
             (if \<not> ok then Some (opt, buf, work, None, False)
              else do {
                (buf, mac) \<leftarrow> (case kc_hmac ctx of
                   None \<Rightarrow> Some (buf, None)
                 | Some hmac \<Rightarrow> do {
                     let hmac_start = b_offset buf;
                     let (buf, mac_out) = buf_prepend buf (int (hmac_ctx_size hmac));
                     mac_out \<leftarrow> mac_out;
                     Some (buf, Some (mac_out, hmac_start)) });
                let buf = (if buf_len work \<noteq> 0 then fst (buf_write_prepend buf (buf_content work)) else buf);
                Some (opt, buf, buf, mac, True) }) });
        (if \<not> ok then Some (opt, buf\<lparr>b_len := 0\<rparr>)
         else do {
           let work = (case (kc_hmac ctx, mac) of
              (Some hmac, Some (mac_out, hmac_start)) \<Rightarrow>
                buf_poke work mac_out (hmac_ctx_digest hmac (buf_peek work hmac_start (b_offset work + b_len work - hmac_start)))
            | _ \<Rightarrow> work);
           Some (opt, work) }) }
      else Some (opt, buf))"

definition openvpn_encrypt ::
    "int \<Rightarrow> bytes \<Rightarrow> buffer \<Rightarrow> buffer \<Rightarrow> crypto_state option \<Rightarrow> (crypto_state option \<times> buffer) option" where
  "openvpn_encrypt now prng buf work opt =
     (case opt of
        Some opt \<Rightarrow>
          (if b_len buf > 0
           then do {
             (opt, buf) \<leftarrow> (if cipher_ctx_mode_aead (kc_cipher (cs_encrypt opt))
                           then openvpn_encrypt_aead now buf work opt
                           else openvpn_encrypt_v1 now prng buf work opt);
             Some (Some opt, buf) }
           else Some (Some opt, buf))
      | None \<Rightarrow> Some (None, buf))"

subsection \<open>Receiving\<close>

text \<open>\<open>error_exit\<close>: the packet is dropped.\<close>

definition crypt_error :: "crypto_state \<Rightarrow> buffer \<Rightarrow> (crypto_state \<times> buffer \<times> bool) option" where
  "crypt_error opt buf = Some (opt, buf\<lparr>b_len := 0\<rparr>, False)"

text \<open>The replay check at the end of both functions; \<open>work\<close> is the plaintext.\<close>

definition decrypt_finish ::
    "int \<Rightarrow> crypto_state \<Rightarrow> buffer \<Rightarrow> buffer \<Rightarrow> packet_id_net option \<Rightarrow> (crypto_state \<times> buffer \<times> bool) option" where
  "decrypt_finish now opt buf work pin =
     (case pin of
        None \<Rightarrow> Some (opt, work, True)
      | Some pin \<Rightarrow> do {
          (co, ok) \<leftarrow> crypto_check_replay now (cs_options opt) pin;
          (if ok then Some (opt\<lparr>cs_options := co\<rparr>, work, True) else crypt_error (opt\<lparr>cs_options := co\<rparr>) buf) })"

definition openvpn_decrypt_aead ::
    "int \<Rightarrow> buffer \<Rightarrow> buffer \<Rightarrow> crypto_state \<Rightarrow> frame \<Rightarrow> int \<Rightarrow> (crypto_state \<times> buffer \<times> bool) option" where
  "openvpn_decrypt_aead now buf work opt frm ad_start = do {
     let ctx = cs_decrypt opt;
     ASSERT (b_len buf > 0);
     cipher \<leftarrow> kc_cipher ctx;
     ASSERT (ad_start \<ge> 0 \<and> ad_start \<le> b_offset buf);
     let (work, ok) = buf_init work (fm_headroom frm);
     ASSERT ok;
     ASSERT (packet_id_initialized (cs_pid opt));
     let iv_len = cipher_ctx_iv_length cipher;
     let packet_iv_len = iv_len - int (length (kc_implicit_iv ctx));
     ASSERT (packet_iv_len \<ge> 0);
     (if b_len buf < packet_iv_len then crypt_error opt buf
      else do {
        let iv = buf_peek buf (b_offset buf) packet_iv_len @ kc_implicit_iv ctx;
        (if \<not> cipher_ctx_reset cipher iv then crypt_error opt buf
         else do {
           let (pin, buf, ok) = packet_id_read buf False;
           (if \<not> ok then crypt_error opt buf
            else if b_len buf < int OPENVPN_AEAD_TAG_LENGTH then crypt_error opt buf
            else do {
              let tag = buf_peek buf (b_offset buf) (int OPENVPN_AEAD_TAG_LENGTH);
              let (buf, ok) = buf_advance buf (int OPENVPN_AEAD_TAG_LENGTH);
              ASSERT ok;
              (if b_len buf < 1 then crypt_error opt buf
               else if \<not> buf_safe work (size_t_of_int (b_len buf + cipher_ctx_block_size cipher)) then crypt_error opt buf
               else do {
                 let ad = buf_peek buf ad_start (b_offset buf - ad_start - int OPENVPN_AEAD_TAG_LENGTH);
                 (case cipher_ctx_update cipher iv ad (buf_content buf) of
                    None \<Rightarrow> crypt_error opt buf
                  | Some out \<Rightarrow> do {
                      work \<leftarrow> cipher_output work out;
                      (case cipher_ctx_final_check_tag cipher iv ad (buf_content buf) tag of
                         None \<Rightarrow> crypt_error opt buf
                       | Some out \<Rightarrow> do {
                           work \<leftarrow> cipher_output work out;
                           decrypt_finish now opt buf work (Some pin) }) }) }) }) }) }) }"

text \<open>The check of the HMAC at the head of the packet; the digest is cut off.\<close>

definition decrypt_v1_hmac :: "key_ctx \<Rightarrow> buffer \<Rightarrow> (buffer \<times> bool) option" where
  "decrypt_v1_hmac ctx buf =
     (case kc_hmac ctx of
        None \<Rightarrow> Some (buf, True)
      | Some hmac \<Rightarrow>
          (let hmac_len = hmac_ctx_size hmac in
           if b_len buf < int hmac_len then Some (buf, False)
           else if take hmac_len (hmac_ctx_digest hmac (drop hmac_len (buf_content buf))) \<noteq> take hmac_len (buf_content buf)
           then Some (buf, False)
           else do { let (buf, ok) = buf_advance buf (int hmac_len); ASSERT ok; Some (buf, True) }))"

text \<open>The packet id of the older modes, from the plaintext (CBC) or from the IV.\<close>

definition decrypt_v1_pin ::
    "cipher_ctx \<Rightarrow> bytes \<Rightarrow> buffer \<Rightarrow> crypto_state \<Rightarrow> (packet_id_net option \<times> buffer \<times> bool) option" where
  "decrypt_v1_pin cipher iv work opt =
     (case cipher_ctx_mode cipher of
        OPENVPN_MODE_CBC \<Rightarrow>
          (if packet_id_initialized (cs_pid opt)
           then (let (pin, work, ok) = packet_id_read work (co_long_form (cs_options opt)) in Some (Some pin, work, ok))
           else Some (None, work, True))
      | OPENVPN_MODE_OFB_CFB \<Rightarrow> do {
          ASSERT (packet_id_initialized (cs_pid opt));
          b \<leftarrow> buf_set_read clear_buf (Some iv) (length iv);
          let (pin, b, ok) = packet_id_read b True;
          Some (Some pin, work, ok) }
      | _ \<Rightarrow> None)"

definition openvpn_decrypt_v1 ::
    "int \<Rightarrow> buffer \<Rightarrow> buffer \<Rightarrow> crypto_state \<Rightarrow> frame \<Rightarrow> (crypto_state \<times> buffer \<times> bool) option" where
  "openvpn_decrypt_v1 now buf work opt frm =
     (if b_len buf > 0
      then do {
        let ctx = cs_decrypt opt;
        (buf, ok) \<leftarrow> decrypt_v1_hmac ctx buf;
        (if \<not> ok then crypt_error opt buf
         else (case kc_cipher ctx of
            Some cipher \<Rightarrow> do {
              let iv_size = cipher_ctx_iv_length cipher;
              let (work, ok) = buf_init work (fm_headroom frm);
              ASSERT ok;
              (if b_len buf < iv_size then crypt_error opt buf
               else do {
                 let iv = buf_peek buf (b_offset buf) iv_size;
                 let (buf, ok) = buf_advance buf iv_size;
                 ASSERT ok;
                 (if b_len buf < 1 then crypt_error opt buf
                  else if \<not> cipher_ctx_reset cipher iv then crypt_error opt buf
                  else if \<not> buf_safe work (size_t_of_int (b_len buf + cipher_ctx_block_size cipher)) then crypt_error opt buf
                  else (case cipher_ctx_update cipher iv [] (buf_content buf) of
                     None \<Rightarrow> crypt_error opt buf
                   | Some out \<Rightarrow> do {
                       work \<leftarrow> cipher_output work out;
                       (case cipher_ctx_final cipher iv [] (buf_content buf) of
                          None \<Rightarrow> crypt_error opt buf
                        | Some out \<Rightarrow> do {
                            work \<leftarrow> cipher_output work out;
                            (pin, work, ok) \<leftarrow> decrypt_v1_pin cipher iv work opt;
                            (if \<not> ok then crypt_error opt buf else decrypt_finish now opt buf work pin) }) })) }) }
          | None \<Rightarrow>
              (if packet_id_initialized (cs_pid opt)
               then (let (pin, work, ok) = packet_id_read buf (co_long_form (cs_options opt)) in
                     if \<not> ok then crypt_error opt buf
                     else decrypt_finish now opt buf work (if cs_ignore_packet_id opt then None else Some pin))
               else decrypt_finish now opt buf buf None))) }
      else Some (opt, buf, True))"

definition openvpn_decrypt ::
    "int \<Rightarrow> buffer \<Rightarrow> buffer \<Rightarrow> crypto_state option \<Rightarrow> frame \<Rightarrow> int \<Rightarrow> (crypto_state option \<times> buffer \<times> bool) option" where
  "openvpn_decrypt now buf work opt frm ad_start =
     (case opt of
        Some opt \<Rightarrow>
          (if b_len buf > 0
           then do {
             (opt, buf, ret) \<leftarrow> (if cipher_ctx_mode_aead (kc_cipher (cs_decrypt opt))
                                then openvpn_decrypt_aead now buf work opt frm ad_start
                                else openvpn_decrypt_v1 now buf work opt frm);
             Some (Some opt, buf, ret) }
           else Some (Some opt, buf, True))
      | None \<Rightarrow> Some (None, buf, True))"

end
