(* ===== verification/Data_Channel.thy ===== *)
theory Data_Channel
  imports Crypto
begin

text \<open>
  What the data channel functions of Crypto compute, as functions on byte lists: \<open>open_packet\<close> for
  the receiver and \<open>seal_packet\<close> for the sender, the refinement of both by the code, and what follows
  for a connection: round trip, replay protection and sizes.
\<close>

subsection \<open>Skipping the head of a buffer\<close>

definition buf_skip :: "buffer \<Rightarrow> int \<Rightarrow> buffer" where
  "buf_skip b n = b\<lparr>b_offset := b_offset b + n, b_len := b_len b - n\<rparr>"

lemma buf_skip_sel [simp]:
  "b_offset (buf_skip b n) = b_offset b + n" "b_len (buf_skip b n) = b_len b - n" "b_data (buf_skip b n) = b_data b"
  "b_capacity (buf_skip b n) = b_capacity b"
  by (simp_all add: buf_skip_def)

lemma buf_skip_law:
  assumes "buf_wf b" "0 \<le> n" "n \<le> b_len b"
  shows "buf_advance b n = (buf_skip b n, True)" "buf_wf (buf_skip b n)" "buf_content (buf_skip b n) = drop (nat n) (buf_content b)"
    "buf_read b n = (buf_skip b n, Some (take (nat n) (buf_content b)))"
proof -
  show a: "buf_advance b n = (buf_skip b n, True)" using assms by (simp add: buf_advance_def buf_skip_def)
  obtain b1 where b1: "buf_advance b n = (b1, True)" "buf_wf b1" "buf_content b1 = drop (nat n) (buf_content b)"
    using buf_advance_law [OF assms] by metis
  then show "buf_wf (buf_skip b n)" "buf_content (buf_skip b n) = drop (nat n) (buf_content b)" using a by simp_all
  obtain b2 where b2: "buf_read b n = (b2, Some (take (nat n) (buf_content b)))" using buf_read_law [OF assms] by metis
  have "fst (buf_read b n) = buf_skip b n" using assms by (auto simp: buf_read_def buf_read_alloc_def buf_skip_def split: option.splits)
  then show "buf_read b n = (buf_skip b n, Some (take (nat n) (buf_content b)))" using b2 by simp
qed

lemma buf_peek_split:
  "0 \<le> p \<Longrightarrow> 0 \<le> m \<Longrightarrow> 0 \<le> n \<Longrightarrow> buf_peek b p (m + n) = buf_peek b p m @ buf_peek b (p + m) n"
  by (simp add: buf_peek_def nat_add_distrib segment_split split: option.split)

lemma buf_peek_head:
  "buf_wf b \<Longrightarrow> 0 \<le> n \<Longrightarrow> n \<le> b_len b \<Longrightarrow> buf_peek b (b_offset b) n = take (nat n) (buf_content b)"
  by (auto simp: buf_content_def buf_peek_def segment_def min_def split: option.split)

lemma buf_peek_skip [simp]: "buf_peek (buf_skip b k) p n = buf_peek b p n"
  by (simp add: buf_peek_def)

subsection \<open>Packet identifiers as bytes\<close>

definition read_pin :: "bool \<Rightarrow> bytes \<Rightarrow> (packet_id_net \<times> bytes) option" where
  "read_pin long bs =
     (if length bs < (if long then 8 else 4) then None
      else Some (\<lparr>pin_id = be32_of (take 4 bs), pin_time = (if long then uint (be32_of (take 4 (drop 4 bs))) else 0)\<rparr>,
                 drop (if long then 8 else 4) bs))"

lemma packet_id_read_law:
  assumes "buf_wf b"
  shows "case read_pin long (buf_content b) of
      None \<Rightarrow> \<exists>pin b'. packet_id_read b long = (pin, b', False)
    | Some (pin, rest) \<Rightarrow> packet_id_read b long = (pin, buf_skip b (if long then 8 else 4), True)
        \<and> buf_wf (buf_skip b (if long then 8 else 4)) \<and> buf_content (buf_skip b (if long then 8 else 4)) = rest"
proof -
  have len: "int (length (buf_content b)) = b_len b" by (rule length_buf_content [OF assms])
  show ?thesis
  proof (cases "b_len b < 4")
    case True
    then have "buf_read b 4 = (b, None)" by (rule buf_read_short [OF disjI2])
    then show ?thesis using True len by (simp add: packet_id_read_def read_pin_def)
  next
    case False
    note s = buf_skip_law [OF assms, of 4]
    have s4: "buf_read b 4 = (buf_skip b 4, Some (take 4 (buf_content b)))" "buf_wf (buf_skip b 4)" "buf_content (buf_skip b 4) = drop 4 (buf_content b)"
      using s False by simp_all
    show ?thesis
    proof (cases long)
      case l: True
      show ?thesis
      proof (cases "b_len b < 8")
        case True
        then have "buf_read (buf_skip b 4) 4 = (buf_skip b 4, None)" by (intro buf_read_short) simp
        then show ?thesis using True l s4(1) len by (simp add: packet_id_read_def read_pin_def)
      next
        case False
        have "buf_skip (buf_skip b 4) 4 = buf_skip b 8" by (simp add: buf_skip_def)
        moreover have "buf_read (buf_skip b 4) 4 = (buf_skip (buf_skip b 4) 4, Some (take 4 (buf_content (buf_skip b 4))))"
          using buf_skip_law(4) [OF s4(2), of 4] False by simp
        ultimately show ?thesis using l False s4 len buf_skip_law [OF assms, of 8]
          by (simp add: packet_id_read_def read_pin_def)
      qed
    next
      case l: False
      then show ?thesis using s4 False len by (simp add: packet_id_read_def read_pin_def)
    qed
  qed
qed

subsection \<open>The cipher\<close>

text \<open>
  What the code relies on in the cipher: an output is at most one block longer than the input, and
  sizes are those of the interface.
\<close>

definition cipher_ok :: "cipher_ctx \<Rightarrow> bool" where
  "cipher_ok c \<longleftrightarrow> 0 \<le> cipher_ctx_block_size c \<and> cipher_ctx_block_size c \<le> OPENVPN_MAX_CIPHER_BLOCK_SIZE
     \<and> 0 \<le> cipher_ctx_iv_length c \<and> cipher_ctx_iv_length c \<le> OPENVPN_MAX_IV_LENGTH
     \<and> (\<forall>iv ad x o1. cipher_ctx_update c iv ad x = Some o1 \<longrightarrow> int (length o1) \<le> int (length x) + cipher_ctx_block_size c
          \<and> (\<forall>o2. cipher_ctx_final c iv ad x = Some o2 \<longrightarrow> int (length o1 + length o2) \<le> int (length x) + cipher_ctx_block_size c)
          \<and> (\<forall>t o2. cipher_ctx_final_check_tag c iv ad x t = Some o2 \<longrightarrow> int (length o1 + length o2) \<le> int (length x) + cipher_ctx_block_size c))
     \<and> (\<forall>iv ad x t. cipher_ctx_get_tag c iv ad x = Some t \<longrightarrow> length t = OPENVPN_AEAD_TAG_LENGTH)"

definition run_cipher :: "cipher_ctx \<Rightarrow> bytes \<Rightarrow> bytes \<Rightarrow> bytes \<Rightarrow> bytes option" where
  "run_cipher c iv ad x = do { o1 \<leftarrow> cipher_ctx_update c iv ad x; o2 \<leftarrow> cipher_ctx_final c iv ad x; Some (o1 @ o2) }"

definition check_cipher :: "cipher_ctx \<Rightarrow> bytes \<Rightarrow> bytes \<Rightarrow> bytes \<Rightarrow> bytes \<Rightarrow> bytes option" where
  "check_cipher c iv ad x t = do { o1 \<leftarrow> cipher_ctx_update c iv ad x; o2 \<leftarrow> cipher_ctx_final_check_tag c iv ad x t; Some (o1 @ o2) }"

lemma cipher_output_law:
  assumes "buf_wf b" "int (length out) \<le> buf_forward_capacity b"
  shows "\<exists>b'. cipher_output b out = Some b' \<and> buf_wf b' \<and> buf_content b' = buf_content b @ out \<and> b_offset b' = b_offset b
    \<and> b_capacity b' = b_capacity b \<and> b_len b' = b_len b + int (length out) \<and> buf_forward_capacity b' = buf_forward_capacity b - int (length out)"
proof -
  obtain b' where b': "buf_write b out = (b', True)" "buf_wf b'" "buf_content b' = buf_content b @ out" "b_offset b' = b_offset b"
    "b_capacity b' = b_capacity b" "b_len b' = b_len b + int (length out)" "buf_forward_capacity b' = buf_forward_capacity b - int (length out)"
    using buf_write_law [OF assms] by metis
  let ?p = "buf_poke b (b_offset b + b_len b) out"
  have room: "b_offset b + b_len b + int (length out) \<le> b_capacity b" using assms by (simp add: buf_forward_capacity_eq)
  have p: "b_offset ?p = b_offset b" "b_len ?p = b_len b" "b_capacity ?p = b_capacity b" "buf_wf ?p"
    using assms(1) room by (auto simp: buf_poke_def buf_wf_def)
  have "buf_inc_len ?p (int (length out)) = (?p\<lparr>b_len := b_len ?p + int (length out)\<rparr>, True)"
    using buf_inc_len_law [OF p(4), of "int (length out)"] p room assms(1) by (auto simp: buf_forward_capacity_eq elim: buf_wfE)
  moreover have "?p\<lparr>b_len := b_len ?p + int (length out)\<rparr> = b'"
    using b'(1) assms by (auto simp: buf_write_def buf_write_alloc_def buf_safe_iff buf_poke_def)
  ultimately have "cipher_output b out = Some b'" using room by (simp add: cipher_output_def)
  then show ?thesis using b' by blast
qed

lemma buf_safe_int: "buf_wf b \<Longrightarrow> 0 \<le> n \<Longrightarrow> n < 2 ^ 64 \<Longrightarrow> buf_safe b (size_t_of_int n) = (n \<le> buf_forward_capacity b)"
  by (simp add: buf_safe_iff size_t_of_int_def)

subsection \<open>Opening a packet\<close>

definition open_aead :: "cipher_ctx \<Rightarrow> bytes \<Rightarrow> bytes \<Rightarrow> bytes \<Rightarrow> (packet_id_net \<times> bytes) option" where
  "open_aead c implicit ad0 bs =
     (let pid = take 4 bs; iv = pid @ implicit in
      if length bs < 4 + OPENVPN_AEAD_TAG_LENGTH + 1 \<or> \<not> cipher_ctx_reset c iv then None
      else do {
        pt \<leftarrow> check_cipher c iv (ad0 @ pid) (drop (4 + OPENVPN_AEAD_TAG_LENGTH) bs) (take OPENVPN_AEAD_TAG_LENGTH (drop 4 bs));
        Some (\<lparr>pin_id = be32_of pid, pin_time = 0\<rparr>, pt) })"

definition dropped :: "crypto_state \<Rightarrow> (crypto_state \<times> buffer \<times> bool) option \<Rightarrow> bool" where
  "dropped opt r \<longleftrightarrow> (\<exists>b. r = Some (opt, b, False) \<and> b_len b = 0)"

lemma crypt_error_dropped [simp]: "dropped opt (crypt_error opt b)"
  by (simp add: dropped_def crypt_error_def)

text \<open>The receive function computes what \<open>open\<close> says, before the replay check.\<close>

definition decrypts_as ::
    "int \<Rightarrow> crypto_state \<Rightarrow> (packet_id_net option \<times> bytes) option \<Rightarrow> (crypto_state \<times> buffer \<times> bool) option \<Rightarrow> bool" where
  "decrypts_as now opt opened r \<longleftrightarrow>
     (case opened of
        None \<Rightarrow> dropped opt r
      | Some (pin, pt) \<Rightarrow> \<exists>b work. r = decrypt_finish now opt b work pin \<and> buf_wf work \<and> buf_content work = pt)"

lemma decrypts_as_finish: "buf_wf w \<Longrightarrow> decrypts_as now opt (Some (pin, buf_content w)) (decrypt_finish now opt b w pin)"
  unfolding decrypts_as_def by auto

lemma decrypts_as_error [simp]: "decrypts_as now opt None (crypt_error opt b)"
  by (simp add: decrypts_as_def)

lemma decrypt_aead_refines:
  assumes c: "kc_cipher (cs_decrypt opt) = Some c" "cipher_ok c" "int (length (kc_implicit_iv (cs_decrypt opt))) + 4 = cipher_ctx_iv_length c"
    and buf: "buf_wf buf" "0 < b_len buf" "0 \<le> ad_start" "ad_start \<le> b_offset buf" and init: "packet_id_initialized (cs_pid opt)"
    and work: "buf_wf work" "0 \<le> fm_headroom frm" "fm_headroom frm + b_len buf + OPENVPN_MAX_CIPHER_BLOCK_SIZE \<le> b_capacity work"
  shows "decrypts_as now opt
    (map_option (map_prod Some id) (open_aead c (kc_implicit_iv (cs_decrypt opt)) (buf_peek buf ad_start (b_offset buf - ad_start)) (buf_content buf)))
    (openvpn_decrypt_aead now buf work opt frm ad_start)"
proof -
  let ?ctx = "cs_decrypt opt" and ?imp = "kc_implicit_iv (cs_decrypt opt)" and ?c = "buf_content buf"
  let ?ad0 = "buf_peek buf ad_start (b_offset buf - ad_start)"
  have bs: "0 \<le> cipher_ctx_block_size c" "cipher_ctx_block_size c \<le> 32" using c(2) by (simp_all add: cipher_ok_def OPENVPN_MAX_CIPHER_BLOCK_SIZE_def)
  have len: "int (length ?c) = b_len buf" by (rule length_buf_content [OF buf(1)])
  have cap: "b_len buf < 1000000" using buf(1) by (auto elim: buf_wfE)
  obtain w where w: "buf_init work (fm_headroom frm) = (w, True)" "buf_wf w" "buf_content w = []" "b_offset w = fm_headroom frm"
    "buf_forward_capacity w = b_capacity work - fm_headroom frm"
    using buf_init_law [OF work(1,2)] work(3) buf(2) by (auto simp: OPENVPN_MAX_CIPHER_BLOCK_SIZE_def)
  have piv: "cipher_ctx_iv_length c - int (length ?imp) = 4" using c(3) by simp
  show ?thesis
  proof (cases "b_len buf < 4")
    case True
    then have "openvpn_decrypt_aead now buf work opt frm ad_start = crypt_error opt buf"
      using c(1) buf w(1) init piv by (simp add: openvpn_decrypt_aead_def Let_def)
    then show ?thesis using True len by (simp add: decrypts_as_def open_aead_def Let_def OPENVPN_AEAD_TAG_LENGTH_def)
  next
    case ge4: False
    define iv where "iv = take 4 ?c @ ?imp"
    have iv: "buf_peek buf (b_offset buf) 4 @ ?imp = iv" using buf_peek_head [OF buf(1), of 4] ge4 by (simp add: iv_def)
    have rd: "packet_id_read buf False = (\<lparr>pin_id = be32_of (take 4 ?c), pin_time = 0\<rparr>, buf_skip buf 4, True)" "buf_wf (buf_skip buf 4)"
      "buf_content (buf_skip buf 4) = drop 4 ?c"
      using packet_id_read_law [OF buf(1), of False] len ge4 by (simp_all add: read_pin_def)
    show ?thesis
    proof (cases "\<not> cipher_ctx_reset c iv \<or> b_len buf < 21")
      case True
      have "dropped opt (openvpn_decrypt_aead now buf work opt frm ad_start)"
      proof (cases "cipher_ctx_reset c iv")
        case False
        then have "openvpn_decrypt_aead now buf work opt frm ad_start = crypt_error opt buf"
          using c(1) buf w(1) init piv ge4 iv by (simp add: openvpn_decrypt_aead_def Let_def)
        then show ?thesis by simp
      next
        case reset: True
        then have lt: "b_len buf < 21" using True by simp
        show ?thesis
        proof (cases "b_len buf < 20")
          case True
          then have "openvpn_decrypt_aead now buf work opt frm ad_start = crypt_error opt (buf_skip buf 4)"
            using c(1) buf w(1) init piv ge4 iv reset rd(1) by (simp add: openvpn_decrypt_aead_def Let_def OPENVPN_AEAD_TAG_LENGTH_def)
          then show ?thesis by simp
        next
          case False
          then have "openvpn_decrypt_aead now buf work opt frm ad_start = crypt_error opt (buf_skip (buf_skip buf 4) 16)"
            using c(1) buf w(1) init piv ge4 iv reset rd lt buf_skip_law(1) [OF rd(2), of 16]
            by (simp add: openvpn_decrypt_aead_def Let_def OPENVPN_AEAD_TAG_LENGTH_def)
          then show ?thesis by simp
        qed
      qed
      then show ?thesis using True len
        by (auto simp: decrypts_as_def open_aead_def Let_def OPENVPN_AEAD_TAG_LENGTH_def iv_def)
    next
      case ok: False
      let ?b = "buf_skip (buf_skip buf 4) 16"
      have sk: "buf_advance (buf_skip buf 4) 16 = (?b, True)" "buf_wf ?b" "buf_content ?b = drop 20 ?c"
        using buf_skip_law [OF rd(2), of 16] ok rd(3) by simp_all
      have tag: "buf_peek (buf_skip buf 4) (b_offset buf + 4) 16 = take 16 (drop 4 ?c)"
        using buf_peek_head [OF rd(2), of 16] ok rd(3) by simp
      have ad: "buf_peek ?b ad_start (b_offset ?b - ad_start - 16) = ?ad0 @ take 4 ?c"
      proof -
        have "buf_peek ?b ad_start (b_offset ?b - ad_start - 16) = buf_peek buf ad_start ((b_offset buf - ad_start) + 4)"
          by (simp add: algebra_simps)
        also have "\<dots> = ?ad0 @ buf_peek buf (b_offset buf) 4" using buf_peek_split [of ad_start "b_offset buf - ad_start" 4 buf] buf(3,4) by simp
        finally show ?thesis using buf_peek_head [OF buf(1), of 4] ge4 by simp
      qed
      have room: "b_len ?b + cipher_ctx_block_size c \<le> buf_forward_capacity w" using w(5) work(3) bs by (simp add: OPENVPN_MAX_CIPHER_BLOCK_SIZE_def)
      have safe: "buf_safe w (size_t_of_int (b_len ?b + cipher_ctx_block_size c))"
        using buf_safe_int [OF w(2)] room bs ok cap by simp
      define ct where "ct = drop 20 ?c"
      have sk3: "buf_content ?b = ct" using sk(3) by (simp add: ct_def)
      have lct: "int (length ct) = b_len ?b" using length_buf_content [OF sk(2)] sk(3) by (simp add: ct_def)
      have run: "openvpn_decrypt_aead now buf work opt frm ad_start = (case cipher_ctx_update c iv (?ad0 @ take 4 ?c) ct of
            None \<Rightarrow> crypt_error opt ?b
          | Some out \<Rightarrow> do {
              work \<leftarrow> cipher_output w out;
              (case cipher_ctx_final_check_tag c iv (?ad0 @ take 4 ?c) ct (take 16 (drop 4 ?c)) of
                 None \<Rightarrow> crypt_error opt ?b
               | Some out \<Rightarrow> do { work \<leftarrow> cipher_output work out; decrypt_finish now opt ?b work (Some \<lparr>pin_id = be32_of (take 4 ?c), pin_time = 0\<rparr>) }) })"
        using c(1) buf w(1) init piv ge4 iv ok rd(1) sk(1) safe ad tag
        by (simp add: openvpn_decrypt_aead_def Let_def OPENVPN_AEAD_TAG_LENGTH_def sk3 cong: option.case_cong)
      have opened: "open_aead c ?imp ?ad0 ?c = do {
          pt \<leftarrow> check_cipher c iv (?ad0 @ take 4 ?c) ct (take 16 (drop 4 ?c));
          Some (\<lparr>pin_id = be32_of (take 4 ?c), pin_time = 0\<rparr>, pt) }"
        using ok len by (simp add: open_aead_def Let_def OPENVPN_AEAD_TAG_LENGTH_def iv_def ct_def)
      show ?thesis
      proof (cases "cipher_ctx_update c iv (?ad0 @ take 4 ?c) ct")
        case None
        then show ?thesis unfolding run opened by (simp add: decrypts_as_def check_cipher_def)
      next
        case (Some o1)
        have l1: "int (length o1) \<le> int (length ct) + cipher_ctx_block_size c"
          "\<And>t o2. cipher_ctx_final_check_tag c iv (?ad0 @ take 4 ?c) ct t = Some o2 \<Longrightarrow> int (length o1 + length o2) \<le> int (length ct) + cipher_ctx_block_size c"
          using c(2) Some unfolding cipher_ok_def by blast+
        obtain w1 where w1: "cipher_output w o1 = Some w1" "buf_wf w1" "buf_content w1 = o1" "b_offset w1 = b_offset w"
          "buf_forward_capacity w1 = buf_forward_capacity w - int (length o1)"
          using cipher_output_law [OF w(2), of o1] l1(1) lct room w(3) by auto
        show ?thesis
        proof (cases "cipher_ctx_final_check_tag c iv (?ad0 @ take 4 ?c) ct (take 16 (drop 4 ?c))")
          case None
          then show ?thesis unfolding run opened using Some w1(1) by (simp add: decrypts_as_def check_cipher_def)
        next
          case o2: (Some o2)
          obtain w2 where "cipher_output w1 o2 = Some w2" "buf_wf w2" "buf_content w2 = o1 @ o2" "b_offset w2 = b_offset w"
            using cipher_output_law [OF w1(2), of o2] l1(2) [OF o2] lct room w1(3-5) by auto
          then show ?thesis unfolding run opened using Some w1(1) o2 w(4)
            by (simp add: decrypts_as_def check_cipher_def) blast
        qed
      qed
    qed
  qed
qed

text \<open>The older modes.\<close>

definition open_hmac :: "key_ctx \<Rightarrow> bytes \<Rightarrow> bytes option" where
  "open_hmac ctx bs =
     (case kc_hmac ctx of
        None \<Rightarrow> Some bs
      | Some h \<Rightarrow>
          if length bs < hmac_ctx_size h \<or> take (hmac_ctx_size h) (hmac_ctx_digest h (drop (hmac_ctx_size h) bs)) \<noteq> take (hmac_ctx_size h) bs
          then None else Some (drop (hmac_ctx_size h) bs))"

definition open_pin :: "cipher_ctx \<Rightarrow> crypto_state \<Rightarrow> bytes \<Rightarrow> bytes \<Rightarrow> (packet_id_net option \<times> bytes) option" where
  "open_pin c opt iv pt =
     (if cipher_ctx_mode c = OPENVPN_MODE_CBC
      then (if packet_id_initialized (cs_pid opt) then map_option (map_prod Some id) (read_pin (co_long_form (cs_options opt)) pt) else Some (None, pt))
      else map_option (\<lambda>(pin, rest). (Some pin, pt)) (read_pin True iv))"

definition open_body :: "crypto_state \<Rightarrow> bytes \<Rightarrow> (packet_id_net option \<times> bytes) option" where
  "open_body opt bs =
     (case kc_cipher (cs_decrypt opt) of
        Some c \<Rightarrow>
          (let n = nat (cipher_ctx_iv_length c); iv = take n bs in
           if length bs < n + 1 \<or> \<not> cipher_ctx_reset c iv then None
           else do { pt \<leftarrow> run_cipher c iv [] (drop n bs); open_pin c opt iv pt })
      | None \<Rightarrow>
          (if packet_id_initialized (cs_pid opt)
           then map_option (map_prod (\<lambda>pin. if cs_ignore_packet_id opt then None else Some pin) id) (read_pin (co_long_form (cs_options opt)) bs)
           else Some (None, bs)))"

definition open_v1 :: "crypto_state \<Rightarrow> bytes \<Rightarrow> (packet_id_net option \<times> bytes) option" where
  "open_v1 opt bs = Option.bind (open_hmac (cs_decrypt opt) bs) (open_body opt)"

text \<open>A context of the modes the older functions support.\<close>

definition v1_mode_ok :: "crypto_state \<Rightarrow> cipher_ctx \<Rightarrow> bool" where
  "v1_mode_ok opt c \<longleftrightarrow> cipher_ok c \<and> (cipher_ctx_mode c = OPENVPN_MODE_CBC \<or> cipher_ctx_mode c = OPENVPN_MODE_OFB_CFB \<and> packet_id_initialized (cs_pid opt))"

lemma decrypt_v1_hmac_law:
  assumes "buf_wf buf"
  shows "case open_hmac ctx (buf_content buf) of
      None \<Rightarrow> decrypt_v1_hmac ctx buf = Some (buf, False)
    | Some bs \<Rightarrow> \<exists>b. decrypt_v1_hmac ctx buf = Some (b, True) \<and> buf_wf b \<and> buf_content b = bs \<and> b_len b \<le> b_len buf"
proof (cases "kc_hmac ctx")
  case None
  then show ?thesis using assms by (simp add: open_hmac_def decrypt_v1_hmac_def)
next
  case (Some h)
  have len: "int (length (buf_content buf)) = b_len buf" by (rule length_buf_content [OF assms])
  show ?thesis
  proof (cases "b_len buf < int (hmac_ctx_size h)")
    case True
    then show ?thesis using Some len by (simp add: open_hmac_def decrypt_v1_hmac_def Let_def)
  next
    case False
    then show ?thesis using Some len buf_skip_law [OF assms, of "int (hmac_ctx_size h)"]
      by (simp add: open_hmac_def decrypt_v1_hmac_def Let_def)
  qed
qed

lemma buf_of_iv:
  assumes "length iv < 1000000"
  shows "\<exists>b. buf_set_read clear_buf (Some iv) (length iv) = Some b \<and> buf_wf b \<and> buf_content b = iv"
  using assms
  by (simp add: buf_set_read_def buf_size_valid_def BUF_SIZE_MAX_def clear_buf_def buf_wf_def buf_content_def buf_valid_def buf_peek_def segment_def)

lemma decrypt_pin_law:
  assumes "v1_mode_ok opt c" "buf_wf work" "length iv < 1000000"
  shows "case open_pin c opt iv (buf_content work) of
      None \<Rightarrow> \<exists>pin w. decrypt_v1_pin c iv work opt = Some (pin, w, False)
    | Some (pin, pt) \<Rightarrow> \<exists>w. decrypt_v1_pin c iv work opt = Some (pin, w, True) \<and> buf_wf w \<and> buf_content w = pt"
proof -
  from assms(1) consider (cbc) "cipher_ctx_mode c = OPENVPN_MODE_CBC" | (ofb) "cipher_ctx_mode c = OPENVPN_MODE_OFB_CFB" "packet_id_initialized (cs_pid opt)"
    by (auto simp: v1_mode_ok_def)
  then show ?thesis
  proof cases
    case cbc
    show ?thesis
    proof (cases "packet_id_initialized (cs_pid opt)")
      case True
      then show ?thesis using cbc packet_id_read_law [OF assms(2), of "co_long_form (cs_options opt)"]
        by (auto simp: open_pin_def decrypt_v1_pin_def split: option.splits)
    qed (use cbc assms(2) in \<open>simp add: open_pin_def decrypt_v1_pin_def\<close>)
  next
    case ofb
    obtain b where b: "buf_set_read clear_buf (Some iv) (length iv) = Some b" "buf_wf b" "buf_content b = iv"
      using buf_of_iv [OF assms(3)] by blast
    show ?thesis using ofb b packet_id_read_law [OF b(2), of True] assms(2)
      by (auto simp: open_pin_def decrypt_v1_pin_def split: option.splits)
  qed
qed

lemma decrypt_v1_refines:
  assumes c: "\<forall>c. kc_cipher (cs_decrypt opt) = Some c \<longrightarrow> v1_mode_ok opt c"
    and buf: "buf_wf buf" "0 < b_len buf"
    and work: "buf_wf work" "0 \<le> fm_headroom frm" "fm_headroom frm + b_len buf + OPENVPN_MAX_CIPHER_BLOCK_SIZE \<le> b_capacity work"
  shows "decrypts_as now opt (open_v1 opt (buf_content buf)) (openvpn_decrypt_v1 now buf work opt frm)"
proof (cases "open_hmac (cs_decrypt opt) (buf_content buf)")
  case None
  then show ?thesis using decrypt_v1_hmac_law [OF buf(1), of "cs_decrypt opt"] buf(2)
    by (simp add: decrypts_as_def open_v1_def openvpn_decrypt_v1_def)
next
  case (Some bs)
  obtain b where b: "decrypt_v1_hmac (cs_decrypt opt) buf = Some (b, True)" "buf_wf b" "buf_content b = bs" "b_len b \<le> b_len buf"
    using decrypt_v1_hmac_law [OF buf(1), of "cs_decrypt opt"] Some by auto
  have len: "int (length bs) = b_len b" using length_buf_content [OF b(2)] b(3) by simp
  have op: "open_v1 opt (buf_content buf) = open_body opt bs" using Some by (simp add: open_v1_def)
  show ?thesis
  proof (cases "kc_cipher (cs_decrypt opt)")
    case None
    show ?thesis
    proof (cases "packet_id_initialized (cs_pid opt)")
      case False
      then show ?thesis using None b buf(2) unfolding op
        by (auto simp: decrypts_as_def open_body_def openvpn_decrypt_v1_def)
    next
      case True
      let ?long = "co_long_form (cs_options opt)"
      note r = packet_id_read_law [OF b(2), of ?long]
      show ?thesis
      proof (cases "read_pin ?long bs")
        case None
        then show ?thesis using \<open>kc_cipher (cs_decrypt opt) = None\<close> True b buf(2) r unfolding op
          by (auto simp: open_body_def openvpn_decrypt_v1_def Let_def)
      next
        case (Some x)
        obtain pin rest where x: "x = (pin, rest)" by (cases x)
        have f: "packet_id_read b ?long = (pin, buf_skip b (if ?long then 8 else 4), True)" "buf_wf (buf_skip b (if ?long then 8 else 4))"
          "buf_content (buf_skip b (if ?long then 8 else 4)) = rest"
          using r Some x b(3) by simp_all
        then show ?thesis using \<open>kc_cipher (cs_decrypt opt) = None\<close> True b buf(2) Some x unfolding op
          by (simp add: open_body_def openvpn_decrypt_v1_def Let_def decrypts_as_finish del: buf_skip_sel flip: f(3))
      qed
    qed
  next
    case (Some c)
    have m: "v1_mode_ok opt c" using c Some by simp
    then have ok: "0 \<le> cipher_ctx_block_size c" "cipher_ctx_block_size c \<le> 32" "0 \<le> cipher_ctx_iv_length c" "cipher_ctx_iv_length c \<le> 16" "cipher_ok c"
      by (simp_all add: v1_mode_ok_def cipher_ok_def OPENVPN_MAX_CIPHER_BLOCK_SIZE_def OPENVPN_MAX_IV_LENGTH_def)
    define n where "n = nat (cipher_ctx_iv_length c)"
    have n: "cipher_ctx_iv_length c = int n" using ok(3) by (simp add: n_def)
    have le: "fm_headroom frm \<le> b_capacity work" using work(3) buf(2) by (simp add: OPENVPN_MAX_CIPHER_BLOCK_SIZE_def)
    obtain w where w: "buf_init work (fm_headroom frm) = (w, True)" "buf_wf w" "buf_content w = []"
      "buf_forward_capacity w = b_capacity work - fm_headroom frm"
      using buf_init_law [OF work(1,2) le] by metis
    show ?thesis
    proof (cases "length bs < n")
      case True
      then have "openvpn_decrypt_v1 now buf work opt frm = crypt_error opt b"
        using Some b(1) buf(2) w(1) n len by (simp add: openvpn_decrypt_v1_def Let_def)
      then show ?thesis unfolding op using Some True by (simp add: decrypts_as_def open_body_def Let_def n_def)
    next
      case ge: False
      let ?b = "buf_skip b (int n)" and ?iv = "take n bs"
      have sk: "buf_advance b (int n) = (?b, True)" "buf_wf ?b" "buf_content ?b = drop n bs"
        using buf_skip_law [OF b(2), of "int n"] ge len b(3) by simp_all
      have iv: "buf_peek b (b_offset b) (int n) = ?iv" using buf_peek_head [OF b(2), of "int n"] ge len b(3) by simp
      show ?thesis
      proof (cases "length bs < n + 1 \<or> \<not> cipher_ctx_reset c ?iv")
        case True
        then have "openvpn_decrypt_v1 now buf work opt frm = crypt_error opt ?b"
          using Some b(1) buf(2) w(1) n len ge sk(1) iv by (auto simp: openvpn_decrypt_v1_def Let_def)
        then show ?thesis unfolding op using Some True by (simp add: decrypts_as_def open_body_def Let_def n_def)
      next
        case False
        define ct where "ct = drop n bs"
        have lct: "int (length ct) = b_len ?b" using ge len by (simp add: ct_def)
        have cap: "b_len buf < 1000000" using buf(1) by (auto elim: buf_wfE)
        have room: "b_len ?b + cipher_ctx_block_size c \<le> buf_forward_capacity w" using w(4) work(3) ok(2) b(4) by (simp add: OPENVPN_MAX_CIPHER_BLOCK_SIZE_def)
        have safe: "buf_safe w (size_t_of_int (b_len ?b + cipher_ctx_block_size c))"
          using buf_safe_int [OF w(2)] room ok(1,2) False len ge cap b(4) by simp
        have run: "openvpn_decrypt_v1 now buf work opt frm = (case cipher_ctx_update c ?iv [] ct of
              None \<Rightarrow> crypt_error opt ?b
            | Some out \<Rightarrow> do {
                work \<leftarrow> cipher_output w out;
                (case cipher_ctx_final c ?iv [] ct of
                   None \<Rightarrow> crypt_error opt ?b
                 | Some out \<Rightarrow> do {
                     work \<leftarrow> cipher_output work out;
                     (pin, work, ok) \<leftarrow> decrypt_v1_pin c ?iv work opt;
                     (if \<not> ok then crypt_error opt ?b else decrypt_finish now opt ?b work pin) }) })"
          using Some b(1) buf(2) w(1) n len ge sk iv False safe
          by (simp add: openvpn_decrypt_v1_def Let_def ct_def cong: option.case_cong)
        have opened: "open_body opt bs = do { pt \<leftarrow> run_cipher c ?iv [] ct; open_pin c opt ?iv pt }"
          using Some False by (simp add: open_body_def Let_def n_def ct_def)
        show ?thesis
        proof (cases "cipher_ctx_update c ?iv [] ct")
          case None
          then show ?thesis unfolding run op opened by (simp add: decrypts_as_def run_cipher_def)
        next
          case o1: (Some o1)
          have l1: "int (length o1) \<le> int (length ct) + cipher_ctx_block_size c"
            "\<And>o2. cipher_ctx_final c ?iv [] ct = Some o2 \<Longrightarrow> int (length o1 + length o2) \<le> int (length ct) + cipher_ctx_block_size c"
            using ok(5) o1 unfolding cipher_ok_def by blast+
          obtain w1 where w1: "cipher_output w o1 = Some w1" "buf_wf w1" "buf_content w1 = o1"
            "buf_forward_capacity w1 = buf_forward_capacity w - int (length o1)"
            using cipher_output_law [OF w(2), of o1] l1(1) lct room w(3) by auto
          show ?thesis
          proof (cases "cipher_ctx_final c ?iv [] ct")
            case None
            then show ?thesis unfolding run op opened using o1 w1(1) by (simp add: decrypts_as_def run_cipher_def)
          next
            case o2: (Some o2)
            obtain w2 where w2: "cipher_output w1 o2 = Some w2" "buf_wf w2" "buf_content w2 = o1 @ o2"
              using cipher_output_law [OF w1(2), of o2] l1(2) [OF o2] lct room w1(3,4) by auto
            have liv: "length ?iv < 1000000" using n ok(4) by simp
            have r: "openvpn_decrypt_v1 now buf work opt frm = do {
                (pin, work, ok) \<leftarrow> decrypt_v1_pin c ?iv w2 opt;
                (if \<not> ok then crypt_error opt ?b else decrypt_finish now opt ?b work pin) }"
              unfolding run using o1 w1(1) o2 w2(1) by simp
            have o: "open_body opt bs = open_pin c opt ?iv (o1 @ o2)" unfolding opened using o1 o2 by (simp add: run_cipher_def)
            show ?thesis unfolding op o r using decrypt_pin_law [OF m w2(2) liv] w2(3)
              by (auto simp: decrypts_as_finish split: option.splits)
          qed
        qed
      qed
    qed
  qed
qed

subsection \<open>Sealing a packet\<close>

definition seal_aead :: "cipher_ctx \<Rightarrow> bytes \<Rightarrow> bytes \<Rightarrow> packet_id_send \<Rightarrow> bytes \<Rightarrow> bytes option" where
  "seal_aead c implicit ad0 ps pt =
     (let pid = pid_bytes False ps; iv = pid @ implicit in
      if \<not> cipher_ctx_reset c iv then None
      else do { ct \<leftarrow> run_cipher c iv (ad0 @ pid) pt; t \<leftarrow> cipher_ctx_get_tag c iv (ad0 @ pid) pt; Some (pid @ t @ ct) })"

lemma iv_buffer_law:
  assumes "0 \<le> n" "n < 1000000"
  shows "\<exists>b. iv_buffer_init n = Some b \<and> buf_wf b \<and> buf_content b = [] \<and> b_offset b = 0 \<and> b_len b = 0
    \<and> buf_forward_capacity b = n \<and> b_capacity b = n \<and> b_data b = Some (replicate (nat n) 0)"
proof -
  have "int (size_t_of_int n) = n" using assms by (simp add: size_t_of_int_def)
  moreover have "0 < n \<Longrightarrow> patch (replicate (nat n) 0) 0 [0 :: u8] = replicate (nat n) 0"
    by (cases "nat n") (simp_all add: patch_def)
  ultimately have "iv_buffer_init n = Some \<lparr>b_capacity = n, b_offset = 0, b_len = 0, b_data = Some (replicate (nat n) 0)\<rparr>"
    using assms by (simp add: iv_buffer_init_def buf_set_write_def buf_size_valid_def BUF_SIZE_MAX_def clear_buf_def buf_poke_def Let_def)
  then show ?thesis
    using assms by (simp add: buf_wf_def BUF_SIZE_MAX_def buf_content_def buf_valid_def buf_peek_def buf_forward_capacity_def)
qed

lemma buf_write_alloc_law:
  assumes "buf_wf b" "int n \<le> buf_forward_capacity b"
  shows "\<exists>b' g. buf_write_alloc b n = (b', Some (b_offset b + b_len b)) \<and> buf_wf b' \<and> length g = n \<and> buf_content b' = buf_content b @ g
    \<and> b_offset b' = b_offset b \<and> b_len b' = b_len b + int n \<and> b_capacity b' = b_capacity b
    \<and> buf_forward_capacity b' = buf_forward_capacity b - int n"
proof -
  let ?b = "b\<lparr>b_len := b_len b + int n\<rparr>"
  have nn: "0 \<le> b_len b" "0 \<le> b_offset b" using assms(1) by (auto elim: buf_wfE)
  have wf: "buf_wf ?b" using buf_inc_len_law [OF assms(1), of "int n"] assms(2) nn by simp
  have "buf_content b = take (nat (b_len b)) (buf_content ?b)"
    using buf_content_shrink [OF wf, of "b_len b"] nn by simp
  then have "buf_content ?b = buf_content b @ drop (nat (b_len b)) (buf_content ?b)" by (metis append_take_drop_id)
  moreover have "length (drop (nat (b_len b)) (buf_content ?b)) = n"
    using length_buf_content [OF wf] nn by simp
  moreover have "buf_write_alloc b n = (?b, Some (b_offset b + b_len b))"
    using assms by (simp add: buf_write_alloc_def buf_safe_iff)
  moreover have "buf_forward_capacity ?b = buf_forward_capacity b - int n"
    using wf assms(1) by (simp add: buf_forward_capacity_eq)
  ultimately show ?thesis using wf by (intro exI [of _ ?b] exI [of _ "drop (nat (b_len b)) (buf_content ?b)"]) simp
qed

lemma iv_peek:
  assumes "buf_wf b" "b_offset b = 0" "b_len b = n"
  shows "buf_peek b 0 n = buf_content b"
  using buf_peek_head [OF assms(1), of n] assms length_buf_content_nat [OF assms(1)] by (auto elim: buf_wfE)

lemma cipher_run_law:
  assumes "cipher_ok c" "buf_wf w" "cipher_ctx_update c iv ad x = Some o1" "cipher_ctx_final c iv ad x = Some o2"
    "int (length x) + cipher_ctx_block_size c \<le> buf_forward_capacity w"
  shows "\<exists>w1 w2. cipher_output w o1 = Some w1 \<and> cipher_output w1 o2 = Some w2 \<and> buf_wf w2 \<and> buf_content w2 = buf_content w @ o1 @ o2
    \<and> b_offset w2 = b_offset w \<and> b_len w2 = b_len w + int (length o1) + int (length o2)"
proof -
  have l: "int (length o1) \<le> int (length x) + cipher_ctx_block_size c" "int (length o1 + length o2) \<le> int (length x) + cipher_ctx_block_size c"
    using assms(1,3,4) unfolding cipher_ok_def by blast+
  obtain w1 where w1: "cipher_output w o1 = Some w1" "buf_wf w1" "buf_content w1 = buf_content w @ o1" "b_offset w1 = b_offset w"
    "b_len w1 = b_len w + int (length o1)" "buf_forward_capacity w1 = buf_forward_capacity w - int (length o1)"
    using cipher_output_law [OF assms(2), of o1] l(1) assms(5) by auto
  obtain w2 where "cipher_output w1 o2 = Some w2" "buf_wf w2" "buf_content w2 = buf_content w1 @ o2" "b_offset w2 = b_offset w1"
    "b_len w2 = b_len w1 + int (length o2)"
    using cipher_output_law [OF w1(2), of o2] l(2) assms(5) w1(6) by auto
  then show ?thesis using w1 by auto
qed

lemma patch_middle: "k = length xs \<Longrightarrow> length ys = length zs \<Longrightarrow> patch (xs @ ys @ rest) k zs = xs @ zs @ rest"
  by (simp add: patch_def)

lemma encrypt_aead_rollover:
  assumes "kc_cipher (cs_encrypt opt) = Some c" "packet_id_initialized (cs_pid opt)"
    "OPENVPN_AEAD_MIN_IV_LEN \<le> cipher_ctx_iv_length c" "cipher_ctx_iv_length c \<le> OPENVPN_MAX_IV_LENGTH"
    "packet_id_send_update now (pid_send (cs_pid opt)) False = (ps, False)"
  shows "openvpn_encrypt_aead now buf work opt = Some (set_send ps opt, buf\<lparr>b_len := 0\<rparr>)"
proof -
  obtain b where "iv_buffer_init (cipher_ctx_iv_length c) = Some b"
    using iv_buffer_law [of "cipher_ctx_iv_length c"] assms(3,4) by (auto simp: OPENVPN_AEAD_MIN_IV_LEN_def OPENVPN_MAX_IV_LENGTH_def)
  then show ?thesis using assms by (simp add: openvpn_encrypt_aead_def packet_id_write_def)
qed

lemma encrypt_aead_refines:
  assumes c: "kc_cipher (cs_encrypt opt) = Some c" "cipher_ok c" "int (length (kc_implicit_iv (cs_encrypt opt))) + 4 = cipher_ctx_iv_length c"
      "OPENVPN_AEAD_MIN_IV_LEN \<le> cipher_ctx_iv_length c"
    and buf: "buf_wf buf" and init: "packet_id_initialized (cs_pid opt)"
    and work: "buf_wf work" "b_len buf + int OPENVPN_AEAD_TAG_LENGTH + 4 + OPENVPN_MAX_CIPHER_BLOCK_SIZE \<le> buf_forward_capacity work"
    and ps: "packet_id_send_update now (pid_send (cs_pid opt)) False = (ps, True)"
    and sealed: "seal_aead c (kc_implicit_iv (cs_encrypt opt)) (buf_content work) ps (buf_content buf) = Some sealed"
  shows "\<exists>w. openvpn_encrypt_aead now buf work opt = Some (set_send ps opt, w) \<and> buf_wf w \<and> buf_content w = buf_content work @ sealed
    \<and> b_offset w = b_offset work"
proof -
  let ?imp = "kc_implicit_iv (cs_encrypt opt)" and ?n = "cipher_ctx_iv_length c" and ?pid = "pid_bytes False ps" and ?x = "buf_content buf"
  have bs: "0 \<le> cipher_ctx_block_size c" "cipher_ctx_block_size c \<le> 32" "?n \<le> 16" "0 \<le> ?n"
    using c(2) by (simp_all add: cipher_ok_def OPENVPN_MAX_CIPHER_BLOCK_SIZE_def OPENVPN_MAX_IV_LENGTH_def)
  have lx: "int (length ?x) = b_len buf" by (rule length_buf_content [OF buf])
  have cap: "b_len buf < 1000000" "0 \<le> b_len buf" using buf by (auto elim: buf_wfE)
  have lp: "length ?pid = 4" by (simp add: length_pid_bytes)
  obtain ib where ib: "iv_buffer_init ?n = Some ib" "buf_wf ib" "buf_content ib = []" "b_offset ib = 0" "b_len ib = 0"
    "buf_forward_capacity ib = ?n" "b_capacity ib = ?n"
    using iv_buffer_law [of ?n] bs by auto
  obtain i1 where i1: "packet_id_write now (pid_send (cs_pid opt)) ib False False = (ps, i1, True)" "buf_wf i1" "buf_content i1 = ?pid" "b_offset i1 = 0"
    "buf_forward_capacity i1 = ?n - 4" "b_capacity i1 = ?n"
    using packet_id_write_law [OF ib(2) ps] ib c(3) lp by auto
  obtain i2 where i2: "buf_write i1 ?imp = (i2, True)" "buf_wf i2" "buf_content i2 = ?pid @ ?imp" "b_offset i2 = 0"
    using buf_write_law [OF i1(2), of ?imp] i1 c(3) by auto
  have l2: "b_len i2 = ?n" using length_buf_content [OF i2(2)] i2(3) lp c(3) by simp
  let ?iv = "?pid @ ?imp"
  have iv: "buf_peek i2 0 ?n = ?iv" using iv_peek [OF i2(2,4) l2] i2(3) by simp
  have tk: "take (nat ?n - length ?imp) ?iv = ?pid"
  proof -
    have "nat ?n = length ?imp + 4" using c(3) by simp
    then show ?thesis by (simp add: lp)
  qed
  have r1: "int (length ?pid) \<le> buf_forward_capacity work" using work(2) lp cap(2) by (simp add: OPENVPN_MAX_CIPHER_BLOCK_SIZE_def)
  obtain w1 where w1: "buf_write work ?pid = (w1, True)" "buf_wf w1" "buf_content w1 = buf_content work @ ?pid" "b_offset w1 = b_offset work"
    "b_len w1 = b_len work + int (length ?pid)" "buf_forward_capacity w1 = buf_forward_capacity work - int (length ?pid)"
    using buf_write_law [OF work(1) r1] by metis
  have r2: "int OPENVPN_AEAD_TAG_LENGTH \<le> buf_forward_capacity w1" using work(2) w1(6) lp cap(2) by (simp add: OPENVPN_MAX_CIPHER_BLOCK_SIZE_def)
  obtain w2 g where w2: "buf_write_alloc w1 OPENVPN_AEAD_TAG_LENGTH = (w2, Some (b_offset w1 + b_len w1))" "buf_wf w2" "length g = OPENVPN_AEAD_TAG_LENGTH"
    "buf_content w2 = buf_content w1 @ g" "b_offset w2 = b_offset w1" "b_len w2 = b_len w1 + int OPENVPN_AEAD_TAG_LENGTH"
    "buf_forward_capacity w2 = buf_forward_capacity w1 - int OPENVPN_AEAD_TAG_LENGTH"
    using buf_write_alloc_law [OF w1(2) r2] by metis
  let ?ad = "buf_content work @ ?pid"
  have ad: "take (length (buf_content w2) - OPENVPN_AEAD_TAG_LENGTH) (buf_content w2) = ?ad" using w2(3,4) w1(3) by simp
  have room: "int (length ?x) + cipher_ctx_block_size c \<le> buf_forward_capacity w2"
    using work(2) bs(2) w1(6) w2(7) lp lx by (simp add: OPENVPN_MAX_CIPHER_BLOCK_SIZE_def)
  have safe: "buf_safe w2 (size_t_of_int (b_len buf + cipher_ctx_block_size c))"
    using buf_safe_int [OF w2(2)] room lx bs cap by simp
  obtain o1 o2 t where out: "cipher_ctx_reset c ?iv" "cipher_ctx_update c ?iv ?ad ?x = Some o1" "cipher_ctx_final c ?iv ?ad ?x = Some o2"
    "cipher_ctx_get_tag c ?iv ?ad ?x = Some t" "sealed = ?pid @ t @ o1 @ o2"
    using sealed by (auto simp: seal_aead_def run_cipher_def Let_def option_bind_Some_iff split: if_splits)
  have lt: "length t = OPENVPN_AEAD_TAG_LENGTH" using c(2) out(4) unfolding cipher_ok_def by blast
  obtain w3 w4 where w4: "cipher_output w2 o1 = Some w3" "cipher_output w3 o2 = Some w4" "buf_wf w4"
    "buf_content w4 = buf_content w2 @ o1 @ o2" "b_offset w4 = b_offset w2" "b_len w4 = b_len w2 + int (length o1) + int (length o2)"
    using cipher_run_law [OF c(2) w2(2) out(2,3) room] by blast
  have ll: "length (buf_content w1) = nat (b_len w1)" by (rule length_buf_content_nat [OF w1(2)])
  have nn: "0 \<le> b_len w1" using w1(2) by (auto elim: buf_wfE)
  have poke: "buf_wf (buf_poke w4 (b_offset w1 + b_len w1) t)" "buf_content (buf_poke w4 (b_offset w1 + b_len w1) t) = patch (buf_content w4) (nat (b_len w1)) t"
    using buf_poke_content [OF w4(3), of "b_offset w1 + b_len w1" "nat (b_len w1)" t] w4(5,6) w2(5,6) lt nn by simp_all
  have "patch (buf_content w4) (nat (b_len w1)) t = buf_content work @ sealed"
    unfolding w4(4) w2(4) using patch_middle [of "nat (b_len w1)" "buf_content w1" g t "o1 @ o2"] ll lt w2(3) w1(3) out(5) by simp
  moreover have "openvpn_encrypt_aead now buf work opt = Some (set_send ps opt, buf_poke w4 (b_offset w1 + b_len w1) t)"
    using c(1,4) bs(3) init ib(1) i1(1) i2(1) l2 iv tk w1(1) w2(1) safe out(1-4) ad w4(1,2)
    by (simp add: openvpn_encrypt_aead_def OPENVPN_MAX_IV_LENGTH_def Let_def cong: if_cong)
  moreover have "b_offset (buf_poke w4 (b_offset w1 + b_len w1) t) = b_offset work" using w4(5) w2(5) w1(4) by (simp add: buf_poke_def)
  ultimately show ?thesis using poke by auto
qed

text \<open>The older modes. Which form of the identifier is sent, if any, and the state after it is used up.\<close>

definition v1_pid_form :: "crypto_state \<Rightarrow> bool option" where
  "v1_pid_form opt = (case kc_cipher (cs_encrypt opt) of
     Some c \<Rightarrow> if cipher_ctx_mode c = OPENVPN_MODE_OFB_CFB then Some True
              else if packet_id_initialized (cs_pid opt) then Some (co_long_form (cs_options opt)) else None
   | None \<Rightarrow> if packet_id_initialized (cs_pid opt) then Some (co_long_form (cs_options opt)) else None)"

definition pid_prefix :: "crypto_state \<Rightarrow> packet_id_send \<Rightarrow> bytes" where
  "pid_prefix opt ps = (if packet_id_initialized (cs_pid opt) then pid_bytes (co_long_form (cs_options opt)) ps else [])"

definition seal_body :: "crypto_state \<Rightarrow> packet_id_send \<Rightarrow> bytes \<Rightarrow> bytes \<Rightarrow> bytes option" where
  "seal_body opt ps prng pt =
     (case kc_cipher (cs_encrypt opt) of
        None \<Rightarrow> Some (pid_prefix opt ps @ pt)
      | Some c \<Rightarrow>
          (let (iv, x) = (if cipher_ctx_mode c = OPENVPN_MODE_CBC then (prng, pid_prefix opt ps @ pt)
                          else (pid_bytes True ps @ replicate (nat (cipher_ctx_iv_length c) - 8) 0, pt)) in
           if \<not> cipher_ctx_reset c iv then None
           else do {
             o1 \<leftarrow> cipher_ctx_update c iv [] x;
             o2 \<leftarrow> cipher_ctx_final c iv [] x;
             ASSERT (cipher_ctx_mode c \<noteq> OPENVPN_MODE_CBC \<or> int (length o2) = cipher_ctx_iv_length c);
             Some (iv @ o1 @ o2) }))"

definition seal_v1 :: "crypto_state \<Rightarrow> packet_id_send \<Rightarrow> bytes \<Rightarrow> bytes \<Rightarrow> bytes option" where
  "seal_v1 opt ps prng pt = map_option (\<lambda>body. (case kc_hmac (cs_encrypt opt) of
     None \<Rightarrow> body | Some h \<Rightarrow> hmac_ctx_digest h body @ body)) (seal_body opt ps prng pt)"

definition hmac_ok :: "key_ctx \<Rightarrow> bool" where
  "hmac_ok ctx \<longleftrightarrow> (\<forall>h. kc_hmac ctx = Some h \<longrightarrow> int (hmac_ctx_size h) \<le> OPENVPN_MAX_HMAC_SIZE \<and> (\<forall>x. length (hmac_ctx_digest h x) = hmac_ctx_size h))"

definition hmac_len :: "key_ctx \<Rightarrow> nat" where
  "hmac_len ctx = (case kc_hmac ctx of None \<Rightarrow> 0 | Some h \<Rightarrow> hmac_ctx_size h)"

text \<open>The IV of a packet, and the plaintext with the identifier where the mode puts it there.\<close>

lemma pid_room: "8 \<le> n \<Longrightarrow> int (length (pid_bytes lf ps)) \<le> n"
  by (simp add: length_pid_bytes)

lemma encrypt_iv_law:
  assumes m: "v1_mode_ok opt c" "kc_cipher (cs_encrypt opt) = Some c" "cipher_ctx_mode c = OPENVPN_MODE_OFB_CFB \<longrightarrow> 8 \<le> cipher_ctx_iv_length c"
    and buf: "buf_wf buf" "8 \<le> b_offset buf"
    and ps: "case v1_pid_form opt of None \<Rightarrow> opt' = opt | Some lf \<Rightarrow> packet_id_send_update now (pid_send (cs_pid opt)) lf = (ps, True) \<and> opt' = set_send ps opt"
  shows "\<exists>iv b. encrypt_v1_iv now prng c buf opt = Some (iv, opt', b, True) \<and> buf_wf b \<and> b_len b \<le> b_len buf + 8
    \<and> (iv, buf_content b) = (if cipher_ctx_mode c = OPENVPN_MODE_CBC then (prng, pid_prefix opt ps @ buf_content buf)
         else (pid_bytes True ps @ replicate (nat (cipher_ctx_iv_length c) - 8) 0, buf_content buf))"
proof -
  from m(1) consider (cbc) "cipher_ctx_mode c = OPENVPN_MODE_CBC" | (ofb) "cipher_ctx_mode c = OPENVPN_MODE_OFB_CFB" "packet_id_initialized (cs_pid opt)"
    by (auto simp: v1_mode_ok_def)
  then show ?thesis
  proof cases
    case cbc
    show ?thesis
    proof (cases "packet_id_initialized (cs_pid opt)")
      case True
      let ?lf = "co_long_form (cs_options opt)"
      have u: "packet_id_send_update now (pid_send (cs_pid opt)) ?lf = (ps, True)" "opt' = set_send ps opt"
        using ps m(2) cbc True by (simp_all add: v1_pid_form_def)
      obtain b where "packet_id_write now (pid_send (cs_pid opt)) buf ?lf True = (ps, b, True)" "buf_wf b" "buf_content b = pid_bytes ?lf ps @ buf_content buf"
        "b_len b = b_len buf + int (length (pid_bytes ?lf ps))"
        using packet_id_write_prepend_law [OF buf(1) u(1)] pid_room [OF buf(2)] by blast
      then show ?thesis using cbc True u(2) by (simp add: encrypt_v1_iv_def pid_prefix_def length_pid_bytes)
    next
      case False
      then show ?thesis using ps m(2) cbc buf(1) by (simp add: encrypt_v1_iv_def pid_prefix_def v1_pid_form_def)
    qed
  next
    case ofb
    let ?n = "cipher_ctx_iv_length c"
    have n: "8 \<le> ?n" "?n \<le> 16" using m ofb by (simp_all add: v1_mode_ok_def cipher_ok_def OPENVPN_MAX_IV_LENGTH_def)
    have u: "packet_id_send_update now (pid_send (cs_pid opt)) True = (ps, True)" "opt' = set_send ps opt"
      using ps m(2) ofb by (simp_all add: v1_pid_form_def)
    obtain ib where ib: "iv_buffer_init ?n = Some ib" "buf_wf ib" "buf_content ib = []" "b_offset ib = 0" "b_len ib = 0"
      "buf_forward_capacity ib = ?n" "b_capacity ib = ?n" "b_data ib = Some (replicate (nat ?n) 0)"
      using iv_buffer_law [of ?n] n by auto
    have lp: "length (pid_bytes True ps) = 8" by (simp add: length_pid_bytes)
    have w: "packet_id_write now (pid_send (cs_pid opt)) ib True False
        = (ps, ib\<lparr>b_len := 8, b_data := Some (patch (replicate (nat ?n) 0) 0 (pid_bytes True ps))\<rparr>, True)"
    proof -
      have s: "buf_safe ib 4" "buf_safe (ib\<lparr>b_len := 4, b_data := Some (patch (replicate (nat ?n) 0) 0 (be32_bytes (ps_id ps)))\<rparr>) 4"
        using ib n by (auto simp: buf_safe_def buf_valid_def buf_size_valid_def BUF_SIZE_MAX_def)
      have "patch (patch (replicate (nat ?n) 0) 0 (be32_bytes (ps_id ps))) 4 (be32_bytes (word_of_int (ps_time ps)))
          = patch (replicate (nat ?n) 0) 0 (pid_bytes True ps)"
        using n by (simp add: patch_def pid_bytes_def)
      then show ?thesis using u(1) s ib
        by (simp add: packet_id_write_def buf_write_def buf_write_alloc_def buf_bptr_def buf_valid_def buf_poke_def)
    qed
    have "buf_peek (ib\<lparr>b_len := 8, b_data := Some (patch (replicate (nat ?n) 0) 0 (pid_bytes True ps))\<rparr>) 0 ?n
        = pid_bytes True ps @ replicate (nat ?n - 8) 0"
      using n lp by (simp add: buf_peek_def segment_def patch_def)
    then show ?thesis using ofb ib(1) w u(2) buf(1) by (simp add: encrypt_v1_iv_def Let_def)
  qed
qed

text \<open>The digest is written over the bytes reserved for it.\<close>

lemma mac_law:
  assumes "buf_wf w" "buf_content w = pre @ g @ body" "length g = hmac_ctx_size h" "\<forall>x. length (hmac_ctx_digest h x) = hmac_ctx_size h"
    "mac_out = b_offset w + int (length pre)" "hmac_start = mac_out + int (hmac_ctx_size h)"
  shows "let w' = buf_poke w mac_out (hmac_ctx_digest h (buf_peek w hmac_start (b_offset w + b_len w - hmac_start))) in
    buf_wf w' \<and> buf_content w' = pre @ hmac_ctx_digest h body @ body \<and> b_offset w' = b_offset w"
proof -
  let ?k = "int (length pre + hmac_ctx_size h)"
  have len: "b_len w = int (length pre + length g + length body)" using length_buf_content [OF assms(1)] assms(2) by simp
  have sk: "buf_wf (buf_skip w ?k)" "buf_content (buf_skip w ?k) = body" "b_len (buf_skip w ?k) = int (length body)"
    using buf_skip_law [OF assms(1), of ?k] len assms(2,3) by simp_all
  have "buf_peek w hmac_start (b_offset w + b_len w - hmac_start) = body"
    using buf_peek_head [OF sk(1), of "b_len (buf_skip w ?k)"] sk assms(3,5,6) len by (simp add: algebra_simps)
  moreover have "buf_wf (buf_poke w mac_out (hmac_ctx_digest h body))"
    "buf_content (buf_poke w mac_out (hmac_ctx_digest h body)) = patch (buf_content w) (length pre) (hmac_ctx_digest h body)"
    using buf_poke_content [OF assms(1) assms(5), of "hmac_ctx_digest h body"] len assms(3,4) by simp_all
  ultimately show ?thesis using assms(2-4) by (simp add: patch_middle Let_def) (simp add: buf_poke_def)
qed

lemma buf_prepend_law:
  assumes "buf_wf b" "int n \<le> b_offset b"
  shows "\<exists>b' g. buf_prepend b (int n) = (b', Some (b_offset b - int n)) \<and> buf_wf b' \<and> length g = n \<and> buf_content b' = g @ buf_content b
    \<and> b_offset b' = b_offset b - int n"
proof -
  let ?b = "b\<lparr>b_offset := b_offset b - int n, b_len := b_len b + int n\<rparr>"
  have r: "buf_prepend b (int n) = (?b, Some (b_offset b - int n))" using buf_prepend_alloc [OF assms(1), of "int n"] assms(2) by simp
  have wf: "buf_wf ?b" using assms by (auto simp: buf_wf_def)
  have sk: "buf_skip ?b (int n) = b" by (simp add: buf_skip_def)
  have "0 \<le> b_len b" using assms(1) by (auto elim: buf_wfE)
  then have "buf_content (buf_skip ?b (int n)) = drop n (buf_content ?b)" using buf_skip_law(3) [OF wf, of "int n"] by simp
  then have "drop n (buf_content ?b) = buf_content b" unfolding sk by (rule sym)
  then have "buf_content ?b = take n (buf_content ?b) @ buf_content b" by (metis append_take_drop_id)
  moreover have "length (take n (buf_content ?b)) = n" using length_buf_content [OF wf] assms(1) by (auto elim: buf_wfE)
  ultimately show ?thesis using r wf by (intro exI [of _ ?b] exI [of _ "take n (buf_content ?b)"]) simp
qed

lemma encrypt_v1_rollover:
  assumes "0 < b_len buf" "v1_pid_form opt = Some lf" "packet_id_send_update now (pid_send (cs_pid opt)) lf = (ps, False)"
    "kc_hmac (cs_encrypt opt) = None" "\<forall>c. kc_cipher (cs_encrypt opt) = Some c \<longrightarrow> cipher_ctx_mode c = OPENVPN_MODE_CBC"
  shows "\<exists>b. openvpn_encrypt_v1 now prng buf work opt = Some (set_send ps opt, b) \<and> b_len b = 0"
proof -
  have w: "packet_id_write now (pid_send (cs_pid opt)) buf lf True = (ps, buf, False)" using assms(3) by (simp add: packet_id_write_def)
  show ?thesis
  proof (cases "kc_cipher (cs_encrypt opt)")
    case None
    then have "packet_id_initialized (cs_pid opt)" "lf = co_long_form (cs_options opt)"
      using assms(2) by (auto simp: v1_pid_form_def split: if_splits)
    then show ?thesis using None w assms(1) by (simp add: openvpn_encrypt_v1_def)
  next
    case (Some c)
    moreover have "cipher_ctx_mode c = OPENVPN_MODE_CBC" using Some assms(5) by simp
    ultimately have "cipher_ctx_mode c = OPENVPN_MODE_CBC" "packet_id_initialized (cs_pid opt)" "lf = co_long_form (cs_options opt)"
      using assms(2,5) by (auto simp: v1_pid_form_def split: if_splits)
    then show ?thesis using Some w assms(1,4) by (simp add: openvpn_encrypt_v1_def encrypt_v1_iv_def)
  qed
qed

lemma encrypt_v1_refines:
  assumes m: "\<forall>c. kc_cipher (cs_encrypt opt) = Some c \<longrightarrow> v1_mode_ok opt c \<and> int (length prng) = cipher_ctx_iv_length c
        \<and> (cipher_ctx_mode c = OPENVPN_MODE_OFB_CFB \<longrightarrow> 8 \<le> cipher_ctx_iv_length c)"
      "hmac_ok (cs_encrypt opt)"
    and buf: "buf_wf buf" "0 < b_len buf" "8 + OPENVPN_MAX_HMAC_SIZE + b_len work \<le> b_offset buf"
    and work: "buf_wf work" "b_len buf + OPENVPN_MAX_HMAC_SIZE + OPENVPN_MAX_IV_LENGTH + 8 + OPENVPN_MAX_CIPHER_BLOCK_SIZE \<le> buf_forward_capacity work"
    and ps: "case v1_pid_form opt of None \<Rightarrow> opt' = opt | Some lf \<Rightarrow> packet_id_send_update now (pid_send (cs_pid opt)) lf = (ps, True) \<and> opt' = set_send ps opt"
    and sealed: "seal_v1 opt ps prng (buf_content buf) = Some sealed"
  shows "\<exists>w. openvpn_encrypt_v1 now prng buf work opt = Some (opt', w) \<and> buf_wf w \<and> buf_content w = buf_content work @ sealed"
proof -
  have hm: "kc_hmac (cs_encrypt opt) = Some h \<Longrightarrow> int (hmac_ctx_size h) \<le> 64 \<and> (\<forall>x. length (hmac_ctx_digest h x) = hmac_ctx_size h)" for h
    using m(2) by (simp add: hmac_ok_def OPENVPN_MAX_HMAC_SIZE_def)
  obtain body where body: "seal_body opt ps prng (buf_content buf) = Some body"
    "sealed = (case kc_hmac (cs_encrypt opt) of None \<Rightarrow> body | Some h \<Rightarrow> hmac_ctx_digest h body @ body)"
    using sealed by (auto simp: seal_v1_def)
  have wl: "0 \<le> b_len work" "int (length (buf_content work)) = b_len work" using work(1) length_buf_content by (auto elim: buf_wfE)
  have cap: "b_len buf < 1000000" "0 \<le> b_len buf" using buf(1) by (auto elim: buf_wfE)
  show ?thesis
  proof (cases "kc_cipher (cs_encrypt opt)")
    case (Some c)
    have mc: "v1_mode_ok opt c" "int (length prng) = cipher_ctx_iv_length c" "cipher_ctx_mode c = OPENVPN_MODE_OFB_CFB \<longrightarrow> 8 \<le> cipher_ctx_iv_length c"
      using m(1) Some by simp_all
    then have ok: "cipher_ok c" "0 \<le> cipher_ctx_block_size c" "cipher_ctx_block_size c \<le> 32" "0 \<le> cipher_ctx_iv_length c" "cipher_ctx_iv_length c \<le> 16"
      by (simp_all add: v1_mode_ok_def cipher_ok_def OPENVPN_MAX_CIPHER_BLOCK_SIZE_def OPENVPN_MAX_IV_LENGTH_def)
    have off: "8 \<le> b_offset buf" using buf(3) wl by (simp add: OPENVPN_MAX_HMAC_SIZE_def)
    obtain iv b where ivb: "encrypt_v1_iv now prng c buf opt = Some (iv, opt', b, True)" "buf_wf b" "b_len b \<le> b_len buf + 8"
      "(iv, buf_content b) = (if cipher_ctx_mode c = OPENVPN_MODE_CBC then (prng, pid_prefix opt ps @ buf_content buf)
         else (pid_bytes True ps @ replicate (nat (cipher_ctx_iv_length c) - 8) 0, buf_content buf))"
      using encrypt_iv_law [OF mc(1) Some mc(3) buf(1) off ps] by blast
    have b0: "0 \<le> b_len b" "int (length (buf_content b)) = b_len b" using ivb(2) length_buf_content by (auto elim: buf_wfE)
    have liv: "int (length iv) \<le> 16"
      using ivb(4) mc ok by (auto simp: length_pid_bytes v1_mode_ok_def split: if_splits)
    have sb: "seal_body opt ps prng (buf_content buf) = (if \<not> cipher_ctx_reset c iv then None
           else do {
             o1 \<leftarrow> cipher_ctx_update c iv [] (buf_content b);
             o2 \<leftarrow> cipher_ctx_final c iv [] (buf_content b);
             ASSERT (cipher_ctx_mode c \<noteq> OPENVPN_MODE_CBC \<or> int (length o2) = cipher_ctx_iv_length c);
             Some (iv @ o1 @ o2) })"
      unfolding seal_body_def Some option.case ivb(4) [symmetric] by simp
    then obtain o1 o2 where out: "cipher_ctx_reset c iv" "cipher_ctx_update c iv [] (buf_content b) = Some o1" "cipher_ctx_final c iv [] (buf_content b) = Some o2"
      "cipher_ctx_mode c \<noteq> OPENVPN_MODE_CBC \<or> int (length o2) = cipher_ctx_iv_length c" "body = iv @ o1 @ o2"
      using body(1) [unfolded sb] by (auto simp: option_bind_Some_iff split: if_splits)
    define mac where "mac = (case kc_hmac (cs_encrypt opt) of None \<Rightarrow> None
        | Some h \<Rightarrow> Some (b_offset work + b_len work, b_offset work + b_len work + int (hmac_ctx_size h)))"
    obtain w0 g where w0: "(case kc_hmac (cs_encrypt opt) of
                None \<Rightarrow> Some (work, None)
              | Some hmac \<Rightarrow> do {
                  let (work, mac_out) = buf_write_alloc work (hmac_ctx_size hmac);
                  mac_out \<leftarrow> mac_out;
                  Some (work, Some (mac_out, b_offset work + b_len work)) }) = Some (w0, mac)"
      "buf_wf w0" "buf_content w0 = buf_content work @ g" "length g = hmac_len (cs_encrypt opt)" "b_offset w0 = b_offset work"
      "buf_forward_capacity w0 = buf_forward_capacity work - int (hmac_len (cs_encrypt opt))"
    proof (cases "kc_hmac (cs_encrypt opt)")
      case None
      then show ?thesis using that [of work "[]"] work(1) by (simp add: mac_def hmac_len_def)
    next
      case h: (Some h)
      have "int (hmac_ctx_size h) \<le> buf_forward_capacity work"
        using work(2) hm [OF h] cap by (simp add: OPENVPN_MAX_HMAC_SIZE_def OPENVPN_MAX_IV_LENGTH_def OPENVPN_MAX_CIPHER_BLOCK_SIZE_def)
      then obtain w g where "buf_write_alloc work (hmac_ctx_size h) = (w, Some (b_offset work + b_len work))" "buf_wf w" "length g = hmac_ctx_size h"
        "buf_content w = buf_content work @ g" "b_offset w = b_offset work" "b_len w = b_len work + int (hmac_ctx_size h)"
        "buf_forward_capacity w = buf_forward_capacity work - int (hmac_ctx_size h)"
        using buf_write_alloc_law [OF work(1)] by blast
      then show ?thesis using that [of w g] h by (simp add: mac_def hmac_len_def)
    qed
    have hl: "int (hmac_len (cs_encrypt opt)) \<le> 64" using hm by (auto simp: hmac_len_def split: option.split)
    have r1: "int (length iv) \<le> buf_forward_capacity w0"
      using work(2) w0(6) hl liv cap by (simp add: OPENVPN_MAX_HMAC_SIZE_def OPENVPN_MAX_IV_LENGTH_def OPENVPN_MAX_CIPHER_BLOCK_SIZE_def)
    obtain w1 where w1: "buf_write w0 iv = (w1, True)" "buf_wf w1" "buf_content w1 = buf_content w0 @ iv" "b_offset w1 = b_offset w0"
      "buf_forward_capacity w1 = buf_forward_capacity w0 - int (length iv)"
      using buf_write_law [OF w0(2) r1] by metis
    have room: "int (length (buf_content b)) + cipher_ctx_block_size c \<le> buf_forward_capacity w1"
      using work(2) w0(6) w1(5) hl liv ok(3) ivb(3) b0(2) by (simp add: OPENVPN_MAX_HMAC_SIZE_def OPENVPN_MAX_IV_LENGTH_def OPENVPN_MAX_CIPHER_BLOCK_SIZE_def)
    have safe: "buf_safe w1 (size_t_of_int (b_len b + cipher_ctx_block_size c))"
      using buf_safe_int [OF w1(2)] room b0 ok(2,3) ivb(3) cap by simp
    obtain w2 w3 where w3: "cipher_output w1 o1 = Some w2" "cipher_output w2 o2 = Some w3" "buf_wf w3" "buf_content w3 = buf_content w1 @ o1 @ o2"
      "b_offset w3 = b_offset w1"
      using cipher_run_law [OF ok(1) w1(2) out(2,3) room] by blast
    have c3: "buf_content w3 = buf_content work @ g @ body" using w3(4) w1(3) w0(3) out(5) by simp
    have run: "openvpn_encrypt_v1 now prng buf work opt = Some (opt', (case (kc_hmac (cs_encrypt opt), mac) of
          (Some hmac, Some (mac_out, hmac_start)) \<Rightarrow>
            buf_poke w3 mac_out (hmac_ctx_digest hmac (buf_peek w3 hmac_start (b_offset w3 + b_len w3 - hmac_start)))
        | _ \<Rightarrow> w3))"
      using buf(2) Some w0(1) ivb(1) w1(1) out(1-4) safe w3(1,2)
      by (simp add: openvpn_encrypt_v1_def Let_def)
    show ?thesis
    proof (cases "kc_hmac (cs_encrypt opt)")
      case None
      then show ?thesis unfolding run using w3(3) c3 w0(4) body(2) by (simp add: hmac_len_def)
    next
      case h: (Some h)
      then have "length g = hmac_ctx_size h" "b_offset w3 = b_offset work" using w0(4,5) w1(4) w3(5) by (simp_all add: hmac_len_def)
      then show ?thesis unfolding run using mac_law [OF w3(3) c3, of h] hm [OF h] h body(2) wl(2)
        by (simp add: mac_def Let_def)
    qed
  next
    case None
    let ?lf = "co_long_form (cs_options opt)"
    have bd: "body = pid_prefix opt ps @ buf_content buf" using body(1) None by (simp add: seal_body_def)
    obtain b1 where b1: "(if packet_id_initialized (cs_pid opt)
                then (let (ps, buf, ok) = packet_id_write now (pid_send (cs_pid opt)) buf ?lf True in (set_send ps opt, buf, ok))
                else (opt, buf, True)) = (opt', b1, True)" "buf_wf b1" "buf_content b1 = body" "b_offset buf - 8 \<le> b_offset b1"
    proof (cases "packet_id_initialized (cs_pid opt)")
      case True
      have u: "packet_id_send_update now (pid_send (cs_pid opt)) ?lf = (ps, True)" "opt' = set_send ps opt"
        using ps None True by (simp_all add: v1_pid_form_def)
      have "8 \<le> b_offset buf" using buf(3) wl by (simp add: OPENVPN_MAX_HMAC_SIZE_def)
      then obtain b where "packet_id_write now (pid_send (cs_pid opt)) buf ?lf True = (ps, b, True)" "buf_wf b" "buf_content b = pid_bytes ?lf ps @ buf_content buf"
        "b_offset b = b_offset buf - int (length (pid_bytes ?lf ps))"
        using packet_id_write_prepend_law [OF buf(1) u(1)] pid_room by blast
      then show ?thesis using that [of b] True u(2) bd by (simp add: pid_prefix_def length_pid_bytes)
    next
      case False
      then show ?thesis using that [of buf] ps None buf(1) bd by (simp add: v1_pid_form_def pid_prefix_def)
    qed
    define mac where "mac = (case kc_hmac (cs_encrypt opt) of None \<Rightarrow> None
        | Some h \<Rightarrow> Some (b_offset b1 - int (hmac_ctx_size h), b_offset b1))"
    obtain b2 g where b2: "(case kc_hmac (cs_encrypt opt) of
                   None \<Rightarrow> Some (b1, None)
                 | Some hmac \<Rightarrow> do {
                     let hmac_start = b_offset b1;
                     let (buf, mac_out) = buf_prepend b1 (int (hmac_ctx_size hmac));
                     mac_out \<leftarrow> mac_out;
                     Some (buf, Some (mac_out, hmac_start)) }) = Some (b2, mac)"
      "buf_wf b2" "buf_content b2 = g @ body" "length g = hmac_len (cs_encrypt opt)" "b_offset b2 = b_offset b1 - int (hmac_len (cs_encrypt opt))"
    proof (cases "kc_hmac (cs_encrypt opt)")
      case None
      then show ?thesis using that [of b1 "[]"] b1 by (simp add: mac_def hmac_len_def)
    next
      case h: (Some h)
      have "int (hmac_ctx_size h) \<le> b_offset b1" using buf(3) b1(4) hm [OF h] wl by (simp add: OPENVPN_MAX_HMAC_SIZE_def)
      from buf_prepend_law [OF b1(2) this] show ?thesis using that h b1(3) by (auto simp: mac_def hmac_len_def Let_def)
    qed
    have hl: "int (hmac_len (cs_encrypt opt)) \<le> 64" using hm by (auto simp: hmac_len_def split: option.split)
    obtain b3 where b3: "(if buf_len work \<noteq> 0 then fst (buf_write_prepend b2 (buf_content work)) else b2) = b3"
      "buf_wf b3" "buf_content b3 = buf_content work @ g @ body" "b_offset b3 = b_offset b2 - b_len work"
    proof (cases "b_len work = 0")
      case True
      then show ?thesis using that [of b2] work(1) b2 b_len_0_iff [OF work(1)] by simp
    next
      case False
      have "int (length (buf_content work)) \<le> b_offset b2" using buf(3) b1(4) b2(5) hl wl(2) by (simp add: OPENVPN_MAX_HMAC_SIZE_def)
      then obtain b where "buf_write_prepend b2 (buf_content work) = (b, True)" "buf_wf b" "buf_content b = buf_content work @ buf_content b2"
        "b_offset b = b_offset b2 - int (length (buf_content work))"
        using buf_write_prepend_law [OF b2(2)] by metis
      then show ?thesis using that [of b] False work(1) b2(3) wl(2) by simp
    qed
    have run: "openvpn_encrypt_v1 now prng buf work opt = Some (opt', (case (kc_hmac (cs_encrypt opt), mac) of
          (Some hmac, Some (mac_out, hmac_start)) \<Rightarrow>
            buf_poke b3 mac_out (hmac_ctx_digest hmac (buf_peek b3 hmac_start (b_offset b3 + b_len b3 - hmac_start)))
        | _ \<Rightarrow> b3))"
      using buf(2) None b1(1) b2(1) b3(1)
      by (simp add: openvpn_encrypt_v1_def Let_def)
    show ?thesis
    proof (cases "kc_hmac (cs_encrypt opt)")
      case None
      then show ?thesis unfolding run using b3(2,3) b2(4) body(2) by (simp add: hmac_len_def)
    next
      case h: (Some h)
      let ?o = "b_offset b1 - int (hmac_ctx_size h)"
      have l: "length g = hmac_ctx_size h" "?o = b_offset b3 + int (length (buf_content work))" "b_offset b1 = ?o + int (hmac_ctx_size h)"
        using h b2(4,5) b3(4) wl(2) by (simp_all add: hmac_len_def)
      have "\<forall>x. length (hmac_ctx_digest h x) = hmac_ctx_size h" using hm [OF h] by simp
      from mac_law [OF b3(2,3) l(1) this l(2,3)] show ?thesis
        unfolding run using h body(2) by (simp add: mac_def Let_def)
    qed
  qed
qed

end
