(* ===== verification/Data_Session.thy ===== *)
theory Data_Session
  imports Data_Channel
begin

text \<open>
  Two ends of a data channel (\<open>openvpn_encrypt\<close> and \<open>openvpn_decrypt\<close> of crypto.c), over the functions
  on byte lists of Data_Channel: what a receiver does with any datagram, what it accepts over a
  whole session, and the round trip from one end to the other.
\<close>

subsection \<open>The receiver\<close>

definition open_packet :: "crypto_state \<Rightarrow> bytes \<Rightarrow> bytes \<Rightarrow> (packet_id_net option \<times> bytes) option" where
  "open_packet opt ad0 bs =
     (case kc_cipher (cs_decrypt opt) of
        Some c \<Rightarrow> (if cipher_ctx_mode c = OPENVPN_MODE_AEAD
                  then map_option (map_prod Some id) (open_aead c (kc_implicit_iv (cs_decrypt opt)) ad0 bs)
                  else open_v1 opt bs)
      | None \<Rightarrow> open_v1 opt bs)"

text \<open>Keys as \<open>init_key_ctx\<close> makes them, and a packet with room for its plaintext.\<close>

definition receiver_ok :: "crypto_state \<Rightarrow> bool" where
  "receiver_ok opt \<longleftrightarrow> (\<forall>c. kc_cipher (cs_decrypt opt) = Some c \<longrightarrow>
     (if cipher_ctx_mode c = OPENVPN_MODE_AEAD
      then cipher_ok c \<and> int (length (kc_implicit_iv (cs_decrypt opt))) + 4 = cipher_ctx_iv_length c \<and> packet_id_initialized (cs_pid opt)
      else v1_mode_ok opt c))"

definition datagram_fits :: "frame \<Rightarrow> buffer \<Rightarrow> buffer \<Rightarrow> int \<Rightarrow> bool" where
  "datagram_fits frm buf work ad_start \<longleftrightarrow> buf_wf buf \<and> 0 < b_len buf \<and> 0 \<le> ad_start \<and> ad_start \<le> b_offset buf
     \<and> buf_wf work \<and> 0 \<le> fm_headroom frm \<and> fm_headroom frm + b_len buf + OPENVPN_MAX_CIPHER_BLOCK_SIZE \<le> b_capacity work"

text \<open>The bytes before the payload that an AEAD cipher authenticates: opcode and peer id.\<close>

definition packet_head :: "buffer \<Rightarrow> int \<Rightarrow> bytes" where
  "packet_head buf ad_start = buf_peek buf ad_start (b_offset buf - ad_start)"

text \<open>Receiving changes only the receiving side of the packet ids.\<close>

definition same_receiver :: "crypto_state \<Rightarrow> crypto_state \<Rightarrow> bool" where
  "same_receiver opt opt' \<longleftrightarrow> cs_encrypt opt' = cs_encrypt opt \<and> cs_decrypt opt' = cs_decrypt opt
     \<and> cs_ignore_packet_id opt' = cs_ignore_packet_id opt \<and> co_long_form (cs_options opt') = co_long_form (cs_options opt)
     \<and> pid_send (cs_pid opt') = pid_send (cs_pid opt) \<and> packet_id_initialized (cs_pid opt') = packet_id_initialized (cs_pid opt)"

lemma same_receiver_refl [simp]: "same_receiver opt opt"
  by (simp add: same_receiver_def)

lemma same_receiver_trans: "same_receiver a b \<Longrightarrow> same_receiver b c \<Longrightarrow> same_receiver a c"
  by (simp add: same_receiver_def)

lemma open_pin_cong: "same_receiver opt opt' \<Longrightarrow> open_pin c opt' = open_pin c opt"
  by (intro ext) (simp add: same_receiver_def open_pin_def)

lemma open_body_cong: "same_receiver opt opt' \<Longrightarrow> open_body opt' = open_body opt"
  using open_pin_cong [of opt opt']
  by (intro ext) (simp add: same_receiver_def open_body_def Let_def cong: option.case_cong if_cong)

lemma open_packet_cong: "same_receiver opt opt' \<Longrightarrow> open_packet opt' = open_packet opt"
  using open_body_cong [of opt opt']
  by (intro ext) (simp add: same_receiver_def open_packet_def open_v1_def cong: option.case_cong if_cong)

lemma receiver_ok_cong: "same_receiver opt opt' \<Longrightarrow> receiver_ok opt \<Longrightarrow> receiver_ok opt'"
  by (auto simp: same_receiver_def receiver_ok_def v1_mode_ok_def split: if_splits)

lemma check_replay_options:
  "crypto_check_replay now co pin = Some (co', ok) \<Longrightarrow>
    co_long_form co' = co_long_form co \<and> pid_send (co_packet_id co') = pid_send (co_packet_id co)"
  by (auto simp: crypto_check_replay_def option_bind_Some_iff Let_def split: if_splits option.splits prod.splits)

lemma check_replay_same:
  assumes "crypto_check_replay now (cs_options opt) pin = Some (co, ok)" "seen_inv (pid_rec (co_packet_id co)) S" "seen_inv (pid_rec (cs_pid opt)) S'"
  shows "same_receiver opt (opt\<lparr>cs_options := co\<rparr>)"
  using assms check_replay_options [OF assms(1)]
  by (simp add: same_receiver_def cs_pid_def packet_id_initialized_def seen_inv_def rec_wf_def)

lemma decrypt_as:
  assumes "receiver_ok opt" "datagram_fits frm buf work ad_start"
  shows "\<exists>r. openvpn_decrypt now buf work (Some opt) frm ad_start = map_option (\<lambda>(o', b, ok). (Some o', b, ok)) r
    \<and> decrypts_as now opt (open_packet opt (packet_head buf ad_start) (buf_content buf)) r"
proof (cases "cipher_ctx_mode_aead (kc_cipher (cs_decrypt opt))")
  case True
  then obtain c where c: "kc_cipher (cs_decrypt opt) = Some c" "cipher_ctx_mode c = OPENVPN_MODE_AEAD"
    by (auto simp: cipher_ctx_mode_aead_def split: option.splits)
  let ?r = "openvpn_decrypt_aead now buf work opt frm ad_start"
  have "decrypts_as now opt (open_packet opt (packet_head buf ad_start) (buf_content buf)) ?r"
    using decrypt_aead_refines [OF c(1), of buf ad_start work frm now] c assms
    by (simp add: receiver_ok_def datagram_fits_def open_packet_def packet_head_def)
  moreover have "openvpn_decrypt now buf work (Some opt) frm ad_start = map_option (\<lambda>(o', b, ok). (Some o', b, ok)) ?r"
    using assms(2) True by (cases ?r) (auto simp: openvpn_decrypt_def datagram_fits_def)
  ultimately show ?thesis by blast
next
  case False
  then have "open_packet opt ad bs = open_v1 opt bs" for ad bs
    by (auto simp: open_packet_def cipher_ctx_mode_aead_def split: option.splits)
  moreover have "\<forall>c. kc_cipher (cs_decrypt opt) = Some c \<longrightarrow> v1_mode_ok opt c"
    using assms(1) False by (auto simp: receiver_ok_def cipher_ctx_mode_aead_def)
  ultimately have "decrypts_as now opt (open_packet opt (packet_head buf ad_start) (buf_content buf)) (openvpn_decrypt_v1 now buf work opt frm)"
    using assms(2) decrypt_v1_refines [of opt buf work frm now] by (simp add: datagram_fits_def)
  moreover have "openvpn_decrypt now buf work (Some opt) frm ad_start = map_option (\<lambda>(o', b, ok). (Some o', b, ok)) (openvpn_decrypt_v1 now buf work opt frm)"
    using assms(2) False by (cases "openvpn_decrypt_v1 now buf work opt frm") (auto simp: openvpn_decrypt_def datagram_fits_def)
  ultimately show ?thesis by blast
qed

lemma open_packet_initialized:
  assumes "receiver_ok opt" "open_packet opt ad bs = Some (Some pin, pt)"
  shows "packet_id_initialized (cs_pid opt)"
  using assms
  by (auto simp: receiver_ok_def open_packet_def open_v1_def open_body_def open_pin_def v1_mode_ok_def option_bind_Some_iff Let_def
      split: option.splits if_splits)

text \<open>What happens to a datagram that opens to an identifier.\<close>

lemma receive_step:
  assumes ok: "receiver_ok opt" and fits: "datagram_fits frm buf work ad_start" and now: "1 < now"
    and seen: "packet_id_initialized (cs_pid opt) \<Longrightarrow> seen_inv (pid_rec (cs_pid opt)) S"
  shows "\<exists>opt' b ok. openvpn_decrypt now buf work (Some opt) frm ad_start = Some (Some opt', b, ok) \<and> same_receiver opt opt'
    \<and> (if ok then buf_wf b else b_len b = 0)
    \<and> (case open_packet opt (packet_head buf ad_start) (buf_content buf) of
         None \<Rightarrow> \<not> ok \<and> opt' = opt
       | Some (None, pt) \<Rightarrow> ok \<and> opt' = opt \<and> buf_content b = pt
       | Some (Some pin, pt) \<Rightarrow> crypto_check_replay now (cs_options opt) pin = Some (cs_options opt', ok)
           \<and> (ok \<longrightarrow> pin \<notin> S \<and> buf_content b = pt) \<and> seen_inv (pid_rec (cs_pid opt')) (if ok then insert pin S else S))"
proof -
  obtain r where r: "openvpn_decrypt now buf work (Some opt) frm ad_start = map_option (\<lambda>(o', b, ok). (Some o', b, ok)) r"
    "decrypts_as now opt (open_packet opt (packet_head buf ad_start) (buf_content buf)) r"
    using decrypt_as [OF ok fits] by blast
  show ?thesis
  proof (cases "open_packet opt (packet_head buf ad_start) (buf_content buf)")
    case None
    then obtain b where "r = Some (opt, b, False)" "b_len b = 0" using r(2) by (auto simp: decrypts_as_def dropped_def)
    then show ?thesis using r(1) None by (intro exI [of _ opt] exI [of _ b] exI [of _ False]) simp
  next
    case (Some p)
    obtain pin pt where p: "p = (pin, pt)" by (cases p)
    obtain b w where b: "r = decrypt_finish now opt b w pin" "buf_wf w" "buf_content w = pt"
      using r(2) Some p by (auto simp: decrypts_as_def)
    show ?thesis
    proof (cases pin)
      case None
      then show ?thesis using r(1) b Some p
        by (intro exI [of _ opt] exI [of _ w] exI [of _ True]) (simp add: decrypt_finish_def)
    next
      case (Some i)
      have inv: "seen_inv (pid_rec (co_packet_id (cs_options opt))) S"
        using seen open_packet_initialized [OF ok] \<open>open_packet _ _ _ = Some p\<close> p Some by (simp add: cs_pid_def)
      obtain co q where q: "crypto_check_replay now (cs_options opt) i = Some (co, window_accepts q i)"
        "window_accepts q i \<Longrightarrow> i \<notin> S \<and> seen_inv (pid_rec (co_packet_id co)) (insert i S)"
        "\<not> window_accepts q i \<Longrightarrow> seen_inv (pid_rec (co_packet_id co)) S"
        using crypto_check_replay_step [OF inv now, of i] by metis
      have same: "same_receiver opt (opt\<lparr>cs_options := co\<rparr>)"
        using check_replay_same [OF q(1)] q(2,3) inv by (cases "window_accepts q i") (auto simp: cs_pid_def)
      show ?thesis
      proof (cases "window_accepts q i")
        case True
        then show ?thesis using r(1) b \<open>open_packet _ _ _ = Some p\<close> p Some q same
          by (intro exI [of _ "opt\<lparr>cs_options := co\<rparr>"] exI [of _ w] exI [of _ True]) (simp add: decrypt_finish_def cs_pid_def)
      next
        case False
        then show ?thesis using r(1) b \<open>open_packet _ _ _ = Some p\<close> p Some q same
          by (intro exI [of _ "opt\<lparr>cs_options := co\<rparr>"] exI [of _ "_\<lparr>b_len := 0\<rparr>"] exI [of _ False]) (simp add: decrypt_finish_def cs_pid_def crypt_error_def)
      qed
    qed
  qed
qed

text \<open>
  C3: Receiving, over any state and any datagram: the receiver drops a datagram that does not
  authenticate and keeps its state; otherwise the replay check of the identifier in it decides,
  and what is delivered is exactly the authenticated plaintext. It aborts on no datagram.
\<close>

theorem openvpn_decrypt_refines:
  assumes "receiver_ok opt" "datagram_fits frm buf work ad_start" "1 < now" "packet_id_initialized (cs_pid opt) \<longrightarrow> rec_wf (pid_rec (cs_pid opt))"
  shows "\<exists>opt' b ok. openvpn_decrypt now buf work (Some opt) frm ad_start = Some (Some opt', b, ok) \<and> same_receiver opt opt'
    \<and> (ok \<or> b_len b = 0)
    \<and> (case open_packet opt (packet_head buf ad_start) (buf_content buf) of
         None \<Rightarrow> \<not> ok \<and> opt' = opt
       | Some (None, pt) \<Rightarrow> ok \<and> opt' = opt \<and> buf_content b = pt
       | Some (Some pin, pt) \<Rightarrow> crypto_check_replay now (cs_options opt) pin = Some (cs_options opt', ok) \<and> (ok \<longrightarrow> buf_content b = pt))"
proof -
  have "packet_id_initialized (cs_pid opt) \<Longrightarrow> seen_inv (pid_rec (cs_pid opt)) {}" using assms(4) seen_inv_empty by blast
  from receive_step [OF assms(1-3) this] obtain opt' b ok where
    r: "openvpn_decrypt now buf work (Some opt) frm ad_start = Some (Some opt', b, ok)" "same_receiver opt opt'" "if ok then buf_wf b else b_len b = 0"
    "case open_packet opt (packet_head buf ad_start) (buf_content buf) of
         None \<Rightarrow> \<not> ok \<and> opt' = opt
       | Some (None, pt) \<Rightarrow> ok \<and> opt' = opt \<and> buf_content b = pt
       | Some (Some pin, pt) \<Rightarrow> crypto_check_replay now (cs_options opt) pin = Some (cs_options opt', ok)
           \<and> (ok \<longrightarrow> pin \<notin> {} \<and> buf_content b = pt) \<and> seen_inv (pid_rec (cs_pid opt')) (if ok then insert pin {} else {})" by blast
  show ?thesis
    by (rule exI [of _ opt'], rule exI [of _ b], rule exI [of _ ok]) (use r in \<open>auto split: option.splits if_splits\<close>)
qed

subsection \<open>A session\<close>

text \<open>
  The datagrams a receiver gets, each with the time of its arrival, its buffer, the buffer for the
  plaintext and the start of the authenticated head; the answer has the head, the datagram and the
  plaintext of those accepted.
\<close>

fun receive_run :: "frame \<Rightarrow> crypto_state \<Rightarrow> (int \<times> buffer \<times> buffer \<times> int) list \<Rightarrow> (crypto_state \<times> (bytes \<times> bytes \<times> bytes) list) option" where
  "receive_run frm opt [] = Some (opt, [])"
| "receive_run frm opt ((now, buf, work, ad_start) # evs) = do {
     (opt', b, ok) \<leftarrow> openvpn_decrypt now buf work (Some opt) frm ad_start;
     opt' \<leftarrow> opt';
     (opt'', acc) \<leftarrow> receive_run frm opt' evs;
     Some (opt'', if ok then (packet_head buf ad_start, buf_content buf, buf_content b) # acc else acc) }"

text \<open>Every packet carries an identifier, and it is a function of the datagram.\<close>

lemma open_packet_identified:
  assumes "packet_id_initialized (cs_pid opt)" "\<not> cs_ignore_packet_id opt" "open_packet opt ad bs = Some (p, pt)"
  shows "\<exists>pin. p = Some pin"
  using assms
  by (auto simp: open_packet_def open_v1_def open_body_def open_pin_def option_bind_Some_iff Let_def split: option.splits if_splits)

lemma open_aead_pin: "open_aead c implicit ad bs = Some (pin, pt) \<Longrightarrow> pin = \<lparr>pin_id = be32_of (take 4 bs), pin_time = 0\<rparr>"
  by (auto simp: open_aead_def Let_def option_bind_Some_iff split: if_splits)

lemma open_packet_pin:
  "open_packet opt ad bs = Some (p, pt) \<Longrightarrow> open_packet opt ad' bs = Some (p', pt') \<Longrightarrow> p = p'"
  by (auto simp: open_packet_def dest!: open_aead_pin split: option.splits if_splits)

lemma distinct_by_image:
  assumes "list_all2 R xs ys" "distinct ys" "\<And>x x' y y'. R x y \<Longrightarrow> R x' y' \<Longrightarrow> f x = f x' \<Longrightarrow> y = y'"
  shows "distinct (map f xs)"
  using assms
proof (induction rule: list_all2_induct)
  case (Cons x xs y ys)
  then have "f x \<noteq> f x'" if "x' \<in> set xs" for x'
    using \<open>x' \<in> set xs\<close> by (metis distinct.simps(2) in_set_conv_nth list_all2_conv_all_nth)
  then show ?case using Cons by auto
qed simp

lemma receive_run_law:
  assumes "receiver_ok opt" "packet_id_initialized (cs_pid opt)" "\<not> cs_ignore_packet_id opt" "seen_inv (pid_rec (cs_pid opt)) S"
    "\<forall>(now, buf, work, ad_start) \<in> set evs. 1 < now \<and> datagram_fits frm buf work ad_start"
  shows "\<exists>opt' acc pins. receive_run frm opt evs = Some (opt', acc) \<and> distinct pins \<and> set pins \<inter> S = {}
    \<and> list_all2 (\<lambda>(ad, bs, pt) pin. open_packet opt ad bs = Some (Some pin, pt)) acc pins"
  using assms
proof (induction evs arbitrary: opt S)
  case (Cons e evs)
  obtain now buf work ad_start where e: "e = (now, buf, work, ad_start)" by (cases e)
  have now: "1 < now" and fits: "datagram_fits frm buf work ad_start" using Cons.prems(5) e by auto
  let ?op = "open_packet opt (packet_head buf ad_start) (buf_content buf)"
  obtain opt' b ok where s: "openvpn_decrypt now buf work (Some opt) frm ad_start = Some (Some opt', b, ok)" "same_receiver opt opt'"
    "case ?op of None \<Rightarrow> \<not> ok \<and> opt' = opt
       | Some (None, pt) \<Rightarrow> ok \<and> opt' = opt \<and> buf_content b = pt
       | Some (Some pin, pt) \<Rightarrow> crypto_check_replay now (cs_options opt) pin = Some (cs_options opt', ok)
           \<and> (ok \<longrightarrow> pin \<notin> S \<and> buf_content b = pt) \<and> seen_inv (pid_rec (cs_pid opt')) (if ok then insert pin S else S)"
    using receive_step [OF Cons.prems(1) fits now] Cons.prems(4) by blast
  have ok': "receiver_ok opt'" "packet_id_initialized (cs_pid opt')" "\<not> cs_ignore_packet_id opt'" "open_packet opt' = open_packet opt"
    using receiver_ok_cong [OF s(2) Cons.prems(1)] s(2) Cons.prems(2,3) open_packet_cong [OF s(2)] by (simp_all add: same_receiver_def)
  have rest: "\<forall>(now, buf, work, ad_start) \<in> set evs. 1 < now \<and> datagram_fits frm buf work ad_start" using Cons.prems(5) by simp
  show ?case
  proof (cases ok)
    case True
    obtain pin pt where p: "?op = Some (Some pin, pt)"
      using s(3) True open_packet_identified [OF Cons.prems(2,3)] by (fastforce split: option.splits prod.splits)
    have inv: "seen_inv (pid_rec (cs_pid opt')) (insert pin S)" and new: "pin \<notin> S" and b: "buf_content b = pt" using s(3) p True by simp_all
    obtain o2 acc pins where "receive_run frm opt' evs = Some (o2, acc)" "distinct pins" "set pins \<inter> insert pin S = {}"
      "list_all2 (\<lambda>(ad, bs, pt) pin. open_packet opt ad bs = Some (Some pin, pt)) acc pins"
      using Cons.IH [OF ok'(1-3) inv rest] ok'(4) by auto
    then show ?thesis using s(1) True p new b e
      by (intro exI [of _ o2] exI [of _ "(packet_head buf ad_start, buf_content buf, buf_content b) # acc"] exI [of _ "pin # pins"]) auto
  next
    case False
    have "seen_inv (pid_rec (cs_pid opt')) S" using s(3) False Cons.prems(4) by (auto split: option.splits prod.splits)
    from Cons.IH [OF ok'(1-3) this rest] show ?thesis using s(1) False ok'(4) e by auto
  qed
qed simp

text \<open>
  C1: Replay protection of the data channel. Whatever datagrams arrive, in whatever order and
  however often, the receiver aborts on none; each plaintext it delivers is the authenticated
  content of a datagram, and no datagram is accepted twice, even with another head.
\<close>

theorem datagram_accepted_once:
  assumes "packet_id_init sb tb = Some pid" "cs_pid opt = packet_id_persist_load_obj pp pid" "receiver_ok opt" "\<not> cs_ignore_packet_id opt"
    "\<forall>(now, buf, work, ad_start) \<in> set evs. 1 < now \<and> datagram_fits frm buf work ad_start"
  shows "\<exists>opt' acc. receive_run frm opt evs = Some (opt', acc) \<and> distinct (map (\<lambda>(ad, bs, pt). bs) acc)
    \<and> (\<forall>(ad, bs, pt) \<in> set acc. \<exists>pin. open_packet opt ad bs = Some (Some pin, pt))"
proof -
  have wf: "rec_wf (pid_rec (cs_pid opt))" using rec_wf_init [OF assms(1)] assms(2) by (simp add: rec_wf_load_obj)
  then have "packet_id_initialized (cs_pid opt)" by (simp add: packet_id_initialized_def rec_wf_def)
  from receive_run_law [OF assms(3) this assms(4) seen_inv_empty [OF wf] assms(5)]
  obtain opt' acc pins where r: "receive_run frm opt evs = Some (opt', acc)" "distinct pins"
    "list_all2 (\<lambda>(ad, bs, pt) pin. open_packet opt ad bs = Some (Some pin, pt)) acc pins" by blast
  have "distinct (map (\<lambda>(ad, bs, pt). bs) acc)"
    using r(3,2) by (rule distinct_by_image) (auto dest: open_packet_pin)
  moreover have "\<exists>pin. open_packet opt ad bs = Some (Some pin, pt)" if "(ad, bs, pt) \<in> set acc" for ad bs pt
    using r(3) that by (fastforce simp: list_all2_conv_all_nth in_set_conv_nth)
  ultimately show ?thesis using r(1) by blast
qed

subsection \<open>From one end to the other\<close>

text \<open>Which form of the identifier the mode sends.\<close>

definition sends_long :: "crypto_state \<Rightarrow> bool" where
  "sends_long s = (case kc_cipher (cs_encrypt s) of
     None \<Rightarrow> co_long_form (cs_options s)
   | Some c \<Rightarrow> cipher_ctx_mode c \<noteq> OPENVPN_MODE_AEAD \<and> (cipher_ctx_mode c = OPENVPN_MODE_OFB_CFB \<or> co_long_form (cs_options s)))"

definition seal_packet :: "crypto_state \<Rightarrow> packet_id_send \<Rightarrow> bytes \<Rightarrow> bytes \<Rightarrow> bytes \<Rightarrow> bytes option" where
  "seal_packet s ps prng ad0 pt =
     (case kc_cipher (cs_encrypt s) of
        Some c \<Rightarrow> (if cipher_ctx_mode c = OPENVPN_MODE_AEAD then seal_aead c (kc_implicit_iv (cs_encrypt s)) ad0 ps pt
                  else seal_v1 s ps prng pt)
      | None \<Rightarrow> seal_v1 s ps prng pt)"

definition sender_ok :: "crypto_state \<Rightarrow> bytes \<Rightarrow> bool" where
  "sender_ok s prng \<longleftrightarrow> packet_id_initialized (cs_pid s) \<and> hmac_ok (cs_encrypt s) \<and> (\<forall>c. kc_cipher (cs_encrypt s) = Some c \<longrightarrow>
     (if cipher_ctx_mode c = OPENVPN_MODE_AEAD
      then cipher_ok c \<and> int (length (kc_implicit_iv (cs_encrypt s))) + 4 = cipher_ctx_iv_length c \<and> OPENVPN_AEAD_MIN_IV_LEN \<le> cipher_ctx_iv_length c
      else v1_mode_ok s c \<and> int (length prng) = cipher_ctx_iv_length c
        \<and> (cipher_ctx_mode c = OPENVPN_MODE_OFB_CFB \<longrightarrow> 8 \<le> cipher_ctx_iv_length c)))"

definition plaintext_fits :: "buffer \<Rightarrow> buffer \<Rightarrow> bool" where
  "plaintext_fits buf work \<longleftrightarrow> buf_wf buf \<and> 0 < b_len buf \<and> 8 + OPENVPN_MAX_HMAC_SIZE + b_len work \<le> b_offset buf \<and> buf_wf work
     \<and> b_len buf + OPENVPN_MAX_HMAC_SIZE + OPENVPN_MAX_IV_LENGTH + 8 + OPENVPN_MAX_CIPHER_BLOCK_SIZE \<le> buf_forward_capacity work"

text \<open>
  What is relied on in a cipher with the same key at both ends: decryption inverts encryption, the
  output is not shorter than the input, and in CBC mode the last part is one block, as long as the IV.
\<close>

definition cipher_inverts :: "cipher_ctx \<Rightarrow> cipher_ctx \<Rightarrow> bool" where
  "cipher_inverts c d \<longleftrightarrow> cipher_ctx_mode d = cipher_ctx_mode c \<and> cipher_ctx_iv_length d = cipher_ctx_iv_length c
     \<and> (\<forall>iv ad x. int (length iv) = cipher_ctx_iv_length c \<longrightarrow> cipher_ctx_reset c iv \<and> cipher_ctx_reset d iv
         \<and> (\<exists>o1 o2 t. cipher_ctx_update c iv ad x = Some o1 \<and> cipher_ctx_final c iv ad x = Some o2 \<and> cipher_ctx_get_tag c iv ad x = Some t
              \<and> length x \<le> length (o1 @ o2) \<and> (cipher_ctx_mode c = OPENVPN_MODE_CBC \<longrightarrow> int (length o2) = cipher_ctx_iv_length c)
              \<and> (if cipher_ctx_mode c = OPENVPN_MODE_AEAD then check_cipher d iv ad (o1 @ o2) t = Some x
                 else run_cipher d iv ad (o1 @ o2) = Some x)))"

definition keys_match :: "crypto_state \<Rightarrow> crypto_state \<Rightarrow> bool" where
  "keys_match s r \<longleftrightarrow> kc_hmac (cs_decrypt r) = kc_hmac (cs_encrypt s) \<and> kc_implicit_iv (cs_decrypt r) = kc_implicit_iv (cs_encrypt s)
     \<and> co_long_form (cs_options r) = co_long_form (cs_options s)
     \<and> (case (kc_cipher (cs_encrypt s), kc_cipher (cs_decrypt r)) of
          (Some c, Some d) \<Rightarrow> cipher_inverts c d | (None, None) \<Rightarrow> True | _ \<Rightarrow> False)"

lemma cipher_invertsE:
  assumes "cipher_inverts c d" "int (length iv) = cipher_ctx_iv_length c"
  obtains o1 o2 t where "cipher_ctx_reset c iv" "cipher_ctx_reset d iv" "cipher_ctx_update c iv ad x = Some o1" "cipher_ctx_final c iv ad x = Some o2"
    "cipher_ctx_get_tag c iv ad x = Some t" "length x \<le> length (o1 @ o2)" "cipher_ctx_mode c = OPENVPN_MODE_CBC \<longrightarrow> int (length o2) = cipher_ctx_iv_length c"
    "if cipher_ctx_mode c = OPENVPN_MODE_AEAD then check_cipher d iv ad (o1 @ o2) t = Some x else run_cipher d iv ad (o1 @ o2) = Some x"
  using assms unfolding cipher_inverts_def by metis

lemma read_pid_bytes:
  "(lf \<Longrightarrow> 0 \<le> ps_time ps \<and> ps_time ps < 2 ^ 32) \<Longrightarrow> read_pin lf (pid_bytes lf ps @ xs) = Some (pin_of lf ps, xs)"
  by (auto simp: read_pin_def pid_bytes_def pin_of_def be32_bytes_def take_bit_int_eq_self uint_word_of_int_eq
      simp flip: be32_bytes_def)

lemma aead_opens:
  assumes "cipher_inverts c d" "cipher_ctx_mode c = OPENVPN_MODE_AEAD" "cipher_ok c" "int (length implicit) + 4 = cipher_ctx_iv_length c" "pt \<noteq> []"
  shows "\<exists>sealed. seal_aead c implicit ad ps pt = Some sealed \<and> sealed \<noteq> [] \<and> open_aead d implicit ad sealed = Some (pin_of False ps, pt)"
proof -
  let ?pid = "pid_bytes False ps"
  have l: "length ?pid = 4" by (simp add: length_pid_bytes)
  have "int (length (?pid @ implicit)) = cipher_ctx_iv_length c" using assms(4) l by simp
  from cipher_invertsE [OF assms(1) this, of "ad @ ?pid" pt] obtain o1 o2 t where
    o: "cipher_ctx_reset c (?pid @ implicit)" "cipher_ctx_reset d (?pid @ implicit)"
      "cipher_ctx_update c (?pid @ implicit) (ad @ ?pid) pt = Some o1" "cipher_ctx_final c (?pid @ implicit) (ad @ ?pid) pt = Some o2"
      "cipher_ctx_get_tag c (?pid @ implicit) (ad @ ?pid) pt = Some t" "length pt \<le> length (o1 @ o2)"
      "check_cipher d (?pid @ implicit) (ad @ ?pid) (o1 @ o2) t = Some pt"
    using assms(2) by metis
  have t: "length t = OPENVPN_AEAD_TAG_LENGTH" using assms(3) o(5) by (auto simp: cipher_ok_def)
  have ne: "0 < length pt" using assms(5) by simp
  have "be32_of ?pid = ps_id ps" by (simp add: pid_bytes_def)
  then have "open_aead d implicit ad (?pid @ t @ o1 @ o2) = Some (pin_of False ps, pt)"
    using o(2,6,7) ne l t by (auto simp: open_aead_def Let_def pin_of_def)
  moreover have "seal_aead c implicit ad ps pt = Some (?pid @ t @ o1 @ o2)"
    using o by (simp add: seal_aead_def Let_def run_cipher_def)
  moreover have "?pid @ t @ o1 @ o2 \<noteq> []" using l by auto
  ultimately show ?thesis by blast
qed

text \<open>The older modes: first the part under the HMAC.\<close>

lemma body_opens:
  assumes s: "sender_ok s prng" and m: "keys_match s r" and init: "packet_id_initialized (cs_pid r)" "\<not> cs_ignore_packet_id r"
    and mode: "\<forall>c. kc_cipher (cs_encrypt s) = Some c \<longrightarrow> cipher_ctx_mode c \<noteq> OPENVPN_MODE_AEAD"
    and time: "sends_long s \<Longrightarrow> 0 \<le> ps_time ps \<and> ps_time ps < 2 ^ 32" and pt: "pt \<noteq> []"
  shows "\<exists>body. seal_body s ps prng pt = Some body \<and> body \<noteq> [] \<and> open_body r body = Some (Some (pin_of (sends_long s) ps), pt)"
proof (cases "kc_cipher (cs_encrypt s)")
  case None
  then have d: "kc_cipher (cs_decrypt r) = None" using m by (auto simp: keys_match_def split: option.splits)
  have lf: "co_long_form (cs_options r) = co_long_form (cs_options s)" "sends_long s = co_long_form (cs_options s)"
    using m None by (simp_all add: keys_match_def sends_long_def)
  have "seal_body s ps prng pt = Some (pid_bytes (sends_long s) ps @ pt)"
    using None s lf by (simp add: seal_body_def pid_prefix_def sender_ok_def)
  then show ?thesis using d lf init time pt read_pid_bytes [of "sends_long s" ps pt]
    by (simp add: open_body_def)
next
  case (Some c)
  then obtain d where d: "kc_cipher (cs_decrypt r) = Some d" "cipher_inverts c d"
    using m by (auto simp: keys_match_def split: option.splits)
  have c: "v1_mode_ok s c" "int (length prng) = cipher_ctx_iv_length c" "cipher_ctx_mode c = OPENVPN_MODE_OFB_CFB \<longrightarrow> 8 \<le> cipher_ctx_iv_length c"
    and na: "cipher_ctx_mode c \<noteq> OPENVPN_MODE_AEAD" and si: "packet_id_initialized (cs_pid s)"
    using s mode Some by (auto simp: sender_ok_def)
  have same: "cipher_ctx_mode d = cipher_ctx_mode c" "cipher_ctx_iv_length d = cipher_ctx_iv_length c"
    "co_long_form (cs_options r) = co_long_form (cs_options s)" using d(2) m by (simp_all add: cipher_inverts_def keys_match_def)
  define iv x where "iv = (if cipher_ctx_mode c = OPENVPN_MODE_CBC then prng else pid_bytes True ps @ replicate (nat (cipher_ctx_iv_length c) - 8) 0)"
    and "x = (if cipher_ctx_mode c = OPENVPN_MODE_CBC then pid_prefix s ps @ pt else pt)"
  have iv: "int (length iv) = cipher_ctx_iv_length c" using c by (auto simp: iv_def length_pid_bytes v1_mode_ok_def)
  then have n: "nat (cipher_ctx_iv_length c) = length iv" by simp
  from cipher_invertsE [OF d(2) iv, of "[]" x] obtain o1 o2 t where
    o: "cipher_ctx_reset c iv" "cipher_ctx_reset d iv" "cipher_ctx_update c iv [] x = Some o1" "cipher_ctx_final c iv [] x = Some o2"
      "length x \<le> length (o1 @ o2)" "cipher_ctx_mode c = OPENVPN_MODE_CBC \<longrightarrow> int (length o2) = cipher_ctx_iv_length c"
      "run_cipher d iv [] (o1 @ o2) = Some x"
    using na by metis
  have "x \<noteq> []" using pt by (simp add: x_def)
  then have ne: "o1 @ o2 \<noteq> []" using o(5) by (cases x) auto
  have seal: "seal_body s ps prng pt = Some (iv @ o1 @ o2)"
    using Some o unfolding seal_body_def by (simp add: iv_def x_def Let_def split: if_splits)
  have "open_pin d r iv x = Some (Some (pin_of (sends_long s) ps), pt)"
  proof (cases "cipher_ctx_mode c = OPENVPN_MODE_CBC")
    case True
    then have lf: "sends_long s = co_long_form (cs_options s)" using Some by (simp add: sends_long_def)
    then have "x = pid_bytes (sends_long s) ps @ pt" using True si by (simp add: x_def pid_prefix_def)
    then show ?thesis using True same init lf time read_pid_bytes [of "sends_long s" ps pt] by (simp add: open_pin_def)
  next
    case False
    then have "sends_long s" using Some c na by (auto simp: sends_long_def v1_mode_ok_def)
    then show ?thesis using False same time read_pid_bytes [of True ps "replicate (nat (cipher_ctx_iv_length c) - 8) 0"]
      by (simp add: open_pin_def iv_def x_def)
  qed
  then have "open_body r (iv @ o1 @ o2) = Some (Some (pin_of (sends_long s) ps), pt)"
    using d(1) o(2,7) ne n same(2) by (auto simp: open_body_def Let_def Suc_le_eq)
  then show ?thesis using seal ne by auto
qed

lemma sealed_opens:
  assumes s: "sender_ok s prng" and m: "keys_match s r" and init: "packet_id_initialized (cs_pid r)" "\<not> cs_ignore_packet_id r"
    and time: "sends_long s \<Longrightarrow> 0 \<le> ps_time ps \<and> ps_time ps < 2 ^ 32" and pt: "pt \<noteq> []"
  shows "\<exists>sealed. seal_packet s ps prng ad pt = Some sealed \<and> open_packet r ad sealed = Some (Some (pin_of (sends_long s) ps), pt)"
proof (cases "\<exists>c. kc_cipher (cs_encrypt s) = Some c \<and> cipher_ctx_mode c = OPENVPN_MODE_AEAD")
  case True
  then obtain c where c: "kc_cipher (cs_encrypt s) = Some c" "cipher_ctx_mode c = OPENVPN_MODE_AEAD" by blast
  then obtain d where d: "kc_cipher (cs_decrypt r) = Some d" "cipher_inverts c d" using m by (auto simp: keys_match_def split: option.splits)
  have "cipher_ctx_mode d = OPENVPN_MODE_AEAD" "\<not> sends_long s" using d(2) c by (simp_all add: cipher_inverts_def sends_long_def)
  moreover have "cipher_ok c" "int (length (kc_implicit_iv (cs_encrypt s))) + 4 = cipher_ctx_iv_length c" using s c by (auto simp: sender_ok_def)
  ultimately show ?thesis using aead_opens [OF d(2) c(2) _ _ pt] c d(1) m
    by (fastforce simp: seal_packet_def open_packet_def keys_match_def)
next
  case False
  then obtain body where b: "seal_body s ps prng pt = Some body" "body \<noteq> []" "open_body r body = Some (Some (pin_of (sends_long s) ps), pt)"
    using body_opens [OF s m init _ time pt] by blast
  have h: "kc_hmac (cs_decrypt r) = kc_hmac (cs_encrypt s)" "hmac_ok (cs_encrypt s)" using s m by (simp_all add: keys_match_def sender_ok_def)
  define sealed where "sealed = (case kc_hmac (cs_encrypt s) of None \<Rightarrow> body | Some h \<Rightarrow> hmac_ctx_digest h body @ body)"
  have "open_hmac (cs_decrypt r) sealed = Some body"
    using h by (auto simp: open_hmac_def sealed_def hmac_ok_def split: option.split)
  then have "open_v1 r sealed = Some (Some (pin_of (sends_long s) ps), pt)" using b(3) by (simp add: open_v1_def)
  moreover have "open_packet r ad sealed = open_v1 r sealed"
    using m False by (auto simp: open_packet_def keys_match_def cipher_inverts_def split: option.splits)
  moreover have "seal_packet s ps prng ad pt = Some sealed"
    using b(1) False by (auto simp: seal_packet_def seal_v1_def sealed_def split: option.splits)
  ultimately show ?thesis by simp
qed

lemma encrypt_as:
  assumes s: "sender_ok s prng" and f: "plaintext_fits buf work" and u: "packet_id_send_update now (pid_send (cs_pid s)) (sends_long s) = (ps, True)"
    and sealed: "seal_packet s ps prng (buf_content work) (buf_content buf) = Some sealed"
  shows "\<exists>w. openvpn_encrypt now prng buf work (Some s) = Some (Some (set_send ps s), w) \<and> buf_wf w \<and> buf_content w = buf_content work @ sealed"
proof (cases "cipher_ctx_mode_aead (kc_cipher (cs_encrypt s))")
  case True
  then obtain c where c: "kc_cipher (cs_encrypt s) = Some c" "cipher_ctx_mode c = OPENVPN_MODE_AEAD"
    by (auto simp: cipher_ctx_mode_aead_def split: option.splits)
  then have k: "cipher_ok c" "int (length (kc_implicit_iv (cs_encrypt s))) + 4 = cipher_ctx_iv_length c" "OPENVPN_AEAD_MIN_IV_LEN \<le> cipher_ctx_iv_length c"
    "packet_id_initialized (cs_pid s)" using s by (auto simp: sender_ok_def)
  have "packet_id_send_update now (pid_send (cs_pid s)) False = (ps, True)" using u c by (simp add: sends_long_def)
  moreover have "seal_aead c (kc_implicit_iv (cs_encrypt s)) (buf_content work) ps (buf_content buf) = Some sealed"
    using sealed c by (simp add: seal_packet_def)
  moreover have "b_len buf + int OPENVPN_AEAD_TAG_LENGTH + 4 + OPENVPN_MAX_CIPHER_BLOCK_SIZE \<le> buf_forward_capacity work"
    using f by (simp add: plaintext_fits_def OPENVPN_AEAD_TAG_LENGTH_def OPENVPN_MAX_HMAC_SIZE_def OPENVPN_MAX_IV_LENGTH_def)
  ultimately obtain w where "openvpn_encrypt_aead now buf work s = Some (set_send ps s, w)" "buf_wf w" "buf_content w = buf_content work @ sealed"
    using encrypt_aead_refines [OF c(1) k(1-3) _ k(4)] f unfolding plaintext_fits_def by blast
  then show ?thesis using True f by (simp add: openvpn_encrypt_def plaintext_fits_def)
next
  case False
  then have v1: "\<forall>c. kc_cipher (cs_encrypt s) = Some c \<longrightarrow> v1_mode_ok s c \<and> int (length prng) = cipher_ctx_iv_length c
        \<and> (cipher_ctx_mode c = OPENVPN_MODE_OFB_CFB \<longrightarrow> 8 \<le> cipher_ctx_iv_length c)" "hmac_ok (cs_encrypt s)" "packet_id_initialized (cs_pid s)"
    using s by (auto simp: sender_ok_def cipher_ctx_mode_aead_def)
  have form: "v1_pid_form s = Some (sends_long s)"
    using v1(3) False by (auto simp: v1_pid_form_def sends_long_def cipher_ctx_mode_aead_def split: option.splits)
  have "seal_v1 s ps prng (buf_content buf) = Some sealed"
    using sealed False by (auto simp: seal_packet_def cipher_ctx_mode_aead_def split: option.splits)
  from encrypt_v1_refines [OF v1(1,2) _ _ _ _ _ _ this, where work = work and now = now and opt' = "set_send ps s"]
  obtain w where "openvpn_encrypt_v1 now prng buf work s = Some (set_send ps s, w)" "buf_wf w" "buf_content w = buf_content work @ sealed"
    using f u form by (auto simp: plaintext_fits_def)
  then show ?thesis using False f by (simp add: openvpn_encrypt_def plaintext_fits_def)
qed

text \<open>
  C2: Round trip of the data channel, in every mode. When the keys match and the receiver has seen
  what was sent so far, the packet that \<^const>\<open>openvpn_encrypt\<close> makes of a plaintext is accepted by
  \<^const>\<open>openvpn_decrypt\<close>, which gives back the plaintext and is in step with the sender again; the
  head that the caller wrote before stays in front of the packet.
\<close>

theorem data_channel_roundtrip:
  assumes "sender_ok s prng" "receiver_ok r" "keys_match s r" "\<not> cs_ignore_packet_id r"
    and "tracks (sends_long s) (pid_send (cs_pid s)) (pid_rec (cs_pid r))"
    and "packet_id_send_update now (pid_send (cs_pid s)) (sends_long s) = (ps, True)" "0 < now" "ps_time ps < 2 ^ 32" "1 < arrival"
    and "plaintext_fits buf work"
  shows "\<exists>w sealed. openvpn_encrypt now prng buf work (Some s) = Some (Some (set_send ps s), w) \<and> buf_content w = buf_content work @ sealed
    \<and> (\<forall>frm rbuf rwork ad_start. datagram_fits frm rbuf rwork ad_start \<and> buf_content rbuf = sealed \<and> packet_head rbuf ad_start = buf_content work \<longrightarrow>
        (\<exists>r' b. openvpn_decrypt arrival rbuf rwork (Some r) frm ad_start = Some (Some r', b, True) \<and> buf_content b = buf_content buf
           \<and> tracks (sends_long s) ps (pid_rec (cs_pid r'))))"
proof -
  have wf: "rec_wf (pid_rec (cs_pid r))" using assms(5) by (simp add: tracks_def)
  then have init: "packet_id_initialized (cs_pid r)" by (simp add: packet_id_initialized_def rec_wf_def)
  have pt: "buf_content buf \<noteq> []" using assms(10) length_buf_content [of buf] by (auto simp: plaintext_fits_def)
  have time: "0 \<le> ps_time ps \<and> ps_time ps < 2 ^ 32" using tracks_accepts [OF assms(5,7,6)] assms(8) by simp
  obtain sealed where se: "seal_packet s ps prng (buf_content work) (buf_content buf) = Some sealed"
    "open_packet r (buf_content work) sealed = Some (Some (pin_of (sends_long s) ps), buf_content buf)"
    using sealed_opens [OF assms(1,3) init assms(4) time pt] by blast
  obtain w where w: "openvpn_encrypt now prng buf work (Some s) = Some (Some (set_send ps s), w)" "buf_content w = buf_content work @ sealed"
    using encrypt_as [OF assms(1,10,6) se(1)] by blast
  obtain co where co: "crypto_check_replay arrival (cs_options r) (pin_of (sends_long s) ps) = Some (co, True)"
    "tracks (sends_long s) ps (pid_rec (co_packet_id co))"
    using tracks_check [of "sends_long s" "pid_send (cs_pid s)" "cs_options r"] assms(5-7,9) unfolding cs_pid_def by blast
  have "\<exists>r' b. openvpn_decrypt arrival rbuf rwork (Some r) frm ad_start = Some (Some r', b, True) \<and> buf_content b = buf_content buf
      \<and> tracks (sends_long s) ps (pid_rec (cs_pid r'))"
    if "datagram_fits frm rbuf rwork ad_start" "buf_content rbuf = sealed" "packet_head rbuf ad_start = buf_content work" for frm rbuf rwork ad_start
    using receive_step [OF assms(2) that(1) assms(9) seen_inv_empty [OF wf]] that(2,3) se(2) co by (auto simp: cs_pid_def)
  then show ?thesis using w by blast
qed

subsection \<open>An example\<close>

text \<open>A cipher for the witnesses: the plaintext itself, with a tag that depends on its length.\<close>

definition demo_cipher :: cipher_ctx where
  "demo_cipher = \<lparr>cipher_ctx_mode = OPENVPN_MODE_AEAD, cipher_ctx_iv_length = 12, cipher_ctx_block_size = 16,
     cipher_ctx_reset = (\<lambda>iv. True), cipher_ctx_update = (\<lambda>iv ad x. Some x), cipher_ctx_final = (\<lambda>iv ad x. Some []),
     cipher_ctx_get_tag = (\<lambda>iv ad x. Some (replicate 16 (of_nat (length x)))),
     cipher_ctx_final_check_tag = (\<lambda>iv ad x t. if t = replicate 16 (of_nat (length x)) then Some [] else None)\<rparr>"

definition demo_key :: key_ctx where
  "demo_key = \<lparr>kc_cipher = Some demo_cipher, kc_hmac = None, kc_implicit_iv = replicate 8 3\<rparr>"

definition demo_end :: crypto_state where
  "demo_end = \<lparr>cs_encrypt = demo_key, cs_decrypt = demo_key, cs_options = demo_opt 8 15, cs_ignore_packet_id = False\<rparr>"

definition sealed_datagram :: bytes where
  "sealed_datagram = [0, 0, 0, 1] @ replicate 16 3 @ [7, 8, 9]"

definition demo_buffer :: "bytes \<Rightarrow> buffer" where
  "demo_buffer bs = \<lparr>b_capacity = 400, b_offset = 80, b_len = int (length bs), b_data = Some (replicate 80 0 @ bs @ replicate (320 - length bs) 0)\<rparr>"

definition tunnel_frame :: frame where
  "tunnel_frame = \<lparr>fm_payload_size = 300, fm_headroom = 80, fm_tailroom = 20, fm_mss_fix = 0,
     fm_max_fragment_size = 0, fm_tun_mtu = 200, fm_tun_max_mtu = 200, fm_extra_tun = 0\<rparr>"

lemma demo_send: "pid_send (demo_pid 8 15) = \<lparr>ps_id = 0, ps_time = 0\<rparr>"
  by (simp add: demo_pid_def packet_id_init_def packet_id_zero_def packet_id_consts Let_def)

lemma demo_buffer_law: "length bs \<le> 320 \<Longrightarrow> buf_wf (demo_buffer bs) \<and> buf_content (demo_buffer bs) = bs \<and> b_len (demo_buffer bs) = int (length bs)
    \<and> b_offset (demo_buffer bs) = 80 \<and> b_capacity (demo_buffer bs) = 400"
  by (simp add: demo_buffer_def buf_wf_def BUF_SIZE_MAX_def buf_content_def buf_valid_def buf_len_def buf_peek_def segment_def)

lemma demo_cipher_ok: "cipher_ok demo_cipher" "cipher_inverts demo_cipher demo_cipher"
  by (auto simp: cipher_ok_def cipher_inverts_def demo_cipher_def check_cipher_def OPENVPN_MAX_CIPHER_BLOCK_SIZE_def OPENVPN_MAX_IV_LENGTH_def
      OPENVPN_AEAD_TAG_LENGTH_def)

lemma demo_end_ok:
  "receiver_ok demo_end" "sender_ok demo_end []" "keys_match demo_end demo_end" "\<not> cs_ignore_packet_id demo_end" "\<not> sends_long demo_end"
  "cs_pid demo_end = demo_pid 8 15" "packet_id_initialized (cs_pid demo_end)" "rec_wf (pid_rec (cs_pid demo_end))"
  "tracks False (pid_send (cs_pid demo_end)) (pid_rec (cs_pid demo_end))"
proof -
  have i: "packet_id_init 8 15 = Some (demo_pid 8 15)" by (simp add: packet_id_init_demo)
  have p: "cs_pid demo_end = demo_pid 8 15" by (simp add: cs_pid_def demo_end_def demo_opt_def)
  note s = demo_send
  have wf: "rec_wf (pid_rec (demo_pid 8 15))" using rec_wf_init [OF i] by simp
  then have init: "packet_id_initialized (demo_pid 8 15)" by (simp add: packet_id_initialized_def rec_wf_def)
  show "cs_pid demo_end = demo_pid 8 15" "packet_id_initialized (cs_pid demo_end)" "rec_wf (pid_rec (cs_pid demo_end))" using p wf init by simp_all
  show "tracks False (pid_send (cs_pid demo_end)) (pid_rec (cs_pid demo_end))"
    using rec_wf_init [OF i] wf by (simp add: p s tracks_def pin_of_def)
  have k: "kc_cipher (cs_encrypt demo_end) = Some demo_cipher" "kc_cipher (cs_decrypt demo_end) = Some demo_cipher"
    "kc_hmac (cs_encrypt demo_end) = None" "kc_implicit_iv (cs_encrypt demo_end) = replicate 8 3" "cs_decrypt demo_end = cs_encrypt demo_end"
    by (simp_all add: demo_end_def demo_key_def)
  have c: "cipher_ctx_mode demo_cipher = OPENVPN_MODE_AEAD" "cipher_ctx_iv_length demo_cipher = 12" by (simp_all add: demo_cipher_def)
  show "receiver_ok demo_end" "sender_ok demo_end []" "keys_match demo_end demo_end" "\<not> sends_long demo_end"
    using demo_cipher_ok k c p init
    by (simp_all add: receiver_ok_def sender_ok_def keys_match_def sends_long_def hmac_ok_def OPENVPN_AEAD_MIN_IV_LEN_def)
  show "\<not> cs_ignore_packet_id demo_end" by (simp add: demo_end_def)
qed

lemma demo_fits:
  "length bs \<le> 200 \<Longrightarrow> bs \<noteq> [] \<Longrightarrow> datagram_fits tunnel_frame (demo_buffer bs) (demo_buffer []) 80"
  "length bs \<le> 100 \<Longrightarrow> bs \<noteq> [] \<Longrightarrow> plaintext_fits (demo_buffer bs) (demo_buffer [])"
  using demo_buffer_law [of bs] demo_buffer_law [of "[]"]
  by (auto simp: datagram_fits_def plaintext_fits_def tunnel_frame_def OPENVPN_MAX_CIPHER_BLOCK_SIZE_def OPENVPN_MAX_HMAC_SIZE_def OPENVPN_MAX_IV_LENGTH_def
      buf_forward_capacity_eq)

lemma demo_head: "packet_head (demo_buffer bs) 80 = []"
  by (simp add: packet_head_def demo_buffer_def buf_peek_def segment_def)

lemma demo_seals: "seal_packet demo_end \<lparr>ps_id = 1, ps_time = 9\<rparr> [] [] [7, 8, 9] = Some sealed_datagram"
  by (simp add: seal_packet_def demo_end_def demo_key_def demo_cipher_def seal_aead_def Let_def sealed_datagram_def run_cipher_def pid_bytes_def be32_bytes_def)

lemma demo_sends: "packet_id_send_update 9 (pid_send (cs_pid demo_end)) False = (\<lparr>ps_id = 1, ps_time = 9\<rparr>, True)"
  by (simp add: demo_end_ok(6) demo_send packet_id_send_update_def PACKET_ID_MAX_def)

theorem openvpn_decrypt_refines_witness:
  "\<exists>opt' b. openvpn_decrypt 20 (demo_buffer (sealed_datagram @ [1])) (demo_buffer []) (Some demo_end) tunnel_frame 80 = Some (Some opt', b, False)
    \<and> opt' = demo_end \<and> b_len b = 0"
proof -
  let ?d = "sealed_datagram @ [1]"
  have l: "length ?d \<le> 200" "?d \<noteq> []" by (simp_all add: sealed_datagram_def)
  have "open_packet demo_end [] ?d = None"
    by (simp add: open_packet_def demo_end_def demo_key_def demo_cipher_def open_aead_def Let_def sealed_datagram_def check_cipher_def OPENVPN_AEAD_TAG_LENGTH_def
        eval_nat_numeral)
  then show ?thesis
    using openvpn_decrypt_refines [OF demo_end_ok(1) demo_fits(1) [OF l], of 20] demo_end_ok(8) demo_head [of ?d] demo_buffer_law [of ?d] l by auto
qed

theorem datagram_accepted_once_witness:
  "\<exists>opt' acc. receive_run tunnel_frame demo_end [(20, demo_buffer sealed_datagram, demo_buffer [], 80), (21, demo_buffer sealed_datagram, demo_buffer [], 80)]
      = Some (opt', acc) \<and> distinct (map (\<lambda>(ad, bs, pt). bs) acc)"
proof -
  have "\<forall>(now, buf, work, ad_start) \<in> set [(20 :: int, demo_buffer sealed_datagram, demo_buffer [], 80), (21, demo_buffer sealed_datagram, demo_buffer [], 80)].
      1 < now \<and> datagram_fits tunnel_frame buf work ad_start"
    using demo_fits(1) [of sealed_datagram] by (simp add: sealed_datagram_def)
  from datagram_accepted_once [OF packet_id_init_demo [of 8 15] _ demo_end_ok(1,4) this, of None] show ?thesis
    by (auto simp: packet_id_persist_load_obj_def demo_end_ok(6))
qed

theorem data_channel_roundtrip_witness:
  "\<exists>w r' b. openvpn_encrypt 9 [] (demo_buffer [7, 8, 9]) (demo_buffer []) (Some demo_end)
        = Some (Some (set_send \<lparr>ps_id = 1, ps_time = 9\<rparr> demo_end), w) \<and> buf_content w = sealed_datagram
    \<and> openvpn_decrypt 20 (demo_buffer sealed_datagram) (demo_buffer []) (Some demo_end) tunnel_frame 80 = Some (Some r', b, True)
    \<and> buf_content b = [7, 8, 9]"
proof -
  note e = demo_end_ok
  have u: "packet_id_send_update 9 (pid_send (cs_pid demo_end)) (sends_long demo_end) = (\<lparr>ps_id = 1, ps_time = 9\<rparr>, True)"
    "tracks (sends_long demo_end) (pid_send (cs_pid demo_end)) (pid_rec (cs_pid demo_end))"
    using demo_sends e(5,9) by simp_all
  have pf: "plaintext_fits (demo_buffer [7, 8, 9]) (demo_buffer [])" using demo_fits(2) [of "[7, 8, 9]"] by simp
  have c: "buf_content (demo_buffer []) = []" "buf_content (demo_buffer [7, 8, 9]) = [7, 8, 9]" "buf_content (demo_buffer sealed_datagram) = sealed_datagram"
    "datagram_fits tunnel_frame (demo_buffer sealed_datagram) (demo_buffer []) 80" "packet_head (demo_buffer sealed_datagram) 80 = []"
    using demo_buffer_law [of "[]"] demo_buffer_law [of "[7, 8, 9]"] demo_buffer_law [of sealed_datagram] demo_fits(1) [of sealed_datagram] demo_head [of sealed_datagram]
    by (simp_all add: sealed_datagram_def)
  obtain w where w: "openvpn_encrypt 9 [] (demo_buffer [7, 8, 9]) (demo_buffer []) (Some demo_end)
      = Some (Some (set_send \<lparr>ps_id = 1, ps_time = 9\<rparr> demo_end), w)" "buf_content w = sealed_datagram"
    using encrypt_as [OF e(2) pf u(1)] demo_seals c(1,2) by auto
  show ?thesis
    using data_channel_roundtrip [OF e(2,1,3,4) u(2,1) _ _ _ pf, of 20] w c by fastforce
qed

end
