(* ===== verification/Pool.thy ===== *)
theory Pool
  imports Ovpn_Prelude Buffer_Text
begin

text \<open>
  The pool of addresses for clients (src/openvpn/pool.c, pool.h, and add_in6_addr of socket.c):
  every client gets the addresses of one slot of the pool. The IPv4 and the IPv6 pool share the
  slots. Slots remember the last client, so that a client gets its address back.

  Strings are byte lists. The global \<open>now\<close> is an argument; \<open>M_FATAL\<close> is \<open>None\<close>.
\<close>

subsection \<open>State\<close>

datatype pool_type = IFCONFIG_POOL_30NET | IFCONFIG_POOL_INDIV

record ifconfig_pool_entry =
  ipe_in_use :: bool
  ipe_common_name :: "bytes option"
  ipe_last_release :: int
  ipe_fixed :: bool

record ifconfig_pool =
  po_duplicate_cn :: bool
  po_ipv4_enabled :: bool
  po_ipv4_type :: pool_type
  po_ipv4_base :: u32
  po_ipv6_enabled :: bool
  po_ipv6_base :: bytes
  po_size :: int
  po_list :: "ifconfig_pool_entry list"

definition IFCONFIG_POOL_MAX :: int where "IFCONFIG_POOL_MAX = 65536"

subsection \<open>Addresses\<close>

text \<open>\<open>i\<close> counts the bytes that are left, the last one first.\<close>

fun add_in6_addr_loop :: "nat \<Rightarrow> bytes \<Rightarrow> u32 \<Rightarrow> bytes" where
  "add_in6_addr_loop 0 base add = base"
| "add_in6_addr_loop (Suc i) base add =
     (if add = 0 then base
      else (let h = ucast (base ! i) :: u32;
                base = base[i := ucast (h + add)];
                carry = drop_bit 8 ((h AND 0xff) + (add AND 0xff))
            in add_in6_addr_loop i base (drop_bit 8 add + carry)))"

definition add_in6_addr :: "bytes \<Rightarrow> u32 \<Rightarrow> bytes" where
  "add_in6_addr base add = add_in6_addr_loop 16 base add"

definition ifconfig_pool_verify_range :: "u32 \<Rightarrow> u32 \<Rightarrow> bool" where
  "ifconfig_pool_verify_range start end_ip \<longleftrightarrow> \<not> start > end_ip \<and> \<not> uint (end_ip - start) \<ge> IFCONFIG_POOL_MAX"

subsection \<open>Creation\<close>

definition entry_clear :: ifconfig_pool_entry where
  "entry_clear = \<lparr>ipe_in_use = False, ipe_common_name = None, ipe_last_release = 0, ipe_fixed = False\<rparr>"

definition pool_ipv4_init :: "pool_type \<Rightarrow> u32 \<Rightarrow> u32 \<Rightarrow> u32 \<times> int" where
  "pool_ipv4_init type start end_ip =
     (case type of
        IFCONFIG_POOL_30NET \<Rightarrow> (let base = start AND NOT 3 in (base, sint (drop_bit 2 (((end_ip OR 3) + 1) - base))))
      | IFCONFIG_POOL_INDIV \<Rightarrow> (start, sint (end_ip - start + 1)))"

definition pool_ipv6_init :: "bytes \<Rightarrow> int \<Rightarrow> bytes \<times> int" where
  "pool_ipv6_init ipv6_base ipv6_netbits =
     (let base = be32_of (drop 12 ipv6_base);
          base = (if 128 - ipv6_netbits < 32 then base AND (push_bit (nat (128 - ipv6_netbits)) 1 - 1) else base);
          (base, ipv6_base) = (if base = 0 then (base + 1, ipv6_base[15 := ipv6_base ! 15 + 1]) else (base, ipv6_base))
      in (ipv6_base, if ipv6_netbits \<ge> 112 then sint (push_bit (nat (128 - ipv6_netbits)) 1 - base) else IFCONFIG_POOL_MAX))"

definition ifconfig_pool_init ::
    "bool \<Rightarrow> pool_type \<Rightarrow> u32 \<Rightarrow> u32 \<Rightarrow> bool \<Rightarrow> bool \<Rightarrow> bytes \<Rightarrow> int \<Rightarrow> ifconfig_pool option" where
  "ifconfig_pool_init ipv4_pool type start end_ip duplicate_cn ipv6_pool ipv6_base ipv6_netbits = do {
     ASSERT (start \<le> end_ip \<and> uint (end_ip - start) < IFCONFIG_POOL_MAX);
     let (base, pool_ipv4_size) = (if ipv4_pool then pool_ipv4_init type start end_ip else (0, - 1));
     ASSERT (ipv4_pool \<longrightarrow> pool_ipv4_size \<ge> 2);
     let size = (if ipv4_pool then pool_ipv4_size else 0);
     let (base6, pool_ipv6_size) = (if ipv6_pool then pool_ipv6_init ipv6_base ipv6_netbits else (replicate 16 0, - 1));
     ASSERT (ipv6_pool \<longrightarrow> pool_ipv6_size \<ge> 2);
     let size = (if ipv6_pool \<and> (size \<le> 0 \<or> pool_ipv6_size < size) then pool_ipv6_size else size);
     ASSERT (size > 0);
     Some \<lparr>po_duplicate_cn = duplicate_cn, po_ipv4_enabled = ipv4_pool,
           po_ipv4_type = (if ipv4_pool then type else IFCONFIG_POOL_30NET), po_ipv4_base = base,
           po_ipv6_enabled = ipv6_pool, po_ipv6_base = base6, po_size = size, po_list = replicate (nat size) entry_clear\<rparr> }"

subsection \<open>Slots\<close>

definition ifconfig_pool_entry_free :: "int \<Rightarrow> ifconfig_pool_entry \<Rightarrow> bool \<Rightarrow> ifconfig_pool_entry" where
  "ifconfig_pool_entry_free now ipe hard =
     (if hard then ipe\<lparr>ipe_in_use := False, ipe_common_name := None, ipe_last_release := 0\<rparr>
      else ipe\<lparr>ipe_in_use := False, ipe_last_release := now\<rparr>)"

fun pool_find_loop :: "bool \<Rightarrow> bytes option \<Rightarrow> int \<Rightarrow> ifconfig_pool_entry list \<Rightarrow> int \<Rightarrow> int \<Rightarrow> int \<Rightarrow> int \<times> int" where
  "pool_find_loop duplicate_cn common_name i [] earliest_release previous_usage new_usage = (previous_usage, new_usage)"
| "pool_find_loop duplicate_cn common_name i (ipe # ipes) earliest_release previous_usage new_usage =
     (if \<not> ipe_in_use ipe
      then if duplicate_cn then (previous_usage, i)
           else (let (earliest_release, new_usage) =
                       (if (new_usage = - 1 \<or> ipe_last_release ipe < earliest_release) \<and> \<not> ipe_fixed ipe
                        then (ipe_last_release ipe, i) else (earliest_release, new_usage));
                     previous_usage =
                       (if previous_usage < 0 \<and> common_name \<noteq> None \<and> ipe_common_name ipe \<noteq> None \<and> common_name = ipe_common_name ipe
                        then i else previous_usage)
                 in pool_find_loop duplicate_cn common_name (i + 1) ipes earliest_release previous_usage new_usage)
      else pool_find_loop duplicate_cn common_name (i + 1) ipes earliest_release previous_usage new_usage)"

definition ifconfig_pool_find :: "ifconfig_pool \<Rightarrow> bytes option \<Rightarrow> int" where
  "ifconfig_pool_find pool common_name =
     (let (previous_usage, new_usage) =
            pool_find_loop (po_duplicate_cn pool) common_name 0 (take (nat (po_size pool)) (po_list pool)) 0 (- 1) (- 1)
      in if previous_usage \<ge> 0 then previous_usage else if new_usage \<ge> 0 then new_usage else - 1)"

text \<open>
  The caller in multi.c passes pointers for all three addresses. The answer has the handle, the
  pair of local and remote address and the IPv6 address, where they are assigned.
\<close>

definition pool_addresses :: "ifconfig_pool \<Rightarrow> int \<Rightarrow> (u32 \<times> u32) option \<times> bytes option" where
  "pool_addresses pool i =
     (if po_ipv4_enabled pool
      then Some (case po_ipv4_type pool of
             IFCONFIG_POOL_30NET \<Rightarrow> (let b = po_ipv4_base pool + push_bit 2 (word_of_int i) in (b + 1, b + 2))
           | IFCONFIG_POOL_INDIV \<Rightarrow> (0, po_ipv4_base pool + word_of_int i))
      else None,
      if po_ipv6_enabled pool then Some (add_in6_addr (po_ipv6_base pool) (word_of_int i)) else None)"

definition ifconfig_pool_acquire ::
    "ifconfig_pool \<Rightarrow> bytes option \<Rightarrow> (ifconfig_pool \<times> int \<times> (u32 \<times> u32) option \<times> bytes option) option" where
  "ifconfig_pool_acquire pool common_name = do {
     let i = ifconfig_pool_find pool common_name;
     (if i \<ge> 0
      then do {
        let ipe = po_list pool ! nat i;
        ASSERT (\<not> ipe_in_use ipe);
        let ipe = (ifconfig_pool_entry_free 0 ipe True)\<lparr>ipe_in_use := True\<rparr>;
        let ipe = (if common_name \<noteq> None then ipe\<lparr>ipe_common_name := common_name\<rparr> else ipe);
        Some (pool\<lparr>po_list := (po_list pool)[nat i := ipe]\<rparr>, i, pool_addresses pool i) }
      else Some (pool, i, None, None)) }"

definition ifconfig_pool_release :: "int \<Rightarrow> ifconfig_pool option \<Rightarrow> int \<Rightarrow> bool \<Rightarrow> ifconfig_pool option \<times> bool" where
  "ifconfig_pool_release now pool hand hard =
     (case pool of
        Some pool \<Rightarrow>
          (if hand \<ge> 0 \<and> hand < po_size pool
           then (Some (pool\<lparr>po_list := (po_list pool)[nat hand := ifconfig_pool_entry_free now (po_list pool ! nat hand) hard]\<rparr>), True)
           else (Some pool, False))
      | None \<Rightarrow> (None, False))"

subsection \<open>Handles and addresses\<close>

definition ifconfig_pool_ip_base_to_handle :: "ifconfig_pool \<Rightarrow> u32 \<Rightarrow> int" where
  "ifconfig_pool_ip_base_to_handle pool addr =
     (let ret = (case po_ipv4_type pool of
           IFCONFIG_POOL_30NET \<Rightarrow> sint (drop_bit 2 (addr - po_ipv4_base pool))
         | IFCONFIG_POOL_INDIV \<Rightarrow> sint (addr - po_ipv4_base pool))
      in if ret < 0 \<or> ret \<ge> po_size pool then - 1 else ret)"

definition ifconfig_pool_ipv6_base_to_handle :: "ifconfig_pool \<Rightarrow> bytes \<Rightarrow> int" where
  "ifconfig_pool_ipv6_base_to_handle pool in_addr =
     (if take 12 (po_ipv6_base pool) \<noteq> take 12 in_addr then - 1
      else (let ret = sint (be32_of (drop 12 in_addr) - be32_of (drop 12 (po_ipv6_base pool)))
            in if ret < 0 \<or> ret \<ge> po_size pool then - 1 else ret))"

definition ifconfig_pool_handle_to_ip_base :: "ifconfig_pool \<Rightarrow> int \<Rightarrow> u32" where
  "ifconfig_pool_handle_to_ip_base pool hand =
     (if po_ipv4_enabled pool \<and> hand \<ge> 0 \<and> hand < po_size pool
      then (case po_ipv4_type pool of
              IFCONFIG_POOL_30NET \<Rightarrow> po_ipv4_base pool + push_bit 2 (word_of_int hand)
            | IFCONFIG_POOL_INDIV \<Rightarrow> po_ipv4_base pool + word_of_int hand)
      else 0)"

definition ifconfig_pool_handle_to_ipv6_base :: "ifconfig_pool \<Rightarrow> int \<Rightarrow> bytes" where
  "ifconfig_pool_handle_to_ipv6_base pool hand =
     (if po_ipv6_enabled pool \<and> hand \<ge> 0 \<and> hand < po_size pool
      then add_in6_addr (po_ipv6_base pool) (word_of_int hand) else replicate 16 0)"

definition ifconfig_pool_set :: "int \<Rightarrow> ifconfig_pool \<Rightarrow> bytes \<Rightarrow> int \<Rightarrow> bool \<Rightarrow> ifconfig_pool" where
  "ifconfig_pool_set now pool cn h fixed =
     (let e = ifconfig_pool_entry_free now (po_list pool ! nat h) True
      in pool\<lparr>po_list := (po_list pool)[nat h := e\<lparr>ipe_in_use := False, ipe_common_name := Some cn,
           ipe_last_release := now, ipe_fixed := fixed\<rparr>]\<rparr>)"

subsection \<open>The file of the pool\<close>

text \<open>
  The lines of \<open>ifconfig_pool_list\<close>. The text of an address and its parsing belong to the C library;
  they are arguments.
\<close>

definition ifconfig_pool_list :: "(u32 \<Rightarrow> bytes) \<Rightarrow> (bytes \<Rightarrow> bytes) \<Rightarrow> ifconfig_pool \<Rightarrow> bytes list" where
  "ifconfig_pool_list print_in_addr_t print_in6_addr pool =
     concat (map (\<lambda>i. case ipe_common_name (po_list pool ! i) of
         None \<Rightarrow> []
       | Some common_name \<Rightarrow>
           [common_name @ [44] @ (if po_ipv4_enabled pool then print_in_addr_t (ifconfig_pool_handle_to_ip_base pool (int i)) else [])
              @ [44] @ (if po_ipv6_enabled pool then print_in6_addr (ifconfig_pool_handle_to_ipv6_base pool (int i)) else [])])
       [0..<nat (po_size pool)])"

text \<open>
  One line as \<open>status_read\<close> leaves it in the buffer \<open>inb\<close>; the three arrays are kept from line to line.
\<close>

definition pool_read_line ::
    "(bytes \<Rightarrow> u32 option) \<Rightarrow> (bytes \<Rightarrow> bytes option) \<Rightarrow> int \<Rightarrow> bool \<Rightarrow> buffer \<Rightarrow> ifconfig_pool \<times> bytes \<times> bytes \<times> bytes
     \<Rightarrow> (ifconfig_pool \<times> bytes \<times> bytes \<times> bytes) option" where
  "pool_read_line getaddr get_ipv6_addr now fixed inb st =
     (case st of (pool, cn_buf, ip_buf, ip6_buf) \<Rightarrow>
        if buf_len inb = 0 \<or> hd (buf_content inb) = 35 \<or> hd (buf_content inb) = 59 then Some st
        else do {
          (inb, cn_buf, ok) \<leftarrow> buf_parse inb 44 cn_buf 128;
          (if \<not> ok then Some (pool, cn_buf, ip_buf, ip6_buf)
           else do {
             (inb, ip_buf, ok) \<leftarrow> buf_parse inb 44 ip_buf 128;
             (if \<not> ok then Some (pool, cn_buf, ip_buf, ip6_buf)
              else do {
                let h = (if strlen ip_buf > 0
                         then (case getaddr (c_string ip_buf) of
                                 None \<Rightarrow> - 1 | Some addr \<Rightarrow> ifconfig_pool_ip_base_to_handle pool addr)
                         else - 1);
                (inb, ip6_buf, ok) \<leftarrow> buf_parse inb 44 ip6_buf 128;
                let h = (if ok \<and> strlen ip6_buf > 0
                         then (case get_ipv6_addr (c_string ip6_buf) of
                                 None \<Rightarrow> h
                               | Some addr6 \<Rightarrow> (if h < 0 then ifconfig_pool_ipv6_base_to_handle pool addr6 else h))
                         else h);
                Some (if h \<ge> 0 then ifconfig_pool_set now pool (c_string cn_buf) h fixed else pool, cn_buf, ip_buf, ip6_buf) }) }) })"

fun pool_read_lines ::
    "(bytes \<Rightarrow> u32 option) \<Rightarrow> (bytes \<Rightarrow> bytes option) \<Rightarrow> int \<Rightarrow> bool \<Rightarrow> buffer list \<Rightarrow> ifconfig_pool \<times> bytes \<times> bytes \<times> bytes
     \<Rightarrow> (ifconfig_pool \<times> bytes \<times> bytes \<times> bytes) option" where
  "pool_read_lines getaddr get_ipv6_addr now fixed [] st = Some st"
| "pool_read_lines getaddr get_ipv6_addr now fixed (inb # ins) st =
     Option.bind (pool_read_line getaddr get_ipv6_addr now fixed inb st) (pool_read_lines getaddr get_ipv6_addr now fixed ins)"

definition ifconfig_pool_read ::
    "(bytes \<Rightarrow> u32 option) \<Rightarrow> (bytes \<Rightarrow> bytes option) \<Rightarrow> int \<Rightarrow> bool \<Rightarrow> buffer list \<Rightarrow> ifconfig_pool \<Rightarrow> ifconfig_pool option" where
  "ifconfig_pool_read getaddr get_ipv6_addr now fixed ins pool =
     map_option fst (pool_read_lines getaddr get_ipv6_addr now fixed ins (pool, replicate 128 0, replicate 128 0, replicate 128 0))"

subsection \<open>The choice of a slot\<close>

fun slots :: "nat \<Rightarrow> ifconfig_pool_entry list \<Rightarrow> (int \<times> ifconfig_pool_entry) list" where
  "slots k [] = []"
| "slots k (e # es) = (int k, e) # slots (Suc k) es"

definition released :: "int \<times> ifconfig_pool_entry \<Rightarrow> int" where
  "released s = ipe_last_release (snd s)"

definition pool_choice :: "ifconfig_pool \<Rightarrow> bytes option \<Rightarrow> int" where
  "pool_choice pool cn =
     (let free = filter (\<lambda>(i, e). \<not> ipe_in_use e) (slots 0 (po_list pool)) in
      if po_duplicate_cn pool then (case free of [] \<Rightarrow> - 1 | (i, e) # _ \<Rightarrow> i)
      else (case find (\<lambda>(i, e). cn \<noteq> None \<and> ipe_common_name e = cn) free of
              Some (i, e) \<Rightarrow> i
            | None \<Rightarrow> (case filter (\<lambda>(i, e). \<not> ipe_fixed e) free of
                         [] \<Rightarrow> - 1
                       | c # cs \<Rightarrow> fst (arg_min_list released (c # cs)))))"

lemma arg_min_step:
  "arg_min_list f (b # x # cs) = arg_min_list f ((if f x < f b then x else b) # cs)"
  by (cases cs) (auto simp: Let_def)

lemma find_loop_dup:
  "pool_find_loop True cn (int k) es r p n = (p, case filter (\<lambda>(i, e). \<not> ipe_in_use e) (slots k es) of [] \<Rightarrow> n | (i, e) # _ \<Rightarrow> i)"
  by (induction es arbitrary: k) (auto simp: algebra_simps simp flip: of_nat_Suc)

lemma find_loop_law:
  assumes "- 1 \<le> p" "- 1 \<le> n" "n \<noteq> - 1 \<longrightarrow> ipe_last_release b = r"
  shows "pool_find_loop False cn (int k) es r p n =
    (let free = filter (\<lambda>(i, e). \<not> ipe_in_use e) (slots k es); cs = filter (\<lambda>(i, e). \<not> ipe_fixed e) free in
     (if p \<ge> 0 then p else (case find (\<lambda>(i, e). cn \<noteq> None \<and> ipe_common_name e = cn) free of None \<Rightarrow> p | Some (i, e) \<Rightarrow> i),
      if n = - 1 then (case cs of [] \<Rightarrow> - 1 | c # cs \<Rightarrow> fst (arg_min_list released (c # cs)))
      else fst (arg_min_list released ((n, b) # cs))))"
  using assms
proof (induction es arbitrary: k r p n b)
  case (Cons e es)
  let ?p = "if p < 0 \<and> cn \<noteq> None \<and> ipe_common_name e \<noteq> None \<and> cn = ipe_common_name e then int k else p"
  show ?case
  proof (cases "ipe_in_use e")
    case True
    then show ?thesis using Cons.IH [OF Cons.prems, where k = "Suc k"] by (simp add: algebra_simps Let_def)
  next
    case free: False
    have p: "- 1 \<le> ?p" using Cons.prems(1) by simp
    show ?thesis
    proof (cases "(n = - 1 \<or> ipe_last_release e < r) \<and> \<not> ipe_fixed e")
      case True
      have IH: "- 1 \<le> int k" "int k \<noteq> - 1 \<longrightarrow> ipe_last_release e = ipe_last_release e" by simp_all
      show ?thesis using True free Cons.IH [OF p IH, where k = "Suc k"] Cons.prems
        by (auto simp: algebra_simps Let_def released_def arg_min_step simp del: arg_min_list.simps(2))
    next
      case False
      have step: "pool_find_loop False cn (int k) (e # es) r p n = pool_find_loop False cn (int (Suc k)) es r ?p n"
        unfolding pool_find_loop.simps if_not_P [OF False] using free by (simp add: algebra_simps)
      note IH = Cons.IH [OF p Cons.prems(2,3), where k = "Suc k"]
      show ?thesis
      proof (cases "ipe_fixed e")
        case True
        then show ?thesis unfolding step IH using free Cons.prems(1) by (auto simp: Let_def)
      next
        case nf: False
        then have "n \<noteq> - 1" "\<not> ipe_last_release e < ipe_last_release b" using False Cons.prems(3) by auto
        then show ?thesis unfolding step IH using free nf Cons.prems(1)
          by (auto simp: Let_def released_def arg_min_step simp del: arg_min_list.simps(2))
      qed
    qed
  qed
qed simp


lemma in_slots: "(i, e) \<in> set (slots k es) \<longleftrightarrow> (\<exists>j < length es. i = int (k + j) \<and> e = es ! j)"
proof (induction es arbitrary: k)
  case (Cons a es)
  show ?case unfolding slots.simps list.set insert_iff Cons.IH
    by (auto simp: less_Suc_eq_0_disj)
qed simp

lemma find_SomeD: "find P xs = Some x \<Longrightarrow> x \<in> set xs \<and> P x"
  by (induction xs) (auto split: if_splits)

text \<open>A slot that is chosen is free.\<close>

lemma pool_choice_law:
  "pool_choice pool cn = - 1 \<or> (\<exists>i < length (po_list pool). pool_choice pool cn = int i \<and> \<not> ipe_in_use (po_list pool ! i))"
proof -
  let ?free = "filter (\<lambda>(i, e). \<not> ipe_in_use e) (slots 0 (po_list pool))"
  have f: "\<exists>i < length (po_list pool). fst s = int i \<and> \<not> ipe_in_use (po_list pool ! i)" if sf: "s \<in> set ?free" for s
  proof -
    have "(fst s, snd s) \<in> set (slots 0 (po_list pool))" "\<not> ipe_in_use (snd s)" using sf by auto
    then show ?thesis unfolding in_slots by auto
  qed
  show ?thesis
  proof (cases "po_duplicate_cn pool")
    case True
    then show ?thesis using f [of "hd ?free"] by (cases ?free) (auto simp: pool_choice_def)
  next
    case nd: False
    show ?thesis
    proof (cases "find (\<lambda>(i, e). cn \<noteq> None \<and> ipe_common_name e = cn) ?free")
      case (Some s)
      then have "s \<in> set ?free" by (blast dest: find_SomeD)
      from f [OF this] show ?thesis using nd Some by (simp add: pool_choice_def case_prod_beta)
    next
      case None
      let ?cs = "filter (\<lambda>(i, e). \<not> ipe_fixed e) ?free"
      show ?thesis
      proof (cases ?cs)
        case Nil
        then show ?thesis using nd None by (simp add: pool_choice_def)
      next
        case (Cons c cs)
        have "arg_min_list released (c # cs) \<in> set ?cs" unfolding Cons by (rule arg_min_list_in) simp
        then have "arg_min_list released (c # cs) \<in> set ?free" by simp
        from f [OF this] show ?thesis using nd None Cons by (simp add: pool_choice_def)
      qed
    qed
  qed
qed

lemma pool_find_choice:
  assumes "po_size pool = int (length (po_list pool))"
  shows "ifconfig_pool_find pool cn = pool_choice pool cn"
proof -
  let ?free = "filter (\<lambda>(i, e). \<not> ipe_in_use e) (slots 0 (po_list pool))"
  obtain p n where r: "pool_find_loop (po_duplicate_cn pool) cn 0 (po_list pool) 0 (- 1) (- 1) = (p, n)" by fastforce
  have "pool_choice pool cn = (if p \<ge> 0 then p else n)"
  proof (cases "po_duplicate_cn pool")
    case True
    then show ?thesis using r find_loop_dup [of cn 0 "po_list pool" 0 "- 1" "- 1"] by (auto simp: pool_choice_def split: list.splits)
  next
    case False
    have "p = (case find (\<lambda>(i, e). cn \<noteq> None \<and> ipe_common_name e = cn) ?free of None \<Rightarrow> - 1 | Some (i, e) \<Rightarrow> i)"
      "n = (case filter (\<lambda>(i, e). \<not> ipe_fixed e) ?free of [] \<Rightarrow> - 1 | c # cs \<Rightarrow> fst (arg_min_list released (c # cs)))"
      using r False find_loop_law [of "- 1" "- 1" undefined 0 cn 0 "po_list pool"] by (simp_all add: Let_def)
    moreover have "0 \<le> fst s" if "find (\<lambda>(i, e). cn \<noteq> None \<and> ipe_common_name e = cn) ?free = Some s" for s
      using find_SomeD [OF that] in_slots [of "fst s" "snd s" 0 "po_list pool"] by auto
    ultimately show ?thesis using False by (force simp: pool_choice_def split: option.splits)
  qed
  moreover have "ifconfig_pool_find pool cn = (if p \<ge> 0 then p else if n \<ge> 0 then n else - 1)"
    using r assms by (simp add: ifconfig_pool_find_def)
  ultimately show ?thesis using pool_choice_law [of pool cn] by auto
qed

subsection \<open>Addresses of slots\<close>

definition in6_value :: "bytes \<Rightarrow> int" where
  "in6_value bs = foldl (\<lambda>a b. a * 256 + uint b) 0 bs"

lemma in6_value_simps [simp]:
  "in6_value [] = 0" "in6_value (bs @ [b]) = in6_value bs * 256 + uint b"
  by (simp_all add: in6_value_def)

lemma in6_value_bound: "0 \<le> in6_value bs \<and> in6_value bs < 256 ^ length bs"
proof (induction bs rule: rev_induct)
  case (snoc b bs)
  have "0 \<le> uint b" "uint b < 256" using uint_lt2p [of b] by simp_all
  then show ?case using snoc by auto
qed simp

lemma in6_value_inject: "length xs = length ys \<Longrightarrow> in6_value xs = in6_value ys \<Longrightarrow> xs = ys"
proof (induction xs arbitrary: ys rule: rev_induct)
  case (snoc b bs)
  then obtain c cs where ys: "ys = cs @ [c]" "length cs = length bs" by (cases ys rule: rev_cases) auto
  have "uint b < 256" "uint c < 256" "0 \<le> uint b" "0 \<le> uint c" using uint_lt2p [of b] uint_lt2p [of c] by simp_all
  moreover have e: "in6_value bs * 256 + uint b = in6_value cs * 256 + uint c" using snoc.prems(2) ys by simp
  ultimately have v: "in6_value bs = in6_value cs"
    by (metis add.commute add_cancel_left_left div_mult_self1 div_pos_pos_trivial zero_neq_numeral)
  have "uint b = uint c" using e unfolding v by simp
  then have "b = c" by (rule word_uint_eq_iff [THEN iffD2])
  then show ?case using snoc.IH [of cs] v ys by simp
qed simp

lemma carry_step:
  fixes h :: u8 and a :: u32
  shows "uint (ucast (ucast h + a) :: u8) = (uint h + uint a) mod 256"
    "uint (drop_bit 8 a + drop_bit 8 ((ucast h AND 0xff) + (a AND 0xff))) = (uint h + uint a) div 256"
proof -
  have b: "0 \<le> uint h" "uint h < 256" "0 \<le> uint a" "uint a < 2 ^ 32" using uint_lt2p [of h] uint_lt2p [of a] by simp_all
  have h: "uint (ucast h :: u32) = uint h" using b by (simp add: unsigned_ucast_eq take_bit_int_eq_self)
  show "uint (ucast (ucast h + a) :: u8) = (uint h + uint a) mod 256"
    using h by (simp add: unsigned_ucast_eq uint_word_ariths(1) take_bit_eq_mod mod_mod_cancel)
  have m: "uint (x AND 0xff) = uint x mod 256" for x :: u32
  proof -
    have "x AND 0xff = take_bit 8 x" by (simp add: take_bit_eq_mask mask_eq_exp_minus_1)
    moreover have "uint (take_bit 8 x) = take_bit 8 (uint x)" by (rule unsigned_take_bit_eq)
    ultimately show ?thesis by (simp only: take_bit_eq_mod) simp
  qed
  have s: "uint ((ucast h AND 0xff) + (a AND 0xff) :: u32) = uint h + uint a mod 256"
    using b by (simp add: uint_word_ariths(1) m h)
  have d: "uint (drop_bit 8 z) = uint z div 256" for z :: u32
    by (simp add: drop_bit_eq_div uint_div_distrib)
  have "uint (drop_bit 8 a + drop_bit 8 ((ucast h AND 0xff) + (a AND 0xff)))
      = (uint a div 256 + (uint h + uint a mod 256) div 256) mod 2 ^ 32"
    by (subst uint_word_ariths(1), simp only: d s) simp
  also have "uint a div 256 + (uint h + uint a mod 256) div 256 = (uint h + uint a mod 256 + 256 * (uint a div 256)) div 256"
    by (simp only: div_mult_self2 [of 256] add.commute)
  also have "uint h + uint a mod 256 + 256 * (uint a div 256) = uint h + uint a" by (simp add: add.assoc)
  also have "(uint h + uint a) div 256 mod 2 ^ 32 = (uint h + uint a) div 256"
    using b by (intro mod_pos_pos_trivial) (simp_all add: pos_imp_zdiv_nonneg_iff)
  finally show "uint (drop_bit 8 a + drop_bit 8 ((ucast h AND 0xff) + (a AND 0xff))) = (uint h + uint a) div 256" .
qed

lemma add_in6_addr_loop_law:
  "i \<le> length base \<Longrightarrow> length (add_in6_addr_loop i base a) = length base \<and> drop i (add_in6_addr_loop i base a) = drop i base
    \<and> in6_value (take i (add_in6_addr_loop i base a)) = (in6_value (take i base) + uint a) mod 256 ^ i"
proof (induction i arbitrary: base a)
  case (Suc i)
  show ?case
  proof (cases "a = 0")
    case True
    have "length (take (Suc i) base) = Suc i" using Suc.prems by simp
    then have "in6_value (take (Suc i) base) mod 256 ^ Suc i = in6_value (take (Suc i) base)"
      using in6_value_bound [of "take (Suc i) base"] by (intro mod_pos_pos_trivial) simp_all
    then show ?thesis using True by simp
  next
    case False
    define b' where "b' = (ucast (ucast (base ! i) + a) :: u8)"
    define a' where "a' = drop_bit 8 a + drop_bit 8 ((ucast (base ! i) AND 0xff) + (a AND 0xff))"
    define X where "X = add_in6_addr_loop i (base[i := b']) a'"
    have eq: "add_in6_addr_loop (Suc i) base a = X"
      using False by (simp add: X_def a'_def b'_def Let_def)
    have IH: "length X = length base" "drop i X = drop i (base[i := b'])"
      "in6_value (take i X) = (in6_value (take i base) + uint a') mod 256 ^ i"
      using Suc.IH [of "base[i := b']" a'] Suc.prems by (simp_all add: X_def)
    have "X ! i = hd (drop i X)" using IH(1) Suc.prems by (simp add: hd_drop_conv_nth)
    then have Xi: "X ! i = b'" using IH(2) Suc.prems by (simp add: hd_drop_conv_nth)
    have "in6_value (take (Suc i) X) = in6_value (take i X) * 256 + uint b'"
      using IH(1) Suc.prems Xi by (simp add: take_Suc_conv_app_nth)
    also have "\<dots> = 256 * ((in6_value (take i base) + uint a') mod 256 ^ i) + (uint (base ! i) + uint a) mod 256"
      using IH(3) carry_step(1) [of "base ! i" a] by (simp add: b'_def)
    also have "\<dots> = (256 * in6_value (take i base) + (uint (base ! i) + uint a)) mod (256 * 256 ^ i)"
      using carry_step(2) [of a "base ! i"] by (simp add: zmod_zmult2_eq a'_def)
    also have "256 * in6_value (take i base) + (uint (base ! i) + uint a) = in6_value (take (Suc i) base) + uint a"
      using Suc.prems by (simp add: take_Suc_conv_app_nth)
    finally have v: "in6_value (take (Suc i) X) = (in6_value (take (Suc i) base) + uint a) mod 256 ^ Suc i" by simp
    have "drop (Suc i) X = drop 1 (drop i X)" by simp
    also have "\<dots> = drop (Suc i) base" unfolding IH(2) by simp
    finally show ?thesis using eq IH(1) v by simp
  qed
qed simp

lemma add_in6_addr_law:
  assumes "length base = 16"
  shows "length (add_in6_addr base a) = 16" "in6_value (add_in6_addr base a) = (in6_value base + uint a) mod 2 ^ 128"
proof -
  note l = add_in6_addr_loop_law [of 16 base a, unfolded assms, OF order_refl]
  then show "length (add_in6_addr base a) = 16" by (simp add: add_in6_addr_def)
  have "take 16 (add_in6_addr_loop 16 base a) = add_in6_addr_loop 16 base a" using l by (intro take_all) simp
  moreover have "take 16 base = base" using assms by simp
  moreover have "(256 :: int) ^ 16 = 2 ^ 128" by simp
  ultimately show "in6_value (add_in6_addr base a) = (in6_value base + uint a) mod 2 ^ 128"
    using l unfolding add_in6_addr_def by metis
qed

lemma add_in6_addr_inject:
  assumes "length base = 16" "add_in6_addr base a = add_in6_addr base b"
  shows "a = b"
proof -
  have "(in6_value base + uint a) mod 2 ^ 128 = (in6_value base + uint b) mod 2 ^ 128"
    using assms add_in6_addr_law(2) by metis
  then have "(uint a - uint b) mod 2 ^ 128 = 0"
    by (metis add_diff_cancel_left diff_self mod_0 mod_diff_cong)
  moreover have "\<bar>uint a - uint b\<bar> < 2 ^ 32"
  proof -
    have "0 \<le> uint a" "0 \<le> uint b" "uint a < 2 ^ 32" "uint b < 2 ^ 32" using uint_lt2p [of a] uint_lt2p [of b] by simp_all
    then show ?thesis by linarith
  qed
  ultimately have "uint a - uint b = 0"
    using dvd_imp_le_int [of "uint a - uint b" "2 ^ 128"] by (auto simp: mod_eq_0_iff_dvd)
  then show ?thesis by (simp add: word_uint_eq_iff)
qed

subsection \<open>Clients and their addresses\<close>

text \<open>
  The clients of the server as multi.c drives the pool: a client that has no slot asks for one, a
  client that leaves gives it back. The second component maps a client to its slot and addresses.
\<close>

datatype pool_event = Connect nat "bytes option" | Disconnect nat bool

type_synonym lease = "int \<times> (u32 \<times> u32) option \<times> bytes option"

fun pool_step :: "ifconfig_pool \<times> (nat \<rightharpoonup> lease) \<Rightarrow> int \<times> pool_event \<Rightarrow> (ifconfig_pool \<times> (nat \<rightharpoonup> lease)) option" where
  "pool_step (pool, leases) (now, Connect k cn) =
     (case leases k of
        Some _ \<Rightarrow> Some (pool, leases)
      | None \<Rightarrow> do {
          (pool, i, a) \<leftarrow> ifconfig_pool_acquire pool cn;
          Some (pool, if i \<ge> 0 then leases(k \<mapsto> (i, a)) else leases) })"
| "pool_step (pool, leases) (now, Disconnect k hard) =
     (case leases k of
        None \<Rightarrow> Some (pool, leases)
      | Some (i, _) \<Rightarrow> do {
          pool \<leftarrow> fst (ifconfig_pool_release now (Some pool) i hard);
          Some (pool, leases(k := None)) })"

fun pool_run :: "ifconfig_pool \<times> (nat \<rightharpoonup> lease) \<Rightarrow> (int \<times> pool_event) list \<Rightarrow> (ifconfig_pool \<times> (nat \<rightharpoonup> lease)) option" where
  "pool_run st [] = Some st"
| "pool_run st (e # es) = Option.bind (pool_step st e) (\<lambda>st. pool_run st es)"

definition pool_wf :: "ifconfig_pool \<Rightarrow> bool" where
  "pool_wf pool \<longleftrightarrow> po_size pool = int (length (po_list pool)) \<and> 0 < po_size pool \<and> po_size pool \<le> 65536
     \<and> length (po_ipv6_base pool) = 16"

text \<open>Slots in use are exactly those of the clients, and no two clients share one.\<close>

definition pool_inv :: "ifconfig_pool \<Rightarrow> ifconfig_pool \<Rightarrow> (nat \<rightharpoonup> lease) \<Rightarrow> bool" where
  "pool_inv pool0 pool leases \<longleftrightarrow> pool_wf pool \<and> pool\<lparr>po_list := po_list pool0\<rparr> = pool0
     \<and> (\<forall>k i a. leases k = Some (i, a) \<longrightarrow> a = pool_addresses pool0 i
          \<and> (\<exists>j < length (po_list pool). i = int j \<and> ipe_in_use (po_list pool ! j)))
     \<and> (\<forall>k k' i a a'. leases k = Some (i, a) \<longrightarrow> leases k' = Some (i, a') \<longrightarrow> k = k')
     \<and> (\<forall>j < length (po_list pool). ipe_in_use (po_list pool ! j) \<longrightarrow> (\<exists>k a. leases k = Some (int j, a)))"

lemma pool_addresses_list [simp]: "pool_addresses (pool\<lparr>po_list := l\<rparr>) i = pool_addresses pool i"
  by (simp add: pool_addresses_def split: pool_type.split)

lemma acquire_law:
  assumes "pool_wf pool"
  obtains "ifconfig_pool_acquire pool cn = Some (pool, - 1, None, None)" "pool_choice pool cn = - 1"
  | j e where "ifconfig_pool_acquire pool cn = Some (pool\<lparr>po_list := (po_list pool)[j := e]\<rparr>, int j, pool_addresses pool (int j))"
      "pool_choice pool cn = int j" "j < length (po_list pool)" "\<not> ipe_in_use (po_list pool ! j)" "ipe_in_use e" "ipe_common_name e = cn"
      "ipe_fixed e = ipe_fixed (po_list pool ! j)"
proof -
  have f: "ifconfig_pool_find pool cn = pool_choice pool cn" using assms pool_find_choice by (simp add: pool_wf_def)
  show ?thesis
  proof (cases "pool_choice pool cn = - 1")
    case True
    then show ?thesis using that(1) f by (simp add: ifconfig_pool_acquire_def)
  next
    case False
    then obtain j where j: "j < length (po_list pool)" "pool_choice pool cn = int j" "\<not> ipe_in_use (po_list pool ! j)"
      using pool_choice_law [of pool cn] by blast
    let ?f = "(ifconfig_pool_entry_free 0 (po_list pool ! j) True)\<lparr>ipe_in_use := True\<rparr>"
    let ?e = "if cn \<noteq> None then ?f\<lparr>ipe_common_name := cn\<rparr> else ?f"
    have "ifconfig_pool_acquire pool cn = Some (pool\<lparr>po_list := (po_list pool)[j := ?e]\<rparr>, int j, pool_addresses pool (int j))"
      using f j by (simp add: ifconfig_pool_acquire_def Let_def)
    then show ?thesis by (rule that(2)) (use j in \<open>simp_all add: ifconfig_pool_entry_free_def\<close>)
  qed
qed

lemma pool_step_inv:
  assumes "pool_inv pool0 pool leases"
  shows "\<exists>pool' leases'. pool_step (pool, leases) e = Some (pool', leases') \<and> pool_inv pool0 pool' leases'"
proof -
  have wf: "pool_wf pool" and cfg: "pool\<lparr>po_list := po_list pool0\<rparr> = pool0" using assms by (simp_all add: pool_inv_def)
  have addr: "pool_addresses pool i = pool_addresses pool0 i" for i using pool_addresses_list [where pool = pool and l = "po_list pool0" and i = i] cfg by simp
  have upd: "pool_wf (pool\<lparr>po_list := (po_list pool)[j := x]\<rparr>)" for j x using wf by (auto simp: pool_wf_def)
  have held: "a = pool_addresses pool0 i \<and> (\<exists>j < length (po_list pool). i = int j \<and> ipe_in_use (po_list pool ! j))"
    if "leases k = Some (i, a)" for k i a
    using assms that unfolding pool_inv_def by blast
  have inj: "k = k'" if "leases k = Some (i, a)" "leases k' = Some (i, a')" for k i a k' a'
    using assms that unfolding pool_inv_def by blast
  have used: "\<exists>k a. leases k = Some (int j, a)" if "j < length (po_list pool)" "ipe_in_use (po_list pool ! j)" for j
    using assms that unfolding pool_inv_def by blast
  obtain now ev where e: "e = (now, ev)" by (cases e)
  show ?thesis
  proof (cases ev)
    case (Connect k cn)
    show ?thesis
    proof (cases "leases k")
      case None
      show ?thesis
      proof (cases rule: acquire_law [OF wf, of cn, case_names full slot])
        case full
        then show ?thesis using None e Connect assms by simp
      next
        case (slot j x)
        have "pool_inv pool0 (pool\<lparr>po_list := (po_list pool)[j := x]\<rparr>) (leases(k \<mapsto> (int j, pool_addresses pool (int j))))"
          unfolding pool_inv_def
        proof (intro conjI allI impI)
          fix k' i a assume "(leases(k \<mapsto> (int j, pool_addresses pool (int j)))) k' = Some (i, a)"
          then show "a = pool_addresses pool0 i" "\<exists>j' < length (po_list (pool\<lparr>po_list := (po_list pool)[j := x]\<rparr>)). i = int j'
              \<and> ipe_in_use (po_list (pool\<lparr>po_list := (po_list pool)[j := x]\<rparr>) ! j')"
            using held [of k' i a] slot(3,5) by (auto simp: addr nth_list_update split: if_splits)
        next
          fix k1 k2 i a a' assume "(leases(k \<mapsto> (int j, pool_addresses pool (int j)))) k1 = Some (i, a)"
            "(leases(k \<mapsto> (int j, pool_addresses pool (int j)))) k2 = Some (i, a')"
          then show "k1 = k2"
            using held [of k1 i a] held [of k2 i a'] inj [of k1 i a k2 a'] slot(4) by (auto split: if_splits)
        next
          fix m assume m: "m < length (po_list (pool\<lparr>po_list := (po_list pool)[j := x]\<rparr>))"
            "ipe_in_use (po_list (pool\<lparr>po_list := (po_list pool)[j := x]\<rparr>) ! m)"
          show "\<exists>k' a. (leases(k \<mapsto> (int j, pool_addresses pool (int j)))) k' = Some (int m, a)"
          proof (cases "m = j")
            case True
            then show ?thesis by (intro exI [of _ k]) simp
          next
            case False
            then obtain k' a where "leases k' = Some (int m, a)" using m used [of m] by auto
            then show ?thesis using None by (intro exI [of _ k'] exI [of _ a]) auto
          qed
        qed (use upd cfg in auto)
        then show ?thesis using slot(1) None e Connect by simp
      qed
    next
      case (Some l)
      then show ?thesis using e Connect assms by simp
    qed
  next
    case (Disconnect k hard)
    show ?thesis
    proof (cases "leases k")
      case None
      then show ?thesis using e Disconnect assms by simp
    next
      case (Some l)
      obtain i a where l: "l = (i, a)" by (cases l)
      obtain j where j: "i = int j" "j < length (po_list pool)" using held [of k i a] Some l by blast
      let ?x = "ifconfig_pool_entry_free now (po_list pool ! j) hard"
      have r: "ifconfig_pool_release now (Some pool) i hard = (Some (pool\<lparr>po_list := (po_list pool)[j := ?x]\<rparr>), True)"
        using j wf by (simp add: ifconfig_pool_release_def pool_wf_def)
      have nu: "\<not> ipe_in_use ?x" by (simp add: ifconfig_pool_entry_free_def)
      have "pool_inv pool0 (pool\<lparr>po_list := (po_list pool)[j := ?x]\<rparr>) (leases(k := None))"
        unfolding pool_inv_def
      proof (intro conjI allI impI)
        fix k' i' a' assume "(leases(k := None)) k' = Some (i', a')"
        then have k': "k' \<noteq> k" "leases k' = Some (i', a')" by (auto split: if_splits)
        then have "i' \<noteq> int j" using inj [of k' i' a' k a] Some l j(1) by auto
        then show "a' = pool_addresses pool0 i'" "\<exists>j' < length (po_list (pool\<lparr>po_list := (po_list pool)[j := ?x]\<rparr>)). i' = int j'
            \<and> ipe_in_use (po_list (pool\<lparr>po_list := (po_list pool)[j := ?x]\<rparr>) ! j')"
          using held [OF k'(2)] by (auto simp: nth_list_update)
      next
        fix k1 k2 i1 a1 a2 assume "(leases(k := None)) k1 = Some (i1, a1)" "(leases(k := None)) k2 = Some (i1, a2)"
        then show "k1 = k2" using inj [of k1 i1 a1 k2 a2] by (auto split: if_splits)
      next
        fix m assume m: "m < length (po_list (pool\<lparr>po_list := (po_list pool)[j := ?x]\<rparr>))"
          "ipe_in_use (po_list (pool\<lparr>po_list := (po_list pool)[j := ?x]\<rparr>) ! m)"
        then have n: "m \<noteq> j" "ipe_in_use (po_list pool ! m)" "m < length (po_list pool)" using nu j(2) by (auto simp: nth_list_update split: if_splits)
        then obtain k' a' where "leases k' = Some (int m, a')" using used by blast
        then show "\<exists>k' a. (leases(k := None)) k' = Some (int m, a)" using n Some l j(1) by (intro exI [of _ k'] exI [of _ a']) auto
      qed (use upd cfg in auto)
      then show ?thesis using e Disconnect Some l r by simp
    qed
  qed
qed

lemma pool_run_inv:
  "pool_inv pool0 pool leases \<Longrightarrow> \<exists>pool' leases'. pool_run (pool, leases) es = Some (pool', leases') \<and> pool_inv pool0 pool' leases'"
proof (induction es arbitrary: pool leases)
  case (Cons e es)
  then show ?case using pool_step_inv [OF Cons.prems, of e] by fastforce
qed simp

lemma uint_and3: "uint (x AND 3 :: u32) = uint x mod 4"
proof -
  have "x AND 3 = take_bit 2 x" by (simp add: take_bit_eq_mask mask_eq_exp_minus_1)
  moreover have "uint (take_bit 2 x) = take_bit 2 (uint x)" by (rule unsigned_take_bit_eq)
  ultimately show ?thesis by (simp only: take_bit_eq_mod) simp
qed

lemma uint_round: "uint (x AND NOT 3 :: u32) = uint x - uint x mod 4" "uint (x OR 3 :: u32) = uint x - uint x mod 4 + 3"
proof -
  have x: "0 \<le> uint x" "uint x < 2 ^ 32" using uint_lt2p [of x] by simp_all
  have "(x AND 3) AND (x AND NOT 3) = 0" "(x AND 3) OR (x AND NOT 3) = x" by (rule bit_word_eqI; auto simp: bit_simps)+
  then have "(x AND 3) + (x AND NOT 3) = x" using word_plus_and_or [of "x AND 3" "x AND NOT 3"] by simp
  then have "x AND NOT 3 = x - (x AND 3)" by (simp add: algebra_simps)
  moreover have r: "uint (x - (x AND 3)) = uint x - uint x mod 4"
    unfolding uint_word_ariths(2) uint_and3 using x zmod_le_nonneg_dividend [of "uint x" 4] by (intro mod_pos_pos_trivial) (simp_all add: order.strict_trans1)
  ultimately show "uint (x AND NOT 3) = uint x - uint x mod 4" by simp
  have "x OR 3 = x - (x AND 3) + 3" using word_plus_and_or [of x 3] by (simp add: algebra_simps)
  moreover have "uint (x - (x AND 3) + 3) = uint x - uint x mod 4 + 3"
  proof -
    have e: "uint (3 :: u32) = 3" by simp
    have "y - y mod 4 \<le> 4294967292" if "y < 4294967296" for y :: int using that by presburger
    then have d: "0 \<le> uint x - uint x mod 4" "uint x - uint x mod 4 \<le> 2 ^ 32 - 4" using x zmod_le_nonneg_dividend [of "uint x" 4] by simp_all
    show ?thesis unfolding uint_word_ariths(1) r e using d by (subst mod_pos_pos_trivial) simp_all
  qed
  ultimately show "uint (x OR 3) = uint x - uint x mod 4 + 3" by simp
qed


text \<open>The slots of a new pool, and the addresses of a slot.\<close>

definition lease_addresses :: "ifconfig_pool \<Rightarrow> int \<Rightarrow> u32 set" where
  "lease_addresses pool i = (case fst (pool_addresses pool i) of None \<Rightarrow> {}
     | Some (local, remote) \<Rightarrow> (if po_ipv4_type pool = IFCONFIG_POOL_30NET then {local, remote} else {remote}))"

lemma word_small_eq: "0 \<le> x \<Longrightarrow> x < 2 ^ 32 \<Longrightarrow> 0 \<le> y \<Longrightarrow> y < 2 ^ 32 \<Longrightarrow> (word_of_int x :: u32) = word_of_int y \<longleftrightarrow> x = y"
  by (simp add: word_of_int_eq_iff take_bit_int_eq_self)

lemma net30_addresses:
  "po_ipv4_base pool + push_bit 2 (word_of_int i) + 1 = po_ipv4_base pool + word_of_int (4 * i + 1)"
  "po_ipv4_base pool + push_bit 2 (word_of_int i) + 2 = po_ipv4_base pool + word_of_int (4 * i + 2)"
  by (simp_all add: push_bit_eq_mult)

lemma lease_addresses_eq:
  "po_ipv4_enabled pool \<Longrightarrow> lease_addresses pool i = (\<lambda>n. po_ipv4_base pool + word_of_int n) `
     (if po_ipv4_type pool = IFCONFIG_POOL_30NET then {4 * i + 1, 4 * i + 2} else {i})"
  using net30_addresses [of pool i] by (cases "po_ipv4_type pool") (simp_all add: lease_addresses_def pool_addresses_def Let_def add.assoc)

lemma lease_addresses_disjoint:
  assumes "0 \<le> i" "i < 65536" "0 \<le> j" "j < 65536" "i \<noteq> j" "po_ipv4_enabled pool"
  shows "lease_addresses pool i \<inter> lease_addresses pool j = {}"
proof -
  let ?f = "\<lambda>n :: int. po_ipv4_base pool + (word_of_int n :: u32)"
  let ?o = "\<lambda>i :: int. if po_ipv4_type pool = IFCONFIG_POOL_30NET then {4 * i + 1, 4 * i + 2} else {i}"
  have "inj_on ?f {0..<2 ^ 32}" by (rule inj_onI) (use word_small_eq in auto)
  moreover have "?o i \<subseteq> {0..<2 ^ 32}" "?o j \<subseteq> {0..<2 ^ 32}" using assms(1-4) by auto
  ultimately have "?f ` ?o i \<inter> ?f ` ?o j = ?f ` (?o i \<inter> ?o j)" by (rule inj_on_image_Int [symmetric])
  moreover have "4 * i + 1 \<noteq> 4 * j + 2" "4 * i + 2 \<noteq> 4 * j + 1" by presburger+
  then have "?o i \<inter> ?o j = {}" using assms(5) by auto
  ultimately show ?thesis unfolding lease_addresses_eq [OF assms(6)] by simp
qed

lemma sint_small32: "uint (w :: u32) < 2 ^ 31 \<Longrightarrow> sint w = uint w"
proof -
  assume "uint w < 2 ^ 31"
  then have "signed_take_bit 31 (uint w) = uint w"
    by (intro signed_take_bit_int_eq_self order_trans [OF _ uint_ge_0]) simp_all
  then show ?thesis by (simp add: sint_uint)
qed

lemma pool_ipv4_init_law:
  assumes "start \<le> end_ip" "uint (end_ip - start) < 65536" "pool_ipv4_init type start end_ip = (base, sz)"
  shows "sz \<le> 65536"
    "\<And>n. 0 \<le> n \<Longrightarrow> n < (if type = IFCONFIG_POOL_30NET then 4 * sz else sz) \<Longrightarrow>
       uint (base + word_of_int n) = uint base + n \<and> uint base + n \<le> uint (if type = IFCONFIG_POOL_30NET then end_ip OR 3 else end_ip)"
proof -
  have b: "0 \<le> uint start" "uint start \<le> uint end_ip" "uint end_ip < 2 ^ 32" using assms(1) uint_lt2p [of end_ip] by (simp_all add: word_le_def)
  have len32: "LENGTH(32) = 32" by simp
  have "0 \<le> uint end_ip - uint start" "uint end_ip - uint start < 2 ^ LENGTH(32)" using b unfolding len32 by linarith+
  then have d: "uint (end_ip - start) = uint end_ip - uint start"
    unfolding uint_word_ariths(2) by (rule mod_pos_pos_trivial)
  have small: "uint (base + word_of_int n) = uint base + n" if "0 \<le> n" "uint base + n < 2 ^ 32" for n
  proof -
    have "n < 2 ^ 32" using that(2) uint_ge_0 [of base] by linarith
    then have "uint (word_of_int n :: u32) = n" using that(1) by (simp add: unsigned_of_int take_bit_int_eq_self)
    then show ?thesis unfolding uint_word_ariths(1) using that by (simp add: mod_pos_pos_trivial)
  qed
  have "sz \<le> 65536 \<and> (\<forall>n. 0 \<le> n \<longrightarrow> n < (if type = IFCONFIG_POOL_30NET then 4 * sz else sz) \<longrightarrow>
       uint base + n \<le> uint (if type = IFCONFIG_POOL_30NET then end_ip OR 3 else end_ip))"
  proof (cases type)
    case IFCONFIG_POOL_INDIV
    have "uint (end_ip - start + 1) = uint end_ip - uint start + 1"
      unfolding uint_word_ariths(1) d using b d assms(2) by (subst mod_pos_pos_trivial) simp_all
    then have "sint (end_ip - start + 1) = uint end_ip - uint start + 1"
      using assms(2) d by (subst sint_small32) simp_all
    then show ?thesis using IFCONFIG_POOL_INDIV assms(2,3) d by (auto simp: pool_ipv4_init_def)
  next
    case IFCONFIG_POOL_30NET
    let ?T = "uint (end_ip OR 3)" and ?B = "uint (start AND NOT 3)"
    have T: "?T = uint end_ip - uint end_ip mod 4 + 3" and B: "?B = uint start - uint start mod 4" by (rule uint_round)+
    have r: "\<exists>k. x - x mod 4 = 4 * k" for x :: int by presburger
    obtain u where "uint end_ip - uint end_ip mod 4 = 4 * u" using r by blast
    then have "?T + 1 = 4 * (u + 1)" using T by simp
    then obtain t where t: "?T + 1 = 4 * t" by blast
    obtain s where s: "?B = 4 * s" using r [of "uint start"] B by auto
    have m: "0 \<le> uint x mod 4" "uint x mod 4 \<le> 3" for x :: u32 by simp_all
    have ts: "s \<le> t" "t - s \<le> 16385" "0 \<le> s" using t s T B b d assms(2) m [of start] m [of end_ip] by linarith+
    have "uint ((end_ip OR 3) + 1 - (start AND NOT 3)) = (?T + 1 - ?B) mod 2 ^ 32"
      by (simp add: uint_word_ariths(1,2) mod_simps)
    also have "\<dots> = 4 * (t - s)" unfolding t s using ts by (subst mod_pos_pos_trivial) simp_all
    finally have u: "uint ((end_ip OR 3) + 1 - (start AND NOT 3)) = 4 * (t - s)" .
    have "uint (drop_bit 2 ((end_ip OR 3) + 1 - (start AND NOT 3))) = t - s"
      using u by (simp add: drop_bit_eq_div uint_div_distrib)
    then have "sint (drop_bit 2 ((end_ip OR 3) + 1 - (start AND NOT 3))) = t - s"
      using ts by (subst sint_small32) simp_all
    then have "sz = t - s" "base = start AND NOT 3" using assms(3) IFCONFIG_POOL_30NET by (simp_all add: pool_ipv4_init_def Let_def)
    then show ?thesis using ts t s IFCONFIG_POOL_30NET by auto
  qed
  moreover have "uint (if type = IFCONFIG_POOL_30NET then end_ip OR 3 else end_ip) < 2 ^ 32"
    using uint_lt2p [of "end_ip OR 3"] uint_lt2p [of end_ip] by simp
  ultimately show "sz \<le> 65536"
    "\<And>n. 0 \<le> n \<Longrightarrow> n < (if type = IFCONFIG_POOL_30NET then 4 * sz else sz) \<Longrightarrow>
       uint (base + word_of_int n) = uint base + n \<and> uint base + n \<le> uint (if type = IFCONFIG_POOL_30NET then end_ip OR 3 else end_ip)"
    using small by (blast, meson order.strict_trans1)
qed

lemma pool_ipv6_init_law:
  assumes "length ipv6_base = 16"
  shows "snd (pool_ipv6_init ipv6_base netbits) \<le> 65536 \<and> length (fst (pool_ipv6_init ipv6_base netbits)) = 16"
proof -
  define k where "k = nat (128 - netbits)"
  define m where "m = be32_of (drop 12 ipv6_base) AND (push_bit k 1 - 1)"
  define base where "base = (if m = 0 then m + 1 else m)"
  have "sint (push_bit k 1 - base) \<le> 65536" if n: "netbits \<ge> 112"
  proof -
    have k: "k \<le> 16" using n by (simp add: k_def)
    then have p: "(2 :: int) ^ k \<le> 2 ^ 16" by (intro power_increasing) simp_all
    then have p': "(2 :: int) ^ k \<le> 65536" by simp
    have P: "uint (push_bit k (1 :: u32)) = 2 ^ k"
    proof -
      have "uint (push_bit k (1 :: u32)) = take_bit LENGTH(32) (push_bit k (uint (1 :: u32)))" by (rule unsigned_push_bit_eq)
      also have "\<dots> = 2 ^ k" using p k by (simp add: push_bit_eq_mult take_bit_int_eq_self)
      finally show ?thesis .
    qed
    have "m = take_bit k (be32_of (drop 12 ipv6_base))" unfolding m_def by (simp add: take_bit_eq_mask mask_eq_exp_minus_1 push_bit_eq_mult)
    then have "uint m = take_bit k (uint (be32_of (drop 12 ipv6_base)))" by (simp only: unsigned_take_bit_eq)
    then have "uint m < 2 ^ k" by simp
    then have "0 \<le> uint base" "uint base \<le> 2 ^ k" by (auto simp: base_def)
    then have d: "0 \<le> 2 ^ k - uint base" "2 ^ k - uint base \<le> 65536" using p' by linarith+
    then have "uint (push_bit k 1 - base) = 2 ^ k - uint base"
      unfolding uint_word_ariths(2) P by (subst mod_pos_pos_trivial) simp_all
    then show ?thesis using d by (subst sint_small32) simp_all
  qed
  moreover have "pool_ipv6_init ipv6_base netbits = (if m = 0 then ipv6_base[15 := ipv6_base ! 15 + 1] else ipv6_base,
      if netbits \<ge> 112 then sint (push_bit k 1 - base) else 65536)" if "netbits \<ge> 112"
    using that by (simp add: pool_ipv6_init_def Let_def m_def base_def k_def IFCONFIG_POOL_MAX_def)
  moreover have "snd (pool_ipv6_init ipv6_base netbits) = 65536" if "netbits < 112"
    using that by (simp add: pool_ipv6_init_def Let_def IFCONFIG_POOL_MAX_def split: prod.splits)
  moreover have "length (fst (pool_ipv6_init ipv6_base netbits)) = 16"
    using assms by (simp add: pool_ipv6_init_def Let_def split: prod.splits if_splits)
  ultimately show ?thesis by (cases "netbits \<ge> 112") auto
qed

lemma pool_init_law:
  assumes "ifconfig_pool_init v4 type start end_ip dup v6 base6 netbits = Some pool" "length base6 = 16"
  shows "pool_wf pool" "po_list pool = replicate (nat (po_size pool)) entry_clear" "po_ipv4_enabled pool = v4" "po_ipv6_enabled pool = v6"
    "v4 \<Longrightarrow> po_ipv4_type pool = type \<and> (\<forall>i. 0 \<le> i \<and> i < po_size pool \<longrightarrow> (\<forall>a \<in> lease_addresses pool i.
       (if type = IFCONFIG_POOL_30NET then start AND NOT 3 < a \<and> a < end_ip OR 3 else start \<le> a \<and> a \<le> end_ip)))"
proof -
  obtain b s where v4i: "pool_ipv4_init type start end_ip = (b, s)" by fastforce
  obtain b6 s6 where v6i: "pool_ipv6_init base6 netbits = (b6, s6)" by fastforce
  have r: "start \<le> end_ip" "uint (end_ip - start) < 65536" using assms(1) by (auto simp: ifconfig_pool_init_def IFCONFIG_POOL_MAX_def option_bind_Some_iff split: if_splits)
  note l4 = pool_ipv4_init_law [OF r v4i] and l6 = pool_ipv6_init_law [OF assms(2), of netbits, unfolded v6i]
  define sz where "sz = (if v6 \<and> ((if v4 then s else 0) \<le> 0 \<or> s6 < (if v4 then s else 0)) then s6 else if v4 then s else 0)"
  have p: "pool = \<lparr>po_duplicate_cn = dup, po_ipv4_enabled = v4, po_ipv4_type = (if v4 then type else IFCONFIG_POOL_30NET),
      po_ipv4_base = (if v4 then b else 0), po_ipv6_enabled = v6, po_ipv6_base = (if v6 then b6 else replicate 16 0), po_size = sz,
      po_list = replicate (nat sz) entry_clear\<rparr>" and pos: "0 < sz" and big: "v4 \<Longrightarrow> 2 \<le> s"
    using assms(1) v4i v6i by (auto simp: ifconfig_pool_init_def option_bind_Some_iff Let_def sz_def split: if_splits)
  have le: "v4 \<Longrightarrow> sz \<le> s" using big by (auto simp: sz_def)
  have "sz \<le> 65536" using l4(1) l6 by (auto simp: sz_def)
  then show "pool_wf pool" "po_list pool = replicate (nat (po_size pool)) entry_clear" "po_ipv4_enabled pool = v4" "po_ipv6_enabled pool = v6"
    using p pos l6 by (simp_all add: pool_wf_def)
  assume v4: v4
  have base: "po_ipv4_base pool = b" "po_ipv4_type pool = type" "po_size pool = sz" "po_ipv4_enabled pool" using p v4 by simp_all
  have "(if type = IFCONFIG_POOL_30NET then start AND NOT 3 < a \<and> a < end_ip OR 3 else start \<le> a \<and> a \<le> end_ip)"
    if i: "0 \<le> i" "i < sz" and a: "a \<in> lease_addresses pool i" for i a
  proof (cases "type = IFCONFIG_POOL_30NET")
    case True
    then have bs: "b = start AND NOT 3" using v4i by (simp add: pool_ipv4_init_def Let_def)
    have "\<exists>n \<in> {4 * i + 1, 4 * i + 2}. a = b + word_of_int n"
      using a unfolding lease_addresses_eq [OF base(4)] base(1,2) if_P [OF True] by blast
    then obtain n where n: "a = b + word_of_int n" "n \<in> {4 * i + 1, 4 * i + 2}" by blast
    have "0 < n" "n < 4 * s" "n + 1 < 4 * s" using n(2) i le [OF v4] by auto
    note n = n(1) this
    have "uint a = uint b + n" "uint b + (n + 1) \<le> uint (end_ip OR 3)" using l4(2) [of n] l4(2) [of "n + 1"] n True by simp_all
    then show ?thesis using True n(2) bs by (simp add: word_less_def)
  next
    case False
    then have bs: "b = start" using v4i by (cases type) (simp_all add: pool_ipv4_init_def)
    have "a = b + word_of_int i" using a False unfolding lease_addresses_eq [OF base(4)] base(1,2) by simp
    then have "uint a = uint b + i" "uint b + i \<le> uint end_ip" using l4(2) [of i] i le [OF v4] False by simp_all
    then show ?thesis using False i bs by (simp add: word_le_def)
  qed
  then show "po_ipv4_type pool = type \<and> (\<forall>i. 0 \<le> i \<and> i < po_size pool \<longrightarrow> (\<forall>a \<in> lease_addresses pool i.
       (if type = IFCONFIG_POOL_30NET then start AND NOT 3 < a \<and> a < end_ip OR 3 else start \<le> a \<and> a \<le> end_ip)))"
    using base by auto
qed

text \<open>
  C13: No two clients of the server hold the same address of the pool, whatever clients come and go
  and with whatever names: their slots, IPv4 addresses (of a \<open>/30\<close> network both ends) and IPv6
  addresses differ. The IPv4 addresses lie in the range from \<open>start\<close> to \<open>end_ip\<close> that was configured,
  except for a pool of \<open>/30\<close> networks, which rounds the range outwards: there they lie in the \<open>/30\<close>
  networks that contain \<open>start\<close>, \<open>end_ip\<close> and what is between them (strictly between the first address
  of the one and the last of the other), so that the pool 10.8.0.6 to 10.8.0.9 hands out 10.8.0.5 as
  well. The pool never aborts: the slot it chooses is never in use.
\<close>

theorem pool_leases_disjoint:
  assumes "ifconfig_pool_init v4 type start end_ip dup v6 base6 netbits = Some pool" "length base6 = 16"
  shows "\<exists>pool' leases. pool_run (pool, Map.empty) es = Some (pool', leases)
    \<and> (\<forall>k k' i a4 a6 i' a4' a6'. k \<noteq> k' \<and> leases k = Some (i, a4, a6) \<and> leases k' = Some (i', a4', a6') \<longrightarrow>
         i \<noteq> i' \<and> lease_addresses pool i \<inter> lease_addresses pool i' = {} \<and> (v6 \<longrightarrow> a6 \<noteq> a6'))
    \<and> (\<forall>k i a. leases k = Some (i, a) \<longrightarrow> a = pool_addresses pool i \<and> (v4 \<longrightarrow> (\<forall>a \<in> lease_addresses pool i.
         if type = IFCONFIG_POOL_30NET then start AND NOT 3 < a \<and> a < end_ip OR 3 else start \<le> a \<and> a \<le> end_ip)))"
proof -
  note l = pool_init_law [OF assms]
  have "pool_inv pool pool Map.empty"
    using l(1,2) by (simp add: pool_inv_def entry_clear_def)
  then obtain pool' leases where r: "pool_run (pool, Map.empty) es = Some (pool', leases)" "pool_inv pool pool' leases"
    using pool_run_inv by blast
  have held: "a = pool_addresses pool i \<and> 0 \<le> i \<and> i < po_size pool" if "leases k = Some (i, a)" for k i a
  proof -
    have "a = pool_addresses pool i" "\<exists>j < length (po_list pool'). i = int j" "pool_wf pool'" "pool'\<lparr>po_list := po_list pool\<rparr> = pool"
      using r(2) that unfolding pool_inv_def by blast+
    moreover from this(4) have "po_size pool' = po_size pool" by (metis ifconfig_pool.select_convs(7) ifconfig_pool.surjective ifconfig_pool.update_convs(8))
    ultimately show ?thesis by (auto simp: pool_wf_def)
  qed
  have sz: "po_size pool \<le> 65536" "length (po_ipv6_base pool) = 16" using l(1) by (simp_all add: pool_wf_def)
  have "i \<noteq> i' \<and> lease_addresses pool i \<inter> lease_addresses pool i' = {} \<and> (v6 \<longrightarrow> a6 \<noteq> a6')"
    if k: "k \<noteq> k'" "leases k = Some (i, a4, a6)" "leases k' = Some (i', a4', a6')" for k k' i a4 a6 i' a4' a6'
  proof -
    have i: "i \<noteq> i'" using r(2) k unfolding pool_inv_def by blast
    have b: "0 \<le> i" "i < 65536" "0 \<le> i'" "i' < 65536" using held [OF k(2)] held [OF k(3)] sz by auto
    then have "lease_addresses pool i \<inter> lease_addresses pool i' = {}"
      using lease_addresses_disjoint [OF b i] by (cases "po_ipv4_enabled pool") (simp_all add: lease_addresses_def pool_addresses_def)
    moreover have "(word_of_int i :: u32) \<noteq> word_of_int i'" using word_small_eq [of i i'] b i by simp
    then have "v6 \<longrightarrow> a6 \<noteq> a6'"
      using held [OF k(2)] held [OF k(3)] add_in6_addr_inject [OF sz(2)] l(4) by (auto simp: pool_addresses_def)
    ultimately show ?thesis using i by blast
  qed
  moreover have "a = pool_addresses pool i \<and> (v4 \<longrightarrow> (\<forall>a \<in> lease_addresses pool i.
         if type = IFCONFIG_POOL_30NET then start AND NOT 3 < a \<and> a < end_ip OR 3 else start \<le> a \<and> a \<le> end_ip))"
    if "leases k = Some (i, a)" for k i a
    using held [OF that] l(5) by blast
  ultimately show ?thesis using r(1) by blast
qed


subsection \<open>The file\<close>

lemma buf_parse_field:
  assumes "buf_wf b" "buf_content b = s @ t # rest" "\<forall>c \<in> set s. c \<noteq> 0 \<and> c \<noteq> 44" "t = 0 \<or> t = 44" "length s < 128" "length line = 128"
  shows "\<exists>b' line'. buf_parse b 44 line 128 = Some (b', line', True) \<and> buf_wf b' \<and> buf_content b' = rest
    \<and> c_string line' = s \<and> strlen line' = length s \<and> length line' = 128"
proof -
  have c: "\<forall>c \<in> set s. c \<noteq> 0 \<and> uint c \<noteq> 44" using assms(3) by (auto simp: word_uint_eq_iff)
  have t: "t # rest = [] \<or> hd (t # rest) = 0 \<or> uint (hd (t # rest)) = 44" using assms(4) by auto
  obtain b' where b': "buf_parse_loop 44 128 b line 0 False = (b', take (nat 0) line @ s @ 0 # drop (nat 0 + length s + 1) line, False \<or> t # rest = [])"
    "buf_wf b'" "buf_content b' = tl (t # rest)"
    using buf_parse_loop_line [OF assms(1,2) c t, of 0 128 line False] assms(5,6) by auto
  define d where "d = drop (length s + 1) line"
  have ld: "length s + 1 + length d = 128" using assms(5,6) by (simp add: d_def)
  obtain d' where d': "(s @ 0 # d)[127 := 0] = s @ 0 # d'" "length d' = length d"
    using assms(5) by (cases "127 - length s") (auto simp: list_update_append)
  have z: "0 \<notin> set s" using assms(3) by auto
  have "c_string (s @ 0 # d') = s" "strlen (s @ 0 # d') = length s" using z by simp_all
  then show ?thesis using b' d' ld by (simp add: buf_parse_def d_def)
qed

definition read_handle :: "(bytes \<Rightarrow> u32 option) \<Rightarrow> (bytes \<Rightarrow> bytes option) \<Rightarrow> ifconfig_pool \<Rightarrow> bytes \<Rightarrow> bytes \<Rightarrow> int" where
  "read_handle getaddr get_ipv6_addr pool ip ip6 =
     (let h = (if ip = [] then - 1 else case getaddr ip of None \<Rightarrow> - 1 | Some a \<Rightarrow> ifconfig_pool_ip_base_to_handle pool a)
      in if ip6 = [] then h else case get_ipv6_addr ip6 of None \<Rightarrow> h | Some a \<Rightarrow> if h < 0 then ifconfig_pool_ipv6_base_to_handle pool a else h)"

lemma read_line_law:
  assumes "buf_wf inb" "buf_content inb = cn @ 44 # ip @ 44 # ip6 @ t # rest" "t = 0 \<or> t = 44"
    "\<forall>s \<in> {cn, ip, ip6}. length s < 128 \<and> (\<forall>c \<in> set s. c \<noteq> 0 \<and> c \<noteq> 44)" "hd (cn @ [44]) \<noteq> 35" "hd (cn @ [44]) \<noteq> 59"
    "length x = 128" "length y = 128" "length z = 128"
  shows "\<exists>x' y' z'. pool_read_line getaddr get_ipv6_addr now fixed inb (pool, x, y, z)
      = Some (let h = read_handle getaddr get_ipv6_addr pool ip ip6 in if h \<ge> 0 then ifconfig_pool_set now pool cn h fixed else pool, x', y', z')
    \<and> length x' = 128 \<and> length y' = 128 \<and> length z' = 128"
proof -
  have f: "\<forall>c \<in> set cn. c \<noteq> 0 \<and> c \<noteq> 44" "length cn < 128" "\<forall>c \<in> set ip. c \<noteq> 0 \<and> c \<noteq> 44" "length ip < 128"
    "\<forall>c \<in> set ip6. c \<noteq> 0 \<and> c \<noteq> 44" "length ip6 < 128" using assms(4) by simp_all
  note sep = disjI2 [OF refl]
  obtain b1 x' where p1: "buf_parse inb 44 x 128 = Some (b1, x', True)" "buf_wf b1" "buf_content b1 = ip @ 44 # ip6 @ t # rest" "c_string x' = cn" "length x' = 128"
    using buf_parse_field [OF assms(1,2) f(1) sep f(2) assms(7)] by blast
  obtain b2 y' where p2: "buf_parse b1 44 y 128 = Some (b2, y', True)" "buf_wf b2" "buf_content b2 = ip6 @ t # rest" "c_string y' = ip"
    "strlen y' = length ip" "length y' = 128"
    using buf_parse_field [OF p1(2,3) f(3) sep f(4) assms(8)] by blast
  obtain b3 z' where p3: "buf_parse b2 44 z 128 = Some (b3, z', True)" "c_string z' = ip6" "strlen z' = length ip6" "length z' = 128"
    using buf_parse_field [OF p2(2,3) f(5) assms(3) f(6) assms(9)] by blast
  have l: "buf_len inb \<noteq> 0"
    using assms(1,2) b_len_0_iff [OF assms(1)] by (auto simp: buf_len_eq)
  have h: "hd (buf_content inb) \<noteq> 35" "hd (buf_content inb) \<noteq> 59" using assms(2,5,6) by (cases cn; simp)+
  show ?thesis using p1 p2 p3 l h
    by (auto simp: pool_read_line_def read_handle_def Let_def split: option.split)
qed

text \<open>
  C16: The lines of the file are not quoted. The name of a client whose certificate says
  \<open>cn,ip\<close>, written by \<^const>\<open>ifconfig_pool_list\<close> for any slot, is read back as the name \<open>cn\<close> at the slot of
  the address \<open>ip\<close>: the slot of another client is given to whoever is called \<open>cn\<close>.
\<close>

theorem pool_comma_name_misread:
  assumes "ipe_common_name (po_list pool ! i) = Some (cn @ 44 # ip)" "i < nat (po_size pool)" "po_ipv4_enabled pool" "\<not> po_ipv6_enabled pool"
    "getaddr ip = Some a" "0 \<le> ifconfig_pool_ip_base_to_handle pool a" "get_ipv6_addr (print_in_addr_t (ifconfig_pool_handle_to_ip_base pool (int i))) = None"
    and printable: "\<forall>s \<in> {cn, ip, print_in_addr_t (ifconfig_pool_handle_to_ip_base pool (int i))}. length s < 128 \<and> (\<forall>c \<in> set s. c \<noteq> 0 \<and> c \<noteq> 44)"
    and first: "hd (cn @ [44]) \<noteq> 35" "hd (cn @ [44]) \<noteq> 59" "ip \<noteq> []"
  shows "\<exists>line \<in> set (ifconfig_pool_list print_in_addr_t print_in6_addr pool). \<forall>inb. buf_wf inb \<and> buf_content inb = line @ [0] \<longrightarrow>
    ifconfig_pool_read getaddr get_ipv6_addr now fixed [inb] pool
      = Some (ifconfig_pool_set now pool cn (ifconfig_pool_ip_base_to_handle pool a) fixed)"
proof -
  let ?ip = "print_in_addr_t (ifconfig_pool_handle_to_ip_base pool (int i))"
  let ?line = "cn @ 44 # ip @ 44 # ?ip @ [44]"
  have "?line \<in> set (ifconfig_pool_list print_in_addr_t print_in6_addr pool)"
    unfolding ifconfig_pool_list_def set_concat set_map image_image by (rule UN_I [of i]) (use assms(1-4) in auto)
  moreover have "ifconfig_pool_read getaddr get_ipv6_addr now fixed [inb] pool
      = Some (ifconfig_pool_set now pool cn (ifconfig_pool_ip_base_to_handle pool a) fixed)"
    if "buf_wf inb" "buf_content inb = ?line @ [0]" for inb
  proof -
    have c: "buf_content inb = cn @ 44 # ip @ 44 # ?ip @ 44 # [0]" using that(2) by simp
    have h: "read_handle getaddr get_ipv6_addr pool ip ?ip = ifconfig_pool_ip_base_to_handle pool a"
      using assms(5,7) first(3) by (simp add: read_handle_def Let_def)
    show ?thesis
      using read_line_law [OF that(1) c _ printable first(1,2), of "replicate 128 0" "replicate 128 0" "replicate 128 0" getaddr get_ipv6_addr now fixed pool] h assms(6)
      by (auto simp: ifconfig_pool_read_def)
  qed
  ultimately show ?thesis by blast
qed

text \<open>
  C17: A reserved slot that is given back for good is lost. \<^const>\<open>ifconfig_pool_release\<close> with \<open>hard\<close> forgets
  the name but not that the slot is reserved, so no client, also not the one it was reserved for, gets it
  again.
\<close>

theorem pool_reserved_slot_lost:
  assumes "pool_wf pool" "\<not> po_duplicate_cn pool" "j < length (po_list pool)" "ipe_fixed (po_list pool ! j)"
    "ifconfig_pool_release now (Some pool) (int j) True = (Some pool', ok)"
  shows "ok \<and> \<not> ipe_in_use (po_list pool' ! j) \<and> ifconfig_pool_find pool' cn \<noteq> int j"
proof -
  let ?e = "ifconfig_pool_entry_free now (po_list pool ! j) True"
  have r: "ok" "pool' = pool\<lparr>po_list := (po_list pool)[j := ?e]\<rparr>"
    using assms(1,3,5) by (auto simp: ifconfig_pool_release_def pool_wf_def)
  have e: "po_list pool' ! j = ?e" "\<not> ipe_in_use ?e" "ipe_fixed ?e" "ipe_common_name ?e = None"
    using r(2) assms(3,4) by (simp_all add: ifconfig_pool_entry_free_def)
  have j: "snd s = ?e" if "s \<in> set (filter (\<lambda>(i, e). \<not> ipe_in_use e) (slots 0 (po_list pool')))" "fst s = int j" for s
    using that in_slots [of "fst s" "snd s" 0 "po_list pool'"] e(1) by auto
  let ?free = "filter (\<lambda>(i, e). \<not> ipe_in_use e) (slots 0 (po_list pool'))"
  let ?cs = "filter (\<lambda>(i, e). \<not> ipe_fixed e) ?free"
  have "pool_choice pool' cn \<noteq> int j"
  proof (cases "find (\<lambda>(i, e). cn \<noteq> None \<and> ipe_common_name e = cn) ?free")
    case (Some s)
    have "s \<in> set ?free" "cn \<noteq> None" "ipe_common_name (snd s) = cn" using find_SomeD [OF Some] by auto
    then have "fst s \<noteq> int j" using j [of s] e(4) by auto
    then show ?thesis using Some assms(2) r(2) by (simp add: pool_choice_def case_prod_beta)
  next
    case None
    show ?thesis
    proof (cases ?cs)
      case Nil
      then show ?thesis using None assms(2) r(2) by (simp add: pool_choice_def)
    next
      case (Cons c cs)
      have "arg_min_list released (c # cs) \<in> set ?cs" unfolding Cons by (rule arg_min_list_in) simp
      then have "arg_min_list released (c # cs) \<in> set ?free" "\<not> ipe_fixed (snd (arg_min_list released (c # cs)))" by auto
      then have "fst (arg_min_list released (c # cs)) \<noteq> int j" using j e(3) by metis
      then show ?thesis using None Cons assms(2) r(2) by (simp add: pool_choice_def)
    qed
  qed
  moreover have "po_size pool' = int (length (po_list pool'))" using r(2) assms(1) by (simp add: pool_wf_def)
  ultimately show ?thesis using r e(1,2) pool_find_choice [of pool' cn] by simp
qed


text \<open>The handle of an address is found again, unless the IPv6 slots cross the last four bytes.\<close>

lemma ip_base_handle:
  assumes "po_ipv4_enabled pool" "0 \<le> i" "i < po_size pool" "po_size pool \<le> 65536"
  shows "ifconfig_pool_ip_base_to_handle pool (ifconfig_pool_handle_to_ip_base pool i) = i"
proof -
  have u: "uint (word_of_int n :: u32) = n" if "0 \<le> n" "n < 2 ^ 31" for n
    using that by (simp add: unsigned_of_int take_bit_int_eq_self)
  have "sint (word_of_int i :: u32) = i" using assms(2-4) u [of i] by (subst sint_small32) simp_all
  moreover have "push_bit 2 (word_of_int i :: u32) = word_of_int (4 * i)" by (simp add: push_bit_eq_mult)
  then have "uint (drop_bit 2 (push_bit 2 (word_of_int i :: u32))) = i"
    using u [of "4 * i"] assms(2-4) by (simp only: drop_bit_eq_div uint_div_distrib) simp
  then have "sint (drop_bit 2 (push_bit 2 (word_of_int i :: u32))) = i" using assms(3,4) by (subst sint_small32) simp_all
  ultimately show ?thesis using assms
    by (cases "po_ipv4_type pool") (simp_all add: ifconfig_pool_ip_base_to_handle_def ifconfig_pool_handle_to_ip_base_def Let_def)
qed

lemma in6_value_append: "in6_value (xs @ ys) = in6_value xs * 256 ^ length ys + in6_value ys"
proof (induction ys rule: rev_induct)
  case (snoc y ys)
  have "in6_value (xs @ ys @ [y]) = in6_value (xs @ ys) * 256 + uint y" using in6_value_simps(2) [of "xs @ ys" y] by simp
  then show ?case using snoc by (simp add: algebra_simps)
qed simp

lemma in6_value_be32: "length bs = 4 \<Longrightarrow> in6_value bs = uint (be32_of bs)"
proof -
  assume l: "length bs = 4"
  define w where "w = be32_of bs"
  define x where "x = uint w"
  have b: "0 \<le> x" "x < 2 ^ 32" using uint_lt2p [of w] by (simp_all add: x_def)
  have d: "uint (ucast (drop_bit k w) :: u8) = x div 2 ^ k mod 256" for k
  proof -
    have "uint (drop_bit k w) = drop_bit k (take_bit LENGTH(32) (uint w))" by (rule unsigned_drop_bit_eq)
    also have "\<dots> = x div 2 ^ k" using b by (simp add: x_def drop_bit_eq_div take_bit_int_eq_self)
    finally have u: "uint (drop_bit k w) = x div 2 ^ k" .
    have "uint (ucast (drop_bit k w) :: u8) = take_bit LENGTH(8) (uint (drop_bit k w))" by (rule unsigned_ucast_eq)
    then show ?thesis unfolding u by (simp add: take_bit_eq_mod)
  qed
  have d0: "uint (ucast w :: u8) = x mod 256" using d [of 0] by simp
  have step: "y div 256 * 256 + y mod 256 = y" for y :: int by simp
  have "bs = be32_bytes w" using be32_bytes_of [OF l] by (simp add: w_def)
  then have "in6_value bs = ((x div 2 ^ 24 mod 256 * 256 + x div 2 ^ 16 mod 256) * 256 + x div 2 ^ 8 mod 256) * 256 + x mod 256"
    unfolding in6_value_def be32_bytes_def by (simp only: foldl.simps d d0) simp
  also have "x div 2 ^ 24 mod 256 = x div 2 ^ 24" using b by (intro mod_pos_pos_trivial) simp_all
  also have "x div 2 ^ 24 = (x div 2 ^ 16) div 256" by (simp add: zdiv_zmult2_eq [symmetric])
  also have "x div 2 ^ 16 = (x div 2 ^ 8) div 256" by (simp add: zdiv_zmult2_eq [symmetric])
  also have "x div 2 ^ 8 = x div 256" by simp
  finally show ?thesis unfolding step by (simp add: x_def w_def)
qed

lemma ipv6_base_handle:
  assumes "po_ipv6_enabled pool" "0 \<le> i" "i < po_size pool" "po_size pool \<le> 65536" "length (po_ipv6_base pool) = 16"
    "uint (be32_of (drop 12 (po_ipv6_base pool))) + po_size pool \<le> 2 ^ 32"
  shows "ifconfig_pool_ipv6_base_to_handle pool (ifconfig_pool_handle_to_ipv6_base pool i) = i"
proof -
  let ?b = "po_ipv6_base pool" and ?a = "add_in6_addr (po_ipv6_base pool) (word_of_int i)"
  have ui: "uint (word_of_int i :: u32) = i" using assms(2-4) by (simp add: unsigned_of_int take_bit_int_eq_self)
  have v: "in6_value bs = in6_value (take 12 bs) * 2 ^ 32 + uint (be32_of (drop 12 bs))" if "length bs = 16" for bs
    using in6_value_append [of "take 12 bs" "drop 12 bs"] in6_value_be32 [of "drop 12 bs"] that by simp
  have la: "length ?a = 16" by (rule add_in6_addr_law(1) [OF assms(5)])
  define H L H' L' where "H = in6_value (take 12 ?b)" and "L = uint (be32_of (drop 12 ?b))" and "H' = in6_value (take 12 ?a)"
    and "L' = uint (be32_of (drop 12 ?a))"
  have Lb: "0 \<le> L" "0 \<le> L'" "L' < 2 ^ 32" "L + i < 2 ^ 32" using assms(3,6) uint_lt2p [of "be32_of (drop 12 ?a)"] by (simp_all add: L_def L'_def)
  have Hb: "0 \<le> H" "H < 2 ^ 96" using in6_value_bound [of "take 12 ?b"] assms(5) by (simp_all add: H_def)
  have "H' * 2 ^ 32 + L' = (H * 2 ^ 32 + L + i) mod 2 ^ 128"
    using add_in6_addr_law(2) [OF assms(5), of "word_of_int i"] v [OF la] v [OF assms(5)] unfolding ui H_def L_def H'_def L'_def by simp
  also have "\<dots> = H * 2 ^ 32 + (L + i)" using Hb Lb assms(2) by (subst mod_pos_pos_trivial) (simp_all add: add.assoc)
  finally have e: "H' * 2 ^ 32 + L' = H * 2 ^ 32 + (L + i)" .
  have m: "(z * 2 ^ 32 + y) mod 2 ^ 32 = y" if "0 \<le> y" "y < 2 ^ 32" for z y :: int
    using that by (simp add: mod_add_eq [symmetric])
  have "(H' * 2 ^ 32 + L') mod 2 ^ 32 = L'" "(H * 2 ^ 32 + (L + i)) mod 2 ^ 32 = L + i"
    using Lb assms(2) by (intro m; linarith)+
  then have LL: "L' = L + i" unfolding e by metis
  then have "H' = H" using e by simp
  then have t: "take 12 ?a = take 12 ?b" using in6_value_inject [of "take 12 ?a" "take 12 ?b"] la assms(5) by (simp add: H_def H'_def)
  have "uint (be32_of (drop 12 ?a) - be32_of (drop 12 ?b)) = i"
    unfolding uint_word_ariths(2) using LL assms(2-4) by (simp add: L_def L'_def)
  then have "sint (be32_of (drop 12 ?a) - be32_of (drop 12 ?b)) = i" using assms(3,4) by (subst sint_small32) simp_all
  then show ?thesis using assms(1-3) t by (simp add: ifconfig_pool_ipv6_base_to_handle_def ifconfig_pool_handle_to_ipv6_base_def Let_def)
qed


text \<open>The slots after the lines of the slots \<open>is\<close> have been read.\<close>

definition restored :: "int \<Rightarrow> bool \<Rightarrow> ifconfig_pool \<Rightarrow> nat \<Rightarrow> ifconfig_pool_entry \<Rightarrow> ifconfig_pool_entry" where
  "restored now fixed pool i e = (case ipe_common_name (po_list pool ! i) of
     None \<Rightarrow> e | Some cn \<Rightarrow> \<lparr>ipe_in_use = False, ipe_common_name = Some cn, ipe_last_release = now, ipe_fixed = fixed\<rparr>)"

definition pool_line :: "(u32 \<Rightarrow> bytes) \<Rightarrow> (bytes \<Rightarrow> bytes) \<Rightarrow> ifconfig_pool \<Rightarrow> nat \<Rightarrow> bytes list" where
  "pool_line print_in_addr_t print_in6_addr pool i = (case ipe_common_name (po_list pool ! i) of
         None \<Rightarrow> []
       | Some common_name \<Rightarrow>
           [common_name @ [44] @ (if po_ipv4_enabled pool then print_in_addr_t (ifconfig_pool_handle_to_ip_base pool (int i)) else [])
              @ [44] @ (if po_ipv6_enabled pool then print_in6_addr (ifconfig_pool_handle_to_ipv6_base pool (int i)) else [])])"

text \<open>
  What is relied on: the text of an address is not empty, has no comma and is read back; names have no
  comma, do not begin with the mark of a comment and fit the arrays; IPv6 slots stay within the last
  four bytes.
\<close>

definition texts_ok :: "(u32 \<Rightarrow> bytes) \<Rightarrow> (bytes \<Rightarrow> bytes) \<Rightarrow> (bytes \<Rightarrow> u32 option) \<Rightarrow> (bytes \<Rightarrow> bytes option) \<Rightarrow> ifconfig_pool \<Rightarrow> bool" where
  "texts_ok print_in_addr_t print_in6_addr getaddr get_ipv6_addr pool \<longleftrightarrow>
     (\<forall>a. getaddr (print_in_addr_t a) = Some a \<and> print_in_addr_t a \<noteq> [] \<and> length (print_in_addr_t a) < 128 \<and> (\<forall>c \<in> set (print_in_addr_t a). c \<noteq> 0 \<and> c \<noteq> 44))
     \<and> (\<forall>a. length a = 16 \<longrightarrow> get_ipv6_addr (print_in6_addr a) = Some a \<and> print_in6_addr a \<noteq> [] \<and> length (print_in6_addr a) < 128
          \<and> (\<forall>c \<in> set (print_in6_addr a). c \<noteq> 0 \<and> c \<noteq> 44))
     \<and> (\<forall>e \<in> set (po_list pool). \<forall>cn. ipe_common_name e = Some cn \<longrightarrow> length cn < 128 \<and> (\<forall>c \<in> set cn. c \<noteq> 0 \<and> c \<noteq> 44)
          \<and> hd (cn @ [44]) \<noteq> 35 \<and> hd (cn @ [44]) \<noteq> 59)
     \<and> (po_ipv4_enabled pool \<or> po_ipv6_enabled pool)
     \<and> (po_ipv6_enabled pool \<longrightarrow> uint (be32_of (drop 12 (po_ipv6_base pool))) + po_size pool \<le> 2 ^ 32)"

lemma handle_list [simp]:
  "ifconfig_pool_ip_base_to_handle (pool\<lparr>po_list := l\<rparr>) a = ifconfig_pool_ip_base_to_handle pool a"
  "ifconfig_pool_ipv6_base_to_handle (pool\<lparr>po_list := l\<rparr>) b = ifconfig_pool_ipv6_base_to_handle pool b"
  by (simp_all add: ifconfig_pool_ip_base_to_handle_def ifconfig_pool_ipv6_base_to_handle_def split: pool_type.split)

lemma read_slot_law:
  assumes "pool_wf pool" "texts_ok p4 p6 getaddr get_ipv6_addr pool" "i < length (po_list pool)" "length l = length (po_list pool)"
    "list_all2 (\<lambda>txt b. buf_wf b \<and> buf_content b = txt @ [0]) (pool_line p4 p6 pool i) ins"
    "length x = 128" "length y = 128" "length z = 128"
  shows "\<exists>x' y' z'. pool_read_lines getaddr get_ipv6_addr now fixed ins (pool\<lparr>po_list := l\<rparr>, x, y, z)
      = Some (pool\<lparr>po_list := l[i := restored now fixed pool i (l ! i)]\<rparr>, x', y', z') \<and> length x' = 128 \<and> length y' = 128 \<and> length z' = 128"
proof (cases "ipe_common_name (po_list pool ! i)")
  case None
  then have "ins = []" using assms(5) by (simp add: pool_line_def)
  then show ?thesis using None assms(6-8) by (simp add: restored_def)
next
  case (Some cn)
  let ?ip = "if po_ipv4_enabled pool then p4 (ifconfig_pool_handle_to_ip_base pool (int i)) else []"
  let ?ip6 = "if po_ipv6_enabled pool then p6 (ifconfig_pool_handle_to_ipv6_base pool (int i)) else []"
  obtain b where b: "ins = [b]" "buf_wf b" "buf_content b = cn @ 44 # ?ip @ 44 # ?ip6 @ 0 # []"
    using assms(5) Some by (auto simp: pool_line_def list_all2_Cons1)
  have sz: "po_size pool \<le> 65536" "int i < po_size pool" "length (po_ipv6_base pool) = 16" using assms(1,3) by (simp_all add: pool_wf_def)
  have l6: "length (ifconfig_pool_handle_to_ipv6_base pool (int i)) = 16"
    using add_in6_addr_law(1) [OF sz(3)] by (simp add: ifconfig_pool_handle_to_ipv6_base_def)
  have cn: "length cn < 128" "\<forall>c \<in> set cn. c \<noteq> 0 \<and> c \<noteq> 44" "hd (cn @ [44]) \<noteq> 35" "hd (cn @ [44]) \<noteq> 59"
    using assms(2,3) Some nth_mem unfolding texts_ok_def by blast+
  have fields: "\<forall>s \<in> {cn, ?ip, ?ip6}. length s < 128 \<and> (\<forall>c \<in> set s. c \<noteq> 0 \<and> c \<noteq> 44)"
    using assms(2) l6 cn unfolding texts_ok_def by simp
  have h: "read_handle getaddr get_ipv6_addr (pool\<lparr>po_list := l\<rparr>) ?ip ?ip6 = int i"
  proof (cases "po_ipv4_enabled pool")
    case True
    then have "ifconfig_pool_ip_base_to_handle pool (ifconfig_pool_handle_to_ip_base pool (int i)) = int i"
      using ip_base_handle [OF True] sz by simp
    then show ?thesis using True assms(2) l6 unfolding texts_ok_def by (simp add: read_handle_def Let_def split: option.split)
  next
    case False
    then have v6: "po_ipv6_enabled pool" using assms(2) by (simp add: texts_ok_def)
    then have "ifconfig_pool_ipv6_base_to_handle pool (ifconfig_pool_handle_to_ipv6_base pool (int i)) = int i"
      using ipv6_base_handle [OF v6 _ sz(2,1,3)] assms(2) by (simp add: texts_ok_def)
    then show ?thesis using False v6 assms(2) l6 unfolding texts_ok_def by (simp add: read_handle_def Let_def split: option.split)
  qed
  have "ifconfig_pool_set now (pool\<lparr>po_list := l\<rparr>) cn (int i) fixed = pool\<lparr>po_list := l[i := restored now fixed pool i (l ! i)]\<rparr>"
    using Some by (cases "l ! i") (simp add: ifconfig_pool_set_def restored_def ifconfig_pool_entry_free_def)
  then show ?thesis
    using read_line_law [OF b(2,3) disjI1 [OF refl] fields cn(3,4) assms(6-8), of getaddr get_ipv6_addr now fixed "pool\<lparr>po_list := l\<rparr>"] h b(1) by auto
qed

lemma read_lines_append:
  "pool_read_lines g6 g4 now fixed (xs @ ys) st = Option.bind (pool_read_lines g6 g4 now fixed xs st) (pool_read_lines g6 g4 now fixed ys)"
proof (induction xs arbitrary: st)
  case (Cons x xs)
  then have "pool_read_lines g6 g4 now fixed (xs @ ys)
      = (\<lambda>st. Option.bind (pool_read_lines g6 g4 now fixed xs st) (pool_read_lines g6 g4 now fixed ys))" by (intro ext)
  then show ?case by (cases "pool_read_line g6 g4 now fixed x st") simp_all
qed simp

lemma read_slots_law:
  assumes "pool_wf pool" "texts_ok p4 p6 getaddr get_ipv6_addr pool" "\<forall>i \<in> set is. i < length (po_list pool)" "distinct is" "length l = length (po_list pool)"
    "list_all2 (\<lambda>txt b. buf_wf b \<and> buf_content b = txt @ [0]) (concat (map (pool_line p4 p6 pool) is)) ins"
    "length x = 128" "length y = 128" "length z = 128"
  shows "\<exists>l' st. pool_read_lines getaddr get_ipv6_addr now fixed ins (pool\<lparr>po_list := l\<rparr>, x, y, z) = Some (pool\<lparr>po_list := l'\<rparr>, st)
      \<and> length l' = length l \<and> (\<forall>i < length l. l' ! i = (if i \<in> set is then restored now fixed pool i (l ! i) else l ! i))"
  using assms(3-9)
proof (induction "is" arbitrary: l ins x y z)
  case Nil
  then show ?case by auto
next
  case (Cons i js)
  obtain i1 i2 where ins: "ins = i1 @ i2" "list_all2 (\<lambda>txt b. buf_wf b \<and> buf_content b = txt @ [0]) (pool_line p4 p6 pool i) i1"
    "list_all2 (\<lambda>txt b. buf_wf b \<and> buf_content b = txt @ [0]) (concat (map (pool_line p4 p6 pool) js)) i2"
    using Cons.prems(4) by (auto simp: list_all2_append1)
  have i: "i < length (po_list pool)" using Cons.prems(1) by simp
  obtain x' y' z' where r: "pool_read_lines getaddr get_ipv6_addr now fixed i1 (pool\<lparr>po_list := l\<rparr>, x, y, z)
      = Some (pool\<lparr>po_list := l[i := restored now fixed pool i (l ! i)]\<rparr>, x', y', z')" "length x' = 128" "length y' = 128" "length z' = 128"
    using read_slot_law [OF assms(1,2) i Cons.prems(3) ins(2) Cons.prems(5-7)] by blast
  have js: "\<forall>i \<in> set js. i < length (po_list pool)" "distinct js" "length (l[i := restored now fixed pool i (l ! i)]) = length (po_list pool)"
    using Cons.prems(1-3) by simp_all
  obtain l' st where r2: "pool_read_lines getaddr get_ipv6_addr now fixed i2 (pool\<lparr>po_list := l[i := restored now fixed pool i (l ! i)]\<rparr>, x', y', z')
      = Some (pool\<lparr>po_list := l'\<rparr>, st)" "length l' = length l"
    "\<forall>k < length l. l' ! k = (if k \<in> set js then restored now fixed pool k (l[i := restored now fixed pool i (l ! i)] ! k) else l[i := restored now fixed pool i (l ! i)] ! k)"
    using Cons.IH [OF js ins(3) r(2-4)] by auto
  have "\<forall>k < length l. l' ! k = (if k \<in> set (i # js) then restored now fixed pool k (l ! k) else l ! k)"
  proof (intro allI impI)
    fix k assume "k < length l"
    then show "l' ! k = (if k \<in> set (i # js) then restored now fixed pool k (l ! k) else l ! k)"
      using r2(3) Cons.prems(2) by (cases "k = i") simp_all
  qed
  moreover have "pool_read_lines getaddr get_ipv6_addr now fixed ins (pool\<lparr>po_list := l\<rparr>, x, y, z) = Some (pool\<lparr>po_list := l'\<rparr>, st)"
    using r(1) r2(1) ins(1) by (simp add: read_lines_append)
  ultimately show ?case using r2(2) by blast
qed

text \<open>
  C15: The file keeps the pool. Reading the lines that \<^const>\<open>ifconfig_pool_list\<close> writes into a new pool of the
  same configuration gives every slot its last client back, and all slots free. This holds under the
  conditions of \<^const>\<open>texts_ok\<close>: every name has fewer than 128 bytes, no comma and no zero byte, and
  does not begin with \<open>#\<close> or \<open>;\<close> (a name with a comma is read wrongly, as the next property shows); the
  addresses of an IPv6 pool differ in their last four bytes only, without a carry out of them; IPv4 or
  IPv6 is enabled; and the texts the libraries print for addresses are short, without a comma, and
  are parsed back to the address.
\<close>

theorem pool_file_roundtrip:
  assumes "pool_wf pool" "texts_ok print_in_addr_t print_in6_addr getaddr get_ipv6_addr pool"
    "list_all2 (\<lambda>txt b. buf_wf b \<and> buf_content b = txt @ [0]) (ifconfig_pool_list print_in_addr_t print_in6_addr pool) ins"
  shows "\<exists>pool'. ifconfig_pool_read getaddr get_ipv6_addr now fixed ins (pool\<lparr>po_list := replicate (nat (po_size pool)) entry_clear\<rparr>) = Some pool'
    \<and> pool' = pool\<lparr>po_list := map (\<lambda>e. case ipe_common_name e of None \<Rightarrow> entry_clear
        | Some cn \<Rightarrow> \<lparr>ipe_in_use = False, ipe_common_name = Some cn, ipe_last_release = now, ipe_fixed = fixed\<rparr>) (po_list pool)\<rparr>"
proof -
  let ?l = "replicate (nat (po_size pool)) entry_clear"
  have n: "nat (po_size pool) = length (po_list pool)" using assms(1) by (simp add: pool_wf_def)
  have c: "list_all2 (\<lambda>txt b. buf_wf b \<and> buf_content b = txt @ [0]) (concat (map (pool_line print_in_addr_t print_in6_addr pool) [0..<length (po_list pool)])) ins"
    using assms(3) unfolding ifconfig_pool_list_def n pool_line_def .
  have all: "\<forall>i \<in> set [0..<length (po_list pool)]. i < length (po_list pool)" "distinct [0..<length (po_list pool)]" "length ?l = length (po_list pool)"
    using n by simp_all
  obtain l' st where r: "pool_read_lines getaddr get_ipv6_addr now fixed ins (pool\<lparr>po_list := ?l\<rparr>, replicate 128 0, replicate 128 0, replicate 128 0)
      = Some (pool\<lparr>po_list := l'\<rparr>, st)" "length l' = length ?l"
    "\<forall>i < length ?l. l' ! i = (if i \<in> set [0..<length (po_list pool)] then restored now fixed pool i (?l ! i) else ?l ! i)"
    using read_slots_law [OF assms(1,2) all c, of "replicate 128 0" "replicate 128 0" "replicate 128 0" now fixed] by auto
  have "l' = map (\<lambda>e. case ipe_common_name e of None \<Rightarrow> entry_clear
        | Some cn \<Rightarrow> \<lparr>ipe_in_use = False, ipe_common_name = Some cn, ipe_last_release = now, ipe_fixed = fixed\<rparr>) (po_list pool)"
    using r(2,3) n by (intro nth_equalityI) (simp_all add: restored_def)
  then show ?thesis using r(1) by (simp add: ifconfig_pool_read_def)
qed


text \<open>
  C14: The choice of an address. With one address per client name, a client gets the first free slot
  that was last its own; otherwise the free slot that was released longest ago and is not reserved,
  the first of equal ones; with \<open>--duplicate-cn\<close> the first free slot. There is no answer only when there is
  no such slot.
\<close>

theorem ifconfig_pool_find_choice:
  assumes "po_size pool = int (length (po_list pool))"
  shows "ifconfig_pool_find pool cn = pool_choice pool cn"
  using assms by (rule pool_find_choice)

subsection \<open>Examples\<close>

definition demo_slot :: "bool \<Rightarrow> bytes option \<Rightarrow> int \<Rightarrow> bool \<Rightarrow> ifconfig_pool_entry" where
  "demo_slot used cn rel fixed = \<lparr>ipe_in_use = used, ipe_common_name = cn, ipe_last_release = rel, ipe_fixed = fixed\<rparr>"

definition demo_pool :: "ifconfig_pool_entry list \<Rightarrow> ifconfig_pool" where
  "demo_pool es = \<lparr>po_duplicate_cn = False, po_ipv4_enabled = True, po_ipv4_type = IFCONFIG_POOL_INDIV, po_ipv4_base = 0x0A080002,
     po_ipv6_enabled = False, po_ipv6_base = replicate 16 0, po_size = int (length es), po_list = es\<rparr>"

text \<open>Every byte as two characters.\<close>

fun demo_text :: "bytes \<Rightarrow> bytes" where
  "demo_text [] = []"
| "demo_text (b # bs) = (64 + b div 16) # (64 + b mod 16) # demo_text bs"

fun demo_untext :: "bytes \<Rightarrow> bytes" where
  "demo_untext (x # y # bs) = ((x - 64) * 16 + (y - 64)) # demo_untext bs"
| "demo_untext _ = []"

lemma demo_text_inverse [simp]: "demo_untext (demo_text bs) = bs"
  by (induction bs) (simp_all add: div_mult_mod_eq)

lemma demo_text_law: "length (demo_text bs) = 2 * length bs \<and> (\<forall>c \<in> set (demo_text bs). c \<noteq> 0 \<and> c \<noteq> 44)"
proof (induction bs)
  case (Cons b bs)
  have n: "64 + x \<noteq> 0 \<and> 64 + x \<noteq> (44 :: u8)" if "uint x < 16" for x :: u8
  proof -
    have "uint (64 + x) = 64 + uint x" using that by (subst uint_word_ariths(1)) simp
    moreover have "64 + uint x \<noteq> 0" "64 + uint x \<noteq> 44" using uint_ge_0 [of x] by linarith+
    ultimately show ?thesis by (auto simp: word_uint_eq_iff simp del: add_eq_0_iff)
  qed
  have "uint (b div 16) < 16" "uint (b mod 16) < 16" using uint_lt2p [of b] by (simp_all add: uint_div_distrib uint_mod_distrib)
  then show ?case using Cons n by auto
qed simp

theorem pool_leases_disjoint_witness:
  "\<exists>pool pool' leases. ifconfig_pool_init True IFCONFIG_POOL_INDIV 0x0A080002 0x0A080005 False False (replicate 16 0) 64 = Some pool
    \<and> pool_run (pool, Map.empty) [(1, Connect 1 (Some [65])), (2, Connect 2 None), (3, Disconnect 1 False)] = Some (pool', leases)"
proof -
  have "\<exists>pool. ifconfig_pool_init True IFCONFIG_POOL_INDIV 0x0A080002 0x0A080005 False False (replicate 16 0) 64 = Some pool"
    by (simp add: ifconfig_pool_init_def pool_ipv4_init_def IFCONFIG_POOL_MAX_def)
  then obtain pool where p: "ifconfig_pool_init True IFCONFIG_POOL_INDIV 0x0A080002 0x0A080005 False False (replicate 16 0) 64 = Some pool" by blast
  from pool_leases_disjoint [OF p, of "[(1, Connect 1 (Some [65])), (2, Connect 2 None), (3, Disconnect 1 False)]"] p show ?thesis by auto
qed

theorem ifconfig_pool_find_choice_witness:
  "ifconfig_pool_find (demo_pool [demo_slot True (Some [65]) 0 False, demo_slot False (Some [66]) 5 False, demo_slot False None 3 False]) (Some [66]) = 1"
  by (subst ifconfig_pool_find_choice) (simp_all add: demo_pool_def demo_slot_def pool_choice_def)

theorem pool_comma_name_misread_witness:
  "\<exists>line. \<forall>inb. buf_wf inb \<and> buf_content inb = line @ [0] \<longrightarrow>
    ifconfig_pool_read (\<lambda>s. if s = [49] then Some 0x0A080002 else None) (\<lambda>s. None) 9 False [inb]
        (demo_pool [demo_slot False None 0 False, demo_slot False (Some [98, 44, 49]) 0 False])
      = Some (demo_pool [demo_slot False (Some [98]) 9 False, demo_slot False (Some [98, 44, 49]) 0 False])"
proof -
  let ?p = "demo_pool [demo_slot False None 0 False, demo_slot False (Some [98, 44, 49]) 0 False]"
  have s: "ifconfig_pool_set 9 ?p [98] 0 False = demo_pool [demo_slot False (Some [98]) 9 False, demo_slot False (Some [98, 44, 49]) 0 False]"
    by (simp add: ifconfig_pool_set_def demo_pool_def demo_slot_def ifconfig_pool_entry_free_def)
  have h: "ifconfig_pool_ip_base_to_handle ?p 0x0A080002 = 0" by (simp add: ifconfig_pool_ip_base_to_handle_def demo_pool_def)
  show ?thesis
    using pool_comma_name_misread [of ?p 1 "[98]" "[49]" "\<lambda>s. if s = [49] then Some 0x0A080002 else None" "0x0A080002" "\<lambda>s. None" "\<lambda>a. [50]" "\<lambda>a. []" 9 False]
    unfolding h s by (auto simp: demo_pool_def demo_slot_def)
qed

theorem pool_reserved_slot_lost_witness:
  "ifconfig_pool_find (demo_pool [demo_slot True (Some [65]) 0 False, ifconfig_pool_entry_free 7 (demo_slot True (Some [66]) 0 True) True]) (Some [66]) \<noteq> 1"
  using pool_reserved_slot_lost [of "demo_pool [demo_slot True (Some [65]) 0 False, demo_slot True (Some [66]) 0 True]" 1 7
      "demo_pool [demo_slot True (Some [65]) 0 False, ifconfig_pool_entry_free 7 (demo_slot True (Some [66]) 0 True) True]" True "Some [66]"]
  by (simp add: demo_pool_def demo_slot_def pool_wf_def ifconfig_pool_release_def)

theorem pool_file_roundtrip_witness:
  "\<exists>inb. ifconfig_pool_read (\<lambda>s. Some (be32_of (demo_untext s))) (\<lambda>s. Some (demo_untext s)) 9 True [inb]
      (demo_pool [demo_slot False None 0 False, demo_slot False None 0 False])
    = Some (demo_pool [demo_slot False (Some [65]) 9 True, demo_slot False None 0 False])"
proof -
  let ?p = "demo_pool [demo_slot True (Some [65]) 0 False, demo_slot True None 0 False]"
  let ?p4 = "\<lambda>a. demo_text (be32_bytes a)"
  define line where "line = [65] @ [44] @ ?p4 0x0A080002 @ [44]"
  define inb where "inb = \<lparr>b_capacity = int (length line + 1), b_offset = 0, b_len = int (length line + 1), b_data = Some (line @ [0])\<rparr>"
  have len: "length line = 11" using demo_text_law [of "be32_bytes 0x0A080002"] by (simp add: line_def)
  have inb: "buf_wf inb" "buf_content inb = line @ [0]"
    using len by (simp_all add: inb_def buf_wf_def BUF_SIZE_MAX_def buf_content_def buf_valid_def buf_peek_def segment_def)
  have w: "pool_wf ?p" by (simp add: pool_wf_def demo_pool_def)
  have t: "demo_text bs = [] \<longleftrightarrow> bs = []" for bs by (cases bs) simp_all
  have "texts_ok ?p4 demo_text (\<lambda>s. Some (be32_of (demo_untext s))) (\<lambda>s. Some (demo_untext s)) ?p"
    using demo_text_law t by (auto simp: texts_ok_def demo_pool_def demo_slot_def be32_bytes_def [THEN arg_cong [where f = "\<lambda>x. x = []"]])
  moreover have l: "ifconfig_pool_list ?p4 demo_text ?p = [line]"
    by (simp add: ifconfig_pool_list_def demo_pool_def demo_slot_def line_def ifconfig_pool_handle_to_ip_base_def upt_rec)
  have "list_all2 (\<lambda>txt b. buf_wf b \<and> buf_content b = txt @ [0]) (ifconfig_pool_list ?p4 demo_text ?p) [inb]"
    unfolding l using inb by simp
  ultimately have "\<exists>pool'. ifconfig_pool_read (\<lambda>s. Some (be32_of (demo_untext s))) (\<lambda>s. Some (demo_untext s)) 9 True [inb]
      (?p\<lparr>po_list := replicate (nat (po_size ?p)) entry_clear\<rparr>) = Some pool'
    \<and> pool' = ?p\<lparr>po_list := map (\<lambda>e. case ipe_common_name e of None \<Rightarrow> entry_clear
        | Some cn \<Rightarrow> \<lparr>ipe_in_use = False, ipe_common_name = Some cn, ipe_last_release = 9, ipe_fixed = True\<rparr>) (po_list ?p)\<rparr>"
    by (rule pool_file_roundtrip [OF w])
  moreover have "?p\<lparr>po_list := replicate (nat (po_size ?p)) entry_clear\<rparr> = demo_pool [demo_slot False None 0 False, demo_slot False None 0 False]"
    by (simp add: demo_pool_def demo_slot_def entry_clear_def eval_nat_numeral)
  moreover have "?p\<lparr>po_list := map (\<lambda>e. case ipe_common_name e of None \<Rightarrow> entry_clear
        | Some cn \<Rightarrow> \<lparr>ipe_in_use = False, ipe_common_name = Some cn, ipe_last_release = 9, ipe_fixed = True\<rparr>) (po_list ?p)\<rparr>
      = demo_pool [demo_slot False (Some [65]) 9 True, demo_slot False None 0 False]"
    by (simp add: demo_pool_def demo_slot_def entry_clear_def)
  ultimately show ?thesis by metis
qed

end
