(* ===== verification/Clinat.thy ===== *)
theory Clinat
  imports Mss
begin

text \<open>
  Translation of the addresses of clients (src/openvpn/clinat.c, clinat.h, and the checksum macros of
  proto.h): rules \<open>--client-nat\<close> map a network one to one to another one, in the IPv4 packets that
  leave and enter the tunnel, and keep the checksums of the headers right.

  An address in network order is a 32-bit word as the host reads it from memory; \<open>le\<close> says whether the
  host is little-endian. The parsing of addresses (\<open>getaddr\<close>) is an argument.
\<close>

subsection \<open>Rules\<close>

definition CN_OUTGOING :: nat where "CN_OUTGOING = 0"
definition CN_INCOMING :: nat where "CN_INCOMING = 1"
definition CN_SNAT :: nat where "CN_SNAT = 0"
definition CN_DNAT :: nat where "CN_DNAT = 1"
definition MAX_CLIENT_NAT :: nat where "MAX_CLIENT_NAT = 64"

record client_nat_entry =
  cn_type :: nat
  cn_network :: u32
  cn_netmask :: u32
  cn_foreign_network :: u32

type_synonym client_nat_option_list = "client_nat_entry list"

definition add_entry :: "client_nat_option_list \<Rightarrow> client_nat_entry \<Rightarrow> client_nat_option_list \<times> bool" where
  "add_entry dest e = (if length dest \<ge> MAX_CLIENT_NAT then (dest, False) else (dest @ [e], True))"

definition new_client_nat_list :: client_nat_option_list where
  "new_client_nat_list = []"

definition clone_client_nat_option_list :: "client_nat_option_list \<Rightarrow> client_nat_option_list" where
  "clone_client_nat_option_list src = src"

fun copy_client_nat_option_list :: "client_nat_option_list \<Rightarrow> client_nat_option_list \<Rightarrow> client_nat_option_list" where
  "copy_client_nat_option_list dest [] = dest"
| "copy_client_nat_option_list dest (e # src) =
     (let (dest, ok) = add_entry dest e in if \<not> ok then dest else copy_client_nat_option_list dest src)"

definition add_client_nat_to_option_list ::
    "(string \<Rightarrow> u32 option) \<Rightarrow> client_nat_option_list \<Rightarrow> string \<Rightarrow> string \<Rightarrow> string \<Rightarrow> string \<Rightarrow> client_nat_option_list" where
  "add_client_nat_to_option_list getaddr dest type network netmask foreign_network =
     (if type \<noteq> ''snat'' \<and> type \<noteq> ''dnat'' then dest
      else (case getaddr network of
         None \<Rightarrow> dest
       | Some n \<Rightarrow> (case getaddr netmask of
            None \<Rightarrow> dest
          | Some m \<Rightarrow> (case getaddr foreign_network of
               None \<Rightarrow> dest
             | Some f \<Rightarrow> fst (add_entry dest \<lparr>cn_type = (if type = ''snat'' then CN_SNAT else CN_DNAT),
                 cn_network = n, cn_netmask = m, cn_foreign_network = f\<rparr>)))))"

subsection \<open>The packet\<close>

definition native32 :: "bool \<Rightarrow> bytes \<Rightarrow> u32" where
  "native32 le bs = be32_of (if le then rev bs else bs)"

definition native32_bytes :: "bool \<Rightarrow> u32 \<Rightarrow> bytes" where
  "native32_bytes le w = (if le then rev (be32_bytes w) else be32_bytes w)"

definition ADD_CHECKSUM_32 :: "int \<Rightarrow> u32 \<Rightarrow> int" where
  "ADD_CHECKSUM_32 acc u = acc + uint (u AND 0xffff) + uint (drop_bit 16 u)"

definition SUB_CHECKSUM_32 :: "int \<Rightarrow> u32 \<Rightarrow> int" where
  "SUB_CHECKSUM_32 acc u = acc - uint (u AND 0xffff) - uint (drop_bit 16 u)"

text \<open>\<open>ADJUST_CHECKSUM\<close> on the field at \<open>i\<close>.\<close>

definition adjust_field :: "bool \<Rightarrow> int \<Rightarrow> nat \<Rightarrow> bytes \<Rightarrow> bytes" where
  "adjust_field le accumulate i d =
     patch d i (native16_bytes le (ADJUST_CHECKSUM accumulate (word_of_int (native16 le (d ! i) (d ! Suc i)))))"

text \<open>One rule: the packet, the checksum difference and the addresses changed so far (\<open>alog\<close>).\<close>

definition nat_rule :: "bool \<Rightarrow> nat \<Rightarrow> client_nat_entry \<Rightarrow> bytes \<times> int \<times> u32 \<Rightarrow> bytes \<times> int \<times> u32" where
  "nat_rule le direction e st =
     (case st of (d, accumulate, alog) \<Rightarrow>
        let (addr_ptr, amask) = (if cn_type e XOR direction \<noteq> 0 then (16, 2) else (12, 1));
            addr = native32 le (segment addr_ptr 4 d);
            (from_net, to_net) = (if direction \<noteq> 0 then (cn_foreign_network e, cn_network e) else (cn_network e, cn_foreign_network e))
        in if addr AND cn_netmask e = from_net \<and> amask AND alog = 0
           then (let accumulate = ADD_CHECKSUM_32 accumulate addr;
                     addr = (addr AND NOT (cn_netmask e)) OR to_net;
                     accumulate = SUB_CHECKSUM_32 accumulate addr
                 in (patch d addr_ptr (native32_bytes le addr), accumulate, alog OR amask))
           else st)"

definition client_nat_transform :: "bool \<Rightarrow> client_nat_option_list \<Rightarrow> bytes \<Rightarrow> nat \<Rightarrow> bytes" where
  "client_nat_transform le nats d direction =
     (let (d, accumulate, alog) = fold (nat_rule le direction) nats (d, 0, 0)
      in if alog \<noteq> 0
         then (let d = adjust_field le accumulate 10 d
               in if d ! 9 = 6 then (if length d \<ge> 20 + 20 then adjust_field le accumulate 36 d else d)
                  else if d ! 9 = 17 then (if length d \<ge> 20 + 8 then adjust_field le accumulate 26 d else d)
                  else d)
         else d)"

subsection \<open>Words of the packet\<close>

lemma length_native32_bytes [simp]: "length (native32_bytes le w) = 4"
  by (simp add: native32_bytes_def)

lemma native32_inverse [simp]: "native32 le (native32_bytes le w) = w"
  by (simp add: native32_def native32_bytes_def)

lemma be32_halves:
  "uint (be32_of [a, b, c, d] AND 0xffff) = 256 * uint c + uint d" "uint (drop_bit 16 (be32_of [a, b, c, d])) = 256 * uint a + uint b"
proof -
  define w where "w = be32_of [a, b, c, d]"
  have "be32_bytes w = [a, b, c, d]" using be32_bytes_of [of "[a, b, c, d]"] by (simp add: w_def)
  then have e: "ucast (drop_bit 24 w) = a" "ucast (drop_bit 16 w) = b" "ucast (drop_bit 8 w) = c" "ucast w = d" by (simp_all add: be32_bytes_def)
  define x where "x = uint w"
  have x: "0 \<le> x" "x < 2 ^ 32" using uint_lt2p [of w] by (simp_all add: x_def)
  have dr: "uint (drop_bit k w) = x div 2 ^ k" for k
  proof -
    have "uint (drop_bit k w) = drop_bit k (take_bit LENGTH(32) (uint w))" by (rule unsigned_drop_bit_eq)
    also have "\<dots> = x div 2 ^ k" using x by (simp add: x_def drop_bit_eq_div take_bit_int_eq_self)
    finally show ?thesis .
  qed
  have u: "uint (ucast v :: u8) = uint v mod 256" for v :: u32
  proof -
    have "uint (ucast v :: u8) = take_bit LENGTH(8) (uint v)" by (rule unsigned_ucast_eq)
    then show ?thesis by (simp add: take_bit_eq_mod)
  qed
  have b: "uint a = x div 2 ^ 24 mod 256" "uint b = x div 2 ^ 16 mod 256" "uint c = x div 2 ^ 8 mod 256" "uint d = x mod 256"
    using u [of "drop_bit 24 w"] u [of "drop_bit 16 w"] u [of "drop_bit 8 w"] u [of w] unfolding e dr x_def by blast+
  have "w AND 0xffff = take_bit 16 w" by (simp add: take_bit_eq_mask mask_eq_exp_minus_1)
  moreover have "uint (take_bit 16 w) = take_bit 16 (uint w)" by (rule unsigned_take_bit_eq)
  ultimately have m: "uint (w AND 0xffff) = x mod 65536" by (simp only: take_bit_eq_mod x_def) simp
  have "x mod 65536 = 256 * (x div 256 mod 256) + x mod 256" using zmod_zmult2_eq [of 256 x 256] by simp
  then show "uint (be32_of [a, b, c, d] AND 0xffff) = 256 * uint c + uint d"
    unfolding w_def [symmetric] m b by simp
  have "x div 2 ^ 16 div 256 < 256" "0 \<le> x div 2 ^ 16 div 256" using x by (simp_all add: zdiv_zmult2_eq [symmetric] pos_imp_zdiv_nonneg_iff)
  then have "x div 2 ^ 16 div 256 mod 256 = x div 2 ^ 16 div 256" by simp
  moreover have "x div 2 ^ 24 = x div 2 ^ 16 div 256" by (simp add: zdiv_zmult2_eq [symmetric])
  ultimately have h: "256 * (x div 2 ^ 24 mod 256) + x div 2 ^ 16 mod 256 = x div 2 ^ 16" by simp
  show "uint (drop_bit 16 (be32_of [a, b, c, d])) = 256 * uint a + uint b"
    unfolding w_def [symmetric] dr b by (rule h [symmetric])
qed

definition addr_sum :: "bool \<Rightarrow> bytes \<Rightarrow> int" where
  "addr_sum le bs = native16 le (bs ! 0) (bs ! 1) + native16 le (bs ! 2) (bs ! 3)"

lemma checksum_32:
  assumes "length bs = 4"
  shows "uint (native32 le bs AND 0xffff) + uint (drop_bit 16 (native32 le bs)) = addr_sum le bs"
proof -
  obtain a b c d where bs: "bs = [a, b, c, d]" using assms by (auto simp: numeral_eq_Suc length_Suc_conv)
  show ?thesis by (simp add: bs native32_def be32_halves addr_sum_def native16_def)
qed


subsection \<open>What the rules do\<close>

text \<open>The rule that applies to a source address (or a destination, \<open>is_dst\<close>), and the translated address.\<close>

definition nat_from :: "nat \<Rightarrow> client_nat_entry \<Rightarrow> u32" where
  "nat_from direction e = (if direction \<noteq> 0 then cn_foreign_network e else cn_network e)"

definition nat_to :: "nat \<Rightarrow> client_nat_entry \<Rightarrow> u32" where
  "nat_to direction e = (if direction \<noteq> 0 then cn_network e else cn_foreign_network e)"

definition nat_applies :: "nat \<Rightarrow> bool \<Rightarrow> u32 \<Rightarrow> client_nat_entry \<Rightarrow> bool" where
  "nat_applies direction is_dst a e \<longleftrightarrow> (cn_type e XOR direction \<noteq> 0) = is_dst \<and> a AND cn_netmask e = nat_from direction e"

definition nat_target :: "nat \<Rightarrow> bool \<Rightarrow> client_nat_option_list \<Rightarrow> u32 \<Rightarrow> u32" where
  "nat_target direction is_dst nats a = (case find (nat_applies direction is_dst a) nats of
     None \<Rightarrow> a | Some e \<Rightarrow> (a AND NOT (cn_netmask e)) OR nat_to direction e)"

definition src_addr :: "bool \<Rightarrow> bytes \<Rightarrow> u32" where "src_addr le d = native32 le (segment 12 4 d)"
definition dst_addr :: "bool \<Rightarrow> bytes \<Rightarrow> u32" where "dst_addr le d = native32 le (segment 16 4 d)"

definition both_sum :: "bool \<Rightarrow> bytes \<Rightarrow> int" where
  "both_sum le d = addr_sum le (segment 12 4 d) + addr_sum le (segment 16 4 d)"

lemma nat_rule_eq:
  assumes "20 \<le> length d"
  shows "nat_rule le direction e (d, acc, alog) =
    (let is_dst = cn_type e XOR direction \<noteq> 0; p = (if is_dst then 16 else 12); m = (if is_dst then 2 else 1); old = segment p 4 d;
         new = native32_bytes le ((native32 le old AND NOT (cn_netmask e)) OR nat_to direction e)
     in if nat_applies direction is_dst (native32 le old) e \<and> m AND alog = 0
        then (patch d p new, acc + addr_sum le old - addr_sum le new, alog OR m) else (d, acc, alog))"
proof -
  have l: "length (segment p 4 d) = 4" if "p \<in> {12, 16}" for p using that assms by auto
  have c: "uint (native32 le bs AND 0xffff) + uint (drop_bit 16 (native32 le bs)) = addr_sum le bs" if "length bs = 4" for bs
    using checksum_32 [OF that] .
  have a: "ADD_CHECKSUM_32 acc (native32 le (segment p 4 d)) = acc + addr_sum le (segment p 4 d)" if "p \<in> {12, 16}" for p
    using c [OF l [OF that]] by (simp add: ADD_CHECKSUM_32_def)
  have s: "SUB_CHECKSUM_32 x w = x - addr_sum le (native32_bytes le w)" for x w
    using c [of "native32_bytes le w"] by (simp add: SUB_CHECKSUM_32_def)
  show ?thesis
    by (simp add: nat_rule_def Let_def nat_applies_def nat_from_def nat_to_def a s)
qed

text \<open>A change of one address.\<close>

lemma patch_addr:
  assumes "20 \<le> length d" "p = 12 \<or> p = 16" "length bs = 4"
  shows "length (patch d p bs) = length d" "segment p 4 (patch d p bs) = bs" "segment (28 - p) 4 (patch d p bs) = segment (28 - p) 4 d"
    "\<And>i. i \<notin> {12..<20} \<Longrightarrow> patch d p bs ! i = d ! i"
proof -
  show l: "length (patch d p bs) = length d" using assms by auto
  show "segment p 4 (patch d p bs) = bs" using assms segment_patch_same [of p bs d] by auto
  show "segment (28 - p) 4 (patch d p bs) = segment (28 - p) 4 d"
    using assms segment_patch_left [of 12 4 16 bs d] segment_patch_right [of 12 bs 16 d 4] by auto
  show "patch d p bs ! i = d ! i" if "i \<notin> {12..<20}" for i
    using that assms by (auto simp: patch_def nth_append min_def)
qed

lemma addr_sum_range: "0 \<le> addr_sum le bs" "addr_sum le bs \<le> 131070"
  using native16_range [of le "bs ! 0" "bs ! 1"] native16_range [of le "bs ! 2" "bs ! 3"] by (simp_all add: addr_sum_def)

text \<open>The loop over the rules.\<close>

lemma nat_fold_mono:
  "fold (nat_rule le direction) ns (d, acc, alog) = (d', acc', 0) \<Longrightarrow> alog = 0"
proof (induction ns arbitrary: d acc alog)
  case (Cons n ns)
  obtain x y z where n: "nat_rule le direction n (d, acc, alog) = (x, y, z)" by (cases "nat_rule le direction n (d, acc, alog)")
  then have "z = 0" using Cons by simp
  then show ?case using n by (auto simp: nat_rule_def Let_def or_eq_0_iff split: if_splits)
qed simp

lemma nat_target_Cons:
  "nat_target direction b (e # nats) a = (if nat_applies direction b a e then (a AND NOT (cn_netmask e)) OR nat_to direction e
     else nat_target direction b nats a)"
  by (simp add: nat_target_def)

lemma nat_target_Nil [simp]: "nat_target direction b [] a = a"
  by (simp add: nat_target_def)

lemma nat_fold_law:
  assumes "20 \<le> length d" "alog \<in> {0, 1, 2, 3}" "fold (nat_rule le direction) nats (d, acc, alog) = (d', acc', alog')"
  shows "length d' = length d \<and> (\<forall>i. i \<notin> {12..<20} \<longrightarrow> d' ! i = d ! i) \<and> acc' + both_sum le d' = acc + both_sum le d
    \<and> (alog' = 0 \<longrightarrow> d' = d)
    \<and> src_addr le d' = (if 1 AND alog \<noteq> 0 then src_addr le d else nat_target direction False nats (src_addr le d))
    \<and> dst_addr le d' = (if 2 AND alog \<noteq> 0 then dst_addr le d else nat_target direction True nats (dst_addr le d))"
  using assms
proof (induction nats arbitrary: d acc alog)
  case Nil
  then show ?case by auto
next
  case (Cons e nats)
  define dst where "dst = (cn_type e XOR direction \<noteq> 0)"
  define p m where "p = (if dst then 16 else 12 :: nat)" and "m = (if dst then 2 else 1 :: u32)"
  define old where "old = segment p 4 d"
  define new where "new = native32_bytes le ((native32 le old AND NOT (cn_netmask e)) OR nat_to direction e)"
  define go where "go = (nat_applies direction dst (native32 le old) e \<and> m AND alog = 0)"
  have r: "nat_rule le direction e (d, acc, alog)
      = (if go then (patch d p new, acc + addr_sum le old - addr_sum le new, alog OR m) else (d, acc, alog))"
    unfolding nat_rule_eq [OF Cons.prems(1)] Let_def go_def p_def m_def old_def new_def dst_def by (rule refl)
  have other: "\<not> nat_applies direction (\<not> dst) a e" for a unfolding nat_applies_def dst_def by blast
  show ?case
  proof (cases go)
    case False
    then have f: "fold (nat_rule le direction) nats (d, acc, alog) = (d', acc', alog')" using Cons.prems(3) r by simp
    have "m AND alog \<noteq> 0 \<or> \<not> nat_applies direction dst (native32 le old) e" using False unfolding go_def by blast
    then have "(dst \<longrightarrow> 2 AND alog \<noteq> 0 \<or> \<not> nat_applies direction True (dst_addr le d) e) \<and>
      (\<not> dst \<longrightarrow> 1 AND alog \<noteq> 0 \<or> \<not> nat_applies direction False (src_addr le d) e)"
      by (cases dst) (simp_all add: m_def p_def old_def dst_addr_def src_addr_def)
    then show ?thesis
      using Cons.IH [OF Cons.prems(1,2) f] other unfolding nat_target_Cons by (cases dst) simp_all
  next
    case True
    have pp: "p = 12 \<or> p = 16" "length new = 4" by (simp_all add: p_def new_def)
    note pa = patch_addr [OF Cons.prems(1) pp]
    have f: "fold (nat_rule le direction) nats (patch d p new, acc + addr_sum le old - addr_sum le new, alog OR m) = (d', acc', alog')"
      using Cons.prems(3) r True by simp
    have al: "alog OR m \<in> {0, 1, 2, 3}" using Cons.prems(2) by (auto simp: m_def)
    have both: "both_sum le (patch d p new) = both_sum le d - addr_sum le old + addr_sum le new"
      using pa(2,3) pp(1) by (auto simp: both_sum_def old_def)
    have l: "20 \<le> length (patch d p new)" using pa(1) Cons.prems(1) by simp
    note IH = Cons.IH [OF l al f]
    have keep: "alog' \<noteq> 0"
    proof
      assume "alog' = 0"
      then have "alog OR m = 0" using nat_fold_mono f by blast
      then show False using Cons.prems(2) by (auto simp: m_def split: if_splits)
    qed
    show ?thesis
    proof (cases dst)
      case dst: True
      have q: "dst_addr le (patch d p new) = (dst_addr le d AND NOT (cn_netmask e)) OR nat_to direction e"
        "src_addr le (patch d p new) = src_addr le d" "nat_applies direction True (dst_addr le d) e" "2 AND alog = 0" "2 AND (alog OR 2) \<noteq> 0"
        "1 AND (alog OR 2) = 1 AND alog" "\<not> nat_applies direction False (src_addr le d) e"
        using dst pa(2,3) True Cons.prems(2) other by (auto simp: p_def m_def dst_addr_def src_addr_def old_def new_def go_def)
      show ?thesis using IH pa(1,4) both keep q dst unfolding nat_target_Cons m_def by simp
    next
      case src: False
      have q: "src_addr le (patch d p new) = (src_addr le d AND NOT (cn_netmask e)) OR nat_to direction e"
        "dst_addr le (patch d p new) = dst_addr le d" "nat_applies direction False (src_addr le d) e" "1 AND alog = 0" "1 AND (alog OR 1) \<noteq> 0"
        "2 AND (alog OR 1) = 2 AND alog" "\<not> nat_applies direction True (dst_addr le d) e"
        using src pa(2,3) True Cons.prems(2) other by (auto simp: p_def m_def dst_addr_def src_addr_def old_def new_def go_def)
      show ?thesis using IH pa(1,4) both keep q src unfolding nat_target_Cons m_def by simp
    qed
  qed
qed

subsection \<open>The checksums\<close>

lemma tcp_sum_append: "even (length xs) \<Longrightarrow> tcp_sum le (xs @ ys) = tcp_sum le xs + tcp_sum le ys"
  by (induction le xs rule: tcp_sum.induct) auto

lemma both_sum_tcp_sum:
  assumes "20 \<le> length d"
  shows "tcp_sum le (take 20 d) = tcp_sum le (take 12 d) + both_sum le d"
proof -
  have "take 20 d = take 12 d @ segment 12 8 d" using segment_append [of 0 12 d 8] by (simp add: segment_def)
  moreover have "tcp_sum le (segment 12 8 d) = both_sum le d"
  proof -
    have "length (segment 12 4 d) = 4" "length (segment 16 4 d) = 4" using assms by simp_all
    moreover have "length bs = 4 \<Longrightarrow> tcp_sum le bs = addr_sum le bs" for bs
      by (auto simp: addr_sum_def numeral_eq_Suc length_Suc_conv)
    moreover have "segment 12 8 d = segment 12 4 d @ segment 16 4 d" using segment_append [of 12 4 d 4] by simp
    ultimately show ?thesis by (simp add: tcp_sum_append both_sum_def)
  qed
  ultimately show ?thesis using assms by (simp add: tcp_sum_append)
qed

lemma adjust_field_list:
  fixes le :: bool and acc :: int
  assumes "Suc i < length d"
  defines "w \<equiv> ADJUST_CHECKSUM acc (word_of_int (native16 le (d ! i) (d ! Suc i)))"
  shows "adjust_field le acc i d = d[i := native16_bytes le w ! 0, Suc i := native16_bytes le w ! 1]"
  unfolding adjust_field_def w_def [symmetric]
  using patch_word [OF assms(1), of "native16_bytes le w ! 0" "native16_bytes le w ! 1"] native16_bytes_list [of le w] by simp

lemma length_adjust_field [simp]: "Suc i < length d \<Longrightarrow> length (adjust_field le acc i d) = length d"
  by (simp add: adjust_field_list)

lemma adjust_field_nth: "Suc i < length d \<Longrightarrow> j \<noteq> i \<Longrightarrow> j \<noteq> Suc i \<Longrightarrow> adjust_field le acc i d ! j = d ! j"
  by (simp add: adjust_field_list)

lemma adjust_field_drop:
  assumes "Suc i < length d" "n \<le> i"
  shows "drop n (adjust_field le acc i d) = adjust_field le acc (i - n) (drop n d)"
  using assms by (simp add: adjust_field_list drop_update_swap Suc_diff_le)

lemma adjust_field_take:
  assumes "Suc i < n" "n \<le> length d"
  shows "take n (adjust_field le acc i d) = adjust_field le acc i (take n d)"
  using assms by (simp add: adjust_field_list take_update_swap)

lemma adjust_field_value:
  assumes "Suc i < length d" "\<bar>acc\<bar> \<le> 262140"
  shows "native16 le (adjust_field le acc i d ! i) (adjust_field le acc i d ! Suc i) mod 65535
    = (acc + native16 le (d ! i) (d ! Suc i)) mod 65535"
proof -
  define w where "w = ADJUST_CHECKSUM acc (word_of_int (native16 le (d ! i) (d ! Suc i)))"
  have "\<bar>acc + native16 le (d ! i) (d ! Suc i)\<bar> < 2 ^ 31"
    using assms(2) native16_range [of le "d ! i" "d ! Suc i"] by simp
  then have "uint w mod 65535 = (acc + native16 le (d ! i) (d ! Suc i)) mod 65535"
    using adjust_checksum_law [of acc "word_of_int (native16 le (d ! i) (d ! Suc i))"] by (simp add: w_def uint_native16)
  then show ?thesis
    using assms(1) native16_bytes_value [of le w] by (simp add: adjust_field_list w_def [symmetric])
qed

lemma adjust_field_sum:
  assumes "Suc i < length d" "even i" "\<bar>acc\<bar> \<le> 262140"
  shows "tcp_sum le (adjust_field le acc i d) mod 65535 = (tcp_sum le d + acc) mod 65535"
proof -
  obtain k where k: "i = 2 * k" using assms(2) by (rule evenE)
  define e where "e = adjust_field le acc i d"
  have S: "tcp_sum le e = tcp_sum le d - native16 le (d ! i) (d ! Suc i) + native16 le (e ! i) (e ! Suc i)"
    using assms(1) tcp_sum_word [of k d le] unfolding k by (simp add: e_def adjust_field_list k)
  have "native16 le (e ! i) (e ! Suc i) mod 65535 = (acc + native16 le (d ! i) (d ! Suc i)) mod 65535"
    unfolding e_def by (rule adjust_field_value [OF assms(1,3)])
  then have M: "(tcp_sum le d - native16 le (d ! i) (d ! Suc i) + native16 le (e ! i) (e ! Suc i)) mod 65535
      = (tcp_sum le d - native16 le (d ! i) (d ! Suc i) + (acc + native16 le (d ! i) (d ! Suc i))) mod 65535"
    by (rule mod_add_cong [OF refl])
  have "tcp_sum le d - native16 le (d ! i) (d ! Suc i) + (acc + native16 le (d ! i) (d ! Suc i)) = tcp_sum le d + acc" by simp
  with M show ?thesis unfolding e_def [symmetric] S by (simp only:)
qed

text \<open>Where the checksum of the transport header is, if it is in the packet.\<close>

definition transport_check :: "bytes \<Rightarrow> nat option" where
  "transport_check d = (if d ! 9 = 6 \<and> 40 \<le> length d then Some 36 else if d ! 9 = 17 \<and> 28 \<le> length d then Some 26 else None)"

lemma both_sum_range: "0 \<le> both_sum le d" "both_sum le d \<le> 262140"
  using addr_sum_range [of le "segment 12 4 d"] addr_sum_range [of le "segment 16 4 d"] by (simp_all add: both_sum_def)

lemma client_nat_transform_law:
  assumes "20 \<le> length d"
  obtains d1 and alog :: u32 where
    "length d1 = length d" "\<And>i. i \<notin> {12..<20} \<Longrightarrow> d1 ! i = d ! i"
    "src_addr le d1 = nat_target direction False nats (src_addr le d)" "dst_addr le d1 = nat_target direction True nats (dst_addr le d)"
    "client_nat_transform le nats d direction = (if alog = 0 then d else
       (let a = both_sum le d - both_sum le d1; h = adjust_field le a 10 d1
        in case transport_check d of None \<Rightarrow> h | Some i \<Rightarrow> adjust_field le a i h))" "alog = 0 \<Longrightarrow> d1 = d"
proof -
  obtain d1 a alog where f: "fold (nat_rule le direction) nats (d, 0, 0) = (d1, a, alog)" by (cases "fold (nat_rule le direction) nats (d, 0, 0)")
  have "(0 :: u32) \<in> {0, 1, 2, 3}" by simp
  note L = nat_fold_law [OF assms this f]
  have a: "a = both_sum le d - both_sum le d1" using L by simp
  have l: "length d1 = length d" "d1 ! 9 = d ! 9" "Suc 10 < length d1" using L assms by auto
  have nine: "adjust_field le a 10 d1 ! 9 = d ! 9" using adjust_field_nth [OF l(3), of 9] l(2) by simp
  have "client_nat_transform le nats d direction = (if alog = 0 then d else
       (let a = both_sum le d - both_sum le d1; h = adjust_field le a 10 d1
        in case transport_check d of None \<Rightarrow> h | Some i \<Rightarrow> adjust_field le a i h))"
    using f nine l L by (simp add: client_nat_transform_def Let_def transport_check_def a)
  then show ?thesis by (rule that [of d1 alog, rotated 4]) (use L in auto)
qed

lemma header_kept:
  assumes "20 \<le> length d" "\<And>i. i \<notin> {10, 11, 26, 27, 36, 37} \<Longrightarrow> d' ! i = d ! i" "length d' = length d"
  shows "segment 12 4 d' = segment 12 4 d" "segment 16 4 d' = segment 16 4 d"
  using assms by (auto intro!: nth_equalityI simp: segment_nth)

lemma client_nat_law:
  assumes "20 \<le> length d"
  shows "let d' = client_nat_transform le nats d direction in
    length d' = length d
    \<and> src_addr le d' = nat_target direction False nats (src_addr le d) \<and> dst_addr le d' = nat_target direction True nats (dst_addr le d)
    \<and> tcp_sum le (take 20 d') mod 65535 = tcp_sum le (take 20 d) mod 65535
    \<and> (transport_check d \<noteq> None \<longrightarrow>
        (both_sum le d' + tcp_sum le (drop 20 d')) mod 65535 = (both_sum le d + tcp_sum le (drop 20 d)) mod 65535)
    \<and> (\<forall>i. i \<notin> {10..<20} \<longrightarrow> transport_check d \<noteq> Some i \<longrightarrow> transport_check d \<noteq> Some (i - 1) \<longrightarrow> d' ! i = d ! i)
    \<and> (\<forall>i. transport_check d = Some i \<longrightarrow> native16 le (d' ! i) (d' ! Suc i) mod 65535
         = (both_sum le d - both_sum le d' + native16 le (d ! i) (d ! Suc i)) mod 65535)"
proof (rule client_nat_transform_law [OF assms, of le direction nats])
  fix d1 and alog :: u32
  assume l: "length d1 = length d" and same: "\<And>i. i \<notin> {12..<20} \<Longrightarrow> d1 ! i = d ! i"
    and addrs: "src_addr le d1 = nat_target direction False nats (src_addr le d)" "dst_addr le d1 = nat_target direction True nats (dst_addr le d)"
    and eq: "client_nat_transform le nats d direction = (if alog = 0 then d else
       (let a = both_sum le d - both_sum le d1; h = adjust_field le a 10 d1
        in case transport_check d of None \<Rightarrow> h | Some i \<Rightarrow> adjust_field le a i h))"
    and no: "alog = 0 \<Longrightarrow> d1 = d"
  show ?thesis
  proof (cases "alog = 0")
    case True
    then show ?thesis using eq no addrs by simp
  next
    case False
    define a where "a = both_sum le d - both_sum le d1"
    define h where "h = adjust_field le a 10 d1"
    define d' where "d' = (case transport_check d of None \<Rightarrow> h | Some i \<Rightarrow> adjust_field le a i h)"
    have e: "client_nat_transform le nats d direction = d'" using False eq unfolding d'_def h_def a_def Let_def by simp
    have ab: "\<bar>a\<bar> \<le> 262140" using both_sum_range [of le d] both_sum_range [of le d1] by (simp add: a_def abs_le_iff)
    have h: "length h = length d" using l assms by (simp add: h_def)
    have t: "Suc i < length d \<and> 20 \<le> i \<and> even i \<and> i \<in> {26, 36}" if "transport_check d = Some i" for i
      using that by (auto simp: transport_check_def split: if_splits)
    have len: "length d' = length d" using h t by (auto simp: d'_def split: option.splits)
    have hn: "h ! i = d1 ! i" if "i \<noteq> 10" "i \<noteq> 11" for i
      using adjust_field_nth [of 10 d1 i le a] that l assms by (simp add: h_def)
    have dn: "d' ! i = h ! i" if "transport_check d \<noteq> Some i" "i = 0 \<or> transport_check d \<noteq> Some (i - 1)" for i
      using that t h adjust_field_nth [of _ h i le a] by (cases "transport_check d") (auto simp: d'_def)
    have d1': "d' ! i = d1 ! i" if "i \<notin> {10, 11, 26, 27, 36, 37}" for i
    proof -
      have "transport_check d \<noteq> Some i" "i = 0 \<or> transport_check d \<noteq> Some (i - 1)" using that t by fastforce+
      then show ?thesis using dn hn that by simp
    qed
    have seg: "segment 12 4 d' = segment 12 4 d1" "segment 16 4 d' = segment 16 4 d1"
      using header_kept [of d1 d'] assms l len d1' by auto
    have both: "both_sum le d' = both_sum le d1" using seg by (simp add: both_sum_def)
    have "take 20 d' = take 20 h" using t h by (cases "transport_check d") (auto simp: d'_def adjust_field_list)
    also have "\<dots> = adjust_field le a 10 (take 20 d1)" unfolding h_def using l assms by (intro adjust_field_take) auto
    finally have "tcp_sum le (take 20 d') mod 65535 = (tcp_sum le (take 20 d1) + a) mod 65535"
      using l assms ab by (simp add: adjust_field_sum)
    moreover have "take 12 d1 = take 12 d" using l assms same by (auto intro!: nth_equalityI)
    then have "tcp_sum le (take 20 d1) + a = tcp_sum le (take 20 d)"
      using both_sum_tcp_sum [of d le] both_sum_tcp_sum [of d1 le] assms l by (simp add: a_def)
    ultimately have ip: "tcp_sum le (take 20 d') mod 65535 = tcp_sum le (take 20 d) mod 65535" by simp
    have rest: "drop 20 h = drop 20 d" using l assms same hn h by (auto intro!: nth_equalityI)
    have tp: "(both_sum le d' + tcp_sum le (drop 20 d')) mod 65535 = (both_sum le d + tcp_sum le (drop 20 d)) mod 65535"
      if some: "transport_check d \<noteq> None"
    proof -
      obtain i where i: "transport_check d = Some i" using some by blast
      have "drop 20 d' = adjust_field le a (i - 20) (drop 20 d)"
        using t [OF i] h rest by (simp add: d'_def i adjust_field_drop)
      then have "tcp_sum le (drop 20 d') mod 65535 = (tcp_sum le (drop 20 d) + a) mod 65535"
        using t [OF i] ab adjust_field_sum [of "i - 20" "drop 20 d" a le] by auto
      then have "(both_sum le d' + tcp_sum le (drop 20 d')) mod 65535 = (both_sum le d1 + (tcp_sum le (drop 20 d) + a)) mod 65535"
        unfolding both by (rule mod_add_cong [OF refl])
      then show ?thesis by (simp add: a_def algebra_simps)
    qed
    have "d' ! i = d ! i" if "i \<notin> {10..<20}" "transport_check d \<noteq> Some i" "transport_check d \<noteq> Some (i - 1)" for i
      using dn [of i] hn [of i] same [of i] that by (cases "i = 10 \<or> i = 11") auto
    moreover have "src_addr le d' = nat_target direction False nats (src_addr le d)" "dst_addr le d' = nat_target direction True nats (dst_addr le d)"
      using addrs by (simp_all add: src_addr_def dst_addr_def seg)
    moreover have "native16 le (d' ! i) (d' ! Suc i) mod 65535 = (both_sum le d - both_sum le d' + native16 le (d ! i) (d ! Suc i)) mod 65535"
      if i: "transport_check d = Some i" for i
      using adjust_field_value [of i h a le] t [OF i] h ab hn same unfolding both a_def [symmetric] by (auto simp: d'_def i)
    ultimately show ?thesis unfolding e Let_def using len ip tp by blast
  qed
qed

lemma client_nat_addresses:
  assumes "20 \<le> length d"
  shows "src_addr le (client_nat_transform le nats d direction) = nat_target direction False nats (src_addr le d)"
    "dst_addr le (client_nat_transform le nats d direction) = nat_target direction True nats (dst_addr le d)"
  using client_nat_law [OF assms, of le nats direction] unfolding Let_def by blast+

text \<open>
  C35: Translation of addresses. In a packet of at least 20 bytes, client_nat_transform replaces the
  source and the destination address by what the first rule that applies to each says and leaves
  everything else but the checksums; the sum over the IP header is unchanged, and so is the sum over
  the two addresses and the TCP or UDP segment after a header without options, where its checksum is
  in the packet: a packet that had right checksums has right checksums after the translation.
\<close>

theorem client_nat_keeps_checksums:
  assumes "20 \<le> length d"
  shows "let d' = client_nat_transform le nats d direction in
    length d' = length d
    \<and> src_addr le d' = nat_target direction False nats (src_addr le d) \<and> dst_addr le d' = nat_target direction True nats (dst_addr le d)
    \<and> tcp_sum le (take 20 d') mod 65535 = tcp_sum le (take 20 d) mod 65535
    \<and> (transport_check d \<noteq> None \<longrightarrow>
        (both_sum le d' + tcp_sum le (drop 20 d')) mod 65535 = (both_sum le d + tcp_sum le (drop 20 d)) mod 65535)
    \<and> (\<forall>i. i \<notin> {10..<20} \<longrightarrow> transport_check d \<noteq> Some i \<longrightarrow> transport_check d \<noteq> Some (i - 1) \<longrightarrow> d' ! i = d ! i)"
  using client_nat_law [OF assms, of le nats direction] unfolding Let_def by blast

text \<open>A TCP segment from 10.0.0.1 to 1.2.3.4, and two rules for 10.0.0.0/24 and 1.2.3.0/24.\<close>

definition demo_nats :: client_nat_option_list where
  "demo_nats = fst (add_entry (fst (add_entry new_client_nat_list
     \<lparr>cn_type = CN_SNAT, cn_network = 0x0A000000, cn_netmask = 0xFFFFFF00, cn_foreign_network = 0xC0A80500\<rparr>))
     \<lparr>cn_type = CN_DNAT, cn_network = 0x01020300, cn_netmask = 0xFFFFFF00, cn_foreign_network = 0x0A090800\<rparr>)"

definition demo_ip :: "u8 \<Rightarrow> bytes" where
  "demo_ip protocol = [0x45, 0, 0, 40, 0, 0, 0, 0, 64, protocol, 0x12, 0x34, 10, 0, 0, 1, 1, 2, 3, 4] @ replicate 20 0"

theorem client_nat_keeps_checksums_witness:
  "let d' = client_nat_transform False demo_nats (demo_ip 6) CN_OUTGOING in
     (both_sum False d' + tcp_sum False (drop 20 d')) mod 65535 = (both_sum False (demo_ip 6) + tcp_sum False (drop 20 (demo_ip 6))) mod 65535"
proof -
  have "20 \<le> length (demo_ip 6)" "transport_check (demo_ip 6) \<noteq> None" by (simp_all add: demo_ip_def transport_check_def)
  then show ?thesis using client_nat_keeps_checksums [of "demo_ip 6" False demo_nats CN_OUTGOING] unfolding Let_def by blast
qed

subsection \<open>Replies\<close>

text \<open>Rules one to one: the networks have no host bits, and two rules of a type share no foreign address.\<close>

fun nat_rules_ok :: "client_nat_option_list \<Rightarrow> bool" where
  "nat_rules_ok [] \<longleftrightarrow> True"
| "nat_rules_ok (e # es) \<longleftrightarrow> cn_type e \<in> {CN_SNAT, CN_DNAT}
     \<and> cn_network e AND cn_netmask e = cn_network e \<and> cn_foreign_network e AND cn_netmask e = cn_foreign_network e
     \<and> list_all (\<lambda>f. cn_type f = cn_type e \<longrightarrow> cn_foreign_network f AND cn_netmask e \<noteq> cn_foreign_network e AND cn_netmask f) es
     \<and> nat_rules_ok es"

text \<open>The address is one of the translated networks, or none of the foreign ones.\<close>

definition nat_known :: "bool \<Rightarrow> client_nat_option_list \<Rightarrow> u32 \<Rightarrow> bool" where
  "nat_known is_dst nats a \<longleftrightarrow> list_ex (nat_applies CN_OUTGOING is_dst a) nats \<or> \<not> list_ex (nat_applies CN_INCOMING (\<not> is_dst) a) nats"

lemma word_split: "(a AND NOT m) OR (a AND m) = (a :: u32)"
  by (rule bit_word_eqI) (auto simp: bit_simps)

lemma nat_applies_types:
  assumes "cn_type e \<in> {CN_SNAT, CN_DNAT}"
  shows "nat_applies CN_OUTGOING b a e \<longleftrightarrow> (cn_type e = CN_DNAT) = b \<and> a AND cn_netmask e = cn_network e"
    "nat_applies CN_INCOMING b a e \<longleftrightarrow> (cn_type e = CN_SNAT) = b \<and> a AND cn_netmask e = cn_foreign_network e"
  using assms by (auto simp: nat_applies_def nat_from_def CN_SNAT_def CN_DNAT_def CN_OUTGOING_def CN_INCOMING_def)

lemma nat_there_and_back:
  fixes a m n f :: u32
  assumes "a AND m = n" "f AND m = f"
  shows "((a AND NOT m) OR f) AND m = f" "((((a AND NOT m) OR f) AND NOT m) OR n) = a"
proof -
  show f: "((a AND NOT m) OR f) AND m = f"
    by (subst (2) assms(2) [symmetric]) (rule bit_word_eqI, auto simp: bit_simps)
  have "((a AND NOT m) OR f) AND NOT m = a AND NOT m"
    by (subst assms(2) [symmetric]) (rule bit_word_eqI, auto simp: bit_simps)
  then show "((((a AND NOT m) OR f) AND NOT m) OR n) = a" using word_split [of a m] assms(1) by simp
qed

lemma nat_target_inverse:
  "nat_rules_ok nats \<Longrightarrow> nat_known is_dst nats a \<Longrightarrow>
     nat_target CN_INCOMING (\<not> is_dst) nats (nat_target CN_OUTGOING is_dst nats a) = a"
proof (induction nats)
  case (Cons e es)
  have ty: "cn_type e \<in> {CN_SNAT, CN_DNAT}" "nat_rules_ok es" using Cons.prems by simp_all
  note ap = nat_applies_types [OF ty(1)]
  have m: "cn_network e AND cn_netmask e = cn_network e" "cn_foreign_network e AND cn_netmask e = cn_foreign_network e" using Cons.prems by simp_all
  have dir: "nat_to CN_OUTGOING e = cn_foreign_network e" "nat_to CN_INCOMING e = cn_network e" by (simp_all add: nat_to_def CN_OUTGOING_def CN_INCOMING_def)
  show ?case
  proof (cases "nat_applies CN_OUTGOING is_dst a e")
    case True
    have n: "a AND cn_netmask e = cn_network e" "(cn_type e = CN_SNAT) = (\<not> is_dst)" using True ap(1) ty(1) by (auto simp: CN_SNAT_def CN_DNAT_def)
    note b = nat_there_and_back [OF n(1) m(2)]
    have "nat_applies CN_INCOMING (\<not> is_dst) ((a AND NOT (cn_netmask e)) OR cn_foreign_network e) e"
      unfolding ap(2) using b(1) n(2) by simp
    then show ?thesis using True b(2) by (simp add: nat_target_Cons dir)
  next
    case False
    define t where "t = nat_target CN_OUTGOING is_dst es a"
    have "\<not> nat_applies CN_INCOMING (\<not> is_dst) t e"
    proof (cases "list_ex (nat_applies CN_OUTGOING is_dst a) es")
      case True
      then obtain f where f: "find (nat_applies CN_OUTGOING is_dst a) es = Some f" by (cases "find (nat_applies CN_OUTGOING is_dst a) es") (auto simp: find_None_iff list_ex_iff)
      then have fm: "f \<in> set es" "nat_applies CN_OUTGOING is_dst a f" by (auto simp: find_Some_iff)
      have "nat_rules_ok es \<Longrightarrow> f \<in> set es \<Longrightarrow> cn_type f \<in> {CN_SNAT, CN_DNAT} \<and> cn_foreign_network f AND cn_netmask f = cn_foreign_network f" for es
        by (induction es) auto
      then have fok: "cn_type f \<in> {CN_SNAT, CN_DNAT}" "cn_foreign_network f AND cn_netmask f = cn_foreign_network f" using ty(2) fm(1) by blast+
      have ft: "(cn_type f = CN_DNAT) = is_dst" "a AND cn_netmask f = cn_network f" using fm(2) nat_applies_types(1) [OF fok(1)] by blast+
      have t: "t = (a AND NOT (cn_netmask f)) OR cn_foreign_network f" using f by (simp add: t_def nat_target_def nat_to_def CN_OUTGOING_def)
      have tf: "t AND cn_netmask f = cn_foreign_network f" unfolding t by (rule nat_there_and_back(1) [OF ft(2) fok(2)])
      show ?thesis
      proof
        assume "nat_applies CN_INCOMING (\<not> is_dst) t e"
        then have te: "t AND cn_netmask e = cn_foreign_network e" "cn_type e = cn_type f"
          unfolding ap(2) using ft(1) fok(1) ty(1) by (auto simp: CN_SNAT_def CN_DNAT_def)
        then have "cn_foreign_network f AND cn_netmask e = cn_foreign_network e AND cn_netmask f"
          unfolding tf [symmetric] te(1) [symmetric] by (simp add: ac_simps)
        then show False using Cons.prems(1) fm(1) te(2) by (simp add: list_all_iff)
      qed
    next
      case none: False
      then have "find (nat_applies CN_OUTGOING is_dst a) es = None" by (simp add: find_None_iff list_ex_iff)
      then have "t = a" by (simp add: t_def nat_target_def)
      then show ?thesis using Cons.prems(2) False none by (simp add: nat_known_def)
    qed
    moreover have "nat_known is_dst es a" using Cons.prems(2) False by (auto simp: nat_known_def)
    ultimately show ?thesis using Cons.IH ty(2) False by (simp add: nat_target_Cons t_def)
  qed
qed simp

text \<open>
  C36: Replies come back. Take rules whose networks have no host bits and whose foreign networks do not
  overlap within a type, and a packet of at least 20 bytes each of whose two addresses is one that the
  rules translate (it lies in a network of a rule for it) or lies in none of the foreign networks that
  a reply is translated from. Then the reply to the translated packet, with source and destination
  exchanged, is translated back to the addresses of the client and of the one it talked to. (An
  untranslated address inside a foreign network would be mistaken for a translated one.)
\<close>

theorem client_nat_replies:
  assumes "nat_rules_ok nats" "20 \<le> length d" "20 \<le> length r"
    and "nat_known False nats (src_addr le d)" "nat_known True nats (dst_addr le d)"
    and "src_addr le r = dst_addr le (client_nat_transform le nats d CN_OUTGOING)"
    and "dst_addr le r = src_addr le (client_nat_transform le nats d CN_OUTGOING)"
  shows "src_addr le (client_nat_transform le nats r CN_INCOMING) = dst_addr le d \<and> dst_addr le (client_nat_transform le nats r CN_INCOMING) = src_addr le d"
  using client_nat_addresses [OF assms(2), of le nats CN_OUTGOING] client_nat_addresses [OF assms(3), of le nats CN_INCOMING]
    nat_target_inverse [OF assms(1,4)] nat_target_inverse [OF assms(1,5)] assms(6,7) by simp

theorem client_nat_replies_witness:
  "let r = client_nat_transform False demo_nats (demo_ip 6) CN_OUTGOING;
       reply = take 12 r @ segment 16 4 r @ segment 12 4 r @ drop 20 r
   in src_addr False (client_nat_transform False demo_nats reply CN_INCOMING) = dst_addr False (demo_ip 6)"
proof -
  define r where "r = client_nat_transform False demo_nats (demo_ip 6) CN_OUTGOING"
  have r: "r = [0x45, 0, 0, 40, 0, 0, 0, 0, 64, 6, 72, 132, 192, 168, 5, 1, 10, 9, 8, 4] @ replicate 16 0 @ [54, 80, 0, 0]"
    unfolding r_def by code_simp
  have "nat_rules_ok demo_nats" "nat_known False demo_nats (src_addr False (demo_ip 6))" "nat_known True demo_nats (dst_addr False (demo_ip 6))"
    by code_simp+
  then show ?thesis
    using client_nat_replies [of demo_nats "demo_ip 6" "take 12 r @ segment 16 4 r @ segment 12 4 r @ drop 20 r" False]
    unfolding r_def [symmetric] Let_def by (simp add: src_addr_def dst_addr_def r segment_def demo_ip_def numeral_eq_Suc)
qed

subsection \<open>Where the checksum of the transport header is not\<close>

text \<open>
  C37: A UDP datagram may say with a checksum of zero that none was computed. client_nat_transform
  adjusts it all the same: after a translation that changes the sum of the addresses the field is not
  zero any more, and whatever the data, the receiver takes it for a checksum.
\<close>

theorem udp_zero_checksum_adjusted:
  assumes "28 \<le> length d" "d ! 9 = 17" "d ! 26 = 0" "d ! 27 = 0"
    and "both_sum le (client_nat_transform le nats d direction) mod 65535 \<noteq> both_sum le d mod 65535"
  shows "native16 le (client_nat_transform le nats d direction ! 26) (client_nat_transform le nats d direction ! 27) mod 65535
     = (both_sum le d - both_sum le (client_nat_transform le nats d direction)) mod 65535
   \<and> native16 le (client_nat_transform le nats d direction ! 26) (client_nat_transform le nats d direction ! 27) \<noteq> 0"
proof -
  have "20 \<le> length d" "transport_check d = Some 26" using assms(1,2) by (simp_all add: transport_check_def)
  then have v: "native16 le (client_nat_transform le nats d direction ! 26) (client_nat_transform le nats d direction ! 27) mod 65535
     = (both_sum le d - both_sum le (client_nat_transform le nats d direction) + native16 le (d ! 26) (d ! 27)) mod 65535"
    using client_nat_law [of d le nats direction] unfolding Let_def by simp
  have z: "native16 le (d ! 26) (d ! 27) = 0" using assms(3,4) by (simp add: native16_def)
  have "(both_sum le d - both_sum le (client_nat_transform le nats d direction)) mod 65535 \<noteq> 0"
    using assms(5) by (metis mod_eq_dvd_iff mod_0_imp_dvd)
  then show ?thesis using v unfolding z by (metis add_0_right mod_0)
qed

theorem udp_zero_checksum_adjusted_witness:
  "native16 False (client_nat_transform False demo_nats (demo_ip 17) CN_OUTGOING ! 26) (client_nat_transform False demo_nats (demo_ip 17) CN_OUTGOING ! 27) \<noteq> 0"
proof -
  have "both_sum False (client_nat_transform False demo_nats (demo_ip 17) CN_OUTGOING) = 0xC0A8 + 0x501 + 0xA09 + 0x804" by code_simp
  moreover have "both_sum False (demo_ip 17) = 0xA00 + 1 + 0x102 + 0x304" by code_simp
  ultimately show ?thesis
    using udp_zero_checksum_adjusted [of "demo_ip 17" False demo_nats CN_OUTGOING] by (simp add: demo_ip_def)
qed

text \<open>
  Nor does client_nat_transform look at the fragment offset: in a later fragment of a TCP segment the two
  bytes at the place of the checksum are data, and they are changed.
\<close>

lemma later_fragment_changed:
  "let d = (demo_ip 6)[6 := 0, 7 := 100] in drop 20 (client_nat_transform False demo_nats d CN_OUTGOING) \<noteq> drop 20 d"
  by code_simp

end
