(* ===== verification/Spec2Isabelle.thy ===== *)
theory Spec2Isabelle
  imports Packet_Id Buffer_Text Buffer_List Reliable_Protocol Timing Fragment Schedule Base64 Mss Multi_Lookup Stream_Socket Data_Session Pool Clinat
begin

text \<open>
  A model of the core of the OpenVPN daemon in C that the application embeds: the directory
  \<open>src/openvpn/src/main/cpp/openvpn/src/openvpn\<close>, written \<open>OV\<close> below, with the build options of
  the application (fragmentation, management, debug messages, LZO and LZ4 on, Android).

  \<^bold>\<open>The program.\<close>  A client and a server exchange datagrams. A datagram of the data channel
  carries an encrypted packet of the tunnel; the plaintext begins with a packet identifier, which
  is checked against replays, and may be one fragment of a larger packet. A datagram of the
  control channel carries one record of the TLS stream, numbered, acknowledged and retransmitted
  by the reliability layer. The server decides with a table of virtual addresses to which client a
  packet of the tunnel goes, and wakes its clients by a queue of timers. All parts keep their data
  in buffers, lists and hash tables of their own.

  \<^bold>\<open>Theories, in the order of their imports.\<close>
  \<^item> \<open>Ovpn_Prelude\<close>: named collections of facts, lists, bytes in network order, \<open>ASSERT\<close>.
  \<^item> \<open>Ovpn_Integer\<close> (\<open>integer.h\<close>), \<open>Circ_List\<close> (\<open>circ_list.h\<close>): clipping, moduli and powers of two;
    the ring of the replay window with its invariant and its logical content.
  \<^item> \<open>Buffer\<close>, \<open>Buffer_Text\<close>, \<open>Buffer_List\<close> (\<open>buffer.c\<close>, \<open>buffer.h\<close>): the window \<open>offset\<close>, \<open>len\<close>,
    \<open>capacity\<close> over a block of bytes. A well-formed buffer stays so under every operation and no
    operation touches a byte outside the block; integers written are read back; lines, hex text
    and character classes; lists of buffers as queues; the two lists of an arena.
  \<^item> \<open>Packet_Id\<close> (\<open>packet_id.c\<close>, \<open>packet_id.h\<close>, \<open>crypto_check_replay\<close> of \<open>crypto.c\<close>): the sending
    counter, the replay window, its expiry and the state kept on disk. No packet is accepted twice,
    the window accepts exactly what its specification accepts, identifiers sent are distinct on the
    wire in the long and in the short form; after a restart the window below the identifier read back
    from disk is open again.
  \<^item> \<open>Reliable\<close>, \<open>Reliable_Protocol\<close> (\<open>reliable.c\<close>, \<open>session_id.h\<close>, two steps of \<open>ssl.c\<close>): records
    of acknowledgements, send and receive windows; then two ends connected by a network that loses,
    duplicates and reorders, as a step relation, with the invariant that what was delivered is a
    prefix of what was sent.
  \<^item> \<open>Timing\<close> (\<open>otime.c\<close>, \<open>otime.h\<close>, \<open>interval.c\<close>, \<open>interval.h\<close>): clock, timers, rate limits.
  \<^item> \<open>Fragment\<close> (\<open>fragment.c\<close>, \<open>fragment.h\<close>, the frame record of \<open>mtu.h\<close>): cutting and reassembly,
    with a reference receiver that keeps the parts of the datagrams of its window and forgets those
    whose last part is older than the ten seconds of the code when the housekeeping timer runs.
  \<^item> \<open>Hash_Table\<close> (\<open>list.c\<close>, \<open>list.h\<close>): buckets with move to front, iterators with removal. The
    table refines a finite map from classes of equal keys to values; the loop that removes elements
    while it iterates is proved once, for any step, and instantiated for \<open>hash_remove_by_value\<close>, for
    the reaper and for the removal of stale routes.
  \<^item> \<open>Schedule\<close> (\<open>schedule.c\<close>, \<open>schedule.h\<close>): the treap with parent pointers as a store of nodes, its
    abstraction to a tree, and the refinement of a queue of events ordered by time.
  \<^item> \<open>Base64\<close> (\<open>base64.c\<close>), \<open>Mss\<close> (\<open>mss.c\<close>, macros of \<open>proto.h\<close>): round trip and bounds of the
    codec; the segment size option of a SYN packet and the incremental checksum.
  \<^item> \<open>Mroute\<close> (\<open>mroute.c\<close>, \<open>mroute.h\<close>): addresses found in packets, masking to a prefix, equality and
    hash of keys, the count of prefix lengths in use.
  \<^item> \<open>Multi_Route\<close>, \<open>Multi_Clients\<close>, \<open>Multi_Lookup\<close> (parts of \<open>multi.c\<close>, \<open>multi.h\<close>): routes and
    clients as numbered objects with reference counts, the hash table of virtual addresses, learning
    and lookup with its cache, networks announced by clients, closing a client, the reaper and the
    removal of stale routes. The reachable states keep an invariant from which every operation returns
    and the lookup is longest prefix match, except that on a server with \<open>--stale-routes-check\<close> a valid
    cached route may outlive the network it came from. A network written with host bits is entered and
    never found. The call of \<open>multi_close_instance\<close> at shutdown, after which the table is freed, is left out.

  \<^item> \<open>Frame\<close> (frame record of \<open>mtu.h\<close>), \<open>Stream_Socket\<close> (\<open>socket.c\<close>, \<open>socket.h\<close>, \<open>ps.c\<close>): packets over TCP. The
    stream buffer with its residual data refines a function that cuts one packet off a byte string,
    and a reader that gets the stream in any pieces gets back the packets.
  \<^item> \<open>Crypto\<close> (\<open>crypto.c\<close>, \<open>crypto.h\<close>): encryption, authentication and replay check of a data packet.
    Ciphers and keyed hashes are records of functions, arguments of the model. \<open>Data_Channel\<close> states
    what the code computes as functions on byte lists and proves the refinement in every mode;
    \<open>Data_Session\<close> follows two ends: whatever arrives, each datagram is accepted once at most and what
    is delivered was authenticated; with matching keys the receiver gets the plaintext back.

  \<^item> \<open>Pool\<close> (\<open>pool.c\<close>, \<open>pool.h\<close>, \<open>add_in6_addr\<close> of \<open>socket.c\<close>): the addresses of the clients. No two clients
    hold the same address; the choice of a slot equals a reference; the file of the pool is read back,
    with two cases in which it is not.

  \<^item> \<open>Clinat\<close> (\<open>clinat.c\<close>, \<open>clinat.h\<close>, the checksum macros of \<open>proto.h\<close>): translation of the addresses in
    IPv4 packets. Right checksums stay right, replies are translated back; UDP datagrams without a
    checksum and later fragments are not treated as they should be.

  \<^bold>\<open>Conventions.\<close>  C \<open>int\<close> and \<open>time_t\<close> are \<open>int\<close>; where the code does not keep a sum in the range of a 32-bit
  \<open>int\<close> (\<open>buf_copy_range\<close>, the counter of a rate limit) the sum is \<^const>\<open>int_sum\<close>, which has no value when
  it overflows. Unsigned types are words of their width and wrap. \<open>ASSERT\<close>, fatal messages and a dereference of \<open>NULL\<close> or of freed
  memory are \<open>None\<close> of an option type; return codes are values. Objects that are shared or compared by
  address (schedule entries, routes, clients) are numbered and live in a map from numbers to records;
  linked lists that are only walked are lists. The global \<open>now\<close>, random numbers and the answers of
  scripts are arguments. \<open>printf\<close> is modelled by the text it would produce; log messages are left out.
  Loops that follow pointers are \<open>partial_function (option)\<close> and proved to return on the invariant;
  the others are recursive functions with their measures.

  \<^bold>\<open>Interfaces.\<close>  Where one part relies on another through a contract, the contract is a locale that is
  interpreted on the model of the provider.

  \<^bold>\<open>Bounds.\<close>  The replay, sending and retransmission theorems run over any sequence of operations as long
  as fewer than \<open>2^31\<close> identifiers are used, after which the program itself renegotiates. Reassembly
  keeps 25 datagrams, the number of the code. Hash tables have at most \<open>2^30\<close> buckets, above which the
  rounding to a power of two overflows. The generation of the route cache is a 32-bit counter: the
  reachable states stop before it wraps. A rate limit is followed for fewer than \<open>2^31\<close> events, the range
  of its counter. The size computation of the base64 encoder is taken below \<open>2^29\<close> bytes, where it does not overflow. The random source of the scheduler must give a number
  different from the parent's within the loop of the code (\<^const>\<open>random_ok\<close>). The drain of a
  receive window uses at most 32 steps, more than the window holds.

  \<^bold>\<open>Not modelled.\<close>  Sockets, signals, child processes, the tunnel device, text for logs and the
  management interface: they are calls to the operating system. The primitives of
  cryptography and TLS belong to libraries outside the program; theorems that rely on a property of a
  cipher name it (\<^const>\<open>cipher_ok\<close>, \<^const>\<open>cipher_inverts\<close>). The other codebases of the repository (OpenVPN 3 in C++, the
  vendored libraries, the Kotlin and Java application) are separate programs. The manifest lists each
  part with its reason.
\<close>

end
